(* ===== verification/Prelude.thy ===== *)
theory Prelude
  imports Complex_Main "HOL-Library.Word" "HOL-Library.Signed_Division"
begin

text \<open>
  Shared vocabulary of the development.

  \<^item> \<open>exn\<close> and \<open>'a res\<close>: what a C++ function that may throw returns.  \<open>AssertFailed\<close>
    is a failed \<open>assert\<close>, \<open>DivideByZero\<close> an integer division by zero (undefined in
    C++, a trap on the platforms the program runs on), \<open>NullDeref\<close> a dereferenced null
    pointer, \<open>Undefined\<close> any other undefined behaviour (a dangling reference, a value read before
    it is set) and \<open>Diverges\<close> a loop that never ends; these are not exceptions and no \<open>catch\<close>
    sees them.
  \<^item> names for the fixed-width integers of the source;
  \<^item> the arithmetic facts on words, truncating division and powers of ten that the
    components share.
\<close>

unbundle bit_operations_syntax

named_theorems res_simps \<open>evaluation of computations that may throw\<close>
named_theorems wf_intros \<open>well-formedness of the values operations return\<close>

section \<open>Computations that may throw\<close>

datatype exn =
    RuntimeError string
  | LogicError string
  | OverflowError string
  | AssertFailed
  | DivideByZero
  | NullDeref
  | Undefined
  | Diverges

type_synonym 'a res = "exn + 'a"

abbreviation Ok :: "'a \<Rightarrow> 'a res" where "Ok \<equiv> Inr"
abbreviation Throw :: "exn \<Rightarrow> 'a res" where "Throw \<equiv> Inl"

primrec rbind :: "'a res \<Rightarrow> ('a \<Rightarrow> 'b res) \<Rightarrow> 'b res" where
  "rbind (Inl e) f = Inl e"
| "rbind (Inr x) f = f x"

definition require :: "bool \<Rightarrow> exn \<Rightarrow> unit res" where
  "require b e = (if b then Ok () else Throw e)"

text \<open>The values that \<open>catch (std::exception const&)\<close> catches.\<close>

fun is_std_exception :: "exn \<Rightarrow> bool" where
  "is_std_exception (RuntimeError _) = True"
| "is_std_exception (LogicError _) = True"
| "is_std_exception (OverflowError _) = True"
| "is_std_exception _ = False"

lemma rbind_eq_Ok [simp]: "rbind m f = Inr y \<longleftrightarrow> (\<exists>x. m = Inr x \<and> f x = Inr y)"
  by (cases m) auto

lemma rbind_eq_Throw: "rbind m f = Inl e \<longleftrightarrow> m = Inl e \<or> (\<exists>x. m = Inr x \<and> f x = Inl e)"
  by (cases m) auto

lemma rbind_assoc: "rbind (rbind m f) g = rbind m (\<lambda>x. rbind (f x) g)"
  by (cases m) auto

lemma rbind_Ok_right [simp]: "rbind m Inr = m"
  by (cases m) auto

lemma require_eq_Ok [simp]: "require b e = Inr u \<longleftrightarrow> b"
  by (simp add: require_def)

lemma require_eq_Throw [simp]: "require b e = Inl e' \<longleftrightarrow> \<not> b \<and> e' = e"
  by (auto simp: require_def)

lemma require_True [simp, res_simps]: "require True e = Inr ()"
  by (simp add: require_def)

lemma require_False [simp, res_simps]: "require False e = Inl e"
  by (simp add: require_def)

declare rbind.simps [res_simps]

section \<open>Fixed-width integers\<close>

type_synonym u8 = "8 word"
type_synonym u16 = "16 word"
type_synonym u32 = "32 word"
type_synonym u64 = "64 word"
type_synonym uint160 = "160 word"
type_synonym uint256 = "256 word"

text \<open>An unsigned multiplication that does not wrap around.\<close>

lemma unat_times_no_wrap:
  fixes v w :: "'a::len word"
  assumes "unat v * unat w < 2 ^ LENGTH('a)"
  shows "unat (v * w) = unat v * unat w"
  using assms by (simp add: unat_word_ariths)

lemma unat_plus_no_wrap:
  fixes v w :: "'a::len word"
  assumes "unat v + unat w < 2 ^ LENGTH('a)"
  shows "unat (v + w) = unat v + unat w"
  using assms by (simp add: unat_word_ariths)

lemma unat_times10_u64: "unat (v :: u64) < 1844674407370955161 \<Longrightarrow> unat (v * 10) = unat v * 10"
  by (simp add: unat_word_ariths)

lemma unat_div10_u64 [simp]: "unat ((v :: u64) div 10) = unat v div 10"
  by (simp add: unat_div)

lemma unat_u64_bound: "unat (v :: u64) < 18446744073709551616"
  using unsigned_less [of v, where 'a = nat] by simp

section \<open>Powers of ten\<close>

lemma power10_add_int:
  fixes a b :: int
  shows "(10 :: rat) powi (a + b) = 10 powi a * 10 powi b"
  by (simp add: power_int_add)

lemma power10_pos [simp]: "0 < (10 :: rat) powi a"
  by (simp add: zero_less_power_int)

lemma power10_mono: "a \<le> b \<Longrightarrow> (10 :: rat) powi a \<le> 10 powi b"
  by (simp add: power_int_increasing)

lemma power10_strict_mono: "a < b \<Longrightarrow> (10 :: rat) powi a < 10 powi b"
  by (simp add: power_int_strict_increasing)

lemma power10_Suc: "(10 :: rat) powi (a + 1) = 10 * 10 powi a"
  by (simp add: power_int_add)

lemma rat_div_bounds:
  fixes a d :: nat
  assumes "0 < d"
  shows "of_nat (a div d) \<le> (of_nat a / of_nat d :: rat)" "(of_nat a / of_nat d :: rat) < of_nat (a div d) + 1"
proof -
  have "(of_nat (a div d * d) :: rat) \<le> of_nat a" by (simp only: of_nat_le_iff) simp
  then show "of_nat (a div d) \<le> (of_nat a / of_nat d :: rat)" using assms by (simp add: le_divide_eq)
  have "a < (a div d + 1) * d" using assms dividend_less_div_times [of d a] by (simp add: algebra_simps)
  then have "(of_nat a :: rat) < of_nat ((a div d + 1) * d)" by (simp only: of_nat_less_iff)
  then show "(of_nat a / of_nat d :: rat) < of_nat (a div d) + 1" using assms by (simp add: divide_less_eq algebra_simps)
qed

section \<open>Packing a byte above 56 bits\<close>

lemma small_word_bits:
  fixes v :: "'a::len word"
  assumes "unat v < 2 ^ n" and "bit v k"
  shows "k < n"
proof (rule ccontr)
  assume "\<not> k < n"
  from assms(2) have "bit (unat v) k" by (simp add: bit_unsigned_iff)
  then have "2 ^ k \<le> unat v" by (metis bit_nat_iff div_less even_zero linorder_not_less odd_one zero_neq_one bit_iff_odd)
  moreover have "(2::nat) ^ n \<le> 2 ^ k" using \<open>\<not> k < n\<close> by simp
  ultimately show False using assms(1) by simp
qed

lemma or_push_bit_add:
  fixes v w :: "'a::len word"
  assumes "unat v < 2 ^ n"
  shows "push_bit n w OR v = push_bit n w + v"
  by (rule disjunctive_add [symmetric]) (auto simp: bit_simps dest: small_word_bits [OF assms])

lemma drop_or_push:
  fixes v w :: u64
  assumes "unat v < 2 ^ 56" and "unat w < 256"
  shows "drop_bit 56 (push_bit 56 w OR v) = w"
proof (rule bit_word_eqI)
  fix k assume "k < LENGTH(64)"
  have "unat w < 2 ^ 8" using assms(2) by simp
  then show "bit (drop_bit 56 (push_bit 56 w OR v)) k = bit w k"
    using small_word_bits [OF assms(1), of "56 + k"] small_word_bits [of w 8 k]
    by (auto simp: bit_simps)
qed

lemma low_or_push:
  fixes v w :: u64
  assumes "unat v < 2 ^ 56"
  shows "(push_bit 56 w OR v) AND NOT (push_bit 56 255) = v"
proof (rule bit_word_eqI)
  fix k assume k: "k < LENGTH(64)"
  have m: "(255 :: u64) = mask 8" by (simp add: mask_numeral)
  have "k < 56 \<or> \<not> bit v k" using small_word_bits [OF assms, of k] by auto
  then show "bit ((push_bit 56 w OR v) AND NOT (push_bit 56 255)) k = bit v k"
    using k by (auto simp: bit_simps m)
qed

end
