(* ===== verification/Amount.thy ===== *)
theory Amount
  imports Prelude
begin

unbundle bit_operations_syntax

text \<open>
  Currencies, issues and the amount type of the ledger: \<open>protocol/Issue.h\<close>,
  \<open>protocol/impl/UintTypes.cpp\<close> and the representation half of
  \<open>protocol/impl/STAmount.cpp\<close> (constructors, \<open>canonicalize\<close>, comparison, negation).

  An \<open>STAmount\<close> is a decimal floating-point number: a 64-bit mantissa \<open>mValue\<close>, a
  decimal exponent \<open>mOffset\<close> and a sign, with the issue it is denominated in.  The two
  native currencies (XRP and VBC) are integers of drops: their exponent is 0.
  The name of the field an amount is stored in (\<open>STBase::fName\<close>) takes no part in any
  computation and is not part of the record.
  The loops of the source are the recursive functions \<open>div10_up_to\<close>, \<open>mul10_down_to\<close>,
  \<open>scale_up\<close> and \<open>scale_down\<close>; \<open>std::uint64_t\<close> wraps around, as \<open>64 word\<close> does.
\<close>

section \<open>Currencies and issues\<close>

type_synonym Currency = uint160
type_synonym AccountID = uint160

record Issue =
  currency :: Currency
  account :: AccountID

definition xrpCurrency :: Currency where "xrpCurrency = 0"
definition vbcCurrency :: Currency where "vbcCurrency = 0xFF"
definition noCurrency :: Currency where "noCurrency = 1"

definition xrpAccount :: AccountID where "xrpAccount = 0"
definition vbcAccount :: AccountID where "vbcAccount = 0xFF"
definition noAccount :: AccountID where "noAccount = 1"

definition isXRP_cur :: "uint160 \<Rightarrow> bool" where "isXRP_cur c \<longleftrightarrow> c = 0"
definition isVBC_cur :: "uint160 \<Rightarrow> bool" where "isVBC_cur c \<longleftrightarrow> c = vbcCurrency"
definition isNative_cur :: "uint160 \<Rightarrow> bool" where
  "isNative_cur c \<longleftrightarrow> isXRP_cur c \<or> isVBC_cur c"

definition isXRP_acc :: "AccountID \<Rightarrow> bool" where "isXRP_acc c \<longleftrightarrow> c = 0"
definition isVBC_acc :: "AccountID \<Rightarrow> bool" where "isVBC_acc c \<longleftrightarrow> c = vbcAccount"
definition isNative_acc :: "AccountID \<Rightarrow> bool" where
  "isNative_acc c \<longleftrightarrow> isXRP_acc c \<or> isVBC_acc c"

definition xrpIssue :: Issue where
  "xrpIssue = \<lparr>currency = xrpCurrency, account = xrpAccount\<rparr>"
definition vbcIssue :: Issue where
  "vbcIssue = \<lparr>currency = vbcCurrency, account = vbcAccount\<rparr>"
definition noIssue :: Issue where
  "noIssue = \<lparr>currency = noCurrency, account = noAccount\<rparr>"

lemmas issue_defs =
  xrpCurrency_def vbcCurrency_def noCurrency_def xrpAccount_def vbcAccount_def noAccount_def
  isXRP_cur_def isVBC_cur_def isNative_cur_def isXRP_acc_def isVBC_acc_def isNative_acc_def
  xrpIssue_def vbcIssue_def noIssue_def

text \<open>\<open>base_uint::compare\<close> is the comparison of the big-endian bytes, the order of the word.\<close>

definition compare_uint :: "'a::len word \<Rightarrow> 'a word \<Rightarrow> int" where
  "compare_uint a b = (if a < b then -1 else if a > b then 1 else 0)"

definition isConsistent :: "Issue \<Rightarrow> bool" where
  "isConsistent ac \<longleftrightarrow>
     isXRP_cur (currency ac) = isXRP_acc (account ac) \<or>
     isVBC_cur (currency ac) = isVBC_acc (account ac)"

definition compare_issue :: "Issue \<Rightarrow> Issue \<Rightarrow> int" where
  "compare_issue lhs rhs =
     (let diff = compare_uint (currency lhs) (currency rhs) in
      if diff \<noteq> 0 then diff
      else if isNative_cur (currency lhs) then 0
      else compare_uint (account lhs) (account rhs))"

definition eq_issue :: "Issue \<Rightarrow> Issue \<Rightarrow> bool" where
  "eq_issue lhs rhs \<longleftrightarrow> compare_issue lhs rhs = 0"

definition less_issue :: "Issue \<Rightarrow> Issue \<Rightarrow> bool" where
  "less_issue lhs rhs \<longleftrightarrow> compare_issue lhs rhs < 0"

section \<open>The amount\<close>

record STAmount =
  mIssue :: Issue
  mValue :: u64
  mOffset :: int
  mIsNative :: bool
  mIsNegative :: bool

definition cMinOffset :: int where "cMinOffset = -96"
definition cMaxOffset :: int where "cMaxOffset = 80"
definition cMinValue :: u64 where "cMinValue = 1000000000000000"
definition cMaxValue :: u64 where "cMaxValue = 9999999999999999"
definition cMaxNative :: u64 where "cMaxNative = 9000000000000000000"
definition cMaxNativeN :: u64 where "cMaxNativeN = 100000000000000000"
definition cNotNative :: u64 where "cNotNative = 0x8000000000000000"
definition cPosNative :: u64 where "cPosNative = 0x4000000000000000"
definition cVBCNative :: u64 where "cVBCNative = 0x2000000000000000"

lemmas amount_consts =
  cMinOffset_def cMaxOffset_def cMinValue_def cMaxValue_def cMaxNative_def cMaxNativeN_def
  cNotNative_def cPosNative_def cVBCNative_def

definition isXRP :: "STAmount \<Rightarrow> bool" where "isXRP a \<longleftrightarrow> isXRP_cur (currency (mIssue a))"
definition isVBC :: "STAmount \<Rightarrow> bool" where "isVBC a \<longleftrightarrow> isVBC_cur (currency (mIssue a))"
definition isNative :: "STAmount \<Rightarrow> bool" where "isNative a \<longleftrightarrow> isXRP a \<or> isVBC a"

definition isNative_issue :: "Issue \<Rightarrow> bool" where
  "isNative_issue i \<longleftrightarrow> isNative_cur (currency i)"

lemma isNative_alt: "isNative a \<longleftrightarrow> isNative_issue (mIssue a)"
  by (simp add: isNative_def isNative_issue_def isXRP_def isVBC_def isNative_cur_def)

text \<open>\<open>signum\<close>; a comparison with \<open>beast::zero\<close> goes through it.\<close>

definition signum :: "STAmount \<Rightarrow> int" where
  "signum a = (if mValue a \<noteq> 0 then (if mIsNegative a then -1 else 1) else 0)"

definition is_zero :: "STAmount \<Rightarrow> bool" where
  "is_zero a \<longleftrightarrow> signum a = 0"

lemma is_zero_iff [simp]: "is_zero a \<longleftrightarrow> mValue a = 0"
  by (simp add: is_zero_def signum_def)

section \<open>canonicalize\<close>

text \<open>\<open>while (mOffset < t) { mValue /= 10; ++mOffset; }\<close>\<close>

function div10_up_to :: "int \<Rightarrow> u64 \<Rightarrow> int \<Rightarrow> u64 \<times> int" where
  "div10_up_to t v e = (if e < t then div10_up_to t (v div 10) (e + 1) else (v, e))"
  by pat_completeness auto
termination by (relation "measure (\<lambda>(t, v, e). nat (t - e))") auto

text \<open>\<open>while (mOffset > t) { mValue *= 10; --mOffset; }\<close>\<close>

function mul10_down_to :: "int \<Rightarrow> u64 \<Rightarrow> int \<Rightarrow> u64 \<times> int" where
  "mul10_down_to t v e = (if e > t then mul10_down_to t (v * 10) (e - 1) else (v, e))"
  by pat_completeness auto
termination by (relation "measure (\<lambda>(t, v, e). nat (e - t))") auto

text \<open>\<open>while ((mValue < cMinValue) && (mOffset > cMinOffset)) { mValue *= 10; --mOffset; }\<close>\<close>

function scale_up :: "u64 \<Rightarrow> int \<Rightarrow> u64 \<times> int" where
  "scale_up v e =
     (if v < cMinValue \<and> e > cMinOffset then scale_up (v * 10) (e - 1) else (v, e))"
  by pat_completeness auto
termination by (relation "measure (\<lambda>(v, e). nat (e + 96))") (auto simp: cMinOffset_def)

text \<open>\<open>while (mValue > cMaxValue) { if (mOffset >= cMaxOffset) Throw; mValue /= 10; ++mOffset; }\<close>\<close>

function scale_down :: "u64 \<Rightarrow> int \<Rightarrow> (u64 \<times> int) res" where
  "scale_down v e =
     (if v > cMaxValue then
        (if e \<ge> cMaxOffset then Throw (RuntimeError ''value overflow'')
         else scale_down (v div 10) (e + 1))
      else Ok (v, e))"
  by pat_completeness auto
termination by (relation "measure (\<lambda>(v, e). nat (80 - e))") (auto simp: cMaxOffset_def)

declare div10_up_to.simps [simp del] mul10_down_to.simps [simp del]
  scale_up.simps [simp del] scale_down.simps [simp del]

definition canonicalize_native :: "STAmount \<Rightarrow> STAmount res" where
  "canonicalize_native a0 =
     (let a = a0\<lparr>mIsNative := True\<rparr> in
      if mValue a = 0 then Ok (a\<lparr>mOffset := 0, mIsNegative := False\<rparr>)
      else
        let (v1, e1) = div10_up_to 0 (mValue a) (mOffset a);
            (v2, e2) = mul10_down_to 0 v1 e1
        in rbind (require (\<not> v2 > cMaxNativeN)
                    (RuntimeError ''Native currency amount out of range''))
             (\<lambda>_. Ok (a\<lparr>mValue := v2, mOffset := e2\<rparr>)))"

definition canonicalize_issued :: "STAmount \<Rightarrow> STAmount res" where
  "canonicalize_issued a0 =
     (let a = a0\<lparr>mIsNative := False\<rparr> in
      if mValue a = 0 then Ok (a\<lparr>mOffset := -100, mIsNegative := False\<rparr>)
      else
        let (v1, e1) = scale_up (mValue a) (mOffset a) in
        rbind (scale_down v1 e1) (\<lambda>(v2, e2).
          if e2 < cMinOffset \<or> v2 < cMinValue then
            Ok (a\<lparr>mValue := 0, mIsNegative := False, mOffset := -100\<rparr>)
          else
            rbind (require (\<not> e2 > cMaxOffset) (RuntimeError ''value overflow'')) (\<lambda>_.
            rbind (require (v2 = 0 \<or> v2 \<ge> cMinValue \<and> v2 \<le> cMaxValue) AssertFailed) (\<lambda>_.
            rbind (require (v2 = 0 \<or> e2 \<ge> cMinOffset \<and> e2 \<le> cMaxOffset) AssertFailed) (\<lambda>_.
            rbind (require (v2 \<noteq> 0 \<or> e2 \<noteq> -100) AssertFailed) (\<lambda>_.
              Ok (a\<lparr>mValue := v2, mOffset := e2\<rparr>)))))))"

definition canonicalize :: "STAmount \<Rightarrow> STAmount res" where
  "canonicalize a = (if isNative a then canonicalize_native a else canonicalize_issued a)"

section \<open>Constructors and modifiers\<close>

definition STAmount_canonical :: "Issue \<Rightarrow> u64 \<Rightarrow> int \<Rightarrow> bool \<Rightarrow> STAmount res" where
  "STAmount_canonical issue mantissa exponent negative =
     canonicalize \<lparr>mIssue = issue, mValue = mantissa, mOffset = exponent,
                   mIsNative = False, mIsNegative = negative\<rparr>"

definition STAmount_unchecked :: "Issue \<Rightarrow> u64 \<Rightarrow> int \<Rightarrow> bool \<Rightarrow> bool \<Rightarrow> STAmount" where
  "STAmount_unchecked issue mantissa exponent native negative =
     \<lparr>mIssue = issue, mValue = mantissa, mOffset = exponent,
      mIsNative = native, mIsNegative = negative\<rparr>"

definition STAmount_drops :: "u64 \<Rightarrow> bool \<Rightarrow> STAmount" where
  "STAmount_drops mantissa negative =
     \<lparr>mIssue = xrpIssue, mValue = mantissa, mOffset = 0,
      mIsNative = True, mIsNegative = (mantissa \<noteq> 0 \<and> negative)\<rparr>"

text \<open>\<open>set\<close>; the argument is an \<open>std::int64_t\<close> (its negation is undefined only at \<open>-2^63\<close>).\<close>

definition set_mantissa :: "int \<Rightarrow> STAmount \<Rightarrow> STAmount" where
  "set_mantissa v a =
     (if v < 0 then a\<lparr>mIsNegative := True, mValue := word_of_int (- v)\<rparr>
      else a\<lparr>mIsNegative := False, mValue := word_of_int v\<rparr>)"

definition native_issue :: "bool \<Rightarrow> Issue" where
  "native_issue isvbc = (if isvbc then vbcIssue else xrpIssue)"

definition STAmount_native :: "bool \<Rightarrow> int \<Rightarrow> STAmount" where
  "STAmount_native isvbc mantissa =
     set_mantissa mantissa
       \<lparr>mIssue = native_issue isvbc, mValue = 0, mOffset = 0, mIsNative = True, mIsNegative = False\<rparr>"

definition STAmount_native_u :: "bool \<Rightarrow> u64 \<Rightarrow> bool \<Rightarrow> STAmount" where
  "STAmount_native_u isvbc mantissa negative =
     \<lparr>mIssue = native_issue isvbc, mValue = mantissa, mOffset = 0,
      mIsNative = True, mIsNegative = negative\<rparr>"

definition STAmount_signed :: "Issue \<Rightarrow> int \<Rightarrow> int \<Rightarrow> STAmount res" where
  "STAmount_signed issue mantissa exponent =
     canonicalize (set_mantissa mantissa
       \<lparr>mIssue = issue, mValue = 0, mOffset = exponent, mIsNative = False, mIsNegative = False\<rparr>)"

definition zeroed :: "STAmount \<Rightarrow> STAmount res" where
  "zeroed a = STAmount_canonical (mIssue a) 0 0 False"

definition setIssue :: "Issue \<Rightarrow> STAmount \<Rightarrow> STAmount" where
  "setIssue issue a = (let b = a\<lparr>mIssue := issue\<rparr> in b\<lparr>mIsNative := isNative b\<rparr>)"

definition setIssuer :: "AccountID \<Rightarrow> STAmount \<Rightarrow> STAmount" where
  "setIssuer uIssuer a = setIssue ((mIssue a)\<lparr>account := uIssuer\<rparr>) a"

definition clear :: "STAmount \<Rightarrow> STAmount" where
  "clear a = a\<lparr>mOffset := if mIsNative a then 0 else -100, mValue := 0, mIsNegative := False\<rparr>"

definition clear_issue :: "Issue \<Rightarrow> STAmount \<Rightarrow> STAmount" where
  "clear_issue issue a = clear (setIssue issue a)"

definition negate :: "STAmount \<Rightarrow> STAmount" where
  "negate a = (if \<not> is_zero a then a\<lparr>mIsNegative := \<not> mIsNegative a\<rparr> else a)"

definition isLegalNet :: "STAmount \<Rightarrow> bool" where
  "isLegalNet a \<longleftrightarrow> \<not> mIsNative a \<or> mValue a \<le> cMaxNativeN"

definition isDefault :: "STAmount \<Rightarrow> bool" where
  "isDefault a \<longleftrightarrow> mValue a = 0 \<and> mIsNative a"

definition floor_amount :: "int \<Rightarrow> STAmount \<Rightarrow> STAmount res" where
  "floor_amount offset a =
     (let (v, e) = div10_up_to offset (mValue a) (mOffset a)
      in canonicalize (a\<lparr>mValue := v, mOffset := e\<rparr>))"

section \<open>Comparison and negation\<close>

definition areComparable :: "STAmount \<Rightarrow> STAmount \<Rightarrow> bool" where
  "areComparable v1 v2 \<longleftrightarrow>
     (if mIsNative v2 then mIsNative v1
      else mIsNative v1 = mIsNative v2 \<and> currency (mIssue v1) = currency (mIssue v2))"

definition eq_amount :: "STAmount \<Rightarrow> STAmount \<Rightarrow> bool" where
  "eq_amount lhs rhs \<longleftrightarrow>
     areComparable lhs rhs \<and> mIsNegative lhs = mIsNegative rhs \<and>
     mOffset lhs = mOffset rhs \<and> mValue lhs = mValue rhs"

definition less_amount :: "STAmount \<Rightarrow> STAmount \<Rightarrow> bool res" where
  "less_amount lhs rhs =
     (if \<not> areComparable lhs rhs then
        Throw (RuntimeError ''Can't compare amounts that are't comparable!'')
      else Ok
       (if mIsNegative lhs \<noteq> mIsNegative rhs then mIsNegative lhs
        else if mValue lhs = 0 then (if mIsNegative rhs then False else mValue rhs \<noteq> 0)
        else if mValue rhs = 0 then False
        else if mOffset lhs > mOffset rhs then mIsNegative lhs
        else if mOffset lhs < mOffset rhs then \<not> mIsNegative lhs
        else if mValue lhs > mValue rhs then mIsNegative lhs
        else if mValue lhs < mValue rhs then \<not> mIsNegative lhs
        else False))"

definition greater_amount :: "STAmount \<Rightarrow> STAmount \<Rightarrow> bool res" where
  "greater_amount lhs rhs = less_amount rhs lhs"

definition le_amount :: "STAmount \<Rightarrow> STAmount \<Rightarrow> bool res" where
  "le_amount lhs rhs = rbind (less_amount rhs lhs) (\<lambda>b. Ok (\<not> b))"

definition uminus_amount :: "STAmount \<Rightarrow> STAmount" where
  "uminus_amount value =
     (if mValue value = 0 then value
      else STAmount_unchecked (mIssue value) (mValue value) (mOffset value)
             (mIsNative value) (\<not> mIsNegative value))"

section \<open>What an amount denotes, and the canonical form\<close>

definition magnitude :: "nat \<Rightarrow> int \<Rightarrow> rat" where
  "magnitude n e = of_nat n * 10 powi e"

definition denote :: "STAmount \<Rightarrow> rat" where
  "denote a = (if mIsNegative a then - magnitude (unat (mValue a)) (mOffset a)
               else magnitude (unat (mValue a)) (mOffset a))"

text \<open>The canonical form of an issued amount, and of any amount.\<close>

definition canonical_issued :: "u64 \<Rightarrow> int \<Rightarrow> bool \<Rightarrow> bool" where
  "canonical_issued v e neg \<longleftrightarrow>
     v = 0 \<and> e = -100 \<and> \<not> neg \<or>
     1000000000000000 \<le> unat v \<and> unat v \<le> 9999999999999999 \<and> -96 \<le> e \<and> e \<le> 80"

definition wf_amount :: "STAmount \<Rightarrow> bool" where
  "wf_amount a \<longleftrightarrow> mIsNative a = isNative a \<and>
     (if isNative a then mOffset a = 0 \<and> unat (mValue a) \<le> 100000000000000000
      else canonical_issued (mValue a) (mOffset a) (mIsNegative a))"

definition proper :: "STAmount \<Rightarrow> bool" where
  "proper a \<longleftrightarrow> wf_amount a \<and> (mValue a = 0 \<longrightarrow> \<not> mIsNegative a)"

section \<open>The scaling loops\<close>

lemma cMin_nat [simp]: "unat cMinValue = 1000000000000000" by (simp add: cMinValue_def)
lemma cMax_nat [simp]: "unat cMaxValue = 9999999999999999" by (simp add: cMaxValue_def)
lemma cMaxNativeN_nat [simp]: "unat cMaxNativeN = 100000000000000000" by (simp add: cMaxNativeN_def)

lemma less_cMin_iff: "v < cMinValue \<longleftrightarrow> unat v < 1000000000000000"
  by (simp add: word_less_nat_alt)
lemma greater_cMax_iff: "cMaxValue < v \<longleftrightarrow> 9999999999999999 < unat v"
  by (simp add: word_less_nat_alt)
lemma greater_cMaxNativeN_iff: "cMaxNativeN < v \<longleftrightarrow> 100000000000000000 < unat v"
  by (simp add: word_less_nat_alt)
lemma ge_cMin_iff: "cMinValue \<le> v \<longleftrightarrow> 1000000000000000 \<le> unat v"
  by (simp add: word_le_nat_alt)
lemma le_cMax_iff: "v \<le> cMaxValue \<longleftrightarrow> unat v \<le> 9999999999999999"
  by (simp add: word_le_nat_alt)
lemma le_cMaxNativeN_iff: "v \<le> cMaxNativeN \<longleftrightarrow> unat v \<le> 100000000000000000"
  by (simp add: word_le_nat_alt)
lemmas value_bounds = less_cMin_iff greater_cMax_iff greater_cMaxNativeN_iff
  ge_cMin_iff le_cMax_iff le_cMaxNativeN_iff

lemma div10_up_to_eq:
  "e \<le> t \<Longrightarrow> unat (fst (div10_up_to t v e)) = unat v div 10 ^ nat (t - e) \<and> snd (div10_up_to t v e) = t"
proof (induction t v e rule: div10_up_to.induct)
  case (1 t v e)
  show ?case
  proof (cases "e < t")
    case True
    then have n: "nat (t - e) = Suc (nat (t - (e + 1)))" by simp
    from 1 True have "unat (fst (div10_up_to t (v div 10) (e + 1))) = unat v div 10 div 10 ^ nat (t - (e + 1))"
      and "snd (div10_up_to t (v div 10) (e + 1)) = t" by auto
    with True show ?thesis
      by (simp add: div10_up_to.simps [of t v e] n div_mult2_eq)
  next
    case False
    with 1 have "e = t" by simp
    then show ?thesis by (simp add: div10_up_to.simps)
  qed
qed

lemma div10_up_to_ge: "t \<le> e \<Longrightarrow> div10_up_to t v e = (v, e)"
  by (simp add: div10_up_to.simps)

lemma mul10_down_to_le: "e \<le> t \<Longrightarrow> mul10_down_to t v e = (v, e)"
  by (simp add: mul10_down_to.simps)

lemma mul10_down_to_eq:
  "t \<le> e \<Longrightarrow> mul10_down_to t v e = (v * 10 ^ nat (e - t), t)"
proof (induction t v e rule: mul10_down_to.induct)
  case (1 t v e)
  show ?case
  proof (cases "e > t")
    case True
    then have n: "nat (e - t) = Suc (nat (e - 1 - t))" by simp
    from 1 True have "mul10_down_to t (v * 10) (e - 1) = (v * 10 * 10 ^ nat (e - 1 - t), t)" by auto
    with True show ?thesis by (simp add: mul10_down_to.simps [of t v e] n mult.assoc)
  next
    case False
    with 1 have "e = t" by simp
    then show ?thesis by (simp add: mul10_down_to.simps)
  qed
qed

lemma scale_up_id: "unat v \<ge> 1000000000000000 \<or> e \<le> cMinOffset \<Longrightarrow> scale_up v e = (v, e)"
  by (auto simp: scale_up.simps [of v e] value_bounds)

lemma scale_up_spec:
  assumes "scale_up v e = (v', e')" and "v \<noteq> 0"
  shows "\<exists>k. unat v' = unat v * 10 ^ k \<and> e' = e - int k \<and>
           (unat v' < 1000000000000000 \<longrightarrow> e' \<le> cMinOffset) \<and>
           (k > 0 \<longrightarrow> unat v' \<le> 9999999999999999 \<and> cMinOffset \<le> e')"
  using assms
proof (induction v e rule: scale_up.induct)
  case (1 v e)
  show ?case
  proof (cases "v < cMinValue \<and> e > cMinOffset")
    case True
    then have lt: "unat v < 1000000000000000" by (simp add: value_bounds)
    then have t: "unat (v * 10) = unat v * 10" by (intro unat_times10_u64) simp
    from 1 True have s: "scale_up (v * 10) (e - 1) = (v', e')" by (simp add: scale_up.simps [of v e])
    have "v * 10 \<noteq> 0" using t 1(3) by (metis mult_eq_0_iff unat_eq_zero zero_neq_numeral)
    from 1(1) [OF True s this] obtain k where
      k: "unat v' = unat (v * 10) * 10 ^ k" "e' = e - 1 - int k"
         "unat v' < 1000000000000000 \<longrightarrow> e' \<le> cMinOffset"
         "k > 0 \<longrightarrow> unat v' \<le> 9999999999999999 \<and> cMinOffset \<le> e'" by blast
    have "unat v' \<le> 9999999999999999 \<and> cMinOffset \<le> e'"
      using k True t lt by (cases "k = 0") auto
    with k t show ?thesis by (intro exI [of _ "Suc k"]) (simp add: mult.assoc)
  next
    case False
    with 1 have "v' = v" "e' = e" by (auto simp: scale_up.simps [of v e])
    with False show ?thesis by (intro exI [of _ 0]) (auto simp: value_bounds)
  qed
qed

lemma scale_down_spec:
  assumes "scale_down v e = Ok (v', e')"
  shows "\<exists>k. unat v' = unat v div 10 ^ k \<and> e' = e + int k \<and> unat v' \<le> 9999999999999999 \<and>
           (k > 0 \<longrightarrow> 1000000000000000 \<le> unat v' \<and> e' \<le> cMaxOffset)"
  using assms
proof (induction v e rule: scale_down.induct)
  case (1 v e)
  show ?case
  proof (cases "v > cMaxValue")
    case True
    with 1(2) have ne: "\<not> e \<ge> cMaxOffset" and s: "scale_down (v div 10) (e + 1) = Ok (v', e')"
      by (auto simp: scale_down.simps [of v e] split: if_splits)
    from 1(1) [OF True ne s] obtain k where
      k: "unat v' = unat (v div 10) div 10 ^ k" "e' = e + 1 + int k" "unat v' \<le> 9999999999999999"
         "k > 0 \<longrightarrow> 1000000000000000 \<le> unat v' \<and> e' \<le> cMaxOffset" by blast
    have "1000000000000000 \<le> unat v' \<and> e' \<le> cMaxOffset"
      using k True ne by (cases "k = 0") (auto simp: value_bounds)
    with k show ?thesis by (intro exI [of _ "Suc k"]) (simp add: div_mult2_eq)
  next
    case False
    with 1 show ?thesis by (intro exI [of _ 0]) (auto simp: scale_down.simps [of v e] value_bounds)
  qed
qed

lemma scale_down_throw:
  assumes "scale_down v e = Throw x"
  shows "x = RuntimeError ''value overflow'' \<and> 
    (e \<le> cMaxOffset \<longrightarrow> unat v \<ge> 10 ^ nat (cMaxOffset - e) * 10000000000000000) \<and> unat v > 9999999999999999"
  using assms
proof (induction v e rule: scale_down.induct)
  case (1 v e)
  then have gt: "v > cMaxValue" by (auto simp: scale_down.simps [of v e] split: if_splits)
  show ?case
  proof (cases "e \<ge> cMaxOffset")
    case True
    with 1(2) gt show ?thesis by (auto simp: scale_down.simps [of v e] value_bounds)
  next
    case False
    with 1(2) gt have s: "scale_down (v div 10) (e + 1) = Throw x" by (simp add: scale_down.simps [of v e])
    from 1(1) [OF gt False s] False
    have ih: "x = RuntimeError ''value overflow''"
        "10 ^ nat (cMaxOffset - (e + 1)) * 10000000000000000 \<le> unat v div 10" by auto
    have n: "nat (cMaxOffset - e) = Suc (nat (cMaxOffset - (e + 1)))" using False by simp
    have "10 ^ nat (cMaxOffset - (e + 1)) * 10000000000000000 * 10 \<le> unat v"
      using ih(2) by (simp add: less_eq_div_iff_mult_less_eq)
    then show ?thesis using ih(1) gt n by (simp add: value_bounds mult_ac)
  qed
qed

section \<open>Magnitudes\<close>

lemma magnitude_nonneg [simp]: "0 \<le> magnitude n e"
  by (simp add: magnitude_def)

lemma magnitude_eq_0 [simp]: "magnitude n e = 0 \<longleftrightarrow> n = 0"
  by (simp add: magnitude_def)

lemma magnitude_0 [simp]: "magnitude 0 e = 0"
  by simp

lemma abs_denote: "\<bar>denote a\<bar> = magnitude (unat (mValue a)) (mOffset a)"
  by (simp add: denote_def)

lemma magnitude_scaled: "magnitude (n * 10 ^ k) (e - int k) = magnitude n e"
  by (simp add: magnitude_def power_int_diff)

lemma magnitude_mono: "m \<le> n \<Longrightarrow> magnitude m e \<le> magnitude n e"
  by (simp add: magnitude_def mult_right_mono)

lemma magnitude_strict_mono: "m < n \<Longrightarrow> magnitude m e < magnitude n e"
  by (simp add: magnitude_def)

lemma magnitude_power: "magnitude (10 ^ k) e = 10 powi (e + int k)"
  by (simp add: magnitude_def power_int_add)

lemma magnitude_truncated:
  "magnitude (n div 10 ^ k) (e + int k) \<le> magnitude n e"
  "magnitude n e < magnitude (n div 10 ^ k + 1) (e + int k)"
proof -
  have s: "magnitude (m * 10 ^ k) e = magnitude m (e + int k)" for m
    using magnitude_scaled [of m k "e + int k"] by simp
  show "magnitude (n div 10 ^ k) (e + int k) \<le> magnitude n e"
    unfolding s [symmetric] by (rule magnitude_mono) simp
  have "n < (n div 10 ^ k + 1) * 10 ^ k"
    using dividend_less_div_times [of "10 ^ k" n] by (simp add: algebra_simps)
  then show "magnitude n e < magnitude (n div 10 ^ k + 1) (e + int k)"
    unfolding s [symmetric] by (rule magnitude_strict_mono)
qed

lemma magnitude_less:
  assumes "n < 10 ^ k" and "e + int k \<le> d"
  shows "magnitude n e < 10 powi d"
  using magnitude_strict_mono [OF assms(1), of e] power10_mono [OF assms(2)]
  by (simp add: magnitude_power)

lemma magnitude_ge:
  assumes "10 ^ k \<le> n" and "d \<le> e + int k"
  shows "10 powi d \<le> magnitude n e"
  using magnitude_mono [OF assms(1), of e] power10_mono [OF assms(2)]
  by (simp add: magnitude_power)

lemmas magnitude_less16 = magnitude_less [where k = 16, simplified]
lemmas magnitude_less15 = magnitude_less [where k = 15, simplified]
lemmas magnitude_ge15 = magnitude_ge [where k = 15, simplified]

lemma canonicalize_issued_Ok:
  assumes ok: "canonicalize_issued a = Ok a'" and nz: "mValue a \<noteq> 0"
  shows "(mValue a' = 0 \<and> mOffset a' = -100 \<and> \<not> mIsNegative a' \<and> \<bar>denote a\<bar> < 10 powi (-81)) \<or>
    (1000000000000000 \<le> unat (mValue a') \<and> unat (mValue a') \<le> 9999999999999999 \<and>
     -96 \<le> mOffset a' \<and> mOffset a' \<le> 80 \<and> mIsNegative a' = mIsNegative a \<and>
     magnitude (unat (mValue a')) (mOffset a') \<le> \<bar>denote a\<bar> \<and>
     \<bar>denote a\<bar> < magnitude (unat (mValue a') + 1) (mOffset a'))"
proof -
  obtain v1 e1 where up: "scale_up (mValue a) (mOffset a) = (v1, e1)" by fastforce
  from ok nz up obtain v2 e2 where down: "scale_down v1 e1 = Ok (v2, e2)"
    by (auto simp: canonicalize_issued_def Let_def)
  from scale_up_spec [OF up nz] obtain k where
    k: "unat v1 = unat (mValue a) * 10 ^ k" "e1 = mOffset a - int k"
       "unat v1 < 1000000000000000 \<longrightarrow> e1 \<le> cMinOffset"
       "k > 0 \<longrightarrow> unat v1 \<le> 9999999999999999 \<and> cMinOffset \<le> e1" by blast
  from scale_down_spec [OF down] obtain j where
    j: "unat v2 = unat v1 div 10 ^ j" "e2 = e1 + int j" "unat v2 \<le> 9999999999999999"
       "j > 0 \<longrightarrow> 1000000000000000 \<le> unat v2 \<and> e2 \<le> cMaxOffset" by blast
  have m1: "\<bar>denote a\<bar> = magnitude (unat v1) e1"
    by (simp add: abs_denote k(1,2) magnitude_scaled)
  note m2 = magnitude_truncated [where n = "unat v1" and k = j and e = e1, folded m1 j(1,2)]
  show ?thesis
  proof (cases "e2 < cMinOffset \<or> v2 < cMinValue")
    case True
    have "\<bar>denote a\<bar> < 10 powi (-81)"
    proof (cases "j = 0")
      case True
      then have "v1 = v2" "e1 = e2" using j by (simp_all add: word_unat_eq_iff)
      show ?thesis
      proof (cases "e2 < cMinOffset")
        case True
        with j(3) show ?thesis unfolding m1 \<open>v1 = v2\<close> \<open>e1 = e2\<close>
          by (intro magnitude_less16) (auto simp: cMinOffset_def)
      next
        case False
        with \<open>e2 < cMinOffset \<or> v2 < cMinValue\<close> have "unat v2 < 1000000000000000" by (simp add: value_bounds)
        with k(3) \<open>v1 = v2\<close> \<open>e1 = e2\<close> show ?thesis unfolding m1
          by (intro magnitude_less15) (auto simp: cMinOffset_def)
      qed
    next
      case False
      with True j have "e2 < cMinOffset" by (auto simp: value_bounds)
      note m2(2)
      also have "magnitude (unat v2 + 1) e2 \<le> magnitude (10 ^ 16) e2"
        using j(3) by (intro magnitude_mono) simp
      also have "\<dots> \<le> 10 powi (-81)"
        unfolding magnitude_power using \<open>e2 < cMinOffset\<close>
        by (intro power10_mono) (simp add: cMinOffset_def)
      finally show ?thesis .
    qed
    moreover from ok nz up down True have "a' = a\<lparr>mIsNative := False, mValue := 0, mIsNegative := False, mOffset := -100\<rparr>"
      by (simp add: canonicalize_issued_def Let_def)
    ultimately show ?thesis by simp
  next
    case False
    with ok nz up down have a': "a' = a\<lparr>mIsNative := False, mValue := v2, mOffset := e2\<rparr>" "e2 \<le> cMaxOffset"
      by (auto simp: canonicalize_issued_def Let_def)
    with False j(3) m2 show ?thesis
      by (simp add: value_bounds cMinOffset_def cMaxOffset_def not_less)
  qed
qed

lemma canonicalize_issued_Throw:
  assumes th: "canonicalize_issued a = Throw x"
  shows "x = RuntimeError ''value overflow'' \<and> 10 powi 96 \<le> \<bar>denote a\<bar>"
proof -
  have nz: "mValue a \<noteq> 0" using th by (auto simp: canonicalize_issued_def Let_def)
  obtain v1 e1 where up: "scale_up (mValue a) (mOffset a) = (v1, e1)" by fastforce
  from scale_up_spec [OF up nz] obtain k where
    k: "unat v1 = unat (mValue a) * 10 ^ k" "e1 = mOffset a - int k"
       "unat v1 < 1000000000000000 \<longrightarrow> e1 \<le> cMinOffset" by blast
  have m1: "\<bar>denote a\<bar> = magnitude (unat v1) e1"
    by (simp add: abs_denote k(1,2) magnitude_scaled)
  show ?thesis
  proof (cases "scale_down v1 e1")
    case (Inl y)
    with th nz up have "x = y" by (auto simp: canonicalize_issued_def Let_def)
    note s = scale_down_throw [OF Inl]
    have "10 powi 96 \<le> magnitude (unat v1) e1"
    proof (cases "e1 \<le> cMaxOffset")
      case True
      with s have "10 ^ (nat (cMaxOffset - e1) + 16) \<le> unat v1" by (simp add: power_add)
      with True show ?thesis by (intro magnitude_ge) (auto simp: cMaxOffset_def)
    next
      case False
      with s show ?thesis by (intro magnitude_ge15) (auto simp: cMaxOffset_def)
    qed
    with m1 s \<open>x = y\<close> show ?thesis by simp
  next
    case (Inr p)
    obtain v2 e2 where p: "p = (v2, e2)" by fastforce
    from scale_down_spec [OF Inr [unfolded p]] obtain j where
      j: "unat v2 = unat v1 div 10 ^ j" "e2 = e1 + int j" "unat v2 \<le> 9999999999999999" by blast
    from th nz up Inr p j(3) have "x = RuntimeError ''value overflow''" "e2 > cMaxOffset" "1000000000000000 \<le> unat v2"
      by (auto simp: canonicalize_issued_def Let_def value_bounds rbind_eq_Throw not_less split: if_splits)
    then show ?thesis
      using magnitude_truncated(1) [where n = "unat v1" and k = j and e = e1, folded j(1,2)] magnitude_ge15 [where n = "unat v2" and d = 96 and e = e2] m1
      by (simp add: cMaxOffset_def)
  qed
qed

section \<open>Canonical amounts and their order\<close>

lemma canonicalize_wf:
  assumes "canonicalize a = Ok a'"
  shows "wf_amount a'" and "mIssue a' = mIssue a"
proof -
  show i: "mIssue a' = mIssue a"
    using assms by (auto simp: canonicalize_def canonicalize_native_def canonicalize_issued_def Let_def
        split: if_splits prod.splits)
  show "wf_amount a'"
  proof (cases "isNative a")
    case True
    have "isNative a'" using True i by (simp add: isNative_alt)
    moreover have "mOffset a' = 0 \<and> unat (mValue a') \<le> 100000000000000000 \<and> mIsNative a'"
      using assms True div10_up_to_eq [of "mOffset a" 0 "mValue a"] div10_up_to_ge [of 0 "mOffset a" "mValue a"]
      by (cases "mOffset a \<le> 0")
        (auto simp: canonicalize_def canonicalize_native_def Let_def value_bounds not_less
          mul10_down_to_eq mul10_down_to_le split: if_splits prod.splits)
    ultimately show ?thesis by (simp add: wf_amount_def)
  next
    case False
    then have ok: "canonicalize_issued a = Ok a'" using assms by (simp add: canonicalize_def)
    have n: "\<not> isNative a'" using False i by (simp add: isNative_alt)
    have m: "\<not> mIsNative a'"
      using ok by (auto simp: canonicalize_issued_def Let_def split: if_splits prod.splits)
    have "canonical_issued (mValue a') (mOffset a') (mIsNegative a')"
    proof (cases "mValue a = 0")
      case True
      with ok show ?thesis by (auto simp: canonicalize_issued_def Let_def canonical_issued_def)
    next
      case False
      from canonicalize_issued_Ok [OF ok False] show ?thesis by (auto simp: canonical_issued_def)
    qed
    with n m show ?thesis by (simp add: wf_amount_def)
  qed
qed

lemma proper_issued: "\<not> isNative a \<Longrightarrow> proper a \<longleftrightarrow> wf_amount a"
  by (auto simp: proper_def wf_amount_def canonical_issued_def)

lemma canonicalize_proper:
  assumes "proper a"
  shows "canonicalize a = Ok a"
proof (cases "isNative a")
  case True
  with assms show ?thesis
    by (auto simp: proper_def wf_amount_def canonicalize_def canonicalize_native_def Let_def
        div10_up_to_ge mul10_down_to_le value_bounds not_less)
next
  case False
  show ?thesis
  proof (cases "mValue a = 0")
    case True
    with assms False show ?thesis
      by (auto simp: proper_def wf_amount_def canonicalize_def canonicalize_issued_def Let_def canonical_issued_def)
  next
    case nz: False
    with assms False have b: "1000000000000000 \<le> unat (mValue a)" "unat (mValue a) \<le> 9999999999999999"
       "-96 \<le> mOffset a" "mOffset a \<le> 80" "\<not> mIsNative a"
      by (auto simp: proper_def wf_amount_def canonical_issued_def)
    then have "scale_up (mValue a) (mOffset a) = (mValue a, mOffset a)"
      "scale_down (mValue a) (mOffset a) = Ok (mValue a, mOffset a)"
      by (simp_all add: scale_up_id scale_down.simps [of "mValue a"] value_bounds)
    with b nz False show ?thesis
      by (simp add: canonicalize_def canonicalize_issued_def Let_def value_bounds amount_consts(1,2))
  qed
qed

lemma magnitude_lex:
  assumes "10 ^ 15 \<le> m" "m < 10 ^ 16" "10 ^ 15 \<le> n" "n < 10 ^ 16" "e < f"
  shows "magnitude m e < magnitude n f"
  using magnitude_less [OF assms(2), of e "f + 15"] magnitude_ge [OF assms(3), of "f + 15" f] assms(5)
  by simp

lemma magnitude_eq_iff [simp]: "magnitude m e = magnitude n e \<longleftrightarrow> m = n"
  by (simp add: magnitude_def)
lemma magnitude_less_iff [simp]: "magnitude m e < magnitude n e \<longleftrightarrow> m < n"
  by (simp add: magnitude_def)

lemma wf_issued_nonzero:
  assumes "wf_amount a" "\<not> isNative a" "mValue a \<noteq> 0"
  shows "10 ^ 15 \<le> unat (mValue a)" "unat (mValue a) < 10 ^ 16"
  using assms by (auto simp: wf_amount_def canonical_issued_def)

lemma comparable_magnitudes:
  assumes "wf_amount a" "wf_amount b" "areComparable a b" "mValue a \<noteq> 0" "mValue b \<noteq> 0"
  shows "magnitude (unat (mValue a)) (mOffset a) < magnitude (unat (mValue b)) (mOffset b) \<longleftrightarrow>
    mOffset a < mOffset b \<or> mOffset a = mOffset b \<and> mValue a < mValue b"
proof (cases "isNative a")
  case True
  with assms have "mOffset a = 0" "mOffset b = 0" 
    by (auto simp: wf_amount_def areComparable_def split: if_splits)
  then show ?thesis by (simp add: word_less_nat_alt)
next
  case False
  with assms have "\<not> isNative b" by (auto simp: wf_amount_def areComparable_def split: if_splits)
  note A = wf_issued_nonzero [OF assms(1) False assms(4)] and B = wf_issued_nonzero [OF assms(2) this assms(5)]
  consider "mOffset a < mOffset b" | "mOffset a = mOffset b" | "mOffset b < mOffset a" by linarith
  then show ?thesis
  proof cases
    case 1 with magnitude_lex [OF A B] show ?thesis by simp
  next
    case 2 then show ?thesis by (simp add: word_less_nat_alt)
  next
    case 3
    with magnitude_lex [OF B A 3] show ?thesis by (simp add: not_less less_imp_le)
  qed
qed

lemma areComparable_sym: "areComparable a b = areComparable b a"
  by (auto simp: areComparable_def)

lemma magnitude_pos: "0 < magnitude n e \<longleftrightarrow> n > 0"
  by (auto simp: magnitude_def zero_less_mult_iff)

lemma denote_zero: "mValue a = 0 \<Longrightarrow> denote a = 0"
  by (simp add: denote_def)

lemma denote_sign:
  assumes "mValue a \<noteq> 0"
  shows "0 < denote a \<longleftrightarrow> \<not> mIsNegative a" and "denote a < 0 \<longleftrightarrow> mIsNegative a"
  using magnitude_pos [of "unat (mValue a)" "mOffset a"] assms
  by (auto simp: denote_def unat_gt_0)

lemma less_amount_denote:
  assumes "proper a" "proper b" "areComparable a b"
  shows "less_amount a b = Ok (denote a < denote b)"
proof -
  from assms have wf: "wf_amount a" "wf_amount b" by (auto simp: proper_def)
  have ba: "areComparable b a" using assms(3) by (simp add: areComparable_sym)
  show ?thesis
  proof (cases "mValue a = 0 \<or> mValue b = 0")
    case True
    then show ?thesis using assms
      by (cases "mValue a = 0"; cases "mValue b = 0")
        (simp_all add: less_amount_def denote_zero denote_sign proper_def)
  next
    case False
    then have nz: "mValue a \<noteq> 0" "mValue b \<noteq> 0" by auto
    have pos: "0 < magnitude (unat (mValue a)) (mOffset a)" "0 < magnitude (unat (mValue b)) (mOffset b)"
      using nz by (simp_all add: magnitude_pos unat_gt_0)
    note lt = comparable_magnitudes [OF wf assms(3) nz] comparable_magnitudes [OF wf(2,1) ba nz(2,1)]
    have body: "less_amount a b = Ok (if mIsNegative a \<noteq> mIsNegative b then mIsNegative a
        else if mIsNegative a
        then mOffset b < mOffset a \<or> mOffset b = mOffset a \<and> mValue b < mValue a
        else mOffset a < mOffset b \<or> mOffset a = mOffset b \<and> mValue a < mValue b)"
      using assms(3) nz by (simp add: less_amount_def) (metis less_irrefl not_less_iff_gr_or_eq)
    show ?thesis
      unfolding body using pos
      by (cases "mIsNegative a"; cases "mIsNegative b") (simp_all add: denote_def lt)
  qed
qed

lemma eq_amount_denote:
  assumes "proper a" "proper b" "areComparable a b"
  shows "eq_amount a b \<longleftrightarrow> denote a = denote b"
proof -
  have ba: "areComparable b a" using assms(3) by (simp add: areComparable_sym)
  have "denote a = denote b \<longleftrightarrow> \<not> denote a < denote b \<and> \<not> denote b < denote a" by auto
  also have "\<dots> \<longleftrightarrow> less_amount a b = Ok False \<and> less_amount b a = Ok False"
    using less_amount_denote [OF assms] less_amount_denote [OF assms(2,1) ba] by simp
  also have "\<dots> \<longleftrightarrow> eq_amount a b"
    using assms ba
    by (auto simp: less_amount_def eq_amount_def proper_def wf_amount_def canonical_issued_def areComparable_def
        split: if_splits)
  finally show ?thesis by simp
qed

lemma canonicalize_issued_less:
  assumes ok: "canonicalize_issued a = Ok a'"
  shows "\<bar>denote a\<bar> < 10 powi 96"
proof (cases "mValue a = 0")
  case True
  then show ?thesis by (simp add: denote_zero)
next
  case False
  show ?thesis
    using canonicalize_issued_Ok [OF ok False]
  proof (elim disjE conjE)
    assume "\<bar>denote a\<bar> < 10 powi (-81)"
    also have "(10 :: rat) powi (-81) \<le> 10 powi 96" by (rule power10_mono) simp
    finally show ?thesis .
  next
    assume m: "\<bar>denote a\<bar> < magnitude (unat (mValue a') + 1) (mOffset a')"
      and b: "unat (mValue a') \<le> 9999999999999999" "mOffset a' \<le> 80"
    note m
    also have "magnitude (unat (mValue a') + 1) (mOffset a') \<le> magnitude (10 ^ 16) (mOffset a')"
      using b(1) by (intro magnitude_mono) simp
    also have "\<dots> \<le> 10 powi 96"
      unfolding magnitude_power using b(2) by (intro power10_mono) simp
    finally show ?thesis .
  qed
qed

section \<open>Properties\<close>

text \<open>
  C26. Canonicalizing an issued amount truncates it towards zero: the result is in canonical
  form and keeps the issue; below \<open>10^-81\<close> it is zero, otherwise it keeps the sign and is
  off by less than one unit in its last (sixteenth) decimal place.
\<close>
theorem canonicalize_truncates:
  assumes "\<not> isNative a" and "canonicalize a = Ok a'"
  shows "wf_amount a' \<and> mIssue a' = mIssue a \<and>
    (if \<bar>denote a\<bar> < 10 powi (-81) then mValue a' = 0
     else mIsNegative a' = mIsNegative a \<and> \<bar>denote a'\<bar> \<le> \<bar>denote a\<bar> \<and>
          \<bar>denote a\<bar> < \<bar>denote a'\<bar> + 10 powi (mOffset a'))"
proof (cases "mValue a = 0")
  case True
  with assms show ?thesis
    using canonicalize_wf [OF assms(2)]
    by (auto simp: canonicalize_def canonicalize_issued_def Let_def denote_zero)
next
  case False
  from assms have ok: "canonicalize_issued a = Ok a'" by (simp add: canonicalize_def)
  have s: "magnitude (n + 1) e = magnitude n e + 10 powi e" for n e
    by (simp add: magnitude_def algebra_simps)
  have small: "10 powi (-81) \<le> \<bar>denote a\<bar>"
    if "1000000000000000 \<le> unat (mValue a')" "-96 \<le> mOffset a'"
       "magnitude (unat (mValue a')) (mOffset a') \<le> \<bar>denote a\<bar>"
    using magnitude_ge15 [where n = "unat (mValue a')" and d = "-81" and e = "mOffset a'"] that by simp
  show ?thesis
    using canonicalize_wf [OF assms(2)] canonicalize_issued_Ok [OF ok False] small
    unfolding s abs_denote [of a'] by (metis not_le)
qed

theorem canonicalize_truncates_witness:
  "let a = \<lparr>mIssue = noIssue, mValue = 123456789012345678, mOffset = -3,
            mIsNative = False, mIsNegative = True\<rparr>;
       a' = a\<lparr>mValue := 1234567890123456, mOffset := -1\<rparr>
   in \<not> isNative a \<and> canonicalize a = Ok a' \<and> wf_amount a' \<and> \<bar>denote a'\<bar> \<le> \<bar>denote a\<bar>"
proof -
  let ?a = "\<lparr>mIssue = noIssue, mValue = 123456789012345678, mOffset = -3,
             mIsNative = False, mIsNegative = True\<rparr>"
  let ?a' = "?a\<lparr>mValue := 1234567890123456, mOffset := -1\<rparr>"
  have n: "\<not> isNative ?a" by (simp add: isNative_def isXRP_def isVBC_def issue_defs)
  have c: "canonicalize ?a = Ok ?a'"
    using n by (simp add: canonicalize_def canonicalize_issued_def scale_up.simps scale_down.simps amount_consts)
  have "\<not> \<bar>denote ?a\<bar> < 10 powi (-81)"
    by (simp add: denote_def magnitude_def)
  with canonicalize_truncates [OF n c] n c show ?thesis by (simp add: Let_def)
qed

text \<open>
  C28. Canonicalization of an issued amount fails exactly on overflow: it succeeds for every
  magnitude below \<open>10^96\<close> and throws "value overflow" for every other one; none of its
  assertions can fail. (The comment above \<open>canonicalize\<close> gives the range of representation as
  \<open>10^80\<close> down to \<open>10^(-80)\<close>; the code goes up to \<open>10^96\<close> and down to \<open>10^(-81)\<close>.)
\<close>
theorem canonicalize_throws_iff_overflow:
  assumes "\<not> isNative a"
  shows "if \<bar>denote a\<bar> < 10 powi 96 then \<exists>a'. canonicalize a = Ok a'
         else canonicalize a = Throw (RuntimeError ''value overflow'')"
proof (cases "canonicalize a")
  case (Inl x)
  with assms canonicalize_issued_Throw [of a x] show ?thesis by (auto simp: canonicalize_def)
next
  case (Inr a')
  with assms canonicalize_issued_less [of a a'] show ?thesis by (auto simp: canonicalize_def)
qed

theorem canonicalize_throws_iff_overflow_witness:
  "let a = \<lparr>mIssue = noIssue, mValue = 1, mOffset = 96, mIsNative = False, mIsNegative = False\<rparr>
   in \<not> isNative a \<and> canonicalize a = Throw (RuntimeError ''value overflow'')"
proof -
  let ?a = "\<lparr>mIssue = noIssue, mValue = 1, mOffset = 96, mIsNative = False, mIsNegative = False\<rparr>"
  have n: "\<not> isNative ?a" by (simp add: isNative_def isXRP_def isVBC_def issue_defs)
  have "\<not> \<bar>denote ?a\<bar> < 10 powi 96" by (simp add: denote_def magnitude_def power_int_def)
  with canonicalize_throws_iff_overflow [OF n] n show ?thesis by (simp add: Let_def)
qed

text \<open>
  C30. The comparison operators order canonical amounts by the numbers they denote: for two
  comparable amounts without a negative zero, \<open>operator<\<close> returns whether the denoted
  number is smaller and \<open>operator==\<close> whether the two numbers are equal.
\<close>
theorem amount_order_correct:
  assumes "proper a" and "proper b" and "areComparable a b"
  shows "less_amount a b = Ok (denote a < denote b) \<and> eq_amount a b = (denote a = denote b)"
  using less_amount_denote [OF assms] eq_amount_denote [OF assms] by simp

theorem amount_order_correct_witness:
  "let a = \<lparr>mIssue = noIssue, mValue = 9000000000000000, mOffset = -20, mIsNative = False, mIsNegative = True\<rparr>;
       b = \<lparr>mIssue = noIssue, mValue = 1000000000000000, mOffset = -10, mIsNative = False, mIsNegative = True\<rparr>
   in proper a \<and> proper b \<and> areComparable a b \<and> less_amount a b = Ok False \<and> \<not> denote a < denote b"
proof -
  let ?a = "\<lparr>mIssue = noIssue, mValue = 9000000000000000, mOffset = -20, mIsNative = False, mIsNegative = True\<rparr>"
  let ?b = "\<lparr>mIssue = noIssue, mValue = 1000000000000000, mOffset = -10, mIsNative = False, mIsNegative = True\<rparr>"
  have a: "proper ?a" and b: "proper ?b" and c: "areComparable ?a ?b"
    by (simp_all add: proper_def wf_amount_def canonical_issued_def isNative_def isXRP_def isVBC_def
        issue_defs areComparable_def)
  have l: "less_amount ?a ?b = Ok False" using c by (simp add: less_amount_def)
  from amount_order_correct [OF a b c] l a b c show ?thesis by (simp add: Let_def)
qed

text \<open>
  A native amount whose decimal exponent is 64 or more does not overflow: the
  unchecked multiplications by ten wrap around \<open>2^64\<close> to zero, which passes the range
  check, so the amount silently becomes zero (with the sign it had).
\<close>
theorem canonicalize_native_wraps_to_zero:
  assumes "isNative a" and "mValue a \<noteq> 0" and "64 \<le> mOffset a"
  shows "canonicalize a = Ok (a\<lparr>mIsNative := True, mValue := 0, mOffset := 0\<rparr>)"
proof -
  have "(10 :: u64) ^ nat (mOffset a) = 10 ^ 64 * 10 ^ (nat (mOffset a) - 64)"
    using assms(3) by (subst power_add [symmetric]) simp
  moreover have "(10 :: u64) ^ 64 = 0" by simp
  ultimately have "(10 :: u64) ^ nat (mOffset a) = 0" by (simp only: mult_zero_left)
  then have "mul10_down_to 0 (mValue a) (mOffset a) = (0, 0)"
    using assms(3) by (simp add: mul10_down_to_eq)
  with assms show ?thesis
    by (simp add: canonicalize_def canonicalize_native_def Let_def div10_up_to_ge value_bounds)
qed

theorem canonicalize_native_wraps_to_zero_witness:
  "STAmount_canonical xrpIssue 1 64 True = Ok \<lparr>mIssue = xrpIssue, mValue = 0, mOffset = 0,
     mIsNative = True, mIsNegative = True\<rparr>"
  using canonicalize_native_wraps_to_zero
    [of "\<lparr>mIssue = xrpIssue, mValue = 1, mOffset = 64, mIsNative = False, mIsNegative = True\<rparr>"]
  by (simp add: STAmount_canonical_def isNative_def isXRP_def issue_defs)

end
