(* ===== verification/IOUAmount.thy ===== *)
theory IOUAmount
  imports Amount
begin

text \<open>
  \<open>protocol/IOUAmount.h\<close> and \<open>protocol/impl/IOUAmount.cpp\<close>: the second implementation of
  decimal amounts, with a signed mantissa, and the conversions between the two
  (\<open>STAmount::iou\<close>, \<open>STAmount (IOUAmount, Issue)\<close>).

  Mantissas are \<open>std::int64_t\<close>: the only products computed are of mantissas below \<open>10^15\<close>
  with ten and the only sums of two normalized mantissas, so an \<open>int\<close> is exact; division
  truncates towards zero (\<open>sdiv\<close>).
\<close>

section \<open>The amount and its operations\<close>

record IOUAmount =
  mantissa :: int
  exponent :: int

definition iou_zero :: IOUAmount where
  "iou_zero = \<lparr>mantissa = 0, exponent = -100\<rparr>"

definition minExponent :: int where "minExponent = -96"
definition maxExponent :: int where "maxExponent = 80"
definition minMantissa :: int where "minMantissa = 1000000000000000"
definition maxMantissa :: int where "maxMantissa = 9999999999999999"

lemmas iou_consts = minExponent_def maxExponent_def minMantissa_def maxMantissa_def

function iou_scale_up :: "int \<Rightarrow> int \<Rightarrow> int \<times> int" where
  "iou_scale_up m e =
     (if m < minMantissa \<and> e > minExponent then iou_scale_up (m * 10) (e - 1) else (m, e))"
  by pat_completeness auto
termination by (relation "measure (\<lambda>(m, e). nat (e + 96))") (auto simp: minExponent_def)

function iou_scale_down :: "int \<Rightarrow> int \<Rightarrow> (int \<times> int) res" where
  "iou_scale_down m e =
     (if m > maxMantissa then
        (if e \<ge> maxExponent then Throw (OverflowError ''IOUAmount::normalize'')
         else iou_scale_down (m sdiv 10) (e + 1))
      else Ok (m, e))"
  by pat_completeness auto
termination by (relation "measure (\<lambda>(m, e). nat (80 - e))") (auto simp: maxExponent_def)

declare iou_scale_up.simps [simp del] iou_scale_down.simps [simp del]

definition normalize :: "IOUAmount \<Rightarrow> IOUAmount res" where
  "normalize a =
     (if mantissa a = 0 then Ok iou_zero
      else
        let negative = mantissa a < 0;
            m0 = (if negative then - mantissa a else mantissa a);
            (m1, e1) = iou_scale_up m0 (exponent a)
        in rbind (iou_scale_down m1 e1) (\<lambda>(m2, e2).
             if e2 < minExponent \<or> m2 < minMantissa then Ok iou_zero
             else rbind (require (\<not> e2 > maxExponent) (OverflowError ''value overflow'')) (\<lambda>_.
               Ok \<lparr>mantissa = (if negative then - m2 else m2), exponent = e2\<rparr>)))"

definition IOUAmount_make :: "int \<Rightarrow> int \<Rightarrow> IOUAmount res" where
  "IOUAmount_make m e = normalize \<lparr>mantissa = m, exponent = e\<rparr>"

definition iou_eq :: "IOUAmount \<Rightarrow> IOUAmount \<Rightarrow> bool" where
  "iou_eq a b \<longleftrightarrow> exponent a = exponent b \<and> mantissa a = mantissa b"

definition iou_signum :: "IOUAmount \<Rightarrow> int" where
  "iou_signum a = (if mantissa a < 0 then -1 else if mantissa a \<noteq> 0 then 1 else 0)"

text \<open>The alignment loops \<open>while (exponent < e) { mantissa /= 10; ++exponent; }\<close>.\<close>

function align_up :: "int \<Rightarrow> int \<Rightarrow> int \<Rightarrow> int \<times> int" where
  "align_up t m e = (if e < t then align_up t (m sdiv 10) (e + 1) else (m, e))"
  by pat_completeness auto
termination by (relation "measure (\<lambda>(t, m, e). nat (t - e))") auto

declare align_up.simps [simp del]

definition iou_plus :: "IOUAmount \<Rightarrow> IOUAmount \<Rightarrow> IOUAmount res" where
  "iou_plus a other =
     (if iou_signum other = 0 then Ok a
      else if iou_signum a = 0 then Ok other
      else
        let (m1, e1) = align_up (exponent other) (mantissa a) (exponent a);
            (m, e) = align_up e1 (mantissa other) (exponent other);
            s = m1 + m
        in if s \<ge> -10 \<and> s \<le> 10 then Ok iou_zero
           else normalize \<lparr>mantissa = s, exponent = e1\<rparr>)"

definition iou_uminus :: "IOUAmount \<Rightarrow> IOUAmount res" where
  "iou_uminus a = IOUAmount_make (- mantissa a) (exponent a)"

definition iou_minus :: "IOUAmount \<Rightarrow> IOUAmount \<Rightarrow> IOUAmount res" where
  "iou_minus a other = rbind (iou_uminus other) (iou_plus a)"

definition iou_less :: "IOUAmount \<Rightarrow> IOUAmount \<Rightarrow> bool" where
  "iou_less a other =
     (let lneg = mantissa a < 0; rneg = mantissa other < 0 in
      if lneg \<noteq> rneg then lneg
      else if mantissa a = 0 then mantissa other > 0
      else if mantissa other = 0 then False
      else if exponent a > exponent other then lneg
      else if exponent a < exponent other then \<not> lneg
      else mantissa a < mantissa other)"

section \<open>Conversions\<close>

definition iou :: "STAmount \<Rightarrow> IOUAmount res" where
  "iou a =
     (if mIsNative a then Throw (LogicError ''Cannot return native STAmount as IOUAmount'')
      else let m0 = sint (mValue a);
               m = (if mIsNegative a then - m0 else m0)
           in IOUAmount_make m (mOffset a))"

definition STAmount_of_iou :: "IOUAmount \<Rightarrow> Issue \<Rightarrow> STAmount res" where
  "STAmount_of_iou amount issue =
     (let neg = iou_signum amount < 0 in
      canonicalize
        \<lparr>mIssue = issue,
         mValue = word_of_int (if neg then - mantissa amount else mantissa amount),
         mOffset = exponent amount, mIsNative = False, mIsNegative = neg\<rparr>)"

end
