(* ===== verification/Amount_Arith.thy ===== *)
theory Amount_Arith
  imports IOUAmount
begin

unbundle bit_operations_syntax

text \<open>
  Arithmetic on amounts: \<open>operator+\<close>, \<open>operator-\<close>, \<open>multiply\<close>, \<open>divide\<close>,
  \<open>mulRound\<close>, \<open>divRound\<close>, \<open>getRate\<close>, \<open>mulDiv\<close> and the conversions to \<open>XRPAmount\<close>
  of \<open>protocol/impl/STAmount.cpp\<close>.

  A \<open>CBigNum\<close> (an OpenSSL bignum) is a natural number; \<open>CBigNum::getuint64\<close> is
  \<open>BN_get_word\<close>, which returns the all-ones word for a number that does not fit.
  A drop count is an \<open>std::int64_t\<close>, read from the mantissa by \<open>sint\<close>.
  The loops that bring a native mantissa into the range of issued ones do not end on a
  zero mantissa; \<open>into_range\<close> returns \<open>Diverges\<close> there.
\<close>

section \<open>Native values\<close>

definition getSNValue :: "STAmount \<Rightarrow> int res" where
  "getSNValue amount =
     (if \<not> mIsNative amount then Throw (RuntimeError ''amount is not native!'')
      else let ret = sint (mValue amount) in Ok (if mIsNegative amount then - ret else ret))"

record XRPAmount =
  drops :: int
  xrp_isVBC :: bool

definition xrp :: "STAmount \<Rightarrow> XRPAmount res" where
  "xrp a =
     (if \<not> mIsNative a then Throw (LogicError ''Cannot return non-native STAmount as XRPAmount'')
      else let d = sint (mValue a)
           in Ok \<lparr>drops = (if mIsNegative a then - d else d), xrp_isVBC = False\<rparr>)"

definition STAmount_of_xrp :: "XRPAmount \<Rightarrow> STAmount res" where
  "STAmount_of_xrp amount =
     canonicalize
       \<lparr>mIssue = (if xrp_isVBC amount then vbcIssue else xrpIssue),
        mValue = word_of_int (if drops amount < 0 then - drops amount else drops amount),
        mOffset = 0, mIsNative = True, mIsNegative = drops amount < 0\<rparr>"

section \<open>Addition\<close>

definition plus_amount :: "STAmount \<Rightarrow> STAmount \<Rightarrow> STAmount res" where
  "plus_amount v1 v2 =
     (if \<not> areComparable v1 v2 then
        Throw (RuntimeError ''Can't add amounts that are't comparable!'')
      else if is_zero v2 then Ok v1
      else if is_zero v1 then
        STAmount_canonical (mIssue v1) (mValue v2) (mOffset v2) (mIsNegative v2)
      else if mIsNative v1 then
        rbind (getSNValue v1) (\<lambda>s1. rbind (getSNValue v2) (\<lambda>s2.
          Ok (STAmount_native (isVBC v1) (s1 + s2))))
      else
        let vv1 = (if mIsNegative v1 then - sint (mValue v1) else sint (mValue v1));
            vv2 = (if mIsNegative v2 then - sint (mValue v2) else sint (mValue v2));
            (w1, ov1) = align_up (mOffset v2) vv1 (mOffset v1);
            (w2, ov2) = align_up ov1 vv2 (mOffset v2);
            fv = w1 + w2
        in if fv \<ge> -10 \<and> fv \<le> 10 then STAmount_canonical (mIssue v1) 0 0 False
           else if fv \<ge> 0 then STAmount_canonical (mIssue v1) (word_of_int fv) ov1 False
           else STAmount_canonical (mIssue v1) (word_of_int (- fv)) ov1 True)"

definition minus_amount :: "STAmount \<Rightarrow> STAmount \<Rightarrow> STAmount res" where
  "minus_amount v1 v2 = plus_amount v1 (uminus_amount v2)"

section \<open>Multiplication and division\<close>

definition tenTo14 :: nat where "tenTo14 = 100000000000000"
definition tenTo14m1 :: nat where "tenTo14m1 = tenTo14 - 1"
definition tenTo17 :: nat where "tenTo17 = tenTo14 * 1000"

definition bn_getuint64 :: "nat \<Rightarrow> u64" where
  "bn_getuint64 n = (if n < 2 ^ 64 then of_nat n else -1)"

text \<open>\<open>while (val < STAmount::cMinValue) { val *= 10; --offset; }\<close>\<close>

function into_range :: "u64 \<Rightarrow> int \<Rightarrow> (u64 \<times> int) res" where
  "into_range v e =
     (if v < cMinValue then
        (if v = 0 then Throw Diverges else into_range (v * 10) (e - 1))
      else Ok (v, e))"
  by pat_completeness auto
termination
proof (relation "measure (\<lambda>(v, e). 1000000000000000 - unat v)", goal_cases)
  case (2 v e)
  then have "unat (v * 10) = unat v * 10" and "0 < unat v"
    by (auto simp: value_bounds unat_gt_0 intro: unat_times10_u64)
  with 2 show ?case by (simp add: value_bounds)
qed simp

declare into_range.simps [simp del]

definition in_range :: "STAmount \<Rightarrow> (u64 \<times> int) res" where
  "in_range a = (if mIsNative a then into_range (mValue a) (mOffset a)
                 else Ok (mValue a, mOffset a))"

definition divide :: "STAmount \<Rightarrow> STAmount \<Rightarrow> Issue \<Rightarrow> STAmount res" where
  "divide num den issue =
     (if is_zero den then Throw (RuntimeError ''division by zero'')
      else if is_zero num then STAmount_canonical issue 0 0 False
      else
        rbind (in_range num) (\<lambda>(numVal, numOffset).
        rbind (in_range den) (\<lambda>(denVal, denOffset).
          let v = unat numVal * tenTo17 div unat denVal in
          STAmount_canonical issue (bn_getuint64 v + 5) (numOffset - denOffset - 17)
            (mIsNegative num \<noteq> mIsNegative den))))"

text \<open>The product of two native amounts into a native one: range checks on 64-bit words.\<close>

definition native_product :: "STAmount \<Rightarrow> STAmount \<Rightarrow> STAmount res" where
  "native_product v1 v2 =
     rbind (getSNValue v1) (\<lambda>s1. rbind (getSNValue v2) (\<lambda>s2.
       let minV = (word_of_int (if s1 < s2 then s1 else s2) :: u64);
           maxV = (word_of_int (if s1 < s2 then s2 else s1) :: u64)
       in if minV > 3000000000 then Throw (RuntimeError ''Native value overflow'')
          else if drop_bit 32 maxV * minV > 2095475792
          then Throw (RuntimeError ''Native value overflow'')
          else Ok (STAmount_native_u (isVBC v1) (minV * maxV) False)))"

definition multiply :: "STAmount \<Rightarrow> STAmount \<Rightarrow> Issue \<Rightarrow> STAmount res" where
  "multiply v1 v2 issue =
     (if is_zero v1 \<or> is_zero v2 then STAmount_canonical issue 0 0 False
      else if mIsNative v1 \<and> mIsNative v2 \<and> isNative_issue issue then native_product v1 v2
      else
        rbind (in_range v1) (\<lambda>(value1, offset1).
        rbind (in_range v2) (\<lambda>(value2, offset2).
          let v = unat value1 * unat value2 div tenTo14 in
          STAmount_canonical issue (bn_getuint64 v + 7) (offset1 + offset2 + 14)
            (mIsNegative v1 \<noteq> mIsNegative v2))))"

section \<open>Directed rounding\<close>

text \<open>\<open>while (offset < -1) { value /= 10; ++offset; ++loops; }\<close>\<close>

function round_native_loop :: "u64 \<Rightarrow> int \<Rightarrow> nat \<Rightarrow> u64 \<times> int \<times> nat" where
  "round_native_loop v e loops =
     (if e < -1 then round_native_loop (v div 10) (e + 1) (Suc loops) else (v, e, loops))"
  by pat_completeness auto
termination by (relation "measure (\<lambda>(v, e, l). nat (- e))") auto

text \<open>\<open>while (value > (10 * STAmount::cMaxValue)) { value /= 10; ++offset; }\<close>\<close>

function round_issued_loop :: "u64 \<Rightarrow> int \<Rightarrow> u64 \<times> int" where
  "round_issued_loop v e =
     (if v > 10 * cMaxValue then round_issued_loop (v div 10) (e + 1) else (v, e))"
  by pat_completeness auto
termination
  by (relation "measure (\<lambda>(v, e). unat v)") (auto simp: word_less_nat_alt cMaxValue_def)

declare round_native_loop.simps [simp del] round_issued_loop.simps [simp del]

definition canonicalizeRound :: "bool \<Rightarrow> u64 \<Rightarrow> int \<Rightarrow> bool \<Rightarrow> u64 \<times> int" where
  "canonicalizeRound native v e roundUp =
     (if \<not> roundUp then (v, e)
      else if native then
        (if e < 0 then
           let (v1, e1, loops) = round_native_loop v e 0;
               v2 = v1 + (if loops \<ge> 2 then 9 else 10)
           in (v2 div 10, e1 + 1)
         else (v, e))
      else if v > cMaxValue then
        let (v1, e1) = round_issued_loop v e in ((v1 + 9) div 10, e1 + 1)
      else (v, e))"

record STAmountCalcSwitchovers =
  enableUnderflowFix_f :: bool

definition enableUnderflowFixCloseTime :: u32 where
  "enableUnderflowFixCloseTime = 504640800"

definition STAmountCalcSwitchovers_at :: "u32 \<Rightarrow> STAmountCalcSwitchovers" where
  "STAmountCalcSwitchovers_at parentCloseTime =
     \<lparr>enableUnderflowFix_f = parentCloseTime > enableUnderflowFixCloseTime\<rparr>"

definition enableUnderflowFix :: "STAmountCalcSwitchovers \<Rightarrow> bool" where
  "enableUnderflowFix s = enableUnderflowFix_f s"

text \<open>The common tail of \<open>mulRound\<close> and \<open>divRound\<close>.\<close>

definition round_result ::
    "Issue \<Rightarrow> nat \<Rightarrow> int \<Rightarrow> bool \<Rightarrow> bool \<Rightarrow> STAmountCalcSwitchovers \<Rightarrow> STAmount res" where
  "round_result issue v offset0 resultNegative roundUp switchovers =
     (let (amount, offset) = canonicalizeRound (isNative_issue issue) (bn_getuint64 v) offset0
                               (resultNegative \<noteq> roundUp)
      in rbind (STAmount_canonical issue amount offset resultNegative) (\<lambda>result.
           if enableUnderflowFix switchovers \<and> roundUp \<and> \<not> resultNegative \<and> is_zero result
           then STAmount_canonical issue cMinValue cMinOffset resultNegative
           else Ok result))"

definition mulRound ::
    "STAmount \<Rightarrow> STAmount \<Rightarrow> Issue \<Rightarrow> bool \<Rightarrow> STAmountCalcSwitchovers \<Rightarrow> STAmount res" where
  "mulRound v1 v2 issue roundUp switchovers =
     (if is_zero v1 \<or> is_zero v2 then STAmount_canonical issue 0 0 False
      else if mIsNative v1 \<and> mIsNative v2 \<and> isNative_issue issue then native_product v1 v2
      else
        rbind (in_range v1) (\<lambda>(value1, offset1).
        rbind (in_range v2) (\<lambda>(value2, offset2).
          let resultNegative = (mIsNegative v1 \<noteq> mIsNegative v2);
              p = unat value1 * unat value2 + (if resultNegative \<noteq> roundUp then tenTo14m1 else 0)
          in round_result issue (p div tenTo14) (offset1 + offset2 + 14)
               resultNegative roundUp switchovers)))"

definition divRound ::
    "STAmount \<Rightarrow> STAmount \<Rightarrow> Issue \<Rightarrow> bool \<Rightarrow> STAmountCalcSwitchovers \<Rightarrow> STAmount res" where
  "divRound num den issue roundUp switchovers =
     (if is_zero den then Throw (RuntimeError ''division by zero'')
      else if is_zero num then STAmount_canonical issue 0 0 False
      else
        rbind (in_range num) (\<lambda>(numVal, numOffset).
        rbind (in_range den) (\<lambda>(denVal, denOffset).
          let resultNegative = (mIsNegative num \<noteq> mIsNegative den);
              p = unat numVal * tenTo17 + (if resultNegative \<noteq> roundUp then unat denVal - 1 else 0)
          in round_result issue (p div unat denVal) (numOffset - denOffset - 17)
               resultNegative roundUp switchovers)))"

section \<open>Rates\<close>

definition getRate :: "STAmount \<Rightarrow> STAmount \<Rightarrow> u64 res" where
  "getRate offerOut offerIn =
     (if is_zero offerOut then Ok 0
      else case divide offerIn offerOut noIssue of
             Inl e \<Rightarrow> (if is_std_exception e then Ok 0 else Throw e)
           | Inr r \<Rightarrow>
               (if is_zero r then Ok 0
                else rbind (require (mOffset r \<ge> -100 \<and> mOffset r \<le> 155) AssertFailed) (\<lambda>_.
                  let ret = (word_of_int (mOffset r + 100) :: u64)
                  in Ok (push_bit (64 - 8) ret OR mValue r))))"

definition amountFromRate :: "u64 \<Rightarrow> STAmount res" where
  "amountFromRate uRate = STAmount_canonical noIssue uRate (-9) False"

definition amountFromQuality :: "u64 \<Rightarrow> STAmount res" where
  "amountFromQuality rate =
     (if rate = 0 then STAmount_canonical noIssue 0 0 False
      else let m = rate AND NOT (push_bit (64 - 8) 255);
               e = uint (drop_bit (64 - 8) rate) - 100
           in STAmount_canonical noIssue m e False)"

section \<open>Scaling integers\<close>

text \<open>Euclid's loop of \<open>lowestTerms\<close>, then the two divisions (by zero when both are zero).\<close>

function lowest_loop :: "u64 \<Rightarrow> u64 \<Rightarrow> u64" where
  "lowest_loop x y = (if y \<noteq> 0 then lowest_loop y (x mod y) else x)"
  by pat_completeness auto
termination
  by (relation "measure (\<lambda>(x, y). unat y)") (auto simp: unat_mod unat_gt_0)

declare lowest_loop.simps [simp del]

definition lowestTerms :: "u64 \<Rightarrow> u64 \<Rightarrow> (u64 \<times> u64) res" where
  "lowestTerms a b =
     (let x = lowest_loop a b in
      if x = 0 then Throw DivideByZero else Ok (a div x, b div x))"

definition mulDiv :: "u64 \<Rightarrow> u64 \<Rightarrow> u64 \<Rightarrow> u64 res" where
  "mulDiv value0 mul0 div0 =
     rbind (lowestTerms value0 div0) (\<lambda>(value1, div1).
     rbind (lowestTerms mul0 div1) (\<lambda>(mul1, dv).
       let (v, m) = (if value1 < mul1 then (mul1, value1) else (value1, mul1));
           mx = (-1 :: u64)
       in rbind (require (m \<noteq> 0) DivideByZero) (\<lambda>_.
            if v > mx div m then
              rbind (require (dv \<noteq> 0) DivideByZero) (\<lambda>_.
                let v' = v div dv in
                if v' > mx div m then Throw (OverflowError ''mulDiv'') else Ok (v' * m))
            else rbind (require (dv \<noteq> 0) DivideByZero) (\<lambda>_. Ok (v * m div dv)))))"

definition mulDivNoThrow :: "u64 \<Rightarrow> u64 \<Rightarrow> u64 \<Rightarrow> u64 res" where
  "mulDivNoThrow v m d =
     (case mulDiv v m d of
        Inl (OverflowError s) \<Rightarrow> Ok (-1)
      | r \<Rightarrow> r)"

section \<open>Integrality\<close>

text \<open>\<open>__builtin_ctzll\<close>: the number of trailing zero bits (64 for zero).\<close>

fun ctz_from :: "nat \<Rightarrow> u64 \<Rightarrow> nat" where
  "ctz_from 0 v = 0"
| "ctz_from (Suc n) v = (if v AND 1 \<noteq> 0 then 0 else Suc (ctz_from n (drop_bit 1 v)))"

definition isMathematicalInteger :: "STAmount \<Rightarrow> bool" where
  "isMathematicalInteger a \<longleftrightarrow> int (ctz_from 64 (mValue a)) \<ge> - mOffset a"

text \<open>What integrality means for the number an amount denotes.\<close>

definition is_integer :: "STAmount \<Rightarrow> bool" where
  "is_integer a \<longleftrightarrow> (\<exists>z :: int. denote a = of_int z)"

section \<open>Bringing native mantissas into range\<close>

lemma into_range_spec:
  assumes "v \<noteq> 0"
  shows "\<exists>v' k. into_range v e = Ok (v', e - int k) \<and> unat v' = unat v * 10 ^ k \<and>
           1000000000000000 \<le> unat v' \<and> (k > 0 \<longrightarrow> unat v' \<le> 9999999999999999)"
  using assms
proof (induction v e rule: into_range.induct)
  case (1 v e)
  show ?case
  proof (cases "v < cMinValue")
    case True
    then have lt: "unat v < 1000000000000000" by (simp add: value_bounds)
    then have t: "unat (v * 10) = unat v * 10" by (intro unat_times10_u64) simp
    have nz: "v * 10 \<noteq> 0" using t 1(2) by (metis mult_eq_0_iff unat_eq_zero zero_neq_numeral)
    from 1(1) [OF True 1(2) nz] obtain v' k where
      k: "into_range (v * 10) (e - 1) = Ok (v', e - 1 - int k)" "unat v' = unat (v * 10) * 10 ^ k"
         "1000000000000000 \<le> unat v'" "k > 0 \<longrightarrow> unat v' \<le> 9999999999999999" by blast
    have "unat v' \<le> 9999999999999999" using k t lt by (cases "k = 0") auto
    with k t True 1(2) show ?thesis
      by (intro exI [of _ v'] exI [of _ "Suc k"]) (simp add: into_range.simps [of v e] mult.assoc diff_diff_eq)
  next
    case False
    then show ?thesis
      by (intro exI [of _ v] exI [of _ 0]) (simp add: into_range.simps [of v e] value_bounds)
  qed
qed

lemma in_range_wf:
  assumes "wf_amount a" and "mValue a \<noteq> 0"
  obtains v e where "in_range a = Ok (v, e)" and "magnitude (unat v) e = \<bar>denote a\<bar>"
    and "1000000000000000 \<le> unat v" and "unat v \<le> 100000000000000000"
    and "\<not> mIsNative a \<Longrightarrow> unat v \<le> 9999999999999999"
proof (cases "mIsNative a")
  case True
  from into_range_spec [OF assms(2), of "mOffset a"] obtain v k where
    k: "into_range (mValue a) (mOffset a) = Ok (v, mOffset a - int k)"
       "unat v = unat (mValue a) * 10 ^ k"
       "1000000000000000 \<le> unat v" "k > 0 \<longrightarrow> unat v \<le> 9999999999999999" by blast
  have b: "unat (mValue a) \<le> 100000000000000000" using assms(1) True by (auto simp: wf_amount_def)
  show ?thesis
  proof (rule that)
    show "in_range a = Ok (v, mOffset a - int k)" using True k by (simp add: in_range_def)
    show "magnitude (unat v) (mOffset a - int k) = \<bar>denote a\<bar>"
      by (simp add: k(2) magnitude_scaled abs_denote)
    show "unat v \<le> 100000000000000000" using k b by (cases "k = 0") auto
  qed (use k True in auto)
next
  case False
  with assms have "1000000000000000 \<le> unat (mValue a)" "unat (mValue a) \<le> 9999999999999999"
    by (auto simp: wf_amount_def canonical_issued_def)
  with False show ?thesis by (intro that [of "mValue a" "mOffset a"]) (auto simp: in_range_def abs_denote)
qed

lemma bn_getuint64_nat: "n < 2 ^ 64 \<Longrightarrow> unat (bn_getuint64 n) = n"
  by (simp add: bn_getuint64_def unat_of_nat)

lemma unat_plus_small: "unat (w :: u64) + k < 2 ^ 64 \<Longrightarrow> unat (w + of_nat k) = unat w + k"
  by (subst unat_plus_no_wrap) (auto simp: unat_of_nat)

text \<open>
  \<open>truncates_to x neg c\<close>: the canonical amount \<open>c\<close> is the magnitude \<open>x\<close> with sign \<open>neg\<close>,
  truncated to sixteen digits, or zero when \<open>x\<close> underflows.
\<close>

definition truncates_to :: "rat \<Rightarrow> bool \<Rightarrow> STAmount \<Rightarrow> bool" where
  "truncates_to x neg c \<longleftrightarrow> wf_amount c \<and> \<bar>denote c\<bar> \<le> x \<and>
     (x < 10 powi (-81) \<and> mValue c = 0 \<or>
      x - \<bar>denote c\<bar> < \<bar>denote c\<bar> / 10 ^ 15 \<and> mIsNegative c = neg)"

lemma canonicalize_issued_truncates:
  assumes ci: "canonicalize_issued a = Ok c" and wf: "wf_amount c" and nz: "mValue a \<noteq> 0"
  shows "truncates_to \<bar>denote a\<bar> (mIsNegative a) c"
  using canonicalize_issued_Ok [OF ci nz]
proof (elim disjE conjE)
  assume "mValue c = 0" "\<bar>denote a\<bar> < 10 powi (-81)"
  then show ?thesis unfolding truncates_to_def
    by (simp only: denote_zero wf abs_zero abs_ge_zero simp_thms)
next
  assume b: "1000000000000000 \<le> unat (mValue c)" "mIsNegative c = mIsNegative a"
    "magnitude (unat (mValue c)) (mOffset c) \<le> \<bar>denote a\<bar>"
    "\<bar>denote a\<bar> < magnitude (unat (mValue c) + 1) (mOffset c)"
  have "10 powi (mOffset c) \<le> \<bar>denote c\<bar> / 10 ^ 15"
    using magnitude_mono [of "10 ^ 15" "unat (mValue c)" "mOffset c"] b(1)
    by (simp add: abs_denote magnitude_def divide_simps)
  moreover have "magnitude (unat (mValue c) + 1) (mOffset c) = \<bar>denote c\<bar> + 10 powi (mOffset c)"
    by (simp add: abs_denote magnitude_def algebra_simps)
  ultimately have "\<bar>denote a\<bar> - \<bar>denote c\<bar> < \<bar>denote c\<bar> / 10 ^ 15" using b(4) by linarith
  with b wf show ?thesis unfolding truncates_to_def abs_denote [of c] by blast
qed

lemma STAmount_canonical_issued:
  assumes "STAmount_canonical issue m e neg = Ok c" and "\<not> isNative_issue issue"
  shows "truncates_to (magnitude (unat m) e) neg c" and "mIssue c = issue"
proof -
  let ?a = "\<lparr>mIssue = issue, mValue = m, mOffset = e, mIsNative = False, mIsNegative = neg\<rparr>"
  have n: "\<not> isNative ?a" using assms(2) by (simp add: isNative_alt)
  have c: "canonicalize ?a = Ok c" using assms(1) by (simp add: STAmount_canonical_def)
  then have ci: "canonicalize_issued ?a = Ok c" using n by (simp add: canonicalize_def)
  note wf = canonicalize_wf [OF c]
  then show "mIssue c = issue" by simp
  show "truncates_to (magnitude (unat m) e) neg c"
  proof (cases "m = 0")
    case True
    then have "mValue c = 0" using ci by (auto simp: canonicalize_issued_def Let_def)
    with True wf show ?thesis by (simp add: truncates_to_def denote_zero)
  next
    case False
    with canonicalize_issued_truncates [OF ci wf(1)] show ?thesis by (simp add: abs_denote)
  qed
qed

text \<open>The 64-bit intermediate results of multiplication and division do not overflow.\<close>

lemma quotient_fits:
  assumes "1000000000000000 \<le> n" "n \<le> 100000000000000000" "1000000000000000 \<le> d" "d \<le> 100000000000000000"
  shows "n * tenTo17 div d \<le> 10 ^ 19" and "10 ^ 15 \<le> n * tenTo17 div d"
proof -
  have "n * tenTo17 div d \<le> n * tenTo17 div 1000000000000000" using assms by (intro div_le_mono2) auto
  also have "\<dots> \<le> 100000000000000000 * tenTo17 div 1000000000000000"
    using assms by (intro div_le_mono mult_le_mono1) auto
  finally show "n * tenTo17 div d \<le> 10 ^ 19" by (simp add: tenTo17_def tenTo14_def)
  have "1000000000000000 * tenTo17 div 100000000000000000 \<le> n * tenTo17 div 100000000000000000"
    using assms by (intro div_le_mono mult_le_mono1) auto
  also have "\<dots> \<le> n * tenTo17 div d" using assms by (intro div_le_mono2) auto
  finally show "10 ^ 15 \<le> n * tenTo17 div d" by (simp add: tenTo17_def tenTo14_def)
qed

lemma product_fits:
  assumes "1000000000000000 \<le> m" "m \<le> 100000000000000000" "1000000000000000 \<le> n" "n \<le> 100000000000000000"
    and "m \<le> 9999999999999999 \<or> n \<le> 9999999999999999"
  shows "m * n div tenTo14 \<le> 10 ^ 19" and "10 ^ 16 \<le> m * n div tenTo14"
proof -
  have "m * n \<le> 9999999999999999 * 100000000000000000"
    using assms(5) mult_le_mono [of m 9999999999999999 n 100000000000000000]
      mult_le_mono [of m 100000000000000000 n 9999999999999999] assms by auto
  then have "m * n div tenTo14 \<le> 9999999999999999 * 100000000000000000 div tenTo14" by (rule div_le_mono)
  then show "m * n div tenTo14 \<le> 10 ^ 19" by (simp add: tenTo14_def)
  have "1000000000000000 * 1000000000000000 \<le> m * n" using assms by (intro mult_le_mono)
  then have "1000000000000000 * 1000000000000000 div tenTo14 \<le> m * n div tenTo14" by (rule div_le_mono)
  then show "10 ^ 16 \<le> m * n div tenTo14" by (simp add: tenTo14_def)
qed

lemma bn_plus:
  assumes "n \<le> 10 ^ 19" and "k \<le> 1000"
  shows "unat (bn_getuint64 n + of_nat k) = n + k"
  using assms by (subst unat_plus_small) (auto simp: bn_getuint64_nat)

text \<open>
  An approximation \<open>n + k\<close> of \<open>x\<close>, \<open>n\<close> being \<open>x\<close> rounded down and at least \<open>10^15\<close>, after
  truncation to a canonical amount.
\<close>

lemma truncated_error:
  fixes x :: rat
  assumes t: "truncates_to (magnitude (n + k) e) neg c"
    and n: "of_nat n \<le> x" "x < of_nat n + 1" and big: "10 ^ 15 \<le> n" and k: "1 \<le> k" "k \<le> 7"
  shows "mValue c = 0 \<and> x * 10 powi e < 10 powi (-81) \<or>
    mIsNegative c = neg \<and> \<bar>\<bar>denote c\<bar> - x * 10 powi e\<bar> \<le> 7 * (x * 10 powi e) / 10 ^ 15"
proof -
  define P X y N K D where defs: "P = (10 :: rat) powi e" "X = x * P" "y = magnitude (n + k) e"
    "N = of_nat n * P" "K = of_nat k * P" "D = \<bar>denote c\<bar>"
  have y: "y = N + K" by (simp add: defs magnitude_def algebra_simps)
  have p: "0 < P" by (simp add: defs)
  have nx: "N \<le> X" using n(1) p by (simp add: defs)
  have "X < (of_nat n + 1) * P" unfolding defs(2) using n(2) p by (rule mult_strict_right_mono)
  then have xn: "X < N + P" by (simp add: defs algebra_simps)
  have "1 * P \<le> K" "K \<le> 7 * P" unfolding defs(5) using k p by (intro mult_right_mono; simp)+
  have pn: "10 ^ 15 * P \<le> N"
    unfolding defs(4) using big p of_nat_mono [OF big, where 'a = rat] by (intro mult_right_mono) auto
  from t consider "y < 10 powi (-81)" "mValue c = 0"
    | "mIsNegative c = neg" "D \<le> y" "y - D < D / 10 ^ 15"
    unfolding truncates_to_def defs by blast
  then show ?thesis
  proof cases
    case 1
    then show ?thesis using xn y \<open>1 * P \<le> K\<close> unfolding defs(1,2) [symmetric] by (intro disjI1) linarith
  next
    case 2
    have "D - X \<le> 7 * X / 10 ^ 15" "X - D \<le> 7 * X / 10 ^ 15"
      using 2 y nx xn pn \<open>1 * P \<le> K\<close> \<open>K \<le> 7 * P\<close> p by (simp_all add: field_simps)
    then have "\<bar>D - X\<bar> \<le> 7 * X / 10 ^ 15" by (intro abs_leI) linarith+
    with 2(1) show ?thesis unfolding defs(1,2) [symmetric] defs(6) [symmetric] by blast
  qed
qed

section \<open>Properties\<close>

text \<open>
  Multiplication is accurate: the product of two canonical amounts, not both native,
  into an issued currency is, unless it underflows to zero, within a relative error of
  \<open>7 * 10^-15\<close> of the exact product and has its sign.
\<close>
theorem multiply_accurate:
  assumes wf: "wf_amount a" "wf_amount b" and one: "\<not> (mIsNative a \<and> mIsNative b)"
    and issue: "\<not> isNative_issue issue" and ok: "multiply a b issue = Ok c"
  shows "wf_amount c \<and> mIssue c = issue \<and>
    (mValue c = 0 \<and> \<bar>denote a * denote b\<bar> < 10 powi (-81) \<or>
     mIsNegative c = (mIsNegative a \<noteq> mIsNegative b) \<and>
     \<bar>\<bar>denote c\<bar> - \<bar>denote a * denote b\<bar>\<bar> \<le> 7 * \<bar>denote a * denote b\<bar> / 10 ^ 15)"
proof (cases "mValue a = 0 \<or> mValue b = 0")
  case True
  with ok have c: "STAmount_canonical issue 0 0 False = Ok c" by (simp add: multiply_def)
  note t = STAmount_canonical_issued [OF c issue]
  from t(1) have "denote c = 0" by (auto simp: truncates_to_def)
  moreover have "mValue c = 0" using \<open>denote c = 0\<close> abs_denote [of c] by (simp add: unat_eq_zero)
  ultimately show ?thesis using True t by (auto simp: truncates_to_def denote_zero)
next
  case False
  obtain v e where v: "in_range a = Ok (v, e)" "magnitude (unat v) e = \<bar>denote a\<bar>"
    "1000000000000000 \<le> unat v" "unat v \<le> 100000000000000000" "\<not> mIsNative a \<Longrightarrow> unat v \<le> 9999999999999999"
    using in_range_wf [OF wf(1)] False by blast
  obtain w f where w: "in_range b = Ok (w, f)" "magnitude (unat w) f = \<bar>denote b\<bar>"
    "1000000000000000 \<le> unat w" "unat w \<le> 100000000000000000" "\<not> mIsNative b \<Longrightarrow> unat w \<le> 9999999999999999"
    using in_range_wf [OF wf(2)] False by blast
  let ?n = "unat v * unat w div tenTo14"
  from one v w have "unat v \<le> 9999999999999999 \<or> unat w \<le> 9999999999999999" by auto
  note fits = product_fits [OF v(3,4) w(3,4) this]
  from ok False issue v(1) w(1) have "STAmount_canonical issue (bn_getuint64 ?n + 7) (e + f + 14)
      (mIsNegative a \<noteq> mIsNegative b) = Ok c" by (simp add: multiply_def Let_def)
  from STAmount_canonical_issued [OF this issue] bn_plus [OF fits(1), of 7]
  have t: "truncates_to (magnitude (?n + 7) (e + f + 14)) (mIsNegative a \<noteq> mIsNegative b) c" "mIssue c = issue"
    by simp_all
  let ?x = "of_nat (unat v * unat w) / of_nat tenTo14 :: rat"
  have "?x * 10 powi (e + f + 14) = magnitude (unat v) e * magnitude (unat w) f"
    by (simp add: magnitude_def power_int_add tenTo14_def)
  then have x: "?x * 10 powi (e + f + 14) = \<bar>denote a * denote b\<bar>" by (simp add: v(2) w(2) abs_mult)
  have "0 < tenTo14" by (simp add: tenTo14_def)
  note r = rat_div_bounds [OF this, of "unat v * unat w"]
  have "10 ^ 15 \<le> ?n" using fits(2) by simp
  from truncated_error [OF t(1) r this] t show ?thesis
    unfolding x by (auto simp: truncates_to_def)
qed

theorem multiply_accurate_witness:
  "let a = \<lparr>mIssue = noIssue, mValue = 2000000000000000, mOffset = -15, mIsNative = False, mIsNegative = True\<rparr>;
       b = \<lparr>mIssue = xrpIssue, mValue = 3000000, mOffset = 0, mIsNative = True, mIsNegative = False\<rparr>;
       c = \<lparr>mIssue = noIssue, mValue = 6000000000000000, mOffset = -9, mIsNative = False, mIsNegative = True\<rparr>
   in wf_amount a \<and> wf_amount b \<and> multiply a b noIssue = Ok c \<and>
      \<bar>\<bar>denote c\<bar> - \<bar>denote a * denote b\<bar>\<bar> \<le> 7 * \<bar>denote a * denote b\<bar> / 10 ^ 15"
proof -
  let ?a = "\<lparr>mIssue = noIssue, mValue = 2000000000000000, mOffset = -15, mIsNative = False, mIsNegative = True\<rparr>"
  let ?b = "\<lparr>mIssue = xrpIssue, mValue = 3000000, mOffset = 0, mIsNative = True, mIsNegative = False\<rparr>"
  let ?c = "\<lparr>mIssue = noIssue, mValue = 6000000000000000, mOffset = -9, mIsNative = False, mIsNegative = True\<rparr>"
  have wf: "wf_amount ?a" "wf_amount ?b"
    by (simp_all add: wf_amount_def canonical_issued_def isNative_def isXRP_def isVBC_def issue_defs)
  have i: "\<not> isNative_issue noIssue" by (simp add: isNative_issue_def issue_defs)
  have c: "multiply ?a ?b noIssue = Ok ?c"
    using i by (simp add: multiply_def in_range_def into_range.simps amount_consts tenTo14_def bn_getuint64_def
        STAmount_canonical_def canonicalize_def isNative_alt canonicalize_issued_def scale_up.simps scale_down.simps)
  from multiply_accurate [OF wf _ i c] wf c show ?thesis by (simp add: Let_def)
qed

lemma divide_error:
  assumes wf: "wf_amount a" "wf_amount b" and nz: "mValue b \<noteq> 0"
    and issue: "\<not> isNative_issue issue" and ok: "divide a b issue = Ok c"
  shows "wf_amount c \<and> mIssue c = issue \<and>
    (mValue c = 0 \<and> \<bar>denote a / denote b\<bar> < 10 powi (-81) \<or>
     mIsNegative c = (mIsNegative a \<noteq> mIsNegative b) \<and>
     \<bar>\<bar>denote c\<bar> - \<bar>denote a / denote b\<bar>\<bar> \<le> 7 * \<bar>denote a / denote b\<bar> / 10 ^ 15)"
proof (cases "mValue a = 0")
  case True
  with ok nz have c: "STAmount_canonical issue 0 0 False = Ok c" by (simp add: divide_def)
  note t = STAmount_canonical_issued [OF c issue]
  from t(1) have "denote c = 0" by (auto simp: truncates_to_def)
  moreover have "mValue c = 0" using \<open>denote c = 0\<close> abs_denote [of c] by (simp add: unat_eq_zero)
  ultimately show ?thesis using True t by (auto simp: truncates_to_def denote_zero)
next
  case False
  obtain v e where v: "in_range a = Ok (v, e)" "magnitude (unat v) e = \<bar>denote a\<bar>"
    "1000000000000000 \<le> unat v" "unat v \<le> 100000000000000000"
    using in_range_wf [OF wf(1) False] by blast
  obtain w f where w: "in_range b = Ok (w, f)" "magnitude (unat w) f = \<bar>denote b\<bar>"
    "1000000000000000 \<le> unat w" "unat w \<le> 100000000000000000"
    using in_range_wf [OF wf(2) nz] by blast
  let ?n = "unat v * tenTo17 div unat w"
  note fits = quotient_fits [OF v(3,4) w(3,4)]
  from ok False nz issue v(1) w(1) have "STAmount_canonical issue (bn_getuint64 ?n + 5) (e - f - 17)
      (mIsNegative a \<noteq> mIsNegative b) = Ok c" by (simp add: divide_def Let_def)
  from STAmount_canonical_issued [OF this issue] bn_plus [OF fits(1), of 5]
  have t: "truncates_to (magnitude (?n + 5) (e - f - 17)) (mIsNegative a \<noteq> mIsNegative b) c" "mIssue c = issue"
    by simp_all
  let ?x = "of_nat (unat v * tenTo17) / of_nat (unat w) :: rat"
  have "?x * 10 powi (e - f - 17) = magnitude (unat v) e / magnitude (unat w) f"
    by (simp add: magnitude_def power_int_diff tenTo17_def tenTo14_def)
  then have x: "?x * 10 powi (e - f - 17) = \<bar>denote a / denote b\<bar>" by (simp add: v(2) w(2) abs_divide)
  have "0 < unat w" using w(3) by simp
  note r = rat_div_bounds [OF this, of "unat v * tenTo17"]
  from truncated_error [OF t(1) r fits(2)] t show ?thesis
    unfolding x by (auto simp: truncates_to_def)
qed

text \<open>
  Division is accurate: the quotient of two canonical amounts (native or issued) into an
  issued currency is, unless it underflows to zero, within a relative error of
  \<open>7 * 10^-15\<close> of the exact quotient and has its sign; a zero divisor throws.
\<close>
theorem divide_accurate:
  assumes wf: "wf_amount a" "wf_amount b" and nz: "mValue b \<noteq> 0"
    and issue: "\<not> isNative_issue issue" and ok: "divide a b issue = Ok c"
  shows "wf_amount c \<and> mIssue c = issue \<and>
    (mValue c = 0 \<and> \<bar>denote a / denote b\<bar> < 10 powi (-81) \<or>
     mIsNegative c = (mIsNegative a \<noteq> mIsNegative b) \<and>
     \<bar>\<bar>denote c\<bar> - \<bar>denote a / denote b\<bar>\<bar> \<le> 7 * \<bar>denote a / denote b\<bar> / 10 ^ 15)"
  by (rule divide_error [OF assms])

lemma divide_not_std:
  assumes "wf_amount a" "wf_amount b" "divide a b issue = Throw x"
  shows "is_std_exception x"
proof (cases "mValue a = 0 \<or> mValue b = 0")
  case True
  then show ?thesis using assms
    by (auto simp: divide_def STAmount_canonical_def canonicalize_def canonicalize_native_def
        canonicalize_issued_def Let_def split: if_splits)
next
  case False
  obtain v e where v: "in_range a = Ok (v, e)" using in_range_wf [OF assms(1)] False by blast
  obtain w f where w: "in_range b = Ok (w, f)" using in_range_wf [OF assms(2)] False by blast
  from assms(3) False v w obtain m e n where "STAmount_canonical issue m e n = Throw x"
    by (auto simp: divide_def Let_def)
  then show ?thesis
    by (auto simp: STAmount_canonical_def canonicalize_def canonicalize_native_def Let_def
        rbind_eq_Throw dest!: canonicalize_issued_Throw split: if_splits prod.splits)
qed

text \<open>The packed rate of a canonical positive amount.\<close>

definition pack_rate :: "STAmount \<Rightarrow> u64" where
  "pack_rate r = push_bit 56 (word_of_int (mOffset r + 100)) OR mValue r"

lemma wf_noIssue:
  assumes "wf_amount r" "mIssue r = noIssue" "mValue r \<noteq> 0"
  shows "1000000000000000 \<le> unat (mValue r)" "unat (mValue r) \<le> 9999999999999999"
    "-96 \<le> mOffset r" "mOffset r \<le> 80" "\<not> isNative r" "\<not> mIsNative r"
  using assms by (auto simp: wf_amount_def canonical_issued_def isNative_def isXRP_def isVBC_def issue_defs)

lemma uint_word_of_int_u64: "0 \<le> i \<Longrightarrow> i < 2 ^ 64 \<Longrightarrow> uint (word_of_int i :: u64) = i"
  by (simp add: uint_word_of_int_eq take_bit_int_eq_self)

lemma packed_offset:
  assumes "-100 \<le> e" "e \<le> 155"
  obtains w :: u64 where "word_of_int (e + 100) = w" "uint w = e + 100" "unat w = nat (e + 100)" "unat w < 256"
proof
  show u: "uint (word_of_int (e + 100) :: u64) = e + 100" using assms by (intro uint_word_of_int_u64) auto
  show n: "unat (word_of_int (e + 100) :: u64) = nat (e + 100)" by (simp only: unat_eq_nat_uint u)
  show "unat (word_of_int (e + 100) :: u64) < 256" unfolding n using assms by simp
qed (rule refl)

lemma unat_pack_rate:
  assumes "wf_amount r" "mIssue r = noIssue" "mValue r \<noteq> 0"
  shows "unat (pack_rate r) = nat (mOffset r + 100) * 2 ^ 56 + unat (mValue r)"
proof -
  note b = wf_noIssue [OF assms]
  have "-100 \<le> mOffset r" "mOffset r \<le> 155" using b by auto
  then obtain w :: u64 where w: "word_of_int (mOffset r + 100) = w" "unat w = nat (mOffset r + 100)" "unat w < 256"
    by (rule packed_offset)
  have v: "unat (mValue r) < 2 ^ 56" using b by simp
  have p: "pack_rate r = w * of_nat (2 ^ 56) + mValue r"
    unfolding pack_rate_def w(1) by (subst or_push_bit_add [OF v]) (simp add: push_bit_eq_mult)
  have le: "unat w * 2 ^ 56 \<le> 255 * 2 ^ 56" using w(3) by simp
  have m: "unat (w * of_nat (2 ^ 56)) = unat w * 2 ^ 56"
    using le by (subst unat_times_no_wrap) (simp_all add: unat_of_nat)
  have "unat (w * of_nat (2 ^ 56) + mValue r) = unat (w * of_nat (2 ^ 56)) + unat (mValue r)"
    using le v by (intro unat_plus_no_wrap) (simp only: m, simp)
  then show ?thesis by (simp only: p m w(2))
qed

lemma pack_rate_less_iff:
  assumes r: "wf_amount r" "mIssue r = noIssue" "mValue r \<noteq> 0" "\<not> mIsNegative r"
    and s: "wf_amount s" "mIssue s = noIssue" "mValue s \<noteq> 0" "\<not> mIsNegative s"
  shows "pack_rate r < pack_rate s \<longleftrightarrow> denote r < denote s"
proof -
  note R = wf_noIssue [OF r(1-3)] and S = wf_noIssue [OF s(1-3)]
  have c: "areComparable r s" using r s R S by (simp add: areComparable_def)
  have "denote r < denote s \<longleftrightarrow> mOffset r < mOffset s \<or> mOffset r = mOffset s \<and> mValue r < mValue s"
    using comparable_magnitudes [OF r(1) s(1) c r(3) s(3)] r(4) s(4) by (simp add: denote_def)
  moreover have "pack_rate r < pack_rate s \<longleftrightarrow>
      nat (mOffset r + 100) * 2 ^ 56 + unat (mValue r) < nat (mOffset s + 100) * 2 ^ 56 + unat (mValue s)"
    by (simp add: word_less_nat_alt unat_pack_rate r s)
  moreover have "\<dots> \<longleftrightarrow> nat (mOffset r + 100) < nat (mOffset s + 100) \<or>
      nat (mOffset r + 100) = nat (mOffset s + 100) \<and> unat (mValue r) < unat (mValue s)"
    using R(2) S(2) by auto
  ultimately show ?thesis using R S by (auto simp: word_less_nat_alt)
qed

lemma amountFromQuality_pack:
  assumes "wf_amount r" "mIssue r = noIssue" "mValue r \<noteq> 0" "\<not> mIsNegative r"
  shows "amountFromQuality (pack_rate r) = Ok r"
proof -
  note b = wf_noIssue [OF assms(1-3)]
  have v: "unat (mValue r) < 2 ^ 56" using b by simp
  have "-100 \<le> mOffset r" "mOffset r \<le> 155" using b by auto
  then obtain w :: u64 where w: "word_of_int (mOffset r + 100) = w" "uint w = mOffset r + 100" "unat w < 256"
    by (rule packed_offset)
  have "unat (pack_rate r) \<noteq> 0" using unat_pack_rate [OF assms(1-3)] b by simp
  then have nz: "pack_rate r \<noteq> 0" by auto
  have e: "uint (drop_bit 56 (pack_rate r)) - 100 = mOffset r"
    unfolding pack_rate_def w(1) by (subst drop_or_push [OF v w(3)]) (simp add: w(2))
  have m: "pack_rate r AND NOT (push_bit 56 255) = mValue r"
    unfolding pack_rate_def by (rule low_or_push [OF v])
  have "\<lparr>mIssue = noIssue, mValue = mValue r, mOffset = mOffset r, mIsNative = False, mIsNegative = False\<rparr> = r"
    using assms b by (cases r) simp
  moreover have "proper r" using assms(1) b(5) by (simp add: proper_issued)
  ultimately have "STAmount_canonical noIssue (mValue r) (mOffset r) False = Ok r"
    by (simp add: STAmount_canonical_def canonicalize_proper)
  with nz e m show ?thesis by (simp add: amountFromQuality_def Let_def)
qed

lemma getRate_cases:
  assumes "wf_amount out" "wf_amount in'" "getRate out in' = Ok q"
  shows "q = 0 \<or> (\<exists>r. divide in' out noIssue = Ok r \<and> wf_amount r \<and> mIssue r = noIssue \<and> mValue r \<noteq> 0 \<and> q = pack_rate r)"
proof (cases "mValue out = 0")
  case True
  with assms(3) show ?thesis by (simp add: getRate_def)
next
  case False
  have i: "\<not> isNative_issue noIssue" by (simp add: isNative_issue_def issue_defs)
  show ?thesis
  proof (cases "divide in' out noIssue")
    case (Inl x)
    with assms False show ?thesis by (auto simp: getRate_def split: if_splits)
  next
    case (Inr r)
    from divide_error [OF assms(2,1) False i Inr] have "wf_amount r" "mIssue r = noIssue" by auto
    with Inr False assms(3) show ?thesis
      by (auto simp: getRate_def pack_rate_def split: if_splits)
  qed
qed

text \<open>
  Offer rates sort like the prices they stand for: for offers over canonical amounts of
  positive sign whose rates are not zero, the 64-bit rate of one is below that of the other
  exactly when the quotient \<open>in / out\<close> computed for it denotes the smaller number, and
  decoding a rate gives that quotient back.
\<close>
theorem getRate_order:
  assumes wf: "wf_amount out1" "wf_amount in1" "wf_amount out2" "wf_amount in2"
    and pos: "mIsNegative in1 = mIsNegative out1" "mIsNegative in2 = mIsNegative out2"
    and q: "getRate out1 in1 = Ok q1" "q1 \<noteq> 0" "getRate out2 in2 = Ok q2" "q2 \<noteq> 0"
  shows "\<exists>r1 r2. divide in1 out1 noIssue = Ok r1 \<and> divide in2 out2 noIssue = Ok r2 \<and>
    amountFromQuality q1 = Ok r1 \<and> amountFromQuality q2 = Ok r2 \<and>
    (q1 < q2 \<longleftrightarrow> denote r1 < denote r2)"
proof -
  have i: "\<not> isNative_issue noIssue" by (simp add: isNative_issue_def issue_defs)
  from getRate_cases [OF wf(1,2) q(1)] q(2) obtain r1 where
    r1: "divide in1 out1 noIssue = Ok r1" "wf_amount r1" "mIssue r1 = noIssue" "mValue r1 \<noteq> 0" "q1 = pack_rate r1" by blast
  from getRate_cases [OF wf(3,4) q(3)] q(4) obtain r2 where
    r2: "divide in2 out2 noIssue = Ok r2" "wf_amount r2" "mIssue r2 = noIssue" "mValue r2 \<noteq> 0" "q2 = pack_rate r2" by blast
  have "mValue out1 \<noteq> 0" "mValue out2 \<noteq> 0" using q by (auto simp: getRate_def)
  then have "\<not> mIsNegative r1" "\<not> mIsNegative r2"
    using divide_error [OF wf(2,1) _ i r1(1)] divide_error [OF wf(4,3) _ i r2(1)] r1 r2 pos by auto
  then show ?thesis
    using amountFromQuality_pack [OF r1(2-4)] amountFromQuality_pack [OF r2(2-4)] r1 r2
      pack_rate_less_iff [OF r1(2-4) _ r2(2-4)] by auto
qed

lemmas amount_eval = in_range_def into_range.simps amount_consts tenTo14_def tenTo17_def bn_getuint64_def
  STAmount_canonical_def canonicalize_def isNative_alt canonicalize_issued_def scale_up.simps scale_down.simps

theorem divide_accurate_witness:
  "let a = \<lparr>mIssue = xrpIssue, mValue = 10, mOffset = 0, mIsNative = True, mIsNegative = False\<rparr>;
       b = \<lparr>mIssue = xrpIssue, mValue = 4, mOffset = 0, mIsNative = True, mIsNegative = False\<rparr>;
       c = \<lparr>mIssue = noIssue, mValue = 2500000000000000, mOffset = -15, mIsNative = False, mIsNegative = False\<rparr>
   in wf_amount a \<and> wf_amount b \<and> divide a b noIssue = Ok c \<and>
      \<bar>\<bar>denote c\<bar> - \<bar>denote a / denote b\<bar>\<bar> \<le> 7 * \<bar>denote a / denote b\<bar> / 10 ^ 15"
proof -
  let ?a = "\<lparr>mIssue = xrpIssue, mValue = 10, mOffset = 0, mIsNative = True, mIsNegative = False\<rparr>"
  let ?b = "\<lparr>mIssue = xrpIssue, mValue = 4, mOffset = 0, mIsNative = True, mIsNegative = False\<rparr>"
  let ?c = "\<lparr>mIssue = noIssue, mValue = 2500000000000000, mOffset = -15, mIsNative = False, mIsNegative = False\<rparr>"
  have wf: "wf_amount ?a" "wf_amount ?b"
    by (simp_all add: wf_amount_def isNative_def isXRP_def isVBC_def issue_defs)
  have i: "\<not> isNative_issue noIssue" by (simp add: isNative_issue_def issue_defs)
  have c: "divide ?a ?b noIssue = Ok ?c" using i by (simp add: divide_def amount_eval)
  from divide_accurate [OF wf _ i c] wf c show ?thesis by (simp add: Let_def)
qed

theorem getRate_order_witness:
  "\<exists>r1 r2. getRate (STAmount_drops 4 False) (STAmount_drops 10 False) = Ok 6127395493223874560 \<and>
    getRate (STAmount_drops 2 False) (STAmount_drops 6 False) = Ok 6127895493223874560 \<and>
    amountFromQuality 6127395493223874560 = Ok r1 \<and> amountFromQuality 6127895493223874560 = Ok r2 \<and>
    denote r1 < denote r2"
proof -
  have wf: "wf_amount (STAmount_drops 4 False)" "wf_amount (STAmount_drops 10 False)"
    "wf_amount (STAmount_drops 2 False)" "wf_amount (STAmount_drops 6 False)"
    by (simp_all add: wf_amount_def STAmount_drops_def isNative_def isXRP_def isVBC_def issue_defs)
  have i: "\<not> isNative_issue noIssue" by (simp add: isNative_issue_def issue_defs)
  have q: "getRate (STAmount_drops 4 False) (STAmount_drops 10 False) = Ok 6127395493223874560"
    "getRate (STAmount_drops 2 False) (STAmount_drops 6 False) = Ok 6127895493223874560"
    using i by (simp_all add: getRate_def divide_def STAmount_drops_def amount_eval)
  from getRate_order [OF wf(1,2,3,4) _ _ q(1) _ q(2)] q
  show ?thesis by (auto simp: STAmount_drops_def)
qed

subsection \<open>mulDiv\<close>

lemma lowest_loop_gcd: "unat (lowest_loop x y) = gcd (unat x) (unat y)"
proof (induction x y rule: lowest_loop.induct)
  case (1 x y)
  show ?case
  proof (cases "y = 0")
    case True then show ?thesis by (simp add: lowest_loop.simps)
  next
    case False
    with 1 have "unat (lowest_loop y (x mod y)) = gcd (unat y) (unat x mod unat y)" by (simp add: unat_mod)
    then show ?thesis using False by (simp add: lowest_loop.simps [of x y] gcd_red_nat [of "unat x"])
  qed
qed

lemma lowestTerms_Ok:
  assumes "b \<noteq> 0"
  obtains a' b' where "lowestTerms a b = Ok (a', b')" "b' \<noteq> 0"
    and "unat a = unat a' * gcd (unat a) (unat b)" "unat b = unat b' * gcd (unat a) (unat b)"
proof -
  let ?x = "lowest_loop a b"
  have x: "unat ?x = gcd (unat a) (unat b)" by (rule lowest_loop_gcd)
  have nz: "unat b \<noteq> 0" using assms by (simp add: unat_eq_zero)
  then have "?x \<noteq> 0" using x by (metis gcd_eq_0_iff unat_0)
  then have l: "lowestTerms a b = Ok (a div ?x, b div ?x)" by (simp add: lowestTerms_def Let_def)
  have q: "unat (a div ?x) = unat a div gcd (unat a) (unat b)" "unat (b div ?x) = unat b div gcd (unat a) (unat b)"
    by (simp_all add: unat_div x)
  have "unat (b div ?x) \<noteq> 0" unfolding q using nz by (simp add: div_eq_0_iff gcd_le2_nat not_less)
  then have "b div ?x \<noteq> 0" by (auto simp del: unat_div)
  then show ?thesis using that [OF l] q by simp
qed

lemma ratio_reduce:
  fixes v m d :: nat
  assumes "v = v1 * g" "d = d1 * g" "0 < g" shows "v * m div d = v1 * m div d1"
proof -
  have "v1 * g * m div (d1 * g) = (v1 * m) * g div (d1 * g)" by (simp add: mult_ac)
  also have "\<dots> = v1 * m div d1" using assms(3) by (simp add: div_mult_mult2)
  finally show ?thesis by (simp add: assms)
qed

lemma max_div_iff:
  fixes v m :: u64
  assumes "m \<noteq> 0"
  shows "-1 div m < v \<longleftrightarrow> 2 ^ 64 \<le> unat v * unat m"
proof -
  have "unat (-1 :: u64) = 2 ^ 64 - 1" by (simp add: unsigned_minus_1_eq_mask mask_eq_exp_minus_1)
  then have "-1 div m < v \<longleftrightarrow> (2 ^ 64 - 1) div unat m < unat v"
    by (simp only: word_less_nat_alt unat_div)
  also have "\<dots> \<longleftrightarrow> 2 ^ 64 - 1 < unat v * unat m"
    using assms by (subst div_less_iff_less_mult) (simp_all add: unat_gt_0)
  finally show ?thesis by simp linarith
qed

text \<open>
  C40. \<open>mulDiv\<close> never overestimates: for non-zero operands it returns a value that is at most
  \<open>value * mul / div\<close> rounded down, and exactly that whenever the reduced product fits in
  64 bits (in particular whenever \<open>value * mul\<close> does); otherwise it may throw an overflow error.
\<close>
theorem mulDiv_correct:
  assumes nz: "value \<noteq> 0" "mul \<noteq> 0" "dv \<noteq> 0"
  shows "case mulDiv value mul dv of
      Inl e \<Rightarrow> e = OverflowError ''mulDiv'' \<and> 2 ^ 64 \<le> unat value * unat mul
    | Inr r \<Rightarrow> unat r \<le> unat value * unat mul div unat dv \<and>
        (unat value * unat mul < 2 ^ 64 \<longrightarrow> unat r = unat value * unat mul div unat dv)"
proof -
  obtain v1 d1 where 1: "lowestTerms value dv = Ok (v1, d1)" "d1 \<noteq> 0"
    "unat value = unat v1 * gcd (unat value) (unat dv)" "unat dv = unat d1 * gcd (unat value) (unat dv)"
    using lowestTerms_Ok [OF nz(3)] by metis
  obtain m1 d2 where 2: "lowestTerms mul d1 = Ok (m1, d2)" "d2 \<noteq> 0"
    "unat mul = unat m1 * gcd (unat mul) (unat d1)" "unat d1 = unat d2 * gcd (unat mul) (unat d1)"
    using lowestTerms_Ok [OF 1(2)] by metis
  let ?g = "gcd (unat value) (unat dv)" and ?h = "gcd (unat mul) (unat d1)"
  have pos: "0 < ?g" "0 < ?h" using nz 1(2) by (auto simp: unat_eq_zero intro!: gcd_pos_nat)
  have e1: "unat value * unat mul div unat dv = unat v1 * unat mul div unat d1"
    by (rule ratio_reduce [OF 1(3,4) pos(1)])
  have e2: "unat mul * unat v1 div unat d1 = unat m1 * unat v1 div unat d2"
    by (rule ratio_reduce [OF 2(3,4) pos(2)])
  have exact: "unat value * unat mul div unat dv = unat v1 * unat m1 div unat d2"
    using e1 e2 by (simp add: mult.commute)
  have nz1: "v1 \<noteq> 0" "m1 \<noteq> 0" using nz 1(3) 2(3) by (metis mult_zero_left unat_0 unat_eq_zero)+
  define p where "p = (if v1 < m1 then (m1, v1) else (v1, m1))"
  obtain v m where vm: "p = (v, m)" by fastforce
  have c: "unat v * unat m = unat v1 * unat m1" "v \<noteq> 0" "m \<noteq> 0"
    using vm nz1 by (auto simp: p_def mult.commute split: if_splits)
  have le: "unat v * unat m \<le> unat value * unat mul"
    using 1(3) 2(3) pos by (metis c(1) le_add1 mult_le_mono mult.right_neutral Suc_leI One_nat_def mult_le_mono2)
  have body: "mulDiv value mul dv =
      (if -1 div m < v then (if -1 div m < v div d2 then Throw (OverflowError ''mulDiv'') else Ok (v div d2 * m))
       else Ok (v * m div d2))"
    using 1 2 c vm by (simp add: mulDiv_def Let_def p_def)
  show ?thesis
  proof (cases "-1 div m < v")
    case False
    then have fit: "unat v * unat m < 2 ^ 64" using max_div_iff [OF c(3)] by simp
    then have "unat (v * m) = unat v * unat m" by (intro unat_times_no_wrap) simp
    then show ?thesis using False by (simp add: body unat_div exact c(1))
  next
    case True
    then have big: "2 ^ 64 \<le> unat value * unat mul" using le max_div_iff [OF c(3)] by (meson order_trans)
    show ?thesis
    proof (cases "-1 div m < v div d2")
      case True
      with \<open>-1 div m < v\<close> big show ?thesis by (simp add: body)
    next
      case F: False
      then have "unat (v div d2) * unat m < 2 ^ 64" using max_div_iff [OF c(3)] by simp
      then have "unat (v div d2 * m) = unat v div unat d2 * unat m"
        by (subst unat_times_no_wrap) (simp_all add: unat_div)
      also have "\<dots> \<le> unat v * unat m div unat d2"
        using 2(2) by (simp add: less_eq_div_iff_mult_less_eq unat_gt_0 mult.commute mult.left_commute)
      finally show ?thesis using big True F by (simp add: body exact c(1))
    qed
  qed
qed


theorem mulDiv_correct_witness:
  "(10000000000 :: u64) \<noteq> 0 \<and> (6000000000 :: u64) \<noteq> 0 \<and> (4 :: u64) \<noteq> 0 \<and>
   (case mulDiv 10000000000 6000000000 4 of
      Inl e \<Rightarrow> False
    | Inr r \<Rightarrow> unat r \<le> unat (10000000000 :: u64) * unat (6000000000 :: u64) div unat (4 :: u64))"
proof -
  have "lowest_loop 10000000000 4 = 4" "lowest_loop 6000000000 1 = 1" by (simp_all add: lowest_loop.simps)
  then have "mulDiv 10000000000 6000000000 4 = Ok 15000000000000000000"
    by (simp add: mulDiv_def lowestTerms_def)
  with mulDiv_correct [of 10000000000 6000000000 4] show ?thesis by simp
qed

text \<open>
  \<open>mulDiv\<close> and \<open>mulDivNoThrow\<close> divide by zero when either factor is zero: the overflow
  test divides the largest 64-bit value by the smaller factor.
\<close>
theorem mulDiv_zero_factor_traps:
  assumes "value = 0 \<or> mul = 0" and "dv \<noteq> 0"
  shows "mulDiv value mul dv = Throw DivideByZero \<and> mulDivNoThrow value mul dv = Throw DivideByZero"
proof -
  obtain v1 d1 where 1: "lowestTerms value dv = Ok (v1, d1)" "d1 \<noteq> 0"
    "unat value = unat v1 * gcd (unat value) (unat dv)" using lowestTerms_Ok [OF assms(2)] by metis
  obtain m1 d2 where 2: "lowestTerms mul d1 = Ok (m1, d2)" "d2 \<noteq> 0"
    "unat mul = unat m1 * gcd (unat mul) (unat d1)" using lowestTerms_Ok [OF 1(2)] by metis
  have "gcd (unat value) (unat dv) \<noteq> 0" "gcd (unat mul) (unat d1) \<noteq> 0"
    using assms(2) 1(2) by (auto simp: unat_eq_zero)
  then have "v1 = 0 \<or> m1 = 0" using assms(1) 1(3) 2(3) by (metis mult_eq_0_iff unat_0 unat_eq_zero)
  then have "mulDiv value mul dv = Throw DivideByZero"
    using 1 2 by (auto simp: mulDiv_def Let_def word_greater_zero_iff)
  then show ?thesis by (simp add: mulDivNoThrow_def)
qed

theorem mulDiv_zero_factor_traps_witness: "mulDivNoThrow 0 256 10 = Throw DivideByZero"
  using mulDiv_zero_factor_traps [of 0 256 10] by simp

lemma ctz_from_dvd: "k \<le> n \<Longrightarrow> 2 ^ k dvd unat v \<Longrightarrow> k \<le> ctz_from n v"
proof (induction n arbitrary: k v)
  case 0 then show ?case by simp
next
  case (Suc n)
  show ?case
  proof (cases k)
    case 0 then show ?thesis by simp
  next
    case (Suc j)
    with Suc.prems have "even (unat v)" by (metis dvd_mult_left power_Suc)
    then have "\<not> bit v 0" using bit_unsigned_iff [where 'a = nat, of v 0] by (simp add: bit_0)
    then have "v AND 1 = 0" by (simp add: and_one_eq mod_2_eq_odd bit_0)
    moreover have "2 ^ j dvd unat (drop_bit 1 v)"
      using Suc Suc.prems(2) \<open>even (unat v)\<close>
      by (simp add: drop_bit_eq_div unat_div dvd_div_iff_mult mult.commute)
    ultimately show ?thesis using Suc Suc.IH [of j "drop_bit 1 v"] Suc.prems(1) by simp
  qed
qed

text \<open>
  \<open>isMathematicalInteger\<close> accepts every amount that is an integer, but it counts binary
  zeros against a decimal exponent: \<open>2^50 * 10^-15\<close>, which is not an integer, passes too.
\<close>
theorem isMathematicalInteger_not_decimal:
  "(\<forall>a. mOffset a \<ge> -64 \<and> is_integer a \<longrightarrow> isMathematicalInteger a) \<and>
   (\<exists>a. wf_amount a \<and> isMathematicalInteger a \<and> \<not> is_integer a)"
proof (intro conjI allI impI)
  fix a assume a: "mOffset a \<ge> -64 \<and> is_integer a"
  show "isMathematicalInteger a"
  proof (cases "mOffset a \<ge> 0")
    case True then show ?thesis by (simp add: isMathematicalInteger_def)
  next
    case False
    define k where "k = nat (- mOffset a)"
    from a obtain z :: int where "denote a = of_int z" by (auto simp: is_integer_def)
    then have "magnitude (unat (mValue a)) (- int k) = of_int \<bar>z\<bar>"
      using False abs_denote [of a] by (simp add: k_def)
    then have "of_nat (unat (mValue a)) = (of_int \<bar>z\<bar> * 10 ^ k :: rat)"
      by (simp only: magnitude_def) (simp add: power_int_minus field_simps)
    then have "(of_int (int (unat (mValue a))) :: rat) = of_int (\<bar>z\<bar> * 10 ^ k)" by simp
    then have "int (unat (mValue a)) = \<bar>z\<bar> * 10 ^ k" by (simp only: of_int_eq_iff)
    then have "unat (mValue a) = nat \<bar>z\<bar> * 10 ^ k" by (simp flip: of_nat_eq_iff [where 'a = int])
    moreover have "(2 :: nat) ^ k dvd 10 ^ k" by (simp add: dvd_power_same)
    ultimately have "2 ^ k dvd unat (mValue a)" by (simp add: dvd_mult)
    moreover have "k \<le> 64" using a unfolding k_def by linarith
    ultimately have "k \<le> ctz_from 64 (mValue a)" by (intro ctz_from_dvd)
    then show ?thesis by (simp add: isMathematicalInteger_def k_def)
  qed
next
  let ?a = "\<lparr>mIssue = noIssue, mValue = 1125899906842624, mOffset = -15, mIsNative = False, mIsNegative = False\<rparr>"
  have "wf_amount ?a" by (simp add: wf_amount_def canonical_issued_def isNative_def isXRP_def isVBC_def issue_defs)
  moreover have "isMathematicalInteger ?a"
    using ctz_from_dvd [of 15 64 "mValue ?a"] by (simp add: isMathematicalInteger_def)
  moreover have "\<not> is_integer ?a"
  proof
    assume "is_integer ?a"
    then obtain z :: int where z: "denote ?a = of_int z" by (auto simp: is_integer_def)
    have "denote ?a = 1125899906842624 / 1000000000000000" by (simp add: denote_def magnitude_def)
    then have "(of_int 1125899906842624 :: rat) = of_int (z * 1000000000000000)" using z by simp
    then have "1125899906842624 = z * 1000000000000000" by (simp only: of_int_eq_iff)
    then have "(1125899906842624 :: int) mod 1000000000000000 = 0" by (metis mod_mult_self2_is_0)
    then show False by simp
  qed
  ultimately show "\<exists>a. wf_amount a \<and> isMathematicalInteger a \<and> \<not> is_integer a" by blast
qed

theorem isMathematicalInteger_not_decimal_witness:
  "let a = \<lparr>mIssue = noIssue, mValue = 3000000000000000, mOffset = -15, mIsNative = False, mIsNegative = False\<rparr>
   in mOffset a \<ge> -64 \<and> is_integer a \<and> isMathematicalInteger a"
proof -
  let ?a = "\<lparr>mIssue = noIssue, mValue = 3000000000000000, mOffset = -15, mIsNative = False, mIsNegative = False\<rparr>"
  have "denote ?a = of_int 3" by (simp add: denote_def magnitude_def)
  then have i: "is_integer ?a" unfolding is_integer_def by blast
  with isMathematicalInteger_not_decimal show ?thesis by (simp add: Let_def)
qed

end
