(* ===== verification/Amount_Sum.thy ===== *)
theory Amount_Sum
  imports Amount_Arith
begin

text \<open>
  Correctness of addition: \<open>operator+\<close> on issued amounts is accurate to a few units of the
  larger exponent, on native amounts it is exact, and the \<open>IOUAmount\<close> implementation of
  addition computes the same result as the \<open>STAmount\<close> one.
\<close>

section \<open>Truncating division and alignment\<close>

lemma sdiv_pos: "0 < b \<Longrightarrow> (m :: int) sdiv b = sgn m * (\<bar>m\<bar> div b)"
  by (simp add: signed_divide_int_def)

lemma sdiv_pos_nonneg: "0 < b \<Longrightarrow> 0 \<le> m \<Longrightarrow> (m :: int) sdiv b = m div b"
  by (cases "m = 0") (simp_all add: sdiv_pos)

lemma sdiv_uminus: "0 < b \<Longrightarrow> (- m :: int) sdiv b = - (m sdiv b)"
  by (simp add: sdiv_pos sgn_minus)

lemma sdiv_sdiv:
  assumes "0 < b" "0 < c" shows "(m :: int) sdiv b sdiv c = m sdiv (b * c)"
proof -
  have "n sdiv b sdiv c = n sdiv (b * c)" if "0 \<le> n" for n :: int
    using assms that by (simp add: sdiv_pos_nonneg pos_imp_zdiv_nonneg_iff zdiv_zmult2_eq)
  from this [of m] this [of "- m"] show ?thesis
    using assms by (cases "0 \<le> m") (simp_all add: sdiv_uminus)
qed

lemma align_up_eq: "e \<le> t \<Longrightarrow> align_up t m e = (m sdiv 10 ^ nat (t - e), t)"
proof (induction t m e rule: align_up.induct)
  case (1 t m e)
  show ?case
  proof (cases "e < t")
    case True
    then have n: "nat (t - e) = Suc (nat (t - (e + 1)))" by simp
    from 1 True have "align_up t (m sdiv 10) (e + 1) = (m sdiv 10 sdiv 10 ^ nat (t - (e + 1)), t)" by auto
    with True show ?thesis by (simp add: align_up.simps [of t m e] n sdiv_sdiv)
  next
    case False
    with 1 have "e = t" by simp
    then show ?thesis by (simp add: align_up.simps sdiv_pos sgn_mult_abs mult.commute)
  qed
qed

lemma align_up_ge: "t \<le> e \<Longrightarrow> align_up t m e = (m, e)"
  by (simp add: align_up.simps)

text \<open>A signed mantissa and the number it denotes.\<close>

definition signed_value :: "STAmount \<Rightarrow> int" where
  "signed_value a = (if mIsNegative a then - int (unat (mValue a)) else int (unat (mValue a)))"

lemma denote_signed: "denote a = of_int (signed_value a) * 10 powi (mOffset a)"
  by (simp add: denote_def signed_value_def magnitude_def flip: of_nat_of_int_iff)

lemma sint_small: "unat (v :: u64) < 2 ^ 63 \<Longrightarrow> sint v = int (unat v)"
proof -
  assume "unat v < 2 ^ 63"
  then have "int (unat v) < 2 ^ 63" by (simp only: of_nat_less_numeral_power_cancel_iff)
  then have "uint v < 2 ^ 63" by (simp only: uint_nat)
  moreover have "- (2 ^ 63) \<le> uint v" by (rule order_trans [OF _ uint_nonnegative]) simp
  ultimately have "signed_take_bit 63 (uint v) = uint v" by (intro signed_take_bit_int_eq_self)
  then show ?thesis by (simp add: sint_uint)
qed

lemma sdiv_bounds:
  assumes "0 < (b :: int)"
  shows "\<bar>m - (m sdiv b) * b\<bar> < b" and "\<bar>m sdiv b\<bar> \<le> \<bar>m\<bar>"
proof -
  have p: "\<bar>n - (n sdiv b) * b\<bar> < b \<and> \<bar>n sdiv b\<bar> \<le> \<bar>n\<bar>" if "0 \<le> n" for n
    using assms that zdiv_mono2 [of n 1 b]
    by (simp add: sdiv_pos_nonneg minus_div_mult_eq_mod pos_imp_zdiv_nonneg_iff)
  have n: "\<bar>- m - (- m sdiv b) * b\<bar> = \<bar>m - (m sdiv b) * b\<bar>" "\<bar>- m sdiv b\<bar> = \<bar>m sdiv b\<bar>"
    using assms by (simp_all add: sdiv_uminus abs_minus_commute)
  from p [of m] p [of "- m"] n show "\<bar>m - (m sdiv b) * b\<bar> < b" "\<bar>m sdiv b\<bar> \<le> \<bar>m\<bar>" by (cases "0 \<le> m"; simp)+
qed


lemma signed_value_abs: "\<bar>signed_value a\<bar> = int (unat (mValue a))"
  by (simp add: signed_value_def)

lemma aligned_error:
  assumes "e \<le> t"
  shows "\<bar>of_int (m sdiv 10 ^ nat (t - e)) * 10 powi t - of_int m * 10 powi e\<bar> < (10 :: rat) powi t"
proof -
  let ?b = "10 ^ nat (t - e) :: int"
  have p: "(10 :: rat) powi t = of_int ?b * 10 powi e"
    using assms power_int_add [of "10 :: rat" "t - e" e] by (simp add: power_int_def)
  have "\<bar>m - (m sdiv ?b) * ?b\<bar> < ?b" by (rule sdiv_bounds) simp
  then have "(of_int \<bar>m - (m sdiv ?b) * ?b\<bar> :: rat) < of_int ?b" by (simp only: of_int_less_iff)
  then have "\<bar>of_int m - of_int (m sdiv ?b) * of_int ?b\<bar> * 10 powi e < of_int ?b * (10 :: rat) powi e"
    by simp
  moreover have "of_int (m sdiv ?b) * 10 powi t - of_int m * 10 powi e =
      - ((of_int m - of_int (m sdiv ?b) * of_int ?b) * (10 :: rat) powi e)" by (simp add: p algebra_simps)
  ultimately show ?thesis unfolding p by (simp add: abs_mult)
qed

text \<open>
  The aligned sum of two issued amounts: it is off by less than one unit of the larger
  exponent and fits easily in 64 bits.
\<close>

definition aligned_sum :: "STAmount \<Rightarrow> STAmount \<Rightarrow> int" where
  "aligned_sum a b = (let E = max (mOffset a) (mOffset b) in
     signed_value a sdiv 10 ^ nat (E - mOffset a) + signed_value b sdiv 10 ^ nat (E - mOffset b))"

lemma sdiv_1 [simp]: "(m :: int) sdiv 1 = m"
  by (simp add: sdiv_pos sgn_mult_abs mult.commute)

lemma aligned_sum_error:
  "\<bar>of_int (aligned_sum a b) * 10 powi (max (mOffset a) (mOffset b)) - (denote a + denote b)\<bar>
     < 10 powi (max (mOffset a) (mOffset b))"
proof (cases "mOffset a \<le> mOffset b")
  case True
  then show ?thesis using aligned_error [OF True, of "signed_value a"]
    by (simp add: aligned_sum_def Let_def denote_signed max_def algebra_simps)
next
  case False
  then have "mOffset b \<le> mOffset a" by simp
  with False show ?thesis using aligned_error [of "mOffset b" "mOffset a" "signed_value b"]
    by (simp add: aligned_sum_def Let_def denote_signed max_def algebra_simps)
qed

lemma aligned_sum_bound: "\<bar>aligned_sum a b\<bar> \<le> int (unat (mValue a)) + int (unat (mValue b))"
proof -
  have "\<bar>signed_value a sdiv 10 ^ n\<bar> \<le> int (unat (mValue a))" for a n
    using sdiv_bounds(2) [of "10 ^ n" "signed_value a"] by (simp add: signed_value_abs)
  from this [of a] this [of b] show ?thesis
    unfolding aligned_sum_def Let_def by (meson abs_triangle_ineq add_mono order_trans)
qed

lemma plus_issued_body:
  assumes "wf_amount a" "wf_amount b" "areComparable a b" "\<not> mIsNative a" "mValue a \<noteq> 0" "mValue b \<noteq> 0"
  shows "plus_amount a b =
    (let fv = aligned_sum a b; E = max (mOffset a) (mOffset b) in
     if \<bar>fv\<bar> \<le> 10 then STAmount_canonical (mIssue a) 0 0 False
     else STAmount_canonical (mIssue a) (word_of_int \<bar>fv\<bar>) E (fv < 0))"
proof -
  have nb: "\<not> mIsNative b" using assms by (auto simp: areComparable_def split: if_splits)
  have "unat (mValue a) < 2 ^ 63" "unat (mValue b) < 2 ^ 63"
    using assms nb by (auto simp: wf_amount_def canonical_issued_def)
  then have s: "sint (mValue a) = int (unat (mValue a))" "sint (mValue b) = int (unat (mValue b))"
    by (simp_all add: sint_small)
  consider "mOffset a \<le> mOffset b" | "mOffset b \<le> mOffset a" by linarith
  then show ?thesis
    by cases (use assms nb in \<open>simp_all add: plus_amount_def s align_up_eq align_up_ge aligned_sum_def
        signed_value_def Let_def max_def abs_le_iff\<close>)
qed

lemma plus_issued_nonzero:
  assumes ia: "\<not> isNative_issue issue" and fv: "10 < \<bar>fv\<bar>" "\<bar>fv\<bar> \<le> 20000000000000000"
    and err: "\<bar>of_int fv * 10 powi E - x\<bar> < (10 :: rat) powi E"
    and ok: "STAmount_canonical issue (word_of_int \<bar>fv\<bar>) E (fv < 0) = Ok c"
  shows "wf_amount c \<and> mIssue c = issue \<and>
    (\<bar>denote c - x\<bar> < 21 * 10 powi E \<or> mValue c = 0 \<and> \<bar>x\<bar> < 10 powi (-80))"
proof -
  define y where "y = of_int fv * (10 :: rat) powi E"
  note t = STAmount_canonical_issued [OF ok ia]
  have u: "unat (word_of_int \<bar>fv\<bar> :: u64) = nat \<bar>fv\<bar>"
    using fv by (simp only: unat_eq_nat_uint) (simp add: uint_word_of_int_u64)
  have mg: "magnitude (unat (word_of_int \<bar>fv\<bar> :: u64)) E = \<bar>y\<bar>"
    unfolding u by (simp add: y_def magnitude_def abs_mult)
  have P: "0 < (10 :: rat) powi E" by simp
  have "(of_int \<bar>fv\<bar> :: rat) \<le> of_int 20000000000000000" "(of_int 10 :: rat) \<le> of_int \<bar>fv\<bar>"
    using fv by (simp_all only: of_int_le_iff)
  then have big: "\<bar>y\<bar> \<le> 20 * 10 ^ 15 * 10 powi E" "10 * (10 :: rat) powi E \<le> \<bar>y\<bar>"
    by (simp_all add: y_def abs_mult)
  have sy: "y = (if fv < 0 then - \<bar>y\<bar> else \<bar>y\<bar>)" by (simp add: y_def abs_mult)
  from t(1) consider "\<bar>y\<bar> < 10 powi (-81)" "mValue c = 0"
    | "\<bar>denote c\<bar> \<le> \<bar>y\<bar>" "\<bar>y\<bar> - \<bar>denote c\<bar> < \<bar>denote c\<bar> / 10 ^ 15" "mIsNegative c = (fv < 0)"
    unfolding truncates_to_def mg by blast
  then have "\<bar>denote c - x\<bar> < 21 * 10 powi E \<or> mValue c = 0 \<and> \<bar>x\<bar> < 10 powi (-80)"
  proof cases
    case 1
    have "10 * (10 :: rat) powi (-81) = 10 powi (-80)" by (simp flip: power10_Suc)
    with 1 err big P show ?thesis unfolding y_def [symmetric] by (intro disjI2) linarith
  next
    case 2
    have "denote c = (if fv < 0 then - \<bar>denote c\<bar> else \<bar>denote c\<bar>)"
      unfolding abs_denote using 2(3) by (simp add: denote_def)
    then have "\<bar>denote c - y\<bar> = \<bar>y\<bar> - \<bar>denote c\<bar>" using sy 2(1) by (auto split: if_splits)
    moreover have "\<bar>denote c\<bar> / 10 ^ 15 \<le> 20 * 10 powi E"
      using order_trans [OF 2(1) big(1)] by (simp add: divide_le_eq mult_ac)
    ultimately show ?thesis using 2(2) err P unfolding y_def [symmetric] by (intro disjI1) linarith
  qed
  with t show ?thesis by (simp add: truncates_to_def)
qed

text \<open>
  C36. Adding two canonical issued amounts of one currency is accurate: the sum is canonical,
  keeps the first operand's issue, and is within 21 units of the larger of the two exponents
  of the exact sum, unless the exact sum is below \<open>10^-80\<close> and the result is zero.
\<close>
theorem plus_issued_accurate:
  assumes p: "proper a" "proper b" and cmp: "areComparable a b" and n: "\<not> mIsNative a"
    and ok: "plus_amount a b = Ok c"
  shows "wf_amount c \<and> mIssue c = mIssue a \<and>
    (\<bar>denote c - (denote a + denote b)\<bar> < 21 * 10 powi (max (mOffset a) (mOffset b)) \<or>
     mValue c = 0 \<and> \<bar>denote a + denote b\<bar> < 10 powi (-80))"
proof -
  have wf: "wf_amount a" "wf_amount b" using p by (auto simp: proper_def)
  have ia: "\<not> isNative_issue (mIssue a)" using wf(1) n by (simp add: wf_amount_def isNative_alt)
  have nb: "\<not> isNative b" "\<not> mIsNative b"
    using wf(2) cmp n by (auto simp: wf_amount_def areComparable_def split: if_splits)
  consider "mValue b = 0" | "mValue b \<noteq> 0" "mValue a = 0" | "mValue a \<noteq> 0" "mValue b \<noteq> 0" by blast
  then show ?thesis
  proof cases
    case 1
    with ok cmp wf show ?thesis by (simp add: plus_amount_def denote_zero)
  next
    case 2
    let ?b = "b\<lparr>mIssue := mIssue a, mIsNative := False\<rparr>"
    have "proper ?b" using p(2) ia nb by (auto simp: proper_def wf_amount_def isNative_alt)
    moreover from canonicalize_proper [OF this] have "c = ?b"
      using ok 2 cmp by (cases b) (simp add: plus_amount_def STAmount_canonical_def)
    ultimately show ?thesis using 2 by (simp add: denote_zero denote_def [of b] denote_def [of ?b] proper_def)
  next
    case 3
    define E fv where "E = max (mOffset a) (mOffset b)" and "fv = aligned_sum a b"
    have err: "\<bar>of_int fv * 10 powi E - (denote a + denote b)\<bar> < 10 powi E"
      unfolding E_def fv_def by (rule aligned_sum_error)
    have "unat (mValue a) \<le> 9999999999999999" "unat (mValue b) \<le> 9999999999999999"
      using wf n nb 3 by (auto simp: wf_amount_def canonical_issued_def)
    then have bnd: "\<bar>fv\<bar> \<le> 20000000000000000" using aligned_sum_bound [of a b] unfolding fv_def by linarith
    note body = plus_issued_body [OF wf cmp n 3, folded E_def fv_def, unfolded Let_def]
    show ?thesis
    proof (cases "\<bar>fv\<bar> \<le> 10")
      case True
      with ok body have "STAmount_canonical (mIssue a) 0 0 False = Ok c" by simp
      from STAmount_canonical_issued [OF this ia] have c: "wf_amount c" "mIssue c = mIssue a" "denote c = 0"
        by (auto simp: truncates_to_def)
      have "(of_int \<bar>fv\<bar> :: rat) \<le> of_int 10" using True by (simp only: of_int_le_iff)
      then have "\<bar>of_int fv * (10 :: rat) powi E\<bar> \<le> 10 * 10 powi E" by (simp add: abs_mult)
      then have "\<bar>denote a + denote b\<bar> < 11 * 10 powi E" using err by linarith
      moreover have "0 < (10 :: rat) powi E" by simp
      ultimately have "\<bar>denote c - (denote a + denote b)\<bar> < 21 * 10 powi E" using c(3) by linarith
      with c show ?thesis unfolding E_def [symmetric] by blast
    next
      case False
      with ok body have "STAmount_canonical (mIssue a) (word_of_int \<bar>fv\<bar>) E (fv < 0) = Ok c" by simp
      from plus_issued_nonzero [OF ia _ bnd err this] False show ?thesis unfolding E_def by simp
    qed
  qed
qed


section \<open>Agreement of the two implementations\<close>

text \<open>The signed-mantissa view of an issued amount.\<close>

definition iou_of :: "STAmount \<Rightarrow> IOUAmount" where
  "iou_of a = \<lparr>mantissa = signed_value a, exponent = mOffset a\<rparr>"

definition agree :: "STAmount res \<Rightarrow> IOUAmount res \<Rightarrow> bool" where
  "agree r s = (case (r, s) of (Inr a, Inr x) \<Rightarrow> x = iou_of a | (Inl e, Inl f) \<Rightarrow> True | _ \<Rightarrow> False)"

lemma uint_times10: "uint (v :: u64) < 1000000000000000 \<Longrightarrow> uint (v * 10) = uint v * 10"
  by (simp add: uint_word_ariths)

lemma iou_scale_up_eq: "iou_scale_up (uint v) e = (let (v', e') = scale_up v e in (uint v', e'))"
proof (induction v e rule: scale_up.induct)
  case (1 v e)
  have c: "uint v < minMantissa \<and> e > minExponent \<longleftrightarrow> v < cMinValue \<and> e > cMinOffset"
    by (simp add: word_less_def cMinValue_def cMinOffset_def iou_consts)
  show ?case
  proof (cases "v < cMinValue \<and> e > cMinOffset")
    case True
    then have "uint (v * 10) = uint v * 10" by (intro uint_times10) (simp add: word_less_def cMinValue_def)
    with 1 True show ?thesis unfolding scale_up.simps [of v e] iou_scale_up.simps [of "uint v" e] c by simp
  next
    case False
    then show ?thesis unfolding scale_up.simps [of v e] iou_scale_up.simps [of "uint v" e] c by auto
  qed
qed

lemma iou_scale_down_eq: "iou_scale_down (uint v) e =
  (case scale_down v e of Inl x \<Rightarrow> Throw (OverflowError ''IOUAmount::normalize'') | Inr (v', e') \<Rightarrow> Ok (uint v', e'))"
proof (induction v e rule: scale_down.induct)
  case (1 v e)
  have c: "maxMantissa < uint v \<longleftrightarrow> cMaxValue < v" "maxExponent \<le> e \<longleftrightarrow> cMaxOffset \<le> e"
    by (simp_all add: word_less_def cMaxValue_def cMaxOffset_def iou_consts)
  have d: "uint v sdiv 10 = uint (v div 10)" by (simp add: sdiv_pos_nonneg uint_div)
  show ?case
    using 1 unfolding scale_down.simps [of v e] iou_scale_down.simps [of "uint v" e] c d by simp
qed

lemma normalize_agrees:
  assumes "\<bar>m\<bar> < 2 ^ 64"
  shows "agree (canonicalize_issued \<lparr>mIssue = i, mValue = word_of_int \<bar>m\<bar>, mOffset = e, mIsNative = n, mIsNegative = m < 0\<rparr>)
    (normalize \<lparr>mantissa = m, exponent = e\<rparr>)"
proof -
  define w where "w = (word_of_int \<bar>m\<bar> :: u64)"
  have u: "uint w = \<bar>m\<bar>" unfolding w_def using assms by (intro uint_word_of_int_u64) auto
  then have z: "w = 0 \<longleftrightarrow> m = 0" by (metis abs_eq_0 uint_0_iff)
  have m: "(if m < 0 then - m else m) = uint w" using u by simp
  have cmp: "uint v < minMantissa \<longleftrightarrow> v < cMinValue" "e' < minExponent \<longleftrightarrow> e' < cMinOffset"
    "maxExponent < e' \<longleftrightarrow> cMaxOffset < e'" for v :: u64 and e'
    by (simp_all add: word_less_def cMinValue_def cMinOffset_def cMaxOffset_def iou_consts)
  obtain v1 e1 where 1: "scale_up w e = (v1, e1)" by fastforce
  then have up: "iou_scale_up (if m < 0 then - m else m) e = (uint v1, e1)" unfolding m by (simp add: iou_scale_up_eq)
  show ?thesis
  proof (cases "m = 0")
    case True
    then show ?thesis using z by (simp add: normalize_def canonicalize_issued_def agree_def
        iou_of_def iou_zero_def signed_value_def flip: w_def)
  next
    case nz: False
    have n: "normalize \<lparr>mantissa = m, exponent = e\<rparr> = rbind (iou_scale_down (uint v1) e1) (\<lambda>(m2, e2).
             if e2 < minExponent \<or> m2 < minMantissa then Ok iou_zero
             else rbind (require (\<not> e2 > maxExponent) (OverflowError ''value overflow'')) (\<lambda>_.
               Ok \<lparr>mantissa = (if m < 0 then - m2 else m2), exponent = e2\<rparr>))"
      using nz up by (simp add: normalize_def Let_def split: if_splits)
    show ?thesis
    proof (cases "scale_down v1 e1")
      case (Inl x)
      then show ?thesis using 1 z nz
        by (simp add: n canonicalize_issued_def iou_scale_down_eq agree_def flip: w_def)
    next
      case (Inr p)
      obtain v2 e2 where 2: "p = (v2, e2)" by fastforce
      have "v2 \<le> cMaxValue" using scale_down_spec [OF Inr [unfolded 2]] by (auto simp: value_bounds)
      moreover have "cMinOffset \<le> e2 \<Longrightarrow> e2 \<noteq> -100" by (auto simp: cMinOffset_def)
      ultimately show ?thesis using 1 2 Inr z nz
        by (auto simp add: n canonicalize_issued_def Let_def iou_scale_down_eq agree_def cmp
            require_def iou_of_def iou_zero_def signed_value_def not_less simp flip: w_def)
    qed
  qed
qed

text \<open>Relating the operands: converting a proper issued amount is exact.\<close>

lemma iou_exact:
  assumes "proper a" "\<not> mIsNative a"
  shows "iou a = Ok (iou_of a)"
proof -
  have wf: "wf_amount a" "\<not> isNative a" using assms by (auto simp: proper_def wf_amount_def)
  have "unat (mValue a) < 2 ^ 63" using wf by (auto simp: wf_amount_def canonical_issued_def)
  then have s: "sint (mValue a) = int (unat (mValue a))" by (rule sint_small)
  let ?m = "signed_value a"
  have b: "\<bar>?m\<bar> < 2 ^ 64" using uint_lt2p [of "mValue a"] by (simp add: signed_value_abs)
  have "word_of_int \<bar>?m\<bar> = mValue a" by (simp add: signed_value_abs)
  moreover have "(?m < 0) = mIsNegative a" using assms(1)
    by (auto simp: signed_value_def proper_def simp flip: word_greater_zero_iff word_less_def [of 0, simplified])
  ultimately have "\<lparr>mIssue = mIssue a, mValue = word_of_int \<bar>?m\<bar>, mOffset = mOffset a, mIsNative = False, mIsNegative = ?m < 0\<rparr> = a"
    using assms(2) by (cases a) simp
  with normalize_agrees [OF b, of "mIssue a" "mOffset a" False] canonicalize_proper [OF assms(1)] wf(2)
  have "agree (Ok a) (normalize \<lparr>mantissa = ?m, exponent = mOffset a\<rparr>)" by (simp add: canonicalize_def)
  then have "normalize \<lparr>mantissa = ?m, exponent = mOffset a\<rparr> = Ok (iou_of a)" by (auto simp: agree_def split: sum.splits)
  moreover have "(if mIsNegative a then - sint (mValue a) else sint (mValue a)) = ?m" by (simp add: s signed_value_def)
  ultimately show ?thesis using assms(2) by (simp add: iou_def IOUAmount_make_def Let_def)
qed

text \<open>
  C38. The two implementations of decimal addition agree: adding the \<open>IOUAmount\<close>s of two proper
  issued amounts of one currency gives the \<open>IOUAmount\<close> of their \<open>STAmount\<close> sum, and one of
  them throws exactly when the other does.
\<close>
theorem iou_plus_agrees:
  assumes p: "proper a" "proper b" and cmp: "areComparable a b" and n: "\<not> mIsNative a"
  shows "agree (plus_amount a b) (rbind (iou a) (\<lambda>x. rbind (iou b) (iou_plus x)))"
proof -
  have wf: "wf_amount a" "wf_amount b" using p by (auto simp: proper_def)
  have ia: "\<not> isNative_issue (mIssue a)" using wf(1) n by (simp add: wf_amount_def isNative_alt)
  have nb: "\<not> isNative b" "\<not> mIsNative b"
    using wf(2) cmp n by (auto simp: wf_amount_def areComparable_def split: if_splits)
  have z: "iou_signum (iou_of x) = 0 \<longleftrightarrow> mValue x = 0" for x
    by (auto simp: iou_signum_def iou_of_def signed_value_def unat_eq_zero unat_gt_0 uint_0_iff)
  have sel: "mantissa (iou_of x) = signed_value x" "exponent (iou_of x) = mOffset x" for x by (simp_all add: iou_of_def)
  have x: "iou a = Ok (iou_of a)" "iou b = Ok (iou_of b)" using p n nb by (simp_all add: iou_exact)
  consider "mValue b = 0" | "mValue b \<noteq> 0" "mValue a = 0" | "mValue a \<noteq> 0" "mValue b \<noteq> 0" by blast
  then show ?thesis
  proof cases
    case 1
    with cmp show ?thesis by (simp add: plus_amount_def x iou_plus_def z agree_def)
  next
    case 2
    let ?b = "b\<lparr>mIssue := mIssue a, mIsNative := False\<rparr>"
    have "proper ?b" using p(2) ia nb by (auto simp: proper_def wf_amount_def isNative_alt)
    from canonicalize_proper [OF this] have "plus_amount a b = Ok ?b"
      using 2 cmp by (cases b) (simp add: plus_amount_def STAmount_canonical_def)
    with 2 show ?thesis by (simp add: x iou_plus_def z agree_def) (simp add: iou_of_def signed_value_def)
  next
    case 3
    define E fv where "E = max (mOffset a) (mOffset b)" and "fv = aligned_sum a b"
    have "unat (mValue a) \<le> 9999999999999999" "unat (mValue b) \<le> 9999999999999999"
      using wf n nb 3 by (auto simp: wf_amount_def canonical_issued_def)
    then have bnd: "\<bar>fv\<bar> \<le> 20000000000000000" using aligned_sum_bound [of a b] unfolding fv_def by linarith
    note body = plus_issued_body [OF wf cmp n 3, folded E_def fv_def, unfolded Let_def]
    have i: "iou_plus (iou_of a) (iou_of b) = (if \<bar>fv\<bar> \<le> 10 then Ok iou_zero else normalize \<lparr>mantissa = fv, exponent = E\<rparr>)"
    proof -
      consider "mOffset a \<le> mOffset b" | "mOffset b \<le> mOffset a" by linarith
      then show ?thesis
        by cases (use 3 in \<open>simp_all add: iou_plus_def z E_def fv_def sel align_up_eq align_up_ge aligned_sum_def
          Let_def max_def abs_le_iff\<close>)
    qed
    have ni: "canonicalize \<lparr>mIssue = mIssue a, mValue = v, mOffset = e, mIsNative = False, mIsNegative = s\<rparr> =
      canonicalize_issued \<lparr>mIssue = mIssue a, mValue = v, mOffset = e, mIsNative = False, mIsNegative = s\<rparr>" for v e s
      using ia by (simp add: canonicalize_def isNative_alt)
    show ?thesis
    proof (cases "\<bar>fv\<bar> \<le> 10")
      case True
      then have "plus_amount a b = Ok \<lparr>mIssue = mIssue a, mValue = 0, mOffset = -100, mIsNative = False, mIsNegative = False\<rparr>"
        by (simp add: body ni STAmount_canonical_def canonicalize_issued_def)
      with True show ?thesis by (simp add: x i agree_def) (simp add: iou_of_def iou_zero_def signed_value_def)
    next
      case False
      have "\<bar>fv\<bar> < 2 ^ 64" using bnd by simp
      from normalize_agrees [OF this] False show ?thesis by (simp add: x i body ni STAmount_canonical_def)
    qed
  qed
qed

lemma denote_STAmount_native:
  assumes "\<bar>s\<bar> < 2 ^ 64" shows "denote (STAmount_native v s) = of_int s"
proof -
  have "int (unat (word_of_int \<bar>s\<bar> :: u64)) = \<bar>s\<bar>"
    using assms by (simp only: unat_eq_nat_uint) (simp add: uint_word_of_int_u64)
  then have "signed_value (STAmount_native v s) = s" "mOffset (STAmount_native v s) = 0"
    by (auto simp: STAmount_native_def set_mantissa_def signed_value_def abs_if split: if_splits)
  then show ?thesis by (simp add: denote_signed)
qed

lemma plus_native:
  assumes wf: "wf_amount a" "wf_amount b" and n: "mIsNative a" "mIsNative b"
  shows "\<exists>c. plus_amount a b = Ok c \<and> mIsNative c \<and> isVBC c = isVBC a \<and> denote c = denote a + denote b"
proof -
  have cmp: "areComparable a b" using n by (simp add: areComparable_def)
  have v: "unat (mValue a) \<le> 100000000000000000" "unat (mValue b) \<le> 100000000000000000"
    and o: "mOffset a = 0" "mOffset b = 0" and na: "isNative a"
    using wf n by (auto simp: wf_amount_def)
  consider "mValue b = 0" | "mValue b \<noteq> 0" "mValue a = 0" | "mValue a \<noteq> 0" "mValue b \<noteq> 0" by blast
  then show ?thesis
  proof cases
    case 1
    with cmp n show ?thesis by (simp add: plus_amount_def denote_zero)
  next
    case 2
    let ?b = "b\<lparr>mIssue := mIssue a, mIsNative := True\<rparr>"
    have "canonicalize \<lparr>mIssue = mIssue a, mValue = mValue b, mOffset = mOffset b, mIsNative = False, mIsNegative = mIsNegative b\<rparr> = Ok ?b"
      using v(2) o na 2 by (cases b) (simp add: canonicalize_def canonicalize_native_def isNative_alt div10_up_to.simps
          mul10_down_to.simps Let_def amount_consts word_less_nat_alt)
    then show ?thesis using 2 cmp
      by (simp add: plus_amount_def STAmount_canonical_def denote_zero isVBC_def) (simp add: denote_def)
  next
    case 3
    have s: "sint (mValue a) = int (unat (mValue a))" "sint (mValue b) = int (unat (mValue b))"
      using v by (simp_all add: sint_small)
    let ?s = "signed_value a + signed_value b" and ?c = "STAmount_native (isVBC a) (signed_value a + signed_value b)"
    have "\<bar>?s\<bar> \<le> \<bar>signed_value a\<bar> + \<bar>signed_value b\<bar>" by (rule abs_triangle_ineq)
    also have "\<dots> \<le> 200000000000000000" using v unfolding signed_value_abs by linarith
    finally have "\<bar>?s\<bar> < 2 ^ 64" by simp
    then have d: "denote ?c = of_int ?s" by (rule denote_STAmount_native)
    have p: "plus_amount a b = Ok ?c" using 3 cmp n
      by (simp add: plus_amount_def getSNValue_def s signed_value_def)
    have "denote ?c = denote a + denote b" using d by (simp add: denote_signed [of a] denote_signed [of b] o)
    with p show ?thesis by (simp add: STAmount_native_def native_issue_def set_mantissa_def isVBC_def issue_defs)
  qed
qed

text \<open>
  Adding native amounts is exact and cannot fail: the sum of two canonical native amounts is
  the native amount of the first operand's currency that denotes the exact sum, also when the
  operands are of the two different native currencies.
\<close>
theorem plus_native_exact:
  assumes "wf_amount a" "wf_amount b" "mIsNative a" "mIsNative b"
  shows "\<exists>c. plus_amount a b = Ok c \<and> mIsNative c \<and> isVBC c = isVBC a \<and> denote c = denote a + denote b"
  using assms by (rule plus_native)

section \<open>Witnesses\<close>

theorem plus_issued_accurate_witness:
  "let a = \<lparr>mIssue = noIssue, mValue = 1000000000000000, mOffset = -15, mIsNative = False, mIsNegative = False\<rparr>;
       b = \<lparr>mIssue = noIssue, mValue = 2500000000000000, mOffset = -14, mIsNative = False, mIsNegative = True\<rparr>;
       c = \<lparr>mIssue = noIssue, mValue = 2400000000000000, mOffset = -14, mIsNative = False, mIsNegative = True\<rparr>
   in proper a \<and> proper b \<and> areComparable a b \<and> plus_amount a b = Ok c \<and>
     (\<bar>denote c - (denote a + denote b)\<bar> < 21 * 10 powi (max (mOffset a) (mOffset b)) \<or>
     mValue c = 0 \<and> \<bar>denote a + denote b\<bar> < 10 powi (-80))"
proof -
  let ?a = "\<lparr>mIssue = noIssue, mValue = 1000000000000000, mOffset = -15, mIsNative = False, mIsNegative = False\<rparr>"
  let ?b = "\<lparr>mIssue = noIssue, mValue = 2500000000000000, mOffset = -14, mIsNative = False, mIsNegative = True\<rparr>"
  let ?c = "\<lparr>mIssue = noIssue, mValue = 2400000000000000, mOffset = -14, mIsNative = False, mIsNegative = True\<rparr>"
  have p: "proper ?a" "proper ?b"
    by (simp_all add: proper_def wf_amount_def canonical_issued_def isNative_def isXRP_def isVBC_def issue_defs)
  have i: "\<not> isNative_issue noIssue" by (simp add: isNative_issue_def issue_defs)
  have m: "areComparable ?a ?b" by (simp add: areComparable_def)
  have c: "plus_amount ?a ?b = Ok ?c"
    using m i by (simp add: plus_amount_def align_up.simps sdiv_pos amount_eval sint_small)
  from plus_issued_accurate [OF p m _ c] p m c show ?thesis unfolding Let_def by simp
qed

theorem iou_plus_agrees_witness:
  "let a = \<lparr>mIssue = noIssue, mValue = 1000000000000000, mOffset = -15, mIsNative = False, mIsNegative = False\<rparr>
   in proper a \<and> areComparable a a \<and> agree (plus_amount a a) (rbind (iou a) (\<lambda>x. rbind (iou a) (iou_plus x)))"
proof -
  let ?a = "\<lparr>mIssue = noIssue, mValue = 1000000000000000, mOffset = -15, mIsNative = False, mIsNegative = False\<rparr>"
  have p: "proper ?a"
    by (simp add: proper_def wf_amount_def canonical_issued_def isNative_def isXRP_def isVBC_def issue_defs)
  moreover have m: "areComparable ?a ?a" by (simp add: areComparable_def)
  ultimately show ?thesis unfolding Let_def using iou_plus_agrees [OF p p m] by simp
qed

theorem plus_native_exact_witness:
  "\<exists>c. wf_amount (STAmount_native False 3) \<and> wf_amount (STAmount_native True (-5)) \<and>
     plus_amount (STAmount_native False 3) (STAmount_native True (-5)) = Ok c \<and> \<not> isVBC c \<and> denote c = -2"
proof -
  let ?a = "STAmount_native False 3" and ?b = "STAmount_native True (-5)"
  have wf: "wf_amount ?a" "wf_amount ?b" "mIsNative ?a" "mIsNative ?b" "\<not> isVBC ?a"
    by (simp_all add: wf_amount_def STAmount_native_def set_mantissa_def native_issue_def isNative_def isXRP_def
        isVBC_def issue_defs)
  with plus_native_exact [OF wf(1-4)] show ?thesis by (auto simp: denote_STAmount_native)
qed

end
