(* ===== verification/Quality.thy ===== *)
theory Quality
  imports Amount_Sum
begin

text \<open>
  \<open>protocol/Quality.h\<close> and \<open>protocol/impl/Quality.cpp\<close>: offer amounts, the quality of an
  offer and the scaling of an offer to a limit; and the directed rounding of \<open>mulRound\<close> and
  \<open>divRound\<close> that they rely on.
\<close>

section \<open>Amounts and qualities\<close>

record Amounts =
  in_a :: STAmount
  out_a :: STAmount

definition amounts_empty :: "Amounts \<Rightarrow> bool" where
  "amounts_empty a \<longleftrightarrow> signum (in_a a) \<le> 0 \<or> signum (out_a a) \<le> 0"

definition eq_amounts :: "Amounts \<Rightarrow> Amounts \<Rightarrow> bool" where
  "eq_amounts lhs rhs \<longleftrightarrow> eq_amount (in_a lhs) (in_a rhs) \<and> eq_amount (out_a lhs) (out_a rhs)"

record Quality =
  m_value :: u64

definition Quality_of_amounts :: "Amounts \<Rightarrow> Quality res" where
  "Quality_of_amounts a = rbind (getRate (out_a a) (in_a a)) (\<lambda>r. Ok \<lparr>m_value = r\<rparr>)"

definition quality_inc :: "Quality \<Rightarrow> Quality res" where
  "quality_inc q = rbind (require (m_value q > 0) AssertFailed) (\<lambda>_. Ok \<lparr>m_value = m_value q - 1\<rparr>)"

definition quality_dec :: "Quality \<Rightarrow> Quality res" where
  "quality_dec q = rbind (require (m_value q < -1) AssertFailed) (\<lambda>_. Ok \<lparr>m_value = m_value q + 1\<rparr>)"

definition rate :: "Quality \<Rightarrow> STAmount res" where
  "rate q = amountFromQuality (m_value q)"

definition quality_less :: "Quality \<Rightarrow> Quality \<Rightarrow> bool" where
  "quality_less lhs rhs \<longleftrightarrow> m_value lhs > m_value rhs"

definition quality_eq :: "Quality \<Rightarrow> Quality \<Rightarrow> bool" where
  "quality_eq lhs rhs \<longleftrightarrow> m_value lhs = m_value rhs"

definition ceil_in :: "Quality \<Rightarrow> Amounts \<Rightarrow> STAmount \<Rightarrow> STAmountCalcSwitchovers \<Rightarrow> Amounts res" where
  "ceil_in q amount limit switchovers =
     rbind (greater_amount (in_a amount) limit) (\<lambda>over.
     if over then
       rbind (rate q) (\<lambda>r.
       rbind (divRound limit r (mIssue (out_a amount)) True switchovers) (\<lambda>out0.
       rbind (greater_amount out0 (out_a amount)) (\<lambda>more.
         let result = \<lparr>in_a = limit, out_a = (if more then out_a amount else out0)\<rparr>
         in rbind (require (eq_amount (in_a result) limit) AssertFailed) (\<lambda>_. Ok result))))
     else
       rbind (le_amount (in_a amount) limit) (\<lambda>b.
       rbind (require b AssertFailed) (\<lambda>_. Ok amount)))"

definition ceil_out :: "Quality \<Rightarrow> Amounts \<Rightarrow> STAmount \<Rightarrow> STAmountCalcSwitchovers \<Rightarrow> Amounts res" where
  "ceil_out q amount limit switchovers =
     rbind (greater_amount (out_a amount) limit) (\<lambda>over.
     if over then
       rbind (rate q) (\<lambda>r.
       rbind (mulRound limit r (mIssue (in_a amount)) True switchovers) (\<lambda>in0.
       rbind (greater_amount in0 (in_a amount)) (\<lambda>more.
         let result = \<lparr>in_a = (if more then in_a amount else in0), out_a = limit\<rparr>
         in rbind (require (eq_amount (out_a result) limit) AssertFailed) (\<lambda>_. Ok result))))
     else
       rbind (le_amount (out_a amount) limit) (\<lambda>b.
       rbind (require b AssertFailed) (\<lambda>_. Ok amount)))"

definition composed_quality :: "Quality \<Rightarrow> Quality \<Rightarrow> STAmountCalcSwitchovers \<Rightarrow> Quality res" where
  "composed_quality lhs rhs switchovers =
     rbind (rate lhs) (\<lambda>lhs_rate.
     rbind (require (\<not> is_zero lhs_rate) AssertFailed) (\<lambda>_.
     rbind (rate rhs) (\<lambda>rhs_rate.
     rbind (require (\<not> is_zero rhs_rate) AssertFailed) (\<lambda>_.
     rbind (mulRound lhs_rate rhs_rate (mIssue lhs_rate) True switchovers) (\<lambda>r.
       let stored_exponent = word_of_int (mOffset r + 100) :: u64;
           stored_mantissa = mValue r
       in rbind (require (stored_exponent > 0 \<and> stored_exponent \<le> 255) AssertFailed) (\<lambda>_.
            Ok \<lparr>m_value = push_bit (64 - 8) stored_exponent OR stored_mantissa\<rparr>))))))"

section \<open>Directed rounding\<close>

lemma canonicalizeRound_down [simp]: "canonicalizeRound n v e False = (v, e)"
  by (simp add: canonicalizeRound_def)

lemma STAmount_canonical_proper:
  assumes "STAmount_canonical issue m e False = Ok c"
  shows "proper c" and "mIssue c = issue" and "\<not> mIsNegative c"
proof -
  from assms show n: "\<not> mIsNegative c"
    by (auto simp: STAmount_canonical_def canonicalize_def canonicalize_native_def canonicalize_issued_def Let_def
        split: if_splits prod.splits)
  from assms have c: "canonicalize \<lparr>mIssue = issue, mValue = m, mOffset = e, mIsNative = False, mIsNegative = False\<rparr> = Ok c"
    by (simp add: STAmount_canonical_def)
  from canonicalize_wf [OF c] n show "proper c" "mIssue c = issue" by (simp_all add: proper_def)
qed

lemma round_result_down:
  assumes "round_result issue v e neg neg sw = Ok c" "\<not> isNative_issue issue"
  shows "truncates_to (magnitude (unat (bn_getuint64 v)) e) neg c" "mIssue c = issue"
proof -
  from assms(1) have "STAmount_canonical issue (bn_getuint64 v) e neg = Ok c"
    by (auto simp: round_result_def split: if_splits)
  from STAmount_canonical_issued [OF this assms(2)] show
    "truncates_to (magnitude (unat (bn_getuint64 v)) e) neg c" "mIssue c = issue" .
qed

lemma round_result_proper:
  assumes "round_result issue v e False up sw = Ok c"
  shows "proper c" "mIssue c = issue" "\<not> mIsNegative c"
proof -
  from assms obtain m f where "STAmount_canonical issue m f False = Ok c"
    by (auto simp: round_result_def Let_def split: if_splits prod.splits)
  from STAmount_canonical_proper [OF this] show "proper c" "mIssue c = issue" "\<not> mIsNegative c" .
qed

lemma magnitude_floor:
  assumes "0 < d" "n div d \<le> 10 ^ 19"
  shows "magnitude (unat (bn_getuint64 (n div d))) e \<le> of_nat n / of_nat d * 10 powi e"
proof -
  have u: "unat (bn_getuint64 (n div d)) = n div d" using assms(2) by (simp add: bn_getuint64_nat)
  have "of_nat (n div d) \<le> (of_nat n / of_nat d :: rat)" using rat_div_bounds [OF assms(1), of n] by simp
  then show ?thesis unfolding u magnitude_def by (rule mult_right_mono) simp
qed

lemma mulRound_down:
  assumes wf: "wf_amount a" "wf_amount b" and one: "\<not> (mIsNative a \<and> mIsNative b)"
    and issue: "\<not> isNative_issue issue"
    and ok: "mulRound a b issue (mIsNegative a \<noteq> mIsNegative b) sw = Ok c"
  shows "wf_amount c \<and> mIssue c = issue \<and> \<bar>denote c\<bar> \<le> \<bar>denote a * denote b\<bar>"
proof (cases "mValue a = 0 \<or> mValue b = 0")
  case True
  with ok have c: "STAmount_canonical issue 0 0 False = Ok c" by (simp add: mulRound_def)
  note t = STAmount_canonical_issued [OF c issue]
  from t True show ?thesis by (auto simp: truncates_to_def denote_zero)
next
  case False
  obtain v e where v: "in_range a = Ok (v, e)" "magnitude (unat v) e = \<bar>denote a\<bar>"
    "1000000000000000 \<le> unat v" "unat v \<le> 100000000000000000" "\<not> mIsNative a \<Longrightarrow> unat v \<le> 9999999999999999"
    using in_range_wf [OF wf(1)] False by blast
  obtain w f where w: "in_range b = Ok (w, f)" "magnitude (unat w) f = \<bar>denote b\<bar>"
    "1000000000000000 \<le> unat w" "unat w \<le> 100000000000000000" "\<not> mIsNative b \<Longrightarrow> unat w \<le> 9999999999999999"
    using in_range_wf [OF wf(2)] False by blast
  from one v w have "unat v \<le> 9999999999999999 \<or> unat w \<le> 9999999999999999" by auto
  note fits = product_fits [OF v(3,4) w(3,4) this]
  let ?n = "mIsNegative a \<noteq> mIsNegative b"
  from ok False issue v(1) w(1) have
    "round_result issue (unat v * unat w div tenTo14) (e + f + 14) ?n ?n sw = Ok c"
    by (cases "mIsNegative a"; cases "mIsNegative b") (simp_all add: mulRound_def Let_def)
  note t = round_result_down [OF this issue]
  have "of_nat (unat v * unat w) / of_nat tenTo14 * 10 powi (e + f + 14) = magnitude (unat v) e * magnitude (unat w) f"
    by (simp add: magnitude_def power_int_add tenTo14_def)
  then have x: "of_nat (unat v * unat w) / of_nat tenTo14 * 10 powi (e + f + 14) = \<bar>denote a * denote b\<bar>"
    by (simp add: v(2) w(2) abs_mult)
  have "0 < tenTo14" by (simp add: tenTo14_def)
  from magnitude_floor [OF this fits(1), of "e + f + 14"] t show ?thesis
    unfolding x by (auto simp: truncates_to_def)
qed

lemma divRound_down:
  assumes wf: "wf_amount a" "wf_amount b" and nz: "mValue b \<noteq> 0"
    and issue: "\<not> isNative_issue issue"
    and ok: "divRound a b issue (mIsNegative a \<noteq> mIsNegative b) sw = Ok c"
  shows "wf_amount c \<and> mIssue c = issue \<and> \<bar>denote c\<bar> \<le> \<bar>denote a / denote b\<bar>"
proof (cases "mValue a = 0")
  case True
  with ok nz have c: "STAmount_canonical issue 0 0 False = Ok c" by (simp add: divRound_def)
  note t = STAmount_canonical_issued [OF c issue]
  from t True show ?thesis by (auto simp: truncates_to_def denote_zero)
next
  case False
  obtain v e where v: "in_range a = Ok (v, e)" "magnitude (unat v) e = \<bar>denote a\<bar>"
    "1000000000000000 \<le> unat v" "unat v \<le> 100000000000000000"
    using in_range_wf [OF wf(1) False] by blast
  obtain w f where w: "in_range b = Ok (w, f)" "magnitude (unat w) f = \<bar>denote b\<bar>"
    "1000000000000000 \<le> unat w" "unat w \<le> 100000000000000000"
    using in_range_wf [OF wf(2) nz] by blast
  note fits = quotient_fits [OF v(3,4) w(3,4)]
  let ?n = "mIsNegative a \<noteq> mIsNegative b"
  from ok False nz issue v(1) w(1) have
    "round_result issue (unat v * tenTo17 div unat w) (e - f - 17) ?n ?n sw = Ok c"
    by (cases "mIsNegative a"; cases "mIsNegative b") (simp_all add: divRound_def Let_def)
  note t = round_result_down [OF this issue]
  have "of_nat (unat v * tenTo17) / of_nat (unat w) * 10 powi (e - f - 17) = magnitude (unat v) e / magnitude (unat w) f"
    by (simp add: magnitude_def power_int_diff tenTo17_def tenTo14_def)
  then have x: "of_nat (unat v * tenTo17) / of_nat (unat w) * 10 powi (e - f - 17) = \<bar>denote a / denote b\<bar>"
    by (simp add: v(2) w(2) abs_divide)
  have "0 < unat w" using w(3) by simp
  from magnitude_floor [OF this fits(1), of "e - f - 17"] t show ?thesis
    unfolding x by (auto simp: truncates_to_def)
qed

lemma divRound_proper:
  assumes "divRound a b issue up sw = Ok c" "mIsNegative a = mIsNegative b"
  shows "proper c" "mIssue c = issue" "\<not> mIsNegative c"
proof -
  consider "STAmount_canonical issue 0 0 False = Ok c" | v e where "round_result issue v e False up sw = Ok c"
    using assms by (auto simp: divRound_def Let_def split: if_splits)
  then show "proper c" "mIssue c = issue" "\<not> mIsNegative c"
    by (cases; auto dest: STAmount_canonical_proper round_result_proper)+
qed

lemma mulRound_proper:
  assumes "mulRound a b issue up sw = Ok c" "mIsNegative a = mIsNegative b" "\<not> (mIsNative a \<and> mIsNative b)"
  shows "proper c" "mIssue c = issue" "\<not> mIsNegative c"
proof -
  consider "STAmount_canonical issue 0 0 False = Ok c" | v e where "round_result issue v e False up sw = Ok c"
    using assms by (auto simp: mulRound_def Let_def split: if_splits)
  then show "proper c" "mIssue c = issue" "\<not> mIsNegative c"
    by (cases; auto dest: STAmount_canonical_proper round_result_proper)+
qed

lemma rate_positive:
  assumes "rate q = Ok r" shows "proper r" "mIssue r = noIssue" "\<not> mIsNegative r" "\<not> mIsNative r"
proof -
  from assms obtain m e where "STAmount_canonical noIssue m e False = Ok r"
    by (auto simp: rate_def amountFromQuality_def Let_def split: if_splits)
  from STAmount_canonical_proper [OF this] show p: "proper r" "mIssue r = noIssue" "\<not> mIsNegative r" .
  then show "\<not> mIsNative r" by (simp add: proper_def wf_amount_def isNative_def isXRP_def isVBC_def issue_defs)
qed

lemma comparable_same_issue:
  "wf_amount a \<Longrightarrow> wf_amount b \<Longrightarrow> mIssue a = mIssue b \<Longrightarrow> areComparable a b"
  by (auto simp: areComparable_def wf_amount_def isNative_alt)

lemma eq_amount_refl [simp]: "eq_amount a a"
  by (auto simp: eq_amount_def areComparable_def)

section \<open>Properties\<close>

text \<open>
  Directed rounding towards zero is sound: when the rounding direction and the sign of the
  result ask for truncation, \<open>mulRound\<close> never exceeds the exact product in magnitude, whatever
  the underflow switch says, for canonical operands that are not both native.
\<close>
theorem mulRound_toward_zero:
  assumes "wf_amount a" "wf_amount b" "\<not> (mIsNative a \<and> mIsNative b)" "\<not> isNative_issue issue"
    and "roundUp = (mIsNegative a \<noteq> mIsNegative b)" "mulRound a b issue roundUp sw = Ok c"
  shows "wf_amount c \<and> mIssue c = issue \<and> \<bar>denote c\<bar> \<le> \<bar>denote a * denote b\<bar>"
  using mulRound_down [OF assms(1-4)] assms(5,6) by simp

text \<open>
  The same holds of \<open>divRound\<close> and the exact quotient: an offer scaled with rounding down
  never pays more than its price allows.
\<close>
theorem divRound_toward_zero:
  assumes "wf_amount a" "wf_amount b" "mValue b \<noteq> 0" "\<not> isNative_issue issue"
    and "roundUp = (mIsNegative a \<noteq> mIsNegative b)" "divRound a b issue roundUp sw = Ok c"
  shows "wf_amount c \<and> mIssue c = issue \<and> \<bar>denote c\<bar> \<le> \<bar>denote a / denote b\<bar>"
  using divRound_down [OF assms(1-4)] assms(5,6) by simp

text \<open>
  Rounding up is not a ceiling: \<open>canonicalizeRound\<close> divides by ten without rounding before
  it adds 9, so \<open>mulRound\<close> with \<open>roundUp\<close> set can return less than the exact product.
\<close>
theorem mulRound_up_below_exact:
  "\<exists>a b c. wf_amount a \<and> wf_amount b \<and> \<not> mIsNegative a \<and> \<not> mIsNegative b \<and>
     mulRound a b noIssue True sw = Ok c \<and> denote c < denote a * denote b"
proof (intro exI conjI)
  let ?a = "\<lparr>mIssue = noIssue, mValue = 9999999999999999, mOffset = -15, mIsNative = False, mIsNegative = False\<rparr>"
  let ?b = "\<lparr>mIssue = noIssue, mValue = 9999999999999991, mOffset = -15, mIsNative = False, mIsNegative = False\<rparr>"
  let ?c = "\<lparr>mIssue = noIssue, mValue = 9999999999999990, mOffset = -14, mIsNative = False, mIsNegative = False\<rparr>"
  show "wf_amount ?a" "wf_amount ?b"
    by (simp_all add: wf_amount_def canonical_issued_def isNative_def isXRP_def isVBC_def issue_defs)
  have i: "\<not> isNative_issue noIssue" by (simp add: isNative_issue_def issue_defs)
  then show "mulRound ?a ?b noIssue True sw = Ok ?c"
    by (simp add: mulRound_def round_result_def canonicalizeRound_def round_issued_loop.simps tenTo14m1_def amount_eval)
  show "denote ?c < denote ?a * denote ?b" by (simp add: denote_def magnitude_def)
qed simp_all

text \<open>
  Scaling an offer to an input limit creates no money: the scaled input is the smaller of the
  offer's input and the limit, the scaled output is at most the offer's output and in its issue,
  and an offer within the limit is returned unchanged.
\<close>
theorem ceil_in_clamps:
  assumes p: "proper (in_a amount)" "proper (out_a amount)" "proper limit"
    and cmp: "areComparable (in_a amount) limit" and neg: "\<not> mIsNegative limit"
    and ok: "ceil_in q amount limit sw = Ok r"
  shows "denote (in_a r) = min (denote (in_a amount)) (denote limit) \<and>
    denote (out_a r) \<le> denote (out_a amount) \<and> mIssue (out_a r) = mIssue (out_a amount) \<and> proper (out_a r) \<and>
    (denote (in_a amount) \<le> denote limit \<longrightarrow> r = amount)"
proof -
  have cmp': "areComparable limit (in_a amount)" using cmp by (simp add: areComparable_sym)
  have g: "greater_amount (in_a amount) limit = Ok (denote limit < denote (in_a amount))"
    using less_amount_denote [OF p(3,1) cmp'] by (simp add: greater_amount_def)
  show ?thesis
  proof (cases "denote limit < denote (in_a amount)")
    case False
    with ok g p show ?thesis by (auto simp: ceil_in_def)
  next
    case True
    from ok g True obtain rt out0 more where o: "rate q = Ok rt"
      "divRound limit rt (mIssue (out_a amount)) True sw = Ok out0" "greater_amount out0 (out_a amount) = Ok more"
      and r: "r = \<lparr>in_a = limit, out_a = (if more then out_a amount else out0)\<rparr>"
      by (auto simp: ceil_in_def Let_def)
    note p0 = divRound_proper [OF o(2)]
    have s: "mIsNegative limit = mIsNegative rt" using neg rate_positive [OF o(1)] by simp
    have c: "areComparable (out_a amount) out0"
      using p(2) p0(1,2) [OF s] by (intro comparable_same_issue) (simp_all add: proper_def)
    have "more = (denote (out_a amount) < denote out0)"
      using o(3) less_amount_denote [OF p(2) p0(1) [OF s] c] by (simp add: greater_amount_def)
    with r True p p0 [OF s] show ?thesis by simp
  qed
qed

text \<open>
  Scaling an offer to an output limit is clamped the same way: the scaled output is the
  smaller of the offer's output and the limit, and the scaled input is at most the offer's.
\<close>
theorem ceil_out_clamps:
  assumes p: "proper (in_a amount)" "proper (out_a amount)" "proper limit"
    and cmp: "areComparable (out_a amount) limit" and neg: "\<not> mIsNegative limit"
    and ok: "ceil_out q amount limit sw = Ok r"
  shows "denote (out_a r) = min (denote (out_a amount)) (denote limit) \<and>
    denote (in_a r) \<le> denote (in_a amount) \<and> mIssue (in_a r) = mIssue (in_a amount) \<and> proper (in_a r) \<and>
    (denote (out_a amount) \<le> denote limit \<longrightarrow> r = amount)"
proof -
  have cmp': "areComparable limit (out_a amount)" using cmp by (simp add: areComparable_sym)
  have g: "greater_amount (out_a amount) limit = Ok (denote limit < denote (out_a amount))"
    using less_amount_denote [OF p(3,2) cmp'] by (simp add: greater_amount_def)
  show ?thesis
  proof (cases "denote limit < denote (out_a amount)")
    case False
    with ok g p show ?thesis by (auto simp: ceil_out_def)
  next
    case True
    from ok g True obtain rt in0 more where o: "rate q = Ok rt"
      "mulRound limit rt (mIssue (in_a amount)) True sw = Ok in0" "greater_amount in0 (in_a amount) = Ok more"
      and r: "r = \<lparr>in_a = (if more then in_a amount else in0), out_a = limit\<rparr>"
      by (auto simp: ceil_out_def Let_def)
    have s: "mIsNegative limit = mIsNegative rt" "\<not> (mIsNative limit \<and> mIsNative rt)"
      using neg rate_positive [OF o(1)] by simp_all
    note p0 = mulRound_proper [OF o(2) s]
    have c: "areComparable (in_a amount) in0"
      using p(1) p0(1,2) by (intro comparable_same_issue) (simp_all add: proper_def)
    have "more = (denote (in_a amount) < denote in0)"
      using o(3) less_amount_denote [OF p(1) p0(1) c] by (simp add: greater_amount_def)
    with r True p p0 show ?thesis by simp
  qed
qed

text \<open>
  The quality of a two-hop path decodes to the rounded product of the two rates: whenever
  \<open>composed_quality\<close> returns, its \<open>rate\<close> is the \<open>mulRound\<close> product of the rates of the hops.
\<close>
theorem composed_quality_decodes:
  assumes "composed_quality l r sw = Ok q"
  shows "\<exists>a b c. rate l = Ok a \<and> rate r = Ok b \<and> mulRound a b noIssue True sw = Ok c \<and>
    mValue c \<noteq> 0 \<and> rate q = Ok c"
proof -
  from assms obtain a b c where o: "rate l = Ok a" "\<not> is_zero a" "rate r = Ok b" "\<not> is_zero b"
    "mulRound a b (mIssue a) True sw = Ok c" and e: "0 < (word_of_int (mOffset c + 100) :: u64)"
    and q: "q = \<lparr>m_value = push_bit (64 - 8) (word_of_int (mOffset c + 100)) OR mValue c\<rparr>"
    by (auto simp: composed_quality_def Let_def simp del: of_int_add)
  note pa = rate_positive [OF o(1)] and pb = rate_positive [OF o(3)]
  note pc = mulRound_proper [OF o(5)]
  have p: "proper c" "mIssue c = noIssue" "\<not> mIsNegative c" using pc pa pb by auto
  have wf: "wf_amount c" using p(1) by (simp add: proper_def)
  have nz: "mValue c \<noteq> 0"
  proof
    assume "mValue c = 0"
    with wf p(2) have "mOffset c = -100"
      by (auto simp: wf_amount_def canonical_issued_def isNative_def isXRP_def isVBC_def issue_defs)
    with e show False by simp
  qed
  from amountFromQuality_pack [OF wf p(2) nz p(3)] q have "rate q = Ok c" by (simp add: rate_def pack_rate_def)
  with o pa(2) nz show ?thesis by auto
qed

section \<open>Witnesses\<close>

theorem mulRound_toward_zero_witness:
  "let a = \<lparr>mIssue = noIssue, mValue = 2000000000000000, mOffset = -15, mIsNative = False, mIsNegative = False\<rparr>;
       c = \<lparr>mIssue = noIssue, mValue = 4000000000000000, mOffset = -15, mIsNative = False, mIsNegative = False\<rparr>
   in wf_amount a \<and> mulRound a a noIssue False (STAmountCalcSwitchovers_at 0) = Ok c \<and> \<bar>denote c\<bar> \<le> \<bar>denote a * denote a\<bar>"
proof -
  let ?a = "\<lparr>mIssue = noIssue, mValue = 2000000000000000, mOffset = -15, mIsNative = False, mIsNegative = False\<rparr>"
  let ?c = "\<lparr>mIssue = noIssue, mValue = 4000000000000000, mOffset = -15, mIsNative = False, mIsNegative = False\<rparr>"
  have wf: "wf_amount ?a"
    by (simp add: wf_amount_def canonical_issued_def isNative_def isXRP_def isVBC_def issue_defs)
  have i: "\<not> isNative_issue noIssue" by (simp add: isNative_issue_def issue_defs)
  then have c: "mulRound ?a ?a noIssue False (STAmountCalcSwitchovers_at 0) = Ok ?c"
    by (simp add: mulRound_def round_result_def amount_eval)
  from mulRound_toward_zero [OF wf wf _ i _ c] wf c show ?thesis unfolding Let_def by simp
qed

theorem divRound_toward_zero_witness:
  "let a = \<lparr>mIssue = noIssue, mValue = 2000000000000000, mOffset = -15, mIsNative = False, mIsNegative = False\<rparr>;
       c = \<lparr>mIssue = noIssue, mValue = 1000000000000000, mOffset = -15, mIsNative = False, mIsNegative = False\<rparr>
   in wf_amount a \<and> divRound a a noIssue False (STAmountCalcSwitchovers_at 0) = Ok c \<and> \<bar>denote c\<bar> \<le> \<bar>denote a / denote a\<bar>"
proof -
  let ?a = "\<lparr>mIssue = noIssue, mValue = 2000000000000000, mOffset = -15, mIsNative = False, mIsNegative = False\<rparr>"
  let ?c = "\<lparr>mIssue = noIssue, mValue = 1000000000000000, mOffset = -15, mIsNative = False, mIsNegative = False\<rparr>"
  have wf: "wf_amount ?a"
    by (simp add: wf_amount_def canonical_issued_def isNative_def isXRP_def isVBC_def issue_defs)
  have i: "\<not> isNative_issue noIssue" by (simp add: isNative_issue_def issue_defs)
  then have c: "divRound ?a ?a noIssue False (STAmountCalcSwitchovers_at 0) = Ok ?c"
    by (simp add: divRound_def round_result_def amount_eval)
  from divRound_toward_zero [OF wf wf _ i _ c] wf c show ?thesis unfolding Let_def by simp
qed

lemma one_rate: "rate \<lparr>m_value = 6125895493223874560\<rparr> =
  Ok \<lparr>mIssue = noIssue, mValue = 1000000000000000, mOffset = -15, mIsNative = False, mIsNegative = False\<rparr>"
proof -
  have i: "\<not> isNative_issue noIssue" by (simp add: isNative_issue_def issue_defs)
  then show ?thesis by (simp add: rate_def amountFromQuality_def amount_eval)
qed

theorem ceil_in_clamps_witness:
  "let a = \<lparr>mIssue = noIssue, mValue = 2000000000000000, mOffset = -15, mIsNative = False, mIsNegative = False\<rparr>;
       l = \<lparr>mIssue = noIssue, mValue = 1000000000000000, mOffset = -15, mIsNative = False, mIsNegative = False\<rparr>;
       r = \<lparr>in_a = l, out_a = l\<rparr>
   in ceil_in \<lparr>m_value = 6125895493223874560\<rparr> \<lparr>in_a = a, out_a = a\<rparr> l (STAmountCalcSwitchovers_at 0) = Ok r \<and>
      denote (in_a r) = min (denote a) (denote l) \<and> denote (out_a r) \<le> denote a"
proof -
  let ?a = "\<lparr>mIssue = noIssue, mValue = 2000000000000000, mOffset = -15, mIsNative = False, mIsNegative = False\<rparr>"
  let ?l = "\<lparr>mIssue = noIssue, mValue = 1000000000000000, mOffset = -15, mIsNative = False, mIsNegative = False\<rparr>"
  have p: "proper ?a" "proper ?l" "areComparable ?a ?l"
    by (simp_all add: proper_def wf_amount_def canonical_issued_def isNative_def isXRP_def isVBC_def issue_defs areComparable_def)
  have i: "\<not> isNative_issue noIssue" by (simp add: isNative_issue_def issue_defs)
  then have "divRound ?l ?l noIssue True (STAmountCalcSwitchovers_at 0) = Ok ?l"
    by (simp add: divRound_def round_result_def canonicalizeRound_def round_issued_loop.simps amount_eval)
  then have c: "ceil_in \<lparr>m_value = 6125895493223874560\<rparr> \<lparr>in_a = ?a, out_a = ?a\<rparr> ?l (STAmountCalcSwitchovers_at 0)
      = Ok \<lparr>in_a = ?l, out_a = ?l\<rparr>"
    by (simp add: ceil_in_def one_rate greater_amount_def less_amount_def areComparable_def)
  show ?thesis unfolding Let_def
    using ceil_in_clamps [OF _ _ p(2) _ _ c] p c by simp
qed

theorem ceil_out_clamps_witness:
  "let a = \<lparr>mIssue = noIssue, mValue = 2000000000000000, mOffset = -15, mIsNative = False, mIsNegative = False\<rparr>;
       l = \<lparr>mIssue = noIssue, mValue = 1000000000000000, mOffset = -15, mIsNative = False, mIsNegative = False\<rparr>;
       r = \<lparr>in_a = l, out_a = l\<rparr>
   in ceil_out \<lparr>m_value = 6125895493223874560\<rparr> \<lparr>in_a = a, out_a = a\<rparr> l (STAmountCalcSwitchovers_at 0) = Ok r \<and>
      denote (out_a r) = min (denote a) (denote l) \<and> denote (in_a r) \<le> denote a"
proof -
  let ?a = "\<lparr>mIssue = noIssue, mValue = 2000000000000000, mOffset = -15, mIsNative = False, mIsNegative = False\<rparr>"
  let ?l = "\<lparr>mIssue = noIssue, mValue = 1000000000000000, mOffset = -15, mIsNative = False, mIsNegative = False\<rparr>"
  have p: "proper ?a" "proper ?l" "areComparable ?a ?l"
    by (simp_all add: proper_def wf_amount_def canonical_issued_def isNative_def isXRP_def isVBC_def issue_defs areComparable_def)
  have i: "\<not> isNative_issue noIssue" by (simp add: isNative_issue_def issue_defs)
  then have "mulRound ?l ?l noIssue True (STAmountCalcSwitchovers_at 0) = Ok ?l"
    by (simp add: mulRound_def round_result_def canonicalizeRound_def round_issued_loop.simps tenTo14m1_def amount_eval)
  then have c: "ceil_out \<lparr>m_value = 6125895493223874560\<rparr> \<lparr>in_a = ?a, out_a = ?a\<rparr> ?l (STAmountCalcSwitchovers_at 0)
      = Ok \<lparr>in_a = ?l, out_a = ?l\<rparr>"
    by (simp add: ceil_out_def one_rate greater_amount_def less_amount_def areComparable_def)
  show ?thesis unfolding Let_def
    using ceil_out_clamps [OF _ _ p(2) _ _ c] p c by simp
qed

theorem composed_quality_decodes_witness:
  "\<exists>a b c. rate \<lparr>m_value = 6125895493223874560\<rparr> = Ok a \<and> rate \<lparr>m_value = 6125895493223874560\<rparr> = Ok b \<and>
    mulRound a b noIssue True (STAmountCalcSwitchovers_at 0) = Ok c \<and> rate \<lparr>m_value = 6125895493223874560\<rparr> = Ok c"
proof -
  let ?l = "\<lparr>mIssue = noIssue, mValue = 1000000000000000, mOffset = -15, mIsNative = False, mIsNegative = False\<rparr>"
  have i: "\<not> isNative_issue noIssue" by (simp add: isNative_issue_def issue_defs)
  then have "mulRound ?l ?l noIssue True (STAmountCalcSwitchovers_at 0) = Ok ?l"
    by (simp add: mulRound_def round_result_def canonicalizeRound_def round_issued_loop.simps tenTo14m1_def amount_eval)
  then have "composed_quality \<lparr>m_value = 6125895493223874560\<rparr> \<lparr>m_value = 6125895493223874560\<rparr> (STAmountCalcSwitchovers_at 0)
    = Ok \<lparr>m_value = 6125895493223874560\<rparr>" by (simp add: composed_quality_def one_rate)
  from composed_quality_decodes [OF this] show ?thesis by blast
qed

end
