(* ===== verification/Bytes.thy ===== *)
theory Bytes
  imports Prelude
begin

text \<open>
  Byte strings shared by the wire format and the wide integers: big-endian encoding of naturals
  (\<open>nat_bytes\<close>, \<open>bytes_val\<close>) and the hexadecimal rendering of \<open>basics/strHex.h\<close>.
\<close>

section \<open>Big-endian byte strings\<close>

type_synonym blob = "u8 list"

fun nat_bytes :: "nat \<Rightarrow> nat \<Rightarrow> blob" where
  "nat_bytes 0 v = []"
| "nat_bytes (Suc n) v = nat_bytes n (v div 256) @ [of_nat v]"

definition bytes_val :: "blob \<Rightarrow> nat" where
  "bytes_val bs = foldl (\<lambda>a b. a * 256 + unat b) 0 bs"

lemma length_nat_bytes [simp]: "length (nat_bytes n v) = n"
  by (induction n arbitrary: v) auto

lemma bytes_val_Nil [simp]: "bytes_val [] = 0" by (simp add: bytes_val_def)

lemma bytes_val_snoc [simp]: "bytes_val (bs @ [b]) = bytes_val bs * 256 + unat b"
  by (simp add: bytes_val_def)

lemma bytes_val_append: "bytes_val (as @ bs) = bytes_val as * 256 ^ length bs + bytes_val bs"
  by (induction bs rule: rev_induct) (simp_all add: algebra_simps flip: append_assoc)

lemma bytes_val_Cons: "bytes_val (b # bs) = unat b * 256 ^ length bs + bytes_val bs"
  using bytes_val_append [of "[b]" bs] bytes_val_snoc [of "[]" b] by simp

lemma unat_byte: "unat (b :: u8) < 256"
  using unsigned_less [of b, where 'a = nat] by simp

lemma bytes_val_bound: "bytes_val bs < 256 ^ length bs"
proof (induction bs rule: rev_induct)
  case Nil then show ?case by simp
next
  case (snoc b bs)
  then have "Suc (bytes_val bs) * 256 \<le> 256 ^ length bs * 256" by (intro mult_le_mono1) simp
  with unat_byte [of b] show ?case by (simp add: algebra_simps)
qed

lemma unat_of_nat_byte: "unat (of_nat v :: u8) = v mod 256"
  by (simp add: unat_of_nat)

lemma bytes_val_nat_bytes: "bytes_val (nat_bytes n v) = v mod 256 ^ n"
proof (induction n arbitrary: v)
  case 0 then show ?case by simp
next
  case (Suc n)
  have "v mod (256 * 256 ^ n) = 256 * (v div 256 mod 256 ^ n) + v mod 256" by (rule mod_mult2_eq)
  with Suc show ?case by (simp add: unat_of_nat_byte mult.commute)
qed

lemma nat_bytes_bytes_val: "nat_bytes (length bs) (bytes_val bs) = bs"
proof (induction bs rule: rev_induct)
  case Nil then show ?case by simp
next
  case (snoc b bs)
  have "(bytes_val bs * 256 + unat b) div 256 = bytes_val bs" using unat_byte [of b] by simp
  moreover have "(of_nat (bytes_val bs * 256 + unat b) :: u8) = b"
  proof -
    have "unat (of_nat (bytes_val bs * 256 + unat b) :: u8) = unat b"
      using unat_byte [of b] unfolding unat_of_nat_byte by simp
    then show ?thesis by (simp only: word_unat_eq_iff)
  qed
  ultimately show ?case using snoc by (simp del: of_nat_add of_nat_mult)
qed

lemma bytes_val_inject: "length as = length bs \<Longrightarrow> bytes_val as = bytes_val bs \<longleftrightarrow> as = bs"
  by (metis nat_bytes_bytes_val)

text \<open>A word from and to its big-endian bytes.\<close>

definition word_bytes :: "'a::len word \<Rightarrow> blob" where
  "word_bytes w = nat_bytes (LENGTH('a) div 8) (unat w)"

definition bytes_word :: "blob \<Rightarrow> 'a::len word" where
  "bytes_word bs = of_nat (bytes_val bs)"

lemma length_word_bytes [simp]: "length (word_bytes (w :: 'a::len word)) = LENGTH('a) div 8"
  by (simp add: word_bytes_def)

lemma bytes_word_bytes:
  assumes "8 dvd LENGTH('a::len)"
  shows "bytes_word (word_bytes (w :: 'a word)) = w"
proof -
  have "(256 :: nat) ^ (LENGTH('a) div 8) = 2 ^ (8 * (LENGTH('a) div 8))" by (simp add: power_mult)
  then have "(256 :: nat) ^ (LENGTH('a) div 8) = 2 ^ LENGTH('a)" using assms by simp
  then show ?thesis using unsigned_less [of w, where 'a = nat]
    by (simp add: bytes_word_def word_bytes_def bytes_val_nat_bytes)
qed

lemma word_bytes_word:
  assumes "length bs * 8 = LENGTH('a::len)"
  shows "word_bytes (bytes_word bs :: 'a word) = bs"
proof -
  have "(256 :: nat) ^ length bs = 2 ^ (8 * length bs)" by (simp add: power_mult)
  then have "bytes_val bs < 2 ^ LENGTH('a)" using bytes_val_bound [of bs] assms by (simp add: mult.commute)
  moreover have "LENGTH('a) div 8 = length bs" by (simp flip: assms)
  ultimately show ?thesis
    by (simp add: word_bytes_def bytes_word_def unat_of_nat nat_bytes_bytes_val)
qed

section \<open>Hexadecimal digits\<close>

text \<open>\<open>char\<close> values are bytes; \<open>charHex\<close> asserts its argument is below 16.\<close>

definition charHex :: "nat \<Rightarrow> u8 res" where
  "charHex digit = (if digit < 16 then Ok (of_nat (if digit < 10 then 48 + digit else 55 + digit)) else Throw AssertFailed)"

definition charUnHex :: "u8 \<Rightarrow> int" where
  "charUnHex c =
     (let n = uint c in
      if 48 \<le> n \<and> n < 58 then n - 48
      else if 65 \<le> n \<and> n < 71 then n - 55
      else if 97 \<le> n \<and> n < 103 then n - 87
      else -1)"

fun strHex :: "blob \<Rightarrow> blob res" where
  "strHex [] = Ok []"
| "strHex (c # cs) =
     rbind (charHex (unat (drop_bit 4 c))) (\<lambda>h.
     rbind (charHex (unat (c AND 15))) (\<lambda>l.
     rbind (strHex cs) (\<lambda>s. Ok (h # l # s))))"

lemma charUnHex_charHex: "d < 16 \<Longrightarrow> \<exists>h. charHex d = Ok h \<and> charUnHex h = int d \<and> h \<noteq> 0"
proof -
  assume d: "d < 16"
  let ?n = "if d < 10 then 48 + d else 55 + d"
  have u: "uint (of_nat ?n :: u8) = int ?n" using d by (simp add: uint_nat unat_of_nat)
  then have "(of_nat ?n :: u8) \<noteq> 0" by (auto simp: uint_0_iff)
  with d u show ?thesis by (auto simp: charHex_def charUnHex_def Let_def)
qed

lemma charUnHex_range: "charUnHex c = -1 \<or> 0 \<le> charUnHex c \<and> charUnHex c < 16"
  by (auto simp: charUnHex_def Let_def)

lemma nibbles: "unat (drop_bit 4 (c :: u8)) < 16" "unat (c AND 15) < 16"
  "unat (drop_bit 4 c) * 16 + unat (c AND 15) = unat c"
proof -
  have a: "unat (drop_bit 4 c) = unat c div 16" by (simp add: drop_bit_eq_div unat_div)
  have "(15 :: u8) = mask 4" by (simp add: mask_numeral)
  then have m: "c AND 15 = take_bit 4 c" by (simp only: take_bit_eq_mask)
  have b: "unat (c AND 15) = unat c mod 16" unfolding m by (simp add: take_bit_eq_mod unat_mod)
  show "unat (drop_bit 4 c) < 16" using unat_byte [of c] unfolding a by simp
  show "unat (c AND 15) < 16" unfolding b by simp
  show "unat (drop_bit 4 c) * 16 + unat (c AND 15) = unat c" unfolding a b by simp
qed

lemma strHex_total: "\<exists>s. strHex bs = Ok s \<and> length s = 2 * length bs"
proof (induction bs)
  case Nil then show ?case by simp
next
  case (Cons c cs)
  from charUnHex_charHex [OF nibbles(1) [of c]] charUnHex_charHex [OF nibbles(2) [of c]] Cons
  show ?case by auto
qed

end
