(* ===== verification/BaseUint.thy ===== *)
theory BaseUint
  imports Bytes
begin

text \<open>
  \<open>basics/base_uint.h\<close>: integers of 160 and 256 bits kept as arrays \<open>pn\<close> of 32-bit machine
  words whose memory holds the big-endian bytes of the number. A machine word is read on a
  little-endian host, so \<open>bigendToHost\<close> and \<open>hostToBigend\<close> reverse its four bytes.
  Each loop over the limbs is a recursion on the index; the number an array stands for is the
  big-endian value of its memory.
\<close>

section \<open>Limbs and memory\<close>

definition limb_memory :: "u32 \<Rightarrow> blob" where
  "limb_memory w = rev (nat_bytes 4 (unat w))"

definition bigendToHost :: "u32 \<Rightarrow> u32" where
  "bigendToHost x = of_nat (bytes_val (limb_memory x))"

definition hostToBigend :: "u32 \<Rightarrow> u32" where
  "hostToBigend x = of_nat (bytes_val (limb_memory x))"

definition data_bytes :: "u32 list \<Rightarrow> blob" where
  "data_bytes pn = concat (map limb_memory pn)"

definition number :: "u32 list \<Rightarrow> nat" where
  "number pn = bytes_val (data_bytes pn)"

section \<open>Operations\<close>

fun limbs_of_bytes :: "blob \<Rightarrow> u32 list" where
  "limbs_of_bytes (a # b # c # d # bs) = of_nat (bytes_val [d, c, b, a]) # limbs_of_bytes bs"
| "limbs_of_bytes bs = []"

definition base_uint_zero :: "nat \<Rightarrow> u32 list" where
  "base_uint_zero WIDTH = replicate WIDTH 0"

definition base_uint_of_blob :: "nat \<Rightarrow> blob \<Rightarrow> u32 list res" where
  "base_uint_of_blob WIDTH vch =
     (if length vch = 4 * WIDTH then Ok (limbs_of_bytes vch) else Throw AssertFailed)"

definition base_uint_of_u64 :: "nat \<Rightarrow> u64 \<Rightarrow> u32 list" where
  "base_uint_of_u64 WIDTH uHost =
     (let ul = word_bytes uHost in
      (base_uint_zero WIDTH)
        [WIDTH - 2 := of_nat (bytes_val (rev (take 4 ul))), WIDTH - 1 := of_nat (bytes_val (rev (drop 4 ul)))])"

definition signum_pn :: "u32 list \<Rightarrow> int" where
  "signum_pn pn = (if \<exists>x \<in> set pn. x \<noteq> 0 then 1 else 0)"

definition complement_pn :: "u32 list \<Rightarrow> u32 list" where
  "complement_pn pn = map NOT pn"

definition xor_pn :: "u32 list \<Rightarrow> u32 list \<Rightarrow> u32 list" where "xor_pn a b = map2 (XOR) a b"
definition and_pn :: "u32 list \<Rightarrow> u32 list \<Rightarrow> u32 list" where "and_pn a b = map2 (AND) a b"
definition or_pn :: "u32 list \<Rightarrow> u32 list \<Rightarrow> u32 list" where "or_pn a b = map2 (OR) a b"

fun inc_from :: "nat \<Rightarrow> u32 list \<Rightarrow> u32 list" where
  "inc_from 0 pn = pn"
| "inc_from (Suc i) pn =
     (let v = hostToBigend (bigendToHost (pn ! i) + 1); pn' = pn[i := v]
      in if v \<noteq> 0 then pn' else inc_from i pn')"

definition inc_pn :: "u32 list \<Rightarrow> u32 list" where "inc_pn pn = inc_from (length pn) pn"

fun dec_from :: "nat \<Rightarrow> u32 list \<Rightarrow> u32 list" where
  "dec_from 0 pn = pn"
| "dec_from (Suc i) pn =
     (let prev = pn ! i; pn' = pn[i := hostToBigend (bigendToHost (pn ! i) - 1)]
      in if prev \<noteq> 0 then pn' else dec_from i pn')"

definition dec_pn :: "u32 list \<Rightarrow> u32 list" where "dec_pn pn = dec_from (length pn) pn"

fun add_from :: "nat \<Rightarrow> u64 \<Rightarrow> u32 list \<Rightarrow> u32 list \<Rightarrow> u32 list" where
  "add_from 0 carry pn b = pn"
| "add_from (Suc i) carry pn b =
     (let n = carry + ucast (bigendToHost (pn ! i)) + ucast (bigendToHost (b ! i))
      in add_from i (drop_bit 32 n) (pn[i := hostToBigend (ucast (n AND 0xffffffff))]) b)"

definition add_pn :: "u32 list \<Rightarrow> u32 list \<Rightarrow> u32 list" where "add_pn a b = add_from (length a) 0 a b"

fun compare_bytes :: "blob \<Rightarrow> blob \<Rightarrow> int" where
  "compare_bytes (x # xs) (y # ys) = (if x = y then compare_bytes xs ys else if x > y then 1 else -1)"
| "compare_bytes _ _ = 0"

definition compare_pn :: "u32 list \<Rightarrow> u32 list \<Rightarrow> int" where
  "compare_pn a b = compare_bytes (data_bytes a) (data_bytes b)"

definition less_pn :: "u32 list \<Rightarrow> u32 list \<Rightarrow> bool" where "less_pn a b \<longleftrightarrow> compare_pn a b < 0"
definition eq_pn :: "u32 list \<Rightarrow> u32 list \<Rightarrow> bool" where "eq_pn a b \<longleftrightarrow> compare_pn a b = 0"

text \<open>
  Hexadecimal text. A C string is its characters followed by a zero byte; the loop of
  \<open>SetHexExact\<close> reads two characters for each of the bytes of the number.
\<close>

fun SetHexExact_loop :: "nat \<Rightarrow> blob \<Rightarrow> (blob \<times> blob) option" where
  "SetHexExact_loop 0 psz = Some ([], psz)"
| "SetHexExact_loop (Suc n) psz =
     (case psz of
        h # psz1 \<Rightarrow>
          (let hi = charUnHex h in
           if hi = -1 then None
           else case psz1 of
             l # psz2 \<Rightarrow>
               (let lo = charUnHex l in
                if lo = -1 then None
                else case SetHexExact_loop n psz2 of
                  None \<Rightarrow> None
                | Some (out, rest) \<Rightarrow> Some (word_of_int (hi * 16 + lo) # out, rest))
           | [] \<Rightarrow> None)
      | [] \<Rightarrow> None)"

definition SetHexExact :: "nat \<Rightarrow> blob \<Rightarrow> u32 list option" where
  "SetHexExact WIDTH psz =
     (case SetHexExact_loop (4 * WIDTH) psz of
        Some (out, c # _) \<Rightarrow> if c = 0 then Some (limbs_of_bytes out) else None
      | _ \<Rightarrow> None)"

text \<open>
  The lenient parser: optional white space and \<open>0x\<close> prefix, as many digits as there are, the
  last \<open>2 * size\<close> of them kept; an odd first digit is a byte of its own.
\<close>

definition isspace_c :: "u8 \<Rightarrow> bool" where
  "isspace_c c \<longleftrightarrow> c = 32 \<or> 9 \<le> c \<and> c \<le> 13"

fun hex_pairs :: "blob \<Rightarrow> blob" where
  "hex_pairs (h # l # s) = word_of_int (charUnHex h * 16 + charUnHex l) # hex_pairs s"
| "hex_pairs [h] = [word_of_int (charUnHex h * 16)]"
| "hex_pairs [] = []"

definition skip_prefix :: "blob \<Rightarrow> bool \<Rightarrow> blob" where
  "skip_prefix psz bStrict =
     (if bStrict then psz
      else case dropWhile isspace_c psz of
          z # x # r \<Rightarrow> if z = 48 \<and> (x = 120 \<or> x = 88) then r else z # x # r
        | r \<Rightarrow> r)"

definition SetHex :: "nat \<Rightarrow> blob \<Rightarrow> bool \<Rightarrow> u32 list \<times> bool" where
  "SetHex WIDTH psz0 bStrict =
     (let size = 4 * WIDTH;
          psz = skip_prefix psz0 bStrict;
          digits = takeWhile (\<lambda>c. charUnHex c \<noteq> -1) psz;
          pEnd = dropWhile (\<lambda>c. charUnHex c \<noteq> -1) psz;
          kept = (if length digits > 2 * size then drop (length digits - 2 * size) digits else digits);
          bytes = (if odd (length kept) then word_of_int (charUnHex (hd kept)) # hex_pairs (tl kept)
                   else hex_pairs kept)
      in (limbs_of_bytes (replicate (size - length bytes) 0 @ bytes), pEnd = [] \<or> hd pEnd = 0))"

definition to_string_pn :: "u32 list \<Rightarrow> blob res" where
  "to_string_pn a = strHex (data_bytes a)"

section \<open>The number of an array\<close>

lemma length_limb_memory [simp]: "length (limb_memory w) = 4"
  by (simp add: limb_memory_def)

lemma limb_memory_value: "of_nat (bytes_val (rev (limb_memory w))) = w"
proof -
  have "unat w < 256 ^ 4" using unsigned_less [of w, where 'a = nat] by simp
  then show ?thesis by (simp add: limb_memory_def bytes_val_nat_bytes)
qed

lemma limb_memory_of_nat: "length bs = 4 \<Longrightarrow> limb_memory (of_nat (bytes_val (rev bs))) = bs"
proof -
  assume l: "length bs = 4"
  then have "bytes_val (rev bs) < 2 ^ 32" using bytes_val_bound [of "rev bs"] by simp
  then have "unat (of_nat (bytes_val (rev bs)) :: u32) = bytes_val (rev bs)" by (simp add: unat_of_nat)
  then show ?thesis using l nat_bytes_bytes_val [of "rev bs"] by (simp add: limb_memory_def)
qed

lemma memory_of_host: "limb_memory (hostToBigend x) = nat_bytes 4 (unat x)"
proof -
  let ?b = "limb_memory x"
  have "hostToBigend x = of_nat (bytes_val (rev (rev ?b)))" by (simp add: hostToBigend_def)
  then have "limb_memory (hostToBigend x) = rev ?b" by (simp only: limb_memory_of_nat length_rev length_limb_memory)
  then show ?thesis by (simp add: limb_memory_def)
qed

lemma unat_bigendToHost: "unat (bigendToHost w) = bytes_val (limb_memory w)"
  using bytes_val_bound [of "limb_memory w"] by (simp add: bigendToHost_def unat_of_nat)

lemma memory_value_host: "bytes_val (limb_memory (hostToBigend x)) = unat x"
  using unsigned_less [of x, where 'a = nat] by (simp add: memory_of_host bytes_val_nat_bytes)

lemma nat_bytes_zero: "nat_bytes n 0 = replicate n 0"
  by (induction n) (simp_all add: replicate_append_same)

lemma limb_zero_iff: "w = 0 \<longleftrightarrow> bytes_val (limb_memory w) = 0"
proof
  assume "bytes_val (limb_memory w) = 0"
  then have "nat_bytes 4 0 = limb_memory w" using nat_bytes_bytes_val [of "limb_memory w"] by simp
  then have "rev (limb_memory w) = nat_bytes 4 0" by (metis nat_bytes_zero rev_replicate)
  then have "w = of_nat (bytes_val (nat_bytes 4 0))" using limb_memory_value [of w] by simp
  then show "w = 0" by (simp add: bytes_val_nat_bytes)
next
  assume "w = 0"
  then have "limb_memory w = nat_bytes 4 0" by (simp add: limb_memory_def nat_bytes_zero)
  then show "bytes_val (limb_memory w) = 0" by (simp add: bytes_val_nat_bytes)
qed

lemma length_data_bytes [simp]: "length (data_bytes pn) = 4 * length pn"
  by (induction pn) (simp_all add: data_bytes_def)

lemma number_Nil [simp]: "number [] = 0" by (simp add: number_def data_bytes_def)

lemma number_snoc: "number (pn @ [w]) = number pn * 2 ^ 32 + unat (bigendToHost w)"
  by (simp add: number_def data_bytes_def bytes_val_append unat_bigendToHost)

lemma number_bound: "number pn < 2 ^ (32 * length pn)"
proof -
  have "(256 :: nat) ^ (4 * length pn) = 2 ^ (8 * (4 * length pn))" by (simp add: power_mult)
  with bytes_val_bound [of "data_bytes pn"] show ?thesis by (simp add: number_def mult.assoc)
qed

lemma data_bytes_limbs: "4 dvd length bs \<Longrightarrow> data_bytes (limbs_of_bytes bs) = bs"
proof (induction bs rule: limbs_of_bytes.induct)
  case (1 a b c d bs)
  have "4 dvd length bs" using "1.prems" by simp presburger
  with 1 show ?case using limb_memory_of_nat [of "[a, b, c, d]"] by (simp add: data_bytes_def)
qed (simp_all add: data_bytes_def, presburger+)

lemma limbs_data_bytes [simp]: "limbs_of_bytes (data_bytes pn) = pn"
proof (induction pn)
  case Nil then show ?case by (simp add: data_bytes_def)
next
  case (Cons w pn)
  obtain a b c d where l: "limb_memory w = [a, b, c, d]"
    using length_limb_memory [of w] by (auto simp: numeral_eq_Suc length_Suc_conv simp del: length_limb_memory)
  have "of_nat (bytes_val [d, c, b, a]) = w" using limb_memory_value [of w] by (simp add: l)
  with Cons l show ?case by (simp add: data_bytes_def)
qed

lemma number_inject: "length a = length b \<Longrightarrow> number a = number b \<longleftrightarrow> a = b"
  by (metis number_def bytes_val_inject length_data_bytes limbs_data_bytes)

section \<open>Arithmetic\<close>

lemma unat_bigendToHost_hostToBigend [simp]: "unat (bigendToHost (hostToBigend x)) = unat x"
  by (simp add: unat_bigendToHost memory_value_host)

lemma hostToBigend_zero [simp]: "hostToBigend x = 0 \<longleftrightarrow> x = 0"
  using limb_zero_iff [of "hostToBigend x"] by (simp add: memory_value_host unat_eq_zero)

lemma bigendToHost_zero [simp]: "bigendToHost w = 0 \<longleftrightarrow> w = 0"
  using limb_zero_iff [of w] by (simp flip: unat_bigendToHost add: unat_eq_zero)

lemma bigendToHost_0 [simp]: "bigendToHost 0 = 0" by simp

lemma inc_from_append: "n \<le> length pn \<Longrightarrow> inc_from n (pn @ ys) = inc_from n pn @ ys"
  by (induction n arbitrary: pn) (simp_all add: Let_def nth_append list_update_append1)

lemma dec_from_append: "n \<le> length pn \<Longrightarrow> dec_from n (pn @ ys) = dec_from n pn @ ys"
  by (induction n arbitrary: pn) (simp_all add: Let_def nth_append list_update_append1)

lemma add_from_append:
  "n \<le> length pn \<Longrightarrow> n \<le> length b \<Longrightarrow> add_from n c (pn @ ys) (b @ zs) = add_from n c pn b @ ys"
  by (induction n arbitrary: pn c) (simp_all add: Let_def nth_append list_update_append1)

lemma length_inc [simp]: "length (inc_from n pn) = length pn"
  by (induction n arbitrary: pn) (simp_all add: Let_def)

lemma length_dec [simp]: "length (dec_from n pn) = length pn"
  by (induction n arbitrary: pn) (simp_all add: Let_def)

lemma length_add [simp]: "length (add_from n c pn b) = length pn"
  by (induction n arbitrary: pn c) (simp_all add: Let_def)

lemma length_pn_ops [simp]: "length (inc_pn pn) = length pn" "length (dec_pn pn) = length pn"
  "length (add_pn pn b) = length pn"
  by (simp_all only: inc_pn_def dec_pn_def add_pn_def length_inc length_dec length_add)

lemma inc_pn_snoc: "inc_pn (pn @ [w]) =
  (let v = hostToBigend (bigendToHost w + 1) in if v \<noteq> 0 then pn @ [v] else inc_pn pn @ [v])"
  using inc_from_append [of "length pn" pn] by (simp add: inc_pn_def Let_def)

lemma dec_pn_snoc: "dec_pn (pn @ [w]) =
  (let v = hostToBigend (bigendToHost w - 1) in if w \<noteq> 0 then pn @ [v] else dec_pn pn @ [v])"
  using dec_from_append [of "length pn" pn] by (simp add: dec_pn_def Let_def)

lemma unat_max32: "unat (-1 :: u32) = 2 ^ 32 - 1"
  by (simp add: unsigned_minus_1_eq_mask mask_eq_exp_minus_1)

lemma mod_scaled_add:
  fixes x y d r :: nat
  assumes "r < d" "0 < y"
  shows "x * d mod (y * d) + r = (x * d + r) mod (y * d)"
proof -
  have e: "x * d mod (y * d) = (x mod y) * d" by (simp only: mult_mod_left)
  have "Suc (x mod y) * d \<le> y * d" using assms by (intro mult_le_mono1) (simp add: Suc_leI)
  then have "(x mod y) * d + r < y * d" using assms by simp
  with e show ?thesis by (metis mod_add_left_eq mod_less)
qed

lemma inc_number: "number (inc_pn pn) = (number pn + 1) mod 2 ^ (32 * length pn)"
proof (induction pn rule: rev_induct)
  case Nil then show ?case by (simp add: inc_pn_def)
next
  case (snoc w pn)
  let ?h = "bigendToHost w" and ?k = "2 ^ (32 * length pn) :: nat"
  show ?case
  proof (cases "?h + 1 = 0")
    case True
    then have "unat (?h + 1) = 0" by simp
    then have "unat ?h = 2 ^ 32 - 1" using True unat_max32 by (simp add: add_eq_0_iff2)
    then have n: "number (pn @ [w]) + 1 = (number pn + 1) * 2 ^ 32" unfolding number_snoc by simp
    have "number (inc_pn (pn @ [w])) = number (inc_pn pn) * 2 ^ 32"
      using True by (simp add: inc_pn_snoc Let_def number_snoc)
    also have "\<dots> = ((number pn + 1) * 2 ^ 32) mod (?k * 2 ^ 32)" unfolding snoc.IH by (simp only: mult_mod_left)
    also have "?k * 2 ^ 32 = 2 ^ (32 * length (pn @ [w]))" by (simp add: power_add)
    finally show ?thesis unfolding n .
  next
    case False
    have "unat (?h + 1) = (unat ?h + 1) mod 2 ^ 32" by (simp add: unat_word_ariths)
    moreover have "unat (?h + 1) \<noteq> 0" using False by (simp add: unat_eq_zero)
    moreover have "unat ?h < 2 ^ 32" using unsigned_less [of ?h, where 'a = nat] by simp
    ultimately have u: "unat (?h + 1) = unat ?h + 1" by (cases "unat ?h + 1 = 2 ^ 32") simp_all
    have m: "number (inc_pn (pn @ [w])) = number (pn @ [w]) + 1"
      using False by (simp add: inc_pn_snoc Let_def number_snoc u)
    have "length (inc_pn (pn @ [w])) = length (pn @ [w])" by simp
    with number_bound [of "inc_pn (pn @ [w])"] show ?thesis unfolding m by simp
  qed
qed

lemma dec_number: "number (dec_pn pn) = (number pn + (2 ^ (32 * length pn) - 1)) mod 2 ^ (32 * length pn)"
proof (induction pn rule: rev_induct)
  case Nil then show ?case by (simp add: dec_pn_def)
next
  case (snoc w pn)
  let ?h = "bigendToHost w" and ?k = "2 ^ (32 * length pn) :: nat"
  have K: "2 ^ (32 * length (pn @ [w])) = ?k * 2 ^ 32" by (simp add: power_add)
  have k: "0 < ?k" by simp
  show ?case
  proof (cases "w = 0")
    case True
    then have "?h = 0" by simp
    then have h: "unat ?h = 0" "unat (?h - 1) = 2 ^ 32 - 1" using unat_max32 by simp_all
    have "number (dec_pn (pn @ [w])) = number (dec_pn pn) * 2 ^ 32 + (2 ^ 32 - 1)"
      using True h by (simp add: dec_pn_snoc number_snoc)
    also have "\<dots> = ((number pn + (?k - 1)) * 2 ^ 32) mod (?k * 2 ^ 32) + (2 ^ 32 - 1)" unfolding snoc.IH by (simp only: mult_mod_left)
    also have "\<dots> = ((number pn + (?k - 1)) * 2 ^ 32 + (2 ^ 32 - 1)) mod (?k * 2 ^ 32)"
      by (rule mod_scaled_add) simp_all
    also have "(number pn + (?k - 1)) * 2 ^ 32 + (2 ^ 32 - 1) = number (pn @ [w]) + (?k * 2 ^ 32 - 1)"
    proof -
      obtain j where "?k = Suc j" using k gr0_conv_Suc by blast
      then show ?thesis unfolding number_snoc h by simp
    qed
    finally show ?thesis unfolding K .
  next
    case False
    then have "?h \<noteq> 0" by simp
    then have u: "unat (?h - 1) = unat ?h - 1" "0 < unat ?h" by (simp_all add: unat_minus_one unat_gt_0)
    have m: "number (dec_pn (pn @ [w])) = number (pn @ [w]) - 1" "0 < number (pn @ [w])"
      using False u by (simp_all add: dec_pn_snoc Let_def number_snoc)
    have "number (pn @ [w]) + (2 ^ (32 * length (pn @ [w])) - 1) = (number (pn @ [w]) - 1) + 2 ^ (32 * length (pn @ [w]))"
      using m(2) by simp
    moreover have "number (pn @ [w]) - 1 < 2 ^ (32 * length (pn @ [w]))" using number_bound [of "pn @ [w]"] by linarith
    ultimately show ?thesis unfolding m(1) by (metis mod_add_self2 mod_less)
  qed
qed

lemma add_from_number:
  assumes "length a = length b" "unat c \<le> 1"
  shows "number (add_from (length a) c a b) = (number a + number b + unat c) mod 2 ^ (32 * length a)"
  using assms
proof (induction a arbitrary: b c rule: rev_induct)
  case Nil then show ?case by simp
next
  case (snoc w a)
  then obtain b' v where b: "b = b' @ [v]" "length b' = length a"
    by (metis length_append_singleton length_0_conv rev_exhaust nat.distinct(1) Suc_inject length_Suc_conv_rev)
  let ?x = "unat (bigendToHost w)" and ?y = "unat (bigendToHost v)" and ?k = "2 ^ (32 * length a) :: nat"
  have K: "2 ^ (32 * length (a @ [w])) = ?k * 2 ^ 32" by (simp add: power_add)
  define n where "n = c + ucast (bigendToHost w) + ucast (bigendToHost v)"
  have lt: "?x < 2 ^ 32" "?y < 2 ^ 32" 
    using unsigned_less [of "bigendToHost w", where 'a = nat] unsigned_less [of "bigendToHost v", where 'a = nat] by simp_all
  have n: "unat n = unat c + ?x + ?y"
  proof -
    have u: "unat (ucast (x :: u32) :: u64) = unat x" for x
      using unsigned_less [of x, where 'a = nat] by (simp add: unsigned_ucast_eq take_bit_nat_eq_self)
    have "unat (c + ucast (bigendToHost w)) = unat c + ?x"
      using snoc.prems(2) lt by (subst unat_plus_no_wrap) (simp_all add: u)
    moreover have "unat n = unat (c + ucast (bigendToHost w)) + unat (ucast (bigendToHost v) :: u64)"
      unfolding n_def using snoc.prems(2) lt calculation by (intro unat_plus_no_wrap) (simp add: u)
    ultimately show ?thesis by (simp add: u)
  qed
  have d: "unat (drop_bit 32 n) = unat n div 2 ^ 32" by (simp add: drop_bit_eq_div unat_div)
  have l: "unat (ucast (n AND 0xffffffff) :: u32) = unat n mod 2 ^ 32"
  proof -
    have "(0xffffffff :: u64) = mask 32" by (simp add: mask_numeral)
    then have "n AND 0xffffffff = take_bit 32 n" by (simp only: take_bit_eq_mask)
    then show ?thesis by (simp add: unsigned_ucast_eq take_bit_eq_mod unat_mod)
  qed
  have c1: "unat (drop_bit 32 n) \<le> 1" unfolding d n using snoc.prems(2) lt by simp
  have "number (add_from (length (a @ [w])) c (a @ [w]) b) =
      number (add_from (length a) (drop_bit 32 n) a b') * 2 ^ 32 + unat n mod 2 ^ 32"
    using b add_from_append [of "length a" a b' "drop_bit 32 n"]
    by (simp add: Let_def n_def [symmetric] nth_append number_snoc l)
  also have "\<dots> = ((number a + number b' + unat n div 2 ^ 32) * 2 ^ 32) mod (?k * 2 ^ 32) + unat n mod 2 ^ 32"
    using snoc.IH [OF b(2) [symmetric] c1] unfolding d by (simp only: mult_mod_left)
  also have "\<dots> = ((number a + number b' + unat n div 2 ^ 32) * 2 ^ 32 + unat n mod 2 ^ 32) mod (?k * 2 ^ 32)"
    by (rule mod_scaled_add) simp_all
  also have "(number a + number b' + unat n div 2 ^ 32) * 2 ^ 32 + unat n mod 2 ^ 32 =
      number (a @ [w]) + number b + unat c"
    using div_mult_mod_eq [of "unat n" "2 ^ 32"] unfolding b number_snoc n by (simp add: algebra_simps)
  finally show ?case unfolding K .
qed

section \<open>Comparison\<close>

lemma compare_bytes_value:
  "length as = length bs \<Longrightarrow>
   compare_bytes as bs = (if bytes_val as < bytes_val bs then -1 else if bytes_val as = bytes_val bs then 0 else 1)"
proof (induction as bs rule: compare_bytes.induct)
  case (1 x xs y ys)
  let ?k = "256 ^ length ys :: nat"
  have l: "length xs = length ys" using 1 by simp
  have b: "bytes_val xs < ?k" "bytes_val ys < ?k" using bytes_val_bound [of xs] bytes_val_bound [of ys] l by simp_all
  consider "x = y" | "unat x < unat y" | "unat y < unat x" by (metis nat_neq_iff word_unat_eq_iff)
  then show ?case
  proof cases
    case 1
    with "1.IH" l show ?thesis by (simp add: bytes_val_Cons)
  next
    case 2
    then have "Suc (unat x) * ?k \<le> unat y * ?k" by (intro mult_le_mono1) simp
    with b have "bytes_val (x # xs) < bytes_val (y # ys)" by (simp add: bytes_val_Cons l)
    with 2 show ?thesis by (auto simp: word_less_nat_alt)
  next
    case 3
    then have "Suc (unat y) * ?k \<le> unat x * ?k" by (intro mult_le_mono1) simp
    with b have "bytes_val (y # ys) < bytes_val (x # xs)" by (simp add: bytes_val_Cons l)
    with 3 show ?thesis by (auto simp: word_less_nat_alt)
  qed
qed auto

section \<open>Hexadecimal text\<close>

lemma nibble_word:
  assumes "charUnHex h = int (unat (drop_bit 4 (c :: u8)))" "charUnHex l = int (unat (c AND 15))"
  shows "word_of_int (charUnHex h * 16 + charUnHex l) = (c :: u8)"
proof -
  have "word_of_int (int (unat (drop_bit 4 c)) * 16 + int (unat (c AND 15))) = (word_of_int (int (unat c)) :: u8)"
    by (simp only: flip: nibbles(3) [of c]) simp
  then show ?thesis unfolding assms by simp
qed

lemma SetHexExact_loop_strHex:
  assumes "strHex bs = Ok s" shows "SetHexExact_loop (length bs) (s @ rest) = Some (bs, rest)"
  using assms
proof (induction bs arbitrary: s)
  case Nil then show ?case by simp
next
  case (Cons c cs)
  obtain h where h: "charHex (unat (drop_bit 4 c)) = Ok h" "charUnHex h = int (unat (drop_bit 4 c))"
    using charUnHex_charHex [OF nibbles(1)] by blast
  obtain l where l: "charHex (unat (c AND 15)) = Ok l" "charUnHex l = int (unat (c AND 15))"
    using charUnHex_charHex [OF nibbles(2)] by blast
  from Cons.prems h l obtain t where t: "strHex cs = Ok t" "s = h # l # t" by auto
  note w = nibble_word [OF h(2) l(2)]
  have n: "charUnHex h \<noteq> -1" "charUnHex l \<noteq> -1" unfolding h l by linarith+
  show ?case using Cons.IH [OF t(1)] by (simp add: t(2) n w del: of_int_add of_int_mult)
qed

lemma strHex_hex_pairs:
  assumes "strHex bs = Ok s"
  shows "hex_pairs s = bs \<and> (\<forall>c \<in> set s. charUnHex c \<noteq> -1)"
  using assms
proof (induction bs arbitrary: s)
  case Nil then show ?case by simp
next
  case (Cons c cs)
  obtain h where h: "charHex (unat (drop_bit 4 c)) = Ok h" "charUnHex h = int (unat (drop_bit 4 c))"
    using charUnHex_charHex [OF nibbles(1)] by blast
  obtain l where l: "charHex (unat (c AND 15)) = Ok l" "charUnHex l = int (unat (c AND 15))"
    using charUnHex_charHex [OF nibbles(2)] by blast
  from Cons.prems h l obtain t where t: "strHex cs = Ok t" "s = h # l # t" by auto
  have n: "charUnHex h \<noteq> -1" "charUnHex l \<noteq> -1" unfolding h l by linarith+
  from Cons.IH [OF t(1)] nibble_word [OF h(2) l(2)] n show ?case by (simp add: t(2) del: of_int_add of_int_mult)
qed

lemma SetHex_strHex:
  assumes "strHex (data_bytes pn) = Ok s" "length s = 2 * length (data_bytes pn)"
  shows "SetHex (length pn) (s @ [0]) True = (pn, True)"
proof -
  note h = strHex_hex_pairs [OF assms(1)]
  have z: "charUnHex 0 = -1" by (simp add: charUnHex_def)
  have tw: "takeWhile (\<lambda>c. charUnHex c \<noteq> -1) (s @ [0]) = s" "dropWhile (\<lambda>c. charUnHex c \<noteq> -1) (s @ [0]) = [0]"
    using h z by (simp_all add: takeWhile_append dropWhile_append)
  show ?thesis using h assms(2) by (simp add: SetHex_def Let_def tw skip_prefix_def)
qed

section \<open>Properties\<close>

text \<open>
  The limb loops of \<open>base_uint\<close> implement arithmetic modulo \<open>2^Bits\<close>: increment, decrement
  and addition of arrays of \<open>WIDTH\<close> limbs compute the sum of the numbers the arrays stand for,
  reduced modulo \<open>2^(32 * WIDTH)\<close>, with every carry and borrow across limbs.
\<close>
theorem base_uint_arithmetic:
  assumes "length a = length b"
  shows "number (inc_pn a) = (number a + 1) mod 2 ^ (32 * length a) \<and>
    number (dec_pn a) = (number a + (2 ^ (32 * length a) - 1)) mod 2 ^ (32 * length a) \<and>
    number (add_pn a b) = (number a + number b) mod 2 ^ (32 * length a)"
  using inc_number [of a] dec_number [of a] add_from_number [of a b 0] assms by (simp add: add_pn_def)

theorem base_uint_arithmetic_witness:
  "length [0, -1 :: u32] = length [0, 0x01000000 :: u32] \<and>
   number (add_pn [0, -1] [0, 0x01000000]) = (number [0, -1] + number [0, 0x01000000]) mod 2 ^ (32 * length [0, -1 :: u32])"
  using base_uint_arithmetic [of "[0, -1]" "[0, 0x01000000]"] by simp

text \<open>
  The byte-wise comparison of \<open>base_uint\<close> is the comparison of numbers: for arrays of one
  width \<open>compare\<close> is negative, zero or positive as the first number is below, equal to or above
  the second, and equal numbers are equal arrays.
\<close>
theorem base_uint_compare:
  assumes "length a = length b"
  shows "compare_pn a b = (if number a < number b then -1 else if number a = number b then 0 else 1) \<and>
    less_pn a b = (number a < number b) \<and> eq_pn a b = (a = b)"
  using compare_bytes_value [of "data_bytes a" "data_bytes b"] assms number_inject [OF assms]
  by (auto simp: compare_pn_def less_pn_def eq_pn_def number_def)

theorem base_uint_compare_witness:
  "length [0x01000000 :: u32] = length [2 :: u32] \<and> less_pn [0x01000000] [2] = (number [0x01000000] < number [2])"
  using base_uint_compare [of "[0x01000000]" "[2]"] by simp

text \<open>
  Hexadecimal text round-trips: the string \<open>to_string\<close> gives of a \<open>base_uint\<close> is parsed back
  by \<open>SetHexExact\<close> and by the strict \<open>SetHex\<close> to the same array, for every width and value, and
  rendering never fails.
\<close>
theorem base_uint_hex_roundtrip:
  "\<exists>s. to_string_pn pn = Ok s \<and> length s = 8 * length pn \<and> SetHexExact (length pn) (s @ [0]) = Some pn \<and>
    SetHex (length pn) (s @ [0]) True = (pn, True)"
proof -
  obtain s where s: "strHex (data_bytes pn) = Ok s" "length s = 2 * length (data_bytes pn)"
    using strHex_total by blast
  from SetHexExact_loop_strHex [OF s(1), of "[0]"] SetHex_strHex [OF s] s show ?thesis
    by (simp add: to_string_pn_def SetHexExact_def)
qed

end
