(* ===== verification/Serializer.thy ===== *)
theory Serializer
  imports BaseUint
begin

text \<open>
  \<open>protocol/Serializer.h\<close> and \<open>protocol/impl/Serializer.cpp\<close>: the byte buffer that messages,
  transactions and ledger entries are written to and the iterator they are read back with.

  Every \<open>add\<close> operation returns the offset it wrote at and the extended buffer. \<open>SerialIter\<close>
  keeps the buffer it walks over and the three counters of the class (\<open>p_\<close> is an index into
  the buffer). A negative length is converted to a huge unsigned number by the comparisons of
  the source, so it is refused. The locale \<open>codec\<close> is the contract between a writer and a reader; every pair of
  the source is an interpretation of it.
\<close>

section \<open>Serializer\<close>

record Serializer =
  mData :: blob

definition addRaw :: "blob \<Rightarrow> Serializer \<Rightarrow> (int \<times> Serializer) res" where
  "addRaw v s = Ok (int (length (mData s)), s\<lparr>mData := mData s @ v\<rparr>)"

definition addZeros :: "nat \<Rightarrow> Serializer \<Rightarrow> (int \<times> Serializer) res" where
  "addZeros uBytes s = Ok (int (length (mData s)), s\<lparr>mData := mData s @ replicate uBytes 0\<rparr>)"

definition add8 :: "u8 \<Rightarrow> Serializer \<Rightarrow> (int \<times> Serializer) res" where
  "add8 b s = Ok (int (length (mData s)), s\<lparr>mData := mData s @ [b]\<rparr>)"

definition add16 :: "u16 \<Rightarrow> Serializer \<Rightarrow> (int \<times> Serializer) res" where
  "add16 i s = Ok (int (length (mData s)),
     s\<lparr>mData := mData s @ [ucast (drop_bit 8 i), ucast (i AND 0xff)]\<rparr>)"

definition add32 :: "u32 \<Rightarrow> Serializer \<Rightarrow> (int \<times> Serializer) res" where
  "add32 i s = Ok (int (length (mData s)),
     s\<lparr>mData := mData s @ [ucast (drop_bit 24 i), ucast (drop_bit 16 i AND 0xff),
       ucast (drop_bit 8 i AND 0xff), ucast (i AND 0xff)]\<rparr>)"

definition add64 :: "u64 \<Rightarrow> Serializer \<Rightarrow> (int \<times> Serializer) res" where
  "add64 i s = Ok (int (length (mData s)),
     s\<lparr>mData := mData s @ [ucast (drop_bit 56 i), ucast (drop_bit 48 i AND 0xff),
       ucast (drop_bit 40 i AND 0xff), ucast (drop_bit 32 i AND 0xff),
       ucast (drop_bit 24 i AND 0xff), ucast (drop_bit 16 i AND 0xff),
       ucast (drop_bit 8 i AND 0xff), ucast (i AND 0xff)]\<rparr>)"

text \<open>\<open>add128\<close>, \<open>add160\<close>, \<open>add256\<close> and \<open>addBitString\<close> copy the memory of a wide integer.\<close>

definition addBitString :: "'a::len word \<Rightarrow> Serializer \<Rightarrow> (int \<times> Serializer) res" where
  "addBitString v s = Ok (int (length (mData s)), s\<lparr>mData := mData s @ word_bytes v\<rparr>)"

definition addFieldID :: "int \<times> int \<Rightarrow> Serializer \<Rightarrow> (int \<times> Serializer) res" where
  "addFieldID f s =
     (let (type, name) = f; ret = int (length (mData s)) in
      rbind (require (type > 0 \<and> type < 256 \<and> name > 0 \<and> name < 256) AssertFailed) (\<lambda>_.
      Ok (ret, s\<lparr>mData := mData s @
        (if type < 16 then
           (if name < 16 then [word_of_int (push_bit 4 type OR name)]
            else [word_of_int (push_bit 4 type), word_of_int name])
         else if name < 16 then [word_of_int name, word_of_int type]
         else [0, word_of_int type, word_of_int name])\<rparr>)))"

definition ser_get8 :: "Serializer \<Rightarrow> nat \<Rightarrow> int option" where
  "ser_get8 s offset = (if offset \<ge> length (mData s) then None else Some (uint (mData s ! offset)))"

definition ser_getRaw :: "Serializer \<Rightarrow> nat \<Rightarrow> int \<Rightarrow> blob option" where
  "ser_getRaw s offset len =
     (if int offset + len < 0 \<or> int offset + len > int (length (mData s)) then None
      else Some (take (nat len) (drop offset (mData s))))"

definition ser_getInteger :: "Serializer \<Rightarrow> nat \<Rightarrow> 'a::len word option" where
  "ser_getInteger s offset =
     (let n = LENGTH('a) div 8 in
      if offset + n > length (mData s) then None
      else Some (foldl (\<lambda>number b. push_bit 8 number OR ucast b) 0 (take n (drop offset (mData s)))))"

definition ser_getBitString :: "Serializer \<Rightarrow> nat \<Rightarrow> 'a::len word option" where
  "ser_getBitString s offset =
     (let n = LENGTH('a) div 8 in
      if offset + n \<le> length (mData s) then Some (bytes_word (take n (drop offset (mData s)))) else None)"

definition chop :: "nat \<Rightarrow> Serializer \<Rightarrow> bool \<times> Serializer" where
  "chop n s =
     (if n > length (mData s) then (False, s)
      else (True, s\<lparr>mData := take (length (mData s) - n) (mData s)\<rparr>))"

definition ser_getFieldID :: "Serializer \<Rightarrow> nat \<Rightarrow> (int \<times> int) option" where
  "ser_getFieldID s offset =
     (case ser_get8 s offset of None \<Rightarrow> None
      | Some b \<Rightarrow>
          let name = b AND 15; type = drop_bit 4 b in
          (case (if type = 0 then
                   (case ser_get8 s (offset + 1) of None \<Rightarrow> None
                    | Some t \<Rightarrow> if t = 0 \<or> t < 16 then None else Some (t, offset + 1))
                 else Some (type, offset)) of None \<Rightarrow> None
           | Some (type', offset') \<Rightarrow>
               if name = 0 then
                 (case ser_get8 s (offset' + 1) of None \<Rightarrow> None
                  | Some n \<Rightarrow> if n = 0 \<or> n < 16 then None else Some (type', n))
               else Some (type', name)))"

section \<open>Variable lengths\<close>

definition encodeLengthLength :: "int \<Rightarrow> int res" where
  "encodeLengthLength len =
     (if len < 0 then Throw (OverflowError ''len<0'')
      else if len \<le> 192 then Ok 1
      else if len \<le> 12480 then Ok 2
      else if len \<le> 918744 then Ok 3
      else Throw (OverflowError ''len>918744''))"

definition decodeLengthLength :: "int \<Rightarrow> int res" where
  "decodeLengthLength b1 =
     (if b1 < 0 then Throw (OverflowError ''b1<0'')
      else if b1 \<le> 192 then Ok 1
      else if b1 \<le> 240 then Ok 2
      else if b1 \<le> 254 then Ok 3
      else Throw (OverflowError ''b1>254''))"

definition decodeVLLength1 :: "int \<Rightarrow> int res" where
  "decodeVLLength1 b1 =
     (if b1 < 0 then Throw (OverflowError ''b1<0'')
      else if b1 > 254 then Throw (OverflowError ''b1>254'')
      else Ok b1)"

definition decodeVLLength2 :: "int \<Rightarrow> int \<Rightarrow> int res" where
  "decodeVLLength2 b1 b2 =
     (if b1 < 193 then Throw (OverflowError ''b1<193'')
      else if b1 > 240 then Throw (OverflowError ''b1>240'')
      else Ok (193 + (b1 - 193) * 256 + b2))"

definition decodeVLLength3 :: "int \<Rightarrow> int \<Rightarrow> int \<Rightarrow> int res" where
  "decodeVLLength3 b1 b2 b3 =
     (if b1 < 241 then Throw (OverflowError ''b1<241'')
      else if b1 > 254 then Throw (OverflowError ''b1>254'')
      else Ok (12481 + (b1 - 241) * 65536 + b2 * 256 + b3))"

definition addEncoded :: "int \<Rightarrow> Serializer \<Rightarrow> (int \<times> Serializer) res" where
  "addEncoded len s =
     (if len \<le> 192 then addRaw [word_of_int len] s
      else if len \<le> 12480 then
        let l = len - 193 in addRaw [193 + word_of_int (drop_bit 8 l), word_of_int (l AND 0xff)] s
      else if len \<le> 918744 then
        let l = len - 12481 in
        addRaw [241 + word_of_int (drop_bit 16 l), word_of_int (drop_bit 8 l AND 0xff), word_of_int (l AND 0xff)] s
      else Throw (OverflowError ''lenlen''))"

definition addVL :: "blob \<Rightarrow> Serializer \<Rightarrow> (int \<times> Serializer) res" where
  "addVL v s =
     rbind (addEncoded (int (length v)) s) (\<lambda>(ret, s1).
     rbind (addRaw v s1) (\<lambda>(_, s2).
     rbind (encodeLengthLength (int (length v))) (\<lambda>ll.
     rbind (require (int (length (mData s2)) = ret + int (length v) + ll) AssertFailed) (\<lambda>_.
       Ok (ret, s2)))))"

text \<open>\<open>getVLLength\<close>: a result \<open>Ok None\<close> is \<open>return false\<close>; the first call is outside the \<open>try\<close>.\<close>

definition ser_getVLLength :: "Serializer \<Rightarrow> nat \<Rightarrow> int option res" where
  "ser_getVLLength s offset =
     (case ser_get8 s offset of None \<Rightarrow> Ok None
      | Some b1 \<Rightarrow>
          rbind (decodeLengthLength b1) (\<lambda>lenLen.
            let datLen =
                  (if lenLen = 1 then decodeVLLength1 b1
                   else if lenLen = 2 then
                     (case ser_get8 s (offset + 1) of None \<Rightarrow> Throw (RuntimeError ''return false'')
                      | Some b2 \<Rightarrow> decodeVLLength2 b1 b2)
                   else
                     (case (ser_get8 s (offset + 1), ser_get8 s (offset + 2)) of
                        (Some b2, Some b3) \<Rightarrow> decodeVLLength3 b1 b2 b3
                      | _ \<Rightarrow> Throw (RuntimeError ''return false'')))
            in case datLen of Inl _ \<Rightarrow> Ok None | Inr l \<Rightarrow> Ok (Some l)))"

definition ser_getVL :: "Serializer \<Rightarrow> nat \<Rightarrow> (blob \<times> int) option res" where
  "ser_getVL s offset =
     rbind (ser_getVLLength s offset) (\<lambda>r.
       case r of None \<Rightarrow> Ok None
       | Some datLen \<Rightarrow>
           (case ser_get8 s offset of None \<Rightarrow> Ok None
            | Some b1 \<Rightarrow> rbind (decodeLengthLength b1) (\<lambda>lenLen.
                Ok (map_option (\<lambda>b. (b, lenLen + datLen)) (ser_getRaw s (offset + nat lenLen) datLen)))))"

section \<open>SerialIter\<close>

record SerialIter =
  buf :: blob
  p_f :: nat
  remain_f :: nat
  used_f :: nat

definition SerialIter_make :: "blob \<Rightarrow> SerialIter" where
  "SerialIter_make d = \<lparr>buf = d, p_f = 0, remain_f = length d, used_f = 0\<rparr>"

definition si_empty :: "SerialIter \<Rightarrow> bool" where
  "si_empty it \<longleftrightarrow> remain_f it = 0"

definition si_reset :: "SerialIter \<Rightarrow> SerialIter" where
  "si_reset it = it\<lparr>p_f := p_f it - used_f it, remain_f := remain_f it + used_f it, used_f := 0\<rparr>"

definition advance :: "nat \<Rightarrow> SerialIter \<Rightarrow> SerialIter" where
  "advance n it = it\<lparr>p_f := p_f it + n, used_f := used_f it + n, remain_f := remain_f it - n\<rparr>"

definition skip :: "int \<Rightarrow> SerialIter \<Rightarrow> SerialIter res" where
  "skip len it =
     (if len < 0 \<or> int (remain_f it) < len then Throw (RuntimeError ''invalid SerialIter skip'')
      else Ok (advance (nat len) it))"

definition get8 :: "SerialIter \<Rightarrow> (u8 \<times> SerialIter) res" where
  "get8 it =
     (if remain_f it < 1 then Throw (RuntimeError ''invalid SerialIter get8'')
      else Ok (buf it ! p_f it, advance 1 it))"

definition get16 :: "SerialIter \<Rightarrow> (u16 \<times> SerialIter) res" where
  "get16 it =
     (if remain_f it < 2 then Throw (RuntimeError ''invalid SerialIter get16'')
      else let t = (\<lambda>i. ucast (buf it ! (p_f it + i)) :: u64)
           in Ok (ucast (push_bit 8 (t 0) + t 1), advance 2 it))"

definition get32 :: "SerialIter \<Rightarrow> (u32 \<times> SerialIter) res" where
  "get32 it =
     (if remain_f it < 4 then Throw (RuntimeError ''invalid SerialIter get32'')
      else let t = (\<lambda>i. ucast (buf it ! (p_f it + i)) :: u64)
           in Ok (ucast (push_bit 24 (t 0) + push_bit 16 (t 1) + push_bit 8 (t 2) + t 3), advance 4 it))"

definition get64 :: "SerialIter \<Rightarrow> (u64 \<times> SerialIter) res" where
  "get64 it =
     (if remain_f it < 8 then Throw (RuntimeError ''invalid SerialIter get64'')
      else let t = (\<lambda>i. ucast (buf it ! (p_f it + i)) :: u64)
           in Ok (push_bit 56 (t 0) + push_bit 48 (t 1) + push_bit 40 (t 2) + push_bit 32 (t 3) +
                  push_bit 24 (t 4) + push_bit 16 (t 5) + push_bit 8 (t 6) + t 7, advance 8 it))"

definition getBitString :: "SerialIter \<Rightarrow> ('a::len word \<times> SerialIter) res" where
  "getBitString it =
     (let n = LENGTH('a) div 8 in
      if remain_f it < n then Throw (RuntimeError ''invalid SerialIter getBitString'')
      else Ok (bytes_word (take n (drop (p_f it) (buf it))), advance n it))"

definition getFieldID :: "SerialIter \<Rightarrow> ((int \<times> int) \<times> SerialIter) res" where
  "getFieldID it =
     rbind (get8 it) (\<lambda>(b, it1).
       let name = uint b AND 15; type = drop_bit 4 (uint b) in
       rbind (if type = 0 then
                rbind (get8 it1) (\<lambda>(t, it2).
                  if uint t = 0 \<or> uint t < 16 then Throw (RuntimeError ''gFID: uncommon type out of range'')
                  else Ok (uint t, it2))
              else Ok (type, it1)) (\<lambda>(type', it2).
       if name = 0 then
         rbind (get8 it2) (\<lambda>(n, it3).
           if uint n = 0 \<or> uint n < 16 then Throw (RuntimeError ''gFID: uncommon name out of range'')
           else Ok ((type', uint n), it3))
       else Ok ((type', name), it2)))"

definition getRaw :: "int \<Rightarrow> SerialIter \<Rightarrow> (blob \<times> SerialIter) res" where
  "getRaw sz it =
     (if sz < 0 \<or> int (remain_f it) < sz then Throw (RuntimeError ''invalid SerialIter getRaw'')
      else Ok (take (nat sz) (drop (p_f it) (buf it)), advance (nat sz) it))"

definition getVLDataLength :: "SerialIter \<Rightarrow> (int \<times> SerialIter) res" where
  "getVLDataLength it =
     rbind (get8 it) (\<lambda>(b1, it1).
     rbind (decodeLengthLength (uint b1)) (\<lambda>lenLen.
       if lenLen = 1 then rbind (decodeVLLength1 (uint b1)) (\<lambda>d. Ok (d, it1))
       else if lenLen = 2 then
         rbind (get8 it1) (\<lambda>(b2, it2). rbind (decodeVLLength2 (uint b1) (uint b2)) (\<lambda>d. Ok (d, it2)))
       else
         rbind (require (lenLen = 3) AssertFailed) (\<lambda>_.
         rbind (get8 it1) (\<lambda>(b2, it2). rbind (get8 it2) (\<lambda>(b3, it3).
         rbind (decodeVLLength3 (uint b1) (uint b2) (uint b3)) (\<lambda>d. Ok (d, it3)))))))"

definition getVL :: "SerialIter \<Rightarrow> (blob \<times> SerialIter) res" where
  "getVL it = rbind (getVLDataLength it) (\<lambda>(n, it1). getRaw n it1)"

section \<open>The codec contract\<close>

definition si_wf :: "SerialIter \<Rightarrow> bool" where
  "si_wf it \<longleftrightarrow> p_f it = used_f it \<and> p_f it + remain_f it = length (buf it)"

definition rest :: "SerialIter \<Rightarrow> blob" where
  "rest it = drop (p_f it) (buf it)"

text \<open>Writing and reading a sequence of values.\<close>

fun add_all :: "('a \<Rightarrow> Serializer \<Rightarrow> (int \<times> Serializer) res) \<Rightarrow> 'a list \<Rightarrow> Serializer \<Rightarrow> Serializer res" where
  "add_all add [] s = Ok s"
| "add_all add (x # xs) s = rbind (add x s) (\<lambda>(_, s'). add_all add xs s')"

fun get_all :: "(SerialIter \<Rightarrow> ('a \<times> SerialIter) res) \<Rightarrow> nat \<Rightarrow> SerialIter \<Rightarrow> ('a list \<times> SerialIter) res" where
  "get_all get 0 it = Ok ([], it)"
| "get_all get (Suc n) it = rbind (get it) (\<lambda>(x, it1). rbind (get_all get n it1) (\<lambda>(xs, it2). Ok (x # xs, it2)))"

lemma si_wf_make [simp]: "si_wf (SerialIter_make d)" "rest (SerialIter_make d) = d"
  by (simp_all add: si_wf_def rest_def SerialIter_make_def)

lemma rest_length: "si_wf it \<Longrightarrow> length (rest it) = remain_f it"
  by (auto simp: si_wf_def rest_def)

lemma advance_wf:
  "si_wf it \<Longrightarrow> n \<le> remain_f it \<Longrightarrow> si_wf (advance n it) \<and> rest (advance n it) = drop n (rest it)"
  by (auto simp: si_wf_def rest_def advance_def add.commute)

lemma advance_0 [simp]: "advance 0 it = it" by (simp add: advance_def)

lemma advance_advance [simp]: "advance n (advance m it) = advance (m + n) it"
  by (simp add: advance_def add.assoc)

lemma advance_rest:
  "si_wf it \<Longrightarrow> rest it = bs @ q \<Longrightarrow> si_wf (advance (length bs) it) \<and> rest (advance (length bs) it) = q"
  using advance_wf [of it "length bs"] rest_length [of it] by simp

lemma nth_rest: "si_wf it \<Longrightarrow> i < remain_f it \<Longrightarrow> buf it ! (p_f it + i) = rest it ! i"
  by (simp add: rest_def si_wf_def)

lemma reset_make: "si_wf it \<Longrightarrow> si_reset it = SerialIter_make (buf it)"
  by (simp add: si_reset_def si_wf_def SerialIter_make_def)

locale codec =
  fixes add :: "'a \<Rightarrow> Serializer \<Rightarrow> (int \<times> Serializer) res"
    and get :: "SerialIter \<Rightarrow> ('a \<times> SerialIter) res"
    and enc :: "'a \<Rightarrow> blob"
    and valid :: "'a \<Rightarrow> bool"
  assumes add_enc: "valid x \<Longrightarrow> add x s = Ok (int (length (mData s)), s\<lparr>mData := mData s @ enc x\<rparr>)"
    and get_enc: "valid x \<Longrightarrow> si_wf it \<Longrightarrow> rest it = enc x @ q \<Longrightarrow> get it = Ok (x, advance (length (enc x)) it)"
begin

lemma roundtrip:
  assumes "valid x" "add x \<lparr>mData = []\<rparr> = Ok (n, s)"
  shows "get (SerialIter_make (mData s)) = Ok (x, advance (length (mData s)) (SerialIter_make (mData s)))"
  using get_enc [OF assms(1), of "SerialIter_make (enc x)" "[]"] add_enc [OF assms(1), of "\<lparr>mData = []\<rparr>"] assms(2)
  by auto

lemma enc_prefix_free:
  assumes "valid x" "valid y" "enc x @ r = enc y @ r'"
  shows "x = y \<and> r = r'"
proof -
  let ?i = "SerialIter_make (enc x @ r)"
  have "get ?i = Ok (x, advance (length (enc x)) ?i)" by (rule get_enc [OF assms(1)]) simp_all
  moreover have "get ?i = Ok (y, advance (length (enc y)) ?i)" by (rule get_enc [OF assms(2)]) (simp_all add: assms(3))
  ultimately have "x = y" by simp
  with assms(3) show ?thesis by simp
qed

lemma add_all_enc:
  "\<forall>x \<in> set xs. valid x \<Longrightarrow> add_all add xs s = Ok (s\<lparr>mData := mData s @ concat (map enc xs)\<rparr>)"
  by (induction xs arbitrary: s) (simp_all add: add_enc)

lemma get_all_enc:
  "\<forall>x \<in> set xs. valid x \<Longrightarrow> si_wf it \<Longrightarrow> rest it = concat (map enc xs) @ q \<Longrightarrow>
   get_all get (length xs) it = Ok (xs, advance (length (concat (map enc xs))) it)"
proof (induction xs arbitrary: it)
  case Nil then show ?case by simp
next
  case (Cons x xs)
  have r: "rest it = enc x @ (concat (map enc xs) @ q)" using Cons.prems by simp
  have "get it = Ok (x, advance (length (enc x)) it)" using Cons.prems(1,2) r by (intro get_enc) auto
  with Cons.IH [of "advance (length (enc x)) it"] advance_rest [OF Cons.prems(2) r] Cons.prems(1)
  show ?case by simp
qed

lemma sequence_roundtrip:
  assumes "\<forall>x \<in> set xs. valid x" "add_all add xs \<lparr>mData = []\<rparr> = Ok s"
  shows "\<exists>it. get_all get (length xs) (SerialIter_make (mData s)) = Ok (xs, it) \<and> si_empty it"
proof -
  from add_all_enc [OF assms(1), of "\<lparr>mData = []\<rparr>"] assms(2) have s: "mData s = concat (map enc xs)" by auto
  let ?i = "SerialIter_make (concat (map enc xs))"
  have "get_all get (length xs) ?i = Ok (xs, advance (length (concat (map enc xs))) ?i)"
    using get_all_enc [OF assms(1), of ?i "[]"] by simp
  moreover have "si_empty (advance (length (concat (map enc xs))) ?i)"
    by (simp add: si_empty_def advance_def SerialIter_make_def)
  ultimately show ?thesis unfolding s by blast
qed

end

section \<open>The codecs of the source\<close>

lemma unat_drop_bit: "unat (drop_bit n (w :: 'a::len word)) = unat w div 2 ^ n"
  using unsigned_less [of w, where 'a = nat]
  by (simp only: unsigned_drop_bit_eq take_bit_nat_eq_self) (simp only: drop_bit_eq_div)

lemma nat_bytes_word:
  "nat_bytes (numeral k) (unat w) = nat_bytes (pred_numeral k) (unat (drop_bit 8 w)) @ [ucast (w :: 'a::len word)]"
proof -
  have "nat_bytes (numeral k) (unat w) = nat_bytes (Suc (pred_numeral k)) (unat w)" by (simp only: numeral_eq_Suc)
  then show ?thesis unfolding unat_drop_bit by simp
qed

lemma nat_bytes_word1: "nat_bytes (Suc 0) (unat w) = [ucast (w :: 'a::len word)]" by simp

lemma ucast_of_nat_down:
  assumes "LENGTH('b) \<le> LENGTH('a)"
  shows "ucast (of_nat n :: 'a::len word) = (of_nat n :: 'b::len word)"
  unfolding unsigned_of_nat word_of_nat_eq_iff using assms by (simp only: take_bit_take_bit min_absorb1)

lemma low_byte:
  assumes "8 \<le> LENGTH('a)"
  shows "ucast (w AND 0xff :: 'a::len word) = (ucast w :: u8)"
proof (rule bit_word_eqI)
  fix k assume k: "k < LENGTH(8)"
  have m: "(0xff :: 'a word) = mask 8" by (simp add: mask_numeral)
  show "bit (ucast (w AND 0xff) :: u8) k = bit (ucast w :: u8) k"
    unfolding m using assms k by (auto simp: bit_simps)
qed

lemma get_word:
  assumes "si_wf it" "rest it = bs @ q"
  shows "\<not> remain_f it < length bs" and "take (length bs) (drop (p_f it) (buf it)) = bs"
    and "\<And>i. i < length bs \<Longrightarrow> buf it ! (p_f it + i) = bs ! i"
proof -
  from rest_length [OF assms(1)] assms(2) have r: "remain_f it = length bs + length q" by simp
  then show "\<not> remain_f it < length bs" by simp
  show "take (length bs) (drop (p_f it) (buf it)) = bs" using assms(2) by (simp add: rest_def)
  show "buf it ! (p_f it + i) = bs ! i" if "i < length bs" for i
    using nth_rest [OF assms(1), of i] r assms(2) that by (simp add: nth_append)
qed

lemma get_nth:
  assumes "si_wf it" "rest it = bs @ q"
  shows "\<not> remain_f it < length bs \<and> (\<forall>i < length bs. buf it ! (p_f it + i) = bs ! i)"
  using get_word [OF assms] by simp

lemma get8_rest: "si_wf it \<Longrightarrow> rest it = b # q \<Longrightarrow> get8 it = Ok (b, advance 1 it)"
  using get_word [of it "[b]" q] by (simp add: get8_def)

lemma word_bytes16: "word_bytes (x :: u16) = [ucast (drop_bit 8 x), ucast x]"
  by (simp add: word_bytes_def nat_bytes_word nat_bytes_word1 del: nat_bytes.simps(2))

lemma word_bytes32: "word_bytes (x :: u32) =
  [ucast (drop_bit 24 x), ucast (drop_bit 16 x), ucast (drop_bit 8 x), ucast x]"
  by (simp add: word_bytes_def nat_bytes_word nat_bytes_word1 del: nat_bytes.simps(2))

lemma word_bytes64: "word_bytes (x :: u64) =
  [ucast (drop_bit 56 x), ucast (drop_bit 48 x), ucast (drop_bit 40 x), ucast (drop_bit 32 x),
   ucast (drop_bit 24 x), ucast (drop_bit 16 x), ucast (drop_bit 8 x), ucast x]"
  by (simp add: word_bytes_def nat_bytes_word nat_bytes_word1 del: nat_bytes.simps(2))

lemma word_of_bytes:
  assumes "8 dvd LENGTH('a::len)" "word_bytes (x :: 'a word) = bs"
  shows "of_nat (bytes_val bs) = x"
  using bytes_word_bytes [OF assms(1), of x] assms(2) by (simp add: bytes_word_def)

interpretation c8: codec add8 get8 "\<lambda>b. [b]" "\<lambda>_. True"
  by unfold_locales (simp_all add: add8_def get8_rest)

interpretation c16: codec add16 get16 word_bytes "\<lambda>_. True"
proof (unfold_locales, goal_cases)
  case (1 x s)
  then show ?case by (simp add: add16_def word_bytes16 low_byte)
next
  case (2 x it q)
  obtain a b where bs: "word_bytes x = [a, b]" using word_bytes16 by blast
  have e: "push_bit 8 (ucast a) + ucast b = (of_nat (bytes_val [a, b]) :: u64)"
    by (simp add: push_bit_eq_mult bytes_val_def)
  have "ucast (push_bit 8 (ucast a) + ucast b :: u64) = x"
    unfolding e using word_of_bytes [OF _ bs] ucast_of_nat_down [where 'a = 64 and 'b = 16, of "bytes_val [a, b]"] by simp
  with get_nth [OF 2(2,3)] bs show ?case by (simp add: get16_def numeral_eq_Suc All_less_Suc)
qed

interpretation c32: codec add32 get32 word_bytes "\<lambda>_. True"
proof (unfold_locales, goal_cases)
  case (1 x s)
  then show ?case by (simp add: add32_def word_bytes32 low_byte)
next
  case (2 x it q)
  obtain a b c d where bs: "word_bytes x = [a, b, c, d]" using word_bytes32 by blast
  have e: "push_bit 24 (ucast a) + push_bit 16 (ucast b) + push_bit 8 (ucast c) + ucast d = (of_nat (bytes_val [a, b, c, d]) :: u64)"
    by (simp add: push_bit_eq_mult bytes_val_def algebra_simps)
  have "ucast (push_bit 24 (ucast a) + push_bit 16 (ucast b) + push_bit 8 (ucast c) + ucast d :: u64) = x"
    unfolding e using word_of_bytes [OF _ bs] ucast_of_nat_down [where 'a = 64 and 'b = 32, of "bytes_val [a, b, c, d]"] by simp
  with get_nth [OF 2(2,3)] bs show ?case by (simp add: get32_def numeral_eq_Suc All_less_Suc)
qed

interpretation c64: codec add64 get64 word_bytes "\<lambda>_. True"
proof (unfold_locales, goal_cases)
  case (1 x s)
  then show ?case by (simp add: add64_def word_bytes64 low_byte)
next
  case (2 x it q)
  obtain a b c d e f g h where bs: "word_bytes x = [a, b, c, d, e, f, g, h]" using word_bytes64 by blast
  have "push_bit 56 (ucast a) + push_bit 48 (ucast b) + push_bit 40 (ucast c) + push_bit 32 (ucast d) +
      push_bit 24 (ucast e) + push_bit 16 (ucast f) + push_bit 8 (ucast g) + ucast h =
      (of_nat (bytes_val [a, b, c, d, e, f, g, h]) :: u64)"
    by (simp add: push_bit_eq_mult bytes_val_def algebra_simps)
  also have "\<dots> = x" by (rule word_of_bytes [OF _ bs]) simp
  finally show ?case using get_nth [OF 2(2,3)] bs by (simp add: get64_def numeral_eq_Suc All_less_Suc)
qed

lemma bit_string_codec:
  assumes "8 dvd LENGTH('a::len)"
  shows "codec addBitString getBitString (word_bytes :: 'a word \<Rightarrow> blob) (\<lambda>_. True)"
proof (unfold_locales, goal_cases)
  case (1 x s) then show ?case by (simp add: addBitString_def)
next
  case (2 x it q)
  with get_word [OF 2(2,3)] bytes_word_bytes [OF assms, of x] show ?case by (simp add: getBitString_def)
qed

interpretation c160: codec addBitString getBitString "word_bytes :: uint160 \<Rightarrow> blob" "\<lambda>_. True"
  by (rule bit_string_codec) simp

interpretation c256: codec addBitString getBitString "word_bytes :: uint256 \<Rightarrow> blob" "\<lambda>_. True"
  by (rule bit_string_codec) simp

subsection \<open>Variable-length fields\<close>

definition vl_prefix :: "int \<Rightarrow> blob" where
  "vl_prefix len =
     (if len \<le> 192 then [word_of_int len]
      else if len \<le> 12480 then [193 + word_of_int (drop_bit 8 (len - 193)), word_of_int ((len - 193) AND 0xff)]
      else [241 + word_of_int (drop_bit 16 (len - 12481)), word_of_int (drop_bit 8 (len - 12481) AND 0xff),
            word_of_int ((len - 12481) AND 0xff)])"

definition vl_valid :: "blob \<Rightarrow> bool" where "vl_valid v \<longleftrightarrow> length v \<le> 918744"

lemma addEncoded_prefix:
  "len \<le> 918744 \<Longrightarrow> addEncoded len s = Ok (int (length (mData s)), s\<lparr>mData := mData s @ vl_prefix len\<rparr>)"
  by (auto simp: addEncoded_def vl_prefix_def addRaw_def Let_def)

lemma addVL_enc:
  "vl_valid v \<Longrightarrow> addVL v s = Ok (int (length (mData s)), s\<lparr>mData := mData s @ vl_prefix (int (length v)) @ v\<rparr>)"
  by (auto simp: addVL_def vl_valid_def addEncoded_prefix addRaw_def encodeLengthLength_def vl_prefix_def)

lemma uint_byte: "0 \<le> n \<Longrightarrow> n < 256 \<Longrightarrow> uint (word_of_int n :: u8) = n"
  by (simp add: uint_word_of_int_eq take_bit_int_eq_self)

lemma int_and_255: "(n :: int) AND 0xff = n mod 256"
proof -
  have "(0xff :: int) = mask 8" by (simp add: mask_numeral)
  then show ?thesis by (simp only: flip: take_bit_eq_mask) (simp add: take_bit_eq_mod)
qed

lemma getVLDataLength_prefix:
  assumes "0 \<le> len" "len \<le> 918744" "si_wf it" "rest it = vl_prefix len @ q"
  shows "getVLDataLength it = Ok (len, advance (length (vl_prefix len)) it)"
proof -
  consider "len \<le> 192" | "192 < len" "len \<le> 12480" | "12480 < len" by linarith
  then show ?thesis
  proof cases
    case 1
    with assms have r: "rest it = word_of_int len # q" by (simp add: vl_prefix_def)
    with 1 assms show ?thesis
      by (simp add: getVLDataLength_def get8_rest [OF assms(3) r] uint_byte decodeLengthLength_def decodeVLLength1_def vl_prefix_def)
  next
    case 2
    define x y where "x = (len - 193) div 256" and "y = (len - 193) mod 256"
    have xy: "0 \<le> x" "x \<le> 47" "0 \<le> y" "y < 256" "193 + x * 256 + y = len"
      using 2 unfolding x_def y_def by (simp_all add: pos_imp_zdiv_nonneg_iff)
    let ?b = "word_of_int (193 + x) :: u8" and ?c = "word_of_int y :: u8"
    have p: "vl_prefix len = [?b, ?c]" using 2 by (simp add: vl_prefix_def int_and_255 drop_bit_eq_div x_def y_def)
    have u: "uint ?b = 193 + x" "uint ?c = y" using xy by (simp_all add: uint_byte del: of_int_add)
    have r: "rest it = ?b # ?c # q" using assms(4) p by simp
    have a: "si_wf (advance 1 it)" "rest (advance 1 it) = ?c # q" using advance_rest [OF assms(3), of "[?b]" "?c # q"] r by simp_all
    show ?thesis using xy get8_rest [OF a] unfolding p
      by (simp add: getVLDataLength_def get8_rest [OF assms(3) r] u decodeLengthLength_def
          decodeVLLength2_def numeral_2_eq_2 del: of_int_add)
  next
    case 3
    define x y z where "x = (len - 12481) div 65536" and "y = (len - 12481) div 256 mod 256" and "z = (len - 12481) mod 256"
    have d: "(len - 12481) div 65536 = (len - 12481) div 256 div 256" by (simp flip: zdiv_zmult2_eq)
    have xyz: "0 \<le> x" "x \<le> 13" "0 \<le> y" "y < 256" "0 \<le> z" "z < 256" "12481 + x * 65536 + y * 256 + z = len"
      using 3 assms(2) div_mult_mod_eq [of "len - 12481" 256] div_mult_mod_eq [of "(len - 12481) div 256" 256]
      unfolding x_def y_def z_def d by linarith+
    let ?b = "word_of_int (241 + x) :: u8" and ?c = "word_of_int y :: u8" and ?d = "word_of_int z :: u8"
    have p: "vl_prefix len = [?b, ?c, ?d]" using 3 by (simp add: vl_prefix_def int_and_255 drop_bit_eq_div x_def y_def z_def)
    have u: "uint ?b = 241 + x" "uint ?c = y" "uint ?d = z" using xyz by (simp_all add: uint_byte del: of_int_add)
    have r: "rest it = ?b # ?c # ?d # q" using assms(4) p by simp
    have a: "si_wf (advance 1 it)" "rest (advance 1 it) = ?c # ?d # q"
      using advance_rest [OF assms(3), of "[?b]" "?c # ?d # q"] r by simp_all
    have b: "si_wf (advance 1 (advance 1 it))" "rest (advance 1 (advance 1 it)) = ?d # q"
      using advance_rest [OF a(1), of "[?c]" "?d # q"] a(2) by simp_all
    show ?thesis using xyz get8_rest [OF a] get8_rest [OF b] unfolding p
      by (simp add: getVLDataLength_def get8_rest [OF assms(3) r] u decodeLengthLength_def
          decodeVLLength3_def numeral_3_eq_3 numeral_2_eq_2 del: of_int_add)
  qed
qed

interpretation cvl: codec addVL getVL "\<lambda>v. vl_prefix (int (length v)) @ v" vl_valid
proof (unfold_locales, goal_cases)
  case (1 v s)
  then show ?case by (rule addVL_enc)
next
  case (2 v it q)
  then have r: "rest it = vl_prefix (int (length v)) @ (v @ q)" by simp
  have g: "getVLDataLength it = Ok (int (length v), advance (length (vl_prefix (int (length v)))) it)"
    using 2(1,2) r by (intro getVLDataLength_prefix) (simp_all add: vl_valid_def)
  note a = advance_rest [OF 2(2) r]
  from get_word [of "advance (length (vl_prefix (int (length v)))) it" v q] a g show ?case
    by (simp add: getVL_def getRaw_def)
qed

subsection \<open>Field identifiers\<close>

definition field_bytes :: "int \<times> int \<Rightarrow> blob" where
  "field_bytes f = (case f of (type, name) \<Rightarrow>
     if type < 16 then
       (if name < 16 then [word_of_int (type * 16 + name)] else [word_of_int (type * 16), word_of_int name])
     else if name < 16 then [word_of_int name, word_of_int type] else [0, word_of_int type, word_of_int name])"

definition field_valid :: "int \<times> int \<Rightarrow> bool" where
  "field_valid f \<longleftrightarrow> 0 < fst f \<and> fst f < 256 \<and> 0 < snd f \<and> snd f < 256"

lemma int_nibbles: "(n :: int) AND 15 = n mod 16" "drop_bit 4 n = n div 16"
proof -
  have "(15 :: int) = mask 4" by (simp add: mask_numeral)
  then show "n AND 15 = n mod 16" by (simp only: flip: take_bit_eq_mask) (simp add: take_bit_eq_mod)
  show "drop_bit 4 n = n div 16" by (simp add: drop_bit_eq_div)
qed

lemma push_or_nibble: "0 \<le> name \<Longrightarrow> name < 16 \<Longrightarrow> type * 16 OR name = type * 16 + (name :: int)"
proof -
  assume n: "0 \<le> name" "name < 16"
  then have t: "take_bit 4 name = name" by (simp add: take_bit_int_eq_self)
  have "push_bit 4 type OR take_bit 4 name = push_bit 4 type + take_bit 4 name"
    by (rule disjunctive_add [symmetric]) (auto simp: bit_simps)
  then show ?thesis unfolding t by (simp add: push_bit_eq_mult)
qed

lemma push_bit_4: "push_bit 4 (n :: int) = n * 16"
  by (simp add: push_bit_eq_mult)

interpretation cfid: codec addFieldID getFieldID field_bytes field_valid
proof (unfold_locales, goal_cases)
  case (1 f s)
  then show ?case
    by (cases f) (auto simp: addFieldID_def field_bytes_def field_valid_def push_or_nibble push_bit_4)
next
  case (2 f it q)
  obtain type name where f: "f = (type, name)" by fastforce
  note v = 2(1) [unfolded f field_valid_def, simplified]
  have step: "si_wf (advance 1 it') \<and> rest (advance 1 it') = bs" if "si_wf it'" "rest it' = b # bs" for it' b bs
    using advance_rest [OF that(1), of "[b]" bs] that(2) by simp
  have z: "uint (0 :: u8) = 0" by simp
  consider "type < 16" "name < 16" | "type < 16" "16 \<le> name" | "16 \<le> type" "name < 16" | "16 \<le> type" "16 \<le> name" by linarith
  then show ?case
  proof cases
    case 1
    then have r: "rest it = word_of_int (type * 16 + name) # q" using 2(3) f by (simp add: field_bytes_def)
    have u: "uint (word_of_int (type * 16 + name) :: u8) = type * 16 + name" using 1 v by (intro uint_byte) auto
    have n: "(type * 16 + name) mod 16 = name" "(type * 16 + name) div 16 = type" using 1 v by simp_all
    show ?thesis using 1 v unfolding f
      by (simp add: getFieldID_def get8_rest [OF 2(2) r] u int_nibbles n field_bytes_def del: of_int_add of_int_mult)
  next
    case 2
    then have r: "rest it = word_of_int (type * 16) # word_of_int name # q" using \<open>rest it = _\<close> f by (simp add: field_bytes_def)
    have u: "uint (word_of_int (type * 16) :: u8) = type * 16" using 2 v by (intro uint_byte) auto
    have u': "uint (word_of_int name :: u8) = name" using 2 v by (intro uint_byte) auto
    note a = step [OF \<open>si_wf it\<close> r]
    show ?thesis using 2 v get8_rest [of "advance 1 it"] a unfolding f
      by (simp add: getFieldID_def get8_rest [OF \<open>si_wf it\<close> r] u u' int_nibbles field_bytes_def numeral_2_eq_2 del: of_int_add of_int_mult)
  next
    case 3
    then have r: "rest it = word_of_int name # word_of_int type # q" using \<open>rest it = _\<close> f by (simp add: field_bytes_def)
    have u: "uint (word_of_int type :: u8) = type" "uint (word_of_int name :: u8) = name" using 3 v by (auto intro!: uint_byte)
    note a = step [OF \<open>si_wf it\<close> r]
    show ?thesis using 3 v get8_rest [of "advance 1 it"] a unfolding f
      by (simp add: getFieldID_def get8_rest [OF \<open>si_wf it\<close> r] u int_nibbles field_bytes_def numeral_2_eq_2 del: of_int_add of_int_mult)
  next
    case 4
    then have r: "rest it = 0 # word_of_int type # word_of_int name # q" using \<open>rest it = _\<close> f by (simp add: field_bytes_def)
    have u: "uint (word_of_int type :: u8) = type" "uint (word_of_int name :: u8) = name" using 4 v by (auto intro!: uint_byte)
    note a = step [OF \<open>si_wf it\<close> r]
    note b = step [OF conjunct1 [OF a] conjunct2 [OF a]]
    show ?thesis using 4 v get8_rest [of "advance 1 it"] get8_rest [of "advance 1 (advance 1 it)"] a b unfolding f
      by (simp add: getFieldID_def get8_rest [OF \<open>si_wf it\<close> r] u int_nibbles field_bytes_def numeral_3_eq_3 numeral_2_eq_2
          del: of_int_add of_int_mult)
  qed
qed

section \<open>Reading never leaves the buffer\<close>

text \<open>One step of a reader: any successful operation of the iterator.\<close>

inductive si_step :: "SerialIter \<Rightarrow> SerialIter \<Rightarrow> bool" where
  step_skip: "skip n it = Ok it' \<Longrightarrow> si_step it it'"
| step_reset: "si_step it (si_reset it)"
| step_get8: "get8 it = Ok (b, it') \<Longrightarrow> si_step it it'"
| step_get16: "get16 it = Ok (v, it') \<Longrightarrow> si_step it it'"
| step_get32: "get32 it = Ok (w, it') \<Longrightarrow> si_step it it'"
| step_get64: "get64 it = Ok (x, it') \<Longrightarrow> si_step it it'"
| step_get160: "getBitString it = Ok (u :: uint160, it') \<Longrightarrow> si_step it it'"
| step_get256: "getBitString it = Ok (y :: uint256, it') \<Longrightarrow> si_step it it'"
| step_getFieldID: "getFieldID it = Ok (f, it') \<Longrightarrow> si_step it it'"
| step_getRaw: "getRaw n it = Ok (r, it') \<Longrightarrow> si_step it it'"
| step_getVLDataLength: "getVLDataLength it = Ok (l, it') \<Longrightarrow> si_step it it'"
| step_getVL: "getVL it = Ok (r, it') \<Longrightarrow> si_step it it'"

definition moves :: "SerialIter \<Rightarrow> SerialIter \<Rightarrow> bool" where
  "moves it it' \<longleftrightarrow> (\<exists>n \<le> remain_f it. it' = advance n it)"

lemma moves_refl [simp]: "moves it it"
  unfolding moves_def by (rule exI [of _ 0]) simp

lemma moves_trans: "moves it it' \<Longrightarrow> moves it' it'' \<Longrightarrow> moves it it''"
proof -
  assume "moves it it'" "moves it' it''"
  then obtain n m where "n \<le> remain_f it" "it' = advance n it" "m \<le> remain_f it'" "it'' = advance m it'"
    by (auto simp: moves_def)
  then show ?thesis unfolding moves_def by (intro exI [of _ "n + m"]) (auto simp: advance_def)
qed

lemma moves_advance: "n \<le> remain_f it \<Longrightarrow> moves it (advance n it)"
  by (auto simp: moves_def)

lemma moves_wf: "moves it it' \<Longrightarrow> si_wf it \<Longrightarrow> si_wf it' \<and> buf it' = buf it"
  by (auto simp: moves_def si_wf_def advance_def)

lemma get8_moves: "get8 it = Ok (b, it') \<Longrightarrow> moves it it'"
  by (auto simp: get8_def moves_def split: if_splits intro!: exI [of _ 1])

lemma getRaw_moves: "getRaw n it = Ok (b, it') \<Longrightarrow> moves it it'"
  by (auto simp: getRaw_def moves_def split: if_splits intro!: exI [of _ "nat n"])

lemma getFieldID_moves: "getFieldID it = Ok (f, it') \<Longrightarrow> moves it it'"
  by (auto simp: getFieldID_def Let_def split: if_splits dest!: get8_moves intro: moves_trans)

lemma getVLDataLength_moves: "getVLDataLength it = Ok (f, it') \<Longrightarrow> moves it it'"
  by (auto simp: getVLDataLength_def split: if_splits dest!: get8_moves intro: moves_trans)

lemma si_step_moves: "si_step it it' \<Longrightarrow> si_wf it \<Longrightarrow> moves it it' \<or> it' = SerialIter_make (buf it)"
proof (induction rule: si_step.induct)
  case (step_getVL it r it')
  then show ?case by (auto simp: getVL_def dest!: getVLDataLength_moves getRaw_moves intro: moves_trans)
qed (auto simp: skip_def get16_def get32_def get64_def getBitString_def Let_def reset_make split: if_splits intro!: moves_advance
       dest!: get8_moves getRaw_moves getFieldID_moves getVLDataLength_moves)

section \<open>Properties\<close>

text \<open>
  A reader never leaves its buffer: after any sequence of successful reads, skips and resets
  the three counters of the iterator are consistent (\<open>p_\<close> is \<open>used_\<close> bytes into the same buffer
  and \<open>used_ + remain_\<close> is its length), so every byte read lies inside the buffer.
\<close>
theorem iterator_stays_in_buffer:
  assumes "si_step\<^sup>*\<^sup>* (SerialIter_make d) it"
  shows "buf it = d \<and> p_f it = used_f it \<and> used_f it + remain_f it = length d"
proof -
  from assms have "si_wf it \<and> buf it = d"
  proof (induction rule: rtranclp_induct)
    case base then show ?case by (simp add: SerialIter_make_def si_wf_def)
  next
    case (step it1 it2)
    with si_step_moves [of it1 it2] moves_wf [of it1 it2] show ?case
      by (auto simp: SerialIter_make_def si_wf_def)
  qed
  then show ?thesis by (auto simp: si_wf_def)
qed

theorem iterator_stays_in_buffer_witness:
  "\<exists>it. si_step\<^sup>*\<^sup>* (SerialIter_make [1, 2]) it \<and> used_f it + remain_f it = length [1, 2 :: u8]"
proof -
  have "si_step\<^sup>*\<^sup>* (SerialIter_make [1, 2]) (SerialIter_make [1, 2])" by simp
  with iterator_stays_in_buffer [OF this] show ?thesis by blast
qed

text \<open>
  Variable-length fields round-trip: a blob of at most 918744 bytes is written by \<open>addVL\<close>
  (its own assertion holds) and read back by \<open>getVL\<close> whatever follows it, leaving the reader just
  behind it; a longer blob is refused with an overflow error.
\<close>
theorem vl_roundtrip:
  "(if length v \<le> 918744
    then \<exists>p. addVL v s = Ok (int (length (mData s)), s\<lparr>mData := mData s @ p\<rparr>) \<and>
      getVL (SerialIter_make (p @ q)) = Ok (v, advance (length p) (SerialIter_make (p @ q)))
    else addVL v s = Throw (OverflowError ''lenlen''))"
proof (cases "vl_valid v")
  case True
  from cvl.add_enc [OF this] cvl.get_enc [OF this, of "SerialIter_make ((vl_prefix (int (length v)) @ v) @ q)" q] True
  show ?thesis by (auto simp: vl_valid_def)
next
  case False
  then show ?thesis by (simp add: vl_valid_def addVL_def addEncoded_def)
qed

text \<open>
  Field identifiers round-trip: every type and name code from 1 to 255 is written in its one,
  two or three byte form by \<open>addFieldID\<close> and \<open>getFieldID\<close> reads exactly that pair and no byte
  more, so no two identifiers share a prefix.
\<close>
theorem field_id_roundtrip:
  assumes "0 < type" "type < 256" "0 < name" "name < 256"
  shows "\<exists>p. addFieldID (type, name) s = Ok (int (length (mData s)), s\<lparr>mData := mData s @ p\<rparr>) \<and>
    length p \<le> 3 \<and>
    getFieldID (SerialIter_make (p @ q)) = Ok ((type, name), advance (length p) (SerialIter_make (p @ q)))"
proof -
  have v: "field_valid (type, name)" using assms by (simp add: field_valid_def)
  from cfid.add_enc [OF v] cfid.get_enc [OF v, of "SerialIter_make (field_bytes (type, name) @ q)" q]
  show ?thesis by (intro exI [of _ "field_bytes (type, name)"]) (simp add: field_bytes_def)
qed

theorem field_id_roundtrip_witness:
  "\<exists>p. addFieldID (16, 3) \<lparr>mData = []\<rparr> = Ok (0, \<lparr>mData = p\<rparr>) \<and>
     getFieldID (SerialIter_make p) = Ok ((16, 3), advance (length p) (SerialIter_make p))"
  using field_id_roundtrip [of 16 3 "\<lparr>mData = []\<rparr>" "[]"] by auto

text \<open>
  Sequences of 64-bit integers and of 256-bit hashes round-trip: what was written value by
  value is read back as the same list, and the reader ends exactly at the end of the buffer.
\<close>
theorem integer_sequence_roundtrip:
  "\<exists>s t i j. add_all add64 xs \<lparr>mData = []\<rparr> = Ok s \<and>
     get_all get64 (length xs) (SerialIter_make (mData s)) = Ok (xs, i) \<and> si_empty i \<and>
     add_all addBitString (hs :: uint256 list) \<lparr>mData = []\<rparr> = Ok t \<and>
     get_all getBitString (length hs) (SerialIter_make (mData t)) = Ok (hs, j) \<and> si_empty j"
  using c64.add_all_enc [of xs "\<lparr>mData = []\<rparr>"] c64.sequence_roundtrip [of xs]
    c256.add_all_enc [of hs "\<lparr>mData = []\<rparr>"] c256.sequence_roundtrip [of hs] by (metis (no_types, lifting))

text \<open>
  \<open>getVL\<close> and \<open>getVLLength\<close> of \<open>Serializer\<close>, which report malformed input by returning
  \<open>false\<close>, throw when the length byte is 255, and on no other input.
\<close>
theorem getVLLength_throws_iff:
  "(\<exists>x. ser_getVLLength s offset = Throw x) \<longleftrightarrow> offset < length (mData s) \<and> mData s ! offset = 255"
proof -
  have b: "uint (b :: u8) < 256" for b using uint_lt2p [of b] by simp
  have "decodeLengthLength (uint b) = Throw x \<Longrightarrow> b = 255" for b :: u8 and x
    using b [of b] by (auto simp: decodeLengthLength_def split: if_splits) (simp add: word_uint_eq_iff)
  moreover have "\<exists>x. decodeLengthLength (uint (255 :: u8)) = Throw x" by (simp add: decodeLengthLength_def)
  ultimately show ?thesis
    by (auto simp: ser_getVLLength_def ser_get8_def Let_def rbind_eq_Throw split: sum.splits if_splits)
qed

end
