(* ===== verification/Amount_Wire.thy ===== *)
theory Amount_Wire
  imports Quality Serializer
begin

text \<open>
  The wire format of amounts: \<open>STAmount::add (Serializer&)\<close> and the constructor
  \<open>STAmount (SerialIter&, SField const&)\<close> of \<open>protocol/impl/STAmount.cpp\<close>. The two are shown to
  be a codec in the sense of theory \<open>Serializer\<close>.
\<close>

section \<open>Writing and reading\<close>

definition amount_word :: "STAmount \<Rightarrow> u64" where
  "amount_word a =
     (if mIsNative a then
        (if \<not> mIsNegative a then
           (if isVBC a then mValue a OR cVBCNative OR cPosNative else mValue a OR cPosNative)
         else (if isVBC a then mValue a OR cVBCNative else mValue a))
      else if is_zero a then cNotNative
      else if mIsNegative a then mValue a OR push_bit (64 - 10) (word_of_int (mOffset a + 512 + 97))
      else mValue a OR push_bit (64 - 10) (word_of_int (mOffset a + 512 + 256 + 97)))"

definition STAmount_add :: "STAmount \<Rightarrow> Serializer \<Rightarrow> (int \<times> Serializer) res" where
  "STAmount_add a s =
     (if mIsNative a then
        rbind (require (mOffset a = 0) AssertFailed) (\<lambda>_. add64 (amount_word a) s)
      else
        rbind (add64 (amount_word a) s) (\<lambda>(ret, s1).
        rbind (addBitString (currency (mIssue a)) s1) (\<lambda>(_, s2).
        rbind (addBitString (account (mIssue a)) s2) (\<lambda>(_, s3). Ok (ret, s3)))))"

definition STAmount_of_words :: "u64 \<Rightarrow> Issue \<Rightarrow> STAmount res" where
  "STAmount_of_words value0 issue =
     (let offset = uint (drop_bit (64 - 10) value0);
          v = value0 AND NOT (push_bit (64 - 10) 1023)
      in if v \<noteq> 0 then
           let isNegative = (offset AND 256 = 0);
               off = (offset AND 255) - 97
           in if v < cMinValue \<or> v > cMaxValue \<or> off < cMinOffset \<or> off > cMaxOffset
              then Throw (RuntimeError ''invalid currency value'')
              else canonicalize \<lparr>mIssue = issue, mValue = v, mOffset = off, mIsNative = False, mIsNegative = isNegative\<rparr>
         else if offset \<noteq> 512 then Throw (RuntimeError ''invalid currency value'')
         else canonicalize \<lparr>mIssue = issue, mValue = 0, mOffset = 0, mIsNative = False, mIsNegative = False\<rparr>)"

definition STAmount_native_of_word :: "u64 \<Rightarrow> STAmount res" where
  "STAmount_native_of_word value0 =
     (let vbc = (value0 AND cVBCNative \<noteq> 0);
          issue = (if vbc then vbcIssue else xrpIssue);
          v = (if vbc then value0 AND NOT cVBCNative else value0)
      in if v AND cPosNative \<noteq> 0 then
           Ok \<lparr>mIssue = issue, mValue = v AND NOT cPosNative, mOffset = 0, mIsNative = True, mIsNegative = False\<rparr>
         else if v = 0 then Throw (RuntimeError ''negative zero is not canonical'')
         else Ok \<lparr>mIssue = issue, mValue = v, mOffset = 0, mIsNative = True, mIsNegative = True\<rparr>)"

definition STAmount_get :: "SerialIter \<Rightarrow> (STAmount \<times> SerialIter) res" where
  "STAmount_get sit =
     rbind (get64 sit) (\<lambda>(value, sit1).
       if value AND cNotNative = 0 then
         rbind (STAmount_native_of_word value) (\<lambda>a. Ok (a, sit1))
       else
         rbind (getBitString sit1) (\<lambda>(cur, sit2).
         if isNative_cur cur then Throw (RuntimeError ''invalid native currency'')
         else
           rbind (getBitString sit2) (\<lambda>(acc, sit3).
           if isNative_acc acc then Throw (RuntimeError ''invalid native account'')
           else
             rbind (STAmount_of_words value \<lparr>currency = cur, account = acc\<rparr>) (\<lambda>a. Ok (a, sit3)))))"

section \<open>Packing\<close>

text \<open>Amounts that have a wire form: proper ones whose issue the reader accepts.\<close>

definition wire_ok :: "STAmount \<Rightarrow> bool" where
  "wire_ok a \<longleftrightarrow> proper a \<and>
     (if mIsNative a then mIssue a = xrpIssue \<or> mIssue a = vbcIssue else \<not> isNative_acc (account (mIssue a)))"

definition amount_bytes :: "STAmount \<Rightarrow> blob" where
  "amount_bytes a = word_bytes (amount_word a) @
     (if mIsNative a then [] else word_bytes (currency (mIssue a)) @ word_bytes (account (mIssue a)))"

lemma flag_bits: "cVBCNative = 2 ^ 61" "cPosNative = 2 ^ 62" "cNotNative = 2 ^ 63"
  by (simp_all add: cVBCNative_def cPosNative_def cNotNative_def)

lemma clear_flag: "\<not> bit v n \<Longrightarrow> (v OR 2 ^ n) AND NOT (2 ^ n) = (v :: u64)"
  by (rule bit_word_eqI) (auto simp: bit_simps)

lemma clear_flag2: "\<not> bit v m \<Longrightarrow> m \<noteq> n \<Longrightarrow> (v OR 2 ^ m OR 2 ^ n) AND NOT (2 ^ m) = (v OR 2 ^ n :: u64)"
  by (rule bit_word_eqI) (auto simp: bit_simps)

lemma bit_flag: "m < 64 \<Longrightarrow> bit (v OR 2 ^ n :: u64) m \<longleftrightarrow> bit v m \<or> m = n"
  by (auto simp: bit_simps)

lemma bit_flag2: "m < 64 \<Longrightarrow> bit (v OR 2 ^ a OR 2 ^ b :: u64) m \<longleftrightarrow> bit v m \<or> m = a \<or> m = b"
  by (auto simp: bit_simps)

lemma flag_nonzero: "n < 64 \<Longrightarrow> v OR 2 ^ n \<noteq> (0 :: u64)"
  using bit_flag [of n v n] by auto

lemma native_word:
  assumes v: "unat v < 2 ^ 61" "v \<noteq> 0 \<or> \<not> neg"
    and w: "w = (if \<not> neg then (if vbc then v OR cVBCNative OR cPosNative else v OR cPosNative)
       else (if vbc then v OR cVBCNative else v))"
  shows "STAmount_native_of_word w =
    Ok \<lparr>mIssue = (if vbc then vbcIssue else xrpIssue), mValue = v, mOffset = 0, mIsNative = True, mIsNegative = neg\<rparr>"
    and "w AND cNotNative = 0"
proof -
  have b: "\<not> bit v 61" "\<not> bit v 62" "\<not> bit v 63" using small_word_bits [OF v(1)] by fastforce+
  have w': "w = (if \<not> neg then (if vbc then v OR 2 ^ 61 OR 2 ^ 62 else v OR 2 ^ 62) else (if vbc then v OR 2 ^ 61 else v))"
    unfolding w flag_bits ..
  have "\<not> bit w 63" using b unfolding w'
    by (cases vbc; cases neg) (simp_all only: bit_or_iff bit_exp_iff if_True if_False not_True_eq_False not_False_eq_True simp_thms, simp_all)
  then show "w AND cNotNative = 0" unfolding flag_bits and_exp_eq_0_iff_not_bit .
  show "STAmount_native_of_word w =
    Ok \<lparr>mIssue = (if vbc then vbcIssue else xrpIssue), mValue = v, mOffset = 0, mIsNative = True, mIsNegative = neg\<rparr>"
    unfolding STAmount_native_of_word_def w' flag_bits and_exp_eq_0_iff_not_bit Let_def
    by (cases vbc; cases neg)
      (use b v(2) clear_flag [of v 61] clear_flag [of v 62] clear_flag2 [of v 61 62] bit_flag [of 61 v 62] bit_flag [of 61 v 61]
         bit_flag [of 62 v 62] bit_flag [of 62 v 61] bit_flag2 [of 61 v 61 62] flag_nonzero [of 62 v] flag_nonzero [of 61 v]
       in \<open>simp_all\<close>)
qed

lemma pack54:
  fixes v w :: u64
  assumes "unat v < 2 ^ 54" and "unat w < 1024"
  shows "drop_bit 54 (v OR push_bit 54 w) = w" and "(v OR push_bit 54 w) AND NOT (push_bit 54 1023) = v"
    and "bit (v OR push_bit 54 w) 63 = bit w 9"
proof -
  have w: "unat w < 2 ^ 10" using assms(2) by simp
  show "drop_bit 54 (v OR push_bit 54 w) = w"
  proof (rule bit_word_eqI)
    fix k assume "k < LENGTH(64)"
    show "bit (drop_bit 54 (v OR push_bit 54 w)) k = bit w k"
      using small_word_bits [OF assms(1), of "54 + k"] small_word_bits [OF w, of k] by (auto simp: bit_simps)
  qed
  have m: "(1023 :: u64) = mask 10" by (simp add: mask_numeral)
  show "(v OR push_bit 54 w) AND NOT (push_bit 54 1023) = v"
  proof (rule bit_word_eqI)
    fix k assume k: "k < LENGTH(64)"
    have "k < 54 \<or> \<not> bit v k" using small_word_bits [OF assms(1), of k] by auto
    then show "bit ((v OR push_bit 54 w) AND NOT (push_bit 54 1023)) k = bit v k"
      using k by (auto simp: bit_simps m)
  qed
  show "bit (v OR push_bit 54 w) 63 = bit w 9"
    using small_word_bits [OF assms(1), of 63] by (auto simp: bit_simps)
qed

lemma offset_fields:
  fixes e :: int
  assumes "-96 \<le> e" "e \<le> 80"
  shows "(e + 512 + 97) AND 256 = 0" "(e + 512 + 256 + 97) AND 256 \<noteq> 0"
    "((e + 512 + 97) AND 255) - 97 = e" "((e + 512 + 256 + 97) AND 255) - 97 = e"
proof -
  have "(x :: int) AND 2 ^ 8 = 0 \<longleftrightarrow> even (x div 256)" for x
    by (simp only: and_exp_eq_0_iff_not_bit) (simp add: bit_iff_odd)
  then have f: "(x :: int) AND 256 = 0 \<longleftrightarrow> even (x div 256)" for x by simp
  have d: "(e + 512 + 97) div 256 = 2" "(e + 512 + 256 + 97) div 256 = 3"
    using assms by linarith+
  show "(e + 512 + 97) AND 256 = 0" "(e + 512 + 256 + 97) AND 256 \<noteq> 0" unfolding f d by simp_all
  have "(e + 512 + 97) mod 256 = e + 97" "(e + 512 + 256 + 97) mod 256 = e + 97"
    using assms minus_div_mult_eq_mod [of "e + 512 + 97" 256] minus_div_mult_eq_mod [of "e + 512 + 256 + 97" 256] d by simp_all
  then show "((e + 512 + 97) AND 255) - 97 = e" "((e + 512 + 256 + 97) AND 255) - 97 = e"
    unfolding int_and_255 by simp_all
qed

lemma issued_word:
  assumes p: "proper a" "\<not> mIsNative a"
  shows "STAmount_of_words (amount_word a) (mIssue a) = Ok a" and "amount_word a AND cNotNative \<noteq> 0"
proof -
  have wf: "wf_amount a" "\<not> isNative a" using p by (auto simp: proper_def wf_amount_def)
  have eta: "\<lparr>mIssue = mIssue a, mValue = mValue a, mOffset = mOffset a, mIsNative = False, mIsNegative = mIsNegative a\<rparr> = a"
    using p(2) by (cases a) simp
  have "STAmount_of_words (amount_word a) (mIssue a) = Ok a \<and> bit (amount_word a) 63"
  proof (cases "mValue a = 0")
    case True
    then have z: "mOffset a = -100" "\<not> mIsNegative a" using wf by (auto simp: wf_amount_def canonical_issued_def)
    have c: "canonicalize \<lparr>mIssue = mIssue a, mValue = 0, mOffset = 0, mIsNative = False, mIsNegative = False\<rparr> = Ok a"
      using wf z eta True by (simp add: canonicalize_def canonicalize_issued_def isNative_alt)
    have w: "amount_word a = cNotNative" using True p by (simp add: amount_word_def)
    have d: "drop_bit 54 cNotNative = 512" "cNotNative AND NOT (push_bit 54 1023) = 0"
      using pack54 [of 0 512] by (simp_all add: cNotNative_def push_bit_eq_mult)
    have "bit cNotNative 63" unfolding flag_bits by (simp only: bit_exp_iff) simp
    moreover have "(64 - 10 :: nat) = 54" by simp
    ultimately show ?thesis using c unfolding w STAmount_of_words_def Let_def by (simp only: d) simp
  next
    case False
    then have b: "1000000000000000 \<le> unat (mValue a)" "unat (mValue a) \<le> 9999999999999999"
      "-96 \<le> mOffset a" "mOffset a \<le> 80" using wf by (auto simp: wf_amount_def canonical_issued_def)
    have v: "unat (mValue a) < 2 ^ 54" using b by simp
    let ?o = "if mIsNegative a then mOffset a + 512 + 97 else mOffset a + 512 + 256 + 97"
    have or: "0 \<le> ?o" "?o < 1024" "512 \<le> ?o" using b by auto
    obtain w :: u64 where w: "w = word_of_int ?o" by blast
    have u: "uint w = ?o" unfolding w using or by (intro uint_word_of_int_u64) auto
    then have un: "unat w < 1024" using or by (simp add: unat_eq_nat_uint)
    have aw: "amount_word a = mValue a OR push_bit 54 w" using False p unfolding w by (simp add: amount_word_def)
    have "bit (uint w) 9"
    proof -
      have "?o div 512 = 1" using or by linarith
      then have "odd (uint w div 2 ^ 9)" unfolding u by simp
      then show ?thesis unfolding bit_iff_odd .
    qed
    then have "bit w 9" by (simp add: bit_uint_iff)
    moreover have "STAmount_of_words (amount_word a) (mIssue a) = Ok a"
    proof -
      have "\<not> mValue a < cMinValue" "\<not> mValue a > cMaxValue"
        using b by (simp_all add: value_bounds)
      moreover have "canonicalize a = Ok a" by (rule canonicalize_proper [OF p(1)])
      ultimately show ?thesis using False pack54 [OF v un] offset_fields [OF b(3,4)] eta b(3,4)
        unfolding STAmount_of_words_def aw by (cases "mIsNegative a") (simp_all add: u Let_def cMinOffset_def cMaxOffset_def)
    qed
    ultimately show ?thesis using pack54 [OF v un] unfolding aw by simp
  qed
  then show "STAmount_of_words (amount_word a) (mIssue a) = Ok a" "amount_word a AND cNotNative \<noteq> 0"
    unfolding flag_bits and_exp_eq_0_iff_not_bit by simp_all
qed

section \<open>The amount codec\<close>

interpretation camt: codec STAmount_add STAmount_get amount_bytes wire_ok
proof (unfold_locales, goal_cases)
  case (1 a s)
  then show ?case
    by (auto simp: STAmount_add_def amount_bytes_def c64.add_enc c160.add_enc wire_ok_def proper_def wf_amount_def)
next
  case (2 a it q)
  show ?case
  proof (cases "mIsNative a")
    case True
    let ?v = "isVBC a"
    have i: "mIssue a = (if ?v then vbcIssue else xrpIssue)" and p: "proper a"
      using 2(1) True by (auto simp: wire_ok_def isVBC_def issue_defs)
    have m: "mOffset a = 0" "unat (mValue a) < 2 ^ 61" "mValue a \<noteq> 0 \<or> \<not> mIsNegative a"
      using p True by (auto simp: proper_def wf_amount_def)
    have "amount_word a = (if \<not> mIsNegative a then (if ?v then mValue a OR cVBCNative OR cPosNative else mValue a OR cPosNative)
       else (if ?v then mValue a OR cVBCNative else mValue a))" using True by (simp add: amount_word_def)
    note n = native_word [OF m(2,3) this]
    have "\<lparr>mIssue = (if ?v then vbcIssue else xrpIssue), mValue = mValue a, mOffset = 0, mIsNative = True, mIsNegative = mIsNegative a\<rparr> = a"
      using i m(1) True by (cases a) simp
    with n have "STAmount_native_of_word (amount_word a) = Ok a" by simp
    moreover have "get64 it = Ok (amount_word a, advance 8 it)"
      using c64.get_enc [of it "amount_word a" q] 2(2,3) True by (simp add: amount_bytes_def)
    ultimately show ?thesis using n(2) True by (simp add: STAmount_get_def amount_bytes_def)
  next
    case False
    let ?c = "currency (mIssue a)" and ?d = "account (mIssue a)" and ?w = "amount_word a"
    have r: "rest it = word_bytes ?w @ (word_bytes ?c @ word_bytes ?d @ q)" using 2(3) False by (simp add: amount_bytes_def)
    have g1: "get64 it = Ok (?w, advance 8 it)" using c64.get_enc [OF _ 2(2) r] by simp
    have a1: "si_wf (advance 8 it)" "rest (advance 8 it) = word_bytes ?c @ (word_bytes ?d @ q)"
      using advance_rest [OF 2(2) r] by simp_all
    have g2: "getBitString (advance 8 it) = Ok (?c, advance 20 (advance 8 it))" using c160.get_enc [OF _ a1] by simp
    have a2: "si_wf (advance 20 (advance 8 it))" "rest (advance 20 (advance 8 it)) = word_bytes ?d @ q"
      using advance_rest [OF a1] by simp_all
    have g3: "getBitString (advance 20 (advance 8 it)) = Ok (?d, advance 20 (advance 20 (advance 8 it)))"
      using c160.get_enc [OF _ a2] by simp
    have p: "proper a" "\<not> isNative_cur ?c" "\<not> isNative_acc ?d"
      using 2(1) False by (auto simp: wire_ok_def proper_def wf_amount_def isNative_alt isNative_issue_def)
    have "STAmount_of_words ?w \<lparr>currency = ?c, account = ?d\<rparr> = Ok a"
      using issued_word(1) [OF p(1) False] by (cases "mIssue a") simp
    with issued_word [OF p(1) False] p g1 g2 g3 False show ?thesis
      by (simp add: STAmount_get_def amount_bytes_def)
  qed
qed

section \<open>Properties\<close>

text \<open>
  C31. Amounts round-trip over the wire: every proper native or issued amount with an admissible
  issue is written without a failing assertion, as 8 bytes when native and 48 otherwise, and
  reading it back returns the same amount whatever bytes follow; different amounts have different
  encodings, none a prefix of another.
\<close>
theorem amount_wire_roundtrip:
  assumes "wire_ok a"
  shows "\<exists>p. STAmount_add a s = Ok (int (length (mData s)), s\<lparr>mData := mData s @ p\<rparr>) \<and>
    length p = (if mIsNative a then 8 else 48) \<and>
    STAmount_get (SerialIter_make (p @ q)) = Ok (a, advance (length p) (SerialIter_make (p @ q)))"
  using camt.add_enc [OF assms] camt.get_enc [OF assms, of "SerialIter_make (amount_bytes a @ q)" q]
  by (intro exI [of _ "amount_bytes a"]) (simp add: amount_bytes_def)

theorem amount_wire_roundtrip_witness:
  "wire_ok (STAmount_drops 5 False) \<and>
   (\<exists>p. STAmount_add (STAmount_drops 5 False) \<lparr>mData = []\<rparr> = Ok (0, \<lparr>mData = p\<rparr>) \<and>
     STAmount_get (SerialIter_make p) = Ok (STAmount_drops 5 False, advance (length p) (SerialIter_make p)))"
proof -
  have w: "wire_ok (STAmount_drops 5 False)"
    by (simp add: wire_ok_def proper_def wf_amount_def STAmount_drops_def isNative_def isXRP_def isVBC_def issue_defs)
  from amount_wire_roundtrip [OF w, of "\<lparr>mData = []\<rparr>" "[]"] w show ?thesis by auto
qed

text \<open>
  A native zero that kept its sign cannot be read back: canonicalizing a negative native
  amount below one unit gives a negative zero, \<open>STAmount::add\<close> writes it, and the reader refuses
  what was written.
\<close>
theorem negative_zero_unreadable:
  "\<exists>a s. STAmount_canonical xrpIssue 5 (-1) True = Ok a \<and> mValue a = 0 \<and> mIsNegative a \<and>
     STAmount_add a \<lparr>mData = []\<rparr> = Ok (0, s) \<and>
     STAmount_get (SerialIter_make (mData s)) = Throw (RuntimeError ''negative zero is not canonical'')"
proof -
  let ?a = "\<lparr>mIssue = xrpIssue, mValue = 0, mOffset = 0, mIsNative = True, mIsNegative = True\<rparr>"
  have c: "STAmount_canonical xrpIssue 5 (-1) True = Ok ?a"
    by (simp add: STAmount_canonical_def canonicalize_def isNative_def isXRP_def isVBC_def issue_defs canonicalize_native_def
        div10_up_to.simps mul10_down_to.simps amount_consts)
  have w: "amount_word ?a = 0" by (simp add: amount_word_def isVBC_def issue_defs)
  have s: "STAmount_add ?a \<lparr>mData = []\<rparr> = Ok (0, \<lparr>mData = word_bytes (0 :: u64)\<rparr>)"
    by (simp add: STAmount_add_def c64.add_enc w)
  have "get64 (SerialIter_make (word_bytes (0 :: u64))) = Ok (0, advance 8 (SerialIter_make (word_bytes (0 :: u64))))"
    using c64.get_enc [of "SerialIter_make (word_bytes (0 :: u64))" 0 "[]"] by simp
  then have "STAmount_get (SerialIter_make (word_bytes (0 :: u64))) = Throw (RuntimeError ''negative zero is not canonical'')"
    by (simp add: STAmount_get_def STAmount_native_of_word_def)
  with c s show ?thesis by auto
qed

end
