(* ===== verification/OrdMap.thy ===== *)
theory OrdMap
  imports Prelude
begin

text \<open>
  \<open>std::map\<close>: an association list in strictly increasing key order. Lookup is \<open>map_of\<close>;
  \<open>om_put\<close> is insertion or assignment at a key, \<open>om_del\<close> erasure, \<open>om_upper\<close> the range that
  starts at \<open>upper_bound\<close>. The components that iterate over a \<open>std::map\<close> use this order.
\<close>

section \<open>Operations\<close>

type_synonym ('k, 'v) omap = "('k \<times> 'v) list"

fun om_put :: "'k::linorder \<Rightarrow> 'v \<Rightarrow> ('k, 'v) omap \<Rightarrow> ('k, 'v) omap" where
  "om_put k v [] = [(k, v)]"
| "om_put k v ((k', v') # m) =
     (if k < k' then (k, v) # (k', v') # m
      else if k = k' then (k, v) # m
      else (k', v') # om_put k v m)"

definition om_del :: "'k \<Rightarrow> ('k, 'v) omap \<Rightarrow> ('k, 'v) omap" where
  "om_del k m = filter (\<lambda>(k', _). k' \<noteq> k) m"

definition om_upper :: "'k::linorder \<Rightarrow> ('k, 'v) omap \<Rightarrow> ('k, 'v) omap" where
  "om_upper k m = dropWhile (\<lambda>(k', _). k' \<le> k) m"

definition om_ok :: "('k::linorder, 'v) omap \<Rightarrow> bool" where
  "om_ok m \<longleftrightarrow> sorted_wrt (<) (map fst m)"

section \<open>Laws\<close>

lemma om_ok_Nil [simp]: "om_ok []" by (simp add: om_ok_def)

lemma om_ok_Cons: "om_ok ((k, v) # m) \<longleftrightarrow> (\<forall>(k', _) \<in> set m. k < k') \<and> om_ok m"
  by (auto simp: om_ok_def)

lemma om_ok_ConsD: "om_ok (x # m) \<Longrightarrow> om_ok m"
  by (simp add: om_ok_def)

lemma om_ok_distinct: "om_ok m \<Longrightarrow> distinct (map fst m)"
  by (induction m) (auto simp: om_ok_def)

lemma om_in_set: "om_ok m \<Longrightarrow> (k, v) \<in> set m \<longleftrightarrow> map_of m k = Some v"
  using om_ok_distinct [of m] by (simp add: map_of_eq_Some_iff)

lemma set_om_put: "set (om_put k v m) \<subseteq> insert (k, v) (set m)"
  by (induction m) (auto split: if_splits)

lemma om_put_ok: "om_ok m \<Longrightarrow> om_ok (om_put k v m)"
proof (induction m)
  case Nil then show ?case by (simp add: om_ok_def)
next
  case (Cons p m)
  obtain k' v' where p: "p = (k', v')" by fastforce
  from Cons.prems p have "om_ok m" and l: "\<forall>(q, _) \<in> set m. k' < q" by (auto simp: om_ok_Cons)
  with Cons.IH have "om_ok (om_put k v m)" by simp
  moreover have "k' < k \<Longrightarrow> \<forall>(q, _) \<in> set (om_put k v m). k' < q" using set_om_put [of k v m] l by auto
  ultimately show ?case using Cons.prems l p by (auto simp: om_ok_Cons intro: less_trans)
qed

lemma map_of_om_put [simp]: "om_ok m \<Longrightarrow> map_of (om_put k v m) = (map_of m)(k \<mapsto> v)"
proof (induction m)
  case Nil then show ?case by auto
next
  case (Cons p m)
  then show ?case by (cases p) (auto simp: om_ok_Cons fun_upd_twist)
qed

lemma om_del_ok: "om_ok m \<Longrightarrow> om_ok (om_del k m)"
  by (induction m) (auto simp: om_ok_def om_del_def)

lemma map_of_om_del [simp]: "map_of (om_del k m) = (map_of m)(k := None)"
  by (induction m) (auto simp: om_del_def fun_eq_iff)

lemma set_om_upper: "om_ok m \<Longrightarrow> set (om_upper k m) = {(k', v) \<in> set m. k < k'}"
proof (induction m)
  case Nil then show ?case by (simp add: om_upper_def)
next
  case (Cons p m)
  obtain k' v' where p: "p = (k', v')" by fastforce
  from Cons.prems p have o: "om_ok m" and l: "\<forall>(q, _) \<in> set m. k' < q" by (auto simp: om_ok_Cons)
  show ?case
  proof (cases "k' \<le> k")
    case True
    with Cons.IH o p show ?thesis by (auto simp: om_upper_def)
  next
    case False
    with l have "\<forall>(q, _) \<in> set m. k < q" by auto
    with False p show ?thesis by (auto simp: om_upper_def)
  qed
qed

lemma om_upper_ok: "om_ok m \<Longrightarrow> om_ok (om_upper k m)"
  by (induction m) (auto simp: om_upper_def om_ok_def)

lemma om_hd_least: "om_ok ((k, v) # m) \<Longrightarrow> (k', v') \<in> set m \<Longrightarrow> k < k'"
  by (auto simp: om_ok_Cons)

text \<open>An ordered map is determined by its lookup function.\<close>

lemma om_ext: "om_ok m \<Longrightarrow> om_ok n \<Longrightarrow> map_of m = map_of n \<Longrightarrow> m = n"
proof (induction m arbitrary: n)
  case Nil
  then show ?case by (metis list.exhaust map_of.simps(1) map_of_eq_empty_iff)
next
  case (Cons p m)
  obtain k v where p: "p = (k, v)" by fastforce
  from Cons.prems p obtain q n' where n: "n = q # n'" by (cases n) (auto dest: fun_cong [of _ _ k])
  obtain k' v' where q: "q = (k', v')" by fastforce
  have s: "set (p # m) = set (q # n')"
    using Cons.prems n map_of_inject_set [of "p # m" "q # n'"] om_ok_distinct by blast
  have kk: "k = k'"
  proof (rule ccontr)
    assume "k \<noteq> k'"
    then have "(k, v) \<in> set n'" "(k', v') \<in> set m" using s p q by auto
    then have "k' < k" "k < k'" using Cons.prems(1,2) p q n by (auto simp: om_ok_Cons)
    then show False by simp
  qed
  have "v = v'" using fun_cong [OF Cons.prems(3), of k] p q n kk by simp
  moreover have "map_of m = map_of n'"
  proof
    fix x
    have "x = k \<Longrightarrow> map_of m x = None \<and> map_of n' x = None"
      using Cons.prems(1,2) p q n kk om_ok_distinct [of "p # m"] om_ok_distinct [of n] by (auto simp: map_of_eq_None_iff)
    moreover have "x \<noteq> k \<Longrightarrow> map_of m x = map_of n' x" using fun_cong [OF Cons.prems(3), of x] p q n kk by simp
    ultimately show "map_of m x = map_of n' x" by (cases "x = k") auto
  qed
  ultimately show ?case using Cons.IH [of n'] Cons.prems n p q kk by (auto simp: om_ok_Cons)
qed

end
