(* ===== verification/StateTables.thy ===== *)
theory StateTables
  imports OrdMap Amount_Arith
begin

text \<open>
  The layered ledger views: \<open>ledger/detail/RawStateTable\<close> and \<open>ApplyStateTable\<close> buffer changes
  on top of a base \<open>ReadView\<close>; \<open>OpenView\<close> and \<open>ApplyViewBase\<close> (with \<open>Sandbox\<close>) are a base
  together with such a table, and committing replays the table into another view.

  A \<open>ReadView\<close> object is the record of its virtual functions; \<open>succ\<close> searches, and not returning
  is its value \<open>None\<close>. A ledger entry is its key, its
  type and its fields, the fields being a type parameter. The assertions of \<open>Keylet::check\<close>, of
  \<open>Ledger::read\<close> and of \<open>RawStateTable::exists\<close> are predicates of their own, kept apart from the
  value returned (the value is the one a build without assertions returns): a build with
  assertions returns the same value where the predicate holds and aborts where it does not.
  \<open>std::shared_ptr<SLE>\<close> is an address with the entry it points
  to, where the code compares pointers. Amounts of drops are integers (\<open>XRPAmount\<close>).
\<close>

section \<open>Entries, keylets and views\<close>

type_synonym key = uint256

record 'd SLE =
  sle_key :: key
  sle_type :: int
  sle_data :: 'd

definition ltANY :: int where "ltANY = -3"
definition ltCHILD :: int where "ltCHILD = -2"
definition ltINVALID :: int where "ltINVALID = -1"
definition ltDIR_NODE :: int where "ltDIR_NODE = 100"

record Keylet =
  kl_type :: int
  kl_key :: key

definition keylet_check :: "Keylet \<Rightarrow> 'd SLE \<Rightarrow> bool" where
  "keylet_check k sle =
     (if kl_type k = ltANY then True
      else if kl_type k = ltINVALID then False
      else if kl_type k = ltCHILD then sle_type sle \<noteq> ltDIR_NODE
      else sle_type sle = kl_type k)"

definition keylet_check_asserts :: "Keylet \<Rightarrow> 'd SLE \<Rightarrow> bool" where
  "keylet_check_asserts k sle =
     (if kl_type k = ltANY then True
      else if kl_type k = ltINVALID then True
      else if kl_type k = ltCHILD then sle_type sle \<noteq> ltDIR_NODE
      else sle_type sle = kl_type k)"

definition keylet_unchecked :: "key \<Rightarrow> Keylet" where
  "keylet_unchecked k = \<lparr>kl_type = ltANY, kl_key = k\<rparr>"

record 'd ReadView =
  v_exists :: "Keylet \<Rightarrow> bool"
  v_read :: "Keylet \<Rightarrow> 'd SLE option"
  v_succ :: "key \<Rightarrow> key option \<Rightarrow> key option option"
  v_exists_asserts :: "Keylet \<Rightarrow> bool"
  v_read_asserts :: "Keylet \<Rightarrow> bool"

text \<open>The state map of a closed ledger, \<open>app/ledger/Ledger.cpp\<close>.\<close>

definition ledger_exists :: "(key, 'd SLE) omap \<Rightarrow> Keylet \<Rightarrow> bool" where
  "ledger_exists m k \<longleftrightarrow> map_of m (kl_key k) \<noteq> None"

definition ledger_read :: "(key, 'd SLE) omap \<Rightarrow> Keylet \<Rightarrow> 'd SLE option" where
  "ledger_read m k =
     (if kl_key k = 0 then None
      else case map_of m (kl_key k) of
          None \<Rightarrow> None
        | Some sle \<Rightarrow> if \<not> keylet_check k sle then None else Some sle)"

definition ledger_exists_asserts :: "(key, 'd SLE) omap \<Rightarrow> Keylet \<Rightarrow> bool" where
  "ledger_exists_asserts m k \<longleftrightarrow> True"

definition ledger_read_asserts :: "(key, 'd SLE) omap \<Rightarrow> Keylet \<Rightarrow> bool" where
  "ledger_read_asserts m k =
     (if kl_key k = 0 then False
      else case map_of m (kl_key k) of None \<Rightarrow> True | Some sle \<Rightarrow> keylet_check_asserts k sle)"

definition ledger_succ :: "(key, 'd SLE) omap \<Rightarrow> key \<Rightarrow> key option \<Rightarrow> key option option" where
  "ledger_succ m k last' =
     (case om_upper k m of
        [] \<Rightarrow> Some None
      | (n, _) # _ \<Rightarrow> Some (case last' of Some l \<Rightarrow> if n \<ge> l then None else Some n | None \<Rightarrow> Some n))"

definition ledger_view :: "(key, 'd SLE) omap \<Rightarrow> 'd ReadView" where
  "ledger_view m = \<lparr>v_exists = ledger_exists m, v_read = ledger_read m, v_succ = ledger_succ m,
     v_exists_asserts = ledger_exists_asserts m, v_read_asserts = ledger_read_asserts m\<rparr>"

definition ledger_rawErase :: "'d SLE \<Rightarrow> (key, 'd SLE) omap \<Rightarrow> (key, 'd SLE) omap res" where
  "ledger_rawErase sle m =
     (if map_of m (sle_key sle) = None then Throw (LogicError ''Ledger::rawErase: key not found'')
      else Ok (om_del (sle_key sle) m))"

definition ledger_rawInsert :: "'d SLE \<Rightarrow> (key, 'd SLE) omap \<Rightarrow> (key, 'd SLE) omap res" where
  "ledger_rawInsert sle m =
     (if map_of m (sle_key sle) \<noteq> None then Throw (LogicError ''Ledger::rawInsert: key already exists'')
      else Ok (om_put (sle_key sle) sle m))"

definition ledger_rawReplace :: "'d SLE \<Rightarrow> (key, 'd SLE) omap \<Rightarrow> (key, 'd SLE) omap res" where
  "ledger_rawReplace sle m =
     (if map_of m (sle_key sle) = None then Throw (LogicError ''Ledger::rawReplace: key not found'')
      else Ok (om_put (sle_key sle) sle m))"

section \<open>RawStateTable\<close>

datatype RawAction = RawErase | RawInsert | RawReplace

record 'd RawStateTable =
  r_items :: "(key, RawAction \<times> 'd SLE) omap"
  r_dropsDestroyed :: int
  r_dropsCreated :: int
  r_dropsVBCCreated :: int

definition raw_empty :: "'d RawStateTable" where
  "raw_empty = \<lparr>r_items = [], r_dropsDestroyed = 0, r_dropsCreated = 0, r_dropsVBCCreated = 0\<rparr>"

definition raw_exists :: "'d RawStateTable \<Rightarrow> 'd ReadView \<Rightarrow> Keylet \<Rightarrow> bool" where
  "raw_exists t base k =
     (case map_of (r_items t) (kl_key k) of
        None \<Rightarrow> v_exists base k
      | Some (RawErase, _) \<Rightarrow> False
      | Some (_, sle) \<Rightarrow> keylet_check k sle)"

definition raw_read :: "'d RawStateTable \<Rightarrow> 'd ReadView \<Rightarrow> Keylet \<Rightarrow> 'd SLE option" where
  "raw_read t base k =
     (case map_of (r_items t) (kl_key k) of
        None \<Rightarrow> v_read base k
      | Some (RawErase, _) \<Rightarrow> None
      | Some (_, sle) \<Rightarrow> if \<not> keylet_check k sle then None else Some sle)"

definition raw_exists_asserts :: "'d RawStateTable \<Rightarrow> 'd ReadView \<Rightarrow> Keylet \<Rightarrow> bool" where
  "raw_exists_asserts t base k \<longleftrightarrow> kl_key k \<noteq> 0 \<and>
     (case map_of (r_items t) (kl_key k) of
        None \<Rightarrow> v_exists_asserts base k
      | Some (RawErase, _) \<Rightarrow> True
      | Some (_, sle) \<Rightarrow> keylet_check_asserts k sle)"

definition raw_read_asserts :: "'d RawStateTable \<Rightarrow> 'd ReadView \<Rightarrow> Keylet \<Rightarrow> bool" where
  "raw_read_asserts t base k =
     (case map_of (r_items t) (kl_key k) of
        None \<Rightarrow> v_read_asserts base k
      | Some (RawErase, _) \<Rightarrow> True
      | Some (_, sle) \<Rightarrow> keylet_check_asserts k sle)"

text \<open>
  The two searches of \<open>succ\<close>, shared by both tables: the first loop asks the base for the next
  key until it finds one that is not erased (it may run forever on a base that is not ordered, so
  its result is an option); the second finds the first item of the table behind the key that is
  not an erasure.
\<close>

partial_function (option) base_succ_loop ::
    "(key \<Rightarrow> bool) \<Rightarrow> 'd ReadView \<Rightarrow> key option \<Rightarrow> key \<Rightarrow> key option option" where
  "base_succ_loop erased base last' next =
     (case v_succ base next last' of
        None \<Rightarrow> None
      | Some None \<Rightarrow> Some None
      | Some (Some n) \<Rightarrow> if erased n then base_succ_loop erased base last' n else Some (Some n))"

declare base_succ_loop.simps [code]

definition merge_succ :: "key option \<Rightarrow> key option \<Rightarrow> key option \<Rightarrow> key option" where
  "merge_succ next own last' =
     (let n = (case own of
                 None \<Rightarrow> next
               | Some k \<Rightarrow> (case next of None \<Rightarrow> Some k | Some b \<Rightarrow> if b > k then Some k else Some b))
      in case (last', n) of (Some l, Some x) \<Rightarrow> if x \<ge> l then None else n | _ \<Rightarrow> n)"

definition raw_erased :: "'d RawStateTable \<Rightarrow> key \<Rightarrow> bool" where
  "raw_erased t k \<longleftrightarrow> (case map_of (r_items t) k of Some (RawErase, _) \<Rightarrow> True | _ \<Rightarrow> False)"

definition raw_own_succ :: "'d RawStateTable \<Rightarrow> key \<Rightarrow> key option" where
  "raw_own_succ t k =
     map_option fst (List.find (\<lambda>(_, v). fst v \<noteq> RawErase) (om_upper k (r_items t)))"

definition raw_succ :: "'d RawStateTable \<Rightarrow> 'd ReadView \<Rightarrow> key \<Rightarrow> key option \<Rightarrow> key option option" where
  "raw_succ t base k last' =
     (case base_succ_loop (raw_erased t) base last' k of
        None \<Rightarrow> None
      | Some next \<Rightarrow> Some (merge_succ next (raw_own_succ t k) last'))"

definition raw_erase :: "'d SLE \<Rightarrow> 'd RawStateTable \<Rightarrow> 'd RawStateTable res" where
  "raw_erase sle t =
     (let k = sle_key sle in
      case map_of (r_items t) k of
        None \<Rightarrow> Ok (t\<lparr>r_items := om_put k (RawErase, sle) (r_items t)\<rparr>)
      | Some (RawErase, _) \<Rightarrow> Throw (LogicError ''RawStateTable::erase: already erased'')
      | Some (RawInsert, _) \<Rightarrow> Ok (t\<lparr>r_items := om_del k (r_items t)\<rparr>)
      | Some (RawReplace, _) \<Rightarrow> Ok (t\<lparr>r_items := om_put k (RawErase, sle) (r_items t)\<rparr>))"

definition raw_insert :: "'d SLE \<Rightarrow> 'd RawStateTable \<Rightarrow> 'd RawStateTable res" where
  "raw_insert sle t =
     (let k = sle_key sle in
      case map_of (r_items t) k of
        None \<Rightarrow> Ok (t\<lparr>r_items := om_put k (RawInsert, sle) (r_items t)\<rparr>)
      | Some (RawErase, _) \<Rightarrow> Ok (t\<lparr>r_items := om_put k (RawReplace, sle) (r_items t)\<rparr>)
      | Some (RawInsert, _) \<Rightarrow> Throw (LogicError ''RawStateTable::insert: already inserted'')
      | Some (RawReplace, _) \<Rightarrow> Throw (LogicError ''RawStateTable::insert: already exists''))"

definition raw_replace :: "'d SLE \<Rightarrow> 'd RawStateTable \<Rightarrow> 'd RawStateTable res" where
  "raw_replace sle t =
     (let k = sle_key sle in
      case map_of (r_items t) k of
        None \<Rightarrow> Ok (t\<lparr>r_items := om_put k (RawReplace, sle) (r_items t)\<rparr>)
      | Some (RawErase, _) \<Rightarrow> Throw (LogicError ''RawStateTable::replace: was erased'')
      | Some (a, _) \<Rightarrow> Ok (t\<lparr>r_items := om_put k (a, sle) (r_items t)\<rparr>))"

definition raw_destroyXRP :: "int \<Rightarrow> 'd RawStateTable \<Rightarrow> 'd RawStateTable" where
  "raw_destroyXRP fee t = t\<lparr>r_dropsDestroyed := r_dropsDestroyed t + fee\<rparr>"

definition raw_createXRP :: "int \<Rightarrow> 'd RawStateTable \<Rightarrow> 'd RawStateTable" where
  "raw_createXRP d t = t\<lparr>r_dropsCreated := r_dropsCreated t + d\<rparr>"

definition raw_createVBC :: "int \<Rightarrow> 'd RawStateTable \<Rightarrow> 'd RawStateTable" where
  "raw_createVBC d t = t\<lparr>r_dropsVBCCreated := r_dropsVBCCreated t + d\<rparr>"

text \<open>A \<open>RawView\<close> that changes are replayed into: its virtual functions on a state \<open>'s\<close>.\<close>

record ('d, 's) RawView =
  rawErase :: "'d SLE \<Rightarrow> 's \<Rightarrow> 's res"
  rawInsert :: "'d SLE \<Rightarrow> 's \<Rightarrow> 's res"
  rawReplace :: "'d SLE \<Rightarrow> 's \<Rightarrow> 's res"
  rawDestroyXRP :: "int \<Rightarrow> 's \<Rightarrow> 's"
  rawCreateXRP :: "int \<Rightarrow> 's \<Rightarrow> 's"
  rawCreateVBC :: "int \<Rightarrow> 's \<Rightarrow> 's"

definition raw_action :: "('d, 's) RawView \<Rightarrow> RawAction \<Rightarrow> 'd SLE \<Rightarrow> 's \<Rightarrow> 's res" where
  "raw_action to a sle s =
     (case a of RawErase \<Rightarrow> rawErase to sle s | RawInsert \<Rightarrow> rawInsert to sle s | RawReplace \<Rightarrow> rawReplace to sle s)"

fun raw_apply_items :: "('d, 's) RawView \<Rightarrow> (key, RawAction \<times> 'd SLE) omap \<Rightarrow> 's \<Rightarrow> 's res" where
  "raw_apply_items to [] s = Ok s"
| "raw_apply_items to ((k, a, sle) # items) s = rbind (raw_action to a sle s) (raw_apply_items to items)"

definition raw_apply :: "'d RawStateTable \<Rightarrow> ('d, 's) RawView \<Rightarrow> 's \<Rightarrow> 's res" where
  "raw_apply t to s =
     raw_apply_items to (r_items t)
       (rawDestroyXRP to (r_dropsDestroyed t)
         (rawCreateVBC to (r_dropsVBCCreated t) (rawCreateXRP to (r_dropsCreated t) s)))"

text \<open>\<open>OpenView\<close> (and every other view that owns a \<open>RawStateTable\<close>) reads through its table.\<close>

definition open_view :: "'d RawStateTable \<Rightarrow> 'd ReadView \<Rightarrow> 'd ReadView" where
  "open_view t base = \<lparr>v_exists = raw_exists t base, v_read = raw_read t base, v_succ = raw_succ t base,
     v_exists_asserts = raw_exists_asserts t base, v_read_asserts = raw_read_asserts t base\<rparr>"

section \<open>What a view stands for\<close>

definition next_key :: "(key \<rightharpoonup> 'd SLE) \<Rightarrow> key \<Rightarrow> key option \<Rightarrow> key option" where
  "next_key m k last' =
     (let S = {x \<in> dom m. k < x \<and> (\<forall>l. last' = Some l \<longrightarrow> x < l)} in if S = {} then None else Some (Min S))"

definition typed :: "(key \<rightharpoonup> 'd SLE) \<Rightarrow> Keylet \<Rightarrow> bool" where
  "typed m k \<longleftrightarrow> (\<forall>s. m (kl_key k) = Some s \<longrightarrow> keylet_check k s)"

text \<open>The entry at the keylet's key, if there is one, passes the assertion of \<open>Keylet::check\<close>.\<close>

definition keylet_fits :: "(key \<rightharpoonup> 'd SLE) \<Rightarrow> Keylet \<Rightarrow> bool" where
  "keylet_fits m k \<longleftrightarrow> (\<forall>s. m (kl_key k) = Some s \<longrightarrow> keylet_check_asserts k s)"

definition checked_lookup :: "(key \<rightharpoonup> 'd SLE) \<Rightarrow> Keylet \<Rightarrow> 'd SLE option" where
  "checked_lookup m k =
     (case m (kl_key k) of None \<Rightarrow> None | Some s \<Rightarrow> if keylet_check k s then Some s else None)"

definition state_ok :: "(key \<rightharpoonup> 'd SLE) \<Rightarrow> bool" where
  "state_ok m \<longleftrightarrow> finite (dom m) \<and> m 0 = None \<and> (\<forall>k s. m k = Some s \<longrightarrow> sle_key s = k)"

locale read_view =
  fixes view :: "'d ReadView" and m :: "key \<rightharpoonup> 'd SLE"
  assumes state: "state_ok m"
    and read_law: "v_read view k = checked_lookup m k"
    and exists_law: "typed m k \<Longrightarrow> v_exists view k = (m (kl_key k) \<noteq> None)"
    and succ_law: "v_succ view x last' = Some (next_key m x last')"
    and read_asserts_law: "v_read_asserts view k \<longleftrightarrow> kl_key k \<noteq> 0 \<and> keylet_fits m k"
    and exists_asserts_law: "kl_key k \<noteq> 0 \<Longrightarrow> keylet_fits m k \<Longrightarrow> v_exists_asserts view k"

definition raw_overlay :: "'d RawStateTable \<Rightarrow> (key \<rightharpoonup> 'd SLE) \<Rightarrow> key \<rightharpoonup> 'd SLE" where
  "raw_overlay t m k =
     (case map_of (r_items t) k of None \<Rightarrow> m k | Some (RawErase, _) \<Rightarrow> None | Some (_, sle) \<Rightarrow> Some sle)"

definition raw_consistent :: "'d RawStateTable \<Rightarrow> (key \<rightharpoonup> 'd SLE) \<Rightarrow> bool" where
  "raw_consistent t m \<longleftrightarrow> om_ok (r_items t) \<and>
     (\<forall>k a s. map_of (r_items t) k = Some (a, s) \<longrightarrow>
        k \<noteq> 0 \<and> sle_key s = k \<and> (m k = None \<longleftrightarrow> a = RawInsert))"

lemma typed_fits: "typed m k \<Longrightarrow> keylet_fits m k"
  by (auto simp: typed_def keylet_fits_def keylet_check_def keylet_check_asserts_def split: if_splits)

lemma checked_lookup_typed: "typed m k \<Longrightarrow> checked_lookup m k = m (kl_key k)"
  by (auto simp: typed_def checked_lookup_def split: option.splits)

lemma next_key_Some:
  assumes "finite (dom m)"
  shows "next_key m k last' = Some n \<longleftrightarrow>
    n \<in> dom m \<and> k < n \<and> (\<forall>l. last' = Some l \<longrightarrow> n < l) \<and> (\<forall>x \<in> dom m. k < x \<longrightarrow> n \<le> x)"
proof -
  let ?S = "{x \<in> dom m. k < x \<and> (\<forall>l. last' = Some l \<longrightarrow> x < l)}"
  have f: "finite ?S" using assms by (rule rev_finite_subset) auto
  show ?thesis
  proof
    assume "next_key m k last' = Some n"
    then have ne: "?S \<noteq> {}" and n: "n = Min ?S" by (auto simp: next_key_def Let_def split: if_splits)
    from Min_in [OF f ne] n have i: "n \<in> ?S" by blast
    moreover have "n \<le> x" if "x \<in> dom m" "k < x" for x
    proof (cases "x \<in> ?S")
      case True then show ?thesis unfolding n using Min_le [OF f] by blast
    next
      case False
      with that obtain l where "last' = Some l" "\<not> x < l" by auto
      with i show ?thesis by auto
    qed
    ultimately show "n \<in> dom m \<and> k < n \<and> (\<forall>l. last' = Some l \<longrightarrow> n < l) \<and> (\<forall>x \<in> dom m. k < x \<longrightarrow> n \<le> x)" by blast
  next
    assume a: "n \<in> dom m \<and> k < n \<and> (\<forall>l. last' = Some l \<longrightarrow> n < l) \<and> (\<forall>x \<in> dom m. k < x \<longrightarrow> n \<le> x)"
    then have "n \<in> ?S" by blast
    moreover have "Min ?S = n" using a by (intro Min_eqI [OF f]) auto
    ultimately show "next_key m k last' = Some n" by (auto simp: next_key_def Let_def)
  qed
qed

lemma next_key_None:
  "next_key m k last' = None \<longleftrightarrow> (\<forall>x \<in> dom m. k < x \<longrightarrow> (\<exists>l. last' = Some l \<and> l \<le> x))"
  by (auto simp: next_key_def Let_def)

section \<open>Searching for the next key\<close>

lemma merge_next_key:
  assumes "finite (dom a)" "finite (dom b)"
  shows "merge_succ (next_key a k last') (next_key b k None) last' = next_key (a ++ b) k last'"
proof -
  have f: "finite (dom (a ++ b))" using assms by simp
  show ?thesis
  proof (cases "next_key b k None")
    case None
    then have nb: "\<forall>x \<in> dom b. \<not> k < x" by (simp add: next_key_None)
    show ?thesis
    proof (cases "next_key a k last'")
      case N: None
      then have "next_key (a ++ b) k last' = None" using nb unfolding next_key_None by auto
      then show ?thesis using None N by (simp add: merge_succ_def Let_def split: option.splits)
    next
      case (Some n)
      from Some [unfolded next_key_Some [OF assms(1)]] nb have "next_key (a ++ b) k last' = Some n"
        unfolding next_key_Some [OF f] by (auto simp: dom_def)
      with Some [unfolded next_key_Some [OF assms(1)]] show ?thesis
        using None Some by (auto simp: merge_succ_def Let_def split: option.splits)
    qed
  next
    case (Some y)
    note y = Some [unfolded next_key_Some [OF assms(2)]]
    show ?thesis
    proof (cases "next_key a k last'")
      case N: None
      show ?thesis
      proof (cases "\<exists>l. last' = Some l \<and> l \<le> y")
        case True
        with N y have "next_key (a ++ b) k last' = None" unfolding next_key_None by fastforce
        then show ?thesis using N Some True by (auto simp: merge_succ_def Let_def)
      next
        case False
        with N y have "next_key (a ++ b) k last' = Some y"
          unfolding next_key_Some [OF f] next_key_None by (auto simp: not_le dest: less_le_trans)
        then show ?thesis using N Some False by (auto simp: merge_succ_def Let_def split: option.splits)
      qed
    next
      case A: (Some n)
      note n = A [unfolded next_key_Some [OF assms(1)]]
      let ?m = "if n > y then y else n"
      have "next_key (a ++ b) k last' = Some ?m" unfolding next_key_Some [OF f] using n y by auto
      then show ?thesis using A Some n by (cases "n > y") (auto simp: merge_succ_def Let_def split: option.splits)
    qed
  qed
qed

lemma find_next_key:
  assumes "om_ok items"
  shows "map_option fst (List.find (\<lambda>(_, v). P v) (om_upper k items)) =
    next_key (\<lambda>x. case map_of items x of Some v \<Rightarrow> if P v then Some (f v) else None | None \<Rightarrow> None) k None"
    (is "_ = next_key ?m k None")
proof -
  have fin: "finite (dom ?m)"
    by (rule finite_subset [of _ "dom (map_of items)"]) (auto simp: finite_dom_map_of split: option.splits if_splits)
  have d: "x \<in> dom ?m \<longleftrightarrow> (\<exists>v. (x, v) \<in> set items \<and> P v)" for x
    using om_in_set [OF assms] by (auto split: option.splits if_splits)
  have u: "set (om_upper k items) = {(k', v) \<in> set items. k < k'}" by (rule set_om_upper [OF assms])
  show ?thesis
  proof (cases "List.find (\<lambda>(_, v). P v) (om_upper k items)")
    case None
    then have "\<forall>x \<in> dom ?m. \<not> k < x" unfolding find_None_iff using d u by fastforce
    then have "next_key ?m k None = None" unfolding next_key_None by blast
    then show ?thesis using None by simp
  next
    case (Some p)
    obtain n v where p: "p = (n, v)" by fastforce
    from Some obtain i where i: "i < length (om_upper k items)" "om_upper k items ! i = (n, v)" "P v"
      "\<forall>j<i. \<not> P (snd (om_upper k items ! j))" unfolding find_Some_iff p case_prod_beta by (metis snd_conv)
    have inu: "(n, v) \<in> set (om_upper k items)" using i(1,2) by (metis nth_mem)
    have "next_key ?m k None = Some n" unfolding next_key_Some [OF fin]
    proof (intro conjI ballI impI)
      show "n \<in> dom ?m" using inu u i(3) d by blast
      show "k < n" using inu u by blast
      fix x assume x: "x \<in> dom ?m" "k < x"
      then obtain w where w: "(x, w) \<in> set (om_upper k items)" "P w" using d u by blast
      then obtain j where j: "j < length (om_upper k items)" "om_upper k items ! j = (x, w)" by (auto simp: in_set_conv_nth)
      then have "i \<le> j" using i(4) w(2) by (metis not_le snd_conv)
      moreover have "sorted_wrt (<) (map fst (om_upper k items))" using om_upper_ok [OF assms] by (simp add: om_ok_def)
      ultimately show "n \<le> x" using i(1,2) j sorted_wrt_nth_less [of "(<)" "map fst (om_upper k items)" i j]
        by (cases "i = j") auto
    qed simp
    then show ?thesis using Some p by simp
  qed
qed

context read_view
begin

lemma base_loop: "base_succ_loop erased view last' k = Some (next_key (m |` {x. \<not> erased x}) k last')"
proof (induction "card {x \<in> dom m. k < x}" arbitrary: k rule: less_induct)
  case less
  let ?m = "m |` {x. \<not> erased x}"
  have fin: "finite (dom m)" using state by (simp add: state_ok_def)
  have fin': "finite (dom ?m)" by (rule finite_subset [OF _ fin]) (auto simp: dom_def restrict_map_def split: if_splits)
  have d: "x \<in> dom ?m \<longleftrightarrow> x \<in> dom m \<and> \<not> erased x" for x by (auto simp: restrict_map_def dom_def)
  show ?case
  proof (cases "next_key m k last'")
    case None
    then have "next_key ?m k last' = None" unfolding next_key_None using d by blast
    then show ?thesis using None by (simp add: base_succ_loop.simps succ_law)
  next
    case (Some n)
    note n = Some [unfolded next_key_Some [OF fin]]
    show ?thesis
    proof (cases "erased n")
      case False
      then have "next_key ?m k last' = Some n" unfolding next_key_Some [OF fin'] using n d by blast
      then show ?thesis using Some False by (simp add: base_succ_loop.simps [of _ _ _ k] succ_law)
    next
      case True
      have "{x \<in> dom m. n < x} \<subset> {x \<in> dom m. k < x}" using n by (auto dest: less_trans)
      then have "card {x \<in> dom m. n < x} < card {x \<in> dom m. k < x}"
        using fin by (intro psubset_card_mono) auto
      note IH = less [OF this]
      have "k < x \<longleftrightarrow> n < x" if "x \<in> dom ?m" for x
      proof
        assume "k < x"
        moreover have "x \<in> dom m" "x \<noteq> n" using that d [of x] True by auto
        ultimately have "n \<le> x" using n by blast
        with \<open>x \<noteq> n\<close> show "n < x" by simp
      next
        assume "n < x" with n show "k < x" by (meson less_trans)
      qed
      then have "{x \<in> dom ?m. k < x \<and> P x} = {x \<in> dom ?m. n < x \<and> P x}" for P by blast
      then have "next_key ?m k last' = next_key ?m n last'" by (simp add: next_key_def)
      then show ?thesis using Some True IH by (simp add: base_succ_loop.simps [of _ _ _ k] succ_law)
    qed
  qed
qed

lemma raw_layer:
  assumes c: "raw_consistent t m"
  shows "read_view (open_view t view) (raw_overlay t m)"
proof
  have fin: "finite (dom m)" and st: "m 0 = None" "\<And>k s. m k = Some s \<Longrightarrow> sle_key s = k"
    using state by (auto simp: state_ok_def)
  have it: "\<And>k a s. map_of (r_items t) k = Some (a, s) \<Longrightarrow> k \<noteq> 0 \<and> sle_key s = k \<and> (m k = None \<longleftrightarrow> a = RawInsert)"
    and ok: "om_ok (r_items t)" using c by (auto simp: raw_consistent_def)
  let ?o = "\<lambda>x. case map_of (r_items t) x of Some v \<Rightarrow> if fst v \<noteq> RawErase then Some (snd v) else None | None \<Rightarrow> None"
  have ov: "raw_overlay t m = (m |` {x. \<not> raw_erased t x}) ++ ?o"
    by (rule ext) (auto simp: raw_overlay_def map_add_def restrict_map_def raw_erased_def split: option.splits RawAction.splits prod.splits)
  have fo: "finite (dom ?o)"
    by (rule finite_subset [of _ "dom (map_of (r_items t))"]) (auto simp: finite_dom_map_of split: option.splits if_splits)
  have fm: "finite (dom (m |` {x. \<not> raw_erased t x}))" using fin by simp
  show "state_ok (raw_overlay t m)"
    unfolding state_ok_def
  proof (intro conjI allI impI)
    show "finite (dom (raw_overlay t m))" unfolding ov using fo fm by simp
    show "raw_overlay t m 0 = None" using st(1) it [of 0] by (auto simp: raw_overlay_def split: option.splits prod.splits)
    show "sle_key s = k" if "raw_overlay t m k = Some s" for k s
      using that st(2) it [of k] by (auto simp: raw_overlay_def split: option.splits prod.splits RawAction.splits)
  qed
  show "v_read (open_view t view) k = checked_lookup (raw_overlay t m) k" for k
    by (auto simp: open_view_def raw_read_def read_law checked_lookup_def raw_overlay_def split: option.splits RawAction.splits prod.splits)
  show "v_exists (open_view t view) k = (raw_overlay t m (kl_key k) \<noteq> None)" if "typed (raw_overlay t m) k" for k
    using that exists_law [of k]
    by (auto simp: open_view_def raw_exists_def raw_overlay_def typed_def split: option.splits RawAction.splits prod.splits)
  show "v_read_asserts (open_view t view) k \<longleftrightarrow> kl_key k \<noteq> 0 \<and> keylet_fits (raw_overlay t m) k" for k
    using read_asserts_law [of k] it [of "kl_key k"]
    by (auto simp: open_view_def raw_read_asserts_def raw_overlay_def keylet_fits_def split: option.splits RawAction.splits prod.splits)
  show "v_exists_asserts (open_view t view) k" if "kl_key k \<noteq> 0" "keylet_fits (raw_overlay t m) k" for k
    using that exists_asserts_law [of k]
    by (auto simp: open_view_def raw_exists_asserts_def raw_overlay_def keylet_fits_def split: option.splits RawAction.splits prod.splits)
  show "v_succ (open_view t view) x last' = Some (next_key (raw_overlay t m) x last')" for x last'
  proof -
    have "raw_own_succ t x = next_key ?o x None"
      unfolding raw_own_succ_def using find_next_key [OF ok, of "\<lambda>v. fst v \<noteq> RawErase" x snd]
      by simp
    then show ?thesis unfolding ov
      by (simp add: open_view_def raw_succ_def base_loop merge_next_key [OF fm fo])
  qed
qed

end

text \<open>A closed ledger is a view of its state map.\<close>

definition ledger_ok :: "(key, 'd SLE) omap \<Rightarrow> bool" where
  "ledger_ok l \<longleftrightarrow> om_ok l \<and> state_ok (map_of l)"

lemma ledger_read_view: "ledger_ok l \<Longrightarrow> read_view (ledger_view l) (map_of l)"
proof
  assume l: "ledger_ok l"
  then show "state_ok (map_of l)" by (simp add: ledger_ok_def)
  have z: "map_of l 0 = None" using l by (simp add: ledger_ok_def state_ok_def)
  have om: "om_ok l" and fin: "finite (dom (map_of l))" using l by (simp_all add: ledger_ok_def finite_dom_map_of)
  show "v_read (ledger_view l) k = checked_lookup (map_of l) k" for k
    using z by (auto simp: ledger_view_def ledger_read_def checked_lookup_def split: option.splits)
  show "v_exists (ledger_view l) k = (map_of l (kl_key k) \<noteq> None)" for k
    by (simp add: ledger_view_def ledger_exists_def)
  show "v_read_asserts (ledger_view l) k \<longleftrightarrow> kl_key k \<noteq> 0 \<and> keylet_fits (map_of l) k" for k
    by (auto simp: ledger_view_def ledger_read_asserts_def keylet_fits_def split: option.splits)
  show "v_exists_asserts (ledger_view l) k" for k
    by (simp add: ledger_view_def ledger_exists_asserts_def)
  show "v_succ (ledger_view l) x last' = Some (next_key (map_of l) x last')" for x last'
  proof -
    have "merge_succ None (next_key (map_of l) x None) last' = next_key (map_of l) x last'"
      using merge_next_key [of Map.empty "map_of l" x last'] fin by (simp add: next_key_def)
    moreover have "(\<lambda>y. case map_of l y of Some v \<Rightarrow> if True then Some (id v) else None | None \<Rightarrow> None) = map_of l"
      by (rule ext) (simp split: option.splits)
    then have "next_key (map_of l) x None = map_option fst (List.find (\<lambda>(_, v). True) (om_upper x l))"
      using find_next_key [OF om, of "\<lambda>_. True" x id] by simp
    moreover have "ledger_succ l x last' = Some (merge_succ None (map_option fst (List.find (\<lambda>(_, v). True) (om_upper x l))) last')"
      by (auto simp: ledger_succ_def merge_succ_def split: list.splits option.splits)
    ultimately show ?thesis by (simp add: ledger_view_def)
  qed
qed

section \<open>Changing a view\<close>

text \<open>
  The contract of a \<open>RawView\<close>: an entry can be erased or replaced where one is present and
  inserted where none is, and the view then shows exactly that change.
\<close>

locale raw_target =
  fixes to :: "('d, 's) RawView" and shows_map :: "'s \<Rightarrow> key \<rightharpoonup> 'd SLE" and inv :: "'s \<Rightarrow> bool"
  assumes erase_law: "inv s \<Longrightarrow> shows_map s (sle_key e) \<noteq> None \<Longrightarrow>
      \<exists>s'. rawErase to e s = Ok s' \<and> inv s' \<and> shows_map s' = (shows_map s)(sle_key e := None)"
    and insert_law: "inv s \<Longrightarrow> sle_key e \<noteq> 0 \<Longrightarrow> shows_map s (sle_key e) = None \<Longrightarrow>
      \<exists>s'. rawInsert to e s = Ok s' \<and> inv s' \<and> shows_map s' = (shows_map s)(sle_key e \<mapsto> e)"
    and replace_law: "inv s \<Longrightarrow> shows_map s (sle_key e) \<noteq> None \<Longrightarrow>
      \<exists>s'. rawReplace to e s = Ok s' \<and> inv s' \<and> shows_map s' = (shows_map s)(sle_key e \<mapsto> e)"
    and drops_law: "inv (rawDestroyXRP to d s) = inv s" "shows_map (rawDestroyXRP to d s) = shows_map s"
      "inv (rawCreateXRP to d s) = inv s" "shows_map (rawCreateXRP to d s) = shows_map s"
      "inv (rawCreateVBC to d s) = inv s" "shows_map (rawCreateVBC to d s) = shows_map s"
begin

text \<open>Replaying the items of a table, one by one.\<close>

lemma raw_items_commit:
  assumes "inv s" "om_ok items"
    and "\<And>k a e. map_of items k = Some (a, e) \<Longrightarrow> k \<noteq> 0 \<and> sle_key e = k \<and> (shows_map s k = None \<longleftrightarrow> a = RawInsert)"
  shows "\<exists>s'. raw_apply_items to items s = Ok s' \<and> inv s' \<and>
    shows_map s' = (\<lambda>k. case map_of items k of None \<Rightarrow> shows_map s k | Some (RawErase, _) \<Rightarrow> None | Some (_, e) \<Rightarrow> Some e)"
  using assms
proof (induction items arbitrary: s)
  case Nil then show ?case by simp
next
  case (Cons p items)
  obtain k a e where p: "p = (k, a, e)" by (cases p) auto
  have h: "k \<noteq> 0" "sle_key e = k" "shows_map s k = None \<longleftrightarrow> a = RawInsert" using Cons.prems(3) [of k a e] p by auto
  have "\<exists>s1. raw_action to a e s = Ok s1 \<and> inv s1 \<and> shows_map s1 = (shows_map s)(k := (if a = RawErase then None else Some e))"
  proof (cases a)
    case RawErase
    with erase_law [OF Cons.prems(1), of e] h show ?thesis by (simp add: raw_action_def)
  next
    case RawInsert
    with insert_law [OF Cons.prems(1), of e] h show ?thesis by (simp add: raw_action_def)
  next
    case RawReplace
    with replace_law [OF Cons.prems(1), of e] h show ?thesis by (simp add: raw_action_def)
  qed
  then obtain s1 where s1: "raw_action to a e s = Ok s1" "inv s1"
    "shows_map s1 = (shows_map s)(k := (if a = RawErase then None else Some e))" by blast
  have ok: "om_ok items" and nk: "map_of items k = None"
    using Cons.prems(2) p om_ok_distinct [of "p # items"] by (auto simp: om_ok_Cons map_of_eq_None_iff)
  have "k' \<noteq> 0 \<and> sle_key e' = k' \<and> (shows_map s1 k' = None \<longleftrightarrow> a' = RawInsert)"
    if i: "map_of items k' = Some (a', e')" for k' a' e'
  proof -
    have "k' \<noteq> k" using i nk by auto
    then show ?thesis using Cons.prems(3) [of k' a' e'] i p s1(3) by simp
  qed
  from Cons.IH [OF s1(2) ok this] obtain s' where "raw_apply_items to items s1 = Ok s'" "inv s'"
    "shows_map s' = (\<lambda>k. case map_of items k of None \<Rightarrow> shows_map s1 k | Some (RawErase, _) \<Rightarrow> None | Some (_, e) \<Rightarrow> Some e)" by blast
  then show ?case using s1 nk p
    by (intro exI [of _ s']) (auto simp: fun_eq_iff split: option.splits RawAction.splits prod.splits)
qed

lemma raw_commit:
  assumes "inv s" "raw_consistent t (shows_map s)"
  shows "\<exists>s'. raw_apply t to s = Ok s' \<and> inv s' \<and> shows_map s' = raw_overlay t (shows_map s)"
proof -
  let ?s = "rawDestroyXRP to (r_dropsDestroyed t) (rawCreateVBC to (r_dropsVBCCreated t) (rawCreateXRP to (r_dropsCreated t) s))"
  have s: "inv ?s" "shows_map ?s = shows_map s" using assms(1) by (simp_all add: drops_law)
  have "\<exists>s'. raw_apply_items to (r_items t) ?s = Ok s' \<and> inv s' \<and>
    shows_map s' = (\<lambda>k. case map_of (r_items t) k of None \<Rightarrow> shows_map ?s k | Some (RawErase, _) \<Rightarrow> None | Some (_, e) \<Rightarrow> Some e)"
    using assms(2) s by (intro raw_items_commit) (auto simp: raw_consistent_def)
  then show ?thesis unfolding raw_apply_def s(2) by (auto simp: raw_overlay_def fun_eq_iff)
qed

end

definition ledger_raw :: "('d, (key, 'd SLE) omap) RawView" where
  "ledger_raw = \<lparr>rawErase = ledger_rawErase, rawInsert = ledger_rawInsert, rawReplace = ledger_rawReplace,
     rawDestroyXRP = (\<lambda>_ m. m), rawCreateXRP = (\<lambda>_ m. m), rawCreateVBC = (\<lambda>_ m. m)\<rparr>"

definition open_raw :: "('d, 'd RawStateTable) RawView" where
  "open_raw = \<lparr>rawErase = raw_erase, rawInsert = raw_insert, rawReplace = raw_replace,
     rawDestroyXRP = raw_destroyXRP, rawCreateXRP = raw_createXRP, rawCreateVBC = raw_createVBC\<rparr>"

interpretation ledger_target: raw_target ledger_raw map_of om_ok
  by unfold_locales
    (auto simp: ledger_raw_def ledger_rawErase_def ledger_rawInsert_def ledger_rawReplace_def om_put_ok om_del_ok)

lemma raw_consistent_put:
  assumes "raw_consistent t m" "k \<noteq> 0" "sle_key e = k" "m k = None \<longleftrightarrow> a = RawInsert"
  shows "raw_consistent (t\<lparr>r_items := om_put k (a, e) (r_items t)\<rparr>) m"
  using assms by (auto simp: raw_consistent_def om_put_ok split: if_splits)

lemma raw_consistent_del: "raw_consistent t m \<Longrightarrow> raw_consistent (t\<lparr>r_items := om_del k (r_items t)\<rparr>) m"
  by (auto simp: raw_consistent_def om_del_ok split: if_splits)

lemma raw_overlay_put:
  "om_ok (r_items t) \<Longrightarrow> raw_overlay (t\<lparr>r_items := om_put k (a, e) (r_items t)\<rparr>) m =
   (raw_overlay t m)(k := (if a = RawErase then None else Some e))"
  by (auto simp: raw_overlay_def fun_eq_iff split: RawAction.splits)

lemma raw_overlay_del:
  "raw_overlay (t\<lparr>r_items := om_del k (r_items t)\<rparr>) m = (raw_overlay t m)(k := m k)"
  by (auto simp: raw_overlay_def fun_eq_iff)

interpretation open_target: raw_target open_raw "\<lambda>t. raw_overlay t m" "\<lambda>t. raw_consistent t m \<and> m 0 = None"
  for m
proof (unfold_locales, goal_cases)
  case (1 t e)
  let ?k = "sle_key e"
  from 1 have c: "raw_consistent t m" "om_ok (r_items t)" by (auto simp: raw_consistent_def)
  have k: "?k \<noteq> 0" using 1 by (auto simp: raw_overlay_def raw_consistent_def split: option.splits)
  from 1(2) consider "map_of (r_items t) ?k = None" "m ?k \<noteq> None"
    | e' where "map_of (r_items t) ?k = Some (RawInsert, e')" | e' where "map_of (r_items t) ?k = Some (RawReplace, e')"
    by (auto simp: raw_overlay_def split: option.splits RawAction.splits prod.splits)
  then show ?case
  proof cases
    case 2
    then have "m ?k = None" using c(1) by (auto simp: raw_consistent_def)
    with 2 1(1) show ?thesis
      by (simp add: open_raw_def raw_erase_def raw_consistent_del raw_overlay_del)
  qed (use 1(1) c k in \<open>simp_all add: open_raw_def raw_erase_def raw_consistent_put raw_overlay_put raw_consistent_def [of t]\<close>)
next
  case (2 t e)
  let ?k = "sle_key e"
  from 2 have c: "raw_consistent t m" "om_ok (r_items t)" by (auto simp: raw_consistent_def)
  from 2(3) consider "map_of (r_items t) ?k = None" "m ?k = None" | e' where "map_of (r_items t) ?k = Some (RawErase, e')"
    by (auto simp: raw_overlay_def split: option.splits RawAction.splits prod.splits)
  then show ?case
    by cases (use 2(1,2) c in \<open>simp_all add: open_raw_def raw_insert_def raw_consistent_put raw_overlay_put raw_consistent_def [of t]\<close>)
next
  case (3 t e)
  let ?k = "sle_key e"
  from 3 have c: "raw_consistent t m" "om_ok (r_items t)" by (auto simp: raw_consistent_def)
  have k: "?k \<noteq> 0" using 3 by (auto simp: raw_overlay_def raw_consistent_def split: option.splits)
  from 3(2) consider "map_of (r_items t) ?k = None" "m ?k \<noteq> None"
    | e' where "map_of (r_items t) ?k = Some (RawInsert, e')" | e' where "map_of (r_items t) ?k = Some (RawReplace, e')"
    by (auto simp: raw_overlay_def split: option.splits RawAction.splits prod.splits)
  then show ?case
    by cases (use 3(1) c k in \<open>simp_all add: open_raw_def raw_replace_def raw_consistent_put raw_overlay_put raw_consistent_def [of t]\<close>)
qed (simp_all add: open_raw_def raw_destroyXRP_def raw_createXRP_def raw_createVBC_def raw_consistent_def raw_overlay_def fun_eq_iff)

end
