(* ===== verification/ApplyTable.thy ===== *)
theory ApplyTable
  imports StateTables
begin

text \<open>
  \<open>ledger/detail/ApplyStateTable\<close>: the table behind \<open>ApplyViewBase\<close>, \<open>Sandbox\<close> and
  \<open>PaymentSandbox\<close>, in which a transaction edits ledger entries. \<open>peek\<close> hands out a pointer to a
  copy that the table keeps; \<open>update\<close> and \<open>erase\<close> accept only that pointer. An entry edited through
  its pointer reaches the table when \<open>update\<close> is called with it: \<open>update\<close> carries the current
  contents. Metadata (\<open>apply\<close> with a transaction) and fee-share takers are not modelled.
\<close>

section \<open>The table\<close>

datatype Action = Cache | Erase | Insert | Modify

type_synonym 'd ref = "nat \<times> 'd SLE"

record 'd ApplyStateTable =
  a_items :: "(key, Action \<times> 'd ref) omap"
  a_dropsDestroyed :: int
  a_dropsCreated :: int
  a_dropsVBCCreated :: int
  a_fresh :: nat

definition apply_empty :: "'d ApplyStateTable" where
  "apply_empty = \<lparr>a_items = [], a_dropsDestroyed = 0, a_dropsCreated = 0, a_dropsVBCCreated = 0, a_fresh = 0\<rparr>"

definition apply_exists :: "'d ApplyStateTable \<Rightarrow> 'd ReadView \<Rightarrow> Keylet \<Rightarrow> bool" where
  "apply_exists t base k =
     (case map_of (a_items t) (kl_key k) of
        None \<Rightarrow> v_exists base k
      | Some (Erase, _) \<Rightarrow> False
      | Some (_, _, sle) \<Rightarrow> keylet_check k sle)"

definition apply_read :: "'d ApplyStateTable \<Rightarrow> 'd ReadView \<Rightarrow> Keylet \<Rightarrow> 'd SLE option" where
  "apply_read t base k =
     (case map_of (a_items t) (kl_key k) of
        None \<Rightarrow> v_read base k
      | Some (Erase, _) \<Rightarrow> None
      | Some (_, _, sle) \<Rightarrow> if \<not> keylet_check k sle then None else Some sle)"

definition apply_exists_asserts :: "'d ApplyStateTable \<Rightarrow> 'd ReadView \<Rightarrow> Keylet \<Rightarrow> bool" where
  "apply_exists_asserts t base k =
     (case map_of (a_items t) (kl_key k) of
        None \<Rightarrow> v_exists_asserts base k
      | Some (Erase, _) \<Rightarrow> True
      | Some (_, _, sle) \<Rightarrow> keylet_check_asserts k sle)"

definition apply_read_asserts :: "'d ApplyStateTable \<Rightarrow> 'd ReadView \<Rightarrow> Keylet \<Rightarrow> bool" where
  "apply_read_asserts t base k =
     (case map_of (a_items t) (kl_key k) of
        None \<Rightarrow> v_read_asserts base k
      | Some (Erase, _) \<Rightarrow> True
      | Some (_, _, sle) \<Rightarrow> keylet_check_asserts k sle)"

definition apply_erased :: "'d ApplyStateTable \<Rightarrow> key \<Rightarrow> bool" where
  "apply_erased t k \<longleftrightarrow> (case map_of (a_items t) k of Some (Erase, _) \<Rightarrow> True | _ \<Rightarrow> False)"

definition apply_own_succ :: "'d ApplyStateTable \<Rightarrow> key \<Rightarrow> key option" where
  "apply_own_succ t k =
     map_option fst (List.find (\<lambda>(_, v). fst v \<noteq> Erase) (om_upper k (a_items t)))"

definition apply_succ :: "'d ApplyStateTable \<Rightarrow> 'd ReadView \<Rightarrow> key \<Rightarrow> key option \<Rightarrow> key option option" where
  "apply_succ t base k last' =
     (case base_succ_loop (apply_erased t) base last' k of
        None \<Rightarrow> None
      | Some next \<Rightarrow> Some (merge_succ next (apply_own_succ t k) last'))"

definition peek :: "'d ReadView \<Rightarrow> Keylet \<Rightarrow> 'd ApplyStateTable \<Rightarrow> 'd ref option \<times> 'd ApplyStateTable" where
  "peek base k t =
     (case map_of (a_items t) (kl_key k) of
        None \<Rightarrow>
          (case v_read base k of
             None \<Rightarrow> (None, t)
           | Some sle \<Rightarrow>
               let r = (a_fresh t, sle)
               in (Some r, t\<lparr>a_items := om_put (sle_key sle) (Cache, r) (a_items t), a_fresh := Suc (a_fresh t)\<rparr>))
      | Some (Erase, _) \<Rightarrow> (None, t)
      | Some (_, r) \<Rightarrow> if \<not> keylet_check k (snd r) then (None, t) else (Some r, t))"

definition peek_asserts :: "'d ReadView \<Rightarrow> Keylet \<Rightarrow> 'd ApplyStateTable \<Rightarrow> bool" where
  "peek_asserts base k t =
     (case map_of (a_items t) (kl_key k) of
        None \<Rightarrow> v_read_asserts base k
      | Some (Erase, _) \<Rightarrow> True
      | Some (_, r) \<Rightarrow> keylet_check_asserts k (snd r))"

definition apply_erase :: "'d ref \<Rightarrow> 'd ApplyStateTable \<Rightarrow> 'd ApplyStateTable res" where
  "apply_erase r t =
     (let k = sle_key (snd r) in
      case map_of (a_items t) k of
        None \<Rightarrow> Throw (LogicError ''ApplyStateTable::erase: missing key'')
      | Some (a, r') \<Rightarrow>
          if fst r' \<noteq> fst r then Throw (LogicError ''ApplyStateTable::erase: unknown SLE'')
          else case a of
            Erase \<Rightarrow> Throw (LogicError ''ApplyStateTable::erase: double erase'')
          | Insert \<Rightarrow> Ok (t\<lparr>a_items := om_del k (a_items t)\<rparr>)
          | _ \<Rightarrow> Ok (t\<lparr>a_items := om_put k (Erase, r) (a_items t)\<rparr>))"

definition apply_rawErase :: "'d ref \<Rightarrow> 'd ApplyStateTable \<Rightarrow> 'd ApplyStateTable res" where
  "apply_rawErase r t =
     (let k = sle_key (snd r) in
      case map_of (a_items t) k of
        None \<Rightarrow> Ok (t\<lparr>a_items := om_put k (Erase, r) (a_items t)\<rparr>)
      | Some (Erase, _) \<Rightarrow> Throw (LogicError ''ApplyStateTable::rawErase: double erase'')
      | Some (Insert, _) \<Rightarrow> Ok (t\<lparr>a_items := om_del k (a_items t)\<rparr>)
      | Some _ \<Rightarrow> Ok (t\<lparr>a_items := om_put k (Erase, r) (a_items t)\<rparr>))"

definition apply_insert :: "'d ref \<Rightarrow> 'd ApplyStateTable \<Rightarrow> 'd ApplyStateTable res" where
  "apply_insert r t =
     (let k = sle_key (snd r) in
      case map_of (a_items t) k of
        None \<Rightarrow> Ok (t\<lparr>a_items := om_put k (Insert, r) (a_items t)\<rparr>)
      | Some (Cache, _) \<Rightarrow> Throw (LogicError ''ApplyStateTable::insert: already cached'')
      | Some (Insert, _) \<Rightarrow> Throw (LogicError ''ApplyStateTable::insert: already inserted'')
      | Some (Modify, _) \<Rightarrow> Throw (LogicError ''ApplyStateTable::insert: already modified'')
      | Some (Erase, _) \<Rightarrow> Ok (t\<lparr>a_items := om_put k (Modify, r) (a_items t)\<rparr>))"

definition apply_replace :: "'d ref \<Rightarrow> 'd ApplyStateTable \<Rightarrow> 'd ApplyStateTable res" where
  "apply_replace r t =
     (let k = sle_key (snd r) in
      case map_of (a_items t) k of
        None \<Rightarrow> Ok (t\<lparr>a_items := om_put k (Modify, r) (a_items t)\<rparr>)
      | Some (Erase, _) \<Rightarrow> Throw (LogicError ''ApplyStateTable::replace: already erased'')
      | Some (Cache, _) \<Rightarrow> Ok (t\<lparr>a_items := om_put k (Modify, r) (a_items t)\<rparr>)
      | Some (a, _) \<Rightarrow> Ok (t\<lparr>a_items := om_put k (a, r) (a_items t)\<rparr>))"

definition update :: "'d ref \<Rightarrow> 'd ApplyStateTable \<Rightarrow> 'd ApplyStateTable res" where
  "update r t =
     (let k = sle_key (snd r) in
      case map_of (a_items t) k of
        None \<Rightarrow> Throw (LogicError ''ApplyStateTable::update: missing key'')
      | Some (a, r') \<Rightarrow>
          if fst r' \<noteq> fst r then Throw (LogicError ''ApplyStateTable::update: unknown SLE'')
          else case a of
            Erase \<Rightarrow> Throw (LogicError ''ApplyStateTable::update: erased'')
          | Cache \<Rightarrow> Ok (t\<lparr>a_items := om_put k (Modify, r) (a_items t)\<rparr>)
          | _ \<Rightarrow> Ok (t\<lparr>a_items := om_put k (a, r) (a_items t)\<rparr>))"

definition apply_destroyXRP :: "int \<Rightarrow> 'd ApplyStateTable \<Rightarrow> 'd ApplyStateTable" where
  "apply_destroyXRP fee t = t\<lparr>a_dropsDestroyed := a_dropsDestroyed t + fee\<rparr>"

definition apply_createXRP :: "int \<Rightarrow> 'd ApplyStateTable \<Rightarrow> 'd ApplyStateTable" where
  "apply_createXRP d t = t\<lparr>a_dropsCreated := a_dropsCreated t + d\<rparr>"

definition apply_createVBC :: "int \<Rightarrow> 'd ApplyStateTable \<Rightarrow> 'd ApplyStateTable" where
  "apply_createVBC d t = t\<lparr>a_dropsVBCCreated := a_dropsVBCCreated t + d\<rparr>"

definition apply_size :: "'d ApplyStateTable \<Rightarrow> nat" where
  "apply_size t = length (filter (\<lambda>(_, a, _). a \<noteq> Cache) (a_items t))"

text \<open>\<open>visit\<close>: the changes in key order, as the calls made to the visitor.\<close>

definition visit :: "'d ReadView \<Rightarrow> 'd ApplyStateTable \<Rightarrow> (key \<times> bool \<times> 'd SLE option \<times> 'd SLE option) list" where
  "visit base t = concat (map (\<lambda>(k, a, r).
     case a of
       Erase \<Rightarrow> [(k, True, v_read base (keylet_unchecked k), Some (snd r))]
     | Insert \<Rightarrow> [(k, False, None, Some (snd r))]
     | Modify \<Rightarrow> [(k, False, v_read base (keylet_unchecked k), Some (snd r))]
     | Cache \<Rightarrow> []) (a_items t))"

definition apply_action :: "('d, 's) RawView \<Rightarrow> Action \<Rightarrow> 'd SLE \<Rightarrow> 's \<Rightarrow> 's res" where
  "apply_action to a sle s =
     (case a of Cache \<Rightarrow> Ok s | Erase \<Rightarrow> rawErase to sle s | Insert \<Rightarrow> rawInsert to sle s | Modify \<Rightarrow> rawReplace to sle s)"

fun apply_items :: "('d, 's) RawView \<Rightarrow> (key, Action \<times> 'd ref) omap \<Rightarrow> 's \<Rightarrow> 's res" where
  "apply_items to [] s = Ok s"
| "apply_items to ((k, a, r) # items) s = rbind (apply_action to a (snd r) s) (apply_items to items)"

definition apply_table :: "'d ApplyStateTable \<Rightarrow> ('d, 's) RawView \<Rightarrow> 's \<Rightarrow> 's res" where
  "apply_table t to s =
     apply_items to (a_items t)
       (rawDestroyXRP to (a_dropsDestroyed t)
         (rawCreateVBC to (a_dropsVBCCreated t) (rawCreateXRP to (a_dropsCreated t) s)))"

text \<open>\<open>ApplyViewBase\<close> reads through its table; as a \<open>RawView\<close> it takes entries without a pointer.\<close>

definition apply_view :: "'d ApplyStateTable \<Rightarrow> 'd ReadView \<Rightarrow> 'd ReadView" where
  "apply_view t base = \<lparr>v_exists = apply_exists t base, v_read = apply_read t base, v_succ = apply_succ t base,
     v_exists_asserts = apply_exists_asserts t base, v_read_asserts = apply_read_asserts t base\<rparr>"

definition with_ref :: "('d ref \<Rightarrow> 'd ApplyStateTable \<Rightarrow> 'd ApplyStateTable res) \<Rightarrow>
    'd SLE \<Rightarrow> 'd ApplyStateTable \<Rightarrow> 'd ApplyStateTable res" where
  "with_ref f sle t = f (a_fresh t, sle) (t\<lparr>a_fresh := Suc (a_fresh t)\<rparr>)"

definition apply_raw :: "('d, 'd ApplyStateTable) RawView" where
  "apply_raw = \<lparr>rawErase = with_ref apply_rawErase, rawInsert = with_ref apply_insert, rawReplace = with_ref apply_replace,
     rawDestroyXRP = apply_destroyXRP, rawCreateXRP = apply_createXRP, rawCreateVBC = apply_createVBC\<rparr>"

section \<open>What the table stands for\<close>

definition apply_overlay :: "'d ApplyStateTable \<Rightarrow> (key \<rightharpoonup> 'd SLE) \<Rightarrow> key \<rightharpoonup> 'd SLE" where
  "apply_overlay t m k =
     (case map_of (a_items t) k of None \<Rightarrow> m k | Some (Erase, _) \<Rightarrow> None | Some (_, r) \<Rightarrow> Some (snd r))"

definition apply_consistent :: "'d ApplyStateTable \<Rightarrow> (key \<rightharpoonup> 'd SLE) \<Rightarrow> bool" where
  "apply_consistent t m \<longleftrightarrow> om_ok (a_items t) \<and>
     (\<forall>k a r. map_of (a_items t) k = Some (a, r) \<longrightarrow>
        k \<noteq> 0 \<and> sle_key (snd r) = k \<and> (m k = None \<longleftrightarrow> a = Insert) \<and> (a = Cache \<longrightarrow> m k = Some (snd r)))"

lemma apply_item:
  assumes "apply_consistent t m" "map_of (a_items t) k = Some (a, r)"
  shows "k \<noteq> 0" "sle_key (snd r) = k" "m k = None \<longleftrightarrow> a = Insert" "a = Cache \<Longrightarrow> m k = Some (snd r)"
  using assms unfolding apply_consistent_def by blast+

lemma apply_consistent_put:
  assumes "apply_consistent t m" "k \<noteq> 0" "sle_key (snd r) = k" "m k = None \<longleftrightarrow> a = Insert" "a = Cache \<longrightarrow> m k = Some (snd r)"
  shows "apply_consistent (t\<lparr>a_items := om_put k (a, r) (a_items t)\<rparr>) m"
  using assms by (auto simp: apply_consistent_def om_put_ok split: if_splits)

lemma apply_consistent_del: "apply_consistent t m \<Longrightarrow> apply_consistent (t\<lparr>a_items := om_del k (a_items t)\<rparr>) m"
  by (auto simp: apply_consistent_def om_del_ok split: if_splits)

lemma apply_overlay_put:
  "om_ok (a_items t) \<Longrightarrow> apply_overlay (t\<lparr>a_items := om_put k (a, r) (a_items t)\<rparr>) m =
   (apply_overlay t m)(k := (if a = Erase then None else Some (snd r)))"
  by (auto simp: apply_overlay_def fun_eq_iff split: Action.splits)

lemma apply_overlay_del:
  "apply_overlay (t\<lparr>a_items := om_del k (a_items t)\<rparr>) m = (apply_overlay t m)(k := m k)"
  by (auto simp: apply_overlay_def fun_eq_iff)

lemma fresh_irrelevant [simp]:
  "apply_consistent (t\<lparr>a_fresh := n\<rparr>) m = apply_consistent t m" "apply_overlay (t\<lparr>a_fresh := n\<rparr>) m = apply_overlay t m"
  by (simp_all add: apply_consistent_def apply_overlay_def fun_eq_iff)

context raw_target
begin

lemma apply_items_commit:
  assumes "inv s" "om_ok items"
    and "\<And>k a r. map_of items k = Some (a, r) \<Longrightarrow>
      k \<noteq> 0 \<and> sle_key (snd r) = k \<and> (shows_map s k = None \<longleftrightarrow> a = Insert) \<and> (a = Cache \<longrightarrow> shows_map s k = Some (snd r))"
  shows "\<exists>s'. apply_items to items s = Ok s' \<and> inv s' \<and>
    shows_map s' = (\<lambda>k. case map_of items k of None \<Rightarrow> shows_map s k | Some (Erase, _) \<Rightarrow> None | Some (_, r) \<Rightarrow> Some (snd r))"
  using assms
proof (induction items arbitrary: s)
  case Nil then show ?case by simp
next
  case (Cons p items)
  obtain k a r where p: "p = (k, a, r)" by (cases p) auto
  let ?e = "snd r"
  have h: "k \<noteq> 0" "sle_key ?e = k" "shows_map s k = None \<longleftrightarrow> a = Insert" "a = Cache \<longrightarrow> shows_map s k = Some ?e"
    using Cons.prems(3) [of k a r] p by auto
  have "\<exists>s1. apply_action to a ?e s = Ok s1 \<and> inv s1 \<and> shows_map s1 = (shows_map s)(k := (if a = Erase then None else Some ?e))"
  proof (cases a)
    case Cache
    then have "(shows_map s)(k := Some ?e) = shows_map s" using h(4) by auto
    with Cache Cons.prems(1) show ?thesis by (simp add: apply_action_def)
  next
    case Erase
    with erase_law [OF Cons.prems(1), of ?e] h show ?thesis by (simp add: apply_action_def)
  next
    case Insert
    with insert_law [OF Cons.prems(1), of ?e] h show ?thesis by (simp add: apply_action_def)
  next
    case Modify
    with replace_law [OF Cons.prems(1), of ?e] h show ?thesis by (simp add: apply_action_def)
  qed
  then obtain s1 where s1: "apply_action to a ?e s = Ok s1" "inv s1"
    "shows_map s1 = (shows_map s)(k := (if a = Erase then None else Some ?e))" by blast
  have ok: "om_ok items" and nk: "map_of items k = None"
    using Cons.prems(2) p om_ok_distinct [of "p # items"] by (auto simp: om_ok_Cons map_of_eq_None_iff)
  have "k' \<noteq> 0 \<and> sle_key (snd r') = k' \<and> (shows_map s1 k' = None \<longleftrightarrow> a' = Insert) \<and> (a' = Cache \<longrightarrow> shows_map s1 k' = Some (snd r'))"
    if i: "map_of items k' = Some (a', r')" for k' a' r'
  proof -
    have "k' \<noteq> k" using i nk by auto
    then show ?thesis using Cons.prems(3) [of k' a' r'] i p s1(3) by simp
  qed
  from Cons.IH [OF s1(2) ok this] obtain s' where "apply_items to items s1 = Ok s'" "inv s'"
    "shows_map s' = (\<lambda>k. case map_of items k of None \<Rightarrow> shows_map s1 k | Some (Erase, _) \<Rightarrow> None | Some (_, r) \<Rightarrow> Some (snd r))" by blast
  then show ?case using s1 nk p
    by (intro exI [of _ s']) (auto simp: fun_eq_iff split: option.splits Action.splits prod.splits)
qed

lemma apply_commit:
  assumes "inv s" "apply_consistent t (shows_map s)"
  shows "\<exists>s'. apply_table t to s = Ok s' \<and> inv s' \<and> shows_map s' = apply_overlay t (shows_map s)"
proof -
  let ?s = "rawDestroyXRP to (a_dropsDestroyed t) (rawCreateVBC to (a_dropsVBCCreated t) (rawCreateXRP to (a_dropsCreated t) s))"
  have s: "inv ?s" "shows_map ?s = shows_map s" using assms(1) by (simp_all add: drops_law)
  have "\<exists>s'. apply_items to (a_items t) ?s = Ok s' \<and> inv s' \<and>
    shows_map s' = (\<lambda>k. case map_of (a_items t) k of None \<Rightarrow> shows_map ?s k | Some (Erase, _) \<Rightarrow> None | Some (_, r) \<Rightarrow> Some (snd r))"
    using assms(2) s by (intro apply_items_commit) (auto simp: apply_consistent_def)
  then show ?thesis unfolding apply_table_def s(2) by (auto simp: apply_overlay_def fun_eq_iff)
qed

end

context read_view
begin

lemma apply_layer:
  assumes c: "apply_consistent t m"
  shows "read_view (apply_view t view) (apply_overlay t m)"
proof
  have fin: "finite (dom m)" and st: "m 0 = None" "\<And>k s. m k = Some s \<Longrightarrow> sle_key s = k"
    using state by (auto simp: state_ok_def)
  have it: "\<And>k a r. map_of (a_items t) k = Some (a, r) \<Longrightarrow> k \<noteq> 0 \<and> sle_key (snd r) = k"
    and ok: "om_ok (a_items t)" using c by (auto simp: apply_consistent_def)
  let ?o = "\<lambda>x. case map_of (a_items t) x of Some v \<Rightarrow> if fst v \<noteq> Erase then Some (snd (snd v)) else None | None \<Rightarrow> None"
  have ov: "apply_overlay t m = (m |` {x. \<not> apply_erased t x}) ++ ?o"
    by (rule ext) (auto simp: apply_overlay_def map_add_def restrict_map_def apply_erased_def split: option.splits Action.splits prod.splits)
  have fo: "finite (dom ?o)"
    by (rule finite_subset [of _ "dom (map_of (a_items t))"]) (auto simp: finite_dom_map_of split: option.splits if_splits)
  have fm: "finite (dom (m |` {x. \<not> apply_erased t x}))" using fin by simp
  show "state_ok (apply_overlay t m)"
    unfolding state_ok_def
  proof (intro conjI allI impI)
    show "finite (dom (apply_overlay t m))" unfolding ov using fo fm by simp
    show "apply_overlay t m 0 = None" using st(1) it [of 0] by (auto simp: apply_overlay_def split: option.splits prod.splits)
    show "sle_key s = k" if "apply_overlay t m k = Some s" for k s
      using that st(2) it [of k] by (auto simp: apply_overlay_def split: option.splits prod.splits Action.splits)
  qed
  show "v_read (apply_view t view) k = checked_lookup (apply_overlay t m) k" for k
    by (auto simp: apply_view_def apply_read_def read_law checked_lookup_def apply_overlay_def split: option.splits Action.splits prod.splits)
  show "v_exists (apply_view t view) k = (apply_overlay t m (kl_key k) \<noteq> None)" if "typed (apply_overlay t m) k" for k
    using that exists_law [of k]
    by (auto simp: apply_view_def apply_exists_def apply_overlay_def typed_def split: option.splits Action.splits prod.splits)
  show "v_read_asserts (apply_view t view) k \<longleftrightarrow> kl_key k \<noteq> 0 \<and> keylet_fits (apply_overlay t m) k" for k
    using read_asserts_law [of k] it [of "kl_key k"]
    by (auto simp: apply_view_def apply_read_asserts_def apply_overlay_def keylet_fits_def split: option.splits Action.splits prod.splits)
  show "v_exists_asserts (apply_view t view) k" if "kl_key k \<noteq> 0" "keylet_fits (apply_overlay t m) k" for k
    using that exists_asserts_law [of k]
    by (auto simp: apply_view_def apply_exists_asserts_def apply_overlay_def keylet_fits_def split: option.splits Action.splits prod.splits)
  show "v_succ (apply_view t view) x last' = Some (next_key (apply_overlay t m) x last')" for x last'
  proof -
    have "apply_own_succ t x = next_key ?o x None"
      unfolding apply_own_succ_def using find_next_key [OF ok, of "\<lambda>v. fst v \<noteq> Erase" x "\<lambda>v. snd (snd v)"] by simp
    then show ?thesis unfolding ov
      by (simp add: apply_view_def apply_succ_def base_loop merge_next_key [OF fm fo])
  qed
qed

text \<open>Editing: what \<open>peek\<close>, \<open>update\<close> and \<open>erase\<close> do to a consistent table over this view.\<close>

lemma peek_ok:
  assumes c: "apply_consistent t m" and p: "peek view k t = (o', t')"
  shows "apply_consistent t' m \<and> apply_overlay t' m = apply_overlay t m \<and>
    map_option snd o' = checked_lookup (apply_overlay t m) k"
proof (cases "map_of (a_items t) (kl_key k)")
  case None
  show ?thesis
  proof (cases "v_read view k")
    case N: None
    with None p show ?thesis using c by (auto simp: peek_def checked_lookup_def apply_overlay_def read_law)
  next
    case (Some sle)
    then have mk: "m (kl_key k) = Some sle" "keylet_check k sle"
      by (auto simp: read_law checked_lookup_def split: option.splits if_splits)
    have st: "sle_key sle = kl_key k" "kl_key k \<noteq> 0" using state mk(1) by (auto simp: state_ok_def)
    have t': "t' = t\<lparr>a_items := om_put (kl_key k) (Cache, a_fresh t, sle) (a_items t), a_fresh := Suc (a_fresh t)\<rparr>"
      and o': "o' = Some (a_fresh t, sle)" using None Some p st by (auto simp: peek_def Let_def)
    have "apply_consistent t' m" using apply_consistent_put [OF c, of "kl_key k" "(a_fresh t, sle)" Cache] st mk
      unfolding t' by (simp add: apply_consistent_def)
    moreover have "apply_overlay t' m = apply_overlay t m"
    proof -
      have "(apply_overlay t m)(kl_key k \<mapsto> sle) = apply_overlay t m"
        using None mk by (auto simp: apply_overlay_def fun_eq_iff)
      then show ?thesis using apply_overlay_put [of t "kl_key k" Cache "(a_fresh t, sle)" m] c
        unfolding t' by (simp add: apply_consistent_def apply_overlay_def)
    qed
    ultimately show ?thesis using None mk o' by (simp add: checked_lookup_def apply_overlay_def)
  qed
next
  case (Some v)
  with p c show ?thesis
    by (cases v) (auto simp: peek_def checked_lookup_def apply_overlay_def split: Action.splits if_splits)
qed

lemma peek_asserts_law:
  assumes "apply_consistent t m"
  shows "peek_asserts view k t \<longleftrightarrow> kl_key k \<noteq> 0 \<and> keylet_fits (apply_overlay t m) k"
  using read_asserts_law [of k] apply_item(1) [OF assms, of "kl_key k"]
  by (auto simp: peek_asserts_def apply_overlay_def keylet_fits_def split: option.splits Action.splits prod.splits)

lemma update_ok:
  assumes c: "apply_consistent t m" and u: "update r t = Ok t'"
  shows "apply_consistent t' m \<and> apply_overlay t' m = (apply_overlay t m)(sle_key (snd r) \<mapsto> snd r)"
proof -
  let ?k = "sle_key (snd r)"
  from u obtain a r' where i: "map_of (a_items t) ?k = Some (a, r')" "a \<noteq> Erase"
    and t': "t' = t\<lparr>a_items := om_put ?k (if a = Cache then Modify else a, r) (a_items t)\<rparr>"
    by (auto simp: update_def Let_def split: option.splits if_splits Action.splits)
  have "?k \<noteq> 0" "m ?k = None \<longleftrightarrow> a = Insert" "om_ok (a_items t)"
    using apply_item [OF c i(1)] c by (simp_all add: apply_consistent_def)
  then show ?thesis unfolding t' using c i(2) by (auto intro!: apply_consistent_put simp: apply_overlay_put)
qed

lemma erase_ok:
  assumes c: "apply_consistent t m" and u: "apply_erase r t = Ok t'"
  shows "apply_consistent t' m \<and> apply_overlay t' m = (apply_overlay t m)(sle_key (snd r) := None) \<and>
    apply_overlay t m (sle_key (snd r)) \<noteq> None"
proof -
  let ?k = "sle_key (snd r)"
  from u obtain a r' where i: "map_of (a_items t) ?k = Some (a, r')" "a \<noteq> Erase"
    and t': "t' = (if a = Insert then t\<lparr>a_items := om_del ?k (a_items t)\<rparr> else t\<lparr>a_items := om_put ?k (Erase, r) (a_items t)\<rparr>)"
    by (auto simp: apply_erase_def Let_def split: option.splits if_splits Action.splits)
  have "?k \<noteq> 0" "m ?k = None \<longleftrightarrow> a = Insert" "om_ok (a_items t)"
    using apply_item [OF c i(1)] c by (simp_all add: apply_consistent_def)
  moreover have "apply_overlay t m ?k \<noteq> None" using i by (auto simp: apply_overlay_def split: Action.splits)
  ultimately show ?thesis unfolding t' using c i(2)
    by (auto intro!: apply_consistent_put apply_consistent_del simp: apply_overlay_put apply_overlay_del)
qed

end

lemma rawErase_ok:
  assumes c: "apply_consistent t m" "m 0 = None" and p: "apply_overlay t m (sle_key (snd r)) \<noteq> None"
  shows "\<exists>t'. apply_rawErase r t = Ok t' \<and> apply_consistent t' m \<and> apply_overlay t' m = (apply_overlay t m)(sle_key (snd r) := None)"
proof -
  let ?k = "sle_key (snd r)"
  have k: "?k \<noteq> 0" using c p by (auto simp: apply_overlay_def apply_consistent_def split: option.splits)
  have om: "om_ok (a_items t)" using c by (simp add: apply_consistent_def)
  show ?thesis
  proof (cases "map_of (a_items t) ?k")
    case None
    with p have "m ?k \<noteq> None" by (simp add: apply_overlay_def)
    with None k om c show ?thesis by (simp add: apply_rawErase_def apply_consistent_put apply_overlay_put)
  next
    case (Some v)
    obtain a r' where v: "v = (a, r')" by (cases v)
    with Some p have a: "a \<noteq> Erase" by (auto simp: apply_overlay_def)
    have m: "m ?k = None \<longleftrightarrow> a = Insert" using apply_item [OF c(1)] Some v by simp
    from Some v a m k om c show ?thesis
      by (cases a) (simp_all add: apply_rawErase_def apply_consistent_put apply_overlay_put apply_consistent_del apply_overlay_del)
  qed
qed

lemma insert_ok:
  assumes c: "apply_consistent t m" and k: "sle_key (snd r) \<noteq> 0" and p: "apply_overlay t m (sle_key (snd r)) = None"
  shows "\<exists>t'. apply_insert r t = Ok t' \<and> apply_consistent t' m \<and> apply_overlay t' m = (apply_overlay t m)(sle_key (snd r) \<mapsto> snd r)"
proof -
  let ?k = "sle_key (snd r)"
  have om: "om_ok (a_items t)" using c by (simp add: apply_consistent_def)
  show ?thesis
  proof (cases "map_of (a_items t) ?k")
    case None
    with p have "m ?k = None" by (simp add: apply_overlay_def)
    with None k om c show ?thesis by (simp add: apply_insert_def apply_consistent_put apply_overlay_put)
  next
    case (Some v)
    obtain a r' where v: "v = (a, r')" by (cases v)
    with Some p have a: "a = Erase" by (auto simp: apply_overlay_def split: Action.splits)
    have m: "m ?k \<noteq> None" using apply_item(3) [OF c] Some v a by simp
    from Some v a m k om c show ?thesis by (simp add: apply_insert_def apply_consistent_put apply_overlay_put)
  qed
qed

lemma replace_ok:
  assumes c: "apply_consistent t m" "m 0 = None" and p: "apply_overlay t m (sle_key (snd r)) \<noteq> None"
  shows "\<exists>t'. apply_replace r t = Ok t' \<and> apply_consistent t' m \<and> apply_overlay t' m = (apply_overlay t m)(sle_key (snd r) \<mapsto> snd r)"
proof -
  let ?k = "sle_key (snd r)"
  have k: "?k \<noteq> 0" using c p by (auto simp: apply_overlay_def apply_consistent_def split: option.splits)
  have om: "om_ok (a_items t)" using c by (simp add: apply_consistent_def)
  show ?thesis
  proof (cases "map_of (a_items t) ?k")
    case None
    with p have "m ?k \<noteq> None" by (simp add: apply_overlay_def)
    with None k om c show ?thesis by (simp add: apply_replace_def apply_consistent_put apply_overlay_put)
  next
    case (Some v)
    obtain a r' where v: "v = (a, r')" by (cases v)
    with Some p have a: "a \<noteq> Erase" by (auto simp: apply_overlay_def)
    have m: "m ?k = None \<longleftrightarrow> a = Insert" using apply_item [OF c(1)] Some v by simp
    from Some v a m k om c show ?thesis
      by (cases a) (simp_all add: apply_replace_def apply_consistent_put apply_overlay_put)
  qed
qed

interpretation apply_target: raw_target apply_raw "\<lambda>t. apply_overlay t m" "\<lambda>t. apply_consistent t m \<and> m 0 = None"
  for m
proof (unfold_locales, goal_cases)
  case (1 t e)
  then show ?case using rawErase_ok [of "t\<lparr>a_fresh := Suc (a_fresh t)\<rparr>" m "(a_fresh t, e)"]
    by (auto simp: apply_raw_def with_ref_def)
next
  case (2 t e)
  then show ?case using insert_ok [of "t\<lparr>a_fresh := Suc (a_fresh t)\<rparr>" m "(a_fresh t, e)"]
    by (auto simp: apply_raw_def with_ref_def)
next
  case (3 t e)
  then show ?case using replace_ok [of "t\<lparr>a_fresh := Suc (a_fresh t)\<rparr>" m "(a_fresh t, e)"]
    by (auto simp: apply_raw_def with_ref_def)
qed (simp_all add: apply_raw_def apply_destroyXRP_def apply_createXRP_def apply_createVBC_def apply_consistent_def
    apply_overlay_def fun_eq_iff)

section \<open>Transactions editing a stack of views\<close>

text \<open>
  The tables an \<open>ApplyView\<close> over a base that shows \<open>m\<close> can hold: a transaction may peek at
  anything, update and erase what it peeked at, insert an entry at a free key and count drops. It
  may open a sandbox on top of the view (as \<open>Payment\<close> and \<open>CreateOffer\<close> do), edit that one in the
  same way, and apply it, which reaches the table through \<open>rawErase\<close>, \<open>rawInsert\<close> and
  \<open>rawReplace\<close>. And it may go on changing an entry through its pointer once the table holds the
  entry as inserted, modified or erased, without calling \<open>update\<close> again. (An entry that is only
  cached has to be given to \<open>update\<close> before the change counts: \<open>apply\<close> skips it.)
\<close>

inductive edits :: "'d ReadView \<Rightarrow> (key \<rightharpoonup> 'd SLE) \<Rightarrow> 'd ApplyStateTable \<Rightarrow> bool" where
  edits_empty: "edits base m apply_empty"
| edits_peek: "edits base m t \<Longrightarrow> peek base k t = (r, t') \<Longrightarrow> edits base m t'"
| edits_update: "edits base m t \<Longrightarrow> update r t = Ok t' \<Longrightarrow> edits base m t'"
| edits_erase: "edits base m t \<Longrightarrow> apply_erase r t = Ok t' \<Longrightarrow> edits base m t'"
| edits_insert: "edits base m t \<Longrightarrow> sle_key (snd r) \<noteq> 0 \<Longrightarrow> apply_overlay t m (sle_key (snd r)) = None \<Longrightarrow>
    apply_insert r t = Ok t' \<Longrightarrow> edits base m t'"
| edits_poke: "edits base m t \<Longrightarrow> map_of (a_items t) k = Some (a, p, e) \<Longrightarrow> a \<noteq> Cache \<Longrightarrow> sle_key e' = k \<Longrightarrow>
    edits base m (t\<lparr>a_items := om_put k (a, p, e') (a_items t)\<rparr>)"
| edits_nested: "edits base m t \<Longrightarrow> edits (apply_view t base) (apply_overlay t m) inner \<Longrightarrow>
    apply_table inner apply_raw t = Ok t' \<Longrightarrow> edits base m t'"
| edits_destroy: "edits base m t \<Longrightarrow> edits base m (apply_destroyXRP d t)"
| edits_create: "edits base m t \<Longrightarrow> edits base m (apply_createXRP d t)"
| edits_createVBC: "edits base m t \<Longrightarrow> edits base m (apply_createVBC d t)"

lemma apply_empty_ok [simp]: "apply_consistent apply_empty m" "apply_overlay apply_empty m = m"
  by (simp_all add: apply_consistent_def apply_empty_def apply_overlay_def fun_eq_iff)

lemma raw_empty_ok [simp]: "raw_consistent raw_empty m" "raw_overlay raw_empty m = m"
  by (simp_all add: raw_consistent_def raw_empty_def raw_overlay_def fun_eq_iff)

lemma poke_consistent:
  assumes "apply_consistent t m" "map_of (a_items t) k = Some (a, p, e)" "a \<noteq> Cache" "sle_key e' = k"
  shows "apply_consistent (t\<lparr>a_items := om_put k (a, p, e') (a_items t)\<rparr>) m"
  using apply_consistent_put [OF assms(1), of k "(p, e')" a] apply_item [OF assms(1,2)] assms(3,4) by simp

lemma nested_consistent:
  assumes "m 0 = None" "apply_consistent t m" "apply_consistent inner (apply_overlay t m)"
  shows "\<exists>t'. apply_table inner apply_raw t = Ok t' \<and> apply_consistent t' m \<and>
    apply_overlay t' m = apply_overlay inner (apply_overlay t m)"
  using apply_target.apply_commit [of t m inner] assms by blast

text \<open>Every table that can be reached agrees with its base, whatever the view below it is.\<close>

lemma edits_consistent: "edits base m t \<Longrightarrow> read_view base m \<Longrightarrow> apply_consistent t m"
proof (induction rule: edits.induct)
  case (edits_empty base m) show ?case by simp
next
  case (edits_peek base m t k r t') then show ?case using read_view.peek_ok by blast
next
  case (edits_update base m t r t') then show ?case using read_view.update_ok by blast
next
  case (edits_erase base m t r t') then show ?case using read_view.erase_ok by blast
next
  case (edits_insert base m t r t') then show ?case using insert_ok by fastforce
next
  case (edits_poke base m t k a p e e') then show ?case using poke_consistent by blast
next
  case (edits_nested base m t inner t')
  have c: "apply_consistent t m" using edits_nested by blast
  have i: "apply_consistent inner (apply_overlay t m)"
    using edits_nested read_view.apply_layer [OF edits_nested.prems c] by blast
  have "m 0 = None" using read_view.state [OF edits_nested.prems] by (simp add: state_ok_def)
  from nested_consistent [OF this c i] edits_nested.hyps show ?case by auto
qed (simp_all add: apply_destroyXRP_def apply_createXRP_def apply_createVBC_def apply_consistent_def)

lemma open_stack: "ledger_ok l \<Longrightarrow> raw_consistent rt (map_of l) \<Longrightarrow>
  read_view (open_view rt (ledger_view l)) (raw_overlay rt (map_of l))"
  using read_view.raw_layer ledger_read_view by blast

text \<open>The counters of drops only grow by the counters of the sandbox that is applied.\<close>

lemma apply_raw_drops:
  assumes "apply_action apply_raw a e t = Ok t'"
  shows "a_dropsDestroyed t' = a_dropsDestroyed t \<and> a_dropsCreated t' = a_dropsCreated t \<and> a_dropsVBCCreated t' = a_dropsVBCCreated t"
  using assms
  by (auto simp: apply_action_def apply_raw_def with_ref_def apply_rawErase_def apply_insert_def apply_replace_def Let_def
      split: Action.splits option.splits)

lemma apply_items_drops:
  "apply_items apply_raw items t = Ok t' \<Longrightarrow>
   a_dropsDestroyed t' = a_dropsDestroyed t \<and> a_dropsCreated t' = a_dropsCreated t \<and> a_dropsVBCCreated t' = a_dropsVBCCreated t"
proof (induction items arbitrary: t)
  case (Cons p items)
  obtain k a r where p: "p = (k, a, r)" by (cases p) auto
  with Cons.prems obtain t1 where "apply_action apply_raw a (snd r) t = Ok t1" "apply_items apply_raw items t1 = Ok t'"
    by auto
  then show ?case using apply_raw_drops Cons.IH by metis
qed simp

lemma apply_table_drops:
  assumes "apply_table inner apply_raw t = Ok t'"
  shows "a_dropsDestroyed t' = a_dropsDestroyed t + a_dropsDestroyed inner"
    "a_dropsCreated t' = a_dropsCreated t + a_dropsCreated inner"
    "a_dropsVBCCreated t' = a_dropsVBCCreated t + a_dropsVBCCreated inner"
  using apply_items_drops [OF assms [unfolded apply_table_def]]
  by (simp_all add: apply_raw_def apply_destroyXRP_def apply_createXRP_def apply_createVBC_def)

section \<open>Properties\<close>

text \<open>
  C1. Views stack: over a closed ledger, a consistent open view and a consistent sandbox on top of
  it, reading through the two tables is reading the state they stand for. For a keylet with a
  non-zero key whose entry, when there is one, has the keylet's type, no assertion fails in
  \<open>read\<close>, \<open>peek\<close> and \<open>exists\<close>, \<open>read\<close> and \<open>peek\<close> give the entry that is there and \<open>exists\<close> tells
  whether there is one. For every keylet, the assertions of \<open>read\<close> and \<open>peek\<close> fail exactly when the
  key is zero or the entry there is not of a type the keylet's assertion accepts; a build without
  assertions then reads nothing. And \<open>succ\<close> always returns the least key above the given one and
  below the bound, skipping erased entries.
\<close>
theorem view_stack_reads:
  assumes "ledger_ok l" "raw_consistent rt (map_of l)" "apply_consistent t (raw_overlay rt (map_of l))"
  shows "let base = open_view rt (ledger_view l); view = apply_view t base; m = apply_overlay t (raw_overlay rt (map_of l))
    in (kl_key k \<noteq> 0 \<and> typed m k \<longrightarrow>
          v_read_asserts view k \<and> v_read view k = m (kl_key k) \<and>
          peek_asserts base k t \<and> map_option snd (fst (peek base k t)) = m (kl_key k) \<and>
          v_exists_asserts view k \<and> v_exists view k = (m (kl_key k) \<noteq> None)) \<and>
      (v_read_asserts view k \<longleftrightarrow> kl_key k \<noteq> 0 \<and> keylet_fits m k) \<and>
      (peek_asserts base k t \<longleftrightarrow> kl_key k \<noteq> 0 \<and> keylet_fits m k) \<and>
      (\<not> typed m k \<longrightarrow> v_read view k = None) \<and>
      v_succ view x last' = Some (next_key m x last')"
proof -
  define base where "base = open_view rt (ledger_view l)"
  define m where "m = apply_overlay t (raw_overlay rt (map_of l))"
  have b: "read_view base (raw_overlay rt (map_of l))" unfolding base_def by (rule open_stack [OF assms(1,2)])
  note v = read_view.apply_layer [OF b assms(3), folded m_def]
  obtain r t' where p: "peek base k t = (r, t')" by fastforce
  note pk = read_view.peek_ok [OF b assms(3) p, folded m_def] read_view.peek_asserts_law [OF b assms(3), of k, folded m_def]
  have nt: "\<not> typed m k \<longrightarrow> checked_lookup m k = None"
    by (auto simp: typed_def checked_lookup_def)
  show ?thesis unfolding Let_def base_def [symmetric] m_def [symmetric]
    using read_view.read_law [OF v, of k] read_view.exists_law [OF v, of k] read_view.succ_law [OF v, of x last']
      read_view.read_asserts_law [OF v, of k] read_view.exists_asserts_law [OF v, of k] typed_fits [of m k]
      checked_lookup_typed [of m k] pk nt p by simp
qed

text \<open>
  C4. A sandbox may be stacked on a sandbox: whatever was done in the outer one and then in the
  inner one, applying the inner sandbox to the outer one raises no \<open>LogicError\<close>, leaves the outer
  table consistent with its base, and afterwards the outer view shows exactly what the inner one
  showed (every read and every successor search gives the same answer); the drops destroyed and
  created in the two are added up.
\<close>
theorem nested_sandbox_commit:
  assumes "read_view base m" "edits base m t" "edits (apply_view t base) (apply_overlay t m) inner"
  shows "\<exists>t'. apply_table inner apply_raw t = Ok t' \<and> apply_consistent t' m \<and>
    apply_overlay t' m = apply_overlay inner (apply_overlay t m) \<and>
    v_read (apply_view t' base) k = v_read (apply_view inner (apply_view t base)) k \<and>
    v_succ (apply_view t' base) x last' = v_succ (apply_view inner (apply_view t base)) x last' \<and>
    a_dropsDestroyed t' = a_dropsDestroyed t + a_dropsDestroyed inner \<and>
    a_dropsCreated t' = a_dropsCreated t + a_dropsCreated inner \<and>
    a_dropsVBCCreated t' = a_dropsVBCCreated t + a_dropsVBCCreated inner"
proof -
  have c: "apply_consistent t m" using edits_consistent [OF assms(2,1)] .
  note v = read_view.apply_layer [OF assms(1) c]
  have i: "apply_consistent inner (apply_overlay t m)" using edits_consistent [OF assms(3) v] .
  have "m 0 = None" using read_view.state [OF assms(1)] by (simp add: state_ok_def)
  from nested_consistent [OF this c i] obtain t' where t': "apply_table inner apply_raw t = Ok t'"
    "apply_consistent t' m" "apply_overlay t' m = apply_overlay inner (apply_overlay t m)" by blast
  note o = read_view.apply_layer [OF assms(1) t'(2)] and n = read_view.apply_layer [OF v i]
  show ?thesis using t' apply_table_drops [OF t'(1)] read_view.read_law [OF o] read_view.read_law [OF n]
      read_view.succ_law [OF o] read_view.succ_law [OF n] by (intro exI [of _ t']) simp
qed

text \<open>
  C2. Committing loses nothing and cannot fail: after any editing, nested sandboxes included,
  replaying the sandbox into the open view and then the open view into the ledger raises no
  \<open>LogicError\<close>, and the ledger ends up with exactly the entries the sandbox showed.
\<close>
theorem commit_through_stack:
  assumes "ledger_ok l" "raw_consistent rt (map_of l)"
    and "edits (open_view rt (ledger_view l)) (raw_overlay rt (map_of l)) t"
  shows "\<exists>rt' l'. apply_table t open_raw rt = Ok rt' \<and> raw_apply rt' ledger_raw l = Ok l' \<and> om_ok l' \<and>
    map_of l' = apply_overlay t (raw_overlay rt (map_of l))"
proof -
  have c: "apply_consistent t (raw_overlay rt (map_of l))"
    using edits_consistent [OF assms(3) open_stack [OF assms(1,2)]] .
  have z: "map_of l 0 = None" "om_ok l" using assms(1) by (simp_all add: ledger_ok_def state_ok_def)
  obtain rt' where rt': "apply_table t open_raw rt = Ok rt'" "raw_consistent rt' (map_of l)"
    "raw_overlay rt' (map_of l) = apply_overlay t (raw_overlay rt (map_of l))"
    using open_target.apply_commit [of rt "map_of l" t] assms(2) z(1) c by blast
  obtain l' where "raw_apply rt' ledger_raw l = Ok l'" "om_ok l'" "map_of l' = raw_overlay rt' (map_of l)"
    using ledger_target.raw_commit [OF z(2) rt'(2)] by blast
  with rt' show ?thesis by auto
qed

section \<open>Witnesses\<close>

text \<open>
  A ledger with one entry, an open view that inserts a second, a sandbox that changes the first
  and erases the second, and a sandbox on top of it that erases the first and inserts a third.
\<close>

definition sample_entry :: "key \<Rightarrow> nat SLE" where
  "sample_entry k = \<lparr>sle_key = k, sle_type = 97, sle_data = 7\<rparr>"

definition sample_ledger :: "(key, nat SLE) omap" where
  "sample_ledger = [(1, sample_entry 1)]"

definition sample_open :: "nat RawStateTable" where
  "sample_open = raw_empty\<lparr>r_items := [(2, RawInsert, sample_entry 2)]\<rparr>"

definition sample_base :: "nat ReadView" where
  "sample_base = open_view sample_open (ledger_view sample_ledger)"

definition sample_map :: "key \<rightharpoonup> nat SLE" where
  "sample_map = raw_overlay sample_open (map_of sample_ledger)"

definition sample_sandbox :: "nat ApplyStateTable" where
  "sample_sandbox = apply_empty\<lparr>a_items := [(1, Modify, 0, (sample_entry 1)\<lparr>sle_data := 8\<rparr>), (2, Erase, 1, sample_entry 2)],
     a_dropsDestroyed := 10, a_fresh := 2\<rparr>"

definition sample_inner :: "nat ApplyStateTable" where
  "sample_inner = apply_empty\<lparr>a_items := [(1, Erase, 0, (sample_entry 1)\<lparr>sle_data := 8\<rparr>), (3, Insert, 9, sample_entry 3)],
     a_dropsDestroyed := 5, a_fresh := 1\<rparr>"

lemma sample_ok: "ledger_ok sample_ledger" "raw_consistent sample_open (map_of sample_ledger)"
  by (auto simp: ledger_ok_def om_ok_def state_ok_def sample_ledger_def sample_open_def raw_consistent_def raw_empty_def
      sample_entry_def split: if_splits)

lemma sample_sandbox_ok: "apply_consistent sample_sandbox (raw_overlay sample_open (map_of sample_ledger))"
  by (auto simp: sample_ledger_def sample_open_def raw_empty_def om_ok_def
      sample_sandbox_def apply_consistent_def apply_empty_def raw_overlay_def sample_entry_def split: if_splits)

lemmas sample_defs = sample_base_def sample_map_def open_view_def raw_read_def ledger_view_def ledger_read_def
  keylet_unchecked_def keylet_check_def sample_open_def sample_ledger_def sample_entry_def apply_empty_def raw_empty_def Let_def

lemma sample_edits: "edits sample_base sample_map sample_sandbox"
proof -
  let ?t1 = "apply_empty\<lparr>a_items := [(1, Cache, 0, sample_entry 1)], a_fresh := 1\<rparr>"
  let ?t2 = "apply_empty\<lparr>a_items := [(1, Cache, 0, sample_entry 1), (2, Cache, 1, sample_entry 2)], a_fresh := 2\<rparr>"
  let ?t3 = "apply_empty\<lparr>a_items := [(1, Modify, 0, (sample_entry 1)\<lparr>sle_data := 8\<rparr>), (2, Cache, 1, sample_entry 2)], a_fresh := 2\<rparr>"
  let ?t4 = "apply_empty\<lparr>a_items := [(1, Modify, 0, (sample_entry 1)\<lparr>sle_data := 8\<rparr>), (2, Erase, 1, sample_entry 2)], a_fresh := 2\<rparr>"
  have "peek sample_base (keylet_unchecked 1) apply_empty = (Some (0, sample_entry 1), ?t1)"
    by (simp add: peek_def sample_defs)
  note e1 = edits_peek [OF edits_empty this]
  have "peek sample_base (keylet_unchecked 2) ?t1 = (Some (1, sample_entry 2), ?t2)"
    by (simp add: peek_def sample_defs)
  note e2 = edits_peek [OF e1 this]
  have "update (0, (sample_entry 1)\<lparr>sle_data := 8\<rparr>) ?t2 = Ok ?t3" by (simp add: update_def sample_defs)
  note e3 = edits_update [OF e2 this]
  have "apply_erase (1, sample_entry 2) ?t3 = Ok ?t4" by (simp add: apply_erase_def sample_defs)
  note e4 = edits_destroy [OF edits_erase [OF e3 this], where d = 10]
  moreover have "apply_destroyXRP 10 ?t4 = sample_sandbox" by (simp add: apply_destroyXRP_def sample_sandbox_def apply_empty_def)
  ultimately show ?thesis by simp
qed

lemma sample_inner_edits: "edits (apply_view sample_sandbox sample_base) (apply_overlay sample_sandbox sample_map) sample_inner"
proof -
  let ?b = "apply_view sample_sandbox sample_base" and ?m = "apply_overlay sample_sandbox sample_map"
  let ?e = "(sample_entry 1)\<lparr>sle_data := 8\<rparr>"
  let ?t1 = "apply_empty\<lparr>a_items := [(1, Cache, 0, ?e)], a_fresh := 1\<rparr>"
  let ?t2 = "apply_empty\<lparr>a_items := [(1, Erase, 0, ?e)], a_fresh := 1\<rparr>"
  let ?t3 = "apply_empty\<lparr>a_items := [(1, Erase, 0, ?e), (3, Insert, 9, sample_entry 3)], a_fresh := 1\<rparr>"
  have "peek ?b (keylet_unchecked 1) apply_empty = (Some (0, ?e), ?t1)"
    by (simp add: peek_def apply_view_def apply_read_def sample_sandbox_def sample_defs)
  note e1 = edits_peek [OF edits_empty this]
  have "apply_erase (0, ?e) ?t1 = Ok ?t2" by (simp add: apply_erase_def sample_defs)
  note e2 = edits_erase [OF e1 this]
  have f: "apply_overlay ?t2 ?m (sle_key (snd (9 :: nat, sample_entry 3))) = None" "sle_key (snd (9 :: nat, sample_entry 3)) \<noteq> 0"
    by (simp_all add: apply_overlay_def sample_sandbox_def raw_overlay_def sample_defs)
  have "apply_insert (9, sample_entry 3) ?t2 = Ok ?t3" by (simp add: apply_insert_def sample_defs)
  note e4 = edits_destroy [OF edits_insert [OF e2 f(2,1) this], where d = 5]
  moreover have "apply_destroyXRP 5 ?t3 = sample_inner" by (simp add: apply_destroyXRP_def sample_inner_def apply_empty_def)
  ultimately show ?thesis by simp
qed

theorem view_stack_reads_witness:
  "let base = open_view sample_open (ledger_view sample_ledger); view = apply_view sample_sandbox base
   in v_read_asserts view \<lparr>kl_type = 97, kl_key = 1\<rparr> \<and>
     v_read view \<lparr>kl_type = 97, kl_key = 1\<rparr> = Some ((sample_entry 1)\<lparr>sle_data := 8\<rparr>) \<and>
     v_exists_asserts view \<lparr>kl_type = 97, kl_key = 2\<rparr> \<and> \<not> v_exists view \<lparr>kl_type = 97, kl_key = 2\<rparr> \<and>
     \<not> v_read_asserts view \<lparr>kl_type = 100, kl_key = 1\<rparr>"
proof -
  let ?m = "apply_overlay sample_sandbox (raw_overlay sample_open (map_of sample_ledger))"
  have m: "?m 1 = Some ((sample_entry 1)\<lparr>sle_data := 8\<rparr>)" "?m 2 = None"
    by (simp_all add: apply_overlay_def sample_sandbox_def raw_overlay_def sample_defs)
  have t: "typed ?m \<lparr>kl_type = 97, kl_key = 1\<rparr>" "typed ?m \<lparr>kl_type = 97, kl_key = 2\<rparr>"
    using m by (simp_all add: typed_def keylet_check_def sample_entry_def ltANY_def ltINVALID_def ltCHILD_def)
  have n: "\<not> keylet_fits ?m \<lparr>kl_type = 100, kl_key = 1\<rparr>"
    using m by (simp add: keylet_fits_def keylet_check_asserts_def sample_entry_def ltANY_def ltINVALID_def ltCHILD_def)
  show ?thesis
    using view_stack_reads [OF sample_ok sample_sandbox_ok, of "\<lparr>kl_type = 97, kl_key = 1\<rparr>" 0 None]
      view_stack_reads [OF sample_ok sample_sandbox_ok, of "\<lparr>kl_type = 97, kl_key = 2\<rparr>" 0 None]
      view_stack_reads [OF sample_ok sample_sandbox_ok, of "\<lparr>kl_type = 100, kl_key = 1\<rparr>" 0 None] m t n
    unfolding Let_def by simp
qed

theorem nested_sandbox_commit_witness:
  "\<exists>t'. apply_table sample_inner apply_raw sample_sandbox = Ok t' \<and>
     apply_overlay t' sample_map 1 = None \<and> apply_overlay t' sample_map 2 = None \<and>
     apply_overlay t' sample_map 3 = Some (sample_entry 3) \<and> a_dropsDestroyed t' = 15"
proof -
  have b: "read_view sample_base sample_map" unfolding sample_base_def sample_map_def by (rule open_stack [OF sample_ok])
  have "apply_overlay sample_inner (apply_overlay sample_sandbox sample_map) 1 = None"
    "apply_overlay sample_inner (apply_overlay sample_sandbox sample_map) 2 = None"
    "apply_overlay sample_inner (apply_overlay sample_sandbox sample_map) 3 = Some (sample_entry 3)"
    "a_dropsDestroyed sample_sandbox + a_dropsDestroyed sample_inner = 15"
    by (simp_all add: apply_overlay_def sample_sandbox_def sample_inner_def raw_overlay_def sample_defs)
  then show ?thesis
    using nested_sandbox_commit [OF b sample_edits sample_inner_edits, of "keylet_unchecked 1" 0 None] by auto
qed

theorem commit_through_stack_witness:
  "\<exists>rt' l'. apply_table sample_sandbox open_raw sample_open = Ok rt' \<and> raw_apply rt' ledger_raw sample_ledger = Ok l' \<and>
     map_of l' 1 = Some ((sample_entry 1)\<lparr>sle_data := 8\<rparr>) \<and> map_of l' 2 = None"
proof -
  have "apply_overlay sample_sandbox sample_map 1 = Some ((sample_entry 1)\<lparr>sle_data := 8\<rparr>)" "apply_overlay sample_sandbox sample_map 2 = None"
    by (simp_all add: apply_overlay_def sample_sandbox_def raw_overlay_def sample_defs)
  then show ?thesis
    using commit_through_stack [OF sample_ok sample_edits [unfolded sample_base_def sample_map_def]]
    unfolding sample_map_def by auto
qed

end
