(* ===== verification/RawIter.thy ===== *)
theory RawIter
  imports ApplyTable
begin

text \<open>
  \<open>RawStateTable::sles_iter_impl\<close>: the forward iterator over the entries of an \<open>OpenView\<close>, which
  merges the iteration over the base with the buffered changes. The iterator is the two remaining
  ranges and the cached pointers into them; dereferencing a null pointer is \<open>NullDeref\<close>.
\<close>

section \<open>The iterator\<close>

record 'd sles_iter =
  sle0 :: "'d SLE option"
  iter0 :: "'d SLE list"
  sle1 :: "'d SLE option"
  iter1 :: "(key, RawAction \<times> 'd SLE) omap"

definition inc0 :: "'d sles_iter \<Rightarrow> 'd sles_iter" where
  "inc0 it = (let r = tl (iter0 it) in it\<lparr>iter0 := r, sle0 := (if r = [] then None else Some (hd r))\<rparr>)"

definition inc1 :: "'d sles_iter \<Rightarrow> 'd sles_iter" where
  "inc1 it = (let r = tl (iter1 it) in it\<lparr>iter1 := r, sle1 := (if r = [] then None else Some (snd (snd (hd r))))\<rparr>)"

function iter_skip :: "'d sles_iter \<Rightarrow> 'd sles_iter res" where
  "iter_skip it =
     (if iter1 it \<noteq> [] \<and> fst (snd (hd (iter1 it))) = RawErase then
        (case (sle0 it, sle1 it) of
           (Some s0, Some s1) \<Rightarrow>
             if sle_key s0 = sle_key s1 then
               let it' = inc0 (inc1 it) in if sle0 it' = None then Ok it' else iter_skip it'
             else Ok it
         | _ \<Rightarrow> Throw NullDeref)
      else Ok it)"
  by pat_completeness auto
termination
  by (relation "measure (\<lambda>it. length (iter1 it))") (auto simp: inc0_def inc1_def Let_def)

declare iter_skip.simps [simp del]

definition iter_make :: "(key, RawAction \<times> 'd SLE) omap \<Rightarrow> 'd SLE list \<Rightarrow> 'd sles_iter res" where
  "iter_make items base =
     (let it = \<lparr>sle0 = (if base = [] then None else Some (hd base)), iter0 = base, sle1 = None, iter1 = items\<rparr>
      in if items \<noteq> [] then iter_skip (it\<lparr>sle1 := Some (snd (snd (hd items)))\<rparr>) else Ok it)"

definition iter_equal :: "'d sles_iter \<Rightarrow> 'd sles_iter \<Rightarrow> bool" where
  "iter_equal a b \<longleftrightarrow> iter1 a = iter1 b \<and> iter0 a = iter0 b"

definition increment :: "'d sles_iter \<Rightarrow> 'd sles_iter res" where
  "increment it =
     (case (sle1 it, sle0 it) of
        (None, None) \<Rightarrow> Throw AssertFailed
      | (Some _, None) \<Rightarrow> Ok (inc1 it)
      | (None, Some _) \<Rightarrow> Ok (inc0 it)
      | (Some s1, Some s0) \<Rightarrow>
          iter_skip (if sle_key s1 = sle_key s0 then inc0 (inc1 it)
                     else if sle_key s1 < sle_key s0 then inc1 it
                     else inc0 it))"

definition dereference :: "'d sles_iter \<Rightarrow> 'd SLE option" where
  "dereference it =
     (case (sle1 it, sle0 it) of
        (None, s0) \<Rightarrow> s0
      | (s1, None) \<Rightarrow> s1
      | (Some s1, Some s0) \<Rightarrow> if sle_key s1 \<le> sle_key s0 then Some s1 else Some s0)"

definition slesBegin :: "'d RawStateTable \<Rightarrow> 'd SLE list \<Rightarrow> 'd sles_iter res" where
  "slesBegin t base = iter_make (r_items t) base"

definition slesUpperBound :: "'d RawStateTable \<Rightarrow> 'd SLE list \<Rightarrow> key \<Rightarrow> 'd sles_iter res" where
  "slesUpperBound t base k = iter_make (om_upper k (r_items t)) (dropWhile (\<lambda>s. sle_key s \<le> k) base)"

text \<open>A range-for over \<open>sles\<close>, with fuel for its steps.\<close>

fun walk :: "nat \<Rightarrow> 'd sles_iter \<Rightarrow> 'd SLE list res" where
  "walk n it =
     (if iter1 it = [] \<and> iter0 it = [] then Ok []
      else case n of 0 \<Rightarrow> Throw Diverges
      | Suc n' \<Rightarrow>
          (case dereference it of None \<Rightarrow> Throw NullDeref
           | Some s \<Rightarrow> rbind (increment it) (\<lambda>it'. rbind (walk n' it') (\<lambda>xs. Ok (s # xs)))))"

declare walk.simps [simp del]

section \<open>Merging\<close>

fun merge :: "'d SLE list \<Rightarrow> (key, RawAction \<times> 'd SLE) omap \<Rightarrow> 'd SLE list" where
  "merge [] its = map (snd \<circ> snd) (filter (\<lambda>(_, a, _). a \<noteq> RawErase) its)"
| "merge bs [] = bs"
| "merge (b # bs) ((k, a, s) # its) =
     (if k = sle_key b then (if a = RawErase then merge bs its else s # merge bs its)
      else if k < sle_key b then s # merge (b # bs) its
      else b # merge bs ((k, a, s) # its))"

text \<open>The ranges fit: both are in key order and every change but an insertion has its entry in the base.\<close>

definition fit :: "'d SLE list \<Rightarrow> (key, RawAction \<times> 'd SLE) omap \<Rightarrow> bool" where
  "fit bs its \<longleftrightarrow> sorted_wrt (\<lambda>x y. sle_key x < sle_key y) bs \<and> om_ok its \<and>
     (\<forall>(k, a, s) \<in> set its. sle_key s = k \<and> (a = RawInsert \<longleftrightarrow> k \<notin> sle_key ` set bs))"

definition iter_at :: "'d sles_iter \<Rightarrow> 'd SLE list \<Rightarrow> (key, RawAction \<times> 'd SLE) omap \<Rightarrow> bool" where
  "iter_at it bs its \<longleftrightarrow> iter0 it = bs \<and> iter1 it = its \<and>
     sle0 it = (if bs = [] then None else Some (hd bs)) \<and> sle1 it = (if its = [] then None else Some (snd (snd (hd its))))"

lemma iter_at_inc0: "iter_at it (b # bs) its \<Longrightarrow> iter_at (inc0 it) bs its"
  by (auto simp: iter_at_def inc0_def Let_def)

lemma iter_at_inc1: "iter_at it bs (i # its) \<Longrightarrow> iter_at (inc1 it) bs its"
  by (auto simp: iter_at_def inc1_def Let_def)

lemma fit_base: "fit (b # bs) its \<Longrightarrow> (\<And>k a s. (k, a, s) \<in> set its \<Longrightarrow> k \<noteq> sle_key b) \<Longrightarrow> fit bs its"
  by (fastforce simp: fit_def)

lemma fit_both: "fit (b # bs) ((sle_key b, a, s) # its) \<Longrightarrow> fit bs its"
  by (fastforce simp: fit_def om_ok_Cons)

lemma fit_item: "fit bs (i # its) \<Longrightarrow> fit bs its"
  by (cases i) (auto simp: fit_def om_ok_Cons)

lemma fit_empty: "fit [] its \<Longrightarrow> (k, a, s) \<in> set its \<Longrightarrow> a = RawInsert"
  by (auto simp: fit_def)

lemma fit_less:
  assumes "fit (b # bs) ((k, a, s) # its)" "k < sle_key b"
  shows "a = RawInsert"
proof -
  have "k \<notin> sle_key ` set (b # bs)" using assms by (fastforce simp: fit_def)
  then show ?thesis using assms(1) by (auto simp: fit_def)
qed

text \<open>\<open>skip\<close> stops where the next thing to show is not an erased entry.\<close>

definition settled :: "'d SLE list \<Rightarrow> (key, RawAction \<times> 'd SLE) omap \<Rightarrow> bool" where
  "settled bs its \<longleftrightarrow> (case (bs, its) of (b # _, (k, a, _) # _) \<Rightarrow> \<not> (a = RawErase \<and> k = sle_key b) | _ \<Rightarrow> True)"

lemma skip_settles:
  assumes "iter_at it bs its" "fit bs its"
  shows "\<exists>it' bs' its'. iter_skip it = Ok it' \<and> iter_at it' bs' its' \<and> fit bs' its' \<and> settled bs' its' \<and>
    merge bs' its' = merge bs its \<and> length bs' + length its' \<le> length bs + length its"
  using assms
proof (induction its arbitrary: it bs)
  case Nil
  then have "iter_skip it = Ok it" by (simp add: iter_skip.simps iter_at_def)
  with Nil show ?case by (intro exI [of _ it] exI [of _ bs] exI [of _ "[]"]) (auto simp: settled_def split: list.splits)
next
  case (Cons i its)
  obtain k a s where i: "i = (k, a, s)" by (cases i)
  have sk: "sle_key s = k" using Cons.prems(2) i by (auto simp: fit_def)
  show ?case
  proof (cases "a = RawErase")
    case False
    then have "iter_skip it = Ok it" using Cons.prems i by (simp add: iter_skip.simps iter_at_def)
    with Cons.prems False i show ?thesis
      by (intro exI [of _ it] exI [of _ bs] exI [of _ "i # its"]) (auto simp: settled_def split: list.splits)
  next
    case True
    from Cons.prems(2) i True obtain b bs' where b: "bs = b # bs'" by (cases bs) (auto simp: fit_def)
    show ?thesis
    proof (cases "sle_key b = k")
      case False
      then have "iter_skip it = Ok it" using Cons.prems(1) i b sk by (simp add: iter_skip.simps [of it] iter_at_def)
      with Cons.prems False i b show ?thesis
        by (intro exI [of _ it] exI [of _ bs] exI [of _ "i # its"]) (auto simp: settled_def)
    next
      case eq: True
      let ?it = "inc0 (inc1 it)"
      have a': "iter_at ?it bs' its" using Cons.prems(1) b by (auto intro: iter_at_inc0 iter_at_inc1)
      have fit': "fit bs' its" using Cons.prems(2) i b eq by (auto intro: fit_both)
      have m: "merge bs (i # its) = merge bs' its" using i b eq True by simp
      have body: "iter_skip it = (if sle0 ?it = None then Ok ?it else iter_skip ?it)"
        using Cons.prems(1) i b eq sk True by (simp add: iter_skip.simps [of it] iter_at_def Let_def)
      show ?thesis
      proof (cases "bs' = []")
        case True
        then have "sle0 ?it = None" using a' by (simp add: iter_at_def)
        then show ?thesis using body a' fit' m b True
          by (intro exI [of _ ?it] exI [of _ bs'] exI [of _ its]) (simp add: settled_def)
      next
        case False
        then have "sle0 ?it \<noteq> None" using a' by (simp add: iter_at_def)
        then have e: "iter_skip it = iter_skip ?it" using body by (simp only: if_False)
        from Cons.IH [OF a' fit'] show ?thesis unfolding e m by (elim exE conjE) (intro exI conjI, assumption+, simp add: b)
      qed
    qed
  qed
qed

lemma fit_above:
  assumes "fit (b # bs) ((k, a, s) # its)" "sle_key b < k"
  shows "fit bs ((k, a, s) # its)"
proof (rule fit_base [OF assms(1)])
  have "\<forall>(k', _) \<in> set its. k < k'" using assms(1) by (simp add: fit_def om_ok_Cons)
  then show "(k', a', s') \<in> set ((k, a, s) # its) \<Longrightarrow> k' \<noteq> sle_key b" for k' a' s' using assms(2) by fastforce
qed

text \<open>One step of the loop shows the first entry of the merge.\<close>

lemma step_shows:
  assumes "iter_at it bs its" "fit bs its" "settled bs its" "bs \<noteq> [] \<or> its \<noteq> []"
  shows "\<exists>s it' bs' its'. dereference it = Some s \<and> increment it = Ok it' \<and> iter_at it' bs' its' \<and> fit bs' its' \<and>
    settled bs' its' \<and> merge bs its = s # merge bs' its' \<and> length bs' + length its' < length bs + length its"
proof (cases bs)
  case Nil
  then obtain k a s its' where i: "its = (k, a, s) # its'" using assms(4) by (cases its) auto
  have "a = RawInsert" using fit_empty [of its k a s] assms(2) Nil i by simp
  moreover have "iter_at (inc1 it) [] its'" "fit [] its'" using assms(1,2) Nil i by (auto intro: iter_at_inc1 fit_item)
  ultimately show ?thesis using assms(1) Nil i
    by (intro exI [of _ s] exI [of _ "inc1 it"] exI [of _ "[]"] exI [of _ its'])
      (simp add: iter_at_def dereference_def increment_def settled_def)
next
  case b: (Cons b bs')
  show ?thesis
  proof (cases its)
    case Nil
    moreover have "iter_at (inc0 it) bs' []" "fit bs' []" using assms(1,2) b Nil by (auto intro: iter_at_inc0 fit_base)
    ultimately show ?thesis using assms(1) b
      by (intro exI [of _ b] exI [of _ "inc0 it"] exI [of _ bs'] exI [of _ "[]"])
        (cases bs'; simp add: iter_at_def dereference_def increment_def settled_def)
  next
    case (Cons i its')
    obtain k a s where i: "i = (k, a, s)" by (cases i)
    have sk: "sle_key s = k" using assms(2) Cons i by (auto simp: fit_def)
    note at = assms(1) [unfolded b Cons i] and ft = assms(2) [unfolded b Cons i]
    have step: ?thesis
      if n: "iter_at it2 bs2 its2" "fit bs2 its2" "increment it = iter_skip it2" "dereference it = Some x"
        "merge bs its = x # merge bs2 its2" "length bs2 + length its2 < length bs + length its"
      for it2 bs2 its2 x
    proof -
      obtain it' bs' its' where "iter_skip it2 = Ok it'" "iter_at it' bs' its'" "fit bs' its'" "settled bs' its'"
        "merge bs' its' = merge bs2 its2" "length bs' + length its' \<le> length bs2 + length its2"
        using skip_settles [OF n(1,2)] by blast
      then show ?thesis using n(3-6)
        by (intro exI [of _ x] exI [of _ it'] exI [of _ bs'] exI [of _ its']) simp
    qed
    consider "k = sle_key b" | "k < sle_key b" | "sle_key b < k" by fastforce
    then show ?thesis
    proof cases
      case 1
      have "a \<noteq> RawErase" using assms(3) b Cons i 1 by (simp add: settled_def)
      moreover have "iter_at (inc0 (inc1 it)) bs' its'" using at by (auto intro: iter_at_inc0 iter_at_inc1)
      moreover have "fit bs' its'" using ft 1 by (auto intro: fit_both)
      ultimately show ?thesis using at 1 b Cons i sk
        by (intro step [of "inc0 (inc1 it)" bs' its' s]) (simp_all add: iter_at_def dereference_def increment_def)
    next
      case 2
      have "iter_at (inc1 it) bs its'" using at b by (auto intro: iter_at_inc1)
      moreover have "fit bs its'" using ft b by (auto intro: fit_item)
      moreover have "k \<noteq> sle_key b" using 2 by simp
      ultimately show ?thesis using at 2 b Cons i sk
        by (intro step [of "inc1 it" bs its' s]) (simp_all add: iter_at_def dereference_def increment_def)
    next
      case 3
      have "iter_at (inc0 it) bs' its" using at Cons i by (auto intro: iter_at_inc0)
      moreover have "fit bs' its" using fit_above [OF ft 3] Cons i by simp
      moreover have "k \<noteq> sle_key b" "\<not> k < sle_key b" using 3 by auto
      ultimately show ?thesis using at 3 b Cons i sk
        by (intro step [of "inc0 it" bs' its b]) (simp_all add: iter_at_def dereference_def increment_def)
    qed
  qed
qed

lemma walk_merge:
  assumes "iter_at it bs its" "fit bs its" "settled bs its" "length bs + length its \<le> n"
  shows "walk n it = Ok (merge bs its)"
  using assms
proof (induction n arbitrary: it bs its)
  case 0
  then show ?case by (simp add: walk.simps iter_at_def)
next
  case (Suc n)
  show ?case
  proof (cases "bs = [] \<and> its = []")
    case True
    then show ?thesis using Suc.prems(1) by (simp add: walk.simps iter_at_def)
  next
    case False
    then obtain s it' bs' its' where s: "dereference it = Some s" "increment it = Ok it'" "iter_at it' bs' its'"
      "fit bs' its'" "settled bs' its'" "merge bs its = s # merge bs' its'" "length bs' + length its' < length bs + length its"
      using step_shows [OF Suc.prems(1-3)] by blast
    have "walk n it' = Ok (merge bs' its')" using Suc.IH [OF s(3-5)] s(7) Suc.prems(4) by simp
    then show ?thesis using s(1,2,6) False Suc.prems(1) by (auto simp: walk.simps [of "Suc n"] iter_at_def)
  qed
qed

lemma make_walk:
  assumes "fit bs its"
  shows "\<exists>it. iter_make its bs = Ok it \<and> (\<forall>n \<ge> length bs + length its. walk n it = Ok (merge bs its))"
proof -
  let ?it = "\<lparr>sle0 = (if bs = [] then None else Some (hd bs)), iter0 = bs,
    sle1 = (if its = [] then None else Some (snd (snd (hd its)))), iter1 = its\<rparr>"
  have a: "iter_at ?it bs its" by (simp add: iter_at_def)
  show ?thesis
  proof (cases "its = []")
    case True
    then have "settled bs its" by (simp add: settled_def split: list.splits)
    then show ?thesis using walk_merge [OF a assms] True by (simp add: iter_make_def Let_def)
  next
    case False
    then have "iter_make its bs = iter_skip ?it" by (simp add: iter_make_def Let_def)
    moreover obtain it' bs' its' where i: "iter_skip ?it = Ok it'" "iter_at it' bs' its'" "fit bs' its'" "settled bs' its'"
      "merge bs' its' = merge bs its" "length bs' + length its' \<le> length bs + length its"
      using skip_settles [OF a assms] by blast
    ultimately show ?thesis using walk_merge [OF i(2-4)] by (auto simp: i(5) [symmetric] intro!: exI [of _ it'])
  qed
qed

section \<open>What the merge holds\<close>

lemma merge_keys: "s \<in> set (merge bs its) \<Longrightarrow> s \<in> set bs \<or> s \<in> (snd \<circ> snd) ` set its"
  by (induction bs its rule: merge.induct) (auto split: if_splits)

lemma merge_set:
  assumes "fit bs its"
  shows "set (merge bs its) = {s \<in> set bs. sle_key s \<notin> fst ` set its} \<union> {s. \<exists>k a. (k, a, s) \<in> set its \<and> a \<noteq> RawErase}"
  using assms
proof (induction bs its rule: merge.induct)
  case (1 its)
  then show ?case by force
next
  case (2 b bs)
  then show ?case by auto
next
  case (3 b bs k a s' its)
  have o: "\<forall>(k', _) \<in> set its. k < k'" using "3.prems" by (simp add: fit_def om_ok_Cons)
  have p: "\<forall>s \<in> set bs. sle_key b < sle_key s" using "3.prems" by (simp add: fit_def)
  consider "k = sle_key b" | "k < sle_key b" | "sle_key b < k" by fastforce
  then show ?case
  proof cases
    case 1
    then have "fit bs its" using "3.prems" by (auto intro: fit_both)
    with "3.IH"(1,2) 1 have "set (merge bs its) =
      {s \<in> set bs. sle_key s \<notin> fst ` set its} \<union> {s. \<exists>k a. (k, a, s) \<in> set its \<and> a \<noteq> RawErase}" by blast
    moreover have "{s \<in> set bs. sle_key s \<notin> fst ` set its} =
      {s \<in> set (b # bs). sle_key s \<notin> fst ` set ((k, a, s') # its)}" using p 1 by auto
    ultimately show ?thesis using 1 by auto
  next
    case 2
    then have f: "fit (b # bs) its" using "3.prems" by (auto intro: fit_item)
    have "a = RawInsert" by (rule fit_less [OF "3.prems" 2])
    moreover have "k \<noteq> sle_key s" if "s \<in> set (b # bs)" for s using that 2 p by fastforce
    ultimately show ?thesis using 2 "3.IH"(3) [OF _ 2 f] by auto
  next
    case 3
    have "sle_key b \<notin> fst ` set ((k, a, s') # its)" using o 3 by fastforce
    then show ?thesis using "3.IH"(4) [OF _ _ fit_above [OF "3.prems" 3]] 3 by auto
  qed
qed

lemma merge_sorted:
  assumes "fit bs its"
  shows "sorted_wrt (\<lambda>x y. sle_key x < sle_key y) (merge bs its)"
  using assms
proof (induction bs its rule: merge.induct)
  case (1 its)
  then have "sorted_wrt (<) (map fst its)" "\<forall>(k, a, s) \<in> set its. sle_key s = k" by (auto simp: fit_def om_ok_def)
  then show ?case by (induction its) fastforce+
next
  case (2 b bs)
  then show ?case by (simp add: fit_def)
next
  case (3 b bs k a s' its)
  have o: "\<forall>(k', _) \<in> set its. k < k'" using "3.prems" by (simp add: fit_def om_ok_Cons)
  have q: "\<forall>(k', _, s) \<in> set ((k, a, s') # its). sle_key s = k'" using "3.prems" by (auto simp: fit_def)
  have p: "\<forall>s \<in> set bs. sle_key b < sle_key s" using "3.prems" by (simp add: fit_def)
  consider "k = sle_key b" | "k < sle_key b" | "sle_key b < k" by fastforce
  then show ?case
  proof cases
    case 1
    then have f: "fit bs its" using "3.prems" by (auto intro: fit_both)
    have "\<forall>s \<in> set (merge bs its). k < sle_key s" using merge_set [OF f] o p q 1 by fastforce
    then show ?thesis using 1 "3.IH"(1,2) f q by auto
  next
    case 2
    then have f: "fit (b # bs) its" using "3.prems" by (auto intro: fit_item)
    have "\<forall>s \<in> set (merge (b # bs) its). k < sle_key s" using merge_set [OF f] o p q 2 by fastforce
    then show ?thesis using 2 "3.IH"(3) [OF _ 2 f] q by auto
  next
    case 3
    note f = fit_above [OF "3.prems" 3]
    have "\<forall>s \<in> set (merge bs ((k, a, s') # its)). sle_key b < sle_key s" using merge_set [OF f] o p q 3 by fastforce
    then show ?thesis using 3 "3.IH"(4) [OF _ _ f] by auto
  qed
qed

section \<open>Iterating an open view\<close>

lemma consistent_fit:
  assumes "ledger_ok l" "raw_consistent t (map_of l)"
  shows "fit (map snd l) (r_items t)"
proof -
  have k: "sle_key s = k" if "(k, s) \<in> set l" for k s
    using that assms(1) om_in_set [of l k s] by (simp add: ledger_ok_def state_ok_def)
  have "map sle_key (map snd l) = map fst l" using k by auto
  then have "sorted_wrt (<) (map sle_key (map snd l))" "sle_key ` set (map snd l) = dom (map_of l)"
    using assms(1) by (simp_all only: ledger_ok_def om_ok_def dom_map_of_conv_image_fst set_map [symmetric])
  moreover have o: "om_ok (r_items t)" using assms(2) by (simp add: raw_consistent_def)
  moreover have "\<forall>(k, a, s) \<in> set (r_items t). sle_key s = k \<and> (a = RawInsert \<longleftrightarrow> k \<notin> dom (map_of l))"
    using assms(2) unfolding raw_consistent_def by (clarsimp simp: om_in_set [OF o] domIff)
  ultimately show ?thesis unfolding fit_def by (simp only: sorted_wrt_map)
qed

text \<open>
  C6. Iterating over \<open>OpenView::sles\<close> on a closed ledger never dereferences a null pointer, never fails
  an assertion and ends within as many steps as the ledger and the table have entries; it shows every
  entry of the overlaid state exactly once, in strictly increasing key order, and no erased entry.
\<close>

theorem iteration_shows_overlay:
  assumes "ledger_ok l" "raw_consistent t (map_of l)" "length l + length (r_items t) \<le> n"
  shows "\<exists>xs. rbind (slesBegin t (map snd l)) (walk n) = Ok xs \<and> sorted_wrt (\<lambda>x y. sle_key x < sle_key y) xs \<and>
    (\<forall>s. s \<in> set xs \<longleftrightarrow> raw_overlay t (map_of l) (sle_key s) = Some s)"
proof -
  note f = consistent_fit [OF assms(1,2)]
  have k: "(k, s) \<in> set l \<Longrightarrow> sle_key s = k" for k s
    using assms(1) om_in_set [of l k s] by (simp add: ledger_ok_def state_ok_def)
  have ol: "om_ok l" using assms(1) by (simp add: ledger_ok_def)
  have l: "s \<in> set (map snd l) \<longleftrightarrow> map_of l (sle_key s) = Some s" for s
  proof -
    have "s \<in> set (map snd l) \<Longrightarrow> (sle_key s, s) \<in> set l" by (clarsimp, frule k, simp)
    moreover have "(sle_key s, s) \<in> set l \<Longrightarrow> s \<in> set (map snd l)" by (auto simp: rev_image_eqI)
    ultimately have "s \<in> set (map snd l) \<longleftrightarrow> (sle_key s, s) \<in> set l" by blast
    then show ?thesis using om_in_set [OF ol] by simp
  qed
  have o: "om_ok (r_items t)" using f by (simp add: fit_def)
  have i: "(\<exists>k a. (k, a, s) \<in> set (r_items t) \<and> a \<noteq> RawErase) \<longleftrightarrow> (\<exists>a. map_of (r_items t) (sle_key s) = Some (a, s) \<and> a \<noteq> RawErase)" for s
  proof
    assume "\<exists>k a. (k, a, s) \<in> set (r_items t) \<and> a \<noteq> RawErase"
    then obtain k a where x: "(k, a, s) \<in> set (r_items t)" "a \<noteq> RawErase" by blast
    then have "sle_key s = k" using f by (auto simp: fit_def)
    with x om_in_set [OF o, of k "(a, s)"] show "\<exists>a. map_of (r_items t) (sle_key s) = Some (a, s) \<and> a \<noteq> RawErase" by auto
  next
    assume "\<exists>a. map_of (r_items t) (sle_key s) = Some (a, s) \<and> a \<noteq> RawErase"
    then show "\<exists>k a. (k, a, s) \<in> set (r_items t) \<and> a \<noteq> RawErase" using om_in_set [OF o] by blast
  qed
  have "s \<in> set (merge (map snd l) (r_items t)) \<longleftrightarrow> raw_overlay t (map_of l) (sle_key s) = Some s" for s
    unfolding merge_set [OF f] raw_overlay_def using l [of s] i [of s]
    by (auto simp: map_of_eq_None_iff [symmetric] split: option.splits RawAction.splits)
  moreover obtain it where "iter_make (r_items t) (map snd l) = Ok it"
    "\<forall>n \<ge> length (map snd l) + length (r_items t). walk n it = Ok (merge (map snd l) (r_items t))"
    using make_walk [OF f] by blast
  ultimately show ?thesis using merge_sorted [OF f] assms(3) by (simp add: slesBegin_def)
qed

theorem iteration_shows_overlay_witness:
  "\<exists>xs. rbind (slesBegin sample_open (map snd sample_ledger)) (walk 2) = Ok xs \<and> length xs = 2 \<and>
    sorted_wrt (\<lambda>x y. sle_key x < sle_key y) xs"
proof -
  obtain xs where x: "rbind (slesBegin sample_open (map snd sample_ledger)) (walk 2) = Ok xs"
    "sorted_wrt (\<lambda>x y. sle_key x < sle_key y) xs"
    using iteration_shows_overlay [OF sample_ok(1,2), of 2] by (auto simp: sample_ledger_def sample_open_def raw_empty_def)
  moreover have "rbind (slesBegin sample_open (map snd sample_ledger)) (walk 2) = Ok [sample_entry 1, sample_entry 2]"
    by code_simp
  ultimately show ?thesis by auto
qed

end
