(* ===== verification/Decay.thy ===== *)
theory Decay
  imports Prelude
begin

text \<open>
  \<open>DecayingSample\<close> (\<open>basics/DecayingSample.h\<close>): an integer that loses the \<open>Window\<close>-th part of its value,
  rounded up, for every whole second that passes. Time points are the tick counts of
  \<open>std::chrono::steady_clock\<close>, nanoseconds. \<open>DecayWindow\<close>, its floating-point sibling, is not modelled.
\<close>

section \<open>Definitions\<close>

record DecayingSample =
  m_value :: int
  m_when :: int

definition ticks_per_second :: int where "ticks_per_second = 1000000000"

definition DecayingSample_make :: "int \<Rightarrow> DecayingSample" where
  "DecayingSample_make now = \<lparr>m_value = 0, m_when = now\<rparr>"

primrec decay_steps :: "int \<Rightarrow> nat \<Rightarrow> int \<Rightarrow> int" where
  "decay_steps W 0 v = v"
| "decay_steps W (Suc n) v = decay_steps W n (v - (v + W - 1) sdiv W)"

definition decay :: "int \<Rightarrow> int \<Rightarrow> DecayingSample \<Rightarrow> DecayingSample" where
  "decay W now s =
     (if now = m_when s then s
      else
        let v = (if m_value s \<noteq> 0 then
                   let elapsed = (word_of_int ((now - m_when s) sdiv ticks_per_second) :: u64)
                   in if elapsed > word_of_int (4 * W) then 0 else decay_steps W (unat elapsed) (m_value s)
                 else m_value s)
        in s\<lparr>m_value := v, m_when := now\<rparr>)"

definition ds_add :: "int \<Rightarrow> int \<Rightarrow> int \<Rightarrow> DecayingSample \<Rightarrow> int \<times> DecayingSample" where
  "ds_add W v now s = (let s = decay W now s; s = s\<lparr>m_value := m_value s + v\<rparr> in (m_value s sdiv W, s))"

definition ds_value :: "int \<Rightarrow> int \<Rightarrow> DecayingSample \<Rightarrow> int \<times> DecayingSample" where
  "ds_value W now s = (let s = decay W now s in (m_value s sdiv W, s))"

section \<open>One second\<close>

lemma decay_sdiv: "0 \<le> a \<Longrightarrow> 0 < b \<Longrightarrow> a sdiv b = a div b" for a b :: int
  by (cases "a = 0") (simp_all add: signed_divide_int_def)

text \<open>A step keeps the value's share \<open>(W - 1) / W\<close>, rounded down.\<close>

lemma decay_step:
  fixes v W :: int
  assumes "0 \<le> v" "0 < W"
  shows "v - (v + W - 1) sdiv W = v * (W - 1) div W"
proof -
  let ?q = "(v + W - 1) div W" and ?r = "(v + W - 1) mod W"
  have r: "0 \<le> ?r" "?r < W" using assms(2) by simp_all
  have "v + W - 1 = W * ?q + ?r" by (simp add: mult_div_mod_eq)
  then have "v * (W - 1) = W * (v - ?q) + (W - 1 - ?r)" by (simp add: algebra_simps)
  then have "v * (W - 1) div W = v - ?q" by (rule int_div_pos_eq) (use r in auto)
  then show ?thesis using assms by (simp add: decay_sdiv)
qed

lemma decay_steps_range: "0 \<le> v \<Longrightarrow> 0 < W \<Longrightarrow> 0 \<le> decay_steps W n v \<and> decay_steps W n v \<le> v"
proof (induction n arbitrary: v)
  case (Suc n)
  have "0 \<le> v * (W - 1) div W" using Suc.prems by (simp add: div_int_pos_iff)
  moreover have "v * (W - 1) div W \<le> v * W div W" using Suc.prems by (intro zdiv_mono1) (simp_all add: mult_left_mono)
  ultimately show ?case using Suc.IH [of "v * (W - 1) div W"] Suc.prems by (simp add: decay_step)
qed simp

lemma decay_steps_zero [simp]: "0 < W \<Longrightarrow> decay_steps W n 0 = 0"
  using decay_steps_range [of 0 W n] by simp

lemma decay_steps_add: "decay_steps W (n + k) v = decay_steps W k (decay_steps W n v)"
  by (induction n arbitrary: v) auto

section \<open>Exponential decay\<close>

definition decay_factor :: "int \<Rightarrow> rat" where
  "decay_factor W = (of_int W - 1) / of_int W"

lemma decay_factor_range: "0 < W \<Longrightarrow> 0 \<le> decay_factor W \<and> decay_factor W < 1"
  by (simp add: decay_factor_def divide_simps)

lemma floor_div: 
  fixes v W :: int
  assumes "0 < W"
  shows "of_int (v * (W - 1) div W) \<le> (of_int v * decay_factor W :: rat)"
    "(of_int v * decay_factor W :: rat) - 1 \<le> of_int (v * (W - 1) div W)"
proof -
  have e: "of_int v * decay_factor W = (of_int (v * (W - 1)) / of_int W :: rat)" by (simp add: decay_factor_def)
  have f: "v * (W - 1) div W = floor (of_int (v * (W - 1)) / of_int W :: rat)" by (rule floor_divide_of_int_eq [symmetric])
  show "of_int (v * (W - 1) div W) \<le> (of_int v * decay_factor W :: rat)" unfolding e f by simp
  show "(of_int v * decay_factor W :: rat) - 1 \<le> of_int (v * (W - 1) div W)" unfolding e f by linarith
qed

lemma decay_steps_exponential:
  assumes "0 \<le> v" "0 < W"
  shows "of_int (decay_steps W n v) \<le> (of_int v * decay_factor W ^ n :: rat) \<and>
    (of_int v * decay_factor W ^ n :: rat) - (\<Sum>i<n. decay_factor W ^ i) \<le> of_int (decay_steps W n v)"
  using assms(1)
proof (induction n arbitrary: v)
  case (Suc n)
  let ?d = "decay_factor W" and ?w = "v * (W - 1) div W"
  have d: "0 \<le> ?d ^ n" using decay_factor_range [OF assms(2)] by simp
  have w: "0 \<le> ?w" using Suc.prems assms(2) by (simp add: div_int_pos_iff)
  have "of_int ?w * ?d ^ n \<le> of_int v * ?d * ?d ^ n" by (rule mult_right_mono [OF floor_div(1) [OF assms(2)] d])
  moreover have "(of_int v * ?d - 1) * ?d ^ n \<le> of_int ?w * ?d ^ n" by (rule mult_right_mono [OF floor_div(2) [OF assms(2)] d])
  ultimately show ?case using Suc.IH [OF w] Suc.prems assms(2)
    unfolding decay_steps.simps decay_step [OF Suc.prems assms(2)] by (simp add: algebra_simps)
qed simp

lemma decay_sum: "0 < W \<Longrightarrow> (\<Sum>i<n. decay_factor W ^ i) \<le> of_int W"
proof -
  assume W: "0 < W"
  have f: "decay_factor W \<noteq> 1" "1 - decay_factor W = 1 / of_int W" "0 \<le> decay_factor W ^ n"
    using W decay_factor_range [OF W] by (auto simp: decay_factor_def field_simps)
  have "(\<Sum>i<n. decay_factor W ^ i) = (1 - decay_factor W ^ n) / (1 - decay_factor W)"
    using f(1) by (simp add: sum_gp_strict)
  also have "\<dots> = (1 - decay_factor W ^ n) * of_int W" unfolding f(2) by simp
  also have "\<dots> \<le> 1 * of_int W" using W f(3) by (intro mult_right_mono) auto
  finally show ?thesis by simp
qed

lemma unat_word_of_int_u64: "0 \<le> x \<Longrightarrow> x < 2 ^ 64 \<Longrightarrow> unat (word_of_int x :: u64) = nat x"
  by (simp add: unat_eq_nat_uint uint_word_of_int)

lemma elapsed_unat:
  assumes "m_when s \<le> now" "(now - m_when s) div ticks_per_second < 2 ^ 64"
  shows "(now - m_when s) sdiv ticks_per_second = (now - m_when s) div ticks_per_second"
    "unat (word_of_int ((now - m_when s) sdiv ticks_per_second) :: u64) = nat ((now - m_when s) div ticks_per_second)"
proof -
  show e: "(now - m_when s) sdiv ticks_per_second = (now - m_when s) div ticks_per_second"
    using assms(1) by (simp add: decay_sdiv ticks_per_second_def)
  have "0 \<le> (now - m_when s) div ticks_per_second" using assms(1) by (simp add: ticks_per_second_def pos_imp_zdiv_nonneg_iff)
  then show "unat (word_of_int ((now - m_when s) sdiv ticks_per_second) :: u64) = nat ((now - m_when s) div ticks_per_second)"
    unfolding e using assms(2) by (simp add: unat_word_of_int_u64)
qed

definition seconds_since :: "DecayingSample \<Rightarrow> int \<Rightarrow> nat" where
  "seconds_since s now = nat ((now - m_when s) div ticks_per_second)"

text \<open>What \<open>decay\<close> does when the clock does not run backwards.\<close>

lemma decay_value:
  assumes "m_when s \<le> now" "(now - m_when s) div ticks_per_second < 2 ^ 64" "0 < W" "W < 2 ^ 31"
  shows "m_value (decay W now s) = (if seconds_since s now > nat (4 * W) then 0 else decay_steps W (seconds_since s now) (m_value s))"
    "m_when (decay W now s) = now"
proof -
  have u: "unat (word_of_int (4 * W) :: u64) = nat (4 * W)" using assms(3,4) by (intro unat_word_of_int_u64) auto
  have "word_of_int (4 * W) < (word_of_int ((now - m_when s) sdiv ticks_per_second) :: u64) \<longleftrightarrow> nat (4 * W) < seconds_since s now"
    unfolding word_less_nat_alt u elapsed_unat(2) [OF assms(1,2)] seconds_since_def by (rule refl)
  moreover have "now = m_when s \<Longrightarrow> seconds_since s now = 0" by (simp add: seconds_since_def)
  ultimately show "m_value (decay W now s) = (if seconds_since s now > nat (4 * W) then 0 else decay_steps W (seconds_since s now) (m_value s))"
    using assms(3) elapsed_unat(2) [OF assms(1,2)] by (simp add: decay_def Let_def seconds_since_def [symmetric])
  show "m_when (decay W now s) = now" by (simp add: decay_def Let_def)
qed

text \<open>
  For a clock that does not run backwards, \<open>DecayingSample::decay\<close> is exponential decay up to the
  window: after \<open>n\<close> whole seconds, at most four windows, a value \<open>v\<close> lies between
  \<open>v ((W - 1) / W)^n - W\<close> and \<open>v ((W - 1) / W)^n\<close>; later it is zero. It never becomes negative.
\<close>

theorem decay_exponential:
  assumes "0 \<le> m_value s" "m_when s \<le> now" "(now - m_when s) div ticks_per_second < 2 ^ 64" "0 < W" "W < 2 ^ 31"
  shows "0 \<le> m_value (decay W now s) \<and>
    (if seconds_since s now \<le> nat (4 * W)
     then of_int (m_value s) * decay_factor W ^ seconds_since s now - of_int W \<le> (of_int (m_value (decay W now s)) :: rat) \<and>
       of_int (m_value (decay W now s)) \<le> (of_int (m_value s) * decay_factor W ^ seconds_since s now :: rat)
     else m_value (decay W now s) = 0)"
  using decay_steps_exponential [OF assms(1,4), of "seconds_since s now"] decay_sum [OF assms(4), of "seconds_since s now"]
    decay_steps_range [OF assms(1,4), of "seconds_since s now"]
  unfolding decay_value(1) [OF assms(2-5)] by auto

definition sample_load :: DecayingSample where
  "sample_load = \<lparr>m_value = 6400, m_when = 0\<rparr>"

theorem decay_exponential_witness:
  "m_value (decay 32 2000000000 sample_load) \<ge> 0 \<and> (of_int (m_value (decay 32 2000000000 sample_load)) :: rat) \<le> 6400 * (31 / 32) ^ 2"
  using decay_exponential [of sample_load 2000000000 32]
  by (simp add: sample_load_def seconds_since_def ticks_per_second_def decay_factor_def)

text \<open>Time points less than a second apart.\<close>

primrec subsecond :: "int \<Rightarrow> int list \<Rightarrow> bool" where
  "subsecond t0 [] \<longleftrightarrow> True"
| "subsecond t0 (t # ts) \<longleftrightarrow> t0 \<le> t \<and> t < t0 + ticks_per_second \<and> subsecond t ts"

text \<open>
  A sample that is read more often than once a second never decays: \<open>decay\<close> counts whole seconds
  since the last reading, but restarts the count at every reading.
\<close>

theorem decay_stalls:
  assumes "subsecond (m_when s) ts" "0 < W" "W < 2 ^ 31"
  shows "m_value (foldl (\<lambda>s t. snd (ds_value W t s)) s ts) = m_value s"
  using assms(1)
proof (induction ts arbitrary: s)
  case (Cons t ts)
  have z: "(t - m_when s) div ticks_per_second = 0" using Cons.prems by (intro div_pos_pos_trivial) auto
  have d: "m_value (decay W t s) = m_value s" "m_when (decay W t s) = t"
    using decay_value [of s t W] Cons.prems assms(2,3) z by (simp_all add: seconds_since_def)
  then show ?case using Cons.IH [of "decay W t s"] Cons.prems by (simp add: ds_value_def Let_def)
qed simp

theorem decay_stalls_witness:
  "m_value (foldl (\<lambda>s t. snd (ds_value 32 t s)) sample_load [600000000, 1200000000, 1800000000, 2400000000]) = 6400"
  using decay_stalls [of sample_load "[600000000, 1200000000, 1800000000, 2400000000]" 32]
  by (simp add: sample_load_def ticks_per_second_def)

end
