(* ===== verification/Resource.thy ===== *)
theory Resource
  imports Decay
begin

text \<open>
  The resource manager (\<open>resource/impl\<close>): a table of endpoints with their consumption, four intrusive
  lists that partition it by activity, reference-counted \<open>Consumer\<close> handles and balances imported
  from peers. An entry is named by its key, as the back pointer \<open>Entry::key\<close> does. Time points are
  nanosecond counts. \<open>int\<close> balances are mathematical integers: signed overflow is undefined in the
  source and not modelled. \<open>importTable_\<close> is a hash map whose iteration order is unspecified; here it
  is an association list in insertion order.
\<close>

section \<open>Keys and entries\<close>

record 'a Endpoint =
  ep_addr :: 'a
  ep_port :: u16

definition at_port :: "u16 \<Rightarrow> 'a Endpoint \<Rightarrow> 'a Endpoint" where
  "at_port p ep = ep\<lparr>ep_port := p\<rparr>"

datatype Kind = kindInbound | kindOutbound | kindUnlimited

text \<open>One constructor for each constructor of \<open>Key\<close>.\<close>

datatype 'a Key = AddrKey Kind "'a Endpoint" | NameKey string

definition Key_make :: "Kind \<Rightarrow> 'a Endpoint \<Rightarrow> 'a Key res" where
  "Key_make k ep = (if k = kindUnlimited then Throw AssertFailed else Ok (AddrKey k ep))"

primrec key_kind :: "'a Key \<Rightarrow> Kind" where
  "key_kind (AddrKey k ep) = k"
| "key_kind (NameKey n) = kindUnlimited"

fun key_equal :: "'a Key \<Rightarrow> 'a Key \<Rightarrow> bool" where
  "key_equal l r =
     (if key_kind l \<noteq> key_kind r then False
      else case (l, r) of
        (AddrKey _ a, AddrKey _ b) \<Rightarrow> a = b
      | (NameKey m, NameKey n) \<Rightarrow> m = n
      | _ \<Rightarrow> False)"

definition warningThreshold :: int where "warningThreshold = 500"
definition dropThreshold :: int where "dropThreshold = 1500"
definition secondsUntilExpiration :: int where "secondsUntilExpiration = 300"
definition decayWindowSeconds :: int where "decayWindowSeconds = 32"
definition minimumGossipBalance :: int where "minimumGossipBalance = 100"
definition gossipExpirationSeconds :: int where "gossipExpirationSeconds = 30"
definition feeWarning :: int where "feeWarning = 200"
definition feeDrop :: int where "feeDrop = 300"

record Entry =
  refcount :: int
  local_balance :: DecayingSample
  remote_balance :: int
  lastWarningTime :: int
  whenExpires :: int

definition Entry_make :: "int \<Rightarrow> Entry" where
  "Entry_make now = \<lparr>refcount = 0, local_balance = DecayingSample_make now, remote_balance = 0, lastWarningTime = 0, whenExpires = 0\<rparr>"

definition isUnlimited :: "'a Key \<Rightarrow> bool" where
  "isUnlimited k \<longleftrightarrow> key_kind k = kindUnlimited"

definition entry_balance :: "int \<Rightarrow> Entry \<Rightarrow> int \<times> Entry" where
  "entry_balance now e =
     (let (v, s) = ds_value decayWindowSeconds now (local_balance e) in (v + remote_balance e, e\<lparr>local_balance := s\<rparr>))"

definition entry_add :: "int \<Rightarrow> int \<Rightarrow> Entry \<Rightarrow> int \<times> Entry" where
  "entry_add cost now e =
     (let (v, s) = ds_add decayWindowSeconds cost now (local_balance e) in (v + remote_balance e, e\<lparr>local_balance := s\<rparr>))"

record 'a Import =
  imp_whenExpires :: int
  imp_items :: "(int \<times> 'a Key) list"

record 'a Logic =
  table :: "'a Key \<Rightarrow> Entry option"
  inbound :: "'a Key list"
  outbound :: "'a Key list"
  admin :: "'a Key list"
  inactive :: "'a Key list"
  importTable :: "(string \<times> 'a Import) list"

definition Logic_make :: "'a Logic" where
  "Logic_make = \<lparr>table = (\<lambda>_. None), inbound = [], outbound = [], admin = [], inactive = [], importTable = []\<rparr>"

section \<open>Operations\<close>

text \<open>Dereferencing a handle, and unlinking an entry from the intrusive list it is in.\<close>

definition entry_at :: "'a Key \<Rightarrow> 'a Logic \<Rightarrow> Entry res" where
  "entry_at k l = (case table l k of None \<Rightarrow> Throw Undefined | Some e \<Rightarrow> Ok e)"

definition put_entry :: "'a Key \<Rightarrow> Entry \<Rightarrow> 'a Logic \<Rightarrow> 'a Logic" where
  "put_entry k e l = l\<lparr>table := (table l)(k \<mapsto> e)\<rparr>"

definition unlink :: "'a Key \<Rightarrow> 'a Key list \<Rightarrow> 'a Key list res" where
  "unlink k xs = (if k \<in> set xs then Ok (remove1 k xs) else Throw Undefined)"

definition active_list :: "Kind \<Rightarrow> 'a Logic \<Rightarrow> 'a Key list" where
  "active_list kd l = (case kd of kindInbound \<Rightarrow> inbound l | kindOutbound \<Rightarrow> outbound l | kindUnlimited \<Rightarrow> admin l)"

definition set_active :: "Kind \<Rightarrow> 'a Key list \<Rightarrow> 'a Logic \<Rightarrow> 'a Logic" where
  "set_active kd xs l =
     (case kd of kindInbound \<Rightarrow> l\<lparr>inbound := xs\<rparr> | kindOutbound \<Rightarrow> l\<lparr>outbound := xs\<rparr> | kindUnlimited \<Rightarrow> l\<lparr>admin := xs\<rparr>)"

text \<open>The common body of the three functions that make a consumer; they differ in the key and the list.\<close>

definition newEndpoint :: "'a Key \<Rightarrow> Kind \<Rightarrow> int \<Rightarrow> 'a Logic \<Rightarrow> 'a Logic res" where
  "newEndpoint k kd now l =
     (let inserted = (table l k = None);
          e = (case table l k of None \<Rightarrow> Entry_make now | Some e \<Rightarrow> e);
          e = e\<lparr>refcount := refcount e + 1\<rparr>;
          l = put_entry k e l
      in if refcount e = 1 then
           rbind (if inserted then Ok l else rbind (unlink k (inactive l)) (\<lambda>xs. Ok (l\<lparr>inactive := xs\<rparr>)))
             (\<lambda>l. Ok (set_active kd (active_list kd l @ [k]) l))
         else Ok l)"

definition newInboundEndpoint :: "'a Endpoint \<Rightarrow> int \<Rightarrow> 'a Logic \<Rightarrow> ('a Key \<times> 'a Logic) res" where
  "newInboundEndpoint ep now l =
     rbind (Key_make kindInbound (at_port 0 ep)) (\<lambda>k. rbind (newEndpoint k kindInbound now l) (\<lambda>l. Ok (k, l)))"

definition newOutboundEndpoint :: "'a Endpoint \<Rightarrow> int \<Rightarrow> 'a Logic \<Rightarrow> ('a Key \<times> 'a Logic) res" where
  "newOutboundEndpoint ep now l =
     rbind (Key_make kindOutbound ep) (\<lambda>k. rbind (newEndpoint k kindOutbound now l) (\<lambda>l. Ok (k, l)))"

definition newUnlimitedEndpoint :: "string \<Rightarrow> int \<Rightarrow> 'a Logic \<Rightarrow> ('a Key \<times> 'a Logic) res" where
  "newUnlimitedEndpoint n now l = rbind (newEndpoint (NameKey n) kindUnlimited now l) (\<lambda>l. Ok (NameKey n, l))"

definition acquire :: "'a Key \<Rightarrow> 'a Logic \<Rightarrow> 'a Logic res" where
  "acquire k l = rbind (entry_at k l) (\<lambda>e. Ok (put_entry k (e\<lparr>refcount := refcount e + 1\<rparr>) l))"

definition release :: "'a Key \<Rightarrow> int \<Rightarrow> 'a Logic \<Rightarrow> 'a Logic res" where
  "release k now l =
     rbind (entry_at k l) (\<lambda>e.
       let e = e\<lparr>refcount := refcount e - 1\<rparr>; l = put_entry k e l in
       if refcount e = 0 then
         rbind (unlink k (active_list (key_kind k) l)) (\<lambda>xs.
           let l = set_active (key_kind k) xs l in
           Ok (put_entry k (e\<lparr>whenExpires := now + secondsUntilExpiration\<rparr>) (l\<lparr>inactive := inactive l @ [k]\<rparr>)))
       else Ok l)"

datatype Disposition = DispOk | DispWarn | DispDrop

definition disposition :: "int \<Rightarrow> Disposition" where
  "disposition b = (if b \<ge> dropThreshold then DispDrop else if b \<ge> warningThreshold then DispWarn else DispOk)"

definition charge :: "'a Key \<Rightarrow> int \<Rightarrow> int \<Rightarrow> 'a Logic \<Rightarrow> (Disposition \<times> 'a Logic) res" where
  "charge k cost now l =
     rbind (entry_at k l) (\<lambda>e. let (b, e) = entry_add cost now e in Ok (disposition b, put_entry k e l))"

definition warn :: "'a Key \<Rightarrow> int \<Rightarrow> 'a Logic \<Rightarrow> (bool \<times> 'a Logic) res" where
  "warn k now l =
     (if isUnlimited k then Ok (False, l)
      else rbind (entry_at k l) (\<lambda>e.
        let (b, e) = entry_balance now e; l = put_entry k e l in
        if b \<ge> warningThreshold \<and> now \<noteq> lastWarningTime e then
          rbind (charge k feeWarning now l) (\<lambda>(_, l).
            rbind (entry_at k l) (\<lambda>e. Ok (True, put_entry k (e\<lparr>lastWarningTime := now\<rparr>) l)))
        else Ok (False, l)))"

definition disconnect :: "'a Key \<Rightarrow> int \<Rightarrow> 'a Logic \<Rightarrow> (bool \<times> 'a Logic) res" where
  "disconnect k now l =
     (if isUnlimited k then Ok (False, l)
      else rbind (entry_at k l) (\<lambda>e.
        let (b, e) = entry_balance now e; l = put_entry k e l in
        if b \<ge> dropThreshold then rbind (charge k feeDrop now l) (\<lambda>(_, l). Ok (True, l))
        else Ok (False, l)))"

definition balance :: "'a Key \<Rightarrow> int \<Rightarrow> 'a Logic \<Rightarrow> (int \<times> 'a Logic) res" where
  "balance k now l = rbind (entry_at k l) (\<lambda>e. let (b, e) = entry_balance now e in Ok (b, put_entry k e l))"

section \<open>Consumer handles\<close>

text \<open>A \<open>Consumer\<close> is a pointer to an entry, or null.\<close>

definition Consumer_copy :: "'a Key option \<Rightarrow> 'a Logic \<Rightarrow> ('a Key option \<times> 'a Logic) res" where
  "Consumer_copy c l = (case c of None \<Rightarrow> Ok (None, l) | Some k \<Rightarrow> rbind (acquire k l) (\<lambda>l. Ok (Some k, l)))"

definition Consumer_destroy :: "'a Key option \<Rightarrow> int \<Rightarrow> 'a Logic \<Rightarrow> 'a Logic res" where
  "Consumer_destroy c now l = (case c of None \<Rightarrow> Ok l | Some k \<Rightarrow> release k now l)"

definition Consumer_assign :: "'a Key option \<Rightarrow> 'a Key option \<Rightarrow> int \<Rightarrow> 'a Logic \<Rightarrow> ('a Key option \<times> 'a Logic) res" where
  "Consumer_assign this other now l =
     rbind (case this of None \<Rightarrow> Ok l | Some k \<Rightarrow> release k now l) (\<lambda>l.
       rbind (case other of None \<Rightarrow> Ok l | Some k \<Rightarrow> acquire k l) (\<lambda>l. Ok (other, l)))"

definition Consumer_disposition :: "'a Key option \<Rightarrow> int \<Rightarrow> 'a Logic \<Rightarrow> (Disposition \<times> 'a Logic) res" where
  "Consumer_disposition c now l = (case c of None \<Rightarrow> Ok (DispOk, l) | Some k \<Rightarrow> charge k 0 now l)"

section \<open>Gossip\<close>

definition add_remote :: "'a Key \<Rightarrow> int \<Rightarrow> 'a Logic \<Rightarrow> 'a Logic res" where
  "add_remote k b l = rbind (entry_at k l) (\<lambda>e. Ok (put_entry k (e\<lparr>remote_balance := remote_balance e + b\<rparr>) l))"

text \<open>The loop over the entries of one list that reads their local balances.\<close>

fun read_locals :: "int \<Rightarrow> 'a Key list \<Rightarrow> 'a Logic \<Rightarrow> (('a Key \<times> int \<times> int) list \<times> 'a Logic) res" where
  "read_locals now [] l = Ok ([], l)"
| "read_locals now (k # ks) l =
     rbind (entry_at k l) (\<lambda>e.
       let (v, s) = ds_value decayWindowSeconds now (local_balance e) in
       rbind (read_locals now ks (put_entry k (e\<lparr>local_balance := s\<rparr>) l)) (\<lambda>(xs, l).
         Ok ((k, v, remote_balance e) # xs, l)))"

definition exportConsumers :: "int \<Rightarrow> 'a Logic \<Rightarrow> ((int \<times> 'a Key) list \<times> 'a Logic) res" where
  "exportConsumers now l =
     rbind (read_locals now (inbound l) l) (\<lambda>(xs, l).
       Ok (map (\<lambda>(k, v, _). (v, k)) (filter (\<lambda>(_, v, _). v \<ge> minimumGossipBalance) xs), l))"

definition getJson :: "int \<Rightarrow> int \<Rightarrow> 'a Logic \<Rightarrow> (('a Key \<times> int \<times> int \<times> string) list \<times> 'a Logic) res" where
  "getJson threshold now l =
     rbind (read_locals now (inbound l) l) (\<lambda>(xs, l).
     rbind (read_locals now (outbound l) l) (\<lambda>(ys, l).
     rbind (read_locals now (admin l) l) (\<lambda>(zs, l).
       let pick = (\<lambda>ty. map (\<lambda>(k, v, r). (k, v, r, ty)) \<circ> filter (\<lambda>(_, v, r). v + r \<ge> threshold)) in
       Ok (pick ''outbound'' xs @ pick ''outbound'' ys @ pick ''admin'' zs, l))))"

text \<open>
  One iteration of the loop in \<open>importConsumers\<close>: the temporary that \<open>newInboundEndpoint\<close> returns is
  assigned to \<open>item.consumer\<close> and dies, then \<open>push_back\<close> copies \<open>item\<close> and \<open>item\<close> dies.
\<close>

definition import_item :: "int \<Rightarrow> int \<times> 'a Endpoint \<Rightarrow> 'a Logic \<Rightarrow> ((int \<times> 'a Key) \<times> 'a Logic) res" where
  "import_item now g l =
     rbind (newInboundEndpoint (snd g) now l) (\<lambda>(k, l).
     rbind (Consumer_assign None (Some k) now l) (\<lambda>(_, l).
     rbind (Consumer_destroy (Some k) now l) (\<lambda>l.
     rbind (add_remote k (fst g) l) (\<lambda>l.
     rbind (Consumer_copy (Some k) l) (\<lambda>(_, l).
     rbind (Consumer_destroy (Some k) now l) (\<lambda>l. Ok ((fst g, k), l)))))))"

fun import_items :: "int \<Rightarrow> (int \<times> 'a Endpoint) list \<Rightarrow> 'a Logic \<Rightarrow> ((int \<times> 'a Key) list \<times> 'a Logic) res" where
  "import_items now [] l = Ok ([], l)"
| "import_items now (g # gs) l =
     rbind (import_item now g l) (\<lambda>(i, l). rbind (import_items now gs l) (\<lambda>(is, l). Ok (i # is, l)))"

fun sub_remotes :: "(int \<times> 'a Key) list \<Rightarrow> 'a Logic \<Rightarrow> 'a Logic res" where
  "sub_remotes [] l = Ok l"
| "sub_remotes ((b, k) # is) l = rbind (add_remote k (- b) l) (sub_remotes is)"

text \<open>The destructor of the items of an import.\<close>

fun release_items :: "int \<Rightarrow> (int \<times> 'a Key) list \<Rightarrow> 'a Logic \<Rightarrow> 'a Logic res" where
  "release_items now [] l = Ok l"
| "release_items now ((b, k) # is) l = rbind (Consumer_destroy (Some k) now l) (release_items now is)"

definition importConsumers :: "string \<Rightarrow> (int \<times> 'a Endpoint) list \<Rightarrow> int \<Rightarrow> 'a Logic \<Rightarrow> 'a Logic res" where
  "importConsumers origin gossip now l =
     (case map_of (importTable l) origin of
        None \<Rightarrow>
          rbind (import_items now gossip l) (\<lambda>(is, l).
            Ok (l\<lparr>importTable := importTable l @
              [(origin, \<lparr>imp_whenExpires = now + gossipExpirationSeconds, imp_items = is\<rparr>)]\<rparr>))
      | Some prev \<Rightarrow>
          rbind (import_items now gossip l) (\<lambda>(is, l).
          rbind (sub_remotes (imp_items prev) l) (\<lambda>l.
            let l = l\<lparr>importTable := map (\<lambda>(o', im). (o', if o' = origin
                       then \<lparr>imp_whenExpires = now + gossipExpirationSeconds, imp_items = is\<rparr> else im)) (importTable l)\<rparr>
            in release_items now (imp_items prev) l)))"

section \<open>Expiry\<close>

definition logic_erase :: "'a Key \<Rightarrow> 'a Logic \<Rightarrow> 'a Logic res" where
  "logic_erase k l =
     rbind (entry_at k l) (\<lambda>e.
       if refcount e \<noteq> 0 then Throw AssertFailed
       else rbind (unlink k (inactive l)) (\<lambda>xs. Ok (l\<lparr>inactive := xs, table := (table l)(k := None)\<rparr>)))"

fun expire_inactive :: "int \<Rightarrow> 'a Key list \<Rightarrow> 'a Logic \<Rightarrow> 'a Logic res" where
  "expire_inactive now [] l = Ok l"
| "expire_inactive now (k # ks) l =
     rbind (entry_at k l) (\<lambda>e.
       if whenExpires e \<le> now then rbind (logic_erase k l) (expire_inactive now ks) else Ok l)"

fun expire_imports :: "int \<Rightarrow> (string \<times> 'a Import) list \<Rightarrow> 'a Logic \<Rightarrow> 'a Logic res" where
  "expire_imports now [] l = Ok l"
| "expire_imports now ((origin, im) # ims) l =
     (if imp_whenExpires im \<le> now then
        rbind (sub_remotes (imp_items im) l) (\<lambda>l.
        rbind (release_items now (imp_items im) (l\<lparr>importTable := filter (\<lambda>(o', _). o' \<noteq> origin) (importTable l)\<rparr>))
          (expire_imports now ims))
      else expire_imports now ims l)"

definition periodicActivity :: "int \<Rightarrow> 'a Logic \<Rightarrow> 'a Logic res" where
  "periodicActivity now l =
     rbind (expire_inactive now (inactive l) l) (\<lambda>l. expire_imports now (importTable l) l)"

end
