(* ===== verification/Resource_Inv.thy ===== *)
theory Resource_Inv
  imports Resource
begin

text \<open>
  The invariant of the resource manager. \<open>core l rf rb now\<close> relates the table and the four lists to the
  number of handles \<open>rf k\<close> and the imported balance \<open>rb k\<close> of each key; every primitive changes the
  two functions in the obvious way, and the operations follow from the primitives.
\<close>

section \<open>The core invariant\<close>

primrec counted :: "Entry option \<Rightarrow> nat \<Rightarrow> int \<Rightarrow> bool" where
  "counted None n r \<longleftrightarrow> n = 0 \<and> r = 0"
| "counted (Some e) n r \<longleftrightarrow> refcount e = int n \<and> remote_balance e = r"

definition expiry :: "'a Logic \<Rightarrow> 'a Key \<Rightarrow> int" where
  "expiry l k = (case table l k of None \<Rightarrow> 0 | Some e \<Rightarrow> whenExpires e)"

definition core :: "'a Logic \<Rightarrow> ('a Key \<Rightarrow> nat) \<Rightarrow> ('a Key \<Rightarrow> int) \<Rightarrow> int \<Rightarrow> bool" where
  "core l rf rb now \<longleftrightarrow>
     (\<forall>k. counted (table l k) (rf k) (rb k)) \<and>
     (\<forall>kd. distinct (active_list kd l) \<and> set (active_list kd l) = {k. key_kind k = kd \<and> rf k > 0}) \<and>
     distinct (inactive l) \<and> set (inactive l) = {k. table l k \<noteq> None \<and> rf k = 0} \<and>
     sorted (map (expiry l) (inactive l)) \<and> (\<forall>k \<in> set (inactive l). expiry l k \<le> now + secondsUntilExpiration)"

lemma coreI:
  assumes "\<And>k. counted (table l k) (rf k) (rb k)"
    and "\<And>kd. distinct (active_list kd l)" "\<And>kd. set (active_list kd l) = {k. key_kind k = kd \<and> rf k > 0}"
    and "distinct (inactive l)" "set (inactive l) = {k. table l k \<noteq> None \<and> rf k = 0}"
    and "sorted (map (expiry l) (inactive l))"
    and "\<And>k. k \<in> set (inactive l) \<Longrightarrow> expiry l k \<le> now + secondsUntilExpiration"
  shows "core l rf rb now"
  using assms unfolding core_def by blast

lemma coreD:
  assumes "core l rf rb now"
  shows "counted (table l k) (rf k) (rb k)" "distinct (active_list kd l)"
    "set (active_list kd l) = {k. key_kind k = kd \<and> rf k > 0}"
    "distinct (inactive l)" "set (inactive l) = {k. table l k \<noteq> None \<and> rf k = 0}"
    "sorted (map (expiry l) (inactive l))"
    "k \<in> set (inactive l) \<Longrightarrow> expiry l k \<le> now + secondsUntilExpiration"
  using assms unfolding core_def by blast+

lemma core_entry:
  assumes "core l rf rb now" "rf k > 0"
  obtains e where "table l k = Some e" "refcount e = int (rf k)" "remote_balance e = rb k"
  using coreD(1) [OF assms(1), of k] assms(2) that by (cases "table l k") auto

lemma core_later: "core l rf rb now \<Longrightarrow> now \<le> now' \<Longrightarrow> core l rf rb now'"
  unfolding core_def by fastforce

lemma active_list_put [simp]: "active_list kd (put_entry k e l) = active_list kd l"
  by (cases kd) (simp_all add: active_list_def put_entry_def)

lemma put_entry_simps [simp]:
  "table (put_entry k e l) = (table l)(k \<mapsto> e)" "inactive (put_entry k e l) = inactive l"
  "importTable (put_entry k e l) = importTable l"
  by (simp_all add: put_entry_def)

lemma set_active_simps [simp]:
  "table (set_active kd xs l) = table l" "inactive (set_active kd xs l) = inactive l"
  "importTable (set_active kd xs l) = importTable l"
  "active_list kd' (set_active kd xs l) = (if kd' = kd then xs else active_list kd' l)"
  by (cases kd; cases kd'; simp add: set_active_def active_list_def)+

lemma active_list_inactive [simp]: "active_list kd (l\<lparr>inactive := xs\<rparr>) = active_list kd l"
  "active_list kd (l\<lparr>table := t\<rparr>) = active_list kd l" "active_list kd (l\<lparr>importTable := i\<rparr>) = active_list kd l"
  by (cases kd; simp add: active_list_def)+

lemma expiry_importTable [simp]: "expiry (l\<lparr>importTable := i\<rparr>) = expiry l"
  by (simp add: expiry_def fun_eq_iff)

lemma core_importTable [simp]: "core (l\<lparr>importTable := i\<rparr>) rf rb now = core l rf rb now"
  by (simp add: core_def)

text \<open>
  How the parts of the invariant survive an update at one key. The lists are given, so each primitive
  only says what it does to them.
\<close>

lemma expiry_other: "table l' = (table l)(k := x) \<Longrightarrow> k \<notin> set ks \<Longrightarrow> map (expiry l') ks = map (expiry l) ks"
  by (auto simp: expiry_def)

lemma core_update:
  assumes c: "core l rf rb now"
    and t: "table l' = (table l)(k := x)" "counted x n r"
    and a: "\<And>kd. active_list kd l' = (if kd = key_kind k \<and> n > 0 \<and> rf k = 0 then active_list kd l @ [k]
      else if kd = key_kind k \<and> n = 0 \<and> rf k > 0 then remove1 k (active_list kd l) else active_list kd l)"
    and i: "inactive l' = (if x \<noteq> None \<and> n = 0 \<and> rf k > 0 then inactive l @ [k]
      else if (x = None \<or> n > 0) \<and> table l k \<noteq> None \<and> rf k = 0 then remove1 k (inactive l) else inactive l)"
    and e: "n = 0 \<Longrightarrow> rf k > 0 \<Longrightarrow> expiry l' k = now + secondsUntilExpiration"
    and e': "n = 0 \<Longrightarrow> rf k = 0 \<Longrightarrow> x \<noteq> None \<Longrightarrow> table l k \<noteq> None \<and> expiry l' k = expiry l k"
  shows "core l' (rf(k := n)) (rb(k := r)) now"
proof (rule coreI)
  show "counted (table l' k') ((rf(k := n)) k') ((rb(k := r)) k')" for k'
    using coreD(1) [OF c, of k'] t by auto
  have na: "k \<in> set (active_list kd l) \<longleftrightarrow> key_kind k = kd \<and> rf k > 0" for kd using coreD(3) [OF c] by auto
  have ni: "k \<in> set (inactive l) \<longleftrightarrow> table l k \<noteq> None \<and> rf k = 0" using coreD(5) [OF c] by auto
  show "distinct (active_list kd l')" for kd using coreD(2) [OF c, of kd] na [of kd] unfolding a [of kd] by auto
  show "set (active_list kd l') = {k'. key_kind k' = kd \<and> (rf(k := n)) k' > 0}" for kd
  proof (cases "kd = key_kind k")
    case True
    then show ?thesis using coreD(2,3) [OF c, of kd] unfolding a [of kd]
      by (cases "n = 0"; cases "rf k = 0") (simp_all add: set_remove1_eq, auto)
  next
    case False
    have "active_list kd l' = active_list kd l" using a [of kd] False by simp
    then show ?thesis using coreD(3) [OF c, of kd] False by auto
  qed
  show "distinct (inactive l')" using coreD(4) [OF c] i ni by simp
  show "set (inactive l') = {k'. table l' k' \<noteq> None \<and> (rf(k := n)) k' = 0}"
    using coreD(4,5) [OF c] i t(1) e' t(2) by auto
  have x: "expiry l' k' = expiry l k'" if "k' \<noteq> k" for k' using that t(1) by (simp add: expiry_def)
  have same: "map (expiry l') (inactive l) = map (expiry l) (inactive l)" if "k \<notin> set (inactive l) \<or> expiry l' k = expiry l k"
    unfolding map_eq_conv using that x by metis
  have rem_eq: "map (expiry l') (remove1 k (inactive l)) = map (expiry l) (remove1 k (inactive l))"
    unfolding map_eq_conv using coreD(4) [OF c] x by (metis set_remove1_eq Diff_iff singletonI)
  consider (app) "inactive l' = inactive l @ [k]" "k \<notin> set (inactive l)" "expiry l' k = now + secondsUntilExpiration"
    | (rem) "inactive l' = remove1 k (inactive l)"
    | (same) "inactive l' = inactive l" "k \<notin> set (inactive l) \<or> expiry l' k = expiry l k"
    using i ni e e' by (cases "n = 0"; cases "rf k = 0"; cases "x = None"; cases "table l k = None") auto
  note cs = this
  have "sorted (map (expiry l') (inactive l')) \<and> (\<forall>k' \<in> set (inactive l'). expiry l' k' \<le> now + secondsUntilExpiration)"
  proof (cases rule: cs)
    case app
    have m: "map (expiry l') (inactive l') = map (expiry l) (inactive l) @ [now + secondsUntilExpiration]"
      using app same by (simp del: map_eq_conv)
    have "sorted (map (expiry l') (inactive l'))" unfolding m using coreD(6,7) [OF c] by (simp add: sorted_append)
    moreover have "\<forall>k' \<in> set (inactive l). expiry l' k' \<le> now + secondsUntilExpiration"
      using app(2) x coreD(7) [OF c] by metis
    ultimately show ?thesis using app(1,3) by simp
  next
    case rem
    have "sorted (map (expiry l) (remove1 k (inactive l)))" using coreD(6) [OF c] by (simp add: sorted_map_remove1)
    moreover have "\<forall>k' \<in> set (remove1 k (inactive l)). expiry l' k' \<le> now + secondsUntilExpiration"
      using coreD(4,7) [OF c] x by (metis Diff_iff set_remove1_eq singletonI)
    ultimately show ?thesis by (simp only: rem rem_eq)
  next
    case same': same
    then show ?thesis using same coreD(6,7) [OF c] by (metis list.map_cong0 same'(2) x)
  qed
  then show "sorted (map (expiry l') (inactive l'))"
    and "k' \<in> set (inactive l') \<Longrightarrow> expiry l' k' \<le> now + secondsUntilExpiration" for k' by blast+
qed

section \<open>Primitives\<close>

lemma core_put:
  assumes c: "core l rf rb now" and t: "table l k = Some e0"
    and e: "refcount e = refcount e0" "whenExpires e = whenExpires e0"
  shows "core (put_entry k e l) rf (rb(k := remote_balance e)) now"
proof -
  have "core (put_entry k e l) (rf(k := rf k)) (rb(k := remote_balance e)) now"
    by (rule core_update [OF c, of _ k "Some e"]) (use coreD(1) [OF c, of k] t e in \<open>auto simp: expiry_def\<close>)
  then show ?thesis by simp
qed

lemma core_newEndpoint:
  assumes c: "core l rf rb now"
  shows "\<exists>l'. newEndpoint k (key_kind k) now l = Ok l' \<and> core l' (rf(k := rf k + 1)) rb now \<and> importTable l' = importTable l"
proof -
  let ?e = "case table l k of None \<Rightarrow> Entry_make now | Some e \<Rightarrow> e"
  let ?x = "?e\<lparr>refcount := refcount ?e + 1\<rparr>"
  let ?p = "put_entry k ?x l"
  let ?l' = "if rf k = 0 then set_active (key_kind k) (active_list (key_kind k) l @ [k])
      (if table l k = None then ?p else ?p\<lparr>inactive := remove1 k (inactive l)\<rparr>) else ?p"
  note k = coreD(1) [OF c, of k]
  have n: "counted (Some ?x) (rf k + 1) (rb k)" using k by (cases "table l k") (auto simp: Entry_make_def)
  have r: "refcount ?x = 1 \<longleftrightarrow> rf k = 0" using n by auto
  have i: "k \<in> set (inactive l) \<longleftrightarrow> table l k \<noteq> None \<and> rf k = 0" using coreD(5) [OF c] by auto
  have "newEndpoint k (key_kind k) now l = Ok ?l'"
    unfolding newEndpoint_def Let_def r using k i by (cases "table l k") (auto simp: unlink_def put_entry_def)
  moreover have "core ?l' (rf(k := rf k + 1)) (rb(k := rb k)) now"
    by (rule core_update [OF c _ n]) (use k in \<open>auto simp: put_entry_def\<close>)
  ultimately show ?thesis by (auto simp: put_entry_def)
qed

lemma core_acquire:
  assumes c: "core l rf rb now" and k: "rf k > 0"
  shows "\<exists>l'. acquire k l = Ok l' \<and> core l' (rf(k := rf k + 1)) rb now \<and> importTable l' = importTable l"
proof -
  obtain e where e: "table l k = Some e" "refcount e = int (rf k)" "remote_balance e = rb k" using core_entry [OF c k] .
  let ?l = "put_entry k (e\<lparr>refcount := refcount e + 1\<rparr>) l"
  have "core ?l (rf(k := rf k + 1)) (rb(k := rb k)) now"
    by (rule core_update [OF c, of _ k "Some (e\<lparr>refcount := refcount e + 1\<rparr>)"]) (use e k in auto)
  then show ?thesis using e by (simp add: acquire_def entry_at_def)
qed

lemma core_release:
  assumes c: "core l rf rb now" and k: "rf k > 0"
  shows "\<exists>l'. release k now l = Ok l' \<and> core l' (rf(k := rf k - 1)) rb now \<and> importTable l' = importTable l"
proof -
  obtain e where e: "table l k = Some e" "refcount e = int (rf k)" "remote_balance e = rb k" using core_entry [OF c k] .
  let ?e = "e\<lparr>refcount := refcount e - 1\<rparr>"
  have a: "k \<in> set (active_list (key_kind k) l)" using coreD(3) [OF c] k by simp
  show ?thesis
  proof (cases "rf k = 1")
    case False
    have "core (put_entry k ?e l) (rf(k := rf k - 1)) (rb(k := rb k)) now"
      by (rule core_update [OF c, of _ k "Some ?e"]) (use e k False in auto)
    then show ?thesis using e False by (simp add: release_def entry_at_def Let_def)
  next
    case True
    let ?l = "set_active (key_kind k) (remove1 k (active_list (key_kind k) l)) (put_entry k ?e l)"
    let ?l' = "put_entry k (?e\<lparr>whenExpires := now + secondsUntilExpiration\<rparr>) (?l\<lparr>inactive := inactive l @ [k]\<rparr>)"
    have "core ?l' (rf(k := rf k - 1)) (rb(k := rb k)) now"
      by (rule core_update [OF c, of _ k "Some (?e\<lparr>whenExpires := now + secondsUntilExpiration\<rparr>)"])
        (use e k True in \<open>auto simp: expiry_def\<close>)
    moreover have "release k now l = Ok ?l'" using e a True by (simp add: release_def entry_at_def unlink_def Let_def)
    ultimately show ?thesis by simp
  qed
qed

lemma core_erase:
  assumes c: "core l rf rb now" and k: "k \<in> set (inactive l)" "rb k = 0"
  shows "\<exists>l'. logic_erase k l = Ok l' \<and> core l' rf rb now \<and> importTable l' = importTable l \<and>
    inactive l' = remove1 k (inactive l) \<and> table l' = (table l)(k := None)"
proof -
  have k': "table l k \<noteq> None" "rf k = 0" using coreD(5) [OF c] k by auto
  then obtain e where e: "table l k = Some e" "refcount e = 0" using coreD(1) [OF c, of k] by (cases "table l k") auto
  let ?l = "l\<lparr>inactive := remove1 k (inactive l), table := (table l)(k := None)\<rparr>"
  have "core ?l (rf(k := 0)) (rb(k := 0)) now"
    by (rule core_update [OF c, of _ k None]) (use e k k' in auto)
  then have "core ?l rf rb now" using k k' by (metis fun_upd_triv)
  then show ?thesis using e k by (simp add: logic_erase_def entry_at_def unlink_def)
qed

lemma core_add_remote:
  assumes c: "core l rf rb now" and k: "rf k > 0"
  shows "\<exists>l'. add_remote k b l = Ok l' \<and> core l' rf (rb(k := rb k + b)) now \<and> importTable l' = importTable l"
proof -
  obtain e where e: "table l k = Some e" "refcount e = int (rf k)" "remote_balance e = rb k" using core_entry [OF c k] .
  then show ?thesis using core_put [OF c e(1), of "e\<lparr>remote_balance := remote_balance e + b\<rparr>"]
    by (simp add: add_remote_def entry_at_def)
qed

text \<open>Operations that only touch the local balance or the warning time of an entry.\<close>

lemma core_touch:
  assumes "core l rf rb now" "table l k = Some e0" "refcount e = refcount e0" "whenExpires e = whenExpires e0"
    "remote_balance e = remote_balance e0"
  shows "core (put_entry k e l) rf rb now"
proof -
  have "rb k = remote_balance e" using coreD(1) [OF assms(1), of k] assms(2,5) by simp
  then show ?thesis using core_put [OF assms(1-4)] by (metis fun_upd_triv)
qed

lemma entry_add_keeps:
  assumes "entry_add c now e = (b, e')"
  shows "refcount e' = refcount e" "whenExpires e' = whenExpires e" "remote_balance e' = remote_balance e"
    "lastWarningTime e' = lastWarningTime e"
  using assms by (auto simp: entry_add_def split: prod.splits)

lemma entry_balance_keeps:
  assumes "entry_balance now e = (b, e')"
  shows "refcount e' = refcount e" "whenExpires e' = whenExpires e" "remote_balance e' = remote_balance e"
    "lastWarningTime e' = lastWarningTime e"
  using assms by (auto simp: entry_balance_def split: prod.splits)

lemma core_charge:
  assumes c: "core l rf rb now" and k: "rf k > 0"
  shows "\<exists>d l'. charge k cost now l = Ok (d, l') \<and> core l' rf rb now \<and> importTable l' = importTable l"
proof -
  obtain e where e: "table l k = Some e" using core_entry [OF c k] .
  obtain b e' where a: "entry_add cost now e = (b, e')" by fastforce
  show ?thesis using core_touch [OF c e entry_add_keeps(1-3) [OF a]] e a by (simp add: charge_def entry_at_def)
qed

lemma core_balance:
  assumes c: "core l rf rb now" and k: "rf k > 0"
  shows "\<exists>b l'. balance k now l = Ok (b, l') \<and> core l' rf rb now \<and> importTable l' = importTable l"
proof -
  obtain e where e: "table l k = Some e" using core_entry [OF c k] .
  obtain b e' where a: "entry_balance now e = (b, e')" by fastforce
  show ?thesis using core_touch [OF c e entry_balance_keeps(1-3) [OF a]] e a by (simp add: balance_def entry_at_def)
qed

lemma core_warn:
  assumes c: "core l rf rb now" and k: "rf k > 0"
  shows "\<exists>b l'. warn k now l = Ok (b, l') \<and> core l' rf rb now \<and> importTable l' = importTable l"
proof (cases "isUnlimited k")
  case True then show ?thesis using c by (auto simp: warn_def)
next
  case False
  obtain e where e: "table l k = Some e" using core_entry [OF c k] .
  obtain b e' where a: "entry_balance now e = (b, e')" by fastforce
  note c1 = core_touch [OF c e entry_balance_keeps(1-3) [OF a]]
  obtain d l2 where l2: "charge k feeWarning now (put_entry k e' l) = Ok (d, l2)" "core l2 rf rb now" "importTable l2 = importTable l"
    using core_charge [OF c1 k, of feeWarning] by auto
  obtain e2 where e2: "table l2 k = Some e2" using core_entry [OF l2(2) k] .
  have c2: "core (put_entry k (e2\<lparr>lastWarningTime := now\<rparr>) l2) rf rb now" by (rule core_touch [OF l2(2) e2]) simp_all
  show ?thesis using False e a l2 e2 c1 c2 by (cases "warningThreshold \<le> b \<and> now \<noteq> lastWarningTime e'") (auto simp: warn_def entry_at_def Let_def)
qed

lemma core_disconnect:
  assumes c: "core l rf rb now" and k: "rf k > 0"
  shows "\<exists>b l'. disconnect k now l = Ok (b, l') \<and> core l' rf rb now \<and> importTable l' = importTable l"
proof (cases "isUnlimited k")
  case True then show ?thesis using c by (auto simp: disconnect_def)
next
  case False
  obtain e where e: "table l k = Some e" using core_entry [OF c k] .
  obtain b e' where a: "entry_balance now e = (b, e')" by fastforce
  note c1 = core_touch [OF c e entry_balance_keeps(1-3) [OF a]]
  obtain d l2 where l2: "charge k feeDrop now (put_entry k e' l) = Ok (d, l2)" "core l2 rf rb now" "importTable l2 = importTable l"
    using core_charge [OF c1 k, of feeDrop] by auto
  show ?thesis using False e a l2 c1 by (cases "dropThreshold \<le> b") (auto simp: disconnect_def entry_at_def Let_def)
qed

lemma core_read_locals:
  assumes "core l rf rb now" "\<And>k. k \<in> set ks \<Longrightarrow> rf k > 0"
  shows "\<exists>xs l'. read_locals now ks l = Ok (xs, l') \<and> core l' rf rb now \<and> importTable l' = importTable l \<and>
    (\<forall>kd. active_list kd l' = active_list kd l)"
  using assms
proof (induction ks arbitrary: l)
  case (Cons k ks)
  obtain e where e: "table l k = Some e" using core_entry [OF Cons.prems(1)] Cons.prems(2) by (metis list.set_intros(1))
  obtain v s where v: "ds_value decayWindowSeconds now (local_balance e) = (v, s)" by fastforce
  have "core (put_entry k (e\<lparr>local_balance := s\<rparr>) l) rf rb now" by (rule core_touch [OF Cons.prems(1) e]) simp_all
  then obtain xs l' where "read_locals now ks (put_entry k (e\<lparr>local_balance := s\<rparr>) l) = Ok (xs, l')" "core l' rf rb now"
    "importTable l' = importTable l" "\<forall>kd. active_list kd l' = active_list kd l"
    using Cons.IH [of "put_entry k (e\<lparr>local_balance := s\<rparr>) l"] Cons.prems(2) by auto
  then show ?case using e v by (simp add: entry_at_def)
qed auto

lemma core_active:
  "core l rf rb now \<Longrightarrow> k \<in> set (inbound l) \<union> set (outbound l) \<union> set (admin l) \<Longrightarrow> rf k > 0"
  using coreD(3) [of l rf rb now kindInbound] coreD(3) [of l rf rb now kindOutbound] coreD(3) [of l rf rb now kindUnlimited]
  by (auto simp: active_list_def)

end
