(* ===== verification/Resource_World.thy ===== *)
theory Resource_World
  imports Resource_Inv
begin

text \<open>
  The resource manager with the handles its callers hold and the clock: a step is any call a holder of
  handles may make. In every reachable state reference counts and remote balances add up, each entry is
  in exactly the list its count says, and no call dereferences a dangling handle or fails an assertion.
\<close>

section \<open>Imported items\<close>

definition inbound_key :: "'a Endpoint \<Rightarrow> 'a Key" where
  "inbound_key ep = AddrKey kindInbound (at_port 0 ep)"

definition item_refs :: "(int \<times> 'a Key) list \<Rightarrow> 'a Key \<Rightarrow> nat" where
  "item_refs is k = length (filter (\<lambda>i. snd i = k) is)"

definition item_sum :: "(int \<times> 'a Key) list \<Rightarrow> 'a Key \<Rightarrow> int" where
  "item_sum is k = sum_list (map fst (filter (\<lambda>i. snd i = k) is))"

lemma item_refs_simps [simp]: "item_refs [] k = 0" "item_refs ((b, k') # is) k = (if k' = k then 1 else 0) + item_refs is k"
  by (simp_all add: item_refs_def)

lemma item_sum_simps [simp]: "item_sum [] k = 0" "item_sum ((b, k') # is) k = (if k' = k then b else 0) + item_sum is k"
  by (simp_all add: item_sum_def)

lemma item_refs_pos: "(b, k) \<in> set is \<Longrightarrow> item_refs is k > 0"
  by (induction "is") auto

lemma item_sum_zero: "item_refs is k = 0 \<Longrightarrow> item_sum is k = 0"
  by (induction "is") (auto split: if_splits)

lemma core_import_item:
  assumes c: "core l rf rb now"
  shows "\<exists>l'. import_item now (b, ep) l = Ok ((b, inbound_key ep), l') \<and>
    core l' (rf(inbound_key ep := rf (inbound_key ep) + 1)) (rb(inbound_key ep := rb (inbound_key ep) + b)) now \<and>
    importTable l' = importTable l"
proof -
  let ?k = "inbound_key ep"
  have kd: "key_kind ?k = kindInbound" by (simp add: inbound_key_def)
  obtain l1 where 1: "newEndpoint ?k kindInbound now l = Ok l1" "core l1 (rf(?k := rf ?k + 1)) rb now" "importTable l1 = importTable l"
    using core_newEndpoint [OF c, of ?k] kd by auto
  obtain l2 where 2: "acquire ?k l1 = Ok l2" "core l2 (rf(?k := rf ?k + 2)) rb now" "importTable l2 = importTable l"
    using core_acquire [OF 1(2), of ?k] 1(3) by auto
  obtain l3 where 3: "release ?k now l2 = Ok l3" "core l3 (rf(?k := rf ?k + 1)) rb now" "importTable l3 = importTable l"
    using core_release [OF 2(2), of ?k] 2(3) by auto
  obtain l4 where 4: "add_remote ?k b l3 = Ok l4" "core l4 (rf(?k := rf ?k + 1)) (rb(?k := rb ?k + b)) now" "importTable l4 = importTable l"
    using core_add_remote [OF 3(2), of ?k b] 3(3) by auto
  obtain l5 where 5: "acquire ?k l4 = Ok l5" "core l5 (rf(?k := rf ?k + 2)) (rb(?k := rb ?k + b)) now" "importTable l5 = importTable l"
    using core_acquire [OF 4(2), of ?k] 4(3) by auto
  obtain l6 where 6: "release ?k now l5 = Ok l6" "core l6 (rf(?k := rf ?k + 1)) (rb(?k := rb ?k + b)) now" "importTable l6 = importTable l"
    using core_release [OF 5(2), of ?k] 5(3) by auto
  show ?thesis using 1(1) 2(1) 3(1) 4(1) 5(1) 6
    by (simp add: import_item_def newInboundEndpoint_def Key_make_def Consumer_assign_def Consumer_destroy_def Consumer_copy_def
        inbound_key_def [symmetric])
qed

definition gossip_items :: "(int \<times> 'a Endpoint) list \<Rightarrow> (int \<times> 'a Key) list" where
  "gossip_items = map (\<lambda>(b, ep). (b, inbound_key ep))"

lemma core_import_items:
  assumes "core l rf rb now"
  shows "\<exists>l'. import_items now gs l = Ok (gossip_items gs, l') \<and>
    core l' (\<lambda>k. rf k + item_refs (gossip_items gs) k) (\<lambda>k. rb k + item_sum (gossip_items gs) k) now \<and> importTable l' = importTable l"
  using assms
proof (induction gs arbitrary: l rf rb)
  case (Cons g gs)
  obtain b ep where g: "g = (b, ep)" by fastforce
  let ?k = "inbound_key ep"
  obtain l1 where 1: "import_item now (b, ep) l = Ok ((b, ?k), l1)" "core l1 (rf(?k := rf ?k + 1)) (rb(?k := rb ?k + b)) now"
    "importTable l1 = importTable l" using core_import_item [OF Cons.prems] by blast
  obtain l2 where 2: "import_items now gs l1 = Ok (gossip_items gs, l2)"
    "core l2 (\<lambda>k. (rf(?k := rf ?k + 1)) k + item_refs (gossip_items gs) k) (\<lambda>k. (rb(?k := rb ?k + b)) k + item_sum (gossip_items gs) k) now"
    "importTable l2 = importTable l1" using Cons.IH [OF 1(2)] by blast
  have "(\<lambda>k. (rf(?k := rf ?k + 1)) k + item_refs (gossip_items gs) k) = (\<lambda>k. rf k + item_refs (gossip_items (g # gs)) k)"
    "(\<lambda>k. (rb(?k := rb ?k + b)) k + item_sum (gossip_items gs) k) = (\<lambda>k. rb k + item_sum (gossip_items (g # gs)) k)"
    by (auto simp: g gossip_items_def fun_eq_iff)
  with 1 2 g show ?case by (simp add: gossip_items_def)
qed (simp add: gossip_items_def)

lemma core_sub_remotes:
  assumes "core l rf rb now" "\<forall>i \<in> set is. rf (snd i) > 0"
  shows "\<exists>l'. sub_remotes is l = Ok l' \<and> core l' rf (\<lambda>k. rb k - item_sum is k) now \<and> importTable l' = importTable l"
  using assms
proof (induction "is" arbitrary: l rb)
  case (Cons i "is")
  obtain b k where i: "i = (b, k)" by fastforce
  obtain l1 where 1: "add_remote k (- b) l = Ok l1" "core l1 rf (rb(k := rb k + - b)) now" "importTable l1 = importTable l"
    using core_add_remote [OF Cons.prems(1), of k "- b"] Cons.prems(2) i by auto
  obtain l2 where 2: "sub_remotes is l1 = Ok l2" "core l2 rf (\<lambda>k'. (rb(k := rb k + - b)) k' - item_sum is k') now" "importTable l2 = importTable l"
    using Cons.IH [OF 1(2)] Cons.prems(2) 1(3) by auto
  have "(\<lambda>k'. (rb(k := rb k + - b)) k' - item_sum is k') = (\<lambda>k'. rb k' - item_sum (i # is) k')" by (auto simp: i fun_eq_iff)
  with 1 2 i show ?case by simp
qed simp

lemma core_release_items:
  assumes "core l rf rb now" "\<And>k. item_refs is k \<le> rf k"
  shows "\<exists>l'. release_items now is l = Ok l' \<and> core l' (\<lambda>k. rf k - item_refs is k) rb now \<and> importTable l' = importTable l"
  using assms
proof (induction "is" arbitrary: l rf)
  case (Cons i "is")
  obtain b k where i: "i = (b, k)" by fastforce
  have k: "rf k > 0" using Cons.prems(2) [of k] i by simp
  obtain l1 where 1: "release k now l = Ok l1" "core l1 (rf(k := rf k - 1)) rb now" "importTable l1 = importTable l"
    using core_release [OF Cons.prems(1) k] by auto
  have "item_refs is k' \<le> (rf(k := rf k - 1)) k'" for k' using Cons.prems(2) [of k'] i by auto
  then obtain l2 where 2: "release_items now is l1 = Ok l2" "core l2 (\<lambda>k'. (rf(k := rf k - 1)) k' - item_refs is k') rb now" "importTable l2 = importTable l"
    using Cons.IH [OF 1(2)] 1(3) by auto
  have "(\<lambda>k'. (rf(k := rf k - 1)) k' - item_refs is k') = (\<lambda>k'. rf k' - item_refs (i # is) k')" by (auto simp: i fun_eq_iff)
  with 1 2 i show ?case by (simp add: Consumer_destroy_def)
qed simp

section \<open>Expiry\<close>

lemma core_expire_inactive:
  assumes "core l rf rb now" "\<And>k. rf k = 0 \<Longrightarrow> rb k = 0"
  shows "\<exists>l'. expire_inactive now (inactive l) l = Ok l' \<and> core l' rf rb now \<and> importTable l' = importTable l \<and>
    (\<forall>k \<in> set (inactive l'). expiry l' k > now) \<and> (\<forall>k. table l' k = None \<or> table l' k = table l k)"
  using assms(1)
proof (induction "inactive l" arbitrary: l)
  case Nil
  then have "inactive l = []" by simp
  then show ?case using Nil.prems by simp
next
  case (Cons k ks)
  have "k \<in> set (inactive l)" by (simp add: Cons.hyps(2) [symmetric])
  then have k: "k \<in> set (inactive l)" "table l k \<noteq> None" "rf k = 0" using coreD(5) [OF Cons.prems] by auto
  then obtain e where e: "table l k = Some e" by auto
  show ?case
  proof (cases "whenExpires e \<le> now")
    case True
    obtain l1 where 1: "logic_erase k l = Ok l1" "core l1 rf rb now" "importTable l1 = importTable l" "inactive l1 = remove1 k (inactive l)"
      "table l1 = (table l)(k := None)"
      using core_erase [OF Cons.prems k(1)] assms(2) [OF k(3)] by blast
    then have "ks = inactive l1" using Cons.hyps(2) [symmetric] by simp
    note IH = Cons.hyps(1) [OF this 1(2), folded this]
    have st: "expire_inactive now (k # ks) l = expire_inactive now ks l1" using e True 1(1) by (simp add: entry_at_def)
    obtain l2 where 2: "expire_inactive now ks l1 = Ok l2" "core l2 rf rb now" "importTable l2 = importTable l1"
      "\<forall>k \<in> set (inactive l2). expiry l2 k > now" "\<forall>k. table l2 k = None \<or> table l2 k = table l1 k" using IH by blast
    moreover have "table l2 k' = None \<or> table l2 k' = table l k'" for k' using 2(5) 1(5) by (cases "k' = k") (auto dest: spec [of _ k'])
    ultimately show ?thesis using 1(3) unfolding Cons.hyps(2) [symmetric] st by auto
  next
    case False
    have x: "expiry l k > now" using e False by (simp add: expiry_def)
    have a: "\<forall>k' \<in> set (inactive l). expiry l k' > now"
      using coreD(6) [OF Cons.prems] x unfolding Cons.hyps(2) [symmetric] by auto
    have "expire_inactive now (k # ks) l = Ok l" using e False by (simp add: entry_at_def)
    then show ?thesis using a Cons.prems unfolding Cons.hyps(2) by blast
  qed
qed

section \<open>Handles, imports and the clock\<close>

definition import_refs :: "(string \<times> 'a Import) list \<Rightarrow> 'a Key \<Rightarrow> nat" where
  "import_refs ims k = sum_list (map (\<lambda>(_, im). item_refs (imp_items im) k) ims)"

definition import_sum :: "(string \<times> 'a Import) list \<Rightarrow> 'a Key \<Rightarrow> int" where
  "import_sum ims k = sum_list (map (\<lambda>(_, im). item_sum (imp_items im) k) ims)"

lemma import_simps [simp]:
  "import_refs [] k = 0" "import_refs ((o', im) # ims) k = item_refs (imp_items im) k + import_refs ims k"
  "import_refs (ims @ ims') k = import_refs ims k + import_refs ims' k"
  "import_sum [] k = 0" "import_sum ((o', im) # ims) k = item_sum (imp_items im) k + import_sum ims k"
  "import_sum (ims @ ims') k = import_sum ims k + import_sum ims' k"
  by (simp_all add: import_refs_def import_sum_def)

lemma import_sum_zero: "import_refs ims k = 0 \<Longrightarrow> import_sum ims k = 0"
  by (induction ims) (auto simp: item_sum_zero)

text \<open>Taking one origin out of the import table, and replacing its import.\<close>

lemma other_origins:
  assumes "origin \<notin> fst ` set ims"
  shows "filter (\<lambda>(o', _). o' \<noteq> origin) ims = ims" "map (\<lambda>(o', i). (o', if o' = origin then im' else i)) ims = ims"
  using assms by (induction ims) auto

lemma import_remove:
  assumes "distinct (map fst ims)" "map_of ims origin = Some im"
  shows "import_refs ims k = item_refs (imp_items im) k + import_refs (filter (\<lambda>(o', _). o' \<noteq> origin) ims) k \<and>
    import_sum ims k = item_sum (imp_items im) k + import_sum (filter (\<lambda>(o', _). o' \<noteq> origin) ims) k"
  using assms
proof (induction ims)
  case (Cons p ims)
  obtain o' i where p: "p = (o', i)" by fastforce
  show ?case
  proof (cases "o' = origin")
    case True
    then have "filter (\<lambda>(o', _). o' \<noteq> origin) ims = ims" using Cons.prems p other_origins(1) by force
    then show ?thesis using Cons.prems(2) p True by simp
  qed (use Cons p in simp)
qed simp

lemma import_replace:
  assumes "distinct (map fst ims)" "map_of ims origin = Some im"
  shows "import_refs (map (\<lambda>(o', i). (o', if o' = origin then im' else i)) ims) k =
      item_refs (imp_items im') k + import_refs (filter (\<lambda>(o', _). o' \<noteq> origin) ims) k \<and>
    import_sum (map (\<lambda>(o', i). (o', if o' = origin then im' else i)) ims) k =
      item_sum (imp_items im') k + import_sum (filter (\<lambda>(o', _). o' \<noteq> origin) ims) k"
  using assms
proof (induction ims)
  case (Cons p ims)
  obtain o' i where p: "p = (o', i)" by fastforce
  show ?case
  proof (cases "o' = origin")
    case True
    then have "origin \<notin> fst ` set ims" using Cons.prems p by auto
    then show ?thesis using p True by (simp add: other_origins)
  qed (use Cons p in simp)
qed simp

record 'a world =
  logic :: "'a Logic"
  held :: "'a Key list"
  clock :: int

definition refs :: "'a world \<Rightarrow> 'a Key \<Rightarrow> nat" where
  "refs w k = count_list (held w) k + import_refs (importTable (logic w)) k"

definition world_ok :: "'a world \<Rightarrow> bool" where
  "world_ok w \<longleftrightarrow> core (logic w) (refs w) (import_sum (importTable (logic w))) (clock w) \<and>
     distinct (map fst (importTable (logic w)))"

text \<open>\<open>logic_ok h l now\<close>: the same with the handles given as a function.\<close>

definition logic_ok :: "('a Key \<Rightarrow> nat) \<Rightarrow> 'a Logic \<Rightarrow> int \<Rightarrow> bool" where
  "logic_ok h l now \<longleftrightarrow> core l (\<lambda>k. h k + import_refs (importTable l) k) (import_sum (importTable l)) now \<and>
     distinct (map fst (importTable l))"

lemma world_ok_logic: "world_ok w \<longleftrightarrow> logic_ok (count_list (held w)) (logic w) (clock w)"
  by (simp add: world_ok_def logic_ok_def refs_def [abs_def])

lemma import_pos: "(o', im) \<in> set ims \<Longrightarrow> (b, k) \<in> set (imp_items im) \<Longrightarrow> import_refs ims k > 0"
  by (induction ims) (auto dest: item_refs_pos)

lemma logic_importConsumers:
  assumes "logic_ok h l now"
  shows "\<exists>l'. importConsumers origin gossip now l = Ok l' \<and> logic_ok h l' now"
proof -
  let ?ims = "importTable l" and ?is = "gossip_items gossip"
  note c = assms [unfolded logic_ok_def, THEN conjunct1] and d = assms [unfolded logic_ok_def, THEN conjunct2]
  obtain l1 where 1: "import_items now gossip l = Ok (?is, l1)" "importTable l1 = ?ims"
    "core l1 (\<lambda>k. h k + import_refs ?ims k + item_refs ?is k) (\<lambda>k. import_sum ?ims k + item_sum ?is k) now"
    using core_import_items [OF c] by blast
  let ?im = "\<lparr>imp_whenExpires = now + gossipExpirationSeconds, imp_items = ?is\<rparr>"
  show ?thesis
  proof (cases "map_of ?ims origin")
    case None
    then have "origin \<notin> fst ` set ?ims" by (simp add: map_of_eq_None_iff)
    moreover have "import_sum (?ims @ [(origin, ?im)]) = (\<lambda>k. import_sum ?ims k + item_sum ?is k)" by (simp add: fun_eq_iff)
    ultimately show ?thesis using None 1 d by (simp add: importConsumers_def logic_ok_def add.assoc)
  next
    case (Some prev)
    have p: "\<forall>i \<in> set (imp_items prev). h (snd i) + import_refs ?ims (snd i) + item_refs ?is (snd i) > 0"
      using import_pos [OF map_of_SomeD [OF Some]] by auto
    obtain l2 where 2: "sub_remotes (imp_items prev) l1 = Ok l2" "importTable l2 = ?ims"
      "core l2 (\<lambda>k. h k + import_refs ?ims k + item_refs ?is k) (\<lambda>k. import_sum ?ims k + item_sum ?is k - item_sum (imp_items prev) k) now"
      using core_sub_remotes [OF 1(3) p] 1(2) by auto
    let ?t = "map (\<lambda>(o', im). (o', if o' = origin then ?im else im)) ?ims"
    let ?l2 = "l2\<lparr>importTable := ?t\<rparr>"
    have le: "item_refs (imp_items prev) k \<le> h k + import_refs ?ims k + item_refs ?is k" for k
      using import_remove [OF d Some, of k] by simp
    obtain l3 where 3: "release_items now (imp_items prev) ?l2 = Ok l3" "importTable l3 = ?t"
      "core l3 (\<lambda>k. h k + import_refs ?ims k + item_refs ?is k - item_refs (imp_items prev) k)
         (\<lambda>k. import_sum ?ims k + item_sum ?is k - item_sum (imp_items prev) k) now"
      using core_release_items [of ?l2, OF _ le] 2(3) by auto
    have eq: "(\<lambda>k. h k + import_refs ?ims k + item_refs ?is k - item_refs (imp_items prev) k) = (\<lambda>k. h k + import_refs ?t k)"
      "(\<lambda>k. import_sum ?ims k + item_sum ?is k - item_sum (imp_items prev) k) = import_sum ?t"
      using import_remove [OF d Some] import_replace [OF d Some, of ?im] by (auto simp: fun_eq_iff)
    have "map fst ?t = map fst ?ims" by auto
    then have "logic_ok h l3 now" unfolding logic_ok_def 3(2) using 3(3) d unfolding eq by argo
    moreover have "importConsumers origin gossip now l = Ok l3" using Some 1(1) 2(1,2) 3(1) by (simp add: importConsumers_def Let_def)
    ultimately show ?thesis by blast
  qed
qed

lemma logic_expire_imports:
  assumes "logic_ok h l now" "importTable l = done' @ ims"
  shows "\<exists>l'. expire_imports now ims l = Ok l' \<and> logic_ok h l' now \<and>
    importTable l' = done' @ filter (\<lambda>(_, im). now < imp_whenExpires im) ims"
  using assms
proof (induction ims arbitrary: l done')
  case (Cons p ims)
  obtain origin im where p: "p = (origin, im)" by fastforce
  show ?case
  proof (cases "imp_whenExpires im \<le> now")
    case False
    then show ?thesis using Cons.IH [of l "done' @ [p]"] Cons.prems p by simp
  next
    case True
    let ?ims = "importTable l" and ?t = "done' @ ims"
    note c = Cons.prems(1) [unfolded logic_ok_def, THEN conjunct1] and d = Cons.prems(1) [unfolded logic_ok_def, THEN conjunct2]
    have m: "map_of ?ims origin = Some im" using map_of_is_SomeI [OF d] p Cons.prems(2) by simp
    have "origin \<notin> fst ` set done'" "origin \<notin> fst ` set ims" using d p Cons.prems(2) by auto
    then have t: "filter (\<lambda>(o', _). o' \<noteq> origin) ?ims = ?t" using p Cons.prems(2) by (simp add: other_origins(1))
    note r = import_remove [OF d m, unfolded t]
    have pos: "\<forall>i \<in> set (imp_items im). h (snd i) + import_refs ?ims (snd i) > 0"
      using import_pos [OF map_of_SomeD [OF m]] by fastforce
    obtain l1 where 1: "sub_remotes (imp_items im) l = Ok l1" "importTable l1 = ?ims"
      "core l1 (\<lambda>k. h k + import_refs ?ims k) (\<lambda>k. import_sum ?ims k - item_sum (imp_items im) k) now"
      using core_sub_remotes [OF c pos] by blast
    let ?l1 = "l1\<lparr>importTable := ?t\<rparr>"
    have le: "item_refs (imp_items im) k \<le> h k + import_refs ?ims k" for k using r [of k] by simp
    obtain l2 where 2: "release_items now (imp_items im) ?l1 = Ok l2" "importTable l2 = ?t"
      "core l2 (\<lambda>k. h k + import_refs ?ims k - item_refs (imp_items im) k) (\<lambda>k. import_sum ?ims k - item_sum (imp_items im) k) now"
      using core_release_items [of ?l1, OF _ le] 1(3) by auto
    have "(\<lambda>k. h k + import_refs ?ims k - item_refs (imp_items im) k) = (\<lambda>k. h k + import_refs ?t k)"
      "(\<lambda>k. import_sum ?ims k - item_sum (imp_items im) k) = import_sum ?t" using r by (auto simp: fun_eq_iff)
    then have "logic_ok h l2 now" using 2(2,3) d Cons.prems(2) p by (simp add: logic_ok_def)
    then show ?thesis using Cons.IH [OF _ 2(2)] 1(1,2) 2(1) p True t by simp
  qed
qed simp

lemma logic_periodicActivity:
  assumes "logic_ok h l now"
  shows "\<exists>l'. periodicActivity now l = Ok l' \<and> logic_ok h l' now \<and>
    importTable l' = filter (\<lambda>(_, im). now < imp_whenExpires im) (importTable l)"
proof -
  note c = assms [unfolded logic_ok_def, THEN conjunct1]
  obtain l1 where 1: "expire_inactive now (inactive l) l = Ok l1" "importTable l1 = importTable l"
    "core l1 (\<lambda>k. h k + import_refs (importTable l) k) (import_sum (importTable l)) now"
    using core_expire_inactive [OF c] import_sum_zero [of "importTable l"] by auto
  then have "logic_ok h l1 now" using assms by (simp add: logic_ok_def)
  then show ?thesis using logic_expire_imports [of h l1 now "[]" "importTable l1"] 1(1,2) by (simp add: periodicActivity_def)
qed

section \<open>Calls\<close>

datatype 'a call =
    NewInbound "'a Endpoint" | NewOutbound "'a Endpoint" | NewUnlimited string
  | CopyHandle "'a Key" | DropHandle "'a Key" | AssignHandle "'a Key" "'a Key"
  | ChargeCall "'a Key" int | WarnCall "'a Key" | DisconnectCall "'a Key" | BalanceCall "'a Key"
  | ExportCall | JsonCall int | ImportCall string "(int \<times> 'a Endpoint) list" | PeriodicCall | Tick nat

text \<open>A caller uses the handles it holds; an assignment is between two different handles.\<close>

fun enabled :: "'a call \<Rightarrow> 'a world \<Rightarrow> bool" where
  "enabled (CopyHandle k) w \<longleftrightarrow> k \<in> set (held w)"
| "enabled (DropHandle k) w \<longleftrightarrow> k \<in> set (held w)"
| "enabled (AssignHandle a b) w \<longleftrightarrow> a \<in> set (held w) \<and> b \<in> set (remove1 a (held w))"
| "enabled (ChargeCall k c) w \<longleftrightarrow> k \<in> set (held w)"
| "enabled (WarnCall k) w \<longleftrightarrow> k \<in> set (held w)"
| "enabled (DisconnectCall k) w \<longleftrightarrow> k \<in> set (held w)"
| "enabled (BalanceCall k) w \<longleftrightarrow> k \<in> set (held w)"
| "enabled _ w \<longleftrightarrow> True"

definition new_handle :: "'a world \<Rightarrow> ('a Key \<times> 'a Logic) res \<Rightarrow> 'a world res" where
  "new_handle w r = rbind r (\<lambda>(k, l). Ok (w\<lparr>logic := l, held := k # held w\<rparr>))"

definition keep_handles :: "'a world \<Rightarrow> ('b \<times> 'a Logic) res \<Rightarrow> 'a world res" where
  "keep_handles w r = rbind r (\<lambda>(_, l). Ok (w\<lparr>logic := l\<rparr>))"

fun exec :: "'a call \<Rightarrow> 'a world \<Rightarrow> 'a world res" where
  "exec (NewInbound ep) w = new_handle w (newInboundEndpoint ep (clock w) (logic w))"
| "exec (NewOutbound ep) w = new_handle w (newOutboundEndpoint ep (clock w) (logic w))"
| "exec (NewUnlimited n) w = new_handle w (newUnlimitedEndpoint n (clock w) (logic w))"
| "exec (CopyHandle k) w = rbind (Consumer_copy (Some k) (logic w)) (\<lambda>(_, l). Ok (w\<lparr>logic := l, held := k # held w\<rparr>))"
| "exec (DropHandle k) w = rbind (Consumer_destroy (Some k) (clock w) (logic w)) (\<lambda>l. Ok (w\<lparr>logic := l, held := remove1 k (held w)\<rparr>))"
| "exec (AssignHandle a b) w =
     rbind (Consumer_assign (Some a) (Some b) (clock w) (logic w)) (\<lambda>(_, l). Ok (w\<lparr>logic := l, held := b # remove1 a (held w)\<rparr>))"
| "exec (ChargeCall k c) w = keep_handles w (charge k c (clock w) (logic w))"
| "exec (WarnCall k) w = keep_handles w (warn k (clock w) (logic w))"
| "exec (DisconnectCall k) w = keep_handles w (disconnect k (clock w) (logic w))"
| "exec (BalanceCall k) w = keep_handles w (balance k (clock w) (logic w))"
| "exec ExportCall w = keep_handles w (exportConsumers (clock w) (logic w))"
| "exec (JsonCall t) w = keep_handles w (getJson t (clock w) (logic w))"
| "exec (ImportCall origin g) w = rbind (importConsumers origin g (clock w) (logic w)) (\<lambda>l. Ok (w\<lparr>logic := l\<rparr>))"
| "exec PeriodicCall w = rbind (periodicActivity (clock w) (logic w)) (\<lambda>l. Ok (w\<lparr>logic := l\<rparr>))"
| "exec (Tick n) w = Ok (w\<lparr>clock := clock w + int n\<rparr>)"

inductive resource_step :: "'a world \<Rightarrow> 'a world \<Rightarrow> bool" where
  call: "enabled c w \<Longrightarrow> exec c w = Ok w' \<Longrightarrow> resource_step w w'"

inductive_cases resource_stepE: "resource_step w w'"

definition start_world :: "int \<Rightarrow> 'a world" where
  "start_world now = \<lparr>logic = Logic_make, held = [], clock = now\<rparr>"

lemma world_ok_start: "world_ok (start_world now)"
  by (simp add: world_ok_def start_world_def Logic_make_def core_def refs_def active_list_def split: Kind.splits)

text \<open>What an operation has to show: it succeeds and changes the handles by \<open>f\<close>.\<close>

lemma world_core: "world_ok w \<Longrightarrow> core (logic w) (refs w) (import_sum (importTable (logic w))) (clock w)"
  by (simp add: world_ok_def)

lemma held_refs: "k \<in> set (held w) \<Longrightarrow> refs w k > 0"
  by (simp add: refs_def count_list_0_iff [symmetric]) (metis count_list_0_iff gr0I trans_less_add1)

lemma world_okI:
  assumes "world_ok w" "core l rf (import_sum (importTable (logic w))) (clock w)" "importTable l = importTable (logic w)"
    "\<And>k. rf k = count_list hs k + import_refs (importTable (logic w)) k"
  shows "world_ok (w\<lparr>logic := l, held := hs\<rparr>)"
proof -
  have "refs (w\<lparr>logic := l, held := hs\<rparr>) = rf" using assms(3,4) by (simp add: refs_def fun_eq_iff)
  then show ?thesis using assms(1-3) by (simp add: world_ok_def)
qed

lemma count_list_remove1: "k \<in> set xs \<Longrightarrow> count_list (remove1 k xs) k' = (if k' = k then count_list xs k' - 1 else count_list xs k')"
  by (induction xs) (auto simp: count_list_0_iff [symmetric])

lemma step_new:
  assumes "world_ok w" "r = rbind (newEndpoint k (key_kind k) (clock w) (logic w)) (\<lambda>l. Ok (k, l))"
  shows "\<exists>w'. new_handle w r = Ok w' \<and> world_ok w'"
proof -
  obtain l where l: "newEndpoint k (key_kind k) (clock w) (logic w) = Ok l" "importTable l = importTable (logic w)"
    "core l ((refs w)(k := refs w k + 1)) (import_sum (importTable (logic w))) (clock w)"
    using core_newEndpoint [OF world_core [OF assms(1)], of k] by blast
  have "world_ok (w\<lparr>logic := l, held := k # held w\<rparr>)" by (rule world_okI [OF assms(1) l(3,2)]) (simp add: refs_def)
  then show ?thesis using assms(2) l(1) by (simp add: new_handle_def)
qed

lemma step_keep:
  assumes "world_ok w" "\<exists>x l. r = Ok (x, l) \<and> core l (refs w) (import_sum (importTable (logic w))) (clock w) \<and> importTable l = importTable (logic w)"
  shows "\<exists>w'. keep_handles w r = Ok w' \<and> world_ok w'"
proof -
  obtain x l where l: "r = Ok (x, l)" "core l (refs w) (import_sum (importTable (logic w))) (clock w)" "importTable l = importTable (logic w)"
    using assms(2) by blast
  have "world_ok (w\<lparr>logic := l, held := held w\<rparr>)" by (rule world_okI [OF assms(1) l(2,3)]) (simp add: refs_def)
  then show ?thesis using l(1) by (simp add: keep_handles_def)
qed

lemma step_acquire:
  assumes "world_ok w" "core l rf (import_sum (importTable (logic w))) (clock w)" "importTable l = importTable (logic w)" "rf k > 0"
    "\<And>k. rf k = count_list hs k + import_refs (importTable (logic w)) k"
  shows "\<exists>l'. acquire k l = Ok l' \<and> world_ok (w\<lparr>logic := l', held := k # hs\<rparr>)"
proof -
  obtain l' where l': "acquire k l = Ok l'" "core l' (rf(k := rf k + 1)) (import_sum (importTable (logic w))) (clock w)"
    "importTable l' = importTable (logic w)" using core_acquire [OF assms(2,4)] assms(3) by auto
  have "world_ok (w\<lparr>logic := l', held := k # hs\<rparr>)" by (rule world_okI [OF assms(1) l'(2,3)]) (use assms(5) in simp)
  then show ?thesis using l'(1) by blast
qed

lemma step_release:
  assumes "world_ok w" "k \<in> set (held w)"
  shows "\<exists>l. release k (clock w) (logic w) = Ok l \<and> importTable l = importTable (logic w) \<and>
    core l ((refs w)(k := refs w k - 1)) (import_sum (importTable (logic w))) (clock w) \<and>
    (\<forall>k'. ((refs w)(k := refs w k - 1)) k' = count_list (remove1 k (held w)) k' + import_refs (importTable (logic w)) k')"
proof -
  have "((refs w)(k := refs w k - 1)) k' = count_list (remove1 k (held w)) k' + import_refs (importTable (logic w)) k'" for k'
  proof -
    have "count_list (held w) k > 0" using assms(2) by (metis count_list_0_iff gr0I)
    then show ?thesis using count_list_remove1 [OF assms(2), of k'] by (auto simp: refs_def)
  qed
  then show ?thesis using core_release [OF world_core [OF assms(1)] held_refs [OF assms(2)]] by auto
qed

lemma core_reads:
  assumes "core l rf rb now"
  shows "\<exists>x l'. exportConsumers now l = Ok (x, l') \<and> core l' rf rb now \<and> importTable l' = importTable l"
    "\<exists>x l'. getJson t now l = Ok (x, l') \<and> core l' rf rb now \<and> importTable l' = importTable l"
proof -
  note r = core_read_locals [where now = now]
  obtain xs l1 where 1: "read_locals now (inbound l) l = Ok (xs, l1)" "core l1 rf rb now" "importTable l1 = importTable l"
    using r [OF assms, of "inbound l"] core_active [OF assms] by auto
  obtain ys l2 where 2: "read_locals now (outbound l1) l1 = Ok (ys, l2)" "core l2 rf rb now" "importTable l2 = importTable l"
    using r [OF 1(2), of "outbound l1"] core_active [OF 1(2)] 1(3) by auto
  obtain zs l3 where 3: "read_locals now (admin l2) l2 = Ok (zs, l3)" "core l3 rf rb now" "importTable l3 = importTable l"
    using r [OF 2(2), of "admin l2"] core_active [OF 2(2)] 2(3) by auto
  show "\<exists>x l'. exportConsumers now l = Ok (x, l') \<and> core l' rf rb now \<and> importTable l' = importTable l"
    using 1 by (simp add: exportConsumers_def)
  show "\<exists>x l'. getJson t now l = Ok (x, l') \<and> core l' rf rb now \<and> importTable l' = importTable l"
    using 1 2 3 by (simp add: getJson_def Let_def)
qed

lemma world_ok_update: "world_ok (w\<lparr>logic := l\<rparr>) \<longleftrightarrow> logic_ok (count_list (held w)) l (clock w)"
  by (simp add: world_ok_logic)

lemma exec_ok:
  assumes w: "world_ok w" and e: "enabled c w"
  shows "\<exists>w'. exec c w = Ok w' \<and> world_ok w'"
proof (cases c)
  case (NewInbound ep)
  show ?thesis unfolding NewInbound exec.simps
    by (rule step_new [OF w, of _ "inbound_key ep"]) (simp add: newInboundEndpoint_def Key_make_def inbound_key_def)
next
  case (NewOutbound ep)
  show ?thesis unfolding NewOutbound exec.simps
    by (rule step_new [OF w, of _ "AddrKey kindOutbound ep"]) (simp add: newOutboundEndpoint_def Key_make_def)
next
  case (NewUnlimited n)
  show ?thesis unfolding NewUnlimited exec.simps by (rule step_new [OF w, of _ "NameKey n"]) (simp add: newUnlimitedEndpoint_def)
next
  case (CopyHandle k)
  then show ?thesis using step_acquire [OF w world_core [OF w] refl, of k "held w"] e held_refs [of k w]
    by (auto simp: Consumer_copy_def refs_def)
next
  case (DropHandle k)
  then obtain l where l: "release k (clock w) (logic w) = Ok l" "importTable l = importTable (logic w)"
    "core l ((refs w)(k := refs w k - 1)) (import_sum (importTable (logic w))) (clock w)"
    "\<And>k'. ((refs w)(k := refs w k - 1)) k' = count_list (remove1 k (held w)) k' + import_refs (importTable (logic w)) k'"
    using step_release [OF w, of k] e by auto
  have "world_ok (w\<lparr>logic := l, held := remove1 k (held w)\<rparr>)" by (rule world_okI [OF w l(3,2,4)])
  then show ?thesis using DropHandle l(1) by (simp add: Consumer_destroy_def)
next
  case (AssignHandle a b)
  then have ab: "a \<in> set (held w)" "b \<in> set (remove1 a (held w))" using e by auto
  obtain l where l: "release a (clock w) (logic w) = Ok l" "importTable l = importTable (logic w)"
    "core l ((refs w)(a := refs w a - 1)) (import_sum (importTable (logic w))) (clock w)"
    "\<And>k'. ((refs w)(a := refs w a - 1)) k' = count_list (remove1 a (held w)) k' + import_refs (importTable (logic w)) k'"
    using step_release [OF w ab(1)] by auto
  have "((refs w)(a := refs w a - 1)) b > 0" unfolding l(4) using ab(2) by (metis count_list_0_iff gr0I trans_less_add1)
  from step_acquire [OF w l(3,2) this l(4)] show ?thesis using AssignHandle l(1) by (auto simp: Consumer_assign_def)
next
  case (ChargeCall k x)
  show ?thesis unfolding ChargeCall exec.simps
    by (rule step_keep [OF w core_charge [OF world_core [OF w]]]) (use e ChargeCall held_refs in auto)
next
  case (WarnCall k)
  show ?thesis unfolding WarnCall exec.simps
    by (rule step_keep [OF w core_warn [OF world_core [OF w]]]) (use e WarnCall held_refs in auto)
next
  case (DisconnectCall k)
  show ?thesis unfolding DisconnectCall exec.simps
    by (rule step_keep [OF w core_disconnect [OF world_core [OF w]]]) (use e DisconnectCall held_refs in auto)
next
  case (BalanceCall k)
  show ?thesis unfolding BalanceCall exec.simps
    by (rule step_keep [OF w core_balance [OF world_core [OF w]]]) (use e BalanceCall held_refs in auto)
next
  case ExportCall
  show ?thesis unfolding ExportCall exec.simps by (rule step_keep [OF w core_reads(1) [OF world_core [OF w]]])
next
  case (JsonCall t)
  show ?thesis unfolding JsonCall exec.simps by (rule step_keep [OF w core_reads(2) [OF world_core [OF w]]])
next
  case (ImportCall origin g)
  show ?thesis using logic_importConsumers [OF w [unfolded world_ok_logic], of origin g] by (auto simp: ImportCall world_ok_update)
next
  case PeriodicCall
  show ?thesis using logic_periodicActivity [OF w [unfolded world_ok_logic]] by (auto simp: PeriodicCall world_ok_update)
next
  case (Tick n)
  have "refs (w\<lparr>clock := clock w + int n\<rparr>) = refs w" by (simp add: refs_def fun_eq_iff)
  then show ?thesis using w core_later [of "logic w" "refs w"] by (auto simp: Tick world_ok_def)
qed

lemma reachable_ok: "resource_step\<^sup>*\<^sup>* (start_world now) w \<Longrightarrow> world_ok w"
proof (induction rule: rtranclp_induct)
  case base show ?case by (rule world_ok_start)
next
  case (step w w')
  from step.hyps(2) obtain c where "enabled c w" "exec c w = Ok w'" by (auto elim: resource_stepE)
  then show ?case using exec_ok [OF step.IH, of c] by auto
qed

text \<open>
  C8. Whatever its callers do with the handles they hold, the resource manager never follows a dangling
  handle, never unlinks an entry from a list it is not in and never fails an assertion. In every
  reachable state the reference count of an entry is the number of handles to it, held outside or in
  imports, its remote balance is the sum of the imported balances for it, a held handle points to an
  entry, and the four lists partition the table.
\<close>

theorem resource_accounting:
  assumes "resource_step\<^sup>*\<^sup>* (start_world now) w"
  shows "(\<forall>c. enabled c w \<longrightarrow> (\<exists>w'. exec c w = Ok w')) \<and>
    (\<forall>k e. table (logic w) k = Some e \<longrightarrow>
       refcount e = int (count_list (held w) k + import_refs (importTable (logic w)) k) \<and>
       remote_balance e = import_sum (importTable (logic w)) k) \<and>
    (\<forall>k \<in> set (held w). table (logic w) k \<noteq> None) \<and>
    distinct (inbound (logic w) @ outbound (logic w) @ admin (logic w) @ inactive (logic w)) \<and>
    set (inbound (logic w) @ outbound (logic w) @ admin (logic w) @ inactive (logic w)) = dom (table (logic w))"
proof (intro conjI)
  note ok = reachable_ok [OF assms]
  note c = world_core [OF ok]
  show "\<forall>c. enabled c w \<longrightarrow> (\<exists>w'. exec c w = Ok w')" using exec_ok [OF ok] by blast
  show "\<forall>k e. table (logic w) k = Some e \<longrightarrow>
       refcount e = int (count_list (held w) k + import_refs (importTable (logic w)) k) \<and>
       remote_balance e = import_sum (importTable (logic w)) k"
    using coreD(1) [OF c] by (metis counted.simps(2) refs_def)
  show "\<forall>k \<in> set (held w). table (logic w) k \<noteq> None" using core_entry [OF c] held_refs [of _ w] by (metis option.distinct(1))
  have a: "set (inbound (logic w)) = {k. key_kind k = kindInbound \<and> refs w k > 0}" "distinct (inbound (logic w))"
    "set (outbound (logic w)) = {k. key_kind k = kindOutbound \<and> refs w k > 0}" "distinct (outbound (logic w))"
    "set (admin (logic w)) = {k. key_kind k = kindUnlimited \<and> refs w k > 0}" "distinct (admin (logic w))"
    using coreD(2,3) [OF c, of kindInbound] coreD(2,3) [OF c, of kindOutbound] coreD(2,3) [OF c, of kindUnlimited]
    by (simp_all add: active_list_def)
  show "distinct (inbound (logic w) @ outbound (logic w) @ admin (logic w) @ inactive (logic w))"
    using a coreD(4,5) [OF c] by auto
  have "refs w k > 0 \<Longrightarrow> table (logic w) k \<noteq> None" for k using core_entry [OF c] by (metis option.distinct(1))
  moreover have "key_kind k = kindInbound \<or> key_kind k = kindOutbound \<or> key_kind k = kindUnlimited" for k :: "'a Key"
    by (cases "key_kind k") auto
  ultimately show "set (inbound (logic w) @ outbound (logic w) @ admin (logic w) @ inactive (logic w)) = dom (table (logic w))"
    using a(1,3,5) coreD(5) [OF c] by auto
qed

definition sample_endpoint :: "nat Endpoint" where
  "sample_endpoint = \<lparr>ep_addr = 7, ep_port = 80\<rparr>"

definition sample_logic :: "nat Logic" where
  "sample_logic = Logic_make\<lparr>table := [AddrKey kindInbound \<lparr>ep_addr = 7, ep_port = 0\<rparr> \<mapsto> (Entry_make 0)\<lparr>refcount := 1\<rparr>],
     inbound := [AddrKey kindInbound \<lparr>ep_addr = 7, ep_port = 0\<rparr>]\<rparr>"

definition sample_world :: "nat world" where
  "sample_world = \<lparr>logic = sample_logic, held = [AddrKey kindInbound \<lparr>ep_addr = 7, ep_port = 0\<rparr>], clock = 0\<rparr>"

lemma sample_reachable: "resource_step\<^sup>*\<^sup>* (start_world 0) sample_world"
proof -
  have "exec (NewInbound sample_endpoint) (start_world 0) = Ok sample_world"
    by (simp add: sample_world_def sample_logic_def sample_endpoint_def start_world_def new_handle_def newInboundEndpoint_def
        Key_make_def newEndpoint_def Logic_make_def put_entry_def set_active_def active_list_def at_port_def Entry_make_def Let_def)
  then show ?thesis by (intro r_into_rtranclp call [of "NewInbound sample_endpoint"]) simp_all
qed

theorem resource_accounting_witness:
  "\<exists>w'. exec (DropHandle (AddrKey kindInbound \<lparr>ep_addr = 7, ep_port = 0\<rparr>)) sample_world = Ok w'"
proof -
  have "enabled (DropHandle (AddrKey kindInbound \<lparr>ep_addr = 7, ep_port = 0\<rparr>)) sample_world" by (simp add: sample_world_def)
  then show ?thesis using resource_accounting [OF sample_reachable] by blast
qed

section \<open>Expiry of inactive entries\<close>

lemma entries_stay:
  shows add_remote_dom: "add_remote k b l = Ok l' \<Longrightarrow> dom (table l') = dom (table l)"
    and release_dom: "release k now l = Ok l' \<Longrightarrow> dom (table l') = dom (table l)"
  by (auto simp: add_remote_def release_def entry_at_def Let_def split: option.splits if_splits)

lemma sub_remotes_dom: "sub_remotes is l = Ok l' \<Longrightarrow> dom (table l') = dom (table l)"
  by (induction "is" l rule: sub_remotes.induct) (simp, clarsimp, metis add_remote_dom)

lemma release_items_dom: "release_items now is l = Ok l' \<Longrightarrow> dom (table l') = dom (table l)"
  by (induction now "is" l rule: release_items.induct) (simp, clarsimp simp: Consumer_destroy_def, metis release_dom)

lemma expire_imports_dom: "expire_imports now ims l = Ok l' \<Longrightarrow> dom (table l') = dom (table l)"
proof (induction now ims l rule: expire_imports.induct)
  case (2 now origin im ims l)
  then show ?case
    by (cases "imp_whenExpires im \<le> now") (clarsimp, drule sub_remotes_dom, drule release_items_dom, simp, simp)
qed simp

lemma last_release:
  "release k now l = Ok l' \<Longrightarrow> table l k = Some e \<Longrightarrow> refcount e = 1 \<Longrightarrow>
   table l' k = Some (e\<lparr>refcount := 0, whenExpires := now + secondsUntilExpiration\<rparr>)"
  by (auto simp: release_def entry_at_def Let_def)

lemma periodic_erases:
  assumes "world_ok w" "refs w k = 0" "expiry (logic w) k \<le> clock w" "exec PeriodicCall w = Ok w'"
  shows "table (logic w') k = None"
proof -
  obtain l1 where l1: "expire_inactive (clock w) (inactive (logic w)) (logic w) = Ok l1"
    "core l1 (refs w) (import_sum (importTable (logic w))) (clock w)" "\<forall>k \<in> set (inactive l1). expiry l1 k > clock w"
    "\<And>k. table l1 k = None \<or> table l1 k = table (logic w) k"
    using core_expire_inactive [OF world_core [OF assms(1)]] import_sum_zero by (metis add_is_0 refs_def)
  have "table l1 k = None"
  proof (rule ccontr)
    assume "table l1 k \<noteq> None"
    moreover from this have "expiry l1 k = expiry (logic w) k" using l1(4) [of k] by (auto simp: expiry_def)
    ultimately show False using l1(3) coreD(5) [OF l1(2)] assms(2,3) by fastforce
  qed
  moreover have "expire_imports (clock w) (importTable l1) l1 = Ok (logic w')" using assms(4) l1(1) by (auto simp: periodicActivity_def)
  ultimately show ?thesis using expire_imports_dom by blast
qed

text \<open>
  The constant \<open>secondsUntilExpiration = 300\<close> is added to a count of clock ticks: an entry whose last
  handle is dropped is erased by the first \<open>periodicActivity\<close> that runs 300 nanoseconds later, with the
  consumption it recorded, and the endpoint starts again with an empty balance.
\<close>

theorem inactive_entry_lives_300_ticks:
  assumes "resource_step\<^sup>*\<^sup>* (start_world now) w" "k \<in> set (held w)" "refs w k = 1"
  shows "\<exists>w1 w2 l3. exec (DropHandle k) w = Ok w1 \<and> exec PeriodicCall (w1\<lparr>clock := clock w1 + 300\<rparr>) = Ok w2 \<and>
    table (logic w2) k = None \<and>
    newEndpoint k (key_kind k) (clock w2) (logic w2) = Ok l3 \<and> table l3 k = Some ((Entry_make (clock w2))\<lparr>refcount := 1\<rparr>)"
proof -
  note ok = reachable_ok [OF assms(1)]
  obtain e where e: "table (logic w) k = Some e" "refcount e = 1" using core_entry [OF world_core [OF ok], of k] assms(3) by auto
  obtain w1 where w1: "exec (DropHandle k) w = Ok w1" "world_ok w1" using exec_ok [OF ok, of "DropHandle k"] assms(2) by auto
  then have l1: "release k (clock w) (logic w) = Ok (logic w1)" "clock w1 = clock w" "held w1 = remove1 k (held w)"
    by (auto simp: Consumer_destroy_def)
  let ?w = "w1\<lparr>clock := clock w1 + 300\<rparr>"
  have x: "expiry (logic ?w) k \<le> clock ?w" using last_release [OF l1(1) e] l1(2) by (simp add: expiry_def secondsUntilExpiration_def)
  have "importTable (logic w1) = importTable (logic w)" using step_release [OF ok assms(2)] l1(1) by auto
  moreover have "count_list (held w) k > 0" using assms(2) by (metis count_list_0_iff gr0I)
  ultimately have rk: "refs ?w k = 0" using assms(3) l1(3) count_list_remove1 [OF assms(2), of k] by (simp add: refs_def)
  have "world_ok ?w" using exec_ok [OF w1(2), of "Tick 300"] by simp
  then obtain w2 where w2: "exec PeriodicCall ?w = Ok w2" "world_ok w2" using exec_ok [of ?w PeriodicCall] by auto
  have n: "table (logic w2) k = None" by (rule periodic_erases [OF \<open>world_ok ?w\<close> rk x w2(1)])
  then have "\<exists>l3. newEndpoint k (key_kind k) (clock w2) (logic w2) = Ok l3 \<and> table l3 k = Some ((Entry_make (clock w2))\<lparr>refcount := 1\<rparr>)"
    by (simp add: newEndpoint_def Let_def Entry_make_def)
  then show ?thesis using w1(1) w2(1) n by blast
qed

theorem inactive_entry_lives_300_ticks_witness:
  "\<exists>w1. exec (DropHandle (AddrKey kindInbound \<lparr>ep_addr = 7, ep_port = 0\<rparr>)) sample_world = Ok w1 \<and>
    (\<exists>w2. exec PeriodicCall (w1\<lparr>clock := clock w1 + 300\<rparr>) = Ok w2 \<and> table (logic w2) (AddrKey kindInbound \<lparr>ep_addr = 7, ep_port = 0\<rparr>) = None)"
  using inactive_entry_lives_300_ticks [OF sample_reachable, of "AddrKey kindInbound \<lparr>ep_addr = 7, ep_port = 0\<rparr>"]
  by (auto simp: sample_world_def sample_logic_def refs_def Logic_make_def)

section \<open>Self-assignment\<close>

text \<open>
  Assigning a \<open>Consumer\<close> to itself releases the entry before it acquires it again: when it is the last
  handle, the entry stays in the inactive list with a reference count of one, and \<open>periodicActivity\<close>
  later fails its assertion instead of leaving the live entry alone.
\<close>

theorem self_assignment_breaks_entry:
  assumes "resource_step\<^sup>*\<^sup>* (start_world now) w" "k \<in> set (held w)" "refs w k = 1" "inactive (logic w) = []"
  shows "\<exists>l. Consumer_assign (Some k) (Some k) (clock w) (logic w) = Ok (Some k, l) \<and>
    inactive l = [k] \<and> (\<exists>e. table l k = Some e \<and> refcount e = 1) \<and>
    periodicActivity (clock w + 300) l = Throw AssertFailed"
proof -
  note ok = reachable_ok [OF assms(1)]
  obtain e where e: "table (logic w) k = Some e" "refcount e = 1" using core_entry [OF world_core [OF ok], of k] assms(3) by auto
  obtain l1 where l1: "release k (clock w) (logic w) = Ok l1" using step_release [OF ok assms(2)] by blast
  note t = last_release [OF l1 e]
  have i: "inactive l1 = [k]" using l1 e assms(4) by (auto simp: release_def entry_at_def Let_def)
  let ?l = "put_entry k (e\<lparr>whenExpires := clock w + 300, refcount := 1\<rparr>) l1"
  have "Consumer_assign (Some k) (Some k) (clock w) (logic w) = Ok (Some k, ?l)"
    using l1 t by (simp add: Consumer_assign_def acquire_def entry_at_def secondsUntilExpiration_def)
  moreover have "periodicActivity (clock w + 300) ?l = Throw AssertFailed"
    using i by (simp add: periodicActivity_def entry_at_def logic_erase_def)
  ultimately show ?thesis using i by simp
qed

theorem self_assignment_breaks_entry_witness:
  "\<exists>l. Consumer_assign (Some (AddrKey kindInbound \<lparr>ep_addr = 7, ep_port = 0\<rparr>)) (Some (AddrKey kindInbound \<lparr>ep_addr = 7, ep_port = 0\<rparr>))
      0 sample_logic = Ok (Some (AddrKey kindInbound \<lparr>ep_addr = 7, ep_port = 0\<rparr>), l) \<and>
    periodicActivity 300 l = Throw AssertFailed"
  using self_assignment_breaks_entry [OF sample_reachable, of "AddrKey kindInbound \<lparr>ep_addr = 7, ep_port = 0\<rparr>"]
  by (auto simp: sample_world_def sample_logic_def refs_def Logic_make_def)

end
