(* ===== verification/SHAMap.thy ===== *)
theory SHAMap
  imports Serializer OrdMap
begin

text \<open>
  \<open>SHAMap\<close> (\<open>shamap/impl/SHAMap.cpp\<close>): the radix-16 hash trie that holds ledger state and transaction
  sets. A node is a value: the sharing of nodes between snapshots and copy-on-write
  (\<open>unshareNode\<close>, \<open>mSeq\<close>), the node store and nodes that are not resident are not modelled, so
  \<open>descend\<close> always finds the child of a non-empty branch. The stacks of the source are lists, top first.
  The operations return the new root. A node's \<open>SHAMapNodeID\<close> is represented by its depth, the only
  part of it that \<open>selectBranch\<close> and \<open>isRoot\<close> look at.
\<close>

section \<open>Nodes\<close>

datatype TNType = tnERROR | tnINNER | tnTRANSACTION_NM | tnTRANSACTION_MD | tnACCOUNT_STATE

definition isLeafType :: "TNType \<Rightarrow> bool" where
  "isLeafType t \<longleftrightarrow> t = tnTRANSACTION_NM \<or> t = tnTRANSACTION_MD \<or> t = tnACCOUNT_STATE"

record SHAMapItem =
  item_key :: uint256
  item_data :: blob

text \<open>Inner nodes have sixteen children; an empty branch is \<open>None\<close> (\<open>mIsBranch\<close> and \<open>mChildren\<close>).\<close>

datatype node = Inner (children: "node option list") | Leaf SHAMapItem TNType

definition getChild :: "node option list \<Rightarrow> nat \<Rightarrow> node option" where
  "getChild cs b = (if b < length cs then cs ! b else None)"

definition setChild :: "nat \<Rightarrow> node option \<Rightarrow> node option list \<Rightarrow> node option list" where
  "setChild b c cs = cs[b := c]"

definition new_inner :: "node option list" where
  "new_inner = replicate 16 None"

definition isEmptyBranch :: "node option list \<Rightarrow> nat \<Rightarrow> bool" where
  "isEmptyBranch cs b \<longleftrightarrow> getChild cs b = None"

definition getBranchCount :: "node option list \<Rightarrow> nat" where
  "getBranchCount cs = length (filter (\<lambda>b. \<not> isEmptyBranch cs b) [0..<16])"

definition make_leaf :: "SHAMapItem \<Rightarrow> TNType \<Rightarrow> node res" where
  "make_leaf it t = (if length (item_data it) \<ge> 12 then Ok (Leaf it t) else Throw AssertFailed)"

lemma getChild_size [termination_simp]: "getChild cs b = Some c \<Longrightarrow> size c < size_list (size_option size) cs"
proof -
  assume "getChild cs b = Some c"
  then have "Some c \<in> set cs" by (auto simp: getChild_def split: if_splits intro: nth_mem) (metis nth_mem)
  then have "size_option size (Some c) \<le> size_list (size_option size) cs" by (rule size_list_estimation') simp
  then show ?thesis by simp
qed

section \<open>Branches\<close>

definition selectBranch :: "nat \<Rightarrow> uint256 \<Rightarrow> nat" where
  "selectBranch depth k =
     (let branch = unat (word_bytes k ! (depth div 2)) in if odd depth then branch mod 16 else branch div 16)"

text \<open>The first \<open>d\<close> hexadecimal digits of a key, as a number.\<close>

definition prefix :: "nat \<Rightarrow> uint256 \<Rightarrow> nat" where
  "prefix d k = unat k div 16 ^ (64 - d)"

lemma nat_bytes_nth: "i < n \<Longrightarrow> unat (nat_bytes n v ! i) = v div 256 ^ (n - 1 - i) mod 256"
proof (induction n arbitrary: v i)
  case (Suc n)
  show ?case
  proof (cases "i = n")
    case True
    then show ?thesis by (simp add: nth_append unat_of_nat_byte)
  next
    case False
    then have "i < n" using Suc.prems by simp
    then have "Suc (n - 1 - i) = n - i" by simp
    then have "v div 256 div 256 ^ (n - 1 - i) = v div 256 ^ (n - i)" by (metis div_mult2_eq power_Suc)
    then show ?thesis using Suc.IH [OF \<open>i < n\<close>, of "v div 256"] \<open>i < n\<close> by (simp add: nth_append)
  qed
qed simp

lemma byte_high: "x mod 256 div 16 = x div 16 mod (16 :: nat)"
proof -
  have "x mod (16 * 16) = 16 * (x div 16 mod 16) + x mod 16" by (rule mod_mult2_eq)
  then show ?thesis by simp
qed

lemma selectBranch_digit:
  assumes "d < 64"
  shows "selectBranch d k = unat k div 16 ^ (63 - d) mod 16"
proof -
  have b: "unat (word_bytes k ! (d div 2)) = unat k div 256 ^ (31 - d div 2) mod 256"
    using assms nat_bytes_nth [of "d div 2" 32 "unat k"] by (simp add: word_bytes_def)
  have p: "(256 :: nat) ^ n = 16 ^ (2 * n)" for n by (simp add: power_mult)
  show ?thesis
  proof (cases "odd d")
    case True
    then have "2 * (31 - d div 2) = 63 - d" using assms by presburger
    then show ?thesis using True b p [of "31 - d div 2"] mod_mod_cancel [of 16 256 "unat k div 16 ^ (63 - d)"]
      by (simp add: selectBranch_def Let_def)
  next
    case False
    then have e: "Suc (2 * (31 - d div 2)) = 63 - d" using assms by presburger
    have "unat k div 16 ^ (2 * (31 - d div 2)) mod 256 div 16 = unat k div 16 ^ (2 * (31 - d div 2)) div 16 mod 16"
      by (rule byte_high)
    also have "\<dots> = unat k div 16 ^ (63 - d) mod 16" unfolding e [symmetric] by (simp only: power_Suc2 div_mult2_eq)
    finally show ?thesis using False b p [of "31 - d div 2"] by (simp add: selectBranch_def Let_def)
  qed
qed

lemma selectBranch_less [simp]: "selectBranch d k < 16"
  using unat_byte [of "word_bytes k ! (d div 2)"] by (simp add: selectBranch_def Let_def less_mult_imp_div_less)

lemma prefix_0 [simp]: "prefix 0 k = 0"
  using unsigned_less [of k, where 'a = nat] by (simp add: prefix_def)

lemma prefix_Suc: "d < 64 \<Longrightarrow> prefix (Suc d) k = 16 * prefix d k + selectBranch d k"
proof -
  assume d: "d < 64"
  then have e: "64 - d = Suc (63 - d)" by simp
  have "unat k div 16 ^ (63 - d) = 16 * (unat k div 16 ^ (63 - d) div 16) + unat k div 16 ^ (63 - d) mod 16" by simp
  also have "unat k div 16 ^ (63 - d) div 16 = unat k div 16 ^ (64 - d)" unfolding e by (simp only: power_Suc2 div_mult2_eq)
  finally show ?thesis using d by (simp add: prefix_def selectBranch_digit)
qed

lemma prefix_64: "prefix 64 k = unat k"
  by (simp add: prefix_def)

lemma prefix_less: "prefix d k < prefix d k' \<Longrightarrow> k < k'"
  unfolding prefix_def word_less_nat_alt by (meson div_le_mono leD leI)

section \<open>Operations\<close>

fun walkToPointer :: "nat \<Rightarrow> node \<Rightarrow> uint256 \<Rightarrow> (SHAMapItem \<times> TNType) option" where
  "walkToPointer d (Inner cs) k =
     (case getChild cs (selectBranch d k) of None \<Rightarrow> None | Some c \<Rightarrow> walkToPointer (d + 1) c k)"
| "walkToPointer d (Leaf it t) k = (if item_key it = k then Some (it, t) else None)"

definition peekItem :: "node \<Rightarrow> uint256 \<Rightarrow> SHAMapItem option" where
  "peekItem rt k = map_option fst (walkToPointer 0 rt k)"

definition hasItem :: "node \<Rightarrow> uint256 \<Rightarrow> bool" where
  "hasItem rt k \<longleftrightarrow> walkToPointer 0 rt k \<noteq> None"

type_synonym node_stack = "(node \<times> nat) list"

fun getStack :: "nat \<Rightarrow> node \<Rightarrow> uint256 \<Rightarrow> bool \<Rightarrow> node_stack \<Rightarrow> node_stack" where
  "getStack d (Inner cs) k nonmatching stack =
     (case getChild cs (selectBranch d k) of
        None \<Rightarrow> (Inner cs, d) # stack
      | Some c \<Rightarrow> getStack (d + 1) c k nonmatching ((Inner cs, d) # stack))"
| "getStack d (Leaf it t) k nonmatching stack =
     (if nonmatching \<or> item_key it = k then (Leaf it t, d) # stack else stack)"

fun dirtyUp :: "node_stack \<Rightarrow> uint256 \<Rightarrow> node \<Rightarrow> node res" where
  "dirtyUp [] k child = Ok child"
| "dirtyUp ((Inner cs, d) # stack) k child = dirtyUp stack k (Inner (setChild (selectBranch d k) (Some child) cs))"
| "dirtyUp ((Leaf _ _, d) # stack) k child = Throw AssertFailed"

fun count_nonempty :: "node option list \<Rightarrow> node list" where
  "count_nonempty [] = []"
| "count_nonempty (None # cs) = count_nonempty cs"
| "count_nonempty (Some c # cs) = c # count_nonempty cs"

lemma count_nonempty_set: "set (count_nonempty cs) = {c. Some c \<in> set cs}"
  by (induction cs rule: count_nonempty.induct) auto

lemma count_nonempty_size [termination_simp]: "c \<in> set (count_nonempty cs) \<Longrightarrow> size c < size_list (size_option size) cs"
proof -
  assume "c \<in> set (count_nonempty cs)"
  then have "Some c \<in> set cs" by (simp add: count_nonempty_set)
  then have "size_option size (Some c) \<le> size_list (size_option size) cs" by (rule size_list_estimation') simp
  then show ?thesis by simp
qed

lemma count_nonempty_single [termination_simp]: "count_nonempty cs = [c] \<Longrightarrow> size c < size_list (size_option size) cs"
  using count_nonempty_size [of c cs] by simp

text \<open>The item below a node when there is exactly one (\<open>no_item\<close> is \<open>None\<close>).\<close>

fun onlyBelow :: "node \<Rightarrow> SHAMapItem option res" where
  "onlyBelow (Leaf it t) = Ok (Some it)"
| "onlyBelow (Inner cs) =
     (case count_nonempty cs of [] \<Rightarrow> Throw AssertFailed | [c] \<Rightarrow> onlyBelow c | _ \<Rightarrow> Ok None)"

text \<open>
  The loop of \<open>delItem\<close> on the stack of inner nodes; \<open>prev\<close> is what gets attached to the branch that
  was followed. The node at the bottom of the stack is the root.
\<close>

definition del_node :: "nat \<Rightarrow> TNType \<Rightarrow> node option list \<Rightarrow> node option res" where
  "del_node d t cs =
     (if d = 0 then Ok (Some (Inner cs))
      else let bc = getBranchCount cs in
        if bc = 0 then Ok None
        else if bc = 1 then
          rbind (onlyBelow (Inner cs)) (\<lambda>r.
            case r of Some it \<Rightarrow> rbind (make_leaf it t) (\<lambda>l. Ok (Some l)) | None \<Rightarrow> Ok (Some (Inner cs)))
        else Ok (Some (Inner cs)))"

fun del_loop :: "node_stack \<Rightarrow> uint256 \<Rightarrow> TNType \<Rightarrow> node option \<Rightarrow> node option res" where
  "del_loop [] k t prev = Ok prev"
| "del_loop ((Inner cs, d) # stack) k t prev =
     rbind (del_node d t (setChild (selectBranch d k) prev cs)) (del_loop stack k t)"
| "del_loop ((Leaf _ _, d) # stack) k t prev = Throw AssertFailed"

definition delItem :: "node \<Rightarrow> uint256 \<Rightarrow> (bool \<times> node) res" where
  "delItem rt k =
     (case getStack 0 rt k True [] of
        [] \<Rightarrow> Throw (RuntimeError ''missing node'')
      | (Leaf it t, _) # stack \<Rightarrow>
          if item_key it \<noteq> k then Ok (False, rt)
          else rbind (del_loop stack k t None) (\<lambda>r.
            case r of Some rt' \<Rightarrow> Ok (True, rt') | None \<Rightarrow> Throw NullDeref)
      | (Inner _, _) # _ \<Rightarrow> Ok (False, rt))"

text \<open>
  The loop of \<open>addGiveItem\<close> that pushes inner nodes while two keys share their branch. Below depth 64
  \<open>selectBranch\<close> reads past the end of the key.
\<close>

function split_loop :: "nat \<Rightarrow> uint256 \<Rightarrow> uint256 \<Rightarrow> node_stack \<Rightarrow> (node_stack \<times> nat) res" where
  "split_loop d tag other stack =
     (if d \<ge> 64 then Throw Undefined
      else if selectBranch d tag = selectBranch d other then split_loop (d + 1) tag other ((Inner new_inner, d) # stack)
      else Ok (stack, d))"
  by pat_completeness auto
termination by (relation "measure (\<lambda>(d, _). 64 - d)") auto

declare split_loop.simps [simp del]

definition leaf_type :: "bool \<Rightarrow> bool \<Rightarrow> TNType" where
  "leaf_type isTransaction hasMeta =
     (if \<not> isTransaction then tnACCOUNT_STATE else if hasMeta then tnTRANSACTION_MD else tnTRANSACTION_NM)"

definition add_top :: "SHAMapItem \<Rightarrow> TNType \<Rightarrow> node \<Rightarrow> nat \<Rightarrow> node_stack \<Rightarrow> node res" where
  "add_top item t n0 d stack =
     (let tag = item_key item in
      case n0 of
        Inner cs \<Rightarrow>
          rbind (require (isEmptyBranch cs (selectBranch d tag)) AssertFailed) (\<lambda>_.
          rbind (make_leaf item t) (\<lambda>l. dirtyUp stack tag (Inner (setChild (selectBranch d tag) (Some l) cs))))
      | Leaf other _ \<Rightarrow>
          rbind (split_loop d tag (item_key other) stack) (\<lambda>(stack, d).
          rbind (make_leaf item t) (\<lambda>l1.
          rbind (make_leaf other t) (\<lambda>l2.
            dirtyUp stack tag (Inner (setChild (selectBranch d (item_key other)) (Some l2)
              (setChild (selectBranch d tag) (Some l1) new_inner)))))))"

definition addGiveItem :: "node \<Rightarrow> SHAMapItem \<Rightarrow> bool \<Rightarrow> bool \<Rightarrow> (bool \<times> node) res" where
  "addGiveItem rt item isTransaction hasMeta =
     (let tag = item_key item; t = leaf_type isTransaction hasMeta in
      case getStack 0 rt tag True [] of
        [] \<Rightarrow> Throw (RuntimeError ''missing node'')
      | (n0, d) # stack \<Rightarrow>
          if (case n0 of Leaf it _ \<Rightarrow> item_key it = tag | Inner _ \<Rightarrow> False) then Ok (False, rt)
          else rbind (add_top item t n0 d stack) (\<lambda>r. Ok (True, r)))"

text \<open>
  \<open>updateGiveItem\<close>; \<open>hash\<close> is the leaf hash that \<open>setItem\<close> compares (\<open>updateHash\<close>). When the hash does not
  change the node keeps its value: two items with one key and one leaf hash are equal unless the hash
  collides.
\<close>

definition updateGiveItem :: "(SHAMapItem \<Rightarrow> TNType \<Rightarrow> uint256) \<Rightarrow> node \<Rightarrow> SHAMapItem \<Rightarrow> bool \<Rightarrow> bool \<Rightarrow> (bool \<times> node) res" where
  "updateGiveItem hash rt item isTransaction hasMeta =
     (let tag = item_key item; t = leaf_type isTransaction hasMeta in
      case getStack 0 rt tag True [] of
        [] \<Rightarrow> Throw (RuntimeError ''missing node'')
      | (Leaf it t0, d) # stack \<Rightarrow>
          if item_key it \<noteq> tag then Throw AssertFailed
          else if hash item t = hash it t0 then Ok (True, rt)
          else rbind (dirtyUp stack tag (Leaf item t)) (\<lambda>r. Ok (True, r))
      | (Inner _, _) # _ \<Rightarrow> Throw AssertFailed)"

definition SHAMap_make :: node where
  "SHAMap_make = Inner new_inner"

end
