(* ===== verification/SHAMap_Tree.thy ===== *)
theory SHAMap_Tree
  imports SHAMap
begin

text \<open>
  The invariant of \<open>SHAMap\<close>: every item lies on the path its key spells, and an inner node other than
  the root has at least two items below it. A tree with the invariant is determined by its items.
\<close>

section \<open>Items\<close>

fun leaves :: "node \<Rightarrow> (SHAMapItem \<times> TNType) list" where
  "leaves (Leaf it t) = [(it, t)]"
| "leaves (Inner cs) = concat (map leaves (count_nonempty cs))"

definition keys :: "node \<Rightarrow> uint256 set" where
  "keys n = (\<lambda>x. item_key (fst x)) ` set (leaves n)"

lemma getChild_set: "(\<exists>b. getChild cs b = Some c) \<longleftrightarrow> c \<in> set (count_nonempty cs)"
  by (auto simp: getChild_def count_nonempty_set in_set_conv_nth)

lemma in_leaves_Inner: "x \<in> set (leaves (Inner cs)) \<longleftrightarrow> (\<exists>b c. getChild cs b = Some c \<and> x \<in> set (leaves c))"
  using getChild_set [of cs] by (simp, blast)

declare leaves.simps(2) [simp del]

lemma leaves_child_subset: "getChild cs b = Some c \<Longrightarrow> set (leaves c) \<subseteq> set (leaves (Inner cs))"
  using in_leaves_Inner [of _ cs] by blast

lemma keys_child: "getChild cs b = Some c \<Longrightarrow> keys c \<subseteq> keys (Inner cs)"
  unfolding keys_def by (intro image_mono leaves_child_subset)

lemma node_induct [case_names Leaf Inner]:
  assumes "\<And>it t. P (Leaf it t)" "\<And>cs. (\<And>b c. getChild cs b = Some c \<Longrightarrow> P c) \<Longrightarrow> P (Inner cs)"
  shows "P n"
proof (induction n rule: leaves.induct)
  case (2 cs)
  then show ?case using assms(2) getChild_set [of cs] by blast
qed (rule assms(1))

text \<open>
  \<open>shape d p n\<close>: \<open>n\<close> is a tree at depth \<open>d\<close> below the path whose digits spell \<open>p\<close>.
\<close>

fun shape :: "nat \<Rightarrow> nat \<Rightarrow> node \<Rightarrow> bool" where
  "shape d p (Leaf it t) \<longleftrightarrow> d \<le> 64 \<and> prefix d (item_key it) = p \<and> length (item_data it) \<ge> 12 \<and> isLeafType t"
| "shape d p (Inner cs) \<longleftrightarrow> d < 64 \<and> length cs = 16 \<and> (\<forall>b c. getChild cs b = Some c \<longrightarrow> shape (Suc d) (16 * p + b) c)"

fun tight :: "node \<Rightarrow> bool" where
  "tight (Leaf it t) \<longleftrightarrow> True"
| "tight (Inner cs) \<longleftrightarrow> length (leaves (Inner cs)) \<ge> 2 \<and> (\<forall>b c. getChild cs b = Some c \<longrightarrow> tight c)"

definition shamap_ok :: "node \<Rightarrow> bool" where
  "shamap_ok rt \<longleftrightarrow> shape 0 0 rt \<and> (\<exists>cs. rt = Inner cs \<and> (\<forall>b c. getChild cs b = Some c \<longrightarrow> tight c))"

lemma getChild_less: "length cs = 16 \<Longrightarrow> getChild cs b = Some c \<Longrightarrow> b < 16"
  by (simp add: getChild_def split: if_splits)

lemma shape_prefix: "shape d p n \<Longrightarrow> x \<in> set (leaves n) \<Longrightarrow> prefix d (item_key (fst x)) = p"
proof (induction n arbitrary: d p rule: node_induct)
  case (Inner cs)
  then obtain b c where c: "getChild cs b = Some c" "x \<in> set (leaves c)" by (auto simp: in_leaves_Inner)
  then have "shape (Suc d) (16 * p + b) c" "b < 16" "d < 64" using Inner.prems(1) by (auto simp: getChild_less)
  then have "16 * prefix d (item_key (fst x)) + selectBranch d (item_key (fst x)) = 16 * p + b"
    using Inner.IH [OF c(1)] c(2) prefix_Suc [of d] by metis
  then show ?case using \<open>b < 16\<close> selectBranch_less [of d "item_key (fst x)"] by presburger
qed auto

text \<open>Below a branch are exactly the items whose keys select it.\<close>

lemma shape_branch:
  assumes "shape d p (Inner cs)" "getChild cs b = Some c" "x \<in> set (leaves c)"
  shows "selectBranch d (item_key (fst x)) = b"
proof -
  have d: "d < 64" "shape (Suc d) (16 * p + b) c" "b < 16" using assms(1,2) by (auto simp: getChild_less)
  then have "prefix (Suc d) (item_key (fst x)) = 16 * p + b" using shape_prefix assms(3) by blast
  moreover have "x \<in> set (leaves (Inner cs))" using assms(2,3) by (auto simp: in_leaves_Inner)
  then have "prefix d (item_key (fst x)) = p" using shape_prefix [OF assms(1)] by blast
  ultimately show ?thesis using prefix_Suc [OF d(1)] by simp
qed

lemma leaves_child:
  assumes "shape d p (Inner cs)"
  shows "x \<in> set (leaves (Inner cs)) \<and> selectBranch d (item_key (fst x)) = b \<longleftrightarrow>
    (\<exists>c. getChild cs b = Some c \<and> x \<in> set (leaves c))"
  using shape_branch [OF assms] unfolding in_leaves_Inner by metis

lemma shape_keys_inj:
  "shape d p n \<Longrightarrow> x \<in> set (leaves n) \<Longrightarrow> y \<in> set (leaves n) \<Longrightarrow> item_key (fst x) = item_key (fst y) \<Longrightarrow> x = y"
proof (induction n arbitrary: d p rule: node_induct)
  case (Inner cs)
  let ?b = "selectBranch d (item_key (fst x))"
  obtain c where c: "getChild cs ?b = Some c" "x \<in> set (leaves c)"
    using leaves_child [OF Inner.prems(1), of x ?b] Inner.prems(2) by auto
  have "y \<in> set (leaves c)" using leaves_child [OF Inner.prems(1), of y ?b] Inner.prems(3,4) c(1) by auto
  moreover have "shape (Suc d) (16 * p + ?b) c" using Inner.prems(1) c(1) by simp
  ultimately show ?case using Inner.IH [OF c(1)] c(2) Inner.prems(4) by blast
qed auto

section \<open>Search\<close>

lemma walk_leaves: "shape d p n \<Longrightarrow> walkToPointer d n k = Some x \<longleftrightarrow> x \<in> set (leaves n) \<and> item_key (fst x) = k"
proof (induction n arbitrary: d p rule: node_induct)
  case (Inner cs)
  have "walkToPointer d (Inner cs) k = Some x \<longleftrightarrow> (\<exists>c. getChild cs (selectBranch d k) = Some c \<and> walkToPointer (Suc d) c k = Some x)"
    by (cases "getChild cs (selectBranch d k)") auto
  also have "\<dots> \<longleftrightarrow> (\<exists>c. getChild cs (selectBranch d k) = Some c \<and> x \<in> set (leaves c)) \<and> item_key (fst x) = k"
    using Inner.IH [of "selectBranch d k" _ "Suc d" "16 * p + selectBranch d k"] Inner.prems by (metis shape.simps(2))
  finally show ?case using leaves_child [OF Inner.prems, of x "selectBranch d k"] by auto
qed auto

lemma walk_None: "shape d p n \<Longrightarrow> walkToPointer d n k = None \<longleftrightarrow> k \<notin> keys n"
  using walk_leaves [of d p n k] by (cases "walkToPointer d n k") (force simp: keys_def)+

section \<open>A tree is determined by its items\<close>

lemma tight_nonempty: "tight n \<Longrightarrow> leaves n \<noteq> []"
  by (cases n) auto

abbreviation key_less :: "SHAMapItem \<times> TNType \<Rightarrow> SHAMapItem \<times> TNType \<Rightarrow> bool" where
  "key_less x y \<equiv> item_key (fst x) < item_key (fst y)"

lemma concat_sorted:
  assumes "\<And>j c. j < length xs \<Longrightarrow> xs ! j = Some c \<Longrightarrow>
    sorted_wrt key_less (leaves c) \<and> (\<forall>x \<in> set (leaves c). prefix d (item_key (fst x)) = q + j)"
  shows "sorted_wrt key_less (concat (map leaves (count_nonempty xs))) \<and>
    (\<forall>x \<in> set (concat (map leaves (count_nonempty xs))). q \<le> prefix d (item_key (fst x)))"
  using assms
proof (induction xs arbitrary: q)
  case (Cons o' xs)
  have rest: "sorted_wrt key_less (concat (map leaves (count_nonempty xs)))"
    "\<forall>x \<in> set (concat (map leaves (count_nonempty xs))). Suc q \<le> prefix d (item_key (fst x))"
    using Cons.IH [of "Suc q"] Cons.prems [of "Suc j" for j] by auto
  show ?case
  proof (cases o')
    case None
    moreover have "\<forall>y \<in> set (concat (map leaves (count_nonempty xs))). q \<le> prefix d (item_key (fst y))"
      using rest(2) Suc_leD by blast
    ultimately show ?thesis using rest(1) by simp
  next
    case (Some c)
    then have c: "sorted_wrt key_less (leaves c)" "\<forall>x \<in> set (leaves c). prefix d (item_key (fst x)) = q" using Cons.prems [of 0] by auto
    have "key_less x y" if "x \<in> set (leaves c)" "y \<in> set (concat (map leaves (count_nonempty xs)))" for x y
    proof (rule prefix_less)
      show "prefix d (item_key (fst x)) < prefix d (item_key (fst y))"
        using that c(2) rest(2) by (metis le_less_Suc_eq less_Suc_eq_le not_less_eq)
    qed
    moreover have "\<forall>y \<in> set (concat (map leaves (count_nonempty xs))). q \<le> prefix d (item_key (fst y))"
      using rest(2) Suc_leD by blast
    ultimately show ?thesis using rest(1) c Some by (auto simp: sorted_wrt_append)
  qed
qed simp

text \<open>The items are stored in key order.\<close>

lemma sorted_leaves: "shape d p n \<Longrightarrow> sorted_wrt key_less (leaves n)"
proof (induction n arbitrary: d p rule: node_induct)
  case (Inner cs)
  have "sorted_wrt key_less (leaves c) \<and> (\<forall>x \<in> set (leaves c). prefix (Suc d) (item_key (fst x)) = 16 * p + j)"
    if "j < length cs" "cs ! j = Some c" for j c
  proof -
    have g: "getChild cs j = Some c" using that by (simp add: getChild_def)
    then have "shape (Suc d) (16 * p + j) c" using Inner.prems by simp
    then show ?thesis using Inner.IH [OF g] shape_prefix by blast
  qed
  then show ?case unfolding leaves.simps(2) using concat_sorted by blast
qed simp

lemma key_sorted_distinct: "sorted_wrt key_less xs \<Longrightarrow> distinct xs"
  by (induction xs) auto

lemma distinct_leaves: "shape d p n \<Longrightarrow> distinct (leaves n)"
  by (rule key_sorted_distinct [OF sorted_leaves])

lemma tight_two: "shape d p (Inner cs) \<Longrightarrow> tight (Inner cs) \<Longrightarrow> set (leaves (Inner cs)) \<noteq> {x}"
  using distinct_card [OF distinct_leaves, of d p "Inner cs"] by auto

lemma inner_unique:
  assumes s: "shape d p (Inner cs)" "shape d p (Inner cs')"
    and t: "\<And>b c. getChild cs b = Some c \<Longrightarrow> tight c" "\<And>b c. getChild cs' b = Some c \<Longrightarrow> tight c"
    and eq: "set (leaves (Inner cs)) = set (leaves (Inner cs'))"
    and u: "\<And>b c c'. getChild cs b = Some c \<Longrightarrow> getChild cs' b = Some c' \<Longrightarrow> set (leaves c) = set (leaves c') \<Longrightarrow> c = c'"
  shows "cs = cs'"
proof -
  have same: "(\<exists>c. getChild cs b = Some c \<and> x \<in> set (leaves c)) \<longleftrightarrow> (\<exists>c. getChild cs' b = Some c \<and> x \<in> set (leaves c))" for b x
    using leaves_child [OF s(1), of x b] leaves_child [OF s(2), of x b] eq by simp
  have "getChild cs b = getChild cs' b" for b
  proof (cases "getChild cs b")
    case None
    then have "\<nexists>c x. getChild cs' b = Some c \<and> x \<in> set (leaves c)" using same [of b] by auto
    then have "getChild cs' b = None" using tight_nonempty [OF t(2), of b] by (metis list.set_intros(1) neq_Nil_conv option.exhaust)
    then show ?thesis using None by simp
  next
    case (Some c)
    then obtain x where "x \<in> set (leaves c)" using tight_nonempty [OF t(1)] by (metis list.set_intros(1) neq_Nil_conv)
    then obtain c' where c': "getChild cs' b = Some c'" using same [of b x] Some by auto
    then have "set (leaves c) = set (leaves c')" using same [of b] Some by auto
    then show ?thesis using u [OF Some c'] Some c' by simp
  qed
  moreover have "length cs = 16" "length cs' = 16" using s by auto
  ultimately show ?thesis by (intro nth_equalityI) (simp_all add: getChild_def, metis)
qed

lemma shape_unique:
  assumes "shape d p n" "shape d p m" "tight n" "tight m" "set (leaves n) = set (leaves m)"
  shows "n = m"
  using assms
proof (induction n arbitrary: d p m rule: node_induct)
  case (Leaf it t)
  show ?case
  proof (cases m)
    case (Inner cs)
    then show ?thesis using Leaf.prems tight_two [of d p cs "(it, t)"] by (auto simp del: tight.simps shape.simps)
  qed (use Leaf.prems in auto)
next
  case (Inner cs)
  show ?case
  proof (cases m)
    case (Leaf it' t')
    then show ?thesis using Inner.prems tight_two [of d p cs] by (auto simp del: tight.simps shape.simps)
  next
    case i: (Inner cs')
    have "cs = cs'"
    proof (rule inner_unique [OF Inner.prems(1) Inner.prems(2) [unfolded i] _ _ Inner.prems(5) [unfolded i]])
      fix b c c' assume "getChild cs b = Some c" "getChild cs' b = Some c'" "set (leaves c) = set (leaves c')"
      then show "c = c'" using Inner.IH [of b c "Suc d" "16 * p + b" c'] Inner.prems(1-4) i by auto
    qed (use Inner.prems(3,4) i in auto)
    then show ?thesis using i by simp
  qed
qed

lemma shamap_unique:
  assumes "shamap_ok n" "shamap_ok m" "set (leaves n) = set (leaves m)"
  shows "n = m"
proof -
  obtain cs cs' where c: "n = Inner cs" "m = Inner cs'" "\<And>b c. getChild cs b = Some c \<Longrightarrow> tight c" "\<And>b c. getChild cs' b = Some c \<Longrightarrow> tight c"
    using assms(1,2) by (auto simp: shamap_ok_def)
  have s: "shape 0 0 (Inner cs)" "shape 0 0 (Inner cs')" using assms(1,2) c(1,2) by (simp_all add: shamap_ok_def)
  have "cs = cs'"
  proof (rule inner_unique [OF s c(3,4) assms(3) [unfolded c(1,2)]])
    fix b x y assume "getChild cs b = Some x" "getChild cs' b = Some y" "set (leaves x) = set (leaves y)"
    then show "x = y" using shape_unique [of 1 b x y] s c(3,4) by auto
  qed
  then show ?thesis using c by simp
qed

end
