(* ===== verification/SHAMap_Update.thy ===== *)
theory SHAMap_Update
  imports SHAMap_Tree
begin

text \<open>
  Insertion and deletion. The stack loops of \<open>addGiveItem\<close> and \<open>delItem\<close> compute the recursive
  functions \<open>add_rec\<close> and \<open>del_rec\<close>, which change the set of items as a map update does and keep the
  invariant.
\<close>

section \<open>Replacing a child\<close>

lemma getChild_setChild [simp]: "b < length cs \<Longrightarrow> getChild (setChild b o' cs) b' = (if b' = b then o' else getChild cs b')"
  by (simp add: getChild_def setChild_def)

lemma length_setChild [simp]: "length (setChild b o' cs) = length cs"
  by (simp add: setChild_def)

lemma new_inner_simps [simp]: "length new_inner = 16" "getChild new_inner b = None"
  by (simp_all add: new_inner_def getChild_def)

lemma in_leaves_setChild:
  assumes "shape d p (Inner cs)" "b < 16"
  shows "x \<in> set (leaves (Inner (setChild b o' cs))) \<longleftrightarrow>
    (x \<in> set (leaves (Inner cs)) \<and> selectBranch d (item_key (fst x)) \<noteq> b) \<or> (\<exists>c. o' = Some c \<and> x \<in> set (leaves c))"
proof -
  have "x \<in> set (leaves (Inner (setChild b o' cs))) \<longleftrightarrow>
      (\<exists>b' c. b' \<noteq> b \<and> getChild cs b' = Some c \<and> x \<in> set (leaves c)) \<or> (\<exists>c. o' = Some c \<and> x \<in> set (leaves c))"
    using assms by (auto simp: in_leaves_Inner split: if_splits)
  also have "(\<exists>b' c. b' \<noteq> b \<and> getChild cs b' = Some c \<and> x \<in> set (leaves c)) \<longleftrightarrow>
      x \<in> set (leaves (Inner cs)) \<and> selectBranch d (item_key (fst x)) \<noteq> b"
    using leaves_child [OF assms(1), of x] by metis
  finally show ?thesis .
qed

lemma shape_setChild:
  assumes "shape d p (Inner cs)" "b < 16" "\<And>c. o' = Some c \<Longrightarrow> shape (Suc d) (16 * p + b) c"
  shows "shape d p (Inner (setChild b o' cs))"
  using assms by auto

lemma shape_new: "d < 64 \<Longrightarrow> shape d p (Inner new_inner)"
  by simp

lemma leaves_new [simp]: "leaves (Inner new_inner) = []"
  using in_leaves_Inner [of _ new_inner] by (metis ex_in_conv list.set(1) neq_Nil_conv list.set_intros(1) new_inner_simps(2) option.distinct(1))

lemma card_leaves: "shape d p n \<Longrightarrow> length (leaves n) = card (set (leaves n))"
  by (simp add: distinct_card distinct_leaves)

lemma two_leaves: "shape d p n \<Longrightarrow> x \<in> set (leaves n) \<Longrightarrow> y \<in> set (leaves n) \<Longrightarrow> x \<noteq> y \<Longrightarrow> length (leaves n) \<ge> 2"
  using card_leaves [of d p n] card_mono [of "set (leaves n)" "{x, y}"] by simp

section \<open>Splitting a leaf\<close>

function split_tree :: "nat \<Rightarrow> SHAMapItem \<Rightarrow> TNType \<Rightarrow> SHAMapItem \<Rightarrow> node" where
  "split_tree d item t other =
     (let b1 = selectBranch d (item_key item); b2 = selectBranch d (item_key other) in
      if d < 64 \<and> b1 = b2 then Inner (setChild b1 (Some (split_tree (d + 1) item t other)) new_inner)
      else Inner (setChild b2 (Some (Leaf other t)) (setChild b1 (Some (Leaf item t)) new_inner)))"
  by pat_completeness auto
termination by (relation "measure (\<lambda>(d, _). 64 - d)") auto

declare split_tree.simps [simp del]

lemma same_prefix_64: "prefix 64 k = prefix 64 k' \<Longrightarrow> k = k'"
  by (simp add: prefix_64 word_unat_eq_iff)

lemma split_loop_tree:
  assumes "d \<le> 64" "prefix d (item_key item) = prefix d (item_key other)" "item_key item \<noteq> item_key other"
  shows "\<exists>st' d'. split_loop d (item_key item) (item_key other) st = Ok (st', d') \<and>
    dirtyUp st' (item_key item) (Inner (setChild (selectBranch d' (item_key other)) (Some (Leaf other t))
      (setChild (selectBranch d' (item_key item)) (Some (Leaf item t)) new_inner))) =
    dirtyUp st (item_key item) (split_tree d item t other)"
  using assms
proof (induction "64 - d" arbitrary: d st)
  case 0
  then show ?case using same_prefix_64 by fastforce
next
  case (Suc n)
  have d: "d < 64" using Suc.hyps(2) by simp
  show ?case
  proof (cases "selectBranch d (item_key item) = selectBranch d (item_key other)")
    case True
    then have "prefix (Suc d) (item_key item) = prefix (Suc d) (item_key other)" using Suc.prems(2) prefix_Suc [OF d] by simp
    from Suc.hyps(1) [of "Suc d" "(Inner new_inner, d) # st", OF _ _ this] Suc.hyps(2) Suc.prems(3) d True show ?thesis
      by (simp add: split_loop.simps [of d] split_tree.simps [of d] Let_def)
  next
    case False
    then show ?thesis using d by (simp add: split_loop.simps [of d] split_tree.simps [of d] Let_def)
  qed
qed

lemma split_tree_ok:
  assumes "d \<le> 64" "prefix d (item_key item) = p" "prefix d (item_key other) = p" "item_key item \<noteq> item_key other"
    and "length (item_data item) \<ge> 12" "length (item_data other) \<ge> 12" "isLeafType t"
  shows "shape d p (split_tree d item t other) \<and> set (leaves (split_tree d item t other)) = {(item, t), (other, t)} \<and>
    tight (split_tree d item t other)"
  using assms(1-4)
proof (induction "64 - d" arbitrary: d p)
  case 0
  then show ?case using same_prefix_64 [of "item_key item" "item_key other"] by simp
next
  case (Suc n)
  have d: "d < 64" using Suc.hyps(2) by simp
  let ?b1 = "selectBranch d (item_key item)" and ?b2 = "selectBranch d (item_key other)"
  have p: "prefix (Suc d) (item_key item) = 16 * p + ?b1" "prefix (Suc d) (item_key other) = 16 * p + ?b2"
    using Suc.prems(2,3) prefix_Suc [OF d] by auto
  show ?case
  proof (cases "?b1 = ?b2")
    case True
    let ?c = "split_tree (Suc d) item t other"
    have IH: "shape (Suc d) (16 * p + ?b1) ?c" "set (leaves ?c) = {(item, t), (other, t)}" "tight ?c"
      using Suc.hyps(1) [of "Suc d" "16 * p + ?b1"] Suc.hyps(2) Suc.prems(4) d p True by auto
    have e: "split_tree d item t other = Inner (setChild ?b1 (Some ?c) new_inner)"
      using True d by (simp add: split_tree.simps [of d] Let_def)
    have s: "shape d p (Inner (setChild ?b1 (Some ?c) new_inner))" using IH(1) d by (intro shape_setChild) auto
    have l: "set (leaves (Inner (setChild ?b1 (Some ?c) new_inner))) = {(item, t), (other, t)}"
      unfolding set_eq_iff in_leaves_setChild [OF shape_new [OF d] selectBranch_less] using IH(2) by auto
    have "length (leaves (Inner (setChild ?b1 (Some ?c) new_inner))) \<ge> 2"
      using two_leaves [OF s, of "(item, t)" "(other, t)"] l Suc.prems(4) by auto
    then show ?thesis unfolding e using s l IH(3) by (auto split: if_splits simp del: shape.simps)
  next
    case False
    let ?cs1 = "setChild ?b1 (Some (Leaf item t)) new_inner"
    let ?cs = "setChild ?b2 (Some (Leaf other t)) ?cs1"
    have e: "split_tree d item t other = Inner ?cs" using False d by (simp add: split_tree.simps [of d] Let_def)
    have s1: "shape d p (Inner ?cs1)" using d p assms(5,7) by (intro shape_setChild) auto
    then have s: "shape d p (Inner ?cs)" using d p assms(6,7) by (intro shape_setChild) auto
    have l1: "set (leaves (Inner ?cs1)) = {(item, t)}"
      unfolding set_eq_iff in_leaves_setChild [OF shape_new [OF d] selectBranch_less] by auto
    have l: "set (leaves (Inner ?cs)) = {(item, t), (other, t)}"
      unfolding set_eq_iff in_leaves_setChild [OF s1 selectBranch_less] l1 using False by auto
    have "length (leaves (Inner ?cs)) \<ge> 2" using two_leaves [OF s, of "(item, t)" "(other, t)"] l Suc.prems(4) by auto
    then show ?thesis unfolding e using s l by (auto split: if_splits simp del: shape.simps)
  qed
qed

section \<open>Insertion\<close>

fun add_rec :: "nat \<Rightarrow> node \<Rightarrow> SHAMapItem \<Rightarrow> TNType \<Rightarrow> node" where
  "add_rec d (Inner cs) item t =
     (let b = selectBranch d (item_key item) in
      case getChild cs b of
        None \<Rightarrow> Inner (setChild b (Some (Leaf item t)) cs)
      | Some c \<Rightarrow> Inner (setChild b (Some (add_rec (d + 1) c item t)) cs))"
| "add_rec d (Leaf other _) item t = split_tree d item t other"

lemma add_stack:
  assumes "shape d p n" "item_key item \<notin> keys n" "prefix d (item_key item) = p" "length (item_data item) \<ge> 12"
  shows "\<exists>n0 d' st'. getStack d n (item_key item) True st = (n0, d') # st' \<and>
    (case n0 of Leaf it _ \<Rightarrow> item_key it \<noteq> item_key item | Inner _ \<Rightarrow> True) \<and>
    add_top item t n0 d' st' = dirtyUp st (item_key item) (add_rec d n item t)"
  using assms(1-3)
proof (induction n arbitrary: d p st rule: node_induct)
  case (Leaf other t0)
  then have "d \<le> 64" "prefix d (item_key item) = prefix d (item_key other)" "item_key item \<noteq> item_key other" "length (item_data other) \<ge> 12"
    by (auto simp: keys_def)
  then show ?case using split_loop_tree [of d item other st t] assms(4) by (auto simp: add_top_def make_leaf_def)
next
  case (Inner cs)
  let ?b = "selectBranch d (item_key item)"
  show ?case
  proof (cases "getChild cs ?b")
    case None
    then show ?thesis using assms(4) by (simp add: add_top_def make_leaf_def isEmptyBranch_def Let_def)
  next
    case (Some c)
    have s: "shape (Suc d) (16 * p + ?b) c" "d < 64" using Inner.prems(1) Some by auto
    have "item_key item \<notin> keys c" using Inner.prems(2) keys_child [OF Some] by blast
    moreover have "prefix (Suc d) (item_key item) = 16 * p + ?b" using Inner.prems(3) prefix_Suc [OF s(2)] by simp
    ultimately show ?thesis using Inner.IH [OF Some s(1), of "(Inner cs, d) # st"] Some by simp
  qed
qed

text \<open>
  What insertion does: the new item is there, every other item stays, and no item is lost. (A leaf that
  is split gets the type of the new item.)
\<close>

definition items :: "node \<Rightarrow> SHAMapItem set" where
  "items n = fst ` set (leaves n)"

definition all_type :: "TNType \<Rightarrow> node \<Rightarrow> bool" where
  "all_type t n \<longleftrightarrow> (\<forall>x \<in> set (leaves n). snd x = t)"

definition items_opt :: "node option \<Rightarrow> SHAMapItem set" where
  "items_opt o' = (case o' of None \<Rightarrow> {} | Some c \<Rightarrow> items c)"

lemma items_Leaf [simp]: "items (Leaf it t) = {it}" by (simp add: items_def)

lemma items_opt_simps [simp]: "items_opt None = {}" "items_opt (Some c) = items c" by (simp_all add: items_opt_def)

lemma keys_items: "keys n = item_key ` items n" by (simp add: keys_def items_def image_image)

lemma items_child: "shape d p (Inner cs) \<Longrightarrow> items_opt (getChild cs b) = {it \<in> items (Inner cs). selectBranch d (item_key it) = b}"
  using leaves_child [of d p cs _ b] by (cases "getChild cs b") (force simp: items_def)+

lemma items_setChild:
  assumes "shape d p (Inner cs)" "b < 16"
  shows "items (Inner (setChild b o' cs)) = {it \<in> items (Inner cs). selectBranch d (item_key it) \<noteq> b} \<union> items_opt o'"
proof -
  have "set (leaves (Inner (setChild b o' cs))) = {x \<in> set (leaves (Inner cs)). selectBranch d (item_key (fst x)) \<noteq> b} \<union>
      (case o' of None \<Rightarrow> {} | Some c \<Rightarrow> set (leaves c))"
    unfolding set_eq_iff in_leaves_setChild [OF assms] by (cases o') auto
  then show ?thesis unfolding items_def by (cases o') (auto simp: items_def image_Un)
qed

lemma all_type_setChild:
  assumes "shape d p (Inner cs)" "b < 16" "all_type t (Inner cs)" "\<And>c. o' = Some c \<Longrightarrow> all_type t c"
  shows "all_type t (Inner (setChild b o' cs))"
  using assms(3,4) in_leaves_setChild [OF assms(1,2)] unfolding all_type_def by blast

lemma all_type_child: "all_type t (Inner cs) \<Longrightarrow> getChild cs b = Some c \<Longrightarrow> all_type t c"
  unfolding all_type_def using leaves_child_subset by blast

lemma card_items: "shape d p n \<Longrightarrow> card (items n) = length (leaves n)"
proof -
  assume s: "shape d p n"
  then have "inj_on fst (set (leaves n))" using shape_keys_inj [OF s] by (metis inj_onI)
  then show ?thesis by (simp add: items_def card_image card_leaves [OF s])
qed

lemma finite_items [simp]: "finite (items n)" by (simp add: items_def)

definition tight_children :: "node \<Rightarrow> bool" where
  "tight_children n \<longleftrightarrow> (\<forall>b c. getChild (children n) b = Some c \<longrightarrow> tight c)"

lemma shamap_ok_iff: "shamap_ok n \<longleftrightarrow> shape 0 0 n \<and> (\<exists>cs. n = Inner cs) \<and> tight_children n"
  by (auto simp: shamap_ok_def tight_children_def)

lemma tight_Inner: "shape d p (Inner cs) \<Longrightarrow> tight (Inner cs) \<longleftrightarrow> card (items (Inner cs)) \<ge> 2 \<and> tight_children (Inner cs)"
  using card_items [of d p "Inner cs"] by (simp add: tight_children_def)

lemma add_rec_ok:
  assumes "shape d p n" "item_key item \<notin> keys n" "prefix d (item_key item) = p" "length (item_data item) \<ge> 12" "isLeafType t"
  shows "shape d p (add_rec d n item t) \<and> items (add_rec d n item t) = insert item (items n) \<and>
    (all_type t n \<longrightarrow> all_type t (add_rec d n item t)) \<and> (tight n \<longrightarrow> tight (add_rec d n item t)) \<and>
    ((\<exists>cs. n = Inner cs) \<longrightarrow> tight_children n \<longrightarrow> (\<exists>cs. add_rec d n item t = Inner cs) \<and> tight_children (add_rec d n item t))"
  using assms(1-3)
proof (induction n arbitrary: d p rule: node_induct)
  case (Leaf other t0)
  then have "shape d p (split_tree d item t other)" "set (leaves (split_tree d item t other)) = {(item, t), (other, t)}"
    "tight (split_tree d item t other)"
    using split_tree_ok [of d item p other t] assms(4,5) by (auto simp: keys_def)
  then show ?case by (auto simp: items_def all_type_def)
next
  case (Inner cs)
  let ?b = "selectBranch d (item_key item)"
  have len: "length cs = 16" and d: "d < 64" using Inner.prems(1) by auto
  have pre: "prefix (Suc d) (item_key item) = 16 * p + ?b" using Inner.prems(3) prefix_Suc [OF d] by simp
  define c' where "c' = (case getChild cs ?b of None \<Rightarrow> Leaf item t | Some c \<Rightarrow> add_rec (Suc d) c item t)"
  have e: "add_rec d (Inner cs) item t = Inner (setChild ?b (Some c') cs)"
    by (cases "getChild cs ?b") (simp_all add: c'_def Let_def)
  have c': "shape (Suc d) (16 * p + ?b) c' \<and> items c' = insert item (items_opt (getChild cs ?b)) \<and>
      (all_type t (Inner cs) \<longrightarrow> all_type t c') \<and> (tight_children (Inner cs) \<longrightarrow> tight c')"
  proof (cases "getChild cs ?b")
    case None
    then show ?thesis using pre d assms(4,5) by (auto simp: c'_def all_type_def)
  next
    case (Some c)
    have "item_key item \<notin> keys c" using Inner.prems(2) keys_child [OF Some] by blast
    moreover have "shape (Suc d) (16 * p + ?b) c" using Inner.prems(1) Some by simp
    ultimately show ?thesis using Inner.IH [OF Some _ _ pre] Some all_type_child [of t cs ?b c]
      by (auto simp: c'_def tight_children_def)
  qed
  let ?n = "Inner (setChild ?b (Some c') cs)"
  have s: "shape d p ?n" using c' by (intro shape_setChild [OF Inner.prems(1)]) auto
  have i: "items ?n = insert item (items (Inner cs))"
    unfolding items_setChild [OF Inner.prems(1) selectBranch_less] using c' items_child [OF Inner.prems(1), of ?b] by auto
  have tc: "tight_children (Inner cs) \<Longrightarrow> tight_children ?n" using c' len by (auto simp: tight_children_def)
  have "tight (Inner cs) \<Longrightarrow> tight ?n"
    unfolding tight_Inner [OF s] tight_Inner [OF Inner.prems(1)] i using tc card_insert_le [of "items (Inner cs)" item]
    by (auto intro: order_trans)
  moreover have "all_type t (Inner cs) \<Longrightarrow> all_type t ?n" using c' by (intro all_type_setChild [OF Inner.prems(1)]) auto
  ultimately show ?case unfolding e using s i tc by blast
qed

section \<open>Deletion\<close>

fun del_rec :: "nat \<Rightarrow> node \<Rightarrow> uint256 \<Rightarrow> TNType \<Rightarrow> node option res" where
  "del_rec d (Inner cs) k t =
     (case getChild cs (selectBranch d k) of
        None \<Rightarrow> Throw NullDeref
      | Some c \<Rightarrow> rbind (del_rec (d + 1) c k t) (\<lambda>r. del_node d t (setChild (selectBranch d k) r cs)))"
| "del_rec d (Leaf it _) k t = Ok None"

lemma del_stack:
  assumes "shape d p n" "(it, t0) \<in> set (leaves n)" "item_key it = k"
  shows "\<exists>d' st'. getStack d n k True st = (Leaf it t0, d') # st' \<and>
    del_loop st' k t None = rbind (del_rec d n k t) (del_loop st k t)"
  using assms
proof (induction n arbitrary: d p st rule: node_induct)
  case (Inner cs)
  then obtain c where c: "getChild cs (selectBranch d k) = Some c" "(it, t0) \<in> set (leaves c)"
    using leaves_child [OF Inner.prems(1), of "(it, t0)" "selectBranch d k"] by auto
  have "shape (Suc d) (16 * p + selectBranch d k) c" using Inner.prems(1) c(1) by simp
  from Inner.IH [OF c(1) this c(2) Inner.prems(3), of "(Inner cs, d) # st"] c(1) show ?case
    by (auto simp: rbind_assoc)
qed auto

lemma get_stack_miss:
  assumes "shape d p n" "k \<notin> keys n"
  shows "\<exists>n0 d' st'. getStack d n k True st = (n0, d') # st' \<and> (case n0 of Leaf it _ \<Rightarrow> item_key it \<noteq> k | Inner _ \<Rightarrow> True)"
  using assms
proof (induction n arbitrary: d p st rule: node_induct)
  case (Inner cs)
  show ?case
  proof (cases "getChild cs (selectBranch d k)")
    case (Some c)
    have "shape (Suc d) (16 * p + selectBranch d k) c" using Inner.prems(1) Some by simp
    moreover have "k \<notin> keys c" using Inner.prems(2) keys_child [OF Some] by blast
    ultimately show ?thesis using Inner.IH [OF Some, of "Suc d" _ "(Inner cs, d) # st"] Some by simp
  qed simp
qed (auto simp: keys_def)

lemma branch_count:
  assumes "length cs = 16"
  shows "getBranchCount cs = length (count_nonempty cs)"
proof -
  have "length (count_nonempty xs) = length (filter (\<lambda>o'. o' \<noteq> None) xs)" for xs
    by (induction xs rule: count_nonempty.induct) auto
  moreover have "filter (\<lambda>o'. o' \<noteq> None) cs = map ((!) cs) (filter (\<lambda>b. cs ! b \<noteq> None) [0..<length cs])"
    by (metis (no_types, lifting) filter_map map_nth comp_apply filter_cong)
  moreover have "filter (\<lambda>b. \<not> isEmptyBranch cs b) [0..<16] = filter (\<lambda>b. cs ! b \<noteq> None) [0..<length cs]"
    using assms by (auto simp: isEmptyBranch_def getChild_def intro: filter_cong)
  ultimately show ?thesis by (simp add: getBranchCount_def)
qed

text \<open>\<open>onlyBelow\<close> finds the single item of a node that has exactly one.\<close>

lemma count_leaves:
  assumes "\<And>c. c \<in> set xs \<Longrightarrow> leaves c \<noteq> []"
  shows "length xs \<le> length (concat (map leaves xs))"
  using assms
proof (induction xs)
  case (Cons x xs)
  then have "length (leaves x) \<ge> 1" by (simp add: Suc_le_eq)
  with Cons show ?case by simp
qed simp

lemma onlyBelow_tight: "tight n \<Longrightarrow> onlyBelow n = Ok (case leaves n of [x] \<Rightarrow> Some (fst x) | _ \<Rightarrow> None)"
  and onlyBelow_children: "(\<And>b c. getChild cs b = Some c \<Longrightarrow> tight c \<and> onlyBelow c = Ok (case leaves c of [x] \<Rightarrow> Some (fst x) | _ \<Rightarrow> None)) \<Longrightarrow>
    leaves (Inner cs) \<noteq> [] \<Longrightarrow> onlyBelow (Inner cs) = Ok (case leaves (Inner cs) of [x] \<Rightarrow> Some (fst x) | _ \<Rightarrow> None)"
proof -
  show *: "onlyBelow (Inner cs) = Ok (case leaves (Inner cs) of [x] \<Rightarrow> Some (fst x) | _ \<Rightarrow> None)"
    if h: "\<And>b c. getChild cs b = Some c \<Longrightarrow> tight c \<and> onlyBelow c = Ok (case leaves c of [x] \<Rightarrow> Some (fst x) | _ \<Rightarrow> None)"
      and ne: "leaves (Inner cs) \<noteq> []" for cs
  proof -
    have t: "tight c \<and> onlyBelow c = Ok (case leaves c of [x] \<Rightarrow> Some (fst x) | _ \<Rightarrow> None)" if "c \<in> set (count_nonempty cs)" for c
      using that h getChild_set [of cs c] by blast
    consider "count_nonempty cs = []" | c where "count_nonempty cs = [c]" | c c' r where "count_nonempty cs = c # c' # r"
      by (metis neq_Nil_conv)
    then show ?thesis
    proof cases
      case 1
      then show ?thesis using ne by (simp add: leaves.simps(2))
    next
      case (2 c)
      then show ?thesis using t [of c] by (simp add: leaves.simps(2))
    next
      case (3 c c' r)
      have "leaves x \<noteq> []" if "x \<in> set (count_nonempty cs)" for x using t [OF that] tight_nonempty by blast
      then have "2 \<le> length (leaves (Inner cs))" using count_leaves [of "count_nonempty cs"] 3 by (simp add: leaves.simps(2))
      then show ?thesis using 3 by (auto split: list.splits)
    qed
  qed
  show "tight n \<Longrightarrow> onlyBelow n = Ok (case leaves n of [x] \<Rightarrow> Some (fst x) | _ \<Rightarrow> None)"
  proof (induction n rule: node_induct)
    case (Inner cs)
    show ?case
    proof (rule *)
      show "leaves (Inner cs) \<noteq> []" using tight_nonempty [OF Inner.prems] .
      show "tight c \<and> onlyBelow c = Ok (case leaves c of [x] \<Rightarrow> Some (fst x) | _ \<Rightarrow> None)" if "getChild cs b = Some c" for b c
        using Inner.IH [OF that] Inner.prems that by simp
    qed
  qed simp
qed

lemma shape_data: "shape d p n \<Longrightarrow> x \<in> set (leaves n) \<Longrightarrow> length (item_data (fst x)) \<ge> 12 \<and> isLeafType (snd x)"
proof (induction n arbitrary: d p rule: node_induct)
  case (Inner cs)
  then show ?case unfolding in_leaves_Inner shape.simps by blast
qed auto

lemma shape_le: "shape d p n \<Longrightarrow> d \<le> 64" by (cases n) auto

lemma del_node_ok:
  assumes s: "shape d p (Inner cs)" and tc: "tight_children (Inner cs)" and ne: "items (Inner cs) \<noteq> {}" and d: "d > 0" and t: "isLeafType t"
  shows "\<exists>n'. del_node d t cs = Ok (Some n') \<and> shape d p n' \<and> items n' = items (Inner cs) \<and> tight n' \<and>
    (all_type t (Inner cs) \<longrightarrow> all_type t n')"
proof -
  let ?l = "leaves (Inner cs)" and ?n = "length (count_nonempty cs)"
  have l: "?l \<noteq> []" using ne by (auto simp: items_def)
  have tc': "getChild cs b = Some c \<Longrightarrow> tight c" for b c using tc by (simp add: tight_children_def)
  have o: "onlyBelow (Inner cs) = Ok (case ?l of [x] \<Rightarrow> Some (fst x) | _ \<Rightarrow> None)"
    using onlyBelow_children [of cs] tc' onlyBelow_tight l by blast
  have "leaves c \<noteq> []" if "c \<in> set (count_nonempty cs)" for c using that tc' tight_nonempty getChild_set [of cs c] by blast
  then have le: "?n \<le> length ?l" using count_leaves [of "count_nonempty cs"] by (simp add: leaves.simps(2))
  have pos: "?n \<noteq> 0" using l by (auto simp: leaves.simps(2))
  have bc: "getBranchCount cs = ?n" using s by (simp add: branch_count)
  show ?thesis
  proof (cases "length ?l = 1")
    case True
    then obtain x where x: "?l = [x]" by (metis One_nat_def length_0_conv length_Suc_conv)
    have "?n = 1" using le pos True by linarith
    then have "del_node d t cs = Ok (Some (Leaf (fst x) t))"
      using d bc o x shape_data [OF s, of x] by (simp add: del_node_def make_leaf_def)
    moreover have "shape d p (Leaf (fst x) t)" using shape_prefix [OF s, of x] shape_data [OF s, of x] x t shape_le [OF s] by simp
    ultimately show ?thesis using x by (simp add: items_def all_type_def)
  next
    case False
    then have two: "length ?l \<ge> 2" using l by (metis One_nat_def Suc_1 Suc_leI le_neq_implies_less length_greater_0_conv)
    then have "(case ?l of [x] \<Rightarrow> Some (fst x) | _ \<Rightarrow> None) = None" by (auto split: list.splits)
    then have "del_node d t cs = Ok (Some (Inner cs))" using d bc o pos by (simp add: del_node_def Let_def)
    moreover have "tight (Inner cs)" using two tc' by simp
    ultimately show ?thesis using s by blast
  qed
qed

lemma items_remove_child:
  assumes s: "shape d p (Inner cs)" and r: "items_opt r = {it \<in> items_opt (getChild cs (selectBranch d k)). item_key it \<noteq> k}"
  shows "items (Inner (setChild (selectBranch d k) r cs)) = {it \<in> items (Inner cs). item_key it \<noteq> k}"
  unfolding items_setChild [OF s selectBranch_less] r items_child [OF s] by auto

lemma items_key_inj: "shape d p n \<Longrightarrow> inj_on item_key (items n)"
  using shape_keys_inj unfolding items_def inj_on_def by fastforce

lemma items_remove_nonempty:
  assumes "shape d p n" "card (items n) \<ge> 2"
  shows "{it \<in> items n. item_key it \<noteq> k} \<noteq> {}"
proof
  assume "{it \<in> items n. item_key it \<noteq> k} = {}"
  then have "item_key ` items n \<subseteq> {k}" by auto
  then have "card (item_key ` items n) \<le> 1" using card_mono [of "{k}"] by simp
  then show False using assms(2) card_image [OF items_key_inj [OF assms(1)]] by simp
qed

lemma del_rec_ok:
  assumes "shape d p n" "k \<in> keys n" "tight n" "d > 0" "isLeafType t"
  shows "\<exists>r. del_rec d n k t = Ok r \<and> items_opt r = {it \<in> items n. item_key it \<noteq> k} \<and>
    (\<forall>n'. r = Some n' \<longrightarrow> shape d p n' \<and> tight n' \<and> (all_type t n \<longrightarrow> all_type t n'))"
  using assms(1-4)
proof (induction n arbitrary: d p rule: node_induct)
  case (Leaf it t0)
  then show ?case by (auto simp: keys_def)
next
  case (Inner cs)
  let ?b = "selectBranch d k"
  obtain x where x: "x \<in> set (leaves (Inner cs))" "item_key (fst x) = k" using Inner.prems(2) by (auto simp: keys_def)
  then obtain c where c: "getChild cs ?b = Some c" "x \<in> set (leaves c)"
    using leaves_child [OF Inner.prems(1), of x ?b] by auto
  have sc: "shape (Suc d) (16 * p + ?b) c" "tight c" "k \<in> keys c" using Inner.prems(1,3) c x(2) by (auto simp: keys_def)
  obtain r where r: "del_rec (Suc d) c k t = Ok r" "items_opt r = {it \<in> items c. item_key it \<noteq> k}"
    "\<And>n'. r = Some n' \<Longrightarrow> shape (Suc d) (16 * p + ?b) n' \<and> tight n' \<and> (all_type t c \<longrightarrow> all_type t n')"
    using Inner.IH [OF c(1) sc(1,3,2)] by auto
  let ?cs = "setChild ?b r cs"
  have s: "shape d p (Inner ?cs)" using r(3) by (intro shape_setChild [OF Inner.prems(1)]) auto
  have i: "items (Inner ?cs) = {it \<in> items (Inner cs). item_key it \<noteq> k}"
    by (rule items_remove_child [OF Inner.prems(1)]) (simp add: c(1) r(2))
  have tc: "tight_children (Inner ?cs)" using r(3) Inner.prems(1,3) by (auto simp: tight_children_def)
  have "card (items (Inner cs)) \<ge> 2" using Inner.prems(3) tight_Inner [OF Inner.prems(1)] by blast
  then have "items (Inner ?cs) \<noteq> {}" unfolding i by (rule items_remove_nonempty [OF Inner.prems(1)])
  from del_node_ok [OF s tc this Inner.prems(4) assms(5)] obtain n' where
    n': "del_node d t ?cs = Ok (Some n')" "shape d p n'" "items n' = items (Inner ?cs)" "tight n'"
    "all_type t (Inner ?cs) \<longrightarrow> all_type t n'" by blast
  have "all_type t (Inner cs) \<Longrightarrow> all_type t (Inner ?cs)"
    using r(3) all_type_child [OF _ c(1)] by (intro all_type_setChild [OF Inner.prems(1)]) auto
  then show ?case using c(1) r(1) n' i by simp
qed

lemma del_root_ok:
  assumes "shamap_ok n" "k \<in> keys n" "isLeafType t"
  shows "\<exists>n'. del_rec 0 n k t = Ok (Some n') \<and> items n' = {it \<in> items n. item_key it \<noteq> k} \<and> shamap_ok n' \<and>
    (all_type t n \<longrightarrow> all_type t n')"
proof -
  obtain cs where n: "n = Inner cs" and s: "shape 0 0 (Inner cs)" and tc: "tight_children (Inner cs)"
    using assms(1) by (auto simp: shamap_ok_iff)
  let ?b = "selectBranch 0 k"
  obtain x where x: "x \<in> set (leaves (Inner cs))" "item_key (fst x) = k" using assms(2) n by (auto simp: keys_def)
  then obtain c where c: "getChild cs ?b = Some c" "x \<in> set (leaves c)" using leaves_child [OF s, of x ?b] by auto
  have sc: "shape (Suc 0) ?b c" "tight c" "k \<in> keys c" using s tc c x(2) by (auto simp: keys_def tight_children_def)
  obtain r where r: "del_rec (Suc 0) c k t = Ok r" "items_opt r = {it \<in> items c. item_key it \<noteq> k}"
    "\<And>n'. r = Some n' \<Longrightarrow> shape (Suc 0) ?b n' \<and> tight n' \<and> (all_type t c \<longrightarrow> all_type t n')"
    using del_rec_ok [OF sc(1,3,2) _ assms(3)] by auto
  let ?cs = "setChild ?b r cs"
  have "shape 0 0 (Inner ?cs)" using r(3) by (intro shape_setChild [OF s]) auto
  moreover have "items (Inner ?cs) = {it \<in> items (Inner cs). item_key it \<noteq> k}"
    by (rule items_remove_child [OF s]) (simp add: c(1) r(2))
  moreover have "tight_children (Inner ?cs)" using r(3) s tc by (auto simp: tight_children_def)
  moreover have "all_type t (Inner cs) \<Longrightarrow> all_type t (Inner ?cs)"
    using r(3) all_type_child [OF _ c(1)] by (intro all_type_setChild [OF s]) auto
  ultimately show ?thesis using n c(1) r(1) by (auto simp: del_node_def shamap_ok_iff)
qed

section \<open>Replacement\<close>

fun upd_rec :: "nat \<Rightarrow> node \<Rightarrow> uint256 \<Rightarrow> node \<Rightarrow> node" where
  "upd_rec d (Inner cs) k x =
     (case getChild cs (selectBranch d k) of
        None \<Rightarrow> Inner cs
      | Some c \<Rightarrow> Inner (setChild (selectBranch d k) (Some (upd_rec (d + 1) c k x)) cs))"
| "upd_rec d (Leaf _ _) k x = x"

lemma upd_stack:
  assumes "shape d p n" "(it, t0) \<in> set (leaves n)" "item_key it = k"
  shows "\<exists>d' st'. getStack d n k True st = (Leaf it t0, d') # st' \<and> dirtyUp st' k x = dirtyUp st k (upd_rec d n k x)"
  using assms
proof (induction n arbitrary: d p st rule: node_induct)
  case (Inner cs)
  then obtain c where c: "getChild cs (selectBranch d k) = Some c" "(it, t0) \<in> set (leaves c)"
    using leaves_child [OF Inner.prems(1), of "(it, t0)" "selectBranch d k"] by auto
  have "shape (Suc d) (16 * p + selectBranch d k) c" using Inner.prems(1) c(1) by simp
  from Inner.IH [OF c(1) this c(2) Inner.prems(3), of "(Inner cs, d) # st"] c(1) show ?case by auto
qed auto

lemma upd_rec_ok:
  assumes "shape d p n" "k \<in> keys n" "k = item_key item" "prefix d k = p" "length (item_data item) \<ge> 12" "isLeafType t"
  shows "shape d p (upd_rec d n k (Leaf item t)) \<and> items (upd_rec d n k (Leaf item t)) = insert item {x \<in> items n. item_key x \<noteq> k} \<and>
    (all_type t n \<longrightarrow> all_type t (upd_rec d n k (Leaf item t))) \<and> (tight n \<longrightarrow> tight (upd_rec d n k (Leaf item t))) \<and>
    ((\<exists>cs. n = Inner cs) \<longrightarrow> tight_children n \<longrightarrow>
      (\<exists>cs. upd_rec d n k (Leaf item t) = Inner cs) \<and> tight_children (upd_rec d n k (Leaf item t)))"
  using assms(1,2,4)
proof (induction n arbitrary: d p rule: node_induct)
  case (Leaf it0 t0)
  then show ?case using assms(3,5,6) by (auto simp: all_type_def keys_def)
next
  case (Inner cs)
  let ?b = "selectBranch d k"
  have len: "length cs = 16" and d: "d < 64" using Inner.prems(1) by auto
  obtain x where x: "x \<in> set (leaves (Inner cs))" "item_key (fst x) = k" using Inner.prems(2) by (auto simp: keys_def)
  then obtain c where c: "getChild cs ?b = Some c" "x \<in> set (leaves c)" using leaves_child [OF Inner.prems(1), of x ?b] by auto
  let ?c = "upd_rec (Suc d) c k (Leaf item t)"
  have pre: "prefix (Suc d) k = 16 * p + ?b" using Inner.prems(3) prefix_Suc [OF d] by simp
  have "shape (Suc d) (16 * p + ?b) c" "k \<in> keys c" using Inner.prems(1) c x(2) by (auto simp: keys_def)
  from Inner.IH [OF c(1) this pre] have c': "shape (Suc d) (16 * p + ?b) ?c" "items ?c = insert item {x \<in> items c. item_key x \<noteq> k}"
    "all_type t c \<longrightarrow> all_type t ?c" "tight c \<longrightarrow> tight ?c" by auto
  let ?n = "Inner (setChild ?b (Some ?c) cs)"
  have s: "shape d p ?n" using c'(1) by (intro shape_setChild [OF Inner.prems(1)]) auto
  have ic: "items c = {it \<in> items (Inner cs). selectBranch d (item_key it) = ?b}" using items_child [OF Inner.prems(1), of ?b] c(1) by simp
  have i: "items ?n = insert item {x \<in> items (Inner cs). item_key x \<noteq> k}"
    unfolding items_setChild [OF Inner.prems(1) selectBranch_less] items_opt_simps c'(2) ic by auto
  have tc: "tight_children (Inner cs) \<Longrightarrow> tight_children ?n" using c'(4) c(1) len by (auto simp: tight_children_def)
  have "card (items ?n) = card (items (Inner cs))"
  proof -
    have "item_key ` items ?n = item_key ` items (Inner cs)"
      unfolding i using x assms(3) by (auto simp: items_def image_iff) (metis fst_conv)+
    then show ?thesis using card_image [OF items_key_inj [OF s]] card_image [OF items_key_inj [OF Inner.prems(1)]] by simp
  qed
  then have "tight (Inner cs) \<Longrightarrow> tight ?n" unfolding tight_Inner [OF s] tight_Inner [OF Inner.prems(1)] using tc by simp
  moreover have "all_type t (Inner cs) \<Longrightarrow> all_type t ?n"
    using c'(3) all_type_child [OF _ c(1)] by (intro all_type_setChild [OF Inner.prems(1)]) auto
  ultimately show ?case using c(1) s i tc by simp
qed

end
