(* ===== verification/SHAMap_Map.thy ===== *)
theory SHAMap_Map
  imports SHAMap_Update
begin

text \<open>
  \<open>SHAMap\<close> as a map. The locale \<open>item_map\<close> is what its clients rely on; the trie is an interpretation.
  A tree is a function of its contents, whatever sequence of edits produced it.
\<close>

section \<open>The interface\<close>

locale item_map =
  fixes invar :: "'m \<Rightarrow> bool" and lookup :: "'m \<Rightarrow> uint256 \<Rightarrow> SHAMapItem option"
    and add :: "'m \<Rightarrow> SHAMapItem \<Rightarrow> (bool \<times> 'm) res" and del :: "'m \<Rightarrow> uint256 \<Rightarrow> (bool \<times> 'm) res"
    and empty :: 'm
  assumes invar_empty: "invar empty" and lookup_empty: "lookup empty k = None"
    and lookup_key: "invar m \<Longrightarrow> lookup m k = Some it \<Longrightarrow> item_key it = k"
    and add_new: "invar m \<Longrightarrow> lookup m (item_key it) = None \<Longrightarrow> 12 \<le> length (item_data it) \<Longrightarrow>
      \<exists>m'. add m it = Ok (True, m') \<and> invar m' \<and> lookup m' = (lookup m)(item_key it \<mapsto> it)"
    and add_old: "invar m \<Longrightarrow> lookup m (item_key it) \<noteq> None \<Longrightarrow> add m it = Ok (False, m)"
    and del_old: "invar m \<Longrightarrow> lookup m k \<noteq> None \<Longrightarrow>
      \<exists>m'. del m k = Ok (True, m') \<and> invar m' \<and> lookup m' = (lookup m)(k := None)"
    and del_new: "invar m \<Longrightarrow> lookup m k = None \<Longrightarrow> del m k = Ok (False, m)"

datatype edit_op = AddItem SHAMapItem | DelItem uint256

fun big_enough :: "edit_op \<Rightarrow> bool" where
  "big_enough (AddItem it) \<longleftrightarrow> 12 \<le> length (item_data it)"
| "big_enough (DelItem k) \<longleftrightarrow> True"

text \<open>The effect of an edit on a map that refuses to overwrite.\<close>

fun edit_spec :: "edit_op \<Rightarrow> (uint256 \<rightharpoonup> SHAMapItem) \<Rightarrow> uint256 \<rightharpoonup> SHAMapItem" where
  "edit_spec (AddItem it) m = (if m (item_key it) = None then m(item_key it \<mapsto> it) else m)"
| "edit_spec (DelItem k) m = m(k := None)"

fun run_edits :: "('m \<Rightarrow> SHAMapItem \<Rightarrow> (bool \<times> 'm) res) \<Rightarrow> ('m \<Rightarrow> uint256 \<Rightarrow> (bool \<times> 'm) res) \<Rightarrow> edit_op list \<Rightarrow> 'm \<Rightarrow> 'm res" where
  "run_edits add del [] m = Ok m"
| "run_edits add del (AddItem it # es) m = rbind (add m it) (\<lambda>(_, m). run_edits add del es m)"
| "run_edits add del (DelItem k # es) m = rbind (del m k) (\<lambda>(_, m). run_edits add del es m)"

context item_map
begin

lemma edits_refine:
  assumes "invar m" "\<forall>e \<in> set es. big_enough e"
  shows "\<exists>m'. run_edits add del es m = Ok m' \<and> invar m' \<and> lookup m' = fold edit_spec es (lookup m)"
  using assms
proof (induction es arbitrary: m)
  case (Cons e es)
  show ?case
  proof (cases e)
    case (AddItem it)
    show ?thesis
    proof (cases "lookup m (item_key it) = None")
      case True
      then obtain m1 where m1: "add m it = Ok (True, m1)" "invar m1" "lookup m1 = (lookup m)(item_key it \<mapsto> it)"
        using add_new [OF Cons.prems(1), of it] Cons.prems(2) AddItem by auto
      then obtain m' where "run_edits add del es m1 = Ok m'" "invar m'" "lookup m' = fold edit_spec es (lookup m1)"
        using Cons.IH [OF m1(2)] Cons.prems(2) by (metis list.set_intros(2))
      then show ?thesis using m1(1,3) AddItem True by (simp del: fun_upd_apply)
    next
      case False
      then have "edit_spec e (lookup m) = lookup m" using AddItem by auto
      then show ?thesis using add_old [OF Cons.prems(1) False] Cons.IH [OF Cons.prems(1)] Cons.prems(2) AddItem by simp
    qed
  next
    case (DelItem k)
    show ?thesis
    proof (cases "lookup m k = None")
      case True
      then have "(lookup m)(k := None) = lookup m" by auto
      then show ?thesis using del_new [OF Cons.prems(1) True] Cons.IH [OF Cons.prems(1)] Cons.prems(2) DelItem by simp
    next
      case False
      then obtain m1 where m1: "del m k = Ok (True, m1)" "invar m1" "lookup m1 = (lookup m)(k := None)"
        using del_old [OF Cons.prems(1)] by blast
      then obtain m' where "run_edits add del es m1 = Ok m'" "invar m'" "lookup m' = fold edit_spec es (lookup m1)"
        using Cons.IH [OF m1(2)] Cons.prems(2) by (metis list.set_intros(2))
      then show ?thesis using m1(1,3) DelItem by (simp del: fun_upd_apply)
    qed
  qed
qed simp

end

section \<open>The trie\<close>

lemma peekItem_items: "shape 0 0 rt \<Longrightarrow> peekItem rt k = Some it \<longleftrightarrow> it \<in> items rt \<and> item_key it = k"
  using walk_leaves [of 0 0 rt k] unfolding peekItem_def items_def by (force simp: image_iff)

lemma peekItem_eqI:
  assumes "shape 0 0 rt" "\<And>k it. m k = Some it \<longleftrightarrow> it \<in> items rt \<and> item_key it = k"
  shows "peekItem rt = m"
proof
  fix k
  show "peekItem rt k = m k"
    using peekItem_items [OF assms(1), of k] assms(2) [of k] by (metis not_None_eq)
qed

lemma peekItem_None: "shape 0 0 rt \<Longrightarrow> peekItem rt k = None \<longleftrightarrow> k \<notin> keys rt"
  using walk_None [of 0 0 rt k] by (simp add: peekItem_def)

definition typed_ok :: "bool \<Rightarrow> bool \<Rightarrow> node \<Rightarrow> bool" where
  "typed_ok tx md rt \<longleftrightarrow> shamap_ok rt \<and> all_type (leaf_type tx md) rt"

lemma isLeafType_leaf_type [simp]: "isLeafType (leaf_type tx md)"
  by (simp add: leaf_type_def isLeafType_def)

lemma add_item_new:
  assumes ok: "shamap_ok rt" and new: "peekItem rt (item_key it) = None" and len: "12 \<le> length (item_data it)"
  shows "\<exists>rt'. addGiveItem rt it tx md = Ok (True, rt') \<and> shamap_ok rt' \<and>
    (all_type (leaf_type tx md) rt \<longrightarrow> all_type (leaf_type tx md) rt') \<and> peekItem rt' = (peekItem rt)(item_key it \<mapsto> it)"
proof -
  let ?t = "leaf_type tx md" and ?k = "item_key it"
  obtain cs where cs: "rt = Inner cs" "tight_children rt" and s: "shape 0 0 rt" using ok by (auto simp: shamap_ok_iff)
  have nk: "?k \<notin> keys rt" using new peekItem_None [OF s] by simp
  let ?r = "add_rec 0 rt it ?t"
  have r: "shape 0 0 ?r" "items ?r = insert it (items rt)" "all_type ?t rt \<longrightarrow> all_type ?t ?r" "\<exists>cs. ?r = Inner cs" "tight_children ?r"
    using add_rec_ok [OF s nk _ len, of ?t] cs by auto
  obtain n0 d' st' where st: "getStack 0 rt ?k True [] = (n0, d') # st'"
    "case n0 of Leaf it' _ \<Rightarrow> item_key it' \<noteq> ?k | Inner _ \<Rightarrow> True" "add_top it ?t n0 d' st' = Ok ?r"
    using add_stack [OF s nk _ len, of "[]" ?t] by auto
  then have "addGiveItem rt it tx md = Ok (True, ?r)" by (cases n0) (simp_all add: addGiveItem_def)
  moreover have "peekItem ?r = (peekItem rt)(?k \<mapsto> it)"
  proof (rule peekItem_eqI [OF r(1)])
    fix k x
    show "((peekItem rt)(?k \<mapsto> it)) k = Some x \<longleftrightarrow> x \<in> items ?r \<and> item_key x = k"
    proof (cases "k = ?k")
      case True
      have "x \<in> items rt \<Longrightarrow> item_key x \<noteq> ?k" using nk unfolding keys_items by (metis image_eqI)
      then show ?thesis using True unfolding r(2) by auto
    next
      case False
      then show ?thesis using peekItem_items [OF s, of k x] unfolding r(2) by auto
    qed
  qed
  ultimately show ?thesis using r by (auto simp: shamap_ok_iff)
qed

lemma add_item_old:
  assumes ok: "shamap_ok rt" and old: "peekItem rt (item_key it) \<noteq> None"
  shows "addGiveItem rt it tx md = Ok (False, rt)"
proof -
  have s: "shape 0 0 rt" using ok by (simp add: shamap_ok_iff)
  obtain x where x: "x \<in> set (leaves rt)" "item_key (fst x) = item_key it" using old peekItem_None [OF s] by (auto simp: keys_def)
  obtain d' st' where "getStack 0 rt (item_key it) True [] = (Leaf (fst x) (snd x), d') # st'"
    using del_stack [OF s, of "fst x" "snd x" "item_key it" "[]" tnERROR] x by auto
  then show ?thesis using x(2) by (simp add: addGiveItem_def)
qed

lemma del_item_old:
  assumes ok: "shamap_ok rt" and old: "peekItem rt k \<noteq> None"
  shows "\<exists>rt'. delItem rt k = Ok (True, rt') \<and> shamap_ok rt' \<and> (\<forall>t. all_type t rt \<longrightarrow> all_type t rt') \<and>
    peekItem rt' = (peekItem rt)(k := None)"
proof -
  have s: "shape 0 0 rt" using ok by (simp add: shamap_ok_iff)
  have k: "k \<in> keys rt" using old peekItem_None [OF s] by simp
  then obtain it t0 where x: "(it, t0) \<in> set (leaves rt)" "item_key it = k" by (auto simp: keys_def)
  have t0: "isLeafType t0" using shape_data [OF s x(1)] by simp
  obtain n' where n': "del_rec 0 rt k t0 = Ok (Some n')" "items n' = {it \<in> items rt. item_key it \<noteq> k}" "shamap_ok n'"
    "all_type t0 rt \<longrightarrow> all_type t0 n'" using del_root_ok [OF ok k t0] by blast
  obtain d' st' where "getStack 0 rt k True [] = (Leaf it t0, d') # st'" "del_loop st' k t0 None = Ok (Some n')"
    using del_stack [OF s x, of "[]" t0] n'(1) by auto
  then have "delItem rt k = Ok (True, n')" using x(2) by (simp add: delItem_def)
  moreover have "all_type t rt \<Longrightarrow> all_type t n'" for t using n'(4) x(1) unfolding all_type_def by (metis snd_conv)
  moreover have "peekItem n' = (peekItem rt)(k := None)"
    by (rule peekItem_eqI) (use n'(2,3) peekItem_items [OF s] in \<open>auto simp: shamap_ok_iff\<close>)
  ultimately show ?thesis using n'(3) by blast
qed

lemma del_item_new:
  assumes ok: "shamap_ok rt" and new: "peekItem rt k = None"
  shows "delItem rt k = Ok (False, rt)"
proof -
  have s: "shape 0 0 rt" using ok by (simp add: shamap_ok_iff)
  then have "k \<notin> keys rt" using new peekItem_None by blast
  then obtain n0 d' st' where st: "getStack 0 rt k True [] = (n0, d') # st'" "case n0 of Leaf it _ \<Rightarrow> item_key it \<noteq> k | Inner _ \<Rightarrow> True"
    using get_stack_miss [OF s, of k "[]"] by blast
  then show ?thesis by (cases n0) (simp_all add: delItem_def)
qed

lemma empty_ok: "shamap_ok SHAMap_make" "all_type t SHAMap_make" "peekItem SHAMap_make k = None"
  by (simp_all add: SHAMap_make_def shamap_ok_iff tight_children_def all_type_def peekItem_def)

interpretation sm: item_map "typed_ok tx md" peekItem "\<lambda>rt it. addGiveItem rt it tx md" delItem SHAMap_make
proof
  show "typed_ok tx md SHAMap_make" "peekItem SHAMap_make k = None" for k by (simp_all add: typed_ok_def empty_ok)
  show "item_key it = k" if "typed_ok tx md m" "peekItem m k = Some it" for m k it
    using that peekItem_items by (auto simp: typed_ok_def shamap_ok_iff)
  show "\<exists>m'. addGiveItem m it tx md = Ok (True, m') \<and> typed_ok tx md m' \<and> peekItem m' = (peekItem m)(item_key it \<mapsto> it)"
    if "typed_ok tx md m" "peekItem m (item_key it) = None" "12 \<le> length (item_data it)" for m it
    using add_item_new [of m it tx md] that by (auto simp: typed_ok_def)
  show "addGiveItem m it tx md = Ok (False, m)" if "typed_ok tx md m" "peekItem m (item_key it) \<noteq> None" for m it
    using add_item_old that by (simp add: typed_ok_def)
  show "\<exists>m'. delItem m k = Ok (True, m') \<and> typed_ok tx md m' \<and> peekItem m' = (peekItem m)(k := None)"
    if "typed_ok tx md m" "peekItem m k \<noteq> None" for m k
    using del_item_old [of m k] that by (auto simp: typed_ok_def)
  show "delItem m k = Ok (False, m)" if "typed_ok tx md m" "peekItem m k = None" for m k
    using del_item_new that by (simp add: typed_ok_def)
qed

lemma contents_unique:
  assumes "typed_ok tx md n" "typed_ok tx md m" "peekItem n = peekItem m"
  shows "n = m"
proof -
  have s: "shape 0 0 n" "shape 0 0 m" using assms(1,2) by (simp_all add: typed_ok_def shamap_ok_iff)
  have "items n = items m"
  proof (rule set_eqI)
    fix it
    show "it \<in> items n \<longleftrightarrow> it \<in> items m"
      using peekItem_items [OF s(1), of "item_key it" it] peekItem_items [OF s(2), of "item_key it" it] assms(3) by simp
  qed
  moreover have "set (leaves x) = (\<lambda>it. (it, leaf_type tx md)) ` items x" if "typed_ok tx md x" for x
    using that by (force simp: typed_ok_def all_type_def items_def image_iff)
  ultimately have "set (leaves n) = set (leaves m)" using assms(1,2) by simp
  then show ?thesis using shamap_unique assms(1,2) by (simp add: typed_ok_def)
qed

lemma update_item:
  assumes ok: "shamap_ok rt" and x: "(it0, t0) \<in> set (leaves rt)" "item_key it0 = item_key it" and len: "12 \<le> length (item_data it)"
    and h: "hash it (leaf_type tx md) \<noteq> hash it0 t0"
  shows "\<exists>rt'. updateGiveItem hash rt it tx md = Ok (True, rt') \<and> shamap_ok rt' \<and>
    (all_type (leaf_type tx md) rt \<longrightarrow> all_type (leaf_type tx md) rt') \<and> peekItem rt' = (peekItem rt)(item_key it \<mapsto> it)"
proof -
  let ?t = "leaf_type tx md" and ?k = "item_key it"
  obtain cs where cs: "rt = Inner cs" "tight_children rt" and s: "shape 0 0 rt" using ok by (auto simp: shamap_ok_iff)
  have k: "?k \<in> keys rt" using x by (force simp: keys_def)
  let ?r = "upd_rec 0 rt ?k (Leaf it ?t)"
  have r: "shape 0 0 ?r" "items ?r = insert it {x \<in> items rt. item_key x \<noteq> ?k}" "all_type ?t rt \<longrightarrow> all_type ?t ?r"
    "tight_children ?r" "\<exists>cs. ?r = Inner cs"
    using upd_rec_ok [OF s k refl _ len, of ?t] cs by auto
  have "updateGiveItem hash rt it tx md = Ok (True, ?r)"
    using upd_stack [OF s x, of "[]" "Leaf it ?t"] x(2) h by (auto simp: updateGiveItem_def)
  moreover have "peekItem ?r = (peekItem rt)(?k \<mapsto> it)"
  proof (rule peekItem_eqI [OF r(1)])
    show "((peekItem rt)(?k \<mapsto> it)) k = Some x \<longleftrightarrow> x \<in> items ?r \<and> item_key x = k" for k x
      using peekItem_items [OF s, of k x] unfolding r(2) by (cases "k = ?k") auto
  qed
  ultimately show ?thesis using r by (auto simp: shamap_ok_iff)
qed

section \<open>Hashes\<close>

text \<open>
  \<open>updateHash\<close> of the two kinds of nodes. \<open>sha\<close> stands for \<open>sha512Half\<close> of the concatenated arguments;
  \<open>hash_append\<close> writes the 32-bit prefix and the key big-endian.
\<close>

definition hash_prefix :: "nat \<Rightarrow> nat \<Rightarrow> nat \<Rightarrow> blob" where
  "hash_prefix a b c = word_bytes (push_bit 24 (of_nat a) + push_bit 16 (of_nat b) + push_bit 8 (of_nat c) :: u32)"

definition prefix_transactionID :: blob where "prefix_transactionID = hash_prefix 84 88 78"
definition prefix_txNode :: blob where "prefix_txNode = hash_prefix 83 78 68"
definition prefix_leafNode :: blob where "prefix_leafNode = hash_prefix 77 76 78"
definition prefix_innerNode :: blob where "prefix_innerNode = hash_prefix 77 73 78"

definition leaf_message :: "SHAMapItem \<Rightarrow> TNType \<Rightarrow> blob" where
  "leaf_message it t =
     (case t of
        tnTRANSACTION_NM \<Rightarrow> prefix_transactionID @ item_data it
      | tnACCOUNT_STATE \<Rightarrow> prefix_leafNode @ item_data it @ word_bytes (item_key it)
      | tnTRANSACTION_MD \<Rightarrow> prefix_txNode @ item_data it @ word_bytes (item_key it)
      | _ \<Rightarrow> [])"

definition inner_message :: "uint256 list \<Rightarrow> blob" where
  "inner_message hs = prefix_innerNode @ concat (map word_bytes hs)"

fun getNodeHash :: "(blob \<Rightarrow> uint256) \<Rightarrow> node \<Rightarrow> uint256" where
  "getNodeHash sha (Leaf it t) = sha (leaf_message it t)"
| "getNodeHash sha (Inner cs) =
     (if count_nonempty cs = [] then 0
      else sha (inner_message (map (\<lambda>b. case getChild cs b of None \<Rightarrow> 0 | Some c \<Rightarrow> getNodeHash sha c) [0..<16])))"

text \<open>The messages that are hashed for a tree.\<close>

fun messages :: "(blob \<Rightarrow> uint256) \<Rightarrow> node \<Rightarrow> blob set" where
  "messages sha (Leaf it t) = {leaf_message it t}"
| "messages sha (Inner cs) =
     (if count_nonempty cs = [] then {}
      else insert (inner_message (map (\<lambda>b. case getChild cs b of None \<Rightarrow> 0 | Some c \<Rightarrow> getNodeHash sha c) [0..<16]))
        (\<Union>b. case getChild cs b of None \<Rightarrow> {} | Some c \<Rightarrow> messages sha c))"

definition no_collision :: "(blob \<Rightarrow> uint256) \<Rightarrow> blob set \<Rightarrow> bool" where
  "no_collision sha S \<longleftrightarrow> inj_on sha S \<and> (\<forall>m \<in> S. sha m \<noteq> 0)"

lemma no_collision_mono: "no_collision sha S \<Longrightarrow> T \<subseteq> S \<Longrightarrow> no_collision sha T"
  by (auto simp: no_collision_def intro: inj_on_subset)

lemma word_bytes_inject: "8 dvd LENGTH('a::len) \<Longrightarrow> word_bytes (k :: 'a word) = word_bytes k' \<longleftrightarrow> k = k'"
  using bytes_word_bytes [of k] bytes_word_bytes [of k'] by metis

lemma key_bytes_inject: "word_bytes (k :: uint256) = word_bytes k' \<longleftrightarrow> k = k'"
  by (rule word_bytes_inject) simp

text \<open>A transaction without metadata is stored under its identifier, which is its leaf hash.\<close>

definition keyed :: "(blob \<Rightarrow> uint256) \<Rightarrow> node \<Rightarrow> bool" where
  "keyed sha n \<longleftrightarrow> (\<forall>x \<in> set (leaves n). snd x = tnTRANSACTION_NM \<longrightarrow> item_key (fst x) = sha (leaf_message (fst x) (snd x)))"

lemma keyed_child: "keyed sha (Inner cs) \<Longrightarrow> getChild cs b = Some c \<Longrightarrow> keyed sha c"
  using leaves_child_subset unfolding keyed_def by blast

lemma length_prefixes [simp]: "length prefix_leafNode = 4" "length prefix_txNode = 4" "length prefix_innerNode = 4" "length prefix_transactionID = 4"
  by (simp_all add: prefix_leafNode_def prefix_txNode_def prefix_innerNode_def prefix_transactionID_def hash_prefix_def)

lemma prefixes_differ: "prefix_leafNode \<noteq> prefix_innerNode" "prefix_txNode \<noteq> prefix_innerNode" "prefix_transactionID \<noteq> prefix_innerNode"
proof -
  have d: "8 dvd LENGTH(32)" by simp
  show "prefix_leafNode \<noteq> prefix_innerNode" "prefix_txNode \<noteq> prefix_innerNode" "prefix_transactionID \<noteq> prefix_innerNode"
    unfolding prefix_leafNode_def prefix_txNode_def prefix_innerNode_def prefix_transactionID_def hash_prefix_def word_bytes_inject [OF d] by simp_all
qed

lemma concat_words_inject:
  fixes hs hs' :: "uint256 list"
  assumes "length hs = length hs'" "concat (map word_bytes hs) = concat (map word_bytes hs')"
  shows "hs = hs'"
  using assms
proof (induction hs hs' rule: list_induct2)
  case (Cons h hs h' hs')
  then have "word_bytes h = word_bytes h' \<and> concat (map word_bytes hs) = concat (map word_bytes hs')" by simp
  then show ?case using Cons.IH by (simp add: key_bytes_inject)
qed simp

lemma leaf_message_inject:
  assumes "leaf_message it t = leaf_message it' t" "isLeafType t" "keyed sha (Leaf it t)" "keyed sha (Leaf it' t)"
  shows "it = it'"
proof (cases "t = tnTRANSACTION_NM")
  case True
  then have "item_data it = item_data it'" using assms(1) by (simp add: leaf_message_def)
  then show ?thesis using assms(1,3,4) True by (simp add: keyed_def)
next
  case False
  then have "item_data it @ word_bytes (item_key it) = item_data it' @ word_bytes (item_key it')"
    using assms(1,2) by (auto simp: leaf_message_def isLeafType_def)
  then have "item_data it = item_data it'" "word_bytes (item_key it) = word_bytes (item_key it')" by simp_all
  then show ?thesis by (simp add: key_bytes_inject)
qed

lemma leaf_not_inner: "isLeafType t \<Longrightarrow> leaf_message it t \<noteq> inner_message hs"
proof
  assume t: "isLeafType t" and "leaf_message it t = inner_message hs"
  then have "take 4 (leaf_message it t) = take 4 (inner_message hs)" by simp
  then show False using t prefixes_differ by (auto simp: leaf_message_def inner_message_def isLeafType_def)
qed

lemma messages_child: "getChild cs b = Some c \<Longrightarrow> messages sha c \<subseteq> messages sha (Inner cs)"
proof -
  assume c: "getChild cs b = Some c"
  then have "count_nonempty cs \<noteq> []" using getChild_set [of cs c] by auto
  then show ?thesis using c by (force split: option.splits)
qed

lemma node_message:
  assumes "leaves n \<noteq> []"
  shows "\<exists>m \<in> messages sha n. getNodeHash sha n = sha m"
proof (cases n)
  case (Inner cs)
  then have "count_nonempty cs \<noteq> []" using assms by (auto simp: leaves.simps(2))
  then show ?thesis using Inner by simp
qed simp

abbreviation child_hash :: "(blob \<Rightarrow> uint256) \<Rightarrow> node option list \<Rightarrow> nat \<Rightarrow> uint256" where
  "child_hash sha cs b \<equiv> (case getChild cs b of None \<Rightarrow> 0 | Some c \<Rightarrow> getNodeHash sha c)"

text \<open>Equal hashes of two inner nodes with items below them are equal hashes of their branches.\<close>

lemma inner_hash_inject:
  assumes "no_collision sha S" "messages sha (Inner cs) \<union> messages sha (Inner cs') \<subseteq> S"
    and "getNodeHash sha (Inner cs) = getNodeHash sha (Inner cs')" "count_nonempty cs \<noteq> []" "count_nonempty cs' \<noteq> []" "b < 16"
  shows "child_hash sha cs b = child_hash sha cs' b"
proof -
  have "inner_message (map (child_hash sha cs) [0..<16]) = inner_message (map (child_hash sha cs') [0..<16])"
    using assms(1-5) by (auto simp: no_collision_def inj_on_def)
  then have "concat (map word_bytes (map (child_hash sha cs) [0..<16])) = concat (map word_bytes (map (child_hash sha cs') [0..<16]))"
    by (simp only: inner_message_def append_same_eq same_append_eq)
  then have "map (child_hash sha cs) [0..<16] = map (child_hash sha cs') [0..<16]"
    by (rule concat_words_inject [rotated]) (simp only: length_map)
  then show ?thesis using assms(6) by (metis (no_types, lifting) add.left_neutral diff_zero length_upt nth_map nth_upt)
qed

lemma tight_hash_nonzero:
  assumes "no_collision sha S" "messages sha n \<subseteq> S" "tight n"
  shows "getNodeHash sha n \<noteq> 0"
  using node_message [OF tight_nonempty [OF assms(3)], of sha] assms(1,2) by (auto simp: no_collision_def)

lemma hash_children:
  assumes c: "no_collision sha S" "messages sha (Inner cs) \<union> messages sha (Inner cs') \<subseteq> S"
    and t: "\<And>b c. getChild cs b = Some c \<Longrightarrow> tight c" "\<And>b c. getChild cs' b = Some c \<Longrightarrow> tight c"
    and len: "length cs = 16" "length cs' = 16" and ch: "\<And>b. b < 16 \<Longrightarrow> child_hash sha cs b = child_hash sha cs' b"
    and u: "\<And>b c c'. getChild cs b = Some c \<Longrightarrow> getChild cs' b = Some c' \<Longrightarrow> getNodeHash sha c = getNodeHash sha c' \<Longrightarrow> c = c'"
  shows "cs = cs'"
proof -
  have nz: "getNodeHash sha x \<noteq> 0" if "getChild cs b = Some x \<or> getChild cs' b = Some x" for b x
    using that t [of b x] messages_child [of _ b x sha] c tight_hash_nonzero [OF c(1), of x] by blast
  have "getChild cs b = getChild cs' b" for b
  proof (cases "b < 16")
    case False
    then show ?thesis using len by (simp add: getChild_def)
  next
    case True
    show ?thesis
    proof (cases "getChild cs b")
      case None
      then show ?thesis using ch [OF True] nz [of b] by (cases "getChild cs' b") auto
    next
      case (Some x)
      then obtain y where y: "getChild cs' b = Some y" using ch [OF True] nz [of b x] by (cases "getChild cs' b") auto
      then show ?thesis using u [OF Some y] ch [OF True] Some by simp
    qed
  qed
  then show ?thesis using len by (intro nth_equalityI) (simp_all add: getChild_def, metis)
qed

lemma hash_determines:
  assumes c: "no_collision sha S" and t: "isLeafType t"
    and "messages sha n \<union> messages sha m \<subseteq> S" "shape d p n" "shape d p m" "tight n" "tight m" "all_type t n" "all_type t m"
    and "getNodeHash sha n = getNodeHash sha m" "keyed sha n" "keyed sha m"
  shows "n = m"
  using assms(3-)
proof (induction n arbitrary: m d p rule: node_induct)
  case (Leaf it t0)
  have t0: "t0 = t" using Leaf.prems(6) by (simp add: all_type_def)
  show ?case
  proof (cases m)
    case l: (Leaf it' t')
    then have "t' = t" "leaf_message it t = leaf_message it' t"
      using Leaf.prems t0 c by (auto simp: all_type_def no_collision_def inj_on_def)
    then show ?thesis using leaf_message_inject [OF _ t, of it it' sha] Leaf.prems(9,10) l t0 by simp
  next
    case (Inner cs)
    then have "count_nonempty cs \<noteq> []" using tight_nonempty [OF Leaf.prems(5)] by (auto simp: leaves.simps(2))
    then show ?thesis using Leaf.prems(1,8) Inner t0 c leaf_not_inner [OF t] by (auto simp: no_collision_def inj_on_def)
  qed
next
  case (Inner cs)
  have ne: "count_nonempty cs \<noteq> []" using tight_nonempty [OF Inner.prems(4)] by (auto simp: leaves.simps(2))
  show ?case
  proof (cases m)
    case (Leaf it' t')
    then have "t' = t" using Inner.prems(7) by (simp add: all_type_def)
    then show ?thesis using Inner.prems(1,8) Leaf ne c leaf_not_inner [OF t, of it'] by (auto simp: no_collision_def inj_on_def) metis
  next
    case i: (Inner cs')
    have ne': "count_nonempty cs' \<noteq> []" using tight_nonempty [OF Inner.prems(5)] i by (auto simp: leaves.simps(2))
    have ch: "child_hash sha cs b = child_hash sha cs' b" if "b < 16" for b
      using inner_hash_inject [OF c, of cs cs' b] Inner.prems(1,8) i ne ne' that by simp
    have "cs = cs'"
    proof (rule hash_children [OF c _ _ _ _ _ ch])
      fix b x y assume x: "getChild cs b = Some x" "getChild cs' b = Some y" "getNodeHash sha x = getNodeHash sha y"
      have "messages sha x \<union> messages sha y \<subseteq> S" using Inner.prems(1) i messages_child x(1,2) by blast
      then show "x = y" using Inner.IH [OF x(1), of y "Suc d" "16 * p + b"] Inner.prems(2-7,9,10) i x all_type_child keyed_child by auto
    qed (use Inner.prems i in auto)
    then show ?thesis using i by simp
  qed
qed

lemma root_hash_determines:
  assumes c: "no_collision sha (messages sha n \<union> messages sha m)" and k: "keyed sha n" "keyed sha m"
    and "typed_ok tx md n" "typed_ok tx md m" "getNodeHash sha n = getNodeHash sha m"
  shows "n = m"
proof -
  let ?t = "leaf_type tx md" and ?S = "messages sha n \<union> messages sha m"
  obtain cs cs' where i: "n = Inner cs" "m = Inner cs'" and s: "shape 0 0 n" "shape 0 0 m" "tight_children n" "tight_children m"
    using assms(4,5) by (auto simp: typed_ok_def shamap_ok_iff)
  have tc: "\<And>b c. getChild cs b = Some c \<Longrightarrow> tight c" "\<And>b c. getChild cs' b = Some c \<Longrightarrow> tight c"
    using s(3,4) i by (auto simp: tight_children_def)
  have len: "length cs = 16" "length cs' = 16" using s(1,2) i by auto
  have e: "count_nonempty xs = [] \<longleftrightarrow> (\<forall>b. getChild xs b = None)" for xs
    using getChild_set [of xs] by (metis empty_iff empty_set last_in_set not_None_eq)
  have nz: "sha x \<noteq> 0" if "x \<in> ?S" for x using c that by (auto simp: no_collision_def)
  have both: "count_nonempty cs = [] \<longleftrightarrow> count_nonempty cs' = []" using assms(6) nz i by (auto split: if_splits)
  have ch: "child_hash sha cs b = child_hash sha cs' b" if "b < 16" for b
  proof (cases "count_nonempty cs = []")
    case True
    then show ?thesis using both e [of cs] e [of cs'] by simp
  next
    case False
    then show ?thesis using inner_hash_inject [OF c, of cs cs' b] assms(6) i both that by simp
  qed
  have "cs = cs'"
  proof (rule hash_children [OF c _ tc len ch])
    show "messages sha (Inner cs) \<union> messages sha (Inner cs') \<subseteq> ?S" using i by simp
    fix b x y assume x: "getChild cs b = Some x" "getChild cs' b = Some y" "getNodeHash sha x = getNodeHash sha y"
    have "messages sha x \<union> messages sha y \<subseteq> ?S" using i messages_child x(1,2) by blast
    moreover have "shape 1 b x" "shape 1 b y" using s(1,2) i x by auto
    moreover have "all_type ?t x" "all_type ?t y" using assms(4,5) i x all_type_child by (auto simp: typed_ok_def)
    moreover have "keyed sha x" "keyed sha y" using k i x keyed_child by auto
    ultimately show "x = y" using hash_determines [OF c isLeafType_leaf_type, of x y 1 b tx md] tc x by blast
  qed
  then show ?thesis using i by simp
qed

section \<open>Properties\<close>

text \<open>
  C15. One operation on a \<open>SHAMap\<close> is that operation on a map: in every tree with the invariant, \<open>addGiveItem\<close> of a new key makes \<open>peekItem\<close>
  return the item at that key and nothing else changes, and refuses a key that is present; \<open>delItem\<close>
  removes exactly its key and reports whether it was there; no assertion fails and the invariant is kept.
\<close>

theorem shamap_is_map:
  assumes "shamap_ok rt" "12 \<le> length (item_data it)"
  shows "(case peekItem rt (item_key it) of
      None \<Rightarrow> \<exists>rt'. addGiveItem rt it tx md = Ok (True, rt') \<and> shamap_ok rt' \<and> peekItem rt' = (peekItem rt)(item_key it \<mapsto> it)
    | Some _ \<Rightarrow> addGiveItem rt it tx md = Ok (False, rt)) \<and>
    (case peekItem rt k of
      None \<Rightarrow> delItem rt k = Ok (False, rt)
    | Some _ \<Rightarrow> \<exists>rt'. delItem rt k = Ok (True, rt') \<and> shamap_ok rt' \<and> peekItem rt' = (peekItem rt)(k := None))"
  using add_item_new [OF assms(1) _ assms(2), of tx md] add_item_old [OF assms(1), of it tx md]
    del_item_new [OF assms(1), of k] del_item_old [OF assms(1), of k]
  by (auto split: option.splits simp del: fun_upd_apply)

definition sample_item :: "nat \<Rightarrow> SHAMapItem" where
  "sample_item n = \<lparr>item_key = of_nat n, item_data = replicate 12 (of_nat n)\<rparr>"

theorem shamap_is_map_witness:
  "\<exists>rt'. addGiveItem SHAMap_make (sample_item 7) False False = Ok (True, rt') \<and> shamap_ok rt' \<and>
    peekItem rt' = (peekItem SHAMap_make)(7 \<mapsto> sample_item 7)"
  using shamap_is_map [OF empty_ok(1), of "sample_item 7" False False 0]
  by (simp add: sample_item_def empty_ok(3) del: fun_upd_apply)

text \<open>
  C7. The tree does not depend on its history: two trees built from the empty one by any sequences of
  insertions and deletions, failed ones included, are equal, nodes and hashes alike, as soon as they
  hold the same items. Every such sequence runs to its end and has the effect of map updates.
\<close>

theorem shamap_history_independent:
  assumes "\<forall>e \<in> set es. big_enough e" "\<forall>e \<in> set fs. big_enough e"
    and "fold edit_spec es (\<lambda>_. None) = fold edit_spec fs (\<lambda>_. None)"
  shows "\<exists>rt. run_edits (\<lambda>rt it. addGiveItem rt it tx md) delItem es SHAMap_make = Ok rt \<and>
    run_edits (\<lambda>rt it. addGiveItem rt it tx md) delItem fs SHAMap_make = Ok rt \<and>
    peekItem rt = fold edit_spec es (\<lambda>_. None)"
proof -
  have e: "peekItem SHAMap_make = (\<lambda>_. None)" using empty_ok(3) by (simp add: fun_eq_iff)
  obtain n m where "run_edits (\<lambda>rt it. addGiveItem rt it tx md) delItem es SHAMap_make = Ok n" "typed_ok tx md n" "peekItem n = fold edit_spec es (\<lambda>_. None)"
    "run_edits (\<lambda>rt it. addGiveItem rt it tx md) delItem fs SHAMap_make = Ok m" "typed_ok tx md m" "peekItem m = fold edit_spec fs (\<lambda>_. None)"
    using sm.edits_refine [OF sm.invar_empty assms(1), of tx md] sm.edits_refine [OF sm.invar_empty assms(2), of tx md] unfolding e by blast
  then show ?thesis using contents_unique [of tx md n m] assms(3) by auto
qed

theorem shamap_history_independent_witness:
  "\<exists>rt. run_edits (\<lambda>rt it. addGiveItem rt it False False) delItem [AddItem (sample_item 1), AddItem (sample_item 2), DelItem 1] SHAMap_make = Ok rt \<and>
    run_edits (\<lambda>rt it. addGiveItem rt it False False) delItem [AddItem (sample_item 2)] SHAMap_make = Ok rt"
proof -
  have "fold edit_spec [AddItem (sample_item 1), AddItem (sample_item 2), DelItem 1] (\<lambda>_. None) =
      fold edit_spec [AddItem (sample_item 2)] (\<lambda>_. None)" by (auto simp: sample_item_def fun_eq_iff)
  then show ?thesis
    using shamap_history_independent [of "[AddItem (sample_item 1), AddItem (sample_item 2), DelItem 1]" "[AddItem (sample_item 2)]" False False]
    by (auto simp: sample_item_def)
qed

text \<open>
  C10. The root hash authenticates the contents: for maps of one type, transactions without metadata being
  stored under their identifiers, and a digest without collisions on the messages hashed for the two trees,
  the root hashes are equal exactly when the maps are.
\<close>

theorem root_hash_authenticates:
  assumes "no_collision sha (messages sha n \<union> messages sha m)" "keyed sha n" "keyed sha m"
    and "typed_ok tx md n" "typed_ok tx md m"
  shows "getNodeHash sha n = getNodeHash sha m \<longleftrightarrow> peekItem n = peekItem m"
  using root_hash_determines [OF assms] contents_unique [OF assms(4,5)] by auto

definition sample_tree :: node where
  "sample_tree = Inner (setChild 0 (Some (Leaf (sample_item 7) tnACCOUNT_STATE)) new_inner)"

lemma sample_tree_ok: "typed_ok False False sample_tree"
proof -
  have "selectBranch 0 7 = 0" by (simp add: selectBranch_digit)
  then have "addGiveItem SHAMap_make (sample_item 7) False False = Ok (True, sample_tree)"
    by (simp add: addGiveItem_def SHAMap_make_def sample_tree_def sample_item_def add_top_def make_leaf_def isEmptyBranch_def leaf_type_def)
  then show ?thesis using sm.add_new [OF sm.invar_empty, of "sample_item 7" False False] by (auto simp: sample_item_def empty_ok(3))
qed

lemma sample_no_collision:
  fixes sha :: "blob \<Rightarrow> uint256"
  defines "sha \<equiv> \<lambda>m. of_nat (length m)"
  shows "no_collision sha (messages sha sample_tree \<union> messages sha SHAMap_make)" "keyed sha sample_tree" "keyed sha SHAMap_make"
proof -
  have "length (concat (map word_bytes hs)) = 32 * length hs" for hs :: "uint256 list" by (induction hs) auto
  then have i: "length (inner_message hs) = 4 + 32 * length hs" for hs by (simp add: inner_message_def)
  have l: "length (leaf_message (sample_item 7) tnACCOUNT_STATE) = 48" by (simp add: leaf_message_def sample_item_def)
  have n: "count_nonempty new_inner = []" using getChild_set [of new_inner] by (metis ex_in_conv new_inner_simps(2) option.distinct(1) set_empty)
  let ?l = "leaf_message (sample_item 7) tnACCOUNT_STATE"
  have "\<exists>x. messages sha sample_tree \<subseteq> {x, ?l} \<and> length x = 516"
    by (rule exI [of _ "inner_message (map (child_hash sha (children sample_tree)) [0..<16])"])
      (auto simp: i sample_tree_def split: option.splits if_splits)
  then obtain x where x: "messages sha sample_tree \<subseteq> {x, ?l}" "length x = 516" by blast
  have "no_collision sha {x, ?l}" using x(2) l by (auto simp: no_collision_def sha_def)
  moreover have "messages sha SHAMap_make = {}" by (simp add: SHAMap_make_def n)
  ultimately show "no_collision sha (messages sha sample_tree \<union> messages sha SHAMap_make)"
    using x(1) no_collision_mono [of sha "{x, ?l}"] by simp
  show "keyed sha sample_tree" "keyed sha SHAMap_make"
    using sample_tree_ok sm.invar_empty [of False False] by (auto simp: keyed_def typed_ok_def all_type_def leaf_type_def)
qed

lemma sample_tree_peek: "peekItem sample_tree k = (if k = 7 then Some (sample_item 7) else None)"
proof -
  have "selectBranch 0 7 = 0" by (simp add: selectBranch_digit)
  moreover have "selectBranch 0 k < 16" by simp
  ultimately show ?thesis
    by (auto simp: peekItem_def sample_tree_def sample_item_def getChild_def setChild_def new_inner_def nth_list_update)
qed

theorem root_hash_authenticates_witness:
  "getNodeHash (\<lambda>m. of_nat (length m)) sample_tree \<noteq> getNodeHash (\<lambda>m. of_nat (length m)) SHAMap_make"
proof -
  have "peekItem sample_tree \<noteq> peekItem SHAMap_make" using sample_tree_peek [of 7] empty_ok(3) by (metis option.distinct(1))
  then show ?thesis
    using root_hash_authenticates [OF sample_no_collision sample_tree_ok sm.invar_empty] by simp
qed

end
