(* ===== verification/SHAMap_Iter.thy ===== *)
theory SHAMap_Iter
  imports SHAMap_Map
begin

text \<open>
  Iteration over a \<open>SHAMap\<close> (\<open>shamap/impl/SHAMap.cpp\<close>, \<open>SHAMap::const_iterator\<close> of \<open>shamap/SHAMap.h\<close>):
  \<open>firstBelow\<close>, \<open>peekFirstItem\<close>, \<open>peekNextItem\<close>, \<open>upper_bound\<close>. An iterator is the item it points to
  and the stack of nodes from that leaf up to the root.
\<close>

section \<open>Operations\<close>

text \<open>The loops that look for the first non-empty branch from \<open>i\<close> on.\<close>

function next_branch :: "nat \<Rightarrow> node option list \<Rightarrow> (nat \<times> node) option" where
  "next_branch i cs =
     (if i < 16 then case getChild cs i of Some c \<Rightarrow> Some (i, c) | None \<Rightarrow> next_branch (i + 1) cs else None)"
  by pat_completeness auto
termination by (relation "measure (\<lambda>(i, _). 16 - i)") auto

declare next_branch.simps [simp del]

lemma next_branch_SomeD: "next_branch i cs = Some (j, c) \<Longrightarrow> i \<le> j \<and> j < 16 \<and> getChild cs j = Some c \<and> (\<forall>l. i \<le> l \<and> l < j \<longrightarrow> getChild cs l = None)"
proof (induction i cs rule: next_branch.induct)
  case (1 i cs)
  show ?case
  proof (cases "i < 16 \<and> getChild cs i = None")
    case True
    then have "next_branch (i + 1) cs = Some (j, c)" using 1(2) next_branch.simps [of i cs] by simp
    then have "i + 1 \<le> j" "j < 16" "getChild cs j = Some c" "\<forall>l. i + 1 \<le> l \<and> l < j \<longrightarrow> getChild cs l = None"
      using 1(1) True by auto
    then show ?thesis using True by (metis Suc_eq_plus1 Suc_leD le_antisym not_less_eq_eq)
  next
    case False
    then show ?thesis using 1(2) next_branch.simps [of i cs] by (auto split: if_splits option.splits)
  qed
qed

lemma next_branch_NoneD: "next_branch i cs = None \<Longrightarrow> i \<le> l \<Longrightarrow> l < 16 \<Longrightarrow> getChild cs l = None"
proof (induction i cs rule: next_branch.induct)
  case (1 i cs)
  then show ?case using next_branch.simps [of i cs]
    by (cases "l = i") (auto split: if_splits option.splits)
qed

lemma next_branch_size [termination_simp]: "next_branch i cs = Some (j, c) \<Longrightarrow> size c < size_list (size_option size) cs"
  using next_branch_SomeD getChild_size by blast

type_synonym leaf = "SHAMapItem \<times> TNType"

fun firstBelow :: "node \<Rightarrow> node_stack \<Rightarrow> (leaf option \<times> node_stack) res" where
  "firstBelow (Leaf it t) stack = Ok (Some (it, t), stack)"
| "firstBelow (Inner cs) stack =
     (case next_branch 0 cs of
        None \<Rightarrow> Ok (None, stack)
      | Some (i, c) \<Rightarrow>
          (case stack of
             [] \<Rightarrow> Throw AssertFailed
           | (_, d) # _ \<Rightarrow> firstBelow c ((c, d + 1) # stack)))"

definition peekFirstItem :: "node \<Rightarrow> (leaf option \<times> node_stack) res" where
  "peekFirstItem rt = rbind (firstBelow rt [(rt, 0)]) (\<lambda>(l, stack). Ok (l, if l = None then [] else stack))"

text \<open>What both \<open>peekNextItem\<close> and \<open>upper_bound\<close> do at an inner node when they find a branch to the right.\<close>

definition enter_branch :: "nat \<Rightarrow> node \<Rightarrow> node_stack \<Rightarrow> (leaf option \<times> node_stack) res" where
  "enter_branch d c stack =
     rbind (firstBelow c ((c, d + 1) # stack)) (\<lambda>(l, stack').
       case l of None \<Rightarrow> Throw (RuntimeError ''missing node'') | Some x \<Rightarrow> Ok (Some x, stack'))"

fun next_loop :: "uint256 \<Rightarrow> node_stack \<Rightarrow> (leaf option \<times> node_stack) res" where
  "next_loop k [] = Ok (None, [])"
| "next_loop k ((Leaf _ _, d) # stack) = Throw AssertFailed"
| "next_loop k ((Inner cs, d) # stack) =
     (case next_branch (selectBranch d k + 1) cs of
        Some (i, c) \<Rightarrow> enter_branch d c ((Inner cs, d) # stack)
      | None \<Rightarrow> next_loop k stack)"

definition peekNextItem :: "uint256 \<Rightarrow> node_stack \<Rightarrow> (leaf option \<times> node_stack) res" where
  "peekNextItem k stack =
     (case stack of (Leaf _ _, _) # st \<Rightarrow> next_loop k st | _ \<Rightarrow> Throw AssertFailed)"

fun upper_loop :: "uint256 \<Rightarrow> node_stack \<Rightarrow> (leaf option \<times> node_stack) res" where
  "upper_loop k [] = Ok (None, [])"
| "upper_loop k ((Leaf it t, d) # stack) =
     (if item_key it > k then Ok (Some (it, t), (Leaf it t, d) # stack) else upper_loop k stack)"
| "upper_loop k ((Inner cs, d) # stack) =
     (case next_branch (selectBranch d k + 1) cs of
        Some (i, c) \<Rightarrow> enter_branch d c ((Inner cs, d) # stack)
      | None \<Rightarrow> upper_loop k stack)"

text \<open>The first loop of \<open>upper_bound\<close> builds the stack that \<open>getStack (id, true)\<close> builds.\<close>

definition upper_bound :: "node \<Rightarrow> uint256 \<Rightarrow> (leaf option \<times> node_stack) res" where
  "upper_bound rt k = upper_loop k (getStack 0 rt k True [])"

text \<open>A range-for over the map: \<open>begin\<close>, then \<open>operator++\<close> until \<open>end\<close>; at most \<open>fuel\<close> items.\<close>

fun iterate_from :: "nat \<Rightarrow> leaf option \<times> node_stack \<Rightarrow> SHAMapItem list res" where
  "iterate_from fuel (None, stack) = Ok []"
| "iterate_from 0 (Some x, stack) = Throw Diverges"
| "iterate_from (Suc fuel) (Some x, stack) =
     rbind (peekNextItem (item_key (fst x)) stack) (\<lambda>it. rbind (iterate_from fuel it) (\<lambda>xs. Ok (fst x # xs)))"

definition iterate :: "nat \<Rightarrow> node \<Rightarrow> SHAMapItem list res" where
  "iterate fuel rt = rbind (peekFirstItem rt) (iterate_from fuel)"

section \<open>Paths\<close>

text \<open>\<open>directed rt k st\<close>: \<open>st\<close> is the path from the root along the digits of \<open>k\<close>, deepest node first.\<close>

fun directed :: "node \<Rightarrow> uint256 \<Rightarrow> node_stack \<Rightarrow> bool" where
  "directed rt k [] \<longleftrightarrow> False"
| "directed rt k [(n, d)] \<longleftrightarrow> n = rt \<and> d = 0"
| "directed rt k ((n, d) # (m, e) # st) \<longleftrightarrow>
     d = Suc e \<and> getChild (children m) (selectBranch e k) = Some n \<and> (\<exists>cs. m = Inner cs) \<and> directed rt k ((m, e) # st)"

lemma prefix_Suc_eq:
  "d < 64 \<Longrightarrow> prefix (Suc d) k = prefix (Suc d) k' \<longleftrightarrow> prefix d k = prefix d k' \<and> selectBranch d k = selectBranch d k'"
  using prefix_Suc [of d k] prefix_Suc [of d k'] selectBranch_less [of d k] selectBranch_less [of d k'] by presburger

lemma directed_tl: "directed rt k (x # st) \<Longrightarrow> st \<noteq> [] \<Longrightarrow> directed rt k st"
  by (cases st; cases x) (auto split: prod.splits)

lemma directed_child:
  "directed rt k ((Inner cs, d) # st) \<Longrightarrow> getChild cs (selectBranch d k) = Some c \<Longrightarrow> directed rt k ((c, Suc d) # (Inner cs, d) # st)"
  by simp

text \<open>The node on top holds exactly the leaves of the map whose keys start with the digits of the path.\<close>

lemma directed_leaves:
  assumes "shape 0 0 rt"
  shows "directed rt k ((n, d) # st) \<Longrightarrow>
    shape d (prefix d k) n \<and> set (leaves n) = {x \<in> set (leaves rt). prefix d (item_key (fst x)) = prefix d k}"
proof (induction st arbitrary: n d)
  case Nil
  then show ?case using assms by simp
next
  case (Cons y st)
  obtain m e where y: "y = (m, e)" by fastforce
  with Cons.prems obtain cs where m: "m = Inner cs" "d = Suc e" "getChild cs (selectBranch e k) = Some n"
    "directed rt k ((Inner cs, e) # st)" by auto
  have IH: "shape e (prefix e k) (Inner cs)"
    "set (leaves (Inner cs)) = {x \<in> set (leaves rt). prefix e (item_key (fst x)) = prefix e k}"
    using Cons.IH [OF m(4)] by auto
  then have e: "e < 64" and sh: "shape d (prefix d k) n" using m by (auto simp: prefix_Suc)
  have "x \<in> set (leaves n) \<longleftrightarrow> x \<in> set (leaves rt) \<and> prefix d (item_key (fst x)) = prefix d k" for x
  proof -
    have "x \<in> set (leaves n) \<longleftrightarrow> x \<in> set (leaves (Inner cs)) \<and> selectBranch e (item_key (fst x)) = selectBranch e k"
      using leaves_child [OF IH(1), of x "selectBranch e k"] m(3) by simp
    also have "\<dots> \<longleftrightarrow> x \<in> set (leaves rt) \<and> prefix e (item_key (fst x)) = prefix e k \<and> selectBranch e (item_key (fst x)) = selectBranch e k"
      unfolding IH(2) by simp
    also have "prefix e (item_key (fst x)) = prefix e k \<and> selectBranch e (item_key (fst x)) = selectBranch e k \<longleftrightarrow>
        prefix d (item_key (fst x)) = prefix d k"
      using prefix_Suc_eq [OF e] m(2) by simp
    finally show ?thesis .
  qed
  then show ?case using sh by blast
qed

text \<open>A path is shared by all keys that start with its digits.\<close>

lemma directed_cong:
  assumes "shape 0 0 rt"
  shows "directed rt k ((n, d) # st) \<Longrightarrow> prefix d k' = prefix d k \<Longrightarrow> directed rt k' ((n, d) # st)"
proof (induction st arbitrary: n d)
  case (Cons y st)
  obtain m e where y: "y = (m, e)" by fastforce
  with Cons.prems obtain cs where m: "m = Inner cs" "d = Suc e" "getChild cs (selectBranch e k) = Some n"
    "directed rt k ((Inner cs, e) # st)" by auto
  then have "e < 64" using directed_leaves [OF assms m(4)] by simp
  then have "prefix e k' = prefix e k" "selectBranch e k' = selectBranch e k"
    using Cons.prems(2) m(2) by (simp_all add: prefix_Suc_eq)
  then show ?case using Cons.IH [OF m(4)] m y by simp
qed simp

lemma directed_into:
  assumes "shape 0 0 rt" "directed rt k ((Inner cs, d) # st)" "getChild cs i = Some c" "x \<in> set (leaves c)"
  shows "directed rt (item_key (fst x)) ((c, Suc d) # (Inner cs, d) # st)"
proof -
  have sh: "shape d (prefix d k) (Inner cs)" using directed_leaves [OF assms(1,2)] by simp
  have "x \<in> set (leaves (Inner cs))" using assms(3,4) by (auto simp: in_leaves_Inner)
  then have "prefix d (item_key (fst x)) = prefix d k" using shape_prefix [OF sh] by blast
  then show ?thesis using directed_cong [OF assms(1,2)] shape_branch [OF sh assms(3,4)] assms(3) by simp
qed

lemma directed_top_unique:
  "directed rt k ((n, d) # st) \<Longrightarrow> d = length st"
  by (induction st arbitrary: n d) auto

section \<open>The first item below a node\<close>

text \<open>An iterator at \<open>x\<close>: the path to the leaf that holds it.\<close>

definition iter_at :: "node \<Rightarrow> leaf \<Rightarrow> node_stack \<Rightarrow> bool" where
  "iter_at rt x st \<longleftrightarrow> x \<in> set (leaves rt) \<and> directed rt (item_key (fst x)) st \<and>
     (\<exists>d st'. st = (Leaf (fst x) (snd x), d) # st')"

lemma concat_next_branch:
  assumes "length cs = 16" "next_branch 0 cs = Some (i, c)"
  shows "\<exists>rest. leaves (Inner cs) = leaves c @ rest"
proof -
  have i: "i < 16" "getChild cs i = Some c" "\<forall>l < i. getChild cs l = None"
    using next_branch_SomeD [OF assms(2)] by auto
  then have c: "cs ! i = Some c" and n: "\<forall>l < i. cs ! l = None" using assms(1) by (auto simp: getChild_def)
  have "cs = take i cs @ cs ! i # drop (Suc i) cs" using i(1) assms(1) by (simp add: id_take_nth_drop)
  moreover have "take i cs = replicate i None" using n i(1) assms(1) by (intro nth_equalityI) auto
  ultimately have "cs = replicate i None @ Some c # drop (Suc i) cs" using c by simp
  moreover have "count_nonempty (replicate j None @ Some c # ds) = c # count_nonempty ds" for j ds by (induction j) auto
  ultimately have "count_nonempty cs = c # count_nonempty (drop (Suc i) cs)" by metis
  then show ?thesis by (simp only: leaves.simps list.map concat.simps) blast
qed

lemma no_branch_no_leaves: "length cs = 16 \<Longrightarrow> next_branch 0 cs = None \<Longrightarrow> leaves (Inner cs) = []"
proof -
  assume a: "length cs = 16" "next_branch 0 cs = None"
  have "getChild cs b \<noteq> Some c" for b c using next_branch_NoneD [OF a(2), of b] getChild_less [OF a(1)] by fastforce
  then have "\<And>x. x \<notin> set (leaves (Inner cs))" unfolding in_leaves_Inner by simp
  then show ?thesis by (metis list.set_intros(1) neq_Nil_conv)
qed

lemma firstBelow_ok:
  assumes rt: "shape 0 0 rt"
  shows "directed rt k ((n, d) # st) \<Longrightarrow> tight n \<Longrightarrow>
    \<exists>st'. firstBelow n ((n, d) # st) = Ok (Some (hd (leaves n)), st') \<and> iter_at rt (hd (leaves n)) st'"
proof (induction n arbitrary: d st k rule: node_induct)
  case (Leaf it t)
  have "prefix d (item_key it) = prefix d k" "(it, t) \<in> set (leaves rt)"
    using directed_leaves [OF rt Leaf.prems(1)] by auto
  then show ?case using directed_cong [OF rt Leaf.prems(1), of "item_key it"] by (auto simp: iter_at_def)
next
  case (Inner cs)
  have sh: "shape d (prefix d k) (Inner cs)" using directed_leaves [OF rt Inner.prems(1)] by simp
  then have l: "length cs = 16" by simp
  have "next_branch 0 cs \<noteq> None" using no_branch_no_leaves [OF l] tight_nonempty [OF Inner.prems(2)] by blast
  then obtain i c where nb: "next_branch 0 cs = Some (i, c)" by auto
  then have c: "getChild cs i = Some c" using next_branch_SomeD by blast
  then have tc: "tight c" using Inner.prems(2) by simp
  let ?x = "hd (leaves c)"
  have x: "?x \<in> set (leaves c)" using tight_nonempty [OF tc] by simp
  obtain rest where "leaves (Inner cs) = leaves c @ rest" using concat_next_branch [OF l nb] by blast
  then have hd: "hd (leaves (Inner cs)) = ?x" using tight_nonempty [OF tc] by simp
  have "firstBelow (Inner cs) ((Inner cs, d) # st) = firstBelow c ((c, Suc d) # (Inner cs, d) # st)"
    using nb by simp
  then show ?case using Inner.IH [OF c directed_into [OF rt Inner.prems(1) c x] tc] hd by simp
qed

section \<open>The next item\<close>

definition least_above :: "node \<Rightarrow> uint256 \<Rightarrow> leaf \<Rightarrow> bool" where
  "least_above rt k x \<longleftrightarrow> x \<in> set (leaves rt) \<and> k < item_key (fst x) \<and>
     (\<forall>y \<in> set (leaves rt). k < item_key (fst y) \<longrightarrow> item_key (fst x) \<le> item_key (fst y))"

definition none_above :: "node \<Rightarrow> uint256 \<Rightarrow> bool" where
  "none_above rt k \<longleftrightarrow> (\<forall>y \<in> set (leaves rt). item_key (fst y) \<le> k)"

text \<open>What a successful search to the right of \<open>k\<close> returns.\<close>

definition found_next :: "node \<Rightarrow> uint256 \<Rightarrow> (leaf option \<times> node_stack) res \<Rightarrow> bool" where
  "found_next rt k r \<longleftrightarrow> (\<exists>x st. r = Ok (Some x, st) \<and> least_above rt k x \<and> iter_at rt x st) \<or>
     r = Ok (None, []) \<and> none_above rt k"

lemma key_outside:
  assumes rt: "shape 0 0 rt" and dir: "directed rt k ((n, d) # st)"
    and x: "x \<in> set (leaves n)" and y: "y \<in> set (leaves rt)" "y \<notin> set (leaves n)" "k < item_key (fst y)"
  shows "item_key (fst x) < item_key (fst y)"
proof -
  have "prefix d (item_key (fst x)) = prefix d k" "prefix d (item_key (fst y)) \<noteq> prefix d k"
    using directed_leaves [OF rt dir] x y by auto
  moreover have "prefix d k \<le> prefix d (item_key (fst y))"
    using prefix_less [of d "item_key (fst y)" k] y(3) by fastforce
  ultimately show ?thesis using prefix_less [of d] by simp
qed

lemma hd_least: "shape d p n \<Longrightarrow> y \<in> set (leaves n) \<Longrightarrow> item_key (fst (hd (leaves n))) \<le> item_key (fst y)"
  using sorted_leaves [of d p n] by (cases "leaves n") auto

lemma branch_order:
  assumes "shape d p (Inner cs)" "x \<in> set (leaves (Inner cs))" "prefix d k = p"
  shows "selectBranch d k < selectBranch d (item_key (fst x)) \<Longrightarrow> k < item_key (fst x)"
    and "selectBranch d (item_key (fst x)) < selectBranch d k \<Longrightarrow> item_key (fst x) < k"
proof -
  have p: "prefix d (item_key (fst x)) = prefix d k" "d < 64" using shape_prefix [OF assms(1,2)] assms(1,3) by auto
  show "selectBranch d k < selectBranch d (item_key (fst x)) \<Longrightarrow> k < item_key (fst x)"
    using prefix_less [of "Suc d"] prefix_Suc [OF p(2)] p(1) by simp
  show "selectBranch d (item_key (fst x)) < selectBranch d k \<Longrightarrow> item_key (fst x) < k"
    using prefix_less [of "Suc d"] prefix_Suc [OF p(2)] p(1) by simp
qed

lemma enter_least:
  assumes rt: "shape 0 0 rt" and dir: "directed rt k ((Inner cs, d) # st)"
    and nb: "next_branch (selectBranch d k + 1) cs = Some (i, c)" and tc: "tight c"
    and seen: "\<forall>y \<in> set (leaves (Inner cs)). selectBranch d (item_key (fst y)) = selectBranch d k \<longrightarrow> item_key (fst y) \<le> k"
  shows "found_next rt k (enter_branch d c ((Inner cs, d) # st))"
proof -
  let ?x = "hd (leaves c)"
  have c: "selectBranch d k < i" "getChild cs i = Some c" "\<forall>l. selectBranch d k < l \<and> l < i \<longrightarrow> getChild cs l = None"
    using next_branch_SomeD [OF nb] by auto
  have sh: "shape d (prefix d k) (Inner cs)" using directed_leaves [OF rt dir] by simp
  have xc: "?x \<in> set (leaves c)" using tight_nonempty [OF tc] by simp
  then have xi: "?x \<in> set (leaves (Inner cs))" using leaves_child_subset [OF c(2)] by blast
  have bx: "selectBranch d (item_key (fst ?x)) = i" using shape_branch [OF sh c(2) xc] .
  obtain st' where st': "firstBelow c ((c, Suc d) # (Inner cs, d) # st) = Ok (Some ?x, st')" "iter_at rt ?x st'"
    using firstBelow_ok [OF rt directed_into [OF rt dir c(2) xc] tc] by blast
  have "item_key (fst ?x) \<le> item_key (fst y)" if y: "y \<in> set (leaves rt)" "k < item_key (fst y)" for y
  proof (cases "y \<in> set (leaves (Inner cs))")
    case False
    then show ?thesis using key_outside [OF rt dir xi y(1) False y(2)] by simp
  next
    case True
    let ?j = "selectBranch d (item_key (fst y))"
    obtain c' where c': "getChild cs ?j = Some c'" "y \<in> set (leaves c')" using leaves_child [OF sh, of y ?j] True by auto
    have "selectBranch d k < ?j" using seen branch_order(2) [OF sh True, of k] True y(2)
      by (cases ?j "selectBranch d k" rule: linorder_cases) auto
    then consider "?j = i" | "i < ?j" using c(3) c'(1) by (metis linorder_neqE_nat option.distinct(1))
    then show ?thesis
    proof cases
      case 1
      have "shape (Suc d) (16 * prefix d k + i) c" using sh c(2) by simp
      then show ?thesis using hd_least c' c(2) 1 by simp
    next
      case 2
      have "prefix d (item_key (fst ?x)) = prefix d k" using shape_prefix [OF sh xi] .
      then show ?thesis using branch_order(1) [OF sh True, of "item_key (fst ?x)"] 2 bx by simp
    qed
  qed
  moreover have "k < item_key (fst ?x)" using branch_order(1) [OF sh xi] c(1) bx by simp
  moreover have "?x \<in> set (leaves rt)" using st'(2) by (simp add: iter_at_def)
  ultimately have "least_above rt k ?x" by (simp add: least_above_def)
  then show ?thesis using st' by (simp add: found_next_def enter_branch_def)
qed

lemma right_empty:
  assumes sh: "shape d (prefix d k) (Inner cs)" and nb: "next_branch (selectBranch d k + 1) cs = None"
    and w: "w \<in> set (leaves (Inner cs))"
  shows "item_key (fst w) \<le> k \<or> selectBranch d (item_key (fst w)) = selectBranch d k"
proof -
  obtain c where "getChild cs (selectBranch d (item_key (fst w))) = Some c"
    using leaves_child [OF sh, of w "selectBranch d (item_key (fst w))"] w by auto
  then have "selectBranch d (item_key (fst w)) \<le> selectBranch d k"
    using next_branch_NoneD [OF nb] by (metis Suc_eq_plus1 not_less_eq_eq option.distinct(1) selectBranch_less)
  then show ?thesis using branch_order(2) [OF sh w, of k] by auto
qed

text \<open>Nodes below the root of a well-formed map are tight.\<close>

lemma tight_below:
  assumes "shamap_ok rt"
  shows "directed rt k ((Inner cs, d) # st) \<Longrightarrow> getChild cs i = Some c \<Longrightarrow> tight c"
proof (induction st arbitrary: cs d i c)
  case Nil
  then show ?case using assms by (auto simp: shamap_ok_def)
next
  case (Cons y st)
  obtain m e where y: "y = (m, e)" by fastforce
  with Cons.prems obtain ds where "m = Inner ds" "getChild ds (selectBranch e k) = Some (Inner cs)"
    "directed rt k ((Inner ds, e) # st)" by auto
  then have "tight (Inner cs)" using Cons.IH by blast
  then show ?case using Cons.prems(2) by simp
qed

lemma all_inner: "directed rt k (y # st) \<Longrightarrow> \<forall>z \<in> set st. \<exists>cs. fst z = Inner cs"
proof (induction st arbitrary: y)
  case (Cons z st)
  then show ?case using directed_tl [of rt k y "z # st"] by (cases y; cases z) auto
qed simp

lemma next_loop_ok:
  assumes rt: "shamap_ok rt"
  shows "directed rt k (y # st) \<Longrightarrow> \<forall>z \<in> set (leaves (fst y)). item_key (fst z) \<le> k \<Longrightarrow> found_next rt k (next_loop k st)"
proof (induction st arbitrary: y)
  case Nil
  then show ?case by (cases y) (simp add: found_next_def none_above_def)
next
  case (Cons z st)
  have sh0: "shape 0 0 rt" using rt by (simp add: shamap_ok_def)
  obtain n e d cs where y: "y = (n, e)" and z: "z = (Inner cs, d)" and c: "getChild cs (selectBranch d k) = Some n"
    using Cons.prems(1) by (cases y; cases z) auto
  have dir: "directed rt k ((Inner cs, d) # st)" using directed_tl [OF Cons.prems(1)] z by simp
  have sh: "shape d (prefix d k) (Inner cs)" using directed_leaves [OF sh0 dir] by simp
  have seen: "\<forall>y \<in> set (leaves (Inner cs)). selectBranch d (item_key (fst y)) = selectBranch d k \<longrightarrow> item_key (fst y) \<le> k"
  proof (intro ballI impI)
    fix w assume w: "w \<in> set (leaves (Inner cs))" "selectBranch d (item_key (fst w)) = selectBranch d k"
    then have "w \<in> set (leaves n)" using leaves_child [OF sh, of w "selectBranch d k"] c by auto
    then show "item_key (fst w) \<le> k" using Cons.prems(2) y by simp
  qed
  show ?case
  proof (cases "next_branch (selectBranch d k + 1) cs")
    case None
    have "item_key (fst w) \<le> k" if w: "w \<in> set (leaves (Inner cs))" for w
      using right_empty [OF sh None w] seen w by auto
    then show ?thesis using Cons.IH [OF dir] None z by simp
  next
    case (Some ic)
    then obtain i c' where ic: "next_branch (selectBranch d k + 1) cs = Some (i, c')" by (cases ic) simp
    then have "tight c'" using tight_below [OF rt dir] next_branch_SomeD by blast
    then show ?thesis using enter_least [OF sh0 dir ic _ seen] ic z by simp
  qed
qed

lemma upper_loop_inner: "\<forall>z \<in> set st. \<exists>cs. fst z = Inner cs \<Longrightarrow> upper_loop k st = next_loop k st"
  by (induction k st rule: upper_loop.induct) (auto split: option.splits)


section \<open>Iterators\<close>

lemma getStack_directed:
  assumes rt: "shape 0 0 rt"
  shows "directed rt k ((n, d) # st) \<Longrightarrow>
    \<exists>m e st'. getStack d n k True st = (m, e) # st' \<and> directed rt k ((m, e) # st') \<and>
      (\<forall>cs. m = Inner cs \<longrightarrow> getChild cs (selectBranch e k) = None)"
proof (induction n arbitrary: d st rule: node_induct)
  case (Inner cs)
  show ?case
  proof (cases "getChild cs (selectBranch d k)")
    case None
    then show ?thesis using Inner.prems by simp
  next
    case (Some c)
    then show ?thesis using Inner.IH [OF Some, of "Suc d" "(Inner cs, d) # st"] Inner.prems by simp
  qed
qed simp

lemma upper_bound_ok:
  assumes "shamap_ok rt"
  shows "found_next rt k (upper_bound rt k)"
proof -
  have rt: "shape 0 0 rt" using assms by (simp add: shamap_ok_def)
  obtain m e st where st: "getStack 0 rt k True [] = (m, e) # st" and dir: "directed rt k ((m, e) # st)"
    and stop: "\<And>cs. m = Inner cs \<Longrightarrow> getChild cs (selectBranch e k) = None"
    using getStack_directed [OF rt, of k rt 0 "[]"] by auto
  have up: "upper_loop k st = next_loop k st" using upper_loop_inner [OF all_inner [OF dir]] .
  show ?thesis
  proof (cases m)
    case (Leaf it t)
    show ?thesis
    proof (cases "item_key it > k")
      case True
      have "(it, t) \<in> set (leaves rt)" "prefix e (item_key it) = prefix e k"
        using directed_leaves [OF rt dir] Leaf by auto
      moreover have "item_key it \<le> item_key (fst y)" if "y \<in> set (leaves rt)" "k < item_key (fst y)" for y
        using key_outside [OF rt dir, of "(it, t)" y] that Leaf by (cases "y = (it, t)") auto
      ultimately have "least_above rt k (it, t)" "iter_at rt (it, t) ((Leaf it t, e) # st)"
        using True directed_cong [OF rt dir, of "item_key it"] Leaf by (auto simp: least_above_def iter_at_def)
      then show ?thesis using True st Leaf by (simp add: upper_bound_def found_next_def)
    next
      case False
      then have "found_next rt k (next_loop k st)" using next_loop_ok [OF assms dir] Leaf by simp
      then show ?thesis using False st Leaf up by (simp add: upper_bound_def)
    qed
  next
    case (Inner cs)
    have none: "getChild cs (selectBranch e k) = None" using stop [OF Inner] .
    have dir': "directed rt k ((Inner cs, e) # st)" using dir Inner by simp
    have sh: "shape e (prefix e k) (Inner cs)" using directed_leaves [OF rt dir'] by simp
    have seen: "\<forall>y \<in> set (leaves (Inner cs)). selectBranch e (item_key (fst y)) \<noteq> selectBranch e k"
      using leaves_child [OF sh, of _ "selectBranch e k"] none by (metis option.distinct(1))
    show ?thesis
    proof (cases "next_branch (selectBranch e k + 1) cs")
      case None
      have "item_key (fst w) \<le> k" if w: "w \<in> set (leaves (Inner cs))" for w
        using right_empty [OF sh None w] seen w by auto
      then have "found_next rt k (next_loop k st)" using next_loop_ok [OF assms dir'] by simp
      then show ?thesis using None st Inner up by (simp add: upper_bound_def)
    next
      case (Some ic)
      then obtain i c where ic: "next_branch (selectBranch e k + 1) cs = Some (i, c)" by (cases ic) simp
      then have "tight c" using tight_below [OF assms dir'] next_branch_SomeD by blast
      then have "found_next rt k (enter_branch e c ((Inner cs, e) # st))"
        using enter_least [OF rt dir' ic] seen by blast
      then show ?thesis using ic st Inner by (simp add: upper_bound_def)
    qed
  qed
qed

lemma peekNextItem_ok:
  assumes "shamap_ok rt" "iter_at rt x st"
  shows "found_next rt (item_key (fst x)) (peekNextItem (item_key (fst x)) st)"
proof -
  obtain d st' where st: "st = (Leaf (fst x) (snd x), d) # st'" using assms(2) by (auto simp: iter_at_def)
  then have "found_next rt (item_key (fst x)) (next_loop (item_key (fst x)) st')"
    using next_loop_ok [OF assms(1), of "item_key (fst x)" "(Leaf (fst x) (snd x), d)" st'] assms(2) by (simp add: iter_at_def)
  then show ?thesis using st by (simp add: peekNextItem_def)
qed

text \<open>The items that follow a key, in order.\<close>

definition items_above :: "node \<Rightarrow> uint256 \<Rightarrow> leaf list" where
  "items_above rt k = filter (\<lambda>x. k < item_key (fst x)) (leaves rt)"

lemma found_next_items:
  assumes "shape 0 0 rt" "found_next rt k r"
  shows "case items_above rt k of
      [] \<Rightarrow> r = Ok (None, [])
    | x # xs \<Rightarrow> (\<exists>st. r = Ok (Some x, st) \<and> iter_at rt x st) \<and> items_above rt (item_key (fst x)) = xs"
proof -
  have srt: "sorted_wrt key_less (items_above rt k)"
    using sorted_leaves [OF assms(1)] by (simp add: items_above_def sorted_wrt_filter)
  have mem: "y \<in> set (items_above rt k) \<longleftrightarrow> y \<in> set (leaves rt) \<and> k < item_key (fst y)" for y
    by (auto simp: items_above_def)
  show ?thesis
  proof (cases "items_above rt k")
    case Nil
    then have "\<not> least_above rt k y" for y using mem [of y] by (auto simp: least_above_def)
    then show ?thesis using assms(2) Nil by (auto simp: found_next_def)
  next
    case (Cons x xs)
    have x: "x \<in> set (leaves rt)" "k < item_key (fst x)" using mem [of x] Cons by auto
    then have "\<not> none_above rt k" unfolding none_above_def by (meson leD)
    then obtain y st where y: "r = Ok (Some y, st)" "least_above rt k y" "iter_at rt y st"
      using assms(2) by (auto simp: found_next_def)
    then have "y \<in> set (x # xs)" "item_key (fst y) \<le> item_key (fst x)"
      using mem [of y] Cons x by (auto simp: least_above_def)
    then have "y = x" using srt Cons by auto
    moreover have "filter (\<lambda>z. item_key (fst x) < item_key (fst z)) (leaves rt) = filter (\<lambda>z. item_key (fst x) < item_key (fst z)) (x # xs)"
      using x(2) unfolding Cons [symmetric] items_above_def filter_filter by (intro filter_cong) auto
    then have "items_above rt (item_key (fst x)) = xs" using srt Cons by (simp add: items_above_def filter_id_conv)
    ultimately show ?thesis using y Cons by simp
  qed
qed

lemma iterate_from_ok:
  assumes "shamap_ok rt"
  shows "iter_at rt x st \<Longrightarrow> length (items_above rt (item_key (fst x))) < fuel \<Longrightarrow>
    iterate_from fuel (Some x, st) = Ok (map fst (x # items_above rt (item_key (fst x))))"
proof (induction fuel arbitrary: x st)
  case (Suc fuel)
  have rt: "shape 0 0 rt" using assms by (simp add: shamap_ok_def)
  let ?k = "item_key (fst x)"
  note nxt = found_next_items [OF rt peekNextItem_ok [OF assms Suc.prems(1)]]
  show ?case
  proof (cases "items_above rt ?k")
    case Nil
    then show ?thesis using nxt by simp
  next
    case (Cons y ys)
    then obtain st' where "peekNextItem ?k st = Ok (Some y, st')" "iter_at rt y st'" "items_above rt (item_key (fst y)) = ys"
      using nxt by auto
    then show ?thesis using Suc.IH [of y st'] Suc.prems(2) Cons by simp
  qed
qed simp

lemma peekFirstItem_ok:
  assumes "shamap_ok rt"
  shows "case leaves rt of [] \<Rightarrow> peekFirstItem rt = Ok (None, [])
    | x # xs \<Rightarrow> (\<exists>st. peekFirstItem rt = Ok (Some x, st) \<and> iter_at rt x st) \<and> items_above rt (item_key (fst x)) = xs"
proof -
  obtain cs where cs: "rt = Inner cs" using assms by (auto simp: shamap_ok_def)
  have rt: "shape 0 0 rt" and l: "length cs = 16" using assms cs by (auto simp: shamap_ok_def)
  have dir: "directed rt k [(rt, 0)]" for k by simp
  show ?thesis
  proof (cases "next_branch 0 cs")
    case None
    then show ?thesis using no_branch_no_leaves [OF l] cs by (simp add: peekFirstItem_def del: leaves.simps)
  next
    case (Some ic)
    then obtain i c where ic: "next_branch 0 cs = Some (i, c)" by (cases ic) simp
    then have c: "getChild cs i = Some c" using next_branch_SomeD by blast
    then have tc: "tight c" using assms cs by (simp add: shamap_ok_def)
    let ?x = "hd (leaves c)"
    have x: "?x \<in> set (leaves c)" using tight_nonempty [OF tc] by simp
    obtain rest where lv: "leaves rt = leaves c @ rest" using concat_next_branch [OF l ic] cs by blast
    obtain st where st: "firstBelow c ((c, Suc 0) # [(Inner cs, 0)]) = Ok (Some ?x, st)" "iter_at rt ?x st"
      using firstBelow_ok [OF rt directed_into [OF rt _ c x] tc, of _ 0 "[]"] cs by auto
    obtain xs where xs: "leaves rt = ?x # xs" using lv tight_nonempty [OF tc] by (cases "leaves c") auto
    have "items_above rt (item_key (fst ?x)) = xs"
      using sorted_leaves [OF rt] unfolding items_above_def xs by (simp add: filter_id_conv)
    then show ?thesis using st ic cs xs by (simp add: peekFirstItem_def del: leaves.simps)
  qed
qed


lemma hasItem_leaves: "shamap_ok rt \<Longrightarrow> hasItem rt k \<longleftrightarrow> (\<exists>x \<in> set (leaves rt). item_key (fst x) = k)"
  using walk_None [of 0 0 rt k] by (auto simp: shamap_ok_def hasItem_def keys_def)

lemma peekItem_leaf: "shamap_ok rt \<Longrightarrow> x \<in> set (leaves rt) \<Longrightarrow> peekItem rt (item_key (fst x)) = Some (fst x)"
  using walk_leaves [of 0 0 rt "item_key (fst x)" x] by (simp add: shamap_ok_def peekItem_def)

text \<open>
  C22. Iterating over a map (\<open>begin\<close>, then \<open>operator++\<close> until \<open>end\<close>) ends after as many steps as the map
  has items and visits each item exactly once, in increasing order of the keys.
\<close>

theorem shamap_iteration:
  assumes "shamap_ok rt"
  shows "\<exists>xs. (\<forall>fuel \<ge> length xs. iterate fuel rt = Ok xs) \<and> sorted_wrt (\<lambda>a b. item_key a < item_key b) xs \<and>
    (\<forall>k it. peekItem rt k = Some it \<longleftrightarrow> it \<in> set xs \<and> item_key it = k)"
proof (intro exI conjI allI impI)
  have rt: "shape 0 0 rt" using assms by (simp add: shamap_ok_def)
  show "iterate fuel rt = Ok (map fst (leaves rt))" if "length (map fst (leaves rt)) \<le> fuel" for fuel
  proof (cases "leaves rt")
    case Nil
    then show ?thesis using peekFirstItem_ok [OF assms] by (simp add: iterate_def)
  next
    case (Cons x xs)
    then obtain st where "peekFirstItem rt = Ok (Some x, st)" "iter_at rt x st" "items_above rt (item_key (fst x)) = xs"
      using peekFirstItem_ok [OF assms] by auto
    then show ?thesis using iterate_from_ok [OF assms, of x st fuel] that Cons by (simp add: iterate_def)
  qed
  show "sorted_wrt (\<lambda>a b. item_key a < item_key b) (map fst (leaves rt))"
    using sorted_leaves [OF rt] by (simp add: sorted_wrt_map)
  show "peekItem rt k = Some it \<longleftrightarrow> it \<in> set (map fst (leaves rt)) \<and> item_key it = k" for k it
    using peekItem_items [OF rt] by (simp add: items_def)
qed

theorem shamap_iteration_witness:
  "\<exists>xs. (\<forall>fuel \<ge> length xs. iterate fuel sample_tree = Ok xs) \<and> sorted_wrt (\<lambda>a b. item_key a < item_key b) xs \<and>
    (\<forall>k it. peekItem sample_tree k = Some it \<longleftrightarrow> it \<in> set xs \<and> item_key it = k)"
  using sample_tree_ok by (intro shamap_iteration) (simp add: typed_ok_def)

text \<open>
  \<open>upper_bound (k)\<close> returns an iterator at the item with the least key above \<open>k\<close>, whether or not \<open>k\<close>
  is in the map, and \<open>end\<close> exactly when there is none; incrementing the iterator it returned gives the item
  with the least key above that one. No call throws.
\<close>

theorem upper_bound_next_item:
  assumes "shamap_ok rt"
  shows "\<exists>r. upper_bound rt k = Ok r \<and>
    (case fst r of
       None \<Rightarrow> \<forall>k'. hasItem rt k' \<longrightarrow> k' \<le> k
     | Some x \<Rightarrow> peekItem rt (item_key (fst x)) = Some (fst x) \<and> k < item_key (fst x) \<and>
         (\<forall>k'. hasItem rt k' \<and> k < k' \<longrightarrow> item_key (fst x) \<le> k') \<and>
         (\<exists>s. peekNextItem (item_key (fst x)) (snd r) = Ok s \<and>
           rbind (upper_bound rt (item_key (fst x))) (\<lambda>u. Ok (fst u)) = Ok (fst s)))"
proof -
  have rt: "shape 0 0 rt" using assms by (simp add: shamap_ok_def)
  consider (at) x st where "upper_bound rt k = Ok (Some x, st)" "least_above rt k x" "iter_at rt x st"
    | (none) "upper_bound rt k = Ok (None, [])" "none_above rt k"
    using upper_bound_ok [OF assms, of k] by (auto simp: found_next_def)
  then show ?thesis
  proof cases
    case none
    then show ?thesis by (auto simp: hasItem_leaves [OF assms] none_above_def)
  next
    case at
    let ?k = "item_key (fst x)"
    have "\<exists>s u. peekNextItem ?k st = Ok s \<and> upper_bound rt ?k = Ok u \<and> fst s = fst u"
      using found_next_items [OF rt peekNextItem_ok [OF assms at(3)]] found_next_items [OF rt upper_bound_ok [OF assms, of ?k]]
      by (cases "items_above rt ?k") auto
    moreover have "peekItem rt ?k = Some (fst x)" using peekItem_leaf [OF assms] at(2) by (simp add: least_above_def)
    moreover have "k < ?k \<and> (\<forall>k'. hasItem rt k' \<and> k < k' \<longrightarrow> ?k \<le> k')"
      using at(2) by (auto simp: hasItem_leaves [OF assms] least_above_def)
    ultimately show ?thesis using at(1) by auto
  qed
qed

theorem upper_bound_next_item_witness:
  "\<exists>r. upper_bound sample_tree 0 = Ok r \<and>
    (case fst r of
       None \<Rightarrow> \<forall>k'. hasItem sample_tree k' \<longrightarrow> k' \<le> 0
     | Some x \<Rightarrow> peekItem sample_tree (item_key (fst x)) = Some (fst x) \<and> 0 < item_key (fst x) \<and>
         (\<forall>k'. hasItem sample_tree k' \<and> 0 < k' \<longrightarrow> item_key (fst x) \<le> k') \<and>
         (\<exists>s. peekNextItem (item_key (fst x)) (snd r) = Ok s \<and>
           rbind (upper_bound sample_tree (item_key (fst x))) (\<lambda>u. Ok (fst u)) = Ok (fst s)))"
  using sample_tree_ok by (intro upper_bound_next_item) (simp add: typed_ok_def)

end
