(* ===== verification/LedgerTiming.thy ===== *)
theory LedgerTiming
  imports Prelude
begin

text \<open>
  The timing rules of consensus (\<open>app/ledger/LedgerTiming.h\<close>, \<open>app/ledger/impl/LedgerTiming.cpp\<close> and the
  free functions of \<open>app/ledger/impl/LedgerConsensusImp.cpp\<close>): the close-time resolution, the rounding of close
  times, when to close a ledger and when enough validators agree. An \<open>int\<close> of the source is an integer here;
  the counts are numbers of validators and milliseconds of one round, far from its range.
\<close>

section \<open>Parameters\<close>

definition minimumConsensusPercentage :: int where "minimumConsensusPercentage = 80"
definition ledgerPossibleTimeResolutions :: "int list" where "ledgerPossibleTimeResolutions = [10, 20, 30, 60, 90, 120]"
definition ledgerDefaultTimeResolution :: int where "ledgerDefaultTimeResolution = ledgerPossibleTimeResolutions ! 2"
definition increaseLedgerTimeResolutionEvery :: u32 where "increaseLedgerTimeResolutionEvery = 8"
definition decreaseLedgerTimeResolutionEvery :: u32 where "decreaseLedgerTimeResolutionEvery = 1"
definition LEDGER_IDLE_INTERVAL :: int where "LEDGER_IDLE_INTERVAL = 15"
definition LEDGER_MIN_CONSENSUS :: int where "LEDGER_MIN_CONSENSUS = 2000"
definition LEDGER_MIN_CLOSE :: int where "LEDGER_MIN_CLOSE = 2000"
definition PROPOSE_FRESHNESS :: int where "PROPOSE_FRESHNESS = 20"
definition PROPOSE_INTERVAL :: int where "PROPOSE_INTERVAL = 12"
definition AV_INIT_CONSENSUS_PCT :: int where "AV_INIT_CONSENSUS_PCT = 50"
definition AV_MID_CONSENSUS_TIME :: int where "AV_MID_CONSENSUS_TIME = 50"
definition AV_MID_CONSENSUS_PCT :: int where "AV_MID_CONSENSUS_PCT = 65"
definition AV_LATE_CONSENSUS_TIME :: int where "AV_LATE_CONSENSUS_TIME = 85"
definition AV_LATE_CONSENSUS_PCT :: int where "AV_LATE_CONSENSUS_PCT = 70"
definition AV_STUCK_CONSENSUS_TIME :: int where "AV_STUCK_CONSENSUS_TIME = 200"
definition AV_STUCK_CONSENSUS_PCT :: int where "AV_STUCK_CONSENSUS_PCT = 95"
definition AV_CT_CONSENSUS_PCT :: int where "AV_CT_CONSENSUS_PCT = 75"

lemmas timing_defs = minimumConsensusPercentage_def increaseLedgerTimeResolutionEvery_def decreaseLedgerTimeResolutionEvery_def
  LEDGER_IDLE_INTERVAL_def LEDGER_MIN_CONSENSUS_def LEDGER_MIN_CLOSE_def
lemmas avalanche_defs = AV_INIT_CONSENSUS_PCT_def AV_MID_CONSENSUS_TIME_def AV_MID_CONSENSUS_PCT_def AV_LATE_CONSENSUS_TIME_def
  AV_LATE_CONSENSUS_PCT_def AV_STUCK_CONSENSUS_TIME_def AV_STUCK_CONSENSUS_PCT_def

section \<open>Close times\<close>

text \<open>The index of the first occurrence, \<open>std::find\<close>.\<close>

fun find_index :: "'a \<Rightarrow> 'a list \<Rightarrow> nat option" where
  "find_index x [] = None"
| "find_index x (y # ys) = (if x = y then Some 0 else map_option Suc (find_index x ys))"

definition getNextLedgerTimeResolution :: "int \<Rightarrow> bool \<Rightarrow> u32 \<Rightarrow> int res" where
  "getNextLedgerTimeResolution previousResolution previousAgree ledgerSeq =
     rbind (require (ledgerSeq \<noteq> 0) AssertFailed) (\<lambda>_.
     case find_index previousResolution ledgerPossibleTimeResolutions of
       None \<Rightarrow> Throw AssertFailed
     | Some iter \<Rightarrow>
         Ok (if \<not> previousAgree \<and> ledgerSeq mod decreaseLedgerTimeResolutionEvery = 0 \<and>
                Suc iter \<noteq> length ledgerPossibleTimeResolutions
             then ledgerPossibleTimeResolutions ! Suc iter
             else if previousAgree \<and> ledgerSeq mod increaseLedgerTimeResolutionEvery = 0 \<and> iter \<noteq> 0
             then ledgerPossibleTimeResolutions ! (iter - 1)
             else previousResolution))"

text \<open>Both arguments are unsigned: adding half the resolution can wrap around.\<close>

definition roundCloseTime :: "u32 \<Rightarrow> u32 \<Rightarrow> u32" where
  "roundCloseTime closeTime closeResolution =
     (if closeTime = 0 then 0
      else let closeTime = closeTime + closeResolution div 2 in closeTime - closeTime mod closeResolution)"

section \<open>Decisions\<close>

text \<open>Division of \<open>int\<close>s truncates toward zero.\<close>

definition cdiv :: "int \<Rightarrow> int \<Rightarrow> int" where
  "cdiv a b = sgn a * sgn b * (\<bar>a\<bar> div \<bar>b\<bar>)"

lemma cdiv_nonneg [simp]: "0 \<le> a \<Longrightarrow> 0 < b \<Longrightarrow> cdiv a b = a div b"
  by (cases "a = 0") (simp_all add: cdiv_def sgn_if)

definition shouldCloseLedger :: "bool \<Rightarrow> int \<Rightarrow> int \<Rightarrow> int \<Rightarrow> int \<Rightarrow> int \<Rightarrow> int \<Rightarrow> int \<Rightarrow> bool" where
  "shouldCloseLedger anyTransactions previousProposers proposersClosed proposersValidated
       previousMSeconds currentMSeconds openMSeconds idleInterval =
     (if previousMSeconds < -1000 \<or> previousMSeconds > 600000 \<or> currentMSeconds > 600000 then True
      else if proposersClosed + proposersValidated > cdiv previousProposers 2 then True
      else if \<not> anyTransactions then currentMSeconds \<ge> idleInterval * 1000
      else if openMSeconds < LEDGER_MIN_CLOSE then False
      else if openMSeconds < cdiv previousMSeconds 2 then False
      else True)"

definition checkConsensusReached :: "int \<Rightarrow> int \<Rightarrow> bool" where
  "checkConsensusReached agreeing proposing \<longleftrightarrow> cdiv (agreeing * 100) (proposing + 1) > minimumConsensusPercentage"

datatype ConsensusState = No | MovedOn | Yes

definition checkConsensus :: "int \<Rightarrow> int \<Rightarrow> int \<Rightarrow> int \<Rightarrow> int \<Rightarrow> int \<Rightarrow> ConsensusState" where
  "checkConsensus previousProposers currentProposers currentAgree currentFinished previousAgreeTime currentAgreeTime =
     (if currentAgreeTime \<le> LEDGER_MIN_CONSENSUS then No
      else if currentProposers < cdiv (previousProposers * 3) 4 \<and> currentAgreeTime < previousAgreeTime + LEDGER_MIN_CONSENSUS then No
      else if checkConsensusReached (currentAgree + 1) currentProposers then Yes
      else if checkConsensusReached currentFinished currentProposers then MovedOn
      else No)"

definition participantsNeeded :: "int \<Rightarrow> int \<Rightarrow> int" where
  "participantsNeeded participants percent =
     (let result = cdiv (participants * percent + cdiv percent 2) 100 in if result = 0 then 1 else result)"

text \<open>The weight that the avalanche asks for at a given percentage of the previous round's time.\<close>

definition neededWeight :: "int \<Rightarrow> int" where
  "neededWeight closePercent =
     (if closePercent < AV_MID_CONSENSUS_TIME then AV_INIT_CONSENSUS_PCT
      else if closePercent < AV_LATE_CONSENSUS_TIME then AV_MID_CONSENSUS_PCT
      else if closePercent < AV_STUCK_CONSENSUS_TIME then AV_LATE_CONSENSUS_PCT
      else AV_STUCK_CONSENSUS_PCT)"

lemma neededWeight_mono: "s \<le> t \<Longrightarrow> neededWeight s \<le> neededWeight t"
  by (simp add: neededWeight_def avalanche_defs)

section \<open>Lemmas\<close>

lemma le_int_div: "0 < q \<Longrightarrow> m \<le> x div q \<longleftrightarrow> m * q \<le> (x :: int)"
proof
  assume q: "0 < q"
  show "m \<le> x div q" if "m * q \<le> x" using zdiv_mono1 [OF that q] q by simp
  assume "m \<le> x div q"
  then have "m * q \<le> x div q * q" using q by (simp add: mult_right_mono)
  also have "\<dots> \<le> x" using div_mult_mod_eq [of x q] pos_mod_sign [OF q, of x] by linarith
  finally show "m * q \<le> x" .
qed

lemma consensus_reached_iff:
  "0 \<le> agreeing \<Longrightarrow> 0 \<le> proposing \<Longrightarrow> checkConsensusReached agreeing proposing \<longleftrightarrow> 81 * (proposing + 1) \<le> 100 * agreeing"
proof -
  assume a: "0 \<le> agreeing" "0 \<le> proposing"
  have "80 < agreeing * 100 div (proposing + 1) \<longleftrightarrow> 81 \<le> agreeing * 100 div (proposing + 1)" by linarith
  also have "\<dots> \<longleftrightarrow> 81 * (proposing + 1) \<le> agreeing * 100" using a by (intro le_int_div) simp
  finally show ?thesis using a by (simp add: checkConsensusReached_def timing_defs mult.commute)
qed

lemma consensus_reached_mono: "0 \<le> a \<Longrightarrow> 0 \<le> p \<Longrightarrow> a \<le> b \<Longrightarrow> checkConsensusReached a p \<Longrightarrow> checkConsensusReached b p"
  by (simp add: consensus_reached_iff)

lemma round_close_exact:
  assumes "0 < r" "unat t + unat r div 2 < 2 ^ 32" "t \<noteq> 0"
  shows "unat (roundCloseTime t r) = (unat t + unat r div 2) div unat r * unat r"
proof -
  let ?n = "unat t + unat r div 2"
  have n: "unat (t + r div 2) = ?n" using assms(2) by (simp add: unat_word_ariths unat_div)
  have "(t + r div 2) mod r \<le> t + r div 2" by (simp add: word_le_nat_alt unat_mod)
  then have "unat (t + r div 2 - (t + r div 2) mod r) = ?n - ?n mod unat r"
    using n by (simp add: unat_sub unat_mod)
  then show ?thesis using assms(3) by (simp add: roundCloseTime_def Let_def minus_mod_eq_div_mult)
qed

lemma find_index_nth: "find_index x xs = Some i \<Longrightarrow> i < length xs \<and> xs ! i = x"
  by (induction xs arbitrary: i) (auto split: if_splits)

lemma find_index_some: "x \<in> set xs \<Longrightarrow> \<exists>i. find_index x xs = Some i"
  by (induction xs) auto

lemma resolutions_sorted: "sorted_wrt (<) ledgerPossibleTimeResolutions"
  by (simp add: ledgerPossibleTimeResolutions_def)

lemma resolutions_pos: "r \<in> set ledgerPossibleTimeResolutions \<Longrightarrow> 10 \<le> r \<and> r \<le> 120"
  by (auto simp: ledgerPossibleTimeResolutions_def)

text \<open>Every sequence number takes part in the slower steps, every eighth in the faster ones.\<close>

lemma next_resolution_ok:
  assumes "r \<in> set ledgerPossibleTimeResolutions" "ledgerSeq \<noteq> 0"
  shows "\<exists>r'. getNextLedgerTimeResolution r agree ledgerSeq = Ok r' \<and> r' \<in> set ledgerPossibleTimeResolutions \<and>
    (agree \<longrightarrow> r' \<le> r) \<and> (\<not> agree \<longrightarrow> r \<le> r') \<and> (\<not> agree \<and> r \<noteq> 120 \<longrightarrow> r < r')"
proof -
  let ?l = ledgerPossibleTimeResolutions
  obtain i where i: "find_index r ?l = Some i" using find_index_some [OF assms(1)] by blast
  have n: "i < length ?l" "?l ! i = r" using find_index_nth [OF i] by auto
  have up: "?l ! i < ?l ! Suc i" if "Suc i \<noteq> length ?l"
    using that n(1) by (intro sorted_wrt_nth_less [OF resolutions_sorted]) auto
  have down: "?l ! (i - 1) < ?l ! i" if "i \<noteq> 0"
    using that n(1) by (intro sorted_wrt_nth_less [OF resolutions_sorted]) auto
  have mem: "?l ! j \<in> set ?l" if "j < length ?l" for j using that by (rule nth_mem)
  have top: "r = 120" if "Suc i = length ?l" using n that by (auto simp: ledgerPossibleTimeResolutions_def)
  show ?thesis
    using i n up down mem [of "Suc i"] mem [of "i - 1"] mem [of i] top assms(2)
    by (auto simp: getNextLedgerTimeResolution_def require_def decreaseLedgerTimeResolutionEvery_def)
qed

section \<open>Supermajorities\<close>

text \<open>
  What agreement rests on: two sets of validators that each reach the threshold have most of the validators in
  common. \<open>reached U Q\<close>: the validators \<open>Q\<close> of \<open>U\<close> reach it.
\<close>

locale supermajority =
  fixes reached :: "'a set \<Rightarrow> 'a set \<Rightarrow> bool"
  assumes overlap: "finite U \<Longrightarrow> Q \<subseteq> U \<Longrightarrow> Q' \<subseteq> U \<Longrightarrow> reached U Q \<Longrightarrow> reached U Q' \<Longrightarrow> 62 * card U \<le> 100 * card (Q \<inter> Q')"
    and grows: "finite U \<Longrightarrow> Q \<subseteq> Q' \<Longrightarrow> Q' \<subseteq> U \<Longrightarrow> reached U Q \<Longrightarrow> reached U Q'"
begin

text \<open>If two observers see different positions reach it, most validators told them different positions.\<close>

lemma disagreement:
  assumes "finite U" "reached U {v \<in> U. pos v = x}" "reached U {v \<in> U. pos' v = y}" "x \<noteq> y"
  shows "62 * card U \<le> 100 * card {v \<in> U. pos v \<noteq> pos' v}"
proof -
  have "{v \<in> U. pos v = x} \<inter> {v \<in> U. pos' v = y} \<subseteq> {v \<in> U. pos v \<noteq> pos' v}" using assms(4) by auto
  then have "card ({v \<in> U. pos v = x} \<inter> {v \<in> U. pos' v = y}) \<le> card {v \<in> U. pos v \<noteq> pos' v}" using assms(1) by (intro card_mono) auto
  then show ?thesis using overlap [OF assms(1) _ _ assms(2,3)] by fastforce
qed

lemma agreement:
  assumes "finite U" "U \<noteq> {}" "reached U {v \<in> U. pos v = x}" "reached U {v \<in> U. pos v = y}"
  shows "x = y"
  using disagreement [OF assms(1,3,4)] assms(1,2) by (cases "x = y") (simp_all add: card_gt_0_iff)

end

interpretation cr: supermajority "\<lambda>U Q. U \<noteq> {} \<and> checkConsensusReached (int (card Q)) (int (card U) - 1)"
proof (unfold_locales, goal_cases)
  case (1 U Q Q')
  have U: "card U > 0" using 1 by (simp add: card_gt_0_iff)
  have "81 * card U \<le> 100 * card Q" "81 * card U \<le> 100 * card Q'"
    using 1 U consensus_reached_iff [of "int (card Q)" "int (card U) - 1"] consensus_reached_iff [of "int (card Q')" "int (card U) - 1"] by auto
  moreover have "card Q + card Q' = card (Q \<union> Q') + card (Q \<inter> Q')" using 1 by (intro card_Un_Int) (auto intro: finite_subset)
  moreover have "card (Q \<union> Q') \<le> card U" using 1 by (intro card_mono) auto
  ultimately show ?case by linarith
next
  case (2 U Q Q')
  have "card Q \<le> card Q'" using 2 by (intro card_mono) (auto intro: finite_subset)
  then show ?case using 2 consensus_reached_mono [of "int (card Q)" "int (card U) - 1" "int (card Q')"] by (auto simp: card_gt_0_iff)
qed

text \<open>The threshold for close times: two different times cannot both reach it, except among two participants.\<close>

lemma ct_threshold:
  assumes "0 < n" "n \<noteq> 2"
  shows "n < 2 * participantsNeeded n AV_CT_CONSENSUS_PCT"
proof -
  have p: "participantsNeeded n AV_CT_CONSENSUS_PCT = max 1 ((n * 75 + 37) div 100)"
    using assms by (auto simp: participantsNeeded_def AV_CT_CONSENSUS_PCT_def Let_def max_def)
  show ?thesis
  proof (cases "n = 1")
    case False
    then have "n \<ge> 3" using assms by linarith
    moreover have "n * 75 + 37 = 100 * ((n * 75 + 37) div 100) + (n * 75 + 37) mod 100" by (rule mult_div_mod_eq [symmetric])
    moreover have "(n * 75 + 37) mod 100 < 100" by simp
    ultimately show ?thesis unfolding p by (cases "n = 3") (simp, linarith)
  qed (use p in simp)
qed

section \<open>Properties\<close>

text \<open>
  Rounding a close time to a resolution gives the nearest multiple of the resolution, at most half a
  resolution away, as long as adding half of it does not wrap around 32 bits; zero stays zero.
\<close>

theorem roundCloseTime_nearest:
  assumes "0 < r" "unat t + unat r div 2 < 2 ^ 32"
  shows "unat r dvd unat (roundCloseTime t r) \<and> (t = 0 \<longrightarrow> roundCloseTime t r = 0) \<and>
    unat (roundCloseTime t r) \<le> unat t + unat r div 2 \<and> unat t < unat (roundCloseTime t r) + (unat r + 1) div 2"
proof (cases "t = 0")
  case True
  moreover have "0 < unat r" using assms(1) by (simp add: word_less_nat_alt)
  then have "0 < (unat r + 1) div 2" by simp
  ultimately show ?thesis by (simp add: roundCloseTime_def)
next
  case False
  let ?n = "unat t + unat r div 2"
  have e: "unat (roundCloseTime t r) = ?n div unat r * unat r" by (rule round_close_exact [OF assms False])
  have "0 < unat r" using assms(1) by (simp add: word_less_nat_alt)
  then have "?n mod unat r < unat r" by simp
  moreover have "?n = ?n div unat r * unat r + ?n mod unat r" by simp
  ultimately have "?n < unat (roundCloseTime t r) + unat r" "unat (roundCloseTime t r) \<le> ?n" unfolding e by linarith+
  then show ?thesis using False e by auto
qed

theorem roundCloseTime_nearest_witness: "unat (30 :: u32) dvd unat (roundCloseTime 1005 30)"
proof -
  have "(0 :: u32) < 30" "unat (1005 :: u32) + unat (30 :: u32) div 2 < 2 ^ 32" by simp_all
  then show ?thesis using roundCloseTime_nearest [of 30 1005] by blast
qed

end
