(* ===== verification/DisputedTx.thy ===== *)
theory DisputedTx
  imports LedgerTiming OrdMap
begin

text \<open>
  A transaction in dispute (\<open>app/ledger/impl/DisputedTx.cpp\<close>): the votes of the peers, their counts and our own
  vote. The \<open>hash_map\<close> of votes is an ordered map; no operation depends on its order.
\<close>

section \<open>Operations\<close>

type_synonym NodeID = uint160

record DisputedTx =
  mTransactionID :: uint256
  mYays :: int
  mNays :: int
  mOurVote :: bool
  transaction :: "8 word list"
  mVotes :: "(NodeID, bool) omap"

definition DisputedTx_make :: "uint256 \<Rightarrow> 8 word list \<Rightarrow> bool \<Rightarrow> DisputedTx" where
  "DisputedTx_make txID tx ourVote =
     \<lparr>mTransactionID = txID, mYays = 0, mNays = 0, mOurVote = ourVote, transaction = tx, mVotes = []\<rparr>"

definition setOurVote :: "bool \<Rightarrow> DisputedTx \<Rightarrow> DisputedTx" where
  "setOurVote v d = d\<lparr>mOurVote := v\<rparr>"

definition setVote :: "NodeID \<Rightarrow> bool \<Rightarrow> DisputedTx \<Rightarrow> DisputedTx" where
  "setVote peer votesYes d =
     (case map_of (mVotes d) peer of
        None \<Rightarrow>
          let d = d\<lparr>mVotes := om_put peer votesYes (mVotes d)\<rparr> in
          if votesYes then d\<lparr>mYays := mYays d + 1\<rparr> else d\<lparr>mNays := mNays d + 1\<rparr>
      | Some old \<Rightarrow>
          if votesYes \<and> \<not> old then
            d\<lparr>mNays := mNays d - 1, mYays := mYays d + 1, mVotes := om_put peer True (mVotes d)\<rparr>
          else if \<not> votesYes \<and> old then
            d\<lparr>mNays := mNays d + 1, mYays := mYays d - 1, mVotes := om_put peer False (mVotes d)\<rparr>
          else d)"

definition unVote :: "NodeID \<Rightarrow> DisputedTx \<Rightarrow> DisputedTx" where
  "unVote peer d =
     (case map_of (mVotes d) peer of
        None \<Rightarrow> d
      | Some v \<Rightarrow>
          let d = (if v then d\<lparr>mYays := mYays d - 1\<rparr> else d\<lparr>mNays := mNays d - 1\<rparr>) in
          d\<lparr>mVotes := om_del peer (mVotes d)\<rparr>)"

text \<open>\<open>updateVote\<close> returns whether our vote changed.\<close>

definition vote_weight :: "DisputedTx \<Rightarrow> int" where
  "vote_weight d = cdiv (mYays d * 100 + (if mOurVote d then 100 else 0)) (mNays d + mYays d + 1)"

definition updateVote :: "int \<Rightarrow> bool \<Rightarrow> DisputedTx \<Rightarrow> bool \<times> DisputedTx" where
  "updateVote percentTime proposing d =
     (if mOurVote d \<and> mNays d = 0 then (False, d)
      else if \<not> mOurVote d \<and> mYays d = 0 then (False, d)
      else
        let newPosition =
              (if proposing then
                 let weight = vote_weight d in
                 if percentTime < AV_MID_CONSENSUS_TIME then weight > AV_INIT_CONSENSUS_PCT
                 else if percentTime < AV_LATE_CONSENSUS_TIME then weight > AV_MID_CONSENSUS_PCT
                 else if percentTime < AV_STUCK_CONSENSUS_TIME then weight > AV_LATE_CONSENSUS_PCT
                 else weight > AV_STUCK_CONSENSUS_PCT
               else mYays d > mNays d)
        in if newPosition = mOurVote d then (False, d) else (True, d\<lparr>mOurVote := newPosition\<rparr>))"

section \<open>The counts are the votes\<close>

definition count_votes :: "bool \<Rightarrow> ('k, bool) omap \<Rightarrow> int" where
  "count_votes v m = int (length (filter (\<lambda>x. snd x = v) m))"

definition dispute_ok :: "DisputedTx \<Rightarrow> bool" where
  "dispute_ok d \<longleftrightarrow> om_ok (mVotes d) \<and> mYays d = count_votes True (mVotes d) \<and> mNays d = count_votes False (mVotes d)"

lemma count_votes_nonneg [simp]: "0 \<le> count_votes v m"
  by (simp add: count_votes_def)

lemma count_votes_put:
  "om_ok m \<Longrightarrow> count_votes v (om_put k w m) =
    count_votes v m + (if w = v then 1 else 0) - (if map_of m k = Some v then 1 else 0)"
proof (induction m)
  case (Cons x m)
  obtain k' v' where x: "x = (k', v')" by (cases x)
  have ok: "om_ok m" using Cons.prems om_ok_ConsD by blast
  show ?case
  proof (cases "k < k'")
    case True
    then have "map_of m k = None" using Cons.prems x by (auto simp: om_ok_Cons map_of_eq_None_iff)
    then show ?thesis using True x by (auto simp: count_votes_def)
  next
    case False
    then show ?thesis using Cons.IH [OF ok] x om_ok_distinct [OF Cons.prems]
      by (auto simp: count_votes_def map_of_eq_None_iff)
  qed
qed (simp add: count_votes_def)

lemma count_votes_del:
  "om_ok m \<Longrightarrow> count_votes v (om_del k m) = count_votes v m - (if map_of m k = Some v then 1 else 0)"
proof (induction m)
  case (Cons x m)
  obtain k' v' where x: "x = (k', v')" by (cases x)
  have ok: "om_ok m" using Cons.prems om_ok_ConsD by blast
  have "k' \<notin> fst ` set m" using om_ok_distinct [OF Cons.prems] x by simp
  then have "map_of m k' = None" "filter (\<lambda>(k, _). k \<noteq> k') m = m" by (force simp: map_of_eq_None_iff filter_id_conv)+
  then show ?case using Cons.IH [OF ok] x by (auto simp: count_votes_def om_del_def)
qed (simp add: count_votes_def om_del_def)

lemma setVote_votes: "dispute_ok d \<Longrightarrow> map_of (mVotes (setVote p v d)) = (map_of (mVotes d))(p \<mapsto> v)"
  by (auto simp: setVote_def dispute_ok_def Let_def split: option.splits)

lemma setVote_ok: "dispute_ok d \<Longrightarrow> dispute_ok (setVote p v d)"
  by (auto simp: setVote_def dispute_ok_def Let_def om_put_ok count_votes_put split: option.splits)

lemma setVote_fields [simp]:
  "mTransactionID (setVote p v d) = mTransactionID d" "mOurVote (setVote p v d) = mOurVote d" "transaction (setVote p v d) = transaction d"
  by (auto simp: setVote_def Let_def split: option.splits)

lemma unVote_votes: "map_of (mVotes (unVote p d)) = (map_of (mVotes d))(p := None)"
  by (auto simp: unVote_def Let_def split: option.splits)

lemma unVote_ok: "dispute_ok d \<Longrightarrow> dispute_ok (unVote p d)"
  by (auto simp: unVote_def dispute_ok_def Let_def om_del_ok count_votes_del split: option.splits)

lemma unVote_fields [simp]:
  "mTransactionID (unVote p d) = mTransactionID d" "mOurVote (unVote p d) = mOurVote d" "transaction (unVote p d) = transaction d"
  by (auto simp: unVote_def Let_def split: option.splits)

lemma DisputedTx_make_ok [simp]: "dispute_ok (DisputedTx_make txID tx v)"
  by (simp add: dispute_ok_def DisputedTx_make_def count_votes_def)

lemma DisputedTx_make_fields [simp]:
  "mTransactionID (DisputedTx_make txID tx v) = txID" "mOurVote (DisputedTx_make txID tx v) = v"
  "transaction (DisputedTx_make txID tx v) = tx" "mVotes (DisputedTx_make txID tx v) = []"
  by (simp_all add: DisputedTx_make_def)

lemma updateVote_fields:
  "updateVote t p d = (b, d') \<Longrightarrow> d' = d\<lparr>mOurVote := mOurVote d'\<rparr> \<and> (b \<longleftrightarrow> mOurVote d' \<noteq> mOurVote d)"
  by (auto simp: updateVote_def Let_def split: if_splits)

lemma updateVote_ok: "dispute_ok d \<Longrightarrow> updateVote t p d = (b, d') \<Longrightarrow> dispute_ok d'"
  using updateVote_fields [of t p d b d'] by (cases d, cases d') (simp add: dispute_ok_def)

section \<open>The avalanche\<close>

lemma vote_weight_mono:
  assumes "dispute_ok d"
  shows "vote_weight (d\<lparr>mOurVote := False\<rparr>) \<le> vote_weight (d\<lparr>mOurVote := True\<rparr>)"
  using assms by (simp add: vote_weight_def dispute_ok_def zdiv_mono1)

text \<open>Our new vote as a function of the old one.\<close>

definition next_vote :: "int \<Rightarrow> bool \<Rightarrow> DisputedTx \<Rightarrow> bool" where
  "next_vote t proposing d =
     (if mOurVote d \<and> mNays d = 0 then True else if \<not> mOurVote d \<and> mYays d = 0 then False
      else if proposing then vote_weight d > neededWeight t else mYays d > mNays d)"

lemma updateVote_eq: "updateVote t p d = (next_vote t p d \<noteq> mOurVote d, d\<lparr>mOurVote := next_vote t p d\<rparr>)"
  by (cases d) (auto simp: updateVote_def next_vote_def neededWeight_def Let_def)

lemma next_vote_settles:
  assumes "dispute_ok d" "s \<le> t"
  shows "\<not> next_vote s p d \<Longrightarrow> \<not> next_vote t p (d\<lparr>mOurVote := False\<rparr>)" "next_vote t p d \<Longrightarrow> next_vote t p (d\<lparr>mOurVote := True\<rparr>)"
  using vote_weight_mono [OF assms(1)] neededWeight_mono [OF assms(2)]
  by (cases d, cases "mOurVote d", auto simp: next_vote_def split: if_splits)+

lemma keep_vote [simp]: "mOurVote d \<Longrightarrow> d\<lparr>mOurVote := True\<rparr> = (d :: DisputedTx)" "\<not> mOurVote d \<Longrightarrow> d\<lparr>mOurVote := False\<rparr> = (d :: DisputedTx)"
  by (cases d, simp)+

text \<open>The number of times our vote changes while the peers' votes stay as they are.\<close>

fun vote_changes :: "int list \<Rightarrow> bool \<Rightarrow> DisputedTx \<Rightarrow> nat" where
  "vote_changes [] p d = 0"
| "vote_changes (t # ts) p d = (case updateVote t p d of (b, d) \<Rightarrow> (if b then 1 else 0) + vote_changes ts p d)"

lemma changes_no:
  assumes "dispute_ok d" "\<not> mOurVote d" "\<not> next_vote s p d" "\<forall>t \<in> set ts. s \<le> t"
  shows "vote_changes ts p d = 0"
  using assms(4)
proof (induction ts)
  case (Cons t ts)
  have "\<not> next_vote t p d" using next_vote_settles(1) [OF assms(1), of s t p] assms(2,3) Cons.prems by simp
  then show ?case using Cons assms(2) by (simp add: updateVote_eq)
qed simp

lemma changes_yes: "dispute_ok d \<Longrightarrow> mOurVote d \<Longrightarrow> sorted ts \<Longrightarrow> vote_changes ts p d \<le> 1"
proof (induction ts)
  case (Cons t ts)
  show ?case
  proof (cases "next_vote t p d")
    case True
    then show ?thesis using Cons by (simp add: updateVote_eq)
  next
    case False
    let ?d = "d\<lparr>mOurVote := False\<rparr>"
    have "dispute_ok ?d" using Cons.prems(1) by (simp add: dispute_ok_def)
    then have "vote_changes ts p ?d = 0"
      using changes_no [of ?d t p ts] next_vote_settles(1) [OF Cons.prems(1) order_refl False] Cons.prems(3) by simp
    then show ?thesis using False by (simp add: updateVote_eq)
  qed
qed simp

lemma changes_at_most_two:
  assumes "dispute_ok d" "sorted ts"
  shows "vote_changes ts p d \<le> 2"
proof (cases "mOurVote d")
  case True
  then show ?thesis using changes_yes [OF assms(1) _ assms(2), of p] by simp
next
  case False
  show ?thesis
  proof (cases ts)
    case (Cons t ts')
    show ?thesis
    proof (cases "next_vote t p d")
      case True
      have "dispute_ok (d\<lparr>mOurVote := True\<rparr>)" using assms(1) by (simp add: dispute_ok_def)
      then have "vote_changes ts' p (d\<lparr>mOurVote := True\<rparr>) \<le> 1" using changes_yes assms(2) Cons by simp
      then show ?thesis using Cons True False by (simp add: updateVote_eq)
    next
      case n: False
      then have "vote_changes ts' p d = 0" using changes_no [OF assms(1) False n] assms(2) Cons by simp
      then show ?thesis using Cons n False by (simp add: updateVote_eq)
    qed
  qed simp
qed

section \<open>Properties\<close>

text \<open>
  C39. The avalanche does not oscillate: while the votes of the peers stay as they are and time advances,
  \<open>updateVote\<close> changes our vote on a disputed transaction at most twice.
\<close>

theorem avalanche_settles:
  assumes "dispute_ok d" "sorted ts"
  shows "vote_changes ts proposing d \<le> 2"
  by (rule changes_at_most_two [OF assms])

definition sample_dispute :: DisputedTx where
  "sample_dispute = setVote 1 True (setVote 2 True (setVote 3 False (DisputedTx_make 7 [] False)))"

theorem avalanche_settles_witness: "vote_changes [0, 60, 90, 300] True sample_dispute \<le> 2"
  using avalanche_settles [of sample_dispute "[0, 60, 90, 300]" True]
  by (simp add: sample_dispute_def setVote_ok)

end
