(* ===== verification/SHAMap_Delta.thy ===== *)
theory SHAMap_Delta
  imports SHAMap_Map
begin

text \<open>
  \<open>SHAMap::compare\<close> and \<open>walkBranch\<close> (\<open>shamap/impl/SHAMapDelta.cpp\<close>): the differences between two maps, found
  without descending into branches whose hashes are equal. A \<open>Delta\<close> is a \<open>std::map\<close> from keys to the items
  on the two sides; the count of differences that may still be added is an \<open>int\<close>. The stacks are lists, top
  first.
\<close>

section \<open>Operations\<close>

type_synonym DeltaRef = "SHAMapItem option \<times> SHAMapItem option"
type_synonym Delta = "(uint256, DeltaRef) omap"

text \<open>\<open>differences.insert (...); if (--maxCount <= 0) return false;\<close>\<close>

definition add_difference :: "uint256 \<Rightarrow> DeltaRef \<Rightarrow> Delta \<times> int \<Rightarrow> bool \<times> Delta \<times> int" where
  "add_difference k v s =
     (let (differences, maxCount) = s;
          differences = (if map_of differences k = None then om_put k v differences else differences);
          maxCount = maxCount - 1
      in (maxCount > 0, differences, maxCount))"

text \<open>An item of the first or of the second map, and the other map's.\<close>

definition delta_ref :: "bool \<Rightarrow> SHAMapItem option \<Rightarrow> SHAMapItem option \<Rightarrow> DeltaRef" where
  "delta_ref isFirstMap item other = (if isFirstMap then (item, other) else (other, item))"

text \<open>A leaf met by \<open>walkBranch\<close>: whether to go on, and \<open>emptyBranch\<close>.\<close>

definition walk_leaf :: "SHAMapItem option \<Rightarrow> bool \<Rightarrow> bool \<Rightarrow> SHAMapItem \<Rightarrow> Delta \<times> int \<Rightarrow> bool \<times> bool \<times> Delta \<times> int" where
  "walk_leaf other isFirstMap emptyBranch item s =
     (if emptyBranch \<or> map_option item_key other \<noteq> Some (item_key item) then
        let (ok, s) = add_difference (item_key item) (delta_ref isFirstMap (Some item) None) s in (ok, emptyBranch, s)
      else if map_option item_data other \<noteq> Some (item_data item) then
        let (ok, s) = add_difference (item_key item) (delta_ref isFirstMap (Some item) other) s in (ok, ok, s)
      else (True, True, s))"

abbreviation stack_size :: "node list \<Rightarrow> nat" where
  "stack_size st \<equiv> sum_list (map (\<lambda>n. size n + 1) st)"

lemma size_children: "stack_size (count_nonempty cs) \<le> size_list (size_option size) cs"
  by (induction cs rule: count_nonempty.induct) auto

lemma size_rev_children [simp]: "stack_size (rev (count_nonempty cs)) < Suc (size_list (size_option size) cs + 1)"
  using size_children [of cs] by (simp only: rev_map [symmetric] sum_list_rev)

text \<open>The loop of \<open>walkBranch\<close>.\<close>

function walk_loop :: "SHAMapItem option \<Rightarrow> bool \<Rightarrow> bool \<Rightarrow> node list \<Rightarrow> Delta \<times> int \<Rightarrow> bool \<times> bool \<times> Delta \<times> int" where
  "walk_loop other isFirstMap emptyBranch [] s = (True, emptyBranch, s)"
| "walk_loop other isFirstMap emptyBranch (Inner cs # nodeStack) s =
     walk_loop other isFirstMap emptyBranch (rev (count_nonempty cs) @ nodeStack) s"
| "walk_loop other isFirstMap emptyBranch (Leaf item t # nodeStack) s =
     (case walk_leaf other isFirstMap emptyBranch item s of
        (True, emptyBranch, s) \<Rightarrow> walk_loop other isFirstMap emptyBranch nodeStack s
      | (False, emptyBranch, s) \<Rightarrow> (False, emptyBranch, s))"
  by pat_completeness auto
termination
  by (relation "measure (\<lambda>(_, _, _, st, _). stack_size st)") (auto simp del: One_nat_def)

definition walkBranch :: "node \<Rightarrow> SHAMapItem option \<Rightarrow> bool \<Rightarrow> Delta \<times> int \<Rightarrow> bool \<times> Delta \<times> int" where
  "walkBranch n other isFirstMap s =
     (case walk_loop other isFirstMap (other = None) [n] s of
        (False, _, s) \<Rightarrow> (False, s)
      | (True, emptyBranch, s) \<Rightarrow>
          (case (emptyBranch, other) of
             (False, Some o') \<Rightarrow> add_difference (item_key o') (delta_ref isFirstMap None other) s
           | _ \<Rightarrow> (True, s)))"

text \<open>The loop over the branches \<open>is\<close> of two inner nodes, and its body; \<open>stack\<close> gets the pairs it pushes.\<close>

definition branch_step :: "(blob \<Rightarrow> uint256) \<Rightarrow> node option list \<Rightarrow> node option list \<Rightarrow> nat \<Rightarrow> (node \<times> node) list \<Rightarrow> Delta \<times> int \<Rightarrow>
    bool \<times> (node \<times> node) list \<times> Delta \<times> int" where
  "branch_step sha ours other i stack s =
     (if child_hash sha ours i = child_hash sha other i then (True, stack, s)
      else case (getChild ours i, getChild other i) of
          (Some a, None) \<Rightarrow> let (ok, s) = walkBranch a None True s in (ok, stack, s)
        | (None, Some b) \<Rightarrow> let (ok, s) = walkBranch b None False s in (ok, stack, s)
        | (Some a, Some b) \<Rightarrow> (True, (a, b) # stack, s)
        | (None, None) \<Rightarrow> (True, stack, s))"

fun branch_loop :: "(blob \<Rightarrow> uint256) \<Rightarrow> node option list \<Rightarrow> node option list \<Rightarrow> nat list \<Rightarrow> (node \<times> node) list \<Rightarrow> Delta \<times> int \<Rightarrow>
    bool \<times> (node \<times> node) list \<times> Delta \<times> int" where
  "branch_loop sha ours other [] stack s = (True, stack, s)"
| "branch_loop sha ours other (i # is) stack s =
     (case branch_step sha ours other i stack s of
        (True, stack, s) \<Rightarrow> branch_loop sha ours other is stack s
      | (False, stack, s) \<Rightarrow> (False, stack, s))"

definition compare_leaves :: "SHAMapItem \<Rightarrow> SHAMapItem \<Rightarrow> Delta \<times> int \<Rightarrow> bool \<times> Delta \<times> int" where
  "compare_leaves ours other s =
     (if item_key ours = item_key other then
        if item_data ours \<noteq> item_data other then add_difference (item_key ours) (Some ours, Some other) s else (True, s)
      else
        let (ok, s) = add_difference (item_key ours) (Some ours, None) s in
        if ok then add_difference (item_key other) (None, Some other) s else (False, s))"


definition child_size :: "node option list \<Rightarrow> nat \<Rightarrow> nat" where
  "child_size cs i = (case getChild cs i of None \<Rightarrow> 0 | Some c \<Rightarrow> size c + 1)"

lemma child_sizes: "sum_list (map (child_size cs) [0..<n]) \<le> stack_size (count_nonempty cs)"
proof (induction cs arbitrary: n)
  case Nil
  then show ?case by (simp add: child_size_def getChild_def)
next
  case (Cons c cs)
  show ?case
  proof (cases n)
    case (Suc k)
    have "map (child_size (c # cs)) [0..<n] = child_size (c # cs) 0 # map (child_size cs) [0..<k]"
      unfolding Suc by (simp add: upt_conv_Cons map_Suc_upt [symmetric] del: upt_Suc) (simp add: child_size_def getChild_def)
    then have "sum_list (map (child_size (c # cs)) [0..<n]) = child_size (c # cs) 0 + sum_list (map (child_size cs) [0..<k])"
      by (simp only: sum_list.Cons)
    moreover have "child_size (c # cs) 0 = (case c of None \<Rightarrow> 0 | Some x \<Rightarrow> size x + 1)" by (simp add: child_size_def getChild_def)
    ultimately show ?thesis using Cons.IH [of k] by (cases c) simp_all
  qed simp
qed

lemma step_size:
  "branch_step sha ours other i stack s = (ok, stack', s') \<Longrightarrow> stack_size (map fst stack') \<le> stack_size (map fst stack) + child_size ours i"
  by (auto simp: branch_step_def child_size_def split: if_splits option.splits prod.splits)

lemma pushed_size:
  "branch_loop sha ours other is stack s = (ok, stack', s') \<Longrightarrow>
    stack_size (map fst stack') \<le> stack_size (map fst stack) + sum_list (map (child_size ours) is)"
proof (induction "is" arbitrary: stack s)
  case (Cons i "is")
  obtain b stk s1 where st: "branch_step sha ours other i stack s = (b, stk, s1)" by (metis prod_cases3)
  show ?case using step_size [OF st] Cons.IH [of stk s1] Cons.prems st by (cases b) auto
qed simp

lemma pushed_less:
  assumes "branch_loop sha cs cs' [0..<16] stack s = (ok, stack', s')"
  shows "stack_size (map fst stack') < stack_size (map fst ((Inner cs, b) # stack))"
  using pushed_size [OF assms] child_sizes [of cs 16] size_children [of cs] by simp

function compare_loop :: "(blob \<Rightarrow> uint256) \<Rightarrow> (node \<times> node) list \<Rightarrow> Delta \<times> int \<Rightarrow> bool \<times> Delta \<times> int" where
  "compare_loop sha [] s = (True, s)"
| "compare_loop sha ((Leaf ours _, Leaf other _) # stack) s =
     (case compare_leaves ours other s of (True, s) \<Rightarrow> compare_loop sha stack s | (False, s) \<Rightarrow> (False, s))"
| "compare_loop sha ((Inner cs, Leaf other _) # stack) s =
     (case walkBranch (Inner cs) (Some other) True s of (True, s) \<Rightarrow> compare_loop sha stack s | (False, s) \<Rightarrow> (False, s))"
| "compare_loop sha ((Leaf ours _, Inner cs) # stack) s =
     (case walkBranch (Inner cs) (Some ours) False s of (True, s) \<Rightarrow> compare_loop sha stack s | (False, s) \<Rightarrow> (False, s))"
| "compare_loop sha ((Inner cs, Inner cs') # stack) s =
     (case branch_loop sha cs cs' [0..<16] stack s of (True, stack, s) \<Rightarrow> compare_loop sha stack s | (False, _, s) \<Rightarrow> (False, s))"
  by pat_completeness auto
termination
  by (relation "measure (\<lambda>(_, st, _). stack_size (map fst st))") (auto dest!: sym [of _ "branch_loop _ _ _ _ _ _"] pushed_less simp del: One_nat_def)

text \<open>\<open>compare\<close>, called with an empty table of differences, as every caller does.\<close>

definition compare :: "(blob \<Rightarrow> uint256) \<Rightarrow> node \<Rightarrow> node \<Rightarrow> int \<Rightarrow> bool \<times> Delta" where
  "compare sha ours other maxCount =
     (if getNodeHash sha ours = getNodeHash sha other then (True, [])
      else case compare_loop sha [(ours, other)] ([], maxCount) of (ok, differences, _) \<Rightarrow> (ok, differences))"

end
