(* ===== verification/SHAMap_Compare.thy ===== *)
theory SHAMap_Compare
  imports SHAMap_Delta "HOL-Library.Multiset"
begin

text \<open>
  \<open>compare\<close> returns exactly the differences between two maps: it adds a list of differences one by one
  (\<open>emit\<close>), and that list has one entry for every key at which the maps differ.
\<close>

section \<open>Adding differences one by one\<close>

fun emit :: "(uint256 \<times> DeltaRef) list \<Rightarrow> Delta \<times> int \<Rightarrow> bool \<times> Delta \<times> int" where
  "emit [] s = (True, s)"
| "emit ((k, v) # ds) s = (case add_difference k v s of (True, s) \<Rightarrow> emit ds s | (False, s) \<Rightarrow> (False, s))"

lemma emit_append: "emit (xs @ ys) s = (case emit xs s of (True, s) \<Rightarrow> emit ys s | (False, s) \<Rightarrow> (False, s))"
proof (induction xs arbitrary: s)
  case (Cons x xs)
  then show ?case by (cases x) (auto split: prod.splits bool.splits)
qed simp

lemma emit_single [simp]: "emit [(k, v)] s = add_difference k v s"
  by (auto split: prod.splits bool.splits)

lemma map_add_Cons: "k \<notin> fst ` set ds \<Longrightarrow> m(k \<mapsto> v) ++ map_of ds = m ++ map_of ((k, v) # ds)"
  using map_add_upd_left [of k "map_of ds" m v] by (simp add: dom_map_of_conv_image_fst)

lemma emit_all:
  "distinct (map fst ds) \<Longrightarrow> om_ok D \<Longrightarrow> \<forall>d \<in> set ds. map_of D (fst d) = None \<Longrightarrow> 0 < n \<Longrightarrow>
    \<exists>D' n'. emit ds (D, n) = (int (length ds) < n, D', n') \<and>
      (int (length ds) < n \<longrightarrow> map_of D' = map_of D ++ map_of ds) \<and> map_of D' \<subseteq>\<^sub>m map_of D ++ map_of ds"
proof (induction ds arbitrary: D n)
  case (Cons d ds)
  obtain k v where d: "d = (k, v)" by (cases d)
  have k: "k \<notin> fst ` set ds" "map_of D k = None" using Cons.prems d by auto
  let ?D = "om_put k v D"
  have add: "add_difference k v (D, n) = (0 < n - 1, ?D, n - 1)" using k by (simp add: add_difference_def)
  have m: "map_of ?D ++ map_of ds = map_of D ++ map_of (d # ds)" using map_add_Cons [OF k(1)] Cons.prems(2) d by simp
  show ?case
  proof (cases "0 < n - 1")
    case False
    have "map_of ds x = None" if x: "x \<in> dom (map_of ?D)" for x
    proof -
      have "x = k \<or> map_of D x \<noteq> None" using x Cons.prems(2) by (auto split: if_splits)
      moreover have "map_of D y = None" if "y \<in> fst ` set ds" for y using Cons.prems(3) that by auto
      ultimately show ?thesis using k by (metis map_of_eq_None_iff)
    qed
    then have "map_of ?D \<subseteq>\<^sub>m map_of ?D ++ map_of ds" by (simp add: map_le_def map_add_def)
    then have le: "map_of ?D \<subseteq>\<^sub>m map_of D ++ map_of (d # ds)" unfolding m .
    have "emit (d # ds) (D, n) = (False, ?D, n - 1)" "\<not> int (length (d # ds)) < n" using add False d by auto
    then show ?thesis using le by (intro exI [of _ ?D] exI [of _ "n - 1"]) (simp only: simp_thms)
  next
    case True
    have "\<forall>e \<in> set ds. map_of ?D (fst e) = None" using Cons.prems k d by auto
    then obtain D' n' where "emit ds (?D, n - 1) = (int (length ds) < n - 1, D', n')"
      "int (length ds) < n - 1 \<longrightarrow> map_of D' = map_of ?D ++ map_of ds" "map_of D' \<subseteq>\<^sub>m map_of ?D ++ map_of ds"
      using Cons.IH [of ?D "n - 1", OF _ om_put_ok] Cons.prems(1,2) True unfolding list.map distinct.simps by blast
    moreover have "emit (d # ds) (D, n) = emit ds (?D, n - 1)" "int (length (d # ds)) < n \<longleftrightarrow> int (length ds) < n - 1"
      using add True d by auto
    ultimately show ?thesis unfolding m [symmetric] by (intro exI [of _ D'] exI [of _ n'] conjI) (simp_all only: simp_thms)
  qed
qed simp

declare emit.simps(2) [simp del]

section \<open>A branch against an item\<close>

text \<open>The differences \<open>walkBranch\<close> adds for the items it meets.\<close>

definition unmatched :: "bool \<Rightarrow> SHAMapItem \<Rightarrow> uint256 \<times> DeltaRef" where
  "unmatched first it = (item_key it, delta_ref first (Some it) None)"

definition misses :: "SHAMapItem option \<Rightarrow> bool \<Rightarrow> SHAMapItem \<Rightarrow> bool" where
  "misses other e it \<longleftrightarrow> e \<or> map_option item_key other \<noteq> Some (item_key it)"

definition leaf_diffs :: "SHAMapItem option \<Rightarrow> bool \<Rightarrow> bool \<Rightarrow> SHAMapItem \<Rightarrow> (uint256 \<times> DeltaRef) list" where
  "leaf_diffs other first e it =
     (if misses other e it then [unmatched first it]
      else if map_option item_data other \<noteq> Some (item_data it) then [(item_key it, delta_ref first (Some it) other)] else [])"

fun walk_diffs :: "SHAMapItem option \<Rightarrow> bool \<Rightarrow> bool \<Rightarrow> SHAMapItem list \<Rightarrow> (uint256 \<times> DeltaRef) list" where
  "walk_diffs other first e [] = []"
| "walk_diffs other first e (it # its) = leaf_diffs other first e it @ walk_diffs other first (misses other e it \<longrightarrow> e) its"

fun walk_empty :: "SHAMapItem option \<Rightarrow> bool \<Rightarrow> SHAMapItem list \<Rightarrow> bool" where
  "walk_empty other e [] = e"
| "walk_empty other e (it # its) = walk_empty other (misses other e it \<longrightarrow> e) its"

definition stack_items :: "node list \<Rightarrow> SHAMapItem list" where
  "stack_items st = concat (map (\<lambda>n. rev (map fst (leaves n))) st)"

lemma stack_items_Inner: "stack_items (Inner cs # st) = stack_items (rev (count_nonempty cs) @ st)"
proof -
  have "rev (map fst (concat (map leaves ns))) = concat (map (\<lambda>n. rev (map fst (leaves n))) (rev ns))" for ns
    by (induction ns) auto
  then show ?thesis by (simp add: stack_items_def leaves.simps(2))
qed

lemma walk_leaf_emit:
  "walk_leaf other first e it s =
    (case emit (leaf_diffs other first e it) s of (ok, s') \<Rightarrow> (ok, if misses other e it then e else ok, s'))"
  unfolding walk_leaf_def leaf_diffs_def misses_def [symmetric] unmatched_def Let_def
  by (cases "misses other e it"; cases "map_option item_data other = Some (item_data it)") (simp_all add: if_not_P)

lemma walk_loop_emit:
  "\<exists>e'. walk_loop other first e st s =
    (case emit (walk_diffs other first e (stack_items st)) s of
       (True, s') \<Rightarrow> (True, walk_empty other e (stack_items st), s') | (False, s') \<Rightarrow> (False, e', s'))"
proof (induction other first e st s rule: walk_loop.induct)
  case (1 other first e s)
  then show ?case by (simp add: stack_items_def)
next
  case (2 other first e cs st s)
  then show ?case by (simp only: walk_loop.simps stack_items_Inner)
next
  case (3 other first e it t st s)
  have st: "stack_items (Leaf it t # st) = it # stack_items st" by (simp add: stack_items_def)
  obtain ok s1 where em: "emit (leaf_diffs other first e it) s = (ok, s1)" by (cases "emit (leaf_diffs other first e it) s")
  have wl: "walk_leaf other first e it s = (ok, if misses other e it then e else ok, s1)" by (simp add: walk_leaf_emit em)
  show ?case
  proof (cases ok)
    case False
    then show ?thesis using wl em by (simp add: st emit_append)
  next
    case True
    have "(if misses other e it then e else ok) = (misses other e it \<longrightarrow> e)" using True by auto
    then show ?thesis
      using "3.IH" [of ok "(misses other e it \<longrightarrow> e, s1)" "misses other e it \<longrightarrow> e" s1] wl em True
      unfolding st walk_diffs.simps walk_empty.simps emit_append walk_loop.simps by simp
  qed
qed

section \<open>The differences of two sets of items\<close>

definition diffs :: "SHAMapItem set \<Rightarrow> SHAMapItem set \<Rightarrow> (uint256 \<times> DeltaRef) set" where
  "diffs A B = {(item_key a, (Some a, None)) | a. a \<in> A \<and> item_key a \<notin> item_key ` B} \<union>
     {(item_key b, (None, Some b)) | b. b \<in> B \<and> item_key b \<notin> item_key ` A} \<union>
     {(item_key a, (Some a, Some b)) | a b. a \<in> A \<and> b \<in> B \<and> item_key a = item_key b \<and> a \<noteq> b}"

lemma in_diffs:
  "(k, x, y) \<in> diffs A B \<longleftrightarrow> (case (x, y) of
      (Some a, None) \<Rightarrow> a \<in> A \<and> item_key a = k \<and> (\<forall>b \<in> B. item_key b \<noteq> k)
    | (None, Some b) \<Rightarrow> b \<in> B \<and> item_key b = k \<and> (\<forall>a \<in> A. item_key a \<noteq> k)
    | (Some a, Some b) \<Rightarrow> a \<in> A \<and> b \<in> B \<and> item_key a = k \<and> item_key b = k \<and> a \<noteq> b
    | (None, None) \<Rightarrow> False)"
  by (cases x; cases y) (simp_all add: diffs_def image_iff, metis+)

definition diffs_of :: "bool \<Rightarrow> SHAMapItem set \<Rightarrow> SHAMapItem set \<Rightarrow> (uint256 \<times> DeltaRef) set" where
  "diffs_of first A B = (if first then diffs A B else diffs B A)"

lemma same_item: "item_key a = item_key b \<Longrightarrow> item_data a = item_data b \<Longrightarrow> a = (b :: SHAMapItem)"
  by simp

lemma finite_diffs [simp]: "finite A \<Longrightarrow> finite B \<Longrightarrow> finite (diffs A B)"
proof -
  assume "finite A" "finite B"
  then have "finite (item_key ` (A \<union> B) \<times> ((Some ` A \<union> {None}) \<times> (Some ` B \<union> {None})))" by simp
  then show ?thesis by (rule rev_finite_subset) (auto simp: diffs_def)
qed

lemma walk_none: "walk_diffs None first True its = map (unmatched first) its \<and> walk_empty None True its"
  by (induction its) (auto simp: leaf_diffs_def misses_def)

lemma walk_true: "walk_diffs other first True its = map (unmatched first) its \<and> walk_empty other True its"
  by (induction its) (auto simp: leaf_diffs_def misses_def)

lemma walk_some:
  "distinct (map item_key its) \<Longrightarrow>
    walk_diffs (Some o') first False its =
      concat (map (\<lambda>it. if item_key it = item_key o' then (if it = o' then [] else [(item_key it, delta_ref first (Some it) (Some o'))])
        else [unmatched first it]) its) \<and>
    walk_empty (Some o') False its = (item_key o' \<in> item_key ` set its)"
proof (induction its)
  case (Cons it its)
  show ?case
  proof (cases "item_key it = item_key o'")
    case False
    then show ?thesis using Cons by (auto simp: leaf_diffs_def misses_def)
  next
    case True
    then have "\<And>x. x \<in> set its \<Longrightarrow> item_key x \<noteq> item_key o'" using Cons.prems by (metis distinct.simps(2) image_eqI list.simps(9) set_map)
    then have "concat (map (\<lambda>it. if item_key it = item_key o' then (if it = o' then [] else [(item_key it, delta_ref first (Some it) (Some o'))])
        else [unmatched first it]) its) = map (unmatched first) its"
      by (induction its) auto
    then show ?thesis using True walk_true [of "Some o'" first its] same_item [of it o'] by (auto simp: leaf_diffs_def misses_def)
  qed
qed simp

definition branch_diffs :: "SHAMapItem option \<Rightarrow> bool \<Rightarrow> node \<Rightarrow> (uint256 \<times> DeltaRef) list" where
  "branch_diffs other first n =
     (let its = rev (map fst (leaves n)) in
      walk_diffs other first (other = None) its @
      (case (walk_empty other (other = None) its, other) of
         (False, Some o') \<Rightarrow> [(item_key o', delta_ref first None other)] | _ \<Rightarrow> []))"

lemma walkBranch_emit: "walkBranch n other first s = emit (branch_diffs other first n) s"
proof -
  let ?its = "rev (map fst (leaves n))"
  have st: "stack_items [n] = ?its" by (simp add: stack_items_def)
  obtain e' where w: "walk_loop other first (other = None) [n] s =
    (case emit (walk_diffs other first (other = None) ?its) s of
       (True, s') \<Rightarrow> (True, walk_empty other (other = None) ?its, s') | (False, s') \<Rightarrow> (False, e', s'))"
    using walk_loop_emit [of other first "other = None" "[n]" s] unfolding st by blast
  show ?thesis
    unfolding walkBranch_def branch_diffs_def w Let_def emit_append by (auto split: prod.splits bool.splits option.splits)
qed

lemma distinct_concat:
  assumes "distinct (map g xs)" "\<And>x. x \<in> set xs \<Longrightarrow> f x = [] \<or> (\<exists>v. f x = [(g x, v)])"
  shows "distinct (map fst (concat (map f xs)))" "fst ` set (concat (map f xs)) \<subseteq> g ` set xs"
proof -
  have "distinct (map fst (concat (map f xs))) \<and> fst ` set (concat (map f xs)) \<subseteq> g ` set xs" using assms
  proof (induction xs)
    case (Cons x xs)
    have "distinct (map fst (concat (map f xs)))" "fst ` set (concat (map f xs)) \<subseteq> g ` set xs" "g x \<notin> g ` set xs" using Cons by auto
    moreover have "(g x, v) \<notin> set (f y)" if "y \<in> set xs" for y v
    proof
      assume "(g x, v) \<in> set (f y)"
      then have "(g x, v) \<in> set (concat (map f xs))" using that by auto
      then have "fst (g x, v) \<in> g ` set xs" using calculation(2) by blast
      then show False using calculation(3) by simp
    qed
    ultimately show ?case using Cons.prems(2) [of x] by auto
  qed simp
  then show "distinct (map fst (concat (map f xs)))" "fst ` set (concat (map f xs)) \<subseteq> g ` set xs" by auto
qed

lemma leaf_keys_distinct:
  assumes "shape d p n"
  shows "distinct (map item_key (rev (map fst (leaves n))))"
proof -
  have "inj_on (\<lambda>x. item_key (fst x)) (set (leaves n))" using shape_keys_inj [OF assms] by (auto simp: inj_on_def)
  then show ?thesis using distinct_leaves [OF assms] by (simp add: rev_map [symmetric] distinct_map comp_def)
qed

lemma branch_diffs_none:
  assumes "shape d p n"
  shows "mset (branch_diffs None first n) = mset_set (diffs_of first (items n) {})"
proof -
  let ?its = "rev (map fst (leaves n))"
  have b: "branch_diffs None first n = map (unmatched first) ?its" using walk_none [of first ?its] by (simp add: branch_diffs_def)
  have "inj_on item_key (set ?its)" "distinct ?its" using leaf_keys_distinct [OF assms] by (auto simp: distinct_map)
  then have "distinct (map (unmatched first) ?its)" by (auto simp: distinct_map inj_on_def unmatched_def)
  moreover have "set (map (unmatched first) ?its) = diffs_of first (items n) {}"
    by (auto simp: items_def unmatched_def diffs_of_def diffs_def delta_ref_def image_iff)
  ultimately show ?thesis using b mset_set_set by metis
qed

lemma matched_diffs:
  "set (concat (map (\<lambda>it. if item_key it = item_key o' then (if it = o' then [] else [(item_key it, delta_ref first (Some it) (Some o'))])
        else [unmatched first it]) its) @ (if item_key o' \<in> item_key ` set its then [] else [(item_key o', delta_ref first None (Some o'))])) =
    diffs_of first (set its) {o'}"
  by (cases first) (auto simp: unmatched_def diffs_of_def diffs_def delta_ref_def image_iff split: if_splits)

lemma branch_diffs_some:
  assumes "shape d p n"
  shows "mset (branch_diffs (Some o') first n) = mset_set (diffs_of first (items n) {o'})"
proof -
  let ?its = "rev (map fst (leaves n))"
  let ?f = "\<lambda>it. if item_key it = item_key o' then (if it = o' then [] else [(item_key it, delta_ref first (Some it) (Some o'))])
        else [unmatched first it]"
  let ?l = "if item_key o' \<in> item_key ` set ?its then [] else [(item_key o', delta_ref first None (Some o'))]"
  have d: "distinct (map item_key ?its)" by (rule leaf_keys_distinct [OF assms])
  have b: "branch_diffs (Some o') first n = concat (map ?f ?its) @ ?l"
    using walk_some [OF d, of o' first] by (auto simp: branch_diffs_def)
  have f: "distinct (map fst (concat (map ?f ?its)))" "fst ` set (concat (map ?f ?its)) \<subseteq> item_key ` set ?its"
    by (rule distinct_concat [OF d]; simp add: unmatched_def)+
  have "distinct (map fst ?l)" "fst ` set (concat (map ?f ?its)) \<inter> fst ` set ?l = {}" using f(2) by (auto simp del: set_concat set_map)
  then have "distinct (map fst (branch_diffs (Some o') first n))" unfolding b map_append distinct_append using f(1) by (intro conjI) (simp_all only: set_map)
  then have "distinct (branch_diffs (Some o') first n)" by (simp add: distinct_map)
  moreover have "set (branch_diffs (Some o') first n) = diffs_of first (items n) {o'}"
    unfolding b matched_diffs by (simp add: items_def)
  ultimately show ?thesis using mset_set_set by metis
qed

section \<open>The whole comparison\<close>

abbreviation diff_set :: "node option \<Rightarrow> node option \<Rightarrow> (uint256 \<times> DeltaRef) multiset" where
  "diff_set a b \<equiv> mset_set (diffs (items_opt a) (items_opt b))"

abbreviation pair_diffs :: "(node \<times> node) list \<Rightarrow> (uint256 \<times> DeltaRef) multiset" where
  "pair_diffs st \<equiv> sum_list (map (\<lambda>(a, b). mset_set (diffs (items a) (items b))) st)"

lemma diffs_same [simp]: "inj_on item_key A \<Longrightarrow> diffs A A = {}"
  by (auto simp: diffs_def inj_on_def)

definition pair_ok :: "(blob \<Rightarrow> uint256) \<Rightarrow> TNType \<Rightarrow> blob set \<Rightarrow> node \<times> node \<Rightarrow> bool" where
  "pair_ok sha t S ab \<longleftrightarrow> (case ab of (a, b) \<Rightarrow>
     messages sha a \<union> messages sha b \<subseteq> S \<and> (\<exists>d p. shape d p a \<and> shape d p b) \<and>
     all_type t a \<and> all_type t b \<and> keyed sha a \<and> keyed sha b \<and>
     (\<forall>cs. a = Inner cs \<longrightarrow> tight_children a) \<and> (\<forall>cs. b = Inner cs \<longrightarrow> tight_children b))"

lemma partition_mset:
  assumes "finite X" "\<And>x. x \<in> X \<Longrightarrow> f x < n"
  shows "(\<Sum>i\<leftarrow>[0..<n]. mset_set {x \<in> X. f x = i}) = mset_set X"
proof (rule multiset_eqI)
  fix x
  have "count (\<Sum>i\<leftarrow>[0..<n]. mset_set {x \<in> X. f x = i}) x = (\<Sum>i\<leftarrow>[0..<n]. count (mset_set {x \<in> X. f x = i}) x)"
    by (induction n) auto
  also have "\<dots> = (\<Sum>i<n. if i = f x then (if x \<in> X then 1 else 0) else 0)"
    using assms(1) by (auto simp: interv_sum_list_conv_sum_set_nat atLeast0LessThan count_mset_set' intro!: sum.cong)
  also have "\<dots> = count (mset_set X) x" using assms by (simp add: sum.delta' count_mset_set')
  finally show "count (\<Sum>i\<leftarrow>[0..<n]. mset_set {x \<in> X. f x = i}) x = count (mset_set X) x" .
qed

lemma diffs_filter: "diffs {a \<in> A. f (item_key a) = i} {b \<in> B. f (item_key b) = i} = {x \<in> diffs A B. f (fst x) = i}"
proof -
  have "(k, x, y) \<in> diffs {a \<in> A. f (item_key a) = i} {b \<in> B. f (item_key b) = i} \<longleftrightarrow> (k, x, y) \<in> diffs A B \<and> f k = i" for k x y
    unfolding in_diffs by (cases x; cases y) auto
  then show ?thesis by force
qed

lemma diffs_children:
  assumes "shape d p (Inner cs)" "shape d p (Inner cs')"
  shows "(\<Sum>i\<leftarrow>[0..<16]. diff_set (getChild cs i) (getChild cs' i)) = mset_set (diffs (items (Inner cs)) (items (Inner cs')))"
proof -
  have "diffs (items_opt (getChild cs i)) (items_opt (getChild cs' i)) =
      {x \<in> diffs (items (Inner cs)) (items (Inner cs')). selectBranch d (fst x) = i}" for i
    unfolding items_child [OF assms(1)] items_child [OF assms(2)] by (rule diffs_filter)
  then show ?thesis
    using partition_mset [of "diffs (items (Inner cs)) (items (Inner cs'))" "\<lambda>x. selectBranch d (fst x)" 16] by (simp only: finite_diffs finite_items selectBranch_less)
qed

lemma pair_child:
  assumes "pair_ok sha t S (Inner cs, Inner cs')" "getChild cs i = Some a" "getChild cs' i = Some b"
  shows "pair_ok sha t S (a, b)" "tight a" "tight b" "\<exists>d p. shape d p a \<and> shape d p b"
proof -
  obtain d p where sh: "shape d p (Inner cs)" "shape d p (Inner cs')" and
    t: "tight_children (Inner cs)" "tight_children (Inner cs')" and o:
    "messages sha (Inner cs) \<union> messages sha (Inner cs') \<subseteq> S" "all_type t (Inner cs)" "all_type t (Inner cs')"
    "keyed sha (Inner cs)" "keyed sha (Inner cs')"
    using assms(1) unfolding pair_ok_def prod.case by blast
  show ta: "tight a" "tight b" using t assms(2,3) by (auto simp: tight_children_def)
  have "shape (Suc d) (16 * p + i) a" "shape (Suc d) (16 * p + i) b" using sh assms(2,3) by auto
  then show ab: "\<exists>d p. shape d p a \<and> shape d p b" by blast
  have tc: "tight n \<Longrightarrow> n = Inner xs \<Longrightarrow> tight_children n" for n xs by (simp add: tight_children_def)
  show "pair_ok sha t S (a, b)"
    unfolding pair_ok_def prod.case
  proof (intro conjI allI impI ab)
    show "messages sha a \<union> messages sha b \<subseteq> S" using o(1) messages_child assms(2,3) by blast
  qed (use o assms(2,3) all_type_child keyed_child tc ta in blast)+
qed

definition step_diffs :: "node option \<Rightarrow> node option \<Rightarrow> (uint256 \<times> DeltaRef) list" where
  "step_diffs a b = (case (a, b) of (Some x, None) \<Rightarrow> branch_diffs None True x | (None, Some y) \<Rightarrow> branch_diffs None False y | _ \<Rightarrow> [])"

definition step_push :: "(blob \<Rightarrow> uint256) \<Rightarrow> node option \<Rightarrow> node option \<Rightarrow> (node \<times> node) list" where
  "step_push sha a b = (case (a, b) of (Some x, Some y) \<Rightarrow> if getNodeHash sha x = getNodeHash sha y then [] else [(x, y)] | _ \<Rightarrow> [])"

lemma step_emit:
  assumes "no_collision sha S" "pair_ok sha t S (Inner cs, Inner cs')"
  shows "branch_step sha cs cs' i stack s =
    (case emit (step_diffs (getChild cs i) (getChild cs' i)) s of
      (ok, s') \<Rightarrow> (ok, step_push sha (getChild cs i) (getChild cs' i) @ stack, s'))"
proof -
  have "getNodeHash sha x \<noteq> 0" if "getChild cs i = Some x \<or> getChild cs' i = Some x" for x
  proof (rule tight_hash_nonzero [OF assms(1)])
    have "messages sha (Inner cs) \<union> messages sha (Inner cs') \<subseteq> S" using assms(2) unfolding pair_ok_def prod.case by (rule conjunct1)
    then show "messages sha x \<subseteq> S" using that messages_child [of cs i x sha] messages_child [of cs' i x sha] by (elim disjE) blast+
    show "tight x" using assms(2) that by (auto simp: pair_ok_def tight_children_def)
  qed
  then show ?thesis
    by (cases "getChild cs i"; cases "getChild cs' i") (simp_all add: branch_step_def step_diffs_def step_push_def walkBranch_emit)
qed

lemma step_mset:
  assumes "no_collision sha S" "isLeafType t" "pair_ok sha t S (Inner cs, Inner cs')"
  shows "mset (step_diffs (getChild cs i) (getChild cs' i)) + pair_diffs (step_push sha (getChild cs i) (getChild cs' i)) =
    diff_set (getChild cs i) (getChild cs' i)"
proof -
  obtain d p where sh: "shape d p (Inner cs)" "shape d p (Inner cs')" using assms(3) by (auto simp: pair_ok_def)
  have c: "shape (Suc d) (16 * p + i) x" if "getChild cs i = Some x \<or> getChild cs' i = Some x" for x using sh that by auto
  show ?thesis
  proof (cases "getChild cs i"; cases "getChild cs' i")
    fix a b assume ab: "getChild cs i = Some a" "getChild cs' i = Some b"
    have "a = b" if "getNodeHash sha a = getNodeHash sha b"
      using hash_determines [OF assms(1,2), of a b "Suc d" "16 * p + i"] pair_child [OF assms(3) ab] c ab that
      unfolding pair_ok_def prod.case by blast
    then show ?thesis using ab items_key_inj [OF c, of b] by (auto simp: step_diffs_def step_push_def)
  next
    fix a assume "getChild cs i = Some a" "getChild cs' i = None"
    then show ?thesis using branch_diffs_none [OF c, of a True] by (simp add: step_diffs_def step_push_def diffs_of_def)
  next
    fix b assume "getChild cs i = None" "getChild cs' i = Some b"
    then show ?thesis using branch_diffs_none [OF c, of b False] by (simp add: step_diffs_def step_push_def diffs_of_def)
  qed (simp add: step_diffs_def step_push_def)
qed

lemma loop_emit:
  assumes c: "no_collision sha S" and t: "isLeafType t" and ok: "pair_ok sha t S (Inner cs, Inner cs')"
    and b: "branch_loop sha cs cs' is stack s = (g, stack', s')"
  shows "\<exists>ds. emit ds s = (g, s') \<and> (g \<longrightarrow> (\<forall>ab \<in> set stack. pair_ok sha t S ab) \<longrightarrow> (\<forall>ab \<in> set stack'. pair_ok sha t S ab)) \<and>
    (g \<longrightarrow> mset ds + pair_diffs stack' = pair_diffs stack + (\<Sum>i\<leftarrow>is. diff_set (getChild cs i) (getChild cs' i))) \<and>
    mset ds \<subseteq># (\<Sum>i\<leftarrow>is. diff_set (getChild cs i) (getChild cs' i))"
  using b
proof (induction "is" arbitrary: stack s)
  case Nil
  then show ?case by (intro exI [of _ "[]"]) auto
next
  case (Cons i "is")
  let ?a = "getChild cs i" and ?b = "getChild cs' i"
  let ?ds = "step_diffs ?a ?b" and ?st = "step_push sha ?a ?b @ stack"
  obtain g1 s1 where e: "emit ?ds s = (g1, s1)" by (cases "emit ?ds s")
  have st: "branch_step sha cs cs' i stack s = (g1, ?st, s1)" using step_emit [OF c ok, of i stack s] e by simp
  have m: "mset ?ds + pair_diffs (step_push sha ?a ?b) = diff_set ?a ?b" by (rule step_mset [OF c t ok])
  then have sub: "mset ?ds \<subseteq># diff_set ?a ?b" by (metis mset_subset_eq_add_left)
  show ?case
  proof (cases g1)
    case False
    then have "g = False" "s' = s1" using Cons.prems st by auto
    then show ?thesis using e sub False by (intro exI [of _ ?ds]) (simp add: subset_mset.add_increasing2)
  next
    case True
    then have "branch_loop sha cs cs' is ?st s1 = (g, stack', s')" using Cons.prems st by simp
    from Cons.IH [OF this] obtain ds where ds: "emit ds s1 = (g, s')"
      "g \<longrightarrow> (\<forall>ab \<in> set ?st. pair_ok sha t S ab) \<longrightarrow> (\<forall>ab \<in> set stack'. pair_ok sha t S ab)"
      "g \<longrightarrow> mset ds + pair_diffs stack' = pair_diffs ?st + (\<Sum>i\<leftarrow>is. diff_set (getChild cs i) (getChild cs' i))"
      "mset ds \<subseteq># (\<Sum>i\<leftarrow>is. diff_set (getChild cs i) (getChild cs' i))" by blast
    have "\<forall>ab \<in> set (step_push sha ?a ?b). pair_ok sha t S ab"
      using pair_child(1) [OF ok, of i] by (auto simp: step_push_def split: option.splits if_splits)
    moreover have "mset (?ds @ ds) \<subseteq># (\<Sum>i\<leftarrow>i # is. diff_set (getChild cs i) (getChild cs' i))"
      unfolding mset_append list.map sum_list.Cons by (rule subset_mset.add_mono [OF sub ds(4)])
    moreover have "mset (?ds @ ds) + pair_diffs stack' = pair_diffs stack + (\<Sum>i\<leftarrow>i # is. diff_set (getChild cs i) (getChild cs' i))" if g
      using ds(3) that m [symmetric] by (simp add: ac_simps)
    moreover have "emit (?ds @ ds) s = (g, s')" using e True ds(1) by (simp add: emit_append)
    ultimately show ?thesis using ds(2) by (intro exI [of _ "?ds @ ds"]) auto
  qed
qed

lemma complete_emit:
  assumes "emit ds s = (False, s')" "mset ds \<subseteq># M"
  shows "\<exists>es. emit es s = (False, s') \<and> mset es = M"
proof -
  obtain xs where "mset xs = M - mset ds" using ex_mset by blast
  then show ?thesis using assms by (intro exI [of _ "ds @ xs"]) (simp add: emit_append)
qed

text \<open>A step that adds its differences \<open>ds\<close> and is followed by the rest of the stack.\<close>

lemma then_rest:
  assumes "mset ds + R = M" "\<And>s'. emit ds s = (True, s') \<Longrightarrow> \<exists>es. F s' = emit es s' \<and> mset es = R"
  shows "\<exists>es. (case emit ds s of (True, s') \<Rightarrow> F s' | (False, s') \<Rightarrow> (False, s')) = emit es s \<and> mset es = M"
proof -
  obtain ok s' where Pair: "emit ds s = (ok, s')" by (cases "emit ds s")
  show ?thesis
  proof (cases ok)
    case True
    then obtain es where "F s' = emit es s'" "mset es = R" using assms(2) Pair by auto
    then show ?thesis using Pair True assms(1) by (intro exI [of _ "ds @ es"]) (simp add: emit_append)
  next
    case False
    then obtain es where "emit es s = (False, s')" "mset es = M"
      using complete_emit [of ds s s' M] Pair assms(1) by (metis mset_subset_eq_add_left)
    then show ?thesis using Pair False by (intro exI [of _ es]) simp
  qed
qed

lemma compare_leaves_emit:
  "\<exists>ds. compare_leaves x y = emit ds \<and> mset ds = mset_set (diffs {x} {y})"
proof (cases "item_key x = item_key y")
  case True
  have "diffs {x} {y} = (if x = y then {} else {(item_key x, Some x, Some y)})" using True by (auto simp: diffs_def)
  then show ?thesis using True same_item [of x y]
    by (intro exI [of _ "if x = y then [] else [(item_key x, Some x, Some y)]"]) (auto simp: compare_leaves_def fun_eq_iff)
next
  case False
  have "diffs {x} {y} = {(item_key x, Some x, None), (item_key y, None, Some y)}" using False by (auto simp: diffs_def)
  then show ?thesis using False
    by (intro exI [of _ "[(item_key x, Some x, None), (item_key y, None, Some y)]"])
      (auto simp: compare_leaves_def emit.simps(2) fun_eq_iff split: prod.splits bool.splits)
qed

lemma compare_loop_emit:
  assumes c: "no_collision sha S" and t: "isLeafType t"
  shows "\<forall>ab \<in> set st. pair_ok sha t S ab \<Longrightarrow> \<exists>ds. compare_loop sha st s = emit ds s \<and> mset ds = pair_diffs st"
  using c
proof (induction sha st s rule: compare_loop.induct)
  case (1 sha s)
  then show ?case by (intro exI [of _ "[]"]) simp
next
  case (2 sha x t1 y t2 stack s)
  obtain ds where ds: "compare_leaves x y = emit ds" "mset ds = mset_set (diffs {x} {y})" using compare_leaves_emit by blast
  show ?case unfolding compare_loop.simps ds(1)
    by (rule then_rest [of _ "pair_diffs stack"]) (use ds 2 in auto)
next
  case (3 sha cs y t2 stack s)
  obtain d p where "shape d p (Inner cs)" using 3 by (auto simp: pair_ok_def)
  from branch_diffs_some [OF this, of y True] show ?case unfolding compare_loop.simps walkBranch_emit
    by (intro then_rest [of _ "pair_diffs stack"]) (use 3 walkBranch_emit in \<open>auto simp: diffs_of_def\<close>)
next
  case (4 sha x t1 cs stack s)
  obtain d p where "shape d p (Inner cs)" using 4 by (auto simp: pair_ok_def)
  from branch_diffs_some [OF this, of x False] show ?case unfolding compare_loop.simps walkBranch_emit
    by (intro then_rest [of _ "pair_diffs stack"]) (use 4 walkBranch_emit in \<open>auto simp: diffs_of_def\<close>)
next
  case (5 sha cs cs' stack s)
  obtain g st' s' where b: "branch_loop sha cs cs' [0..<16] stack s = (g, st', s')" by (metis prod_cases3)
  have p: "pair_ok sha t S (Inner cs, Inner cs')" "\<forall>ab \<in> set stack. pair_ok sha t S ab" using "5.prems" by auto
  then obtain d p where sh: "shape d p (Inner cs)" "shape d p (Inner cs')" by (auto simp: pair_ok_def)
  from loop_emit [OF "5.prems"(2) t p(1) b] obtain ds where ds: "emit ds s = (g, s')"
    "g \<longrightarrow> (\<forall>ab \<in> set st'. pair_ok sha t S ab)"
    "g \<longrightarrow> mset ds + pair_diffs st' = pair_diffs ((Inner cs, Inner cs') # stack)"
    "mset ds \<subseteq># mset_set (diffs (items (Inner cs)) (items (Inner cs')))"
    unfolding diffs_children [OF sh] using p(2) by (auto simp: ac_simps)
  show ?case
  proof (cases g)
    case True
    then obtain es where "compare_loop sha st' s' = emit es s'" "mset es = pair_diffs st'"
      using "5.IH" [of g "(st', s')" st' s'] b ds(2) "5.prems"(2) by auto
    then show ?thesis using b ds True by (intro exI [of _ "ds @ es"]) (auto simp: emit_append)
  next
    case False
    then obtain es where "emit es s = (False, s')" "mset es = pair_diffs ((Inner cs, Inner cs') # stack)"
      using ds(1) complete_emit [of ds s s' "pair_diffs ((Inner cs, Inner cs') # stack)"] ds(4) by (auto simp: subset_mset.add_increasing2)
    then show ?thesis using b False by (intro exI [of _ es]) simp
  qed
qed

lemma diffs_peek:
  assumes "shape 0 0 a" "shape 0 0 b"
  shows "(k, x, y) \<in> diffs (items a) (items b) \<longleftrightarrow> x = peekItem a k \<and> y = peekItem b k \<and> x \<noteq> y"
proof -
  have n: "peekItem n k = None \<longleftrightarrow> (\<forall>it \<in> items n. item_key it \<noteq> k)" if "shape 0 0 n" for n
    using peekItem_None [OF that, of k] by (auto simp: keys_items)
  show ?thesis
    unfolding in_diffs using n [OF assms(1)] n [OF assms(2)] peekItem_items [OF assms(1), of k] peekItem_items [OF assms(2), of k]
    by (cases x; cases y) (simp_all, metis+)
qed

definition differing :: "node \<Rightarrow> node \<Rightarrow> uint256 set" where
  "differing a b = {k. peekItem a k \<noteq> peekItem b k}"

lemma diff_list:
  assumes s: "shape 0 0 a" "shape 0 0 b" and m: "mset ds = mset_set (diffs (items a) (items b))"
  shows "distinct (map fst ds)" "length ds = card (differing a b)"
    "map_of ds k = (if peekItem a k = peekItem b k then None else Some (peekItem a k, peekItem b k))"
proof -
  have set: "set ds = diffs (items a) (items b)" using arg_cong [OF m, of set_mset] by simp
  have "distinct ds" unfolding distinct_count_atmost_1 m set by (simp add: count_mset_set')
  then show d: "distinct (map fst ds)" using diffs_peek [OF s] by (auto simp: distinct_map inj_on_def set)
  have in_ds: "(k, x, y) \<in> set ds \<longleftrightarrow> x = peekItem a k \<and> y = peekItem b k \<and> x \<noteq> y" for k x y unfolding set by (rule diffs_peek [OF s])
  have "fst ` set ds = differing a b" unfolding differing_def using in_ds by (auto simp: image_iff) (metis fst_conv)
  then show "length ds = card (differing a b)" using distinct_card [OF d] by simp
  show "map_of ds k = (if peekItem a k = peekItem b k then None else Some (peekItem a k, peekItem b k))"
  proof (cases "peekItem a k = peekItem b k")
    case True
    then have "k \<notin> fst ` set ds" using in_ds [of k] by force
    then show ?thesis using True by (simp add: map_of_eq_None_iff)
  next
    case False
    then show ?thesis using map_of_is_SomeI [OF d] in_ds [of k "peekItem a k" "peekItem b k"] by simp
  qed
qed

lemma compare_emits:
  assumes c: "no_collision sha (messages sha a \<union> messages sha b)" and k: "keyed sha a" "keyed sha b"
    and t: "typed_ok tx md a" "typed_ok tx md b" and h: "getNodeHash sha a \<noteq> getNodeHash sha b"
  shows "\<exists>ds. compare sha a b maxCount = (fst (emit ds ([], maxCount)), fst (snd (emit ds ([], maxCount)))) \<and>
    mset ds = mset_set (diffs (items a) (items b))"
proof -
  have "pair_ok sha (leaf_type tx md) (messages sha a \<union> messages sha b) (a, b)"
    using k t unfolding pair_ok_def typed_ok_def shamap_ok_iff prod.case by blast
  then have "\<exists>ds. compare_loop sha [(a, b)] ([], maxCount) = emit ds ([], maxCount) \<and> mset ds = pair_diffs [(a, b)]"
    by (intro compare_loop_emit [OF c, of "leaf_type tx md"]) simp_all
  then obtain ds where "compare_loop sha [(a, b)] ([], maxCount) = emit ds ([], maxCount)" "mset ds = pair_diffs [(a, b)]" by blast
  then show ?thesis using h by (intro exI [of _ ds]) (simp add: compare_def split_beta)
qed

lemma emit_sorted: "om_ok (fst s) \<Longrightarrow> om_ok (fst (snd (emit ds s)))"
proof (induction ds s rule: emit.induct)
  case (2 k v ds s)
  have a: "om_ok (fst (snd (add_difference k v s)))" using "2.prems" by (cases s) (simp add: add_difference_def om_put_ok)
  obtain ok s' where s': "add_difference k v s = (ok, s')" by (cases "add_difference k v s")
  then show ?case using "2.IH" [of ok s'] a by (cases ok) (simp_all add: emit.simps(2))
qed simp

lemma compare_differences:
  assumes "no_collision sha (messages sha a \<union> messages sha b)" "keyed sha a" "keyed sha b"
    and "typed_ok tx md a" "typed_ok tx md b" "0 < maxCount" "compare sha a b maxCount = (ok, D)"
  shows "om_ok D \<and> (ok \<longleftrightarrow> int (card (differing a b)) < maxCount) \<and>
    (ok \<longrightarrow> (\<forall>k. map_of D k = (if peekItem a k = peekItem b k then None else Some (peekItem a k, peekItem b k)))) \<and>
    (\<forall>k v. map_of D k = Some v \<longrightarrow> v = (peekItem a k, peekItem b k) \<and> k \<in> differing a b)"
proof -
  have s: "shape 0 0 a" "shape 0 0 b" using assms(4,5) by (auto simp: typed_ok_def shamap_ok_iff)
  show ?thesis
  proof (cases "getNodeHash sha a = getNodeHash sha b")
    case True
    then have "a = b" by (rule root_hash_determines [OF assms(1-5)])
    moreover have "ok = True" "D = []" using True assms(7) by (auto simp: compare_def)
    ultimately show ?thesis using assms(6) by (simp add: differing_def)
  next
    case False
    obtain ds where ds: "compare sha a b maxCount = (fst (emit ds ([], maxCount)), fst (snd (emit ds ([], maxCount))))"
      "mset ds = mset_set (diffs (items a) (items b))"
      using compare_emits [OF assms(1-5) False, of maxCount] by blast
    note l = diff_list [OF s ds(2)]
    have "om_ok []" "\<forall>d \<in> set ds. map_of [] (fst d) = None" by (simp_all add: om_ok_def)
    from emit_all [OF l(1) this assms(6)] obtain D' n' where e: "emit ds ([], maxCount) = (int (length ds) < maxCount, D', n')"
      "int (length ds) < maxCount \<longrightarrow> map_of D' = map_of ds" "map_of D' \<subseteq>\<^sub>m map_of ds"
      unfolding map_of.simps empty_map_add by (elim exE conjE)
    have D: "ok = (int (length ds) < maxCount)" "D = D'" using assms(7) unfolding ds(1) e(1) by simp_all
    have r: "v = (peekItem a k, peekItem b k) \<and> k \<in> differing a b" if "map_of D k = Some v" for k v
    proof -
      have "map_of ds k = map_of D' k" using e(3) that D(2) by (auto simp: map_le_def dom_def)
      then have "map_of ds k = Some v" using that D(2) by simp
      then show ?thesis unfolding l(3) by (auto simp: differing_def split: if_splits)
    qed
    have "om_ok D" using emit_sorted [of "([], maxCount)" ds] e(1) D(2) by simp
    then show ?thesis
    proof (intro conjI impI allI r)
      show "ok \<longleftrightarrow> int (card (differing a b)) < maxCount" using D(1) l(2) by simp
      show "map_of D k = (if peekItem a k = peekItem b k then None else Some (peekItem a k, peekItem b k))" if ok for k
        using e(2) D that l(3) [of k] by simp
    qed (use r in auto)
  qed
qed

section \<open>Properties\<close>

text \<open>
  C18. \<open>compare\<close> finds exactly the differences of two well-formed maps: it succeeds when fewer keys differ than
  \<open>maxCount\<close>, and the differences then hold both sides' items for every key at which the maps differ and for
  no other; when it gives up, what it has found so far is right.
\<close>

theorem compare_exact:
  assumes "no_collision sha (messages sha a \<union> messages sha b)" "keyed sha a" "keyed sha b"
    and "typed_ok tx md a" "typed_ok tx md b" "0 < maxCount" "compare sha a b maxCount = (ok, D)"
  shows "(ok \<longleftrightarrow> int (card (differing a b)) < maxCount) \<and>
    (ok \<longrightarrow> (\<forall>k. map_of D k = (if peekItem a k = peekItem b k then None else Some (peekItem a k, peekItem b k)))) \<and>
    (\<forall>k v. map_of D k = Some v \<longrightarrow> v = (peekItem a k, peekItem b k) \<and> k \<in> differing a b)"
  using compare_differences [OF assms] by blast

theorem compare_exact_witness:
  "\<exists>D. compare (\<lambda>m. of_nat (length m)) sample_tree SHAMap_make 2 = (True, D) \<and>
    (\<forall>k. map_of D k = (if k = 7 then Some (Some (sample_item 7), None) else None))"
proof -
  obtain ok D where c: "compare (\<lambda>m. of_nat (length m)) sample_tree SHAMap_make 2 = (ok, D)"
    by (cases "compare (\<lambda>m. of_nat (length m)) sample_tree SHAMap_make 2")
  have d: "differing sample_tree SHAMap_make = {7}" by (auto simp: differing_def sample_tree_peek empty_ok(3))
  have z: "(0 :: int) < 2" "int (card {7 :: uint256}) < 2" by simp_all
  note e = compare_exact [OF sample_no_collision sample_tree_ok sm.invar_empty z(1) c, unfolded d]
  have ok: ok using conjunct1 [OF e] z(2) by (rule iffD2)
  have "map_of D k = (if k = 7 then Some (Some (sample_item 7), None) else None)" for k
    using spec [OF mp [OF conjunct1 [OF conjunct2 [OF e]] ok], of k] unfolding sample_tree_peek empty_ok(3) by (cases "k = 7") simp_all
  moreover have "ok = True" using ok by simp
  ultimately show ?thesis using c by blast
qed

end
