(* ===== verification/Consensus.thy ===== *)
theory Consensus
  imports DisputedTx SHAMap_Compare
begin

text \<open>
  One round of consensus (\<open>app/ledger/impl/LedgerConsensusImp.cpp\<close>, \<open>app/ledger/LedgerProposal.h\<close>) without
  ZooKeeper. The record \<open>consensus\<close> has the members of \<open>LedgerConsensusImp\<close>; every method is a function on it.
  The hash maps are ordered maps: the order in which they are traversed is unspecified in the source and does
  not matter. A transaction set is a \<open>SHAMap\<close>, a null pointer is \<open>None\<close>. What a method asks of other services
  (clocks, transaction sets that arrived, validations, ledgers, stored proposals, the open ledger) is the record
  \<open>env\<close>; what it sends or schedules is appended to \<open>effects\<close>. \<open>sha\<close> is the digest of \<open>SHAMap\<close>. All nodes of
  a map are resident, so \<open>SHAMapMissingNode\<close> is never thrown.
\<close>

section \<open>Proposals\<close>

record LedgerProposal =
  mPreviousLedgerHash :: uint256
  mCurrentHash :: uint256
  prop_closeTime :: u32
  mProposeSeq :: u32
  mPeerID :: NodeID
  mTime :: int

definition seqJoin :: u32 where "seqJoin = 0"
definition seqLeave :: u32 where "seqLeave = 0xffffffff"

definition isInitial :: "LedgerProposal \<Rightarrow> bool" where
  "isInitial p \<longleftrightarrow> mProposeSeq p = seqJoin"

definition isBowOut :: "LedgerProposal \<Rightarrow> bool" where
  "isBowOut p \<longleftrightarrow> mProposeSeq p = seqLeave"

definition isStale :: "int \<Rightarrow> LedgerProposal \<Rightarrow> bool" where
  "isStale cutoff p \<longleftrightarrow> mTime p \<le> cutoff"

definition isPrevLedger :: "uint256 \<Rightarrow> LedgerProposal \<Rightarrow> bool" where
  "isPrevLedger pl p \<longleftrightarrow> mPreviousLedgerHash p = pl"

definition own_proposal :: "int \<Rightarrow> NodeID \<Rightarrow> uint256 \<Rightarrow> uint256 \<Rightarrow> u32 \<Rightarrow> LedgerProposal" where
  "own_proposal now nodeID prevLgr position closeTime =
     \<lparr>mPreviousLedgerHash = prevLgr, mCurrentHash = position, prop_closeTime = closeTime, mProposeSeq = seqJoin,
      mPeerID = nodeID, mTime = now\<rparr>"

definition changePosition :: "int \<Rightarrow> uint256 \<Rightarrow> u32 \<Rightarrow> LedgerProposal \<Rightarrow> bool \<times> LedgerProposal" where
  "changePosition now newPosition closeTime p =
     (if mProposeSeq p = seqLeave then (False, p)
      else (True, p\<lparr>mCurrentHash := newPosition, prop_closeTime := closeTime, mTime := now, mProposeSeq := mProposeSeq p + 1\<rparr>))"

definition bowOut :: "int \<Rightarrow> LedgerProposal \<Rightarrow> LedgerProposal" where
  "bowOut now p = p\<lparr>mTime := now, mProposeSeq := seqLeave\<rparr>"

section \<open>State, environment and effects\<close>

record LedgerInfo =
  li_hash :: uint256
  li_parentHash :: uint256
  li_seq :: u32
  li_closeTime :: u32
  li_parentCloseTime :: u32
  li_closeTimeResolution :: int
  li_closeAgree :: bool
  li_open :: bool
  li_immutable :: bool

datatype State = open' | establish | finished | accepted

datatype effect =
    GiveSet uint256
  | SendHaveTxSet uint256
  | RelayTransaction uint256 blob
  | SendProposal LedgerProposal
  | ViewChange
  | AcquireLedger uint256
  | CheckOurValidation
  | SetLastCloseTime u32
  | StatusClosing
  | ApplyHeld
  | NewLCL int int
  | AcceptJob node
  | EndConsensus bool

record consensus =
  round_state :: State
  mCloseTime :: u32
  mPrevLedgerHash :: uint256
  mAcquiringLedger :: uint256
  mPreviousLedger :: LedgerInfo
  mOurPosition :: "LedgerProposal option"
  mNodeID :: NodeID
  mProposing :: bool
  mHaveCorrectLCL :: bool
  mConsensusFail :: bool
  mCurrentMSeconds :: int
  mClosePercent :: int
  mCloseResolution :: int
  mHaveCloseTimeConsensus :: bool
  mConsensusStartTime :: int
  mPreviousProposers :: int
  mPreviousMSeconds :: int
  mPeerPositions :: "(NodeID, LedgerProposal) omap"
  mAcquired :: "(uint256, node option) omap"
  mDisputes :: "(uint256, DisputedTx) omap"
  mCompares :: "uint256 list"
  mCloseTimes :: "(u32, int) omap"
  mDeadNodes :: "NodeID list"
  effects :: "effect list"

record env =
  steady_now :: int
  closeTime_now :: u32
  getSet :: "uint256 \<Rightarrow> node option"
  getCurrentValidations :: "uint256 \<Rightarrow> uint256 \<Rightarrow> (uint256 \<times> int) list"
  getTrustedValidationCount :: "uint256 \<Rightarrow> int"
  getNodesAfter :: "uint256 \<Rightarrow> int"
  getLedgerByHash :: "uint256 \<Rightarrow> LedgerInfo option"
  storedProposals :: "LedgerProposal list"
  openTxs :: "SHAMapItem list"
  openParent :: uint256
  openTxExists :: "uint256 \<Rightarrow> bool"
  votedTxs :: "SHAMapItem list"
  lastCloseTime :: u32
  standalone :: bool

definition emit_effect :: "effect \<Rightarrow> consensus \<Rightarrow> consensus" where
  "emit_effect e c = c\<lparr>effects := effects c @ [e]\<rparr>"

text \<open>A traversal of a hash map of disputes.\<close>

definition map_disputes :: "(uint256 \<Rightarrow> DisputedTx \<Rightarrow> DisputedTx) \<Rightarrow> consensus \<Rightarrow> consensus" where
  "map_disputes f c = c\<lparr>mDisputes := map (\<lambda>(k, d). (k, f k d)) (mDisputes c)\<rparr>"

section \<open>Disputes\<close>

definition our_vote :: "uint256 \<Rightarrow> consensus \<Rightarrow> bool res" where
  "our_vote txID c =
     (case mOurPosition c of
        None \<Rightarrow> Ok False
      | Some p \<Rightarrow>
          (case map_of (mAcquired c) (mCurrentHash p) of
             None \<Rightarrow> Throw AssertFailed
           | Some None \<Rightarrow> Throw NullDeref
           | Some (Some m) \<Rightarrow> Ok (hasItem m txID)))"

fun peer_votes :: "uint256 \<Rightarrow> (uint256, node option) omap \<Rightarrow> (NodeID, LedgerProposal) omap \<Rightarrow> DisputedTx \<Rightarrow> DisputedTx" where
  "peer_votes txID acquired [] txn = txn"
| "peer_votes txID acquired ((peer, p) # ps) txn =
     peer_votes txID acquired ps
       (case map_of acquired (mCurrentHash p) of Some (Some m) \<Rightarrow> setVote peer (hasItem m txID) txn | _ \<Rightarrow> txn)"

definition addDisputedTransaction :: "uint256 \<Rightarrow> blob \<Rightarrow> consensus \<Rightarrow> consensus res" where
  "addDisputedTransaction txID tx c =
     (if map_of (mDisputes c) txID \<noteq> None then Ok c
      else rbind (our_vote txID c) (\<lambda>ourVote.
        let txn = peer_votes txID (mAcquired c) (mPeerPositions c) (DisputedTx_make txID tx ourVote) in
        Ok (emit_effect (RelayTransaction txID tx) (c\<lparr>mDisputes := om_put txID txn (mDisputes c)\<rparr>))))"

fun dispute_loop :: "Delta \<Rightarrow> consensus \<Rightarrow> consensus res" where
  "dispute_loop [] c = Ok c"
| "dispute_loop ((k, Some a, None) # ds) c = rbind (addDisputedTransaction k (item_data a) c) (dispute_loop ds)"
| "dispute_loop ((k, None, Some b) # ds) c = rbind (addDisputedTransaction k (item_data b) c) (dispute_loop ds)"
| "dispute_loop ((k, _) # ds) c = Throw AssertFailed"

definition createDisputes :: "(blob \<Rightarrow> uint256) \<Rightarrow> node \<Rightarrow> node \<Rightarrow> consensus \<Rightarrow> consensus res" where
  "createDisputes sha m1 m2 c =
     (if getNodeHash sha m1 = getNodeHash sha m2 then Ok c
      else dispute_loop (snd (compare sha m1 m2 16384)) c)"

definition adjustCount :: "node \<Rightarrow> NodeID list \<Rightarrow> consensus \<Rightarrow> consensus" where
  "adjustCount m peers c = map_disputes (\<lambda>_ d. fold (\<lambda>p. setVote p (hasItem m (mTransactionID d))) peers d) c"

section \<open>Transaction sets\<close>

definition new_disputes :: "(blob \<Rightarrow> uint256) \<Rightarrow> uint256 \<Rightarrow> node \<Rightarrow> consensus \<Rightarrow> consensus res" where
  "new_disputes sha hash m c =
     (case mOurPosition c of
        None \<Rightarrow> Ok c
      | Some p \<Rightarrow>
          if \<not> isBowOut p \<and> hash \<noteq> mCurrentHash p then
            (case map_of (mAcquired c) (mCurrentHash p) of
               Some (Some m2) \<Rightarrow> createDisputes sha m2 m (c\<lparr>mCompares := List.insert hash (mCompares c)\<rparr>)
             | _ \<Rightarrow> Throw AssertFailed)
          else Ok c)"

definition mapCompleteInternal :: "(blob \<Rightarrow> uint256) \<Rightarrow> uint256 \<Rightarrow> node option \<Rightarrow> bool \<Rightarrow> consensus \<Rightarrow> consensus res" where
  "mapCompleteInternal sha hash map' acquired c =
     (case map' of
        None \<Rightarrow> Ok (c\<lparr>mAcquired := om_put hash None (mAcquired c)\<rparr>)
      | Some m \<Rightarrow>
          rbind (require (hash = getNodeHash sha m) AssertFailed) (\<lambda>_.
          case map_of (mAcquired c) hash of
            Some (Some _) \<Rightarrow> Ok c
          | it \<Rightarrow>
              let c = (if it = None then c else c\<lparr>mAcquired := om_del hash (mAcquired c)\<rparr>);
                  c = (if acquired then c else emit_effect (GiveSet hash) c);
                  c = emit_effect (SendHaveTxSet hash) c
              in rbind (new_disputes sha hash m c) (\<lambda>c.
                   let c = c\<lparr>mAcquired := om_put hash (Some m) (mAcquired c)\<rparr>;
                       peers = map (\<lambda>(_, p). mPeerID p) (filter (\<lambda>(_, p). mCurrentHash p = getNodeHash sha m) (mPeerPositions c))
                   in Ok (if peers \<noteq> [] then adjustCount m peers c else c))))"

definition getTransactionTree :: "env \<Rightarrow> uint256 \<Rightarrow> consensus \<Rightarrow> node option \<times> consensus" where
  "getTransactionTree e hash c =
     (case map_of (mAcquired c) hash of
        Some (Some m) \<Rightarrow> (Some m, c)
      | _ \<Rightarrow>
          (case getSet e hash of
             Some m \<Rightarrow> (Some m, c\<lparr>mAcquired := om_put hash (Some m) (mAcquired c)\<rparr>)
           | None \<Rightarrow> (None, c)))"

section \<open>Peer positions\<close>

definition peerPosition :: "env \<Rightarrow> LedgerProposal \<Rightarrow> consensus \<Rightarrow> (bool \<times> consensus) res" where
  "peerPosition e newPosition c =
     (let peerID = mPeerID newPosition; currentPosition = map_of (mPeerPositions c) peerID in
      if peerID \<in> set (mDeadNodes c) then Ok (False, c)
      else
        rbind (require (\<forall>p \<in> set_option currentPosition. mPeerID p = peerID) AssertFailed) (\<lambda>_.
        if \<exists>p \<in> set_option currentPosition. mProposeSeq newPosition \<le> mProposeSeq p then Ok (False, c)
        else if isBowOut newPosition then
          let c = map_disputes (\<lambda>_. unVote peerID) c in
          Ok (True, c\<lparr>mPeerPositions := om_del peerID (mPeerPositions c), mDeadNodes := List.insert peerID (mDeadNodes c)\<rparr>)
        else
          let ct = prop_closeTime newPosition;
              c = (if isInitial newPosition
                   then c\<lparr>mCloseTimes := om_put ct (case map_of (mCloseTimes c) ct of None \<Rightarrow> 1 | Some n \<Rightarrow> n + 1) (mCloseTimes c)\<rparr>
                   else c);
              c = c\<lparr>mPeerPositions := om_put peerID newPosition (mPeerPositions c)\<rparr>
          in case getTransactionTree e (mCurrentHash newPosition) c of
               (Some m, c) \<Rightarrow> Ok (True, map_disputes (\<lambda>k. setVote peerID (hasItem m k)) c)
             | (None, c) \<Rightarrow> Ok (True, c)))"

fun playback_loop :: "env \<Rightarrow> LedgerProposal list \<Rightarrow> consensus \<Rightarrow> consensus res" where
  "playback_loop e [] c = Ok c"
| "playback_loop e (p # ps) c =
     (if isPrevLedger (mPrevLedgerHash c) p then rbind (peerPosition e p c) (\<lambda>(_, c). playback_loop e ps c)
      else playback_loop e ps c)"

definition playbackProposals :: "env \<Rightarrow> consensus \<Rightarrow> consensus res" where
  "playbackProposals e c = playback_loop e (storedProposals e) c"

section \<open>Our position\<close>

definition effectiveCloseTime :: "consensus \<Rightarrow> u32 \<Rightarrow> u32" where
  "effectiveCloseTime c closeTime =
     (if closeTime = 0 then 0
      else max (roundCloseTime closeTime (word_of_int (mCloseResolution c))) (li_closeTime (mPreviousLedger c) + 1))"

definition count_time :: "u32 \<Rightarrow> (u32, int) omap \<Rightarrow> (u32, int) omap" where
  "count_time t m = om_put t (case map_of m t of None \<Rightarrow> 1 | Some n \<Rightarrow> n + 1) m"

text \<open>The loop that removes stale proposals and counts the close times of the others.\<close>

fun stale_loop :: "int \<Rightarrow> (NodeID, LedgerProposal) omap \<Rightarrow> (u32, int) omap \<Rightarrow> consensus \<Rightarrow> (u32, int) omap \<times> consensus" where
  "stale_loop peerCutoff [] closeTimes c = (closeTimes, c)"
| "stale_loop peerCutoff ((k, p) # ps) closeTimes c =
     (if isStale peerCutoff p then
        let c = map_disputes (\<lambda>_. unVote (mPeerID p)) c in
        stale_loop peerCutoff ps closeTimes (c\<lparr>mPeerPositions := om_del k (mPeerPositions c)\<rparr>)
      else stale_loop peerCutoff ps (count_time (effectiveCloseTime c (prop_closeTime p)) closeTimes) c)"

definition our_set :: "consensus \<Rightarrow> node res" where
  "our_set c =
     (case mOurPosition c of
        None \<Rightarrow> Throw NullDeref
      | Some p \<Rightarrow> (case map_of (mAcquired c) (mCurrentHash p) of Some (Some m) \<Rightarrow> Ok m | _ \<Rightarrow> Throw NullDeref))"

text \<open>The loop that updates our votes; \<open>None\<close> for the set means no change yet.\<close>

fun vote_loop :: "consensus \<Rightarrow> (uint256, DisputedTx) omap \<Rightarrow> node option \<Rightarrow> ((uint256, DisputedTx) omap \<times> node option) res" where
  "vote_loop c [] ourPosition = Ok ([], ourPosition)"
| "vote_loop c ((k, d) # ds) ourPosition =
     (case updateVote (mClosePercent c) (mProposing c) d of
        (True, d) \<Rightarrow>
          rbind (case ourPosition of Some m \<Rightarrow> Ok m | None \<Rightarrow> our_set c) (\<lambda>m.
          rbind (if mOurVote d then addGiveItem m \<lparr>item_key = k, item_data = transaction d\<rparr> True False else delItem m k) (\<lambda>(_, m).
          rbind (vote_loop c ds (Some m)) (\<lambda>(ds, ourPosition). Ok ((k, d) # ds, ourPosition))))
      | (False, d) \<Rightarrow> rbind (vote_loop c ds ourPosition) (\<lambda>(ds, ourPosition). Ok ((k, d) # ds, ourPosition)))"

fun time_loop :: "int \<Rightarrow> (u32, int) omap \<Rightarrow> int \<Rightarrow> u32 \<Rightarrow> bool \<Rightarrow> u32 \<times> bool" where
  "time_loop threshConsensus [] threshVote closeTime have' = (closeTime, have')"
| "time_loop threshConsensus ((t, n) # ts) threshVote closeTime have' =
     (if n \<ge> threshVote then time_loop threshConsensus ts n t (have' \<or> n \<ge> threshConsensus)
      else time_loop threshConsensus ts threshVote closeTime have')"

text \<open>Our close time, and whether enough participants agree on it.\<close>

definition choose_closeTime :: "consensus \<Rightarrow> LedgerProposal \<Rightarrow> (u32, int) omap \<Rightarrow> u32 \<times> bool" where
  "choose_closeTime c ours closeTimes =
     (if mPeerPositions c = [] then (effectiveCloseTime c (prop_closeTime ours), True)
      else
        let participants = int (length (mPeerPositions c));
            closeTimes = (if mProposing c then count_time (effectiveCloseTime c (prop_closeTime ours)) closeTimes else closeTimes);
            participants = (if mProposing c then participants + 1 else participants)
        in time_loop (participantsNeeded participants AV_CT_CONSENSUS_PCT) closeTimes
             (participantsNeeded participants (neededWeight (mClosePercent c))) 0 False)"

definition propose :: "consensus \<Rightarrow> consensus res" where
  "propose c = (case mOurPosition c of None \<Rightarrow> Throw NullDeref | Some p \<Rightarrow> Ok (emit_effect (SendProposal p) c))"

definition take_position :: "(blob \<Rightarrow> uint256) \<Rightarrow> env \<Rightarrow> LedgerProposal \<Rightarrow> node \<Rightarrow> u32 \<Rightarrow> consensus \<Rightarrow> consensus res" where
  "take_position sha e ours ourPosition closeTime c =
     (let newHash = getNodeHash sha ourPosition in
      case changePosition (steady_now e) newHash closeTime ours of
        (False, _) \<Rightarrow> Ok c
      | (True, p) \<Rightarrow>
          let c = c\<lparr>mOurPosition := Some p\<rparr> in
          rbind (if mProposing c then propose c else Ok c) (mapCompleteInternal sha newHash (Some ourPosition) False))"

definition updateOurPositions :: "(blob \<Rightarrow> uint256) \<Rightarrow> env \<Rightarrow> consensus \<Rightarrow> consensus res" where
  "updateOurPositions sha e c =
     (let peerCutoff = steady_now e - PROPOSE_FRESHNESS * 1000;
          ourCutoff = steady_now e - PROPOSE_INTERVAL * 1000;
          (closeTimes, c) = stale_loop peerCutoff (mPeerPositions c) [] c
      in rbind (vote_loop c (mDisputes c) None) (\<lambda>(disputes, ourPosition).
         let c = c\<lparr>mDisputes := disputes\<rparr> in
         case mOurPosition c of
           None \<Rightarrow> Throw NullDeref
         | Some ours \<Rightarrow>
             let (closeTime, have') = choose_closeTime c ours closeTimes;
                 c = c\<lparr>mHaveCloseTimeConsensus := have'\<rparr>
             in case ourPosition of
                  Some m \<Rightarrow> take_position sha e ours m closeTime c
                | None \<Rightarrow>
                    if closeTime \<noteq> prop_closeTime ours \<or> isStale ourCutoff ours
                    then rbind (our_set c) (\<lambda>m. take_position sha e ours m closeTime c)
                    else Ok c))"

fun add_txs :: "SHAMapItem list \<Rightarrow> node \<Rightarrow> node res" where
  "add_txs [] m = Ok m"
| "add_txs (it # its) m = rbind (addGiveItem m it True False) (\<lambda>(_, m). add_txs its m)"

text \<open>Disputes with the sets of the peers; \<open>found\<close> holds the sets that were looked at.\<close>

fun initial_disputes :: "(blob \<Rightarrow> uint256) \<Rightarrow> node \<Rightarrow> (NodeID, LedgerProposal) omap \<Rightarrow> uint256 list \<Rightarrow> consensus \<Rightarrow> consensus res" where
  "initial_disputes sha initialSet [] found c = Ok c"
| "initial_disputes sha initialSet ((_, p) # ps) found c =
     (let set' = mCurrentHash p in
      if set' \<in> set found then initial_disputes sha initialSet ps found c
      else case map_of (mAcquired c) set' of
          None \<Rightarrow> initial_disputes sha initialSet ps (set' # found) c
        | Some None \<Rightarrow> Throw NullDeref
        | Some (Some m) \<Rightarrow>
            rbind (createDisputes sha initialSet m (c\<lparr>mCompares := List.insert (getNodeHash sha m) (mCompares c)\<rparr>))
              (initial_disputes sha initialSet ps (set' # found)))"

definition takeInitialPosition :: "(blob \<Rightarrow> uint256) \<Rightarrow> env \<Rightarrow> consensus \<Rightarrow> consensus res" where
  "takeInitialPosition sha e c =
     rbind (add_txs (openTxs e) SHAMap_make) (\<lambda>initialSet.
     rbind (if (standalone e \<or> mProposing c \<and> mHaveCorrectLCL c) \<and> li_seq (mPreviousLedger c) mod 256 = 0
            then add_txs (votedTxs e) initialSet else Ok initialSet) (\<lambda>initialSet.
     let txSet = getNodeHash sha initialSet in
     rbind (mapCompleteInternal sha txSet (Some initialSet) False c) (\<lambda>c.
     let c = c\<lparr>mOurPosition := Some (own_proposal (steady_now e) (mNodeID c) (openParent e) txSet (mCloseTime c))\<rparr>;
         c = map_disputes (\<lambda>k. setOurVote (openTxExists e k)) c
     in rbind (initial_disputes sha initialSet (mPeerPositions c) [] c) (\<lambda>c.
        if mProposing c then propose c else Ok c))))"

section \<open>The last closed ledger\<close>

definition next_resolution :: "LedgerInfo \<Rightarrow> int res" where
  "next_resolution l = getNextLedgerTimeResolution (li_closeTimeResolution l) (li_closeAgree l) (li_seq l + 1)"

definition handleLCL :: "env \<Rightarrow> uint256 \<Rightarrow> consensus \<Rightarrow> consensus res" where
  "handleLCL e lclHash c =
     rbind (require (lclHash \<noteq> mPrevLedgerHash c \<or> li_hash (mPreviousLedger c) \<noteq> lclHash) AssertFailed) (\<lambda>_.
     rbind
       (if mPrevLedgerHash c \<noteq> lclHash then
          let c = c\<lparr>mPrevLedgerHash := lclHash\<rparr> in
          rbind
            (case mOurPosition c of
               Some p \<Rightarrow> if mHaveCorrectLCL c \<and> mProposing c then propose (c\<lparr>mOurPosition := Some (bowOut (steady_now e) p)\<rparr>) else Ok c
             | None \<Rightarrow> Ok c)
            (\<lambda>c. playbackProposals e (c\<lparr>mProposing := False, mPeerPositions := [], mDisputes := [], mCloseTimes := [], mDeadNodes := []\<rparr>))
        else Ok c) (\<lambda>c.
     if li_hash (mPreviousLedger c) = mPrevLedgerHash c then Ok c
     else case getLedgerByHash e (mPrevLedgerHash c) of
         None \<Rightarrow>
           Ok (if mAcquiringLedger c \<noteq> lclHash
               then emit_effect (AcquireLedger (mPrevLedgerHash c)) (c\<lparr>mAcquiringLedger := mPrevLedgerHash c, mHaveCorrectLCL := False\<rparr>)
               else c)
       | Some newLCL \<Rightarrow>
           rbind (require (\<not> li_open newLCL \<and> li_immutable newLCL) AssertFailed) (\<lambda>_.
           rbind (require (li_hash newLCL = lclHash) AssertFailed) (\<lambda>_.
           rbind (next_resolution newLCL) (\<lambda>r.
             Ok (c\<lparr>mPreviousLedger := newLCL, mPrevLedgerHash := lclHash, mHaveCorrectLCL := True, mCloseResolution := r\<rparr>))))))"

fun favored :: "uint256 \<Rightarrow> (uint256 \<times> int) list \<Rightarrow> uint256 \<Rightarrow> int \<Rightarrow> uint256" where
  "favored prev [] netLgr netLgrCount = netLgr"
| "favored prev ((h, n) # vals) netLgr netLgrCount =
     (if n > netLgrCount \<or> n = netLgrCount \<and> h = prev then favored prev vals h n else favored prev vals netLgr netLgrCount)"

definition checkLCL :: "env \<Rightarrow> consensus \<Rightarrow> consensus res" where
  "checkLCL e c =
     (let priorLedger = (if mHaveCorrectLCL c then li_parentHash (mPreviousLedger c) else 0);
          vals = getCurrentValidations e (mPrevLedgerHash c) priorLedger;
          netLgr = favored (mPrevLedgerHash c) vals (mPrevLedgerHash c) 0
      in if netLgr \<noteq> mPrevLedgerHash c then
           handleLCL e netLgr (if mHaveCorrectLCL c then emit_effect ViewChange c else c)
         else if li_hash (mPreviousLedger c) \<noteq> mPrevLedgerHash c then handleLCL e netLgr c
         else Ok c)"

section \<open>The state machine\<close>

text \<open>The loop of \<open>haveConsensus\<close>: agreements, disagreements, and disputes with sets not compared yet.\<close>

definition compare_position :: "(blob \<Rightarrow> uint256) \<Rightarrow> uint256 \<Rightarrow> uint256 \<Rightarrow> consensus \<Rightarrow> consensus res" where
  "compare_position sha ourPosition hash c =
     (if hash \<in> set (mCompares c) then Ok c
      else case (map_of (mAcquired c) hash, map_of (mAcquired c) ourPosition) of
          (Some (Some m1), Some (Some m2)) \<Rightarrow> createDisputes sha m2 m1 (c\<lparr>mCompares := List.insert hash (mCompares c)\<rparr>)
        | _ \<Rightarrow> Ok c)"

fun agree_loop :: "(blob \<Rightarrow> uint256) \<Rightarrow> uint256 \<Rightarrow> (NodeID, LedgerProposal) omap \<Rightarrow> int \<Rightarrow> int \<Rightarrow> consensus \<Rightarrow> (int \<times> int \<times> consensus) res" where
  "agree_loop sha ourPosition [] agree disagree c = Ok (agree, disagree, c)"
| "agree_loop sha ourPosition ((_, p) # ps) agree disagree c =
     (if isBowOut p then agree_loop sha ourPosition ps agree disagree c
      else if mCurrentHash p = ourPosition then agree_loop sha ourPosition ps (agree + 1) disagree c
      else rbind (compare_position sha ourPosition (mCurrentHash p) c) (agree_loop sha ourPosition ps agree (disagree + 1)))"

definition haveConsensus :: "(blob \<Rightarrow> uint256) \<Rightarrow> env \<Rightarrow> consensus \<Rightarrow> (bool \<times> consensus) res" where
  "haveConsensus sha e c =
     (case mOurPosition c of
        None \<Rightarrow> Throw NullDeref
      | Some p \<Rightarrow>
          rbind (agree_loop sha (mCurrentHash p) (mPeerPositions c) 0 0 c) (\<lambda>(agree, disagree, c).
          case checkConsensus (mPreviousProposers c) (agree + disagree) agree (getNodesAfter e (mPrevLedgerHash c))
                 (mPreviousMSeconds c) (mCurrentMSeconds c) of
            No \<Rightarrow> Ok (False, c)
          | MovedOn \<Rightarrow> Ok (True, c\<lparr>mConsensusFail := True\<rparr>)
          | Yes \<Rightarrow> Ok (True, c\<lparr>mConsensusFail := False\<rparr>)))"

definition beginAccept :: "consensus \<Rightarrow> consensus res" where
  "beginAccept c =
     rbind (our_set c) (\<lambda>consensusSet.
     Ok (emit_effect (AcceptJob consensusSet) (emit_effect (NewLCL (int (length (mPeerPositions c))) (mCurrentMSeconds c)) c)))"

definition closeLedger :: "(blob \<Rightarrow> uint256) \<Rightarrow> env \<Rightarrow> consensus \<Rightarrow> consensus res" where
  "closeLedger sha e c =
     (let c = emit_effect CheckOurValidation c;
          c = c\<lparr>round_state := establish, mConsensusStartTime := steady_now e, mCloseTime := closeTime_now e\<rparr>;
          c = emit_effect ApplyHeld (emit_effect StatusClosing (emit_effect (SetLastCloseTime (mCloseTime c)) c))
      in takeInitialPosition sha e c)"

text \<open>
  The clock is read as an \<open>int32_t\<close> and compared with a \<open>uint32_t\<close>: the difference and its product are unsigned 32-bit
  numbers, which the cast to \<open>int\<close> reads as signed ones.
\<close>

definition since_close :: "env \<Rightarrow> consensus \<Rightarrow> int" where
  "since_close e c =
     (let l = mPreviousLedger c;
          previousCloseCorrect = (mHaveCorrectLCL c \<and> li_closeAgree l \<and> li_closeTime l \<noteq> li_parentCloseTime l + 1);
          closeTime = (if previousCloseCorrect then li_closeTime l else lastCloseTime e);
          now = closeTime_now e
      in if now \<ge> closeTime then sint (1000 * (now - closeTime)) else - sint (1000 * (closeTime - now)))"

definition statePreClose :: "(blob \<Rightarrow> uint256) \<Rightarrow> env \<Rightarrow> consensus \<Rightarrow> consensus res" where
  "statePreClose sha e c =
     (let anyTransactions = (openTxs e \<noteq> []);
          idleInterval = max LEDGER_IDLE_INTERVAL (2 * li_closeTimeResolution (mPreviousLedger c))
      in if shouldCloseLedger anyTransactions (mPreviousProposers c) (int (length (mPeerPositions c)))
              (getTrustedValidationCount e (mPrevLedgerHash c)) (mPreviousMSeconds c) (since_close e c) (mCurrentMSeconds c) idleInterval
         then closeLedger sha e c else Ok c)"

definition stateEstablish :: "(blob \<Rightarrow> uint256) \<Rightarrow> env \<Rightarrow> consensus \<Rightarrow> consensus res" where
  "stateEstablish sha e c =
     (if mCurrentMSeconds c < LEDGER_MIN_CONSENSUS then Ok c
      else rbind (updateOurPositions sha e c) (\<lambda>c.
           rbind (haveConsensus sha e c) (\<lambda>(have', c).
           if \<not> have' then Ok c
           else if \<not> mHaveCloseTimeConsensus c then Ok c
           else beginAccept (c\<lparr>round_state := finished\<rparr>))))"

definition stateAccepted :: "consensus \<Rightarrow> consensus" where
  "stateAccepted c = emit_effect (EndConsensus (mHaveCorrectLCL c)) c"

definition timerEntry :: "(blob \<Rightarrow> uint256) \<Rightarrow> env \<Rightarrow> consensus \<Rightarrow> consensus res" where
  "timerEntry sha e c =
     rbind (if round_state c \<noteq> finished \<and> round_state c \<noteq> accepted then checkLCL e c else Ok c) (\<lambda>c.
     let ms = steady_now e - mConsensusStartTime c;
         c = c\<lparr>mCurrentMSeconds := ms, mClosePercent := cdiv (ms * 100) (mPreviousMSeconds c)\<rparr>
     in case round_state c of
          open' \<Rightarrow> statePreClose sha e c
        | establish \<Rightarrow> rbind (stateEstablish sha e c) (\<lambda>c. Ok (if round_state c = accepted then stateAccepted c else c))
        | finished \<Rightarrow> Ok c
        | accepted \<Rightarrow> Ok (stateAccepted c))"

definition leaveConsensus :: "env \<Rightarrow> consensus \<Rightarrow> consensus res" where
  "leaveConsensus e c =
     (if mProposing c then
        rbind
          (case mOurPosition c of
             Some p \<Rightarrow> if isBowOut p then Ok c else propose (c\<lparr>mOurPosition := Some (bowOut (steady_now e) p)\<rparr>)
           | None \<Rightarrow> Ok c)
          (\<lambda>c. Ok (c\<lparr>mProposing := False\<rparr>))
      else Ok c)"

text \<open>The constructor. \<open>hasKeys\<close>: the validation keys are set and no network ledger is needed; \<open>full\<close>: the operating mode.\<close>

definition LedgerConsensusImp_make :: "(blob \<Rightarrow> uint256) \<Rightarrow> env \<Rightarrow> int \<Rightarrow> int \<Rightarrow> uint256 \<Rightarrow> LedgerInfo \<Rightarrow> u32 \<Rightarrow> NodeID \<Rightarrow> bool \<Rightarrow> bool \<Rightarrow> consensus res" where
  "LedgerConsensusImp_make sha e previousProposers previousConvergeTime prevLCLHash previousLedger closeTime nodeID hasKeys full =
     rbind (require (previousConvergeTime \<noteq> 0) AssertFailed) (\<lambda>_.
     rbind (next_resolution previousLedger) (\<lambda>r.
     let c = \<lparr>round_state = open', mCloseTime = closeTime, mPrevLedgerHash = prevLCLHash, mAcquiringLedger = 0,
              mPreviousLedger = previousLedger, mOurPosition = None, mNodeID = nodeID, mProposing = (hasKeys \<and> full),
              mHaveCorrectLCL = (li_hash previousLedger = prevLCLHash), mConsensusFail = False, mCurrentMSeconds = 0, mClosePercent = 0,
              mCloseResolution = r, mHaveCloseTimeConsensus = False, mConsensusStartTime = steady_now e,
              mPreviousProposers = previousProposers, mPreviousMSeconds = previousConvergeTime, mPeerPositions = [], mAcquired = [],
              mDisputes = [], mCompares = [], mCloseTimes = [], mDeadNodes = [], effects = []\<rparr>
     in rbind (if mHaveCorrectLCL c then Ok c else handleLCL e (mPrevLedgerHash c) c) (\<lambda>c.
        rbind (playbackProposals e c) (\<lambda>c.
        if int (length (mPeerPositions c)) > cdiv (mPreviousProposers c) 2 then timerEntry sha e c else Ok c))))"

end
