(* ===== verification/Consensus_Inv.thy ===== *)
theory Consensus_Inv
  imports Consensus
begin

text \<open>
  The invariant of a consensus round: the counts of a dispute are its votes, only peers with a position vote, and
  our vote on a disputed transaction says whether our own transaction set contains it. Every method keeps the
  invariant and fails no assertion.
\<close>

section \<open>Transaction sets\<close>

text \<open>
  \<open>universe sha U\<close>: the transactions \<open>U\<close> in circulation are stored under their identifiers, and the digest has no
  collision among the messages hashed for sets of them.
\<close>

definition tx_set :: "SHAMapItem set \<Rightarrow> node \<Rightarrow> bool" where
  "tx_set U m \<longleftrightarrow> typed_ok True False m \<and> items m \<subseteq> U"

definition universe :: "(blob \<Rightarrow> uint256) \<Rightarrow> SHAMapItem set \<Rightarrow> bool" where
  "universe sha U \<longleftrightarrow>
     (\<forall>it \<in> U. 12 \<le> length (item_data it) \<and> item_key it = sha (leaf_message it tnTRANSACTION_NM)) \<and>
     no_collision sha (\<Union>m \<in> {m. tx_set U m}. messages sha m)"

lemma tx_set_keyed: "universe sha U \<Longrightarrow> tx_set U m \<Longrightarrow> keyed sha m"
proof -
  assume u: "universe sha U" "tx_set U m"
  have "snd x = tnTRANSACTION_NM \<and> fst x \<in> U" if "x \<in> set (leaves m)" for x
    using u(2) that by (auto simp: tx_set_def typed_ok_def all_type_def leaf_type_def items_def)
  then show ?thesis using u(1) by (simp add: keyed_def universe_def)
qed

lemma tx_set_no_collision: "universe sha U \<Longrightarrow> tx_set U a \<Longrightarrow> tx_set U b \<Longrightarrow> no_collision sha (messages sha a \<union> messages sha b)"
  unfolding universe_def by (elim conjE, rule no_collision_mono) auto

lemma tx_set_unique:
  assumes "universe sha U" "tx_set U a" "tx_set U b" "getNodeHash sha a = getNodeHash sha b"
  shows "a = b"
  using root_hash_determines [OF tx_set_no_collision tx_set_keyed tx_set_keyed] assms by (auto simp: tx_set_def)

lemma hasItem_peek: "hasItem m k \<longleftrightarrow> peekItem m k \<noteq> None"
  by (simp add: hasItem_def peekItem_def)

lemma leaf_in_messages: "x \<in> set (leaves n) \<Longrightarrow> leaf_message (fst x) (snd x) \<in> messages sha n"
proof (induction n rule: node_induct)
  case (Inner cs)
  then obtain b c where "getChild cs b = Some c" "x \<in> set (leaves c)" by (auto simp: in_leaves_Inner)
  then show ?case using Inner.IH messages_child by blast
qed simp

lemma peek_leaf:
  assumes "tx_set U m" "peekItem m k = Some it"
  shows "it \<in> U" "item_key it = k" "(it, tnTRANSACTION_NM) \<in> set (leaves m)"
proof -
  have s: "shape 0 0 m" using assms(1) by (simp add: tx_set_def typed_ok_def shamap_ok_iff)
  then have i: "it \<in> items m" "item_key it = k" using assms(2) peekItem_items by auto
  then show "it \<in> U" "item_key it = k" using assms(1) by (auto simp: tx_set_def)
  show "(it, tnTRANSACTION_NM) \<in> set (leaves m)"
    using i(1) assms(1) by (auto simp: items_def tx_set_def typed_ok_def all_type_def leaf_type_def)
qed

text \<open>A transaction identifier determines the transaction.\<close>

lemma same_tx:
  assumes u: "universe sha U" and "tx_set U a" "tx_set U b" "peekItem a k = Some x" "peekItem b k = Some y"
  shows "x = y"
proof -
  note a = peek_leaf [OF assms(2,4)] and b = peek_leaf [OF assms(3,5)]
  have "leaf_message x tnTRANSACTION_NM \<in> messages sha a \<union> messages sha b" "leaf_message y tnTRANSACTION_NM \<in> messages sha a \<union> messages sha b"
    using leaf_in_messages [OF a(3), of sha] leaf_in_messages [OF b(3), of sha] by auto
  moreover have "sha (leaf_message x tnTRANSACTION_NM) = sha (leaf_message y tnTRANSACTION_NM)"
    using u a(1,2) b(1,2) by (auto simp: universe_def)
  ultimately have "leaf_message x tnTRANSACTION_NM = leaf_message y tnTRANSACTION_NM"
    using tx_set_no_collision [OF u assms(2,3)] by (auto simp: no_collision_def inj_on_def)
  then have "item_data x = item_data y" by (simp add: leaf_message_def)
  then show ?thesis using same_item [of x y] a(2) b(2) by simp
qed

lemma tx_set_peek_eqI: "tx_set U m \<Longrightarrow> typed_ok True False m' \<Longrightarrow> (\<And>k it. peekItem m' k = Some it \<Longrightarrow> it \<in> U) \<Longrightarrow> tx_set U m'"
proof -
  assume a: "typed_ok True False m'" "\<And>k it. peekItem m' k = Some it \<Longrightarrow> it \<in> U"
  have "it \<in> U" if "it \<in> items m'" for it
    using peekItem_items [of m' "item_key it" it] a that by (auto simp: typed_ok_def shamap_ok_iff)
  then show ?thesis using a(1) by (auto simp: tx_set_def)
qed

lemma add_tx:
  assumes "universe sha U" "tx_set U m" "it \<in> U"
  shows "\<exists>b m'. addGiveItem m it True False = Ok (b, m') \<and> tx_set U m' \<and> (\<forall>k. hasItem m' k \<longleftrightarrow> hasItem m k \<or> k = item_key it)"
proof (cases "peekItem m (item_key it)")
  case None
  then obtain m' where m': "addGiveItem m it True False = Ok (True, m')" "typed_ok True False m'" "peekItem m' = (peekItem m)(item_key it \<mapsto> it)"
    using sm.add_new [of True False m it] assms by (auto simp: tx_set_def universe_def)
  have "tx_set U m'"
    by (rule tx_set_peek_eqI [OF assms(2) m'(2)]) (use m'(3) peek_leaf(1) [OF assms(2)] assms(3) in \<open>auto split: if_splits\<close>)
  then show ?thesis using m' by (auto simp: hasItem_peek)
next
  case (Some x)
  then show ?thesis using sm.add_old [of True False m it] assms(2) by (auto simp: tx_set_def hasItem_peek)
qed

lemma del_tx:
  assumes "tx_set U m"
  shows "\<exists>b m'. delItem m k = Ok (b, m') \<and> tx_set U m' \<and> (\<forall>k'. hasItem m' k' \<longleftrightarrow> hasItem m k' \<and> k' \<noteq> k)"
proof (cases "peekItem m k")
  case None
  then show ?thesis using sm.del_new [of True False m k] assms by (auto simp: tx_set_def hasItem_peek)
next
  case (Some x)
  then obtain m' where m': "delItem m k = Ok (True, m')" "typed_ok True False m'" "peekItem m' = (peekItem m)(k := None)"
    using sm.del_old [of True False m k] assms by (auto simp: tx_set_def)
  have "tx_set U m'" by (rule tx_set_peek_eqI [OF assms m'(2)]) (use m'(3) peek_leaf(1) [OF assms] in \<open>auto split: if_splits\<close>)
  then show ?thesis using m' by (auto simp: hasItem_peek)
qed

lemma empty_tx_set [simp]: "tx_set U SHAMap_make"
  using sm.invar_empty [of True False] by (auto simp: tx_set_def items_def SHAMap_make_def)

section \<open>Votes\<close>

lemma peer_votes_keep:
  "mTransactionID (peer_votes k acq ps d) = mTransactionID d \<and> mOurVote (peer_votes k acq ps d) = mOurVote d \<and>
    transaction (peer_votes k acq ps d) = transaction d"
  by (induction k acq ps d rule: peer_votes.induct) (auto split: option.splits)

lemma peer_votes_ok: "dispute_ok d \<Longrightarrow> dispute_ok (peer_votes k acq ps d)"
  by (induction k acq ps d rule: peer_votes.induct) (auto simp: setVote_ok split: option.splits)

lemma peer_votes_dom:
  "dispute_ok d \<Longrightarrow> dom (map_of (mVotes (peer_votes k acq ps d))) \<subseteq> dom (map_of (mVotes d)) \<union> fst ` set ps"
proof (induction k acq ps d rule: peer_votes.induct)
  case (2 k acq peer p ps d)
  let ?d = "case map_of acq (mCurrentHash p) of Some (Some m) \<Rightarrow> setVote peer (hasItem m k) d | _ \<Rightarrow> d"
  have d: "dispute_ok ?d" "dom (map_of (mVotes ?d)) \<subseteq> insert peer (dom (map_of (mVotes d)))"
    using "2.prems" by (auto simp: setVote_ok setVote_votes split: option.splits)
  have "dom (map_of (mVotes (peer_votes k acq ps ?d))) \<subseteq> dom (map_of (mVotes ?d)) \<union> fst ` set ps" by (rule "2.IH" [OF d(1)])
  also have "\<dots> \<subseteq> dom (map_of (mVotes d)) \<union> fst ` set ((peer, p) # ps)" using d(2) by auto
  finally show ?case unfolding peer_votes.simps .
qed simp

lemma fold_setVote:
  "dispute_ok d \<Longrightarrow> dispute_ok (fold (\<lambda>p. setVote p v) ps d) \<and> mTransactionID (fold (\<lambda>p. setVote p v) ps d) = mTransactionID d \<and>
    mOurVote (fold (\<lambda>p. setVote p v) ps d) = mOurVote d \<and> transaction (fold (\<lambda>p. setVote p v) ps d) = transaction d \<and>
    dom (map_of (mVotes (fold (\<lambda>p. setVote p v) ps d))) = dom (map_of (mVotes d)) \<union> set ps"
  by (induction ps arbitrary: d) (auto simp: setVote_ok setVote_votes)

section \<open>The invariant\<close>

text \<open>Our vote on every dispute is what our transaction set says.\<close>

definition votes_match :: "node \<Rightarrow> (uint256, DisputedTx) omap \<Rightarrow> bool" where
  "votes_match m ds \<longleftrightarrow> (\<forall>(k, d) \<in> set ds. mOurVote d = hasItem m k)"

definition position_ok :: "LedgerProposal option \<Rightarrow> (uint256, node option) omap \<Rightarrow> (uint256, DisputedTx) omap \<Rightarrow> bool" where
  "position_ok ours acq ds \<longleftrightarrow>
     (case ours of
        None \<Rightarrow> ds = []
      | Some p \<Rightarrow> (\<exists>m. map_of acq (mCurrentHash p) = Some (Some m) \<and> (\<not> isBowOut p \<longrightarrow> votes_match m ds)))"

definition disputed_ok :: "SHAMapItem set \<Rightarrow> NodeID set \<Rightarrow> uint256 \<times> DisputedTx \<Rightarrow> bool" where
  "disputed_ok U peers kd \<longleftrightarrow> (case kd of (k, d) \<Rightarrow>
     dispute_ok d \<and> mTransactionID d = k \<and> \<lparr>item_key = k, item_data = transaction d\<rparr> \<in> U \<and> dom (map_of (mVotes d)) \<subseteq> peers)"

definition peers_ok :: "NodeID list \<Rightarrow> (NodeID, LedgerProposal) omap \<Rightarrow> bool" where
  "peers_ok dead ps \<longleftrightarrow> om_ok ps \<and> (\<forall>(k, p) \<in> set ps. mPeerID p = k \<and> \<not> isBowOut p \<and> k \<notin> set dead)"

definition acquired_ok :: "(blob \<Rightarrow> uint256) \<Rightarrow> SHAMapItem set \<Rightarrow> (uint256, node option) omap \<Rightarrow> bool" where
  "acquired_ok sha U acq \<longleftrightarrow> om_ok acq \<and> (\<forall>h x. map_of acq h = Some x \<longrightarrow> (\<exists>m. x = Some m \<and> tx_set U m \<and> getNodeHash sha m = h))"

definition base_ok :: "(blob \<Rightarrow> uint256) \<Rightarrow> SHAMapItem set \<Rightarrow> consensus \<Rightarrow> bool" where
  "base_ok sha U c \<longleftrightarrow> peers_ok (mDeadNodes c) (mPeerPositions c) \<and> acquired_ok sha U (mAcquired c) \<and> om_ok (mDisputes c) \<and>
     (\<forall>kd \<in> set (mDisputes c). disputed_ok U (fst ` set (mPeerPositions c)) kd) \<and>
     mCloseResolution c \<in> set ledgerPossibleTimeResolutions"

definition cons_ok :: "(blob \<Rightarrow> uint256) \<Rightarrow> SHAMapItem set \<Rightarrow> consensus \<Rightarrow> bool" where
  "cons_ok sha U c \<longleftrightarrow> base_ok sha U c \<and> position_ok (mOurPosition c) (mAcquired c) (mDisputes c)"

lemmas cons_defs = cons_ok_def base_ok_def

lemma base_ok_effect [simp]: "base_ok sha U (emit_effect e c) \<longleftrightarrow> base_ok sha U c"
  by (simp add: base_ok_def emit_effect_def)

lemma effect_fields [simp]:
  "mOurPosition (emit_effect e c) = mOurPosition c" "mAcquired (emit_effect e c) = mAcquired c" "mDisputes (emit_effect e c) = mDisputes c"
  "mPeerPositions (emit_effect e c) = mPeerPositions c" "round_state (emit_effect e c) = round_state c"
  "mProposing (emit_effect e c) = mProposing c" "mPreviousLedger (emit_effect e c) = mPreviousLedger c"
  "mPrevLedgerHash (emit_effect e c) = mPrevLedgerHash c"
  by (simp_all add: emit_effect_def)

lemma cons_ok_effect [simp]: "cons_ok sha U (emit_effect e c) \<longleftrightarrow> cons_ok sha U c"
  by (simp add: cons_ok_def)

lemma acquired_put: "acquired_ok sha U acq \<Longrightarrow> tx_set U m \<Longrightarrow> getNodeHash sha m = h \<Longrightarrow> acquired_ok sha U (om_put h (Some m) acq)"
  by (auto simp: acquired_ok_def om_put_ok)

lemma no_null: "acquired_ok sha U acq \<Longrightarrow> map_of acq h \<noteq> Some None"
  unfolding acquired_ok_def by blast

lemma om_ok_map: "om_ok m \<Longrightarrow> om_ok (map (\<lambda>(k, d). (k, f k d)) m)"
  by (simp add: om_ok_def comp_def case_prod_unfold)

text \<open>A change of every dispute that keeps what it is about and our vote on it.\<close>

lemma map_disputes_base:
  assumes "base_ok sha U c" "\<And>k d. (k, d) \<in> set (mDisputes c) \<Longrightarrow> disputed_ok U (fst ` set (mPeerPositions c)) (k, f k d)"
  shows "base_ok sha U (map_disputes f c)"
  using assms om_ok_map [of "mDisputes c" f] by (auto simp: base_ok_def map_disputes_def)

lemma map_disputes_fields [simp]:
  "mOurPosition (map_disputes f c) = mOurPosition c" "mAcquired (map_disputes f c) = mAcquired c"
  "mPeerPositions (map_disputes f c) = mPeerPositions c" "mDeadNodes (map_disputes f c) = mDeadNodes c"
  "round_state (map_disputes f c) = round_state c"
  by (simp_all add: map_disputes_def)

lemma map_disputes_position:
  assumes "\<And>k d. (k, d) \<in> set (mDisputes c) \<Longrightarrow> mOurVote (f k d) = mOurVote d"
  shows "position_ok p a (mDisputes (map_disputes f c)) \<longleftrightarrow> position_ok p a (mDisputes c)"
proof -
  have "votes_match m (mDisputes (map_disputes f c)) \<longleftrightarrow> votes_match m (mDisputes c)" for m
    using assms by (force simp: votes_match_def map_disputes_def)
  then show ?thesis by (simp add: position_ok_def map_disputes_def split: option.splits)
qed

lemma disputed_setVote: "disputed_ok U P (k, d) \<Longrightarrow> peer \<in> P \<Longrightarrow> disputed_ok U P (k, setVote peer v d)"
  by (auto simp: disputed_ok_def setVote_ok setVote_votes)

lemma disputed_unVote: "disputed_ok U P (k, d) \<Longrightarrow> disputed_ok U (P - {peer}) (k, unVote peer d)"
  by (auto simp: disputed_ok_def unVote_ok unVote_votes)

section \<open>Disputes\<close>

text \<open>The disputes that were not there before have our vote and the votes of the peers whose sets are known.\<close>

definition only_new :: "consensus \<Rightarrow> consensus \<Rightarrow> bool" where
  "only_new c c' \<longleftrightarrow> map_of (mDisputes c) \<subseteq>\<^sub>m map_of (mDisputes c') \<and> (\<forall>k d. map_of (mDisputes c') k = Some d \<longrightarrow> map_of (mDisputes c) k = Some d \<or>
     map_of (mDisputes c) k = None \<and> (\<exists>tx v. our_vote k c = Ok v \<and> d = peer_votes k (mAcquired c) (mPeerPositions c) (DisputedTx_make k tx v)))"

lemma only_new_refl [simp]: "only_new c c"
  by (simp add: only_new_def)

lemma only_new_trans:
  assumes "only_new a b" "only_new b c" "b = a\<lparr>mDisputes := ds, effects := es\<rparr>"
  shows "only_new a c"
proof -
  have f: "our_vote k b = our_vote k a" "mAcquired b = mAcquired a" "mPeerPositions b = mPeerPositions a" for k
    unfolding assms(3) by (simp_all add: our_vote_def split: option.split)
  show ?thesis
    unfolding only_new_def
  proof (intro conjI allI impI)
    show "map_of (mDisputes a) \<subseteq>\<^sub>m map_of (mDisputes c)" using assms(1,2) map_le_trans unfolding only_new_def by blast
    fix k d assume "map_of (mDisputes c) k = Some d"
    from conjunct2 [OF assms(2) [unfolded only_new_def], rule_format, OF this]
    show "map_of (mDisputes a) k = Some d \<or> map_of (mDisputes a) k = None \<and>
      (\<exists>tx v. our_vote k a = Ok v \<and> d = peer_votes k (mAcquired a) (mPeerPositions a) (DisputedTx_make k tx v))"
    proof (elim disjE conjE)
      assume "map_of (mDisputes b) k = Some d"
      then show ?thesis by (rule conjunct2 [OF assms(1) [unfolded only_new_def], rule_format])
    next
      assume n: "map_of (mDisputes b) k = None"
        and e: "\<exists>tx v. our_vote k b = Ok v \<and> d = peer_votes k (mAcquired b) (mPeerPositions b) (DisputedTx_make k tx v)"
      have "map_of (mDisputes a) k = None" using assms(1) n unfolding only_new_def map_le_def by (metis domIff)
      then show ?thesis using e unfolding f by (intro disjI2 conjI)
    qed
  qed
qed

lemma addDisputed_ok:
  assumes ok: "cons_ok sha U c" and "mOurPosition c \<noteq> None" "\<lparr>item_key = k, item_data = tx\<rparr> \<in> U"
  shows "\<exists>c'. addDisputedTransaction k tx c = Ok c' \<and> cons_ok sha U c' \<and>
    c' = c\<lparr>mDisputes := mDisputes c', effects := effects c'\<rparr> \<and> dom (map_of (mDisputes c')) = insert k (dom (map_of (mDisputes c))) \<and> only_new c c'"
proof (cases "map_of (mDisputes c) k")
  case (Some d)
  then show ?thesis using ok by (auto simp: addDisputedTransaction_def)
next
  case None
  obtain p where p: "mOurPosition c = Some p" using assms(2) by auto
  then obtain m where m: "map_of (mAcquired c) (mCurrentHash p) = Some (Some m)" "\<not> isBowOut p \<longrightarrow> votes_match m (mDisputes c)"
    using ok by (auto simp: cons_ok_def position_ok_def)
  let ?d = "peer_votes k (mAcquired c) (mPeerPositions c) (DisputedTx_make k tx (hasItem m k))"
  let ?c = "c\<lparr>mDisputes := om_put k ?d (mDisputes c)\<rparr>"
  have a: "addDisputedTransaction k tx c = Ok (emit_effect (RelayTransaction k tx) ?c)"
    using None p m by (simp add: addDisputedTransaction_def our_vote_def Let_def)
  have om: "om_ok (mDisputes c)" using ok by (simp add: cons_defs)
  have new: "disputed_ok U (fst ` set (mPeerPositions c)) (k, ?d)" "mOurVote ?d = hasItem m k"
    using peer_votes_keep [of k] peer_votes_ok [of "DisputedTx_make k tx (hasItem m k)" k] assms(3)
      peer_votes_dom [of "DisputedTx_make k tx (hasItem m k)" k] by (auto simp: disputed_ok_def)
  have s: "set (om_put k ?d (mDisputes c)) \<subseteq> insert (k, ?d) (set (mDisputes c))" by (rule set_om_put)
  have "cons_ok sha U ?c"
    unfolding cons_defs
  proof (intro conjI)
    have "votes_match m (om_put k ?d (mDisputes c))" if "votes_match m (mDisputes c)" using that s new(2) unfolding votes_match_def by blast
    then show "position_ok (mOurPosition ?c) (mAcquired ?c) (mDisputes ?c)" using p m by (simp add: position_ok_def)
    show "om_ok (mDisputes ?c)" using om by (simp add: om_put_ok)
    show "\<forall>kd \<in> set (mDisputes ?c). disputed_ok U (fst ` set (mPeerPositions ?c)) kd"
      using ok s new(1) unfolding cons_defs by (simp, blast)
  qed (use ok in \<open>simp_all add: cons_defs\<close>)
  then have "cons_ok sha U (emit_effect (RelayTransaction k tx) ?c)" by simp
  moreover have "dom (map_of (mDisputes ?c)) = insert k (dom (map_of (mDisputes c)))" using om by simp
  moreover have "our_vote k c = Ok (hasItem m k)" using p m by (simp add: our_vote_def)
  then have "only_new c (emit_effect (RelayTransaction k tx) ?c)" using om None by (auto simp: only_new_def map_le_def)
  ultimately show ?thesis using a by (intro exI [of _ "emit_effect (RelayTransaction k tx) ?c"]) (simp add: emit_effect_def)
qed

lemma dispute_loop_ok:
  assumes "cons_ok sha U c" "mOurPosition c \<noteq> None"
    and "\<forall>(k, x, y) \<in> set ds. (x = None \<longleftrightarrow> y \<noteq> None) \<and> (\<forall>it \<in> set_option x \<union> set_option y. it \<in> U \<and> item_key it = k)"
  shows "\<exists>c'. dispute_loop ds c = Ok c' \<and> cons_ok sha U c' \<and>
    c' = c\<lparr>mDisputes := mDisputes c', effects := effects c'\<rparr> \<and> dom (map_of (mDisputes c')) = fst ` set ds \<union> dom (map_of (mDisputes c)) \<and> only_new c c'"
  using assms
proof (induction ds arbitrary: c)
  case (Cons x ds)
  obtain k a b where x: "x = (k, a, b)" by (cases x)
  obtain it where it: "a = Some it \<and> b = None \<or> a = None \<and> b = Some it" "it \<in> U" "item_key it = k"
    using Cons.prems(3) x by (cases a; cases b) auto
  then have "\<lparr>item_key = k, item_data = item_data it\<rparr> \<in> U" by (metis (full_types) SHAMapItem.surjective old.unit.exhaust)
  from addDisputed_ok [OF Cons.prems(1,2) this] obtain c1 where c1: "addDisputedTransaction k (item_data it) c = Ok c1" "cons_ok sha U c1"
    "c1 = c\<lparr>mDisputes := mDisputes c1, effects := effects c1\<rparr>" "dom (map_of (mDisputes c1)) = insert k (dom (map_of (mDisputes c)))" "only_new c c1" by blast
  have p: "mOurPosition c1 \<noteq> None" by (subst c1(3)) (simp add: Cons.prems(2))
  from Cons.IH [OF c1(2) p] obtain c2 where c2: "dispute_loop ds c1 = Ok c2" "cons_ok sha U c2"
    "c2 = c1\<lparr>mDisputes := mDisputes c2, effects := effects c2\<rparr>" "dom (map_of (mDisputes c2)) = fst ` set ds \<union> dom (map_of (mDisputes c1))" "only_new c1 c2"
    using Cons.prems(3) by auto
  have n: "only_new c c2" by (rule only_new_trans [OF c1(5) c2(5) c1(3)])
  have "dispute_loop (x # ds) c = Ok c2" using it(1) c1(1) c2(1) x by auto
  moreover have "c2 = c\<lparr>mDisputes := mDisputes c2, effects := effects c2\<rparr>" by (subst c2(3), subst c1(3)) simp
  ultimately show ?case using c2 c1(4) n x by auto
qed auto

lemma createDisputes_ok:
  assumes u: "universe sha U" and ok: "cons_ok sha U c" and "mOurPosition c \<noteq> None" and t: "tx_set U a" "tx_set U b"
  shows "\<exists>c'. createDisputes sha a b c = Ok c' \<and> cons_ok sha U c' \<and> c' = c\<lparr>mDisputes := mDisputes c', effects := effects c'\<rparr> \<and>
    dom (map_of (mDisputes c')) \<subseteq> differing a b \<union> dom (map_of (mDisputes c)) \<and>
    (card (differing a b) < 16384 \<longrightarrow> dom (map_of (mDisputes c')) = differing a b \<union> dom (map_of (mDisputes c))) \<and> only_new c c'"
proof (cases "getNodeHash sha a = getNodeHash sha b")
  case True
  then have "a = b" by (rule tx_set_unique [OF u t])
  then show ?thesis using ok by (auto simp: createDisputes_def differing_def)
next
  case False
  obtain g D where D: "compare sha a b 16384 = (g, D)" by (cases "compare sha a b 16384")
  have ty: "typed_ok True False a" "typed_ok True False b" and z: "(0 :: int) < 16384" using t by (simp_all add: tx_set_def)
  note d = compare_differences [OF tx_set_no_collision [OF u t] tx_set_keyed [OF u t(1)] tx_set_keyed [OF u t(2)] ty z D]
  have d1: "om_ok D" "g \<longleftrightarrow> int (card (differing a b)) < 16384"
    "g \<longrightarrow> (\<forall>k. map_of D k = (if peekItem a k = peekItem b k then None else Some (peekItem a k, peekItem b k)))"
    "\<And>k v. map_of D k = Some v \<Longrightarrow> v = (peekItem a k, peekItem b k) \<and> k \<in> differing a b"
    using d by blast+
  have el: "v = (peekItem a k, peekItem b k) \<and> k \<in> differing a b" if "(k, v) \<in> set D" for k v
    using d1(4) om_in_set [OF d1(1)] that by blast
  have "(x = None \<longleftrightarrow> y \<noteq> None) \<and> (\<forall>it \<in> set_option x \<union> set_option y. it \<in> U \<and> item_key it = k)" if "(k, x, y) \<in> set D" for k x y
  proof -
    have xy: "x = peekItem a k" "y = peekItem b k" "x \<noteq> y" using el [OF that] by (auto simp: differing_def)
    have "it \<in> U \<and> item_key it = k" if "x = Some it \<or> y = Some it" for it
      using that peek_leaf(1,2) [OF t(1), of k it] peek_leaf(1,2) [OF t(2), of k it] unfolding xy(1,2) by (elim disjE) simp_all
    moreover have "x = None \<or> y = None"
    proof (rule ccontr)
      assume "\<not> (x = None \<or> y = None)"
      then obtain v w where vw: "x = Some v" "y = Some w" by auto
      then have "v = w" using same_tx [OF u t, of k v w] unfolding xy(1,2) by simp
      then show False using vw xy(3) by simp
    qed
    ultimately show ?thesis using xy(3) by (elim disjE) auto
  qed
  then have "\<forall>(k, x, y) \<in> set D. (x = None \<longleftrightarrow> y \<noteq> None) \<and> (\<forall>it \<in> set_option x \<union> set_option y. it \<in> U \<and> item_key it = k)" by blast
  from dispute_loop_ok [OF ok assms(3) this] obtain c' where c': "dispute_loop D c = Ok c'" "cons_ok sha U c'"
    "c' = c\<lparr>mDisputes := mDisputes c', effects := effects c'\<rparr>" "dom (map_of (mDisputes c')) = fst ` set D \<union> dom (map_of (mDisputes c))" "only_new c c'" by blast
  have sub: "fst ` set D \<subseteq> differing a b" using el by fastforce
  moreover have "differing a b \<subseteq> fst ` set D" if "card (differing a b) < 16384"
    using d1(2,3) that by (auto simp: differing_def dom_map_of_conv_image_fst [symmetric])
  ultimately show ?thesis using c' False D by (intro exI [of _ c']) (auto simp: createDisputes_def)
qed

section \<open>Transaction sets that arrive\<close>

definition same_frame :: "consensus \<Rightarrow> consensus \<Rightarrow> bool" where
  "same_frame c c' \<longleftrightarrow> mOurPosition c' = mOurPosition c \<and> round_state c' = round_state c \<and> mPeerPositions c' = mPeerPositions c"

lemma same_frame_simps [simp]:
  "same_frame c c" "same_frame c (emit_effect e c') \<longleftrightarrow> same_frame c c'" "same_frame (emit_effect e c) c' \<longleftrightarrow> same_frame c c'"
  "same_frame c (map_disputes f c') \<longleftrightarrow> same_frame c c'"
  by (auto simp: same_frame_def)

lemma same_frame_trans: "same_frame a b \<Longrightarrow> same_frame b c \<Longrightarrow> same_frame a c"
  by (simp add: same_frame_def)

lemma dispute_frame: "c' = c\<lparr>mDisputes := ds, effects := es\<rparr> \<Longrightarrow> same_frame c c' \<and> mAcquired c' = mAcquired c"
  by (simp add: same_frame_def)

lemma adjustCount_ok:
  assumes "base_ok sha U c" "set peers \<subseteq> fst ` set (mPeerPositions c)"
  shows "base_ok sha U (adjustCount m peers c)"
    and "position_ok p a (mDisputes (adjustCount m peers c)) \<longleftrightarrow> position_ok p a (mDisputes c)"
proof -
  have d: "disputed_ok U (fst ` set (mPeerPositions c)) (k, d)" if "(k, d) \<in> set (mDisputes c)" for k d
    using assms(1) that by (auto simp: base_ok_def)
  show "base_ok sha U (adjustCount m peers c)"
    unfolding adjustCount_def
  proof (rule map_disputes_base [OF assms(1)])
    fix k x assume x: "(k, x) \<in> set (mDisputes c)"
    show "disputed_ok U (fst ` set (mPeerPositions c)) (k, fold (\<lambda>p. setVote p (hasItem m (mTransactionID x))) peers x)"
      using d [OF x] fold_setVote [of x "hasItem m (mTransactionID x)" peers] assms(2) by (auto simp: disputed_ok_def)
  qed
  show "position_ok p a (mDisputes (adjustCount m peers c)) \<longleftrightarrow> position_ok p a (mDisputes c)"
    unfolding adjustCount_def using d fold_setVote by (intro map_disputes_position) (auto simp: disputed_ok_def)
qed

lemma adjustCount_fields [simp]: "mAcquired (adjustCount m ps c) = mAcquired c" "same_frame c' (adjustCount m ps c) \<longleftrightarrow> same_frame c' c"
  by (simp_all add: adjustCount_def)

lemma new_disputes_ok:
  assumes u: "universe sha U" and b: "base_ok sha U c" and t: "tx_set U m"
    and p: "position_ok (mOurPosition c) (mAcquired c) (mDisputes c) \<or> (\<exists>p. mOurPosition c = Some p \<and> mCurrentHash p = h)"
  shows "\<exists>c'. new_disputes sha h m c = Ok c' \<and> base_ok sha U c' \<and> same_frame c c' \<and> mAcquired c' = mAcquired c \<and>
    (position_ok (mOurPosition c) (mAcquired c) (mDisputes c) \<longrightarrow> position_ok (mOurPosition c) (mAcquired c) (mDisputes c')) \<and>
    ((\<exists>p. mOurPosition c = Some p \<and> mCurrentHash p = h) \<longrightarrow> mDisputes c' = mDisputes c)"
proof (cases "\<exists>p. mOurPosition c = Some p \<and> \<not> isBowOut p \<and> h \<noteq> mCurrentHash p")
  case True
  then obtain q where q: "mOurPosition c = Some q" "\<not> isBowOut q" "h \<noteq> mCurrentHash q" by blast
  let ?c = "c\<lparr>mCompares := List.insert h (mCompares c)\<rparr>"
  have pos: "position_ok (mOurPosition c) (mAcquired c) (mDisputes c)" using p q by auto
  then obtain m2 where m2: "map_of (mAcquired c) (mCurrentHash q) = Some (Some m2)" using q by (auto simp: position_ok_def)
  have "tx_set U m2" using b m2 unfolding base_ok_def acquired_ok_def by blast
  moreover have "cons_ok sha U ?c" using b pos by (simp add: cons_defs)
  ultimately obtain c' where c': "createDisputes sha m2 m ?c = Ok c'" "cons_ok sha U c'" "c' = ?c\<lparr>mDisputes := mDisputes c', effects := effects c'\<rparr>"
    using createDisputes_ok [OF u, of ?c m2 m] q t by auto
  have f: "same_frame c c'" "mAcquired c' = mAcquired c" by (subst c'(3), simp add: same_frame_def)+
  then show ?thesis using q m2 c'(1,2) by (auto simp: new_disputes_def cons_ok_def same_frame_def)
next
  case False
  then have "new_disputes sha h m c = Ok c" by (auto simp: new_disputes_def split: option.splits)
  then show ?thesis using b by auto
qed

lemma mapComplete_ok:
  assumes u: "universe sha U" and b: "base_ok sha U c" and t: "tx_set U m" "getNodeHash sha m = h"
    and p: "position_ok (mOurPosition c) (mAcquired c) (mDisputes c) \<or>
      (\<exists>p. mOurPosition c = Some p \<and> mCurrentHash p = h \<and> (\<not> isBowOut p \<longrightarrow> votes_match m (mDisputes c)))"
  shows "\<exists>c'. mapCompleteInternal sha h (Some m) acq c = Ok c' \<and> cons_ok sha U c' \<and> same_frame c c' \<and> map_of (mAcquired c') h = Some (Some m)"
proof (cases "map_of (mAcquired c) h")
  case (Some x)
  have a: "acquired_ok sha U (mAcquired c)" using b by (simp add: base_ok_def)
  then obtain m2 where "x = Some m2" "tx_set U m2" "getNodeHash sha m2 = h" using Some unfolding acquired_ok_def by blast
  then have x: "x = Some m" using tx_set_unique [OF u t(1), of m2] t(2) by simp
  then have "position_ok (mOurPosition c) (mAcquired c) (mDisputes c)" using p Some by (auto simp: position_ok_def)
  then show ?thesis using b Some x t(2) by (auto simp: mapCompleteInternal_def require_def cons_ok_def)
next
  case None
  define c1 where "c1 = emit_effect (SendHaveTxSet h) (if acq then c else emit_effect (GiveSet h) c)"
  have c1: "base_ok sha U c1" "same_frame c c1" "mAcquired c1 = mAcquired c" "mDisputes c1 = mDisputes c" "mOurPosition c1 = mOurPosition c"
    using b by (auto simp: c1_def)
  obtain c2 where c2: "new_disputes sha h m c1 = Ok c2" "base_ok sha U c2" "same_frame c1 c2" "mAcquired c2 = mAcquired c1"
    "position_ok (mOurPosition c1) (mAcquired c1) (mDisputes c1) \<longrightarrow> position_ok (mOurPosition c1) (mAcquired c1) (mDisputes c2)"
    "(\<exists>p. mOurPosition c1 = Some p \<and> mCurrentHash p = h) \<longrightarrow> mDisputes c2 = mDisputes c1"
    using new_disputes_ok [OF u c1(1) t(1), of h] p c1(3-5) by auto
  define c3 where "c3 = c2\<lparr>mAcquired := om_put h (Some m) (mAcquired c2)\<rparr>"
  define peers where "peers = map (\<lambda>(_, p). mPeerID p) (filter (\<lambda>(_, p). mCurrentHash p = h) (mPeerPositions c3))"
  define c4 where "c4 = (if peers \<noteq> [] then adjustCount m peers c3 else c3)"
  have r: "mapCompleteInternal sha h (Some m) acq c = Ok c4"
    using None c2(1) t(2) unfolding c4_def peers_def c3_def c1_def
    by (simp add: mapCompleteInternal_def require_def Let_def)
  have om: "om_ok (mAcquired c2)" using c2(2) by (simp add: base_ok_def acquired_ok_def)
  have acq: "map_of (mAcquired c3) = (map_of (mAcquired c2))(h \<mapsto> Some m)" using om by (simp add: c3_def)
  have b3: "base_ok sha U c3" using c2(2) acquired_put [OF _ t] by (simp add: base_ok_def c3_def)
  have pos: "position_ok (mOurPosition c) (mAcquired c3) (mDisputes c2)"
  proof (cases "mOurPosition c")
    case n: None
    then have "mDisputes c1 = []" "position_ok (mOurPosition c1) (mAcquired c1) (mDisputes c1)" using p c1 by (auto simp: position_ok_def)
    then show ?thesis using c2(5) n c1(5) by (simp add: position_ok_def)
  next
    case (Some q)
    show ?thesis
    proof (cases "mCurrentHash q = h")
      case True
      then have "\<not> isBowOut q \<longrightarrow> votes_match m (mDisputes c2)" using p Some None c2(6) c1(4,5) by (auto simp: position_ok_def)
      then show ?thesis using Some True acq by (simp add: position_ok_def)
    next
      case False
      then have "position_ok (mOurPosition c) (mAcquired c1) (mDisputes c2)" using p Some c2(5) c1(3-5) by auto
      then show ?thesis using Some False acq c2(4) by (simp add: position_ok_def)
    qed
  qed
  have "peers_ok (mDeadNodes c3) (mPeerPositions c3)" using b3 by (simp add: base_ok_def)
  then have sub: "set peers \<subseteq> fst ` set (mPeerPositions c3)" by (force simp: peers_def peers_ok_def)
  have "base_ok sha U c4" "position_ok (mOurPosition c) (mAcquired c3) (mDisputes c4)" "mAcquired c4 = mAcquired c3"
    using b3 adjustCount_ok [OF b3 sub, where m = m] pos by (auto simp: c4_def c3_def)
  moreover have "same_frame c c3" using same_frame_trans [OF c1(2) c2(3)] by (simp add: c3_def same_frame_def)
  then have f: "same_frame c c4" by (simp add: c4_def)
  moreover have "mOurPosition c4 = mOurPosition c" using f by (simp add: same_frame_def)
  ultimately show ?thesis using r acq f by (intro exI [of _ c4]) (auto simp: cons_ok_def)
qed

section \<open>Peer positions\<close>

definition env_ok :: "(blob \<Rightarrow> uint256) \<Rightarrow> SHAMapItem set \<Rightarrow> env \<Rightarrow> bool" where
  "env_ok sha U e \<longleftrightarrow> (\<forall>h m. getSet e h = Some m \<longrightarrow> tx_set U m \<and> getNodeHash sha m = h) \<and>
     (\<forall>h l. getLedgerByHash e h = Some l \<longrightarrow> li_hash l = h \<and> li_closeTimeResolution l \<in> set ledgerPossibleTimeResolutions \<and> li_seq l + 1 \<noteq> 0 \<and>
        \<not> li_open l \<and> li_immutable l) \<and>
     set (openTxs e) \<subseteq> U \<and> set (votedTxs e) \<subseteq> U"

definition same_round :: "consensus \<Rightarrow> consensus \<Rightarrow> bool" where
  "same_round c c' \<longleftrightarrow> mOurPosition c' = mOurPosition c \<and> round_state c' = round_state c \<and>
    mPrevLedgerHash c' = mPrevLedgerHash c \<and> mPreviousLedger c' = mPreviousLedger c"

lemma getTransactionTree_ok:
  assumes "env_ok sha U e" "base_ok sha U c" "getTransactionTree e h c = (r, c')"
  shows "base_ok sha U c'" "same_frame c c'" "mDisputes c' = mDisputes c"
    "position_ok p (mAcquired c) ds \<Longrightarrow> position_ok p (mAcquired c') ds" "mDeadNodes c' = mDeadNodes c" "same_round c c'"
proof -
  have a: "acquired_ok sha U (mAcquired c)" using assms(2) by (simp add: base_ok_def)
  have n: "map_of (mAcquired c) h \<noteq> Some None" by (rule no_null [OF a])
  have om: "om_ok (mAcquired c)" using a by (simp add: acquired_ok_def)
  consider "c' = c" | m where "map_of (mAcquired c) h = None" "getSet e h = Some m" "c' = c\<lparr>mAcquired := om_put h (Some m) (mAcquired c)\<rparr>"
  proof (cases "map_of (mAcquired c) h")
    case None
    have "snd (getTransactionTree e h c) = (case getSet e h of None \<Rightarrow> c | Some m \<Rightarrow> c\<lparr>mAcquired := om_put h (Some m) (mAcquired c)\<rparr>)"
      by (simp add: getTransactionTree_def None split: option.split)
    then have "c' = (case getSet e h of None \<Rightarrow> c | Some m \<Rightarrow> c\<lparr>mAcquired := om_put h (Some m) (mAcquired c)\<rparr>)"
      unfolding assms(3) snd_conv .
    then show ?thesis using that None by (cases "getSet e h") (simp_all only: option.case)
  next
    case (Some x)
    then obtain m where "x = Some m" using n by (cases x) auto
    then have "c' = c" using assms(3) Some by (simp only: getTransactionTree_def option.case prod.inject)
    then show ?thesis by (rule that(1))
  qed
  then have "base_ok sha U c' \<and> same_frame c c' \<and> mDisputes c' = mDisputes c \<and> mDeadNodes c' = mDeadNodes c \<and> same_round c c' \<and>
    (position_ok p (mAcquired c) ds \<longrightarrow> position_ok p (mAcquired c') ds)"
  proof cases
    case 2
    have "tx_set U m" "getNodeHash sha m = h" using assms(1) 2(2) by (auto simp: env_ok_def)
    then have "base_ok sha U c'" using assms(2) acquired_put [of sha U "mAcquired c" m h] 2(3) by (simp add: base_ok_def)
    moreover have "map_of (mAcquired c') = (map_of (mAcquired c))(h \<mapsto> Some m)" using om 2(3) by simp
    ultimately show ?thesis using 2(1,3) by (auto simp: position_ok_def same_frame_def same_round_def split: option.splits)
  qed (use assms(2) in \<open>auto simp: same_round_def\<close>)
  then show "base_ok sha U c'" "same_frame c c'" "mDisputes c' = mDisputes c"
    "position_ok p (mAcquired c) ds \<Longrightarrow> position_ok p (mAcquired c') ds" "mDeadNodes c' = mDeadNodes c" "same_round c c'" by auto
qed

lemma om_del_keys: "fst ` set (om_del k m) = fst ` set m - {k}"
  by (force simp: om_del_def)

lemma om_put_keys: "om_ok m \<Longrightarrow> fst ` set (om_put k v m) = insert k (fst ` set m)"
  using map_of_om_put [of m k v] by (metis dom_map_of_conv_image_fst dom_fun_upd option.distinct(1))

lemma peers_ok_del: "peers_ok dead ps \<Longrightarrow> peers_ok (List.insert k dead) (om_del k ps)" "peers_ok dead ps \<Longrightarrow> peers_ok dead (om_del k ps)"
  using om_del_ok [of ps k] by (auto simp: peers_ok_def om_del_def)

lemma peers_ok_put:
  assumes "peers_ok dead ps" "mPeerID p \<notin> set dead" "\<not> isBowOut p"
  shows "peers_ok dead (om_put (mPeerID p) p ps)"
  using assms set_om_put [of "mPeerID p" p ps] by (auto simp: peers_ok_def om_put_ok)

text \<open>A peer leaves: its votes are withdrawn.\<close>

lemma drop_peer_base:
  assumes "base_ok sha U c" "peers_ok dead (om_del k (mPeerPositions c))"
  shows "base_ok sha U ((map_disputes (\<lambda>_. unVote k) c)\<lparr>mPeerPositions := om_del k (mPeerPositions c), mDeadNodes := dead\<rparr>)"
proof -
  let ?ds = "mDisputes (map_disputes (\<lambda>_. unVote k) c)"
  have "om_ok ?ds" using assms(1) om_ok_map [of "mDisputes c" "\<lambda>_. unVote k"] by (simp add: base_ok_def map_disputes_def)
  moreover have "\<forall>kd \<in> set ?ds. disputed_ok U (fst ` set (om_del k (mPeerPositions c))) kd"
    using assms(1) disputed_unVote unfolding om_del_keys by (auto simp: base_ok_def map_disputes_def)
  ultimately show ?thesis using assms by (simp add: base_ok_def) (simp add: map_disputes_def)
qed

lemma put_peer_base:
  assumes "base_ok sha U c" "mPeerID p \<notin> set (mDeadNodes c)" "\<not> isBowOut p"
  shows "base_ok sha U (c\<lparr>mCloseTimes := cts, mPeerPositions := om_put (mPeerID p) p (mPeerPositions c)\<rparr>)"
proof -
  have "om_ok (mPeerPositions c)" using assms(1) by (simp add: base_ok_def peers_ok_def)
  note k = om_put_keys [OF this, of "mPeerID p" p]
  have "disputed_ok U (insert (mPeerID p) P) kd" if "disputed_ok U P kd" for P kd using that by (auto simp: disputed_ok_def)
  then show ?thesis using assms peers_ok_put [of "mDeadNodes c" "mPeerPositions c" p] by (simp add: base_ok_def k)
qed

lemma peerPosition_ok:
  assumes e: "env_ok sha U e" and ok: "cons_ok sha U c"
  shows "\<exists>b c'. peerPosition e np c = Ok (b, c') \<and> cons_ok sha U c' \<and> same_round c c'"
proof (cases "mPeerID np \<in> set (mDeadNodes c) \<or> (\<exists>p \<in> set_option (map_of (mPeerPositions c) (mPeerID np)). mProposeSeq np \<le> mProposeSeq p)")
  case True
  have "\<forall>p \<in> set_option (map_of (mPeerPositions c) (mPeerID np)). mPeerID p = mPeerID np"
    using ok by (auto simp: cons_defs peers_ok_def dest: map_of_SomeD)
  then have "peerPosition e np c = Ok (False, c)" using True by (auto simp: peerPosition_def require_def Let_def)
  moreover have "same_round c c" by (simp add: same_round_def)
  ultimately show ?thesis using ok by blast
next
  case False
  have id: "\<forall>p \<in> set_option (map_of (mPeerPositions c) (mPeerID np)). mPeerID p = mPeerID np"
    using ok by (auto simp: cons_defs peers_ok_def dest: map_of_SomeD)
  have pk: "peers_ok (mDeadNodes c) (mPeerPositions c)" and b: "base_ok sha U c" and pos: "position_ok (mOurPosition c) (mAcquired c) (mDisputes c)"
    using ok by (simp_all add: cons_defs)
  show ?thesis
  proof (cases "isBowOut np")
    case True
    let ?c = "(map_disputes (\<lambda>_. unVote (mPeerID np)) c)\<lparr>mPeerPositions := om_del (mPeerID np) (mPeerPositions c), mDeadNodes := List.insert (mPeerID np) (mDeadNodes c)\<rparr>"
    have "peerPosition e np c = Ok (True, ?c)" using False True id by (simp add: peerPosition_def require_def Let_def)
    moreover have "base_ok sha U ?c" by (rule drop_peer_base [OF b peers_ok_del(1) [OF pk]])
    moreover have "position_ok (mOurPosition ?c) (mAcquired ?c) (mDisputes ?c)"
      using pos map_disputes_position [of c "\<lambda>_. unVote (mPeerID np)"] by simp
    ultimately show ?thesis by (auto simp: cons_ok_def same_round_def map_disputes_def)
  next
    case nb: False
    define cts where "cts = (if isInitial np then om_put (prop_closeTime np)
        (case map_of (mCloseTimes c) (prop_closeTime np) of None \<Rightarrow> 1 | Some n \<Rightarrow> n + 1) (mCloseTimes c) else mCloseTimes c)"
    define c1 where "c1 = c\<lparr>mCloseTimes := cts, mPeerPositions := om_put (mPeerID np) np (mPeerPositions c)\<rparr>"
    have b1: "base_ok sha U c1" unfolding c1_def using put_peer_base [OF b _ nb] False by simp
    obtain r c2 where t: "getTransactionTree e (mCurrentHash np) c1 = (r, c2)" by (cases "getTransactionTree e (mCurrentHash np) c1")
    note t2 = getTransactionTree_ok [OF e b1 t]
    have p2: "position_ok (mOurPosition c) (mAcquired c2) (mDisputes c2)" using t2(4) [of "mOurPosition c" "mDisputes c"] t2(3) pos by (simp add: c1_def)
    have r2: "same_round c c2" using t2(6) by (simp add: c1_def same_round_def)
    let ?f = "\<lambda>m k. setVote (mPeerID np) (hasItem m k)"
    have "peerPosition e np c = Ok (True, case r of None \<Rightarrow> c2 | Some m \<Rightarrow> map_disputes (?f m) c2)"
      using False nb id t unfolding c1_def cts_def
      by (cases r) (auto simp: peerPosition_def require_def Let_def split: if_splits)
    moreover have "cons_ok sha U (map_disputes (?f m) c2)" for m
    proof -
      have "mPeerID np \<in> fst ` set (mPeerPositions c2)"
        using t2(2) om_put_keys [of "mPeerPositions c" "mPeerID np" np] pk by (simp add: same_frame_def c1_def peers_ok_def)
      then have "base_ok sha U (map_disputes (?f m) c2)"
        using t2(1) by (intro map_disputes_base disputed_setVote) (auto simp: base_ok_def)
      then show ?thesis using p2 map_disputes_position [of c2 "?f m"] r2 by (simp add: cons_ok_def same_round_def)
    qed
    moreover have "cons_ok sha U c2" using t2(1) p2 r2 by (simp add: cons_ok_def same_round_def)
    moreover have "same_round c (map_disputes (?f m) c2)" for m using r2 by (simp add: same_round_def map_disputes_def)
    ultimately show ?thesis using r2 by (cases r) auto
  qed
qed

lemma playback_ok:
  assumes e: "env_ok sha U e" and ok: "cons_ok sha U c"
  shows "\<exists>c'. playback_loop e ps c = Ok c' \<and> cons_ok sha U c' \<and> same_round c c'"
  using ok
proof (induction ps arbitrary: c)
  case (Cons p ps)
  show ?case
  proof (cases "isPrevLedger (mPrevLedgerHash c) p")
    case True
    obtain b c1 where c1: "peerPosition e p c = Ok (b, c1)" "cons_ok sha U c1" "same_round c c1" using peerPosition_ok [OF e Cons.prems] by blast
    obtain c2 where "playback_loop e ps c1 = Ok c2" "cons_ok sha U c2" "same_round c1 c2" using Cons.IH [OF c1(2)] by blast
    then show ?thesis using True c1 by (auto simp: same_round_def)
  next
    case False
    then show ?thesis using Cons by simp
  qed
qed (auto simp: same_round_def)

end
