(* ===== verification/Consensus_Round.thy ===== *)
theory Consensus_Round
  imports Consensus_Inv
begin

text \<open>
  Every method of a consensus round keeps the invariant and fails no assertion, so every sequence of timer ticks,
  proposals and transaction sets does.
\<close>

section \<open>Our votes\<close>

lemma stale_loop_ok:
  assumes "cons_ok sha U c" "\<forall>(k, p) \<in> set ps. mPeerID p = k" "stale_loop cutoff ps ct c = (ct', c')"
  shows "cons_ok sha U c' \<and> same_round c c'"
  using assms
proof (induction cutoff ps ct c rule: stale_loop.induct)
  case (1 cutoff ct c)
  then show ?case by (simp add: same_round_def)
next
  case (2 cutoff k p ps ct c)
  show ?case
  proof (cases "isStale cutoff p")
    case True
    let ?c = "(map_disputes (\<lambda>_. unVote k) c)\<lparr>mPeerPositions := om_del k (mPeerPositions c)\<rparr>"
    have b: "base_ok sha U c" "position_ok (mOurPosition c) (mAcquired c) (mDisputes c)" "peers_ok (mDeadNodes c) (mPeerPositions c)"
      using "2.prems"(1) by (simp_all add: cons_defs)
    have "base_ok sha U (?c\<lparr>mDeadNodes := mDeadNodes c\<rparr>)" by (rule drop_peer_base [OF b(1) peers_ok_del(2) [OF b(3)]])
    moreover have "?c\<lparr>mDeadNodes := mDeadNodes c\<rparr> = ?c" by (simp add: map_disputes_def)
    ultimately have ok: "cons_ok sha U ?c" using b(2) map_disputes_position [of c "\<lambda>_. unVote k"] by (simp add: cons_ok_def)
    have k: "mPeerID p = k" using "2.prems"(2) by simp
    have "stale_loop cutoff ps ct ?c = (ct', c')" using "2.prems"(3) True k by (simp add: Let_def)
    then have "cons_ok sha U c' \<and> same_round ?c c'" using "2.IH"(1) [OF True refl] ok "2.prems"(2) k by simp
    then show ?thesis by (simp add: same_round_def map_disputes_def)
  next
    case False
    then show ?thesis using 2 by simp
  qed
qed

lemma our_set_ok:
  assumes "cons_ok sha U c" "mOurPosition c = Some p"
  shows "\<exists>m. our_set c = Ok m \<and> tx_set U m \<and> map_of (mAcquired c) (mCurrentHash p) = Some (Some m) \<and>
    getNodeHash sha m = mCurrentHash p \<and> (\<not> isBowOut p \<longrightarrow> votes_match m (mDisputes c))"
proof -
  obtain m where m: "map_of (mAcquired c) (mCurrentHash p) = Some (Some m)" "\<not> isBowOut p \<longrightarrow> votes_match m (mDisputes c)"
    using assms by (auto simp: cons_ok_def position_ok_def)
  moreover have "tx_set U m \<and> getNodeHash sha m = mCurrentHash p" using assms(1) m(1) unfolding cons_defs acquired_ok_def by blast
  ultimately show ?thesis using assms(2) by (auto simp: our_set_def)
qed

lemma change_vote:
  assumes u: "universe sha U" and t: "tx_set U m" and d: "disputed_ok U P (k, d)"
  shows "\<exists>b m'. (if v then addGiveItem m \<lparr>item_key = k, item_data = transaction d\<rparr> True False else delItem m k) = Ok (b, m') \<and>
    tx_set U m' \<and> hasItem m' k = v \<and> (\<forall>k'. k' \<noteq> k \<longrightarrow> hasItem m' k' = hasItem m k')"
proof (cases v)
  case True
  have "\<lparr>item_key = k, item_data = transaction d\<rparr> \<in> U" using d by (simp add: disputed_ok_def)
  from add_tx [OF u t this] True show ?thesis by auto
next
  case False
  from del_tx [OF t, of k] False show ?thesis by auto
qed

lemma vote_loop_ok:
  assumes u: "universe sha U" and M: "our_set c = Ok M" "tx_set U M"
    and "\<forall>kd \<in> set ds. disputed_ok U P kd" "distinct (map fst ds)" "\<forall>m \<in> set_option pos. tx_set U m"
  shows "\<exists>ds' pos'. vote_loop c ds pos = Ok (ds', pos') \<and> map fst ds' = map fst ds \<and> (\<forall>kd \<in> set ds'. disputed_ok U P kd) \<and>
    (\<forall>m \<in> set_option pos'. tx_set U m) \<and> (pos' = None \<longrightarrow> pos = None \<and> ds' = ds) \<and>
    (\<forall>k. k \<notin> fst ` set ds \<longrightarrow> hasItem (case pos' of Some m \<Rightarrow> m | None \<Rightarrow> M) k = hasItem (case pos of Some m \<Rightarrow> m | None \<Rightarrow> M) k) \<and>
    (votes_match (case pos of Some m \<Rightarrow> m | None \<Rightarrow> M) ds \<longrightarrow> votes_match (case pos' of Some m \<Rightarrow> m | None \<Rightarrow> M) ds')"
  using assms(4-6)
proof (induction ds arbitrary: pos)
  case Nil
  then show ?case by (auto simp: votes_match_def)
next
  case (Cons x ds)
  obtain k d where x: "x = (k, d)" by (cases x)
  obtain b d' where up: "updateVote (mClosePercent c) (mProposing c) d = (b, d')" by (cases "updateVote (mClosePercent c) (mProposing c) d")
  have f: "d' = d\<lparr>mOurVote := mOurVote d'\<rparr>" "b \<longleftrightarrow> mOurVote d' \<noteq> mOurVote d" using updateVote_fields [OF up] by auto
  have dk: "disputed_ok U P (k, d)" "k \<notin> fst ` set ds" using Cons.prems x by auto
  have dk': "disputed_ok U P (k, d')" using dk(1) by (subst f(1)) (simp add: disputed_ok_def dispute_ok_def)
  let ?m0 = "case pos of Some m \<Rightarrow> m | None \<Rightarrow> M"
  have t0: "tx_set U ?m0" using M(2) Cons.prems(3) by (cases pos) auto
  show ?case
  proof (cases b)
    case True
    have tr: "transaction d' = transaction d" by (subst f(1)) simp
    obtain b' m where m: "(if mOurVote d' then addGiveItem ?m0 \<lparr>item_key = k, item_data = transaction d'\<rparr> True False else delItem ?m0 k) = Ok (b', m)"
      "tx_set U m" "hasItem m k = mOurVote d'" "\<forall>k'. k' \<noteq> k \<longrightarrow> hasItem m k' = hasItem ?m0 k'"
      using change_vote [OF u t0 dk', of "mOurVote d'"] by blast
    obtain ds' pos' where r: "vote_loop c ds (Some m) = Ok (ds', pos')" "map fst ds' = map fst ds" "\<forall>kd \<in> set ds'. disputed_ok U P kd"
      "\<forall>m \<in> set_option pos'. tx_set U m" "pos' = None \<longrightarrow> False"
      "\<forall>k. k \<notin> fst ` set ds \<longrightarrow> hasItem (case pos' of Some m \<Rightarrow> m | None \<Rightarrow> M) k = hasItem m k"
      "votes_match m ds \<longrightarrow> votes_match (case pos' of Some m \<Rightarrow> m | None \<Rightarrow> M) ds'"
      using Cons.IH [of "Some m"] Cons.prems m(2) by auto
    have "(case pos of Some m \<Rightarrow> Ok m | None \<Rightarrow> our_set c) = Ok ?m0" using M(1) by (cases pos) auto
    then have "vote_loop c (x # ds) pos = Ok ((k, d') # ds', pos')" using up True x m(1) r(1) by simp
    moreover have "votes_match m ds" if "votes_match ?m0 (x # ds)"
    proof -
      have "mOurVote e = hasItem m j" if "(j, e) \<in> set ds" for j e
      proof -
        have "j \<noteq> k" using dk(2) that by (metis fst_conv image_eqI)
        then show ?thesis using m(4) \<open>votes_match ?m0 (x # ds)\<close> that by (auto simp: votes_match_def)
      qed
      then show ?thesis by (auto simp: votes_match_def)
    qed
    ultimately show ?thesis
      using r dk dk' m(3,4) x by (intro exI [of _ "(k, d') # ds'"] exI [of _ pos']) (auto simp: votes_match_def)
  next
    case False
    then have "d' = d" using f by (metis keep_vote)
    obtain ds' pos' where r: "vote_loop c ds pos = Ok (ds', pos')" "map fst ds' = map fst ds" "\<forall>kd \<in> set ds'. disputed_ok U P kd"
      "\<forall>m \<in> set_option pos'. tx_set U m" "pos' = None \<longrightarrow> pos = None \<and> ds' = ds"
      "\<forall>k. k \<notin> fst ` set ds \<longrightarrow> hasItem (case pos' of Some m \<Rightarrow> m | None \<Rightarrow> M) k = hasItem ?m0 k"
      "votes_match ?m0 ds \<longrightarrow> votes_match (case pos' of Some m \<Rightarrow> m | None \<Rightarrow> M) ds'"
      using Cons.IH [of pos] Cons.prems by auto
    have "vote_loop c (x # ds) pos = Ok ((k, d) # ds', pos')" using up False x r(1) \<open>d' = d\<close> by simp
    then show ?thesis
      using r dk x by (intro exI [of _ "(k, d) # ds'"] exI [of _ pos']) (auto simp: votes_match_def)
  qed
qed

section \<open>Our position\<close>

text \<open>What the methods keep of a round whose position is taken.\<close>

definition in_round :: "consensus \<Rightarrow> consensus \<Rightarrow> bool" where
  "in_round c c' \<longleftrightarrow> mOurPosition c' \<noteq> None \<and> round_state c' = round_state c"

lemma propose_ok: "mOurPosition c = Some p \<Longrightarrow> propose c = Ok (emit_effect (SendProposal p) c)"
  by (simp add: propose_def)

lemma take_position_ok:
  assumes u: "universe sha U" and b: "base_ok sha U c" and p: "mOurPosition c = Some p" and t: "tx_set U m"
    and M: "map_of (mAcquired c) (mCurrentHash p) = Some (Some M)" and v: "\<not> isBowOut p \<longrightarrow> votes_match m (mDisputes c)"
  shows "\<exists>c'. take_position sha e p m ct c = Ok c' \<and> cons_ok sha U c' \<and> in_round c c'"
proof (cases "isBowOut p")
  case True
  then have "take_position sha e p m ct c = Ok c" by (simp add: take_position_def changePosition_def isBowOut_def)
  then show ?thesis using b p M True by (auto simp: cons_ok_def position_ok_def in_round_def)
next
  case False
  let ?h = "getNodeHash sha m"
  define q where "q = p\<lparr>mCurrentHash := ?h, prop_closeTime := ct, mTime := steady_now e, mProposeSeq := mProposeSeq p + 1\<rparr>"
  have ch: "changePosition (steady_now e) ?h ct p = (True, q)" using False by (simp add: changePosition_def isBowOut_def q_def)
  let ?c = "c\<lparr>mOurPosition := Some q\<rparr>"
  define c1 where "c1 = (if mProposing c then emit_effect (SendProposal q) ?c else ?c)"
  have c1: "base_ok sha U c1" "mOurPosition c1 = Some q" "mDisputes c1 = mDisputes c" "round_state c1 = round_state c"
    using b base_ok_effect [of sha U "SendProposal q" ?c] by (simp_all add: c1_def) (simp_all add: base_ok_def)
  have q: "mCurrentHash q = ?h" by (simp add: q_def)
  obtain c2 where c2: "mapCompleteInternal sha ?h (Some m) False c1 = Ok c2" "cons_ok sha U c2" "same_frame c1 c2"
    using mapComplete_ok [OF u c1(1) t refl, of False] c1(2,3) q v False by auto
  have "take_position sha e p m ct c = Ok c2"
    using c2(1) propose_ok [of ?c q] by (cases "mProposing c") (simp_all add: take_position_def ch c1_def Let_def)
  then show ?thesis using c2 c1 by (auto simp: in_round_def same_frame_def)
qed

lemma updateOurPositions_ok:
  assumes u: "universe sha U" and ok: "cons_ok sha U c" and p: "mOurPosition c = Some p"
  shows "\<exists>c'. updateOurPositions sha e c = Ok c' \<and> cons_ok sha U c' \<and> in_round c c'"
proof -
  obtain ct c1 where s: "stale_loop (steady_now e - PROPOSE_FRESHNESS * 1000) (mPeerPositions c) [] c = (ct, c1)"
    by (cases "stale_loop (steady_now e - PROPOSE_FRESHNESS * 1000) (mPeerPositions c) [] c")
  have "\<forall>(k, p) \<in> set (mPeerPositions c). mPeerID p = k" using ok by (auto simp: cons_defs peers_ok_def)
  from stale_loop_ok [OF ok this s] have c1: "cons_ok sha U c1" "same_round c c1" by auto
  have p1: "mOurPosition c1 = Some p" using c1(2) p by (simp add: same_round_def)
  obtain M where M: "our_set c1 = Ok M" "tx_set U M" "map_of (mAcquired c1) (mCurrentHash p) = Some (Some M)"
    "\<not> isBowOut p \<longrightarrow> votes_match M (mDisputes c1)" using our_set_ok [OF c1(1) p1] by blast
  have b1: "base_ok sha U c1" "om_ok (mDisputes c1)" "\<forall>kd \<in> set (mDisputes c1). disputed_ok U (fst ` set (mPeerPositions c1)) kd"
    using c1(1) by (simp_all add: cons_defs)
  obtain ds pos where v: "vote_loop c1 (mDisputes c1) None = Ok (ds, pos)" "map fst ds = map fst (mDisputes c1)"
    "\<forall>kd \<in> set ds. disputed_ok U (fst ` set (mPeerPositions c1)) kd" "\<forall>m \<in> set_option pos. tx_set U m" "pos = None \<longrightarrow> ds = mDisputes c1"
    "votes_match M (mDisputes c1) \<longrightarrow> votes_match (case pos of Some m \<Rightarrow> m | None \<Rightarrow> M) ds"
    using vote_loop_ok [OF u M(1,2) b1(3) om_ok_distinct [OF b1(2)], of None] by auto
  define c2 where "c2 = c1\<lparr>mDisputes := ds\<rparr>"
  obtain t g where tg: "choose_closeTime c2 p ct = (t, g)" by (cases "choose_closeTime c2 p ct")
  define c3 where "c3 = c2\<lparr>mHaveCloseTimeConsensus := g\<rparr>"
  have c3: "base_ok sha U c3" "mOurPosition c3 = Some p" "map_of (mAcquired c3) (mCurrentHash p) = Some (Some M)" "mDisputes c3 = ds"
    "round_state c3 = round_state c"
    using b1 v(2,3) M(3) p1 c1(2) by (simp_all add: base_ok_def c3_def c2_def om_ok_def same_round_def)
  have os: "our_set c3 = Ok M" unfolding our_set_def c3(2) option.case c3(3) ..
  let ?m = "case pos of Some m \<Rightarrow> m | None \<Rightarrow> M"
  have "tx_set U ?m" "\<not> isBowOut p \<longrightarrow> votes_match ?m (mDisputes c3)" using M(2,4) v(4,6) c3(4) by (auto split: option.splits)
  from take_position_ok [OF u c3(1,2) this(1) c3(3) this(2), of e t]
  obtain c4 where c4: "take_position sha e p ?m t c3 = Ok c4" "cons_ok sha U c4" "in_round c3 c4" by blast
  have "updateOurPositions sha e c = (case pos of Some m \<Rightarrow> take_position sha e p m t c3 | None \<Rightarrow>
      if t \<noteq> prop_closeTime p \<or> isStale (steady_now e - PROPOSE_INTERVAL * 1000) p then take_position sha e p M t c3 else Ok c3)"
    using p1 os tg unfolding c3_def c2_def by (auto simp: updateOurPositions_def s v(1) Let_def split: option.splits)
  moreover have "cons_ok sha U c3" if "pos = None"
    using c3 M(3,4) v(5) that by (auto simp: cons_ok_def position_ok_def)
  moreover have "in_round c c4" "in_round c c3" using c4(3) c3(2,5) by (auto simp: in_round_def)
  ultimately show ?thesis using c4(1,2) by (cases pos) auto
qed

lemma add_txs_ok: "universe sha U \<Longrightarrow> tx_set U m \<Longrightarrow> set its \<subseteq> U \<Longrightarrow> \<exists>m'. add_txs its m = Ok m' \<and> tx_set U m'"
proof (induction its arbitrary: m)
  case (Cons it its)
  then obtain b m1 where "addGiveItem m it True False = Ok (b, m1)" "tx_set U m1" using add_tx [of sha U m it] by auto
  then show ?case using Cons.IH [of m1] Cons.prems by auto
qed simp

lemma initial_disputes_ok:
  assumes u: "universe sha U" and "cons_ok sha U c" "mOurPosition c \<noteq> None" "tx_set U s"
  shows "\<exists>c'. initial_disputes sha s ps found c = Ok c' \<and> cons_ok sha U c' \<and> same_frame c c'"
  using assms(2,3)
proof (induction ps arbitrary: found c)
  case (Cons x ps)
  obtain k p where x: "x = (k, p)" by (cases x)
  let ?h = "mCurrentHash p"
  have a: "acquired_ok sha U (mAcquired c)" using Cons.prems(1) by (simp add: cons_defs)
  show ?case
  proof (cases "?h \<in> set found \<or> map_of (mAcquired c) ?h = None")
    case True
    then show ?thesis using Cons.IH [OF Cons.prems, of found] Cons.IH [OF Cons.prems, of "?h # found"] x by (auto simp: Let_def)
  next
    case False
    then obtain m where m: "map_of (mAcquired c) ?h = Some (Some m)" "tx_set U m" using a unfolding acquired_ok_def by blast
    let ?c = "c\<lparr>mCompares := List.insert (getNodeHash sha m) (mCompares c)\<rparr>"
    have "cons_ok sha U ?c" "mOurPosition ?c \<noteq> None" using Cons.prems by (simp_all add: cons_defs)
    from createDisputes_ok [OF u this assms(4) m(2)]
    obtain c1 where c1: "createDisputes sha s m ?c = Ok c1" "cons_ok sha U c1" "c1 = ?c\<lparr>mDisputes := mDisputes c1, effects := effects c1\<rparr>" by blast
    have f: "same_frame c c1" by (subst c1(3)) (simp add: same_frame_def)
    then have "mOurPosition c1 \<noteq> None" using Cons.prems(2) by (simp add: same_frame_def)
    from Cons.IH [OF c1(2) this, of "?h # found"]
    obtain c2 where "initial_disputes sha s ps (?h # found) c1 = Ok c2" "cons_ok sha U c2" "same_frame c1 c2" by blast
    then show ?thesis using False m(1) c1(1) x f same_frame_trans by (auto simp: Let_def)
  qed
qed simp

lemma takeInitialPosition_ok:
  assumes u: "universe sha U" and e: "env_ok sha U e" and ok: "cons_ok sha U c" and n: "mOurPosition c = None"
  shows "\<exists>c'. takeInitialPosition sha e c = Ok c' \<and> cons_ok sha U c' \<and> in_round c c'"
proof -
  have tx: "set (openTxs e) \<subseteq> U" "set (votedTxs e) \<subseteq> U" using e by (simp_all add: env_ok_def)
  obtain s0 where s0: "add_txs (openTxs e) SHAMap_make = Ok s0" "tx_set U s0" using add_txs_ok [OF u empty_tx_set tx(1)] by blast
  define flag where "flag \<longleftrightarrow> (standalone e \<or> mProposing c \<and> mHaveCorrectLCL c) \<and> li_seq (mPreviousLedger c) mod 256 = 0"
  obtain s where s: "(if flag then add_txs (votedTxs e) s0 else Ok s0) = Ok s" "tx_set U s"
    using add_txs_ok [OF u s0(2) tx(2)] s0(2) by (cases flag) auto
  let ?h = "getNodeHash sha s"
  have "position_ok (mOurPosition c) (mAcquired c) (mDisputes c)" "base_ok sha U c" using ok by (simp_all add: cons_ok_def)
  then obtain c1 where c1: "mapCompleteInternal sha ?h (Some s) False c = Ok c1" "cons_ok sha U c1" "same_frame c c1" "map_of (mAcquired c1) ?h = Some (Some s)"
    using mapComplete_ok [OF u _ s(2) refl, of c False] by blast
  have d1: "mDisputes c1 = []" using c1(2,3) n by (simp add: cons_ok_def position_ok_def same_frame_def)
  define q where "q = own_proposal (steady_now e) (mNodeID c1) (openParent e) ?h (mCloseTime c1)"
  define c2 where "c2 = map_disputes (\<lambda>k. setOurVote (openTxExists e k)) (c1\<lparr>mOurPosition := Some q\<rparr>)"
  have c2: "cons_ok sha U c2" "mOurPosition c2 = Some q" "round_state c2 = round_state c1"
    using c1(2,4) d1 by (simp_all add: c2_def map_disputes_def cons_defs position_ok_def votes_match_def q_def own_proposal_def)
  obtain c3 where c3: "initial_disputes sha s (mPeerPositions c2) [] c2 = Ok c3" "cons_ok sha U c3" "same_frame c2 c3"
    using initial_disputes_ok [OF u c2(1) _ s(2)] c2(2) by auto
  have "takeInitialPosition sha e c = (if mProposing c3 then propose c3 else Ok c3)"
    using s0(1) s(1) c1(1) c3(1) unfolding c2_def q_def flag_def by (simp add: takeInitialPosition_def Let_def)
  moreover have "mOurPosition c3 = Some q" "round_state c3 = round_state c" using c3(3) c2 c1(3) by (simp_all add: same_frame_def)
  ultimately show ?thesis using c3(2) propose_ok [of c3 q] by (auto simp: in_round_def)
qed

section \<open>The last closed ledger\<close>

lemma next_resolution_env:
  assumes "env_ok sha U e" "getLedgerByHash e h = Some l"
  shows "\<exists>r. next_resolution l = Ok r \<and> r \<in> set ledgerPossibleTimeResolutions" "li_hash l = h" "\<not> li_open l" "li_immutable l"
proof -
  have l: "li_hash l = h" "li_closeTimeResolution l \<in> set ledgerPossibleTimeResolutions" "li_seq l + 1 \<noteq> 0"
    and "\<not> li_open l" "li_immutable l"
    using assms unfolding env_ok_def by blast+
  then show "\<exists>r. next_resolution l = Ok r \<and> r \<in> set ledgerPossibleTimeResolutions" "li_hash l = h" "\<not> li_open l" "li_immutable l"
    using next_resolution_ok [OF l(2,3), of "li_closeAgree l"] l(1) by (auto simp: next_resolution_def)
qed

lemma clear_round_ok:
  assumes "cons_ok sha U c" "mOurPosition c' = mOurPosition c \<or> (\<exists>p. mOurPosition c = Some p \<and> mOurPosition c' = Some (bowOut t p))"
    and "mAcquired c' = mAcquired c" "mCloseResolution c' = mCloseResolution c"
  shows "cons_ok sha U (c'\<lparr>mProposing := False, mPeerPositions := [], mDisputes := [], mCloseTimes := [], mDeadNodes := []\<rparr>)"
proof -
  have "position_ok (mOurPosition c') (mAcquired c) []"
    using assms(1,2) by (cases "mOurPosition c") (auto simp: cons_ok_def position_ok_def votes_match_def bowOut_def isBowOut_def)
  then show ?thesis using assms(1,3,4) by (simp add: cons_defs peers_ok_def)
qed

text \<open>Taking a position lasts: a position is never dropped within the round.\<close>

definition keeps_round :: "consensus \<Rightarrow> consensus \<Rightarrow> bool" where
  "keeps_round c c' \<longleftrightarrow> (mOurPosition c' = None \<longleftrightarrow> mOurPosition c = None) \<and> round_state c' = round_state c"

lemma switch_ok:
  assumes e: "env_ok sha U e" and ok: "cons_ok sha U c"
  shows "\<exists>c'. rbind
            (case mOurPosition c of
               Some p \<Rightarrow> if mHaveCorrectLCL c \<and> mProposing c then propose (c\<lparr>mOurPosition := Some (bowOut (steady_now e) p)\<rparr>) else Ok c
             | None \<Rightarrow> Ok c)
            (\<lambda>c. playbackProposals e (c\<lparr>mProposing := False, mPeerPositions := [], mDisputes := [], mCloseTimes := [], mDeadNodes := []\<rparr>)) = Ok c' \<and>
    cons_ok sha U c' \<and> keeps_round c c' \<and> mPrevLedgerHash c' = mPrevLedgerHash c \<and> mPreviousLedger c' = mPreviousLedger c"
proof -
  let ?p = "case mOurPosition c of
               Some p \<Rightarrow> if mHaveCorrectLCL c \<and> mProposing c then propose (c\<lparr>mOurPosition := Some (bowOut (steady_now e) p)\<rparr>) else Ok c
             | None \<Rightarrow> Ok c"
  have "\<exists>c1. ?p = Ok c1 \<and> (mOurPosition c1 = mOurPosition c \<or> (\<exists>p. mOurPosition c = Some p \<and> mOurPosition c1 = Some (bowOut (steady_now e) p))) \<and>
    mAcquired c1 = mAcquired c \<and> mCloseResolution c1 = mCloseResolution c \<and> mPrevLedgerHash c1 = mPrevLedgerHash c \<and>
    mPreviousLedger c1 = mPreviousLedger c \<and> round_state c1 = round_state c"
  proof (cases "mOurPosition c \<noteq> None \<and> mHaveCorrectLCL c \<and> mProposing c")
    case True
    then obtain p where p: "mOurPosition c = Some p" by blast
    let ?q = "bowOut (steady_now e) p"
    show ?thesis using p True by (intro exI [of _ "emit_effect (SendProposal ?q) (c\<lparr>mOurPosition := Some ?q\<rparr>)"]) (simp add: propose_def emit_effect_def)
  next
    case False
    then have "?p = Ok c" by (cases "mOurPosition c") auto
    then show ?thesis by blast
  qed
  then obtain c1 where c1: "?p = Ok c1" "mOurPosition c1 = mOurPosition c \<or> (\<exists>p. mOurPosition c = Some p \<and> mOurPosition c1 = Some (bowOut (steady_now e) p))"
    "mAcquired c1 = mAcquired c" "mCloseResolution c1 = mCloseResolution c" "mPrevLedgerHash c1 = mPrevLedgerHash c" "mPreviousLedger c1 = mPreviousLedger c"
    "round_state c1 = round_state c" by blast
  let ?c = "c1\<lparr>mProposing := False, mPeerPositions := [], mDisputes := [], mCloseTimes := [], mDeadNodes := []\<rparr>"
  have "cons_ok sha U ?c" by (rule clear_round_ok [OF ok c1(2-4)])
  from playback_ok [OF e this, of "storedProposals e"] obtain c2 where c2: "playbackProposals e ?c = Ok c2" "cons_ok sha U c2" "same_round ?c c2"
    unfolding playbackProposals_def by blast
  have "mOurPosition c2 = mOurPosition c1" "mPrevLedgerHash c2 = mPrevLedgerHash c1" "mPreviousLedger c2 = mPreviousLedger c1" "round_state c2 = round_state c1"
    using c2(3) by (simp_all add: same_round_def)
  then have "keeps_round c c2" "mPrevLedgerHash c2 = mPrevLedgerHash c" "mPreviousLedger c2 = mPreviousLedger c"
    using c1(2,5-7) unfolding keeps_round_def by auto
  then show ?thesis unfolding c1(1) rbind.simps using c2(1,2) by blast
qed

lemma handleLCL_ok:
  assumes e: "env_ok sha U e" and ok: "cons_ok sha U c" and a: "h \<noteq> mPrevLedgerHash c \<or> li_hash (mPreviousLedger c) \<noteq> h"
  shows "\<exists>c'. handleLCL e h c = Ok c' \<and> cons_ok sha U c' \<and> keeps_round c c'"
proof -
  let ?sw = "\<lambda>c. rbind
            (case mOurPosition c of
               Some p \<Rightarrow> if mHaveCorrectLCL c \<and> mProposing c then propose (c\<lparr>mOurPosition := Some (bowOut (steady_now e) p)\<rparr>) else Ok c
             | None \<Rightarrow> Ok c)
            (\<lambda>c. playbackProposals e (c\<lparr>mProposing := False, mPeerPositions := [], mDisputes := [], mCloseTimes := [], mDeadNodes := []\<rparr>))"
  let ?c = "c\<lparr>mPrevLedgerHash := h\<rparr>"
  have k: "cons_ok sha U ?c" "keeps_round c ?c" using ok by (simp_all add: cons_defs keeps_round_def)
  obtain c1 where c1: "(if mPrevLedgerHash c \<noteq> h then ?sw ?c else Ok c) = Ok c1" "cons_ok sha U c1" "keeps_round c c1" "mPrevLedgerHash c1 = h"
  proof (cases "mPrevLedgerHash c = h")
    case False
    obtain c1 where "?sw ?c = Ok c1" "cons_ok sha U c1" "keeps_round ?c c1" "mPrevLedgerHash c1 = mPrevLedgerHash ?c" using switch_ok [OF e k(1)] by blast
    then show ?thesis using that [of c1] False k(2) by (simp add: keeps_round_def)
  qed (use that [of c] ok in \<open>simp add: keeps_round_def\<close>)
  have r: "handleLCL e h c =
     (if li_hash (mPreviousLedger c1) = mPrevLedgerHash c1 then Ok c1
     else case getLedgerByHash e (mPrevLedgerHash c1) of
         None \<Rightarrow>
           Ok (if mAcquiringLedger c1 \<noteq> h
               then emit_effect (AcquireLedger (mPrevLedgerHash c1)) (c1\<lparr>mAcquiringLedger := mPrevLedgerHash c1, mHaveCorrectLCL := False\<rparr>)
               else c1)
       | Some newLCL \<Rightarrow>
           rbind (require (\<not> li_open newLCL \<and> li_immutable newLCL) AssertFailed) (\<lambda>_.
           rbind (require (li_hash newLCL = h) AssertFailed) (\<lambda>_.
           rbind (next_resolution newLCL) (\<lambda>r.
             Ok (c1\<lparr>mPreviousLedger := newLCL, mPrevLedgerHash := h, mHaveCorrectLCL := True, mCloseResolution := r\<rparr>)))))"
    using a c1(1) unfolding handleLCL_def Let_def by (simp add: require_def)
  show ?thesis
  proof (cases "getLedgerByHash e (mPrevLedgerHash c1)")
    case None
    then show ?thesis using c1(2,3) by (auto simp: r cons_defs keeps_round_def emit_effect_def)
  next
    case (Some l)
    note n = next_resolution_env [OF e Some]
    then obtain x where "next_resolution l = Ok x" "x \<in> set ledgerPossibleTimeResolutions" by blast
    then show ?thesis using c1(2-4) n(2-4) by (auto simp: r Some cons_defs keeps_round_def require_def)
  qed
qed

lemma checkLCL_ok:
  assumes "env_ok sha U e" "cons_ok sha U c"
  shows "\<exists>c'. checkLCL e c = Ok c' \<and> cons_ok sha U c' \<and> keeps_round c c'"
proof -
  define h where "h = favored (mPrevLedgerHash c)
    (getCurrentValidations e (mPrevLedgerHash c) (if mHaveCorrectLCL c then li_parentHash (mPreviousLedger c) else 0)) (mPrevLedgerHash c) 0"
  define c1 where "c1 = (if mHaveCorrectLCL c then emit_effect ViewChange c else c)"
  have r: "checkLCL e c = (if h \<noteq> mPrevLedgerHash c then handleLCL e h c1
      else if li_hash (mPreviousLedger c) \<noteq> mPrevLedgerHash c then handleLCL e h c else Ok c)"
    by (simp only: checkLCL_def Let_def h_def c1_def)
  have c1: "cons_ok sha U c1" "mPrevLedgerHash c1 = mPrevLedgerHash c" "keeps_round c1 = keeps_round c"
    using assms(2) by (auto simp: c1_def keeps_round_def fun_eq_iff)
  show ?thesis
  proof (cases "h = mPrevLedgerHash c")
    case False
    then show ?thesis using handleLCL_ok [OF assms(1) c1(1), of h] c1(2,3) by (simp add: r)
  next
    case True
    then show ?thesis using handleLCL_ok [OF assms, of h] assms(2) by (auto simp: r keeps_round_def)
  qed
qed

section \<open>The state machine\<close>

text \<open>Only the disputes and the record of comparisons change.\<close>

definition dispute_update :: "consensus \<Rightarrow> consensus \<Rightarrow> bool" where
  "dispute_update c c' \<longleftrightarrow> (\<exists>cs ds es. c' = c\<lparr>mCompares := cs, mDisputes := ds, effects := es\<rparr>)"

lemma dispute_update_refl: "dispute_update c c"
  unfolding dispute_update_def by (intro exI [of _ "mCompares c"] exI [of _ "mDisputes c"] exI [of _ "effects c"]) simp

lemma dispute_update_trans:
  assumes "dispute_update a b" "dispute_update b c"
  shows "dispute_update a c"
proof -
  obtain cs ds es where b: "b = a\<lparr>mCompares := cs, mDisputes := ds, effects := es\<rparr>" using assms(1) unfolding dispute_update_def by blast
  obtain cs' ds' es' where "c = b\<lparr>mCompares := cs', mDisputes := ds', effects := es'\<rparr>" using assms(2) unfolding dispute_update_def by blast
  then have "c = a\<lparr>mCompares := cs', mDisputes := ds', effects := es'\<rparr>" unfolding b by simp
  then show ?thesis unfolding dispute_update_def by blast
qed

lemma dispute_update_frame:
  "dispute_update c c' \<Longrightarrow> same_frame c c' \<and> mPreviousProposers c' = mPreviousProposers c \<and> mPreviousMSeconds c' = mPreviousMSeconds c \<and>
    mCurrentMSeconds c' = mCurrentMSeconds c \<and> mPrevLedgerHash c' = mPrevLedgerHash c"
  unfolding dispute_update_def by (elim exE, simp add: same_frame_def)

lemma compare_position_ok:
  assumes u: "universe sha U" and ok: "cons_ok sha U c" and p: "mOurPosition c \<noteq> None"
  shows "\<exists>c'. compare_position sha h1 h2 c = Ok c' \<and> cons_ok sha U c' \<and> dispute_update c c'"
proof (cases "h2 \<notin> set (mCompares c) \<and> map_of (mAcquired c) h2 \<noteq> None \<and> map_of (mAcquired c) h1 \<noteq> None")
  case True
  have a: "acquired_ok sha U (mAcquired c)" using ok by (simp add: cons_defs)
  then obtain m1 m2 where m: "map_of (mAcquired c) h2 = Some (Some m1)" "map_of (mAcquired c) h1 = Some (Some m2)" "tx_set U m1" "tx_set U m2"
    using True unfolding acquired_ok_def by blast
  let ?c = "c\<lparr>mCompares := List.insert h2 (mCompares c)\<rparr>"
  have "cons_ok sha U ?c" "mOurPosition ?c \<noteq> None" using ok p by (simp_all add: cons_defs)
  from createDisputes_ok [OF u this m(4,3)] obtain c1 where c1: "createDisputes sha m2 m1 ?c = Ok c1" "cons_ok sha U c1"
    "c1 = ?c\<lparr>mDisputes := mDisputes c1, effects := effects c1\<rparr>" by blast
  have "dispute_update c c1" unfolding dispute_update_def using c1(3) by blast
  moreover have "compare_position sha h1 h2 c = Ok c1" using True m(1,2) c1(1) by (simp add: compare_position_def)
  ultimately show ?thesis using c1(2) by blast
next
  case False
  then have "compare_position sha h1 h2 c = Ok c" by (auto simp: compare_position_def split: option.splits)
  then show ?thesis using ok dispute_update_refl by auto
qed

lemma agree_loop_ok:
  assumes u: "universe sha U" and "cons_ok sha U c" "mOurPosition c \<noteq> None"
  shows "\<exists>c'. agree_loop sha h ps a d c = Ok (a + int (length (filter (\<lambda>(_, p). \<not> isBowOut p \<and> mCurrentHash p = h) ps)),
      d + int (length (filter (\<lambda>(_, p). \<not> isBowOut p \<and> mCurrentHash p \<noteq> h) ps)), c') \<and> cons_ok sha U c' \<and> dispute_update c c'"
  using assms(2,3)
proof (induction ps arbitrary: a d c)
  case (Cons x ps)
  obtain k p where x: "x = (k, p)" by (cases x)
  show ?case
  proof (cases "isBowOut p \<or> mCurrentHash p = h")
    case True
    then show ?thesis using Cons.IH [OF Cons.prems, of a d] Cons.IH [OF Cons.prems, of "a + 1" d] x by (cases "isBowOut p") (auto simp: algebra_simps)
  next
    case False
    obtain c1 where c1: "compare_position sha h (mCurrentHash p) c = Ok c1" "cons_ok sha U c1" "dispute_update c c1"
      using compare_position_ok [OF u Cons.prems] by blast
    then have "mOurPosition c1 \<noteq> None" using Cons.prems(2) dispute_update_frame [OF c1(3)] by (simp add: same_frame_def)
    from Cons.IH [OF c1(2) this, of a "d + 1"] show ?thesis using False c1(1,3) x dispute_update_trans by (auto simp: algebra_simps)
  qed
qed (simp add: dispute_update_refl)

text \<open>The state of a round and whether a position is taken go together.\<close>

definition round_ok :: "(blob \<Rightarrow> uint256) \<Rightarrow> SHAMapItem set \<Rightarrow> consensus \<Rightarrow> bool" where
  "round_ok sha U c \<longleftrightarrow> cons_ok sha U c \<and> (mOurPosition c = None \<longleftrightarrow> round_state c = open')"

lemma haveConsensus_ok:
  assumes u: "universe sha U" and ok: "cons_ok sha U c" and p: "mOurPosition c \<noteq> None"
  shows "\<exists>b c'. haveConsensus sha e c = Ok (b, c') \<and> cons_ok sha U c' \<and> same_frame c c'"
proof -
  obtain q where q: "mOurPosition c = Some q" using p by blast
  obtain a d c1 where c1: "agree_loop sha (mCurrentHash q) (mPeerPositions c) 0 0 c = Ok (a, d, c1)" "cons_ok sha U c1" "same_frame c c1"
    using agree_loop_ok [OF u ok p, of "mCurrentHash q" "mPeerPositions c" 0 0] dispute_update_frame by blast
  have "cons_ok sha U (c1\<lparr>mConsensusFail := b\<rparr>)" "same_frame c (c1\<lparr>mConsensusFail := b\<rparr>)" for b
    using c1(2,3) by (simp_all add: cons_defs same_frame_def)
  then show ?thesis using c1 q by (auto simp: haveConsensus_def split: ConsensusState.split)
qed

lemma closeLedger_ok:
  assumes "universe sha U" "env_ok sha U e" "cons_ok sha U c" "mOurPosition c = None"
  shows "\<exists>c'. closeLedger sha e c = Ok c' \<and> round_ok sha U c'"
proof -
  define c1 where "c1 = emit_effect ApplyHeld (emit_effect StatusClosing (emit_effect (SetLastCloseTime (closeTime_now e))
    ((emit_effect CheckOurValidation c)\<lparr>round_state := establish, mConsensusStartTime := steady_now e, mCloseTime := closeTime_now e\<rparr>)))"
  have c1: "cons_ok sha U c1" "mOurPosition c1 = None" "round_state c1 = establish"
    using assms(3,4) by (simp_all add: c1_def cons_defs) (simp_all add: emit_effect_def)
  have "closeLedger sha e c = takeInitialPosition sha e c1" by (simp add: closeLedger_def Let_def c1_def)
  then show ?thesis using takeInitialPosition_ok [OF assms(1,2) c1(1,2)] c1(3) by (auto simp: round_ok_def in_round_def)
qed

lemma stateEstablish_ok:
  assumes u: "universe sha U" and ok: "cons_ok sha U c" and p: "mOurPosition c = Some p" and s: "round_state c = establish"
  shows "\<exists>c'. stateEstablish sha e c = Ok c' \<and> round_ok sha U c' \<and> round_state c' \<noteq> accepted"
proof (cases "mCurrentMSeconds c < LEDGER_MIN_CONSENSUS")
  case True
  then show ?thesis using ok p s by (simp add: stateEstablish_def round_ok_def)
next
  case False
  obtain c1 where c1: "updateOurPositions sha e c = Ok c1" "cons_ok sha U c1" "in_round c c1" using updateOurPositions_ok [OF u ok p] by blast
  obtain b c2 where c2: "haveConsensus sha e c1 = Ok (b, c2)" "cons_ok sha U c2" "same_frame c1 c2"
    using haveConsensus_ok [OF u c1(2), of e] c1(3) unfolding in_round_def by blast
  have r2: "round_ok sha U c2" "round_state c2 = establish" "mOurPosition c2 \<noteq> None"
    using c2(2,3) c1(3) s by (simp_all add: round_ok_def same_frame_def in_round_def)
  let ?c = "c2\<lparr>round_state := finished\<rparr>"
  obtain q where q: "mOurPosition ?c = Some q" using r2(3) by auto
  have k: "cons_ok sha U ?c" using c2(2) by (simp add: cons_defs)
  obtain m where "our_set ?c = Ok m" using our_set_ok [OF k q] by blast
  then have "\<exists>c3. beginAccept ?c = Ok c3 \<and> round_ok sha U c3 \<and> round_state c3 \<noteq> accepted"
    using k q by (simp add: beginAccept_def round_ok_def)
  then show ?thesis using False c1(1) c2(1) r2 by (auto simp: stateEstablish_def)
qed

lemma timerEntry_ok:
  assumes u: "universe sha U" and e: "env_ok sha U e" and ok: "round_ok sha U c"
  shows "\<exists>c'. timerEntry sha e c = Ok c' \<and> round_ok sha U c'"
proof -
  have k: "cons_ok sha U c" "keeps_round c c" using ok by (simp_all add: round_ok_def keeps_round_def)
  obtain c1 where c1: "(if round_state c \<noteq> finished \<and> round_state c \<noteq> accepted then checkLCL e c else Ok c) = Ok c1"
    "cons_ok sha U c1" "keeps_round c c1"
    using checkLCL_ok [OF e k(1)] k by (cases "round_state c \<noteq> finished \<and> round_state c \<noteq> accepted") auto
  define c2 where "c2 = c1\<lparr>mCurrentMSeconds := steady_now e - mConsensusStartTime c1,
    mClosePercent := cdiv ((steady_now e - mConsensusStartTime c1) * 100) (mPreviousMSeconds c1)\<rparr>"
  have c2: "cons_ok sha U c2" "round_ok sha U c2" using c1(2,3) ok by (simp_all add: c2_def cons_defs round_ok_def keeps_round_def)
  have r: "timerEntry sha e c = (case round_state c2 of open' \<Rightarrow> statePreClose sha e c2
        | establish \<Rightarrow> rbind (stateEstablish sha e c2) (\<lambda>c. Ok (if round_state c = accepted then stateAccepted c else c))
        | finished \<Rightarrow> Ok c2 | accepted \<Rightarrow> Ok (stateAccepted c2))"
    unfolding timerEntry_def c1(1) rbind.simps Let_def c2_def ..
  show ?thesis
  proof (cases "round_state c2")
    case open'
    then have "mOurPosition c2 = None" using c2(2) by (simp add: round_ok_def)
    then show ?thesis using closeLedger_ok [OF u e c2(1)] c2(2) open' by (auto simp: r statePreClose_def Let_def)
  next
    case establish
    then obtain p where "mOurPosition c2 = Some p" using c2(2) by (auto simp: round_ok_def)
    then show ?thesis using stateEstablish_ok [OF u c2(1) _ establish, of p e] establish by (auto simp: r)
  next
    case finished
    then show ?thesis using c2(2) by (simp add: r)
  next
    case accepted
    then show ?thesis using c2(2) by (simp add: r stateAccepted_def round_ok_def)
  qed
qed

lemma leaveConsensus_ok:
  assumes "round_ok sha U c"
  shows "\<exists>c'. leaveConsensus e c = Ok c' \<and> round_ok sha U c'"
proof (cases "\<exists>p. mOurPosition c = Some p \<and> mProposing c \<and> \<not> isBowOut p")
  case True
  then obtain p where p: "mOurPosition c = Some p" "mProposing c" "\<not> isBowOut p" by blast
  let ?q = "bowOut (steady_now e) p"
  let ?c = "(emit_effect (SendProposal ?q) (c\<lparr>mOurPosition := Some ?q\<rparr>))\<lparr>mProposing := False\<rparr>"
  have "leaveConsensus e c = Ok ?c" using p by (simp add: leaveConsensus_def propose_def)
  moreover have "position_ok (Some ?q) (mAcquired c) (mDisputes c)"
    using assms p by (auto simp: round_ok_def cons_ok_def position_ok_def bowOut_def isBowOut_def)
  then have "round_ok sha U ?c" using assms p by (simp add: round_ok_def cons_defs emit_effect_def)
  ultimately show ?thesis by blast
next
  case False
  then have "leaveConsensus e c = Ok (c\<lparr>mProposing := False\<rparr>)"
    by (cases "mProposing c"; cases "mOurPosition c") (auto simp: leaveConsensus_def)
  moreover have "round_ok sha U (c\<lparr>mProposing := False\<rparr>)" using assms by (simp add: round_ok_def cons_defs)
  ultimately show ?thesis by blast
qed

end
