(* ===== verification/Consensus_Props.thy ===== *)
theory Consensus_Props
  imports Consensus_Round
begin

text \<open>
  What a consensus round guarantees: every sequence of events keeps the accounting of votes, consensus needs a
  supermajority so that two nodes disagree only if most validators told them different things, and a unanimous
  round ends.
\<close>

section \<open>Runs\<close>

text \<open>A machine whose steps are safe is safe along every run.\<close>

fun run_inputs :: "('i \<Rightarrow> 's \<Rightarrow> 's res) \<Rightarrow> 'i list \<Rightarrow> 's \<Rightarrow> 's res" where
  "run_inputs step [] s = Ok s"
| "run_inputs step (i # is) s = rbind (step i s) (run_inputs step is)"

locale machine =
  fixes step :: "'i \<Rightarrow> 's \<Rightarrow> 's res" and inv :: "'s \<Rightarrow> bool" and input :: "'i \<Rightarrow> bool"
  assumes step_safe: "inv s \<Longrightarrow> input i \<Longrightarrow> \<exists>s'. step i s = Ok s' \<and> inv s'"
begin

lemma run_safe: "inv s \<Longrightarrow> \<forall>i \<in> set is. input i \<Longrightarrow> \<exists>s'. run_inputs step is s = Ok s' \<and> inv s'"
proof (induction "is" arbitrary: s)
  case (Cons i "is")
  obtain s1 where "step i s = Ok s1" "inv s1" using step_safe [OF Cons.prems(1), of i] Cons.prems(2) by auto
  then show ?case using Cons.IH [of s1] Cons.prems(2) by auto
qed simp

end

text \<open>
  What happens to a round: the timer, a proposal of a peer, a transaction set that was acquired, our leaving, and
  the end of the job that \<open>beginAccept\<close> queued (\<open>accept\<close> sets the state last).
\<close>

datatype input = TimerEntry env | PeerPosition env LedgerProposal | MapComplete uint256 node | LeaveConsensus env | Accepted

fun handle :: "(blob \<Rightarrow> uint256) \<Rightarrow> input \<Rightarrow> consensus \<Rightarrow> consensus res" where
  "handle sha (TimerEntry e) c = timerEntry sha e c"
| "handle sha (PeerPosition e p) c = rbind (peerPosition e p c) (\<lambda>(_, c). Ok c)"
| "handle sha (MapComplete hash m) c = mapCompleteInternal sha hash (Some m) True c"
| "handle sha (LeaveConsensus e) c = leaveConsensus e c"
| "handle sha Accepted c = Ok (if round_state c = finished then c\<lparr>round_state := accepted\<rparr> else c)"

fun input_ok :: "(blob \<Rightarrow> uint256) \<Rightarrow> SHAMapItem set \<Rightarrow> input \<Rightarrow> bool" where
  "input_ok sha U (TimerEntry e) \<longleftrightarrow> env_ok sha U e"
| "input_ok sha U (PeerPosition e p) \<longleftrightarrow> env_ok sha U e"
| "input_ok sha U (MapComplete hash m) \<longleftrightarrow> tx_set U m \<and> getNodeHash sha m = hash"
| "input_ok sha U (LeaveConsensus e) \<longleftrightarrow> env_ok sha U e"
| "input_ok sha U Accepted \<longleftrightarrow> True"

lemma handle_safe:
  assumes "universe sha U" "round_ok sha U c" "input_ok sha U i"
  shows "\<exists>c'. handle sha i c = Ok c' \<and> round_ok sha U c'"
proof (cases i)
  case (TimerEntry e)
  then show ?thesis using timerEntry_ok [OF assms(1) _ assms(2), of e] assms(3) by simp
next
  case (PeerPosition e p)
  then obtain b c' where "peerPosition e p c = Ok (b, c')" "cons_ok sha U c'" "same_round c c'"
    using peerPosition_ok [of sha U e c p] assms(2,3) by (auto simp: round_ok_def)
  then show ?thesis using PeerPosition assms(2) by (auto simp: round_ok_def same_round_def)
next
  case (MapComplete h m)
  then obtain c' where "mapCompleteInternal sha h (Some m) True c = Ok c'" "cons_ok sha U c'" "same_frame c c'"
    using mapComplete_ok [OF assms(1), of c m h True] assms(2,3) unfolding round_ok_def cons_ok_def by auto
  then show ?thesis using MapComplete assms(2) by (auto simp: round_ok_def same_frame_def)
next
  case (LeaveConsensus e)
  then show ?thesis using leaveConsensus_ok [OF assms(2)] by simp
next
  case Accepted
  then show ?thesis using assms(2) by (auto simp: round_ok_def cons_defs)
qed

interpretation cm: machine "handle sha" "\<lambda>c. universe sha U \<and> round_ok sha U c" "input_ok sha U"
  by unfold_locales (use handle_safe in blast)

lemma make_ok:
  assumes u: "universe sha U" and e: "env_ok sha U e" and "convergeTime \<noteq> 0"
    and l: "li_closeTimeResolution prev \<in> set ledgerPossibleTimeResolutions" "li_seq prev + 1 \<noteq> 0"
  shows "\<exists>c. LedgerConsensusImp_make sha e proposers convergeTime lcl prev closeTime nodeID hasKeys full = Ok c \<and> round_ok sha U c"
proof -
  obtain r where r: "next_resolution prev = Ok r" "r \<in> set ledgerPossibleTimeResolutions"
    using next_resolution_ok [OF l, of "li_closeAgree prev"] by (auto simp: next_resolution_def)
  define c0 where "c0 = \<lparr>round_state = open', mCloseTime = closeTime, mPrevLedgerHash = lcl, mAcquiringLedger = 0,
              mPreviousLedger = prev, mOurPosition = None, mNodeID = nodeID, mProposing = (hasKeys \<and> full),
              mHaveCorrectLCL = (li_hash prev = lcl), mConsensusFail = False, mCurrentMSeconds = 0, mClosePercent = 0,
              mCloseResolution = r, mHaveCloseTimeConsensus = False, mConsensusStartTime = steady_now e,
              mPreviousProposers = proposers, mPreviousMSeconds = convergeTime, mPeerPositions = [], mAcquired = [],
              mDisputes = [], mCompares = [], mCloseTimes = [], mDeadNodes = [], effects = []\<rparr>"
  have c0: "cons_ok sha U c0" "mOurPosition c0 = None" "round_state c0 = open'" "mHaveCorrectLCL c0 \<longleftrightarrow> li_hash (mPreviousLedger c0) = mPrevLedgerHash c0"
    using r(2) by (simp_all add: c0_def cons_defs peers_ok_def acquired_ok_def position_ok_def)
  obtain c1 where c1: "(if mHaveCorrectLCL c0 then Ok c0 else handleLCL e (mPrevLedgerHash c0) c0) = Ok c1" "cons_ok sha U c1" "keeps_round c0 c1"
    using handleLCL_ok [OF e c0(1), of "mPrevLedgerHash c0"] c0 by (cases "mHaveCorrectLCL c0") (auto simp: keeps_round_def)
  obtain c2 where c2: "playbackProposals e c1 = Ok c2" "cons_ok sha U c2" "same_round c1 c2"
    using playback_ok [OF e c1(2)] unfolding playbackProposals_def by blast
  have k: "round_ok sha U c2" using c2(2,3) c1(3) c0 by (simp add: round_ok_def same_round_def keeps_round_def)
  have "LedgerConsensusImp_make sha e proposers convergeTime lcl prev closeTime nodeID hasKeys full =
    (if int (length (mPeerPositions c2)) > cdiv (mPreviousProposers c2) 2 then timerEntry sha e c2 else Ok c2)"
    unfolding LedgerConsensusImp_make_def r(1) rbind.simps Let_def c0_def [symmetric] c1(1) c2(1) using assms(3) by (simp add: require_def)
  then show ?thesis using timerEntry_ok [OF u e k] k by auto
qed

lemma count_votes_card: "om_ok m \<Longrightarrow> count_votes v m = int (card {p. map_of m p = Some v})"
proof -
  assume ok: "om_ok m"
  have "{p. map_of m p = Some v} = fst ` set (filter (\<lambda>x. snd x = v) m)" using om_in_set [OF ok] by (force simp: image_iff)
  moreover have "inj_on fst (set (filter (\<lambda>x. snd x = v) m))" by (auto simp: inj_on_def)
  moreover have "distinct (filter (\<lambda>x. snd x = v) m)" using om_ok_distinct [OF ok] by (simp add: distinct_map)
  ultimately show ?thesis using card_image distinct_card unfolding count_votes_def by metis
qed

lemma peer_votes_map:
  "dispute_ok d \<Longrightarrow> distinct (map fst ps) \<Longrightarrow>
    map_of (mVotes (peer_votes k acq ps d)) v = (case map_of ps v of None \<Rightarrow> map_of (mVotes d) v | Some q \<Rightarrow>
      (case map_of acq (mCurrentHash q) of Some (Some m) \<Rightarrow> Some (hasItem m k) | _ \<Rightarrow> map_of (mVotes d) v))"
proof (induction k acq ps d rule: peer_votes.induct)
  case (2 k acq peer p ps d)
  let ?d = "case map_of acq (mCurrentHash p) of Some (Some m) \<Rightarrow> setVote peer (hasItem m k) d | _ \<Rightarrow> d"
  have ok: "dispute_ok ?d" using "2.prems"(1) by (auto simp: setVote_ok split: option.splits)
  have "map_of ps peer = None" using "2.prems"(2) by (simp add: map_of_eq_None_iff)
  then show ?case using "2.IH" [OF ok] "2.prems" by (cases "v = peer") (auto simp: setVote_votes split: option.splits)
qed simp

lemma map_of_map_disputes: "map_of (map (\<lambda>(k, d). (k, f k d)) m) k = map_option (f k) (map_of m k)"
  by (induction m) auto

section \<open>Agreement\<close>

text \<open>The validators a node hears, with itself, and the position it has of each.\<close>

definition validators :: "consensus \<Rightarrow> NodeID set" where
  "validators c = insert (mNodeID c) (fst ` set (mPeerPositions c))"

definition position_of :: "consensus \<Rightarrow> NodeID \<Rightarrow> uint256 option" where
  "position_of c v =
     map_option mCurrentHash (if v = mNodeID c then mOurPosition c else map_of (mPeerPositions c) v)"

lemma filter_card:
  assumes "om_ok m" "\<And>k p. (k, p) \<in> set m \<Longrightarrow> P p \<longleftrightarrow> Q k p"
  shows "length (filter (\<lambda>(_, p). P p) m) = card {k. \<exists>p. map_of m k = Some p \<and> Q k p}"
proof -
  have "{k. \<exists>p. map_of m k = Some p \<and> Q k p} = fst ` set (filter (\<lambda>(_, p). P p) m)"
    using om_in_set [OF assms(1)] assms(2) by (force simp: image_iff)
  moreover have "inj_on fst (set (filter (\<lambda>(_, p). P p) m))" using om_in_set [OF assms(1)] by (auto simp: inj_on_def)
  moreover have "distinct (filter (\<lambda>(_, p). P p) m)" using om_ok_distinct [OF assms(1)] by (simp add: distinct_map)
  ultimately show ?thesis using card_image distinct_card by metis
qed

text \<open>The counts of \<open>haveConsensus\<close> are those of the validators that share our position.\<close>

lemma agree_counts:
  assumes ok: "cons_ok sha U c" and p: "mOurPosition c = Some p" and own: "mNodeID c \<notin> fst ` set (mPeerPositions c)"
  defines "a \<equiv> length (filter (\<lambda>(_, q). \<not> isBowOut q \<and> mCurrentHash q = mCurrentHash p) (mPeerPositions c))"
    and "d \<equiv> length (filter (\<lambda>(_, q). \<not> isBowOut q \<and> mCurrentHash q \<noteq> mCurrentHash p) (mPeerPositions c))"
  shows "Suc (a + d) = card (validators c)" "Suc a = card {v \<in> validators c. position_of c v = Some (mCurrentHash p)}"
proof -
  let ?m = "mPeerPositions c"
  have om: "om_ok ?m" and nb: "\<And>k q. (k, q) \<in> set ?m \<Longrightarrow> \<not> isBowOut q" using ok by (auto simp: cons_defs peers_ok_def)
  let ?P = "\<lambda>x. mCurrentHash (snd x) = mCurrentHash p"
  have eq: "filter (\<lambda>(_, q). \<not> isBowOut q \<and> mCurrentHash q = mCurrentHash p) ?m = filter ?P ?m"
    "filter (\<lambda>(_, q). \<not> isBowOut q \<and> mCurrentHash q \<noteq> mCurrentHash p) ?m = filter (\<lambda>x. \<not> ?P x) ?m"
    using nb by (auto intro!: filter_cong)
  have "a + d = length ?m" unfolding a_def d_def eq by (rule sum_length_filter_compl)
  moreover have "card (fst ` set ?m) = length ?m" using distinct_card [OF om_ok_distinct [OF om]] by simp
  ultimately show "Suc (a + d) = card (validators c)" using own by (simp add: validators_def)
  have "{v \<in> validators c. position_of c v = Some (mCurrentHash p)} = insert (mNodeID c) {k. \<exists>q. map_of ?m k = Some q \<and> mCurrentHash q = mCurrentHash p}"
    using p own by (auto simp: validators_def position_of_def dest: map_of_SomeD) (metis fst_conv image_eqI map_of_SomeD)
  moreover have "mNodeID c \<notin> {k. \<exists>q. map_of ?m k = Some q \<and> mCurrentHash q = mCurrentHash p}" using own map_of_eq_None_iff [of ?m "mNodeID c"] by auto
  moreover have "finite {k. \<exists>q. map_of ?m k = Some q \<and> mCurrentHash q = mCurrentHash p}"
    by (rule finite_subset [OF _ finite_dom_map_of [of ?m]]) auto
  moreover have "a = card {k. \<exists>q. map_of ?m k = Some q \<and> mCurrentHash q = mCurrentHash p}"
    unfolding a_def by (rule filter_card [OF om]) (use nb in blast)
  ultimately show "Suc a = card {v \<in> validators c. position_of c v = Some (mCurrentHash p)}" by simp
qed

text \<open>What \<open>checkConsensus\<close> is asked, in terms of the validators.\<close>

definition verdict :: "env \<Rightarrow> consensus \<Rightarrow> uint256 \<Rightarrow> ConsensusState" where
  "verdict e c h =
     checkConsensus (mPreviousProposers c) (int (card (validators c)) - 1) (int (card {v \<in> validators c. position_of c v = Some h}) - 1)
       (getNodesAfter e (mPrevLedgerHash c)) (mPreviousMSeconds c) (mCurrentMSeconds c)"

lemma haveConsensus_result:
  assumes u: "universe sha U" and ok: "cons_ok sha U c" and p: "mOurPosition c = Some p" and own: "mNodeID c \<notin> fst ` set (mPeerPositions c)"
  shows "\<exists>c'. haveConsensus sha e c = Ok (verdict e c (mCurrentHash p) \<noteq> No, c') \<and>
    (verdict e c (mCurrentHash p) \<noteq> No \<longrightarrow> (mConsensusFail c' \<longleftrightarrow> verdict e c (mCurrentHash p) = MovedOn))"
proof -
  let ?a = "int (length (filter (\<lambda>(_, q). \<not> isBowOut q \<and> mCurrentHash q = mCurrentHash p) (mPeerPositions c)))"
    and ?d = "int (length (filter (\<lambda>(_, q). \<not> isBowOut q \<and> mCurrentHash q \<noteq> mCurrentHash p) (mPeerPositions c)))"
  have "mOurPosition c \<noteq> None" using p by simp
  from agree_loop_ok [OF u ok this, of "mCurrentHash p" "mPeerPositions c" 0 0]
  obtain c1 where c1: "agree_loop sha (mCurrentHash p) (mPeerPositions c) 0 0 c = Ok (?a, ?d, c1)" "dispute_update c c1" by auto
  note f = dispute_update_frame [OF c1(2)]
  note n = agree_counts [OF ok p own]
  have ad: "?a + ?d = int (card (validators c)) - 1" and a: "?a = int (card {v \<in> validators c. position_of c v = Some (mCurrentHash p)}) - 1"
    using n by linarith+
  have v: "checkConsensus (mPreviousProposers c1) (?a + ?d) ?a (getNodesAfter e (mPrevLedgerHash c1)) (mPreviousMSeconds c1) (mCurrentMSeconds c1) =
    verdict e c (mCurrentHash p)" using f unfolding ad unfolding a verdict_def by simp
  have "haveConsensus sha e c = (case verdict e c (mCurrentHash p) of No \<Rightarrow> Ok (False, c1)
      | MovedOn \<Rightarrow> Ok (True, c1\<lparr>mConsensusFail := True\<rparr>) | Yes \<Rightarrow> Ok (True, c1\<lparr>mConsensusFail := False\<rparr>))"
    unfolding haveConsensus_def p option.case c1(1) rbind.simps prod.case v ..
  then show ?thesis by (cases "verdict e c (mCurrentHash p)") auto
qed

lemma yes_reached:
  assumes "finite (validators c)" "verdict e c h = Yes"
  shows "validators c \<noteq> {} \<and> checkConsensusReached (int (card {v \<in> validators c. position_of c v = Some h})) (int (card (validators c)) - 1)"
  using assms(2) by (auto simp: verdict_def checkConsensus_def validators_def split: if_splits)

section \<open>Close times\<close>

lemma time_loop_result:
  assumes "om_ok ts" "time_loop thC ts thV t0 g0 = (t, g)"
  shows "(\<forall>(x, n) \<in> set ts. n < thV) \<and> t = t0 \<and> g = g0 \<or>
    (\<exists>n. (t, n) \<in> set ts \<and> thV \<le> n \<and> (\<forall>(x, m) \<in> set ts. m \<le> n \<and> (m = n \<longrightarrow> x \<le> t)) \<and> (g \<longleftrightarrow> g0 \<or> thC \<le> n))"
  using assms
proof (induction thC ts thV t0 g0 rule: time_loop.induct)
  case (2 thC x m ts thV t0 g0)
  have lt: "\<And>y n. (y, n) \<in> set ts \<Longrightarrow> x < y" and ok: "om_ok ts" using "2.prems"(1) by (auto simp: om_ok_Cons)
  show ?case
  proof (cases "thV \<le> m")
    case True
    have "time_loop thC ts m x (g0 \<or> thC \<le> m) = (t, g)" using "2.prems"(2) True by simp
    from "2.IH"(1) [OF True ok this] show ?thesis
    proof (elim disjE exE)
      assume a: "(\<forall>(x, n) \<in> set ts. n < m) \<and> t = x \<and> g = (g0 \<or> thC \<le> m)"
      then show ?thesis using True by (intro disjI2 exI [of _ m]) auto
    next
      fix n assume "(t, n) \<in> set ts \<and> m \<le> n \<and> (\<forall>(x, m) \<in> set ts. m \<le> n \<and> (m = n \<longrightarrow> x \<le> t)) \<and> (g \<longleftrightarrow> (g0 \<or> thC \<le> m) \<or> thC \<le> n)"
      then show ?thesis using True lt by (intro disjI2 exI [of _ n]) fastforce
    qed
  next
    case False
    have "time_loop thC ts thV t0 g0 = (t, g)" using "2.prems"(2) False by simp
    from "2.IH"(2) [OF False ok this] show ?thesis
    proof (elim disjE exE)
      fix n assume "(t, n) \<in> set ts \<and> thV \<le> n \<and> (\<forall>(x, m) \<in> set ts. m \<le> n \<and> (m = n \<longrightarrow> x \<le> t)) \<and> (g \<longleftrightarrow> g0 \<or> thC \<le> n)"
      then show ?thesis using False by (intro disjI2 exI [of _ n]) auto
    qed (use False in auto)
  qed
qed simp

lemma sum_put:
  "om_ok m \<Longrightarrow> sum_list (map snd (om_put k v m)) = sum_list (map snd m) + v - (case map_of m k of None \<Rightarrow> (0 :: int) | Some w \<Rightarrow> w)"
proof (induction m)
  case (Cons x m)
  obtain k' v' where x: "x = (k', v')" by (cases x)
  have "map_of m k = None" if "k \<le> k'" using Cons.prems x that by (force simp: om_ok_Cons map_of_eq_None_iff)
  then show ?case using Cons.IH [OF om_ok_ConsD [OF Cons.prems]] x by (auto split: option.splits)
qed simp

lemma count_time_ok: "om_ok m \<Longrightarrow> om_ok (count_time t m) \<and> sum_list (map snd (count_time t m)) = sum_list (map snd m) + 1"
  by (auto simp: count_time_def om_put_ok sum_put split: option.split)

lemma count_time_pos: "om_ok m \<Longrightarrow> \<forall>(_, x) \<in> set m. 0 \<le> x \<Longrightarrow> \<forall>(_, x) \<in> set (count_time t m). (0 :: int) \<le> x"
  using set_om_put [of t "case map_of m t of None \<Rightarrow> 1 | Some n \<Rightarrow> n + 1" m]
  by (fastforce simp: count_time_def split: option.splits dest: map_of_SomeD)

lemma stale_loop_pos: "om_ok ct \<Longrightarrow> \<forall>(_, x) \<in> set ct. 0 \<le> x \<Longrightarrow> stale_loop cutoff ps ct c = (ct', c') \<Longrightarrow> \<forall>(_, x) \<in> set ct'. 0 \<le> x"
proof (induction cutoff ps ct c rule: stale_loop.induct)
  case (2 cutoff k p ps ct c)
  then show ?case using count_time_ok [OF "2.prems"(1)] count_time_pos [OF "2.prems"(1,2)] by (auto simp: Let_def split: if_splits)
qed simp

lemma stale_loop_counts:
  assumes "om_ok ct" "stale_loop cutoff ps ct c = (ct', c')" "distinct (map fst ps)" "fst ` set ps \<subseteq> fst ` set (mPeerPositions c)" "om_ok (mPeerPositions c)"
  shows "om_ok ct' \<and> om_ok (mPeerPositions c') \<and>
    sum_list (map snd ct') + int (length (mPeerPositions c)) = sum_list (map snd ct) + int (length ps) + int (length (mPeerPositions c'))"
  using assms
proof (induction cutoff ps ct c rule: stale_loop.induct)
  case (2 cutoff k p ps ct c)
  show ?case
  proof (cases "isStale cutoff p")
    case True
    let ?c = "(map_disputes (\<lambda>_. unVote (mPeerID p)) c)\<lparr>mPeerPositions := om_del k (mPeerPositions c)\<rparr>"
    have om: "om_ok (om_del k (mPeerPositions c))" using "2.prems"(5) by (rule om_del_ok)
    have keys: "fst ` set (om_del k (mPeerPositions c)) = fst ` set (mPeerPositions c) - {k}" by (rule om_del_keys)
    have "length (om_del k (mPeerPositions c)) = card (fst ` set (om_del k (mPeerPositions c)))"
      using distinct_card [OF om_ok_distinct [OF om]] by simp
    also have "\<dots> = card (fst ` set (mPeerPositions c)) - 1" using "2.prems"(4) unfolding keys by (simp add: card_Diff_singleton)
    also have "card (fst ` set (mPeerPositions c)) = length (mPeerPositions c)" using distinct_card [OF om_ok_distinct [OF "2.prems"(5)]] by simp
    finally have "length (om_del k (mPeerPositions c)) = length (mPeerPositions c) - 1" .
    moreover have "mPeerPositions c \<noteq> []" using "2.prems"(4) by auto
    ultimately have len: "int (length (mPeerPositions c)) = int (length (om_del k (mPeerPositions c))) + 1" by (cases "mPeerPositions c") auto
    have st: "stale_loop cutoff ps ct ?c = (ct', c')" using "2.prems"(2) True by (simp add: Let_def)
    have "om_ok ct' \<and> om_ok (mPeerPositions c') \<and>
      sum_list (map snd ct') + int (length (mPeerPositions ?c)) = sum_list (map snd ct) + int (length ps) + int (length (mPeerPositions c'))"
    proof (rule "2.IH"(1) [OF True refl "2.prems"(1), unfolded map_disputes_fields, OF st])
      show "distinct (map fst ps)" "om_ok (mPeerPositions ?c)" using "2.prems"(3) om by simp_all
      have "k \<notin> fst ` set ps" "fst ` set ps \<subseteq> fst ` set (mPeerPositions c)" using "2.prems"(3,4) by auto
      then show "fst ` set ps \<subseteq> fst ` set (mPeerPositions ?c)" using keys by (simp add: subset_Diff_insert)
    qed
    then show ?thesis using len by auto
  next
    case False
    let ?ct = "count_time (effectiveCloseTime c (prop_closeTime p)) ct"
    have "stale_loop cutoff ps ?ct c = (ct', c')" using "2.prems"(2) False by simp
    then show ?thesis using "2.IH"(2) [OF False] count_time_ok [OF "2.prems"(1)] "2.prems"(3-5) by auto
  qed
qed simp

lemma sum_two:
  assumes "om_ok (m :: (u32, int) omap)" "(t, n) \<in> set m" "(t', n') \<in> set m" "t \<noteq> t'" "\<forall>(_, x) \<in> set m. 0 \<le> x"
  shows "n + n' \<le> sum_list (map snd m)"
  using assms
proof (induction m)
  case (Cons x m)
  have ok: "om_ok m" "\<forall>(_, x) \<in> set m. 0 \<le> x" using Cons.prems(1,5) om_ok_ConsD by auto
  have ge: "v \<le> sum_list (map snd m)" if "(k, v) \<in> set m" for k v
  proof -
    have "v \<in> set (map snd m)" using that by force
    moreover have "\<forall>y \<in> set (map snd m). 0 \<le> y" using ok(2) by auto
    ultimately show ?thesis by (intro member_le_sum_list) auto
  qed
  have d: "fst x \<notin> fst ` set m" using om_ok_distinct [OF Cons.prems(1)] by simp
  show ?case using Cons ok ge d by (cases x) auto
qed simp

text \<open>The close times that are voted on: those of the fresh positions and, when proposing, ours.\<close>

definition time_votes :: "consensus \<Rightarrow> LedgerProposal \<Rightarrow> (u32, int) omap \<Rightarrow> (u32, int) omap" where
  "time_votes c ours cts = (if mProposing c then count_time (effectiveCloseTime c (prop_closeTime ours)) cts else cts)"

section \<open>A sample\<close>

text \<open>One transaction, a digest without collisions on the sets of it, and a round in which another validator proposes.\<close>

definition sample_tx_tree :: node where
  "sample_tx_tree = Inner (setChild 0 (Some (Leaf (sample_item 7) tnTRANSACTION_NM)) new_inner)"

definition sample_sha :: "blob \<Rightarrow> uint256" where
  "sample_sha m = (if m = leaf_message (sample_item 7) tnTRANSACTION_NM then 7 else 9)"

lemma sample_tx_add: "addGiveItem SHAMap_make (sample_item 7) True False = Ok (True, sample_tx_tree)"
proof -
  have "selectBranch 0 7 = 0" by (simp add: selectBranch_digit)
  then show ?thesis
    by (simp add: addGiveItem_def SHAMap_make_def sample_tx_tree_def sample_item_def add_top_def make_leaf_def isEmptyBranch_def leaf_type_def)
qed

lemma sample_tx_ok: "typed_ok True False sample_tx_tree" "peekItem sample_tx_tree = [7 \<mapsto> sample_item 7]"
proof -
  have "\<exists>m'. addGiveItem SHAMap_make (sample_item 7) True False = Ok (True, m') \<and> typed_ok True False m' \<and>
    peekItem m' = (peekItem SHAMap_make)(item_key (sample_item 7) \<mapsto> sample_item 7)"
    by (rule sm.add_new [OF sm.invar_empty]) (simp_all add: empty_ok(3) sample_item_def)
  moreover have "peekItem SHAMap_make = Map.empty" using empty_ok(3) by auto
  ultimately show "typed_ok True False sample_tx_tree" "peekItem sample_tx_tree = [7 \<mapsto> sample_item 7]"
    using sample_tx_add by (auto simp: sample_item_def)
qed

lemma typed_items: "typed_ok tx md m \<Longrightarrow> it \<in> items m \<longleftrightarrow> peekItem m (item_key it) = Some it"
  using peekItem_items by (auto simp: typed_ok_def shamap_ok_iff)

lemma sample_sets: "tx_set {sample_item 7} m \<longleftrightarrow> m = SHAMap_make \<or> m = sample_tx_tree"
proof
  assume m: "tx_set {sample_item 7} m"
  then have ty: "typed_ok True False m" by (simp add: tx_set_def)
  have p: "peekItem m k = Some it \<Longrightarrow> it = sample_item 7 \<and> k = 7" for k it
    using peek_leaf(1,2) [OF m, of k it] by (auto simp: sample_item_def)
  show "m = SHAMap_make \<or> m = sample_tx_tree"
  proof (cases "peekItem m 7")
    case None
    have "peekItem m k = peekItem SHAMap_make k" for k
    proof (cases "peekItem m k")
      case (Some it)
      then show ?thesis using p [OF Some] None by simp
    qed (simp add: empty_ok(3))
    then have "peekItem m = peekItem SHAMap_make" by (rule ext)
    then show ?thesis using contents_unique [OF ty sm.invar_empty] by blast
  next
    case (Some it)
    have "peekItem m k = peekItem sample_tx_tree k" for k
    proof (cases "peekItem m k")
      case None
      then show ?thesis using Some by (auto simp: sample_tx_ok(2))
    next
      case (Some it')
      then show ?thesis using p [OF Some] by (simp add: sample_tx_ok(2))
    qed
    then have "peekItem m = peekItem sample_tx_tree" by (rule ext)
    then show ?thesis using contents_unique [OF ty sample_tx_ok(1)] by blast
  qed
next
  have "items sample_tx_tree \<subseteq> {sample_item 7}" using typed_items [OF sample_tx_ok(1)] by (auto simp: sample_tx_ok(2) split: if_splits)
  moreover have "items SHAMap_make = {}" using typed_items [OF sm.invar_empty] by (auto simp: empty_ok(3))
  ultimately show "m = SHAMap_make \<or> m = sample_tx_tree \<Longrightarrow> tx_set {sample_item 7} m"
    using sample_tx_ok(1) sm.invar_empty by (auto simp: tx_set_def)
qed

lemma sample_hashes: "getNodeHash sha SHAMap_make = 0" "getNodeHash sample_sha sample_tx_tree = 9" "messages sha SHAMap_make = {}"
proof -
  have "count_nonempty new_inner = []" using getChild_set [of new_inner] by (metis ex_in_conv new_inner_simps(2) option.distinct(1) set_empty)
  then show "getNodeHash sha SHAMap_make = 0" "messages sha SHAMap_make = {}" by (simp_all add: SHAMap_make_def)
  have "inner_message hs \<noteq> leaf_message (sample_item 7) tnTRANSACTION_NM" for hs
    using leaf_not_inner [of tnTRANSACTION_NM "sample_item 7" hs] by (auto simp: isLeafType_def)
  moreover have "count_nonempty (setChild 0 (Some (Leaf (sample_item 7) tnTRANSACTION_NM)) new_inner) \<noteq> []"
    by (simp add: setChild_def new_inner_def numeral_eq_Suc)
  ultimately show "getNodeHash sample_sha sample_tx_tree = 9" by (simp add: sample_tx_tree_def sample_sha_def)
qed

lemma sample_universe: "universe sample_sha {sample_item 7}"
proof -
  let ?l = "leaf_message (sample_item 7) tnTRANSACTION_NM"
  have "\<exists>x. messages sample_sha sample_tx_tree \<subseteq> {x, ?l} \<and> x \<noteq> ?l"
    using leaf_not_inner [of tnTRANSACTION_NM "sample_item 7", THEN not_sym]
    by (intro exI [of _ "inner_message (map (child_hash sample_sha (children sample_tx_tree)) [0..<16])"])
      (auto simp: sample_tx_tree_def isLeafType_def split: option.splits if_splits)
  then obtain x where x: "messages sample_sha sample_tx_tree \<subseteq> {x, ?l}" "x \<noteq> ?l" by blast
  have "no_collision sample_sha {x, ?l}" using x(2) by (auto simp: no_collision_def sample_sha_def)
  then have "no_collision sample_sha (\<Union>m \<in> {m. tx_set {sample_item 7} m}. messages sample_sha m)"
    by (rule no_collision_mono) (use x(1) sample_hashes(3) in \<open>auto simp: sample_sets\<close>)
  then show ?thesis by (simp add: universe_def sample_sha_def) (simp add: sample_item_def)
qed

definition sample_env :: env where
  "sample_env = \<lparr>steady_now = 5000, closeTime_now = 100, getSet = (\<lambda>h. if h = 0 then Some SHAMap_make else None), getCurrentValidations = (\<lambda>_ _. []),
     getTrustedValidationCount = (\<lambda>_. 0), getNodesAfter = (\<lambda>_. 0), getLedgerByHash = (\<lambda>_. None), storedProposals = [],
     openTxs = [sample_item 7], openParent = 3, openTxExists = (\<lambda>k. k = 7), votedTxs = [], lastCloseTime = 90, standalone = False\<rparr>"

definition sample_ledger :: LedgerInfo where
  "sample_ledger = \<lparr>li_hash = 3, li_parentHash = 2, li_seq = 5, li_closeTime = 90, li_parentCloseTime = 60, li_closeTimeResolution = 30, li_closeAgree = True,
     li_open = False, li_immutable = True\<rparr>"

definition sample_proposal :: "uint256 \<Rightarrow> NodeID \<Rightarrow> LedgerProposal" where
  "sample_proposal h v = \<lparr>mPreviousLedgerHash = 3, mCurrentHash = h, prop_closeTime = 100, mProposeSeq = 0, mPeerID = v, mTime = 4000\<rparr>"

definition sample_round :: "NodeID \<Rightarrow> uint256 \<Rightarrow> NodeID \<Rightarrow> uint256 \<Rightarrow> (uint256, DisputedTx) omap \<Rightarrow> consensus" where
  "sample_round n h v h' ds =
     \<lparr>round_state = establish, mCloseTime = 100, mPrevLedgerHash = 3, mAcquiringLedger = 0, mPreviousLedger = sample_ledger,
      mOurPosition = Some (sample_proposal h n), mNodeID = n, mProposing = True, mHaveCorrectLCL = True, mConsensusFail = False,
      mCurrentMSeconds = 3000, mClosePercent = 100, mCloseResolution = 30, mHaveCloseTimeConsensus = False, mConsensusStartTime = 0,
      mPreviousProposers = 1, mPreviousMSeconds = 3000, mPeerPositions = [(v, sample_proposal h' v)],
      mAcquired = [(9, Some sample_tx_tree)], mDisputes = ds, mCompares = [], mCloseTimes = [], mDeadNodes = [], effects = []\<rparr>"

lemma sample_env_ok: "env_ok sample_sha {sample_item 7} sample_env"
  by (simp add: env_ok_def sample_env_def sample_sets sample_hashes(1))

lemma sample_round_ok:
  assumes "\<forall>kd \<in> set ds. disputed_ok {sample_item 7} {v} kd" "om_ok ds" "votes_match sample_tx_tree ds"
  shows "round_ok sample_sha {sample_item 7} (sample_round n 9 v h ds)"
  using assms sample_hashes(2) sample_sets
  by (auto simp: round_ok_def cons_defs sample_round_def peers_ok_def acquired_ok_def position_ok_def sample_proposal_def isBowOut_def seqLeave_def
      om_ok_def ledgerPossibleTimeResolutions_def)

section \<open>Properties\<close>

text \<open>
  C5. A consensus round keeps its books: whatever timer ticks, proposals, transaction sets and departures arrive
  (where the ledgers that the ledger master finds by their hash are closed and immutable, and no transaction set is
  null), no assertion fails and, in the state reached, the counts of every dispute are the numbers of its yes and no votes,
  only peers with a current position vote, and, unless we bowed out, our vote on a disputed transaction says
  whether the transaction set of our position contains it.
\<close>

theorem consensus_round_safe:
  assumes "universe sha U" "env_ok sha U e" "convergeTime \<noteq> 0" "li_closeTimeResolution prev \<in> set ledgerPossibleTimeResolutions"
    and "li_seq prev + 1 \<noteq> 0" "\<forall>i \<in> set is. input_ok sha U i"
  shows "\<exists>c. rbind (LedgerConsensusImp_make sha e proposers convergeTime lcl prev closeTime nodeID hasKeys full) (run_inputs (handle sha) is) = Ok c \<and>
    (\<forall>k d. map_of (mDisputes c) k = Some d \<longrightarrow>
      mYays d = int (card {v. map_of (mVotes d) v = Some True}) \<and> mNays d = int (card {v. map_of (mVotes d) v = Some False}) \<and>
      dom (map_of (mVotes d)) \<subseteq> dom (map_of (mPeerPositions c)) \<and>
      (\<forall>p. mOurPosition c = Some p \<longrightarrow> \<not> isBowOut p \<longrightarrow>
        (\<exists>m. our_set c = Ok m \<and> getNodeHash sha m = mCurrentHash p \<and> mOurVote d = hasItem m k)))"
proof -
  obtain c0 where c0: "LedgerConsensusImp_make sha e proposers convergeTime lcl prev closeTime nodeID hasKeys full = Ok c0" "round_ok sha U c0"
    using make_ok [OF assms(1-5)] by blast
  have inv: "universe sha U \<and> round_ok sha U c0" using assms(1) c0(2) by blast
  obtain c where c: "run_inputs (handle sha) is c0 = Ok c" "round_ok sha U c" using cm.run_safe [OF inv assms(6)] by blast
  have ok: "cons_ok sha U c" using c(2) by (simp add: round_ok_def)
  have d: "disputed_ok U (fst ` set (mPeerPositions c)) (k, d)" if "map_of (mDisputes c) k = Some d" for k d
    using ok map_of_SomeD [OF that] unfolding cons_defs by blast
  have "\<exists>m. our_set c = Ok m \<and> getNodeHash sha m = mCurrentHash p \<and> mOurVote d = hasItem m k"
    if "map_of (mDisputes c) k = Some d" "mOurPosition c = Some p" "\<not> isBowOut p" for k d p
    using our_set_ok [OF ok that(2)] that(3) map_of_SomeD [OF that(1)] unfolding votes_match_def by blast
  moreover have "mYays d = int (card {v. map_of (mVotes d) v = Some True}) \<and> mNays d = int (card {v. map_of (mVotes d) v = Some False}) \<and>
      dom (map_of (mVotes d)) \<subseteq> dom (map_of (mPeerPositions c))" if "map_of (mDisputes c) k = Some d" for k d
    using d [OF that] count_votes_card [of "mVotes d"] by (simp add: disputed_ok_def dispute_ok_def dom_map_of_conv_image_fst)
  ultimately show ?thesis using c0(1) c(1) by (intro exI [of _ c]) simp
qed

text \<open>
  C3. Agreement: when two nodes that hear the same validators both declare consensus, they hold the same
  transaction set, unless at least 62 percent of the validators told the two nodes different positions.
\<close>

theorem consensus_agreement:
  assumes "universe sha U" "round_ok sha U c1" "round_ok sha U c2" "validators c1 = validators c2"
    and "mNodeID c1 \<notin> fst ` set (mPeerPositions c1)" "mNodeID c2 \<notin> fst ` set (mPeerPositions c2)"
    and "mOurPosition c1 = Some p1" "mOurPosition c2 = Some p2"
    and "haveConsensus sha e1 c1 = Ok (True, d1)" "haveConsensus sha e2 c2 = Ok (True, d2)" "\<not> mConsensusFail d1" "\<not> mConsensusFail d2"
  shows "mCurrentHash p1 = mCurrentHash p2 \<or>
    62 * card (validators c1) \<le> 100 * card {v \<in> validators c1. position_of c1 v \<noteq> position_of c2 v}"
proof -
  have ok: "cons_ok sha U c1" "cons_ok sha U c2" using assms(2,3) by (simp_all add: round_ok_def)
  have "verdict e1 c1 (mCurrentHash p1) = Yes"
    using haveConsensus_result [OF assms(1) ok(1) assms(7,5), of e1] assms(9,11) by (cases "verdict e1 c1 (mCurrentHash p1)") auto
  moreover have "verdict e2 c2 (mCurrentHash p2) = Yes"
    using haveConsensus_result [OF assms(1) ok(2) assms(8,6), of e2] assms(10,12) by (cases "verdict e2 c2 (mCurrentHash p2)") auto
  moreover have fin: "finite (validators c1)" by (simp add: validators_def)
  ultimately have "mCurrentHash p1 \<noteq> mCurrentHash p2 \<Longrightarrow> 62 * card (validators c1) \<le> 100 * card {v \<in> validators c1. position_of c1 v \<noteq> position_of c2 v}"
    using cr.disagreement [OF fin yes_reached yes_reached [of c2, folded assms(4)]] assms(4) by auto
  then show ?thesis by blast
qed

text \<open>
  C27. A unanimous round ends: once every validator heard has our position, more than the minimum time has passed,
  and three quarters of the previous proposers are there or the previous round's time and the minimum are up,
  \<open>haveConsensus\<close> reports consensus, and that we are part of it.
\<close>

theorem unanimous_consensus:
  assumes "universe sha U" "round_ok sha U c" "mOurPosition c = Some p" "mNodeID c \<notin> fst ` set (mPeerPositions c)"
    and "\<forall>(_, q) \<in> set (mPeerPositions c). mCurrentHash q = mCurrentHash p" "LEDGER_MIN_CONSENSUS < mCurrentMSeconds c"
    and "cdiv (mPreviousProposers c * 3) 4 \<le> int (length (mPeerPositions c)) \<or> mPreviousMSeconds c + LEDGER_MIN_CONSENSUS \<le> mCurrentMSeconds c"
  shows "\<exists>c'. haveConsensus sha e c = Ok (True, c') \<and> \<not> mConsensusFail c'"
proof -
  have ok: "cons_ok sha U c" using assms(2) by (simp add: round_ok_def)
  have om: "om_ok (mPeerPositions c)" using ok by (simp add: cons_defs peers_ok_def)
  have "{v \<in> validators c. position_of c v = Some (mCurrentHash p)} = validators c"
    using assms(3,5) om_in_set [OF om] by (force simp: validators_def position_of_def)
  moreover have n: "int (card (validators c)) = int (length (mPeerPositions c)) + 1"
    using assms(4) distinct_card [OF om_ok_distinct [OF om]] by (simp add: validators_def)
  moreover have "checkConsensusReached (int (length (mPeerPositions c)) + 1) (int (length (mPeerPositions c)))"
    by (simp add: consensus_reached_iff)
  ultimately have "verdict e c (mCurrentHash p) = Yes" using assms(6,7) by (auto simp: verdict_def checkConsensus_def)
  then show ?thesis using haveConsensus_result [OF assms(1) ok assms(3,4), of e] by auto
qed

text \<open>
  C29. \<open>createDisputes\<close> puts exactly the transactions that are in one of two sets only under dispute, keeps the
  disputes there were, and gives each new one our vote and the vote of every peer whose set is known, as long as the
  two sets differ in fewer than 16384 transactions (the limit with which it calls \<open>compare\<close>).
\<close>

theorem createDisputes_exact:
  assumes "universe sha U" "round_ok sha U c" "mOurPosition c = Some p" "tx_set U a" "tx_set U b" "card (differing a b) < 16384"
  shows "\<exists>c'. createDisputes sha a b c = Ok c' \<and> dom (map_of (mDisputes c')) = differing a b \<union> dom (map_of (mDisputes c)) \<and>
    (\<forall>k d. map_of (mDisputes c') k = Some d \<longrightarrow> map_of (mDisputes c) k = Some d \<or>
      map_of (mDisputes c) k = None \<and> our_vote k c = Ok (mOurVote d) \<and>
      (\<forall>v. map_of (mVotes d) v = (case map_of (mPeerPositions c) v of None \<Rightarrow> None | Some q \<Rightarrow>
        (case map_of (mAcquired c) (mCurrentHash q) of Some (Some m) \<Rightarrow> Some (hasItem m k) | _ \<Rightarrow> None))))"
proof -
  have ok: "cons_ok sha U c" using assms(2) by (simp add: round_ok_def)
  have om: "distinct (map fst (mPeerPositions c))" using ok om_ok_distinct by (auto simp: cons_defs peers_ok_def)
  have "mOurPosition c \<noteq> None" using assms(3) by simp
  from createDisputes_ok [OF assms(1) ok this assms(4,5)] assms(6) obtain c' where c': "createDisputes sha a b c = Ok c'"
    "dom (map_of (mDisputes c')) = differing a b \<union> dom (map_of (mDisputes c))" "only_new c c'" by blast
  have "map_of (mDisputes c) k = Some d \<or> map_of (mDisputes c) k = None \<and> our_vote k c = Ok (mOurVote d) \<and>
      (\<forall>v. map_of (mVotes d) v = (case map_of (mPeerPositions c) v of None \<Rightarrow> None | Some q \<Rightarrow>
        (case map_of (mAcquired c) (mCurrentHash q) of Some (Some m) \<Rightarrow> Some (hasItem m k) | _ \<Rightarrow> None)))"
    if "map_of (mDisputes c') k = Some d" for k d
    using conjunct2 [OF c'(3) [unfolded only_new_def], rule_format, OF that]
  proof (elim disjE conjE exE)
    fix tx v assume n: "map_of (mDisputes c) k = None" "our_vote k c = Ok v"
      and d: "d = peer_votes k (mAcquired c) (mPeerPositions c) (DisputedTx_make k tx v)"
    have "mOurVote d = v" unfolding d using peer_votes_keep [of k] by simp
    then show ?thesis using n peer_votes_map [OF _ om, of "DisputedTx_make k tx v" k "mAcquired c"] unfolding d by (simp split: option.split)
  qed simp
  then show ?thesis using c'(1,2) by blast
qed

text \<open>
  A peer's vote can be lost: when the set of a position has been fetched by the proposal of another peer, its
  completion is taken for known and no votes are counted, although peers that proposed it earlier never voted.
\<close>

theorem late_set_votes_lost:
  assumes "round_ok sha U c" "env_ok sha U e" "mPeerID np \<notin> set (mDeadNodes c)" "map_of (mPeerPositions c) (mPeerID np) = None" "\<not> isBowOut np"
    and "map_of (mAcquired c) (mCurrentHash np) = None" "getSet e (mCurrentHash np) = Some m"
    and "map_of (mPeerPositions c) v = Some q" "mCurrentHash q = mCurrentHash np" "map_of (mDisputes c) k = Some d"
  shows "\<exists>c1 d1. peerPosition e np c = Ok (True, c1) \<and> mapCompleteInternal sha (mCurrentHash np) (Some m) True c1 = Ok c1 \<and>
    map_of (mDisputes c1) k = Some d1 \<and> map_of (mVotes d1) (mPeerID np) = Some (hasItem m k) \<and> map_of (mVotes d1) v = map_of (mVotes d) v"
proof -
  let ?h = "mCurrentHash np" and ?id = "mPeerID np"
  define cts where "cts = (if isInitial np then om_put (prop_closeTime np)
        (case map_of (mCloseTimes c) (prop_closeTime np) of None \<Rightarrow> 1 | Some n \<Rightarrow> n + 1) (mCloseTimes c) else mCloseTimes c)"
  define c2 where "c2 = c\<lparr>mCloseTimes := cts, mPeerPositions := om_put ?id np (mPeerPositions c), mAcquired := om_put ?h (Some m) (mAcquired c)\<rparr>"
  let ?c = "map_disputes (\<lambda>k. setVote ?id (hasItem m k)) c2"
  have ok: "cons_ok sha U c" using assms(1) by (simp add: round_ok_def)
  have p: "peerPosition e np c = Ok (True, ?c)"
    using assms(3-7) unfolding c2_def cts_def by (simp add: peerPosition_def require_def Let_def getTransactionTree_def)
  have "om_ok (mAcquired c)" using ok by (simp add: cons_defs acquired_ok_def)
  then have "map_of (mAcquired ?c) ?h = Some (Some m)" by (simp add: c2_def)
  moreover have "getNodeHash sha m = ?h" using assms(2,7) by (simp add: env_ok_def)
  ultimately have mc: "mapCompleteInternal sha ?h (Some m) True ?c = Ok ?c" by (simp add: mapCompleteInternal_def require_def)
  have dk: "dispute_ok d" using ok map_of_SomeD [OF assms(10)] unfolding cons_defs disputed_ok_def by blast
  have "map_of (mDisputes ?c) k = Some (setVote ?id (hasItem m k) d)"
    using assms(10) by (simp add: map_disputes_def c2_def map_of_map_disputes)
  moreover have "v \<noteq> ?id" using assms(4,8) by auto
  ultimately show ?thesis using p mc setVote_votes [OF dk] by (intro exI [of _ ?c] exI [of _ "setVote ?id (hasItem m k) d"]) simp
qed

text \<open>
  C37. The close time is one the round agrees on: when \<open>updateOurPositions\<close> finds a close time consensus, the time it
  takes has the most votes of all (the later one on a tie), at least the required number, and, unless exactly two
  take part, no other close time has that many.
\<close>

theorem closeTime_agreed:
  assumes "om_ok (mPeerPositions c)" "stale_loop cutoff (mPeerPositions c) [] c = (cts, c')" "mPeerPositions c' \<noteq> []"
    and "choose_closeTime c' ours cts = (t, True)"
  defines "n \<equiv> int (length (mPeerPositions c')) + (if mProposing c' then 1 else 0)"
  shows "\<exists>k. map_of (time_votes c' ours cts) t = Some k \<and> participantsNeeded n AV_CT_CONSENSUS_PCT \<le> k \<and>
    (\<forall>t' k'. map_of (time_votes c' ours cts) t' = Some k' \<longrightarrow> k' \<le> k \<and> (k' = k \<longrightarrow> t' \<le> t)) \<and>
    (n \<noteq> 2 \<longrightarrow> (\<forall>t' k'. map_of (time_votes c' ours cts) t' = Some k' \<longrightarrow> t' \<noteq> t \<longrightarrow> k' < participantsNeeded n AV_CT_CONSENSUS_PCT))"
proof -
  let ?v = "time_votes c' ours cts" and ?th = "participantsNeeded n AV_CT_CONSENSUS_PCT"
  have st: "om_ok cts" "sum_list (map snd cts) = int (length (mPeerPositions c'))" "\<forall>(_, x) \<in> set cts. 0 \<le> x"
    using stale_loop_counts [OF _ assms(2) om_ok_distinct [OF assms(1)] order_refl assms(1)] stale_loop_pos [OF _ _ assms(2)] by auto
  have v: "om_ok ?v" "sum_list (map snd ?v) = n" "\<forall>(_, x) \<in> set ?v. 0 \<le> x"
    using st count_time_ok [OF st(1)] count_time_pos [OF st(1,3)] by (auto simp: time_votes_def n_def)
  have "time_loop ?th ?v (participantsNeeded n (neededWeight (mClosePercent c'))) 0 False = (t, True)"
    using assms(3,4) by (cases "mProposing c'") (simp_all add: choose_closeTime_def time_votes_def n_def Let_def)
  from time_loop_result [OF v(1) this] obtain k where k: "(t, k) \<in> set ?v" "\<forall>(x, m) \<in> set ?v. m \<le> k \<and> (m = k \<longrightarrow> x \<le> t)" "?th \<le> k" by blast
  have "n > 0" using assms(3) by (simp add: n_def)
  have "k' < ?th" if "(t', k') \<in> set ?v" "t' \<noteq> t" "n \<noteq> 2" for t' k'
    using sum_two [OF v(1) k(1) that(1) that(2) [symmetric] v(3)] v(2) ct_threshold [OF \<open>n > 0\<close> that(3)] k(3) by linarith
  then show ?thesis using k om_in_set [OF v(1)] by (intro exI [of _ k]) fastforce
qed

section \<open>Witnesses\<close>

text \<open>The properties at two rounds: peer 2 agrees with node 1, and a transaction is under dispute.\<close>

lemmas sample_defs = sample_round_def sample_proposal_def

theorem consensus_round_safe_witness:
  "\<exists>c. rbind (LedgerConsensusImp_make sample_sha sample_env 1 3000 3 sample_ledger 100 1 True True)
     (run_inputs (handle sample_sha) [TimerEntry sample_env, PeerPosition sample_env (sample_proposal 0 2), MapComplete 9 sample_tx_tree, LeaveConsensus sample_env]) = Ok c"
proof -
  have "\<forall>i \<in> set [TimerEntry sample_env, PeerPosition sample_env (sample_proposal 0 2), MapComplete 9 sample_tx_tree, LeaveConsensus sample_env].
    input_ok sample_sha {sample_item 7} i"
    using sample_env_ok sample_sets sample_hashes(2) by simp
  from consensus_round_safe [OF sample_universe sample_env_ok _ _ _ this, of 3000 sample_ledger 1 3 100 1 True True]
  show ?thesis by (auto simp: sample_ledger_def ledgerPossibleTimeResolutions_def)
qed

lemma sample_verdict:
  assumes "n \<noteq> v"
  shows "\<exists>d. haveConsensus sample_sha sample_env (sample_round n 9 v 9 []) = Ok (True, d) \<and> \<not> mConsensusFail d"
proof -
  let ?c = "sample_round n 9 v 9 []"
  have v: "validators ?c = {n, v}" by (simp add: validators_def sample_defs)
  have "{x \<in> {n, v}. position_of ?c x = Some 9} = {n, v}" using assms by (auto simp: position_of_def sample_defs)
  then have "verdict sample_env ?c 9 = Yes" using assms unfolding verdict_def v
    by (simp add: sample_round_def sample_env_def checkConsensus_def checkConsensusReached_def minimumConsensusPercentage_def LEDGER_MIN_CONSENSUS_def)
  moreover have "cons_ok sample_sha {sample_item 7} ?c" using sample_round_ok [of "[]" v n 9] by (simp add: round_ok_def om_ok_def votes_match_def)
  ultimately show ?thesis using haveConsensus_result [OF sample_universe, of ?c "sample_proposal 9 n" sample_env] assms by (simp add: sample_defs)
qed

lemma sample_round_nil: "round_ok sample_sha {sample_item 7} (sample_round n 9 v h [])"
  by (rule sample_round_ok) (simp_all add: om_ok_def votes_match_def)

theorem consensus_agreement_witness:
  "mCurrentHash (sample_proposal 9 1) = mCurrentHash (sample_proposal 9 2) \<or>
    62 * card (validators (sample_round 1 9 2 9 [])) \<le> 100 * card {v \<in> validators (sample_round 1 9 2 9 []).
      position_of (sample_round 1 9 2 9 []) v \<noteq> position_of (sample_round 2 9 1 9 []) v}"
proof -
  let ?c = "sample_round 1 9 2 9 []" and ?c' = "sample_round 2 9 1 9 []"
  obtain d d' where d: "haveConsensus sample_sha sample_env ?c = Ok (True, d)" "\<not> mConsensusFail d"
    "haveConsensus sample_sha sample_env ?c' = Ok (True, d')" "\<not> mConsensusFail d'"
    using sample_verdict [of 1 2] sample_verdict [of 2 1] by auto
  show ?thesis
    by (rule consensus_agreement [OF sample_universe sample_round_nil sample_round_nil _ _ _ _ _ d(1,3,2,4)])
      (auto simp: validators_def sample_defs)
qed

theorem unanimous_consensus_witness:
  "\<exists>c'. haveConsensus sample_sha sample_env (sample_round 1 9 2 9 []) = Ok (True, c') \<and> \<not> mConsensusFail c'"
  by (rule unanimous_consensus [OF sample_universe sample_round_nil, where p = "sample_proposal 9 1"])
    (simp_all add: sample_defs LEDGER_MIN_CONSENSUS_def)

theorem createDisputes_exact_witness:
  "\<exists>c'. createDisputes sample_sha sample_tx_tree SHAMap_make (sample_round 1 9 2 0 []) = Ok c' \<and> dom (map_of (mDisputes c')) = {7}"
proof -
  have d: "differing sample_tx_tree SHAMap_make = {7}" by (auto simp: differing_def sample_tx_ok(2) empty_ok(3))
  have "\<exists>c'. createDisputes sample_sha sample_tx_tree SHAMap_make (sample_round 1 9 2 0 []) = Ok c' \<and>
    dom (map_of (mDisputes c')) = differing sample_tx_tree SHAMap_make \<union> dom (map_of (mDisputes (sample_round 1 9 2 0 [])))"
    using createDisputes_exact [OF sample_universe sample_round_nil [of 1 2 0], of "sample_proposal 9 1" sample_tx_tree SHAMap_make]
    by (auto simp: sample_round_def sample_sets d)
  then show ?thesis by (simp add: d sample_round_def)
qed

definition sample_disputes :: "(uint256, DisputedTx) omap" where
  "sample_disputes = [(7, DisputedTx_make 7 (item_data (sample_item 7)) True)]"

theorem late_set_votes_lost_witness:
  "\<exists>c1 d1. peerPosition sample_env (sample_proposal 0 3) (sample_round 1 9 2 0 sample_disputes) = Ok (True, c1) \<and>
    mapCompleteInternal sample_sha 0 (Some SHAMap_make) True c1 = Ok c1 \<and> map_of (mDisputes c1) 7 = Some d1 \<and>
    map_of (mVotes d1) 3 = Some False \<and> map_of (mVotes d1) 2 = None"
proof -
  have "round_ok sample_sha {sample_item 7} (sample_round 1 9 2 0 sample_disputes)"
    by (rule sample_round_ok) (simp_all add: sample_disputes_def disputed_ok_def dispute_ok_def DisputedTx_make_def count_votes_def
        om_ok_def votes_match_def hasItem_peek sample_tx_ok(2) sample_item_def)
  from late_set_votes_lost [OF this sample_env_ok, of "sample_proposal 0 3" SHAMap_make 2 "sample_proposal 0 2" 7
      "DisputedTx_make 7 (item_data (sample_item 7)) True"]
  show ?thesis by (simp add: sample_defs sample_env_def isBowOut_def seqLeave_def sample_disputes_def DisputedTx_make_def hasItem_peek empty_ok(3))
qed

theorem closeTime_agreed_witness:
  "\<exists>k. map_of (time_votes (sample_round 1 9 2 9 []) (sample_proposal 9 1) [(91, 1)]) 91 = Some k \<and> participantsNeeded 2 AV_CT_CONSENSUS_PCT \<le> k"
proof -
  have "stale_loop 0 (mPeerPositions (sample_round 1 9 2 9 [])) [] (sample_round 1 9 2 9 []) = ([(91, 1)], sample_round 1 9 2 9 [])"
    by (simp add: sample_defs isStale_def effectiveCloseTime_def sample_ledger_def count_time_def roundCloseTime_def)
  from closeTime_agreed [OF _ this, of "sample_proposal 9 1" 91]
  have *: "choose_closeTime (sample_round 1 9 2 9 []) (sample_proposal 9 1) [(91, 1)] = (91, True) \<Longrightarrow> ?thesis"
    by (auto simp: sample_round_def om_ok_def)
  have th: "participantsNeeded (1 + 1) (neededWeight 100) = 1" "participantsNeeded (1 + 1) AV_CT_CONSENSUS_PCT = 1"
    by (simp_all add: participantsNeeded_def neededWeight_def Let_def AV_CT_CONSENSUS_PCT_def AV_INIT_CONSENSUS_PCT_def AV_MID_CONSENSUS_TIME_def
        AV_MID_CONSENSUS_PCT_def AV_LATE_CONSENSUS_TIME_def AV_LATE_CONSENSUS_PCT_def AV_STUCK_CONSENSUS_TIME_def AV_STUCK_CONSENSUS_PCT_def)
  show ?thesis
    by (rule *) (simp add: choose_closeTime_def sample_defs count_time_def effectiveCloseTime_def sample_ledger_def roundCloseTime_def th [simplified] Let_def)
qed

end
