(* ===== verification/Taker.thy ===== *)
theory Taker
  imports Quality
begin

text \<open>
  Crossing of offers (\<open>app/tx/impl/Taker.h\<close>, \<open>Taker.cpp\<close>, \<open>Offer.h\<close>): the taker of an order, the flow through an
  offer it crosses, directly or bridged over XRP, and what is left of both. \<open>get_funds\<close>, a virtual function of the
  class, is an argument: the funds that an account has available of an amount's issue.
\<close>

section \<open>Rates\<close>

definition QUALITY_ONE :: u32 where "QUALITY_ONE = 1000000000"

record Rate =
  rate_quality :: u32
  rate_amount :: STAmount

definition Rate_make :: "u32 \<Rightarrow> Rate res" where
  "Rate_make quality =
     rbind (require (quality \<noteq> 0) AssertFailed) (\<lambda>_.
     rbind (amountFromRate (ucast quality)) (\<lambda>r. Ok \<lparr>rate_quality = quality, rate_amount = r\<rparr>))"

definition rate_divide :: "Rate \<Rightarrow> STAmount \<Rightarrow> STAmount res" where
  "rate_divide r amount =
     (if rate_quality r = QUALITY_ONE then Ok amount else divide amount (rate_amount r) (mIssue amount))"

definition rate_multiply :: "Rate \<Rightarrow> STAmount \<Rightarrow> STAmount res" where
  "rate_multiply r amount =
     (if rate_quality r = QUALITY_ONE then Ok amount else multiply amount (rate_amount r) (mIssue amount))"

definition effective_rate :: "u32 \<Rightarrow> Issue \<Rightarrow> AccountID \<Rightarrow> AccountID \<Rightarrow> Rate res" where
  "effective_rate transfer issue from to =
     rbind (require (transfer \<noteq> 0) AssertFailed) (\<lambda>_.
     if transfer \<noteq> QUALITY_ONE \<and> from \<noteq> to \<and> from \<noteq> account issue \<and> to \<noteq> account issue then Rate_make transfer
     else Rate_make QUALITY_ONE)"

text \<open>\<open>std::min\<close> and \<open>std::max\<close> on amounts, and the conversion by a quality that never exceeds a limit.\<close>

definition min_amount :: "STAmount \<Rightarrow> STAmount \<Rightarrow> STAmount res" where
  "min_amount a b = rbind (less_amount b a) (\<lambda>l. Ok (if l then b else a))"

definition max_amount :: "STAmount \<Rightarrow> STAmount \<Rightarrow> STAmount res" where
  "max_amount a b = rbind (less_amount a b) (\<lambda>l. Ok (if l then b else a))"

definition qual_div :: "STAmount \<Rightarrow> Quality \<Rightarrow> STAmount \<Rightarrow> STAmount res" where
  "qual_div amount quality output =
     rbind (rate quality) (\<lambda>r. rbind (divide amount r (mIssue output)) (\<lambda>result. min_amount result output))"

definition qual_mul :: "STAmount \<Rightarrow> Quality \<Rightarrow> STAmount \<Rightarrow> STAmount res" where
  "qual_mul amount quality output =
     rbind (rate quality) (\<lambda>r. rbind (multiply amount r (mIssue output)) (\<lambda>result. min_amount result output))"

section \<open>The taker\<close>

datatype CrossType = XrpToIou | IouToXrp | IouToIou

definition tfPassive :: u32 where "tfPassive = 0x00010000"
definition tfSell :: u32 where "tfSell = 0x00080000"

record BasicTaker =
  taker_account :: AccountID
  taker_quality :: Quality
  threshold :: Quality
  sell :: bool
  original :: Amounts
  remaining :: Amounts
  m_rate_in :: u32
  m_rate_out :: u32
  cross_type :: CrossType

record Flow =
  order :: Amounts
  issuers :: Amounts

definition isXRP_issue :: "Issue \<Rightarrow> bool" where "isXRP_issue i \<longleftrightarrow> isXRP_cur (currency i)"

definition issue_in :: "BasicTaker \<Rightarrow> Issue" where "issue_in t = mIssue (in_a (remaining t))"
definition issue_out :: "BasicTaker \<Rightarrow> Issue" where "issue_out t = mIssue (out_a (remaining t))"

unbundle bit_operations_syntax

definition BasicTaker_make :: "CrossType \<Rightarrow> AccountID \<Rightarrow> Amounts \<Rightarrow> Quality \<Rightarrow> u32 \<Rightarrow> u32 \<Rightarrow> u32 \<Rightarrow> BasicTaker res" where
  "BasicTaker_make ct acct amount quality flags rate_in rate_out =
     (let t = \<lparr>taker_account = acct, taker_quality = quality, threshold = quality, sell = (flags AND tfSell \<noteq> 0),
               original = amount, remaining = amount, m_rate_in = rate_in, m_rate_out = rate_out, cross_type = ct\<rparr> in
      rbind (require (signum (in_a amount) > 0) AssertFailed) (\<lambda>_.
      rbind (require (signum (out_a amount) > 0) AssertFailed) (\<lambda>_.
      rbind (require (rate_in \<noteq> 0) AssertFailed) (\<lambda>_.
      rbind (require (rate_out \<noteq> 0) AssertFailed) (\<lambda>_.
      rbind (require (ct \<noteq> XrpToIou \<or> isXRP_issue (issue_in t) \<and> \<not> isXRP_issue (issue_out t)) AssertFailed) (\<lambda>_.
      rbind (require (ct \<noteq> IouToXrp \<or> \<not> isXRP_issue (issue_in t) \<and> isXRP_issue (issue_out t)) AssertFailed) (\<lambda>_.
      rbind (require (\<not> isXRP_issue (issue_in t) \<or> \<not> isXRP_issue (issue_out t)) AssertFailed) (\<lambda>_.
      if flags AND tfPassive \<noteq> 0 then rbind (quality_inc quality) (\<lambda>q. Ok (t\<lparr>threshold := q\<rparr>)) else Ok t))))))))"

definition in_rate :: "BasicTaker \<Rightarrow> AccountID \<Rightarrow> AccountID \<Rightarrow> Rate res" where
  "in_rate t from to = effective_rate (m_rate_in t) (mIssue (in_a (original t))) from to"

definition out_rate :: "BasicTaker \<Rightarrow> AccountID \<Rightarrow> AccountID \<Rightarrow> Rate res" where
  "out_rate t from to = effective_rate (m_rate_out t) (mIssue (out_a (original t))) from to"

definition reject :: "BasicTaker \<Rightarrow> Quality \<Rightarrow> bool" where
  "reject t quality \<longleftrightarrow> quality_less quality (threshold t)"

definition is_done :: "(AccountID \<Rightarrow> STAmount \<Rightarrow> STAmount res) \<Rightarrow> BasicTaker \<Rightarrow> bool res" where
  "is_done get_funds t =
     (if signum (in_a (remaining t)) \<le> 0 then Ok True
      else if \<not> sell t \<and> signum (out_a (remaining t)) \<le> 0 then Ok True
      else rbind (get_funds (taker_account t) (in_a (remaining t))) (\<lambda>f. Ok (signum f \<le> 0)))"

definition remaining_offer :: "(AccountID \<Rightarrow> STAmount \<Rightarrow> STAmount res) \<Rightarrow> STAmountCalcSwitchovers \<Rightarrow> BasicTaker \<Rightarrow> Amounts res" where
  "remaining_offer get_funds switchovers t =
     rbind (is_done get_funds t) (\<lambda>d.
     if d then rbind (zeroed (in_a (remaining t))) (\<lambda>i. rbind (zeroed (out_a (remaining t))) (\<lambda>o'. Ok \<lparr>in_a = i, out_a = o'\<rparr>))
     else if eq_amounts (original t) (remaining t) then Ok (original t)
     else if sell t then
       rbind (require (signum (in_a (remaining t)) > 0) AssertFailed) (\<lambda>_.
       rbind (rate (taker_quality t)) (\<lambda>r.
       rbind (divRound (in_a (remaining t)) r (issue_out t) True switchovers) (\<lambda>out.
       Ok \<lparr>in_a = in_a (remaining t), out_a = out\<rparr>)))
     else
       rbind (require (signum (out_a (remaining t)) > 0) AssertFailed) (\<lambda>_.
       rbind (rate (taker_quality t)) (\<lambda>r.
       rbind (mulRound (out_a (remaining t)) r (issue_in t) True switchovers) (\<lambda>i.
       Ok \<lparr>in_a = i, out_a = out_a (remaining t)\<rparr>))))"

section \<open>Flows\<close>

definition sanity_check :: "Flow \<Rightarrow> bool" where
  "sanity_check f \<longleftrightarrow>
     \<not> (isXRP (in_a (order f)) \<and> isXRP (out_a (order f))) \<and>
     signum (in_a (order f)) \<ge> 0 \<and> signum (out_a (order f)) \<ge> 0 \<and>
     signum (in_a (issuers f)) \<ge> 0 \<and> signum (out_a (issuers f)) \<ge> 0"

text \<open>
  The assignments the three flow functions are made of: to one side of the order, to the other side by converting
  at the quality, and to what the issuers move, which is the order at the transfer rate.
\<close>

definition set_in :: "STAmount \<Rightarrow> Flow \<Rightarrow> Flow" where
  "set_in a f = f\<lparr>order := (order f)\<lparr>in_a := a\<rparr>\<rparr>"

definition set_out :: "STAmount \<Rightarrow> Flow \<Rightarrow> Flow" where
  "set_out a f = f\<lparr>order := (order f)\<lparr>out_a := a\<rparr>\<rparr>"

definition convert_in :: "Quality \<Rightarrow> Flow \<Rightarrow> Flow res" where
  "convert_in quality f = rbind (qual_mul (out_a (order f)) quality (in_a (order f))) (\<lambda>a. Ok (set_in a f))"

definition convert_out :: "Quality \<Rightarrow> Flow \<Rightarrow> Flow res" where
  "convert_out quality f = rbind (qual_div (in_a (order f)) quality (out_a (order f))) (\<lambda>a. Ok (set_out a f))"

definition set_issuer_in :: "STAmount \<Rightarrow> Flow \<Rightarrow> Flow" where
  "set_issuer_in a f = f\<lparr>issuers := (issuers f)\<lparr>in_a := a\<rparr>\<rparr>"

definition set_issuer_out :: "STAmount \<Rightarrow> Flow \<Rightarrow> Flow" where
  "set_issuer_out a f = f\<lparr>issuers := (issuers f)\<lparr>out_a := a\<rparr>\<rparr>"

definition issue_in_at :: "Rate \<Rightarrow> Flow \<Rightarrow> Flow res" where
  "issue_in_at r f = rbind (rate_multiply r (in_a (order f))) (\<lambda>a. Ok (set_issuer_in a f))"

definition issue_out_at :: "Rate \<Rightarrow> Flow \<Rightarrow> Flow res" where
  "issue_out_at r f = rbind (rate_multiply r (out_a (order f))) (\<lambda>a. Ok (set_issuer_out a f))"

definition new_flow :: "Amounts \<Rightarrow> Flow" where
  "new_flow a = \<lparr>order = a, issuers = \<lparr>in_a = STAmount_drops 0 False, out_a = STAmount_drops 0 False\<rparr>\<rparr>"

definition when_less :: "STAmount \<Rightarrow> STAmount \<Rightarrow> (Flow \<Rightarrow> Flow res) \<Rightarrow> Flow \<Rightarrow> Flow res" where
  "when_less a b clamp f = rbind (less_amount a b) (\<lambda>l. if l then clamp f else Ok f)"

definition flow_xrp_to_iou :: "Amounts \<Rightarrow> Quality \<Rightarrow> STAmount \<Rightarrow> STAmount \<Rightarrow> Rate \<Rightarrow> BasicTaker \<Rightarrow> Flow res" where
  "flow_xrp_to_iou offer quality owner_funds taker_funds rate_out t =
     rbind (issue_out_at rate_out (new_flow offer)) (\<lambda>f.
     rbind (when_less owner_funds (out_a (issuers f)) (\<lambda>f.
       rbind (rate_divide rate_out owner_funds) (\<lambda>out. convert_in quality (set_out out (set_issuer_out owner_funds f)))) f) (\<lambda>f.
     rbind (if sell t then Ok f
       else when_less (out_a (remaining t)) (out_a (order f)) (\<lambda>f.
         rbind (convert_in quality (set_out (out_a (remaining t)) f)) (issue_out_at rate_out)) f) (\<lambda>f.
     rbind (when_less taker_funds (in_a (order f)) (\<lambda>f.
       rbind (convert_out quality (set_in taker_funds f)) (issue_out_at rate_out)) f) (\<lambda>f.
     if cross_type t = XrpToIou then
       when_less (in_a (remaining t)) (in_a (order f)) (\<lambda>f.
         rbind (convert_out quality (set_in (in_a (remaining t)) f)) (issue_out_at rate_out)) f
     else Ok f))))"

definition flow_iou_to_xrp :: "Amounts \<Rightarrow> Quality \<Rightarrow> STAmount \<Rightarrow> STAmount \<Rightarrow> Rate \<Rightarrow> BasicTaker \<Rightarrow> Flow res" where
  "flow_iou_to_xrp offer quality owner_funds taker_funds rate_in t =
     rbind (issue_in_at rate_in (new_flow offer)) (\<lambda>f.
     rbind (when_less owner_funds (out_a (order f)) (\<lambda>f.
       rbind (convert_in quality (set_out owner_funds f)) (issue_in_at rate_in)) f) (\<lambda>f.
     rbind (if \<not> sell t \<and> cross_type t = IouToXrp then
         when_less (out_a (remaining t)) (out_a (order f)) (\<lambda>f.
           rbind (convert_in quality (set_out (out_a (remaining t)) f)) (issue_in_at rate_in)) f
       else Ok f) (\<lambda>f.
     rbind (when_less (in_a (remaining t)) (in_a (order f)) (\<lambda>f.
       rbind (issue_in_at rate_in (set_in (in_a (remaining t)) f)) (convert_out quality)) f) (\<lambda>f.
     when_less taker_funds (in_a (issuers f)) (\<lambda>f.
       rbind (rate_divide rate_in taker_funds) (\<lambda>i. convert_out quality (set_in i (set_issuer_in taker_funds f)))) f))))"

definition flow_iou_to_iou :: "Amounts \<Rightarrow> Quality \<Rightarrow> STAmount \<Rightarrow> STAmount \<Rightarrow> Rate \<Rightarrow> Rate \<Rightarrow> BasicTaker \<Rightarrow> Flow res" where
  "flow_iou_to_iou offer quality owner_funds taker_funds rate_in rate_out t =
     rbind (issue_in_at rate_in (new_flow offer)) (\<lambda>f.
     rbind (issue_out_at rate_out f) (\<lambda>f.
     rbind (when_less owner_funds (out_a (issuers f)) (\<lambda>f.
       rbind (rate_divide rate_out owner_funds) (\<lambda>out.
       rbind (convert_in quality (set_out out (set_issuer_out owner_funds f))) (issue_in_at rate_in))) f) (\<lambda>f.
     rbind (if sell t then Ok f
       else when_less (out_a (remaining t)) (out_a (order f)) (\<lambda>f.
         rbind (convert_in quality (set_out (out_a (remaining t)) f)) (\<lambda>f.
         rbind (issue_out_at rate_out f) (issue_in_at rate_in))) f) (\<lambda>f.
     rbind (when_less (in_a (remaining t)) (in_a (order f)) (\<lambda>f.
       rbind (issue_in_at rate_in (set_in (in_a (remaining t)) f)) (\<lambda>f.
       rbind (convert_out quality f) (issue_out_at rate_out))) f) (\<lambda>f.
     when_less taker_funds (in_a (issuers f)) (\<lambda>f.
       rbind (rate_divide rate_in taker_funds) (\<lambda>i.
       rbind (convert_out quality (set_in i (set_issuer_in taker_funds f))) (issue_out_at rate_out))) f)))))"

text \<open>The direct flow through an offer of \<open>owner\<close>.\<close>

definition do_cross :: "(AccountID \<Rightarrow> STAmount \<Rightarrow> STAmount res) \<Rightarrow> Amounts \<Rightarrow> Quality \<Rightarrow> AccountID \<Rightarrow> BasicTaker \<Rightarrow> (Flow \<times> BasicTaker) res" where
  "do_cross get_funds offer quality owner t =
     rbind (is_done get_funds t) (\<lambda>d.
     rbind (require (\<not> d) AssertFailed) (\<lambda>_.
     rbind (get_funds owner (out_a offer)) (\<lambda>owner_funds.
     rbind (get_funds (taker_account t) (in_a offer)) (\<lambda>taker_funds.
     rbind (case cross_type t of
         XrpToIou \<Rightarrow> rbind (out_rate t owner (taker_account t)) (\<lambda>r. flow_xrp_to_iou offer quality owner_funds taker_funds r t)
       | IouToXrp \<Rightarrow> rbind (in_rate t owner (taker_account t)) (\<lambda>r. flow_iou_to_xrp offer quality owner_funds taker_funds r t)
       | IouToIou \<Rightarrow>
           rbind (in_rate t owner (taker_account t)) (\<lambda>ri.
           rbind (out_rate t owner (taker_account t)) (\<lambda>ro. flow_iou_to_iou offer quality owner_funds taker_funds ri ro t)))
       (\<lambda>result.
     rbind (require (sanity_check result) (LogicError ''Computed flow fails sanity check.'')) (\<lambda>_.
     rbind (minus_amount (out_a (remaining t)) (out_a (order result))) (\<lambda>out.
     rbind (minus_amount (in_a (remaining t)) (in_a (order result))) (\<lambda>i.
     rbind (require (signum i \<ge> 0) AssertFailed) (\<lambda>_.
     Ok (result, t\<lparr>remaining := \<lparr>in_a = i, out_a = out\<rparr>\<rparr>))))))))))"

text \<open>The flow through two offers, the output of the first and the input of the second being XRP.\<close>

definition bridge_funds :: "(AccountID \<Rightarrow> STAmount \<Rightarrow> STAmount res) \<Rightarrow> Amounts \<Rightarrow> AccountID \<Rightarrow> Amounts \<Rightarrow> AccountID \<Rightarrow> BasicTaker \<Rightarrow>
    (STAmount \<times> STAmount \<times> STAmount) res" where
  "bridge_funds get_funds offer1 owner1 offer2 owner2 t =
     rbind (get_funds (taker_account t) (in_a offer1)) (\<lambda>f1.
     rbind (if taker_account t = owner1 then max_amount f1 (in_a offer1) else Ok f1) (\<lambda>leg1_in_funds.
     rbind (get_funds owner2 (out_a offer2)) (\<lambda>f2.
     rbind (if taker_account t = owner2 then max_amount f2 (out_a offer2) else Ok f2) (\<lambda>leg2_out_funds.
     rbind (get_funds owner1 (out_a offer1)) (\<lambda>f3.
     rbind (if owner1 = owner2 then max_amount (out_a offer1) (in_a offer2) else Ok f3) (\<lambda>xrp_funds.
     Ok (leg1_in_funds, leg2_out_funds, xrp_funds)))))))"

definition balance_legs :: "Quality \<Rightarrow> Rate \<Rightarrow> Quality \<Rightarrow> Rate \<Rightarrow> Flow \<Rightarrow> Flow \<Rightarrow> (Flow \<times> Flow) res" where
  "balance_legs quality1 leg1_rate quality2 leg2_rate flow1 flow2 =
     rbind (less_amount (out_a (order flow1)) (in_a (order flow2))) (\<lambda>less.
     if less then
       rbind (convert_out quality2 (set_in (out_a (order flow1)) flow2)) (\<lambda>f.
       rbind (issue_out_at leg2_rate f) (\<lambda>f. Ok (flow1, f)))
     else
       rbind (greater_amount (out_a (order flow1)) (in_a (order flow2))) (\<lambda>greater.
       if greater then
         rbind (convert_in quality1 (set_out (in_a (order flow2)) flow1)) (\<lambda>f.
         rbind (issue_in_at leg1_rate f) (\<lambda>f. Ok (f, flow2)))
       else Ok (flow1, flow2)))"

definition do_cross_bridged :: "(AccountID \<Rightarrow> STAmount \<Rightarrow> STAmount res) \<Rightarrow> Amounts \<Rightarrow> Quality \<Rightarrow> AccountID \<Rightarrow>
    Amounts \<Rightarrow> Quality \<Rightarrow> AccountID \<Rightarrow> BasicTaker \<Rightarrow> ((Flow \<times> Flow) \<times> BasicTaker) res" where
  "do_cross_bridged get_funds offer1 quality1 owner1 offer2 quality2 owner2 t =
     rbind (is_done get_funds t) (\<lambda>d.
     rbind (require (\<not> d) AssertFailed) (\<lambda>_.
     rbind (require (\<not> mIsNative (in_a offer1)) AssertFailed) (\<lambda>_.
     rbind (require (mIsNative (out_a offer1)) AssertFailed) (\<lambda>_.
     rbind (require (mIsNative (in_a offer2)) AssertFailed) (\<lambda>_.
     rbind (require (\<not> mIsNative (out_a offer2)) AssertFailed) (\<lambda>_.
     rbind (bridge_funds get_funds offer1 owner1 offer2 owner2 t) (\<lambda>(leg1_in_funds, leg2_out_funds, xrp_funds).
     rbind (in_rate t owner1 (taker_account t)) (\<lambda>leg1_rate.
     rbind (out_rate t owner2 (taker_account t)) (\<lambda>leg2_rate.
     rbind (flow_iou_to_xrp offer1 quality1 xrp_funds leg1_in_funds leg1_rate t) (\<lambda>flow1.
     rbind (require (sanity_check flow1) (LogicError ''Computed flow1 fails sanity check.'')) (\<lambda>_.
     rbind (flow_xrp_to_iou offer2 quality2 leg2_out_funds xrp_funds leg2_rate t) (\<lambda>flow2.
     rbind (require (sanity_check flow2) (LogicError ''Computed flow2 fails sanity check.'')) (\<lambda>_.
     rbind (balance_legs quality1 leg1_rate quality2 leg2_rate flow1 flow2) (\<lambda>(flow1, flow2).
     rbind (require (eq_amount (out_a (order flow1)) (in_a (order flow2))) (LogicError ''Bridged flow is out of balance.'')) (\<lambda>_.
     rbind (minus_amount (out_a (remaining t)) (out_a (order flow2))) (\<lambda>out.
     rbind (minus_amount (in_a (remaining t)) (in_a (order flow1))) (\<lambda>i.
     Ok ((flow1, flow2), t\<lparr>remaining := \<lparr>in_a = i, out_a = out\<rparr>\<rparr>))))))))))))))))))"

text \<open>What \<open>Offer::consume\<close> makes of the amounts of an offer.\<close>

definition consume_amounts :: "Amounts \<Rightarrow> Amounts \<Rightarrow> Amounts res" where
  "consume_amounts amounts consumed =
     rbind (greater_amount (in_a consumed) (in_a amounts)) (\<lambda>b.
     rbind (require (\<not> b) (LogicError ''can't consume more than is available.'')) (\<lambda>_.
     rbind (greater_amount (out_a consumed) (out_a amounts)) (\<lambda>b.
     rbind (require (\<not> b) (LogicError ''can't produce more than is available.'')) (\<lambda>_.
     rbind (minus_amount (in_a amounts) (in_a consumed)) (\<lambda>i.
     rbind (minus_amount (out_a amounts) (out_a consumed)) (\<lambda>out. Ok \<lparr>in_a = i, out_a = out\<rparr>))))))"

end
