(* ===== verification/Taker_Flow.thy ===== *)
theory Taker_Flow
  imports Taker
begin

text \<open>
  What a crossing does to amounts: a flow stays within the offer, within what the taker still wants and within the
  funds of both sides, so no sanity check, assertion or balance check fails.
\<close>

section \<open>Amounts between canonical neighbours\<close>

text \<open>Canonical amounts above \<open>10^16\<close> units of \<open>10^E\<close> lie at least ten such units apart.\<close>

lemma canonical_offset:
  assumes "wf_amount x" "\<not> mIsNative x" "mValue x \<noteq> 0" "magnitude (10 ^ 16) E \<le> \<bar>denote x\<bar>"
  shows "E + 1 \<le> mOffset x"
proof -
  have "unat (mValue x) < 10 ^ 16" using assms(1-3) by (auto simp: wf_amount_def canonical_issued_def)
  from le_less_trans [OF assms(4) [unfolded abs_denote] magnitude_strict_mono [OF this]]
  have "magnitude (10 ^ 16) E < magnitude (10 ^ 16) (mOffset x)" .
  then have "E < mOffset x" unfolding magnitude_power by (meson add_le_cancel_right not_le power10_mono)
  then show ?thesis by simp
qed

lemma canonical_spacing:
  assumes x: "wf_amount x" "\<not> mIsNative x" and y: "wf_amount y" "\<not> mIsNative y"
    and big: "magnitude (10 ^ 16) E \<le> \<bar>denote x\<bar>" and less: "\<bar>denote x\<bar> < \<bar>denote y\<bar>"
  shows "\<bar>denote x\<bar> + 10 * 10 powi E \<le> \<bar>denote y\<bar>"
proof -
  have "0 < magnitude (10 ^ 16) E" by (simp add: magnitude_pos)
  then have nz: "mValue x \<noteq> 0" "mValue y \<noteq> 0" using big less by (auto simp: denote_zero)
  obtain i j where i: "mOffset x = E + 1 + int i" and j: "mOffset y = E + 1 + int j"
    using canonical_offset [OF x nz(1) big] canonical_offset [OF y nz(2)] big less
    by (metis add.commute le_iff_add less_imp_le nonneg_int_cases order.trans zero_le_imp_eq_int zle_iff_zadd)
  have m: "\<bar>denote x\<bar> = magnitude (unat (mValue x) * 10 ^ i) (E + 1)" "\<bar>denote y\<bar> = magnitude (unat (mValue y) * 10 ^ j) (E + 1)"
    using magnitude_scaled [of "unat (mValue x)" i "mOffset x"] magnitude_scaled [of "unat (mValue y)" j "mOffset y"]
    by (simp_all add: abs_denote i j)
  have "unat (mValue x) * 10 ^ i + 1 \<le> unat (mValue y) * 10 ^ j" using less unfolding m by simp
  from magnitude_mono [OF this, of "E + 1"] show ?thesis unfolding m
    by (simp add: magnitude_def power10_Suc algebra_simps)
qed

text \<open>
  Less than what a transfer costs buys no more than the transfer: rounding up in \<open>multiply\<close> and \<open>divide\<close> is less
  than the distance of canonical amounts.
\<close>

lemma divide_below_product:
  assumes a: "wf_amount a" "\<not> mIsNative a" and r: "wf_amount r" "\<not> mIsNative r" "mValue r \<noteq> 0"
    and b: "wf_amount b" "\<not> mIsNative b" and i: "\<not> isNative_issue i" "\<not> isNative_issue i'"
    and m: "multiply a r i = Ok m" and d: "divide b r i' = Ok d" and less: "\<bar>denote b\<bar> < \<bar>denote m\<bar>"
  shows "\<bar>denote d\<bar> \<le> \<bar>denote a\<bar>"
proof (cases "mValue b = 0 \<or> mValue a = 0")
  case True
  have "mValue a \<noteq> 0" using m less STAmount_canonical_issued(1) [of i 0 0 False m] i
    by (auto simp: multiply_def truncates_to_def)
  then have "STAmount_canonical i' 0 0 False = Ok d" using True d r by (simp add: divide_def)
  from STAmount_canonical_issued(1) [OF this i(2)] show ?thesis by (auto simp: truncates_to_def)
next
  case False
  define n E where "n = unat (mValue a) * unat (mValue r) div tenTo14" and "E = mOffset a + mOffset r + 14"
  define p G where "p = unat (mValue b) * tenTo17 div unat (mValue r)" and "G = mOffset b - mOffset r - 17"
  have lim: "1000000000000000 \<le> unat (mValue x) \<and> unat (mValue x) \<le> 9999999999999999" if "x \<in> {a, b, r}" for x
    using that a b r False by (auto simp: wf_amount_def canonical_issued_def)
  note fm = product_fits [of "unat (mValue a)" "unat (mValue r)", folded n_def]
    and fd = quotient_fits [of "unat (mValue b)" "unat (mValue r)", folded p_def]
  have fm: "n \<le> 10 ^ 19" "10 ^ 16 \<le> n" and fd: "p \<le> 10 ^ 19" using fm fd lim [of a] lim [of b] lim [of r] by auto
  have p16: "10 ^ 16 \<le> p"
  proof -
    have "10 ^ 16 * unat (mValue r) \<le> unat (mValue b) * tenTo17" using lim [of b] lim [of r] by (simp add: tenTo17_def tenTo14_def)
    then show ?thesis unfolding p_def using lim [of r] by (simp add: less_eq_div_iff_mult_less_eq)
  qed
  have "STAmount_canonical i (bn_getuint64 n + 7) E (mIsNegative a \<noteq> mIsNegative r) = Ok m"
    using m False a r i by (simp add: multiply_def in_range_def n_def E_def)
  from STAmount_canonical_issued(1) [OF this i(1)] bn_plus [OF fm(1), of 7]
  have m1: "wf_amount m" "\<bar>denote m\<bar> \<le> magnitude (n + 7) E" by (simp_all add: truncates_to_def)
  have "STAmount_canonical i' (bn_getuint64 p + 5) G (mIsNegative b \<noteq> mIsNegative r) = Ok d"
    using d False b r by (simp add: divide_def in_range_def p_def G_def)
  from STAmount_canonical_issued [OF this i(2)] bn_plus [OF fd, of 5]
  have d1: "wf_amount d" "\<bar>denote d\<bar> \<le> magnitude (p + 5) G" "mIssue d = i'" by (simp_all add: truncates_to_def)
  have mi: "\<not> mIsNative m" "\<not> mIsNative d"
    using m1(1) d1(1,3) i STAmount_canonical_issued(2) [OF \<open>STAmount_canonical i _ _ _ = Ok m\<close> i(1)] by (simp_all add: wf_amount_def isNative_alt)
  have ar: "magnitude n E \<le> \<bar>denote a\<bar> * \<bar>denote r\<bar>"
  proof -
    have "(of_nat n :: rat) \<le> of_nat (unat (mValue a) * unat (mValue r)) / of_nat tenTo14"
      unfolding n_def by (rule rat_div_bounds(1)) (simp add: tenTo14_def)
    then have "of_nat n * (10 :: rat) powi E \<le> of_nat (unat (mValue a) * unat (mValue r)) / of_nat tenTo14 * 10 powi E"
      by (rule mult_right_mono) simp
    then show ?thesis by (simp add: abs_denote magnitude_def E_def power_int_add tenTo14_def)
  qed
  have bn: "\<bar>denote b\<bar> \<le> magnitude n E"
  proof (rule ccontr)
    assume gt: "\<not> \<bar>denote b\<bar> \<le> magnitude n E"
    then have "magnitude (10 ^ 16) E \<le> \<bar>denote b\<bar>" using magnitude_mono [OF fm(2), of E] by linarith
    from canonical_spacing [OF b m1(1) mi(1) this less] m1(2) gt show False
      using power10_pos [of E] unfolding magnitude_def of_nat_add distrib_right by simp
  qed
  have pb: "magnitude p G * \<bar>denote r\<bar> \<le> \<bar>denote b\<bar>"
  proof -
    have "p * unat (mValue r) \<le> unat (mValue b) * tenTo17" unfolding p_def by (rule div_times_less_eq_dividend)
    then have "(of_nat (p * unat (mValue r)) :: rat) \<le> of_nat (unat (mValue b) * tenTo17)" by (simp only: of_nat_le_iff)
    then have "of_nat (p * unat (mValue r)) * (10 :: rat) powi (mOffset b - 17) \<le> of_nat (unat (mValue b) * tenTo17) * 10 powi (mOffset b - 17)"
      by (rule mult_right_mono) simp
    moreover have "magnitude p G * \<bar>denote r\<bar> = of_nat (p * unat (mValue r)) * (10 powi G * 10 powi mOffset r)"
      by (simp add: abs_denote magnitude_def)
    moreover have "(10 :: rat) powi G * 10 powi mOffset r = 10 powi (mOffset b - 17)" by (simp add: G_def flip: power_int_add)
    moreover have "\<bar>denote b\<bar> = of_nat (unat (mValue b) * tenTo17) * 10 powi (mOffset b - 17)"
      by (simp add: abs_denote magnitude_def power_int_diff tenTo17_def tenTo14_def)
    ultimately show ?thesis by simp
  qed
  have rp: "0 < \<bar>denote r\<bar>" using r(3) by (simp add: abs_denote magnitude_pos unat_gt_0)
  have pa: "magnitude p G \<le> \<bar>denote a\<bar>" using pb bn ar rp by (meson mult_right_le_imp_le order.trans)
  show ?thesis
  proof (rule ccontr)
    assume "\<not> \<bar>denote d\<bar> \<le> \<bar>denote a\<bar>"
    then have gt: "\<bar>denote a\<bar> < \<bar>denote d\<bar>" by simp
    have "magnitude (10 ^ 16) G \<le> \<bar>denote a\<bar>" using pa magnitude_mono [OF p16, of G] by linarith
    from canonical_spacing [OF a d1(1) mi(2) this gt] d1(2) pa show False
      using power10_pos [of G] unfolding magnitude_def of_nat_add distrib_right by simp
  qed
qed

section \<open>Computations that fail only in arithmetic\<close>

text \<open>The result satisfies \<open>P\<close>, or the computation threw the \<open>runtime_error\<close> of an amount out of range.\<close>

definition ensures :: "'a res \<Rightarrow> ('a \<Rightarrow> bool) \<Rightarrow> bool" where
  "ensures r P \<longleftrightarrow> (case r of Inr x \<Rightarrow> P x | Inl e \<Rightarrow> \<exists>m. e = RuntimeError m)"

lemma ensures_Ok [simp]: "ensures (Ok x) P \<longleftrightarrow> P x"
  by (simp add: ensures_def)

lemma ensures_Throw [simp]: "ensures (Throw (RuntimeError m)) P"
  by (simp add: ensures_def)

lemma ensures_bind: "ensures r Q \<Longrightarrow> (\<And>x. Q x \<Longrightarrow> ensures (f x) P) \<Longrightarrow> ensures (rbind r f) P"
  by (cases r) (auto simp: ensures_def)

lemma ensures_mono: "ensures r Q \<Longrightarrow> (\<And>x. Q x \<Longrightarrow> P x) \<Longrightarrow> ensures r P"
  by (auto simp: ensures_def split: sum.splits)

lemma ensures_get: "ensures r Q \<Longrightarrow> ensures r (\<lambda>x. r = Ok x \<and> Q x)"
  by (auto simp: ensures_def split: sum.splits)

lemma ensures_require: "b \<Longrightarrow> P () \<Longrightarrow> ensures (require b e) P"
  by simp

text \<open>Canonical amounts of an issue that are not negative.\<close>

definition amt :: "Issue \<Rightarrow> STAmount \<Rightarrow> bool" where
  "amt i a \<longleftrightarrow> proper a \<and> mIssue a = i \<and> \<not> mIsNegative a"

lemma amt_nonneg: "amt i a \<Longrightarrow> 0 \<le> denote a \<and> \<bar>denote a\<bar> = denote a"
  by (simp add: amt_def denote_def)

lemma amt_wf: "amt i a \<Longrightarrow> wf_amount a \<and> (mIsNative a \<longleftrightarrow> isNative_issue i)"
  by (auto simp: amt_def proper_def wf_amount_def isNative_alt)

lemma amt_less: "amt i a \<Longrightarrow> amt i b \<Longrightarrow> less_amount a b = Ok (denote a < denote b)"
  by (intro less_amount_denote comparable_same_issue) (simp_all add: amt_def proper_def)

lemma canonical_ensures: "ensures (STAmount_canonical i m e False) (amt i)"
proof (cases "STAmount_canonical i m e False")
  case (Inl x)
  then have "\<exists>m. x = RuntimeError m"
    by (auto simp: STAmount_canonical_def canonicalize_def canonicalize_native_def Let_def rbind_eq_Throw
        dest!: canonicalize_issued_Throw split: if_splits prod.splits)
  then show ?thesis using Inl by (auto simp: ensures_def)
next
  case (Inr a)
  then show ?thesis using STAmount_canonical_proper [OF Inr] by (simp add: amt_def)
qed

text \<open>A factor that is not native: a quality or a transfer rate.\<close>

definition factor :: "STAmount \<Rightarrow> bool" where
  "factor r \<longleftrightarrow> proper r \<and> \<not> mIsNegative r \<and> \<not> mIsNative r"

lemma in_range_amt: "wf_amount a \<Longrightarrow> mValue a \<noteq> 0 \<Longrightarrow> \<exists>v e. in_range a = Ok (v, e)"
  by (rule in_range_wf) auto

lemma multiply_amt: assumes "amt j a" "factor r" shows "ensures (multiply a r i) (amt i)"
proof (cases "mValue a = 0 \<or> mValue r = 0")
  case True
  then show ?thesis by (simp add: multiply_def canonical_ensures)
next
  case False
  then obtain v e w f where "in_range a = Ok (v, e)" "in_range r = Ok (w, f)"
    using in_range_amt assms by (metis amt_wf factor_def proper_def)
  then show ?thesis using assms False by (simp add: multiply_def factor_def amt_def Let_def canonical_ensures)
qed

lemma divide_amt: assumes "amt j a" "factor r" shows "ensures (divide a r i) (amt i)"
proof (cases "mValue a = 0 \<or> mValue r = 0")
  case True
  then show ?thesis by (auto simp: divide_def canonical_ensures)
next
  case False
  then obtain v e w f where "in_range a = Ok (v, e)" "in_range r = Ok (w, f)"
    using in_range_amt assms by (metis amt_wf factor_def proper_def)
  then show ?thesis using assms False by (simp add: divide_def factor_def amt_def Let_def canonical_ensures)
qed

lemma rate_factor: "ensures (rate q) factor"
proof -
  have "ensures (rate q) (amt noIssue)" unfolding rate_def amountFromQuality_def Let_def by (simp add: canonical_ensures)
  then show ?thesis by (rule ensures_mono) (use amt_wf in \<open>auto simp: factor_def amt_def isNative_issue_def issue_defs\<close>)
qed

lemma min_amt: "amt i a \<Longrightarrow> amt i b \<Longrightarrow> ensures (min_amount a b) (\<lambda>c. amt i c \<and> denote c \<le> denote a \<and> denote c \<le> denote b)"
  by (simp add: min_amount_def amt_less [of i b a])

lemma qual_mul_amt: "amt j a \<Longrightarrow> amt i b \<Longrightarrow> ensures (qual_mul a q b) (\<lambda>c. amt i c \<and> denote c \<le> denote b)"
  unfolding qual_mul_def
  by (intro ensures_bind [OF rate_factor] ensures_bind [OF multiply_amt] ensures_mono [OF min_amt]) (auto simp: amt_def)

lemma qual_div_amt: "amt j a \<Longrightarrow> amt i b \<Longrightarrow> ensures (qual_div a q b) (\<lambda>c. amt i c \<and> denote c \<le> denote b)"
  unfolding qual_div_def
  by (intro ensures_bind [OF rate_factor] ensures_bind [OF divide_amt] ensures_mono [OF min_amt]) (auto simp: amt_def)

section \<open>Transfer rates\<close>

definition rate_ok :: "Issue \<Rightarrow> Rate \<Rightarrow> bool" where
  "rate_ok i r \<longleftrightarrow> rate_quality r = QUALITY_ONE \<or> factor (rate_amount r) \<and> mValue (rate_amount r) \<noteq> 0 \<and> \<not> isNative_issue i"

lemma effective_rate_ok:
  assumes "q \<noteq> 0" "isNative_issue i \<longrightarrow> q = QUALITY_ONE"
  shows "ensures (effective_rate q i from to) (rate_ok i)"
proof -
  have "ensures (Rate_make x) (rate_ok i)" if "x \<noteq> 0" "isNative_issue i \<longrightarrow> x = QUALITY_ONE" for x
  proof (cases "amountFromRate (ucast x)")
    case (Inl e)
    then show ?thesis using that canonical_ensures [of noIssue "ucast x" "-9"]
      by (simp add: Rate_make_def amountFromRate_def ensures_def)
  next
    case (Inr r)
    then have c: "STAmount_canonical noIssue (ucast x) (-9) False = Ok r" by (simp add: amountFromRate_def)
    have n: "\<not> isNative_issue noIssue" by (simp add: isNative_issue_def issue_defs)
    have "amt noIssue r" using canonical_ensures [of noIssue "ucast x" "-9"] c by simp
    then have "factor r" using amt_wf n by (auto simp: factor_def amt_def)
    moreover have "uint (ucast x :: u64) = uint x" by (rule uint_up_ucast) (simp add: is_up_def source_size_def target_size_def word_size)
    then have "unat (ucast x :: u64) > 0" using that(1) by (metis gr0I unat_eq_0 uint_0_iff)
    then have "\<not> magnitude (unat (ucast x :: u64)) (-9) < 10 powi (-81)"
      using magnitude_mono [of 1 "unat (ucast x :: u64)" "-9"] power10_mono [of "-81" "-9"] by (simp add: magnitude_def)
    then have "mValue r \<noteq> 0"
      using STAmount_canonical_issued(1) [OF c n] unfolding truncates_to_def by (auto simp: denote_zero)
    ultimately show ?thesis using Inr that by (auto simp: Rate_make_def rate_ok_def)
  qed
  from this [of q] this [of QUALITY_ONE] show ?thesis using assms by (simp add: effective_rate_def QUALITY_ONE_def)
qed

lemma rate_multiply_amt: "rate_ok i r \<Longrightarrow> amt i a \<Longrightarrow> ensures (rate_multiply r a) (amt i)"
  using multiply_amt [of i a "rate_amount r" i] by (auto simp: rate_multiply_def rate_ok_def amt_def)

lemma rate_divide_le:
  assumes r: "rate_ok i r" and a: "amt i a" and b: "amt i b" and m: "rate_multiply r a = Ok m" "denote b < denote m"
  shows "ensures (rate_divide r b) (\<lambda>d. amt i d \<and> denote d \<le> denote a)"
proof (cases "rate_quality r = QUALITY_ONE")
  case True
  then show ?thesis using assms by (simp add: rate_multiply_def rate_divide_def)
next
  case False
  then have f: "factor (rate_amount r)" "mValue (rate_amount r) \<noteq> 0" "\<not> isNative_issue i" using r by (auto simp: rate_ok_def)
  have wf: "wf_amount (rate_amount r)" "\<not> mIsNative (rate_amount r)" using f(1) by (auto simp: factor_def proper_def)
  have n: "wf_amount a" "\<not> mIsNative a" "wf_amount b" "\<not> mIsNative b" "mIssue a = i" "mIssue b = i"
    using amt_wf [OF a] amt_wf [OF b] f(3) a b by (auto simp: amt_def)
  have m': "multiply a (rate_amount r) i = Ok m" using m(1) False n by (simp add: rate_multiply_def)
  have am: "amt i m" using multiply_amt [OF a f(1), of i] m' by simp
  have "denote d \<le> denote a" if d: "divide b (rate_amount r) i = Ok d" "amt i d" for d
    using divide_below_product [OF n(1,2) wf f(2) n(3,4) f(3,3) m' d(1)] m(2) amt_nonneg [OF a] amt_nonneg [OF b] amt_nonneg [OF am] amt_nonneg [OF d(2)]
    by simp
  then show ?thesis using ensures_get [OF divide_amt [OF b f(1), of i]] False n
    by (auto simp: rate_divide_def intro: ensures_mono)
qed

section \<open>Steps of a flow\<close>

definition flow_ok :: "Issue \<Rightarrow> Issue \<Rightarrow> Flow \<Rightarrow> bool" where
  "flow_ok ii io f \<longleftrightarrow> amt ii (in_a (order f)) \<and> amt io (out_a (order f)) \<and> \<not> mIsNegative (in_a (issuers f)) \<and> \<not> mIsNegative (out_a (issuers f))"

definition no_larger :: "Amounts \<Rightarrow> Amounts \<Rightarrow> bool" where
  "no_larger a b \<longleftrightarrow> denote (in_a a) \<le> denote (in_a b) \<and> denote (out_a a) \<le> denote (out_a b)"

lemma no_larger_refl [simp]: "no_larger a a"
  by (simp add: no_larger_def)

lemma no_larger_trans: "no_larger a b \<Longrightarrow> no_larger b c \<Longrightarrow> no_larger a c"
  by (auto simp: no_larger_def)

text \<open>What the issuers move is the order at the transfer rate.\<close>

definition priced_in :: "Rate \<Rightarrow> Flow \<Rightarrow> bool" where
  "priced_in r f \<longleftrightarrow> rate_multiply r (in_a (order f)) = Ok (in_a (issuers f))"

definition priced_out :: "Rate \<Rightarrow> Flow \<Rightarrow> bool" where
  "priced_out r f \<longleftrightarrow> rate_multiply r (out_a (order f)) = Ok (out_a (issuers f))"

lemmas flow_sets = set_in_def set_out_def set_issuer_in_def set_issuer_out_def

lemma convert_in_ok:
  "flow_ok ii io f \<Longrightarrow> ensures (convert_in q f)
    (\<lambda>f'. flow_ok ii io f' \<and> issuers f' = issuers f \<and> out_a (order f') = out_a (order f) \<and> denote (in_a (order f')) \<le> denote (in_a (order f)))"
  unfolding convert_in_def by (rule ensures_bind [OF qual_mul_amt]) (auto simp: flow_ok_def flow_sets)

lemma convert_out_ok:
  "flow_ok ii io f \<Longrightarrow> ensures (convert_out q f)
    (\<lambda>f'. flow_ok ii io f' \<and> issuers f' = issuers f \<and> in_a (order f') = in_a (order f) \<and> denote (out_a (order f')) \<le> denote (out_a (order f)))"
  unfolding convert_out_def by (rule ensures_bind [OF qual_div_amt]) (auto simp: flow_ok_def flow_sets)

lemma issue_in_ok:
  "rate_ok ii r \<Longrightarrow> flow_ok ii io f \<Longrightarrow> ensures (issue_in_at r f)
    (\<lambda>f'. flow_ok ii io f' \<and> order f' = order f \<and> out_a (issuers f') = out_a (issuers f) \<and> priced_in r f')"
  unfolding issue_in_at_def
  by (rule ensures_bind [OF ensures_get [OF rate_multiply_amt]]) (auto simp: flow_ok_def flow_sets priced_in_def amt_def)

lemma issue_out_ok:
  "rate_ok io r \<Longrightarrow> flow_ok ii io f \<Longrightarrow> ensures (issue_out_at r f)
    (\<lambda>f'. flow_ok ii io f' \<and> order f' = order f \<and> in_a (issuers f') = in_a (issuers f) \<and> priced_out r f')"
  unfolding issue_out_at_def
  by (rule ensures_bind [OF ensures_get [OF rate_multiply_amt]]) (auto simp: flow_ok_def flow_sets priced_out_def amt_def)

lemma priced_in_amt: "rate_ok ii r \<Longrightarrow> flow_ok ii io f \<Longrightarrow> priced_in r f \<Longrightarrow> amt ii (in_a (issuers f))"
  using rate_multiply_amt [of ii r "in_a (order f)"] by (simp add: priced_in_def flow_ok_def)

lemma priced_out_amt: "rate_ok io r \<Longrightarrow> flow_ok ii io f \<Longrightarrow> priced_out r f \<Longrightarrow> amt io (out_a (issuers f))"
  using rate_multiply_amt [of io r "out_a (order f)"] by (simp add: priced_out_def flow_ok_def)

text \<open>A clamp: the flow afterwards is no larger and within the limit; \<open>K\<close> is what the last step establishes.\<close>

definition keeps :: "Issue \<Rightarrow> Issue \<Rightarrow> (Flow \<Rightarrow> Flow res) \<Rightarrow> (Flow \<Rightarrow> bool) \<Rightarrow> (Flow \<Rightarrow> bool) \<Rightarrow> bool" where
  "keeps ii io g J K \<longleftrightarrow> (\<forall>f. flow_ok ii io f \<and> J f \<longrightarrow> ensures (g f) (\<lambda>f'. flow_ok ii io f' \<and> order f' = order f \<and> K f'))"

lemma keeps_then:
  assumes "keeps ii io g J K" "flow_ok ii io f" "J f" "no_larger (order f) (order f0)" "L (order f)"
  shows "ensures (g f) (\<lambda>f'. flow_ok ii io f' \<and> no_larger (order f') (order f0) \<and> L (order f') \<and> K f')"
proof -
  have "ensures (g f) (\<lambda>f'. flow_ok ii io f' \<and> order f' = order f \<and> K f')" using assms(1-3) unfolding keeps_def by blast
  then show ?thesis by (rule ensures_mono) (use assms(4,5) in auto)
qed

lemma clamp_out:
  assumes f: "flow_ok ii io f" "K f" and x: "amt io x" and g: "keeps ii io g (\<lambda>_. True) K"
  shows "ensures (when_less x (out_a (order f)) (\<lambda>f. rbind (convert_in q (set_out x f)) g) f)
    (\<lambda>f'. flow_ok ii io f' \<and> no_larger (order f') (order f) \<and> denote (out_a (order f')) \<le> denote x \<and> K f')"
proof (cases "denote x < denote (out_a (order f))")
  case True
  have "flow_ok ii io (set_out x f)" using f x by (simp add: flow_ok_def flow_sets)
  note c = convert_in_ok [OF this, of q]
  have "ensures (rbind (convert_in q (set_out x f)) g)
    (\<lambda>f'. flow_ok ii io f' \<and> no_larger (order f') (order f) \<and> denote (out_a (order f')) \<le> denote x \<and> K f')"
    by (rule ensures_bind [OF c], rule keeps_then [OF g]) (use True in \<open>auto simp: no_larger_def flow_sets\<close>)
  then show ?thesis using True f x by (simp add: when_less_def amt_less [of io x] flow_ok_def)
next
  case False
  then show ?thesis using f x by (simp add: when_less_def amt_less [of io x] flow_ok_def)
qed

lemma clamp_in:
  assumes f: "flow_ok ii io f" "K f" and x: "amt ii x" and g: "keeps ii io g (\<lambda>_. True) K"
  shows "ensures (when_less x (in_a (order f)) (\<lambda>f. rbind (convert_out q (set_in x f)) g) f)
    (\<lambda>f'. flow_ok ii io f' \<and> no_larger (order f') (order f) \<and> denote (in_a (order f')) \<le> denote x \<and> K f')"
proof (cases "denote x < denote (in_a (order f))")
  case True
  have "flow_ok ii io (set_in x f)" using f x by (simp add: flow_ok_def flow_sets)
  note c = convert_out_ok [OF this, of q]
  have "ensures (rbind (convert_out q (set_in x f)) g)
    (\<lambda>f'. flow_ok ii io f' \<and> no_larger (order f') (order f) \<and> denote (in_a (order f')) \<le> denote x \<and> K f')"
    by (rule ensures_bind [OF c], rule keeps_then [OF g]) (use True in \<open>auto simp: no_larger_def flow_sets\<close>)
  then show ?thesis using True f x by (simp add: when_less_def amt_less [of ii x] flow_ok_def)
next
  case False
  then show ?thesis using f x by (simp add: when_less_def amt_less [of ii x] flow_ok_def)
qed

lemma clamp_in_priced:
  assumes f: "flow_ok ii io f" "K f" and x: "amt ii x" and r: "rate_ok ii r" and g: "keeps ii io g (priced_in r) K"
  shows "ensures (when_less x (in_a (order f)) (\<lambda>f. rbind (issue_in_at r (set_in x f)) (\<lambda>f. rbind (convert_out q f) g)) f)
    (\<lambda>f'. flow_ok ii io f' \<and> no_larger (order f') (order f) \<and> denote (in_a (order f')) \<le> denote x \<and> K f')"
proof (cases "denote x < denote (in_a (order f))")
  case True
  have "flow_ok ii io (set_in x f)" using f x by (simp add: flow_ok_def flow_sets)
  note c = issue_in_ok [OF r this]
  have "ensures (rbind (issue_in_at r (set_in x f)) (\<lambda>f. rbind (convert_out q f) g))
    (\<lambda>f'. flow_ok ii io f' \<and> no_larger (order f') (order f) \<and> denote (in_a (order f')) \<le> denote x \<and> K f')"
    by (rule ensures_bind [OF c], rule ensures_bind [OF convert_out_ok [of ii io]], blast, rule keeps_then [OF g])
      (use True in \<open>auto simp: no_larger_def flow_sets priced_in_def\<close>)
  then show ?thesis using True f x by (simp add: when_less_def amt_less [of ii x] flow_ok_def)
next
  case False
  then show ?thesis using f x by (simp add: when_less_def amt_less [of ii x] flow_ok_def)
qed

lemma clamp_owner:
  assumes f: "flow_ok ii io f" "K f" "priced_out r f" and x: "amt io x" and r: "rate_ok io r" and g: "keeps ii io g (\<lambda>_. True) K"
  shows "ensures (when_less x (out_a (issuers f)) (\<lambda>f. rbind (rate_divide r x) (\<lambda>out. rbind (convert_in q (set_out out (set_issuer_out x f))) g)) f)
    (\<lambda>f'. flow_ok ii io f' \<and> no_larger (order f') (order f) \<and> K f')"
proof (cases "denote x < denote (out_a (issuers f))")
  case True
  have "amt io (out_a (order f))" using f(1) by (simp add: flow_ok_def)
  note d = rate_divide_le [OF r this x f(3) [unfolded priced_out_def] True]
  have s: "flow_ok ii io (set_out out (set_issuer_out x f))" if "amt io out" for out
    using f x that by (simp add: flow_ok_def flow_sets amt_def)
  have "ensures (rbind (rate_divide r x) (\<lambda>out. rbind (convert_in q (set_out out (set_issuer_out x f))) g))
    (\<lambda>f'. flow_ok ii io f' \<and> no_larger (order f') (order f) \<and> K f')"
    by (rule ensures_bind [OF d], rule ensures_bind [OF convert_in_ok [OF s]], blast,
        rule ensures_mono [OF keeps_then [OF g, where L = "\<lambda>_. True"]]) (auto simp: no_larger_def flow_sets)
  then show ?thesis using True x by (simp add: when_less_def amt_less [OF x priced_out_amt [OF r f(1,3)]])
next
  case False
  then show ?thesis using f x by (simp add: when_less_def amt_less [OF x priced_out_amt [OF r f(1,3)]])
qed

lemma clamp_taker:
  assumes f: "flow_ok ii io f" "priced_in r f" and x: "amt ii x" and r: "rate_ok ii r"
    and g: "\<And>y. keeps ii io g (\<lambda>f. in_a (issuers f) = y) (\<lambda>f. in_a (issuers f) = y)"
  shows "ensures (when_less x (in_a (issuers f)) (\<lambda>f. rbind (rate_divide r x) (\<lambda>i. rbind (convert_out q (set_in i (set_issuer_in x f))) g)) f)
    (\<lambda>f'. flow_ok ii io f' \<and> no_larger (order f') (order f) \<and> denote (in_a (issuers f')) \<le> denote x)"
proof (cases "denote x < denote (in_a (issuers f))")
  case True
  have "amt ii (in_a (order f))" using f(1) by (simp add: flow_ok_def)
  note d = rate_divide_le [OF r this x f(2) [unfolded priced_in_def] True]
  have s: "flow_ok ii io (set_in i (set_issuer_in x f))" if "amt ii i" for i
    using f x that by (simp add: flow_ok_def flow_sets amt_def)
  have "ensures (rbind (rate_divide r x) (\<lambda>i. rbind (convert_out q (set_in i (set_issuer_in x f))) g))
    (\<lambda>f'. flow_ok ii io f' \<and> no_larger (order f') (order f) \<and> denote (in_a (issuers f')) \<le> denote x)"
    by (rule ensures_bind [OF d], rule ensures_bind [OF convert_out_ok [OF s]], blast,
        rule ensures_mono [OF keeps_then [OF g [of x], where L = "\<lambda>_. True"]]) (auto simp: no_larger_def flow_sets)
  then show ?thesis using True x by (simp add: when_less_def amt_less [OF x priced_in_amt [OF r f]])
next
  case False
  then show ?thesis using f x by (simp add: when_less_def amt_less [OF x priced_in_amt [OF r f]])
qed

lemma keeps_Ok: "(\<And>f. J f \<Longrightarrow> K f) \<Longrightarrow> keeps ii io Ok J K"
  by (simp add: keeps_def)

lemma keeps_issue_in: "rate_ok ii r \<Longrightarrow> keeps ii io (issue_in_at r) J (priced_in r)"
  unfolding keeps_def by (intro allI impI ensures_mono [OF issue_in_ok]) auto

lemma keeps_issue_out: "rate_ok io r \<Longrightarrow> keeps ii io (issue_out_at r) J (\<lambda>_. True)"
  unfolding keeps_def by (intro allI impI ensures_mono [OF issue_out_ok]) auto

lemma keeps_issue_out_in:
  "rate_ok io r \<Longrightarrow> keeps ii io (issue_out_at r) (\<lambda>f. in_a (issuers f) = y) (\<lambda>f. in_a (issuers f) = y)"
  "rate_ok io r \<Longrightarrow> keeps ii io (issue_out_at r) (priced_in r') (priced_in r')"
  unfolding keeps_def by (intro allI impI ensures_mono [OF issue_out_ok]; force simp: priced_in_def)+

lemma keeps_both:
  assumes "rate_ok ii ri" "rate_ok io ro"
  shows "keeps ii io (\<lambda>f. rbind (issue_out_at ro f) (issue_in_at ri)) J (priced_in ri)"
  unfolding keeps_def
  by (intro allI impI ensures_bind [OF issue_out_ok [OF assms(2)]] ensures_mono [OF issue_in_ok [OF assms(1)]]) auto

lemma new_flow_ok: "amt ii (in_a a) \<Longrightarrow> amt io (out_a a) \<Longrightarrow> flow_ok ii io (new_flow a) \<and> order (new_flow a) = a"
  by (simp add: flow_ok_def new_flow_def STAmount_drops_def)

section \<open>Flows stay within their limits\<close>

definition offered :: "Issue \<Rightarrow> Issue \<Rightarrow> Amounts \<Rightarrow> bool" where
  "offered ii io a \<longleftrightarrow> amt ii (in_a a) \<and> amt io (out_a a)"

lemma flow_xrp_to_iou_ok:
  assumes o: "offered ii io offer" and r: "rate_ok io r" and funds: "amt io owner_funds" "amt ii taker_funds"
    and rem: "\<not> sell t \<Longrightarrow> amt io (out_a (remaining t))" "cross_type t = XrpToIou \<Longrightarrow> amt ii (in_a (remaining t))"
  shows "ensures (flow_xrp_to_iou offer q owner_funds taker_funds r t) (\<lambda>f. flow_ok ii io f \<and> no_larger (order f) offer \<and>
    (\<not> sell t \<longrightarrow> denote (out_a (order f)) \<le> denote (out_a (remaining t))) \<and> denote (in_a (order f)) \<le> denote taker_funds \<and>
    (cross_type t = XrpToIou \<longrightarrow> denote (in_a (order f)) \<le> denote (in_a (remaining t))))"
proof -
  let ?T = "\<lambda>_ :: Flow. True"
  note k = keeps_issue_out [OF r, of ii]
  have n: "flow_ok ii io (new_flow offer)" "order (new_flow offer) = offer" using o new_flow_ok by (auto simp: offered_def)
  note c1 = clamp_owner [where g = Ok and K = ?T and ii = ii and q = q, OF _ TrueI _ funds(1) r keeps_Ok, simplified]
  note c2 = clamp_out [where K = ?T and q = q, OF _ TrueI rem(1) k] and c3 = clamp_in [where K = ?T and q = q, OF _ TrueI funds(2) k]
    and c4 = clamp_in [where K = ?T and q = q, OF _ TrueI rem(2) k]
  show ?thesis unfolding flow_xrp_to_iou_def
  proof (rule ensures_bind [OF issue_out_ok [OF r n(1)]], rule ensures_bind [OF c1], goal_cases)
    case (3 f0 f1)
    have "ensures (if sell t then Ok f1 else when_less (out_a (remaining t)) (out_a (order f1))
        (\<lambda>f. rbind (convert_in q (set_out (out_a (remaining t)) f)) (issue_out_at r)) f1)
      (\<lambda>f. flow_ok ii io f \<and> no_larger (order f) offer \<and> (\<not> sell t \<longrightarrow> denote (out_a (order f)) \<le> denote (out_a (remaining t))))"
      using c2 [of f1] 3 n(2) by (auto intro: ensures_mono no_larger_trans)
    then show ?case
    proof (rule ensures_bind, rule_tac ensures_bind [OF c3], goal_cases)
      case (2 f2 f3)
      then have f3: "flow_ok ii io f3" "no_larger (order f3) offer" "denote (in_a (order f3)) \<le> denote taker_funds"
        "\<not> sell t \<longrightarrow> denote (out_a (order f3)) \<le> denote (out_a (remaining t))"
        by (auto intro: no_larger_trans simp: no_larger_def)
      then show ?case by (auto intro!: ensures_mono [OF c4 [OF f3(1)]] simp: no_larger_def)
    qed auto
  qed auto
qed

lemma flow_iou_to_xrp_ok:
  assumes o: "offered ii io offer" and r: "rate_ok ii r" and funds: "amt io owner_funds" "amt ii taker_funds"
    and rem: "\<not> sell t \<and> cross_type t = IouToXrp \<Longrightarrow> amt io (out_a (remaining t))" "amt ii (in_a (remaining t))"
  shows "ensures (flow_iou_to_xrp offer q owner_funds taker_funds r t) (\<lambda>f. flow_ok ii io f \<and> no_larger (order f) offer \<and>
    denote (out_a (order f)) \<le> denote owner_funds \<and> denote (in_a (issuers f)) \<le> denote taker_funds \<and>
    (\<not> sell t \<and> cross_type t = IouToXrp \<longrightarrow> denote (out_a (order f)) \<le> denote (out_a (remaining t))) \<and>
    denote (in_a (order f)) \<le> denote (in_a (remaining t)))"
proof -
  note k = keeps_issue_in [OF r, of io]
  have n: "flow_ok ii io (new_flow offer)" "order (new_flow offer) = offer" using o new_flow_ok by (auto simp: offered_def)
  note c1 = clamp_out [where q = q, OF _ _ funds(1) k] and c2 = clamp_out [where q = q, OF _ _ rem(1) k]
    and c3 = clamp_in_priced [where q = q and g = Ok and io = io, OF _ _ rem(2) r keeps_Ok, simplified, where K = "priced_in r", simplified]
    and c4 = clamp_taker [where q = q and g = Ok and io = io, OF _ _ funds(2) r keeps_Ok, simplified]
  show ?thesis unfolding flow_iou_to_xrp_def
  proof (rule ensures_bind [OF issue_in_ok [OF r n(1)]], rule ensures_bind [OF c1], goal_cases)
    case (3 f0 f1)
    have "ensures (if \<not> sell t \<and> cross_type t = IouToXrp then when_less (out_a (remaining t)) (out_a (order f1))
        (\<lambda>f. rbind (convert_in q (set_out (out_a (remaining t)) f)) (issue_in_at r)) f1 else Ok f1)
      (\<lambda>f. flow_ok ii io f \<and> no_larger (order f) (order f1) \<and> priced_in r f \<and>
        (\<not> sell t \<and> cross_type t = IouToXrp \<longrightarrow> denote (out_a (order f)) \<le> denote (out_a (remaining t))))"
      using c2 [of f1] 3 by (auto intro: ensures_mono)
    then show ?case
    proof (rule ensures_bind, rule_tac ensures_bind [OF c3], goal_cases)
      case (3 f2 f3)
      then have f3: "flow_ok ii io f3" "priced_in r f3" "no_larger (order f3) offer" "denote (in_a (order f3)) \<le> denote (in_a (remaining t))"
        "denote (out_a (order f3)) \<le> denote owner_funds"
        "\<not> sell t \<and> cross_type t = IouToXrp \<longrightarrow> denote (out_a (order f3)) \<le> denote (out_a (remaining t))"
        using \<open>flow_ok ii io f1 \<and> _\<close> \<open>flow_ok ii io f0 \<and> _\<close> n(2) by (auto simp: no_larger_def)
      then show ?case by (auto intro!: ensures_mono [OF c4 [OF f3(1,2)]] simp: no_larger_def)
    qed auto
  qed auto
qed

lemma flow_iou_to_iou_ok:
  assumes o: "offered ii io offer" and r: "rate_ok ii ri" "rate_ok io ro" and funds: "amt io owner_funds" "amt ii taker_funds"
    and rem: "\<not> sell t \<Longrightarrow> amt io (out_a (remaining t))" "amt ii (in_a (remaining t))"
  shows "ensures (flow_iou_to_iou offer q owner_funds taker_funds ri ro t) (\<lambda>f. flow_ok ii io f \<and> no_larger (order f) offer \<and>
    (\<not> sell t \<longrightarrow> denote (out_a (order f)) \<le> denote (out_a (remaining t))) \<and> denote (in_a (issuers f)) \<le> denote taker_funds \<and>
    denote (in_a (order f)) \<le> denote (in_a (remaining t)))"
proof -
  have n: "flow_ok ii io (new_flow offer)" "order (new_flow offer) = offer" using o new_flow_ok by (auto simp: offered_def)
  have k: "keeps ii io (issue_in_at ri) (\<lambda>_. True) (priced_in ri)" "keeps ii io (issue_out_at ro) (priced_in ri) (priced_in ri)"
    using keeps_issue_in [OF r(1)] keeps_issue_out_in(2) [OF r(2)] by auto
  note c1 = clamp_owner [where q = q and K = "priced_in ri", OF _ _ _ funds(1) r(2) k(1)]
    and c2 = clamp_out [where q = q and K = "priced_in ri", OF _ _ rem(1) keeps_both [OF r]]
    and c3 = clamp_in_priced [where q = q, OF _ _ rem(2) r(1) k(2)]
    and c4 = clamp_taker [where q = q, OF _ _ funds(2) r(1) keeps_issue_out_in(1) [OF r(2)]]
  show ?thesis unfolding flow_iou_to_iou_def
  proof (rule ensures_bind [OF issue_in_ok [OF r(1) n(1)]], rule ensures_bind [OF issue_out_ok [OF r(2)]], blast, rule ensures_bind [OF c1], goal_cases)
    case (4 fi f0 f1)
    have "ensures (if sell t then Ok f1 else when_less (out_a (remaining t)) (out_a (order f1))
        (\<lambda>f. rbind (convert_in q (set_out (out_a (remaining t)) f)) (\<lambda>f. rbind (issue_out_at ro f) (issue_in_at ri))) f1)
      (\<lambda>f. flow_ok ii io f \<and> no_larger (order f) (order f1) \<and> priced_in ri f \<and>
        (\<not> sell t \<longrightarrow> denote (out_a (order f)) \<le> denote (out_a (remaining t))))"
      using c2 [of f1] 4 by (auto intro: ensures_mono)
    then show ?case
    proof (rule ensures_bind, rule_tac ensures_bind [OF c3], goal_cases)
      case (3 f2 f3)
      then have f3: "flow_ok ii io f3" "priced_in ri f3" "no_larger (order f3) offer" "denote (in_a (order f3)) \<le> denote (in_a (remaining t))"
        "\<not> sell t \<longrightarrow> denote (out_a (order f3)) \<le> denote (out_a (remaining t))"
        using 4 n(2) by (auto simp: no_larger_def)
      then show ?case by (auto intro!: ensures_mono [OF c4 [OF f3(1,2)]] simp: no_larger_def)
    qed auto
  qed (auto simp: priced_in_def)
qed

end
