(* ===== verification/Taker_Props.thy ===== *)
theory Taker_Props
  imports Taker_Flow
begin

text \<open>
  Crossing an offer, directly or over a bridge, stays within the offers, the taker's order and the funds, and leaves
  a taker that can go on crossing.
\<close>

section \<open>Subtraction\<close>

text \<open>The issue of a native amount is the one its currency has.\<close>

definition issue_ok :: "Issue \<Rightarrow> bool" where
  "issue_ok i \<longleftrightarrow> (isNative_issue i \<longrightarrow> i = native_issue (isVBC_cur (currency i)))"

text \<open>What selling leaves of the output: it may become negative, and a native one may leave the range of an amount.\<close>

definition loose :: "Issue \<Rightarrow> STAmount \<Rightarrow> bool" where
  "loose i a \<longleftrightarrow> mIssue a = i \<and> (if isNative_issue i then mIsNative a \<and> mOffset a = 0 else proper a)"

lemma amt_loose: "amt i a \<Longrightarrow> loose i a"
  using amt_wf by (auto simp: amt_def loose_def wf_amount_def isNative_alt)

lemma native_of: "issue_ok i \<Longrightarrow> isNative_issue i \<Longrightarrow> mIssue a = i \<Longrightarrow> mIssue (STAmount_native (isVBC a) s) = i"
  by (simp add: issue_ok_def STAmount_native_def set_mantissa_def isVBC_def)

lemma uminus_facts:
  assumes "amt i b" "mValue b \<noteq> 0"
  shows "mIssue (uminus_amount b) = i" "mValue (uminus_amount b) = mValue b" "mOffset (uminus_amount b) = mOffset b"
    "mIsNative (uminus_amount b) = mIsNative b" "denote (uminus_amount b) = - denote b" "wf_amount (uminus_amount b)"
    "mIsNegative (uminus_amount b)"
  using assms amt_wf [OF assms(1)]
  by (auto simp: uminus_amount_def STAmount_unchecked_def amt_def denote_def wf_amount_def isNative_alt canonical_issued_def)

lemma minus_zero: "amt i b \<Longrightarrow> mValue b = 0 \<Longrightarrow> loose i a \<Longrightarrow> minus_amount a b = Ok a"
  using amt_wf [of i b]
  by (auto simp: minus_amount_def uminus_amount_def plus_amount_def areComparable_def loose_def amt_def proper_def wf_amount_def isNative_alt split: if_splits)

lemma loose_comparable: "loose i a \<Longrightarrow> loose i b \<Longrightarrow> areComparable a b"
  by (auto simp: areComparable_def loose_def proper_def wf_amount_def isNative_alt split: if_splits)

lemma uminus_loose: "amt i b \<Longrightarrow> loose i (uminus_amount b)"
proof (cases "mValue b = 0")
  case True
  then show "amt i b \<Longrightarrow> ?thesis" using amt_loose by (simp add: uminus_amount_def)
next
  case False
  then show "amt i b \<Longrightarrow> ?thesis" using uminus_facts [of i b] amt_wf [of i b] amt_loose [of i b]
    by (auto simp: loose_def proper_def)
qed

lemma canonical_any: "ensures (STAmount_canonical i m e neg) (\<lambda>c. wf_amount c \<and> mIssue c = i \<and> (mValue c = 0 \<longrightarrow> \<not> isNative_issue i \<longrightarrow> \<not> mIsNegative c))"
proof (cases "STAmount_canonical i m e neg")
  case (Inl x)
  then have "\<exists>m. x = RuntimeError m"
    by (auto simp: STAmount_canonical_def canonicalize_def canonicalize_native_def Let_def rbind_eq_Throw
        dest!: canonicalize_issued_Throw split: if_splits prod.splits)
  then show ?thesis using Inl by (auto simp: ensures_def)
next
  case (Inr c)
  then have "canonicalize \<lparr>mIssue = i, mValue = m, mOffset = e, mIsNative = False, mIsNegative = neg\<rparr> = Ok c"
    by (simp add: STAmount_canonical_def)
  from canonicalize_wf [OF this] show ?thesis unfolding Inr by (auto simp: wf_amount_def isNative_alt canonical_issued_def)
qed

lemma canonical_loose: "ensures (STAmount_canonical i m e neg) (loose i)"
  by (rule ensures_mono [OF canonical_any]) (auto simp: loose_def wf_amount_def isNative_alt proper_def split: if_splits)

lemma plus_loose:
  assumes i: "issue_ok i" and a: "loose i a" and b: "loose i b"
  shows "ensures (plus_amount a b) (loose i)"
proof -
  have m: "mIssue a = i" using a by (simp add: loose_def)
  consider "mValue b = 0" | "mValue b \<noteq> 0" "mValue a = 0" | "mValue b \<noteq> 0" "mValue a \<noteq> 0" "isNative_issue i"
    | "mValue b \<noteq> 0" "mValue a \<noteq> 0" "\<not> isNative_issue i" by blast
  then show ?thesis
  proof cases
    case 3
    then have n: "mIsNative a" "mIsNative b" using a b by (simp_all add: loose_def)
    then obtain s where "plus_amount a b = Ok (STAmount_native (isVBC a) s)"
      using 3 loose_comparable [OF a b] by (auto simp: plus_amount_def getSNValue_def Let_def)
    moreover have "mIssue (STAmount_native (isVBC a) s) = i" by (rule native_of [OF i 3(3) m])
    ultimately show ?thesis using 3 by (simp add: loose_def) (simp add: STAmount_native_def set_mantissa_def)
  next
    case 4
    then have "wf_amount a" "wf_amount b" "\<not> mIsNative a" using a b m by (auto simp: loose_def proper_def wf_amount_def isNative_alt)
    from plus_issued_body [OF this(1,2) loose_comparable [OF a b] this(3) 4(2,1)] show ?thesis
      using m by (simp add: Let_def canonical_loose)
  qed (use a b m loose_comparable [OF a b] in \<open>auto simp: plus_amount_def canonical_loose\<close>)
qed

lemma minus_loose: "issue_ok i \<Longrightarrow> loose i a \<Longrightarrow> amt i b \<Longrightarrow> ensures (minus_amount a b) (loose i)"
  unfolding minus_amount_def by (rule plus_loose [OF _ _ uminus_loose])

lemma minus_amt:
  assumes i: "issue_ok i" and a: "amt i a" and b: "amt i b" and le: "denote b \<le> denote a"
  shows "ensures (minus_amount a b) (amt i)"
proof (cases "mValue b = 0")
  case True
  then show ?thesis using minus_zero [OF b True amt_loose [OF a]] a by simp
next
  case False
  let ?b = "uminus_amount b"
  note u = uminus_facts [OF b False]
  have m: "mIssue a = i" and wf: "wf_amount a" "wf_amount b" using a amt_wf [OF a] amt_wf [OF b] by (simp_all add: amt_def)
  have cmp: "areComparable a ?b" by (rule loose_comparable [OF amt_loose [OF a] uminus_loose [OF b]])
  have pos: "0 < denote b" using b False by (simp add: amt_def denote_def magnitude_pos unat_gt_0)
  then have na: "mValue a \<noteq> 0" using le by (auto simp: denote_zero)
  show ?thesis
  proof (cases "isNative_issue i")
    case True
    then have n: "mIsNative a" "mIsNative b" and z: "mOffset a = 0" "mOffset b = 0"
      and l: "unat (mValue a) \<le> 100000000000000000" "unat (mValue b) \<le> 100000000000000000"
      using wf amt_wf [OF a] amt_wf [OF b] by (auto simp: wf_amount_def isNative_alt)
    define d where "d = int (unat (mValue a)) - int (unat (mValue b))"
    have s: "sint (mValue a) = int (unat (mValue a))" "sint (mValue b) = int (unat (mValue b))"
      using l by (simp_all add: sint_small)
    have "unat (mValue b) \<le> unat (mValue a)" using le a b z by (simp add: amt_def denote_def flip: not_less)
    then have s0: "0 \<le> d" "d \<le> 100000000000000000" using l unfolding d_def by linarith+
    have p: "plus_amount a ?b = Ok (STAmount_native (isVBC a) d)"
      using na False n u a b cmp by (simp add: plus_amount_def getSNValue_def s amt_def d_def)
    have "unat (word_of_int d :: u64) = nat d" using s0 by (simp only: unat_eq_nat_uint) (simp add: uint_word_of_int_u64)
    then show ?thesis using native_of [OF i True m, of d] s0 True
      by (simp add: minus_amount_def p amt_def proper_def wf_amount_def isNative_alt) (simp add: STAmount_native_def set_mantissa_def)
  next
    case ni: False
    then have n: "\<not> mIsNative a" using amt_wf [OF a] by simp
    note body = plus_issued_body [OF wf(1) u(6) cmp n na, unfolded u(2), OF False]
    have "- 1 * (10 :: rat) powi max (mOffset a) (mOffset ?b) < of_int (aligned_sum a ?b) * 10 powi max (mOffset a) (mOffset ?b)"
      using aligned_sum_error [of a ?b] le u(5) by linarith
    then have "- 1 < (of_int (aligned_sum a ?b) :: rat)" by (simp only: mult_less_cancel_right_pos power10_pos)
    then have "0 \<le> aligned_sum a ?b" by linarith
    then show ?thesis unfolding minus_amount_def body using m canonical_ensures by (auto simp: Let_def not_less)
  qed
qed

section \<open>Takers\<close>

definition taker_ok :: "Issue \<Rightarrow> Issue \<Rightarrow> BasicTaker \<Rightarrow> bool" where
  "taker_ok ii io t \<longleftrightarrow> issue_ok ii \<and> issue_ok io \<and> \<not> (isXRP_issue ii \<and> isXRP_issue io) \<and>
     mIssue (in_a (original t)) = ii \<and> mIssue (out_a (original t)) = io \<and>
     amt ii (in_a (remaining t)) \<and> (if sell t then loose io (out_a (remaining t)) else amt io (out_a (remaining t))) \<and>
     m_rate_in t \<noteq> 0 \<and> m_rate_out t \<noteq> 0 \<and>
     (isNative_issue ii \<longrightarrow> m_rate_in t = QUALITY_ONE) \<and> (isNative_issue io \<longrightarrow> m_rate_out t = QUALITY_ONE)"

lemma taker_rates:
  "taker_ok ii io t \<Longrightarrow> ensures (in_rate t from to) (rate_ok ii)" "taker_ok ii io t \<Longrightarrow> ensures (out_rate t from to) (rate_ok io)"
  by (auto simp: in_rate_def out_rate_def taker_ok_def intro!: effective_rate_ok)

lemma flow_sane: "flow_ok ii io f \<Longrightarrow> \<not> (isXRP_issue ii \<and> isXRP_issue io) \<Longrightarrow> sanity_check f"
  by (auto simp: sanity_check_def flow_ok_def amt_def signum_def isXRP_def isXRP_issue_def)

lemma amt_signum: "amt i a \<Longrightarrow> 0 \<le> signum a"
  by (simp add: amt_def signum_def)

text \<open>Taking a flow off what remains.\<close>

lemma minus_out:
  assumes "taker_ok ii io t" "amt io x" "\<not> sell t \<longrightarrow> denote x \<le> denote (out_a (remaining t))"
  shows "ensures (minus_amount (out_a (remaining t)) x) (\<lambda>c. if sell t then loose io c else amt io c)"
  using assms minus_loose [of io "out_a (remaining t)" x] minus_amt [of io "out_a (remaining t)" x]
  by (cases "sell t") (simp_all add: taker_ok_def)

lemma taker_left:
  "taker_ok ii io t \<Longrightarrow> amt ii i \<Longrightarrow> (if sell t then loose io out else amt io out) \<Longrightarrow> taker_ok ii io (t\<lparr>remaining := \<lparr>in_a = i, out_a = out\<rparr>\<rparr>)"
  by (auto simp: taker_ok_def)

lemma offered_consume:
  assumes "issue_ok ii" "issue_ok io" "offered ii io offer" "flow_ok ii io f" "no_larger (order f) offer"
  shows "ensures (consume_amounts offer (order f)) (offered ii io)"
proof -
  have a: "amt ii (in_a (order f))" "amt io (out_a (order f))" "amt ii (in_a offer)" "amt io (out_a offer)"
    and le: "denote (in_a (order f)) \<le> denote (in_a offer)" "denote (out_a (order f)) \<le> denote (out_a offer)"
    using assms by (auto simp: offered_def flow_ok_def no_larger_def)
  show ?thesis unfolding consume_amounts_def greater_amount_def amt_less [OF a(3,1)] amt_less [OF a(4,2)] rbind.simps
    using le by (simp add: not_less)
      (intro ensures_bind [OF minus_amt [OF assms(1) a(3,1)]] ensures_bind [OF minus_amt [OF assms(2) a(4,2)]]; simp add: offered_def)
qed

text \<open>Bridges.\<close>

lemma max_amt: "amt i a \<Longrightarrow> amt i b \<Longrightarrow> ensures (max_amount a b) (amt i)"
  by (simp add: max_amount_def amt_less)

lemma balance_ok:
  assumes f: "flow_ok ii x f1" "flow_ok x io f2" and r: "rate_ok ii r1" "rate_ok io r2"
  shows "ensures (balance_legs q1 r1 q2 r2 f1 f2) (\<lambda>(g1, g2). flow_ok ii x g1 \<and> flow_ok x io g2 \<and>
    no_larger (order g1) (order f1) \<and> no_larger (order g2) (order f2) \<and> denote (out_a (order g1)) = denote (in_a (order g2)))"
proof -
  let ?a = "out_a (order f1)" and ?b = "in_a (order f2)"
  have a: "amt x ?a" "amt x ?b" using f by (simp_all add: flow_ok_def)
  note l = amt_less [OF a] amt_less [OF a(2,1)]
  consider "denote ?a < denote ?b" | "denote ?b < denote ?a" | "denote ?a = denote ?b" by linarith
  then show ?thesis
  proof cases
    case 1
    have "flow_ok x io (set_in ?a f2)" using f a by (simp add: flow_ok_def flow_sets)
    note c = convert_out_ok [OF this, of q2]
    have "ensures (rbind (convert_out q2 (set_in ?a f2)) (\<lambda>f. rbind (issue_out_at r2 f) (\<lambda>f. Ok (f1, f)))) (\<lambda>(g1, g2). flow_ok ii x g1 \<and> flow_ok x io g2 \<and>
      no_larger (order g1) (order f1) \<and> no_larger (order g2) (order f2) \<and> denote (out_a (order g1)) = denote (in_a (order g2)))"
      by (rule ensures_bind [OF c], rule ensures_bind [OF issue_out_ok [OF r(2)]], blast) (use f 1 in \<open>auto simp: no_larger_def flow_sets\<close>)
    then show ?thesis using 1 by (simp add: balance_legs_def l)
  next
    case 2
    have "flow_ok ii x (set_out ?b f1)" using f a by (simp add: flow_ok_def flow_sets)
    note c = convert_in_ok [OF this, of q1]
    have "ensures (rbind (convert_in q1 (set_out ?b f1)) (\<lambda>f. rbind (issue_in_at r1 f) (\<lambda>f. Ok (f, f2)))) (\<lambda>(g1, g2). flow_ok ii x g1 \<and> flow_ok x io g2 \<and>
      no_larger (order g1) (order f1) \<and> no_larger (order g2) (order f2) \<and> denote (out_a (order g1)) = denote (in_a (order g2)))"
      by (rule ensures_bind [OF c], rule ensures_bind [OF issue_in_ok [OF r(1)]], blast) (use f 2 in \<open>auto simp: no_larger_def flow_sets\<close>)
    then show ?thesis using 2 by (simp add: balance_legs_def greater_amount_def l)
  next
    case 3
    then show ?thesis using f by (simp add: balance_legs_def greater_amount_def l)
  qed
qed

text \<open>A new taker satisfies the invariant, and the constructor fails no assertion on the orders it is meant for.\<close>

lemma BasicTaker_make_ok:
  assumes "offered ii io amount" "mValue (in_a amount) \<noteq> 0" "mValue (out_a amount) \<noteq> 0" "issue_ok ii" "issue_ok io"
    and "rate_in \<noteq> 0" "rate_out \<noteq> 0" "isNative_issue ii \<longrightarrow> rate_in = QUALITY_ONE" "isNative_issue io \<longrightarrow> rate_out = QUALITY_ONE"
    and "\<not> (isXRP_issue ii \<and> isXRP_issue io)" "ct = XrpToIou \<longrightarrow> isXRP_issue ii" "ct = IouToXrp \<longrightarrow> isXRP_issue io" "m_value q \<noteq> 0"
  shows "\<exists>t. BasicTaker_make ct acct amount q flags rate_in rate_out = Ok t \<and> taker_ok ii io t \<and> remaining t = amount \<and>
    (\<forall>q'. reject t q' \<longleftrightarrow> m_value q < m_value q' \<or> flags AND tfPassive \<noteq> 0 \<and> m_value q' = m_value q)"
proof -
  have i: "mIssue (in_a amount) = ii" "mIssue (out_a amount) = io" "signum (in_a amount) > 0" "signum (out_a amount) > 0"
    using assms(1-3) by (auto simp: offered_def amt_def signum_def)
  have le: "m_value q - 1 < v \<longleftrightarrow> m_value q < v \<or> v = m_value q" for v
  proof -
    have "0 < unat (m_value q)" using assms(13) by (simp add: unat_gt_0)
    then show ?thesis using assms(13) unfolding word_less_nat_alt word_unat_eq_iff unat_minus_one [OF assms(13)] by linarith
  qed
  show ?thesis using assms i
    by (auto simp: BasicTaker_make_def Let_def issue_in_def issue_out_def require_def taker_ok_def offered_def amt_loose
        quality_inc_def reject_def quality_less_def word_gt_0 le)
qed

section \<open>Properties\<close>

text \<open>
  C11. A direct crossing stays within all limits: the flow takes no more than the offer has, than the taker's order
  still asks for and than the funds of the taker, so neither the sanity check nor an assertion of \<open>do_cross\<close> fails
  and \<open>Offer::consume\<close> does not refuse; an amount out of range is the only error. The taker that is left can go on.
\<close>

theorem cross_within_limits:
  assumes t: "taker_ok ii io t" and o: "offered ii io offer" and nd: "is_done get_funds t = Ok False"
    and fo: "get_funds owner (out_a offer) = Ok fo" "amt io fo" and ft: "get_funds (taker_account t) (in_a offer) = Ok ft" "amt ii ft"
  shows "ensures (do_cross get_funds offer q owner t) (\<lambda>(f, t'). taker_ok ii io t' \<and>
    no_larger (order f) offer \<and> ensures (consume_amounts offer (order f)) (offered ii io) \<and>
    denote (in_a (order f)) \<le> denote (in_a (remaining t)) \<and> (\<not> sell t \<longrightarrow> denote (out_a (order f)) \<le> denote (out_a (remaining t))) \<and>
    denote (in_a (if cross_type t = XrpToIou then order f else issuers f)) \<le> denote ft \<and>
    (cross_type t = IouToXrp \<longrightarrow> denote (out_a (order f)) \<le> denote fo))"
proof -
  have r: "amt ii (in_a (remaining t))" "\<not> sell t \<Longrightarrow> amt io (out_a (remaining t))" "issue_ok ii" "issue_ok io" "\<not> (isXRP_issue ii \<and> isXRP_issue io)"
    using t by (auto simp: taker_ok_def)
  let ?flow = "case cross_type t of
         XrpToIou \<Rightarrow> rbind (out_rate t owner (taker_account t)) (\<lambda>r. flow_xrp_to_iou offer q fo ft r t)
       | IouToXrp \<Rightarrow> rbind (in_rate t owner (taker_account t)) (\<lambda>r. flow_iou_to_xrp offer q fo ft r t)
       | IouToIou \<Rightarrow> rbind (in_rate t owner (taker_account t)) (\<lambda>ri.
           rbind (out_rate t owner (taker_account t)) (\<lambda>ro. flow_iou_to_iou offer q fo ft ri ro t))"
    and ?Q = "\<lambda>f. flow_ok ii io f \<and> no_larger (order f) offer \<and> denote (in_a (order f)) \<le> denote (in_a (remaining t)) \<and>
      (\<not> sell t \<longrightarrow> denote (out_a (order f)) \<le> denote (out_a (remaining t))) \<and>
      denote (in_a (if cross_type t = XrpToIou then order f else issuers f)) \<le> denote ft \<and>
      (cross_type t = IouToXrp \<longrightarrow> denote (out_a (order f)) \<le> denote fo)"
  have flow: "ensures ?flow ?Q"
  proof (cases "cross_type t")
    case XrpToIou
    then show ?thesis using r fo ft
      by simp (intro ensures_bind [OF taker_rates(2) [OF t]] ensures_mono [OF flow_xrp_to_iou_ok [OF o _ fo(2) ft(2)]]; auto)
  next
    case IouToXrp
    then show ?thesis using r fo ft
      by simp (intro ensures_bind [OF taker_rates(1) [OF t]] ensures_mono [OF flow_iou_to_xrp_ok [OF o _ fo(2) ft(2)]]; auto)
  next
    case IouToIou
    then show ?thesis using r fo ft
      by simp (intro ensures_bind [OF taker_rates(1) [OF t]] ensures_bind [OF taker_rates(2) [OF t]]
          ensures_mono [OF flow_iou_to_iou_ok [OF o _ _ fo(2) ft(2)]]; auto)
  qed
  show ?thesis unfolding do_cross_def nd fo(1) ft(1) rbind.simps
  proof (simp, rule ensures_bind [OF flow], goal_cases)
    case (1 f)
    have s: "sanity_check f" using flow_sane 1 r(5) by blast
    have f: "amt ii (in_a (order f))" "amt io (out_a (order f))" using 1 by (auto simp: flow_ok_def)
    note c = offered_consume [OF r(3,4) o, of f]
    show ?case unfolding require_def if_P [OF s] rbind.simps
      by (rule ensures_bind [OF minus_out [OF t f(2)]], use 1 in blast, rule ensures_bind [OF minus_amt [OF r(3,1) f(1)]], use 1 in blast)
        (use 1 c t in \<open>simp add: amt_signum taker_left\<close>)
  qed
qed

text \<open>
  C21. A bridged crossing balances: the XRP that leaves the first offer is the XRP that enters the second, each leg
  stays within its offer, the input within what the taker has left to pay and, when buying, the output within what
  the taker wants; an amount out of range is the only error, so the check of the balance never fails.
\<close>

theorem bridge_balances:
  assumes t: "taker_ok ii io t" "cross_type t = IouToIou" "\<not> isNative_issue ii" "\<not> isNative_issue io"
    and o: "offered ii xrpIssue offer1" "offered xrpIssue io offer2" and nd: "is_done get_funds t = Ok False"
    and f1: "get_funds (taker_account t) (in_a offer1) = Ok f1" "amt ii f1" and f2: "get_funds owner2 (out_a offer2) = Ok f2" "amt io f2"
    and f3: "get_funds owner1 (out_a offer1) = Ok f3" "amt xrpIssue f3"
  shows "ensures (do_cross_bridged get_funds offer1 q1 owner1 offer2 q2 owner2 t) (\<lambda>((g1, g2), t'). taker_ok ii io t' \<and>
    denote (out_a (order g1)) = denote (in_a (order g2)) \<and> no_larger (order g1) offer1 \<and> no_larger (order g2) offer2 \<and>
    denote (in_a (order g1)) \<le> denote (in_a (remaining t)) \<and> (\<not> sell t \<longrightarrow> denote (out_a (order g2)) \<le> denote (out_a (remaining t))))"
proof -
  have r: "amt ii (in_a (remaining t))" "\<not> sell t \<Longrightarrow> amt io (out_a (remaining t))" "issue_ok ii" "issue_ok io"
    using t by (auto simp: taker_ok_def)
  have a: "amt ii (in_a offer1)" "amt xrpIssue (out_a offer1)" "amt xrpIssue (in_a offer2)" "amt io (out_a offer2)"
    using o by (auto simp: offered_def)
  have x: "isNative_issue xrpIssue" "\<not> isXRP_issue ii" "\<not> isXRP_issue io"
    using t(3,4) by (auto simp: isNative_issue_def isNative_cur_def issue_defs isXRP_issue_def isXRP_cur_def)
  have n: "\<not> mIsNative (in_a offer1)" "mIsNative (out_a offer1)" "mIsNative (in_a offer2)" "\<not> mIsNative (out_a offer2)"
    using amt_wf a t(3,4) x(1) by blast+
  have fu: "ensures (bridge_funds get_funds offer1 owner1 offer2 owner2 t) (\<lambda>(l1, l2, xf). amt ii l1 \<and> amt io l2 \<and> amt xrpIssue xf)"
    unfolding bridge_funds_def f1(1) f2(1) f3(1) rbind.simps
    by (intro ensures_bind [where Q = "amt ii"] ensures_bind [where Q = "amt io"] ensures_bind [where Q = "amt xrpIssue"])
      (use a f1(2) f2(2) f3(2) in \<open>auto simp: max_amt\<close>)
  show ?thesis unfolding do_cross_bridged_def nd rbind.simps
  proof (simp add: n, rule ensures_bind [OF fu], clarify, rule ensures_bind [OF taker_rates(1) [OF t(1)]], rule ensures_bind [OF taker_rates(2) [OF t(1)]],
      rule ensures_bind [OF flow_iou_to_xrp_ok [OF o(1)]], goal_cases)
    case (6 l1 l2 xf r1 r2 g1)
    then have "sanity_check g1" using flow_sane x by blast
    then show ?case
    proof (simp, rule_tac ensures_bind [OF flow_xrp_to_iou_ok [OF o(2)]], goal_cases)
      case (6 g2)
      then have s: "sanity_check g2" and g: "flow_ok ii xrpIssue g1" "flow_ok xrpIssue io g2" "rate_ok ii r1" "rate_ok io r2"
        using flow_sane x \<open>flow_ok ii xrpIssue g1 \<and> _\<close> \<open>rate_ok ii r1\<close> \<open>rate_ok io r2\<close> by blast+
      show ?case unfolding require_def if_P [OF s] rbind.simps
      proof (rule ensures_bind [OF balance_ok [OF g]], clarify, goal_cases)
        case (1 h1 h2)
        have h: "amt ii (in_a (order h1))" "amt io (out_a (order h2))" "amt xrpIssue (out_a (order h1))" "amt xrpIssue (in_a (order h2))"
          using 1 by (auto simp: flow_ok_def)
        then have "areComparable (out_a (order h1)) (in_a (order h2))" using loose_comparable amt_loose by blast
        then have e: "eq_amount (out_a (order h1)) (in_a (order h2))"
          using eq_amount_denote [of "out_a (order h1)" "in_a (order h2)"] h 1 by (simp add: amt_def)
        have le: "no_larger (order h1) offer1" "no_larger (order h2) offer2" "denote (in_a (order h1)) \<le> denote (in_a (remaining t))"
          "\<not> sell t \<longrightarrow> denote (out_a (order h2)) \<le> denote (out_a (remaining t))"
          using 1 6 \<open>flow_ok ii xrpIssue g1 \<and> _\<close> by (auto simp: no_larger_def)
        show ?case unfolding if_P [OF e] rbind.simps
          by (rule ensures_bind [OF minus_out [OF t(1) h(2) le(4)]], rule ensures_bind [OF minus_amt [OF r(3,1) h(1) le(3)]])
            (use 1 le t(1) in \<open>simp add: taker_left\<close>)
      qed
    qed (use 6 r t in auto)
  qed (use r t in auto)
qed

text \<open>
  The constructor rejects orders in the second native currency: \<open>CreateOffer::preCompute\<close> classifies an order by
  \<open>native ()\<close>, which VBC is, but the assertions of \<open>BasicTaker\<close> ask for XRP, so an order that pays VBC for an issued
  currency, or the reverse, fails an assertion.
\<close>

theorem vbc_order_asserts:
  assumes "0 < signum (in_a amount)" "0 < signum (out_a amount)" "rate_in \<noteq> 0" "rate_out \<noteq> 0"
    and "ct = XrpToIou \<and> isVBC (in_a amount) \<or> ct = IouToXrp \<and> isVBC (out_a amount)"
  shows "BasicTaker_make ct acct amount q flags rate_in rate_out = Throw AssertFailed"
proof -
  have "\<not> isXRP_issue (mIssue a)" if "isVBC a" for a
    using that by (auto simp: isVBC_def isXRP_issue_def issue_defs)
  then show ?thesis using assms by (auto simp: BasicTaker_make_def Let_def issue_in_def issue_out_def require_def)
qed

section \<open>Witnesses\<close>

text \<open>An order for a thousand of an issued currency against one XRP, and an offer of just that.\<close>

definition sample_issue :: "uint160 \<Rightarrow> Issue" where
  "sample_issue c = \<lparr>currency = c, account = 6\<rparr>"

definition sample_iou :: "uint160 \<Rightarrow> STAmount" where
  "sample_iou c = \<lparr>mIssue = sample_issue c, mValue = 1000000000000000, mOffset = -12, mIsNative = False, mIsNegative = False\<rparr>"

definition sample_xrp :: STAmount where
  "sample_xrp = \<lparr>mIssue = xrpIssue, mValue = 1000000, mOffset = 0, mIsNative = True, mIsNegative = False\<rparr>"

definition sample_taker :: "CrossType \<Rightarrow> Amounts \<Rightarrow> BasicTaker" where
  "sample_taker ct a = \<lparr>taker_account = 8, taker_quality = \<lparr>m_value = 5\<rparr>, threshold = \<lparr>m_value = 5\<rparr>, sell = False,
     original = a, remaining = a, m_rate_in = QUALITY_ONE, m_rate_out = QUALITY_ONE, cross_type = ct\<rparr>"

lemma sample_amounts: "amt xrpIssue sample_xrp" "amt (sample_issue 5) (sample_iou 5)" "amt (sample_issue 7) (sample_iou 7)"
  by (simp_all add: amt_def proper_def wf_amount_def isNative_def isXRP_def isVBC_def issue_defs sample_xrp_def sample_iou_def sample_issue_def
      canonical_issued_def)

lemma sample_issues:
  "issue_ok xrpIssue" "issue_ok (sample_issue 5)" "issue_ok (sample_issue 7)" "\<not> isNative_issue (sample_issue 5)"
  "\<not> isNative_issue (sample_issue 7)" "\<not> isXRP_issue (sample_issue 5)" "\<not> isXRP_issue (sample_issue 7)"
  by (simp_all add: issue_ok_def isNative_issue_def isXRP_issue_def issue_defs sample_issue_def native_issue_def)

lemmas sample_taker_defs = sample_taker_def sample_iou_def sample_xrp_def

lemma sample_less: "less_amount sample_xrp sample_xrp = Ok False" "less_amount (sample_iou c) (sample_iou c) = Ok False"
  by (simp_all add: less_amount_def areComparable_def)
lemma sample_minus: "\<exists>c. minus_amount sample_xrp sample_xrp = Ok c \<and> signum c = 0" "\<exists>c. minus_amount (sample_iou 5) (sample_iou 5) = Ok c"
  by (simp_all add: minus_amount_def uminus_amount_def plus_amount_def areComparable_def STAmount_unchecked_def sample_xrp_def sample_iou_def getSNValue_def
    STAmount_native_def set_mantissa_def signum_def align_up.simps STAmount_canonical_def canonicalize_def canonicalize_issued_def Let_def isNative_alt)
   (simp_all add: sample_issue_def isNative_issue_def issue_defs)

lemma sample_rate: "\<exists>r. effective_rate QUALITY_ONE i a b = Ok r \<and> rate_quality r = QUALITY_ONE"
  by (simp add: effective_rate_def Rate_make_def QUALITY_ONE_def amountFromRate_def STAmount_canonical_def canonicalize_def canonicalize_issued_def Let_def isNative_alt
      scale_up.simps scale_down.simps amount_consts) (simp add: isNative_issue_def issue_defs)

lemma sample_cross:
  "\<exists>f t'. do_cross (\<lambda>_. Ok) \<lparr>in_a = sample_xrp, out_a = sample_iou 5\<rparr> \<lparr>m_value = 5\<rparr> 9 (sample_taker XrpToIou \<lparr>in_a = sample_xrp, out_a = sample_iou 5\<rparr>) = Ok (f, t')"
proof -
  obtain c d where "minus_amount sample_xrp sample_xrp = Ok c" "signum c = 0" "minus_amount (sample_iou 5) (sample_iou 5) = Ok d" using sample_minus by blast
  moreover have "\<not> isXRP (sample_iou 5)" "\<not> mIsNegative (sample_iou 5)" "\<not> mIsNegative sample_xrp" "mValue sample_xrp \<noteq> 0" "mValue (sample_iou 5) \<noteq> 0"
    by (simp_all add: isXRP_def sample_iou_def sample_issue_def issue_defs sample_xrp_def)
  moreover obtain r where "effective_rate QUALITY_ONE (sample_issue 5) 9 8 = Ok r" "rate_quality r = QUALITY_ONE" using sample_rate by blast
  moreover have "mIssue (sample_iou 5) = sample_issue 5" by (simp add: sample_iou_def)
  ultimately show ?thesis
    by (simp add: do_cross_def is_done_def sample_taker_def signum_def flow_xrp_to_iou_def issue_out_at_def out_rate_def new_flow_def when_less_def sample_less
     rate_multiply_def set_issuer_out_def sanity_check_def STAmount_drops_def require_def)
qed

theorem cross_within_limits_witness:
  "\<exists>f t'. do_cross (\<lambda>_. Ok) \<lparr>in_a = sample_xrp, out_a = sample_iou 5\<rparr> \<lparr>m_value = 5\<rparr> 9
       (sample_taker XrpToIou \<lparr>in_a = sample_xrp, out_a = sample_iou 5\<rparr>) = Ok (f, t') \<and>
     no_larger (order f) \<lparr>in_a = sample_xrp, out_a = sample_iou 5\<rparr>"
proof -
  let ?a = "\<lparr>in_a = sample_xrp, out_a = sample_iou 5\<rparr>"
  have t: "taker_ok xrpIssue (sample_issue 5) (sample_taker XrpToIou ?a)"
    using sample_amounts sample_issues by (simp add: taker_ok_def sample_taker_def QUALITY_ONE_def) (simp add: sample_xrp_def sample_iou_def)
  have o: "offered xrpIssue (sample_issue 5) ?a" using sample_amounts by (simp add: offered_def)
  have d: "is_done (\<lambda>_. Ok) (sample_taker XrpToIou ?a) = Ok False" by (simp add: is_done_def sample_taker_defs signum_def)
  have "amt (sample_issue 5) (out_a ?a)" "amt xrpIssue (in_a ?a)" using sample_amounts by simp_all
  from cross_within_limits [OF t o d refl this(1) refl this(2), of "\<lparr>m_value = 5\<rparr>" 9] sample_cross show ?thesis by auto
qed

lemma sample_bridge:
  "case do_cross_bridged (\<lambda>_. Ok) \<lparr>in_a = sample_iou 5, out_a = sample_xrp\<rparr> \<lparr>m_value = 5\<rparr> 9
     \<lparr>in_a = sample_xrp, out_a = sample_iou 7\<rparr> \<lparr>m_value = 5\<rparr> 10 (sample_taker IouToIou \<lparr>in_a = sample_iou 5, out_a = sample_iou 7\<rparr>) of
     Inl _ \<Rightarrow> False | Inr _ \<Rightarrow> True"
  by code_simp

theorem bridge_balances_witness:
  "\<exists>g1 g2 t'. do_cross_bridged (\<lambda>_. Ok) \<lparr>in_a = sample_iou 5, out_a = sample_xrp\<rparr> \<lparr>m_value = 5\<rparr> 9
       \<lparr>in_a = sample_xrp, out_a = sample_iou 7\<rparr> \<lparr>m_value = 5\<rparr> 10 (sample_taker IouToIou \<lparr>in_a = sample_iou 5, out_a = sample_iou 7\<rparr>) =
     Ok ((g1, g2), t') \<and> denote (out_a (order g1)) = denote (in_a (order g2))"
proof -
  let ?a = "\<lparr>in_a = sample_iou 5, out_a = sample_iou 7\<rparr>"
  have t: "taker_ok (sample_issue 5) (sample_issue 7) (sample_taker IouToIou ?a)" "cross_type (sample_taker IouToIou ?a) = IouToIou"
    using sample_amounts sample_issues by (simp add: taker_ok_def sample_taker_def QUALITY_ONE_def) (simp_all add: sample_taker_defs)
  have o: "offered (sample_issue 5) xrpIssue \<lparr>in_a = sample_iou 5, out_a = sample_xrp\<rparr>" "offered xrpIssue (sample_issue 7) \<lparr>in_a = sample_xrp, out_a = sample_iou 7\<rparr>"
    using sample_amounts by (simp_all add: offered_def)
  have d: "is_done (\<lambda>_. Ok) (sample_taker IouToIou ?a) = Ok False" by (simp add: is_done_def sample_taker_defs signum_def)
  obtain g1 g2 t' where r: "do_cross_bridged (\<lambda>_. Ok) \<lparr>in_a = sample_iou 5, out_a = sample_xrp\<rparr> \<lparr>m_value = 5\<rparr> 9
       \<lparr>in_a = sample_xrp, out_a = sample_iou 7\<rparr> \<lparr>m_value = 5\<rparr> 10 (sample_taker IouToIou ?a) = Ok ((g1, g2), t')"
    using sample_bridge by (auto split: sum.splits)
  have "amt (sample_issue 5) (in_a \<lparr>in_a = sample_iou 5, out_a = sample_xrp\<rparr>)" "amt (sample_issue 7) (out_a \<lparr>in_a = sample_xrp, out_a = sample_iou 7\<rparr>)"
    "amt xrpIssue (out_a \<lparr>in_a = sample_iou 5, out_a = sample_xrp\<rparr>)" using sample_amounts by simp_all
  from bridge_balances [OF t sample_issues(4,5) o d refl this(1) refl this(2) refl this(3), where ?q1.0 = "\<lparr>m_value = 5\<rparr>" and ?q2.0 = "\<lparr>m_value = 5\<rparr>" and ?owner1.0 = 9 and ?owner2.0 = 10]
  show ?thesis unfolding r by simp
qed

theorem vbc_order_asserts_witness:
  "BasicTaker_make XrpToIou 8 \<lparr>in_a = sample_xrp\<lparr>mIssue := vbcIssue\<rparr>, out_a = sample_iou 5\<rparr> \<lparr>m_value = 5\<rparr> 0 QUALITY_ONE QUALITY_ONE = Throw AssertFailed"
  by (rule vbc_order_asserts) (simp_all add: signum_def sample_xrp_def sample_iou_def QUALITY_ONE_def isVBC_def issue_defs)

end
