(* ===== verification/EntryView.thy ===== *)
theory EntryView
  imports ApplyTable
begin

text \<open>
  The interface \<open>ApplyView\<close> (\<open>ledger/ApplyView.h\<close>) that the functions of \<open>ledger/impl/View.cpp\<close> edit the
  ledger through, as the record of its virtual functions, the laws those functions rely on (locale
  \<open>entry_view\<close>), and \<open>ApplyViewBase\<close> (\<open>ledger/impl/ApplyViewBase.cpp\<close>) as an instance.

  \<open>peek\<close> hands out a pointer to the entry of the table. Code that changes an entry through its pointer
  and calls \<open>update\<close> before or after it is modelled by one \<open>update\<close> with the changed contents, and an entry
  that is filled in after \<open>insert\<close> by inserting the filled entry: neither function looks at more of the
  entry than its key. To look again at an entry through a pointer held across another update is a second
  \<open>peek\<close>.
\<close>

record ('d, 's) ApplyView =
  av_peek :: "Keylet \<Rightarrow> 's \<Rightarrow> 'd ref option \<times> 's"
  av_insert :: "'d SLE \<Rightarrow> 's \<Rightarrow> 's res"
  av_update :: "'d ref \<Rightarrow> 's \<Rightarrow> 's res"
  av_erase :: "'d ref \<Rightarrow> 's \<Rightarrow> 's res"

text \<open>\<open>handle s k p\<close>: \<open>p\<close> is the pointer to the entry at \<open>k\<close> that the view has handed out.\<close>

locale entry_view =
  fixes av :: "('d, 's) ApplyView" and shows_map :: "'s \<Rightarrow> key \<rightharpoonup> 'd SLE" and inv :: "'s \<Rightarrow> bool"
    and handle :: "'s \<Rightarrow> key \<Rightarrow> nat \<Rightarrow> bool"
  assumes peek_law: "inv s \<Longrightarrow> av_peek av kl s = (r, s') \<Longrightarrow>
      inv s' \<and> shows_map s' = shows_map s \<and> map_option snd r = checked_lookup (shows_map s) kl \<and>
      (\<forall>p sle. r = Some (p, sle) \<longrightarrow> handle s' (sle_key sle) p) \<and> (\<forall>k p. handle s k p \<longrightarrow> handle s' k p)"
    and insert_law: "inv s \<Longrightarrow> sle_key e \<noteq> 0 \<Longrightarrow> shows_map s (sle_key e) = None \<Longrightarrow>
      \<exists>s'. av_insert av e s = Ok s' \<and> inv s' \<and> shows_map s' = (shows_map s)(sle_key e \<mapsto> e) \<and>
        (\<forall>k p. k \<noteq> sle_key e \<longrightarrow> handle s k p \<longrightarrow> handle s' k p)"
    and update_law: "inv s \<Longrightarrow> handle s (sle_key e) p \<Longrightarrow>
      \<exists>s'. av_update av (p, e) s = Ok s' \<and> inv s' \<and> shows_map s' = (shows_map s)(sle_key e \<mapsto> e) \<and>
        (\<forall>k p. handle s k p \<longrightarrow> handle s' k p)"
    and erase_law: "inv s \<Longrightarrow> handle s (sle_key e) p \<Longrightarrow>
      \<exists>s'. av_erase av (p, e) s = Ok s' \<and> inv s' \<and> shows_map s' = (shows_map s)(sle_key e := None) \<and>
        (\<forall>k p. k \<noteq> sle_key e \<longrightarrow> handle s k p \<longrightarrow> handle s' k p)"
    and keys_law: "inv s \<Longrightarrow> shows_map s k = Some e \<Longrightarrow> sle_key e = k"
begin

lemma peek_some:
  assumes "inv s" "shows_map s (kl_key k) = Some e" "keylet_check k e"
  shows "\<exists>p s'. av_peek av k s = (Some (p, e), s') \<and> inv s' \<and> shows_map s' = shows_map s \<and> handle s' (sle_key e) p \<and>
    (\<forall>k p. handle s k p \<longrightarrow> handle s' k p)"
proof -
  obtain r s' where rs: "av_peek av k s = (r, s')" by fastforce
  note l = peek_law [OF assms(1) rs]
  then have "map_option snd r = Some e" using assms(2,3) by (simp add: checked_lookup_def)
  then obtain p where "r = Some (p, e)" by auto
  then show ?thesis using rs l by auto
qed

lemma peek_none:
  assumes "inv s" "shows_map s (kl_key k) = None"
  shows "\<exists>s'. av_peek av k s = (None, s') \<and> inv s' \<and> shows_map s' = shows_map s \<and> (\<forall>k p. handle s k p \<longrightarrow> handle s' k p)"
proof -
  obtain r s' where rs: "av_peek av k s = (r, s')" by fastforce
  note l = peek_law [OF assms(1) rs]
  then have "r = None" using assms(2) by (simp add: checked_lookup_def)
  then show ?thesis using rs l by auto
qed

end

text \<open>\<open>ApplyViewBase\<close>: the table of \<open>ApplyTable\<close> over a base view.\<close>

definition apply_av :: "'d ReadView \<Rightarrow> ('d, 'd ApplyStateTable) ApplyView" where
  "apply_av base = \<lparr>av_peek = peek base, av_insert = with_ref apply_insert, av_update = update, av_erase = apply_erase\<rparr>"

definition apply_handle :: "'d ApplyStateTable \<Rightarrow> key \<Rightarrow> nat \<Rightarrow> bool" where
  "apply_handle t k p \<longleftrightarrow> (\<exists>a sle. map_of (a_items t) k = Some (a, p, sle) \<and> a \<noteq> Erase)"

lemma apply_handle_put:
  "om_ok (a_items t) \<Longrightarrow> apply_handle (t\<lparr>a_items := om_put k (a, p, sle) (a_items t)\<rparr>) k' p' \<longleftrightarrow>
    (if k' = k then p' = p \<and> a \<noteq> Erase else apply_handle t k' p')"
  by (auto simp: apply_handle_def)

lemma apply_handle_del:
  "apply_handle (t\<lparr>a_items := om_del k (a_items t)\<rparr>) k' p' \<longleftrightarrow> k' \<noteq> k \<and> apply_handle t k' p'"
  by (auto simp: apply_handle_def)

lemma apply_handle_fresh [simp]: "apply_handle (t\<lparr>a_fresh := n\<rparr>) = apply_handle t"
  by (simp add: apply_handle_def fun_eq_iff)

lemma peek_handle:
  assumes "apply_consistent t m" "peek base kl t = (r, t')" "\<And>kl sle. v_read base kl = Some sle \<Longrightarrow> sle_key sle = kl_key kl"
  shows "(r = Some (p, sle) \<longrightarrow> apply_handle t' (sle_key sle) p) \<and> (apply_handle t k q \<longrightarrow> apply_handle t' k q)"
proof (cases "map_of (a_items t) (kl_key kl)")
  case None
  have ok: "om_ok (a_items t)" using assms(1) by (simp add: apply_consistent_def)
  show ?thesis
  proof (cases "v_read base kl")
    case N: None
    then show ?thesis using None assms(2) by (auto simp: peek_def)
  next
    case (Some e)
    have k: "sle_key e = kl_key kl" using assms(3) Some by blast
    have "t' = t\<lparr>a_items := om_put (sle_key e) (Cache, a_fresh t, e) (a_items t), a_fresh := Suc (a_fresh t)\<rparr>"
      and "r = Some (a_fresh t, e)" using None Some assms(2) by (auto simp: peek_def Let_def)
    moreover have "\<not> apply_handle t (kl_key kl) q" using None by (simp add: apply_handle_def)
    ultimately show ?thesis using k ok apply_handle_put [OF ok, of "sle_key e" Cache "a_fresh t" e]
      by (auto simp: apply_handle_def)
  qed
next
  case (Some v)
  obtain a p' e where v: "v = (a, p', e)" by (cases v) auto
  have "sle_key e = kl_key kl" using apply_item(2) [OF assms(1) Some [unfolded v]] by simp
  then show ?thesis using Some v assms(2) by (cases a) (auto simp: peek_def apply_handle_def split: if_splits)
qed

lemma update_handle:
  assumes "apply_consistent t m" "apply_handle t (sle_key e) p"
  shows "\<exists>t'. update (p, e) t = Ok t' \<and> (apply_handle t k q \<longrightarrow> apply_handle t' k q)"
proof -
  have ok: "om_ok (a_items t)" using assms(1) by (simp add: apply_consistent_def)
  obtain a sle where "map_of (a_items t) (sle_key e) = Some (a, p, sle)" "a \<noteq> Erase"
    using assms(2) by (auto simp: apply_handle_def)
  then show ?thesis using ok by (cases a) (auto simp: update_def Let_def apply_handle_def)
qed

lemma erase_handle:
  assumes "apply_consistent t m" "apply_handle t (sle_key e) p"
  shows "\<exists>t'. apply_erase (p, e) t = Ok t' \<and> (k \<noteq> sle_key e \<longrightarrow> apply_handle t k q \<longrightarrow> apply_handle t' k q)"
proof -
  have ok: "om_ok (a_items t)" using assms(1) by (simp add: apply_consistent_def)
  obtain a sle where "map_of (a_items t) (sle_key e) = Some (a, p, sle)" "a \<noteq> Erase"
    using assms(2) by (auto simp: apply_handle_def)
  then show ?thesis using ok by (cases a) (auto simp: apply_erase_def Let_def apply_handle_def)
qed

lemma insert_handle:
  assumes "apply_consistent t m" "apply_insert (q, e) t = Ok t'" "k \<noteq> sle_key e" "apply_handle t k p"
  shows "apply_handle t' k p"
  using assms by (auto simp: apply_insert_def Let_def apply_handle_def apply_consistent_def split: option.splits Action.splits)

lemma read_view_key: "read_view base m \<Longrightarrow> v_read base kl = Some sle \<Longrightarrow> sle_key sle = kl_key kl"
  using read_view.read_law [of base m kl] read_view.state [of base m]
  by (auto simp: checked_lookup_def state_ok_def split: option.splits if_splits)

interpretation av: entry_view "apply_av base" "\<lambda>t. apply_overlay t m" "\<lambda>t. apply_consistent t m \<and> read_view base m" apply_handle
  for base :: "'d ReadView" and m
proof (unfold_locales, goal_cases)
  case (1 t kl r t')
  then have p: "peek base kl t = (r, t')" and c: "apply_consistent t m" and b: "read_view base m"
    by (auto simp: apply_av_def)
  then show ?case using read_view.peek_ok [OF b c p] peek_handle [OF c p read_view_key [OF b]] by blast
next
  case (2 t e)
  let ?t = "t\<lparr>a_fresh := Suc (a_fresh t)\<rparr>"
  have c: "apply_consistent ?t m" using 2(1) by simp
  obtain t' where t': "apply_insert (a_fresh t, e) ?t = Ok t'" "apply_consistent t' m"
    "apply_overlay t' m = (apply_overlay ?t m)(sle_key e \<mapsto> e)"
    using insert_ok [OF c, of "(a_fresh t, e)"] 2(2,3) by auto
  then show ?case using insert_handle [OF c t'(1)] 2(1) by (auto simp: apply_av_def with_ref_def)
next
  case (3 t e p)
  then have c: "apply_consistent t m" and b: "read_view base m" and h: "apply_handle t (sle_key e) p" by auto
  obtain t' where t': "update (p, e) t = Ok t'" using update_handle [OF c h] by blast
  then show ?case using update_handle [OF c h] read_view.update_ok [OF b c t'] b by (auto simp: apply_av_def)
next
  case (4 t e p)
  then have c: "apply_consistent t m" and b: "read_view base m" and h: "apply_handle t (sle_key e) p" by auto
  obtain t' where t': "apply_erase (p, e) t = Ok t'" using erase_handle [OF c h] by blast
  then show ?case using erase_handle [OF c h] read_view.erase_ok [OF b c t'] b by (auto simp: apply_av_def)
next
  case (5 t k e)
  then show ?case using apply_item(2) read_view.state [of base m]
    by (auto simp: apply_overlay_def state_ok_def split: option.splits Action.splits)
qed

end
