(* ===== verification/Results.thy ===== *)
theory Results
  imports Main
begin

text \<open>
  The results of transactions (\<open>protocol/TER.h\<close>) that the modelled code returns, by class: local errors, malformed
  transactions, failures, retries, success and claims of a fee.
\<close>

datatype tel_code = l_BAD_DOMAIN | l_BAD_PUBLIC_KEY | l_FAILED_PROCESSING | l_INSUF_FEE_P

datatype tem_code = m_MALFORMED | m_BAD_AMOUNT | m_BAD_CURRENCY | m_BAD_EXPIRATION | m_BAD_FEE | m_BAD_ISSUER |
  m_BAD_LIMIT | m_BAD_SEND_XRP_MAX | m_BAD_SEND_XRP_PATHS | m_BAD_SEQUENCE | m_BAD_SRC_ACCOUNT | m_BAD_TRANSFER_RATE |
  m_DST_IS_SRC | m_DST_NEEDED | m_INVALID | m_INVALID_FLAG | m_REDUNDANT | m_DISABLED | m_BAD_RELEASE_SCHEDULE |
  m_BAD_SIGNER | m_BAD_QUORUM | m_BAD_WEIGHT | m_UNKNOWN

datatype tef_code = f_FAILURE | f_ALREADY | f_BAD_AUTH | f_BAD_LEDGER | f_CREATED | f_EXCEPTION | f_INTERNAL |
  f_NO_AUTH_REQUIRED | f_PAST_SEQ | f_WRONG_PRIOR | f_MASTER_DISABLED | f_MAX_LEDGER | f_REFEREE_EXIST |
  f_REFERENCE_EXIST | f_BAD_SIGNATURE | f_BAD_QUORUM | f_NOT_MULTI_SIGNING | f_BAD_AUTH_MASTER

datatype ter_code = r_INSUF_FEE_B | r_NO_ACCOUNT | r_NO_AUTH | r_PRE_SEQ

datatype tec_code = c_UNFUNDED_PAYMENT | c_FAILED_PROCESSING | c_DIR_FULL | c_INSUF_RESERVE_LINE | c_NO_DST |
  c_NO_DST_INSUF_XRP | c_NO_LINE_INSUF_RESERVE | c_NO_LINE_REDUNDANT | c_NO_ALTERNATIVE_KEY | c_OWNERS | c_NO_AUTH |
  c_INSUFF_FEE | c_NO_TARGET | c_NO_PERMISSION | c_NO_ENTRY | c_INSUFFICIENT_RESERVE | c_NEED_MASTER_KEY | c_INTERNAL |
  c_OVERSIZE

datatype TER = tesSUCCESS | Tel tel_code | Tem tem_code | Tef tef_code | Ter ter_code | Tec tec_code

abbreviation telBAD_DOMAIN :: TER where "telBAD_DOMAIN \<equiv> Tel l_BAD_DOMAIN"
abbreviation telBAD_PUBLIC_KEY :: TER where "telBAD_PUBLIC_KEY \<equiv> Tel l_BAD_PUBLIC_KEY"
abbreviation telFAILED_PROCESSING :: TER where "telFAILED_PROCESSING \<equiv> Tel l_FAILED_PROCESSING"
abbreviation telINSUF_FEE_P :: TER where "telINSUF_FEE_P \<equiv> Tel l_INSUF_FEE_P"
abbreviation temMALFORMED :: TER where "temMALFORMED \<equiv> Tem m_MALFORMED"
abbreviation temBAD_AMOUNT :: TER where "temBAD_AMOUNT \<equiv> Tem m_BAD_AMOUNT"
abbreviation temBAD_CURRENCY :: TER where "temBAD_CURRENCY \<equiv> Tem m_BAD_CURRENCY"
abbreviation temBAD_EXPIRATION :: TER where "temBAD_EXPIRATION \<equiv> Tem m_BAD_EXPIRATION"
abbreviation temBAD_FEE :: TER where "temBAD_FEE \<equiv> Tem m_BAD_FEE"
abbreviation temBAD_ISSUER :: TER where "temBAD_ISSUER \<equiv> Tem m_BAD_ISSUER"
abbreviation temBAD_LIMIT :: TER where "temBAD_LIMIT \<equiv> Tem m_BAD_LIMIT"
abbreviation temBAD_SEND_XRP_MAX :: TER where "temBAD_SEND_XRP_MAX \<equiv> Tem m_BAD_SEND_XRP_MAX"
abbreviation temBAD_SEND_XRP_PATHS :: TER where "temBAD_SEND_XRP_PATHS \<equiv> Tem m_BAD_SEND_XRP_PATHS"
abbreviation temBAD_SEQUENCE :: TER where "temBAD_SEQUENCE \<equiv> Tem m_BAD_SEQUENCE"
abbreviation temBAD_SRC_ACCOUNT :: TER where "temBAD_SRC_ACCOUNT \<equiv> Tem m_BAD_SRC_ACCOUNT"
abbreviation temBAD_TRANSFER_RATE :: TER where "temBAD_TRANSFER_RATE \<equiv> Tem m_BAD_TRANSFER_RATE"
abbreviation temDST_IS_SRC :: TER where "temDST_IS_SRC \<equiv> Tem m_DST_IS_SRC"
abbreviation temDST_NEEDED :: TER where "temDST_NEEDED \<equiv> Tem m_DST_NEEDED"
abbreviation temINVALID :: TER where "temINVALID \<equiv> Tem m_INVALID"
abbreviation temINVALID_FLAG :: TER where "temINVALID_FLAG \<equiv> Tem m_INVALID_FLAG"
abbreviation temREDUNDANT :: TER where "temREDUNDANT \<equiv> Tem m_REDUNDANT"
abbreviation temDISABLED :: TER where "temDISABLED \<equiv> Tem m_DISABLED"
abbreviation temBAD_RELEASE_SCHEDULE :: TER where "temBAD_RELEASE_SCHEDULE \<equiv> Tem m_BAD_RELEASE_SCHEDULE"
abbreviation temBAD_SIGNER :: TER where "temBAD_SIGNER \<equiv> Tem m_BAD_SIGNER"
abbreviation temBAD_QUORUM :: TER where "temBAD_QUORUM \<equiv> Tem m_BAD_QUORUM"
abbreviation temBAD_WEIGHT :: TER where "temBAD_WEIGHT \<equiv> Tem m_BAD_WEIGHT"
abbreviation temUNKNOWN :: TER where "temUNKNOWN \<equiv> Tem m_UNKNOWN"
abbreviation tefFAILURE :: TER where "tefFAILURE \<equiv> Tef f_FAILURE"
abbreviation tefALREADY :: TER where "tefALREADY \<equiv> Tef f_ALREADY"
abbreviation tefBAD_AUTH :: TER where "tefBAD_AUTH \<equiv> Tef f_BAD_AUTH"
abbreviation tefBAD_LEDGER :: TER where "tefBAD_LEDGER \<equiv> Tef f_BAD_LEDGER"
abbreviation tefCREATED :: TER where "tefCREATED \<equiv> Tef f_CREATED"
abbreviation tefEXCEPTION :: TER where "tefEXCEPTION \<equiv> Tef f_EXCEPTION"
abbreviation tefINTERNAL :: TER where "tefINTERNAL \<equiv> Tef f_INTERNAL"
abbreviation tefNO_AUTH_REQUIRED :: TER where "tefNO_AUTH_REQUIRED \<equiv> Tef f_NO_AUTH_REQUIRED"
abbreviation tefPAST_SEQ :: TER where "tefPAST_SEQ \<equiv> Tef f_PAST_SEQ"
abbreviation tefWRONG_PRIOR :: TER where "tefWRONG_PRIOR \<equiv> Tef f_WRONG_PRIOR"
abbreviation tefMASTER_DISABLED :: TER where "tefMASTER_DISABLED \<equiv> Tef f_MASTER_DISABLED"
abbreviation tefMAX_LEDGER :: TER where "tefMAX_LEDGER \<equiv> Tef f_MAX_LEDGER"
abbreviation tefREFEREE_EXIST :: TER where "tefREFEREE_EXIST \<equiv> Tef f_REFEREE_EXIST"
abbreviation tefREFERENCE_EXIST :: TER where "tefREFERENCE_EXIST \<equiv> Tef f_REFERENCE_EXIST"
abbreviation tefBAD_SIGNATURE :: TER where "tefBAD_SIGNATURE \<equiv> Tef f_BAD_SIGNATURE"
abbreviation tefBAD_QUORUM :: TER where "tefBAD_QUORUM \<equiv> Tef f_BAD_QUORUM"
abbreviation tefNOT_MULTI_SIGNING :: TER where "tefNOT_MULTI_SIGNING \<equiv> Tef f_NOT_MULTI_SIGNING"
abbreviation tefBAD_AUTH_MASTER :: TER where "tefBAD_AUTH_MASTER \<equiv> Tef f_BAD_AUTH_MASTER"
abbreviation terINSUF_FEE_B :: TER where "terINSUF_FEE_B \<equiv> Ter r_INSUF_FEE_B"
abbreviation terNO_ACCOUNT :: TER where "terNO_ACCOUNT \<equiv> Ter r_NO_ACCOUNT"
abbreviation terNO_AUTH :: TER where "terNO_AUTH \<equiv> Ter r_NO_AUTH"
abbreviation terPRE_SEQ :: TER where "terPRE_SEQ \<equiv> Ter r_PRE_SEQ"
abbreviation tecUNFUNDED_PAYMENT :: TER where "tecUNFUNDED_PAYMENT \<equiv> Tec c_UNFUNDED_PAYMENT"
abbreviation tecFAILED_PROCESSING :: TER where "tecFAILED_PROCESSING \<equiv> Tec c_FAILED_PROCESSING"
abbreviation tecDIR_FULL :: TER where "tecDIR_FULL \<equiv> Tec c_DIR_FULL"
abbreviation tecINSUF_RESERVE_LINE :: TER where "tecINSUF_RESERVE_LINE \<equiv> Tec c_INSUF_RESERVE_LINE"
abbreviation tecNO_DST :: TER where "tecNO_DST \<equiv> Tec c_NO_DST"
abbreviation tecNO_DST_INSUF_XRP :: TER where "tecNO_DST_INSUF_XRP \<equiv> Tec c_NO_DST_INSUF_XRP"
abbreviation tecNO_LINE_INSUF_RESERVE :: TER where "tecNO_LINE_INSUF_RESERVE \<equiv> Tec c_NO_LINE_INSUF_RESERVE"
abbreviation tecNO_LINE_REDUNDANT :: TER where "tecNO_LINE_REDUNDANT \<equiv> Tec c_NO_LINE_REDUNDANT"
abbreviation tecNO_ALTERNATIVE_KEY :: TER where "tecNO_ALTERNATIVE_KEY \<equiv> Tec c_NO_ALTERNATIVE_KEY"
abbreviation tecOWNERS :: TER where "tecOWNERS \<equiv> Tec c_OWNERS"
abbreviation tecNO_AUTH :: TER where "tecNO_AUTH \<equiv> Tec c_NO_AUTH"
abbreviation tecINSUFF_FEE :: TER where "tecINSUFF_FEE \<equiv> Tec c_INSUFF_FEE"
abbreviation tecNO_TARGET :: TER where "tecNO_TARGET \<equiv> Tec c_NO_TARGET"
abbreviation tecNO_PERMISSION :: TER where "tecNO_PERMISSION \<equiv> Tec c_NO_PERMISSION"
abbreviation tecNO_ENTRY :: TER where "tecNO_ENTRY \<equiv> Tec c_NO_ENTRY"
abbreviation tecINSUFFICIENT_RESERVE :: TER where "tecINSUFFICIENT_RESERVE \<equiv> Tec c_INSUFFICIENT_RESERVE"
abbreviation tecNEED_MASTER_KEY :: TER where "tecNEED_MASTER_KEY \<equiv> Tec c_NEED_MASTER_KEY"
abbreviation tecINTERNAL :: TER where "tecINTERNAL \<equiv> Tec c_INTERNAL"
abbreviation tecOVERSIZE :: TER where "tecOVERSIZE \<equiv> Tec c_OVERSIZE"

definition isTesSuccess :: "TER \<Rightarrow> bool" where
  "isTesSuccess x \<longleftrightarrow> x = tesSUCCESS"

definition isTecClaim :: "TER \<Rightarrow> bool" where
  "isTecClaim x = (case x of Tec _ \<Rightarrow> True | _ \<Rightarrow> False)"

lemma isTecClaim_simps [simp]: "isTecClaim (Tec c)" "\<not> isTecClaim tesSUCCESS" "\<not> isTecClaim (Tel l)" "\<not> isTecClaim (Tem m)"
  "\<not> isTecClaim (Tef f)" "\<not> isTecClaim (Ter r)"
  by (simp_all add: isTecClaim_def)

end
