(* ===== verification/Directory.thy ===== *)
theory Directory
  imports EntryView Serializer Results
begin

text \<open>
  Directories (\<open>ledger/impl/View.cpp\<close>): \<open>dirAdd\<close>, \<open>dirDelete\<close>, \<open>dirIsEmpty\<close>, \<open>cdirFirst\<close>, \<open>cdirNext\<close>. A
  directory is a chain of pages of at most 32 entries, numbered from 0 (the root), each linked to its
  neighbours; the root's back link leads to the last page. A page is a ledger entry whose index is computed
  from the index of the root and its number with \<open>sha512Half\<close>, a parameter here.
\<close>

section \<open>Pages\<close>

text \<open>The fields of a ledger entry that directories use; an absent number is 0, an absent vector empty.\<close>

record 'x DirPage =
  sfRootIndex :: uint256
  sfIndexes :: "uint256 list"
  sfIndexNext :: u64
  sfIndexPrevious :: u64
  sfOther :: 'x

type_synonym 'x page = "'x DirPage SLE"

definition DIR_NODE_MAX :: nat where "DIR_NODE_MAX = 32"

definition spaceDirNode :: nat where "spaceDirNode = 100"

definition getDirNodeIndex :: "(blob \<Rightarrow> uint256) \<Rightarrow> uint256 \<Rightarrow> u64 \<Rightarrow> uint256" where
  "getDirNodeIndex sha uDirRoot uNodeIndex =
     (if uNodeIndex = 0 then uDirRoot
      else sha (nat_bytes 2 spaceDirNode @ word_bytes uDirRoot @ word_bytes uNodeIndex))"

definition page_keylet :: "(blob \<Rightarrow> uint256) \<Rightarrow> uint256 \<Rightarrow> u64 \<Rightarrow> Keylet" where
  "page_keylet sha dir n = \<lparr>kl_type = ltDIR_NODE, kl_key = getDirNodeIndex sha dir n\<rparr>"

text \<open>A new page; \<open>blank\<close> stands for the other fields of a new entry.\<close>

definition make_page :: "(blob \<Rightarrow> uint256) \<Rightarrow> uint256 \<Rightarrow> u64 \<Rightarrow> uint256 list \<Rightarrow> u64 \<Rightarrow> 'x \<Rightarrow> 'x page" where
  "make_page sha dir n es prev other =
     \<lparr>sle_key = getDirNodeIndex sha dir n, sle_type = ltDIR_NODE,
      sle_data = \<lparr>sfRootIndex = dir, sfIndexes = es, sfIndexNext = 0, sfIndexPrevious = prev, sfOther = other\<rparr>\<rparr>"

abbreviation set_indexes :: "uint256 list \<Rightarrow> 'x page \<Rightarrow> 'x page" where
  "set_indexes es p \<equiv> p\<lparr>sle_data := (sle_data p)\<lparr>sfIndexes := es\<rparr>\<rparr>"

abbreviation set_next :: "u64 \<Rightarrow> 'x page \<Rightarrow> 'x page" where
  "set_next n p \<equiv> p\<lparr>sle_data := (sle_data p)\<lparr>sfIndexNext := n\<rparr>\<rparr>"

abbreviation set_previous :: "u64 \<Rightarrow> 'x page \<Rightarrow> 'x page" where
  "set_previous n p \<equiv> p\<lparr>sle_data := (sle_data p)\<lparr>sfIndexPrevious := n\<rparr>\<rparr>"

section \<open>Adding an entry\<close>

definition peek_page :: "(blob \<Rightarrow> uint256) \<Rightarrow> ('x DirPage, 's) ApplyView \<Rightarrow> uint256 \<Rightarrow> u64 \<Rightarrow> 's \<Rightarrow> (nat \<times> 'x page) option \<times> 's" where
  "peek_page sha av dir n s = av_peek av (page_keylet sha dir n) s"

text \<open>\<open>assert (sle)\<close> after \<open>peek\<close>.\<close>

definition require_page :: "(nat \<times> 'x page) option \<times> 's \<Rightarrow> ((nat \<times> 'x page) \<times> 's) res" where
  "require_page r = (case r of (None, _) \<Rightarrow> Throw AssertFailed | (Some p, s) \<Rightarrow> Ok (p, s))"

text \<open>The page that \<open>dirAdd\<close> tries first: the last one.\<close>

definition last_page :: "(blob \<Rightarrow> uint256) \<Rightarrow> ('x DirPage, 's) ApplyView \<Rightarrow> uint256 \<Rightarrow> nat \<times> 'x page \<Rightarrow> 's \<Rightarrow> ((nat \<times> 'x page) \<times> 's) res" where
  "last_page sha av uRootIndex root' s =
     (let uNodeDir = sfIndexPrevious (sle_data (snd root')) in
      if uNodeDir \<noteq> 0 then require_page (peek_page sha av uRootIndex uNodeDir s) else Ok (root', s))"

definition dirAdd :: "(blob \<Rightarrow> uint256) \<Rightarrow> ('x DirPage, 's) ApplyView \<Rightarrow> 'x \<Rightarrow> uint256 \<Rightarrow> uint256 \<Rightarrow> ('x \<Rightarrow> bool \<Rightarrow> 'x) \<Rightarrow>
    's \<Rightarrow> (TER \<times> u64 \<times> 's) res" where
  "dirAdd sha av blank uRootIndex uLedgerIndex fDescriber s =
     (case peek_page sha av uRootIndex 0 s of
        (None, s) \<Rightarrow>
          rbind (av_insert av (make_page sha uRootIndex 0 [uLedgerIndex] 0 (fDescriber blank True)) s)
            (\<lambda>s. Ok (tesSUCCESS, 0, s))
      | (Some sleRoot, s) \<Rightarrow>
          rbind (last_page sha av uRootIndex sleRoot s)
            (\<lambda>((np, sleNode), s).
             let uNodeDir = sfIndexPrevious (sle_data (snd sleRoot)); svIndexes = sfIndexes (sle_data sleNode) in
             if DIR_NODE_MAX \<noteq> length svIndexes then
               rbind (av_update av (np, set_indexes (svIndexes @ [uLedgerIndex]) sleNode) s)
                 (\<lambda>s. Ok (tesSUCCESS, uNodeDir, s))
             else let uNodeDir = uNodeDir + 1 in
               if uNodeDir = 0 then Ok (tecDIR_FULL, uNodeDir, s)
               else
                 rbind (av_update av (np, set_next uNodeDir sleNode) s) (\<lambda>s.
                 rbind (require_page (peek_page sha av uRootIndex 0 s)) (\<lambda>((rp, sleRoot), s).
                 rbind (av_update av (rp, set_previous uNodeDir sleRoot) s) (\<lambda>s.
                 rbind (av_insert av (make_page sha uRootIndex uNodeDir [uLedgerIndex]
                     (if uNodeDir \<noteq> 1 then uNodeDir - 1 else 0) (fDescriber blank False)) s) (\<lambda>s.
                 Ok (tesSUCCESS, uNodeDir, s)))))))"

section \<open>Deleting an entry\<close>

text \<open>\<open>*it = svIndexes.back (); svIndexes.resize (size - 1)\<close>.\<close>

definition remove_swap :: "uint256 \<Rightarrow> uint256 list \<Rightarrow> uint256 list" where
  "remove_swap x es = butlast (es[length (takeWhile (\<lambda>y. y \<noteq> x) es) := last es])"

definition remove_entry :: "bool \<Rightarrow> uint256 \<Rightarrow> uint256 list \<Rightarrow> uint256 list" where
  "remove_entry bStable x es =
     (if length es > 1 then if bStable then remove1 x es else remove_swap x es else [])"

text \<open>What \<open>dirDelete\<close> does when the page it removed the entry from is empty.\<close>

definition emptied_root :: "(blob \<Rightarrow> uint256) \<Rightarrow> ('x DirPage, 's) ApplyView \<Rightarrow> bool \<Rightarrow> uint256 \<Rightarrow> nat \<times> 'x page \<Rightarrow> 's \<Rightarrow> 's res" where
  "emptied_root sha av bKeepRoot uRootIndex node s =
     (let uNodePrevious = sfIndexPrevious (sle_data (snd node)); uNodeNext = sfIndexNext (sle_data (snd node)) in
      if uNodePrevious = 0 then av_erase av node s
      else if bKeepRoot then Ok s
      else if uNodePrevious \<noteq> uNodeNext then Ok s
      else rbind (require_page (peek_page sha av uRootIndex uNodeNext s)) (\<lambda>(sleLast, s).
        if sfIndexes (sle_data (snd sleLast)) = [] then rbind (av_erase av node s) (av_erase av sleLast)
        else Ok s))"

definition emptied_page :: "(blob \<Rightarrow> uint256) \<Rightarrow> ('x DirPage, 's) ApplyView \<Rightarrow> bool \<Rightarrow> uint256 \<Rightarrow> nat \<times> 'x page \<Rightarrow> 's \<Rightarrow> 's res" where
  "emptied_page sha av bKeepRoot uRootIndex node s =
     (let uNodePrevious = sfIndexPrevious (sle_data (snd node)); uNodeNext = sfIndexNext (sle_data (snd node)) in
      if uNodeNext \<noteq> 0 then
        rbind (require_page (peek_page sha av uRootIndex uNodePrevious s)) (\<lambda>((pp, slePrevious), s).
        rbind (require_page (peek_page sha av uRootIndex uNodeNext s)) (\<lambda>(_, s).
        rbind (av_update av (pp, set_next uNodeNext slePrevious) s) (\<lambda>s.
        rbind (require_page (peek_page sha av uRootIndex uNodeNext s)) (\<lambda>((np, sleNext), s).
        rbind (av_update av (np, set_previous uNodePrevious sleNext) s) (av_erase av node)))))
      else if bKeepRoot \<or> uNodePrevious \<noteq> 0 then Ok s
      else rbind (require_page (peek_page sha av uRootIndex 0 s)) (\<lambda>(sleRoot, s).
        if sfIndexes (sle_data (snd sleRoot)) = [] then rbind (av_erase av sleRoot s) (av_erase av node)
        else Ok s))"

function dirDelete :: "(blob \<Rightarrow> uint256) \<Rightarrow> ('x DirPage, 's) ApplyView \<Rightarrow> bool \<Rightarrow> u64 \<Rightarrow> uint256 \<Rightarrow> uint256 \<Rightarrow> bool \<Rightarrow> bool \<Rightarrow>
    's \<Rightarrow> (TER \<times> 's) res" where
  "dirDelete sha av bKeepRoot uNodeDir uRootIndex uLedgerIndex bStable bSoft s =
     (case peek_page sha av uRootIndex uNodeDir s of
        (None, s) \<Rightarrow>
          if \<not> bSoft then Throw AssertFailed
          else if uNodeDir < 20 then dirDelete sha av bKeepRoot (uNodeDir + 1) uRootIndex uLedgerIndex bStable True s
          else Ok (tefBAD_LEDGER, s)
      | (Some (p, sleNode), s) \<Rightarrow>
          let svIndexes = sfIndexes (sle_data sleNode) in
          if uLedgerIndex \<notin> set svIndexes then
            if \<not> bSoft then Throw AssertFailed
            else if uNodeDir < 20 then dirDelete sha av bKeepRoot (uNodeDir + 1) uRootIndex uLedgerIndex bStable True s
            else Ok (tefBAD_LEDGER, s)
          else
            let svIndexes = remove_entry bStable uLedgerIndex svIndexes; node = (p, set_indexes svIndexes sleNode) in
            rbind (av_update av node s) (\<lambda>s.
            rbind (if svIndexes \<noteq> [] then Ok s
                   else if uNodeDir = 0 then emptied_root sha av bKeepRoot uRootIndex node s
                   else emptied_page sha av bKeepRoot uRootIndex node s) (\<lambda>s. Ok (tesSUCCESS, s))))"
  by pat_completeness auto
termination
  by (relation "measure (\<lambda>(sha, av, keep, n, _). 20 - unat n)")
    (auto simp: word_less_nat_alt unat_plus_if_size word_size)

declare dirDelete.simps [simp del]

section \<open>Reading a directory\<close>

definition dirIsEmpty :: "'x DirPage ReadView \<Rightarrow> Keylet \<Rightarrow> bool" where
  "dirIsEmpty view k =
     (case v_read view k of
        None \<Rightarrow> True
      | Some sleNode \<Rightarrow> sfIndexes (sle_data sleNode) = [] \<and> sfIndexNext (sle_data sleNode) = 0)"

text \<open>
  \<open>cdirNext\<close>: the page and position reached, and the entry there (\<open>None\<close> when it returns false). It
  recurses from page to page; at most \<open>fuel\<close> pages.
\<close>

fun cdirNext :: "nat \<Rightarrow> (blob \<Rightarrow> uint256) \<Rightarrow> 'x DirPage ReadView \<Rightarrow> uint256 \<Rightarrow> 'x page \<times> nat \<Rightarrow> (('x page \<times> nat) \<times> uint256 option) res" where
  "cdirNext fuel sha view uRootIndex (sleNode, uDirEntry) =
     (let svIndexes = sfIndexes (sle_data sleNode) in
      if uDirEntry > length svIndexes then Throw AssertFailed
      else if uDirEntry = length svIndexes then
        let uNodeNext = sfIndexNext (sle_data sleNode) in
        if uNodeNext = 0 then Ok ((sleNode, uDirEntry), None)
        else case v_read view (page_keylet sha uRootIndex uNodeNext) of
            None \<Rightarrow> Ok ((sleNode, 0), None)
          | Some sleNext \<Rightarrow>
              (case fuel of 0 \<Rightarrow> Throw Diverges | Suc fuel \<Rightarrow> cdirNext fuel sha view uRootIndex (sleNext, 0))
      else Ok ((sleNode, uDirEntry + 1), Some (svIndexes ! uDirEntry)))"

declare cdirNext.simps [simp del]

definition cdirFirst :: "nat \<Rightarrow> (blob \<Rightarrow> uint256) \<Rightarrow> 'x DirPage ReadView \<Rightarrow> uint256 \<Rightarrow> (('x page \<times> nat) \<times> uint256 option) res" where
  "cdirFirst fuel sha view uRootIndex =
     (case v_read view (page_keylet sha uRootIndex 0) of
        None \<Rightarrow> Throw AssertFailed
      | Some sleNode \<Rightarrow> cdirNext fuel sha view uRootIndex (sleNode, 0))"

text \<open>The loop every reader writes: \<open>if (cdirFirst (...)) do { ... } while (cdirNext (...))\<close>.\<close>

fun read_from :: "nat \<Rightarrow> (blob \<Rightarrow> uint256) \<Rightarrow> 'x DirPage ReadView \<Rightarrow> uint256 \<Rightarrow> ('x page \<times> nat) \<times> uint256 option \<Rightarrow> uint256 list res" where
  "read_from fuel sha view uRootIndex (pos, None) = Ok []"
| "read_from 0 sha view uRootIndex (pos, Some e) = Throw Diverges"
| "read_from (Suc fuel) sha view uRootIndex (pos, Some e) =
     rbind (cdirNext fuel sha view uRootIndex pos) (\<lambda>r. rbind (read_from fuel sha view uRootIndex r) (\<lambda>es. Ok (e # es)))"

definition read_directory :: "nat \<Rightarrow> (blob \<Rightarrow> uint256) \<Rightarrow> 'x DirPage ReadView \<Rightarrow> uint256 \<Rightarrow> uint256 list res" where
  "read_directory fuel sha view uRootIndex = rbind (cdirFirst fuel sha view uRootIndex) (read_from fuel sha view uRootIndex)"

end
