(* ===== verification/Directory_Inv.thy ===== *)
theory Directory_Inv
  imports Directory
begin

text \<open>
  What a directory stands for: the list of its pages, each a number with its entries, in the order of the
  links. \<open>chain\<close> says that pages of the ledger are linked this way, \<open>directory\<close> is the invariant.
\<close>

section \<open>Chains of pages\<close>

type_synonym pages = "(u64 \<times> uint256 list) list"

definition entries :: "pages \<Rightarrow> uint256 list" where
  "entries ps = concat (map snd ps)"

definition page_is :: "uint256 \<Rightarrow> 'x page option \<Rightarrow> uint256 list \<Rightarrow> u64 \<Rightarrow> u64 \<Rightarrow> bool" where
  "page_is dir sle es nx pv \<longleftrightarrow> (\<exists>e. sle = Some e \<and> sle_type e = ltDIR_NODE \<and> sfRootIndex (sle_data e) = dir \<and>
     sfIndexes (sle_data e) = es \<and> sfIndexNext (sle_data e) = nx \<and> sfIndexPrevious (sle_data e) = pv)"

definition first_num :: "pages \<Rightarrow> u64 \<Rightarrow> u64" where
  "first_num ps nx = (case ps of [] \<Rightarrow> nx | p # _ \<Rightarrow> fst p)"

definition last_num :: "pages \<Rightarrow> u64 \<Rightarrow> u64" where
  "last_num ps pv = (if ps = [] then pv else fst (last ps))"

lemma first_num_simps [simp]: "first_num [] nx = nx" "first_num (p # ps) nx = fst p" "first_num ((ps @ [p]) @ qs) nx = first_num (ps @ [p]) 0"
  by (auto simp: first_num_def split: list.splits) (cases ps, auto)

lemma last_num_simps [simp]: "last_num [] pv = pv" "last_num (ps @ [p]) pv = fst p" "last_num [p] pv = fst p"
  by (auto simp: last_num_def)

text \<open>The pages \<open>ps\<close> are linked in order; \<open>pv\<close> is the back link of the first and \<open>nx\<close> the forward link of the last.\<close>

fun chain :: "(blob \<Rightarrow> uint256) \<Rightarrow> uint256 \<Rightarrow> (key \<rightharpoonup> 'x page) \<Rightarrow> u64 \<Rightarrow> pages \<Rightarrow> u64 \<Rightarrow> bool" where
  "chain sha dir m pv [] nx \<longleftrightarrow> True"
| "chain sha dir m pv ((n, es) # ps) nx \<longleftrightarrow>
     page_is dir (m (getDirNodeIndex sha dir n)) es (first_num ps nx) pv \<and> chain sha dir m n ps nx"

lemma chain_append: "chain sha dir m pv (as @ bs) nx \<longleftrightarrow> chain sha dir m pv as (first_num bs nx) \<and> chain sha dir m (last_num as pv) bs nx"
proof (induction as arbitrary: pv)
  case (Cons a as)
  then show ?case by (cases a; cases as) (auto simp: last_num_def)
qed simp

lemma chain_cong:
  "\<forall>n \<in> fst ` set ps. m' (getDirNodeIndex sha dir n) = m (getDirNodeIndex sha dir n) \<Longrightarrow> chain sha dir m' pv ps nx = chain sha dir m pv ps nx"
  by (induction ps arbitrary: pv) auto

definition page_keys_ok :: "(blob \<Rightarrow> uint256) \<Rightarrow> uint256 \<Rightarrow> bool" where
  "page_keys_ok sha dir \<longleftrightarrow> inj (getDirNodeIndex sha dir) \<and> (\<forall>n. getDirNodeIndex sha dir n \<noteq> 0)"

lemma pg_eq: "page_keys_ok sha dir \<Longrightarrow> getDirNodeIndex sha dir n = getDirNodeIndex sha dir k \<longleftrightarrow> n = k"
  by (auto simp: page_keys_ok_def inj_eq)

lemma chain_upd:
  "page_keys_ok sha dir \<Longrightarrow> n \<notin> fst ` set ps \<Longrightarrow> chain sha dir (m(getDirNodeIndex sha dir n := e)) pv ps nx = chain sha dir m pv ps nx"
  by (rule chain_cong) (auto simp: pg_eq)

lemma chain_in: "chain sha dir m pv ps nx \<Longrightarrow> n \<in> fst ` set ps \<Longrightarrow> m (getDirNodeIndex sha dir n) \<noteq> None"
  by (induction sha dir m pv ps nx rule: chain.induct) (auto simp: page_is_def)

text \<open>
  The invariant: pages are numbered in increasing order from the root 0, whose back link is the last page;
  pages hold at most 32 entries; no other page exists (\<open>linked\<close>); only the first and the last may be empty.
  An absent directory is the empty list.
\<close>

definition linked :: "(blob \<Rightarrow> uint256) \<Rightarrow> uint256 \<Rightarrow> (key \<rightharpoonup> 'x page) \<Rightarrow> pages \<Rightarrow> bool" where
  "linked sha dir m ps \<longleftrightarrow>
     (ps \<noteq> [] \<longrightarrow> fst (hd ps) = 0) \<and> chain sha dir m (last_num ps 0) ps 0 \<and> sorted_wrt (<) (map fst ps) \<and>
     (\<forall>p \<in> set ps. length (snd p) \<le> DIR_NODE_MAX) \<and>
     (\<forall>n. n \<notin> fst ` set ps \<longrightarrow> m (getDirNodeIndex sha dir n) = None)"

definition directory :: "(blob \<Rightarrow> uint256) \<Rightarrow> uint256 \<Rightarrow> (key \<rightharpoonup> 'x page) \<Rightarrow> pages \<Rightarrow> bool" where
  "directory sha dir m ps \<longleftrightarrow> linked sha dir m ps \<and> (\<forall>p \<in> set (butlast (tl ps)). snd p \<noteq> [])"

lemma sorted_notin: "sorted_wrt (<) (map fst (as @ (n :: u64, es) # bs)) \<Longrightarrow> n \<notin> fst ` set as \<and> n \<notin> fst ` set bs"
  by (auto simp: sorted_wrt_append)

lemma num_zero:
  assumes "linked sha dir m (as @ p # bs)"
  shows "fst p = 0 \<longleftrightarrow> as = []"
proof (cases as)
  case Nil
  then show ?thesis using assms by (simp add: linked_def)
next
  case (Cons a as')
  then have "fst a < fst p" using assms by (auto simp: linked_def sorted_wrt_append)
  then show ?thesis using Cons word_not_simps(1) by auto
qed

lemma linked_next:
  assumes "linked sha dir m (as @ p # bs)"
  shows "first_num bs 0 = 0 \<longleftrightarrow> bs = []"
  using num_zero [of sha dir m "as @ [p]" "hd bs" "tl bs"] assms by (cases bs) auto

lemma linked_last:
  assumes "linked sha dir m (as @ bs)" "as \<noteq> []"
  shows "last_num as pv = 0 \<longleftrightarrow> length as = 1"
  using num_zero [of sha dir m "butlast as" "last as" bs] assms
  by (cases as rule: rev_cases) auto

lemma last_num_ne: "as \<noteq> [] \<Longrightarrow> last_num as pv = last_num as 0"
  by (simp add: last_num_def)

lemma last_num_append: "last_num (as @ bs) pv = last_num bs (last_num as pv)"
  by (simp add: last_num_def)

lemma last_num_Cons: "last_num (p # bs) pv = last_num bs (fst p)"
  by (simp add: last_num_def)

lemma page_at:
  assumes "linked sha dir m (as @ (n, es) # bs)"
  shows "page_is dir (m (getDirNodeIndex sha dir n)) es (first_num bs 0) (if as = [] then last_num bs n else last_num as 0)"
proof (cases "as = []")
  case True
  then have "n = 0" using assms by (simp add: linked_def)
  then show ?thesis using assms True by (simp add: linked_def last_num_Cons)
next
  case False
  have "page_is dir (m (getDirNodeIndex sha dir n)) es (first_num bs 0) (last_num as (last_num (as @ (n, es) # bs) 0))"
    using assms by (simp add: linked_def chain_append)
  then show ?thesis unfolding last_num_ne [OF False, of "last_num (as @ (n, es) # bs) 0"] using False by simp
qed

section \<open>Changes\<close>

lemma page_is_set [simp]:
  "page_is dir (Some (set_indexes es' e)) es nx pv \<longleftrightarrow> es = es' \<and> page_is dir (Some e) (sfIndexes (sle_data e)) nx pv"
  "page_is dir (Some (set_next nx' e)) es nx pv \<longleftrightarrow> nx = nx' \<and> page_is dir (Some e) es (sfIndexNext (sle_data e)) pv"
  "page_is dir (Some (set_previous pv' e)) es nx pv \<longleftrightarrow> pv = pv' \<and> page_is dir (Some e) es nx (sfIndexPrevious (sle_data e))"
  by (auto simp: page_is_def)

lemma page_is_fields:
  "page_is dir (Some e) es nx pv \<Longrightarrow> sfIndexes (sle_data e) = es \<and> sfIndexNext (sle_data e) = nx \<and> sfIndexPrevious (sle_data e) = pv \<and> sle_type e = ltDIR_NODE"
  by (auto simp: page_is_def)

lemma page_is_make [simp]:
  "page_is dir (Some (make_page sha dir n es pv' other)) es' nx pv \<longleftrightarrow> es' = es \<and> nx = 0 \<and> pv = pv'"
  by (auto simp: page_is_def make_page_def)

lemma linked_create:
  assumes "page_keys_ok sha dir" "linked sha dir m []"
  shows "linked sha dir (m(getDirNodeIndex sha dir 0 \<mapsto> make_page sha dir 0 [x] 0 other)) [(0, [x])]"
  using assms by (auto simp: linked_def DIR_NODE_MAX_def pg_eq)

lemma linked_set_indexes:
  assumes k: "page_keys_ok sha dir" and d: "linked sha dir m (as @ (n, es) # bs)"
    and e: "m (getDirNodeIndex sha dir n) = Some e" and l: "length es' \<le> DIR_NODE_MAX"
  shows "linked sha dir (m(getDirNodeIndex sha dir n \<mapsto> set_indexes es' e)) (as @ (n, es') # bs)"
proof -
  let ?m = "m(getDirNodeIndex sha dir n \<mapsto> set_indexes es' e)"
  have ns: "n \<notin> fst ` set as" "n \<notin> fst ` set bs" using sorted_notin [of as n es bs] d unfolding linked_def by blast+
  have same: "last_num (as @ (n, es') # bs) 0 = last_num (as @ (n, es) # bs) 0" "first_num ((n, es') # bs) 0 = first_num ((n, es) # bs) 0"
    by (simp_all add: last_num_append last_num_Cons)
  have "chain sha dir ?m (last_num (as @ (n, es) # bs) 0) (as @ (n, es') # bs) 0"
    using d e chain_upd [OF k ns(1), of m] chain_upd [OF k ns(2), of m] page_is_fields [of dir e es]
    by (auto simp: linked_def chain_append)
  moreover have "?m (getDirNodeIndex sha dir j) = None" if "j \<notin> fst ` set (as @ (n, es') # bs)" for j
    using d that by (auto simp: linked_def pg_eq [OF k])
  ultimately show ?thesis using d l unfolding linked_def same by (auto simp: hd_append)
qed

lemma linked_remove_all:
  assumes k: "page_keys_ok sha dir" and d: "linked sha dir m ps"
  shows "(\<forall>n. n \<notin> fst ` set ps \<longrightarrow> m' (getDirNodeIndex sha dir n) = m (getDirNodeIndex sha dir n)) \<Longrightarrow>
    (\<forall>n \<in> fst ` set ps. m' (getDirNodeIndex sha dir n) = None) \<Longrightarrow> linked sha dir m' []"
  using d unfolding linked_def by (metis chain.simps(1) empty_iff list.set(1) list.simps(8) sorted_wrt.simps(1))

lemma linked_append_page:
  assumes k: "page_keys_ok sha dir" and d: "linked sha dir m (as @ [(n, es)])" and n: "n + 1 \<noteq> 0"
    and e: "m (getDirNodeIndex sha dir n) = Some e" "m1 = m(getDirNodeIndex sha dir n \<mapsto> set_next (n + 1) e)"
    and r: "m1 (getDirNodeIndex sha dir 0) = Some r" "m2 = m1(getDirNodeIndex sha dir 0 \<mapsto> set_previous (n + 1) r)"
  shows "linked sha dir (m2(getDirNodeIndex sha dir (n + 1) \<mapsto> make_page sha dir (n + 1) [x] n other))
    (as @ [(n, es), (n + 1, [x])])"
proof -
  let ?g = "getDirNodeIndex sha dir" and ?m = "m2(getDirNodeIndex sha dir (n + 1) \<mapsto> make_page sha dir (n + 1) [x] n other)"
  have lt: "n < n + 1" using n unatSuc [of n] by (simp add: word_less_nat_alt add.commute)
  have ns: "n \<notin> fst ` set as" "\<forall>p \<in> set as. fst p < n" using d by (auto simp: linked_def sorted_wrt_append)
  then have ns': "n + 1 \<notin> fst ` set as" "n + 1 \<noteq> n" using lt by (auto dest: order.strict_trans)
  have "chain sha dir ?m (n + 1) (as @ [(n, es), (n + 1, [x])]) 0"
  proof (cases as)
    case Nil
    then have "n = 0" using d by (simp add: linked_def)
    then show ?thesis using d e r Nil by (auto simp: linked_def pg_eq [OF k] page_is_def make_page_def)
  next
    case (Cons a bs)
    then obtain es0 where a: "a = (0, es0)" using d by (cases a) (simp add: linked_def)
    have z: "n \<noteq> 0" "0 \<notin> fst ` set bs" using d Cons a by (auto simp: linked_def sorted_wrt_append)
    have r0: "m (?g 0) = Some r" using r(1) e(2) z by (simp add: pg_eq [OF k])
    have c: "page_is dir (Some r) es0 (first_num (bs @ [(n, es)]) 0) n" "chain sha dir m 0 bs n"
      "page_is dir (Some e) es 0 (last_num bs 0)"
      using d r0 e(1) unfolding linked_def Cons a by (auto simp: last_num_def chain_append)
    have f: "first_num (bs @ [(n, es), (n + 1, [x])]) 0 = first_num (bs @ [(n, es)]) 0" by (cases bs) auto
    have "chain sha dir ?m 0 bs n = chain sha dir m 0 bs n"
    proof (intro chain_cong ballI)
      fix j assume j: "j \<in> fst ` set bs"
      then have "j \<in> fst ` set as" using Cons by simp
      then have "j \<noteq> n" "j \<noteq> n + 1" "j \<noteq> 0" using ns(1) ns'(1) z(2) j by blast+
      then show "?m (?g j) = m (?g j)" unfolding e(2) r(2) by (simp add: pg_eq [OF k])
    qed
    then show ?thesis using c z n ns' r(2) e(2) unfolding Cons a by (auto simp: f chain_append pg_eq [OF k] page_is_fields)
  qed
  moreover have "?m (?g j) = None" if "j \<notin> fst ` set (as @ [(n, es), (n + 1, [x])])" for j
  proof -
    have "j \<noteq> 0" using that d by (cases as) (auto simp: linked_def)
    then show ?thesis using d that unfolding e(2) r(2) by (auto simp: linked_def pg_eq [OF k])
  qed
  moreover have "sorted_wrt (<) (map fst (as @ [(n, es), (n + 1, [x])]))"
    using d lt by (auto simp: linked_def sorted_wrt_append dest: order.strict_trans)
  ultimately show ?thesis using d by (auto simp: linked_def DIR_NODE_MAX_def last_num_append last_num_Cons hd_append)
qed


lemma linked_unlink:
  assumes k: "page_keys_ok sha dir" and d: "linked sha dir m (as @ (n, es) # bs)" and ne: "as \<noteq> []" "bs \<noteq> []"
    and p: "m (getDirNodeIndex sha dir (last_num as 0)) = Some pe"
      "m1 = m(getDirNodeIndex sha dir (last_num as 0) \<mapsto> set_next (first_num bs 0) pe)"
    and q: "m1 (getDirNodeIndex sha dir (first_num bs 0)) = Some qe"
      "m2 = m1(getDirNodeIndex sha dir (first_num bs 0) \<mapsto> set_previous (last_num as 0) qe)"
  shows "linked sha dir (m2(getDirNodeIndex sha dir n := None)) (as @ bs)"
proof -
  let ?g = "getDirNodeIndex sha dir"
  define mm where "mm = m2(?g n := None)"
  obtain as' pn ep where as: "as = as' @ [(pn, ep)]" using ne(1) by (metis rev_exhaust surj_pair)
  obtain qn eq bs' where bs: "bs = (qn, eq) # bs'" using ne(2) by (metis neq_Nil_conv surj_pair)
  let ?L = "last_num (as @ bs) 0"
  have L: "last_num (as @ (n, es) # bs) 0 = ?L" unfolding bs by (simp add: last_num_append last_num_Cons)
  have srt: "sorted_wrt (<) (map fst (as' @ (pn, ep) # (n, es) # (qn, eq) # bs'))" using d as bs by (simp add: linked_def)
  then have nums: "pn < n" "n < qn" "pn < qn" "\<forall>x \<in> set as'. fst x < pn \<and> fst x < n \<and> fst x < qn" "\<forall>x \<in> set bs'. pn < fst x \<and> n < fst x \<and> qn < fst x"
    by (auto simp: sorted_wrt_append)
  then have neq: "pn \<noteq> n" "qn \<noteq> n" "qn \<noteq> pn" by auto
  have cc: "chain sha dir m ?L (as' @ (pn, ep) # (n, es) # (qn, eq) # bs') 0"
    using d unfolding linked_def L by (simp add: as bs)
  have c: "chain sha dir m ?L as' pn" "page_is dir (m (?g pn)) ep n (last_num as' ?L)"
    "page_is dir (m (?g qn)) eq (first_num bs' 0) n" "chain sha dir m qn bs' 0"
    using cc by (simp_all add: chain_append)
  have pe: "m (?g pn) = Some pe" and qe: "m (?g qn) = Some qe"
    using p(1) q(1) p(2) neq as bs by (auto simp: pg_eq [OF k])
  have m3: "mm (?g j) = (if j = n then None else if j = pn then Some (set_next qn pe) else if j = qn then Some (set_previous pn qe) else m (?g j))" for j
    using neq unfolding mm_def q(2) p(2) as bs by (auto simp: pg_eq [OF k])
  have away: "\<forall>j \<in> fst ` set as'. mm (?g j) = m (?g j)" "\<forall>j \<in> fst ` set bs'. mm (?g j) = m (?g j)"
    using nums unfolding m3 by auto
  have "chain sha dir mm ?L as' pn" using c(1) chain_cong [OF away(1)] by blast
  moreover have "chain sha dir mm qn bs' 0" using c(4) chain_cong [OF away(2)] by blast
  moreover have "page_is dir (mm (?g pn)) ep qn (last_num as' ?L)" "page_is dir (mm (?g qn)) eq (first_num bs' 0) pn"
    using c(2,3) neq pe qe page_is_fields [of dir pe] page_is_fields [of dir qe] unfolding m3 by auto
  ultimately have "chain sha dir mm ?L (as @ bs) 0" unfolding as bs by (simp add: chain_append)
  moreover have "sorted_wrt (<) (map fst (as @ bs))" using srt as bs by (auto simp: sorted_wrt_append)
  moreover have "mm (?g j) = None" if "j \<notin> fst ` set (as @ bs)" for j
    using d that unfolding m3 by (auto simp: linked_def as bs)
  moreover have "fst (hd (as @ bs)) = 0" using d ne(1) by (simp add: linked_def)
  ultimately have "linked sha dir mm (as @ bs)" using d unfolding linked_def by auto
  then show ?thesis by (simp add: mm_def)
qed

end
