(* ===== verification/Directory_Ops.thy ===== *)
theory Directory_Ops
  imports Directory_Inv "HOL-Library.Multiset"
begin

text \<open>
  \<open>dirAdd\<close>, \<open>dirDelete\<close> and the reading loop on well-formed directories, for every \<open>ApplyView\<close> that obeys the
  laws of \<open>entry_view\<close>, and the properties of directories edited through \<open>ApplyViewBase\<close>.
\<close>

section \<open>Editing through any view\<close>

definition same_elsewhere :: "(blob \<Rightarrow> uint256) \<Rightarrow> uint256 \<Rightarrow> (key \<rightharpoonup> 'd) \<Rightarrow> (key \<rightharpoonup> 'd) \<Rightarrow> bool" where
  "same_elsewhere sha dir m m' \<longleftrightarrow> (\<forall>k. k \<notin> range (getDirNodeIndex sha dir) \<longrightarrow> m' k = m k)"

lemma same_elsewhere_simps [simp]: "same_elsewhere sha dir m m"
  "same_elsewhere sha dir m (m'(getDirNodeIndex sha dir n := e)) = same_elsewhere sha dir m m'"
  by (auto simp: same_elsewhere_def)

lemma sle_key_updates [simp]: "sle_key (e\<lparr>sle_data := f\<rparr>) = sle_key e" "sle_key (make_page sha dir n es pv other) = getDirNodeIndex sha dir n"
  by (simp_all add: make_page_def)

lemma entries_simps [simp]: "entries [] = []" "entries ((n, es) # ps) = es @ entries ps" "entries (as @ bs) = entries as @ entries bs"
  by (simp_all add: entries_def)

text \<open>Page \<open>n\<close> holds the entry \<open>x\<close>.\<close>

definition holds :: "pages \<Rightarrow> u64 \<Rightarrow> uint256 \<Rightarrow> bool" where
  "holds ps n x \<longleftrightarrow> (\<exists>es. (n, es) \<in> set ps \<and> x \<in> set es)"

locale dir_view = entry_view av shows_map inv handle
  for av :: "('x DirPage, 's) ApplyView" and shows_map inv handle
begin

lemma peek_page_some:
  assumes "inv s" "page_is dir (shows_map s (getDirNodeIndex sha dir n)) es nx pv"
  obtains p e s' where "peek_page sha av dir n s = (Some (p, e), s')" "inv s'" "shows_map s' = shows_map s"
    "shows_map s (getDirNodeIndex sha dir n) = Some e" "sle_key e = getDirNodeIndex sha dir n"
    "handle s' (getDirNodeIndex sha dir n) p" "\<And>k p. handle s k p \<Longrightarrow> handle s' k p"
    "sfIndexes (sle_data e) = es" "sfIndexNext (sle_data e) = nx" "sfIndexPrevious (sle_data e) = pv"
proof -
  obtain e where e: "shows_map s (getDirNodeIndex sha dir n) = Some e" "sle_type e = ltDIR_NODE"
    "sfIndexes (sle_data e) = es" "sfIndexNext (sle_data e) = nx" "sfIndexPrevious (sle_data e) = pv"
    using assms(2) by (auto simp: page_is_def)
  have k: "sle_key e = getDirNodeIndex sha dir n" using keys_law [OF assms(1) e(1)] .
  show ?thesis
    using that e k peek_some [OF assms(1), of "page_keylet sha dir n" e]
    by (auto simp: page_keylet_def keylet_check_def ltDIR_NODE_def ltANY_def ltINVALID_def ltCHILD_def peek_page_def)
qed

lemma peek_page_none:
  assumes "inv s" "shows_map s (getDirNodeIndex sha dir n) = None"
  obtains s' where "peek_page sha av dir n s = (None, s')" "inv s'" "shows_map s' = shows_map s"
  using that peek_none [OF assms(1), of "page_keylet sha dir n"] assms(2) by (auto simp: page_keylet_def peek_page_def)

lemma insert_page:
  assumes "inv s" "page_keys_ok sha dir" "shows_map s (getDirNodeIndex sha dir n) = None"
  obtains s' where "av_insert av (make_page sha dir n es pv other) s = Ok s'" "inv s'"
    "shows_map s' = (shows_map s)(getDirNodeIndex sha dir n \<mapsto> make_page sha dir n es pv other)"
  using insert_law [OF assms(1), of "make_page sha dir n es pv other"] assms(2,3) that by (auto simp: page_keys_ok_def)

section \<open>Adding\<close>

lemma dirAdd_new:
  assumes "inv s" "page_keys_ok sha dir" "linked sha dir (shows_map s) []"
  shows "\<exists>s'. dirAdd sha av blank dir x desc s = Ok (tesSUCCESS, 0, s') \<and> inv s' \<and>
    linked sha dir (shows_map s') [(0, [x])] \<and> same_elsewhere sha dir (shows_map s) (shows_map s')"
proof -
  have none: "shows_map s (getDirNodeIndex sha dir 0) = None" using assms(3) by (simp add: linked_def)
  obtain s1 where s1: "peek_page sha av dir 0 s = (None, s1)" "inv s1" "shows_map s1 = shows_map s"
    by (rule peek_page_none [OF assms(1) none])
  obtain s2 where s2: "av_insert av (make_page sha dir 0 [x] 0 (desc blank True)) s1 = Ok s2" "inv s2"
    "shows_map s2 = (shows_map s)(getDirNodeIndex sha dir 0 \<mapsto> make_page sha dir 0 [x] 0 (desc blank True))"
    using insert_page [OF s1(2) assms(2), of 0 "[x]" 0 "desc blank True"] none s1(3) by auto
  then show ?thesis using s1 linked_create [OF assms(2,3)] by (simp add: dirAdd_def)
qed

text \<open>The two peeks of \<open>dirAdd\<close> find the root and the last page.\<close>

lemma peek_last:
  assumes "inv s" "linked sha dir (shows_map s) (as @ [(n, es)])"
  obtains rp r s1 np e s2 where "peek_page sha av dir 0 s = (Some (rp, r), s1)" "sfIndexPrevious (sle_data r) = n"
    "last_page sha av dir (rp, r) s1 = Ok ((np, e), s2)"
    "inv s2" "shows_map s2 = shows_map s" "shows_map s (getDirNodeIndex sha dir n) = Some e" "sle_key e = getDirNodeIndex sha dir n"
    "handle s2 (getDirNodeIndex sha dir n) np" "sfIndexes (sle_data e) = es"
proof -
  obtain es0 nx where r0: "page_is dir (shows_map s (getDirNodeIndex sha dir 0)) es0 nx n"
    using page_at [of sha dir "shows_map s" "[]" 0 _ "tl (as @ [(n, es)])"] assms(2)
    by (cases as) (auto simp: linked_def last_num_Cons last_num_append)
  obtain rp r s1 where r: "peek_page sha av dir 0 s = (Some (rp, r), s1)" "inv s1" "shows_map s1 = shows_map s"
    "shows_map s (getDirNodeIndex sha dir 0) = Some r" "sle_key r = getDirNodeIndex sha dir 0"
    "handle s1 (getDirNodeIndex sha dir 0) rp" "sfIndexPrevious (sle_data r) = n" "sfIndexes (sle_data r) = es0"
    using peek_page_some [OF assms(1) r0] by metis
  have pn: "\<exists>nx pv. page_is dir (shows_map s (getDirNodeIndex sha dir n)) es nx pv"
    using page_at [OF assms(2)] by blast
  show ?thesis
  proof (cases "n = 0")
    case True
    then have "es = es0" using r0 pn by (auto simp: page_is_def)
    then show ?thesis using that [OF r(1,7), of rp r s1] r True by (simp add: last_page_def)
  next
    case False
    obtain nx pv where "page_is dir (shows_map s1 (getDirNodeIndex sha dir n)) es nx pv" using pn r(3) by auto
    from peek_page_some [OF r(2) this] obtain np e s2 where "peek_page sha av dir n s1 = (Some (np, e), s2)" "inv s2" "shows_map s2 = shows_map s1"
      "shows_map s1 (getDirNodeIndex sha dir n) = Some e" "sle_key e = getDirNodeIndex sha dir n"
      "handle s2 (getDirNodeIndex sha dir n) np" "sfIndexes (sle_data e) = es" by metis
    then show ?thesis using that [OF r(1,7), of np e s2] r(3,7) False by (simp add: require_page_def last_page_def)
  qed
qed

lemma dirAdd_room:
  assumes "inv s" "page_keys_ok sha dir" "linked sha dir (shows_map s) (as @ [(n, es)])" "length es \<noteq> DIR_NODE_MAX"
  shows "\<exists>s'. dirAdd sha av blank dir x desc s = Ok (tesSUCCESS, n, s') \<and> inv s' \<and>
    linked sha dir (shows_map s') (as @ [(n, es @ [x])]) \<and> same_elsewhere sha dir (shows_map s) (shows_map s')"
proof -
  obtain rp r s1 np e s2 where p: "peek_page sha av dir 0 s = (Some (rp, r), s1)" "sfIndexPrevious (sle_data r) = n"
    "last_page sha av dir (rp, r) s1 = Ok ((np, e), s2)"
    "inv s2" "shows_map s2 = shows_map s" "shows_map s (getDirNodeIndex sha dir n) = Some e" "sle_key e = getDirNodeIndex sha dir n"
    "handle s2 (getDirNodeIndex sha dir n) np" "sfIndexes (sle_data e) = es"
    by (rule peek_last [OF assms(1,3)])
  obtain s3 where s3: "av_update av (np, set_indexes (es @ [x]) e) s2 = Ok s3" "inv s3"
    "shows_map s3 = (shows_map s)(getDirNodeIndex sha dir n \<mapsto> set_indexes (es @ [x]) e)"
    using update_law [OF p(4), of "set_indexes (es @ [x]) e" np] p(5,7,8) by auto
  have "length es \<le> DIR_NODE_MAX" using assms(3) by (simp add: linked_def)
  then have "linked sha dir (shows_map s3) (as @ [(n, es @ [x])])"
    using linked_set_indexes [OF assms(2,3) p(6), of "es @ [x]"] assms(4) s3(3) by simp
  then show ?thesis using p s3 assms(4) by (simp add: dirAdd_def Let_def)
qed

lemma dirAdd_full:
  assumes "inv s" "linked sha dir (shows_map s) (as @ [(n, es)])" "length es = DIR_NODE_MAX" "n + 1 = 0"
  shows "\<exists>s'. dirAdd sha av blank dir x desc s = Ok (tecDIR_FULL, 0, s') \<and> inv s' \<and> shows_map s' = shows_map s"
proof -
  obtain rp r s1 np e s2 where "peek_page sha av dir 0 s = (Some (rp, r), s1)" "sfIndexPrevious (sle_data r) = n"
    "last_page sha av dir (rp, r) s1 = Ok ((np, e), s2)"
    "inv s2" "shows_map s2 = shows_map s" "shows_map s (getDirNodeIndex sha dir n) = Some e" "sle_key e = getDirNodeIndex sha dir n"
    "handle s2 (getDirNodeIndex sha dir n) np" "sfIndexes (sle_data e) = es"
    by (rule peek_last [OF assms(1,2)])
  then show ?thesis using assms(3,4) by (simp add: dirAdd_def Let_def)
qed

lemma dirAdd_page:
  assumes "inv s" "page_keys_ok sha dir" "linked sha dir (shows_map s) (as @ [(n, es)])" "length es = DIR_NODE_MAX" "n + 1 \<noteq> 0"
  shows "\<exists>s'. dirAdd sha av blank dir x desc s = Ok (tesSUCCESS, n + 1, s') \<and> inv s' \<and>
    linked sha dir (shows_map s') (as @ [(n, es), (n + 1, [x])]) \<and> same_elsewhere sha dir (shows_map s) (shows_map s')"
proof -
  let ?g = "getDirNodeIndex sha dir" and ?new = "make_page sha dir (n + 1) [x] n (desc blank False)"
  obtain rp r s1 np e s2 where p: "peek_page sha av dir 0 s = (Some (rp, r), s1)" "sfIndexPrevious (sle_data r) = n"
    "last_page sha av dir (rp, r) s1 = Ok ((np, e), s2)"
    "inv s2" "shows_map s2 = shows_map s" "shows_map s (?g n) = Some e" "sle_key e = ?g n" "handle s2 (?g n) np" "sfIndexes (sle_data e) = es"
    by (rule peek_last [OF assms(1,3)])
  obtain s3 where s3: "av_update av (np, set_next (n + 1) e) s2 = Ok s3" "inv s3" "shows_map s3 = (shows_map s)(?g n \<mapsto> set_next (n + 1) e)"
    using update_law [OF p(4), of "set_next (n + 1) e" np] p(5,7,8) by auto
  have "0 \<in> fst ` set (as @ [(n, es)])" using assms(3) by (cases as) (auto simp: linked_def)
  then obtain r0 es0 nx pv where "page_is dir (shows_map s (?g 0)) es0 nx pv" "shows_map s (?g 0) = Some r0"
    using page_at [of sha dir "shows_map s" "[]" 0 _ "tl (as @ [(n, es)])"] assms(3)
    by (cases as) (auto simp: linked_def page_is_def)
  then have "\<exists>es nx pv. page_is dir (shows_map s3 (?g 0)) es nx pv"
    using s3(3) p(6) by (auto simp: pg_eq [OF assms(2)] page_is_def)
  then obtain rp' r' s4 where s4: "peek_page sha av dir 0 s3 = (Some (rp', r'), s4)" "inv s4" "shows_map s4 = shows_map s3"
    "shows_map s3 (?g 0) = Some r'" "sle_key r' = ?g 0" "handle s4 (?g 0) rp'"
    using peek_page_some [OF s3(2)] by metis
  obtain s5 where s5: "av_update av (rp', set_previous (n + 1) r') s4 = Ok s5" "inv s5" "shows_map s5 = (shows_map s3)(?g 0 \<mapsto> set_previous (n + 1) r')"
    using update_law [OF s4(2), of "set_previous (n + 1) r'" rp'] s4(3,5,6) by auto
  have lk: "linked sha dir ((shows_map s5)(?g (n + 1) \<mapsto> ?new)) (as @ [(n, es), (n + 1, [x])])"
    using linked_append_page [OF assms(2,3,5) p(6) s3(3) s4(4) s5(3)] .
  have "n < n + 1" using assms(5) unatSuc [of n] by (simp add: word_less_nat_alt add.commute)
  then have "n + 1 \<notin> fst ` set (as @ [(n, es)])" using assms(3) by (auto simp: linked_def sorted_wrt_append dest: order.strict_trans)
  then have "shows_map s (?g (n + 1)) = None" using assms(3) by (simp add: linked_def)
  then have "shows_map s5 (?g (n + 1)) = None" using s5(3) s3(3) assms(5) by (simp add: pg_eq [OF assms(2)])
  then obtain s6 where s6: "av_insert av ?new s5 = Ok s6" "inv s6" "shows_map s6 = (shows_map s5)(?g (n + 1) \<mapsto> ?new)"
    using insert_page [OF s5(2) assms(2)] by metis
  have "(if n + 1 \<noteq> 1 then n + 1 - 1 else 0) = n" by simp
  then show ?thesis using p s3 s4 s5 s6 assms(4,5) lk by (simp add: dirAdd_def Let_def require_page_def)
qed

end

end
