(* ===== verification/Directory_Del.thy ===== *)
theory Directory_Del
  imports Directory_Ops
begin

text \<open>
  \<open>dirDelete\<close> on well-formed directories.
\<close>

context dir_view
begin

section \<open>Emptied pages\<close>

lemma one_page:
  assumes "sorted_wrt (<) (map fst bs)" "bs \<noteq> []"
  shows "last_num bs pv = first_num bs nx \<longleftrightarrow> length bs = 1"
proof (cases bs)
  case (Cons b cs)
  then show ?thesis using assms by (cases cs rule: rev_cases) (auto simp: last_num_def)
qed (use assms in simp)

lemma emptied_root_ok:
  assumes "inv s" "page_keys_ok sha dir" "linked sha dir (shows_map s) ((0, []) # bs)"
    and e: "shows_map s (getDirNodeIndex sha dir 0) = Some e" "sle_key e = getDirNodeIndex sha dir 0" "handle s (getDirNodeIndex sha dir 0) p"
  shows "\<exists>s'. emptied_root sha av keep dir (p, e) s = Ok s' \<and> inv s' \<and> same_elsewhere sha dir (shows_map s) (shows_map s') \<and>
    linked sha dir (shows_map s') (if bs = [] \<or> \<not> keep \<and> length bs = 1 \<and> entries bs = [] then [] else (0, []) # bs)"
proof -
  let ?g = "getDirNodeIndex sha dir"
  have f: "sfIndexPrevious (sle_data e) = last_num bs 0" "sfIndexNext (sle_data e) = first_num bs 0"
    using page_at [of sha dir "shows_map s" "[]" 0 "[]" bs] assms(3) e(1) by (auto simp: page_is_def)
  have z: "last_num bs 0 = 0 \<longleftrightarrow> bs = []"
    using linked_last [of sha dir "shows_map s" "(0, []) # bs" "[]" 0] assms(3) by (auto simp: last_num_Cons)
  obtain s1 where s1: "av_erase av (p, e) s = Ok s1" "inv s1" "shows_map s1 = (shows_map s)(?g 0 := None)"
    "\<And>k p. k \<noteq> ?g 0 \<Longrightarrow> handle s k p \<Longrightarrow> handle s1 k p"
    using erase_law [OF assms(1), of e p] e(2,3) by auto
  consider "bs = []" | "bs \<noteq> []" "keep \<or> length bs \<noteq> 1" | q qs where "bs = [(q, qs)]" "\<not> keep"
    by (cases bs; cases "tl bs") auto
  then show ?thesis
  proof cases
    case 1
    have "linked sha dir (shows_map s1) []"
      using linked_remove_all [OF assms(2,3)] s1(3) 1 by (simp add: pg_eq [OF assms(2)])
    then show ?thesis using 1 s1 f by (simp add: emptied_root_def)
  next
    case 2
    have "sorted_wrt (<) (map fst bs)" using assms(3) by (simp add: linked_def)
    then have "last_num bs 0 = first_num bs 0 \<longleftrightarrow> length bs = 1" using one_page 2(1) by blast
    then show ?thesis using 2 f z assms(1,3) by (auto simp: emptied_root_def Let_def)
  next
    case 3
    have q: "q \<noteq> 0" using z 3(1) by simp
    have "page_is dir (shows_map s (?g q)) qs 0 0" using page_at [of sha dir "shows_map s" "[(0, [])]" q qs "[]"] assms(3) 3(1) by simp
    from peek_page_some [OF assms(1) this] obtain lp le s2 where s2: "peek_page sha av dir q s = (Some (lp, le), s2)" "inv s2"
      "shows_map s2 = shows_map s" "sle_key le = ?g q" "handle s2 (?g q) lp" "\<And>k p. handle s k p \<Longrightarrow> handle s2 k p" "sfIndexes (sle_data le) = qs" by metis
    show ?thesis
    proof (cases "qs = []")
      case False
      then show ?thesis using 3 f q s2 assms(3) by (simp add: emptied_root_def require_page_def)
    next
      case True
      obtain s3 where s3: "av_erase av (p, e) s2 = Ok s3" "inv s3" "shows_map s3 = (shows_map s)(?g 0 := None)" "handle s3 (?g q) lp"
        using erase_law [OF s2(2), of e p] e(2) s2(6) [OF e(3)] s2(3,5) q by (auto simp: pg_eq [OF assms(2)])
      obtain s4 where s4: "av_erase av (lp, le) s3 = Ok s4" "inv s4" "shows_map s4 = (shows_map s)(?g 0 := None, ?g q := None)"
        using erase_law [OF s3(2), of le lp] s2(4) s3(3,4) by auto
      have "linked sha dir (shows_map s4) []"
        using linked_remove_all [OF assms(2,3)] s4(3) 3(1) by (simp add: pg_eq [OF assms(2)])
      then show ?thesis using True 3 f q s2 s3 s4 by (simp add: emptied_root_def require_page_def)
    qed
  qed
qed

lemma emptied_page_last:
  assumes "inv s" "page_keys_ok sha dir" "linked sha dir (shows_map s) (as @ [(n, [])])" "as \<noteq> []"
    and e: "shows_map s (getDirNodeIndex sha dir n) = Some e" "sle_key e = getDirNodeIndex sha dir n" "handle s (getDirNodeIndex sha dir n) p"
  shows "\<exists>s'. emptied_page sha av keep dir (p, e) s = Ok s' \<and> inv s' \<and> same_elsewhere sha dir (shows_map s) (shows_map s') \<and>
    linked sha dir (shows_map s') (if \<not> keep \<and> length as = 1 \<and> entries as = [] then [] else as @ [(n, [])])"
proof -
  let ?g = "getDirNodeIndex sha dir"
  have f: "sfIndexPrevious (sle_data e) = last_num as 0" "sfIndexNext (sle_data e) = 0"
    using page_at [OF assms(3)] e(1) assms(4) by (auto simp: page_is_def)
  have z: "last_num as 0 = 0 \<longleftrightarrow> length as = 1" using linked_last [OF assms(3,4)] .
  have n: "n \<noteq> 0" using num_zero [OF assms(3)] assms(4) by simp
  show ?thesis
  proof (cases "keep \<or> length as \<noteq> 1")
    case True
    then show ?thesis using f z assms(1,3) by (auto simp: emptied_page_def Let_def)
  next
    case False
    then obtain es0 where as: "as = [(0, es0)]" using assms(3) by (cases as) (auto simp: linked_def)
    have "page_is dir (shows_map s (?g 0)) es0 n n" using page_at [of sha dir "shows_map s" "[]" 0 es0 "[(n, [])]"] assms(3) as by simp
    from peek_page_some [OF assms(1) this] obtain rp r s2 where s2: "peek_page sha av dir 0 s = (Some (rp, r), s2)" "inv s2"
      "shows_map s2 = shows_map s" "sle_key r = ?g 0" "handle s2 (?g 0) rp" "\<And>k p. handle s k p \<Longrightarrow> handle s2 k p" "sfIndexes (sle_data r) = es0" by metis
    show ?thesis
    proof (cases "es0 = []")
      case es0: False
      then show ?thesis using False as f s2 assms(3) by (simp add: emptied_page_def require_page_def)
    next
      case es0: True
      obtain s3 where s3: "av_erase av (rp, r) s2 = Ok s3" "inv s3" "shows_map s3 = (shows_map s)(?g 0 := None)" "handle s3 (?g n) p"
        using erase_law [OF s2(2), of r rp] s2(3,4,5) s2(6) [OF e(3)] n by (auto simp: pg_eq [OF assms(2)])
      obtain s4 where s4: "av_erase av (p, e) s3 = Ok s4" "inv s4" "shows_map s4 = (shows_map s)(?g 0 := None, ?g n := None)"
        using erase_law [OF s3(2), of e p] e(2) s3(3,4) by auto
      have "linked sha dir (shows_map s4) []"
        using linked_remove_all [OF assms(2,3)] s4(3) as by (simp add: pg_eq [OF assms(2)])
      then show ?thesis using es0 False as f s2 s3 s4 by (simp add: emptied_page_def require_page_def)
    qed
  qed
qed

lemma emptied_page_inner:
  assumes "inv s" "page_keys_ok sha dir" "linked sha dir (shows_map s) (as @ (n, []) # bs)" "as \<noteq> []" "bs \<noteq> []"
    and e: "shows_map s (getDirNodeIndex sha dir n) = Some e" "sle_key e = getDirNodeIndex sha dir n" "handle s (getDirNodeIndex sha dir n) p"
  shows "\<exists>s'. emptied_page sha av keep dir (p, e) s = Ok s' \<and> inv s' \<and> same_elsewhere sha dir (shows_map s) (shows_map s') \<and>
    linked sha dir (shows_map s') (as @ bs)"
proof -
  let ?g = "getDirNodeIndex sha dir" and ?p = "last_num as 0" and ?q = "first_num bs 0"
  have f: "sfIndexPrevious (sle_data e) = ?p" "sfIndexNext (sle_data e) = ?q"
    using page_at [OF assms(3)] e(1) assms(4) by (auto simp: page_is_def)
  have q: "?q \<noteq> 0" using linked_next [OF assms(3)] assms(5) by simp
  obtain as' ep where as: "as = as' @ [(?p, ep)]" using assms(4) by (cases as rule: rev_cases) auto
  obtain eq bs' where bs: "bs = (?q, eq) # bs'" using assms(5) by (cases bs) auto
  have lk: "linked sha dir (shows_map s) (as' @ (?p, ep) # (n, []) # bs)" "linked sha dir (shows_map s) ((as @ [(n, [])]) @ (?q, eq) # bs')"
    using assms(3) as bs by (metis append.assoc append_Cons append_Nil)+
  have "(?q, eq) \<in> set bs" using bs by (metis list.set_intros(1))
  then have "?p < n" "n < ?q" "?p < ?q" using lk(1) by (auto simp: linked_def sorted_wrt_append)
  then have ne: "?p \<noteq> n" "?q \<noteq> n" "?q \<noteq> ?p" by auto
  obtain pp pe s1 where s1: "peek_page sha av dir ?p s = (Some (pp, pe), s1)" "inv s1" "shows_map s1 = shows_map s" "shows_map s (?g ?p) = Some pe"
    "sle_key pe = ?g ?p" "handle s1 (?g ?p) pp" "\<And>k p. handle s k p \<Longrightarrow> handle s1 k p"
    using peek_page_some [OF assms(1) page_at [OF lk(1)]] by metis
  obtain qp qe s2 where s2: "peek_page sha av dir ?q s1 = (Some (qp, qe), s2)" "inv s2" "shows_map s2 = shows_map s"
    "\<And>k p. handle s1 k p \<Longrightarrow> handle s2 k p"
    using peek_page_some [OF s1(2), of dir sha ?q] page_at [OF lk(2)] s1(3) by metis
  obtain s3 where s3: "av_update av (pp, set_next ?q pe) s2 = Ok s3" "inv s3" "shows_map s3 = (shows_map s)(?g ?p \<mapsto> set_next ?q pe)"
    "\<And>k p. handle s2 k p \<Longrightarrow> handle s3 k p"
    using update_law [OF s2(2), of "set_next ?q pe" pp] s2(3) s2(4) [OF s1(6)] s1(5) by auto
  have "shows_map s3 (?g ?q) = shows_map s (?g ?q)" using s3(3) ne by (simp add: pg_eq [OF assms(2)])
  then have "\<exists>es nx pv. page_is dir (shows_map s3 (?g ?q)) es nx pv" using page_at [OF lk(2)] by auto
  then obtain qp' qe' s4 where s4: "peek_page sha av dir ?q s3 = (Some (qp', qe'), s4)" "inv s4" "shows_map s4 = shows_map s3"
    "shows_map s3 (?g ?q) = Some qe'" "sle_key qe' = ?g ?q" "handle s4 (?g ?q) qp'" "\<And>k p. handle s3 k p \<Longrightarrow> handle s4 k p"
    using peek_page_some [OF s3(2)] by metis
  obtain s5 where s5: "av_update av (qp', set_previous ?p qe') s4 = Ok s5" "inv s5" "shows_map s5 = (shows_map s3)(?g ?q \<mapsto> set_previous ?p qe')"
    "\<And>k p. handle s4 k p \<Longrightarrow> handle s5 k p"
    using update_law [OF s4(2), of "set_previous ?p qe'" qp'] s4(3,5,6) by auto
  have "handle s5 (?g n) p" using e(3) s1(7) s2(4) s3(4) s4(7) s5(4) by blast
  then obtain s6 where s6: "av_erase av (p, e) s5 = Ok s6" "inv s6" "shows_map s6 = (shows_map s5)(?g n := None)"
    using erase_law [OF s5(2), of e p] e(2) by auto
  have "linked sha dir (shows_map s6) (as @ bs)"
    using linked_unlink [OF assms(2,3,4,5) s1(4) s3(3) s4(4) s5(3)] s6(3) by simp
  then show ?thesis using f q s1 s2 s3 s4 s5 s6 by (simp add: emptied_page_def Let_def require_page_def)
qed

section \<open>dirDelete\<close>

lemma remove_swap_mset:
  assumes "x \<in> set es"
  shows "mset (remove_swap x es) = mset es - {#x#}"
proof -
  let ?i = "length (takeWhile (\<lambda>y. y \<noteq> x) es)"
  have i: "?i < length es" using assms by (induction es) auto
  then have x: "es ! ?i = x" using nth_length_takeWhile by fastforce
  have "es \<noteq> []" using assms by auto
  then have l: "last (es[?i := last es]) = last es" by (cases "?i = length es - 1") (simp_all add: last_conv_nth)
  have "mset (es[?i := last es]) = mset es - {#x#} + {#last es#}"
    using i x by (simp add: mset_update)
  moreover have "mset (butlast zs) + {#last zs#} = mset zs" if "zs \<noteq> []" for zs :: "uint256 list"
    using that by (metis append_butlast_last_id mset.simps(2) mset_append mset.simps(1) add.left_neutral add_mset_add_single)
  ultimately show ?thesis using l \<open>es \<noteq> []\<close> unfolding remove_swap_def by (metis add_right_cancel list_update_nonempty)
qed

lemma remove_entry_mset: "x \<in> set es \<Longrightarrow> mset (remove_entry bStable x es) = mset es - {#x#}"
  using remove_swap_mset [of x es] by (cases es; cases "tl es") (auto simp: remove_entry_def)

lemma remove_entry_length: "x \<in> set es \<Longrightarrow> length (remove_entry bStable x es) \<le> length es"
proof -
  assume "x \<in> set es"
  then have "size (mset (remove_entry bStable x es)) \<le> size (mset es)" unfolding remove_entry_mset [OF \<open>x \<in> set es\<close>] by (simp add: size_Diff_submset)
  then show ?thesis by simp
qed

lemma remove_entry_stable: "x \<in> set es \<Longrightarrow> remove_entry True x es = remove1 x es"
  by (cases es; cases "tl es") (auto simp: remove_entry_def)

lemma inner_pages:
  "butlast (tl (as @ p # bs)) = (if as = [] then butlast bs else if bs = [] then tl as else tl as @ p # butlast bs)"
  by (cases as) (auto simp: butlast_append)

lemma emptied_ok:
  assumes "inv s" "page_keys_ok sha dir" and lk: "linked sha dir (shows_map s) (as @ (n, []) # bs)"
    and inner: "\<forall>p \<in> set (butlast (tl (as @ (n, es) # bs))). snd p \<noteq> []"
    and e: "shows_map s (getDirNodeIndex sha dir n) = Some e" "sle_key e = getDirNodeIndex sha dir n" "handle s (getDirNodeIndex sha dir n) p"
  shows "\<exists>s' ps'. (if n = 0 then emptied_root sha av keep dir (p, e) s else emptied_page sha av keep dir (p, e) s) = Ok s' \<and> inv s' \<and>
    directory sha dir (shows_map s') ps' \<and> entries ps' = entries as @ entries bs \<and> same_elsewhere sha dir (shows_map s) (shows_map s') \<and>
    (as \<noteq> [] \<and> bs \<noteq> [] \<longrightarrow> ps' = as @ bs)"
proof -
  have n0: "n = 0 \<longleftrightarrow> as = []" using num_zero [OF lk] by simp
  consider "as = []" | "as \<noteq> []" "bs = []" | "as \<noteq> []" "bs \<noteq> []" by blast
  then show ?thesis
  proof cases
    case 1
    let ?ps = "if bs = [] \<or> \<not> keep \<and> length bs = 1 \<and> entries bs = [] then [] else (0, []) # bs"
    obtain s' where s': "emptied_root sha av keep dir (p, e) s = Ok s'" "inv s'" "same_elsewhere sha dir (shows_map s) (shows_map s')"
      "linked sha dir (shows_map s') ?ps"
      using emptied_root_ok [OF assms(1,2), of bs e p keep] lk e 1 n0 by auto
    have "directory sha dir (shows_map s') ?ps" using s'(4) inner 1 by (auto simp: directory_def split: if_splits)
    then show ?thesis using s' 1 n0 by (intro exI [of _ s'] exI [of _ ?ps]) auto
  next
    case 2
    let ?ps = "if \<not> keep \<and> length as = 1 \<and> entries as = [] then [] else as @ [(n, [])]"
    obtain s' where s': "emptied_page sha av keep dir (p, e) s = Ok s'" "inv s'" "same_elsewhere sha dir (shows_map s) (shows_map s')"
      "linked sha dir (shows_map s') ?ps"
      using emptied_page_last [OF assms(1,2), of as n e p keep] lk e 2 by auto
    have "directory sha dir (shows_map s') ?ps" using s'(4) inner 2 by (auto simp: directory_def inner_pages split: if_splits)
    then show ?thesis using s' 2 n0 by (intro exI [of _ s'] exI [of _ ?ps]) auto
  next
    case 3
    obtain s' where s': "emptied_page sha av keep dir (p, e) s = Ok s'" "inv s'" "same_elsewhere sha dir (shows_map s) (shows_map s')"
      "linked sha dir (shows_map s') (as @ bs)"
      using emptied_page_inner [OF assms(1,2) lk 3 e] by blast
    have "directory sha dir (shows_map s') (as @ bs)"
      using s'(4) inner 3 unfolding directory_def inner_pages by (cases as) (auto simp: butlast_append)
    then show ?thesis using s' 3 n0 by (intro exI [of _ s'] exI [of _ "as @ bs"]) auto
  qed
qed

lemma delete_hit:
  assumes "inv s" "page_keys_ok sha dir" "directory sha dir (shows_map s) (as @ (n, es) # bs)" "x \<in> set es"
  shows "\<exists>s' ps'. dirDelete sha av keep n dir x bStable soft s = Ok (tesSUCCESS, s') \<and> inv s' \<and> directory sha dir (shows_map s') ps' \<and>
    entries ps' = entries as @ remove_entry bStable x es @ entries bs \<and> same_elsewhere sha dir (shows_map s) (shows_map s') \<and>
    (as \<noteq> [] \<and> bs \<noteq> [] \<and> es = [x] \<longrightarrow> ps' = as @ bs)"
proof -
  let ?g = "getDirNodeIndex sha dir" and ?es = "remove_entry bStable x es"
  have lk: "linked sha dir (shows_map s) (as @ (n, es) # bs)" and inner: "\<forall>p \<in> set (butlast (tl (as @ (n, es) # bs))). snd p \<noteq> []"
    using assms(3) by (auto simp: directory_def)
  obtain p e s1 where s1: "peek_page sha av dir n s = (Some (p, e), s1)" "inv s1" "shows_map s1 = shows_map s" "shows_map s (?g n) = Some e"
    "sle_key e = ?g n" "handle s1 (?g n) p" "sfIndexes (sle_data e) = es"
    using peek_page_some [OF assms(1) page_at [OF lk]] by metis
  let ?e = "set_indexes ?es e"
  obtain s2 where s2: "av_update av (p, ?e) s1 = Ok s2" "inv s2" "shows_map s2 = (shows_map s)(?g n \<mapsto> ?e)" "handle s2 (?g n) p"
    using update_law [OF s1(2), of ?e p] s1(3,5,6) by auto
  have "length ?es \<le> DIR_NODE_MAX" using lk remove_entry_length [OF assms(4), of bStable] by (auto simp: linked_def)
  then have lk2: "linked sha dir (shows_map s2) (as @ (n, ?es) # bs)"
    using linked_set_indexes [OF assms(2) lk s1(4)] s2(3) by simp
  have e2: "shows_map s2 (?g n) = Some ?e" "sle_key ?e = ?g n" using s2(3) s1(5) by auto
  have run: "dirDelete sha av keep n dir x bStable soft s =
      rbind (if ?es \<noteq> [] then Ok s2 else if n = 0 then emptied_root sha av keep dir (p, ?e) s2 else emptied_page sha av keep dir (p, ?e) s2)
        (\<lambda>s. Ok (tesSUCCESS, s))"
    using s1 s2 assms(4) by (subst dirDelete.simps) (simp add: Let_def)
  have frame: "same_elsewhere sha dir (shows_map s2) m' \<Longrightarrow> same_elsewhere sha dir (shows_map s) m'" for m' :: "key \<rightharpoonup> 'x DirPage SLE"
    using s2(3) by (auto simp: same_elsewhere_def)
  show ?thesis
  proof (cases "?es = []")
    case False
    then have "directory sha dir (shows_map s2) (as @ (n, ?es) # bs)"
      using lk2 inner unfolding directory_def inner_pages by (auto split: if_splits)
    moreover have "es \<noteq> [x]" using False by (auto simp: remove_entry_def)
    ultimately show ?thesis using False run s2(2) frame [of "shows_map s2"] by (intro exI [of _ s2] exI [of _ "as @ (n, ?es) # bs"]) simp
  next
    case True
    then show ?thesis using emptied_ok [OF s2(2) assms(2) _ inner e2 s2(4), of keep] lk2 run frame by fastforce
  qed
qed

text \<open>A page without the entry is passed over when the search is soft.\<close>

lemma delete_miss:
  assumes "inv s" "directory sha dir (shows_map s) ps" "\<not> holds ps n x"
  shows "\<exists>s'. inv s' \<and> shows_map s' = shows_map s \<and>
    dirDelete sha av keep n dir x bStable True s =
      (if n < 20 then dirDelete sha av keep (n + 1) dir x bStable True s' else Ok (tefBAD_LEDGER, s'))"
proof (cases "n \<in> fst ` set ps")
  case True
  then obtain es where "(n, es) \<in> set ps" by auto
  then obtain as bs where ps: "ps = as @ (n, es) # bs" by (auto dest: split_list)
  then have x: "x \<notin> set es" using assms(3) by (auto simp: holds_def)
  have lk: "linked sha dir (shows_map s) (as @ (n, es) # bs)" using assms(2) ps by (simp add: directory_def)
  obtain p e s1 where s1: "peek_page sha av dir n s = (Some (p, e), s1)" "inv s1" "shows_map s1 = shows_map s" "sfIndexes (sle_data e) = es"
    using peek_page_some [OF assms(1) page_at [OF lk]] by metis
  have "dirDelete sha av keep n dir x bStable True s =
      (if n < 20 then dirDelete sha av keep (n + 1) dir x bStable True s1 else Ok (tefBAD_LEDGER, s1))"
    using s1(1,4) x by (subst dirDelete.simps) simp
  then show ?thesis using s1(2,3) by blast
next
  case False
  then have none: "shows_map s (getDirNodeIndex sha dir n) = None" using assms(2) by (simp add: directory_def linked_def)
  obtain s1 where s1: "peek_page sha av dir n s = (None, s1)" "inv s1" "shows_map s1 = shows_map s"
    by (rule peek_page_none [OF assms(1) none])
  have "dirDelete sha av keep n dir x bStable True s =
      (if n < 20 then dirDelete sha av keep (n + 1) dir x bStable True s1 else Ok (tefBAD_LEDGER, s1))"
    using s1(1) by (subst dirDelete.simps) simp
  then show ?thesis using s1(2,3) by blast
qed

text \<open>A soft search finds the first of the pages from \<open>n\<close> to 20 that holds the entry.\<close>

lemma delete_soft:
  assumes "page_keys_ok sha dir"
  shows "inv s \<Longrightarrow> directory sha dir (shows_map s) ps \<Longrightarrow> n \<le> 20 \<Longrightarrow>
    (if \<exists>j. n \<le> j \<and> j \<le> 20 \<and> holds ps j x
     then \<exists>s' ps'. dirDelete sha av keep n dir x bStable True s = Ok (tesSUCCESS, s') \<and> inv s' \<and> directory sha dir (shows_map s') ps' \<and>
       mset (entries ps') = mset (entries ps) - {#x#} \<and> same_elsewhere sha dir (shows_map s) (shows_map s')
     else \<exists>s'. dirDelete sha av keep n dir x bStable True s = Ok (tefBAD_LEDGER, s') \<and> inv s' \<and> shows_map s' = shows_map s)"
proof (induction "20 - unat n" arbitrary: n s rule: less_induct)
  case less
  show ?case
  proof (cases "holds ps n x")
    case True
    then obtain es as bs where ps: "ps = as @ (n, es) # bs" "x \<in> set es" by (auto simp: holds_def dest: split_list)
    then obtain s' ps' where "dirDelete sha av keep n dir x bStable True s = Ok (tesSUCCESS, s')" "inv s'" "directory sha dir (shows_map s') ps'"
      "entries ps' = entries as @ remove_entry bStable x es @ entries bs" "same_elsewhere sha dir (shows_map s) (shows_map s')"
      using delete_hit [OF less.prems(1) assms, of as n es bs x keep bStable True] less.prems(2) by blast
    moreover have "mset (entries as @ remove_entry bStable x es @ entries bs) = mset (entries ps) - {#x#}"
      using ps by (simp add: remove_entry_mset)
    moreover have "\<exists>j. n \<le> j \<and> j \<le> 20 \<and> holds ps j x" using True less.prems(3) by blast
    ultimately show ?thesis by auto
  next
    case False
    then obtain s' where s': "inv s'" "shows_map s' = shows_map s" "dirDelete sha av keep n dir x bStable True s =
        (if n < 20 then dirDelete sha av keep (n + 1) dir x bStable True s' else Ok (tefBAD_LEDGER, s'))"
      using delete_miss [OF less.prems(1,2)] by blast
    show ?thesis
    proof (cases "n < 20")
      case n: True
      have u: "unat (n + 1) = unat n + 1" using n by (simp add: word_less_nat_alt unat_plus_if_size word_size)
      then have lt: "20 - unat (n + 1) < 20 - unat n" "n + 1 \<le> 20" using n by (auto simp: word_less_nat_alt word_le_nat_alt)
      have ex: "(\<exists>j. n \<le> j \<and> j \<le> 20 \<and> holds ps j x) \<longleftrightarrow> (\<exists>j. n + 1 \<le> j \<and> j \<le> 20 \<and> holds ps j x)"
      proof -
        have "n \<le> j \<longleftrightarrow> j = n \<or> n + 1 \<le> j" for j using u by (auto simp: word_le_nat_alt word_unat_eq_iff)
        then show ?thesis using False by auto
      qed
      have run: "dirDelete sha av keep n dir x bStable True s = dirDelete sha av keep (n + 1) dir x bStable True s'"
        using s'(3) n by simp
      have "directory sha dir (shows_map s') ps" using less.prems(2) s'(2) by simp
      from less.hyps [OF lt(1) s'(1) this lt(2)] show ?thesis unfolding ex run s'(2) .
    next
      case n: False
      then have "\<not> (\<exists>j. n \<le> j \<and> j \<le> 20 \<and> holds ps j x)" using False less.prems(3) by (metis order.trans order_antisym not_le_imp_less)
      then show ?thesis using s' n by auto
    qed
  qed
qed

end

end
