(* ===== verification/Directory_Props.thy ===== *)
theory Directory_Props
  imports Directory_Del
begin

text \<open>
  Reading a directory, and the properties of directories in a sandbox over any ledger view.
\<close>

section \<open>Reading\<close>

lemma page_read:
  assumes "\<And>kl. v_read view kl = checked_lookup m kl" "page_is dir (m (getDirNodeIndex sha dir n)) es nx pv"
  shows "\<exists>e. v_read view (page_keylet sha dir n) = Some e \<and> sfIndexes (sle_data e) = es \<and> sfIndexNext (sle_data e) = nx"
  using assms(2) unfolding assms(1)
  by (auto simp: page_is_def checked_lookup_def page_keylet_def keylet_check_def ltDIR_NODE_def ltANY_def ltINVALID_def ltCHILD_def)

text \<open>A position in the directory: what is still to be read from it.\<close>

definition reading :: "(blob \<Rightarrow> uint256) \<Rightarrow> uint256 \<Rightarrow> (key \<rightharpoonup> 'x page) \<Rightarrow> 'x page \<times> nat \<Rightarrow> pages \<Rightarrow> uint256 list \<Rightarrow> bool" where
  "reading sha dir m pos ps todo \<longleftrightarrow> sfIndexNext (sle_data (fst pos)) = first_num ps 0 \<and> (\<exists>n. chain sha dir m n ps 0) \<and>
     (\<forall>p \<in> set ps. fst p \<noteq> 0) \<and> snd pos \<le> length (sfIndexes (sle_data (fst pos))) \<and>
     todo = drop (snd pos) (sfIndexes (sle_data (fst pos))) @ entries ps"

lemma next_here:
  assumes "reading sha dir m (e, i) ps todo" "i < length (sfIndexes (sle_data e))"
  shows "\<exists>y ys. todo = y # ys \<and> cdirNext fuel sha view dir (e, i) = Ok ((e, Suc i), Some y) \<and> reading sha dir m (e, Suc i) ps ys"
  using assms by (auto simp: reading_def cdirNext.simps Cons_nth_drop_Suc [symmetric])

lemma next_entry:
  assumes "\<And>kl. v_read view kl = checked_lookup m kl"
  shows "reading sha dir m (e, i) ps todo \<Longrightarrow> length ps \<le> fuel \<Longrightarrow>
    (case todo of
       [] \<Rightarrow> \<exists>pos. cdirNext fuel sha view dir (e, i) = Ok (pos, None)
     | y # ys \<Rightarrow> \<exists>pos' ps'. cdirNext fuel sha view dir (e, i) = Ok (pos', Some y) \<and> reading sha dir m pos' ps' ys \<and> length ps' \<le> length ps)"
proof (induction ps arbitrary: e i fuel)
  case Nil
  show ?case
  proof (cases "i = length (sfIndexes (sle_data e))")
    case True
    then show ?thesis using Nil by (auto simp: cdirNext.simps reading_def)
  next
    case False
    then have "i < length (sfIndexes (sle_data e))" using Nil(1) by (simp add: reading_def)
    from next_here [OF Nil(1) this, of fuel view] show ?thesis by auto
  qed
next
  case (Cons q ps)
  obtain k ks where q: "q = (k, ks)" by fastforce
  show ?case
  proof (cases "i = length (sfIndexes (sle_data e))")
    case False
    then have "i < length (sfIndexes (sle_data e))" using Cons.prems(1) by (simp add: reading_def)
    from next_here [OF Cons.prems(1) this, of fuel view] obtain y ys where "todo = y # ys"
      "cdirNext fuel sha view dir (e, i) = Ok ((e, Suc i), Some y)" "reading sha dir m (e, Suc i) (q # ps) ys" by blast
    then show ?thesis by (simp) (rule exI [of _ "q # ps"], simp)
  next
    case True
    obtain n where c: "page_is dir (m (getDirNodeIndex sha dir k)) ks (first_num ps 0) n" "chain sha dir m k ps 0"
      using Cons.prems(1) q by (auto simp: reading_def)
    obtain e1 where e1: "v_read view (page_keylet sha dir k) = Some e1" "sfIndexes (sle_data e1) = ks" "sfIndexNext (sle_data e1) = first_num ps 0"
      using page_read [OF assms c(1)] by blast
    obtain f where f: "fuel = Suc f" "length ps \<le> f" using Cons.prems(2) by (cases fuel) auto
    have run: "cdirNext fuel sha view dir (e, i) = cdirNext f sha view dir (e1, 0)"
      using True e1(1) Cons.prems(1) q f by (subst cdirNext.simps) (simp add: reading_def)
    have "reading sha dir m (e1, 0) ps todo" using Cons.prems(1) e1 c(2) True q by (auto simp: reading_def)
    from Cons.IH [OF this f(2)] show ?thesis unfolding run by (cases todo) (simp, fastforce)
  qed
qed

lemma read_rest:
  assumes "\<And>kl. v_read view kl = checked_lookup m kl"
  shows "reading sha dir m pos ps todo \<Longrightarrow> length ps + length todo \<le> fuel \<Longrightarrow>
    rbind (cdirNext fuel sha view dir pos) (read_from fuel sha view dir) = Ok todo"
proof (induction todo arbitrary: pos ps fuel)
  case Nil
  then show ?case using next_entry [OF assms, of sha dir "fst pos" "snd pos" ps "[]" fuel] by auto
next
  case (Cons y ys)
  obtain pos' ps' where p: "cdirNext fuel sha view dir pos = Ok (pos', Some y)" "reading sha dir m pos' ps' ys" "length ps' \<le> length ps"
    using next_entry [OF assms, of sha dir "fst pos" "snd pos" ps "y # ys" fuel] Cons.prems by auto
  obtain f where f: "fuel = Suc f" "length ps' + length ys \<le> f" using Cons.prems(2) p(3) by (cases fuel) auto
  have "rbind (cdirNext f sha view dir pos') (read_from f sha view dir) = Ok ys" using Cons.IH [OF p(2) f(2)] .
  then show ?case using p(1) f(1) by auto
qed

lemma read_all:
  assumes "\<And>kl. v_read view kl = checked_lookup m kl" "linked sha dir m ps" "ps \<noteq> []" "length ps + length (entries ps) \<le> fuel"
  shows "read_directory fuel sha view dir = Ok (entries ps)"
proof -
  obtain es0 qs where ps: "ps = (0, es0) # qs" using assms(2,3) by (cases ps) (auto simp: linked_def)
  have "page_is dir (m (getDirNodeIndex sha dir 0)) es0 (first_num qs 0) (last_num qs 0)" using page_at [of sha dir m "[]" 0 es0 qs] assms(2) ps by simp
  from page_read [OF assms(1) this] obtain e where e: "v_read view (page_keylet sha dir 0) = Some e" "sfIndexes (sle_data e) = es0" "sfIndexNext (sle_data e) = first_num qs 0"
    by blast
  have nz: "\<forall>p \<in> set qs. fst p \<noteq> 0" using assms(2) ps by (auto simp: linked_def)
  have "reading sha dir m (e, 0) qs (entries ps)" using e nz assms(2) ps by (auto simp: reading_def linked_def)
  from read_rest [OF assms(1) this, of fuel] show ?thesis using e(1) assms(4) ps by (simp add: read_directory_def cdirFirst_def)
qed

section \<open>Properties\<close>

lemma holds_at: "x \<in> set es \<Longrightarrow> holds (as @ (n, es) # bs) n x"
  unfolding holds_def by (rule exI [of _ es]) simp

interpretation dv: dir_view "apply_av base" "\<lambda>t. apply_overlay t m" "\<lambda>t. apply_consistent t m \<and> read_view base m" apply_handle
  for base :: "'x DirPage ReadView" and m
  by unfold_locales

text \<open>
  C19. \<open>dirAdd\<close> appends: on a well-formed directory (or none) in a sandbox it puts the entry after all
  others, on the page whose number it returns, and keeps the directory well-formed and every other entry of
  the ledger unchanged; it returns \<open>tecDIR_FULL\<close> exactly when the last page is full and has the greatest
  number, and then changes nothing.
\<close>

theorem dirAdd_appends:
  assumes "read_view base m" "apply_consistent t m" "page_keys_ok sha dir" "directory sha dir (apply_overlay t m) ps"
  shows "\<exists>r n t'. dirAdd sha (apply_av base) blank dir x desc t = Ok (r, n, t') \<and> apply_consistent t' m \<and>
    (if ps \<noteq> [] \<and> length (snd (last ps)) = DIR_NODE_MAX \<and> fst (last ps) + 1 = 0
     then r = tecDIR_FULL \<and> apply_overlay t' m = apply_overlay t m
     else r = tesSUCCESS \<and> same_elsewhere sha dir (apply_overlay t m) (apply_overlay t' m) \<and>
       (\<exists>ps'. directory sha dir (apply_overlay t' m) ps' \<and> entries ps' = entries ps @ [x] \<and> holds ps' n x))"
proof -
  have iv: "apply_consistent t m \<and> read_view base m" using assms(1,2) by simp
  have lk: "linked sha dir (apply_overlay t m) ps" and inner: "\<forall>p \<in> set (butlast (tl ps)). snd p \<noteq> []"
    using assms(4) by (auto simp: directory_def)
  show ?thesis
  proof (cases ps rule: rev_cases)
    case Nil
    then show ?thesis using dv.dirAdd_new [OF iv assms(3), of blank x desc] lk
      by (auto simp: directory_def holds_def intro!: exI [of _ "[(0, [x])]"])
  next
    case (snoc as q)
    obtain n es where q: "q = (n, es)" by fastforce
    have l: "linked sha dir (apply_overlay t m) (as @ [(n, es)])" using lk snoc q by simp
    consider "length es \<noteq> DIR_NODE_MAX" | "length es = DIR_NODE_MAX" "n + 1 = 0" | "length es = DIR_NODE_MAX" "n + 1 \<noteq> 0" by blast
    then show ?thesis
    proof cases
      case 1
      have "directory sha dir m' (as @ [(n, es @ [x])])" if "linked sha dir m' (as @ [(n, es @ [x])])" for m' :: "key \<rightharpoonup> 'a page"
        using that inner snoc q by (cases as) (auto simp: directory_def)
      then show ?thesis using 1 snoc q dv.dirAdd_room [OF iv assms(3) l 1, of blank x desc]
        by (auto intro!: exI [of _ "as @ [(n, es @ [x])]"] holds_at)
    next
      case 2
      then show ?thesis using snoc q dv.dirAdd_full [OF iv l 2, of blank x desc] by auto
    next
      case 3
      then have "es \<noteq> []" by (auto simp: DIR_NODE_MAX_def)
      then have "directory sha dir m' (as @ [(n, es), (n + 1, [x])])" if "linked sha dir m' (as @ [(n, es), (n + 1, [x])])" for m' :: "key \<rightharpoonup> 'a page"
        using that inner snoc q by (cases as) (auto simp: directory_def butlast_append)
      then show ?thesis using 3 snoc q dv.dirAdd_page [OF iv assms(3) l 3, of blank x desc]
        holds_at [of x "[x]" "as @ [(n, es)]" "n + 1" "[]"]
        by (auto intro!: exI [of _ "as @ [(n, es), (n + 1, [x])]"])
    qed
  qed
qed

text \<open>
  C20. \<open>dirDelete\<close> removes: given a page of a well-formed directory and an entry on it, it succeeds, whatever
  its flags; exactly one occurrence of the entry is gone, the directory stays well-formed (pages that became
  empty between two others are unlinked, an emptied directory may disappear) and the rest of the ledger is
  unchanged. With \<open>bStable\<close> the order of the remaining entries is kept.
\<close>

theorem dirDelete_removes:
  assumes "read_view base m" "apply_consistent t m" "page_keys_ok sha dir" "directory sha dir (apply_overlay t m) (as @ (n, es) # bs)" "x \<in> set es"
  shows "\<exists>t' ps'. dirDelete sha (apply_av base) bKeepRoot n dir x bStable bSoft t = Ok (tesSUCCESS, t') \<and> apply_consistent t' m \<and>
    directory sha dir (apply_overlay t' m) ps' \<and> same_elsewhere sha dir (apply_overlay t m) (apply_overlay t' m) \<and>
    mset (entries ps') = mset (entries (as @ (n, es) # bs)) - {#x#} \<and>
    (bStable \<longrightarrow> entries ps' = entries as @ remove1 x es @ entries bs)"
proof -
  have iv: "apply_consistent t m \<and> read_view base m" using assms(1,2) by simp
  obtain t' ps' where "dirDelete sha (apply_av base) bKeepRoot n dir x bStable bSoft t = Ok (tesSUCCESS, t')" "apply_consistent t' m"
    "directory sha dir (apply_overlay t' m) ps'" "entries ps' = entries as @ remove_entry bStable x es @ entries bs"
    "same_elsewhere sha dir (apply_overlay t m) (apply_overlay t' m)"
    using dv.delete_hit [OF iv assms(3,4,5), of bKeepRoot bStable bSoft] by blast
  then show ?thesis using dv.remove_entry_mset [OF assms(5), of bStable] dv.remove_entry_stable [OF assms(5)]
    by (intro exI [of _ t'] exI [of _ ps']) (simp add: assms(5))
qed

text \<open>
  A soft \<open>dirDelete\<close> that starts at page \<open>n\<close>, at most 20, tries the pages up to number 20: it removes one
  occurrence of the entry when one of them holds it, and otherwise returns \<open>tefBAD_LEDGER\<close> and changes nothing,
  even when a later page holds the entry.
\<close>

theorem dirDelete_soft_search:
  assumes "read_view base m" "apply_consistent t m" "page_keys_ok sha dir" "directory sha dir (apply_overlay t m) ps" "n \<le> 20"
  shows "if \<exists>j. n \<le> j \<and> j \<le> 20 \<and> holds ps j x
     then \<exists>t' ps'. dirDelete sha (apply_av base) bKeepRoot n dir x bStable True t = Ok (tesSUCCESS, t') \<and> apply_consistent t' m \<and>
       directory sha dir (apply_overlay t' m) ps' \<and> mset (entries ps') = mset (entries ps) - {#x#}
     else \<exists>t'. dirDelete sha (apply_av base) bKeepRoot n dir x bStable True t = Ok (tefBAD_LEDGER, t') \<and> apply_overlay t' m = apply_overlay t m"
proof -
  have iv: "apply_consistent t m \<and> read_view base m" using assms(1,2) by simp
  show ?thesis using dv.delete_soft [OF assms(3) iv assms(4,5), of x bKeepRoot bStable] by (auto split: if_splits)
qed

text \<open>
  C32. Reading a directory page by page with \<open>cdirFirst\<close> and \<open>cdirNext\<close> ends and visits exactly its entries,
  in order, through the sandbox that holds it.
\<close>

theorem directory_reads_back:
  assumes "read_view base m" "apply_consistent t m" "directory sha dir (apply_overlay t m) ps" "ps \<noteq> []"
    and "length ps + length (entries ps) \<le> fuel"
  shows "read_directory fuel sha (apply_view t base) dir = Ok (entries ps)"
  using read_all [OF _ _ assms(4,5)] read_view.read_law [OF read_view.apply_layer [OF assms(1,2)]] assms(3)
  by (auto simp: directory_def)

lemma dirIsEmpty_iff:
  assumes "\<And>kl. v_read view kl = checked_lookup m kl" "linked sha dir m ps"
  shows "dirIsEmpty view (page_keylet sha dir 0) \<longleftrightarrow> ps = [] \<or> ps = [(0, [])]"
proof (cases ps)
  case Nil
  then show ?thesis using assms by (simp add: dirIsEmpty_def linked_def checked_lookup_def page_keylet_def)
next
  case (Cons q qs)
  then obtain es0 where ps: "ps = (0, es0) # qs" using assms(2) by (cases q) (auto simp: linked_def)
  have "page_is dir (m (getDirNodeIndex sha dir 0)) es0 (first_num qs 0) (last_num qs 0)" using page_at [of sha dir m "[]" 0 es0 qs] assms(2) ps by simp
  from page_read [OF assms(1) this] obtain e where "v_read view (page_keylet sha dir 0) = Some e" "sfIndexes (sle_data e) = es0" "sfIndexNext (sle_data e) = first_num qs 0"
    by blast
  moreover have "first_num qs 0 = 0 \<longleftrightarrow> qs = []" using linked_next [of sha dir m "[]" "(0, es0)" qs] assms(2) ps by simp
  ultimately show ?thesis using ps by (auto simp: dirIsEmpty_def)
qed

text \<open>
  An empty directory may stay behind and \<open>dirIsEmpty\<close> then denies that it is empty: when the root and
  the last of three pages are empty, deleting the only entry, on the page between them, unlinks that page but
  leaves the other two, against the comment that another page must be non-empty.
\<close>

theorem emptied_directory_remains:
  assumes "read_view base m" "apply_consistent t m" "page_keys_ok sha dir" "directory sha dir (apply_overlay t m) [(0, []), (n, [x]), (q, [])]"
  shows "\<exists>t'. dirDelete sha (apply_av base) bKeepRoot n dir x bStable bSoft t = Ok (tesSUCCESS, t') \<and>
    read_directory 2 sha (apply_view t' base) dir = Ok [] \<and> \<not> dirIsEmpty (apply_view t' base) (page_keylet sha dir 0)"
proof -
  have iv: "apply_consistent t m \<and> read_view base m" using assms(1,2) by simp
  obtain t' where t': "dirDelete sha (apply_av base) bKeepRoot n dir x bStable bSoft t = Ok (tesSUCCESS, t')" "apply_consistent t' m"
    "directory sha dir (apply_overlay t' m) [(0, []), (q, [])]"
    using dv.delete_hit [OF iv assms(3), of "[(0, [])]" n "[x]" "[(q, [])]" x bKeepRoot bStable bSoft] assms(4) by auto
  have rd: "v_read (apply_view t' base) kl = checked_lookup (apply_overlay t' m) kl" for kl
    using read_view.read_law [OF read_view.apply_layer [OF assms(1) t'(2)]] .
  have lk: "linked sha dir (apply_overlay t' m) [(0, []), (q, [])]" using t'(3) by (simp add: directory_def)
  show ?thesis using t'(1) read_all [OF rd lk, of 2] dirIsEmpty_iff [OF rd lk] by simp
qed

section \<open>A sample directory\<close>

definition demo_sha :: "blob \<Rightarrow> uint256" where
  "demo_sha bs = of_nat (bytes_val bs)"

lemma demo_index: "unat (getDirNodeIndex demo_sha 1 n) = (if n = 0 then 1 else 2 ^ 64 + unat n)"
proof -
  have n: "unat n < 2 ^ 64" using unsigned_less [of n, where 'a = nat] by simp
  have "bytes_val (nat_bytes 2 spaceDirNode @ word_bytes (1 :: uint256) @ word_bytes n) = 100 * 256 ^ 40 + (2 ^ 64 + unat n)"
    using n by (simp add: bytes_val_append bytes_val_nat_bytes word_bytes_def spaceDirNode_def)
  moreover have "(100 * 256 ^ 40 + (2 ^ 64 + unat n)) mod 2 ^ 256 = 2 ^ 64 + unat n"
  proof -
    have "(100 * 256 ^ 40 :: nat) = (100 * 256 ^ 8) * 2 ^ 256" by simp
    moreover have "2 ^ 64 + unat n < 2 ^ 256" using n by simp
    ultimately show ?thesis by (simp only: mod_mult_self3 mod_less)
  qed
  moreover have "unat (demo_sha bs) = bytes_val bs mod 2 ^ 256" for bs by (simp add: demo_sha_def unat_of_nat)
  ultimately have "unat (demo_sha (nat_bytes 2 spaceDirNode @ word_bytes (1 :: uint256) @ word_bytes n)) = 2 ^ 64 + unat n" by metis
  then show ?thesis by (simp add: getDirNodeIndex_def)
qed

lemma demo_keys: "page_keys_ok demo_sha 1"
proof -
  have "n = k" if "getDirNodeIndex demo_sha 1 n = getDirNodeIndex demo_sha 1 k" for n k
  proof -
    have "unat (getDirNodeIndex demo_sha 1 n) = unat (getDirNodeIndex demo_sha 1 k)" using that by simp
    then show ?thesis unfolding demo_index by (cases "n = 0"; cases "k = 0") (simp_all add: unsigned_word_eqI)
  qed
  moreover have "getDirNodeIndex demo_sha 1 n \<noteq> 0" for n
    using demo_index [of n] unat_0 by (metis add_is_0 power_not_zero zero_neq_numeral zero_neq_one)
  ultimately show ?thesis by (auto simp: page_keys_ok_def inj_def)
qed

definition demo_page :: "u64 \<Rightarrow> uint256 list \<Rightarrow> u64 \<Rightarrow> u64 \<Rightarrow> unit page" where
  "demo_page n es nx pv = set_next nx (make_page demo_sha 1 n es pv ())"

definition demo_ledger :: "(key, unit page) omap" where
  "demo_ledger = map (\<lambda>p. (sle_key p, p)) [demo_page 0 [] 1 2, demo_page 1 [7] 2 0, demo_page 2 [] 0 1]"

lemma demo_ledger_ok: "ledger_ok demo_ledger"
  using demo_index [of 0] demo_index [of 1] demo_index [of 2] demo_keys
  by (auto simp: ledger_ok_def demo_ledger_def demo_page_def om_ok_def word_less_nat_alt state_ok_def page_keys_ok_def finite_dom_map_of split: if_splits)

lemma demo_directory: "directory demo_sha 1 (map_of demo_ledger) [(0, []), (1, [7]), (2, [])]"
  by (auto simp: directory_def linked_def demo_ledger_def demo_page_def pg_eq [OF demo_keys] DIR_NODE_MAX_def page_is_def make_page_def last_num_def)

lemma demo_absent: "directory demo_sha 1 Map.empty []"
  by (simp add: directory_def linked_def)

lemmas demo_setting = ledger_read_view [OF demo_ledger_ok] apply_empty_ok(1) [of "map_of demo_ledger"] demo_keys

lemma demo_sandbox: "directory demo_sha 1 (apply_overlay apply_empty (map_of demo_ledger)) [(0, []), (1, [7]), (2, [])]"
  by (simp add: demo_directory)

theorem dirAdd_appends_witness:
  "\<exists>n t'. dirAdd demo_sha (apply_av (ledger_view demo_ledger)) () 1 9 (\<lambda>x _. x) apply_empty = Ok (tesSUCCESS, n, t') \<and>
    (\<exists>ps'. directory demo_sha 1 (apply_overlay t' (map_of demo_ledger)) ps' \<and> entries ps' = [7, 9] \<and> holds ps' n 9)"
  using dirAdd_appends [OF demo_setting demo_sandbox, of "()" 9 "\<lambda>x _. x"] by (auto simp: DIR_NODE_MAX_def)

theorem dirDelete_removes_witness:
  "\<exists>t' ps'. dirDelete demo_sha (apply_av (ledger_view demo_ledger)) False 1 1 7 True False apply_empty = Ok (tesSUCCESS, t') \<and>
    directory demo_sha 1 (apply_overlay t' (map_of demo_ledger)) ps' \<and> entries ps' = []"
  using dirDelete_removes [OF demo_setting, of "[(0, [])]" 1 "[7]" "[(2, [])]" 7 False True False] demo_sandbox by auto

theorem dirDelete_soft_search_witness:
  "(\<exists>t'. dirDelete demo_sha (apply_av (ledger_view demo_ledger)) False 0 1 7 True True apply_empty = Ok (tesSUCCESS, t')) \<and>
   (\<exists>t'. dirDelete demo_sha (apply_av (ledger_view demo_ledger)) False 2 1 7 True True apply_empty = Ok (tefBAD_LEDGER, t'))"
proof
  have "holds [(0, []), (1, [7]), (2, [])] 1 7" by (auto simp: holds_def)
  then have "\<exists>j. 0 \<le> j \<and> j \<le> (20 :: u64) \<and> holds [(0, []), (1, [7]), (2, [])] j 7" by (intro exI [of _ 1]) simp
  then show "\<exists>t'. dirDelete demo_sha (apply_av (ledger_view demo_ledger)) False 0 1 7 True True apply_empty = Ok (tesSUCCESS, t')"
    using dirDelete_soft_search [OF demo_setting demo_sandbox, of 0 7 False True] by auto
  have n: "\<not> (\<exists>j. 2 \<le> j \<and> j \<le> (20 :: u64) \<and> holds [(0, []), (1, [7]), (2, [])] j 7)" by (auto simp: holds_def word_le_nat_alt)
  have "(2 :: u64) \<le> 20" by (simp add: word_le_nat_alt)
  then show "\<exists>t'. dirDelete demo_sha (apply_av (ledger_view demo_ledger)) False 2 1 7 True True apply_empty = Ok (tefBAD_LEDGER, t')"
    using dirDelete_soft_search [OF demo_setting demo_sandbox, of 2 7 False True] unfolding if_not_P [OF n] by blast
qed

theorem directory_reads_back_witness:
  "read_directory 4 demo_sha (apply_view apply_empty (ledger_view demo_ledger)) 1 = Ok [7]"
  using directory_reads_back [OF demo_setting(1,2) demo_sandbox, of 4] by simp

theorem emptied_directory_remains_witness:
  "\<exists>t'. dirDelete demo_sha (apply_av (ledger_view demo_ledger)) False 1 1 7 True False apply_empty = Ok (tesSUCCESS, t') \<and>
    read_directory 2 demo_sha (apply_view t' (ledger_view demo_ledger)) 1 = Ok [] \<and>
    \<not> dirIsEmpty (apply_view t' (ledger_view demo_ledger)) (page_keylet demo_sha 1 0)"
  using emptied_directory_remains [OF demo_setting demo_sandbox, of False True False] by auto

end
