(* ===== verification/Indexes.thy ===== *)
theory Indexes
  imports Directory Amount
begin

unbundle bit_operations_syntax

text \<open>
  The indexes of ledger entries (\<open>protocol/impl/Indexes.cpp\<close>) and order books (\<open>protocol/Book.h\<close>). An index is
  \<open>sha512Half\<close>, a parameter \<open>sha\<close>, of a namespace and of what identifies the entry; the last eight bytes of the
  index of an order book directory or of an asset state are replaced by a quality or a time.
\<close>

section \<open>Books\<close>

record Book =
  book_in :: Issue
  book_out :: Issue

definition isConsistent_book :: "Book \<Rightarrow> bool" where
  "isConsistent_book b \<longleftrightarrow> isConsistent (book_in b) \<and> isConsistent (book_out b) \<and> \<not> eq_issue (book_in b) (book_out b)"

definition reversed_book :: "Book \<Rightarrow> Book" where
  "reversed_book b = \<lparr>book_in = book_out b, book_out = book_in b\<rparr>"

definition compare_book :: "Book \<Rightarrow> Book \<Rightarrow> int" where
  "compare_book l r =
     (let diff = compare_issue (book_in l) (book_in r) in
      if diff \<noteq> 0 then diff else compare_issue (book_out l) (book_out r))"

definition eq_book :: "Book \<Rightarrow> Book \<Rightarrow> bool" where
  "eq_book l r \<longleftrightarrow> eq_issue (book_in l) (book_in r) \<and> eq_issue (book_out l) (book_out r)"

definition less_book :: "Book \<Rightarrow> Book \<Rightarrow> bool" where
  "less_book l r =
     (let diff = compare_issue (book_in l) (book_in r) in
      if diff \<noteq> 0 then diff < 0 else less_issue (book_out l) (book_out r))"

section \<open>Indexes\<close>

type_synonym hash = "blob \<Rightarrow> uint256"

text \<open>The namespaces, as the \<open>std::uint16_t\<close> that is hashed first.\<close>

definition space :: "char \<Rightarrow> blob" where
  "space c = nat_bytes 2 (of_char c)"

definition getRingIndex :: "hash \<Rightarrow> u64 \<Rightarrow> Issue \<Rightarrow> u32 \<Rightarrow> uint256" where
  "getRingIndex sha quantity issue index' =
     sha (space CHR ''G'' @ word_bytes (account issue) @ word_bytes (currency issue) @ word_bytes quantity @ word_bytes index')"

definition getProposalIndex :: "hash \<Rightarrow> u32 \<Rightarrow> uint256" where
  "getProposalIndex sha index' = sha (space CHR ''P'' @ word_bytes index')"

definition getLedgerHashIndex :: "hash \<Rightarrow> uint256" where
  "getLedgerHashIndex sha = sha (space CHR ''s'')"

definition getLedgerHashIndex_at :: "hash \<Rightarrow> u32 \<Rightarrow> uint256" where
  "getLedgerHashIndex_at sha desiredLedgerIndex = sha (space CHR ''s'' @ word_bytes (drop_bit 16 desiredLedgerIndex))"

definition getLedgerAmendmentIndex :: "hash \<Rightarrow> uint256" where
  "getLedgerAmendmentIndex sha = sha (space CHR ''f'')"

definition getLedgerFeeIndex :: "hash \<Rightarrow> uint256" where
  "getLedgerFeeIndex sha = sha (space CHR ''e'')"

definition getAccountRootIndex :: "hash \<Rightarrow> AccountID \<Rightarrow> uint256" where
  "getAccountRootIndex sha a = sha (space CHR ''a'' @ word_bytes a)"

definition getGeneratorIndex :: "hash \<Rightarrow> AccountID \<Rightarrow> uint256" where
  "getGeneratorIndex sha uGeneratorID = sha (space CHR ''g'' @ word_bytes uGeneratorID)"

text \<open>The last eight bytes are the quality, big-endian.\<close>

definition getQualityIndex :: "uint256 \<Rightarrow> u64 \<Rightarrow> uint256" where
  "getQualityIndex uBase uNodeDir = push_bit 64 (drop_bit 64 uBase) OR ucast uNodeDir"

definition getQualityNext :: "uint256 \<Rightarrow> uint256" where
  "getQualityNext uBase = uBase + 0x10000000000000000"

definition getQuality :: "uint256 \<Rightarrow> u64" where
  "getQuality uBase = ucast uBase"

definition getBookBase :: "hash \<Rightarrow> Book \<Rightarrow> uint256 res" where
  "getBookBase sha b =
     rbind (require (isConsistent_book b) AssertFailed) (\<lambda>_.
       Ok (getQualityIndex (sha (space CHR ''B'' @ word_bytes (currency (book_in b)) @ word_bytes (currency (book_out b)) @
             word_bytes (account (book_in b)) @ word_bytes (account (book_out b)))) 0))"

definition getOfferIndex :: "hash \<Rightarrow> AccountID \<Rightarrow> u32 \<Rightarrow> uint256" where
  "getOfferIndex sha a uSequence = sha (space CHR ''o'' @ word_bytes a @ word_bytes uSequence)"

definition getOwnerDirIndex :: "hash \<Rightarrow> AccountID \<Rightarrow> uint256" where
  "getOwnerDirIndex sha a = sha (space CHR ''O'' @ word_bytes a)"

definition getTicketIndex :: "hash \<Rightarrow> AccountID \<Rightarrow> u32 \<Rightarrow> uint256" where
  "getTicketIndex sha a uSequence = sha (space CHR ''T'' @ word_bytes a @ word_bytes uSequence)"

definition getRippleStateIndex :: "hash \<Rightarrow> AccountID \<Rightarrow> AccountID \<Rightarrow> Currency \<Rightarrow> uint256" where
  "getRippleStateIndex sha a b c =
     (if a < b then sha (space CHR ''r'' @ word_bytes a @ word_bytes b @ word_bytes c)
      else sha (space CHR ''r'' @ word_bytes b @ word_bytes a @ word_bytes c))"

definition getSignerListIndex :: "hash \<Rightarrow> AccountID \<Rightarrow> uint256" where
  "getSignerListIndex sha a = sha (space CHR ''N'' @ word_bytes a @ word_bytes (0 :: u32))"

definition getAccountReferIndex :: "hash \<Rightarrow> AccountID \<Rightarrow> uint256" where
  "getAccountReferIndex sha a = sha (space CHR ''R'' @ word_bytes a)"

definition getAssetIndex :: "hash \<Rightarrow> AccountID \<Rightarrow> Currency \<Rightarrow> uint256" where
  "getAssetIndex sha a c = sha (space CHR ''t'' @ word_bytes a @ word_bytes c)"

definition getAssetStateIndex :: "hash \<Rightarrow> AccountID \<Rightarrow> AccountID \<Rightarrow> Currency \<Rightarrow> uint256" where
  "getAssetStateIndex sha a b c =
     sha (space CHR ''S'' @ word_bytes (if a < b then a else b) @ word_bytes (if a < b then b else a) @ word_bytes c)"

definition getLedgerDividendIndex :: "hash \<Rightarrow> uint256" where
  "getLedgerDividendIndex sha = sha (space CHR ''D'')"

definition getReferIndex :: "hash \<Rightarrow> AccountID \<Rightarrow> uint256" where
  "getReferIndex sha a = sha (space CHR ''R'' @ word_bytes a)"

text \<open>Here the namespace is hashed as the \<open>enum\<close>, a 32-bit number.\<close>

definition susPay_index :: "hash \<Rightarrow> AccountID \<Rightarrow> u32 \<Rightarrow> uint256" where
  "susPay_index sha source seq = sha (nat_bytes 4 117 @ word_bytes source @ word_bytes seq)"

section \<open>Keylets\<close>

definition ltACCOUNT_ROOT :: int where "ltACCOUNT_ROOT = 97"
definition ltDIVIDEND :: int where "ltDIVIDEND = 68"
definition ltRIPPLE_STATE :: int where "ltRIPPLE_STATE = 114"
definition ltREFER :: int where "ltREFER = 82"
definition ltASSET_STATE :: int where "ltASSET_STATE = 83"
definition ltASSET :: int where "ltASSET = 116"
definition ltTICKET :: int where "ltTICKET = 84"
definition ltSIGNER_LIST :: int where "ltSIGNER_LIST = 78"
definition ltOFFER :: int where "ltOFFER = 111"
definition ltLEDGER_HASHES :: int where "ltLEDGER_HASHES = 104"
definition ltAMENDMENTS :: int where "ltAMENDMENTS = 102"
definition ltFEE_SETTINGS :: int where "ltFEE_SETTINGS = 115"
definition ltSUSPAY :: int where "ltSUSPAY = 117"

definition keylet_account :: "hash \<Rightarrow> AccountID \<Rightarrow> Keylet" where
  "keylet_account sha a = \<lparr>kl_type = ltACCOUNT_ROOT, kl_key = getAccountRootIndex sha a\<rparr>"

definition keylet_line :: "hash \<Rightarrow> AccountID \<Rightarrow> AccountID \<Rightarrow> Currency \<Rightarrow> Keylet" where
  "keylet_line sha id0 id1 c = \<lparr>kl_type = ltRIPPLE_STATE, kl_key = getRippleStateIndex sha id0 id1 c\<rparr>"

definition keylet_offer :: "hash \<Rightarrow> AccountID \<Rightarrow> u32 \<Rightarrow> Keylet" where
  "keylet_offer sha a seq = \<lparr>kl_type = ltOFFER, kl_key = getOfferIndex sha a seq\<rparr>"

definition keylet_ticket :: "hash \<Rightarrow> AccountID \<Rightarrow> u32 \<Rightarrow> Keylet" where
  "keylet_ticket sha a seq = \<lparr>kl_type = ltTICKET, kl_key = getTicketIndex sha a seq\<rparr>"

definition keylet_signers :: "hash \<Rightarrow> AccountID \<Rightarrow> Keylet" where
  "keylet_signers sha a = \<lparr>kl_type = ltSIGNER_LIST, kl_key = getSignerListIndex sha a\<rparr>"

definition keylet_dividend :: "hash \<Rightarrow> Keylet" where
  "keylet_dividend sha = \<lparr>kl_type = ltDIVIDEND, kl_key = getLedgerDividendIndex sha\<rparr>"

definition keylet_refer :: "hash \<Rightarrow> AccountID \<Rightarrow> Keylet" where
  "keylet_refer sha a = \<lparr>kl_type = ltREFER, kl_key = getReferIndex sha a\<rparr>"

definition keylet_asset :: "hash \<Rightarrow> AccountID \<Rightarrow> Currency \<Rightarrow> Keylet" where
  "keylet_asset sha a c = \<lparr>kl_type = ltASSET, kl_key = getAssetIndex sha a c\<rparr>"

definition keylet_asset_state :: "uint256 \<Rightarrow> Keylet" where
  "keylet_asset_state k = \<lparr>kl_type = ltASSET_STATE, kl_key = k\<rparr>"

definition keylet_book :: "hash \<Rightarrow> Book \<Rightarrow> Keylet res" where
  "keylet_book sha b = rbind (getBookBase sha b) (\<lambda>k. Ok \<lparr>kl_type = ltDIR_NODE, kl_key = k\<rparr>)"

definition keylet_quality :: "Keylet \<Rightarrow> u64 \<Rightarrow> Keylet res" where
  "keylet_quality k q =
     rbind (require (kl_type k = ltDIR_NODE) AssertFailed) (\<lambda>_.
       Ok \<lparr>kl_type = ltDIR_NODE, kl_key = getQualityIndex (kl_key k) q\<rparr>)"

definition keylet_next :: "Keylet \<Rightarrow> Keylet res" where
  "keylet_next k =
     rbind (require (kl_type k = ltDIR_NODE) AssertFailed) (\<lambda>_.
       Ok \<lparr>kl_type = ltDIR_NODE, kl_key = getQualityNext (kl_key k)\<rparr>)"

definition keylet_skip :: "hash \<Rightarrow> Keylet" where
  "keylet_skip sha = \<lparr>kl_type = ltLEDGER_HASHES, kl_key = getLedgerHashIndex sha\<rparr>"

definition keylet_skip_at :: "hash \<Rightarrow> u32 \<Rightarrow> Keylet" where
  "keylet_skip_at sha seq = \<lparr>kl_type = ltLEDGER_HASHES, kl_key = getLedgerHashIndex_at sha seq\<rparr>"

definition keylet_amendments :: "hash \<Rightarrow> Keylet" where
  "keylet_amendments sha = \<lparr>kl_type = ltAMENDMENTS, kl_key = getLedgerAmendmentIndex sha\<rparr>"

definition keylet_fees :: "hash \<Rightarrow> Keylet" where
  "keylet_fees sha = \<lparr>kl_type = ltFEE_SETTINGS, kl_key = getLedgerFeeIndex sha\<rparr>"

definition keylet_ownerDir :: "hash \<Rightarrow> AccountID \<Rightarrow> Keylet" where
  "keylet_ownerDir sha a = \<lparr>kl_type = ltDIR_NODE, kl_key = getOwnerDirIndex sha a\<rparr>"

definition keylet_susPay :: "hash \<Rightarrow> AccountID \<Rightarrow> u32 \<Rightarrow> Keylet" where
  "keylet_susPay sha a seq = \<lparr>kl_type = ltSUSPAY, kl_key = susPay_index sha a seq\<rparr>"

section \<open>Qualities in indexes\<close>

lemma block_iff: "0 < P \<Longrightarrow> B * P \<le> x \<and> x < (B + 1) * P \<longleftrightarrow> x div P = B" for x :: int
proof (intro iffI conjI; (elim conjE)?)
  assume "0 < P" "B * P \<le> x" "x < (B + 1) * P"
  then show "x div P = B"
    by (intro int_div_pos_eq [where r = "x - B * P"]) (simp_all add: algebra_simps)
next
  assume p: "0 < P" and d: "x div P = B"
  have "x = x div P * P + x mod P" by simp
  then show "B * P \<le> x" "x < (B + 1) * P"
    using pos_mod_bound [OF p, of x] pos_mod_sign [OF p, of x] d by (simp_all add: algebra_simps)
qed

lemma block_eq_iff: "P \<noteq> 0 \<Longrightarrow> x div P = B \<longleftrightarrow> x = B * P + x mod P" for x :: int
  by (metis add_right_cancel div_mult_mod_eq mult_cancel_right)

lemma getQualityIndex_int:
  "uint (getQualityIndex b q) = uint b div 2 ^ 64 * 2 ^ 64 + uint q"
proof -
  have u: "uint (ucast q :: uint256) = uint q" by (simp add: uint_up_ucast is_up)
  have "push_bit 64 (drop_bit 64 b) AND ucast q = (0 :: uint256)"
    by (rule bit_word_eqI) (auto simp: bit_simps dest: bit_imp_le_length)
  then have "getQualityIndex b q = push_bit 64 (drop_bit 64 b) + ucast q"
    by (simp add: getQualityIndex_def disjunctive_add_eq_or)
  moreover have "uint (push_bit 64 (drop_bit 64 b)) = uint b div 2 ^ 64 * 2 ^ 64"
  proof -
    have "uint b div 2 ^ 64 * 2 ^ 64 \<le> uint b" using block_iff [of "2 ^ 64" "uint b div 2 ^ 64" "uint b"] by simp
    then have "uint b div 2 ^ 64 * 2 ^ 64 < 2 ^ 256" using uint_lt2p [of b] by simp
    moreover have "0 \<le> uint b div 2 ^ 64 * 2 ^ 64" by (simp add: pos_imp_zdiv_nonneg_iff)
    ultimately have "uint b div 2 ^ 64 * 2 ^ 64 mod 2 ^ 256 = uint b div 2 ^ 64 * 2 ^ 64"
      by (intro mod_pos_pos_trivial)
    then show ?thesis
      by (simp add: uint_word_ariths push_bit_eq_mult drop_bit_eq_div uint_div)
  qed
  moreover have "(uint b div 2 ^ 64 * 2 ^ 64 + uint q) mod 2 ^ 256 = uint b div 2 ^ 64 * 2 ^ 64 + uint q"
  proof (rule mod_pos_pos_trivial)
    have "0 \<le> uint b div 2 ^ 64" by (simp add: pos_imp_zdiv_nonneg_iff)
    then show "0 \<le> uint b div 2 ^ 64 * 2 ^ 64 + uint q" by simp
    have "uint b div 2 ^ 64 < 2 ^ 192" using uint_lt2p [of b] block_iff [of "2 ^ 64" "uint b div 2 ^ 64" "uint b"] by simp
    then show "uint b div 2 ^ 64 * 2 ^ 64 + uint q < 2 ^ 256" using uint_lt2p [of q] by simp
  qed
  ultimately show ?thesis using u by (simp add: uint_word_ariths)
qed

lemma getQuality_int: "uint (getQuality k) = uint k mod 2 ^ 64"
  by (simp add: getQuality_def unsigned_ucast_eq take_bit_eq_mod)

lemma getQualityNext_int:
  assumes "uint b div 2 ^ 64 + 1 < 2 ^ 192"
  shows "uint (getQualityNext (getQualityIndex b 0)) = (uint b div 2 ^ 64 + 1) * 2 ^ 64"
proof -
  have "(uint b div 2 ^ 64 + 1) * 2 ^ 64 < 2 ^ 256" using assms by simp
  moreover have "0 \<le> uint b div 2 ^ 64" by (simp add: pos_imp_zdiv_nonneg_iff)
  ultimately have "((uint b div 2 ^ 64 + 1) * 2 ^ 64) mod 2 ^ 256 = (uint b div 2 ^ 64 + 1) * 2 ^ 64"
    by (intro mod_pos_pos_trivial) simp_all
  then have "(uint b div 2 ^ 64 * 2 ^ 64 + 0x10000000000000000) mod 2 ^ 256 = (uint b div 2 ^ 64 + 1) * 2 ^ 64"
    by (simp only: distrib_right) simp
  then show ?thesis using getQualityIndex_int [of b 0]
    by (simp add: getQualityNext_def uint_word_ariths)
qed

lemma getQuality_getQualityIndex [simp]: "getQuality (getQualityIndex b q) = q"
proof -
  have "uint (getQuality (getQualityIndex b q)) = uint q"
    unfolding getQuality_int getQualityIndex_int using uint_lt2p [of q] by simp
  then show ?thesis by (simp only: word_uint_eq_iff)
qed

lemma drop_getQualityIndex [simp]: "drop_bit 64 (getQualityIndex b q) = drop_bit 64 b"
  by (rule bit_word_eqI) (auto simp: getQualityIndex_def bit_simps dest: bit_imp_le_length)

lemma getQualityIndex_again [simp]: "getQualityIndex (getQualityIndex b q) q' = getQualityIndex b q'"
  unfolding getQualityIndex_def [of _ q'] by simp

section \<open>Distinct entries have distinct indexes\<close>

text \<open>
  What an index identifies; a page of a directory other than its root is identified by the root and its number. A
  directory of an order book carries its quality and an asset state its time, in the last eight bytes of the index
  (\<open>getQualityIndex\<close>). The commitments of \<open>getCTIndex\<close> are left out: it hashes a pointer.
\<close>

datatype entry_id = Ring u64 Issue u32 | Proposal u32 | Skip | SkipAt u32 | Amendments | Fees | AccountRoot AccountID
  | Generator AccountID | Offer AccountID u32 | OwnerDir AccountID | Page uint256 u64 | Ticket AccountID u32
  | Line AccountID AccountID Currency | Signers AccountID | Refer AccountID | Asset AccountID Currency
  | AssetState AccountID AccountID Currency u64 | BookDir Book u64 | Dividend | SusPay AccountID u32

fun entry_index :: "hash \<Rightarrow> entry_id \<Rightarrow> uint256 res" where
  "entry_index sha (Ring q i n) = Ok (getRingIndex sha q i n)"
| "entry_index sha (Proposal n) = Ok (getProposalIndex sha n)"
| "entry_index sha Skip = Ok (getLedgerHashIndex sha)"
| "entry_index sha (SkipAt seq) = Ok (getLedgerHashIndex_at sha seq)"
| "entry_index sha Amendments = Ok (getLedgerAmendmentIndex sha)"
| "entry_index sha Fees = Ok (getLedgerFeeIndex sha)"
| "entry_index sha (AccountRoot a) = Ok (getAccountRootIndex sha a)"
| "entry_index sha (Generator a) = Ok (getGeneratorIndex sha a)"
| "entry_index sha (Offer a seq) = Ok (getOfferIndex sha a seq)"
| "entry_index sha (OwnerDir a) = Ok (getOwnerDirIndex sha a)"
| "entry_index sha (Page r n) = Ok (getDirNodeIndex sha r n)"
| "entry_index sha (Ticket a seq) = Ok (getTicketIndex sha a seq)"
| "entry_index sha (Line a b c) = Ok (getRippleStateIndex sha a b c)"
| "entry_index sha (Signers a) = Ok (getSignerListIndex sha a)"
| "entry_index sha (Refer a) = Ok (getReferIndex sha a)"
| "entry_index sha (Asset a c) = Ok (getAssetIndex sha a c)"
| "entry_index sha (AssetState a b c time) = Ok (getQualityIndex (getAssetStateIndex sha a b c) time)"
| "entry_index sha (BookDir b q) = rbind (getBookBase sha b) (\<lambda>base. Ok (getQualityIndex base q))"
| "entry_index sha Dividend = Ok (getLedgerDividendIndex sha)"
| "entry_index sha (SusPay a seq) = Ok (susPay_index sha a seq)"

text \<open>A line is that of two accounts in either order; a skip list serves 65536 ledgers.\<close>

fun normal :: "entry_id \<Rightarrow> entry_id" where
  "normal (Line a b c) = Line (min a b) (max a b) c"
| "normal (AssetState a b c time) = AssetState (min a b) (max a b) c time"
| "normal (SkipAt seq) = SkipAt (drop_bit 16 seq)"
| "normal e = e"

fun is_root :: "entry_id \<Rightarrow> bool" where
  "is_root (Page r n) \<longleftrightarrow> n = 0"
| "is_root e \<longleftrightarrow> False"

text \<open>The entries whose index ends in a number that is not hashed.\<close>

fun overwritten :: "entry_id \<Rightarrow> u64 option" where
  "overwritten (AssetState a b c time) = Some time"
| "overwritten (BookDir b q) = Some q"
| "overwritten e = None"

text \<open>What is hashed.\<close>

fun entry_bytes :: "entry_id \<Rightarrow> blob" where
  "entry_bytes (Ring q i n) = space CHR ''G'' @ word_bytes (account i) @ word_bytes (currency i) @ word_bytes q @ word_bytes n"
| "entry_bytes (Proposal n) = space CHR ''P'' @ word_bytes n"
| "entry_bytes Skip = space CHR ''s''"
| "entry_bytes (SkipAt seq) = space CHR ''s'' @ word_bytes seq"
| "entry_bytes Amendments = space CHR ''f''"
| "entry_bytes Fees = space CHR ''e''"
| "entry_bytes (AccountRoot a) = space CHR ''a'' @ word_bytes a"
| "entry_bytes (Generator a) = space CHR ''g'' @ word_bytes a"
| "entry_bytes (Offer a seq) = space CHR ''o'' @ word_bytes a @ word_bytes seq"
| "entry_bytes (OwnerDir a) = space CHR ''O'' @ word_bytes a"
| "entry_bytes (Page r n) = space CHR ''d'' @ word_bytes r @ word_bytes n"
| "entry_bytes (Ticket a seq) = space CHR ''T'' @ word_bytes a @ word_bytes seq"
| "entry_bytes (Line a b c) = space CHR ''r'' @ word_bytes a @ word_bytes b @ word_bytes c"
| "entry_bytes (Signers a) = space CHR ''N'' @ word_bytes a @ word_bytes (0 :: u32)"
| "entry_bytes (Refer a) = space CHR ''R'' @ word_bytes a"
| "entry_bytes (Asset a c) = space CHR ''t'' @ word_bytes a @ word_bytes c"
| "entry_bytes (BookDir b q) = space CHR ''B'' @ word_bytes (currency (book_in b)) @ word_bytes (currency (book_out b)) @
     word_bytes (account (book_in b)) @ word_bytes (account (book_out b))"
| "entry_bytes (AssetState a b c time) = space CHR ''S'' @ word_bytes a @ word_bytes b @ word_bytes c"
| "entry_bytes Dividend = space CHR ''D''"
| "entry_bytes (SusPay a seq) = nat_bytes 4 117 @ word_bytes a @ word_bytes seq"

lemma entry_index_bytes: "\<not> is_root e \<Longrightarrow> entry_index sha e = Ok k \<Longrightarrow>
    k = (case overwritten e of None \<Rightarrow> sha (entry_bytes (normal e)) | Some q \<Rightarrow> getQualityIndex (sha (entry_bytes (normal e))) q)"
  by (cases e) (auto simp: getBookBase_def require_def split: if_splits simp: getRingIndex_def getProposalIndex_def getLedgerHashIndex_def getLedgerHashIndex_at_def
    getLedgerAmendmentIndex_def getLedgerFeeIndex_def getAccountRootIndex_def getGeneratorIndex_def getOfferIndex_def
    getOwnerDirIndex_def getDirNodeIndex_def getTicketIndex_def getRippleStateIndex_def getSignerListIndex_def
    getReferIndex_def getAssetIndex_def getAssetStateIndex_def getLedgerDividendIndex_def susPay_index_def
    spaceDirNode_def space_def min_def max_def)

text \<open>The namespace tells the kinds of entries apart, but for the two skip lists, which differ in length.\<close>

fun entry_tag :: "entry_id \<Rightarrow> nat" where
  "entry_tag (Ring q i n) = 71" | "entry_tag (Proposal n) = 80" | "entry_tag Skip = 115" | "entry_tag (SkipAt seq) = 115"
| "entry_tag Amendments = 102" | "entry_tag Fees = 101" | "entry_tag (AccountRoot a) = 97" | "entry_tag (Generator a) = 103"
| "entry_tag (Offer a seq) = 111" | "entry_tag (OwnerDir a) = 79" | "entry_tag (Page r n) = 100" | "entry_tag (Ticket a seq) = 84"
| "entry_tag (Line a b c) = 114" | "entry_tag (Signers a) = 78" | "entry_tag (Refer a) = 82" | "entry_tag (Asset a c) = 116"
| "entry_tag (AssetState a b c time) = 83" | "entry_tag (BookDir b q) = 66" | "entry_tag Dividend = 68" | "entry_tag (SusPay a seq) = 0"

lemma space_bytes: "space c = [0, of_nat (of_char c)]"
proof -
  have "(of_char c :: nat) < 256" by simp
  then show ?thesis by (simp add: space_def numeral_2_eq_2)
qed

lemma susPay_space: "nat_bytes 4 117 = [0, 0, 0, 117]"
  by code_simp

lemma tag_bytes: "unat (entry_bytes e ! 1) = entry_tag e"
  by (cases e) (simp_all add: space_bytes susPay_space)

lemma word_bytes_inj:
  assumes "8 dvd LENGTH('a::len)"
  shows "word_bytes (w :: 'a word) = word_bytes v \<longleftrightarrow> w = v"
  using bytes_word_bytes [OF assms] by metis

lemma word_bytes_not_Nil: "word_bytes (w :: u32) \<noteq> []"
  using length_word_bytes [of w] by fastforce

lemma entry_bytes_inj: "entry_bytes e = entry_bytes e' \<Longrightarrow> overwritten e = overwritten e' \<Longrightarrow> e = e'"
proof -
  assume eq: "entry_bytes e = entry_bytes e'" and q: "overwritten e = overwritten e'"
  have tag: "entry_tag e = entry_tag e'" using eq tag_bytes by metis
  show "e = e'"
    by (insert eq q tag, cases e; cases e'; simp add: word_bytes_inj word_bytes_not_Nil not_sym [OF word_bytes_not_Nil] Book.equality Issue.equality)
qed

lemma overwritten_bytes: "entry_bytes e = entry_bytes e' \<Longrightarrow> (overwritten e = None) = (overwritten e' = None)"
proof -
  assume eq: "entry_bytes e = entry_bytes e'"
  have tag: "entry_tag e = entry_tag e'" using eq tag_bytes by metis
  show ?thesis by (insert tag, cases e; cases e'; simp)
qed

lemma overwritten_normal [simp]: "overwritten (normal e) = overwritten e"
  by (cases e) simp_all

text \<open>
  C23. Two entries of the ledger that are not the same - an account, a trust line of two accounts in either order,
  an offer, a directory of an order book at some quality, an asset state at some time, a page of a directory other
  than its root, a skip list and so on (all kinds of entries but the commitments of \<open>getCTIndex\<close>) - have the same index
  only where \<open>sha512Half\<close> maps the two different messages that identify them to the same 256 bits; where one of the two
  is a book directory or an asset state, whose last 64 bits are not hashed, to the same first 192 bits. The namespaces
  and the fixed widths of what is hashed tell all entries apart.
\<close>

theorem index_collision:
  assumes "entry_index sha e = Ok k" "entry_index sha e' = Ok k" "normal e \<noteq> normal e'" "\<not> is_root e" "\<not> is_root e'"
  shows "\<exists>x y. x = entry_bytes (normal e) \<and> y = entry_bytes (normal e') \<and> x \<noteq> y \<and>
    (if overwritten e = None \<and> overwritten e' = None then sha x = sha y else drop_bit 64 (sha x) = drop_bit 64 (sha y))"
proof -
  let ?x = "entry_bytes (normal e)" and ?y = "entry_bytes (normal e')"
  note k = entry_index_bytes [OF assms(4,1)] entry_index_bytes [OF assms(5,2)]
  have eq: "if overwritten e = None \<and> overwritten e' = None then sha ?x = sha ?y else drop_bit 64 (sha ?x) = drop_bit 64 (sha ?y)"
    using k by (auto split: option.splits) (metis drop_getQualityIndex)+
  have "?x \<noteq> ?y"
  proof
    assume xy: "?x = ?y"
    have "overwritten e = overwritten e'"
    proof (cases "overwritten e")
      case None
      with overwritten_bytes [OF xy] show ?thesis by simp
    next
      case (Some q)
      with overwritten_bytes [OF xy] obtain q' where q': "overwritten e' = Some q'" by auto
      with Some k have "getQualityIndex (sha ?x) q = getQualityIndex (sha ?y) q'" by simp
      then have "q = q'" by (metis getQuality_getQualityIndex)
      with Some q' show ?thesis by simp
    qed
    then have "normal e = normal e'" using entry_bytes_inj [OF xy] by simp
    with assms(3) show False by simp
  qed
  with eq show ?thesis by blast
qed

text \<open>
  C24. Order book directories sort by quality: the index of a directory gives back its quality, indexes with the same
  base order as their qualities, and the indexes from the base of a book up to \<open>getQualityNext\<close> are exactly the
  directories of that book (for every base but the very last one, where \<open>getQualityNext\<close> wraps).
\<close>

theorem quality_index_range:
  assumes "uint b div 2 ^ 64 + 1 < 2 ^ 192"
  shows "getQuality (getQualityIndex b q) = q \<and>
    (getQualityIndex b q < getQualityIndex b q' \<longleftrightarrow> q < q') \<and>
    (getQualityIndex b 0 \<le> k \<and> k < getQualityNext (getQualityIndex b 0) \<longleftrightarrow> k = getQualityIndex b (getQuality k))"
proof (intro conjI)
  show "getQuality (getQualityIndex b q) = q" by simp
  show "getQualityIndex b q < getQualityIndex b q' \<longleftrightarrow> q < q'"
    unfolding word_less_def getQualityIndex_int by simp
  have "getQualityIndex b 0 \<le> k \<and> k < getQualityNext (getQualityIndex b 0) \<longleftrightarrow>
      uint b div 2 ^ 64 * 2 ^ 64 \<le> uint k \<and> uint k < (uint b div 2 ^ 64 + 1) * 2 ^ 64"
    unfolding word_le_def word_less_def getQualityNext_int [OF assms] getQualityIndex_int by simp
  also have "\<dots> \<longleftrightarrow> uint k div 2 ^ 64 = uint b div 2 ^ 64" by (rule block_iff) simp
  also have "\<dots> \<longleftrightarrow> uint k = uint b div 2 ^ 64 * 2 ^ 64 + uint (getQuality k)"
    unfolding getQuality_int by (rule block_eq_iff) simp
  finally show "getQualityIndex b 0 \<le> k \<and> k < getQualityNext (getQualityIndex b 0) \<longleftrightarrow> k = getQualityIndex b (getQuality k)"
    unfolding word_uint_eq_iff [of k] getQualityIndex_int .
qed

section \<open>Witnesses\<close>

text \<open>A hash with collisions, and an index between two directories.\<close>

theorem index_collision_witness:
  "entry_bytes (AccountRoot 5) \<noteq> entry_bytes (OwnerDir 5) \<and>
   entry_bytes (BookDir \<lparr>book_in = xrpIssue, book_out = \<lparr>currency = 77, account = 2\<rparr>\<rparr> 5) \<noteq> entry_bytes (AssetState 2 3 77 5)"
proof -
  have b: "entry_index (\<lambda>_. 0) (BookDir \<lparr>book_in = xrpIssue, book_out = \<lparr>currency = 77, account = 2\<rparr>\<rparr> 5) = Ok (getQualityIndex 0 5)"
    by (simp add: getBookBase_def isConsistent_book_def isConsistent_def eq_issue_def compare_issue_def compare_uint_def Let_def issue_defs)
  show ?thesis
    using index_collision [of "\<lambda>_. 0" "AccountRoot 5" 0 "OwnerDir 5"] index_collision [OF b, of "AssetState 2 3 77 5"]
    by (simp add: getAccountRootIndex_def getOwnerDirIndex_def getAssetStateIndex_def)
qed

theorem quality_index_range_witness:
  "getQuality (getQualityIndex (2 ^ 100) 7) = 7 \<and> getQualityIndex (2 ^ 100) 7 < getQualityIndex (2 ^ 100) 8"
  using quality_index_range [of "2 ^ 100" 7 8 0] by simp

end
