(* ===== verification/PaymentSandbox.thy ===== *)
theory PaymentSandbox
  imports Amount_Arith OrdMap "HOL-Library.Product_Lexorder"
begin

text \<open>
  \<open>PaymentSandbox\<close> (\<open>ledger/PaymentSandbox.h\<close>, \<open>ledger/impl/PaymentSandbox.cpp\<close>): a sandbox that makes what an
  account is credited during a payment unavailable to it. \<open>DeferredCredits\<close> records the credits of each pair of
  accounts and currency; \<open>balanceHook\<close> subtracts them from a balance, through the sandboxes it is stacked on.
\<close>

section \<open>Deferred credits\<close>

type_synonym credit_key = "AccountID \<times> AccountID \<times> Currency"

text \<open>The credits of the lower and of the higher account.\<close>

type_synonym DeferredCredits = "(credit_key, STAmount \<times> STAmount) omap"

definition makeKey :: "AccountID \<Rightarrow> AccountID \<Rightarrow> Currency \<Rightarrow> credit_key" where
  "makeKey a1 a2 c = (if a1 < a2 then (a1, a2, c) else (a2, a1, c))"

definition credit :: "AccountID \<Rightarrow> AccountID \<Rightarrow> STAmount \<Rightarrow> DeferredCredits \<Rightarrow> DeferredCredits res" where
  "credit sender receiver amount m =
     rbind (require (sender \<noteq> receiver) AssertFailed) (\<lambda>_.
     rbind (require (\<not> mIsNegative amount) AssertFailed) (\<lambda>_.
     let k = makeKey sender receiver (currency (mIssue amount)) in
     case map_of m k of
       None \<Rightarrow>
         rbind (zeroed amount) (\<lambda>z.
         Ok (om_put k (if sender < receiver then (z, amount) else (amount, z)) m))
     | Some (low, high) \<Rightarrow>
         if sender < receiver then rbind (plus_amount high amount) (\<lambda>high. Ok (om_put k (low, high) m))
         else rbind (plus_amount low amount) (\<lambda>low. Ok (om_put k (low, high) m))))"

definition adjustedBalance :: "AccountID \<Rightarrow> AccountID \<Rightarrow> STAmount \<Rightarrow> DeferredCredits \<Rightarrow> STAmount res" where
  "adjustedBalance main other curBalance m =
     (case map_of m (makeKey main other (currency (mIssue curBalance))) of
        None \<Rightarrow> Ok curBalance
      | Some (low, high) \<Rightarrow> minus_amount curBalance (if main < other then low else high))"

text \<open>\<open>apply\<close>: \<open>emplace\<close> keeps an entry that is there, which then gets the sums.\<close>

fun dc_apply :: "DeferredCredits \<Rightarrow> DeferredCredits \<Rightarrow> DeferredCredits res" where
  "dc_apply [] to = Ok to"
| "dc_apply ((k, low, high) # m) to =
     rbind (case map_of to k of
         None \<Rightarrow> Ok (om_put k (low, high) to)
       | Some (l, h) \<Rightarrow> rbind (plus_amount l low) (\<lambda>l. rbind (plus_amount h high) (\<lambda>h. Ok (om_put k (l, h) to)))) (dc_apply m)"

section \<open>Sandboxes\<close>

text \<open>The tables of a stack of sandboxes, the innermost first.\<close>

fun balanceHook :: "DeferredCredits list \<Rightarrow> AccountID \<Rightarrow> AccountID \<Rightarrow> STAmount \<Rightarrow> STAmount res" where
  "balanceHook [] acct issuer amount = Ok amount"
| "balanceHook (tab # ps) acct issuer amount =
     rbind (balanceHook ps acct issuer amount) (\<lambda>amount. adjustedBalance acct issuer amount tab)"

fun creditHook :: "AccountID \<Rightarrow> AccountID \<Rightarrow> STAmount \<Rightarrow> DeferredCredits list \<Rightarrow> DeferredCredits list res" where
  "creditHook from to amount [] = Ok []"
| "creditHook from to amount (tab # ps) = rbind (credit from to amount tab) (\<lambda>tab. Ok (tab # ps))"

text \<open>\<open>apply (PaymentSandbox&)\<close>: the table goes to the parent's.\<close>

fun apply_to_parent :: "DeferredCredits list \<Rightarrow> DeferredCredits list res" where
  "apply_to_parent (tab # parent # ps) = rbind (dc_apply tab parent) (\<lambda>parent. Ok (parent # ps))"
| "apply_to_parent _ = Throw AssertFailed"

section \<open>What an account has been credited\<close>

text \<open>A sequence of credits, and what of it the \<open>other\<close> account has sent to \<open>main\<close> in one currency.\<close>

fun run_credits :: "(AccountID \<times> AccountID \<times> STAmount) list \<Rightarrow> DeferredCredits \<Rightarrow> DeferredCredits res" where
  "run_credits [] m = Ok m"
| "run_credits ((s, r, a) # cs) m = rbind (credit s r a m) (run_credits cs)"

fun received :: "AccountID \<Rightarrow> AccountID \<Rightarrow> Currency \<Rightarrow> (AccountID \<times> AccountID \<times> STAmount) list \<Rightarrow> STAmount option \<Rightarrow> STAmount option res" where
  "received main other c [] d = Ok d"
| "received main other c ((s, r, a) # cs) d =
     (if currency (mIssue a) = c \<and> s = other \<and> r = main then
        rbind (case d of None \<Rightarrow> Ok a | Some x \<Rightarrow> plus_amount x a) (\<lambda>x. received main other c cs (Some x))
      else if currency (mIssue a) = c \<and> s = main \<and> r = other then
        rbind (case d of None \<Rightarrow> zeroed a | Some x \<Rightarrow> Ok x) (\<lambda>x. received main other c cs (Some x))
      else received main other c cs d)"

definition side :: "AccountID \<Rightarrow> AccountID \<Rightarrow> STAmount \<times> STAmount \<Rightarrow> STAmount" where
  "side main other v = (if main < other then fst v else snd v)"

definition owed :: "AccountID \<Rightarrow> AccountID \<Rightarrow> Currency \<Rightarrow> DeferredCredits \<Rightarrow> STAmount option" where
  "owed main other c m = map_option (side main other) (map_of m (makeKey main other c))"

lemma makeKey_eq: "makeKey a b c = makeKey a' b' c' \<longleftrightarrow> c = c' \<and> (a = a' \<and> b = b' \<or> a = b' \<and> b = a')"
  by (auto simp: makeKey_def)

lemma credit_om_ok: "credit s r a m = Ok m' \<Longrightarrow> om_ok m \<Longrightarrow> om_ok m'"
  by (auto simp: credit_def Let_def om_put_ok split: option.splits if_splits)

lemma credit_owed:
  assumes "om_ok m" "credit s r a m = Ok m'" "main \<noteq> other"
  shows "received main other c [(s, r, a)] (owed main other c m) = Ok (owed main other c m')"
proof (cases "makeKey s r (currency (mIssue a)) = makeKey main other c")
  case False
  then have "owed main other c m' = owed main other c m"
    using assms(1,2) by (auto simp: credit_def owed_def Let_def split: option.splits if_splits)
  moreover have "\<not> (currency (mIssue a) = c \<and> s = other \<and> r = main)" "\<not> (currency (mIssue a) = c \<and> s = main \<and> r = other)"
    using False by (auto simp: makeKey_eq)
  ultimately show ?thesis by (simp only: received.simps if_False)
next
  case True
  have k: "currency (mIssue a) = c" "s = main \<and> r = other \<or> s = other \<and> r = main" using True by (auto simp: makeKey_eq)
  have mr: "side main other (if s < r then (x, y) else (y, x)) = (if r = main then y else x)" for x y
    using k(2) assms(3) by (auto simp: side_def)
  show ?thesis
  proof (cases "map_of m (makeKey main other c)")
    case None
    then obtain z where z: "zeroed a = Ok z" "m' = om_put (makeKey main other c) (if s < r then (z, a) else (a, z)) m"
      using assms(2) True k(1) by (auto simp: credit_def Let_def)
    have "owed main other c m = None" "owed main other c m' = Some (if r = main then a else z)"
      using None assms(1) mr [of z a] by (simp_all add: owed_def z(2))
    then show ?thesis using k assms(3) z(1) by auto
  next
    case (Some v)
    obtain l h where v: "v = (l, h)" by (cases v)
    obtain x where x: "plus_amount (if s < r then h else l) a = Ok x" "m' = om_put (makeKey main other c) (if s < r then (l, x) else (x, h)) m"
      using assms(2) True k(1) Some v by (auto simp: credit_def Let_def split: if_splits)
    have "owed main other c m' = Some (if r = main then x else side main other (l, h))"
      using x(2) assms(1,3) k(2) by (auto simp: owed_def side_def)
    moreover have "owed main other c m = Some (side main other (l, h))" using Some v by (simp add: owed_def)
    moreover have "r = main \<Longrightarrow> side main other (l, h) = (if s < r then h else l)"
      using k(2) assms(3) by (auto simp: side_def)
    ultimately show ?thesis using k assms(3) x(1) by auto
  qed
qed

lemma received_Cons:
  "received main other c [x] d = Ok d' \<Longrightarrow> received main other c (x # cs) d = received main other c cs d'"
proof -
  assume h: "received main other c [x] d = Ok d'"
  obtain s r a where x: "x = (s, r, a)" by (cases x) auto
  consider (to) "currency (mIssue a) = c \<and> s = other \<and> r = main"
    | (fro) "\<not> (currency (mIssue a) = c \<and> s = other \<and> r = main)" "currency (mIssue a) = c \<and> s = main \<and> r = other"
    | (no) "\<not> (currency (mIssue a) = c \<and> s = other \<and> r = main)" "\<not> (currency (mIssue a) = c \<and> s = main \<and> r = other)"
    by blast
  then show ?thesis using h unfolding x
    by cases (simp_all only: received.simps if_True if_False rbind_eq_Ok, auto)
qed

lemma run_credits_owed:
  assumes "om_ok m" "run_credits cs m = Ok m'" "main \<noteq> other"
  shows "received main other c cs (owed main other c m) = Ok (owed main other c m')"
  using assms(1,2)
proof (induction cs arbitrary: m)
  case (Cons x cs)
  obtain s r a where x: "x = (s, r, a)" by (cases x) auto
  obtain m1 where m1: "credit s r a m = Ok m1" "run_credits cs m1 = Ok m'" using Cons.prems(2) x by auto
  have ok: "om_ok m1" using credit_om_ok [OF m1(1) Cons.prems(1)] .
  show ?case using received_Cons [OF credit_owed [OF Cons.prems(1) m1(1) assms(3)]] Cons.IH [OF ok m1(2)] x by simp
qed simp

lemma adjustedBalance_owed:
  "adjustedBalance main other cur m =
    (case owed main other (currency (mIssue cur)) m of None \<Rightarrow> Ok cur | Some d \<Rightarrow> minus_amount cur d)"
  by (auto simp: adjustedBalance_def owed_def side_def split: option.splits)

text \<open>
  C17. What a payment credits is not available to it: after any sequence of credits, the balance of an account towards
  another is reported less the sum of what that other account has sent to it in that currency, added up in the order
  of the credits. Credits the other way, of other accounts and in other currencies have no effect on it.
\<close>

theorem credits_unavailable:
  assumes "run_credits cs [] = Ok m" "main \<noteq> other"
  shows "\<exists>d. received main other (currency (mIssue cur)) cs None = Ok d \<and>
    balanceHook [m] main other cur = (case d of None \<Rightarrow> Ok cur | Some x \<Rightarrow> minus_amount cur x)"
  using run_credits_owed [of "[]" cs m main other "currency (mIssue cur)"] assms
  by (simp add: adjustedBalance_owed owed_def)

text \<open>Account 2 sends 5 to account 3 and gets 1 back; 3 then has 4 of its balance of 9 to spend.\<close>

definition sample_due :: "u64 \<Rightarrow> STAmount" where
  "sample_due v = STAmount_unchecked \<lparr>currency = 77, account = 2\<rparr> v (-15) False False"

lemma sample_credits:
  "(case run_credits [(2, 3, sample_due 5000000000000000), (3, 2, sample_due 1000000000000000)] [] of Inl _ \<Rightarrow> False
    | Inr m \<Rightarrow> True)"
  by code_simp

lemma sample_received: "received 3 2 77 [(2, 3, sample_due 5000000000000000), (3, 2, sample_due 1000000000000000)] None = Ok (Some (sample_due 5000000000000000))"
  by code_simp

lemma sample_due_less: "minus_amount (sample_due 9000000000000000) (sample_due 5000000000000000) = Ok (sample_due 4000000000000000)" by code_simp

theorem credits_unavailable_witness:
  "\<exists>m. run_credits [(2, 3, sample_due 5000000000000000), (3, 2, sample_due 1000000000000000)] [] = Ok m \<and>
    balanceHook [m] 3 2 (sample_due 9000000000000000) = Ok (sample_due 4000000000000000)"
proof -
  obtain m where m: "run_credits [(2, 3, sample_due 5000000000000000), (3, 2, sample_due 1000000000000000)] [] = Ok m"
    using sample_credits by (auto split: sum.splits)
  have "currency (mIssue (sample_due 9000000000000000)) = 77" by (simp add: sample_due_def STAmount_unchecked_def)
  with credits_unavailable [OF m, of 3 2 "sample_due 9000000000000000"] sample_received sample_due_less m show ?thesis by auto
qed

end
