(* ===== verification/LedgerEntries.thy ===== *)
theory LedgerEntries
  imports Indexes PaymentSandbox
begin

unbundle bit_operations_syntax

text \<open>
  Account functions of \<open>ledger/impl/View.cpp\<close>: freezes, transfer rates, owner counts, referrals and transfers of native
  currency. They edit the fields of ledger entries (\<open>Fields\<close>, the part of a page of a directory that directories leave
  alone) through a view (\<open>Env\<close>: the \<open>ApplyView\<close> of \<open>EntryView\<close> with the other members that these functions call).
\<close>

section \<open>Fields and views\<close>

text \<open>
  The fields of accounts, trust lines, offers, tickets, signer lists, referral lists, assets and asset states (\<open>protocol/impl/LedgerFormats.cpp\<close>).
  A field whose presence the code asks for is an option; another field that is absent reads as its default. A list
  \<open>sfReferences\<close> is that of its \<open>sfReference\<close>, a release schedule that of its \<open>sfExpiration\<close> and \<open>sfReleaseRate\<close>, a list of
  signers that of whether an element is an \<open>sfSignerEntry\<close>, its account and its weight.
\<close>

record Fields =
  sfAccount :: AccountID
  sfFlags :: u32
  sfOwnerCount :: u32
  sfBalance :: STAmount
  sfBalanceVBC :: STAmount
  sfTransferRate :: "u32 option"
  sfRegularKey :: "AccountID option"
  sfReferee :: "AccountID option"
  sfReferences :: "AccountID list option"
  sfDividendState :: u8
  sfDividendLedger :: "u32 option"
  sfDividendVSprd :: "u64 option"
  sfLowLimit :: STAmount
  sfHighLimit :: STAmount
  sfLowNode :: "u64 option"
  sfHighNode :: "u64 option"
  sfLowQualityIn :: u32
  sfHighQualityIn :: u32
  sfLowQualityOut :: u32
  sfHighQualityOut :: u32
  sfReserve :: "STAmount option"
  sfOwner :: AccountID
  sfOwnerNode :: "u64 option"
  sfBookNode :: u64
  sfBookDirectory :: uint256
  sfAmount :: STAmount
  sfDeliveredAmount :: STAmount
  sfNextReleaseTime :: u32
  sfReleaseSchedule :: "(u32 \<times> u32) list option"
  sfSequence :: u32
  sfAccountTxnID :: "uint256 option"
  sfTarget :: "AccountID option"
  sfExpiration :: "u32 option"
  sfSignerQuorum :: u32
  sfSignerListID :: "u32 option"
  sfSignerEntries :: "(bool \<times> AccountID \<times> u16) list option"
  sfTakerPays :: STAmount
  sfTakerGets :: STAmount

text \<open>The regular key, an absent account reads as zero.\<close>

definition regular_key :: "Fields \<Rightarrow> AccountID" where
  "regular_key f = (case sfRegularKey f of None \<Rightarrow> 0 | Some a \<Rightarrow> a)"

text \<open>\<open>STAmount ()\<close>, the value of an amount that is absent, and a new entry.\<close>

definition no_amount :: STAmount where
  "no_amount = STAmount_drops 0 False"

definition no_fields :: Fields where
  "no_fields = \<lparr>sfAccount = 0, sfFlags = 0, sfOwnerCount = 0, sfBalance = no_amount, sfBalanceVBC = no_amount,
     sfTransferRate = None, sfRegularKey = None, sfReferee = None, sfReferences = None, sfDividendState = 0, sfDividendLedger = None,
     sfDividendVSprd = None, sfLowLimit = no_amount, sfHighLimit = no_amount, sfLowNode = None, sfHighNode = None,
     sfLowQualityIn = 0, sfHighQualityIn = 0, sfLowQualityOut = 0, sfHighQualityOut = 0, sfReserve = None, sfOwner = 0,
     sfOwnerNode = None, sfBookNode = 0, sfBookDirectory = 0, sfAmount = no_amount, sfDeliveredAmount = no_amount,
     sfNextReleaseTime = 0, sfReleaseSchedule = None, sfSequence = 0, sfAccountTxnID = None, sfTarget = None, sfExpiration = None,
     sfSignerQuorum = 0, sfSignerListID = None, sfSignerEntries = None, sfTakerPays = no_amount, sfTakerGets = no_amount\<rparr>"

type_synonym entry = "Fields page"
type_synonym entry_ref = "nat \<times> entry"

abbreviation flds :: "entry \<Rightarrow> Fields" where
  "flds e \<equiv> sfOther (sle_data e)"

definition edit_fields :: "(Fields \<Rightarrow> Fields) \<Rightarrow> entry \<Rightarrow> entry" where
  "edit_fields f e = e\<lparr>sle_data := (sle_data e)\<lparr>sfOther := f (flds e)\<rparr>\<rparr>"

definition make_entry :: "Keylet \<Rightarrow> entry" where
  "make_entry k = \<lparr>sle_key = kl_key k, sle_type = kl_type k,
     sle_data = \<lparr>sfRootIndex = 0, sfIndexes = [], sfIndexNext = 0, sfIndexPrevious = 0, sfOther = no_fields\<rparr>\<rparr>"

record 's Env =
  env_sha :: hash
  env_av :: "(Fields DirPage, 's) ApplyView"
  env_read :: "Keylet \<Rightarrow> 's \<Rightarrow> entry option"
  env_exists :: "Keylet \<Rightarrow> 's \<Rightarrow> bool"
  env_succ :: "key \<Rightarrow> key option \<Rightarrow> 's \<Rightarrow> key option option"
  env_creditHook :: "AccountID \<Rightarrow> AccountID \<Rightarrow> STAmount \<Rightarrow> 's \<Rightarrow> 's res"
  env_balanceHook :: "AccountID \<Rightarrow> AccountID \<Rightarrow> STAmount \<Rightarrow> 's \<Rightarrow> STAmount res"
  env_takers :: "'s \<Rightarrow> (AccountID \<times> STAmount) list"
  env_set_takers :: "(AccountID \<times> STAmount) list \<Rightarrow> 's \<Rightarrow> 's"
  env_open :: bool
  env_reserve :: u32
  env_increment :: u32
  env_parentCloseTime :: u32

abbreviation peek_entry :: "'s Env \<Rightarrow> Keylet \<Rightarrow> 's \<Rightarrow> entry_ref option \<times> 's" where
  "peek_entry V k s \<equiv> av_peek (env_av V) k s"

text \<open>Looking through a pointer, which may be null.\<close>

definition deref :: "'a option \<times> 's \<Rightarrow> ('a \<times> 's) res" where
  "deref r = (case r of (None, _) \<Rightarrow> Throw NullDeref | (Some p, s) \<Rightarrow> Ok (p, s))"

text \<open>The entry of a pointer that has been held while other entries were changed.\<close>

definition again :: "'s Env \<Rightarrow> entry_ref \<Rightarrow> 's \<Rightarrow> (entry_ref \<times> 's) res" where
  "again V r s = deref (peek_entry V \<lparr>kl_type = sle_type (snd r), kl_key = sle_key (snd r)\<rparr> s)"

definition update_entry :: "'s Env \<Rightarrow> (Fields \<Rightarrow> Fields) \<Rightarrow> entry_ref \<Rightarrow> 's \<Rightarrow> 's res" where
  "update_entry V f r s = av_update (env_av V) (fst r, edit_fields f (snd r)) s"

section \<open>Flags\<close>

definition lsfGlobalFreeze :: u32 where "lsfGlobalFreeze = 0x00400000"
definition lsfDefaultRipple :: u32 where "lsfDefaultRipple = 0x00800000"
definition lsfLowReserve :: u32 where "lsfLowReserve = 0x00010000"
definition lsfHighReserve :: u32 where "lsfHighReserve = 0x00020000"
definition lsfLowAuth :: u32 where "lsfLowAuth = 0x00040000"
definition lsfHighAuth :: u32 where "lsfHighAuth = 0x00080000"
definition lsfLowNoRipple :: u32 where "lsfLowNoRipple = 0x00100000"
definition lsfHighNoRipple :: u32 where "lsfHighNoRipple = 0x00200000"
definition lsfLowFreeze :: u32 where "lsfLowFreeze = 0x00400000"
definition lsfHighFreeze :: u32 where "lsfHighFreeze = 0x00800000"

definition isFlag :: "entry \<Rightarrow> u32 \<Rightarrow> bool" where
  "isFlag e f \<longleftrightarrow> sfFlags (flds e) AND f = f"

definition assetCurrency :: Currency where
  "assetCurrency = 0x4153534554000000000000000000000000000000"

definition isGlobalFrozen :: "'s Env \<Rightarrow> AccountID \<Rightarrow> 's \<Rightarrow> bool" where
  "isGlobalFrozen V issuer s =
     (if isNative_acc issuer then False
      else case env_read V (keylet_account (env_sha V) issuer) s of None \<Rightarrow> False | Some sle \<Rightarrow> isFlag sle lsfGlobalFreeze)"

definition isFrozen :: "'s Env \<Rightarrow> AccountID \<Rightarrow> Currency \<Rightarrow> AccountID \<Rightarrow> 's \<Rightarrow> bool" where
  "isFrozen V acc cur issuer s =
     (if isNative_cur cur then False
      else if (case env_read V (keylet_account (env_sha V) issuer) s of None \<Rightarrow> False | Some sle \<Rightarrow> isFlag sle lsfGlobalFreeze) then True
      else if issuer \<noteq> acc then
        case env_read V (keylet_line (env_sha V) acc issuer cur) s of
          None \<Rightarrow> False
        | Some sle \<Rightarrow> isFlag sle (if issuer > acc then lsfHighFreeze else lsfLowFreeze)
      else False)"

section \<open>Rates and owner counts\<close>

definition QUALITY_ONE_u32 :: u32 where "QUALITY_ONE_u32 = 1000000000"

definition rippleTransferRate :: "'s Env \<Rightarrow> AccountID \<Rightarrow> 's \<Rightarrow> u32" where
  "rippleTransferRate V issuer s =
     (case env_read V (keylet_account (env_sha V) issuer) s of
        None \<Rightarrow> QUALITY_ONE_u32
      | Some sle \<Rightarrow> (case sfTransferRate (flds sle) of None \<Rightarrow> QUALITY_ONE_u32 | Some q \<Rightarrow> q))"

definition rippleTransferRate_between :: "'s Env \<Rightarrow> AccountID \<Rightarrow> AccountID \<Rightarrow> AccountID \<Rightarrow> 's \<Rightarrow> u32" where
  "rippleTransferRate_between V uSenderID uReceiverID issuer s =
     (if uSenderID = issuer \<or> uReceiverID = issuer then QUALITY_ONE_u32 else rippleTransferRate V issuer s)"

definition adjusted_count :: "u32 \<Rightarrow> int \<Rightarrow> u32 res" where
  "adjusted_count current amount =
     (let adjusted = current + word_of_int amount in
      if amount > 0 then Ok (if adjusted < current then -1 else adjusted)
      else if adjusted > current then Throw AssertFailed else Ok adjusted)"

definition adjustOwnerCount :: "'s Env \<Rightarrow> entry_ref \<Rightarrow> int \<Rightarrow> 's \<Rightarrow> 's res" where
  "adjustOwnerCount V sle amount s =
     rbind (require (amount \<noteq> 0) AssertFailed) (\<lambda>_.
     rbind (adjusted_count (sfOwnerCount (flds (snd sle))) amount) (\<lambda>adjusted.
       update_entry V (\<lambda>f. f\<lparr>sfOwnerCount := adjusted\<rparr>) sle s))"

section \<open>Referrals\<close>

definition refer_list :: "entry option \<Rightarrow> AccountID list option" where
  "refer_list e = (case e of None \<Rightarrow> None | Some sle \<Rightarrow> sfReferences (flds sle))"

definition addRefer :: "'s Env \<Rightarrow> AccountID \<Rightarrow> AccountID \<Rightarrow> 's \<Rightarrow> (TER \<times> 's) res" where
  "addRefer V refereeID referenceID s =
     (if refereeID = referenceID then Ok (temDST_IS_SRC, s)
      else
        let (sleReferee, s) = peek_entry V (keylet_account (env_sha V) refereeID) s;
            (sleReference, s) = peek_entry V (keylet_account (env_sha V) referenceID) s;
            referKeylet = \<lparr>kl_type = ltREFER, kl_key = getAccountReferIndex (env_sha V) refereeID\<rparr>;
            (sleRefereeRefer, s) = peek_entry V referKeylet s;
            sleReferenceRefer = env_read V \<lparr>kl_type = ltREFER, kl_key = getAccountReferIndex (env_sha V) referenceID\<rparr> s
        in if refer_list sleReferenceRefer \<noteq> None then Ok (tefREFERENCE_EXIST, s)
        else case sleReferee of None \<Rightarrow> Ok (tecNO_DST, s) | Some _ \<Rightarrow>
        (case sleReference of None \<Rightarrow> Ok (terNO_ACCOUNT, s) | Some reference \<Rightarrow>
          if (case sfReferee (flds (snd reference)) of None \<Rightarrow> False | Some a \<Rightarrow> a \<noteq> 0) then Ok (tefREFEREE_EXIST, s)
          else
            let references = (case refer_list (map_option snd sleRefereeRefer) of None \<Rightarrow> [] | Some l \<Rightarrow> l) in
            if length references > 1024 then Ok (tecDIR_FULL, s)
            else if referenceID \<in> set references then Ok (tefREFERENCE_EXIST, s)
            else
              rbind (case sleRefereeRefer of
                  Some refer \<Rightarrow> update_entry V (\<lambda>f. f\<lparr>sfAccount := refereeID, sfReferences := Some (references @ [referenceID])\<rparr>) refer s
                | None \<Rightarrow> av_insert (env_av V) (edit_fields (\<lambda>f. f\<lparr>sfAccount := refereeID, sfReferences := Some (references @ [referenceID])\<rparr>)
                    (make_entry referKeylet)) s) (\<lambda>s.
              rbind (update_entry V (\<lambda>f. f\<lparr>sfReferee := Some refereeID\<rparr>) reference s) (\<lambda>s.
              Ok (tesSUCCESS, s)))))"

section \<open>Transfers of native currency\<close>

definition native_balance :: "bool \<Rightarrow> Fields \<Rightarrow> STAmount" where
  "native_balance vbc f = (if vbc then sfBalanceVBC f else sfBalance f)"

definition set_native_balance :: "bool \<Rightarrow> STAmount \<Rightarrow> Fields \<Rightarrow> Fields" where
  "set_native_balance vbc a f = (if vbc then f\<lparr>sfBalanceVBC := a\<rparr> else f\<lparr>sfBalance := a\<rparr>)"

definition failed_processing :: "'s Env \<Rightarrow> TER" where
  "failed_processing V = (if env_open V then telFAILED_PROCESSING else tecFAILED_PROCESSING)"

definition transferXRP :: "'s Env \<Rightarrow> AccountID \<Rightarrow> AccountID \<Rightarrow> STAmount \<Rightarrow> 's \<Rightarrow> (TER \<times> 's) res" where
  "transferXRP V from to amount s =
     rbind (require (from \<noteq> 0) AssertFailed) (\<lambda>_.
     rbind (require (to \<noteq> 0) AssertFailed) (\<lambda>_.
     rbind (require (from \<noteq> to) AssertFailed) (\<lambda>_.
     rbind (require (mIsNative amount) AssertFailed) (\<lambda>_.
     let (sender, s) = peek_entry V (keylet_account (env_sha V) from) s;
         (receiver, s) = peek_entry V (keylet_account (env_sha V) to) s;
         vbc = isVBC amount
     in rbind (deref (sender, s)) (\<lambda>(sender, s).
        let balance = native_balance vbc (flds (snd sender)) in
        rbind (less_amount balance amount) (\<lambda>short.
        if short then Ok (failed_processing V, s)
        else
          rbind (minus_amount balance amount) (\<lambda>b.
          rbind (update_entry V (set_native_balance vbc b) sender s) (\<lambda>s.
          rbind (deref (receiver, s)) (\<lambda>(receiver, s).
          rbind (again V receiver s) (\<lambda>(receiver, s).
          rbind (plus_amount (native_balance vbc (flds (snd receiver))) amount) (\<lambda>b.
          rbind (update_entry V (set_native_balance vbc b) receiver s) (\<lambda>s.
          Ok (tesSUCCESS, s))))))))))))) "

end
