(* ===== verification/TrustLines.thy ===== *)
theory TrustLines
  imports LedgerEntries
begin

unbundle bit_operations_syntax

text \<open>
  Trust lines, offers and asset states (\<open>ledger/impl/View.cpp\<close>): creating and deleting lines and offers, the release of
  assets, and the functions that move issued amounts. An entry that the code fills in through its pointer after \<open>insert\<close>
  and other changes is looked up again and updated. A line that is passed on to a function that changes it is the pointer;
  the caller looks at it again afterwards.
\<close>

section \<open>Lines and offers\<close>

definition add_owner :: "'s Env \<Rightarrow> AccountID \<Rightarrow> key \<Rightarrow> 's \<Rightarrow> (TER \<times> u64 \<times> 's) res" where
  "add_owner V acc k s =
     dirAdd (env_sha V) (env_av V) no_fields (getOwnerDirIndex (env_sha V) acc) k (\<lambda>f _. f\<lparr>sfOwner := acc\<rparr>) s"

definition delete_owner :: "'s Env \<Rightarrow> u64 \<Rightarrow> AccountID \<Rightarrow> key \<Rightarrow> bool \<Rightarrow> bool \<Rightarrow> 's \<Rightarrow> (TER \<times> 's) res" where
  "delete_owner V node acc k bStable bSoft s =
     dirDelete (env_sha V) (env_av V) False node (getOwnerDirIndex (env_sha V) acc) k bStable bSoft s"

definition node_of :: "u64 option \<Rightarrow> u64" where
  "node_of n = (case n of None \<Rightarrow> 0 | Some x \<Rightarrow> x)"

text \<open>The fields of a new line.\<close>

definition line_flags :: "bool \<Rightarrow> bool \<Rightarrow> bool \<Rightarrow> bool \<Rightarrow> u32" where
  "line_flags bSetHigh bAuth bNoRipple bFreeze =
     (if bSetHigh then lsfHighReserve else lsfLowReserve)
     OR (if bAuth then (if bSetHigh then lsfHighAuth else lsfLowAuth) else 0)
     OR (if bNoRipple then (if bSetHigh then lsfHighNoRipple else lsfLowNoRipple) else 0)
     OR (if bFreeze then (if \<not> bSetHigh then lsfLowFreeze else lsfHighFreeze) else 0)"

definition new_line :: "bool \<Rightarrow> u64 \<Rightarrow> u64 \<Rightarrow> STAmount \<Rightarrow> STAmount \<Rightarrow> u32 \<Rightarrow> u32 \<Rightarrow> u32 \<Rightarrow> STAmount \<Rightarrow> STAmount option \<Rightarrow> Fields \<Rightarrow> Fields" where
  "new_line bSetHigh uLowNode uHighNode saLimit peerLimit uQualityIn uQualityOut uFlags saBalance reserve f =
     f\<lparr>sfLowNode := Some uLowNode, sfHighNode := Some uHighNode,
       sfHighLimit := if bSetHigh then saLimit else peerLimit, sfLowLimit := if bSetHigh then peerLimit else saLimit,
       sfHighQualityIn := if bSetHigh then uQualityIn else 0, sfLowQualityIn := if bSetHigh then 0 else uQualityIn,
       sfHighQualityOut := if bSetHigh then uQualityOut else 0, sfLowQualityOut := if bSetHigh then 0 else uQualityOut,
       sfFlags := uFlags, sfBalance := if bSetHigh then uminus_amount saBalance else saBalance, sfReserve := reserve\<rparr>"

definition trustCreate :: "'s Env \<Rightarrow> bool \<Rightarrow> AccountID \<Rightarrow> AccountID \<Rightarrow> uint256 \<Rightarrow> entry_ref option \<Rightarrow> bool \<Rightarrow> bool \<Rightarrow> bool \<Rightarrow>
    STAmount \<Rightarrow> STAmount \<Rightarrow> u32 \<Rightarrow> u32 \<Rightarrow> 's \<Rightarrow> (TER \<times> 's) res" where
  "trustCreate V bSrcHigh uSrcAccountID uDstAccountID uIndex sleAccount bAuth bNoRipple bFreeze saBalance saLimit uQualityIn uQualityOut s =
     (let uLowAccountID = (if \<not> bSrcHigh then uSrcAccountID else uDstAccountID);
          uHighAccountID = (if bSrcHigh then uSrcAccountID else uDstAccountID);
          lineKeylet = \<lparr>kl_type = ltRIPPLE_STATE, kl_key = uIndex\<rparr>
      in rbind (av_insert (env_av V) (make_entry lineKeylet) s) (\<lambda>s.
         rbind (add_owner V uLowAccountID uIndex s) (\<lambda>(terResult, uLowNode, s).
         rbind (if terResult = tesSUCCESS then add_owner V uHighAccountID uIndex s else Ok (terResult, 0, s)) (\<lambda>(terResult, uHighNode, s).
         if terResult \<noteq> tesSUCCESS then Ok (terResult, s)
         else
           let bSetDst = (account (mIssue saLimit) = uDstAccountID); bSetHigh = (bSrcHigh \<noteq> bSetDst) in
           rbind (deref (sleAccount, s)) (\<lambda>(sleAccount, s).
           rbind (again V sleAccount s) (\<lambda>(sleAccount, s).
           rbind (require (sfAccount (flds (snd sleAccount)) = (if bSetHigh then uHighAccountID else uLowAccountID)) AssertFailed) (\<lambda>_.
           let (slePeer, s) = peek_entry V (keylet_account (env_sha V) (if bSetHigh then uLowAccountID else uHighAccountID)) s in
           rbind (require (slePeer \<noteq> None) AssertFailed) (\<lambda>_.
           rbind (STAmount_canonical \<lparr>currency = currency (mIssue saBalance), account = if bSetDst then uSrcAccountID else uDstAccountID\<rparr> 0 0 False) (\<lambda>peerLimit.
           rbind (adjustOwnerCount V sleAccount 1 s) (\<lambda>s.
           rbind (if currency (mIssue saLimit) = assetCurrency
               then rbind (STAmount_canonical \<lparr>currency = assetCurrency, account = noAccount\<rparr> 0 0 False) (\<lambda>a. Ok (Some a)) else Ok None) (\<lambda>reserve.
           rbind (deref (peek_entry V lineKeylet s)) (\<lambda>(sleRippleState, s).
           rbind (update_entry V (new_line bSetHigh uLowNode uHighNode saLimit peerLimit uQualityIn uQualityOut
               (line_flags bSetHigh bAuth (bNoRipple \<or> currency (mIssue saLimit) = assetCurrency) bFreeze) saBalance reserve)
               sleRippleState s) (\<lambda>s.
           rbind (env_creditHook V uSrcAccountID uDstAccountID saBalance s) (\<lambda>s.
           Ok (tesSUCCESS, s)))))))))))))))"

definition trustDelete :: "'s Env \<Rightarrow> entry_ref \<Rightarrow> AccountID \<Rightarrow> AccountID \<Rightarrow> 's \<Rightarrow> (TER \<times> 's) res" where
  "trustDelete V sleRippleState uLowAccountID uHighAccountID s =
     (let f = flds (snd sleRippleState); k = sle_key (snd sleRippleState) in
      rbind (delete_owner V (node_of (sfLowNode f)) uLowAccountID k False (sfLowNode f = None) s) (\<lambda>(terResult, s).
      rbind (if terResult = tesSUCCESS then delete_owner V (node_of (sfHighNode f)) uHighAccountID k False (sfHighNode f = None) s
             else Ok (terResult, s)) (\<lambda>(terResult, s).
      rbind (av_erase (env_av V) sleRippleState s) (\<lambda>s.
      Ok (terResult, s)))))"

definition offerDelete :: "'s Env \<Rightarrow> entry_ref option \<Rightarrow> 's \<Rightarrow> (TER \<times> 's) res" where
  "offerDelete V sle s =
     (case sle of
        None \<Rightarrow> Ok (tesSUCCESS, s)
      | Some sle \<Rightarrow>
          let f = flds (snd sle); offerIndex = sle_key (snd sle) in
          rbind (delete_owner V (node_of (sfOwnerNode f)) (sfAccount f) offerIndex False (sfOwnerNode f = None) s) (\<lambda>(terResult, s).
          rbind (dirDelete (env_sha V) (env_av V) False (sfBookNode f) (sfBookDirectory f) offerIndex True False s) (\<lambda>(terResult2, s).
          rbind (if terResult = tesSUCCESS then
                   rbind (deref (peek_entry V (keylet_account (env_sha V) (sfAccount f)) s)) (\<lambda>(owner, s). adjustOwnerCount V owner (-1) s)
                 else Ok s) (\<lambda>s.
          rbind (av_erase (env_av V) sle s) (\<lambda>s.
          Ok (if terResult = tesSUCCESS then terResult2 else terResult, s))))))"

section \<open>Release of assets\<close>

text \<open>The points of a schedule that are past, and the rate and the next interval that they give.\<close>

definition point_due :: "u64 \<Rightarrow> u32 \<Rightarrow> u32 \<times> u32 \<Rightarrow> bool" where
  "point_due boughtTime parentCloseTime p \<longleftrightarrow> \<not> boughtTime + ucast (fst p) > ucast parentCloseTime"

definition schedule_at :: "(u32 \<times> u32) list \<Rightarrow> u64 \<Rightarrow> u32 \<Rightarrow> u32 \<times> u32 \<times> bool" where
  "schedule_at releaseSchedule boughtTime parentCloseTime =
     (let due = takeWhile (point_due boughtTime parentCloseTime) releaseSchedule in
      if releaseSchedule = [] then (0, 0, True)
      else if length due = length releaseSchedule then (snd (last releaseSchedule), 0, True)
      else (if due = [] then 0 else snd (last due), fst (releaseSchedule ! length due), False))"

definition assetReleased :: "'s Env \<Rightarrow> STAmount \<Rightarrow> uint256 \<Rightarrow> entry_ref \<Rightarrow> 's \<Rightarrow> (STAmount \<times> bool \<times> 's) res" where
  "assetReleased V amount assetStateIndex sleAssetState s =
     rbind (STAmount_canonical (mIssue amount) 0 0 False) (\<lambda>released.
     case env_read V (keylet_asset (env_sha V) (account (mIssue amount)) (currency (mIssue amount))) s of
       None \<Rightarrow> Ok (released, False, s)
     | Some sleAsset \<Rightarrow>
         let boughtTime = getQuality assetStateIndex;
             releaseSchedule = (case sfReleaseSchedule (flds sleAsset) of None \<Rightarrow> [] | Some l \<Rightarrow> l);
             (releaseRate, nextInterval, bIsReleaseFinished) = schedule_at releaseSchedule boughtTime (env_parentCloseTime V)
         in rbind (if \<not> bIsReleaseFinished \<and> nextInterval > 0
                then update_entry V (\<lambda>f. f\<lparr>sfNextReleaseTime := ucast boughtTime + nextInterval\<rparr>) sleAssetState s else Ok s) (\<lambda>s.
            if releaseRate > 0 then
              rbind (amountFromRate (ucast releaseRate)) (\<lambda>r.
              rbind (mulRound amount r (mIssue amount) True (STAmountCalcSwitchovers_at (env_parentCloseTime V))) (\<lambda>m.
              rbind (floor_amount 0 m) (\<lambda>released. Ok (released, bIsReleaseFinished, s))))
            else Ok (released, bIsReleaseFinished, s)))"

text \<open>Whether an asset state is one between the two accounts.\<close>

definition state_between :: "AccountID \<Rightarrow> AccountID \<Rightarrow> Fields \<Rightarrow> bool" where
  "state_between uSrcAccountID uDstAccountID f \<longleftrightarrow>
     sfAccount f = uSrcAccountID \<and> account (mIssue (sfAmount f)) = uDstAccountID \<or>
     sfAccount f = uDstAccountID \<and> account (mIssue (sfAmount f)) = uSrcAccountID"

text \<open>The forever locked part of a state goes to the state at time zero.\<close>

definition add_to_zero_state :: "'s Env \<Rightarrow> AccountID \<Rightarrow> AccountID \<Rightarrow> uint256 \<Rightarrow> AccountID \<Rightarrow> STAmount \<Rightarrow> STAmount \<Rightarrow> 's \<Rightarrow> (TER \<times> 's) res" where
  "add_to_zero_state V uSrcAccountID uDstAccountID zero owner amount released s =
     (let bDstHigh = uSrcAccountID < uDstAccountID in
      case peek_entry V (keylet_asset_state zero) s of
        (Some sleAssetStateZero, s) \<Rightarrow>
          rbind (plus_amount (sfAmount (flds (snd sleAssetStateZero))) amount) (\<lambda>a.
          rbind (plus_amount (sfDeliveredAmount (flds (snd sleAssetStateZero))) released) (\<lambda>d.
          rbind (update_entry V (\<lambda>f. f\<lparr>sfAmount := a, sfDeliveredAmount := d\<rparr>) sleAssetStateZero s) (\<lambda>s.
          Ok (tesSUCCESS, s))))
      | (None, s) \<Rightarrow>
          rbind (av_insert (env_av V) (make_entry (keylet_asset_state zero)) s) (\<lambda>s.
          rbind (add_owner V uDstAccountID zero s) (\<lambda>(terResult, dstNode, s).
          if terResult \<noteq> tesSUCCESS then Ok (terResult, s)
          else rbind (add_owner V uSrcAccountID zero s) (\<lambda>(terResult, srcNode, s).
          if terResult \<noteq> tesSUCCESS then Ok (terResult, s)
          else rbind (deref (peek_entry V (keylet_asset_state zero) s)) (\<lambda>(sleAssetStateZero, s).
          rbind (update_entry V (\<lambda>f. f\<lparr>sfLowNode := Some (if bDstHigh then srcNode else dstNode),
              sfHighNode := Some (if bDstHigh then dstNode else srcNode), sfAccount := owner, sfAmount := amount,
              sfDeliveredAmount := released\<rparr>) sleAssetStateZero s) (\<lambda>s.
          rbind (deref (peek_entry V (keylet_account (env_sha V) owner) s)) (\<lambda>(o', s).
          rbind (adjustOwnerCount V o' 1 s) (\<lambda>s.
          Ok (tesSUCCESS, s)))))))))"

definition compact_state :: "'s Env \<Rightarrow> AccountID \<Rightarrow> AccountID \<Rightarrow> uint256 \<Rightarrow> entry_ref \<Rightarrow> STAmount \<Rightarrow> 's \<Rightarrow> (TER \<times> 's) res" where
  "compact_state V uSrcAccountID uDstAccountID zero sleAssetState released s =
     (let f = flds (snd sleAssetState); k = sle_key (snd sleAssetState); bDstHigh = uSrcAccountID < uDstAccountID;
          uLowNode = node_of (sfLowNode f); uHighNode = node_of (sfHighNode f)
      in rbind (if \<not> eq_amount (sfAmount f) released
             then add_to_zero_state V uSrcAccountID uDstAccountID zero (sfAccount f) (sfAmount f) released s
             else Ok (tesSUCCESS, s)) (\<lambda>(terResult, s).
         if terResult \<noteq> tesSUCCESS then Ok (terResult, s)
         else rbind (delete_owner V (if bDstHigh then uHighNode else uLowNode) uDstAccountID k True False s) (\<lambda>(terResult, s).
         if terResult \<noteq> tesSUCCESS then Ok (terResult, s)
         else rbind (delete_owner V (if bDstHigh then uLowNode else uHighNode) uSrcAccountID k True False s) (\<lambda>(terResult, s).
         if terResult \<noteq> tesSUCCESS then Ok (terResult, s)
         else rbind (av_erase (env_av V) sleAssetState s) (\<lambda>s.
              rbind (deref (peek_entry V (keylet_account (env_sha V) (sfAccount f)) s)) (\<lambda>(o', s).
              rbind (adjustOwnerCount V o' (-1) s) (\<lambda>s.
              Ok (tesSUCCESS, s))))))))"

text \<open>
  One asset state of the loop of \<open>assetRelease\<close>: the result (anything but \<open>tesSUCCESS\<close> ends the loop), the balance, the
  reserve and the line.
\<close>

type_synonym 's releasing = "TER \<times> STAmount \<times> STAmount \<times> entry_ref \<times> 's"

definition released_of :: "'s Env \<Rightarrow> uint256 \<Rightarrow> STAmount \<Rightarrow> STAmount \<Rightarrow> entry_ref \<Rightarrow> 's \<Rightarrow> (STAmount \<times> bool \<times> 's) res" where
  "released_of V k amount delivered sleAssetState s =
     rbind (if sfNextReleaseTime (flds (snd sleAssetState)) > env_parentCloseTime V then Ok (delivered, False, s)
            else assetReleased V amount k sleAssetState s) (\<lambda>(released, bIsReleaseFinished, s).
     case env_read V (keylet_asset (env_sha V) (account (mIssue amount)) (currency (mIssue amount))) s of
       None \<Rightarrow> Ok (released, bIsReleaseFinished, s)
     | Some sleAsset \<Rightarrow>
         if sfReleaseSchedule (flds sleAsset) = Some [] then Ok (amount, True, s) else Ok (released, bIsReleaseFinished, s))"

definition release_state :: "'s Env \<Rightarrow> AccountID \<Rightarrow> AccountID \<Rightarrow> uint256 \<Rightarrow> uint256 \<Rightarrow> 's releasing \<Rightarrow> 's releasing res" where
  "release_state V uSrcAccountID uDstAccountID zero k st =
     (case st of (terResult, saBalance, saReserve, line, s) \<Rightarrow>
      case peek_entry V (keylet_asset_state k) s of
        (None, s) \<Rightarrow> Ok (terResult, saBalance, saReserve, line, s)
      | (Some sleAssetState, s) \<Rightarrow>
          let f = flds (snd sleAssetState); amount = sfAmount f in
          if \<not> state_between uSrcAccountID uDstAccountID f then Ok (terResult, saBalance, saReserve, line, s)
          else
            let delivered = (if is_zero (sfDeliveredAmount f) then setIssue (mIssue amount) (sfDeliveredAmount f) else sfDeliveredAmount f) in
            rbind (released_of V k amount delivered sleAssetState s) (\<lambda>(released, bIsReleaseFinished, s).
            let bIssuerHigh = account (mIssue amount) > sfAccount f;
                saReserve = (if is_zero saReserve then setIssue (mIssue amount) saReserve else saReserve)
            in rbind (minus_amount amount released) (\<lambda>reserve.
            rbind (plus_amount saReserve (if \<not> bIssuerHigh then negate reserve else reserve)) (\<lambda>saReserve.
            rbind (le_amount released delivered) (\<lambda>nothing_new.
            if nothing_new then Ok (terResult, saBalance, saReserve, line, s)
            else
              rbind (again V sleAssetState s) (\<lambda>(sleAssetState, s).
              rbind (if \<not> bIsReleaseFinished
                     then rbind (update_entry V (\<lambda>f. f\<lparr>sfDeliveredAmount := released\<rparr>) sleAssetState s) (\<lambda>s. Ok (tesSUCCESS, s))
                     else compact_state V uSrcAccountID uDstAccountID zero sleAssetState released s) (\<lambda>(terResult, s).
              if terResult \<noteq> tesSUCCESS then Ok (terResult, saBalance, saReserve, line, s)
              else
                rbind (minus_amount (setIssue (mIssue saBalance) released) (setIssue (mIssue saBalance) delivered)) (\<lambda>d.
                rbind (if bIssuerHigh then plus_amount saBalance d else minus_amount saBalance d) (\<lambda>saBalance.
                let line = (fst line, edit_fields (\<lambda>f. f\<lparr>sfBalance := saBalance\<rparr>) (snd line)) in
                rbind (av_update (env_av V) line s) (\<lambda>s.
                Ok (tesSUCCESS, saBalance, saReserve, line, s))))))))))) "

text \<open>\<open>succ\<close> gives a key above the one it is asked for; on a view that did not, the loop would not end.\<close>

function release_loop :: "'s Env \<Rightarrow> AccountID \<Rightarrow> AccountID \<Rightarrow> uint256 \<Rightarrow> uint256 \<Rightarrow> uint256 \<Rightarrow> 's releasing \<Rightarrow> 's releasing res" where
  "release_loop V uSrcAccountID uDstAccountID zero end' assetStateIndex st =
     (case env_succ V assetStateIndex (Some end') (snd (snd (snd (snd st)))) of
        None \<Rightarrow> Throw Diverges
      | Some None \<Rightarrow> Ok st
      | Some (Some k) \<Rightarrow>
          if k \<le> assetStateIndex then Throw Diverges
          else rbind (release_state V uSrcAccountID uDstAccountID zero k st) (\<lambda>st.
            if fst st \<noteq> tesSUCCESS then Ok st
            else release_loop V uSrcAccountID uDstAccountID zero end' k st))"
  by pat_completeness auto
termination
proof (relation "measure (\<lambda>(V, a, b, z, e, k, st). 2 ^ 256 - unat k)", goal_cases)
  case (2 V src dst zero end' k0 st x2 k s)
  then have "unat k0 < unat k" by (simp add: not_le word_less_nat_alt)
  moreover have "unat k < 2 ^ 256" using unsigned_less [of k, where ?'a = nat] by simp
  ultimately show ?case by (simp only: in_measure split_conv)
qed simp

definition assetRelease :: "'s Env \<Rightarrow> AccountID \<Rightarrow> AccountID \<Rightarrow> Currency \<Rightarrow> entry_ref \<Rightarrow> 's \<Rightarrow> (TER \<times> 's) res" where
  "assetRelease V uSrcAccountID uDstAccountID cur sleRippleState s =
     rbind (STAmount_canonical \<lparr>currency = assetCurrency, account = noAccount\<rparr> 0 0 False) (\<lambda>saReserve.
     let assetStateIndex = getQualityIndex (getAssetStateIndex (env_sha V) uSrcAccountID uDstAccountID cur) 0;
         saBalance = sfBalance (flds (snd sleRippleState));
         (sleAssetState, s) = peek_entry V (keylet_asset_state assetStateIndex) s
     in rbind (case sleAssetState of
            None \<Rightarrow> Ok saReserve
          | Some z \<Rightarrow>
              let f = flds (snd z) in
              if state_between uSrcAccountID uDstAccountID f then
                if account (mIssue (sfAmount f)) > sfAccount f then minus_amount (sfAmount f) (sfDeliveredAmount f)
                else minus_amount (sfDeliveredAmount f) (sfAmount f)
              else Ok saReserve) (\<lambda>saReserve.
        rbind (release_loop V uSrcAccountID uDstAccountID assetStateIndex (getQualityNext assetStateIndex) assetStateIndex
            (tesSUCCESS, saBalance, saReserve, sleRippleState, s)) (\<lambda>(terResult, saBalance, saReserve, line, s).
        let saReserve = setIssue (mIssue saBalance) saReserve in
        rbind (if (case sfReserve (flds (snd line)) of None \<Rightarrow> True | Some r \<Rightarrow> \<not> eq_amount r saReserve)
               then update_entry V (\<lambda>f. f\<lparr>sfReserve := Some saReserve\<rparr>) line s else Ok s) (\<lambda>s.
        Ok (terResult, s)))))"

section \<open>Assets\<close>

definition ASSET_INTERVAL_MIN :: u32 where "ASSET_INTERVAL_MIN = 86400"
definition ASSET_LIMIT_DEFAULT :: u64 where "ASSET_LIMIT_DEFAULT = 10000000"

text \<open>The state that an amount sent by the issuer of an asset is added to.\<close>

definition add_asset_state :: "'s Env \<Rightarrow> bool \<Rightarrow> AccountID \<Rightarrow> AccountID \<Rightarrow> uint256 \<Rightarrow> STAmount \<Rightarrow> 's \<Rightarrow> (TER \<times> 's) res" where
  "add_asset_state V bSenderHigh uSenderID uReceiverID assetStateIndex amount s =
     (case peek_entry V (keylet_asset_state assetStateIndex) s of
        (None, s) \<Rightarrow>
          rbind (add_owner V uReceiverID assetStateIndex s) (\<lambda>(terResult, receiverNode, s).
          if terResult \<noteq> tesSUCCESS then Ok (terResult, s)
          else rbind (deref (peek_entry V (keylet_account (env_sha V) uReceiverID) s)) (\<lambda>(receiver, s).
          rbind (adjustOwnerCount V receiver 1 s) (\<lambda>s.
          rbind (add_owner V uSenderID assetStateIndex s) (\<lambda>(terResult, senderNode, s).
          if terResult \<noteq> tesSUCCESS then Ok (terResult, s)
          else rbind (av_insert (env_av V) (edit_fields (\<lambda>f. f\<lparr>sfLowNode := Some (if bSenderHigh then receiverNode else senderNode),
              sfHighNode := Some (if bSenderHigh then senderNode else receiverNode), sfAccount := uReceiverID, sfAmount := amount\<rparr>)
              (make_entry (keylet_asset_state assetStateIndex))) s) (\<lambda>s.
          Ok (tesSUCCESS, s))))))
      | (Some sleAssetState, s) \<Rightarrow>
          rbind (plus_amount (sfAmount (flds (snd sleAssetState))) amount) (\<lambda>a.
          rbind (update_entry V (\<lambda>f. f\<lparr>sfAmount := a, sfNextReleaseTime := 0\<rparr>) sleAssetState s) (\<lambda>s.
          Ok (tesSUCCESS, s))))"

definition issueAsset :: "'s Env \<Rightarrow> bool \<Rightarrow> AccountID \<Rightarrow> AccountID \<Rightarrow> Currency \<Rightarrow> STAmount \<Rightarrow> uint256 \<Rightarrow> entry_ref option \<Rightarrow> 's \<Rightarrow>
    (bool \<times> TER \<times> 's) res" where
  "issueAsset V bSenderHigh uSenderID uReceiverID cur saAmount uIndex sleRippleState s =
     (if cur \<noteq> assetCurrency then Ok (False, tesSUCCESS, s)
      else if env_exists V (keylet_asset (env_sha V) uReceiverID cur) s then
        rbind (deref (sleRippleState, s)) (\<lambda>(sleRippleState, s).
        rbind (assetRelease V uSenderID uReceiverID cur sleRippleState s) (\<lambda>(_, s).
        Ok (False, tesSUCCESS, s)))
      else case env_read V (keylet_asset (env_sha V) uSenderID cur) s of
        None \<Rightarrow> Ok (True, temBAD_ISSUER, s)
      | Some sleAsset \<Rightarrow>
          if regular_key (flds sleAsset) = uReceiverID then Ok (False, tesSUCCESS, s)
          else
            let pct = env_parentCloseTime V;
                assetStateIndex = getQualityIndex (getAssetStateIndex (env_sha V) uSenderID uReceiverID cur)
                  (ucast (pct - pct mod ASSET_INTERVAL_MIN))
            in rbind (add_asset_state V bSenderHigh uSenderID uReceiverID assetStateIndex (setIssuer uSenderID saAmount) s) (\<lambda>(terResult, s).
            rbind (if terResult = tesSUCCESS \<and> sleRippleState = None then
                rbind (STAmount_canonical \<lparr>currency = cur, account = uReceiverID\<rparr> ASSET_LIMIT_DEFAULT 0 False) (\<lambda>saReceiverLimit.
                rbind (STAmount_canonical \<lparr>currency = cur, account = noAccount\<rparr> 0 0 False) (\<lambda>saBalance.
                let (receiver, s) = peek_entry V (keylet_account (env_sha V) uReceiverID) s in
                rbind (trustCreate V bSenderHigh uSenderID uReceiverID uIndex receiver False True False saBalance saReceiverLimit 0 0 s)
                  (\<lambda>(terResult, s).
                if terResult = tesSUCCESS then
                  let (line, s) = peek_entry V \<lparr>kl_type = ltRIPPLE_STATE, kl_key = uIndex\<rparr> s in Ok (terResult, line, s)
                else Ok (terResult, None, s))))
              else Ok (terResult, sleRippleState, s)) (\<lambda>(terResult, sleRippleState, s).
            rbind (if terResult = tesSUCCESS then
                rbind (deref (sleRippleState, s)) (\<lambda>(sleRippleState, s).
                rbind (assetRelease V uSenderID uReceiverID cur sleRippleState s) (\<lambda>(_, s). Ok s))
              else Ok s) (\<lambda>s.
            Ok (True, terResult, s)))))"

section \<open>Credits\<close>

text \<open>The condition on which a line stops counting towards the sender's reserve.\<close>

definition clears_reserve :: "bool \<Rightarrow> Fields \<Rightarrow> STAmount \<Rightarrow> STAmount \<Rightarrow> bool" where
  "clears_reserve bSenderHigh f before after \<longleftrightarrow>
     signum before > 0 \<and> signum after \<le> 0 \<and>
     sfFlags f AND (if \<not> bSenderHigh then lsfLowReserve else lsfHighReserve) \<noteq> 0 \<and>
     \<not> (sfFlags f AND (if \<not> bSenderHigh then lsfLowFreeze else lsfHighFreeze) \<noteq> 0) \<and>
     is_zero (if \<not> bSenderHigh then sfLowLimit f else sfHighLimit f) \<and>
     (if \<not> bSenderHigh then sfLowQualityIn f else sfHighQualityIn f) = 0 \<and>
     (if \<not> bSenderHigh then sfLowQualityOut f else sfHighQualityOut f) = 0"

definition clear_reserve_flag :: "bool \<Rightarrow> Fields \<Rightarrow> Fields" where
  "clear_reserve_flag bSenderHigh f = f\<lparr>sfFlags := sfFlags f AND (if \<not> bSenderHigh then NOT lsfLowReserve else NOT lsfHighReserve)\<rparr>"

definition unused_line :: "bool \<Rightarrow> Fields \<Rightarrow> STAmount \<Rightarrow> bool" where
  "unused_line bSenderHigh f after \<longleftrightarrow>
     is_zero after \<and> \<not> (sfFlags f AND (if bSenderHigh then lsfLowReserve else lsfHighReserve) \<noteq> 0)"

definition create_line :: "'s Env \<Rightarrow> bool \<Rightarrow> AccountID \<Rightarrow> AccountID \<Rightarrow> uint256 \<Rightarrow> STAmount \<Rightarrow> 's \<Rightarrow> (TER \<times> 's) res" where
  "create_line V bSenderHigh uSenderID uReceiverID uIndex saAmount s =
     rbind (STAmount_canonical \<lparr>currency = currency (mIssue saAmount), account = uReceiverID\<rparr> 0 0 False) (\<lambda>saReceiverLimit.
     rbind (deref (peek_entry V (keylet_account (env_sha V) uReceiverID) s)) (\<lambda>(sleAccount, s).
     let noRipple = (sfFlags (flds (snd sleAccount)) AND lsfDefaultRipple = 0) in
     trustCreate V bSenderHigh uSenderID uReceiverID uIndex (Some sleAccount) False noRipple False
       (setIssuer noAccount saAmount) saReceiverLimit 0 0 s))"

definition rippleCredit :: "'s Env \<Rightarrow> AccountID \<Rightarrow> AccountID \<Rightarrow> STAmount \<Rightarrow> bool \<Rightarrow> 's \<Rightarrow> (TER \<times> 's) res" where
  "rippleCredit V uSenderID uReceiverID saAmount bCheckIssuer s =
     (let issuer = account (mIssue saAmount) in
      rbind (require (\<not> bCheckIssuer \<or> uSenderID = issuer \<or> uReceiverID = issuer) AssertFailed) (\<lambda>_.
      rbind (require (uSenderID \<noteq> uReceiverID) AssertFailed) (\<lambda>_.
      let bSenderHigh = uSenderID > uReceiverID;
          uIndex = getRippleStateIndex (env_sha V) uSenderID uReceiverID (currency (mIssue saAmount));
          (sleRippleState, s) = peek_entry V \<lparr>kl_type = ltRIPPLE_STATE, kl_key = uIndex\<rparr> s
      in rbind (require (\<not> isXRP_acc uSenderID \<and> uSenderID \<noteq> noAccount) AssertFailed) (\<lambda>_.
      rbind (require (\<not> isXRP_acc uReceiverID \<and> uReceiverID \<noteq> noAccount) AssertFailed) (\<lambda>_.
      rbind (require (\<not> isVBC_acc uSenderID) AssertFailed) (\<lambda>_.
      rbind (require (\<not> isVBC_acc uReceiverID) AssertFailed) (\<lambda>_.
      rbind (issueAsset V bSenderHigh uSenderID uReceiverID (currency (mIssue saAmount)) saAmount uIndex sleRippleState s)
        (\<lambda>(isAsset, terResult, s).
      if isAsset then Ok (terResult, s)
      else case sleRippleState of
        None \<Rightarrow> create_line V bSenderHigh uSenderID uReceiverID uIndex saAmount s
      | Some sleRippleState \<Rightarrow>
          rbind (env_creditHook V uSenderID uReceiverID saAmount s) (\<lambda>s.
          rbind (again V sleRippleState s) (\<lambda>(sleRippleState, s).
          let f = flds (snd sleRippleState); saBefore = (if bSenderHigh then negate (sfBalance f) else sfBalance f) in
          rbind (minus_amount saBefore saAmount) (\<lambda>saBalance.
          let clears = clears_reserve bSenderHigh f saBefore saBalance;
              bDelete = (clears \<and> unused_line bSenderHigh f saBalance);
              g = (\<lambda>f. (if clears then clear_reserve_flag bSenderHigh f else f)\<lparr>sfBalance := if bSenderHigh then negate saBalance else saBalance\<rparr>)
          in rbind (if clears then
                rbind (deref (peek_entry V (keylet_account (env_sha V) uSenderID) s)) (\<lambda>(sender, s). adjustOwnerCount V sender (-1) s)
              else Ok s) (\<lambda>s.
          if bDelete then
            trustDelete V (fst sleRippleState, edit_fields g (snd sleRippleState))
              (if bSenderHigh then uReceiverID else uSenderID) (if \<not> bSenderHigh then uReceiverID else uSenderID) s
          else rbind (update_entry V g sleRippleState s) (\<lambda>s. Ok (tesSUCCESS, s))))))))))))))"

section \<open>Shares of fees\<close>

definition MIN_VSPD_TO_GET_FEE_SHARE :: u64 where "MIN_VSPD_TO_GET_FEE_SHARE = 10000000000"

text \<open>\<open>sfDividendVSprd\<close> of an account that took part in the dividend of that ledger.\<close>

definition vspd_at :: "u32 \<Rightarrow> entry option \<Rightarrow> u64 option" where
  "vspd_at divLedgerSeq e =
     (case e of None \<Rightarrow> None | Some sle \<Rightarrow>
        if sfDividendLedger (flds sle) = Some divLedgerSeq then sfDividendVSprd (flds sle) else None)"

definition is_max_child :: "'s Env \<Rightarrow> u32 \<Rightarrow> AccountID \<Rightarrow> u64 \<Rightarrow> AccountID list \<Rightarrow> 's \<Rightarrow> bool" where
  "is_max_child V divLedgerSeq current divVSpd children s \<longleftrightarrow>
     \<not> list_ex (\<lambda>childId. childId \<noteq> current \<and>
        (case vspd_at divLedgerSeq (env_read V (keylet_account (env_sha V) childId) s) of None \<Rightarrow> False | Some v \<Rightarrow> v > divVSpd)) children"

text \<open>Whether an ancestor gets a share.\<close>

definition takes_share :: "'s Env \<Rightarrow> u32 \<Rightarrow> AccountID \<Rightarrow> entry \<Rightarrow> 's \<Rightarrow> bool" where
  "takes_share V divLedgerSeq current sle s =
     (case vspd_at divLedgerSeq (Some sle) of
        None \<Rightarrow> False
      | Some divVSpd \<Rightarrow>
          divVSpd > MIN_VSPD_TO_GET_FEE_SHARE \<and>
          (case sfReferee (flds sle) of
             None \<Rightarrow> True
           | Some parent \<Rightarrow>
               (case env_read V (keylet_refer (env_sha V) parent) s of
                  None \<Rightarrow> True
                | Some sleReferences \<Rightarrow>
                    \<not> is_max_child V divLedgerSeq current divVSpd
                        (case sfReferences (flds sleReferences) of None \<Rightarrow> [] | Some l \<Rightarrow> l) s)))"

type_synonym takers = "(AccountID, STAmount) omap"

text \<open>The walk up the referees; the fuel bounds the number of ancestors.\<close>

fun share_loop :: "nat \<Rightarrow> 's Env \<Rightarrow> AccountID \<Rightarrow> STAmount \<Rightarrow> u32 \<Rightarrow> entry option \<Rightarrow> nat \<Rightarrow> AccountID \<Rightarrow> takers \<Rightarrow> 's \<Rightarrow>
    (TER \<times> nat \<times> AccountID \<times> takers \<times> 's) res" where
  "share_loop 0 V uIssuerID each divLedgerSeq sleCurrent sendCnt lastAccount takersMap s = Throw Diverges"
| "share_loop (Suc n) V uIssuerID each divLedgerSeq sleCurrent sendCnt lastAccount takersMap s =
     (case sleCurrent of
        None \<Rightarrow> Ok (tesSUCCESS, sendCnt, lastAccount, takersMap, s)
      | Some sle \<Rightarrow>
          if \<not> sendCnt < 5 then Ok (tesSUCCESS, sendCnt, lastAccount, takersMap, s)
          else case sfReferee (flds sle) of
            None \<Rightarrow> Ok (tesSUCCESS, sendCnt, lastAccount, takersMap, s)
          | Some currentAccountID \<Rightarrow>
              (case env_read V (keylet_account (env_sha V) currentAccountID) s of
                 None \<Rightarrow> Ok (tesSUCCESS, sendCnt, lastAccount, takersMap, s)
               | Some sleCurrent \<Rightarrow>
                   if \<not> takes_share V divLedgerSeq currentAccountID sleCurrent s then
                     share_loop n V uIssuerID each divLedgerSeq (Some sleCurrent) sendCnt lastAccount takersMap s
                   else
                     rbind (rippleCredit V uIssuerID currentAccountID each False s) (\<lambda>(terResult, s).
                     if terResult \<noteq> tesSUCCESS then Ok (terResult, sendCnt, lastAccount, takersMap, s)
                     else share_loop n V uIssuerID each divLedgerSeq (Some sleCurrent) (sendCnt + 1) currentAccountID
                       (if map_of takersMap currentAccountID = None then om_put currentAccountID each takersMap else takersMap) s)))"

text \<open>The record of the takers of former rounds, and what of the map is left to append.\<close>

fun update_takers :: "(AccountID \<times> STAmount) list \<Rightarrow> takers \<Rightarrow> ((AccountID \<times> STAmount) list \<times> takers) res" where
  "update_takers [] m = Ok ([], m)"
| "update_takers ((a, before) # l) m =
     (case map_of m a of
        None \<Rightarrow> rbind (update_takers l m) (\<lambda>(l, m). Ok ((a, before) # l, m))
      | Some x \<Rightarrow>
          if mIssue before = mIssue x then
            rbind (plus_amount before x) (\<lambda>b. rbind (update_takers l (om_del a m)) (\<lambda>(l, m). Ok ((a, b) # l, m)))
          else rbind (update_takers l m) (\<lambda>(l, m). Ok ((a, before) # l, m)))"

definition shareFeeWithReferee :: "nat \<Rightarrow> 's Env \<Rightarrow> AccountID \<Rightarrow> AccountID \<Rightarrow> STAmount \<Rightarrow> 's \<Rightarrow> (TER \<times> 's) res" where
  "shareFeeWithReferee n V uSenderID uIssuerID saAmount s =
     rbind (STAmount_canonical (mIssue saAmount) 2 (-1) False) (\<lambda>fifth.
     rbind (multiply saAmount fifth (mIssue saAmount)) (\<lambda>each.
     case env_read V (keylet_dividend (env_sha V)) s of
       None \<Rightarrow> Ok (tesSUCCESS, s)
     | Some sleDivObj \<Rightarrow>
         if sfDividendState (flds sleDivObj) \<noteq> 0 then Ok (tesSUCCESS, s)
         else
           let divLedgerSeq = (case sfDividendLedger (flds sleDivObj) of None \<Rightarrow> 0 | Some l \<Rightarrow> l) in
           rbind (share_loop n V uIssuerID each divLedgerSeq (env_read V (keylet_account (env_sha V) uSenderID) s) 0 0 [] s)
             (\<lambda>(terResult, sendCnt, lastAccount, takersMap, s).
           if terResult \<noteq> tesSUCCESS then Ok (terResult, s)
           else
             rbind (if sendCnt \<noteq> 0 \<and> sendCnt < 5 then
                 rbind (STAmount_canonical (mIssue each) (of_nat (5 - sendCnt)) 0 False) (\<lambda>k.
                 rbind (multiply each k (mIssue each)) (\<lambda>saLeft.
                 rbind (rippleCredit V uIssuerID lastAccount saLeft False s) (\<lambda>(terResult, s).
                 if terResult \<noteq> tesSUCCESS then Ok (terResult, takersMap, s)
                 else case map_of takersMap lastAccount of
                   None \<Rightarrow> Ok (terResult, takersMap, s)
                 | Some x \<Rightarrow> rbind (plus_amount x saLeft) (\<lambda>x. Ok (terResult, om_put lastAccount x takersMap, s)))))
               else Ok (tesSUCCESS, takersMap, s)) (\<lambda>(terResult, takersMap, s).
             if terResult = tesSUCCESS \<and> takersMap \<noteq> [] then
               rbind (update_takers (env_takers V s) takersMap) (\<lambda>(l, m).
               Ok (terResult, env_set_takers V (l @ m) s))
             else Ok (terResult, s)))))"

section \<open>Sending\<close>

definition rippleTransferFee :: "'s Env \<Rightarrow> AccountID \<Rightarrow> AccountID \<Rightarrow> AccountID \<Rightarrow> STAmount \<Rightarrow> 's \<Rightarrow> STAmount res" where
  "rippleTransferFee V from to issuer saAmount s =
     (let uTransitRate = rippleTransferRate V issuer s in
      if currency (mIssue saAmount) \<noteq> assetCurrency \<and> from \<noteq> issuer \<and> to \<noteq> issuer \<and> QUALITY_ONE_u32 \<noteq> uTransitRate then
        rbind (amountFromRate (ucast uTransitRate)) (\<lambda>r.
        rbind (multiply saAmount r (mIssue saAmount)) (\<lambda>saTransferTotal.
        minus_amount saTransferTotal saAmount))
      else zeroed saAmount)"

definition rippleSend :: "nat \<Rightarrow> 's Env \<Rightarrow> AccountID \<Rightarrow> AccountID \<Rightarrow> STAmount \<Rightarrow> 's \<Rightarrow> (TER \<times> STAmount \<times> 's) res" where
  "rippleSend n V uSenderID uReceiverID saAmount s =
     (let issuer = account (mIssue saAmount) in
      rbind (require (\<not> isXRP_acc uSenderID \<and> \<not> isXRP_acc uReceiverID) AssertFailed) (\<lambda>_.
      rbind (require (\<not> isVBC_acc uSenderID \<and> \<not> isVBC_acc uReceiverID) AssertFailed) (\<lambda>_.
      rbind (require (uSenderID \<noteq> uReceiverID) AssertFailed) (\<lambda>_.
      if uSenderID = issuer \<or> uReceiverID = issuer \<or> issuer = noAccount then
        rbind (rippleCredit V uSenderID uReceiverID saAmount False s) (\<lambda>(_, s).
        Ok (tesSUCCESS, saAmount, s))
      else
        rbind (rippleTransferFee V uSenderID uReceiverID issuer saAmount s) (\<lambda>saTransitFee.
        rbind (if \<not> is_zero saTransitFee then
            rbind (STAmount_canonical (mIssue saTransitFee) 25 (-2) False) (\<lambda>quarter.
            rbind (multiply saTransitFee quarter (mIssue saTransitFee)) (\<lambda>share.
            shareFeeWithReferee n V uSenderID issuer share s))
          else Ok (tesSUCCESS, s)) (\<lambda>(terResult, s).
        rbind (if is_zero saTransitFee then Ok saAmount else plus_amount saAmount saTransitFee) (\<lambda>saActual.
        let saActual = setIssuer issuer saActual in
        rbind (if terResult = tesSUCCESS then rippleCredit V issuer uReceiverID saAmount True s else Ok (terResult, s)) (\<lambda>(terResult, s).
        rbind (if terResult = tesSUCCESS then rippleCredit V uSenderID issuer saActual True s else Ok (terResult, s)) (\<lambda>(terResult, s).
        Ok (terResult, saActual, s))))))))))"

text \<open>The balance of an account, whose pointer may be null, less or plus an amount.\<close>

definition accountSend :: "nat \<Rightarrow> 's Env \<Rightarrow> AccountID \<Rightarrow> AccountID \<Rightarrow> STAmount \<Rightarrow> 's \<Rightarrow> (TER \<times> 's) res" where
  "accountSend n V uSenderID uReceiverID saAmount s =
     rbind (require (signum saAmount \<ge> 0) AssertFailed) (\<lambda>_.
     if is_zero saAmount \<or> uSenderID = uReceiverID then Ok (tesSUCCESS, s)
     else if \<not> mIsNative saAmount then
       rbind (rippleSend n V uSenderID uReceiverID saAmount s) (\<lambda>(terResult, _, s). Ok (terResult, s))
     else
       rbind (env_creditHook V uSenderID uReceiverID saAmount s) (\<lambda>s.
       let (sender, s) = (if uSenderID \<noteq> 0 then peek_entry V (keylet_account (env_sha V) uSenderID) s else (None, s));
           (receiver, s) = (if uReceiverID \<noteq> 0 then peek_entry V (keylet_account (env_sha V) uReceiverID) s else (None, s));
           vbc = isVBC saAmount
       in rbind (case sender of
              None \<Rightarrow> Ok (tesSUCCESS, s)
            | Some sender \<Rightarrow>
                rbind (less_amount (native_balance vbc (flds (snd sender))) saAmount) (\<lambda>short.
                if short then Ok (failed_processing V, s)
                else rbind (minus_amount (native_balance vbc (flds (snd sender))) saAmount) (\<lambda>b.
                  rbind (update_entry V (set_native_balance vbc b) sender s) (\<lambda>s. Ok (tesSUCCESS, s))))) (\<lambda>(terResult, s).
          case receiver of
            None \<Rightarrow> Ok (terResult, s)
          | Some receiver \<Rightarrow>
              if terResult \<noteq> tesSUCCESS then Ok (terResult, s)
              else rbind (again V receiver s) (\<lambda>(receiver, s).
                rbind (plus_amount (native_balance vbc (flds (snd receiver))) saAmount) (\<lambda>b.
                rbind (update_entry V (set_native_balance vbc b) receiver s) (\<lambda>s. Ok (tesSUCCESS, s)))))))"

section \<open>Issuing and redeeming\<close>

text \<open>\<open>updateTrustLine\<close>: whether the line is to be deleted, and the line with its flags changed.\<close>

definition updateTrustLine :: "'s Env \<Rightarrow> entry_ref \<Rightarrow> bool \<Rightarrow> AccountID \<Rightarrow> STAmount \<Rightarrow> STAmount \<Rightarrow> 's \<Rightarrow> (bool \<times> entry_ref \<times> 's) res" where
  "updateTrustLine V state bSenderHigh sender before after s =
     (let f = flds (snd state); (sle, s) = peek_entry V (keylet_account (env_sha V) sender) s in
      case sle of
        None \<Rightarrow> Throw AssertFailed
      | Some sle \<Rightarrow>
          if clears_reserve bSenderHigh f before after then
            rbind (adjustOwnerCount V sle (-1) s) (\<lambda>s.
            Ok (unused_line bSenderHigh f after, (fst state, edit_fields (clear_reserve_flag bSenderHigh) (snd state)), s))
          else Ok (False, state, s))"

definition move_on_line :: "'s Env \<Rightarrow> bool \<Rightarrow> AccountID \<Rightarrow> AccountID \<Rightarrow> STAmount \<Rightarrow> entry_ref \<Rightarrow> 's \<Rightarrow> (TER \<times> 's) res" where
  "move_on_line V bSenderHigh from to amount state s =
     (let b = sfBalance (flds (snd state)); start_balance = (if bSenderHigh then negate b else b) in
      rbind (minus_amount start_balance amount) (\<lambda>final_balance.
      rbind (updateTrustLine V state bSenderHigh from start_balance final_balance s) (\<lambda>(must_delete, state, s).
      rbind (env_creditHook V from to amount s) (\<lambda>s.
      let state = (fst state, edit_fields (\<lambda>f. f\<lparr>sfBalance := if bSenderHigh then negate final_balance else final_balance\<rparr>) (snd state)) in
      if must_delete then trustDelete V state (if bSenderHigh then to else from) (if bSenderHigh then from else to) s
      else rbind (av_update (env_av V) state s) (\<lambda>s. Ok (tesSUCCESS, s))))))"

definition issueIOU :: "'s Env \<Rightarrow> AccountID \<Rightarrow> STAmount \<Rightarrow> Issue \<Rightarrow> 's \<Rightarrow> (TER \<times> 's) res" where
  "issueIOU V acc amount issue s =
     rbind (require (\<not> isXRP_acc acc \<and> \<not> isXRP_acc (account issue)) AssertFailed) (\<lambda>_.
     rbind (require (eq_issue issue (mIssue amount)) AssertFailed) (\<lambda>_.
     rbind (require (account issue \<noteq> acc) AssertFailed) (\<lambda>_.
     let bSenderHigh = account issue > acc;
         uIndex = getRippleStateIndex (env_sha V) (account issue) acc (currency issue);
         (state, s) = peek_entry V \<lparr>kl_type = ltRIPPLE_STATE, kl_key = uIndex\<rparr> s
     in rbind (issueAsset V bSenderHigh (account issue) acc (currency issue) amount uIndex state s) (\<lambda>(isAsset, terResult, s).
        if isAsset then Ok (terResult, s)
        else case state of
          None \<Rightarrow> create_line V bSenderHigh (account issue) acc uIndex amount s
        | Some state \<Rightarrow>
            rbind (again V state s) (\<lambda>(state, s). move_on_line V bSenderHigh (account issue) acc amount state s)))))"

definition redeemIOU :: "'s Env \<Rightarrow> AccountID \<Rightarrow> STAmount \<Rightarrow> Issue \<Rightarrow> 's \<Rightarrow> (TER \<times> 's) res" where
  "redeemIOU V acc amount issue s =
     rbind (require (\<not> isXRP_acc acc \<and> \<not> isXRP_acc (account issue)) AssertFailed) (\<lambda>_.
     rbind (require (eq_issue issue (mIssue amount)) AssertFailed) (\<lambda>_.
     rbind (require (account issue \<noteq> acc) AssertFailed) (\<lambda>_.
     let bSenderHigh = acc > account issue;
         (state, s) = peek_entry V \<lparr>kl_type = ltRIPPLE_STATE,
             kl_key = getRippleStateIndex (env_sha V) acc (account issue) (currency issue)\<rparr> s
     in case state of
          None \<Rightarrow> Ok (tefINTERNAL, s)
        | Some state \<Rightarrow> move_on_line V bSenderHigh acc (account issue) amount state s)))"

section \<open>Holdings\<close>

datatype FreezeHandling = fhIGNORE_FREEZE | fhZERO_IF_FROZEN

definition accountReserve :: "'s Env \<Rightarrow> u32 \<Rightarrow> int" where
  "accountReserve V ownerCount = sint (ucast (env_reserve V) + ucast ownerCount * ucast (env_increment V) :: u64)"

definition accountHolds :: "'s Env \<Rightarrow> AccountID \<Rightarrow> Currency \<Rightarrow> AccountID \<Rightarrow> FreezeHandling \<Rightarrow> 's \<Rightarrow> (STAmount \<times> 's) res" where
  "accountHolds V acc cur issuer zeroIfFrozen s =
     rbind (if isVBC_cur cur \<or> isXRP_cur cur then
         rbind (deref (env_read V (keylet_account (env_sha V) acc) s, s)) (\<lambda>(sle, s).
         rbind (xrp (native_balance (isVBC_cur cur) (flds sle))) (\<lambda>balance.
         let reserve = accountReserve V (sfOwnerCount (flds sle)) in
         if drops balance < reserve then Ok (clear no_amount, s)
         else rbind (STAmount_of_xrp \<lparr>drops = drops balance - reserve, xrp_isVBC = False\<rparr>) (\<lambda>amount.
           Ok (if isVBC_cur cur then setIssue vbcIssue amount else amount, s))))
       else
         (case peek_entry V (keylet_line (env_sha V) acc issuer cur) s of
            (None, s) \<Rightarrow> Ok (clear_issue \<lparr>currency = cur, account = issuer\<rparr> no_amount, s)
          | (Some sle, s) \<Rightarrow>
              if zeroIfFrozen = fhZERO_IF_FROZEN \<and> isFrozen V acc cur issuer s
              then Ok (clear_issue \<lparr>currency = cur, account = issuer\<rparr> no_amount, s)
              else
                rbind (if assetCurrency = cur then
                    rbind (assetRelease V acc issuer cur sle s) (\<lambda>(_, s). again V sle s)
                  else Ok (sle, s)) (\<lambda>(sle, s).
                let amount = sfBalance (flds (snd sle)) in
                Ok (setIssuer issuer (if acc > issuer then negate amount else amount), s)))) (\<lambda>(amount, s).
     rbind (env_balanceHook V acc issuer amount s) (\<lambda>amount. Ok (amount, s)))"

definition accountFunds :: "'s Env \<Rightarrow> AccountID \<Rightarrow> STAmount \<Rightarrow> FreezeHandling \<Rightarrow> 's \<Rightarrow> (STAmount \<times> 's) res" where
  "accountFunds V acc saDefault freezeHandling s =
     (if \<not> mIsNative saDefault \<and> account (mIssue saDefault) = acc then Ok (saDefault, s)
      else accountHolds V acc (currency (mIssue saDefault)) (account (mIssue saDefault)) freezeHandling s)"

end
