(* ===== verification/Entry_Props.thy ===== *)
theory Entry_Props
  imports TrustLines Amount_Sum
begin

text \<open>
  Properties of the account functions of \<open>LedgerEntries\<close> on any view that keeps the laws of \<open>ledger_env\<close>: transfers of
  native currency are exact and conserve it, and referrals form a forest. The sandboxes of \<open>EntryView\<close> with the hooks of
  \<open>PaymentSandbox\<close> are such views.
\<close>

section \<open>Views\<close>

lemma edit_simps [simp]: "sle_key (edit_fields f e) = sle_key e" "sle_type (edit_fields f e) = sle_type e" "flds (edit_fields f e) = f (flds e)"
  by (simp_all add: edit_fields_def)

lemma edit_edit [simp]: "edit_fields f (edit_fields g e) = edit_fields (\<lambda>x. f (g x)) e"
  by (simp add: edit_fields_def)

lemma make_entry_simps [simp]: "sle_key (make_entry k) = kl_key k" "sle_type (make_entry k) = kl_type k"
  "flds (make_entry k) = no_fields"
  by (simp_all add: make_entry_def)

lemma deref_simps [simp]: "deref (None, s) = Throw NullDeref" "deref (Some p, s) = Ok (p, s)"
  by (simp_all add: deref_def)

lemmas entry_types = ltACCOUNT_ROOT_def ltRIPPLE_STATE_def ltREFER_def ltASSET_STATE_def ltASSET_def ltOFFER_def
  ltANY_def ltINVALID_def ltCHILD_def ltDIR_NODE_def

text \<open>The entry that a keylet of an ordinary type finds.\<close>

definition typed_entry :: "(key \<rightharpoonup> entry) \<Rightarrow> Keylet \<Rightarrow> entry option" where
  "typed_entry m k = (case m (kl_key k) of None \<Rightarrow> None | Some e \<Rightarrow> if sle_type e = kl_type k then Some e else None)"

definition account_of :: "hash \<Rightarrow> (key \<rightharpoonup> entry) \<Rightarrow> AccountID \<Rightarrow> entry option" where
  "account_of sha m a = typed_entry m (keylet_account sha a)"

lemma checked_entry: "kl_type k > 0 \<Longrightarrow> checked_lookup m k = typed_entry m k"
  by (auto simp: checked_lookup_def typed_entry_def keylet_check_def ltANY_def ltINVALID_def ltCHILD_def split: option.splits)

locale ledger_env = entry_view "env_av V" shows_map inv handle
  for V :: "'s Env" and shows_map inv handle +
  assumes read_law: "inv s \<Longrightarrow> env_read V k s = checked_lookup (shows_map s) k"
    and credit_law: "inv s \<Longrightarrow> env_creditHook V a b x s = Ok s' \<Longrightarrow>
      inv s' \<and> shows_map s' = shows_map s \<and> (\<forall>k p. handle s k p \<longrightarrow> handle s' k p)"
begin

lemma peek_ok:
  assumes "inv s" "kl_type k > 0" "peek_entry V k s = (r, s')"
  shows "inv s'" "shows_map s' = shows_map s" "map_option snd r = typed_entry (shows_map s) k"
    "r = Some (p, e) \<Longrightarrow> handle s' (kl_key k) p" "r = Some (p, e) \<Longrightarrow> sle_key e = kl_key k \<and> sle_type e = kl_type k"
    "handle s k' p' \<Longrightarrow> handle s' k' p'"
proof -
  note l = peek_law [OF assms(1,3)]
  show "inv s'" "shows_map s' = shows_map s" "map_option snd r = typed_entry (shows_map s) k" "handle s k' p' \<Longrightarrow> handle s' k' p'"
    using l assms(2) by (auto simp: checked_entry)
  assume r: "r = Some (p, e)"
  have "typed_entry (shows_map s) k = Some e" using l r checked_entry [OF assms(2), of "shows_map s"] by simp
  then have e: "shows_map s (kl_key k) = Some e" "sle_type e = kl_type k" by (auto simp: typed_entry_def split: option.splits if_splits)
  then show "sle_key e = kl_key k \<and> sle_type e = kl_type k" using keys_law [OF assms(1)] by simp
  then show "handle s' (kl_key k) p" using l r by simp
qed

lemma update_ok:
  assumes "inv s" "handle s (sle_key e) p"
  obtains s' where "update_entry V f (p, e) s = Ok s'" "inv s'" "shows_map s' = (shows_map s)(sle_key e \<mapsto> edit_fields f e)"
    "\<And>k p. handle s k p \<Longrightarrow> handle s' k p"
  using update_law [OF assms(1), of "edit_fields f e" p] assms(2) by (auto simp: update_entry_def)

lemma again_ok:
  assumes "inv s" "handle s (sle_key e0) p0" "shows_map s (sle_key e0) = Some e" "sle_type e = sle_type e0" "sle_type e0 > 0"
  obtains p s' where "again V (p0, e0) s = Ok ((p, e), s')" "inv s'" "shows_map s' = shows_map s" "handle s' (sle_key e0) p"
    "\<And>k p. handle s k p \<Longrightarrow> handle s' k p"
proof -
  let ?k = "\<lparr>kl_type = sle_type e0, kl_key = sle_key e0\<rparr>"
  obtain r s' where r: "peek_entry V ?k s = (r, s')" by fastforce
  note l = peek_ok [OF assms(1) _ r, simplified, OF assms(5)]
  have "map_option snd r = Some e" using l(3) assms(3,4) by (simp add: typed_entry_def)
  then obtain p where p: "r = Some (p, e)" by auto
  show ?thesis using that r p l(1,2) l(4) [OF p] l(6) by (auto simp: again_def)
qed

end

section \<open>Native amounts\<close>

lemma uminus_native: "proper a \<Longrightarrow> proper (uminus_amount a) \<and> denote (uminus_amount a) = - denote a \<and> mIsNative (uminus_amount a) = mIsNative a"
  by (auto simp: uminus_amount_def STAmount_unchecked_def denote_def proper_def wf_amount_def isNative_def isXRP_def isVBC_def
      canonical_issued_def magnitude_def)

lemma minus_native:
  assumes "proper a" "proper b" "mIsNative a" "mIsNative b"
  shows "\<exists>c. minus_amount a b = Ok c \<and> mIsNative c \<and> isVBC c = isVBC a \<and> denote c = denote a - denote b"
  using plus_native [of a "uminus_amount b"] uminus_native [OF assms(2)] assms by (auto simp: minus_amount_def proper_def)

section \<open>Transfers\<close>

context ledger_env
begin

lemma transferXRP_ok:
  assumes i: "inv s" and d: "src \<noteq> 0" "dst \<noteq> 0" "src \<noteq> dst" "getAccountRootIndex (env_sha V) src \<noteq> getAccountRootIndex (env_sha V) dst"
    and e: "account_of (env_sha V) (shows_map s) src = Some e1" "account_of (env_sha V) (shows_map s) dst = Some e2"
    and a: "mIsNative amount" "proper amount"
    and b: "b1 = native_balance (isVBC amount) (flds e1)" "b2 = native_balance (isVBC amount) (flds e2)"
      "proper b1" "proper b2" "mIsNative b1" "mIsNative b2"
  shows "\<exists>s'. inv s' \<and> (if denote b1 < denote amount
      then transferXRP V src dst amount s = Ok (failed_processing V, s') \<and> shows_map s' = shows_map s
      else transferXRP V src dst amount s = Ok (tesSUCCESS, s') \<and>
        (\<exists>c1 c2. shows_map s' = (shows_map s)(sle_key e1 \<mapsto> edit_fields (set_native_balance (isVBC amount) c1) e1,
            sle_key e2 \<mapsto> edit_fields (set_native_balance (isVBC amount) c2) e2) \<and>
          denote c1 = denote b1 - denote amount \<and> denote c2 = denote b2 + denote amount))"
proof -
  let ?k = "keylet_account (env_sha V)"
  have t: "kl_type (?k x) > 0" "kl_type (?k x) = ltACCOUNT_ROOT" for x by (simp_all add: keylet_account_def ltACCOUNT_ROOT_def)
  obtain r1 s1 where r1: "peek_entry V (?k src) s = (r1, s1)" by fastforce
  note l1 = peek_ok [OF i t(1) r1]
  obtain p1 where p1: "r1 = Some (p1, e1)" using l1(3) e(1) by (auto simp: account_of_def)
  obtain r2 s2 where r2: "peek_entry V (?k dst) s1 = (r2, s2)" by fastforce
  note l2 = peek_ok [OF l1(1) t(1) r2]
  obtain p2 where p2: "r2 = Some (p2, e2)" using l2(3) e(2) l1(2) by (auto simp: account_of_def)
  have ke: "sle_key e1 = kl_key (?k src)" "sle_key e2 = kl_key (?k dst)" "sle_type e1 = ltACCOUNT_ROOT" "sle_type e2 = ltACCOUNT_ROOT"
    using l1(5) [OF p1] l2(5) [OF p2] t(2) by simp_all
  have ne: "sle_key e2 \<noteq> sle_key e1" using d(4) ke by (simp add: keylet_account_def)
  have m2: "shows_map s2 = shows_map s" using l1(2) l2(2) by simp
  have less: "less_amount b1 amount = Ok (denote b1 < denote amount)"
    using a b by (intro less_amount_denote) (simp_all add: areComparable_def)
  show ?thesis
  proof (cases "denote b1 < denote amount")
    case True
    then show ?thesis using d a r1 r2 p1 p2 less b(1) l2(1) m2 by (auto simp: transferXRP_def Let_def)
  next
    case False
    obtain c1 where c1: "minus_amount b1 amount = Ok c1" "denote c1 = denote b1 - denote amount"
      using minus_native [OF b(3) a(2) b(5) a(1)] by blast
    obtain c2 where c2: "plus_amount b2 amount = Ok c2" "denote c2 = denote b2 + denote amount"
      using plus_native [of b2 amount] a b by (auto simp: proper_def)
    have h: "handle s2 (sle_key e1) p1" "handle s2 (sle_key e2) p2" using l2(6) l1(4) [OF p1] l2(4) [OF p2] ke by simp_all
    obtain s3 where s3: "update_entry V (set_native_balance (isVBC amount) c1) (p1, e1) s2 = Ok s3" "inv s3"
      "shows_map s3 = (shows_map s2)(sle_key e1 \<mapsto> edit_fields (set_native_balance (isVBC amount) c1) e1)"
      "\<And>k p. handle s2 k p \<Longrightarrow> handle s3 k p" using update_ok [OF l2(1) h(1)] by blast
    have "shows_map s (sle_key e2) = Some e2" using e(2) ke by (auto simp: account_of_def typed_entry_def split: option.splits if_splits)
    then have "shows_map s3 (sle_key e2) = Some e2" using s3(3) m2 ne by simp
    then obtain q s4 where s4: "again V (p2, e2) s3 = Ok ((q, e2), s4)" "inv s4" "shows_map s4 = shows_map s3" "handle s4 (sle_key e2) q"
      using again_ok [OF s3(2) s3(4) [OF h(2)]] ke(4) by (metis zero_less_numeral ltACCOUNT_ROOT_def)
    obtain s5 where s5: "update_entry V (set_native_balance (isVBC amount) c2) (q, e2) s4 = Ok s5" "inv s5"
      "shows_map s5 = (shows_map s4)(sle_key e2 \<mapsto> edit_fields (set_native_balance (isVBC amount) c2) e2)"
      using update_ok [OF s4(2,4)] by blast
    have "transferXRP V src dst amount s = Ok (tesSUCCESS, s5)"
      using False d a r1 r2 p1 p2 less c1(1) c2(1) b(1,2) s3(1) s4(1) s5(1) by (simp add: transferXRP_def Let_def)
    moreover have "shows_map s5 = (shows_map s)(sle_key e1 \<mapsto> edit_fields (set_native_balance (isVBC amount) c1) e1,
        sle_key e2 \<mapsto> edit_fields (set_native_balance (isVBC amount) c2) e2)"
      using s5(3) s4(3) s3(3) m2 by simp
    ultimately show ?thesis using False s5(2) c1(2) c2(2) by auto
  qed
qed

end

section \<open>Referrals\<close>

text \<open>The referee of an account, and the references that are recorded for an account.\<close>

definition referee_of :: "hash \<Rightarrow> (key \<rightharpoonup> entry) \<Rightarrow> AccountID \<Rightarrow> AccountID option" where
  "referee_of sha m a = (case account_of sha m a of None \<Rightarrow> None | Some e \<Rightarrow> sfReferee (flds e))"

definition references_of :: "hash \<Rightarrow> (key \<rightharpoonup> entry) \<Rightarrow> AccountID \<Rightarrow> AccountID list option" where
  "references_of sha m a = refer_list (typed_entry m \<lparr>kl_type = ltREFER, kl_key = getAccountReferIndex sha a\<rparr>)"

definition referral :: "hash \<Rightarrow> (key \<rightharpoonup> entry) \<Rightarrow> (AccountID \<times> AccountID) set" where
  "referral sha m = {(a, b). referee_of sha m a = Some b}"

definition forest :: "hash \<Rightarrow> (key \<rightharpoonup> entry) \<Rightarrow> bool" where
  "forest sha m \<longleftrightarrow> acyclic (referral sha m) \<and> (\<forall>a b. referee_of sha m a = Some b \<longrightarrow> references_of sha m b \<noteq> None)"

text \<open>
  Indexes of accounts and referral lists do not collide, and only referral lists are at the latter.
\<close>

definition refer_keys_ok :: "hash \<Rightarrow> (key \<rightharpoonup> entry) \<Rightarrow> bool" where
  "refer_keys_ok sha m \<longleftrightarrow> inj (getAccountRootIndex sha) \<and> inj (getAccountReferIndex sha) \<and>
     (\<forall>a. getAccountReferIndex sha a \<noteq> 0) \<and>
     (\<forall>a e. m (getAccountReferIndex sha a) = Some e \<longrightarrow> sle_type e = ltREFER)"

lemma referee_of_upd:
  assumes "inj (getAccountRootIndex sha)" "m (getAccountRootIndex sha r) = Some e" "sle_type e = ltACCOUNT_ROOT"
    "m' = m(getAccountReferIndex sha x \<mapsto> l, getAccountRootIndex sha r \<mapsto> edit_fields (\<lambda>f. f\<lparr>sfReferee := Some b\<rparr>) e)"
    "sle_type l = ltREFER" "\<And>e. m (getAccountReferIndex sha x) = Some e \<Longrightarrow> sle_type e = ltREFER"
  shows "referee_of sha m' = (referee_of sha m)(r \<mapsto> b)"
proof
  fix a
  have "getAccountRootIndex sha a = getAccountRootIndex sha r \<longleftrightarrow> a = r" using assms(1) by (auto dest: injD)
  then show "referee_of sha m' a = ((referee_of sha m)(r \<mapsto> b)) a"
    using assms(2-6) by (auto simp: referee_of_def account_of_def typed_entry_def keylet_account_def entry_types split: option.splits)
qed

lemma references_of_upd:
  assumes "inj (getAccountReferIndex sha)" "m (getAccountRootIndex sha r) = Some e" "sle_type e = ltACCOUNT_ROOT"
    "m' = m(getAccountReferIndex sha x \<mapsto> l, getAccountRootIndex sha r \<mapsto> edit_fields g e)"
    "sle_type l = ltREFER" "\<And>a e. m (getAccountReferIndex sha a) = Some e \<Longrightarrow> sle_type e = ltREFER"
  shows "references_of sha m' = (references_of sha m)(x := sfReferences (flds l))"
proof
  fix a
  have "getAccountReferIndex sha a = getAccountReferIndex sha x \<longleftrightarrow> a = x" using assms(1) by (auto dest: injD)
  moreover have "getAccountReferIndex sha a \<noteq> getAccountRootIndex sha r" for a
    using assms(2,3) assms(6) [of a e] by (auto simp: entry_types)
  ultimately show "references_of sha m' a = ((references_of sha m)(x := sfReferences (flds l))) a"
    using assms(4,5) by (auto simp: references_of_def typed_entry_def refer_list_def)
qed

text \<open>
  What a new reference needs: two accounts that exist, a reference without references and without a referee, and a
  referee with room in its list.
\<close>

definition refer_accepts :: "hash \<Rightarrow> (key \<rightharpoonup> entry) \<Rightarrow> AccountID \<Rightarrow> AccountID \<Rightarrow> bool" where
  "refer_accepts sha m refereeID referenceID \<longleftrightarrow> refereeID \<noteq> referenceID \<and> account_of sha m refereeID \<noteq> None \<and>
     (\<exists>e. account_of sha m referenceID = Some e \<and> (sfReferee (flds e) = None \<or> sfReferee (flds e) = Some 0)) \<and>
     references_of sha m referenceID = None \<and>
     (\<forall>l. references_of sha m refereeID = Some l \<longrightarrow> length l \<le> 1024 \<and> referenceID \<notin> set l)"

text \<open>A new edge from an account that nobody points to keeps the graph acyclic.\<close>

lemma acyclic_new_source:
  assumes "acyclic {(a, b). f a = Some b}" "\<And>a. f a \<noteq> Some r" "r \<noteq> b"
  shows "acyclic {(x, y). (f(r \<mapsto> b)) x = Some y}"
proof -
  have sub: "{(x, y). (f(r \<mapsto> b)) x = Some y} \<subseteq> insert (r, b) {(x, y). f x = Some y}" by (auto split: if_splits)
  have "(b, r) \<notin> {(x, y). f x = Some y}\<^sup>*" using assms(2,3) by (auto elim: rtranclE)
  then have "acyclic (insert (r, b) {(x, y). f x = Some y})" using assms(1) by (simp add: acyclic_insert)
  then show ?thesis by (rule acyclic_subset [OF _ sub])
qed

context ledger_env
begin

lemma addRefer_ok:
  assumes i: "inv s" and k: "refer_keys_ok (env_sha V) (shows_map s)" and f: "forest (env_sha V) (shows_map s)"
  shows "\<exists>r s'. addRefer V refereeID referenceID s = Ok (r, s') \<and> inv s' \<and>
    (r = tesSUCCESS \<longleftrightarrow> refer_accepts (env_sha V) (shows_map s) refereeID referenceID) \<and>
    (if r = tesSUCCESS
     then referee_of (env_sha V) (shows_map s') = (referee_of (env_sha V) (shows_map s))(referenceID \<mapsto> refereeID) \<and>
       references_of (env_sha V) (shows_map s') = (references_of (env_sha V) (shows_map s))
         (refereeID \<mapsto> (case references_of (env_sha V) (shows_map s) refereeID of None \<Rightarrow> [] | Some l \<Rightarrow> l) @ [referenceID]) \<and>
       references_of (env_sha V) (shows_map s) referenceID = None \<and> refereeID \<noteq> referenceID
     else shows_map s' = shows_map s)"
proof (cases "refereeID = referenceID")
  case True
  then show ?thesis using i by (simp add: addRefer_def refer_accepts_def)
next
  case False
  let ?sha = "env_sha V" and ?m = "shows_map s"
  let ?rk = "\<lparr>kl_type = ltREFER, kl_key = getAccountReferIndex ?sha refereeID\<rparr>"
  let ?nk = "\<lparr>kl_type = ltREFER, kl_key = getAccountReferIndex ?sha referenceID\<rparr>"
  have t: "kl_type (keylet_account ?sha x) > 0" "kl_type ?rk > 0" "kl_type ?nk > 0" for x
    by (simp_all add: keylet_account_def entry_types)
  obtain r1 s1 where r1: "peek_entry V (keylet_account ?sha refereeID) s = (r1, s1)" by fastforce
  note l1 = peek_ok [OF i t(1) r1]
  obtain r2 s2 where r2: "peek_entry V (keylet_account ?sha referenceID) s1 = (r2, s2)" by fastforce
  note l2 = peek_ok [OF l1(1) t(1) r2]
  obtain r3 s3 where r3: "peek_entry V ?rk s2 = (r3, s3)" by fastforce
  note l3 = peek_ok [OF l2(1) t(2) r3]
  have m: "shows_map s2 = ?m" "shows_map s3 = ?m" using l1(2) l2(2) l3(2) by simp_all
  have rd: "refer_list (env_read V ?nk s3) = references_of ?sha ?m referenceID"
    using read_law [OF l3(1)] checked_entry [OF t(3)] m(2) by (simp add: references_of_def)
  have rl: "refer_list (map_option snd r3) = references_of ?sha ?m refereeID"
    using l3(3) m(1) by (simp add: references_of_def)
  define references where "references = (case references_of ?sha ?m refereeID of None \<Rightarrow> [] | Some l \<Rightarrow> l)"
  define g where "g = (\<lambda>f :: Fields. f\<lparr>sfAccount := refereeID, sfReferences := Some (references @ [referenceID])\<rparr>)"
  have body: "addRefer V refereeID referenceID s =
      (if references_of ?sha ?m referenceID \<noteq> None then Ok (tefREFERENCE_EXIST, s3)
       else case r1 of None \<Rightarrow> Ok (tecNO_DST, s3) | Some _ \<Rightarrow>
        (case r2 of None \<Rightarrow> Ok (terNO_ACCOUNT, s3) | Some reference \<Rightarrow>
          if (case sfReferee (flds (snd reference)) of None \<Rightarrow> False | Some a \<Rightarrow> a \<noteq> 0) then Ok (tefREFEREE_EXIST, s3)
          else if length references > 1024 then Ok (tecDIR_FULL, s3)
          else if referenceID \<in> set references then Ok (tefREFERENCE_EXIST, s3)
          else
            rbind (case r3 of Some refer \<Rightarrow> update_entry V g refer s3 | None \<Rightarrow> av_insert (env_av V) (edit_fields g (make_entry ?rk)) s3) (\<lambda>s.
            rbind (update_entry V (\<lambda>f. f\<lparr>sfReferee := Some refereeID\<rparr>) reference s) (\<lambda>s. Ok (tesSUCCESS, s)))))"
    unfolding addRefer_def Let_def r1 r2 r3 prod.case rd rl references_def g_def using False by (simp only: if_False)
  let ?ok = "references_of ?sha ?m referenceID = None \<and> r1 \<noteq> None \<and>
      (case r2 of None \<Rightarrow> False | Some q \<Rightarrow> (case sfReferee (flds (snd q)) of None \<Rightarrow> True | Some a \<Rightarrow> a = 0)) \<and> length references \<le> 1024 \<and> referenceID \<notin> set references"
  have "account_of ?sha ?m refereeID = map_option snd r1" "account_of ?sha ?m referenceID = map_option snd r2"
    using l1(2,3) l2(3) by (simp_all add: account_of_def)
  then have acc: "refer_accepts ?sha ?m refereeID referenceID \<longleftrightarrow> ?ok"
    using False unfolding refer_accepts_def references_def by (cases r1; cases r2) (auto split: option.splits)
  show ?thesis
  proof (cases ?ok)
    case no: False
    then have "\<exists>r. addRefer V refereeID referenceID s = Ok (r, s3) \<and> r \<noteq> tesSUCCESS"
      unfolding body by (auto split: option.splits)
    then show ?thesis using l3(1) m(2) acc no by auto
  next
    case True
    then obtain p e where e: "r2 = Some (p, e)" "case sfReferee (flds e) of None \<Rightarrow> True | Some a \<Rightarrow> a = 0"
      by (cases r2) auto
    have em: "?m (sle_key e) = Some e" "sle_key e = getAccountRootIndex ?sha referenceID" "sle_type e = ltACCOUNT_ROOT"
      using l2(5) [OF e(1)] l2(3) e(1) l1(2) by (auto simp: typed_entry_def keylet_account_def split: option.splits if_splits)
    have h: "handle s3 (sle_key e) p" using l3(6) l2(4) [OF e(1)] l2(5) [OF e(1)] by simp
    have ty: "\<And>a e. ?m (getAccountReferIndex ?sha a) = Some e \<Longrightarrow> sle_type e = ltREFER" using k by (simp add: refer_keys_ok_def)
    obtain l s4 where s4: "(case r3 of Some refer \<Rightarrow> update_entry V g refer s3 | None \<Rightarrow> av_insert (env_av V) (edit_fields g (make_entry ?rk)) s3) = Ok s4"
      "inv s4" "shows_map s4 = ?m(getAccountReferIndex ?sha refereeID \<mapsto> l)" "sle_type l = ltREFER" "sfReferences (flds l) = Some (references @ [referenceID])"
      "handle s4 (sle_key e) p"
    proof (cases r3)
      case None
      have "shows_map s3 (getAccountReferIndex ?sha refereeID) = None"
        using l3(3) None m ty [of refereeID] by (cases "?m (getAccountReferIndex ?sha refereeID)") (auto simp: typed_entry_def)
      moreover have "getAccountReferIndex ?sha refereeID \<noteq> 0" "sle_key e \<noteq> getAccountReferIndex ?sha refereeID"
        using k em(1,3) ty [of refereeID e] by (auto simp: refer_keys_ok_def entry_types)
      ultimately show thesis using insert_law [OF l3(1), of "edit_fields g (make_entry ?rk)"] h None m that [of _ "edit_fields g (make_entry ?rk)"]
        by (auto simp: g_def)
    next
      case (Some q)
      obtain pq eq where q: "q = (pq, eq)" by (cases q)
      have kq: "sle_key eq = getAccountReferIndex ?sha refereeID" "sle_type eq = ltREFER"
        using l3(5) [OF Some [unfolded q]] by auto
      have "handle s3 (sle_key eq) pq" using l3(4) [OF Some [unfolded q]] kq by simp
      then obtain s4 where "update_entry V g (pq, eq) s3 = Ok s4" "inv s4" "shows_map s4 = (shows_map s3)(sle_key eq \<mapsto> edit_fields g eq)"
        "\<And>k p. handle s3 k p \<Longrightarrow> handle s4 k p" using update_ok [OF l3(1)] by blast
      then show thesis using that [of s4 "edit_fields g eq"] h kq Some q m by (simp add: g_def)
    qed
    obtain s5 where s5: "update_entry V (\<lambda>f. f\<lparr>sfReferee := Some refereeID\<rparr>) (p, e) s4 = Ok s5" "inv s5"
      "shows_map s5 = (shows_map s4)(sle_key e \<mapsto> edit_fields (\<lambda>f. f\<lparr>sfReferee := Some refereeID\<rparr>) e)"
      using update_ok [OF s4(2,6)] by blast
    have "addRefer V refereeID referenceID s = Ok (tesSUCCESS, s5)"
      unfolding body using True e s4(1) s5(1) by (auto split: option.splits)
    moreover have "referee_of ?sha (shows_map s5) = (referee_of ?sha ?m)(referenceID \<mapsto> refereeID)"
      using k em s4(3,4) s5(3) ty by (intro referee_of_upd [where e = e and l = l]) (auto simp: refer_keys_ok_def)
    moreover have "references_of ?sha (shows_map s5) = (references_of ?sha ?m)(refereeID := sfReferences (flds l))"
      using k em s4(3,4) s5(3) ty by (intro references_of_upd [where e = e and l = l]) (auto simp: refer_keys_ok_def)
    ultimately show ?thesis using s5(2) True False s4(5) acc by (auto simp: references_def)
  qed
qed

lemma addRefer_forest:
  assumes i: "inv s" and k: "refer_keys_ok (env_sha V) (shows_map s)" and f: "forest (env_sha V) (shows_map s)"
    and ok: "addRefer V refereeID referenceID s = Ok (r, s')"
  shows "forest (env_sha V) (shows_map s')"
proof (cases "r = tesSUCCESS")
  case False
  then show ?thesis using addRefer_ok [OF i k f, of refereeID referenceID] ok f by auto
next
  case True
  let ?sha = "env_sha V" and ?m = "shows_map s"
  have n: "referee_of ?sha (shows_map s') = (referee_of ?sha ?m)(referenceID \<mapsto> refereeID)"
    "references_of ?sha (shows_map s') = (references_of ?sha ?m)
         (refereeID \<mapsto> (case references_of ?sha ?m refereeID of None \<Rightarrow> [] | Some l \<Rightarrow> l) @ [referenceID])"
    "references_of ?sha ?m referenceID = None" "refereeID \<noteq> referenceID"
    using addRefer_ok [OF i k f, of refereeID referenceID] ok True by auto
  have src: "referee_of ?sha ?m a \<noteq> Some referenceID" for a using f n(3) unfolding forest_def by metis
  have "acyclic (referral ?sha (shows_map s'))"
    unfolding referral_def n(1) using f src n(4) by (intro acyclic_new_source) (auto simp: forest_def referral_def)
  moreover have "\<forall>a b. referee_of ?sha (shows_map s') a = Some b \<longrightarrow> references_of ?sha (shows_map s') b \<noteq> None"
    using f unfolding n(1,2) by (auto simp: forest_def)
  ultimately show ?thesis by (simp add: forest_def)
qed

end

section \<open>Sandboxes\<close>

text \<open>
  A sandbox with the credits that the payment sandboxes it belongs to defer (none for a plain sandbox) and the record of the
  takers of fee shares.
\<close>

type_synonym sandbox = "Fields DirPage ApplyStateTable \<times> DeferredCredits list \<times> (AccountID \<times> STAmount) list"

definition lift_av :: "('d, 't) ApplyView \<Rightarrow> ('d, 't \<times> 'c) ApplyView" where
  "lift_av av =
     \<lparr>av_peek = (\<lambda>k s. let (r, t) = av_peek av k (fst s) in (r, (t, snd s))),
      av_insert = (\<lambda>e s. rbind (av_insert av e (fst s)) (\<lambda>t. Ok (t, snd s))),
      av_update = (\<lambda>r s. rbind (av_update av r (fst s)) (\<lambda>t. Ok (t, snd s))),
      av_erase = (\<lambda>r s. rbind (av_erase av r (fst s)) (\<lambda>t. Ok (t, snd s)))\<rparr>"

definition sandbox_env :: "hash \<Rightarrow> Fields DirPage ReadView \<Rightarrow> bool \<Rightarrow> u32 \<Rightarrow> u32 \<Rightarrow> u32 \<Rightarrow> sandbox Env" where
  "sandbox_env sha base open' reserve increment parentCloseTime =
     \<lparr>env_sha = sha, env_av = lift_av (apply_av base),
      env_read = (\<lambda>k s. apply_read (fst s) base k), env_exists = (\<lambda>k s. apply_exists (fst s) base k),
      env_succ = (\<lambda>k l s. apply_succ (fst s) base k l),
      env_creditHook = (\<lambda>a b x (t, tabs, tk). rbind (creditHook a b x tabs) (\<lambda>tabs. Ok (t, tabs, tk))),
      env_balanceHook = (\<lambda>a b x (t, tabs, tk). balanceHook tabs a b x),
      env_takers = (\<lambda>(t, tabs, tk). tk), env_set_takers = (\<lambda>tk (t, tabs, _). (t, tabs, tk)),
      env_open = open', env_reserve = reserve, env_increment = increment, env_parentCloseTime = parentCloseTime\<rparr>"

lemma sandbox_env_simps [simp]:
  "env_sha (sandbox_env sha base op r i t) = sha" "env_av (sandbox_env sha base op r i t) = lift_av (apply_av base)"
  by (simp_all add: sandbox_env_def)

lemma lift_entry_view:
  assumes "entry_view av sm iv h"
  shows "entry_view (lift_av av) (\<lambda>s. sm (fst s)) (\<lambda>s. iv (fst s)) (\<lambda>s. h (fst s))"
proof (unfold_locales, goal_cases)
  case (1 s kl r s')
  then show ?case using entry_view.peek_law [OF assms, of "fst s" kl] by (auto simp: lift_av_def split: prod.splits)
next
  case (2 s e)
  then show ?case using entry_view.insert_law [OF assms, of "fst s" e] by (auto simp: lift_av_def)
next
  case (3 s e p)
  then show ?case using entry_view.update_law [OF assms, of "fst s" e p] by (auto simp: lift_av_def)
next
  case (4 s e p)
  then show ?case using entry_view.erase_law [OF assms, of "fst s" e p] by (auto simp: lift_av_def)
next
  case (5 s k e)
  then show ?case using entry_view.keys_law [OF assms] by blast
qed

interpretation sb: ledger_env "sandbox_env sha base op reserve increment pct" "\<lambda>s. apply_overlay (fst s) m"
  "\<lambda>s. apply_consistent (fst s) m \<and> read_view base m" "\<lambda>s. apply_handle (fst s)"
  for sha base op reserve increment pct m
proof -
  have "entry_view (apply_av base) (\<lambda>t. apply_overlay t m) (\<lambda>t. apply_consistent t m \<and> read_view base m) apply_handle"
    by (rule av.entry_view_axioms)
  then have e: "entry_view (env_av (sandbox_env sha base op reserve increment pct)) (\<lambda>s. apply_overlay (fst s) m)
      (\<lambda>s. apply_consistent (fst s) m \<and> read_view base m) (\<lambda>s. apply_handle (fst s))"
    using lift_entry_view by simp
  show "ledger_env (sandbox_env sha base op reserve increment pct) (\<lambda>s. apply_overlay (fst s) m)
      (\<lambda>s. apply_consistent (fst s) m \<and> read_view base m) (\<lambda>s. apply_handle (fst s))"
  proof (rule ledger_env.intro [OF e], unfold_locales, goal_cases)
    case (1 s k)
    then show ?case using read_view.read_law [of base m k]
      by (auto simp: sandbox_env_def apply_read_def checked_lookup_def apply_overlay_def split: option.splits Action.splits prod.splits)
  next
    case (2 s a b x s')
    then show ?case by (auto simp: sandbox_env_def split: prod.splits)
  qed
qed

text \<open>
  C12. Transfers of native currency conserve it: \<open>transferXRP\<close> of a native amount between two different accounts of a
  sandbox takes exactly the amount from the balance of the one and adds exactly the amount to that of the other, in the
  field of the currency, and changes nothing else of the ledger; it fails exactly when the balance is below the amount,
  and then changes nothing.
\<close>

theorem transferXRP_conserves:
  assumes "read_view base m" "apply_consistent t m"
    and "from \<noteq> 0" "to \<noteq> 0" "from \<noteq> to" "getAccountRootIndex sha from \<noteq> getAccountRootIndex sha to"
    and "account_of sha (apply_overlay t m) from = Some e1" "account_of sha (apply_overlay t m) to = Some e2"
    and "mIsNative amount" "proper amount"
    and "b1 = native_balance (isVBC amount) (flds e1)" "b2 = native_balance (isVBC amount) (flds e2)"
    and "proper b1" "proper b2" "mIsNative b1" "mIsNative b2"
  shows "\<exists>t' c'. apply_consistent t' m \<and>
    (if denote b1 < denote amount
     then transferXRP (sandbox_env sha base op reserve increment pct) from to amount (t, c) =
         Ok (if op then telFAILED_PROCESSING else tecFAILED_PROCESSING, t', c') \<and> apply_overlay t' m = apply_overlay t m
     else transferXRP (sandbox_env sha base op reserve increment pct) from to amount (t, c) = Ok (tesSUCCESS, t', c') \<and>
       (\<exists>c1 c2. apply_overlay t' m = (apply_overlay t m)
           (sle_key e1 \<mapsto> edit_fields (set_native_balance (isVBC amount) c1) e1, sle_key e2 \<mapsto> edit_fields (set_native_balance (isVBC amount) c2) e2) \<and>
         denote c1 + denote c2 = denote b1 + denote b2 \<and> denote c1 = denote b1 - denote amount))"
proof -
  have f: "failed_processing (sandbox_env sha base op reserve increment pct) = (if op then telFAILED_PROCESSING else tecFAILED_PROCESSING)"
    by (simp add: failed_processing_def sandbox_env_def)
  note r = sb.transferXRP_ok [where s = "(t, c)" and base = base and m = m and sha = sha and op = op and reserve = reserve
      and increment = increment and pct = pct, unfolded sandbox_env_simps f fst_conv, OF conjI [OF assms(2,1)] assms(3-16)]
  then obtain s' where s': "apply_consistent (fst s') m"
    "if denote b1 < denote amount
     then transferXRP (sandbox_env sha base op reserve increment pct) from to amount (t, c) =
         Ok (if op then telFAILED_PROCESSING else tecFAILED_PROCESSING, s') \<and> apply_overlay (fst s') m = apply_overlay t m
     else transferXRP (sandbox_env sha base op reserve increment pct) from to amount (t, c) = Ok (tesSUCCESS, s') \<and>
       (\<exists>c1 c2. apply_overlay (fst s') m = (apply_overlay t m)
           (sle_key e1 \<mapsto> edit_fields (set_native_balance (isVBC amount) c1) e1, sle_key e2 \<mapsto> edit_fields (set_native_balance (isVBC amount) c2) e2) \<and>
         denote c1 = denote b1 - denote amount \<and> denote c2 = denote b2 + denote amount)" by blast
  show ?thesis
  proof (cases "denote b1 < denote amount")
    case True
    then show ?thesis using s' by (intro exI [of _ "fst s'"] exI [of _ "snd s'"]) simp
  next
    case False
    then obtain c1 c2 where c: "apply_overlay (fst s') m = (apply_overlay t m)
        (sle_key e1 \<mapsto> edit_fields (set_native_balance (isVBC amount) c1) e1, sle_key e2 \<mapsto> edit_fields (set_native_balance (isVBC amount) c2) e2)"
      "denote c1 = denote b1 - denote amount" "denote c2 = denote b2 + denote amount" using s'(2) by auto
    have tr: "transferXRP (sandbox_env sha base op reserve increment pct) from to amount (t, c) = Ok (tesSUCCESS, fst s', snd s')"
      using s'(2) False by simp
    have "\<exists>c1 c2. apply_overlay (fst s') m = (apply_overlay t m)
        (sle_key e1 \<mapsto> edit_fields (set_native_balance (isVBC amount) c1) e1, sle_key e2 \<mapsto> edit_fields (set_native_balance (isVBC amount) c2) e2) \<and>
      denote c1 + denote c2 = denote b1 + denote b2 \<and> denote c1 = denote b1 - denote amount"
      using c by (intro exI [of _ c1] exI [of _ c2]) simp
    then show ?thesis unfolding if_not_P [OF False] using s'(1) tr by blast
  qed
qed

text \<open>
  C14. Referrals form a forest: where every referee has a referral list and no chain of referees comes back to its
  start, \<open>addRefer\<close> never throws and this is still so after it. It succeeds exactly when the two accounts are different
  and exist, the reference has neither references nor a referee of its own (none, or the zero account), and the list of
  the referee has at most 1024 references and not this one; then it sets the referee of the reference, appends the
  reference to the list of the referee and changes no other referee and no other list. Otherwise it changes nothing.
\<close>

theorem addRefer_keeps_forest:
  assumes "read_view base m" "apply_consistent t m" "refer_keys_ok sha (apply_overlay t m)" "forest sha (apply_overlay t m)"
  shows "\<exists>r t' c'. addRefer (sandbox_env sha base op reserve increment pct) refereeID referenceID (t, c) = Ok (r, t', c') \<and>
    apply_consistent t' m \<and> forest sha (apply_overlay t' m) \<and>
    (r = tesSUCCESS \<longleftrightarrow>
      refereeID \<noteq> referenceID \<and> account_of sha (apply_overlay t m) refereeID \<noteq> None \<and>
      (\<exists>e. account_of sha (apply_overlay t m) referenceID = Some e \<and> (sfReferee (flds e) = None \<or> sfReferee (flds e) = Some 0)) \<and>
      references_of sha (apply_overlay t m) referenceID = None \<and>
      (\<forall>l. references_of sha (apply_overlay t m) refereeID = Some l \<longrightarrow> length l \<le> 1024 \<and> referenceID \<notin> set l)) \<and>
    (if r = tesSUCCESS then referee_of sha (apply_overlay t' m) = (referee_of sha (apply_overlay t m))(referenceID \<mapsto> refereeID) \<and>
       references_of sha (apply_overlay t' m) = (references_of sha (apply_overlay t m))
         (refereeID \<mapsto> (case references_of sha (apply_overlay t m) refereeID of None \<Rightarrow> [] | Some l \<Rightarrow> l) @ [referenceID])
     else apply_overlay t' m = apply_overlay t m)"
proof -
  have i: "apply_consistent (fst (t, c)) m \<and> read_view base m" using assms(1,2) by simp
  have k: "refer_keys_ok (env_sha (sandbox_env sha base op reserve increment pct)) (apply_overlay (fst (t, c)) m)"
    and f: "forest (env_sha (sandbox_env sha base op reserve increment pct)) (apply_overlay (fst (t, c)) m)"
    using assms(3,4) by simp_all
  obtain r s' where "addRefer (sandbox_env sha base op reserve increment pct) refereeID referenceID (t, c) = Ok (r, s')"
    "apply_consistent (fst s') m" "r = tesSUCCESS \<longleftrightarrow> refer_accepts sha (apply_overlay t m) refereeID referenceID"
    "if r = tesSUCCESS then referee_of sha (apply_overlay (fst s') m) = (referee_of sha (apply_overlay t m))(referenceID \<mapsto> refereeID) \<and>
       references_of sha (apply_overlay (fst s') m) = (references_of sha (apply_overlay t m))
         (refereeID \<mapsto> (case references_of sha (apply_overlay t m) refereeID of None \<Rightarrow> [] | Some l \<Rightarrow> l) @ [referenceID])
     else apply_overlay (fst s') m = apply_overlay t m"
    using sb.addRefer_ok [OF i k f, of refereeID referenceID] by (auto split: if_splits)
  moreover from this(1) have "forest sha (apply_overlay (fst s') m)"
    using sb.addRefer_forest [OF i k f, of refereeID referenceID r s'] by simp
  ultimately show ?thesis unfolding refer_accepts_def by (metis prod.collapse)
qed

section \<open>A sample ledger\<close>

definition index_sha :: hash where
  "index_sha bs = of_nat (bytes_val bs)"

lemma index_sha_unat: "unat (index_sha (space c @ word_bytes (a :: AccountID))) = of_char c * 2 ^ 160 + unat a"
proof -
  have a: "unat a < 2 ^ 160" using unsigned_less [of a, where ?'a = nat] by simp
  have c: "(of_char c :: nat) < 256" by simp
  then have m: "(of_char c :: nat) mod 65536 = of_char c" by (intro mod_less) linarith
  have "bytes_val (space c @ word_bytes a) = of_char c * 2 ^ 160 + unat a"
    using a m by (simp add: bytes_val_append bytes_val_nat_bytes word_bytes_def space_def)
  moreover have "of_char c * 2 ^ 160 + unat a < 2 ^ 256"
  proof -
    have "(of_char c :: nat) * 2 ^ 160 \<le> 255 * 2 ^ 160" using c by (intro mult_right_mono) linarith+
    moreover have "255 * 2 ^ 160 + 2 ^ 160 < (2 ^ 256 :: nat)" by simp
    ultimately show ?thesis using a by linarith
  qed
  moreover have "unat (index_sha bs) = bytes_val bs mod 2 ^ 256" for bs by (simp add: index_sha_def unat_of_nat)
  ultimately show ?thesis by (metis mod_less)
qed

lemmas index_sha_accounts = index_sha_unat [of "CHR ''a''", folded getAccountRootIndex_def, simplified]
  and index_sha_refers = index_sha_unat [of "CHR ''R''", folded getAccountReferIndex_def, simplified]

lemma index_sha_inj: "inj (getAccountRootIndex index_sha)" "inj (getAccountReferIndex index_sha)"
  using index_sha_accounts index_sha_refers by (auto intro!: injI simp: word_unat_eq_iff)

definition sample_account :: "AccountID \<Rightarrow> u64 \<Rightarrow> entry" where
  "sample_account a v = edit_fields (\<lambda>f. f\<lparr>sfAccount := a, sfBalance := STAmount_drops v False\<rparr>) (make_entry (keylet_account index_sha a))"

definition sample_accounts :: "(key, entry) omap" where
  "sample_accounts = map (\<lambda>e. (sle_key e, e)) [sample_account 2 100, sample_account 3 50]"

lemma sample_account_simps: "sle_key (sample_account a v) = getAccountRootIndex index_sha a" "sle_type (sample_account a v) = ltACCOUNT_ROOT"
  "sfBalance (flds (sample_account a v)) = STAmount_drops v False" "sfReferee (flds (sample_account a v)) = None"
  by (simp_all add: sample_account_def keylet_account_def no_fields_def)

lemma sample_keys: "getAccountRootIndex index_sha 2 < getAccountRootIndex index_sha 3" "getAccountRootIndex index_sha a \<noteq> 0"
  "getAccountReferIndex index_sha a \<noteq> 0" "getAccountReferIndex index_sha a \<noteq> getAccountRootIndex index_sha b"
proof -
  have "unat a < 2 ^ 160" using unsigned_less [of a, where ?'a = nat] by simp
  then show "getAccountReferIndex index_sha a \<noteq> getAccountRootIndex index_sha b"
    using index_sha_accounts [of b] index_sha_refers [of a] by (auto simp: word_unat_eq_iff)
qed (use index_sha_accounts index_sha_refers in \<open>auto simp: word_less_nat_alt word_unat_eq_iff\<close>)

lemma sample_accounts_ok: "ledger_ok sample_accounts"
  using sample_keys by (auto simp: ledger_ok_def om_ok_def state_ok_def sample_accounts_def sample_account_simps finite_dom_map_of split: if_splits)

lemma sample_account_of: "account_of index_sha (map_of sample_accounts) a =
  (if a = 2 then Some (sample_account 2 100) else if a = 3 then Some (sample_account 3 50) else None)"
  using index_sha_inj(1) by (auto simp: account_of_def typed_entry_def keylet_account_def sample_accounts_def sample_account_simps dest: injD)

lemma sample_drops: "unat v \<le> 100 \<Longrightarrow> proper (STAmount_drops v False)" "mIsNative (STAmount_drops v False)"
  "denote (STAmount_drops v False) = of_nat (unat v)" "\<not> isVBC (STAmount_drops v False)"
  by (simp_all add: STAmount_drops_def proper_def wf_amount_def isNative_def isXRP_def isVBC_def issue_defs denote_def magnitude_def)

theorem transferXRP_conserves_witness:
  "\<exists>t' c'. transferXRP (sandbox_env index_sha (ledger_view sample_accounts) True 0 0 0) 2 3 (STAmount_drops 30 False) (apply_empty, [], []) =
    Ok (tesSUCCESS, t', c')"
  using less_imp_neq [OF sample_keys(1)] transferXRP_conserves [OF ledger_read_view [OF sample_accounts_ok] apply_empty_ok(1), of 2 3 index_sha "sample_account 2 100" "sample_account 3 50"
    "STAmount_drops 30 False" "STAmount_drops 100 False" "STAmount_drops 50 False" True 0 0 0 "([], [])"]
    by (auto simp: sample_account_of sample_drops native_balance_def sample_account_simps)

lemma sample_forest: "refer_keys_ok index_sha (apply_overlay apply_empty (map_of sample_accounts))"
  "forest index_sha (apply_overlay apply_empty (map_of sample_accounts))"
proof -
  have "referee_of index_sha (apply_overlay apply_empty (map_of sample_accounts)) a = None" for a
    by (simp add: referee_of_def sample_account_of sample_account_simps)
  then show "forest index_sha (apply_overlay apply_empty (map_of sample_accounts))"
    by (auto simp: forest_def referral_def acyclic_def)
  have "map_of sample_accounts (getAccountReferIndex index_sha a) = None" for a
    using sample_keys(4) by (simp add: sample_accounts_def sample_account_simps)
  then show "refer_keys_ok index_sha (apply_overlay apply_empty (map_of sample_accounts))"
    using index_sha_inj sample_keys(3) by (auto simp: refer_keys_ok_def)
qed

theorem addRefer_keeps_forest_witness:
  "\<exists>t' c'. addRefer (sandbox_env index_sha (ledger_view sample_accounts) True 0 0 0) 2 3 (apply_empty, [], []) = Ok (tesSUCCESS, t', c') \<and>
    forest index_sha (apply_overlay t' (map_of sample_accounts)) \<and> referee_of index_sha (apply_overlay t' (map_of sample_accounts)) 3 = Some 2"
proof -
  have "map_of sample_accounts (getAccountReferIndex index_sha a) = None" for a
    using sample_keys(4) by (simp add: sample_accounts_def sample_account_simps)
  then have n: "references_of index_sha (map_of sample_accounts) a = None" for a
    by (simp add: references_of_def typed_entry_def refer_list_def)
  show ?thesis
    using addRefer_keeps_forest [OF ledger_read_view [OF sample_accounts_ok] apply_empty_ok(1) sample_forest, of True 0 0 0 2 3 "([], [])"]
    by (auto simp: n sample_account_of sample_account_simps)
qed

end
