(* ===== verification/Line_Props.thy ===== *)
theory Line_Props
  imports Entry_Props
begin

unbundle bit_operations_syntax

text \<open>
  Properties of trust lines (\<open>TrustLines\<close>): owner counts saturate, a credit moves the balance of the line by
  what \<open>STAmount\<close> computes and touches nothing but the line and the owner count of the sender, and a direct send hides
  the failure of the credit it is made of.
\<close>

section \<open>Owner counts\<close>

lemma u32_of_int: "0 \<le> x \<Longrightarrow> x < 2 ^ 32 \<Longrightarrow> uint (word_of_int x :: u32) = x"
  by (simp add: uint_word_of_int)

lemma u32_plus_int: "uint (c + word_of_int a :: u32) = (uint c + a) mod 2 ^ 32"
  by (simp add: uint_word_ariths uint_word_of_int mod_simps)

text \<open>
  C25. Owner counts saturate above and never pass below zero: adjusting a count by a positive \<open>int\<close> gives the sum or,
  where that does not fit 32 bits, the greatest count; by a negative one it gives the sum or stops at the assertion where
  that is below zero.
\<close>

theorem owner_count_saturates:
  assumes "- (2 ^ 31) \<le> amount" "amount < 2 ^ 31" "amount \<noteq> 0"
  shows "adjusted_count c amount =
    (if uint c + amount < 0 then Throw AssertFailed else Ok (word_of_int (min (uint c + amount) (2 ^ 32 - 1))))"
proof -
  have c: "0 \<le> uint c" "uint c < 2 ^ 32" using uint_lt2p [of c] by simp_all
  have pw: "(2 :: int) ^ 31 = 2147483648" "(2 :: int) ^ 32 = 4294967296" by simp_all
  let ?x = "uint c + amount" and ?w = "c + word_of_int amount"
  have w: "?w = word_of_int ?x" by simp
  have up: "amount > 0 \<Longrightarrow> adjusted_count c amount = Ok (if ?x mod 2 ^ 32 < uint c then -1 else ?w)"
    and down: "amount < 0 \<Longrightarrow> adjusted_count c amount = (if uint c < ?x mod 2 ^ 32 then Throw AssertFailed else Ok ?w)"
    by (simp_all only: adjusted_count_def Let_def word_less_def u32_plus_int if_True) simp_all
  consider (pos) "amount > 0" "?x < 2 ^ 32" | (over) "amount > 0" "?x \<ge> 2 ^ 32" | (neg) "amount < 0" "?x \<ge> 0" | (below) "amount < 0" "?x < 0"
    using assms(3) by linarith
  then show ?thesis
  proof cases
    case pos
    then have "?x mod 2 ^ 32 = ?x" using c by (intro mod_pos_pos_trivial) simp_all
    then have "adjusted_count c amount = Ok ?w" using up [OF pos(1)] pos(1) by (simp only: not_less) simp
    moreover have "min ?x (2 ^ 32 - 1) = ?x" "\<not> ?x < 0" using pos c by linarith+
    ultimately show ?thesis unfolding w by (simp only: if_False)
  next
    case over
    have "(?x - 2 ^ 32) mod 2 ^ 32 = ?x - 2 ^ 32" using over c assms(2) by (intro mod_pos_pos_trivial) simp_all
    then have "?x mod 2 ^ 32 < uint c" using assms(2) by (simp only: minus_mod_self2) simp
    then have "adjusted_count c amount = Ok (-1)" using up [OF over(1)] by (simp only: if_True)
    moreover have "min ?x (2 ^ 32 - 1) = 2 ^ 32 - 1" "\<not> ?x < 0" "word_of_int (2 ^ 32 - 1) = (-1 :: u32)" using over by simp_all
    ultimately show ?thesis by (simp only: if_False)
  next
    case neg
    then have "?x mod 2 ^ 32 = ?x" using c by (intro mod_pos_pos_trivial) simp_all
    then have "adjusted_count c amount = Ok ?w" using down [OF neg(1)] neg(1) by (simp only: not_less) simp
    moreover have "min ?x (2 ^ 32 - 1) = ?x" "\<not> ?x < 0" using neg c by linarith+
    ultimately show ?thesis unfolding w by (simp only: if_False)
  next
    case below
    have "(?x + 2 ^ 32) mod 2 ^ 32 = ?x + 2 ^ 32" using below c assms(1) pw by (intro mod_pos_pos_trivial) linarith+
    then have "uint c < ?x mod 2 ^ 32" using assms(1) by (simp only: mod_add_self2) simp
    then have "adjusted_count c amount = Throw AssertFailed" using down [OF below(1)] by (simp only: if_True)
    then show ?thesis using below(2) by (simp only: if_True)
  qed
qed

theorem owner_count_saturates_witness: "adjusted_count 4294967295 1 = Ok (-1) \<and> adjusted_count 0 (-1) = Throw AssertFailed"
  using owner_count_saturates [of 1 4294967295] owner_count_saturates [of "-1" 0] by simp

section \<open>Credits\<close>

lemma adjusted_count_down: "c \<noteq> 0 \<Longrightarrow> adjusted_count c (-1) = Ok (c - 1)"
proof -
  assume "c \<noteq> 0"
  then have "\<not> c < c - 1" by (simp add: word_less_nat_alt unat_minus_one)
  then show ?thesis by (simp add: adjusted_count_def Let_def)
qed

text \<open>The line after a credit, and the ledger with it.\<close>

definition credited_line :: "bool \<Rightarrow> bool \<Rightarrow> STAmount \<Rightarrow> Fields \<Rightarrow> Fields" where
  "credited_line bSenderHigh clears after f =
     (if clears then clear_reserve_flag bSenderHigh f else f)\<lparr>sfBalance := if bSenderHigh then negate after else after\<rparr>"

definition owes_less :: "Fields \<Rightarrow> Fields" where
  "owes_less f = f\<lparr>sfOwnerCount := sfOwnerCount f - 1\<rparr>"

context ledger_env
begin

lemma adjust_down:
  assumes "inv s" "handle s (sle_key e) p" "sfOwnerCount (flds e) \<noteq> 0"
  obtains s' where "adjustOwnerCount V (p, e) (-1) s = Ok s'" "inv s'" "shows_map s' = (shows_map s)(sle_key e \<mapsto> edit_fields owes_less e)"
    "\<And>k p. handle s k p \<Longrightarrow> handle s' k p"
proof -
  let ?f = "\<lambda>f :: Fields. f\<lparr>sfOwnerCount := sfOwnerCount (flds e) - 1\<rparr>"
  obtain s' where s': "update_entry V ?f (p, e) s = Ok s'" "inv s'" "shows_map s' = (shows_map s)(sle_key e \<mapsto> edit_fields ?f e)"
    "\<And>k p. handle s k p \<Longrightarrow> handle s' k p" using update_ok [OF assms(1,2)] by blast
  have "edit_fields ?f e = edit_fields owes_less e" by (simp add: edit_fields_def owes_less_def)
  then show ?thesis using that s' adjusted_count_down [OF assms(3)] by (simp add: adjustOwnerCount_def)
qed

lemma rippleCredit_line:
  fixes sender receiver :: AccountID and amount :: STAmount
  defines "cur \<equiv> currency (mIssue amount)" and "high \<equiv> sender > receiver"
  defines "k \<equiv> \<lparr>kl_type = ltRIPPLE_STATE, kl_key = getRippleStateIndex (env_sha V) sender receiver cur\<rparr>"
  assumes i: "inv s" and as: "\<not> chk \<or> sender = account (mIssue amount) \<or> receiver = account (mIssue amount)" "sender \<noteq> receiver"
      "sender \<notin> {0, noAccount, vbcAccount}" "receiver \<notin> {0, noAccount, vbcAccount}" "cur \<noteq> assetCurrency"
    and e: "typed_entry (shows_map s) k = Some e"
    and hook: "peek_entry V k s = (r, s1)" "env_creditHook V sender receiver amount s1 = Ok s2"
    and b: "before = (if high then negate (sfBalance (flds e)) else sfBalance (flds e))" "minus_amount before amount = Ok after"
    and c: "clears = clears_reserve high (flds e) before after" "\<not> (clears \<and> unused_line high (flds e) after)"
      "clears \<Longrightarrow> account_of (env_sha V) (shows_map s) sender = Some a" "clears \<Longrightarrow> sfOwnerCount (flds a) \<noteq> 0"
  shows "\<exists>s'. rippleCredit V sender receiver amount chk s = Ok (tesSUCCESS, s') \<and> inv s' \<and>
    shows_map s' = (if clears then (shows_map s)(sle_key a \<mapsto> edit_fields owes_less a) else shows_map s)
      (sle_key e \<mapsto> edit_fields (credited_line high clears after) e)"
proof -
  have tk: "kl_type k > 0" "kl_type k = ltRIPPLE_STATE" by (simp_all add: k_def entry_types)
  note l1 = peek_ok [OF i tk(1) hook(1)]
  obtain p where p: "r = Some (p, e)" using l1(3) e by auto
  have ke: "sle_key e = kl_key k" "sle_type e = ltRIPPLE_STATE" using l1(5) [OF p] tk(2) by simp_all
  note l2 = credit_law [OF l1(1) hook(2)]
  have m2: "shows_map s2 = shows_map s" "inv s2" and h2: "handle s2 (sle_key e) p" using l2 l1(2) l1(4) [OF p] ke by auto
  have me: "shows_map s (sle_key e) = Some e" using e ke by (auto simp: typed_entry_def split: option.splits if_splits)
  have "shows_map s2 (sle_key e) = Some e" "sle_type e > 0" using me m2(1) ke(2) by (simp_all add: entry_types)
  then obtain q s3 where s3: "again V (p, e) s2 = Ok ((q, e), s3)" "inv s3" "shows_map s3 = shows_map s" "handle s3 (sle_key e) q"
    using again_ok [OF m2(2) h2 _ refl] m2(1) by metis
  obtain s5 where s5: "(if clears then
        rbind (deref (peek_entry V (keylet_account (env_sha V) sender) s3)) (\<lambda>(sender, s). adjustOwnerCount V sender (-1) s) else Ok s3) = Ok s5"
    "inv s5" "shows_map s5 = (if clears then (shows_map s)(sle_key a \<mapsto> edit_fields owes_less a) else shows_map s)" "handle s5 (sle_key e) q"
  proof (cases clears)
    case False
    then show thesis using that s3 by simp
  next
    case True
    have ta: "kl_type (keylet_account (env_sha V) sender) > 0" by (simp add: keylet_account_def entry_types)
    obtain ra s4 where ra: "peek_entry V (keylet_account (env_sha V) sender) s3 = (ra, s4)" by fastforce
    note l4 = peek_ok [OF s3(2) ta ra]
    obtain pa where pa: "ra = Some (pa, a)" using l4(3) c(3) [OF True] s3(3) by (auto simp: account_of_def)
    have "handle s4 (sle_key a) pa" using l4(4,5) [OF pa] by simp
    then obtain s5 where "adjustOwnerCount V (pa, a) (-1) s4 = Ok s5" "inv s5" "shows_map s5 = (shows_map s4)(sle_key a \<mapsto> edit_fields owes_less a)"
      "\<And>k p. handle s4 k p \<Longrightarrow> handle s5 k p" using adjust_down [OF l4(1) _ c(4) [OF True]] by blast
    then show thesis using that [of s5] True ra pa l4(2) l4(6) [OF s3(4)] s3(3) by simp
  qed
  obtain s6 where s6: "update_entry V (credited_line high clears after) (q, e) s5 = Ok s6" "inv s6"
    "shows_map s6 = (shows_map s5)(sle_key e \<mapsto> edit_fields (credited_line high clears after) e)"
    using update_ok [OF s5(2,4)] by blast
  have ia: "issueAsset V high sender receiver cur amount ix r s1 = Ok (False, tesSUCCESS, s1)" for ix
    using as(5) by (simp add: issueAsset_def)
  have g: "(\<lambda>f. (if clears then clear_reserve_flag high f else f)\<lparr>sfBalance := if high then negate after else after\<rparr>) = credited_line high clears after"
    by (simp add: credited_line_def fun_eq_iff)
  have "rippleCredit V sender receiver amount chk s = Ok (tesSUCCESS, s6)"
  proof -
    have A: "(\<not> chk \<or> sender = account (mIssue amount) \<or> receiver = account (mIssue amount)) = True" "(sender \<noteq> receiver) = True"
      "(\<not> isXRP_acc sender \<and> sender \<noteq> noAccount) = True" "(\<not> isXRP_acc receiver \<and> receiver \<noteq> noAccount) = True"
      "(\<not> isVBC_acc sender) = True" "(\<not> isVBC_acc receiver) = True"
      "(clears \<and> unused_line high (flds e) after) = False"
      using as(1-4) c(2) by (auto simp: isXRP_acc_def isVBC_acc_def)
    show ?thesis
      unfolding rippleCredit_def Let_def cur_def [symmetric] high_def [symmetric] k_def [symmetric] hook(1) prod.case p ia [unfolded p] A require_True rbind.simps
        option.case if_False hook(2) s3(1) fst_conv snd_conv b(1) [symmetric] b(2) c(1) [symmetric] s5(1) g s6(1) ..
  qed
  then show ?thesis using s6(2,3) s5(3) by auto
qed

end

lemma sandbox_hook: "peek_entry (sandbox_env sha base op r i pct) k (t, tabs, tk) = (x, s1) \<Longrightarrow> creditHook a b y tabs = Ok tabs' \<Longrightarrow>
  env_creditHook (sandbox_env sha base op r i pct) a b y s1 = Ok (fst s1, tabs', tk)"
  by (auto simp: sandbox_env_def lift_av_def split: prod.splits)

text \<open>The test of the code, from the side of the sender, and what a release changes.\<close>

lemma clears_reserve_iff:
  "clears_reserve high f before after \<longleftrightarrow> mValue before \<noteq> 0 \<and> \<not> mIsNegative before \<and> (mValue after = 0 \<or> mIsNegative after) \<and>
    (if high then sfFlags f AND lsfHighReserve \<noteq> 0 \<and> sfFlags f AND lsfHighFreeze = 0 \<and> mValue (sfHighLimit f) = 0 \<and>
       sfHighQualityIn f = 0 \<and> sfHighQualityOut f = 0
     else sfFlags f AND lsfLowReserve \<noteq> 0 \<and> sfFlags f AND lsfLowFreeze = 0 \<and> mValue (sfLowLimit f) = 0 \<and>
       sfLowQualityIn f = 0 \<and> sfLowQualityOut f = 0)"
  by (auto simp: clears_reserve_def signum_def)

lemma credited_line_alt:
  "credited_line high clears after = (\<lambda>f. f\<lparr>sfFlags := if clears then sfFlags f AND NOT (if high then lsfHighReserve else lsfLowReserve) else sfFlags f,
     sfBalance := if high then negate after else after\<rparr>)"
  by (auto simp: credited_line_def clear_reserve_flag_def fun_eq_iff)

text \<open>
  C13. A credit on a trust line: \<open>rippleCredit\<close> of an amount of a currency other than the asset one, over an existing line
  of two different ordinary accounts, sets the balance of the line, in the sender's terms, to what \<open>STAmount\<close> computes for
  the old one less the amount (a rounded difference). The line stops counting towards the sender's reserve exactly when
  the sender's balance was positive and is no longer, the sender's reserve flag is set, its freeze flag is not, and its
  limit and its two qualities are zero: then the sender's reserve flag is cleared and its owner count goes down by one.
  All other fields and entries stay as they are. (A line whose balance gets zero with the other side's reserve flag
  clear as well is deleted; that case is excluded here, as is the asset currency.)
\<close>

theorem rippleCredit_moves:
  fixes sender receiver :: AccountID and amount :: STAmount
  defines "cur \<equiv> currency (mIssue amount)" and "low \<equiv> sender < receiver"
  assumes "read_view base m" "apply_consistent t m"
    and "\<not> chk \<or> sender = account (mIssue amount) \<or> receiver = account (mIssue amount)" "sender \<noteq> receiver"
    and "sender \<notin> {0, noAccount, vbcAccount}" "receiver \<notin> {0, noAccount, vbcAccount}" "cur \<noteq> assetCurrency"
    and "typed_entry (apply_overlay t m) (keylet_line sha sender receiver cur) = Some e"
    and "creditHook sender receiver amount tabs = Ok tabs'"
    and "before = (if low then sfBalance (flds e) else negate (sfBalance (flds e)))" "minus_amount before amount = Ok after"
    and "releases \<longleftrightarrow> mValue before \<noteq> 0 \<and> \<not> mIsNegative before \<and> (mValue after = 0 \<or> mIsNegative after) \<and>
      (if low then sfFlags (flds e) AND lsfLowReserve \<noteq> 0 \<and> sfFlags (flds e) AND lsfLowFreeze = 0 \<and> mValue (sfLowLimit (flds e)) = 0 \<and>
         sfLowQualityIn (flds e) = 0 \<and> sfLowQualityOut (flds e) = 0
       else sfFlags (flds e) AND lsfHighReserve \<noteq> 0 \<and> sfFlags (flds e) AND lsfHighFreeze = 0 \<and> mValue (sfHighLimit (flds e)) = 0 \<and>
         sfHighQualityIn (flds e) = 0 \<and> sfHighQualityOut (flds e) = 0)"
    and "\<not> (releases \<and> mValue after = 0 \<and> sfFlags (flds e) AND (if low then lsfHighReserve else lsfLowReserve) = 0)"
    and "releases \<Longrightarrow> account_of sha (apply_overlay t m) sender = Some a" "releases \<Longrightarrow> sfOwnerCount (flds a) \<noteq> 0"
  shows "\<exists>t' c'. rippleCredit (sandbox_env sha base op reserve increment pct) sender receiver amount chk (t, tabs, tk) = Ok (tesSUCCESS, t', c') \<and>
    apply_consistent t' m \<and>
    apply_overlay t' m = (if releases then (apply_overlay t m)(sle_key a \<mapsto> edit_fields (\<lambda>f. f\<lparr>sfOwnerCount := sfOwnerCount f - 1\<rparr>) a) else apply_overlay t m)
      (sle_key e \<mapsto> edit_fields (\<lambda>f. f\<lparr>
         sfFlags := if releases then sfFlags f AND NOT (if low then lsfLowReserve else lsfHighReserve) else sfFlags f,
         sfBalance := if low then after else negate after\<rparr>) e)"
proof -
  let ?V = "sandbox_env sha base op reserve increment pct" and ?k = "\<lparr>kl_type = ltRIPPLE_STATE, kl_key = getRippleStateIndex sha sender receiver cur\<rparr>"
  have low: "low \<longleftrightarrow> \<not> receiver < sender" using assms(6) unfolding low_def by (meson less_asym linorder_neqE)
  have b: "before = (if receiver < sender then negate (sfBalance (flds e)) else sfBalance (flds e))" using assms(12) by (simp add: low)
  have cl: "releases = clears_reserve (receiver < sender) (flds e) before after" unfolding assms(14) clears_reserve_iff low by simp
  have nd: "\<not> (releases \<and> unused_line (receiver < sender) (flds e) after)" using assms(15) unfolding low unused_line_def by auto
  obtain r s1 where r: "peek_entry ?V ?k (t, tabs, tk) = (r, s1)" by (meson surj_pair)
  have i: "apply_consistent (fst (t, tabs, tk)) m \<and> read_view base m" using assms(3,4) by simp
  have e: "typed_entry (apply_overlay (fst (t, tabs, tk)) m) ?k = Some e" using assms(10) by (simp add: keylet_line_def)
  have "\<exists>s'. rippleCredit ?V sender receiver amount chk (t, tabs, tk) = Ok (tesSUCCESS, s') \<and> (apply_consistent (fst s') m \<and> read_view base m) \<and>
    apply_overlay (fst s') m = (if releases then (apply_overlay (fst (t, tabs, tk)) m)(sle_key a \<mapsto> edit_fields owes_less a) else apply_overlay (fst (t, tabs, tk)) m)
      (sle_key e \<mapsto> edit_fields (credited_line (sender > receiver) releases after) e)"
    by (rule sb.rippleCredit_line [where s = "(t, tabs, tk)" and base = base and m = m and sha = sha and op = op and reserve = reserve
      and increment = increment and pct = pct, OF i assms(5-8) _ _ _ sandbox_hook [OF r assms(11)] b assms(13) cl nd])
      (use assms(9,16,17) r e in \<open>simp_all add: cur_def\<close>)
  then obtain s' where s': "rippleCredit ?V sender receiver amount chk (t, tabs, tk) = Ok (tesSUCCESS, s')" "apply_consistent (fst s') m"
    "apply_overlay (fst s') m = (if releases then (apply_overlay t m)(sle_key a \<mapsto> edit_fields owes_less a) else apply_overlay t m)
      (sle_key e \<mapsto> edit_fields (credited_line (\<not> low) releases after) e)" unfolding low not_not fst_conv by blast
  have o: "owes_less = (\<lambda>f. f\<lparr>sfOwnerCount := sfOwnerCount f - 1\<rparr>)" by (simp add: owes_less_def fun_eq_iff)
  have c: "credited_line (\<not> low) releases after = (\<lambda>f. f\<lparr>
      sfFlags := if releases then sfFlags f AND NOT (if low then lsfLowReserve else lsfHighReserve) else sfFlags f,
      sfBalance := if low then after else negate after\<rparr>)" unfolding credited_line_alt by (cases low) simp_all
  obtain t' c' where p: "s' = (t', c')" by (cases s')
  show ?thesis by (rule exI [of _ t'], rule exI [of _ c'], intro conjI; rule s' [unfolded o c p fst_conv])
qed

section \<open>Sends\<close>

text \<open>A direct send of an issued amount succeeds whatever its credit returned.\<close>

lemma rippleSend_hides_failure:
  assumes "rippleCredit V sender receiver amount False s = Ok (r, s')"
    and "sender \<notin> {0, vbcAccount}" "receiver \<notin> {0, vbcAccount}" "sender \<noteq> receiver"
    and "sender = account (mIssue amount) \<or> receiver = account (mIssue amount)"
  shows "rippleSend n V sender receiver amount s = Ok (tesSUCCESS, amount, s')"
  using assms by (auto simp: rippleSend_def isXRP_acc_def isVBC_acc_def)

text \<open>An amount of VBC added to the balance of an account that never had one becomes an amount of XRP.\<close>

lemma vbc_balance_label:
  assumes "proper a" "isVBC a" "mValue a \<noteq> 0"
  shows "\<exists>c. plus_amount (sfBalanceVBC no_fields) a = Ok c \<and> mValue c = mValue a \<and> isXRP c \<and> \<not> isVBC c"
proof -
  have a: "mIsNative a" "mOffset a = 0" "unat (mValue a) \<le> 100000000000000000"
    using assms by (auto simp: proper_def wf_amount_def isNative_def)
  have "STAmount_canonical xrpIssue (mValue a) 0 (mIsNegative a) =
      Ok \<lparr>mIssue = xrpIssue, mValue = mValue a, mOffset = 0, mIsNative = True, mIsNegative = mIsNegative a\<rparr>"
    using a(3) assms(3) by (simp add: STAmount_canonical_def canonicalize_def isNative_alt isNative_issue_def canonicalize_native_def
        div10_up_to.simps mul10_down_to.simps Let_def amount_consts issue_defs word_less_nat_alt)
  then show ?thesis using a assms(3)
    by (simp add: plus_amount_def areComparable_def no_fields_def no_amount_def STAmount_drops_def isXRP_def isVBC_def issue_defs)
qed

section \<open>A sample line\<close>

text \<open>Account 2 holds 5 on its line with account 3, with the reserve flags of both sides set, and owes the reserve of one entry.\<close>

definition sample_iou77 :: "u64 \<Rightarrow> bool \<Rightarrow> STAmount" where
  "sample_iou77 v neg = STAmount_unchecked \<lparr>currency = 77, account = 2\<rparr> v (-15) False neg"

definition sample_line :: entry where
  "sample_line = edit_fields (\<lambda>f. f\<lparr>sfBalance := sample_iou77 5000000000000000 False, sfFlags := lsfLowReserve OR lsfHighReserve\<rparr>)
     (make_entry (keylet_line index_sha 2 3 77))"

definition sample_owner :: entry where
  "sample_owner = edit_fields (\<lambda>f. f\<lparr>sfAccount := 2, sfOwnerCount := 1\<rparr>) (make_entry (keylet_account index_sha 2))"

definition line_ledger :: "(key, entry) omap" where
  "line_ledger = [(sle_key sample_line, sample_line), (sle_key sample_owner, sample_owner)]"

lemma sample_line_index: "unat (getRippleStateIndex index_sha 2 3 77) = 3 * 2 ^ 160 + 77"
proof -
  have "bytes_val (space CHR ''r'' @ word_bytes (2 :: AccountID) @ word_bytes (3 :: AccountID) @ word_bytes (77 :: Currency)) =
      ((114 * 2 ^ 160 + 2) * 2 ^ 160 + 3) * 2 ^ 160 + 77"
    by (simp add: bytes_val_append bytes_val_nat_bytes word_bytes_def space_def)
  then show ?thesis by (simp add: getRippleStateIndex_def index_sha_def unat_of_nat)
qed

lemma sample_line_keys: "sle_key sample_line < sle_key sample_owner" "sle_key sample_line \<noteq> 0" "sle_key sample_owner \<noteq> 0"
  "sle_key sample_line = kl_key (keylet_line index_sha 2 3 77)" "sle_key sample_owner = kl_key (keylet_account index_sha 2)"
  "sle_type sample_line = ltRIPPLE_STATE" "sle_type sample_owner = ltACCOUNT_ROOT"
proof -
  have k: "unat (sle_key sample_line) = 3 * 2 ^ 160 + 77" "unat (sle_key sample_owner) = 97 * 2 ^ 160 + 2"
    using sample_line_index index_sha_accounts [of 2] by (simp_all add: sample_line_def sample_owner_def keylet_line_def keylet_account_def)
  then show "sle_key sample_line < sle_key sample_owner" by (simp add: word_less_nat_alt)
  show "sle_key sample_line \<noteq> 0" "sle_key sample_owner \<noteq> 0" using k by auto
qed (simp_all add: sample_line_def sample_owner_def keylet_line_def keylet_account_def)

lemma line_ledger_ok: "ledger_ok line_ledger"
  using sample_line_keys(1-3) by (auto simp: line_ledger_def ledger_ok_def om_ok_def state_ok_def split: if_splits)

lemma line_minus: "minus_amount (sample_iou77 5000000000000000 False) (sample_iou77 7000000000000000 False) = Ok (sample_iou77 2000000000000000 True)"
  by code_simp

theorem rippleCredit_moves_witness:
  "\<exists>t' c' line owner. rippleCredit (sandbox_env index_sha (ledger_view line_ledger) True 0 0 0) 2 3 (sample_iou77 7000000000000000 False) True (apply_empty, [], []) =
      Ok (tesSUCCESS, t', c') \<and>
    apply_overlay t' (map_of line_ledger) (sle_key sample_line) = Some line \<and> sfBalance (flds line) = sample_iou77 2000000000000000 True \<and>
    sfFlags (flds line) = lsfHighReserve \<and>
    apply_overlay t' (map_of line_ledger) (sle_key sample_owner) = Some owner \<and> sfOwnerCount (flds owner) = 0"
proof -
  have ne: "sle_key sample_owner \<noteq> sle_key sample_line" using sample_line_keys(1) by auto
  have l: "typed_entry (map_of line_ledger) (keylet_line index_sha 2 3 (currency (mIssue (sample_iou77 7000000000000000 False)))) = Some sample_line"
    using sample_line_keys by (simp add: typed_entry_def line_ledger_def sample_iou77_def STAmount_unchecked_def keylet_line_def)
  have a: "account_of index_sha (map_of line_ledger) 2 = Some sample_owner"
    using sample_line_keys ne by (auto simp: account_of_def typed_entry_def line_ledger_def keylet_account_def)
  have f: "sfFlags (flds sample_line) = lsfLowReserve OR lsfHighReserve" "sfBalance (flds sample_line) = sample_iou77 5000000000000000 False"
    "mValue (sfLowLimit (flds sample_line)) = 0" "sfLowQualityIn (flds sample_line) = 0" "sfLowQualityOut (flds sample_line) = 0"
    "sfOwnerCount (flds sample_owner) = 1"
    by (simp_all add: sample_line_def sample_owner_def no_fields_def no_amount_def STAmount_drops_def)
  have g: "(lsfLowReserve OR lsfHighReserve) AND lsfLowReserve \<noteq> 0" "(lsfLowReserve OR lsfHighReserve) AND lsfLowFreeze = 0"
    "(lsfLowReserve OR lsfHighReserve) AND lsfHighReserve \<noteq> 0" "(lsfLowReserve OR lsfHighReserve) AND NOT lsfLowReserve = lsfHighReserve"
    by (simp_all add: lsfLowReserve_def lsfHighReserve_def lsfLowFreeze_def)
  have v: "mValue (sample_iou77 5000000000000000 False) \<noteq> 0" "\<not> mIsNegative (sample_iou77 5000000000000000 False)"
    "mIsNegative (sample_iou77 2000000000000000 True)" "mValue (sample_iou77 2000000000000000 True) \<noteq> 0"
    "currency (mIssue (sample_iou77 7000000000000000 False)) \<noteq> assetCurrency" "account (mIssue (sample_iou77 7000000000000000 False)) = 2"
    by (simp_all add: sample_iou77_def STAmount_unchecked_def assetCurrency_def)
  have w: "(2 :: AccountID) \<notin> {0, noAccount, vbcAccount}" "(3 :: AccountID) \<notin> {0, noAccount, vbcAccount}" by (simp_all add: issue_defs)
  obtain t' c' where "rippleCredit (sandbox_env index_sha (ledger_view line_ledger) True 0 0 0) 2 3 (sample_iou77 7000000000000000 False) True (apply_empty, [], []) =
      Ok (tesSUCCESS, t', c')"
    "apply_overlay t' (map_of line_ledger) = (map_of line_ledger)(sle_key sample_owner \<mapsto> edit_fields (\<lambda>f. f\<lparr>sfOwnerCount := sfOwnerCount f - 1\<rparr>) sample_owner,
      sle_key sample_line \<mapsto> edit_fields (\<lambda>f. f\<lparr>sfFlags := sfFlags f AND NOT lsfLowReserve, sfBalance := sample_iou77 2000000000000000 True\<rparr>) sample_line)"
    using rippleCredit_moves [OF ledger_read_view [OF line_ledger_ok] apply_empty_ok(1), where chk = True and sender = 2 and receiver = 3
        and amount = "sample_iou77 7000000000000000 False" and sha = index_sha and e = sample_line and tabs = "[]" and tabs' = "[]"
        and before = "sample_iou77 5000000000000000 False" and after = "sample_iou77 2000000000000000 True" and releases = True and a = sample_owner
        and op = True and reserve = 0 and increment = 0 and pct = 0 and tk = "[]"] l a f g v w line_minus
    by auto
  then show ?thesis using ne f g(4) by (auto simp: edit_fields_def)
qed

end
