(* ===== verification/RangeSet.thy ===== *)
theory RangeSet
  imports OrdMap
begin

text \<open>
  \<open>RangeSet\<close> (\<open>basics/RangeSet.h\<close>, \<open>basics/impl/RangeSet.cpp\<close>): a sparse set of 32-bit numbers as a \<open>std::map\<close> from the
  first to the last number of each range. \<open>members\<close> is the set it stands for; the operations are compared with those of
  sets. \<open>setRange\<close> and \<open>getPrev\<close> do not do what their names say.
\<close>

section \<open>Operations\<close>

type_synonym ranges = "(u32, u32) omap"

definition absent :: u32 where "absent = -1"

definition contains :: "u32 \<times> u32 \<Rightarrow> u32 \<Rightarrow> bool" where
  "contains r v \<longleftrightarrow> fst r \<le> v \<and> snd r \<ge> v"

definition hasValue :: "u32 \<Rightarrow> ranges \<Rightarrow> bool" where
  "hasValue v m = list_ex (\<lambda>r. contains r v) m"

definition getFirst :: "ranges \<Rightarrow> u32" where
  "getFirst m = (case m of [] \<Rightarrow> absent | (l, h) # _ \<Rightarrow> l)"

fun getNext :: "u32 \<Rightarrow> ranges \<Rightarrow> u32" where
  "getNext v [] = absent"
| "getNext v (r # m) = (if fst r > v then fst r else if contains r (v + 1) then v + 1 else getNext v m)"

definition getLast :: "ranges \<Rightarrow> u32" where
  "getLast m = (case rev m of [] \<Rightarrow> absent | (l, h) # _ \<Rightarrow> h)"

fun prev_loop :: "u32 \<Rightarrow> ranges \<Rightarrow> u32" where
  "prev_loop v [] = absent"
| "prev_loop v (r # m) = (if snd r < v then snd r else if contains r (v + 1) then v - 1 else prev_loop v m)"

definition getPrev :: "u32 \<Rightarrow> ranges \<Rightarrow> u32" where
  "getPrev v m = prev_loop v (rev m)"

definition getMiddle :: "u32 \<Rightarrow> u32 \<Rightarrow> ranges \<Rightarrow> u32" where
  "getMiddle first last' m =
     (if first > last' then absent
      else if first = last' then first
      else
        let mid = (ucast ((ucast first + ucast last' :: u64) div 2) :: u32) in
        if hasValue mid m then mid
        else
          let pre = getPrev mid m; next = getNext mid m in
          if pre \<noteq> absent \<and> pre > first then pre
          else if next \<noteq> absent \<and> next < last' then next
          else if pre \<noteq> absent then pre
          else if next \<noteq> absent then next
          else absent)"

text \<open>\<open>checkInternalConsistency\<close>, whose assertions are on machine numbers.\<close>

fun pairs_consistent :: "ranges \<Rightarrow> bool" where
  "pairs_consistent ((l, h) # (l2, h2) # m) \<longleftrightarrow> l \<le> h \<and> l2 \<le> h2 \<and> h + 1 < l2 \<and> pairs_consistent ((l2, h2) # m)"
| "pairs_consistent m \<longleftrightarrow> True"

definition checkInternalConsistency :: "ranges \<Rightarrow> unit res" where
  "checkInternalConsistency m =
     require (if length m > 1 then pairs_consistent m else list_all (\<lambda>(l, h). l \<le> h) m) AssertFailed"

definition prevMissing :: "u32 \<Rightarrow> ranges \<Rightarrow> u32 res" where
  "prevMissing v m =
     rbind (if v \<noteq> 0 then
         rbind (checkInternalConsistency m) (\<lambda>_.
         Ok (case List.find (\<lambda>r. contains r (v - 1)) (rev m) of None \<Rightarrow> v - 1 | Some r \<Rightarrow> fst r - 1))
       else Ok absent) (\<lambda>result.
     rbind (require (result = absent \<or> \<not> hasValue result m) AssertFailed) (\<lambda>_.
     Ok result))"

text \<open>\<open>simplify\<close>, from an iterator on; on an empty map its first step leaves the map.\<close>

fun merge_ranges :: "ranges \<Rightarrow> ranges" where
  "merge_ranges ((l, h) # (l2, h2) # m) =
     (if h \<ge> l2 - 1 then merge_ranges ((l, max h h2) # m) else (l, h) # merge_ranges ((l2, h2) # m))"
| "merge_ranges m = m"

definition simplify :: "ranges \<Rightarrow> ranges res" where
  "simplify m =
     (if m = [] then Throw Undefined
      else rbind (checkInternalConsistency (merge_ranges m)) (\<lambda>_. Ok (merge_ranges m)))"

definition setValue :: "u32 \<Rightarrow> ranges \<Rightarrow> ranges res" where
  "setValue v m = (if \<not> hasValue v m then simplify (om_put v v m) else Ok m)"

lemma succ_nat: "v \<noteq> -1 \<Longrightarrow> unat (v + 1) = unat v + 1" for v :: u32
  by (metis Suc_eq_plus1 add.commute add_eq_0_iff unatSuc)

text \<open>The loop of \<open>setRange\<close>: the first number to add, or \<open>None\<close> where it returns.\<close>

function skip_present :: "u32 \<Rightarrow> u32 \<Rightarrow> ranges \<Rightarrow> u32 option" where
  "skip_present minV maxV m =
     (if hasValue minV m then if minV + 1 \<ge> maxV then None else skip_present (minV + 1) maxV m
      else Some minV)"
  by pat_completeness auto
termination
proof (relation "measure (\<lambda>(minV, maxV, m). if minV \<noteq> -1 \<and> minV \<le> maxV then unat maxV - unat minV else 2 ^ 33)", goal_cases)
  case (2 minV maxV m)
  have b: "unat maxV < 2 ^ 32" using unsigned_less [of maxV, where ?'a = nat] by simp
  have lt: "minV + 1 < maxV" using 2 by simp
  then have le: "minV + 1 \<le> maxV" "minV + 1 \<noteq> -1" using word_order.extremum_strict by (simp, metis)
  show ?case
  proof (cases "minV \<noteq> -1 \<and> minV \<le> maxV")
    case True
    then have "unat (minV + 1) = unat minV + 1" by (simp add: succ_nat)
    then show ?thesis using True le lt by (simp add: word_less_nat_alt)
  next
    case False
    have "unat maxV - unat (minV + 1) < 2 * 2 ^ 32" using b by linarith
    then have "unat maxV - unat (minV + 1) < 2 ^ 33" by simp
    then show ?thesis using False le by auto
  qed
qed simp

declare skip_present.simps [simp del]

definition setRange :: "u32 \<Rightarrow> u32 \<Rightarrow> ranges \<Rightarrow> ranges res" where
  "setRange minV maxV m =
     (case skip_present minV maxV m of None \<Rightarrow> Ok m | Some minV \<Rightarrow> simplify (om_put minV maxV m))"

definition clearValue :: "u32 \<Rightarrow> ranges \<Rightarrow> ranges res" where
  "clearValue v m =
     (case List.find (\<lambda>r. contains r v) m of
        None \<Rightarrow> Ok m
      | Some (l, h) \<Rightarrow>
          let m' = (if l = v then if h = v then om_del l m else om_put (v + 1) h (om_del l m)
                    else if h = v then om_put l (h - 1) m
                    else om_put (v + 1) h (om_put l (v - 1) m))
          in rbind (checkInternalConsistency m') (\<lambda>_. Ok m'))"

definition lebesgue_sum :: "ranges \<Rightarrow> u64" where
  "lebesgue_sum m = of_nat (length m) + sum_list (map (\<lambda>(l, h). ucast (h - l)) m)"

text \<open>\<open>toString\<close>, with \<open>lexicalCast\<close> of an unsigned number.\<close>

fun decimal :: "nat \<Rightarrow> string" where
  "decimal n = (if n < 10 then [char_of (48 + n)] else decimal (n div 10) @ [char_of (48 + n mod 10)])"

declare decimal.simps [simp del]

definition range_text :: "string \<Rightarrow> u32 \<times> u32 \<Rightarrow> string" where
  "range_text ret it =
     (if ret \<noteq> [] then ret @ '','' else ret) @
     (if fst it = snd it then decimal (unat (fst it))
      else decimal (unat (fst it)) @ ''-'' @ decimal (unat (snd it)))"

definition toString :: "ranges \<Rightarrow> string" where
  "toString m = (let ret = foldl range_text [] m in if ret = [] then ''empty'' else ret)"

section \<open>The set\<close>

definition members :: "ranges \<Rightarrow> nat set" where
  "members m = {n. \<exists>(l, h) \<in> set m. unat l \<le> n \<and> n \<le> unat h}"

text \<open>Ranges that are sorted but may overlap, and ranges apart from each other.\<close>

definition sorted_ranges :: "ranges \<Rightarrow> bool" where
  "sorted_ranges m \<longleftrightarrow> om_ok m \<and> (\<forall>(l, h) \<in> set m. l \<le> h)"

definition rs_ok :: "ranges \<Rightarrow> bool" where
  "rs_ok m \<longleftrightarrow> sorted_ranges m \<and> (\<forall>(l, h) \<in> set m. \<forall>(l2, h2) \<in> set m. l < l2 \<longrightarrow> unat h + 1 < unat l2)"

lemma find_SomeD: "List.find P xs = Some x \<Longrightarrow> x \<in> set xs \<and> P x"
  by (induction xs) (auto split: if_splits)

lemma hasValue_iff: "hasValue v m \<longleftrightarrow> unat v \<in> members m"
  by (force simp: hasValue_def members_def contains_def list_ex_iff word_le_nat_alt)

lemma members_simps [simp]: "members [] = {}" "members ((l, h) # m) = {unat l..unat h} \<union> members m"
  by (auto simp: members_def)

lemma pred_nat: "l < l2 \<Longrightarrow> unat (l2 - 1) = unat l2 - 1" for l l2 :: u32
  by (intro unat_minus_one) auto

lemma merge_head: "merge_ranges ((l, h) # m) \<noteq> [] \<and> fst (hd (merge_ranges ((l, h) # m))) = l"
  by (induction "(l, h) # m" arbitrary: h m rule: merge_ranges.induct) auto

lemma rs_ok_Cons: "rs_ok ((l, h) # m) \<longleftrightarrow> l \<le> h \<and> rs_ok m \<and> (\<forall>(l2, h2) \<in> set m. l < l2 \<and> unat h + 1 < unat l2)"
proof -
  have "\<not> l2 < l" if "(l2, h2) \<in> set m" "\<forall>(k, _) \<in> set m. l < k" for l2 h2 using that by fastforce
  then show ?thesis unfolding rs_ok_def sorted_ranges_def om_ok_Cons by (auto dest: less_asym)
qed

lemma sorted_Cons: "sorted_ranges ((l, h) # m) \<longleftrightarrow> l \<le> h \<and> sorted_ranges m \<and> (\<forall>(l2, h2) \<in> set m. l < l2)"
  by (auto simp: sorted_ranges_def om_ok_Cons)

lemma merge_correct: "sorted_ranges m \<Longrightarrow> rs_ok (merge_ranges m) \<and> members (merge_ranges m) = members m"
proof (induction m rule: merge_ranges.induct)
  case (1 l h l2 h2 m)
  have l: "l < l2" "l \<le> h" "l2 \<le> h2" and s: "sorted_ranges ((l2, h2) # m)" "\<forall>(k, _) \<in> set m. l < k" using 1(3) by (auto simp: sorted_Cons)
  have p: "unat (l2 - 1) + 1 = unat l2" using pred_nat [OF l(1)] l(1) by (simp add: word_less_nat_alt)
  show ?case
  proof (cases "h \<ge> l2 - 1")
    case True
    have "l \<le> max h h2" using l by (auto simp: max_def)
    then have "sorted_ranges ((l, max h h2) # m)" using s by (auto simp: sorted_Cons)
    moreover have "{unat l..unat (max h h2)} = {unat l..unat h} \<union> {unat l2..unat h2}"
      using l True p by (auto simp: max_def word_le_nat_alt word_less_nat_alt)
    ultimately show ?thesis using True 1(1) by auto
  next
    case False
    have r: "rs_ok (merge_ranges ((l2, h2) # m))" "members (merge_ranges ((l2, h2) # m)) = members ((l2, h2) # m)" using 1(2) False s(1) by auto
    have hl: "unat h + 1 < unat l2" using False p by (simp add: word_le_nat_alt)
    obtain h3 m3 where m3: "merge_ranges ((l2, h2) # m) = (l2, h3) # m3" using merge_head [of l2 h2 m] by (cases "merge_ranges ((l2, h2) # m)") auto
    have "\<forall>(k, _) \<in> set m3. l2 < k" using r(1) m3 by (auto simp: rs_ok_Cons)
    then have "\<forall>(k, _) \<in> set ((l2, h3) # m3). l < k \<and> unat h + 1 < unat k" using l(1) hl by (auto simp: word_less_nat_alt)
    then have "rs_ok ((l, h) # merge_ranges ((l2, h2) # m))" using r(1) l(2) unfolding m3 rs_ok_Cons [of l h] by auto
    then show ?thesis using False r(2) by simp
  qed
qed (auto simp: rs_ok_def sorted_ranges_def)

lemma rs_ok_pairs: "rs_ok m \<Longrightarrow> pairs_consistent m"
proof (induction m rule: pairs_consistent.induct)
  case (1 l h l2 h2 m)
  then have "l \<le> h" "l2 \<le> h2" "unat h + 1 < unat l2" "pairs_consistent ((l2, h2) # m)" by (auto simp: rs_ok_Cons)
  moreover have "unat (h + 1) = unat h + 1" using \<open>unat h + 1 < unat l2\<close> unsigned_less [of l2, where ?'a = nat] by (simp add: unat_plus_if')
  ultimately show ?case by (simp add: word_less_nat_alt)
qed auto

lemma rs_ok_check [simp]: "rs_ok m \<Longrightarrow> checkInternalConsistency m = Ok ()"
  using rs_ok_pairs [of m] by (auto simp: checkInternalConsistency_def require_def list_all_iff rs_ok_def sorted_ranges_def)

lemma simplify_ok: "sorted_ranges m \<Longrightarrow> m \<noteq> [] \<Longrightarrow> simplify m = Ok (merge_ranges m)"
  using merge_correct [of m] by (simp add: simplify_def)

lemma put_sorted: "sorted_ranges m \<Longrightarrow> l \<le> h \<Longrightarrow> sorted_ranges (om_put l h m)"
  using set_om_put [of l h m] by (auto simp: sorted_ranges_def om_put_ok)

lemma put_members:
  assumes "sorted_ranges m" "l \<le> h" "unat l \<notin> members m"
  shows "members (om_put l h m) = members m \<union> {unat l..unat h}"
proof -
  have o: "om_ok m" "om_ok (om_put l h m)" using assms by (auto simp: sorted_ranges_def om_put_ok)
  have n: "map_of m l = None"
  proof (rule ccontr)
    assume "map_of m l \<noteq> None"
    then obtain k where "(l, k) \<in> set m" by (auto dest: map_of_SomeD)
    then show False using assms by (fastforce simp: members_def sorted_ranges_def word_le_nat_alt)
  qed
  have "(k, x) \<in> set (om_put l h m) \<longleftrightarrow> (k, x) = (l, h) \<or> (k, x) \<in> set m" for k x
    using o n by (auto simp: om_in_set split: if_splits)
  then show ?thesis unfolding members_def by fastforce
qed

lemma put_not_Nil [simp]: "om_put l h m \<noteq> []"
  by (cases "(l, h, m)" rule: om_put.cases) auto

lemma add_range:
  assumes "rs_ok m" "l \<le> h" "unat l \<notin> members m"
  shows "\<exists>m'. simplify (om_put l h m) = Ok m' \<and> rs_ok m' \<and> members m' = members m \<union> {unat l..unat h}"
proof -
  have s: "sorted_ranges m" using assms(1) by (simp add: rs_ok_def)
  show ?thesis using put_sorted [OF s assms(2)] put_members [OF s assms(2,3)] simplify_ok merge_correct by fastforce
qed

section \<open>Adding\<close>

lemma setValue_ok: "rs_ok m \<Longrightarrow> \<exists>m'. setValue v m = Ok m' \<and> rs_ok m' \<and> members m' = insert (unat v) (members m)"
  using add_range [of m v v] by (auto simp: setValue_def hasValue_iff)

lemma skip_present_ok:
  "minV \<le> maxV \<Longrightarrow> maxV \<noteq> -1 \<Longrightarrow>
    (case skip_present minV maxV m of
       None \<Rightarrow> {unat minV..<unat maxV} \<subseteq> members m \<and> (minV = maxV \<longrightarrow> unat minV \<in> members m)
     | Some k \<Rightarrow> minV \<le> k \<and> k \<le> maxV \<and> {unat minV..<unat k} \<subseteq> members m \<and> unat k \<notin> members m \<and> (k = maxV \<longrightarrow> minV = maxV))"
proof (induction minV maxV m rule: skip_present.induct)
  case (1 minV maxV m)
  show ?case
  proof (cases "hasValue minV m")
    case False
    then show ?thesis using 1(2) by (simp add: skip_present.simps [of minV] hasValue_iff)
  next
    case True
    have n: "minV \<noteq> -1" using 1(2,3) by (metis word_order.extremum_uniqueI)
    note sn = succ_nat [OF n]
    have ins: "{unat minV..<j} = insert (unat minV) {unat (minV + 1)..<j}" if "unat minV < j" for j using that sn by auto
    show ?thesis
    proof (cases "minV + 1 \<ge> maxV")
      case ge: True
      then have "{unat minV..<unat maxV} \<subseteq> {unat minV}" using sn by (auto simp: word_le_nat_alt)
      then show ?thesis using True ge by (auto simp: skip_present.simps [of minV] hasValue_iff)
    next
      case lt: False
      then have l: "minV + 1 \<le> maxV" "unat minV < unat maxV" using sn by (auto simp: word_le_nat_alt)
      have step: "skip_present minV maxV m = skip_present (minV + 1) maxV m" using True lt by (simp add: skip_present.simps [of minV])
      have m: "unat minV \<in> members m" using True by (simp add: hasValue_iff)
      show ?thesis
      proof (cases "skip_present (minV + 1) maxV m")
        case None
        then show ?thesis using 1(1) [OF True lt l(1) 1(3)] m ins [OF l(2)] l(2) unfolding step by auto
      next
        case (Some k)
        then have k: "minV + 1 \<le> k" "k \<le> maxV" "{unat (minV + 1)..<unat k} \<subseteq> members m" "unat k \<notin> members m" "k = maxV \<longrightarrow> minV + 1 = maxV"
          using 1(1) [OF True lt l(1) 1(3)] by auto
        have mk: "unat minV < unat k" using k(1) sn by (simp add: word_le_nat_alt)
        then have "minV \<le> k" "{unat minV..<unat k} \<subseteq> members m" using ins [OF mk] k(3) m by (auto simp: word_le_nat_alt)
        moreover have "k \<noteq> maxV" using k(5) lt by auto
        ultimately show ?thesis unfolding step Some using k by simp
      qed
    qed
  qed
qed

lemma setRange_ok:
  assumes "rs_ok m" "minV \<le> maxV" "maxV \<noteq> -1"
  shows "\<exists>m'. setRange minV maxV m = Ok m' \<and> rs_ok m' \<and>
    members m' = (if minV < maxV \<and> {unat minV..<unat maxV} \<subseteq> members m then members m else members m \<union> {unat minV..unat maxV})"
proof (cases "skip_present minV maxV m")
  case None
  have n: "{unat minV..<unat maxV} \<subseteq> members m" "minV = maxV \<longrightarrow> unat minV \<in> members m"
    using skip_present_ok [OF assms(2,3), of m] None by auto
  have s: "setRange minV maxV m = Ok m" by (simp add: setRange_def None)
  show ?thesis
  proof (cases "minV = maxV")
    case True
    then have "members m \<union> {unat minV..unat maxV} = members m" using n(2) by auto
    then show ?thesis using s assms(1) True by simp
  next
    case False
    then have "minV < maxV" using assms(2) by simp
    then show ?thesis using s assms(1) n(1) by simp
  qed
next
  case (Some k)
  then have k: "minV \<le> k" "k \<le> maxV" "{unat minV..<unat k} \<subseteq> members m" "unat k \<notin> members m" "k = maxV \<longrightarrow> minV = maxV"
    using skip_present_ok [OF assms(2,3), of m] by auto
  obtain m' where m': "simplify (om_put k maxV m) = Ok m'" "rs_ok m'" "members m' = members m \<union> {unat k..unat maxV}"
    using add_range [OF assms(1) k(2,4)] by blast
  have "{unat minV..unat maxV} = {unat minV..<unat k} \<union> {unat k..unat maxV}" using k(1,2) by (auto simp: word_le_nat_alt)
  then have u: "members m' = members m \<union> {unat minV..unat maxV}" using m'(3) k(3) by auto
  have "\<not> (minV < maxV \<and> {unat minV..<unat maxV} \<subseteq> members m)"
  proof
    assume a: "minV < maxV \<and> {unat minV..<unat maxV} \<subseteq> members m"
    then have "k < maxV" using k(2,5) by auto
    then have "unat k \<in> {unat minV..<unat maxV}" using k(1) by (simp add: word_le_nat_alt word_less_nat_alt)
    then show False using a k(4) by blast
  qed
  then show ?thesis using m'(1,2) u Some by (intro exI [of _ m']) (auto simp: setRange_def)
qed

section \<open>Removing\<close>

lemma om_ranges: "om_ok m \<Longrightarrow> (\<forall>(l, h) \<in> set m. P l h) \<longleftrightarrow> (\<forall>l h. map_of m l = Some h \<longrightarrow> P l h)"
  "om_ok m \<Longrightarrow> (\<exists>(l, h) \<in> set m. P l h) \<longleftrightarrow> (\<exists>l h. map_of m l = Some h \<and> P l h)"
  by (simp_all add: om_in_set [symmetric] split_paired_all Ball_def Bex_def)

lemma rs_map: "rs_ok m \<longleftrightarrow> om_ok m \<and> (\<forall>l h. map_of m l = Some h \<longrightarrow> l \<le> h) \<and>
    (\<forall>l h l2 h2. map_of m l = Some h \<longrightarrow> map_of m l2 = Some h2 \<longrightarrow> l < l2 \<longrightarrow> unat h + 1 < unat l2)"
proof (cases "om_ok m")
  case True
  show ?thesis unfolding rs_ok_def sorted_ranges_def om_ranges(1) [OF True] using True by blast
qed (simp add: rs_ok_def sorted_ranges_def)

lemma members_map: "om_ok m \<Longrightarrow> members m = {n. \<exists>l h. map_of m l = Some h \<and> unat l \<le> n \<and> n \<le> unat h}"
  unfolding members_def by (simp only: om_ranges(2))

lemma ranges_apart:
  assumes "rs_ok m" "map_of m l = Some h" "map_of m l2 = Some h2" "l2 \<noteq> l"
  shows "unat h2 + 1 < unat l \<or> unat h + 1 < unat l2"
proof (cases "l < l2")
  case True
  then show ?thesis using assms unfolding rs_map by blast
next
  case False
  then have "l2 < l" using assms(4) by simp
  then show ?thesis using assms unfolding rs_map by blast
qed

text \<open>A map in which a range is replaced by parts of it.\<close>

definition replaced :: "ranges \<Rightarrow> u32 \<Rightarrow> u32 \<Rightarrow> (u32 \<times> u32) set \<Rightarrow> ranges \<Rightarrow> bool" where
  "replaced m l h P m' \<longleftrightarrow> om_ok m' \<and>
     (\<forall>k x. map_of m' k = Some x \<longleftrightarrow> k \<noteq> l \<and> map_of m k = Some x \<or> (k, x) \<in> P) \<and>
     (\<forall>k x. (k, x) \<in> P \<longrightarrow> unat l \<le> unat k \<and> unat k \<le> unat x \<and> unat x \<le> unat h) \<and>
     (\<forall>k x k2 x2. (k, x) \<in> P \<longrightarrow> (k2, x2) \<in> P \<longrightarrow> k < k2 \<longrightarrow> unat x + 1 < unat k2)"

lemma replaced_ok:
  assumes rs: "rs_ok m" "map_of m l = Some h" and r: "replaced m l h P m'"
  shows "rs_ok m'" "members m' = members m - {unat l..unat h} \<union> (\<Union>(k, x) \<in> P. {unat k..unat x})"
proof -
  have om: "om_ok m" "om_ok m'" using rs r by (auto simp: rs_map replaced_def)
  have m': "map_of m' k = Some x \<longleftrightarrow> k \<noteq> l \<and> map_of m k = Some x \<or> (k, x) \<in> P" for k x using r unfolding replaced_def by blast
  have P: "unat l \<le> unat k" "unat k \<le> unat x" "unat x \<le> unat h" if "(k, x) \<in> P" for k x using r that unfolding replaced_def by blast+
  have PP: "unat x + 1 < unat k2" if "(k, x) \<in> P" "(k2, x2) \<in> P" "k < k2" for k x k2 x2 using r that unfolding replaced_def by blast
  have old: "unat x + 1 < unat l \<or> unat h + 1 < unat k" "unat k \<le> unat x" if "map_of m k = Some x" "k \<noteq> l" for k x
    using ranges_apart [OF rs that] rs(1) that(1) by (auto simp: rs_map word_le_nat_alt)
  have "k \<le> x" if "map_of m' k = Some x" for k x using that old(2) P(2) unfolding m' by (auto simp: word_le_nat_alt)
  moreover have "unat x + 1 < unat k2" if "map_of m' k = Some x" "map_of m' k2 = Some x2" "k < k2" for k x k2 x2
  proof -
    note t = that(1,2) [unfolded m']
    have lt: "unat k < unat k2" using that(3) by (simp add: word_less_nat_alt)
    consider "k \<noteq> l \<and> map_of m k = Some x" "k2 \<noteq> l \<and> map_of m k2 = Some x2" | "k \<noteq> l \<and> map_of m k = Some x" "(k2, x2) \<in> P"
      | "(k, x) \<in> P" "k2 \<noteq> l \<and> map_of m k2 = Some x2" | "(k, x) \<in> P" "(k2, x2) \<in> P" using t by blast
    then show ?thesis
    proof cases
      case 1
      then show ?thesis using rs(1) that(3) unfolding rs_map by blast
    next
      case 2
      then show ?thesis using old [of k x] P [of k2 x2] lt by linarith
    next
      case 3
      then show ?thesis using old [of k2 x2] P [of k x] lt by linarith
    next
      case 4
      then show ?thesis using PP that(3) by blast
    qed
  qed
  ultimately show "rs_ok m'" using om(2) unfolding rs_map by blast
  have disj: "n \<notin> {unat l..unat h}" if "map_of m k = Some x" "k \<noteq> l" "unat k \<le> n" "n \<le> unat x" for k x n
    using old(1) [OF that(1,2)] that(3,4) by auto
  show "members m' = members m - {unat l..unat h} \<union> (\<Union>(k, x) \<in> P. {unat k..unat x})" (is "_ = ?R")
  proof (rule set_eqI)
    fix n
    have "n \<in> members m' \<longleftrightarrow> (\<exists>k x. k \<noteq> l \<and> map_of m k = Some x \<and> unat k \<le> n \<and> n \<le> unat x) \<or> (\<exists>k x. (k, x) \<in> P \<and> unat k \<le> n \<and> n \<le> unat x)"
      unfolding members_map [OF om(2)] m' by blast
    also have "(\<exists>k x. k \<noteq> l \<and> map_of m k = Some x \<and> unat k \<le> n \<and> n \<le> unat x) \<longleftrightarrow> n \<in> members m - {unat l..unat h}"
      unfolding members_map [OF om(1)] using disj rs(2) by fastforce
    also have "(\<exists>k x. (k, x) \<in> P \<and> unat k \<le> n \<and> n \<le> unat x) \<longleftrightarrow> n \<in> (\<Union>(k, x) \<in> P. {unat k..unat x})" by fastforce
    finally show "n \<in> members m' \<longleftrightarrow> n \<in> ?R" by blast
  qed
qed

lemma clearValue_ok:
  assumes rs: "rs_ok m"
  shows "\<exists>m'. clearValue v m = Ok m' \<and> rs_ok m' \<and> members m' = members m - {unat v}"
proof (cases "List.find (\<lambda>r. contains r v) m")
  case None
  then have "unat v \<notin> members m" using hasValue_iff [of v m] by (auto simp: find_None_iff hasValue_def list_ex_iff)
  then show ?thesis using None rs by (auto simp: clearValue_def)
next
  case (Some r)
  obtain l h where r: "r = (l, h)" by (cases r)
  have f: "contains r v" "r \<in> set m" using find_SomeD [OF Some] by auto
  then have c: "(l, h) \<in> set m" "l \<le> v" "v \<le> h" using r by (simp_all add: contains_def)
  have om: "om_ok m" using rs by (simp add: rs_map)
  have l: "map_of m l = Some h" using c(1) om by (simp add: om_in_set)
  define m' where "m' = (if l = v then if h = v then om_del l m else om_put (v + 1) h (om_del l m)
      else if h = v then om_put l (h - 1) m else om_put (v + 1) h (om_put l (v - 1) m))"
  have om': "om_ok m'" using om by (simp add: m'_def om_put_ok om_del_ok)
  have lv: "unat l \<le> unat v" "unat v \<le> unat h" using c by (simp_all add: word_le_nat_alt)
  have dn: "unat (v - 1) = unat v - 1" "unat (v - 1) < unat v" "unat l < unat v" if "l \<noteq> v"
    using pred_nat [of l v] c(2) that order.not_eq_order_implies_strict [of l v] by (auto simp: word_less_nat_alt)
  have up: "unat (v + 1) = unat v + 1" if "h \<noteq> v"
    using c(3) that by (intro succ_nat) (auto dest: word_order.extremum_uniqueI)
  have nk: "map_of m (v + 1) = None" if "h \<noteq> v" "v + 1 \<noteq> l"
  proof (rule ccontr)
    assume "map_of m (v + 1) \<noteq> None"
    then obtain x where x: "map_of m (v + 1) = Some x" by auto
    have "unat v < unat h" using lv(2) that(1) by (metis le_less unsigned_word_eqI)
    moreover have "unat (v + 1) \<le> unat x" using rs x by (simp add: rs_map word_le_nat_alt)
    ultimately show False using ranges_apart [OF rs l x that(2)] up [OF that(1)] lv(1) by linarith
  qed
  have ne: "v + 1 \<noteq> l" "unat v < unat h" if "h \<noteq> v"
  proof -
    show "v + 1 \<noteq> l" using up [OF that] lv(1) by auto
    show "unat v < unat h" using lv(2) that by (metis le_less unsigned_word_eqI)
  qed
  have P: "\<exists>P. replaced m l h P m' \<and> (\<Union>(k, x) \<in> P. {unat k..unat x}) = {unat l..unat h} - {unat v}"
  proof -
    consider "l = v" "h = v" | "l = v" "h \<noteq> v" | "l \<noteq> v" "h = v" | "l \<noteq> v" "h \<noteq> v" by blast
    then show ?thesis
    proof cases
      case 1
      then have "replaced m l h {} m'" using om' unfolding replaced_def by (simp add: m'_def)
      then show ?thesis using 1 by (intro exI [of _ "{}"]) auto
    next
      case 2
      then have "replaced m l h {(v + 1, h)} m'" using up lv ne nk om unfolding replaced_def
        by (auto simp: m'_def om_put_ok om_del_ok less_le split: if_splits)
      then show ?thesis using 2 up lv by (intro exI [of _ "{(v + 1, h)}"]) auto
    next
      case 3
      then have "replaced m l h {(l, h - 1)} m'" using dn lv om unfolding replaced_def
        by (auto simp: m'_def om_put_ok split: if_splits)
      then show ?thesis using 3 dn lv by (intro exI [of _ "{(l, h - 1)}"]) auto
    next
      case 4
      then have "replaced m l h {(l, v - 1), (v + 1, h)} m'" using dn up lv ne nk om unfolding replaced_def
        by (auto simp: m'_def om_put_ok word_less_nat_alt split: if_splits)
      then show ?thesis using 4 dn up lv by (intro exI [of _ "{(l, v - 1), (v + 1, h)}"]) auto
    qed
  qed
  then obtain P where P: "replaced m l h P m'" "(\<Union>(k, x) \<in> P. {unat k..unat x}) = {unat l..unat h} - {unat v}" by blast
  have "{unat l..unat h} \<subseteq> members m" unfolding members_map [OF om] using l by fastforce
  then have "members m' = members m - {unat v}" using replaced_ok(2) [OF rs l P(1)] P(2) lv by auto
  then show ?thesis using replaced_ok(1) [OF rs l P(1)] Some r by (simp add: clearValue_def m'_def [symmetric] Let_def)
qed

section \<open>Neighbours\<close>

lemma least_member: "rs_ok ((l, h) # m) \<Longrightarrow> n \<in> members ((l, h) # m) \<Longrightarrow> unat l \<le> n"
  by (fastforce simp: rs_ok_Cons members_def word_less_nat_alt)

lemma getNext_least:
  assumes "rs_ok m" "v \<noteq> absent"
  shows "(getNext v m = absent \<or> v < getNext v m \<and> unat (getNext v m) \<in> members m) \<and>
    (\<forall>n \<in> members m. unat v < n \<longrightarrow> unat (getNext v m) \<le> n)"
  using assms(1)
proof (induction m)
  case (Cons r m)
  obtain l h where r: "r = (l, h)" by (cases r)
  have n: "unat (v + 1) = unat v + 1" using assms(2) by (simp add: absent_def succ_nat)
  have m: "rs_ok m" "l \<le> h" using Cons.prems r by (auto simp: rs_ok_Cons)
  consider "v < l" | "\<not> v < l" "contains (l, h) (v + 1)" | "\<not> v < l" "\<not> contains (l, h) (v + 1)" by blast
  then show ?case
  proof cases
    case 1
    then have g: "getNext v (r # m) = l" by (simp add: r)
    have "unat l \<in> members (r # m)" using m(2) by (simp add: r word_le_nat_alt)
    moreover have "unat l \<le> n" if "n \<in> members (r # m)" for n using least_member Cons.prems that unfolding r by blast
    ultimately show ?thesis unfolding g using 1 by blast
  next
    case 2
    then have g: "getNext v (r # m) = v + 1" by (simp add: r)
    have "unat (v + 1) \<in> members (r # m)" using 2(2) by (simp add: r contains_def word_le_nat_alt)
    moreover have "v < v + 1" using n by (simp add: word_less_nat_alt)
    ultimately show ?thesis unfolding g using n by simp
  next
    case 3
    then have "unat h \<le> unat v" using n by (auto simp: contains_def word_le_nat_alt word_less_nat_alt)
    moreover have "getNext v (r # m) = getNext v m" using 3 by (simp add: r)
    moreover have "n \<in> members m" if "n \<in> members (r # m)" "unat v < n" for n using that \<open>unat h \<le> unat v\<close> by (auto simp: r)
    moreover have "members m \<subseteq> members (r # m)" by (auto simp: r)
    ultimately show ?thesis using Cons.IH [OF m(1)] by (metis subsetD)
  qed
qed (simp add: absent_def)

lemma prevMissing_greatest:
  assumes rs: "rs_ok m"
  shows "\<exists>r. prevMissing v m = Ok r \<and>
    (if r = absent then {n. n < unat v} \<subseteq> members m
     else r < v \<and> unat r \<notin> members m \<and> {n. unat r < n \<and> n < unat v} \<subseteq> members m)"
proof (cases "v = 0")
  case True
  then show ?thesis by (simp add: prevMissing_def require_def)
next
  case v: False
  then have p: "unat (v - 1) = unat v - 1" "0 < unat v" by (simp_all add: unat_minus_one unat_gt_0)
  have na: "v - 1 \<noteq> absent" using v by (simp add: absent_def)
  show ?thesis
  proof (cases "List.find (\<lambda>r. contains r (v - 1)) (rev m)")
    case None
    then have "\<not> hasValue (v - 1) m" by (auto simp: find_None_iff hasValue_def list_ex_iff)
    moreover have "v - 1 < v" using p by (simp add: word_less_nat_alt)
    ultimately show ?thesis using None v na p rs by (auto simp: prevMissing_def require_def hasValue_iff)
  next
    case (Some c)
    obtain l h where c: "c = (l, h)" by (cases c)
    have "c \<in> set (rev m)" "contains c (v - 1)" using find_SomeD [OF Some] by auto
    then have r: "(l, h) \<in> set m" "unat l \<le> unat (v - 1)" "unat (v - 1) \<le> unat h" by (auto simp: c contains_def word_le_nat_alt)
    have om: "om_ok m" and l: "map_of m l = Some h" using rs r(1) by (auto simp: rs_map om_in_set)
    have sub: "{n. unat l \<le> n \<and> n < unat v} \<subseteq> members m" unfolding members_map [OF om] using l r p by fastforce
    show ?thesis
    proof (cases "l = 0")
      case True
      then show ?thesis using Some c v rs sub by (simp add: prevMissing_def require_def absent_def)
    next
      case l0: False
      then have pl: "unat (l - 1) = unat l - 1" "0 < unat l" by (simp_all add: unat_minus_one unat_gt_0)
      have "n \<noteq> unat (l - 1)" if "map_of m k = Some x" "unat k \<le> n" "n \<le> unat x" for k x n
      proof (cases "k = l")
        case True
        then show ?thesis using that(2) pl by auto
      next
        case False
        have "unat l \<le> unat h" using rs l by (simp add: rs_map word_le_nat_alt)
        then show ?thesis using ranges_apart [OF rs l that(1) False] that(2,3) pl by linarith
      qed
      then have nm: "unat (l - 1) \<notin> members m" unfolding members_map [OF om] by blast
      have la: "l - 1 \<noteq> absent" using l0 by (simp add: absent_def)
      have "l - 1 < v" using pl p r(2) by (simp add: word_less_nat_alt)
      moreover have "{n. unat (l - 1) < n \<and> n < unat v} \<subseteq> members m" using sub pl by auto
      ultimately show ?thesis using Some c v rs nm la by (simp add: prevMissing_def require_def hasValue_iff)
    qed
  qed
qed

section \<open>Histories\<close>

datatype rs_op = SetValue u32 | SetRange u32 u32 | ClearValue u32

fun rs_step :: "rs_op \<Rightarrow> ranges \<Rightarrow> ranges res" where
  "rs_step (SetValue v) m = setValue v m"
| "rs_step (SetRange a b) m = setRange a b m"
| "rs_step (ClearValue v) m = clearValue v m"

fun rs_run :: "rs_op list \<Rightarrow> ranges \<Rightarrow> ranges res" where
  "rs_run [] m = Ok m"
| "rs_run (x # xs) m = rbind (rs_step x m) (rs_run xs)"

text \<open>What a step does to the set, and the arguments it is meant for.\<close>

fun set_step :: "rs_op \<Rightarrow> nat set \<Rightarrow> nat set" where
  "set_step (SetValue v) S = insert (unat v) S"
| "set_step (SetRange a b) S = (if a < b \<and> {unat a..<unat b} \<subseteq> S then S else S \<union> {unat a..unat b})"
| "set_step (ClearValue v) S = S - {unat v}"

fun op_ok :: "rs_op \<Rightarrow> bool" where
  "op_ok (SetRange a b) \<longleftrightarrow> a \<le> b \<and> b \<noteq> absent"
| "op_ok _ \<longleftrightarrow> True"

lemma rs_step_ok: "rs_ok m \<Longrightarrow> op_ok x \<Longrightarrow> \<exists>m'. rs_step x m = Ok m' \<and> rs_ok m' \<and> members m' = set_step x (members m)"
  using setValue_ok setRange_ok clearValue_ok by (cases x) (auto simp: absent_def)

lemma rs_run_ok:
  "rs_ok m \<Longrightarrow> list_all op_ok xs \<Longrightarrow> \<exists>m'. rs_run xs m = Ok m' \<and> rs_ok m' \<and> members m' = fold set_step xs (members m)"
proof (induction xs arbitrary: m)
  case (Cons x xs)
  obtain m1 where m1: "rs_step x m = Ok m1" "rs_ok m1" "members m1 = set_step x (members m)" using rs_step_ok Cons.prems by fastforce
  then show ?case using Cons.IH [OF m1(2)] Cons.prems(2) by simp
qed simp

section \<open>Properties\<close>

text \<open>
  C33. A range set is a set of numbers: after any sequence of \<open>setValue\<close>, \<open>setRange\<close> and \<open>clearValue\<close> on an empty one no
  assertion has failed, the ranges are sorted and apart from each other, and \<open>hasValue\<close> tells the members of the set
  to which the same changes were made, \<open>getNext\<close> finds the next member and \<open>prevMissing\<close> the greatest number below that is
  missing. \<open>setRange\<close> adds the interval, except where all of it but its end is there already: then it adds nothing.
\<close>

theorem range_set_refines:
  assumes "list_all op_ok xs"
  shows "\<exists>m. rs_run xs [] = Ok m \<and> rs_ok m \<and>
    (\<forall>v. hasValue v m \<longleftrightarrow> unat v \<in> fold set_step xs {}) \<and>
    (\<forall>v. v \<noteq> absent \<longrightarrow> (getNext v m = absent \<or> v < getNext v m \<and> hasValue (getNext v m) m) \<and>
       (\<forall>w. hasValue w m \<longrightarrow> v < w \<longrightarrow> getNext v m \<le> w)) \<and>
    (\<forall>v. \<exists>r. prevMissing v m = Ok r \<and> (r = absent \<or> r < v \<and> \<not> hasValue r m) \<and>
       (\<forall>w. w < v \<longrightarrow> r = absent \<or> r < w \<longrightarrow> hasValue w m))"
proof -
  obtain m where m: "rs_run xs [] = Ok m" "rs_ok m" "members m = fold set_step xs {}"
    using rs_run_ok [OF _ assms, of "[]"] by (auto simp: rs_ok_def sorted_ranges_def)
  have v: "\<forall>v. hasValue v m \<longleftrightarrow> unat v \<in> fold set_step xs {}" by (simp add: hasValue_iff m(3))
  have g: "(getNext v m = absent \<or> v < getNext v m \<and> hasValue (getNext v m) m) \<and> (\<forall>w. hasValue w m \<longrightarrow> v < w \<longrightarrow> getNext v m \<le> w)"
    if "v \<noteq> absent" for v
    using getNext_least [OF m(2) that] unfolding hasValue_iff word_less_nat_alt word_le_nat_alt by blast
  have p: "\<exists>r. prevMissing v m = Ok r \<and> (r = absent \<or> r < v \<and> \<not> hasValue r m) \<and> (\<forall>w. w < v \<longrightarrow> r = absent \<or> r < w \<longrightarrow> hasValue w m)" for v
    using prevMissing_greatest [OF m(2), of v] unfolding hasValue_iff word_less_nat_alt by (fastforce split: if_splits)
  show ?thesis using m v g p by blast
qed

theorem range_set_refines_witness:
  "\<exists>m. rs_run [SetRange 3 7, SetValue 9, ClearValue 5, SetRange 3 4, SetValue 8] [] = Ok m \<and> rs_ok m \<and>
    hasValue 6 m \<and> \<not> hasValue 5 m \<and> hasValue 8 m"
proof -
  have "list_all op_ok [SetRange 3 7, SetValue 9, ClearValue 5, SetRange 3 4, SetValue 8]" by (simp add: absent_def)
  from range_set_refines [OF this] obtain m where m: "rs_run [SetRange 3 7, SetValue 9, ClearValue 5, SetRange 3 4, SetValue 8] [] = Ok m" "rs_ok m"
    "\<forall>v. hasValue v m \<longleftrightarrow> unat v \<in> fold set_step [SetRange 3 7, SetValue 9, ClearValue 5, SetRange 3 4, SetValue 8] {}" by blast
  show ?thesis using m(1,2) by (intro exI [of _ m]) (auto simp: m(3))
qed

lemma toString_example: "toString [(1, 1), (3, 12)] = ''1,3-12''"
  by code_simp

text \<open>The end of an interval is left out where the rest of it is present.\<close>

lemma setRange_drops_end: "setRange 5 6 [(5, 5)] = Ok [(5, 5)]"
  by (simp add: setRange_def skip_present.simps hasValue_def contains_def)

text \<open>The number before the first of a range is not in the set; the one before the last is.\<close>

lemma getPrev_not_member: "getPrev 5 [(5, 10)] = 4 \<and> \<not> hasValue 4 [(5, 10)]"
  by (simp add: getPrev_def hasValue_def contains_def)

lemma getPrev_misses: "getPrev 10 [(5, 10)] = absent \<and> hasValue 9 [(5, 10)]"
  by (simp add: getPrev_def hasValue_def contains_def)

end
