(* ===== verification/HashRouter.thy ===== *)
theory HashRouter
  imports OrdMap
begin

unbundle bit_operations_syntax

text \<open>
  \<open>HashRouter\<close> (\<open>app/misc/HashRouter.h\<close>, \<open>HashRouter.cpp\<close>): flags and peers for the hashes a server has seen, forgotten
  some time after the last use, and \<open>checkValidity\<close> (\<open>app/tx/impl/apply.cpp\<close>), which keeps there what it finds out about
  a transaction. The cached verdicts are those of the checks themselves, for as long as a transaction is not checked once
  with and once without multi-signing allowed: the verdict is cached under the hash alone.
\<close>

section \<open>The table\<close>

definition SF_PRIVATE1 :: u32 where "SF_PRIVATE1 = 0x100"
definition SF_PRIVATE2 :: u32 where "SF_PRIVATE2 = 0x200"
definition SF_PRIVATE3 :: u32 where "SF_PRIVATE3 = 0x400"
definition SF_PRIVATE4 :: u32 where "SF_PRIVATE4 = 0x800"

record RouterEntry =
  e_flags :: u32
  e_peers :: "u32 set"

definition new_RouterEntry :: RouterEntry where
  "new_RouterEntry = \<lparr>e_flags = 0, e_peers = {}\<rparr>"

definition addPeer :: "u32 \<Rightarrow> RouterEntry \<Rightarrow> RouterEntry" where
  "addPeer peer e = (if peer \<noteq> 0 then e\<lparr>e_peers := insert peer (e_peers e)\<rparr> else e)"

definition hr_hasPeer :: "u32 \<Rightarrow> RouterEntry \<Rightarrow> bool" where
  "hr_hasPeer peer e \<longleftrightarrow> peer \<in> e_peers e"

definition entry_setFlags :: "u32 \<Rightarrow> RouterEntry \<Rightarrow> RouterEntry" where
  "entry_setFlags flagsToSet e = e\<lparr>e_flags := e_flags e OR flagsToSet\<rparr>"

definition entry_clearFlag :: "u32 \<Rightarrow> RouterEntry \<Rightarrow> RouterEntry" where
  "entry_clearFlag flagsToClear e = e\<lparr>e_flags := e_flags e AND NOT flagsToClear\<rparr>"

text \<open>
  \<open>mSuppressionMap\<close>, an \<open>aged_unordered_map\<close>: the entries with the time of their last use, in the chronological order
  of the container, the last used one at the end.
\<close>

record 'k HashRouter =
  mSuppressionMap :: "('k \<times> int \<times> RouterEntry) list"
  mHoldTime :: int

definition expire :: "int \<Rightarrow> int \<Rightarrow> ('k \<times> int \<times> RouterEntry) list \<Rightarrow> ('k \<times> int \<times> RouterEntry) list" where
  "expire now age c = dropWhile (\<lambda>(k, when, e). when \<le> now - age) c"

text \<open>
  \<open>emplace\<close>: the entry for a key and whether it is new. The entry is last in the order: \<open>put_router_entry\<close> is a change through the
  reference to it.
\<close>

definition emplace :: "int \<Rightarrow> 'k \<Rightarrow> 'k HashRouter \<Rightarrow> RouterEntry \<times> bool \<times> 'k HashRouter" where
  "emplace now key r =
     (case map_of (mSuppressionMap r) key of
        Some (when, e) \<Rightarrow>
          (e, False, r\<lparr>mSuppressionMap := filter (\<lambda>x. fst x \<noteq> key) (mSuppressionMap r) @ [(key, now, e)]\<rparr>)
      | None \<Rightarrow>
          (new_RouterEntry, True, r\<lparr>mSuppressionMap := expire now (mHoldTime r) (mSuppressionMap r) @ [(key, now, new_RouterEntry)]\<rparr>))"

definition put_router_entry :: "RouterEntry \<Rightarrow> 'k HashRouter \<Rightarrow> 'k HashRouter" where
  "put_router_entry e r = r\<lparr>mSuppressionMap := butlast (mSuppressionMap r) @
     [case last (mSuppressionMap r) of (k, when, _) \<Rightarrow> (k, when, e)]\<rparr>"

definition addSuppression :: "int \<Rightarrow> 'k \<Rightarrow> 'k HashRouter \<Rightarrow> 'k HashRouter" where
  "addSuppression now key r = snd (snd (emplace now key r))"

definition addSuppressionPeer :: "int \<Rightarrow> 'k \<Rightarrow> u32 \<Rightarrow> 'k HashRouter \<Rightarrow> bool \<times> 'k HashRouter" where
  "addSuppressionPeer now key peer r =
     (let (e, created, r) = emplace now key r in (created, put_router_entry (addPeer peer e) r))"

definition addSuppressionPeer_flags :: "int \<Rightarrow> 'k \<Rightarrow> u32 \<Rightarrow> 'k HashRouter \<Rightarrow> bool \<times> u32 \<times> 'k HashRouter" where
  "addSuppressionPeer_flags now key peer r =
     (let (e, created, r) = emplace now key r in (created, e_flags e, put_router_entry (addPeer peer e) r))"

definition getFlags :: "int \<Rightarrow> 'k \<Rightarrow> 'k HashRouter \<Rightarrow> u32 \<times> 'k HashRouter" where
  "getFlags now key r = (let (e, created, r) = emplace now key r in (e_flags e, r))"

definition setFlags :: "int \<Rightarrow> 'k \<Rightarrow> u32 \<Rightarrow> 'k HashRouter \<Rightarrow> (bool \<times> 'k HashRouter) res" where
  "setFlags now key flags r =
     rbind (require (flags \<noteq> 0) AssertFailed) (\<lambda>_.
     let (s, created, r) = emplace now key r in
     Ok (if e_flags s AND flags = flags then (False, r) else (True, put_router_entry (entry_setFlags flags s) r)))"

text \<open>\<open>swapSet\<close>; the caller gets the peers of the entry, where it is changed.\<close>

definition swapSet :: "int \<Rightarrow> 'k \<Rightarrow> u32 set \<Rightarrow> u32 \<Rightarrow> 'k HashRouter \<Rightarrow> bool \<times> u32 set \<times> 'k HashRouter" where
  "swapSet now key peers flag r =
     (let (s, created, r) = emplace now key r in
      if e_flags s AND flag = flag then (False, peers, r)
      else (True, e_peers s, put_router_entry (entry_setFlags flag (s\<lparr>e_peers := peers\<rparr>)) r))"

section \<open>Validity of transactions\<close>

datatype Validity = SigBad | SigGoodOnly | Valid

definition SF_SIGBAD :: u32 where "SF_SIGBAD = SF_PRIVATE1"
definition SF_SIGGOOD :: u32 where "SF_SIGGOOD = SF_PRIVATE2"
definition SF_LOCALBAD :: u32 where "SF_LOCALBAD = SF_PRIVATE3"
definition SF_LOCALGOOD :: u32 where "SF_LOCALGOOD = SF_PRIVATE4"

text \<open>
  \<open>checkValidity\<close>: \<open>checkSign\<close>, which depends on whether multi-signing is allowed, and \<open>passesLocalChecks\<close> are what those
  functions return for the transaction.
\<close>

definition checkValidity :: "int \<Rightarrow> 'k \<Rightarrow> (bool \<Rightarrow> bool) \<Rightarrow> bool \<Rightarrow> bool \<Rightarrow> 'k HashRouter \<Rightarrow> (Validity \<times> 'k HashRouter) res" where
  "checkValidity now txid checkSign passesLocalChecks allowMultiSign r =
     (let (flags, r) = getFlags now txid r in
      if flags AND SF_SIGBAD \<noteq> 0 then Ok (SigBad, r)
      else if flags AND SF_SIGGOOD = 0 \<and> \<not> checkSign allowMultiSign then
        rbind (setFlags now txid SF_SIGBAD r) (\<lambda>(_, r). Ok (SigBad, r))
      else
        rbind (if flags AND SF_SIGGOOD = 0 then setFlags now txid SF_SIGGOOD r else Ok (False, r)) (\<lambda>(_, r).
        if flags AND SF_LOCALBAD \<noteq> 0 then Ok (SigGoodOnly, r)
        else if flags AND SF_LOCALGOOD \<noteq> 0 then Ok (Valid, r)
        else if \<not> passesLocalChecks then rbind (setFlags now txid SF_LOCALBAD r) (\<lambda>(_, r). Ok (SigGoodOnly, r))
        else rbind (setFlags now txid SF_LOCALGOOD r) (\<lambda>(_, r). Ok (Valid, r))))"

definition forceValidity :: "int \<Rightarrow> 'k \<Rightarrow> Validity \<Rightarrow> 'k HashRouter \<Rightarrow> 'k HashRouter res" where
  "forceValidity now txid validity r =
     (let flags = (case validity of Valid \<Rightarrow> SF_LOCALGOOD OR SF_SIGGOOD | SigGoodOnly \<Rightarrow> SF_SIGGOOD | SigBad \<Rightarrow> 0) in
      if flags \<noteq> 0 then rbind (setFlags now txid flags r) (\<lambda>(_, r). Ok r) else Ok r)"

section \<open>What is cached\<close>

lemmas private_flags = SF_SIGBAD_def SF_SIGGOOD_def SF_LOCALBAD_def SF_LOCALGOOD_def
  SF_PRIVATE1_def SF_PRIVATE2_def SF_PRIVATE3_def SF_PRIVATE4_def

text \<open>The flags of an entry are those of the checks; \<open>private_free\<close> flags are of no concern to them.\<close>

definition private_free :: "u32 \<Rightarrow> bool" where
  "private_free f \<longleftrightarrow> f AND 0xF00 = 0"

definition flags_sound :: "bool \<Rightarrow> bool \<Rightarrow> u32 \<Rightarrow> bool" where
  "flags_sound sign loc f \<longleftrightarrow> (f AND SF_SIGBAD \<noteq> 0 \<longrightarrow> \<not> sign) \<and> (f AND SF_SIGGOOD \<noteq> 0 \<longrightarrow> sign) \<and>
     (f AND SF_LOCALBAD \<noteq> 0 \<longrightarrow> \<not> loc) \<and> (f AND SF_LOCALGOOD \<noteq> 0 \<longrightarrow> loc)"

definition hr_sound :: "'k \<Rightarrow> bool \<Rightarrow> bool \<Rightarrow> 'k HashRouter \<Rightarrow> bool" where
  "hr_sound k sg lc r \<longleftrightarrow> (\<forall>(k', when, e) \<in> set (mSuppressionMap r). k' = k \<longrightarrow> flags_sound sg lc (e_flags e))"

lemma flags_sound_0 [simp]: "flags_sound sign loc 0"
  by (simp add: flags_sound_def)

lemma and_or_zero: "(f OR g) AND (h :: u32) \<noteq> 0 \<longleftrightarrow> f AND h \<noteq> 0 \<or> g AND h \<noteq> 0"
  by (metis (no_types, lifting) and.commute bit.conj_disj_distrib or_eq_0_iff)

lemma private_bits: "private_free f \<Longrightarrow> f AND SF_SIGBAD = 0" "private_free f \<Longrightarrow> f AND SF_SIGGOOD = 0"
  "private_free f \<Longrightarrow> f AND SF_LOCALBAD = 0" "private_free f \<Longrightarrow> f AND SF_LOCALGOOD = 0"
proof -
  assume p: "private_free f"
  have *: "f AND h = 0" if "0xF00 AND h = h" for h :: u32
  proof -
    have "f AND h = (f AND 0xF00) AND h" using that by (simp add: and.assoc)
    then show ?thesis using p by (simp add: private_free_def)
  qed
  show "f AND SF_SIGBAD = 0" "f AND SF_SIGGOOD = 0" "f AND SF_LOCALBAD = 0" "f AND SF_LOCALGOOD = 0"
    by (rule *; simp add: private_flags)+
qed

lemma flags_sound_or:
  "flags_sound sign loc f \<Longrightarrow> private_free g \<Longrightarrow> flags_sound sign loc (f OR g)"
  by (simp add: flags_sound_def and_or_zero private_bits)

lemma flags_sound_check:
  assumes "flags_sound sign loc f"
  shows "\<not> sign \<Longrightarrow> flags_sound sign loc (f OR SF_SIGBAD)" "sign \<Longrightarrow> flags_sound sign loc (f OR SF_SIGGOOD)"
    "\<not> loc \<Longrightarrow> flags_sound sign loc (f OR SF_LOCALBAD)" "loc \<Longrightarrow> flags_sound sign loc (f OR SF_LOCALGOOD)"
  using assms by (auto simp: flags_sound_def and_or_zero private_flags)

text \<open>The entry that \<open>emplace\<close> finds or makes, and what a change to it leaves.\<close>

lemma emplace_sound:
  assumes "hr_sound k sg lc r" "emplace now key r = (e, c, r')"
  shows "key = k \<Longrightarrow> flags_sound sg lc (e_flags e)" "hr_sound k sg lc r'"
    "(key = k \<Longrightarrow> flags_sound sg lc (e_flags e')) \<Longrightarrow> hr_sound k sg lc (put_router_entry e' r')"
proof -
  have d: "flags_sound sg lc (e_flags x)" if "(k, w, x) \<in> set (mSuppressionMap r)" for w x
    using assms(1) that by (auto simp: hr_sound_def)
  have sub: "set (dropWhile P xs) \<subseteq> set xs" for P and xs :: "('a \<times> int \<times> RouterEntry) list" by (metis set_dropWhileD subsetI)
  have f: "key = k \<Longrightarrow> flags_sound sg lc (e_flags e)" and m: "\<exists>xs. mSuppressionMap r' = xs @ [(key, now, e)] \<and> set xs \<subseteq> set (mSuppressionMap r)"
    using assms(2) d sub by (auto simp: emplace_def expire_def new_RouterEntry_def split: option.splits dest!: map_of_SomeD)
  show "key = k \<Longrightarrow> flags_sound sg lc (e_flags e)" by (rule f)
  obtain xs where xs: "mSuppressionMap r' = xs @ [(key, now, e)]" "set xs \<subseteq> set (mSuppressionMap r)" using m by blast
  show "hr_sound k sg lc r'" using xs f d by (fastforce simp: hr_sound_def)
  show "(key = k \<Longrightarrow> flags_sound sg lc (e_flags e')) \<Longrightarrow> hr_sound k sg lc (put_router_entry e' r')"
    using xs d by (fastforce simp: hr_sound_def put_router_entry_def)
qed

lemma setFlags_sound:
  assumes "hr_sound k sg lc r" "\<And>f. key = k \<Longrightarrow> flags_sound sg lc f \<Longrightarrow> flags_sound sg lc (f OR flags)" "flags \<noteq> 0"
  shows "\<exists>b r'. setFlags now key flags r = Ok (b, r') \<and> hr_sound k sg lc r'"
proof -
  obtain e c r' where e: "emplace now key r = (e, c, r')" by (cases "emplace now key r")
  note s = emplace_sound [OF assms(1) e]
  have "key = k \<Longrightarrow> flags_sound sg lc (e_flags (entry_setFlags flags e))" using assms(2) s(1) by (simp add: entry_setFlags_def)
  then show ?thesis using s(2) s(3) [of "entry_setFlags flags e"] assms(3)
    by (auto simp: setFlags_def e Let_def require_def)
qed

lemma flags_nonzero: "SF_SIGBAD \<noteq> 0" "SF_SIGGOOD \<noteq> 0" "SF_LOCALBAD \<noteq> 0" "SF_LOCALGOOD \<noteq> 0"
  by (simp_all add: private_flags)

definition validity_of :: "bool \<Rightarrow> bool \<Rightarrow> Validity" where
  "validity_of sign loc = (if \<not> sign then SigBad else if \<not> loc then SigGoodOnly else Valid)"

lemma checkValidity_exact:
  assumes "hr_sound k (sign am) lc r"
  shows "\<exists>r'. checkValidity now k sign lc am r = Ok (validity_of (sign am) lc, r') \<and> hr_sound k (sign am) lc r'"
proof -
  let ?sg = "sign am"
  obtain e c r1 where e: "emplace now k r = (e, c, r1)" by (cases "emplace now k r")
  note s = emplace_sound [OF assms e]
  have g: "getFlags now k r = (e_flags e, r1)" by (simp add: getFlags_def e)
  note body = checkValidity_def [of now k sign lc am r, unfolded g Let_def prod.case]
  have f: "e_flags e AND SF_SIGBAD \<noteq> 0 \<Longrightarrow> \<not> ?sg" "e_flags e AND SF_SIGGOOD \<noteq> 0 \<Longrightarrow> ?sg"
    "e_flags e AND SF_LOCALBAD \<noteq> 0 \<Longrightarrow> \<not> lc" "e_flags e AND SF_LOCALGOOD \<noteq> 0 \<Longrightarrow> lc"
    using s(1) by (auto simp: flags_sound_def)
  note set = setFlags_sound [where key = k and now = now, OF _ flags_sound_check(1) flags_nonzero(1)]
    setFlags_sound [where key = k and now = now, OF _ flags_sound_check(2) flags_nonzero(2)]
    setFlags_sound [where key = k and now = now, OF _ flags_sound_check(3) flags_nonzero(3)]
    setFlags_sound [where key = k and now = now, OF _ flags_sound_check(4) flags_nonzero(4)]
  show ?thesis
  proof (cases ?sg)
    case False
    then have "e_flags e AND SF_SIGGOOD = 0" using f(2) by blast
    then show ?thesis using False s(2) set(1) [OF s(2)] unfolding body by (auto simp: validity_of_def)
  next
    case True
    obtain b r2 where r2: "(if e_flags e AND SF_SIGGOOD = 0 then setFlags now k SF_SIGGOOD r1 else Ok (False, r1)) = Ok (b, r2)" "hr_sound k ?sg lc r2"
      using set(2) [OF s(2) _ True] s(2) by (cases "e_flags e AND SF_SIGGOOD = 0") auto
    have nb: "e_flags e AND SF_SIGBAD = 0" using f(1) True by blast
    show ?thesis
    proof (cases lc)
      case l: True
      then show ?thesis using True f(3) nb r2 set(4) [OF r2(2) _ l] unfolding body by (auto simp: validity_of_def)
    next
      case l: False
      then show ?thesis using True f(4) nb r2 set(3) [OF r2(2) _ l] unfolding body by (auto simp: validity_of_def)
    qed
  qed
qed

text \<open>The check of another transaction leaves the entry alone.\<close>

lemma checkValidity_other:
  assumes "hr_sound k sg lc r" "key \<noteq> k"
  shows "\<exists>v r'. checkValidity now key sign lc' am r = Ok (v, r') \<and> hr_sound k sg lc r'"
proof -
  obtain e c r1 where e: "emplace now key r = (e, c, r1)" by (cases "emplace now key r")
  have g: "getFlags now key r = (e_flags e, r1)" by (simp add: getFlags_def e)
  have s: "hr_sound k sg lc r1" using emplace_sound(2) [OF assms(1) e] .
  have st: "\<exists>b r'. setFlags now key f r2 = Ok (b, r') \<and> hr_sound k sg lc r'" if "hr_sound k sg lc r2" "f \<noteq> 0" for r2 f
    using setFlags_sound [OF that(1), of key f now] that(2) assms(2) by blast
  obtain b r2 where r2: "(if e_flags e AND SF_SIGGOOD = 0 then setFlags now key SF_SIGGOOD r1 else Ok (False, r1)) = Ok (b, r2)" "hr_sound k sg lc r2"
    using st [OF s flags_nonzero(2)] s by (cases "e_flags e AND SF_SIGGOOD = 0") auto
  show ?thesis unfolding checkValidity_def g Let_def prod.case r2(1)
    using s r2(2) st [OF s flags_nonzero(1)] st [OF r2(2) flags_nonzero(3)] st [OF r2(2) flags_nonzero(4)] by auto
qed

section \<open>Histories\<close>

text \<open>
  Uses of the table at given times; a check carries whether multi-signing is allowed. The flags that other code sets are
  not the private ones (\<open>forceValidity\<close>, which sets them without a check, is not among the uses).
\<close>

datatype 'k hr_op = Suppress 'k | SuppressPeer 'k u32 | AskFlags 'k | PutFlags 'k u32 | SwapPeers 'k "u32 set" u32 | CheckTx 'k bool

fun hr_key :: "'k hr_op \<Rightarrow> 'k" where
  "hr_key (Suppress k) = k"
| "hr_key (SuppressPeer k _) = k"
| "hr_key (AskFlags k) = k"
| "hr_key (PutFlags k _) = k"
| "hr_key (SwapPeers k _ _) = k"
| "hr_key (CheckTx k _) = k"

fun hr_op_ok :: "'k hr_op \<Rightarrow> bool" where
  "hr_op_ok (PutFlags _ f) \<longleftrightarrow> f \<noteq> 0 \<and> private_free f"
| "hr_op_ok (SwapPeers _ _ f) \<longleftrightarrow> private_free f"
| "hr_op_ok _ \<longleftrightarrow> True"

fun hr_step :: "('k \<Rightarrow> bool \<Rightarrow> bool) \<Rightarrow> ('k \<Rightarrow> bool) \<Rightarrow> int \<times> 'k hr_op \<Rightarrow> 'k HashRouter \<Rightarrow> 'k HashRouter res" where
  "hr_step sign loc (now, Suppress k) r = Ok (addSuppression now k r)"
| "hr_step sign loc (now, SuppressPeer k p) r = Ok (snd (addSuppressionPeer now k p r))"
| "hr_step sign loc (now, AskFlags k) r = Ok (snd (getFlags now k r))"
| "hr_step sign loc (now, PutFlags k f) r = rbind (setFlags now k f r) (\<lambda>(_, r). Ok r)"
| "hr_step sign loc (now, SwapPeers k ps f) r = Ok (snd (snd (swapSet now k ps f r)))"
| "hr_step sign loc (now, CheckTx k am) r = rbind (checkValidity now k (sign k) (loc k) am r) (\<lambda>(_, r). Ok r)"

fun hr_run :: "('k \<Rightarrow> bool \<Rightarrow> bool) \<Rightarrow> ('k \<Rightarrow> bool) \<Rightarrow> (int \<times> 'k hr_op) list \<Rightarrow> 'k HashRouter \<Rightarrow> 'k HashRouter res" where
  "hr_run sign loc [] r = Ok r"
| "hr_run sign loc (x # xs) r = rbind (hr_step sign loc x r) (hr_run sign loc xs)"

text \<open>The checks of a transaction that all come to the same verdict on its signature.\<close>

definition same_verdict :: "('k \<Rightarrow> bool \<Rightarrow> bool) \<Rightarrow> 'k \<Rightarrow> bool \<Rightarrow> 'k hr_op \<Rightarrow> bool" where
  "same_verdict sign k sg x \<longleftrightarrow> (\<forall>am. x = CheckTx k am \<longrightarrow> sign k am = sg)"

lemma hr_step_sound:
  assumes "hr_sound k sg (loc k) r" "hr_op_ok x" "same_verdict sign k sg x"
  shows "\<exists>r'. hr_step sign loc (now, x) r = Ok r' \<and> hr_sound k sg (loc k) r'"
proof -
  obtain e c r1 where e: "emplace now (hr_key x) r = (e, c, r1)" by (cases "emplace now (hr_key x) r")
  note s = emplace_sound [OF assms(1) e]
  show ?thesis
  proof (cases x)
    case (PutFlags k' f)
    then show ?thesis using assms(2) setFlags_sound [OF assms(1), of k' f now] flags_sound_or by fastforce
  next
    case (CheckTx k' am)
    show ?thesis
    proof (cases "k' = k")
      case True
      then have "sign k am = sg" using CheckTx assms(3) by (simp add: same_verdict_def)
      then show ?thesis using True CheckTx checkValidity_exact [of k "sign k" am "loc k" r now] assms(1) by auto
    next
      case False
      then show ?thesis using CheckTx checkValidity_other [OF assms(1) False, of now "sign k'" "loc k'" am] by auto
    qed
  next
    case (SuppressPeer k' p)
    have "e_flags (addPeer p e) = e_flags e" by (simp add: addPeer_def)
    then show ?thesis using SuppressPeer e s(1) s(3) [of "addPeer p e"] by (simp add: addSuppressionPeer_def)
  next
    case (SwapPeers k' ps f)
    then have "k' = k \<Longrightarrow> flags_sound sg (loc k) (e_flags e OR f)" using s(1) assms(2) by (auto intro: flags_sound_or)
    then show ?thesis using SwapPeers e s(2) s(3) [of "entry_setFlags f (e\<lparr>e_peers := ps\<rparr>)"]
      by (auto simp: swapSet_def entry_setFlags_def Let_def)
  qed (use e s(2) in \<open>simp_all add: addSuppression_def getFlags_def\<close>)
qed

lemma hr_run_sound:
  "hr_sound k sg (loc k) r \<Longrightarrow> list_all (\<lambda>(now, x). hr_op_ok x \<and> same_verdict sign k sg x) xs \<Longrightarrow>
   \<exists>r'. hr_run sign loc xs r = Ok r' \<and> hr_sound k sg (loc k) r'"
proof (induction xs arbitrary: r)
  case (Cons x xs)
  obtain now y where x: "x = (now, y)" by (cases x)
  obtain r1 where "hr_step sign loc x r = Ok r1" "hr_sound k sg (loc k) r1"
    using hr_step_sound [of k sg loc r y sign now] Cons.prems x by auto
  then show ?case using Cons.IH Cons.prems(2) by simp
qed simp

section \<open>Properties\<close>

text \<open>
  C35. What \<open>checkValidity\<close> answers from the table is what the checks answer: take any history of the table that starts
  empty, in which other code leaves the private flags alone, and in which every check of this transaction was made with an
  \<open>allowMultiSign\<close> that gives the verdict on its signature that the present one gives (with the same \<open>allowMultiSign\<close>, or
  for a transaction with a signing key, whose signature is checked in the same way). Then \<open>checkValidity\<close> returns \<open>SigBad\<close>
  exactly when the signature is bad, \<open>SigGoodOnly\<close> exactly when only the local checks fail, and \<open>Valid\<close> otherwise, whether
  or not the checks are run again, and no assertion fails.
\<close>

theorem cached_validity_exact:
  assumes "list_all (\<lambda>(now, x). hr_op_ok x) xs" "\<And>t am'. (t, CheckTx k am') \<in> set xs \<Longrightarrow> sign k am' = sign k am"
  shows "\<exists>r r'. hr_run sign loc xs \<lparr>mSuppressionMap = [], mHoldTime = h\<rparr> = Ok r \<and>
    checkValidity now k (sign k) (loc k) am r =
      Ok (if \<not> sign k am then SigBad else if \<not> loc k then SigGoodOnly else Valid, r')"
proof -
  have "hr_sound k (sign k am) (loc k) \<lparr>mSuppressionMap = [], mHoldTime = h\<rparr>" by (simp add: hr_sound_def)
  moreover have "list_all (\<lambda>(now, x). hr_op_ok x \<and> same_verdict sign k (sign k am) x) xs"
    using assms by (auto simp: list_all_iff same_verdict_def)
  ultimately obtain r where r: "hr_run sign loc xs \<lparr>mSuppressionMap = [], mHoldTime = h\<rparr> = Ok r" "hr_sound k (sign k am) (loc k) r"
    using hr_run_sound [of k "sign k am" loc _ sign xs] by blast
  then show ?thesis using checkValidity_exact [of k "sign k" am "loc k" r now] by (auto simp: validity_of_def)
qed

text \<open>The transactions below 5 are signed, the multi-signed ones above 3 only where that is allowed; those below 3 pass the local checks.\<close>

theorem cached_validity_exact_witness:
  "\<exists>r r'. hr_run (\<lambda>k am. k < (5 :: nat) \<and> (3 < k \<longrightarrow> am)) (\<lambda>k. k < 3)
      [(1, Suppress 4), (2, CheckTx 4 True), (3, PutFlags 4 1), (4, CheckTx 6 False), (400, CheckTx 6 True)] \<lparr>mSuppressionMap = [], mHoldTime = 300\<rparr> = Ok r \<and>
    checkValidity 401 4 (\<lambda>am. 4 < (5 :: nat) \<and> (3 < (4 :: nat) \<longrightarrow> am)) (4 < (3 :: nat)) True r = Ok (SigGoodOnly, r')"
  using cached_validity_exact [of "[(1, Suppress 4), (2, CheckTx 4 True), (3, PutFlags 4 1), (4, CheckTx 6 False), (400, CheckTx 6 True)]" 4
      "\<lambda>k am. k < (5 :: nat) \<and> (3 < k \<longrightarrow> am)" True "\<lambda>k. k < 3" 300 401]
  by (simp add: private_free_def)

text \<open>
  A transaction that is multi-signed and is first checked without multi-signing allowed is then taken for badly signed for
  as long as its hash is remembered, although its signature is good where multi-signing is allowed: the verdict is cached
  under the hash alone.
\<close>

lemma verdict_of_other_mode:
  assumes "\<not> sign False" "now - t < h" "0 < h"
  shows "\<exists>r r'. checkValidity t k sign lc False \<lparr>mSuppressionMap = [], mHoldTime = h\<rparr> = Ok (SigBad, r) \<and>
    checkValidity now k sign lc True r = Ok (SigBad, r')"
  using assms by (simp add: checkValidity_def getFlags_def setFlags_def emplace_def expire_def new_RouterEntry_def
      put_router_entry_def entry_setFlags_def private_flags require_def Let_def)

text \<open>A table that has a key with a time has it again with a time no earlier, until the hold time is over.\<close>

definition seen :: "'k \<Rightarrow> int \<Rightarrow> 'k HashRouter \<Rightarrow> bool" where
  "seen k t r \<longleftrightarrow> (\<exists>w e. (k, w, e) \<in> set (mSuppressionMap r) \<and> t \<le> w)"

lemma dropWhile_keeps: "x \<in> set xs \<Longrightarrow> \<not> P x \<Longrightarrow> x \<in> set (dropWhile P xs)"
  by (induction xs) auto

lemma emplace_seen:
  assumes "emplace now key r = (e, c, r')" "seen k t r" "now - mHoldTime r < t" "t \<le> now"
  shows "seen k t r'" "mHoldTime r' = mHoldTime r"
proof -
  obtain w x where w: "(k, w, x) \<in> set (mSuppressionMap r)" "t \<le> w" using assms(2) by (auto simp: seen_def)
  then have "(k, w, x) \<in> set (expire now (mHoldTime r) (mSuppressionMap r))" using assms(3) by (auto simp: expire_def intro!: dropWhile_keeps)
  then show "seen k t r'" using assms(1,4) w by (cases "k = key") (fastforce simp: emplace_def seen_def split: option.splits)+
  show "mHoldTime r' = mHoldTime r" using assms(1) by (auto simp: emplace_def split: option.splits)
qed

lemma put_router_entry_seen: "mSuppressionMap r \<noteq> [] \<Longrightarrow> seen k t (put_router_entry e r) = seen k t r" "mHoldTime (put_router_entry e r) = mHoldTime r"
  by (cases "mSuppressionMap r" rule: rev_cases; auto simp: seen_def put_router_entry_def split: prod.splits)
    (simp add: put_router_entry_def)

lemma emplace_not_Nil: "emplace now key r = (e, c, r') \<Longrightarrow> mSuppressionMap r' \<noteq> []"
  by (auto simp: emplace_def split: option.splits)


text \<open>A key that has been seen within the hold time is kept by every use of the table.\<close>

definition keeps_seen :: "'k \<Rightarrow> int \<Rightarrow> 'k HashRouter \<Rightarrow> 'k HashRouter \<Rightarrow> bool" where
  "keeps_seen k t r r' \<longleftrightarrow> seen k t r' \<and> mHoldTime r' = mHoldTime r"

lemma emplace_keeps:
  assumes "emplace now key r = (e, c, r')" "seen k t r" "now - mHoldTime r < t" "t \<le> now"
  shows "keeps_seen k t r r'" "keeps_seen k t r (put_router_entry x r')"
  using emplace_seen [OF assms] emplace_not_Nil [OF assms(1)] by (simp_all add: keeps_seen_def put_router_entry_seen)

lemma setFlags_keeps:
  "seen k t r \<Longrightarrow> now - mHoldTime r < t \<Longrightarrow> t \<le> now \<Longrightarrow> setFlags now key f r = Ok (b, r') \<Longrightarrow> keeps_seen k t r r'"
  using emplace_keeps by (fastforce simp: setFlags_def require_def split: prod.splits if_splits)

lemma checkValidity_keeps:
  assumes "seen k t r" "now - mHoldTime r < t" "t \<le> now" "checkValidity now key sg lc am r = Ok (v, r')"
  shows "keeps_seen k t r r'"
proof -
  obtain e c r1 where e: "emplace now key r = (e, c, r1)" by (cases "emplace now key r")
  have g: "getFlags now key r = (e_flags e, r1)" by (simp add: getFlags_def e)
  have k1: "keeps_seen k t r r1" using emplace_keeps(1) [OF e assms(1-3)] .
  have st: "keeps_seen k t r r3" if "keeps_seen k t r r2" "setFlags now key f r2 = Ok (b, r3)" for r2 r3 f b
    using setFlags_keeps [of k t r2 now key f b r3] that assms(2,3) by (simp add: keeps_seen_def)
  from assms(4) show ?thesis unfolding checkValidity_def g Let_def prod.case
    using k1 st [OF k1] st [OF st [OF k1]] by (auto split: if_splits)
qed

lemma hr_step_keeps:
  assumes "seen k t r" "now - mHoldTime r < t" "t \<le> now" "hr_step sign loc (now, x) r = Ok r'"
  shows "keeps_seen k t r r'"
proof -
  obtain e c r1 where e: "emplace now (hr_key x) r = (e, c, r1)" by (cases "emplace now (hr_key x) r")
  note kp = emplace_keeps [OF e assms(1-3)]
  show ?thesis using assms(4) e kp setFlags_keeps [OF assms(1-3)] checkValidity_keeps [OF assms(1-3)]
    by (cases x) (auto simp: addSuppression_def addSuppressionPeer_def getFlags_def swapSet_def Let_def split: if_splits)
qed

lemma hr_run_keeps:
  "seen k t r \<Longrightarrow> list_all (\<lambda>(now, x). now - mHoldTime r < t \<and> t \<le> now) xs \<Longrightarrow> hr_run sign loc xs r = Ok r' \<Longrightarrow> keeps_seen k t r r'"
proof (induction xs arbitrary: r)
  case (Cons x xs)
  obtain now y where x: "x = (now, y)" by (cases x)
  obtain r1 where r1: "hr_step sign loc x r = Ok r1" "hr_run sign loc xs r1 = Ok r'" using Cons.prems(3) by auto
  have "keeps_seen k t r r1" using hr_step_keeps [of k t r now sign loc y r1] Cons.prems(1,2) r1(1) x by simp
  then show ?case using Cons.IH [of r1] Cons.prems(2) r1(2) by (simp add: keeps_seen_def)
qed (simp add: keeps_seen_def)

text \<open>No use of the table fails, whatever is in it.\<close>

lemma setFlags_Ok: "f \<noteq> 0 \<Longrightarrow> \<exists>b r'. setFlags now key f r = Ok (b, r')"
  by (auto simp: setFlags_def require_def split: prod.splits)

lemma checkValidity_Ok: "\<exists>v r'. checkValidity now key sign lc am r = Ok (v, r')"
proof -
  obtain fl r1 where g: "getFlags now key r = (fl, r1)" by (cases "getFlags now key r")
  obtain b r2 where r2: "(if fl AND SF_SIGGOOD = 0 then setFlags now key SF_SIGGOOD r1 else Ok (False, r1)) = Ok (b, r2)"
    using setFlags_Ok [OF flags_nonzero(2), of now key r1] by (cases "fl AND SF_SIGGOOD = 0") auto
  show ?thesis unfolding checkValidity_def g Let_def prod.case r2
    using setFlags_Ok [OF flags_nonzero(1), of now key r1] setFlags_Ok [OF flags_nonzero(3), of now key r2]
      setFlags_Ok [OF flags_nonzero(4), of now key r2] by auto
qed

lemma hr_run_Ok: "list_all (\<lambda>(now, x). hr_op_ok x) xs \<Longrightarrow> \<exists>r'. hr_run sign loc xs r = Ok r'"
proof (induction xs arbitrary: r)
  case (Cons x xs)
  obtain now y where x: "x = (now, y)" by (cases x)
  have "\<exists>r1. hr_step sign loc (now, y) r = Ok r1"
    using Cons.prems x setFlags_Ok checkValidity_Ok by (cases y) fastforce+
  then show ?case using Cons x by auto
qed simp

text \<open>
  A hash that was seen is not taken for new within the hold time: after a message with the hash at one time and any uses
  of the table less than the hold time later, \<open>addSuppressionPeer\<close> says that the hash was there already.
\<close>

theorem suppressed_within_hold_time:
  assumes "list_all (\<lambda>(now, x). hr_op_ok x \<and> t \<le> now \<and> now < t + mHoldTime r) xs" "t \<le> now" "now < t + mHoldTime r"
  shows "\<exists>r'. hr_run sign loc xs (snd (addSuppressionPeer t k p r)) = Ok r' \<and> \<not> fst (addSuppressionPeer now k q r')"
proof -
  obtain e c r1 where e: "emplace t k r = (e, c, r1)" by (cases "emplace t k r")
  define r2 where "r2 = snd (addSuppressionPeer t k p r)"
  have r2: "r2 = put_router_entry (addPeer p e) r1" by (simp add: r2_def addSuppressionPeer_def e)
  have h: "mHoldTime r1 = mHoldTime r" "seen k t r1" using e by (auto simp: emplace_def seen_def split: option.splits intro!: exI [of _ t])
  have s2: "seen k t r2" "mHoldTime r2 = mHoldTime r" using h emplace_not_Nil [OF e] by (simp_all add: r2 put_router_entry_seen)
  have "list_all (\<lambda>(now, x). hr_op_ok x) xs" using assms(1) by (auto simp: list_all_iff)
  then obtain r' where r': "hr_run sign loc xs r2 = Ok r'" using hr_run_Ok by blast
  have "list_all (\<lambda>(now, x). now - mHoldTime r2 < t \<and> t \<le> now) xs" using assms(1) s2(2) by (auto simp: list_all_iff)
  then have "seen k t r'" using hr_run_keeps [OF s2(1) _ r'] by (simp add: keeps_seen_def)
  then have "map_of (mSuppressionMap r') k \<noteq> None" by (auto simp: seen_def map_of_eq_None_iff image_iff Bex_def)
  then have "\<not> fst (addSuppressionPeer now k q r')" by (auto simp: addSuppressionPeer_def emplace_def split: option.splits)
  then show ?thesis using r' by (simp add: r2_def)
qed

theorem suppressed_within_hold_time_witness:
  "\<exists>r'. hr_run (\<lambda>k am. True) (\<lambda>k. True) [(20, Suppress 7), (250, CheckTx 8 True)] (snd (addSuppressionPeer 10 (5 :: nat) 1 \<lparr>mSuppressionMap = [], mHoldTime = 300\<rparr>)) = Ok r' \<and>
    \<not> fst (addSuppressionPeer 300 5 2 r')"
  using suppressed_within_hold_time [of 10 "\<lparr>mSuppressionMap = [], mHoldTime = 300\<rparr>" "[(20, Suppress 7), (250, CheckTx 8 True)]" 300 "\<lambda>k am. True" "\<lambda>k. True" "5 :: nat" 1 2]
  by simp

end
