(* ===== verification/LoadFee.thy ===== *)
theory LoadFee
  imports OrdMap
begin

text \<open>
  \<open>LoadFeeTrack\<close> (\<open>core/LoadFeeTrack.h\<close>, \<open>core/impl/LoadFeeTrack.cpp\<close>): the load factors of the server, of its peers and of
  its cluster. \<open>scaleFeeLoad\<close> no longer uses them: it returns the fee it is given.
\<close>

section \<open>Operations\<close>

record LoadFeeTrack =
  mLocalTxnLoadFee :: u32
  mRemoteTxnLoadFee :: u32
  mClusterTxnLoadFee :: u32
  raiseCount :: int

definition lftNormalFee :: u32 where "lftNormalFee = 256"
definition lftFeeIncFraction :: u32 where "lftFeeIncFraction = 4"
definition lftFeeDecFraction :: u32 where "lftFeeDecFraction = 4"
definition lftFeeMax :: u32 where "lftFeeMax = lftNormalFee * 1000000"

definition new_LoadFeeTrack :: LoadFeeTrack where
  "new_LoadFeeTrack = \<lparr>mLocalTxnLoadFee = lftNormalFee, mRemoteTxnLoadFee = lftNormalFee, mClusterTxnLoadFee = lftNormalFee, raiseCount = 0\<rparr>"

definition setRemoteFee :: "u32 \<Rightarrow> LoadFeeTrack \<Rightarrow> LoadFeeTrack" where
  "setRemoteFee f t = t\<lparr>mRemoteTxnLoadFee := f\<rparr>"

definition setClusterFee :: "u32 \<Rightarrow> LoadFeeTrack \<Rightarrow> LoadFeeTrack" where
  "setClusterFee f t = t\<lparr>mClusterTxnLoadFee := f\<rparr>"

definition getLoadFactor :: "LoadFeeTrack \<Rightarrow> u32" where
  "getLoadFactor t = max (mClusterTxnLoadFee t) (max (mLocalTxnLoadFee t) (mRemoteTxnLoadFee t))"

definition isLoadedLocal :: "LoadFeeTrack \<Rightarrow> bool" where
  "isLoadedLocal t \<longleftrightarrow> raiseCount t \<noteq> 0 \<or> mLocalTxnLoadFee t \<noteq> lftNormalFee"

definition isLoadedCluster :: "LoadFeeTrack \<Rightarrow> bool" where
  "isLoadedCluster t \<longleftrightarrow> raiseCount t \<noteq> 0 \<or> mLocalTxnLoadFee t \<noteq> lftNormalFee \<or> mClusterTxnLoadFee t \<noteq> lftNormalFee"

definition scaleFeeLoad :: "u64 \<Rightarrow> u64 \<Rightarrow> u32 \<Rightarrow> bool \<Rightarrow> LoadFeeTrack \<Rightarrow> u64" where
  "scaleFeeLoad fee baseFee referenceFeeUnits bUnlimited t = fee"

definition raised_fee :: "LoadFeeTrack \<Rightarrow> u32" where
  "raised_fee t =
     (let f = (if mLocalTxnLoadFee t < mRemoteTxnLoadFee t then mRemoteTxnLoadFee t else mLocalTxnLoadFee t);
          f = f + f div lftFeeIncFraction
      in if f > lftFeeMax then lftFeeMax else f)"

definition raiseLocalFee :: "LoadFeeTrack \<Rightarrow> bool \<times> LoadFeeTrack" where
  "raiseLocalFee t =
     (let t = t\<lparr>raiseCount := raiseCount t + 1\<rparr> in
      if raiseCount t < 2 then (False, t)
      else (mLocalTxnLoadFee t \<noteq> raised_fee t, t\<lparr>mLocalTxnLoadFee := raised_fee t\<rparr>))"

definition lowered_fee :: "u32 \<Rightarrow> u32" where
  "lowered_fee f = (let f = f - f div lftFeeDecFraction in if f < lftNormalFee then lftNormalFee else f)"

definition lowerLocalFee :: "LoadFeeTrack \<Rightarrow> bool \<times> LoadFeeTrack" where
  "lowerLocalFee t =
     (mLocalTxnLoadFee t \<noteq> lowered_fee (mLocalTxnLoadFee t),
      t\<lparr>raiseCount := 0, mLocalTxnLoadFee := lowered_fee (mLocalTxnLoadFee t)\<rparr>)"

section \<open>Bounds\<close>

lemmas lft_defs = lftNormalFee_def lftFeeMax_def lftFeeIncFraction_def lftFeeDecFraction_def

datatype lft_op = RaiseLocal | LowerLocal | SetRemote u32 | SetCluster u32

fun lft_step :: "lft_op \<Rightarrow> LoadFeeTrack \<Rightarrow> LoadFeeTrack" where
  "lft_step RaiseLocal t = snd (raiseLocalFee t)"
| "lft_step LowerLocal t = snd (lowerLocalFee t)"
| "lft_step (SetRemote f) t = setRemoteFee f t"
| "lft_step (SetCluster f) t = setClusterFee f t"

text \<open>Reports of peers that are below the number at which a raise wraps around.\<close>

definition remote_ok :: "u32 \<Rightarrow> bool" where
  "remote_ok f \<longleftrightarrow> f < 3435973837"

definition local_ok :: "LoadFeeTrack \<Rightarrow> bool" where
  "local_ok t \<longleftrightarrow> 256 \<le> unat (mLocalTxnLoadFee t) \<and> unat (mLocalTxnLoadFee t) \<le> 256000000 \<and> remote_ok (mRemoteTxnLoadFee t)"

lemma raise_nat: "unat f < 3435973837 \<Longrightarrow> unat (f + f div 4) = unat f + unat f div 4" for f :: u32
proof -
  assume "unat f < 3435973837"
  then have "unat f + unat f div 4 < 2 ^ 32" by simp
  then show ?thesis by (simp add: unat_plus_if' unat_div)
qed

lemma raised_fee_nat:
  assumes "local_ok t"
  shows "unat (raised_fee t) = (let f = max (unat (mLocalTxnLoadFee t)) (unat (mRemoteTxnLoadFee t)) in min 256000000 (f + f div 4))"
proof -
  define f where "f = (if mLocalTxnLoadFee t < mRemoteTxnLoadFee t then mRemoteTxnLoadFee t else mLocalTxnLoadFee t)"
  have f: "unat f = max (unat (mLocalTxnLoadFee t)) (unat (mRemoteTxnLoadFee t))" by (simp add: f_def word_less_nat_alt)
  have "unat f < 3435973837" using assms unfolding f by (auto simp: local_ok_def remote_ok_def word_less_nat_alt)
  then have "unat (f + f div 4) = unat f + unat f div 4" by (rule raise_nat)
  moreover have "raised_fee t = (if f + f div 4 > 256000000 then 256000000 else f + f div 4)"
    unfolding raised_fee_def f_def by (simp add: lft_defs Let_def)
  ultimately have "unat (raised_fee t) = min 256000000 (unat f + unat f div 4)"
    by (simp add: word_less_nat_alt min_def)
  then show ?thesis by (simp add: f Let_def)
qed

lemma lowered_fee_nat: "unat (lowered_fee f) = max 256 (unat f - unat f div 4)"
proof -
  have "f div 4 \<le> f" by (simp add: word_le_nat_alt unat_div)
  then have "unat (f - f div 4) = unat f - unat f div 4" by (simp add: unat_sub unat_div)
  then show ?thesis by (auto simp: lowered_fee_def Let_def lft_defs word_less_nat_alt max_def)
qed

lemma lft_step_ok: "local_ok t \<Longrightarrow> (\<forall>f. x = SetRemote f \<longrightarrow> remote_ok f) \<Longrightarrow> local_ok (lft_step x t)"
proof (cases x)
  case RaiseLocal
  assume t: "local_ok t"
  have "local_ok (t\<lparr>raiseCount := n\<rparr>)" for n using t by (simp add: local_ok_def)
  then show ?thesis using t raised_fee_nat [of "t\<lparr>raiseCount := raiseCount t + 1\<rparr>"] RaiseLocal
    by (auto simp: raiseLocalFee_def Let_def local_ok_def max_def)
next
  case LowerLocal
  assume "local_ok t"
  then show ?thesis using LowerLocal lowered_fee_nat by (auto simp: lowerLocalFee_def local_ok_def)
qed (auto simp: local_ok_def setRemoteFee_def setClusterFee_def)

text \<open>
  The load factor of the server stays between the normal one and a million times it, whatever raises, reductions and
  reports there are, as long as no report of a peer reaches 3435973837, and reductions alone bring it back to the normal
  one.
\<close>

theorem local_fee_bounds:
  assumes "\<forall>f. SetRemote f \<in> set xs \<longrightarrow> f < 3435973837"
  shows "256 \<le> unat (mLocalTxnLoadFee (fold lft_step xs new_LoadFeeTrack)) \<and>
    unat (mLocalTxnLoadFee (fold lft_step xs new_LoadFeeTrack)) \<le> 256000000 \<and>
    (\<exists>n. mLocalTxnLoadFee ((lft_step LowerLocal ^^ n) (fold lft_step xs new_LoadFeeTrack)) = 256)"
proof -
  have run: "local_ok (fold lft_step xs t)" if "local_ok t" "\<forall>f. SetRemote f \<in> set xs \<longrightarrow> remote_ok f" for t xs
    using that by (induction xs arbitrary: t) (auto simp: lft_step_ok)
  have "local_ok new_LoadFeeTrack" by (simp add: local_ok_def new_LoadFeeTrack_def lft_defs remote_ok_def)
  then have ok: "local_ok (fold lft_step xs new_LoadFeeTrack)" using run assms by (simp add: remote_ok_def)
  have "\<exists>n. mLocalTxnLoadFee ((lft_step LowerLocal ^^ n) t) = 256" if "local_ok t" for t
    using that
  proof (induction "unat (mLocalTxnLoadFee t)" arbitrary: t rule: less_induct)
    case less
    have l: "local_ok (lft_step LowerLocal t)" using lft_step_ok [OF less.prems] by blast
    have n: "unat (mLocalTxnLoadFee (lft_step LowerLocal t)) = max 256 (unat (mLocalTxnLoadFee t) - unat (mLocalTxnLoadFee t) div 4)"
      by (simp add: lowerLocalFee_def lowered_fee_nat)
    show ?case
    proof (cases "mLocalTxnLoadFee t = 256")
      case True
      then show ?thesis by (intro exI [of _ 0]) simp
    next
      case False
      then have "unat (mLocalTxnLoadFee t) \<noteq> 256" by (simp add: word_unat_eq_iff)
      then have "256 < unat (mLocalTxnLoadFee t)" using less.prems by (simp add: local_ok_def)
      then have "unat (mLocalTxnLoadFee (lft_step LowerLocal t)) < unat (mLocalTxnLoadFee t)" unfolding n by simp
      then obtain n where "mLocalTxnLoadFee ((lft_step LowerLocal ^^ n) (lft_step LowerLocal t)) = 256" using less.hyps l by blast
      then show ?thesis by (intro exI [of _ "Suc n"]) (simp add: funpow_swap1)
    qed
  qed
  then show ?thesis using ok by (auto simp: local_ok_def)
qed

theorem local_fee_bounds_witness:
  "256 \<le> unat (mLocalTxnLoadFee (fold lft_step [SetRemote 1000000, RaiseLocal, RaiseLocal, LowerLocal] new_LoadFeeTrack))"
  using local_fee_bounds [of "[SetRemote 1000000, RaiseLocal, RaiseLocal, LowerLocal]"] by simp

text \<open>A greater report wraps around.\<close>

lemma raise_wraps: "mLocalTxnLoadFee (fold lft_step [SetRemote 3435973837, RaiseLocal, RaiseLocal] new_LoadFeeTrack) = 0"
  by code_simp

end
