(* ===== verification/Transactor.thy ===== *)
theory Transactor
  imports Entry_Props HashRouter LoadFee
begin

unbundle bit_operations_syntax

text \<open>
  The frame of all transactions (\<open>app/tx/impl/Transactor.cpp\<close>, \<open>ApplyContext.cpp\<close>, \<open>applySteps.cpp\<close>, \<open>apply.cpp\<close>,
  \<open>SignerEntries.cpp\<close>): the checks before a transaction is applied, the fee and the sequence number, the application in a
  sandbox over an open view, and what is left of it where it fails and only the fee is claimed. What a type of
  transaction does is a \<open>TxClass\<close>, the functions its class overrides. The public keys of signatures are turned into
  accounts by a parameter; the metadata of a transaction and the fields that thread entries to transactions are not
  modelled.
\<close>

section \<open>Transactions\<close>

text \<open>The types of transactions that \<open>applySteps.cpp\<close> knows.\<close>

datatype TxType = ttPAYMENT | ttSUSPAY_CREATE | ttSUSPAY_FINISH | ttACCOUNT_SET | ttSUSPAY_CANCEL | ttREGULAR_KEY_SET
  | ttOFFER_CREATE | ttOFFER_CANCEL | ttTICKET_CREATE | ttTICKET_CANCEL | ttSIGNER_LIST_SET | ttTRUST_SET | ttAMENDMENT | ttFEE
  | ttDIVIDEND | ttADDREFEREE | ttACTIVEACCOUNT | ttISSUE | ttRING_DEPOSIT | ttRING_WITHDRAW | ttRING_CANCEL
  | ttPROPOSAL_CREATE | ttPROPOSAL_CLOSE | ttPROPOSAL_VOTE | ttASSET_RELEASE

text \<open>A limit of \<open>sfLimits\<close>, and the fields of a transaction that the modelled classes read.\<close>

record TxLimit =
  tl_LimitAmount :: STAmount
  tl_QualityIn :: "u32 option"
  tl_QualityOut :: "u32 option"
  tl_Flags :: u32

record STTx =
  tx_ID :: uint256
  tx_Type :: TxType
  tx_Account :: AccountID
  tx_Sequence :: u32
  tx_Fee :: STAmount
  tx_Flags :: u32
  tx_AccountTxnID :: "uint256 option"
  tx_LastLedgerSequence :: "u32 option"
  tx_SigningPubKey :: blob
  tx_Signers :: "(AccountID \<times> blob) list option"
  tx_Amount :: STAmount
  tx_Destination :: AccountID
  tx_Reference :: AccountID
  tx_Referee :: AccountID
  tx_hasPaths :: bool
  tx_hasSendMax :: bool
  tx_Amounts :: "STAmount list option"
  tx_Limits :: "TxLimit list option"
  tx_Limit :: TxLimit
  tx_OfferSequence :: u32
  tx_Expiration :: "u32 option"
  tx_Target :: "AccountID option"
  tx_TicketID :: uint256
  tx_RegularKey :: "AccountID option"
  tx_SignerQuorum :: u32
  tx_SignerEntries :: "(bool \<times> AccountID \<times> u16) list option"
  tx_ReleaseSchedule :: "(u32 \<times> u32) list"

text \<open>
  What the checks and the application know beside the view: the transaction, the flags, the fees and numbers of the
  ledger, the configuration and the load.
\<close>

record Ctx =
  x_tx :: STTx
  x_flags :: u32
  x_sha :: hash
  x_calcAccountID :: "blob \<Rightarrow> AccountID"
  x_multiSign :: bool
  x_trustSetAuth :: bool
  x_seq :: u32
  x_open :: bool
  x_base :: u64
  x_units :: u32
  x_reserve :: u32
  x_increment :: u32
  x_parentCloseTime :: u32
  x_txExists :: "uint256 \<Rightarrow> bool"
  x_load :: LoadFeeTrack
  x_rate_native :: u64
  x_min_native :: u64
  x_secret_account :: "AccountID option"

definition tapNO_CHECK_SIGN :: u32 where "tapNO_CHECK_SIGN = 0x01"
definition tapENABLE_TESTING :: u32 where "tapENABLE_TESTING = 0x02"
definition tapPOST_SEQ :: u32 where "tapPOST_SEQ = 0x04"
definition tapRETRY :: u32 where "tapRETRY = 0x20"
definition tapUNLIMITED :: u32 where "tapUNLIMITED = 0x400"

definition lsfPasswordSpent :: u32 where "lsfPasswordSpent = 0x00010000"
definition lsfRequireAuth :: u32 where "lsfRequireAuth = 0x00040000"
definition lsfDisableMaster :: u32 where "lsfDisableMaster = 0x00100000"
definition lsfNoFreeze :: u32 where "lsfNoFreeze = 0x00200000"

definition SYSTEM_CURRENCY_START :: u64 where "SYSTEM_CURRENCY_START = 2 * 1000000 * 1000000"

text \<open>The drops are compared as an unsigned number, so that a negative amount is not legal either.\<close>

definition isLegalAmount :: "XRPAmount \<Rightarrow> bool" where
  "isLegalAmount amount \<longleftrightarrow> word_of_int (drops amount) \<le> SYSTEM_CURRENCY_START"

text \<open>\<open>Fees::accountReserve\<close>, on 64-bit numbers, as drops.\<close>

definition fees_reserve :: "Ctx \<Rightarrow> u64 \<Rightarrow> int" where
  "fees_reserve c ownerCount = sint (ucast (x_reserve c) + ownerCount * ucast (x_increment c) :: u64)"

abbreviation has_flag :: "u32 \<Rightarrow> u32 \<Rightarrow> bool" where
  "has_flag x f \<equiv> x AND f \<noteq> 0"

section \<open>Checks without the ledger\<close>

type_synonym router = "uint256 HashRouter"

definition preflight0 :: "Ctx \<Rightarrow> TER" where
  "preflight0 c = (if tx_ID (x_tx c) = 0 then temINVALID else tesSUCCESS)"

definition preflight1 :: "Ctx \<Rightarrow> TER res" where
  "preflight1 c =
     (let ret = preflight0 c; fee = tx_Fee (x_tx c) in
      if \<not> isTesSuccess ret then Ok ret
      else if tx_Account (x_tx c) = 0 then Ok temBAD_SRC_ACCOUNT
      else if \<not> mIsNative fee \<or> mIsNegative fee then Ok temBAD_FEE
      else rbind (xrp fee) (\<lambda>x. Ok (if \<not> isLegalAmount x then temBAD_FEE else tesSUCCESS)))"

text \<open>
  \<open>preflight2\<close>; the clock, the check of the signature and the local checks of the transaction are arguments.
\<close>

record Checks =
  ck_now :: int
  ck_sign :: "STTx \<Rightarrow> bool \<Rightarrow> bool"
  ck_local :: "STTx \<Rightarrow> bool"

definition allow_multi_sign :: "Ctx \<Rightarrow> bool" where
  "allow_multi_sign c \<longleftrightarrow> has_flag (x_flags c) tapENABLE_TESTING \<or> x_multiSign c"

definition preflight2 :: "Checks \<Rightarrow> Ctx \<Rightarrow> router \<Rightarrow> (TER \<times> router) res" where
  "preflight2 k c r =
     (if has_flag (x_flags c) tapNO_CHECK_SIGN then Ok (tesSUCCESS, r)
      else rbind (checkValidity (ck_now k) (tx_ID (x_tx c)) (ck_sign k (x_tx c)) (ck_local k (x_tx c)) (allow_multi_sign c) r) (\<lambda>(v, r).
        Ok (if v = SigBad then temINVALID else tesSUCCESS, r)))"

text \<open>The usual shape of a \<open>preflight\<close>: \<open>preflight1\<close>, checks of the class, \<open>preflight2\<close>.\<close>

definition preflight_with :: "Checks \<Rightarrow> (Ctx \<Rightarrow> TER res) \<Rightarrow> Ctx \<Rightarrow> router \<Rightarrow> (TER \<times> router) res" where
  "preflight_with k f c r =
     rbind (preflight1 c) (\<lambda>ret. if \<not> isTesSuccess ret then Ok (ret, r)
     else rbind (f c) (\<lambda>ret. if ret \<noteq> tesSUCCESS then Ok (ret, r)
     else preflight2 k c r))"

section \<open>Checks against the ledger\<close>

type_synonym reader = "Fields DirPage ReadView"

abbreviation read_account :: "Ctx \<Rightarrow> reader \<Rightarrow> AccountID \<Rightarrow> entry option" where
  "read_account c rd a \<equiv> v_read rd (keylet_account (x_sha c) a)"

definition read_deref :: "entry option \<Rightarrow> Fields res" where
  "read_deref e = (case e of None \<Rightarrow> Throw NullDeref | Some sle \<Rightarrow> Ok (flds sle))"

definition calculateFee :: "Ctx \<Rightarrow> u64 \<Rightarrow> XRPAmount" where
  "calculateFee c baseFee =
     \<lparr>drops = sint (scaleFeeLoad baseFee (x_base c) (x_units c) (has_flag (x_flags c) tapUNLIMITED) (x_load c)), xrp_isVBC = False\<rparr>"

definition calculateBaseFee :: "Ctx \<Rightarrow> reader \<Rightarrow> u64" where
  "calculateBaseFee c rd =
     (let baseFee = ucast (x_units c);
          signerCount = (case tx_Signers (x_tx c) of None \<Rightarrow> (0 :: u32) | Some l \<Rightarrow> of_nat (length l))
      in baseFee + ucast signerCount * baseFee)"

definition fee_due :: "Ctx \<Rightarrow> u64 \<Rightarrow> XRPAmount res" where
  "fee_due c baseFee =
     (if tx_Type (x_tx c) = ttRING_DEPOSIT then
        let amount = tx_Amount (x_tx c); least = STAmount_drops (2 * x_min_native c) False in
        rbind (amountFromRate (2 * x_rate_native c)) (\<lambda>r.
        rbind (multiply amount r (mIssue amount)) (\<lambda>m.
        rbind (less_amount m least) (\<lambda>b. xrp (if b then least else m))))
      else Ok (calculateFee c baseFee))"

definition checkFee :: "Ctx \<Rightarrow> reader \<Rightarrow> u64 \<Rightarrow> TER res" where
  "checkFee c rd baseFee =
     rbind (xrp (tx_Fee (x_tx c))) (\<lambda>feePaid.
     if \<not> isLegalAmount feePaid \<or> drops feePaid < 0 then Ok temBAD_FEE
     else rbind (fee_due c baseFee) (\<lambda>feeDue.
     if x_open c \<and> drops feePaid < drops feeDue then Ok telINSUF_FEE_P
     else if drops feePaid = 0 then Ok tesSUCCESS
     else
       rbind (read_deref (read_account c rd (tx_Account (x_tx c)))) (\<lambda>f.
       rbind (xrp (sfBalance f)) (\<lambda>balance.
       Ok (if drops balance < drops feePaid
           then (if drops balance > 0 \<and> \<not> x_open c then tecINSUFF_FEE else terINSUF_FEE_B)
           else tesSUCCESS)))))"

definition checkSeq :: "Ctx \<Rightarrow> reader \<Rightarrow> TER res" where
  "checkSeq c rd =
     (case read_account c rd (tx_Account (x_tx c)) of
        None \<Rightarrow> Ok terNO_ACCOUNT
      | Some sle \<Rightarrow>
          let t_seq = tx_Sequence (x_tx c); a_seq = sfSequence (flds sle) in
          Ok (if t_seq \<noteq> a_seq then
                if a_seq < t_seq then (if has_flag (x_flags c) tapPOST_SEQ then tesSUCCESS else terPRE_SEQ)
                else if x_txExists c (tx_ID (x_tx c)) then tefALREADY else tefPAST_SEQ
              else if (case tx_AccountTxnID (x_tx c) of None \<Rightarrow> False
                  | Some i \<Rightarrow> (case sfAccountTxnID (flds sle) of None \<Rightarrow> 0 | Some j \<Rightarrow> j) \<noteq> i) then tefWRONG_PRIOR
              else if (case tx_LastLedgerSequence (x_tx c) of None \<Rightarrow> False | Some n \<Rightarrow> x_seq c > n) then tefMAX_LEDGER
              else tesSUCCESS))"

section \<open>Signatures\<close>

definition checkSingleSign :: "Ctx \<Rightarrow> reader \<Rightarrow> TER res" where
  "checkSingleSign c rd =
     (let acc = tx_Account (x_tx c); pkAccount = x_calcAccountID c (tx_SigningPubKey (x_tx c)) in
      case read_account c rd acc of
        None \<Rightarrow> Throw NullDeref
      | Some sle \<Rightarrow>
          Ok (if pkAccount = acc then (if isFlag sle lsfDisableMaster then tefMASTER_DISABLED else tesSUCCESS)
              else case sfRegularKey (flds sle) of
                None \<Rightarrow> tefBAD_AUTH_MASTER
              | Some k \<Rightarrow> if pkAccount = k then tesSUCCESS else tefBAD_AUTH))"

text \<open>\<open>SignerEntries::deserialize\<close>.\<close>

type_synonym signer = "AccountID \<times> u16"

fun deserialize_entries :: "(bool \<times> AccountID \<times> u16) list \<Rightarrow> signer list \<Rightarrow> signer list \<times> TER" where
  "deserialize_entries [] acc = (acc, tesSUCCESS)"
| "deserialize_entries ((named, a, w) # l) acc = (if \<not> named then (acc, temMALFORMED) else deserialize_entries l (acc @ [(a, w)]))"

definition deserialize :: "(bool \<times> AccountID \<times> u16) list option \<Rightarrow> signer list \<times> TER" where
  "deserialize l = (case l of None \<Rightarrow> ([], temMALFORMED) | Some l \<Rightarrow> deserialize_entries l [])"

text \<open>The iterator moves on to the first signer that is not below the account; to look through one at the end is undefined.\<close>

fun skip_signers :: "AccountID \<Rightarrow> signer list \<Rightarrow> (signer list) option res" where
  "skip_signers a [] = Throw Undefined"
| "skip_signers a (e # l) = (if fst e < a then (if l = [] then Ok None else skip_signers a l) else Ok (Some (e # l)))"

text \<open>Whether the key of a signature may sign for an account: the master key, or the regular key.\<close>

definition signer_result :: "Ctx \<Rightarrow> reader \<Rightarrow> AccountID \<Rightarrow> blob \<Rightarrow> TER" where
  "signer_result c rd a pk =
     (let signingAcctIDFromPubKey = x_calcAccountID c pk in
      if signingAcctIDFromPubKey = a then
        (case read_account c rd a of
           None \<Rightarrow> tesSUCCESS
         | Some sleRoot \<Rightarrow> if has_flag (sfFlags (flds sleRoot)) lsfDisableMaster then tefMASTER_DISABLED else tesSUCCESS)
      else
        (case read_account c rd a of
           None \<Rightarrow> tefBAD_SIGNATURE
         | Some sleRoot \<Rightarrow>
             (case sfRegularKey (flds sleRoot) of
                None \<Rightarrow> tefBAD_SIGNATURE
              | Some k \<Rightarrow> if signingAcctIDFromPubKey \<noteq> k then tefBAD_SIGNATURE else tesSUCCESS)))"

fun signer_loop :: "Ctx \<Rightarrow> reader \<Rightarrow> (AccountID \<times> blob) list \<Rightarrow> signer list \<Rightarrow> u32 \<Rightarrow> (TER \<times> u32) res" where
  "signer_loop c rd [] iter weightSum = Ok (tesSUCCESS, weightSum)"
| "signer_loop c rd ((a, pk) # l) iter weightSum =
     rbind (skip_signers a iter) (\<lambda>found.
     case found of
       None \<Rightarrow> Ok (tefBAD_SIGNATURE, weightSum)
     | Some iter \<Rightarrow>
         if fst (hd iter) \<noteq> a then Ok (tefBAD_SIGNATURE, weightSum)
         else
           let ter = signer_result c rd a pk in
           if ter \<noteq> tesSUCCESS then Ok (ter, weightSum)
           else signer_loop c rd l iter (weightSum + ucast (snd (hd iter))))"

definition checkMultiSign :: "Ctx \<Rightarrow> reader \<Rightarrow> TER res" where
  "checkMultiSign c rd =
     (case v_read rd (keylet_signers (x_sha c) (tx_Account (x_tx c))) of
        None \<Rightarrow> Ok tefNOT_MULTI_SIGNING
      | Some sleAccountSigners \<Rightarrow>
          rbind (require (sfSignerListID (flds sleAccountSigners) \<noteq> None) AssertFailed) (\<lambda>_.
          rbind (require (sfSignerListID (flds sleAccountSigners) = Some 0) AssertFailed) (\<lambda>_.
          let (accountSigners, ter) = deserialize (sfSignerEntries (flds sleAccountSigners));
              txSigners = (case tx_Signers (x_tx c) of None \<Rightarrow> [] | Some l \<Rightarrow> l)
          in if ter \<noteq> tesSUCCESS then Ok ter
          else
            rbind (signer_loop c rd txSigners accountSigners 0) (\<lambda>(ter, weightSum).
            Ok (if ter \<noteq> tesSUCCESS then ter
                else if weightSum < sfSignerQuorum (flds sleAccountSigners) then tefBAD_QUORUM
                else tesSUCCESS)))))"

definition checkSign :: "Ctx \<Rightarrow> reader \<Rightarrow> TER res" where
  "checkSign c rd =
     (if allow_multi_sign c \<and> tx_SigningPubKey (x_tx c) = [] then checkMultiSign c rd else checkSingleSign c rd)"

section \<open>Application\<close>

text \<open>The members of a \<open>Transactor\<close>, amounts as drops.\<close>

record TxState =
  t_account :: AccountID
  t_FeeDue :: int
  t_PriorBalance :: int
  t_SourceBalance :: int

text \<open>What a class of transactions overrides.\<close>

record 's TxClass =
  cl_preflight :: "Ctx \<Rightarrow> router \<Rightarrow> (TER \<times> router) res"
  cl_calculateBaseFee :: "Ctx \<Rightarrow> reader \<Rightarrow> u64"
  cl_preclaim :: "Ctx \<Rightarrow> reader \<Rightarrow> TER res"
  cl_preCompute :: "Ctx \<Rightarrow> unit res"
  cl_doApply :: "'s Env \<Rightarrow> Ctx \<Rightarrow> TxState \<Rightarrow> 's \<Rightarrow> (TER \<times> 's) res"

definition drops_amount :: "int \<Rightarrow> STAmount res" where
  "drops_amount d = STAmount_of_xrp \<lparr>drops = d, xrp_isVBC = False\<rparr>"

definition preCompute :: "Ctx \<Rightarrow> unit res" where
  "preCompute c = require (tx_Account (x_tx c) \<noteq> 0) AssertFailed"

text \<open>
  \<open>setSeq\<close> and \<open>payFee\<close> edit the account through the pointer that \<open>apply\<close> then updates. For a ring deposit the fee goes to
  the account of the mixer instead.
\<close>

definition seq_fields :: "Ctx \<Rightarrow> Fields \<Rightarrow> Fields" where
  "seq_fields c f = f\<lparr>sfSequence := tx_Sequence (x_tx c) + 1,
     sfAccountTxnID := (case sfAccountTxnID f of None \<Rightarrow> None | Some _ \<Rightarrow> Some (tx_ID (x_tx c)))\<rparr>"

definition setSeq :: "'s Env \<Rightarrow> Ctx \<Rightarrow> entry_ref \<Rightarrow> 's \<Rightarrow> 's res" where
  "setSeq V c sle s = update_entry V (seq_fields c) sle s"

definition payFee :: "'s Env \<Rightarrow> Ctx \<Rightarrow> TxState \<Rightarrow> 's \<Rightarrow> (TER \<times> TxState \<times> 's) res" where
  "payFee V c t s =
     rbind (xrp (tx_Fee (x_tx c))) (\<lambda>feePaid.
     if tx_Type (x_tx c) = ttRING_DEPOSIT then
       (case x_secret_account c of
          None \<Rightarrow> Ok (tefINTERNAL, t, s)
        | Some midAccount \<Rightarrow>
            rbind (drops_amount (drops feePaid)) (\<lambda>a.
            rbind (transferXRP V (t_account t) midAccount a s) (\<lambda>(ter, s). Ok (ter, t, s))))
     else
       let t = t\<lparr>t_SourceBalance := t_SourceBalance t - drops feePaid\<rparr> in
       rbind (deref (peek_entry V (keylet_account (env_sha V) (t_account t)) s)) (\<lambda>(sle, s).
       rbind (drops_amount (t_SourceBalance t)) (\<lambda>b.
       rbind (update_entry V (\<lambda>f. f\<lparr>sfBalance := b\<rparr>) sle s) (\<lambda>s.
       Ok (tesSUCCESS, t, s)))))"

definition transactor_apply :: "'s TxClass \<Rightarrow> 's Env \<Rightarrow> Ctx \<Rightarrow> u64 \<Rightarrow> 's \<Rightarrow> (TER \<times> 's) res" where
  "transactor_apply T V c baseFee s =
     rbind (cl_preCompute T c) (\<lambda>_.
     let acc = tx_Account (x_tx c);
         (sle, s) = peek_entry V (keylet_account (env_sha V) acc) s
     in rbind (require (sle \<noteq> None \<or> acc = 0) AssertFailed) (\<lambda>_.
        let t = \<lparr>t_account = acc, t_FeeDue = drops (calculateFee c baseFee), t_PriorBalance = 0, t_SourceBalance = 0\<rparr> in
        case sle of
          None \<Rightarrow> cl_doApply T V c t s
        | Some sle \<Rightarrow>
            rbind (xrp (sfBalance (flds (snd sle)))) (\<lambda>b.
            let t = t\<lparr>t_PriorBalance := drops b, t_SourceBalance := drops b\<rparr> in
            rbind (setSeq V c sle s) (\<lambda>s.
            rbind (payFee V c t s) (\<lambda>(terResult, t, s).
            if terResult \<noteq> tesSUCCESS then Ok (terResult, s)
            else cl_doApply T V c t s)))))"

section \<open>Claiming the fee\<close>

text \<open>The offers that a transaction which grew too large had found unfunded, and their removal, a thousand at most.\<close>

definition unfunded_offer :: "key \<times> bool \<times> entry option \<times> entry option \<Rightarrow> bool res" where
  "unfunded_offer v =
     (case v of (index, isDelete, before, after) \<Rightarrow>
        if \<not> isDelete then Ok False
        else case (before, after) of
          (Some b, Some a) \<Rightarrow> Ok (sle_type b = ltOFFER \<and> eq_amount (sfTakerPays (flds b)) (sfTakerPays (flds a)))
        | _ \<Rightarrow> Throw AssertFailed)"

fun removed_offers :: "(key \<times> bool \<times> entry option \<times> entry option) list \<Rightarrow> key list res" where
  "removed_offers [] = Ok []"
| "removed_offers (v # l) =
     rbind (unfunded_offer v) (\<lambda>b. rbind (removed_offers l) (\<lambda>ks. Ok (if b then fst v # ks else ks)))"

fun removeUnfundedOffers :: "'s Env \<Rightarrow> key list \<Rightarrow> nat \<Rightarrow> 's \<Rightarrow> 's res" where
  "removeUnfundedOffers V [] removed s = Ok s"
| "removeUnfundedOffers V (index # offers) removed s =
     (case peek_entry V \<lparr>kl_type = ltOFFER, kl_key = index\<rparr> s of
        (None, s) \<Rightarrow> removeUnfundedOffers V offers removed s
      | (Some sleOffer, s) \<Rightarrow>
          rbind (offerDelete V (Some sleOffer) s) (\<lambda>(_, s).
          if Suc removed = 1000 then Ok s else removeUnfundedOffers V offers (Suc removed) s))"

text \<open>
  The context of an application: a sandbox over the open view. \<open>discard\<close> starts a new one, \<open>commit\<close> applies it to the
  open view.
\<close>

type_synonym open_table = "Fields DirPage RawStateTable"

definition ctx_env :: "Ctx \<Rightarrow> reader \<Rightarrow> open_table \<Rightarrow> sandbox Env" where
  "ctx_env c base o' = sandbox_env (x_sha c) (open_view o' base) (x_open c) (x_reserve c) (x_increment c) (x_parentCloseTime c)"

definition discard :: sandbox where
  "discard = (apply_empty, [], [])"

definition commit :: "sandbox \<Rightarrow> open_table \<Rightarrow> open_table res" where
  "commit s o' = apply_table (fst s) open_raw o'"

definition claim_fee :: "sandbox Env \<Rightarrow> Ctx \<Rightarrow> int \<Rightarrow> key list \<Rightarrow> (int \<times> sandbox) res" where
  "claim_fee V c fee removedOffers =
     rbind (deref (peek_entry V (keylet_account (env_sha V) (tx_Account (x_tx c))) discard)) (\<lambda>(txnAcct, s).
     rbind (xrp (sfBalance (flds (snd txnAcct)))) (\<lambda>balance.
     rbind (require (drops balance \<noteq> 0 \<and> (\<not> x_open c \<or> drops balance \<ge> fee)) AssertFailed) (\<lambda>_.
     let fee = (if fee > drops balance then drops balance else fee) in
     rbind (drops_amount (drops balance - fee)) (\<lambda>b.
     rbind (update_entry V (\<lambda>f. f\<lparr>sfBalance := b, sfSequence := tx_Sequence (x_tx c) + 1\<rparr>) txnAcct s) (\<lambda>s.
     rbind (removeUnfundedOffers V removedOffers 0 s) (\<lambda>s.
     Ok (fee, s)))))))"

definition finish :: "Ctx \<Rightarrow> TER \<Rightarrow> int \<Rightarrow> sandbox \<Rightarrow> open_table \<Rightarrow> (TER \<times> bool \<times> open_table) res" where
  "finish c terResult fee s o' =
     rbind (if \<not> x_open c \<and> fee < 0 then Throw (LogicError ''amount is negative!'')
            else if \<not> x_open c \<and> fee \<noteq> 0 then Ok (apply_destroyXRP fee (fst s), snd s) else Ok s) (\<lambda>s.
     rbind (commit s o') (\<lambda>o'. Ok (terResult, True, o')))"

text \<open>\<open>Transactor::operator ()\<close>.\<close>

definition transact :: "sandbox TxClass \<Rightarrow> Ctx \<Rightarrow> TER \<Rightarrow> u64 \<Rightarrow> reader \<Rightarrow> open_table \<Rightarrow> (TER \<times> bool \<times> open_table) res" where
  "transact T c preclaimResult baseFee base o' =
     (let V = ctx_env c base o' in
      rbind (if preclaimResult = tesSUCCESS then transactor_apply T V c baseFee discard else Ok (preclaimResult, discard)) (\<lambda>(terResult, s).
      rbind (require (terResult \<noteq> temUNKNOWN) AssertFailed) (\<lambda>_.
      rbind (if tx_Type (x_tx c) = ttRING_DEPOSIT then Ok 0 else rbind (xrp (tx_Fee (x_tx c))) (\<lambda>x. Ok (drops x))) (\<lambda>fee.
      let didApply = isTesSuccess terResult;
          terResult = (if apply_size (fst s) > 5200 then tecOVERSIZE else terResult)
      in if terResult = tecOVERSIZE \<or> isTecClaim terResult \<and> \<not> has_flag (x_flags c) tapRETRY then
           rbind (if terResult = tecOVERSIZE then removed_offers (visit (open_view o' base) (fst s)) else Ok []) (\<lambda>removedOffers.
           rbind (claim_fee V c fee removedOffers) (\<lambda>(fee, s).
           finish c terResult fee s o'))
         else if didApply then finish c terResult fee s o'
         else Ok (terResult, False, o')))))"

section \<open>The steps of an application\<close>

definition try_ter :: "'a \<Rightarrow> 'a res \<Rightarrow> 'a res" where
  "try_ter d r = (case r of Inl e \<Rightarrow> if is_std_exception e then Ok d else Throw e | Inr x \<Rightarrow> Ok x)"

definition invoke_preclaim :: "'s TxClass \<Rightarrow> Ctx \<Rightarrow> reader \<Rightarrow> (TER \<times> u64) res" where
  "invoke_preclaim T c rd =
     (let baseFee = cl_calculateBaseFee T c rd in
      if tx_Account (x_tx c) \<noteq> 0 then
        rbind (checkSeq c rd) (\<lambda>result. if result \<noteq> tesSUCCESS then Ok (result, baseFee) else
        rbind (checkFee c rd baseFee) (\<lambda>result. if result \<noteq> tesSUCCESS then Ok (result, baseFee) else
        rbind (checkSign c rd) (\<lambda>result. if result \<noteq> tesSUCCESS then Ok (result, baseFee) else
        rbind (cl_preclaim T c rd) (\<lambda>result. Ok (result, baseFee)))))
      else Ok (tesSUCCESS, baseFee))"

definition tx_preflight :: "'s TxClass \<Rightarrow> Ctx \<Rightarrow> router \<Rightarrow> (TER \<times> router) res" where
  "tx_preflight T c r = try_ter (tefEXCEPTION, r) (cl_preflight T c r)"

definition tx_preclaim :: "'s TxClass \<Rightarrow> Ctx \<Rightarrow> TER \<Rightarrow> reader \<Rightarrow> (TER \<times> u64) res" where
  "tx_preclaim T c preflightResult rd =
     try_ter (tefEXCEPTION, 0) (if preflightResult \<noteq> tesSUCCESS then Ok (preflightResult, 0) else invoke_preclaim T c rd)"

definition tx_doApply :: "sandbox TxClass \<Rightarrow> Ctx \<Rightarrow> TER \<Rightarrow> u64 \<Rightarrow> reader \<Rightarrow> open_table \<Rightarrow> (TER \<times> bool \<times> open_table) res" where
  "tx_doApply T c ter baseFee base o' =
     try_ter (tefEXCEPTION, False, o')
       (if \<not> (ter = tesSUCCESS \<or> isTecClaim ter) then Ok (ter, False, o')
        else if x_txExists c (tx_ID (x_tx c)) then Ok (tefALREADY, False, o')
        else transact T c ter baseFee base o')"

text \<open>\<open>apply\<close>: the three steps, all against the same view.\<close>

definition tx_apply :: "sandbox TxClass \<Rightarrow> Ctx \<Rightarrow> reader \<Rightarrow> open_table \<Rightarrow> router \<Rightarrow> (TER \<times> bool \<times> open_table \<times> router) res" where
  "tx_apply T c base o' r =
     rbind (tx_preflight T c r) (\<lambda>(pf, r).
     rbind (tx_preclaim T c pf (open_view o' base)) (\<lambda>(pc, baseFee).
     rbind (tx_doApply T c pc baseFee base o') (\<lambda>(ter, didApply, o'). Ok (ter, didApply, o', r))))"

end
