(* ===== verification/Transactors.thy ===== *)
theory Transactors
  imports TrustLines Transactor
begin

unbundle bit_operations_syntax

text \<open>
  Classes of transactions (\<open>app/tx/impl\<close>): \<open>AddReferee\<close>, \<open>ActiveAccount\<close>, \<open>CancelOffer\<close>, \<open>CreateTicket\<close>, \<open>CancelTicket\<close>,
  \<open>SetRegularKey\<close>, \<open>SetSignerList\<close>, \<open>IssueAsset\<close>, \<open>AssetRelease\<close> and \<open>SetTrust\<close>, each as its checks and its \<open>doApply\<close>
  over the entry functions of \<open>LedgerEntries\<close> and \<open>TrustLines\<close>. \<open>tx_class\<close> is the choice of \<open>applySteps.cpp\<close>.
\<close>

definition tfUniversalMask :: u32 where "tfUniversalMask = NOT 0x80000000"
definition tfSetfAuth :: u32 where "tfSetfAuth = 0x00010000"
definition tfSetNoRipple :: u32 where "tfSetNoRipple = 0x00020000"
definition tfClearNoRipple :: u32 where "tfClearNoRipple = 0x00040000"
definition tfSetFreeze :: u32 where "tfSetFreeze = 0x00100000"
definition tfClearFreeze :: u32 where "tfClearFreeze = 0x00200000"
definition tfTrustSetMask :: u32 where
  "tfTrustSetMask = NOT (0x80000000 OR tfSetfAuth OR tfSetNoRipple OR tfClearNoRipple OR tfSetFreeze OR tfClearFreeze)"

definition badCurrency :: Currency where "badCurrency = 0x5652500000000000"

text \<open>A class that overrides nothing but the checks and \<open>doApply\<close>.\<close>

definition plain_class :: "Checks \<Rightarrow> (Ctx \<Rightarrow> TER res) \<Rightarrow> (Ctx \<Rightarrow> reader \<Rightarrow> TER res) \<Rightarrow>
    ('s Env \<Rightarrow> Ctx \<Rightarrow> TxState \<Rightarrow> 's \<Rightarrow> (TER \<times> 's) res) \<Rightarrow> 's TxClass" where
  "plain_class k pf pc ap = \<lparr>cl_preflight = preflight_with k pf, cl_calculateBaseFee = calculateBaseFee, cl_preclaim = pc,
     cl_preCompute = preCompute, cl_doApply = ap\<rparr>"

definition no_preclaim :: "Ctx \<Rightarrow> reader \<Rightarrow> TER res" where
  "no_preclaim c rd = Ok tesSUCCESS"

section \<open>Referees\<close>

definition AddReferee_preflight :: "Ctx \<Rightarrow> TER res" where
  "AddReferee_preflight c =
     Ok (if tx_Destination (x_tx c) = 0 then temDST_NEEDED
         else if tx_Account (x_tx c) = tx_Destination (x_tx c) then temDST_IS_SRC else tesSUCCESS)"

definition AddReferee_doApply :: "'s Env \<Rightarrow> Ctx \<Rightarrow> TxState \<Rightarrow> 's \<Rightarrow> (TER \<times> 's) res" where
  "AddReferee_doApply V c t s = addRefer V (tx_Destination (x_tx c)) (t_account t) s"

section \<open>Activation of accounts\<close>

definition max_source_amount :: "AccountID \<Rightarrow> STAmount \<Rightarrow> STAmount res" where
  "max_source_amount acc saDstAmount =
     (if mIsNative saDstAmount then Ok saDstAmount
      else STAmount_canonical \<lparr>currency = currency (mIssue saDstAmount), account = acc\<rparr> (mValue saDstAmount) (mOffset saDstAmount)
        (signum saDstAmount < 0))"

definition ActiveAccount_preflight :: "Ctx \<Rightarrow> TER res" where
  "ActiveAccount_preflight c =
     (let tx = x_tx c; saDstAmount = tx_Amount tx; acc = tx_Account tx; uDstAccountID = tx_Reference tx in
      if tx_hasPaths tx then Ok temBAD_SEND_XRP_PATHS
      else if tx_hasSendMax tx then Ok temBAD_SEND_XRP_MAX
      else rbind (max_source_amount acc saDstAmount) (\<lambda>maxSourceAmount.
        let uSrcCurrency = currency (mIssue maxSourceAmount); uDstCurrency = currency (mIssue saDstAmount) in
        Ok (if \<not> isLegalNet saDstAmount \<or> \<not> isLegalNet maxSourceAmount then temBAD_AMOUNT
            else if uDstAccountID = 0 then temDST_NEEDED
            else if tx_Referee tx = 0 then temDST_NEEDED
            else if uDstAccountID = tx_Referee tx then temDST_IS_SRC
            else if signum maxSourceAmount < 0 then temBAD_AMOUNT
            else if signum saDstAmount < 0 then temBAD_AMOUNT
            else if badCurrency = uSrcCurrency \<or> badCurrency = uDstCurrency then temBAD_CURRENCY
            else if acc = uDstAccountID \<and> uSrcCurrency = uDstCurrency then temREDUNDANT
            else if assetCurrency = uDstCurrency \<or> assetCurrency = uSrcCurrency then temBAD_CURRENCY
            else tesSUCCESS)))"

definition ActiveAccount_preclaim :: "Ctx \<Rightarrow> reader \<Rightarrow> TER res" where
  "ActiveAccount_preclaim c rd =
     (let saDstAmount = tx_Amount (x_tx c) in
      if v_exists rd (keylet_account (x_sha c) (tx_Reference (x_tx c))) then Ok tefCREATED
      else if \<not> mIsNative saDstAmount then Ok tecNO_DST
      else
        rbind (drops_amount (fees_reserve c 0)) (\<lambda>r.
        rbind (less_amount saDstAmount r) (\<lambda>b. Ok (if b then tecNO_DST_INSUF_XRP else tesSUCCESS))))"

text \<open>
  The function \<open>transfer\<close> of \<open>doApply\<close>, which leaves a result; \<open>sle\<close> is the sender's entry as it is now. An amount of
  XRP is taken off \<open>mSourceBalance\<close>, the balance before any transfer. Both entries are already changed in the sandbox, the
  sender's by \<open>apply\<close> and the new one by its insertion (\<open>preclaim\<close> refuses an account that exists), so that an edit
  through the pointer is an update.
\<close>

definition activation_transfer :: "'s Env \<Rightarrow> TxState \<Rightarrow> int \<Rightarrow> AccountID \<Rightarrow> STAmount \<Rightarrow> 's \<Rightarrow> (TER \<times> 's) res" where
  "activation_transfer V t mmm dst saDstAmount s =
     (let isVBCTransaction = isVBC saDstAmount; acc = keylet_account (env_sha V) (t_account t) in
      rbind (deref (peek_entry V acc s)) (\<lambda>(sle, s).
      rbind (if isVBCTransaction then Ok 0 else rbind (xrp saDstAmount) (\<lambda>x. Ok (drops x))) (\<lambda>d.
      rbind (if t_PriorBalance t < d + mmm then Ok True
             else if isVBCTransaction then less_amount (sfBalanceVBC (flds (snd sle))) saDstAmount else Ok False) (\<lambda>unfunded.
      if unfunded then Ok (tecUNFUNDED_PAYMENT, s)
      else
        rbind (if isVBCTransaction then minus_amount (sfBalanceVBC (flds (snd sle))) saDstAmount
               else rbind (drops_amount (t_SourceBalance t)) (\<lambda>b. minus_amount b saDstAmount)) (\<lambda>b.
        rbind (update_entry V (set_native_balance isVBCTransaction b) sle s) (\<lambda>s.
        rbind (deref (peek_entry V (keylet_account (env_sha V) dst) s)) (\<lambda>(sleDst, s).
        rbind (plus_amount (native_balance isVBCTransaction (flds (snd sleDst))) saDstAmount) (\<lambda>b.
        rbind (update_entry V (\<lambda>f. set_native_balance isVBCTransaction b (f\<lparr>sfFlags := sfFlags f AND NOT lsfPasswordSpent\<rparr>)) sleDst s) (\<lambda>s.
        Ok (tesSUCCESS, s)))))))))) "

fun transfer_amounts :: "'s Env \<Rightarrow> TxState \<Rightarrow> int \<Rightarrow> AccountID \<Rightarrow> STAmount list \<Rightarrow> TER \<Rightarrow> 's \<Rightarrow> (TER \<times> 's) res" where
  "transfer_amounts V t mmm dst [] terResult s = Ok (terResult, s)"
| "transfer_amounts V t mmm dst (a # l) terResult s =
     (if \<not> mIsNative a then Ok (temBAD_CURRENCY, s)
      else rbind (activation_transfer V t mmm dst a s) (\<lambda>(terResult, s). transfer_amounts V t mmm dst l terResult s))"

definition set_limit :: "'s Env \<Rightarrow> AccountID \<Rightarrow> TxLimit \<Rightarrow> 's \<Rightarrow> (TER \<times> 's) res" where
  "set_limit V dstAccountID l s =
     (let saLimitAmount = tl_LimitAmount l; cur = currency (mIssue saLimitAmount); uDstAccountID = account (mIssue saLimitAmount);
          index = getRippleStateIndex (env_sha V) dstAccountID uDstAccountID cur
      in if env_exists V \<lparr>kl_type = ltRIPPLE_STATE, kl_key = index\<rparr> s then Ok (tefEXCEPTION, s)
      else
        let bHigh = dstAccountID > uDstAccountID;
            uQualityIn = (case tl_QualityIn l of None \<Rightarrow> 0 | Some q \<Rightarrow> q);
            uQualityOut = (case tl_QualityOut l of None \<Rightarrow> 0 | Some q \<Rightarrow> if q = QUALITY_ONE_u32 then 0 else q);
            uTxFlags = tl_Flags l
        in rbind (STAmount_canonical \<lparr>currency = cur, account = noAccount\<rparr> 0 0 False) (\<lambda>saBalance.
           rbind (deref (peek_entry V (keylet_account (env_sha V) dstAccountID) s)) (\<lambda>(sleDst, s).
           trustCreate V bHigh dstAccountID uDstAccountID index (Some sleDst) (has_flag uTxFlags tfSetfAuth)
             (has_flag uTxFlags tfSetNoRipple \<and> \<not> has_flag uTxFlags tfClearNoRipple)
             (has_flag uTxFlags tfSetFreeze \<and> \<not> has_flag uTxFlags tfClearFreeze)
             saBalance (setIssuer dstAccountID saLimitAmount) uQualityIn uQualityOut s)))"

fun set_limits :: "'s Env \<Rightarrow> AccountID \<Rightarrow> TxLimit list \<Rightarrow> TER \<Rightarrow> 's \<Rightarrow> (TER \<times> 's) res" where
  "set_limits V dst [] terResult s = Ok (terResult, s)"
| "set_limits V dst (l # ls) terResult s =
     rbind (set_limit V dst l s) (\<lambda>(terResult, s). if terResult \<noteq> tesSUCCESS then Ok (terResult, s) else set_limits V dst ls terResult s)"

definition ActiveAccount_doApply :: "'s Env \<Rightarrow> Ctx \<Rightarrow> TxState \<Rightarrow> 's \<Rightarrow> (TER \<times> 's) res" where
  "ActiveAccount_doApply V c t s =
     (let tx = x_tx c; dst = tx_Reference tx; saDstAmount = tx_Amount tx; k = keylet_account (env_sha V) dst in
      rbind (max_source_amount (t_account t) saDstAmount) (\<lambda>_.
      let (sleDst, s) = peek_entry V k s in
      rbind (if sleDst = None then av_insert (env_av V) (edit_fields (\<lambda>f. f\<lparr>sfAccount := dst, sfSequence := 1\<rparr>) (make_entry k)) s else Ok s) (\<lambda>s.
      rbind (require (mIsNative saDstAmount) AssertFailed) (\<lambda>_.
      rbind (read_deref (env_read V (keylet_account (env_sha V) (t_account t)) s)) (\<lambda>f.
      rbind (xrp (tx_Fee tx)) (\<lambda>fee.
      let reserve = fees_reserve c (ucast (sfOwnerCount f)); mmm = (if reserve < drops fee then drops fee else reserve) in
      rbind (activation_transfer V t mmm dst saDstAmount s) (\<lambda>(terResult, s).
      rbind (if terResult = tesSUCCESS then transfer_amounts V t mmm dst (case tx_Amounts tx of None \<Rightarrow> [] | Some l \<Rightarrow> l) terResult s
             else Ok (terResult, s)) (\<lambda>(terResult, s).
      rbind (if terResult = tesSUCCESS then set_limits V dst (case tx_Limits tx of None \<Rightarrow> [] | Some l \<Rightarrow> l) terResult s
             else Ok (terResult, s)) (\<lambda>(terResult, s).
      if terResult = tesSUCCESS then addRefer V (tx_Referee tx) dst s else Ok (terResult, s))))))))))"

section \<open>Offers and tickets\<close>

definition CancelOffer_preflight :: "Ctx \<Rightarrow> TER res" where
  "CancelOffer_preflight c =
     Ok (if has_flag (tx_Flags (x_tx c)) tfUniversalMask then temINVALID_FLAG
         else if tx_OfferSequence (x_tx c) = 0 then temBAD_SEQUENCE else tesSUCCESS)"

definition CancelOffer_preclaim :: "Ctx \<Rightarrow> reader \<Rightarrow> TER res" where
  "CancelOffer_preclaim c rd =
     rbind (read_deref (read_account c rd (tx_Account (x_tx c)))) (\<lambda>f.
     Ok (if sfSequence f \<le> tx_OfferSequence (x_tx c) then temBAD_SEQUENCE else tesSUCCESS))"

definition CancelOffer_doApply :: "'s Env \<Rightarrow> Ctx \<Rightarrow> TxState \<Rightarrow> 's \<Rightarrow> (TER \<times> 's) res" where
  "CancelOffer_doApply V c t s =
     (case peek_entry V (keylet_offer (env_sha V) (t_account t) (tx_OfferSequence (x_tx c))) s of
        (Some sleOffer, s) \<Rightarrow> offerDelete V (Some sleOffer) s
      | (None, s) \<Rightarrow> Ok (tesSUCCESS, s))"

text \<open>Tickets are disabled unless testing is enabled.\<close>

definition tickets_preflight :: "Checks \<Rightarrow> (Ctx \<Rightarrow> TER res) \<Rightarrow> Ctx \<Rightarrow> router \<Rightarrow> (TER \<times> router) res" where
  "tickets_preflight k f c r = (if \<not> has_flag (x_flags c) tapENABLE_TESTING then Ok (temDISABLED, r) else preflight_with k f c r)"

definition CreateTicket_preflight :: "Ctx \<Rightarrow> TER res" where
  "CreateTicket_preflight c = Ok (if tx_Expiration (x_tx c) = Some 0 then temBAD_EXPIRATION else tesSUCCESS)"

definition CreateTicket_doApply :: "'s Env \<Rightarrow> Ctx \<Rightarrow> TxState \<Rightarrow> 's \<Rightarrow> (TER \<times> 's) res" where
  "CreateTicket_doApply V c t s =
     rbind (deref (peek_entry V (keylet_account (env_sha V) (t_account t)) s)) (\<lambda>(sle, s).
     if t_PriorBalance t < fees_reserve c (ucast (sfOwnerCount (flds (snd sle)) + 1)) then Ok (tecINSUFFICIENT_RESERVE, s)
     else
       let expiration = (case tx_Expiration (x_tx c) of None \<Rightarrow> 0 | Some e \<Rightarrow> e);
           k = keylet_ticket (env_sha V) (t_account t) (tx_Sequence (x_tx c))
       in if tx_Expiration (x_tx c) \<noteq> None \<and> x_parentCloseTime c \<ge> expiration then Ok (tesSUCCESS, s)
       else
         rbind (av_insert (env_av V) (edit_fields (\<lambda>f. f\<lparr>sfAccount := t_account t, sfSequence := tx_Sequence (x_tx c),
             sfExpiration := if expiration \<noteq> 0 then Some expiration else None\<rparr>) (make_entry k)) s) (\<lambda>s.
         rbind (case tx_Target (x_tx c) of
             None \<Rightarrow> Ok (False, s)
           | Some target \<Rightarrow>
               (case peek_entry V (keylet_account (env_sha V) target) s of
                  (None, s) \<Rightarrow> Ok (True, s)
                | (Some _, s) \<Rightarrow>
                    if target \<noteq> t_account t then
                      rbind (deref (peek_entry V k s)) (\<lambda>(sleTicket, s).
                      rbind (update_entry V (\<lambda>f. f\<lparr>sfTarget := Some target\<rparr>) sleTicket s) (\<lambda>s. Ok (False, s)))
                    else Ok (False, s))) (\<lambda>(no_target, s).
         if no_target then Ok (tecNO_TARGET, s)
         else
           rbind (add_owner V (t_account t) (kl_key k) s) (\<lambda>(result, hint, s).
           if result \<noteq> tesSUCCESS then Ok (result, s)
           else
             rbind (deref (peek_entry V k s)) (\<lambda>(sleTicket, s).
             rbind (update_entry V (\<lambda>f. f\<lparr>sfOwnerNode := Some hint\<rparr>) sleTicket s) (\<lambda>s.
             rbind (again V sle s) (\<lambda>(sle, s).
             rbind (adjustOwnerCount V sle 1 s) (\<lambda>s.
             Ok (result, s)))))))))"

definition CancelTicket_doApply :: "'s Env \<Rightarrow> Ctx \<Rightarrow> TxState \<Rightarrow> 's \<Rightarrow> (TER \<times> 's) res" where
  "CancelTicket_doApply V c t s =
     (case peek_entry V \<lparr>kl_type = ltTICKET, kl_key = tx_TicketID (x_tx c)\<rparr> s of
        (None, s) \<Rightarrow> Ok (tecNO_ENTRY, s)
      | (Some sleTicket, s) \<Rightarrow>
          let f = flds (snd sleTicket); ticket_owner = sfAccount f;
              authorized = (t_account t = ticket_owner \<or> sfTarget f = Some (t_account t) \<or>
                (case sfExpiration f of None \<Rightarrow> False | Some expiration \<Rightarrow> x_parentCloseTime c \<ge> expiration))
          in if \<not> authorized then Ok (tecNO_PERMISSION, s)
          else
            let hint = node_of (sfOwnerNode f) in
            rbind (delete_owner V hint ticket_owner (tx_TicketID (x_tx c)) False (hint = 0) s) (\<lambda>(result, s).
            rbind (deref (peek_entry V (keylet_account (env_sha V) ticket_owner) s)) (\<lambda>(owner, s).
            rbind (adjustOwnerCount V owner (-1) s) (\<lambda>s.
            rbind (av_erase (env_av V) sleTicket s) (\<lambda>s.
            Ok (result, s))))))"

section \<open>Keys\<close>

definition SetRegularKey_calculateBaseFee :: "Ctx \<Rightarrow> reader \<Rightarrow> u64" where
  "SetRegularKey_calculateBaseFee c rd =
     (let acc = tx_Account (x_tx c) in
      case read_account c rd acc of
        None \<Rightarrow> calculateBaseFee c rd
      | Some sle \<Rightarrow>
          if \<not> has_flag (sfFlags (flds sle)) lsfPasswordSpent \<and> x_calcAccountID c (tx_SigningPubKey (x_tx c)) = acc then 0
          else calculateBaseFee c rd)"

definition SetRegularKey_preflight :: "Ctx \<Rightarrow> TER res" where
  "SetRegularKey_preflight c = Ok (if has_flag (tx_Flags (x_tx c)) tfUniversalMask then temINVALID_FLAG else tesSUCCESS)"

definition SetRegularKey_doApply :: "'s Env \<Rightarrow> Ctx \<Rightarrow> TxState \<Rightarrow> 's \<Rightarrow> (TER \<times> 's) res" where
  "SetRegularKey_doApply V c t s =
     (let k = keylet_account (env_sha V) (t_account t) in
      rbind (deref (peek_entry V k s)) (\<lambda>(sle, s).
      rbind (if t_FeeDue t = 0 then update_entry V (\<lambda>f. f\<lparr>sfFlags := sfFlags f OR lsfPasswordSpent\<rparr>) sle s else Ok s) (\<lambda>s.
      rbind (again V sle s) (\<lambda>(sle, s).
      case tx_RegularKey (x_tx c) of
        Some a \<Rightarrow> rbind (update_entry V (\<lambda>f. f\<lparr>sfRegularKey := Some a\<rparr>) sle s) (\<lambda>s. Ok (tesSUCCESS, s))
      | None \<Rightarrow>
          let (signers, s) = (if isFlag (snd sle) lsfDisableMaster then peek_entry V (keylet_signers (env_sha V) (t_account t)) s else (None, s)) in
          if isFlag (snd sle) lsfDisableMaster \<and> signers = None then Ok (tecNO_ALTERNATIVE_KEY, s)
          else
            rbind (again V sle s) (\<lambda>(sle, s).
            rbind (update_entry V (\<lambda>f. f\<lparr>sfRegularKey := None\<rparr>) sle s) (\<lambda>s. Ok (tesSUCCESS, s)))))))"

datatype SignerListOp = unknown | set_list | destroy_list

definition minMultiSigners :: nat where "minMultiSigners = 1"
definition maxMultiSigners :: nat where "maxMultiSigners = 8"

definition determineOperation :: "STTx \<Rightarrow> TER \<times> u32 \<times> signer list \<times> SignerListOp" where
  "determineOperation tx =
     (let quorum = tx_SignerQuorum tx; hasSignerEntries = (tx_SignerEntries tx \<noteq> None) in
      if quorum \<noteq> 0 \<and> hasSignerEntries then
        (case deserialize (tx_SignerEntries tx) of (signers, ter) \<Rightarrow>
           if ter \<noteq> tesSUCCESS then (ter, quorum, [], unknown) else (tesSUCCESS, quorum, sort_key fst signers, set_list))
      else (tesSUCCESS, quorum, [], if quorum = 0 \<and> \<not> hasSignerEntries then destroy_list else unknown))"

fun weights_result :: "AccountID \<Rightarrow> signer list \<Rightarrow> u64 \<Rightarrow> TER \<times> u64" where
  "weights_result acc [] allSignersWeight = (tesSUCCESS, allSignersWeight)"
| "weights_result acc ((a, w) # l) allSignersWeight =
     (if w = 0 then (temBAD_WEIGHT, allSignersWeight)
      else if a = acc then (temBAD_SIGNER, allSignersWeight + ucast w)
      else weights_result acc l (allSignersWeight + ucast w))"

fun adjacent_equal :: "signer list \<Rightarrow> bool" where
  "adjacent_equal (x # y # l) \<longleftrightarrow> fst x = fst y \<or> adjacent_equal (y # l)"
| "adjacent_equal _ \<longleftrightarrow> False"

definition validateQuorumAndSignerEntries :: "u32 \<Rightarrow> signer list \<Rightarrow> AccountID \<Rightarrow> TER res" where
  "validateQuorumAndSignerEntries quorum signers acc =
     (if length signers < minMultiSigners \<or> length signers > maxMultiSigners then Ok temMALFORMED
      else rbind (require (sorted (map fst signers)) AssertFailed) (\<lambda>_.
        if adjacent_equal signers then Ok temBAD_SIGNER
        else case weights_result acc signers 0 of (ter, allSignersWeight) \<Rightarrow>
          if ter \<noteq> tesSUCCESS then Ok ter
          else Ok (if quorum = 0 \<or> allSignersWeight < ucast quorum then temBAD_QUORUM else tesSUCCESS)))"

definition SetSignerList_checks :: "Ctx \<Rightarrow> TER res" where
  "SetSignerList_checks c =
     (case determineOperation (x_tx c) of (ter, quorum, signers, op) \<Rightarrow>
        if ter \<noteq> tesSUCCESS then Ok ter
        else if op = unknown then Ok temMALFORMED
        else if op = set_list then validateQuorumAndSignerEntries quorum signers (tx_Account (x_tx c))
        else Ok tesSUCCESS)"

definition SetSignerList_preflight :: "Checks \<Rightarrow> Ctx \<Rightarrow> router \<Rightarrow> (TER \<times> router) res" where
  "SetSignerList_preflight k c r = (if \<not> allow_multi_sign c then Ok (temDISABLED, r) else preflight_with k SetSignerList_checks c r)"

definition SetSignerList_preCompute :: "Ctx \<Rightarrow> unit res" where
  "SetSignerList_preCompute c =
     (case determineOperation (x_tx c) of (ter, quorum, signers, op) \<Rightarrow>
        rbind (require (ter = tesSUCCESS) AssertFailed) (\<lambda>_.
        rbind (require (op \<noteq> unknown) AssertFailed) (\<lambda>_.
        preCompute c)))"

definition ownerCountDelta :: "nat \<Rightarrow> int res" where
  "ownerCountDelta entryCount =
     rbind (require (entryCount \<ge> minMultiSigners) AssertFailed) (\<lambda>_.
     rbind (require (entryCount \<le> maxMultiSigners) AssertFailed) (\<lambda>_.
     Ok (2 + int entryCount)))"

definition removeSignersFromLedger :: "'s Env \<Rightarrow> AccountID \<Rightarrow> 's \<Rightarrow> (TER \<times> 's) res" where
  "removeSignersFromLedger V acc s =
     (let k = keylet_signers (env_sha V) acc in
      case peek_entry V k s of
        (None, s) \<Rightarrow> Ok (tesSUCCESS, s)
      | (Some signers, s) \<Rightarrow>
          let f = flds (snd signers); hint = node_of (sfOwnerNode f) in
          rbind (ownerCountDelta (case sfSignerEntries f of None \<Rightarrow> 0 | Some l \<Rightarrow> length l)) (\<lambda>d.
          rbind (delete_owner V hint acc (kl_key k) False (hint = 0) s) (\<lambda>(result, s).
          rbind (if result = tesSUCCESS then
                   rbind (deref (peek_entry V (keylet_account (env_sha V) acc) s)) (\<lambda>(sle, s). adjustOwnerCount V sle (- d) s)
                 else Ok s) (\<lambda>s.
          rbind (av_erase (env_av V) signers s) (\<lambda>s.
          Ok (result, s))))))"

definition writeSignersToSLE :: "u32 \<Rightarrow> signer list \<Rightarrow> Fields \<Rightarrow> Fields" where
  "writeSignersToSLE quorum signers f =
     f\<lparr>sfSignerQuorum := quorum, sfSignerListID := Some 0, sfSignerEntries := Some (map (\<lambda>(a, w). (True, a, w)) signers)\<rparr>"

definition replaceSignerList :: "'s Env \<Rightarrow> Ctx \<Rightarrow> TxState \<Rightarrow> u32 \<Rightarrow> signer list \<Rightarrow> 's \<Rightarrow> (TER \<times> 's) res" where
  "replaceSignerList V c t quorum signers s =
     (let acc = t_account t; k = keylet_signers (env_sha V) acc in
      rbind (removeSignersFromLedger V acc s) (\<lambda>(ter, s).
      if ter \<noteq> tesSUCCESS then Ok (ter, s)
      else
        rbind (deref (peek_entry V (keylet_account (env_sha V) acc) s)) (\<lambda>(sle, s).
        rbind (ownerCountDelta (length signers)) (\<lambda>addedOwnerCount.
        if t_PriorBalance t < fees_reserve c (ucast (sfOwnerCount (flds (snd sle)) + word_of_int addedOwnerCount)) then Ok (tecINSUFFICIENT_RESERVE, s)
        else
          rbind (av_insert (env_av V) (edit_fields (writeSignersToSLE quorum signers) (make_entry k)) s) (\<lambda>s.
          rbind (add_owner V acc (kl_key k) s) (\<lambda>(result, hint, s).
          if result \<noteq> tesSUCCESS then Ok (result, s)
          else
            rbind (deref (peek_entry V k s)) (\<lambda>(signerList, s).
            rbind (update_entry V (\<lambda>f. f\<lparr>sfOwnerNode := Some hint\<rparr>) signerList s) (\<lambda>s.
            rbind (again V sle s) (\<lambda>(sle, s).
            rbind (adjustOwnerCount V sle addedOwnerCount s) (\<lambda>s.
            Ok (result, s)))))))))))"

definition destroySignerList :: "'s Env \<Rightarrow> TxState \<Rightarrow> 's \<Rightarrow> (TER \<times> 's) res" where
  "destroySignerList V t s =
     rbind (deref (peek_entry V (keylet_account (env_sha V) (t_account t)) s)) (\<lambda>(sle, s).
     if isFlag (snd sle) lsfDisableMaster \<and> sfRegularKey (flds (snd sle)) = None then Ok (tecNO_ALTERNATIVE_KEY, s)
     else removeSignersFromLedger V (t_account t) s)"

definition SetSignerList_doApply :: "'s Env \<Rightarrow> Ctx \<Rightarrow> TxState \<Rightarrow> 's \<Rightarrow> (TER \<times> 's) res" where
  "SetSignerList_doApply V c t s =
     (case determineOperation (x_tx c) of (ter, quorum, signers, op) \<Rightarrow>
        (case op of
           set_list \<Rightarrow> replaceSignerList V c t quorum signers s
         | destroy_list \<Rightarrow> destroySignerList V t s
         | unknown \<Rightarrow> Throw AssertFailed))"

section \<open>Assets\<close>

fun schedule_ok :: "(u32 \<times> u32) list \<Rightarrow> int \<Rightarrow> int \<Rightarrow> bool" where
  "schedule_ok [] lastExpiration lastReleaseRate \<longleftrightarrow> True"
| "schedule_ok ((expires, rate) # l) lastExpiration lastReleaseRate \<longleftrightarrow>
     \<not> (uint rate \<le> lastReleaseRate \<or> rate > QUALITY_ONE_u32) \<and>
     \<not> (rate = 0 \<and> expires \<noteq> 0) \<and>
     \<not> (uint expires \<le> lastExpiration \<or> expires mod ASSET_INTERVAL_MIN \<noteq> 0) \<and>
     schedule_ok l (uint expires) (uint rate)"

definition asset_amount_result :: "Ctx \<Rightarrow> TER" where
  "asset_amount_result c =
     (let saDstAmount = tx_Amount (x_tx c) in
      if signum saDstAmount \<le> 0 then temBAD_AMOUNT
      else if account (mIssue saDstAmount) \<noteq> tx_Account (x_tx c) then temBAD_ISSUER
      else if currency (mIssue saDstAmount) \<noteq> assetCurrency then temBAD_CURRENCY
      else tesSUCCESS)"

definition IssueAsset_preflight :: "Ctx \<Rightarrow> TER res" where
  "IssueAsset_preflight c =
     Ok (if tx_Destination (x_tx c) = 0 then temDST_NEEDED
         else if tx_Account (x_tx c) = tx_Destination (x_tx c) then temDST_IS_SRC
         else if asset_amount_result c \<noteq> tesSUCCESS then asset_amount_result c
         else if \<not> schedule_ok (tx_ReleaseSchedule (x_tx c)) (-1) (-1) then temBAD_RELEASE_SCHEDULE
         else tesSUCCESS)"

definition IssueAsset_preclaim :: "Ctx \<Rightarrow> reader \<Rightarrow> TER res" where
  "IssueAsset_preclaim c rd =
     Ok (if \<not> v_exists rd (keylet_account (x_sha c) (tx_Destination (x_tx c))) then tecNO_DST else tesSUCCESS)"

definition IssueAsset_doApply :: "'s Env \<Rightarrow> Ctx \<Rightarrow> TxState \<Rightarrow> 's \<Rightarrow> (TER \<times> 's) res" where
  "IssueAsset_doApply V c t s =
     (let uDstAccountID = tx_Destination (x_tx c); saDstAmount = tx_Amount (x_tx c);
          k = keylet_asset (env_sha V) (t_account t) (currency (mIssue saDstAmount))
      in case peek_entry V k s of
           (Some _, s) \<Rightarrow> Ok (tefCREATED, s)
         | (None, s) \<Rightarrow>
             rbind (av_insert (env_av V) (edit_fields (\<lambda>f. f\<lparr>sfAmount := saDstAmount, sfRegularKey := Some uDstAccountID,
                 sfReleaseSchedule := Some (tx_ReleaseSchedule (x_tx c))\<rparr>) (make_entry k)) s) (\<lambda>s.
             rippleCredit V (t_account t) uDstAccountID saDstAmount False s))"

definition AssetRelease_preflight :: "Ctx \<Rightarrow> TER res" where
  "AssetRelease_preflight c = Ok (asset_amount_result c)"

definition AssetRelease_doApply :: "'s Env \<Rightarrow> Ctx \<Rightarrow> TxState \<Rightarrow> 's \<Rightarrow> (TER \<times> 's) res" where
  "AssetRelease_doApply V c t s =
     (case peek_entry V (keylet_asset (env_sha V) (t_account t) (currency (mIssue (tx_Amount (x_tx c))))) s of
        (Some sleAsset, s) \<Rightarrow> rbind (update_entry V (\<lambda>f. f\<lparr>sfReleaseSchedule := Some []\<rparr>) sleAsset s) (\<lambda>s. Ok (tesSUCCESS, s))
      | (None, s) \<Rightarrow> Ok (tefFAILURE, s))"

section \<open>Trust lines\<close>

definition SetTrust_preflight :: "Ctx \<Rightarrow> TER res" where
  "SetTrust_preflight c =
     (let saLimitAmount = tl_LimitAmount (tx_Limit (x_tx c)); issuer = account (mIssue saLimitAmount) in
      Ok (if has_flag (tx_Flags (x_tx c)) tfTrustSetMask then temINVALID_FLAG
          else if \<not> isLegalNet saLimitAmount then temBAD_AMOUNT
          else if mIsNative saLimitAmount then temBAD_LIMIT
          else if badCurrency = currency (mIssue saLimitAmount) then temBAD_CURRENCY
          else if signum saLimitAmount < 0 then temBAD_LIMIT
          else if issuer = 0 \<or> issuer = noAccount then temDST_NEEDED
          else tesSUCCESS))"

definition SetTrust_preclaim :: "Ctx \<Rightarrow> reader \<Rightarrow> TER res" where
  "SetTrust_preclaim c rd =
     (let acc = tx_Account (x_tx c); issue = mIssue (tl_LimitAmount (tx_Limit (x_tx c))) in
      rbind (if has_flag (tx_Flags (x_tx c)) tfSetfAuth
             then rbind (read_deref (read_account c rd acc)) (\<lambda>f. Ok (\<not> has_flag (sfFlags f) lsfRequireAuth)) else Ok False) (\<lambda>not_required.
      Ok (if not_required then tefNO_AUTH_REQUIRED
          else if acc = account issue \<and> v_read rd (keylet_line (x_sha c) acc (account issue) (currency issue)) = None then temDST_IS_SRC
          else tesSUCCESS)))"

text \<open>
  The line with the new limit and qualities, its new flags, and whether the fields of a side ask for a reserve. A quality
  that is absent reads as zero, so to clear it is to set zero.
\<close>

definition set_side :: "bool \<Rightarrow> STAmount \<Rightarrow> u32 option \<Rightarrow> u32 option \<Rightarrow> Fields \<Rightarrow> Fields" where
  "set_side bHigh limit qIn qOut f =
     (let f = (if bHigh then f\<lparr>sfHighLimit := limit\<rparr> else f\<lparr>sfLowLimit := limit\<rparr>);
          f = (case qIn of None \<Rightarrow> f | Some q \<Rightarrow> if bHigh then f\<lparr>sfHighQualityIn := q\<rparr> else f\<lparr>sfLowQualityIn := q\<rparr>)
      in case qOut of None \<Rightarrow> f | Some q \<Rightarrow> if bHigh then f\<lparr>sfHighQualityOut := q\<rparr> else f\<lparr>sfLowQualityOut := q\<rparr>)"

definition new_flags :: "bool \<Rightarrow> u32 \<Rightarrow> bool \<Rightarrow> STAmount \<Rightarrow> u32 \<Rightarrow> u32" where
  "new_flags bHigh uTxFlags noFreeze balance uFlagsIn =
     (let bSetNoRipple = has_flag uTxFlags tfSetNoRipple; bClearNoRipple = has_flag uTxFlags tfClearNoRipple;
          bSetFreeze = has_flag uTxFlags tfSetFreeze; bClearFreeze = has_flag uTxFlags tfClearFreeze;
          noRipple = (if bHigh then lsfHighNoRipple else lsfLowNoRipple); freeze = (if bHigh then lsfHighFreeze else lsfLowFreeze);
          uFlagsOut = (if bSetNoRipple \<and> \<not> bClearNoRipple \<and> signum balance \<ge> 0 then uFlagsIn OR noRipple
            else if bClearNoRipple \<and> \<not> bSetNoRipple then uFlagsIn AND NOT noRipple else uFlagsIn)
      in if bSetFreeze \<and> \<not> bClearFreeze \<and> \<not> noFreeze then uFlagsOut OR freeze
         else if bClearFreeze \<and> \<not> bSetFreeze then uFlagsOut AND NOT freeze else uFlagsOut)"

definition quality_set :: "u32 \<Rightarrow> bool" where
  "quality_set q \<longleftrightarrow> q \<noteq> 0 \<and> q \<noteq> QUALITY_ONE_u32"

definition low_reserve :: "u32 \<Rightarrow> Fields \<Rightarrow> bool" where
  "low_reserve uFlagsOut f \<longleftrightarrow> quality_set (sfLowQualityIn f) \<or> quality_set (sfLowQualityOut f) \<or>
     has_flag uFlagsOut lsfLowFreeze \<or> \<not> is_zero (sfLowLimit f) \<or> signum (sfBalance f) > 0"

definition high_reserve :: "u32 \<Rightarrow> Fields \<Rightarrow> bool" where
  "high_reserve uFlagsOut f \<longleftrightarrow> quality_set (sfHighQualityIn f) \<or> quality_set (sfHighQualityOut f) \<or>
     has_flag uFlagsOut lsfHighFreeze \<or> \<not> is_zero (sfHighLimit f) \<or> signum (uminus_amount (sfBalance f)) > 0"

text \<open>The reserve of one side: the flag is set or cleared with the owner count; whether it was set.\<close>

definition adjust_side :: "'s Env \<Rightarrow> AccountID \<Rightarrow> u32 \<Rightarrow> bool \<Rightarrow> bool \<Rightarrow> u32 \<Rightarrow> 's \<Rightarrow> (bool \<times> u32 \<times> 's) res" where
  "adjust_side V acc flag reserveSet reserved uFlagsOut s =
     (if reserveSet \<and> \<not> reserved then
        rbind (deref (peek_entry V (keylet_account (env_sha V) acc) s)) (\<lambda>(sle, s).
        rbind (adjustOwnerCount V sle 1 s) (\<lambda>s. Ok (True, uFlagsOut OR flag, s)))
      else if \<not> reserveSet \<and> reserved then
        rbind (deref (peek_entry V (keylet_account (env_sha V) acc) s)) (\<lambda>(sle, s).
        rbind (adjustOwnerCount V sle (-1) s) (\<lambda>s. Ok (False, uFlagsOut AND NOT flag, s)))
      else Ok (False, uFlagsOut, s))"

text \<open>Whether there is an asset state between two accounts.\<close>

function has_asset_state :: "'s Env \<Rightarrow> uint256 \<Rightarrow> uint256 \<Rightarrow> 's \<Rightarrow> bool res" where
  "has_asset_state V end' assetStateIndex s =
     (if env_read V (keylet_asset_state assetStateIndex) s \<noteq> None then Ok True
      else case env_succ V assetStateIndex (Some end') s of
        None \<Rightarrow> Throw Diverges
      | Some None \<Rightarrow> Ok False
      | Some (Some k) \<Rightarrow> if k \<le> assetStateIndex then Throw Diverges else has_asset_state V end' k s)"
  by pat_completeness auto
termination
proof (relation "measure (\<lambda>(V, e, k, s). 2 ^ 256 - unat k)", goal_cases)
  case (2 V end' k0 s x k)
  then have "unat k0 < unat k" by (simp add: not_le word_less_nat_alt)
  moreover have "unat k < 2 ^ 256" using unsigned_less [of k, where ?'a = nat] by simp
  ultimately show ?case by (simp only: in_measure split_conv)
qed simp

declare has_asset_state.simps [simp del]

definition modify_line :: "'s Env \<Rightarrow> Ctx \<Rightarrow> TxState \<Rightarrow> int \<Rightarrow> u32 option \<Rightarrow> u32 option \<Rightarrow> entry_ref \<Rightarrow> entry_ref \<Rightarrow> 's \<Rightarrow> (TER \<times> 's) res" where
  "modify_line V c t reserveCreate qIn qOut sle line s =
     (let acc = t_account t; saLimitAmount = tl_LimitAmount (tx_Limit (x_tx c)); uDstAccountID = account (mIssue saLimitAmount);
          cur = currency (mIssue saLimitAmount); uTxFlags = tx_Flags (x_tx c); bHigh = acc > uDstAccountID;
          uLowAccountID = (if bHigh then uDstAccountID else acc); uHighAccountID = (if bHigh then acc else uDstAccountID);
          edit = set_side bHigh (setIssuer acc saLimitAmount) qIn qOut; f = edit (flds (snd line));
          saLowBalance = sfBalance f; saHighBalance = uminus_amount saLowBalance; uFlagsIn = sfFlags f;
          uFlagsOut = new_flags bHigh uTxFlags (isFlag (snd sle) lsfNoFreeze) (if bHigh then saHighBalance else saLowBalance) uFlagsIn;
          bLowReserveSet = low_reserve uFlagsOut f; bHighReserveSet = high_reserve uFlagsOut f;
          bClearNoRipple = has_flag uTxFlags tfClearNoRipple
      in if assetCurrency = cur \<and> \<not> bLowReserveSet \<and> bClearNoRipple \<and> signum saHighBalance \<le> 0 \<and> is_zero (sfHighLimit f) \<and>
            \<not> quality_set (sfHighQualityIn f) \<and> \<not> quality_set (sfHighQualityOut f) then
           let assetStateIndex = getQualityIndex (getAssetStateIndex (env_sha V) acc uDstAccountID cur) 0 in
           rbind (has_asset_state V (getQualityNext assetStateIndex) assetStateIndex s) (\<lambda>some_state.
           if some_state then Ok (temDISABLED, s)
           else
             rbind (adjustOwnerCount V sle (-1) s) (\<lambda>s.
             trustDelete V (fst line, edit_fields edit (snd line)) uLowAccountID uHighAccountID s))
         else if assetCurrency = cur \<and> bClearNoRipple then Ok (temDISABLED, s)
         else
           let uFlagsOut = (if has_flag uTxFlags tfSetfAuth then uFlagsOut OR (if bHigh then lsfHighAuth else lsfLowAuth) else uFlagsOut) in
           rbind (adjust_side V uLowAccountID lsfLowReserve bLowReserveSet (has_flag uFlagsIn lsfLowReserve) uFlagsOut s) (\<lambda>(lowIncrease, uFlagsOut, s).
           rbind (adjust_side V uHighAccountID lsfHighReserve bHighReserveSet (has_flag uFlagsIn lsfHighReserve) uFlagsOut s) (\<lambda>(highIncrease, uFlagsOut, s).
           let bReserveIncrease = (if bHigh then highIncrease else lowIncrease);
               line = (fst line, edit_fields (\<lambda>f. (edit f)\<lparr>sfFlags := uFlagsOut\<rparr>) (snd line))
           in if \<not> bLowReserveSet \<and> \<not> bHighReserveSet \<or> badCurrency = cur then trustDelete V line uLowAccountID uHighAccountID s
              else if bReserveIncrease \<and> t_PriorBalance t < reserveCreate then Ok (tecINSUF_RESERVE_LINE, s)
              else rbind (av_update (env_av V) line s) (\<lambda>s. Ok (tesSUCCESS, s)))))"

definition SetTrust_doApply :: "'s Env \<Rightarrow> Ctx \<Rightarrow> TxState \<Rightarrow> 's \<Rightarrow> (TER \<times> 's) res" where
  "SetTrust_doApply V c t s =
     (let acc = t_account t; limit = tx_Limit (x_tx c); saLimitAmount = tl_LimitAmount limit; uTxFlags = tx_Flags (x_tx c);
          cur = currency (mIssue saLimitAmount); uDstAccountID = account (mIssue saLimitAmount);
          qIn = tl_QualityIn limit; qOut = map_option (\<lambda>q. if q = QUALITY_ONE_u32 then 0 else q) (tl_QualityOut limit);
          uQualityIn = (case qIn of None \<Rightarrow> 0 | Some q \<Rightarrow> q); uQualityOut = (case qOut of None \<Rightarrow> 0 | Some q \<Rightarrow> q);
          bSetAuth = has_flag uTxFlags tfSetfAuth; bClearNoRipple = has_flag uTxFlags tfClearNoRipple
      in rbind (deref (peek_entry V (keylet_account (env_sha V) acc) s)) (\<lambda>(sle, s).
         let uOwnerCount = sfOwnerCount (flds (snd sle));
             reserveCreate = (if uOwnerCount < 2 then 0 else fees_reserve c (ucast (uOwnerCount + 1)))
         in if acc = uDstAccountID then
              rbind (deref (peek_entry V (keylet_line (env_sha V) acc uDstAccountID cur) s)) (\<lambda>(sleDelete, s).
              trustDelete V sleDelete acc uDstAccountID s)
            else case peek_entry V (keylet_account (env_sha V) uDstAccountID) s of
              (None, s) \<Rightarrow> Ok (tecNO_DST, s)
            | (Some _, s) \<Rightarrow>
                (case peek_entry V (keylet_line (env_sha V) acc uDstAccountID cur) s of
                   (Some sleRippleState, s) \<Rightarrow> modify_line V c t reserveCreate qIn qOut sle sleRippleState s
                 | (None, s) \<Rightarrow>
                     if is_zero saLimitAmount \<and> uQualityIn = 0 \<and> uQualityOut = 0 \<and>
                        (\<not> (has_flag (x_flags c) tapENABLE_TESTING \<or> x_trustSetAuth c) \<or> \<not> bSetAuth) then Ok (tecNO_LINE_REDUNDANT, s)
                     else if t_PriorBalance t < reserveCreate then Ok (tecNO_LINE_INSUF_RESERVE, s)
                     else if assetCurrency = cur \<and> bClearNoRipple then Ok (temDISABLED, s)
                     else
                       rbind (STAmount_canonical \<lparr>currency = cur, account = noAccount\<rparr> 0 0 False) (\<lambda>saBalance.
                       trustCreate V (acc > uDstAccountID) acc uDstAccountID (getRippleStateIndex (env_sha V) acc uDstAccountID cur) (Some sle)
                         bSetAuth (has_flag uTxFlags tfSetNoRipple \<and> \<not> bClearNoRipple)
                         (has_flag uTxFlags tfSetFreeze \<and> \<not> has_flag uTxFlags tfClearFreeze)
                         saBalance (setIssuer acc saLimitAmount) uQualityIn uQualityOut s))))"

section \<open>Dispatch\<close>

text \<open>The modelled classes; those of the other types of transactions are an argument.\<close>

definition tx_class :: "Checks \<Rightarrow> (TxType \<Rightarrow> 's TxClass) \<Rightarrow> TxType \<Rightarrow> 's TxClass" where
  "tx_class k others ty =
     (case ty of
        ttADDREFEREE \<Rightarrow> plain_class k AddReferee_preflight no_preclaim AddReferee_doApply
      | ttACTIVEACCOUNT \<Rightarrow> plain_class k ActiveAccount_preflight ActiveAccount_preclaim ActiveAccount_doApply
      | ttOFFER_CANCEL \<Rightarrow> plain_class k CancelOffer_preflight CancelOffer_preclaim CancelOffer_doApply
      | ttTICKET_CREATE \<Rightarrow> (plain_class k CreateTicket_preflight no_preclaim CreateTicket_doApply)\<lparr>cl_preflight := tickets_preflight k CreateTicket_preflight\<rparr>
      | ttTICKET_CANCEL \<Rightarrow> (plain_class k (\<lambda>_. Ok tesSUCCESS) no_preclaim CancelTicket_doApply)\<lparr>cl_preflight := tickets_preflight k (\<lambda>_. Ok tesSUCCESS)\<rparr>
      | ttREGULAR_KEY_SET \<Rightarrow> (plain_class k SetRegularKey_preflight no_preclaim SetRegularKey_doApply)\<lparr>cl_calculateBaseFee := SetRegularKey_calculateBaseFee\<rparr>
      | ttSIGNER_LIST_SET \<Rightarrow> (plain_class k SetSignerList_checks no_preclaim SetSignerList_doApply)
          \<lparr>cl_preflight := SetSignerList_preflight k, cl_preCompute := SetSignerList_preCompute\<rparr>
      | ttISSUE \<Rightarrow> plain_class k IssueAsset_preflight IssueAsset_preclaim IssueAsset_doApply
      | ttASSET_RELEASE \<Rightarrow> plain_class k AssetRelease_preflight no_preclaim AssetRelease_doApply
      | ttTRUST_SET \<Rightarrow> plain_class k SetTrust_preflight SetTrust_preclaim SetTrust_doApply
      | _ \<Rightarrow> others ty)"

end
