(* ===== verification/Transactor_Props.thy ===== *)
theory Transactor_Props
  imports Transactors
begin

unbundle bit_operations_syntax

text \<open>
  Properties of the frame of transactions: a transaction that fails only pays its fee, whatever its class did to the
  sandbox; the walk over the signers of a transaction is a check of all of them and of the sum of their weights; and the
  activation of an account with several amounts of XRP takes only the last of them from the sender.
\<close>

section \<open>Drops\<close>

lemma xrp_native:
  assumes "proper a" "mIsNative a"
  obtains d where "xrp a = Ok \<lparr>drops = d, xrp_isVBC = False\<rparr>" "of_int d = denote a" "\<bar>d\<bar> \<le> 100000000000000000"
    "mIsNegative a \<or> 0 \<le> d"
proof -
  have w: "mOffset a = 0" "unat (mValue a) \<le> 100000000000000000" using assms by (auto simp: proper_def wf_amount_def)
  then have s: "sint (mValue a) = int (unat (mValue a))" by (intro sint_small) simp
  define n where "n = unat (mValue a)"
  define d where "d = (if mIsNegative a then - int n else int n)"
  have "xrp a = Ok \<lparr>drops = d, xrp_isVBC = False\<rparr>" using assms(2) s unfolding n_def [symmetric] by (simp add: xrp_def d_def Let_def)
  moreover have "of_int d = denote a" using w(1) unfolding denote_def n_def [symmetric] by (simp add: d_def magnitude_def)
  moreover have "\<bar>d\<bar> \<le> 100000000000000000" using w(2) unfolding n_def [symmetric] by (simp add: d_def)
  moreover have "mIsNegative a \<or> 0 \<le> d" by (simp add: d_def)
  ultimately show ?thesis using that by blast
qed

lemma drops_amount_ok:
  assumes "\<bar>d\<bar> \<le> 100000000000000000"
  obtains b where "drops_amount d = Ok b" "proper b" "mIsNative b" "denote b = of_int d" "mIssue b = xrpIssue"
proof -
  let ?a = "\<lparr>mIssue = xrpIssue, mValue = word_of_int \<bar>d\<bar>, mOffset = 0, mIsNative = True, mIsNegative = d < 0\<rparr>"
  have u: "unat (word_of_int \<bar>d\<bar> :: u64) = nat \<bar>d\<bar>" using assms by (simp add: uint_word_of_int flip: nat_uint_eq)
  have z: "(word_of_int \<bar>d\<bar> :: u64) = 0 \<longleftrightarrow> d = 0" using u by (simp add: word_unat_eq_iff)
  have p: "proper ?a" using assms u z by (simp add: proper_def wf_amount_def isNative_def isXRP_def issue_defs)
  have "drops_amount d = canonicalize ?a" by (simp add: drops_amount_def STAmount_of_xrp_def abs_if)
  then have "drops_amount d = Ok ?a" using canonicalize_proper [OF p] by simp
  moreover have "denote ?a = (if d < 0 then - of_nat (nat \<bar>d\<bar>) else of_nat (nat \<bar>d\<bar>))"
    unfolding denote_def magnitude_def STAmount.simps u by simp
  then have "denote ?a = of_int d" by (simp add: abs_if)
  ultimately show ?thesis using that p by simp
qed

section \<open>Activation\<close>

lemma native_zero_offset: "isNative (STAmount_native v d) \<and> mOffset (STAmount_native v d) = 0"
  by (cases v) (simp_all add: STAmount_native_def set_mantissa_def isNative_alt native_issue_def issue_defs isNative_issue_def isNative_cur_def)

lemma plus_native_wf:
  assumes wf: "wf_amount a" "wf_amount b" and n: "mIsNative a" "mIsNative b"
    and m: "\<bar>denote a + denote b\<bar> \<le> 100000000000000000"
  shows "\<exists>c. plus_amount a b = Ok c \<and> wf_amount c \<and> mIsNative c \<and> isVBC c = isVBC a \<and> denote c = denote a + denote b"
proof -
  obtain c where c: "plus_amount a b = Ok c" "mIsNative c" "isVBC c = isVBC a" "denote c = denote a + denote b"
    using plus_native [OF wf n] by blast
  have na: "isNative a" "mOffset a = 0" "mOffset b = 0" "unat (mValue b) \<le> 100000000000000000" using wf n by (auto simp: wf_amount_def)
  have "isNative c \<and> mOffset c = 0"
  proof (cases "mValue b = 0")
    case True
    then have "c = a" using c(1) n by (simp add: plus_amount_def areComparable_def)
    then show ?thesis using na by simp
  next
    case b: False
    show ?thesis
    proof (cases "mValue a = 0")
      case True
      let ?b = "b\<lparr>mIssue := mIssue a, mIsNative := True\<rparr>"
      have "canonicalize \<lparr>mIssue = mIssue a, mValue = mValue b, mOffset = mOffset b, mIsNative = False, mIsNegative = mIsNegative b\<rparr> = Ok ?b"
        using na b by (cases b) (simp add: canonicalize_def canonicalize_native_def isNative_alt div10_up_to.simps
            mul10_down_to.simps Let_def amount_consts word_less_nat_alt)
      then have "c = ?b" using c(1) True b n by (simp add: plus_amount_def STAmount_canonical_def areComparable_def)
      then show ?thesis using na by (simp add: isNative_alt)
    next
      case False
      then obtain d where "c = STAmount_native (isVBC a) d" using c(1) b n by (auto simp: plus_amount_def areComparable_def)
      then show ?thesis by (simp add: native_zero_offset)
    qed
  qed
  moreover have "\<bar>denote c\<bar> = of_nat (unat (mValue c))" using calculation by (simp add: denote_def magnitude_def del: of_nat_unat)
  then have "unat (mValue c) \<le> 100000000000000000" using m c(4) by (metis of_nat_le_iff of_nat_numeral)
  ultimately show ?thesis using c by (auto simp: wf_amount_def)
qed

context ledger_env
begin

lemma account_ref:
  assumes "inv s" "account_of (env_sha V) (shows_map s) a = Some e"
  obtains p s' where "peek_entry V (keylet_account (env_sha V) a) s = (Some (p, e), s')" "inv s'" "shows_map s' = shows_map s"
    "handle s' (sle_key e) p" "sle_key e = getAccountRootIndex (env_sha V) a" "sle_type e = ltACCOUNT_ROOT"
proof -
  let ?k = "keylet_account (env_sha V) a"
  have t: "kl_type ?k > 0" "kl_type ?k = ltACCOUNT_ROOT" by (simp_all add: keylet_account_def ltACCOUNT_ROOT_def)
  obtain r s' where r: "peek_entry V ?k s = (r, s')" by fastforce
  note l = peek_ok [OF assms(1) t(1) r]
  obtain p where p: "r = Some (p, e)" using l(3) assms(2) by (auto simp: account_of_def)
  show ?thesis using that r p l(1,2) l(4,5) [OF p] t(2) by (simp add: keylet_account_def)
qed

lemma account_of_update:
  assumes "sle_type e = ltACCOUNT_ROOT" "sle_key e = getAccountRootIndex sha b"
  shows "account_of sha (m(sle_key e \<mapsto> edit_fields f e)) a =
    (if getAccountRootIndex sha a = getAccountRootIndex sha b then Some (edit_fields f e) else account_of sha m a)"
  using assms by (auto simp: account_of_def typed_entry_def keylet_account_def)

lemma activation_transfer_ok:
  assumes i: "inv s" and ne: "getAccountRootIndex (env_sha V) (t_account t) \<noteq> getAccountRootIndex (env_sha V) dst"
    and e: "account_of (env_sha V) (shows_map s) (t_account t) = Some e1" "account_of (env_sha V) (shows_map s) dst = Some e2"
    and a: "proper a" "mIsNative a" "\<not> isVBC a" "denote a + of_int mmm \<le> of_int (t_PriorBalance t)"
    and b: "\<bar>t_SourceBalance t\<bar> \<le> 100000000000000000" "wf_amount (sfBalance (flds e2))" "mIsNative (sfBalance (flds e2))"
      "\<bar>denote (sfBalance (flds e2)) + denote a\<bar> \<le> 100000000000000000"
  shows "\<exists>s' e1' e2'. activation_transfer V t mmm dst a s = Ok (tesSUCCESS, s') \<and> inv s' \<and>
    account_of (env_sha V) (shows_map s') (t_account t) = Some e1' \<and> account_of (env_sha V) (shows_map s') dst = Some e2' \<and>
    denote (sfBalance (flds e1')) = of_int (t_SourceBalance t) - denote a \<and> wf_amount (sfBalance (flds e2')) \<and> mIsNative (sfBalance (flds e2')) \<and>
    denote (sfBalance (flds e2')) = denote (sfBalance (flds e2)) + denote a"
proof -
  obtain d where d: "xrp a = Ok \<lparr>drops = d, xrp_isVBC = False\<rparr>" "of_int d = denote a" using xrp_native [OF a(1,2)] by blast
  have fund: "\<not> t_PriorBalance t < d + mmm" using a(4) d(2) by (metis not_less of_int_add of_int_le_iff)
  obtain sb where sb: "drops_amount (t_SourceBalance t) = Ok sb" "proper sb" "mIsNative sb" "denote sb = of_int (t_SourceBalance t)"
    using drops_amount_ok [OF b(1)] by metis
  obtain c1 where c1: "minus_amount sb a = Ok c1" "denote c1 = of_int (t_SourceBalance t) - denote a"
    using minus_native [OF sb(2) a(1) sb(3) a(2)] sb(4) by auto
  obtain c2 where c2: "plus_amount (sfBalance (flds e2)) a = Ok c2" "wf_amount c2" "mIsNative c2" "denote c2 = denote (sfBalance (flds e2)) + denote a"
    using plus_native_wf [OF b(2) _ b(3) a(2) b(4)] a(1) by (auto simp: proper_def)
  let ?f = "\<lambda>f. f\<lparr>sfBalance := c1\<rparr>" and ?g = "\<lambda>f. f\<lparr>sfFlags := sfFlags f AND NOT lsfPasswordSpent, sfBalance := c2\<rparr>"
  obtain p s1 where s1: "peek_entry V (keylet_account (env_sha V) (t_account t)) s = (Some (p, e1), s1)" "inv s1" "shows_map s1 = shows_map s"
    "handle s1 (sle_key e1) p" "sle_key e1 = getAccountRootIndex (env_sha V) (t_account t)" "sle_type e1 = ltACCOUNT_ROOT"
    by (rule account_ref [OF i e(1)])
  obtain s2 where s2: "update_entry V (set_native_balance False c1) (p, e1) s1 = Ok s2" "inv s2"
    "shows_map s2 = (shows_map s1)(sle_key e1 \<mapsto> edit_fields (set_native_balance False c1) e1)" by (rule update_ok [OF s1(2,4), where f = "set_native_balance False c1"]) (rule that)
  have "account_of (env_sha V) (shows_map s2) dst = Some e2" using s2(3) s1(3) e(2) ne account_of_update [OF s1(6,5)] by simp
  then obtain q s3 where s3: "peek_entry V (keylet_account (env_sha V) dst) s2 = (Some (q, e2), s3)" "inv s3" "shows_map s3 = shows_map s2"
    "handle s3 (sle_key e2) q" "sle_key e2 = getAccountRootIndex (env_sha V) dst" "sle_type e2 = ltACCOUNT_ROOT"
    by (rule account_ref [OF s2(2)])
  let ?g = "\<lambda>f. set_native_balance False c2 (f\<lparr>sfFlags := sfFlags f AND NOT lsfPasswordSpent\<rparr>)"
  obtain s4 where s4: "update_entry V ?g (q, e2) s3 = Ok s4" "inv s4"
    "shows_map s4 = (shows_map s3)(sle_key e2 \<mapsto> edit_fields ?g e2)" by (rule update_ok [OF s3(2,4), where f = ?g]) (rule that)
  have "activation_transfer V t mmm dst a s = Ok (tesSUCCESS, s4)"
    unfolding activation_transfer_def Let_def s1(1) deref_simps rbind.simps prod.case snd_conv using a(3) fund
    by (simp add: d(1) sb(1) c1(1) s2(1) s3(1) native_balance_def c2(1) s4(1))
  moreover have "account_of (env_sha V) (shows_map s4) (t_account t) = Some (edit_fields (set_native_balance False c1) e1)"
    "account_of (env_sha V) (shows_map s4) dst = Some (edit_fields ?g e2)"
    unfolding s4(3) s3(3) s2(3) using ne account_of_update [OF s3(6,5)] account_of_update [OF s1(6,5)] by simp_all
  ultimately show ?thesis using s4(2) c1(2) c2 by (auto simp: set_native_balance_def)
qed

lemma transfer_amounts_ok:
  assumes "inv s" "getAccountRootIndex (env_sha V) (t_account t) \<noteq> getAccountRootIndex (env_sha V) dst"
    "account_of (env_sha V) (shows_map s) (t_account t) = Some e1" "account_of (env_sha V) (shows_map s) dst = Some e2"
    "\<forall>a \<in> set l. proper a \<and> mIsNative a \<and> \<not> isVBC a \<and> 0 \<le> denote a \<and> denote a + of_int mmm \<le> of_int (t_PriorBalance t)"
    "\<bar>t_SourceBalance t\<bar> \<le> 100000000000000000" "wf_amount (sfBalance (flds e2))" "mIsNative (sfBalance (flds e2))"
    "0 \<le> denote (sfBalance (flds e2))" "denote (sfBalance (flds e2)) + sum_list (map denote l) \<le> 100000000000000000" "l \<noteq> []"
  shows "\<exists>s' e1' e2'. transfer_amounts V t mmm dst l ter s = Ok (tesSUCCESS, s') \<and> inv s' \<and>
    account_of (env_sha V) (shows_map s') (t_account t) = Some e1' \<and> account_of (env_sha V) (shows_map s') dst = Some e2' \<and>
    denote (sfBalance (flds e1')) = of_int (t_SourceBalance t) - denote (last l) \<and>
    denote (sfBalance (flds e2')) = denote (sfBalance (flds e2)) + sum_list (map denote l)"
  using assms
proof (induction l arbitrary: s e1 e2 ter)
  case (Cons a l)
  note p = Cons.prems
  have a: "proper a" "mIsNative a" "\<not> isVBC a" "0 \<le> denote a" "denote a + of_int mmm \<le> of_int (t_PriorBalance t)" using p(5) by simp_all
  have "0 \<le> sum_list (map denote l)" using p(5) by (intro sum_list_nonneg) auto
  then have bd: "\<bar>denote (sfBalance (flds e2)) + denote a\<bar> \<le> 100000000000000000" using p(9,10) a(4) by simp
  obtain s1 e1' e2' where s1: "activation_transfer V t mmm dst a s = Ok (tesSUCCESS, s1)" "inv s1"
    "account_of (env_sha V) (shows_map s1) (t_account t) = Some e1'" "account_of (env_sha V) (shows_map s1) dst = Some e2'"
    "denote (sfBalance (flds e1')) = of_int (t_SourceBalance t) - denote a" "wf_amount (sfBalance (flds e2'))" "mIsNative (sfBalance (flds e2'))"
    "denote (sfBalance (flds e2')) = denote (sfBalance (flds e2)) + denote a"
    using activation_transfer_ok [OF p(1-4) a(1-3,5) p(6-8) bd] by blast
  show ?case
  proof (cases "l = []")
    case True
    then show ?thesis using s1 a(2) by auto
  next
    case False
    have "\<forall>a \<in> set l. proper a \<and> mIsNative a \<and> \<not> isVBC a \<and> 0 \<le> denote a \<and> denote a + of_int mmm \<le> of_int (t_PriorBalance t)" using p(5) by simp
    from Cons.IH [OF s1(2) p(2) s1(3,4) this p(6) s1(6,7) _ _ False, of tesSUCCESS] show ?thesis
      using s1(1,8) a(2,4) p(9,10) False by (simp add: add.assoc)
  qed
qed simp

end

text \<open>
  C34. Activation with several amounts: the amounts of XRP that \<open>ActiveAccount\<close> sends to the new account are all added to its
  balance, but each is taken off the balance that the sender had before the first, so that the sender pays only the last one. All
  amounts but the last are created.
\<close>

theorem activation_takes_last_amount:
  assumes "read_view base m" "apply_consistent s m" "getAccountRootIndex sha (t_account t) \<noteq> getAccountRootIndex sha dst"
    "account_of sha (apply_overlay s m) (t_account t) = Some e1" "account_of sha (apply_overlay s m) dst = Some e2"
    "\<forall>a \<in> set l. proper a \<and> mIsNative a \<and> \<not> isVBC a \<and> 0 \<le> denote a \<and> denote a + of_int mmm \<le> of_int (t_PriorBalance t)"
    "\<bar>t_SourceBalance t\<bar> \<le> 100000000000000000" "wf_amount (sfBalance (flds e2))" "mIsNative (sfBalance (flds e2))"
    "0 \<le> denote (sfBalance (flds e2))" "denote (sfBalance (flds e2)) + sum_list (map denote l) \<le> 100000000000000000" "l \<noteq> []"
  shows "\<exists>s' c' e1' e2'. transfer_amounts (sandbox_env sha base op reserve increment pct) t mmm dst l ter (s, c) = Ok (tesSUCCESS, s', c') \<and>
    apply_consistent s' m \<and> account_of sha (apply_overlay s' m) (t_account t) = Some e1' \<and> account_of sha (apply_overlay s' m) dst = Some e2' \<and>
    denote (sfBalance (flds e1')) = of_int (t_SourceBalance t) - denote (last l) \<and>
    denote (sfBalance (flds e2')) = denote (sfBalance (flds e2)) + sum_list (map denote l)"
proof -
  have sh: "env_sha (sandbox_env sha base op reserve increment pct) = sha" by (simp add: sandbox_env_simps)
  show ?thesis using sb.transfer_amounts_ok [where s = "(s, c)" and base = base and m = m and sha = sha and op = op and reserve = reserve
      and increment = increment and pct = pct, unfolded sh fst_conv, OF conjI [OF assms(2,1)] assms(3-12), of ter] by auto
qed

theorem activation_takes_last_amount_witness:
  "\<exists>s' c' e1' e2'. transfer_amounts (sandbox_env index_sha (ledger_view sample_accounts) True 0 0 0)
      \<lparr>t_account = 2, t_FeeDue = 10, t_PriorBalance = 100, t_SourceBalance = 90\<rparr> 0 3 [STAmount_drops 30 False, STAmount_drops 40 False]
      tesSUCCESS (apply_empty, [], []) = Ok (tesSUCCESS, s', c') \<and> apply_consistent s' (map_of sample_accounts) \<and>
    account_of index_sha (apply_overlay s' (map_of sample_accounts)) 2 = Some e1' \<and>
    account_of index_sha (apply_overlay s' (map_of sample_accounts)) 3 = Some e2' \<and>
    denote (sfBalance (flds e1')) = 50 \<and> denote (sfBalance (flds e2')) = 120"
  using activation_takes_last_amount [OF ledger_read_view [OF sample_accounts_ok] apply_empty_ok(1), of index_sha
      "\<lparr>t_account = 2, t_FeeDue = 10, t_PriorBalance = 100, t_SourceBalance = 90\<rparr>" 3 "sample_account 2 100" "sample_account 3 50"
      "[STAmount_drops 30 False, STAmount_drops 40 False]" 0 True 0 0 0 tesSUCCESS "([], [])"] less_imp_neq [OF sample_keys(1)] sample_drops(1)
  by (simp add: sample_account_of sample_drops sample_account_simps proper_def)

section \<open>Claims\<close>

text \<open>A sandbox over an open view over a closed ledger.\<close>

definition open_ok :: "(key, entry) omap \<Rightarrow> open_table \<Rightarrow> bool" where
  "open_ok l o' \<longleftrightarrow> ledger_ok l \<and> raw_consistent o' (map_of l)"

abbreviation open_state :: "(key, entry) omap \<Rightarrow> open_table \<Rightarrow> key \<rightharpoonup> entry" where
  "open_state l o' \<equiv> raw_overlay o' (map_of l)"

lemma open_read: "open_ok l o' \<Longrightarrow> read_view (open_view o' (ledger_view l)) (open_state l o')"
  by (simp add: open_ok_def open_stack)

lemma commit_ok:
  assumes "open_ok l o'" "apply_consistent (fst s) (open_state l o')"
  shows "\<exists>o2. commit s o' = Ok o2 \<and> open_ok l o2 \<and> open_state l o2 = apply_overlay (fst s) (open_state l o')"
proof -
  have z: "map_of l 0 = None" using assms(1) by (simp add: open_ok_def ledger_ok_def state_ok_def)
  show ?thesis using open_target.apply_commit [of o' "map_of l" "fst s"] assms z by (auto simp: open_ok_def commit_def)
qed

lemma account_entry:
  assumes "account_of sha m a = Some e"
  shows "m (getAccountRootIndex sha a) = Some e" "sle_type e = ltACCOUNT_ROOT"
  using assms by (auto simp: account_of_def typed_entry_def keylet_account_def split: option.splits if_splits)

lemma sandbox_update:
  assumes "apply_consistent (fst s) m \<and> read_view base m" "apply_handle (fst s) (sle_key e) p"
  shows "\<exists>s'. update_entry (sandbox_env sha base op reserve increment pct) f (p, e) s = Ok s' \<and> apply_consistent (fst s') m \<and>
    apply_overlay (fst s') m = (apply_overlay (fst s) m)(sle_key e \<mapsto> edit_fields f e) \<and>
    (\<forall>k p. apply_handle (fst s) k p \<longrightarrow> apply_handle (fst s') k p)"
  by (rule sb.update_ok [where sha = sha and op = op and reserve = reserve and increment = increment and pct = pct and f = f, OF assms]) blast

lemma claim_fee_run:
  assumes o: "open_ok l o'" and e: "account_of (x_sha c) (open_state l o') (tx_Account (x_tx c)) = Some e"
    and b: "proper (sfBalance (flds e))" "mIsNative (sfBalance (flds e))" "0 \<le> fee" "\<bar>fee\<bar> \<le> 100000000000000000"
  obtains d f s bal where "of_int d = denote (sfBalance (flds e))" "f = min fee d"
    "claim_fee (ctx_env c (ledger_view l) o') c fee [] = rbind (require (d \<noteq> 0 \<and> (\<not> x_open c \<or> fee \<le> d)) AssertFailed) (\<lambda>_. Ok (f, s))"
    "apply_consistent (fst s) (open_state l o')" "proper bal" "mIsNative bal" "denote bal = of_int (d - f)"
    "apply_overlay (fst s) (open_state l o') = (open_state l o')
        (sle_key e \<mapsto> edit_fields (\<lambda>f. f\<lparr>sfBalance := bal, sfSequence := tx_Sequence (x_tx c) + 1\<rparr>) e)"
proof -
  let ?V = "ctx_env c (ledger_view l) o'" and ?M = "open_state l o'" and ?k = "keylet_account (x_sha c) (tx_Account (x_tx c))"
  have V: "?V = sandbox_env (x_sha c) (open_view o' (ledger_view l)) (x_open c) (x_reserve c) (x_increment c) (x_parentCloseTime c)"
    by (simp add: ctx_env_def)
  have t: "kl_type ?k > 0" "kl_type ?k = ltACCOUNT_ROOT" by (simp_all add: keylet_account_def ltACCOUNT_ROOT_def)
  have i: "apply_consistent (fst discard) ?M \<and> read_view (open_view o' (ledger_view l)) ?M" using open_read [OF o] by (simp add: discard_def)
  obtain p s1 where s1: "peek_entry ?V ?k discard = (p, s1)" by (cases "peek_entry ?V ?k discard")
  note pk = sb.peek_ok [OF i t(1) s1 [unfolded V]]
  have "map_option snd p = Some e" using pk(3) e by (simp add: account_of_def discard_def)
  then obtain q where q: "p = Some (q, e)" by auto
  note k = pk(5) [OF q]
  have h: "apply_handle (fst s1) (sle_key e) q" using pk(4) [OF q] k by simp
  obtain d where d: "xrp (sfBalance (flds e)) = Ok \<lparr>drops = d, xrp_isVBC = False\<rparr>" "of_int d = denote (sfBalance (flds e))" "\<bar>d\<bar> \<le> 100000000000000000"
    using xrp_native [OF b(1,2)] by blast
  define f where "f = (if fee > d then d else fee)"
  have "\<bar>d - f\<bar> \<le> 100000000000000000" using b(3,4) d(3) by (auto simp: f_def)
  then obtain bal where bal: "drops_amount (d - f) = Ok bal" "proper bal" "mIsNative bal" "denote bal = of_int (d - f)"
    using drops_amount_ok by blast
  let ?g = "\<lambda>f. f\<lparr>sfBalance := bal, sfSequence := tx_Sequence (x_tx c) + 1\<rparr>"
  obtain s2 where s2: "update_entry ?V ?g (q, e) s1 = Ok s2" "apply_consistent (fst s2) ?M"
    "apply_overlay (fst s2) ?M = (apply_overlay (fst s1) ?M)(sle_key e \<mapsto> edit_fields ?g e)"
    using sandbox_update [OF pk(1) h, of "x_sha c" "x_open c" "x_reserve c" "x_increment c" "x_parentCloseTime c" ?g] unfolding V by metis
  have ov: "apply_overlay (fst s1) ?M = ?M" using pk(2) by (simp add: discard_def)
  have sh: "env_sha ?V = x_sha c" by (simp add: ctx_env_def)
  have run: "claim_fee ?V c fee [] = rbind (require (d \<noteq> 0 \<and> (\<not> x_open c \<or> fee \<le> d)) AssertFailed) (\<lambda>_. Ok (f, s2))"
    unfolding claim_fee_def sh s1 q deref_simps rbind.simps prod.case snd_conv d(1) XRPAmount.simps Let_def
      f_def [symmetric] bal(1) s2(1) removeUnfundedOffers.simps ..
  have "f = min fee d" by (simp add: f_def min_def)
  then show ?thesis using that [OF d(2) _ run s2(2) bal(2-4)] s2(3) ov by simp
qed

lemma claim_fee_ok:
  assumes o: "open_ok l o'" and e: "account_of (x_sha c) (open_state l o') (tx_Account (x_tx c)) = Some e"
    and b: "proper (sfBalance (flds e))" "mIsNative (sfBalance (flds e))" "0 \<le> fee" "\<bar>fee\<bar> \<le> 100000000000000000"
    and r: "claim_fee (ctx_env c (ledger_view l) o') c fee [] = Ok (fee', s)"
  shows "apply_consistent (fst s) (open_state l o')" "\<exists>bal. of_int fee' = min (of_int fee) (denote (sfBalance (flds e))) \<and> proper bal \<and> mIsNative bal \<and>
      denote bal = denote (sfBalance (flds e)) - of_int fee' \<and>
      apply_overlay (fst s) (open_state l o') = (open_state l o')
        (sle_key e \<mapsto> edit_fields (\<lambda>f. f\<lparr>sfBalance := bal, sfSequence := tx_Sequence (x_tx c) + 1\<rparr>) e)"
proof -
  obtain d f s2 bal where c: "of_int d = denote (sfBalance (flds e))" "f = min fee d"
    "claim_fee (ctx_env c (ledger_view l) o') c fee [] = rbind (require (d \<noteq> 0 \<and> (\<not> x_open c \<or> fee \<le> d)) AssertFailed) (\<lambda>_. Ok (f, s2))"
    "apply_consistent (fst s2) (open_state l o')" "proper bal" "mIsNative bal" "denote bal = of_int (d - f)"
    "apply_overlay (fst s2) (open_state l o') = (open_state l o')
        (sle_key e \<mapsto> edit_fields (\<lambda>f. f\<lparr>sfBalance := bal, sfSequence := tx_Sequence (x_tx c) + 1\<rparr>) e)"
    using claim_fee_run [OF o e b] by blast
  have f: "fee' = f" "s = s2" using r c(3) by (auto simp: require_def split: if_splits)
  have "(of_int f :: rat) = min (of_int fee) (denote (sfBalance (flds e)))" unfolding c(1) [symmetric] c(2) by (simp add: min_def)
  then show "apply_consistent (fst s) (open_state l o')" "\<exists>bal. of_int fee' = min (of_int fee) (denote (sfBalance (flds e))) \<and> proper bal \<and> mIsNative bal \<and>
      denote bal = denote (sfBalance (flds e)) - of_int fee' \<and>
      apply_overlay (fst s) (open_state l o') = (open_state l o')
        (sle_key e \<mapsto> edit_fields (\<lambda>f. f\<lparr>sfBalance := bal, sfSequence := tx_Sequence (x_tx c) + 1\<rparr>) e)"
    using c f by (auto intro!: exI [of _ bal])
qed

lemma finish_ok:
  assumes "open_ok l o1" "apply_consistent (fst s) (open_state l o1)" "finish c ter fee s o1 = Ok (ter', didApply, o2)"
  shows "ter' = ter \<and> didApply \<and> open_ok l o2 \<and> open_state l o2 = apply_overlay (fst s) (open_state l o1)"
proof -
  have d: "apply_consistent (apply_destroyXRP d t) m = apply_consistent t m" "apply_overlay (apply_destroyXRP d t) m = apply_overlay t m"
    for d and t :: "Fields DirPage ApplyStateTable" and m
    by (simp_all add: apply_destroyXRP_def apply_consistent_def apply_overlay_def fun_eq_iff)
  obtain s' where s': "commit s' o1 = Ok o2" "apply_consistent (fst s') (open_state l o1)"
    "apply_overlay (fst s') (open_state l o1) = apply_overlay (fst s) (open_state l o1)" "ter' = ter" "didApply"
    using assms(2,3) unfolding finish_def by (auto simp: d split: if_splits)
  then show ?thesis using commit_ok [OF assms(1) s'(2)] by auto
qed

text \<open>The results of \<open>transact\<close>: nothing is applied, all is applied, or the fee is claimed.\<close>

lemma transact_cases:
  assumes "transact T c pc baseFee base o1 = Ok (ter, didApply, o2)"
  obtains (nothing) "\<not> didApply" "o2 = o1"
  | (all) s fee where "ter = tesSUCCESS" "finish c tesSUCCESS fee s o1 = Ok (ter, didApply, o2)"
  | (claim) fee fee' removed s where "isTecClaim ter" "ter \<noteq> tecOVERSIZE \<Longrightarrow> removed = []"
    "(if tx_Type (x_tx c) = ttRING_DEPOSIT then Ok 0 else rbind (xrp (tx_Fee (x_tx c))) (\<lambda>x. Ok (drops x))) = Ok fee"
    "claim_fee (ctx_env c base o1) c fee removed = Ok (fee', s)" "finish c ter fee' s o1 = Ok (ter, didApply, o2)"
proof -
  have fin: "ter' = ter" if "finish c ter' f s o1 = Ok (ter, didApply, o2)" for ter' f s using that by (auto simp: finish_def)
  obtain ter0 s0 fee where 1: "(if tx_Type (x_tx c) = ttRING_DEPOSIT then Ok 0 else rbind (xrp (tx_Fee (x_tx c))) (\<lambda>x. Ok (drops x))) = Ok fee"
    and 2: "(let didApply = isTesSuccess ter0; terResult = (if apply_size (fst s0) > 5200 then tecOVERSIZE else ter0)
      in if terResult = tecOVERSIZE \<or> isTecClaim terResult \<and> \<not> has_flag (x_flags c) tapRETRY then
           rbind (if terResult = tecOVERSIZE then removed_offers (visit (open_view o1 base) (fst s0)) else Ok []) (\<lambda>removedOffers.
           rbind (claim_fee (ctx_env c base o1) c fee removedOffers) (\<lambda>(fee, s).
           finish c terResult fee s o1))
         else if didApply then finish c terResult fee s0 o1
         else Ok (terResult, False, o1)) = Ok (ter, didApply, o2)"
    using assms unfolding transact_def Let_def rbind_eq_Ok by (elim exE conjE) (simp split: prod.splits, blast)
  define ter1 where "ter1 = (if apply_size (fst s0) > 5200 then tecOVERSIZE else ter0)"
  note 3 = 2 [unfolded Let_def, folded ter1_def]
  show ?thesis
  proof (cases "ter1 = tecOVERSIZE \<or> isTecClaim ter1 \<and> \<not> has_flag (x_flags c) tapRETRY")
    case True
    then obtain removed fee' s where r: "(if ter1 = tecOVERSIZE then removed_offers (visit (open_view o1 base) (fst s0)) else Ok []) = Ok removed"
      "claim_fee (ctx_env c base o1) c fee removed = Ok (fee', s)" "finish c ter1 fee' s o1 = Ok (ter, didApply, o2)"
      using 3 by (simp split: prod.splits) blast
    have t: "ter = ter1" using fin [OF r(3)] by simp
    have i: "isTecClaim ter" using True t by auto
    have rem: "ter \<noteq> tecOVERSIZE \<Longrightarrow> removed = []" using r(1) t by simp
    show ?thesis by (rule claim [OF i rem 1 r(2) r(3) [folded t]])
  next
    case False
    show ?thesis
    proof (cases "isTesSuccess ter0")
      case t: True
      then have "ter1 = tesSUCCESS" using False by (auto simp: ter1_def isTesSuccess_def)
      then have f: "finish c tesSUCCESS fee s0 o1 = Ok (ter, didApply, o2)" using 3 False t by auto
      show ?thesis by (rule all [OF fin [OF f, symmetric] f])
    next
      case t: False
      then have "\<not> didApply" "o2 = o1" using 3 False by auto
      then show ?thesis by (rule nothing)
    qed
  qed
qed

lemma past_sequence:
  assumes "open_ok l o2" "account_of (x_sha c) (open_state l o2) (tx_Account (x_tx c)) = Some e"
    "sfSequence (flds e) = tx_Sequence (x_tx c) + 1" "tx_Sequence (x_tx c) \<noteq> -1"
  shows "checkSeq c (open_view o2 (ledger_view l)) \<in> {Ok tefALREADY, Ok tefPAST_SEQ}"
proof -
  have "v_read (open_view o2 (ledger_view l)) (keylet_account (x_sha c) (tx_Account (x_tx c))) = Some e"
    using read_view.read_law [OF open_read [OF assms(1)]] assms(2) checked_entry [of "keylet_account (x_sha c) (tx_Account (x_tx c))"]
    by (simp add: account_of_def keylet_account_def ltACCOUNT_ROOT_def)
  moreover have "tx_Sequence (x_tx c) < tx_Sequence (x_tx c) + 1"
    using assms(4) by (metis add.commute add_eq_0_iff unatSuc word_less_nat_alt lessI)
  ultimately show ?thesis using assms(3) by (auto simp: checkSeq_def Let_def dest: less_asym)
qed

text \<open>A claim that \<open>preclaim\<close> found is made, where the account has the fee.\<close>

lemma claim_done:
  assumes o: "open_ok l o1" and e: "account_of (x_sha c) (open_state l o1) (tx_Account (x_tx c)) = Some e"
    and b: "proper (sfBalance (flds e))" "mIsNative (sfBalance (flds e))"
    and f: "proper (tx_Fee (x_tx c))" "mIsNative (tx_Fee (x_tx c))" "\<not> mIsNegative (tx_Fee (x_tx c))"
    and pays: "denote (tx_Fee (x_tx c)) \<le> denote (sfBalance (flds e))" "0 < denote (sfBalance (flds e))"
    and t: "isTecClaim pc" "pc \<noteq> tecOVERSIZE" "\<not> has_flag (x_flags c) tapRETRY" "tx_Type (x_tx c) \<noteq> ttRING_DEPOSIT"
  shows "\<exists>o2. transact T c pc baseFee (ledger_view l) o1 = Ok (pc, True, o2)"
proof -
  obtain fee where fee: "xrp (tx_Fee (x_tx c)) = Ok \<lparr>drops = fee, xrp_isVBC = False\<rparr>" "of_int fee = denote (tx_Fee (x_tx c))"
    "\<bar>fee\<bar> \<le> 100000000000000000" "0 \<le> fee" using xrp_native [OF f(1,2)] f(3) by blast
  obtain d f' s where c: "of_int d = denote (sfBalance (flds e))" "f' = min fee d"
    "claim_fee (ctx_env c (ledger_view l) o1) c fee [] = rbind (require (d \<noteq> 0 \<and> (\<not> x_open c \<or> fee \<le> d)) AssertFailed) (\<lambda>_. Ok (f', s))"
    "apply_consistent (fst s) (open_state l o1)" using claim_fee_run [OF o e b fee(4,3)] by blast
  have d: "fee \<le> d" "0 < d" using pays c(1) fee(2) by (metis of_int_le_iff, metis of_int_0_less_iff)
  then have cl: "claim_fee (ctx_env c (ledger_view l) o1) c fee [] = Ok (f', s)" using c(3) by (simp add: require_def)
  have "apply_consistent (apply_destroyXRP f' (fst s)) (open_state l o1)"
    using c(4) by (simp add: apply_destroyXRP_def apply_consistent_def)
  then have "\<exists>o2. finish c pc f' s o1 = Ok (pc, True, o2)"
    using commit_ok [OF o c(4)] commit_ok [OF o, of "(apply_destroyXRP f' (fst s), snd s)"] d c(2) fee(4)
    by (cases s) (auto simp: finish_def)
  moreover have "apply_size (fst discard) = 0" by (simp add: discard_def apply_size_def apply_empty_def)
  moreover have "pc \<noteq> tesSUCCESS" "pc \<noteq> temUNKNOWN" using t(1) by auto
  ultimately show ?thesis unfolding transact_def Let_def using t by (simp add: require_def fee(1) cl)
qed

section \<open>Failing transactions\<close>

text \<open>
  C9. A transaction that fails only pays its fee: whatever its class does, when a transaction of an existing account is
  processed, the open view is left as it was, or the result is a success or a claim of the fee. Where the fee is claimed
  with a result other than \<open>tecOVERSIZE\<close> (where the code also removes up to a thousand unfunded offers that the
  transaction found), the only change to the ledger is in the account of the sender: its balance is less the fee, or zero
  where it was less than the fee, and its sequence number is the next one, so that the same transaction is then refused as
  past. The fee taken from a \<open>ttRING_DEPOSIT\<close> is zero.
\<close>

theorem failed_transaction_pays_fee:
  assumes o: "open_ok l o1" and e: "account_of (x_sha c) (open_state l o1) (tx_Account (x_tx c)) = Some e"
    and b: "proper (sfBalance (flds e))" "mIsNative (sfBalance (flds e))"
    and f: "proper (tx_Fee (x_tx c))" "mIsNative (tx_Fee (x_tx c))" "\<not> mIsNegative (tx_Fee (x_tx c))"
    and seq: "tx_Sequence (x_tx c) \<noteq> -1"
    and r: "transact T c pc baseFee (ledger_view l) o1 = Ok (ter, didApply, o2)"
  shows "(\<not> didApply \<longrightarrow> o2 = o1) \<and> (didApply \<longrightarrow> ter = tesSUCCESS \<or> isTecClaim ter) \<and>
    (didApply \<and> isTecClaim ter \<and> ter \<noteq> tecOVERSIZE \<longrightarrow> open_ok l o2 \<and>
      (\<exists>bal. open_state l o2 = (open_state l o1)(sle_key e \<mapsto>
            edit_fields (\<lambda>f. f\<lparr>sfBalance := bal, sfSequence := tx_Sequence (x_tx c) + 1\<rparr>) e) \<and>
         denote bal = denote (sfBalance (flds e)) -
           min (if tx_Type (x_tx c) = ttRING_DEPOSIT then 0 else denote (tx_Fee (x_tx c))) (denote (sfBalance (flds e)))) \<and>
      checkSeq c (open_view o2 (ledger_view l)) \<in> {Ok tefALREADY, Ok tefPAST_SEQ})"
  using r
proof (cases rule: transact_cases)
  case nothing
  then show ?thesis by simp
next
  case (all s fee)
  then show ?thesis by (auto simp: finish_def)
next
  case (claim fee fee' removed s)
  show ?thesis
  proof (cases "ter = tecOVERSIZE")
    case True
    then show ?thesis using claim by (auto simp: finish_def)
  next
    case False
    obtain d where d: "xrp (tx_Fee (x_tx c)) = Ok \<lparr>drops = d, xrp_isVBC = False\<rparr>" "of_int d = denote (tx_Fee (x_tx c))" "\<bar>d\<bar> \<le> 100000000000000000"
      "0 \<le> d" using xrp_native [OF f(1,2)] f(3) by blast
    then have fee: "0 \<le> fee" "\<bar>fee\<bar> \<le> 100000000000000000" "of_int fee = (if tx_Type (x_tx c) = ttRING_DEPOSIT then 0 else denote (tx_Fee (x_tx c)))"
      using claim(3) d by (auto split: if_splits)
    have cl: "claim_fee (ctx_env c (ledger_view l) o1) c fee [] = Ok (fee', s)" using claim(2,4) False by simp
    note q = claim_fee_ok [OF o e b fee(1,2) cl]
    have fn: "didApply" "open_ok l o2" "open_state l o2 = apply_overlay (fst s) (open_state l o1)"
      using finish_ok [OF o q(1) claim(5)] by auto
    obtain bal where bal: "of_int fee' = min (of_int fee) (denote (sfBalance (flds e)))" "denote bal = denote (sfBalance (flds e)) - of_int fee'"
      "apply_overlay (fst s) (open_state l o1) = (open_state l o1)(sle_key e \<mapsto> edit_fields (\<lambda>f. f\<lparr>sfBalance := bal, sfSequence := tx_Sequence (x_tx c) + 1\<rparr>) e)"
      using q(2) by blast
    let ?e = "edit_fields (\<lambda>f. f\<lparr>sfBalance := bal, sfSequence := tx_Sequence (x_tx c) + 1\<rparr>) e"
    have k: "sle_key e = getAccountRootIndex (x_sha c) (tx_Account (x_tx c))"
      using account_entry(1) [OF e] read_view.state [OF open_read [OF o]] by (simp add: state_ok_def)
    have "account_of (x_sha c) (open_state l o2) (tx_Account (x_tx c)) = Some ?e"
      unfolding fn(3) bal(3) using account_entry(2) [OF e] k by (simp add: account_of_def typed_entry_def keylet_account_def)
    then have "checkSeq c (open_view o2 (ledger_view l)) \<in> {Ok tefALREADY, Ok tefPAST_SEQ}"
      using past_sequence [OF fn(2)] seq by simp
    moreover have "open_state l o2 = (open_state l o1)(sle_key e \<mapsto> ?e)" using fn(3) bal(3) by simp
    moreover have "denote bal = denote (sfBalance (flds e)) -
           min (if tx_Type (x_tx c) = ttRING_DEPOSIT then 0 else denote (tx_Fee (x_tx c))) (denote (sfBalance (flds e)))"
      using bal(1,2) fee(3) by simp
    ultimately show ?thesis using fn(1,2) claim(1) by blast
  qed
qed

text \<open>A transaction of account 2 of the sample ledger that pays a fee of ten drops, in its context.\<close>

definition sample_limit :: TxLimit where
  "sample_limit = \<lparr>tl_LimitAmount = STAmount_drops 0 False, tl_QualityIn = None, tl_QualityOut = None, tl_Flags = 0\<rparr>"

definition sample_tx :: STTx where
  "sample_tx = \<lparr>tx_ID = 1, tx_Type = ttPAYMENT, tx_Account = 2, tx_Sequence = 0, tx_Fee = STAmount_drops 10 False, tx_Flags = 0,
     tx_AccountTxnID = None, tx_LastLedgerSequence = None, tx_SigningPubKey = [], tx_Signers = Some [(3, [1]), (4, [2])],
     tx_Amount = STAmount_drops 5 False, tx_Destination = 7, tx_Reference = 0, tx_Referee = 0, tx_hasPaths = False, tx_hasSendMax = False,
     tx_Amounts = None, tx_Limits = None, tx_Limit = sample_limit, tx_OfferSequence = 0, tx_Expiration = None, tx_Target = None,
     tx_TicketID = 0, tx_RegularKey = None, tx_SignerQuorum = 0, tx_SignerEntries = None, tx_ReleaseSchedule = []\<rparr>"

definition sample_ctx :: "(blob \<Rightarrow> AccountID) \<Rightarrow> Ctx" where
  "sample_ctx calc = \<lparr>x_tx = sample_tx, x_flags = 0, x_sha = index_sha, x_calcAccountID = calc, x_multiSign = True, x_trustSetAuth = True,
     x_seq = 5, x_open = False, x_base = 10, x_units = 10, x_reserve = 0, x_increment = 0, x_parentCloseTime = 0, x_txExists = (\<lambda>_. False),
     x_load = new_LoadFeeTrack, x_rate_native = 0, x_min_native = 0, x_secret_account = None\<rparr>"

definition sample_class :: "sandbox TxClass" where
  "sample_class = plain_class \<lparr>ck_now = 0, ck_sign = \<lambda>_ _. True, ck_local = \<lambda>_. True\<rparr> AddReferee_preflight no_preclaim AddReferee_doApply"

lemma sample_ctx_simps:
  "x_sha (sample_ctx f) = index_sha" "x_calcAccountID (sample_ctx f) = f" "x_flags (sample_ctx f) = 0" "tx_Account (x_tx (sample_ctx f)) = 2"
  "tx_Sequence (x_tx (sample_ctx f)) = 0" "tx_Fee (x_tx (sample_ctx f)) = STAmount_drops 10 False" "tx_Type (x_tx (sample_ctx f)) = ttPAYMENT"
  "tx_Signers (x_tx (sample_ctx f)) = Some [(3, [1]), (4, [2])]"
  by (simp_all add: sample_ctx_def sample_tx_def)

theorem failed_transaction_pays_fee_witness:
  "\<exists>o2. transact sample_class (sample_ctx (\<lambda>_. 2)) tecNO_DST 10 (ledger_view sample_accounts) raw_empty = Ok (tecNO_DST, True, o2) \<and>
    (\<exists>bal. open_state sample_accounts o2 = (map_of sample_accounts)(getAccountRootIndex index_sha 2 \<mapsto>
       edit_fields (\<lambda>f. f\<lparr>sfBalance := bal, sfSequence := 1\<rparr>) (sample_account 2 100)) \<and> denote bal = 90) \<and>
    checkSeq (sample_ctx (\<lambda>_. 2)) (open_view o2 (ledger_view sample_accounts)) \<in> {Ok tefALREADY, Ok tefPAST_SEQ}"
proof -
  let ?c = "sample_ctx (\<lambda>_. 2)"
  have o: "open_ok sample_accounts raw_empty" using sample_accounts_ok by (simp add: open_ok_def)
  have e: "account_of (x_sha ?c) (open_state sample_accounts raw_empty) (tx_Account (x_tx ?c)) = Some (sample_account 2 100)"
    by (simp add: sample_ctx_simps sample_account_of)
  note s = sample_drops sample_ctx_simps sample_account_simps
  have n: "\<not> mIsNegative (STAmount_drops 10 False)" by (simp add: STAmount_drops_def)
  obtain o2 where r: "transact sample_class ?c tecNO_DST 10 (ledger_view sample_accounts) raw_empty = Ok (tecNO_DST, True, o2)"
    using claim_done [OF o e, of tecNO_DST sample_class 10] n by (auto simp: s)
  show ?thesis using failed_transaction_pays_fee [OF o e _ _ _ _ _ _ r] r n by (auto simp: s)
qed

section \<open>Signers\<close>

lemma deserialize_named: "deserialize_entries (map (Pair True) l) acc = (acc @ l, tesSUCCESS)"
  by (induction l arbitrary: acc) auto

lemma adjacent_sorted: "sorted (map fst l) \<Longrightarrow> \<not> adjacent_equal l \<Longrightarrow> sorted_wrt (<) (map fst l)"
proof (induction l rule: adjacent_equal.induct)
  case (1 x y l)
  have a: "fst x < fst y" "sorted_wrt (<) (map fst (y # l))" using 1 by auto
  then have "\<forall>z \<in> set (map fst (y # l)). fst x < z" by auto
  then show ?case using a(2) by simp
qed auto

lemma weights_result_ok:
  "weights_result acc l s = (tesSUCCESS, t) \<Longrightarrow> (\<forall>(a, w) \<in> set l. w \<noteq> 0 \<and> a \<noteq> acc) \<and> t = s + sum_list (map (\<lambda>(a, w). ucast w) l)"
  by (induction acc l s rule: weights_result.induct) (auto split: if_splits)

text \<open>The iterator finds the signer, or its list is past it.\<close>

lemma skip_signers_sorted:
  assumes "sorted_wrt (<) (map fst l)" "l \<noteq> []"
  shows "skip_signers a l = Ok (case dropWhile (\<lambda>e. fst e < a) l of [] \<Rightarrow> None | l' \<Rightarrow> Some l')"
  using assms
proof (induction l)
  case (Cons e l)
  then show ?case by (cases l) auto
qed simp

lemma dropWhile_signer:
  fixes l :: "signer list"
  assumes "sorted_wrt (<) (map fst l)"
  shows "(a, w) \<in> set l \<Longrightarrow> \<exists>l'. dropWhile (\<lambda>e. fst e < a) l = (a, w) # l' \<and> sorted_wrt (<) (map fst ((a, w) # l')) \<and>
      (\<forall>x. a < fst x \<longrightarrow> x \<in> set l' \<longleftrightarrow> x \<in> set l)"
    and "a \<notin> fst ` set l \<Longrightarrow> (case dropWhile (\<lambda>e. fst e < a) l of [] \<Rightarrow> True | e # l' \<Rightarrow> fst e \<noteq> a)"
  using assms
proof (induction l)
  case (Cons e l)
  { case 1
    show ?case
    proof (cases "fst e < a")
      case True
      then have "(a, w) \<in> set l" using 1 by auto
      then obtain l' where "dropWhile (\<lambda>e. fst e < a) l = (a, w) # l'" "sorted_wrt (<) (map fst ((a, w) # l'))"
        "\<forall>x. a < fst x \<longrightarrow> x \<in> set l' \<longleftrightarrow> x \<in> set l" using Cons(1) 1(2) by auto
      then show ?thesis using True by (auto dest: less_asym)
    next
      case False
      then have e: "e = (a, w)" using 1 by auto
      have "dropWhile (\<lambda>e. fst e < a) (e # l) = (a, w) # l" using False e by simp
      moreover have "\<forall>x. a < fst x \<longrightarrow> x \<in> set l \<longleftrightarrow> x \<in> set (e # l)" using e by auto
      ultimately show ?thesis using 1(2) e by blast
    qed
  next
    case 2
    then show ?case using Cons(2) by (cases "fst e < a") auto }
qed auto

text \<open>The weight of a signer in a list.\<close>

definition signer_weight :: "signer list \<Rightarrow> AccountID \<Rightarrow> nat" where
  "signer_weight l a = (case map_of l a of None \<Rightarrow> 0 | Some w \<Rightarrow> unat w)"

definition signers_ok :: "Ctx \<Rightarrow> reader \<Rightarrow> signer list \<Rightarrow> (AccountID \<times> blob) list \<Rightarrow> bool" where
  "signers_ok c rd l ts \<longleftrightarrow> (\<forall>(a, pk) \<in> set ts. a \<in> fst ` set l \<and> signer_result c rd a pk = tesSUCCESS)"

lemma signer_loop_exact:
  assumes "sorted_wrt (<) (map fst ts)" "sorted_wrt (<) (map fst l)" "l \<noteq> []"
  shows "\<exists>ter s. signer_loop c rd ts l w0 = Ok (ter, s) \<and> (ter = tesSUCCESS \<longleftrightarrow> signers_ok c rd l ts) \<and>
    (ter = tesSUCCESS \<longrightarrow> s = w0 + sum_list (map (\<lambda>t. of_nat (signer_weight l (fst t))) ts))"
  using assms
proof (induction ts arbitrary: l w0)
  case Nil
  then show ?case by (simp add: signers_ok_def)
next
  case (Cons t ts)
  obtain a pk where t: "t = (a, pk)" by (cases t)
  show ?case
  proof (cases "a \<in> fst ` set l")
    case False
    then have n: "\<not> signers_ok c rd l (t # ts)" by (auto simp: signers_ok_def t)
    have "\<exists>s. signer_loop c rd (t # ts) l w0 = Ok (tefBAD_SIGNATURE, s)"
    proof (cases "dropWhile (\<lambda>e. fst e < a) l")
      case Nil
      show ?thesis unfolding t signer_loop.simps skip_signers_sorted [OF Cons.prems(2,3)] Nil by simp
    next
      case (Cons e l')
      then have "fst e \<noteq> a" using dropWhile_signer(2) [OF \<open>sorted_wrt (<) (map fst l)\<close> False] by simp
      then show ?thesis using Cons by (simp add: t skip_signers_sorted [OF \<open>sorted_wrt (<) (map fst l)\<close> \<open>l \<noteq> []\<close>])
    qed
    then show ?thesis using n by auto
  next
    case True
    then obtain w where w: "(a, w) \<in> set l" by auto
    obtain l' where l': "dropWhile (\<lambda>e. fst e < a) l = (a, w) # l'" "sorted_wrt (<) (map fst ((a, w) # l'))"
      "\<forall>x. a < fst x \<longrightarrow> x \<in> set l' \<longleftrightarrow> x \<in> set l" using dropWhile_signer(1) [OF Cons.prems(2) w] by blast
    have d: "distinct (map fst l)" "distinct (map fst ((a, w) # l'))" using Cons.prems(2) l'(2) unfolding strict_sorted_iff by blast+
    have wt: "signer_weight l a = unat w" using w d(1) by (simp add: signer_weight_def)
    have later: "a < b" if "(b, p) \<in> set ts" for b p using Cons.prems(1) t that by fastforce
    have same: "map_of ((a, w) # l') b = map_of l b" if "a < b" for b
    proof -
      have "map_of ((a, w) # l') b = Some v \<longleftrightarrow> map_of l b = Some v" for v
        using l'(3) [rule_format, of "(b, v)"] that d by (simp add: map_of_eq_Some_iff) (auto simp: map_of_eq_Some_iff)
      then show ?thesis by (metis option.exhaust)
    qed
    have in_l: "b \<in> fst ` set ((a, w) # l') \<longleftrightarrow> b \<in> fst ` set l" if "a < b" for b
      using same [OF that] by (metis (mono_tags, lifting) map_of_eq_None_iff)
    show ?thesis
    proof (cases "signer_result c rd a pk = tesSUCCESS")
      case bad: False
      then show ?thesis by (auto simp: t skip_signers_sorted [OF Cons.prems(2,3)] l'(1) signers_ok_def Let_def)
    next
      case good: True
      have st: "signer_loop c rd (t # ts) l w0 = signer_loop c rd ts ((a, w) # l') (w0 + ucast w)"
        by (simp add: t skip_signers_sorted [OF Cons.prems(2,3)] l'(1) good)
      have "signers_ok c rd l (t # ts) \<longleftrightarrow> signers_ok c rd l ts" using good True by (simp add: signers_ok_def t)
      also have "signers_ok c rd l ts \<longleftrightarrow> signers_ok c rd ((a, w) # l') ts" unfolding signers_ok_def
      proof (rule ball_cong [OF refl])
        fix x
        assume x: "x \<in> set ts"
        obtain b p where b: "x = (b, p)" by (cases x)
        show "(case x of (b, p) \<Rightarrow> b \<in> fst ` set l \<and> signer_result c rd b p = tesSUCCESS) =
            (case x of (b, p) \<Rightarrow> b \<in> fst ` set ((a, w) # l') \<and> signer_result c rd b p = tesSUCCESS)"
          unfolding b prod.case in_l [OF later [OF x [unfolded b]]] ..
      qed
      finally have ok: "signers_ok c rd l (t # ts) \<longleftrightarrow> signers_ok c rd ((a, w) # l') ts" .
      have m: "map (\<lambda>t. of_nat (signer_weight ((a, w) # l') (fst t)) :: u32) ts = map (\<lambda>t. of_nat (signer_weight l (fst t))) ts"
      proof (rule map_cong [OF refl])
        fix x
        assume x: "x \<in> set ts"
        obtain b p where b: "x = (b, p)" by (cases x)
        show "(of_nat (signer_weight ((a, w) # l') (fst x)) :: u32) = of_nat (signer_weight l (fst x))"
          unfolding signer_weight_def b fst_conv same [OF later [OF x [unfolded b]]] ..
      qed
      have "sorted_wrt (<) (map fst ts)" using Cons.prems(1) by simp
      from Cons.IH [OF this l'(2), of "w0 + ucast w"] show ?thesis
        unfolding st ok m by (auto simp: t wt unsigned_ucast_eq add.assoc)
    qed
  qed
qed

lemma sum_list_of_nat: "sum_list (map (\<lambda>x. of_nat (f x)) xs) = (of_nat (sum_list (map f xs)) :: 'a::len word)"
  by (induction xs) simp_all

lemma sum_list_bound: "(\<And>x. x \<in> set xs \<Longrightarrow> f x \<le> b) \<Longrightarrow> sum_list (map f xs) \<le> length xs * (b :: nat)"
  by (induction xs) (auto simp: add_mono)

lemma signer_weight_le: "signer_weight l a \<le> 65535"
proof -
  have "unat (w :: u16) \<le> 65535" for w using unsigned_less [of w, where ?'a = nat] by simp
  then show ?thesis by (auto simp: signer_weight_def split: option.splits)
qed

lemma validated_signers:
  assumes "validateQuorumAndSignerEntries q l acc = Ok tesSUCCESS"
  shows "sorted_wrt (<) (map fst l)" "1 \<le> length l" "length l \<le> 8" "0 < unat q" "unat q \<le> (\<Sum>(a, w) \<leftarrow> l. unat w)" "acc \<notin> fst ` set l"
proof -
  obtain s where n: "\<not> (length l < 1 \<or> length l > 8)" "sorted (map fst l)" "\<not> adjacent_equal l" and w: "weights_result acc l 0 = (tesSUCCESS, s)"
    and q: "q \<noteq> 0" "\<not> s < ucast q"
    using assms unfolding validateQuorumAndSignerEntries_def minMultiSigners_def maxMultiSigners_def
    by (auto simp: require_def split: if_splits prod.splits)
  show "sorted_wrt (<) (map fst l)" using adjacent_sorted n by blast
  show "1 \<le> length l" "length l \<le> 8" "0 < unat q" using n(1) q(1) by (simp_all only: unat_gt_0 not_less de_Morgan_disj) simp_all
  note r = weights_result_ok [OF w]
  show "acc \<notin> fst ` set l" using r by force
  have m: "map (\<lambda>(a, w). ucast w :: u64) l = map (\<lambda>x. of_nat (case x of (a, w) \<Rightarrow> unat w)) l" by (simp add: case_prod_unfold)
  have "s = of_nat (\<Sum>(a, w) \<leftarrow> l. unat w)" using r unfolding m sum_list_of_nat by simp
  moreover have "(\<Sum>(a, w) \<leftarrow> l. unat w) \<le> length l * 65535"
  proof (rule sum_list_bound)
    show "(case x of (a, w) \<Rightarrow> unat w) \<le> 65535" for x :: signer using unsigned_less [of "snd x", where ?'a = nat] by (simp add: case_prod_unfold)
  qed
  then have "(\<Sum>(a, w) \<leftarrow> l. unat w) < 2 ^ 64" using n(1) by (simp add: not_less order.strict_trans1)
  ultimately have "unat s = (\<Sum>(a, w) \<leftarrow> l. unat w)" by (simp add: unat_of_nat)
  moreover have "unat q < 2 ^ 32" using unsigned_less [of q, where ?'a = nat] by simp
  then have "unat (ucast q :: u64) = unat q" by (simp add: unsigned_ucast_eq take_bit_nat_eq_self)
  ultimately show "unat q \<le> (\<Sum>(a, w) \<leftarrow> l. unat w)" using q(2) by (simp add: word_less_nat_alt)
qed

text \<open>The keys that may sign for an account.\<close>

lemma signer_result_iff:
  "signer_result c rd a pk = tesSUCCESS \<longleftrightarrow>
    (case v_read rd (keylet_account (x_sha c) a) of
       None \<Rightarrow> x_calcAccountID c pk = a
     | Some sleRoot \<Rightarrow>
         x_calcAccountID c pk = a \<and> sfFlags (flds sleRoot) AND lsfDisableMaster = 0 \<or>
         x_calcAccountID c pk \<noteq> a \<and> sfRegularKey (flds sleRoot) = Some (x_calcAccountID c pk))"
  by (auto simp: signer_result_def Let_def split: option.splits)

text \<open>
  C16. Multiple signatures: a list of signers that \<open>SetSignerList\<close> accepts has a quorum that all its signers together reach,
  and against it \<open>checkMultiSign\<close> accepts a transaction, whose signers are sorted as a valid signature demands, exactly when
  every signer is in the list and signs with a key that may sign for it, and their weights add up to the quorum. A key may
  sign for an account that is not in the ledger when it is the key of that account; for an account in the ledger, when it
  is the key of the account and its master key is not disabled, or when it is another key and the regular key of the
  account. The loop never runs off the end of the list.
\<close>

theorem multisign_exact:
  assumes sle: "v_read rd (keylet_signers (x_sha c) (tx_Account (x_tx c))) = Some sle" "flds sle = writeSignersToSLE q l f"
    and v: "validateQuorumAndSignerEntries q l (tx_Account (x_tx c)) = Ok tesSUCCESS"
    and ts: "tx_Signers (x_tx c) = Some ts" "sorted_wrt (<) (map fst ts)"
  shows "unat q \<le> (\<Sum>(a, w) \<leftarrow> l. unat w) \<and>
    (\<exists>ter. checkMultiSign c rd = Ok ter \<and>
      (ter = tesSUCCESS \<longleftrightarrow>
         (\<forall>(a, pk) \<in> set ts. a \<in> fst ` set l \<and>
           (case v_read rd (keylet_account (x_sha c) a) of
              None \<Rightarrow> x_calcAccountID c pk = a
            | Some sleRoot \<Rightarrow>
                x_calcAccountID c pk = a \<and> sfFlags (flds sleRoot) AND lsfDisableMaster = 0 \<or>
                x_calcAccountID c pk \<noteq> a \<and> sfRegularKey (flds sleRoot) = Some (x_calcAccountID c pk))) \<and>
         unat q \<le> (\<Sum>(a, pk) \<leftarrow> ts. signer_weight l a)))"
proof -
  note l = validated_signers [OF v]
  have ne: "l \<noteq> []" using l(2) by auto
  obtain ter s where r: "signer_loop c rd ts l 0 = Ok (ter, s)" "ter = tesSUCCESS \<longleftrightarrow> signers_ok c rd l ts"
    "ter = tesSUCCESS \<longrightarrow> s = 0 + sum_list (map (\<lambda>t. of_nat (signer_weight l (fst t))) ts)"
    using signer_loop_exact [OF ts(2) l(1) ne, of c rd 0] by blast
  have body: "checkMultiSign c rd = Ok (if ter \<noteq> tesSUCCESS then ter else if s < q then tefBAD_QUORUM else tesSUCCESS)"
    unfolding checkMultiSign_def sle(1) option.case sle(2) writeSignersToSLE_def
    by (simp add: require_def deserialize_def deserialize_named ts(1) r(1))
  have n: "unat s = (\<Sum>(a, pk) \<leftarrow> ts. signer_weight l a)" if ok: "signers_ok c rd l ts"
  proof -
    have "fst ` set ts \<subseteq> fst ` set l" using ok by (auto simp: signers_ok_def)
    then have "card (fst ` set ts) \<le> card (fst ` set l)" by (intro card_mono) simp_all
    moreover have "distinct (map fst ts)" using ts(2) unfolding strict_sorted_iff by blast
    then have "card (fst ` set ts) = length ts" by (metis distinct_card length_map list.set_map)
    moreover have "card (fst ` set l) \<le> length l" by (metis card_length length_map list.set_map)
    ultimately have "length ts \<le> 8" using l(3) by linarith
    moreover have "(\<Sum>t \<leftarrow> ts. signer_weight l (fst t)) \<le> length ts * 65535" by (rule sum_list_bound) (rule signer_weight_le)
    ultimately have "(\<Sum>t \<leftarrow> ts. signer_weight l (fst t)) < 2 ^ 32" by simp
    moreover have "s = of_nat (\<Sum>t \<leftarrow> ts. signer_weight l (fst t))" using r(2,3) ok unfolding sum_list_of_nat by simp
    ultimately have "unat s = (\<Sum>t \<leftarrow> ts. signer_weight l (fst t))" by (simp add: unat_of_nat)
    then show ?thesis by (simp add: case_prod_unfold)
  qed
  have "(ter = tesSUCCESS \<and> \<not> s < q) \<longleftrightarrow> signers_ok c rd l ts \<and> unat q \<le> (\<Sum>(a, pk) \<leftarrow> ts. signer_weight l a)"
    using r(2) n by (auto simp: word_less_nat_alt)
  then show ?thesis using l(5) body unfolding signers_ok_def signer_result_iff by auto
qed

text \<open>
  Accounts 3 and 4 sign for account 2, and the quorum needs both: account 3 is not in the ledger and signs with its own
  key, account 4 has disabled its master key and signs with its regular key.
\<close>

definition sample_signers :: "signer list" where
  "sample_signers = [(3, 1), (4, 1)]"

definition sample_reader :: reader where
  "sample_reader = \<lparr>v_exists = (\<lambda>_. False), v_read = (\<lambda>k. if k = keylet_signers index_sha 2
     then Some (edit_fields (writeSignersToSLE 2 sample_signers) (make_entry (keylet_signers index_sha 2)))
     else if k = keylet_account index_sha 4
     then Some (edit_fields (\<lambda>f. f\<lparr>sfFlags := lsfDisableMaster, sfRegularKey := Some 9\<rparr>) (make_entry k)) else None), v_succ = (\<lambda>_ _. None),
     v_exists_asserts = (\<lambda>_. True), v_read_asserts = (\<lambda>_. True)\<rparr>"

theorem multisign_exact_witness:
  "checkMultiSign (sample_ctx (\<lambda>pk. if pk = [1] then 3 else 9)) sample_reader = Ok tesSUCCESS"
proof -
  let ?c = "sample_ctx (\<lambda>pk. if pk = [1] then 3 else 9)"
  have k: "keylet_account index_sha a \<noteq> keylet_signers index_sha 2" for a
    by (simp add: keylet_account_def keylet_signers_def ltACCOUNT_ROOT_def ltSIGNER_LIST_def)
  have "unat (getAccountRootIndex index_sha 3) \<noteq> unat (getAccountRootIndex index_sha 4)" unfolding index_sha_accounts by simp
  then have k3: "keylet_account index_sha 3 \<noteq> keylet_account index_sha 4" by (auto simp: keylet_account_def)
  have v: "validateQuorumAndSignerEntries 2 sample_signers (tx_Account (x_tx ?c)) = Ok tesSUCCESS"
    by (simp add: sample_ctx_simps sample_signers_def validateQuorumAndSignerEntries_def minMultiSigners_def maxMultiSigners_def require_def)
  have sr: "v_read sample_reader (keylet_account index_sha 3) = None"
    "v_read sample_reader (keylet_account index_sha 4) =
      Some (edit_fields (\<lambda>f. f\<lparr>sfFlags := lsfDisableMaster, sfRegularKey := Some 9\<rparr>) (make_entry (keylet_account index_sha 4)))"
    using k k3 by (simp_all add: sample_reader_def)
  have "v_read sample_reader (keylet_signers (x_sha ?c) (tx_Account (x_tx ?c))) =
      Some (edit_fields (writeSignersToSLE 2 sample_signers) (make_entry (keylet_signers index_sha 2)))"
    by (simp add: sample_reader_def sample_ctx_simps)
  from multisign_exact [OF this _ v sample_ctx_simps(8)] show ?thesis
    using sr by (auto simp: sample_signers_def signer_weight_def sample_ctx_simps)
qed

end
