(* ===== verification/Spec2Isabelle.thy ===== *)
theory Spec2Isabelle
  imports Amount_Wire RawIter Resource_World SHAMap_Iter Consensus_Props Taker_Props Directory_Props
    Line_Props RangeSet Transactor_Props
begin

text \<open>
  A verification library for \<^bold>\<open>radard\<close>, the server of the Radar ledger (a fork of rippled). Paths below are
  relative to \<open>src/src/ripple\<close>.

  \<^bold>\<open>The program.\<close> Servers agree, round by round, on a set of transactions (\<open>app/ledger\<close>). A transaction edits a
  sandbox over an open view over a closed ledger (\<open>ledger\<close>); closed ledgers and transaction sets are hash tries
  (\<open>shamap\<close>). Entries hold amounts (\<open>protocol/STAmount\<close>), are indexed by directories (\<open>ledger/impl/View.cpp\<close>), and
  travel as bytes (\<open>protocol/Serializer\<close>). A resource manager limits what peers and clients may ask for (\<open>resource\<close>).

  \<^bold>\<open>Conventions.\<close> A function that may throw returns \<open>'a res\<close>; \<open>Throw\<close> carries the exception, a failed \<open>assert\<close> is
  \<open>AssertFailed\<close>, a null dereference \<open>NullDeref\<close>, a loop that never ends \<open>Diverges\<close>. The assertions in the reads of a view
  (a zero key, an entry of another type than the keylet's) are predicates with names in \<open>_asserts\<close> instead, next to the
  value that a build without assertions returns; the functions that read through views use these values. Machine integers are words
  where they wrap and \<open>int\<close> where the code keeps them in range. \<open>std::map\<close> is a sorted association list (\<open>OrdMap\<close>);
  a hash map that is iterated is traversed in key order, one of the orders the code may take. SHA-512 is a parameter
  \<open>sha\<close>; theorems that need it assume that it has no collision among the messages at hand. Loggers and locks are
  omitted: each operation runs under the lock of its object.

  \<^bold>\<open>Theories.\<close>

  \<^item> \<open>Prelude\<close>, \<open>OrdMap\<close>, \<open>Bytes\<close>: results, words, ordered maps and big-endian bytes.
  \<^item> \<open>Amount\<close> (\<open>protocol/Issue\<close>, \<open>STAmount\<close>): issues, the amount record, \<open>canonicalize\<close>, order. Canonical form keeps the
    value up to truncation, throws exactly on overflow, and the order is the order of values.
  \<^item> \<open>IOUAmount\<close>, \<open>Amount_Arith\<close>, \<open>Amount_Sum\<close>: both amount classes, sums, products, quotients, rates, \<open>mulDiv\<close>, with
    error bounds against exact rational arithmetic; the two implementations of addition agree.
  \<^item> \<open>Quality\<close> (\<open>protocol/Quality\<close>): directed rounding, offer qualities, \<open>ceil_in\<close>, \<open>ceil_out\<close>, composition.
  \<^item> \<open>BaseUint\<close> (\<open>basics/base_uint.h\<close>), \<open>Serializer\<close>, \<open>Amount_Wire\<close>: limb arithmetic and hexadecimal text, the byte
    buffer and its iterator, variable-length prefixes, field identifiers, the wire form of amounts; round trips and
    the exact error conditions.
  \<^item> \<open>StateTables\<close>, \<open>ApplyTable\<close>, \<open>RawIter\<close> (\<open>ledger/detail\<close>): the layered views. Locales \<open>read_view\<close> and
    \<open>raw_target\<close> are the contracts of a view and of one that accepts a commit; a stack of tables refines the map of
    the ledger, commits of sandboxes into each other, into the open view and into the ledger included.
  \<^item> \<open>EntryView\<close>, \<open>Directory\<close>, \<open>Directory_Inv\<close>, \<open>Directory_Ops\<close>, \<open>Directory_Del\<close>, \<open>Directory_Props\<close>: \<open>ApplyView\<close> and the
    paged directories; locales \<open>entry_view\<close> and \<open>dir_view\<close> are interpreted on the sandbox.
  \<^item> \<open>SHAMap\<close>, \<open>SHAMap_Tree\<close>, \<open>SHAMap_Update\<close>, \<open>SHAMap_Map\<close>, \<open>SHAMap_Iter\<close>, \<open>SHAMap_Delta\<close>, \<open>SHAMap_Compare\<close>: the trie is
    a map (locale \<open>item_map\<close>), its shape and root hash depend on the contents only, the root hash authenticates them,
    iteration is in key order, and \<open>compare\<close> finds exactly the differences.
  \<^item> \<open>Decay\<close>, \<open>Resource\<close>, \<open>Resource_Inv\<close>, \<open>Resource_World\<close> (\<open>resource/impl\<close>): the resource manager with the handles its
    callers hold, as a step relation; every reachable state balances.
  \<^item> \<open>Indexes\<close> (\<open>protocol/impl/Indexes.cpp\<close>, \<open>Book.cpp\<close>): the indexes and keylets of all kinds of entries; entries share an
    index only where the hash (of book directories and asset states, its first 192 bits) collides, and the directories of a book sort by quality.
  \<^item> \<open>PaymentSandbox\<close>, \<open>LedgerEntries\<close>, \<open>TrustLines\<close> (\<open>ledger/impl/PaymentSandbox.cpp\<close>, the entry functions of
    \<open>ledger/impl/View.cpp\<close>): deferred credits; freezes, owner counts, referrals, native transfers, trust lines, offers, the
    release of assets, shares of fees, sends and holdings, over the record \<open>Fields\<close> of the fields of an entry and a view
    \<open>Env\<close>. \<open>Entry_Props\<close> states the view as the locale \<open>ledger_env\<close>, interprets it on the sandbox and shows that native
    transfers conserve, which references \<open>addRefer\<close> accepts and that referrals stay a forest; \<open>Line_Props\<close> shows what a
    credit does to a line and when it releases the sender's reserve.
  \<^item> \<open>Taker\<close>, \<open>Taker_Flow\<close>, \<open>Taker_Props\<close> (\<open>app/tx/impl/Taker.cpp\<close>, \<open>Offer.h\<close>): offer crossing. The three flows of a crossing
    stay within the offer, the order and the funds; a bridged crossing balances.
  \<^item> \<open>RangeSet\<close> (\<open>basics/impl/RangeSet.cpp\<close>): the set of ledger numbers a server holds, as a map of ranges; every history of
    changes acts like the same changes on a set, with an exception of \<open>setRange\<close> that the theorem spells out.
  \<^item> \<open>Results\<close> (\<open>protocol/TER.h\<close>), \<open>HashRouter\<close> (\<open>app/misc/HashRouter.cpp\<close>, \<open>app/tx/impl/apply.cpp\<close>), \<open>LoadFee\<close>
    (\<open>core/impl/LoadFeeTrack.cpp\<close>): result codes; the table of suppressed hashes, whose cached checks of transactions are
    exact unless multi-signing is allowed in one check and not in another, and which remembers a hash for the hold time; the load factors and their bounds.
  \<^item> \<open>Transactor\<close> (\<open>app/tx/impl/Transactor.cpp\<close>, \<open>applySteps.cpp\<close>, \<open>ApplyContext.cpp\<close>): the frame of all transactions, from
    \<open>preflight\<close> to the commit of the sandbox or the claim of a fee; what a type of transaction does is a record \<open>TxClass\<close> of
    functions. \<open>Transactors\<close> holds ten classes, with the choice \<open>tx_class\<close>. \<open>Transactor_Props\<close>: a transaction that fails
    pays its fee at most, multiple signatures are checked exactly, and an activation with several amounts of XRP creates
    all of them but the last.
  \<^item> \<open>LedgerTiming\<close>, \<open>DisputedTx\<close>, \<open>Consensus\<close> (\<open>app/ledger/impl/LedgerConsensusImp.cpp\<close>): the rules of timing, the
    avalanche vote on a disputed transaction, and a consensus round with all its event handlers. \<open>Consensus_Inv\<close> and
    \<open>Consensus_Round\<close> show that every handler keeps the invariant and fails no assertion; \<open>Consensus_Props\<close> holds
    the properties of rounds: agreement by supermajority, the end of a unanimous round, exact disputes, close times.

  \<^bold>\<open>Fuel and bounds.\<close> Loops that the code bounds by data are recursive functions with termination proofs. Fuel is used
  where the code follows links it did not make: reading a directory, walking an iterator and walking up the referees take a number of steps,
  and the theorems give the fuel that suffices (the entries of the directory, of the trie, of the table). \<open>compare\<close>
  recurses on the depth of the trie, at most 64. The 16384 differences that \<open>createDisputes\<close> asks for are the limit
  of the code, and the theorem about it assumes fewer.

  \<^bold>\<open>Not modelled.\<close> Payments, offers, account settings, dividends, suspended payments, rings and proposals, and the
  payment paths, which build on the entry functions; the metadata of transactions; \<open>accept\<close> and what follows a round;
  ZooKeeper-run consensus, a compile-time variant; acquisition of ledgers from peers; the object store, the overlay,
  RPC, JSON, SQL, configuration and threads, which are I/O; cryptography; vendored and generated code (SQLite, RocksDB,
  protobuf, Thrift, the HBase client).
\<close>

end
